(* ===== verification/Prelude.thy ===== *)
theory Prelude
  imports Main "HOL-Library.Word"
begin

text \<open>
  Shared vocabulary of the development: the fixed-width integer types of
  \<^verbatim>\<open>kernel/types.h\<close>, the kernel's constants (\<^verbatim>\<open>param.h\<close>, \<^verbatim>\<open>riscv.h\<close>,
  \<^verbatim>\<open>fs.h\<close>), the result type whose error is a kernel panic, the two loop shapes the kernel
  uses over and over (a loop whose body may panic, and a search for the first matching
  table slot), and the list and word lemmas the component theories share.
\<close>

unbundle bit_operations_syntax

section \<open>Types and constants\<close>

type_synonym byte = "8 word"
type_synonym u16 = "16 word"
type_synonym u32 = "32 word"
type_synonym u64 = "64 word"

definition PGSIZE :: nat where "PGSIZE = 4096"
definition BSIZE :: nat where "BSIZE = 1024"
definition NPROC :: nat where "NPROC = 64"
definition NOFILE :: nat where "NOFILE = 16"

named_theorems kconst "definitions of the kernel's numeric constants"
declare PGSIZE_def [kconst] BSIZE_def [kconst] NPROC_def [kconst] NOFILE_def [kconst]

section \<open>Results: a value or a kernel panic\<close>

text \<open>
  \<^verbatim>\<open>panic()\<close> never returns; it prints its message and spins. A function of the kernel that
  may panic returns \<open>Panic msg\<close> on that path. Error returns of the code (\<open>-1\<close> or a null
  pointer) are ordinary values inside \<open>Ok\<close>.
\<close>

datatype 'a result = Ok 'a | Panic string

fun bindR :: "'a result \<Rightarrow> ('a \<Rightarrow> 'b result) \<Rightarrow> 'b result" where
  "bindR (Ok a) f = f a"
| "bindR (Panic m) f = Panic m"

lemma bindR_eq_Ok [simp]: "(bindR r f = Ok b) = (\<exists>a. r = Ok a \<and> f a = Ok b)"
  by (cases r) auto

lemma bindR_eq_Panic:
  "(bindR r f = Panic m) = (r = Panic m \<or> (\<exists>a. r = Ok a \<and> f a = Panic m))"
  by (cases r) auto

lemma bindR_assoc: "bindR (bindR r f) g = bindR r (\<lambda>a. bindR (f a) g)"
  by (cases r) auto

text \<open>A counted loop whose body changes the state and may panic.\<close>

fun forR :: "('i \<Rightarrow> 's \<Rightarrow> 's result) \<Rightarrow> 'i list \<Rightarrow> 's \<Rightarrow> 's result" where
  "forR body [] s = Ok s"
| "forR body (i # l) s = bindR (body i s) (forR body l)"

lemma forR_append: "forR body (l @ l') s = bindR (forR body l s) (forR body l')"
proof (induction l arbitrary: s)
  case (Cons a l)
  then show ?case by (cases "body a s") auto
qed simp

lemma forR_cong [fundef_cong]:
  "l = l' \<Longrightarrow> s = s' \<Longrightarrow> (\<And>i t. i \<in> set l' \<Longrightarrow> f i t = g i t) \<Longrightarrow> forR f l s = forR g l' s'"
proof (induction l arbitrary: l' s s')
  case (Cons i l)
  then show ?case by (cases "g i s") auto
qed auto

lemma forR_inv:
  assumes "forR body l s = Ok t" and "I s"
    and "\<And>i s t. i \<in> set l \<Longrightarrow> I s \<Longrightarrow> body i s = Ok t \<Longrightarrow> I t"
  shows "I t"
  using assms
proof (induction l arbitrary: s)
  case (Cons i l)
  then obtain u where "body i s = Ok u" and "forR body l u = Ok t" by auto
  with Cons show ?case by (metis list.set_intros(1) list.set_intros(2))
qed simp

lemma forR_total:
  assumes "I s" and "\<And>i s. i \<in> set l \<Longrightarrow> I s \<Longrightarrow> \<exists>t. body i s = Ok t \<and> I t"
  shows "\<exists>t. forR body l s = Ok t \<and> I t"
  using assms
proof (induction l arbitrary: s)
  case (Cons i l)
  then obtain u where u: "body i s = Ok u" "I u" by (meson list.set_intros(1))
  with Cons obtain t where "forR body l u = Ok t \<and> I t" by (meson list.set_intros(2))
  with u show ?case by auto
qed simp

section \<open>Invariants of step relations\<close>

text \<open>
  What a component promises of its steps, and what its clients get: the invariant holds wherever the
  steps lead, and so does all that follows from it.
\<close>

locale step_invariant =
  fixes step :: "'s \<Rightarrow> 's \<Rightarrow> bool" and I :: "'s \<Rightarrow> bool"
  assumes step_keeps: "I s \<Longrightarrow> step s t \<Longrightarrow> I t"
begin

lemma reach:
  assumes "step\<^sup>*\<^sup>* s t" "I s"
  shows "I t"
  using assms by (induction rule: rtranclp_induct) (auto intro: step_keeps)

lemma reach_safe:
  assumes "step\<^sup>*\<^sup>* s t" "I s" "\<And>u. I u \<Longrightarrow> P u"
  shows "P t"
  using reach [OF assms(1,2)] by (rule assms(3))

end

section \<open>Searching a table for its first matching slot\<close>

text \<open>
  The loop \<^verbatim>\<open>for(i = 0; i < N; i++) if(P(tab[i])) return i;\<close> of the allocators.
\<close>

fun find_index :: "('a \<Rightarrow> bool) \<Rightarrow> 'a list \<Rightarrow> nat option" where
  "find_index P [] = None"
| "find_index P (x # xs) = (if P x then Some 0 else map_option Suc (find_index P xs))"

lemma find_index_None: "(find_index P xs = None) = (\<forall>x\<in>set xs. \<not> P x)"
  by (induction xs) auto

lemma find_index_Some:
  "find_index P xs = Some i \<longleftrightarrow> i < length xs \<and> P (xs ! i) \<and> (\<forall>j<i. \<not> P (xs ! j))"
proof (induction xs arbitrary: i)
  case (Cons x xs)
  show ?case
  proof (cases i)
    case 0
    then show ?thesis by auto
  next
    case (Suc k)
    then show ?thesis using Cons.IH [of k] by (auto simp: All_less_Suc2)
  qed
qed simp

lemma find_index_SomeD:
  "find_index P xs = Some i \<Longrightarrow> i < length xs \<and> P (xs ! i)"
  by (simp add: find_index_Some)

lemma find_index_ex: "x \<in> set xs \<Longrightarrow> P x \<Longrightarrow> \<exists>i. find_index P xs = Some i"
  using find_index_None [of P xs] by (cases "find_index P xs") auto

text \<open>
  The selection loop \<^verbatim>\<open>if(P(tab[i]) && key(tab[i]) < best_key) { best = i; best_key = ...; }\<close>,
  with \<open>-1\<close> for nothing found.
\<close>

fun argmin_from :: "('a \<Rightarrow> bool) \<Rightarrow> ('a \<Rightarrow> 'k::linorder) \<Rightarrow> 'a list \<Rightarrow> nat \<Rightarrow> int \<Rightarrow> 'k \<Rightarrow> int" where
  "argmin_from P key [] i best bk = best"
| "argmin_from P key (x # xs) i best bk =
     (if P x \<and> key x < bk then argmin_from P key xs (Suc i) (int i) (key x)
      else argmin_from P key xs (Suc i) best bk)"

definition is_argmin :: "('a \<Rightarrow> bool) \<Rightarrow> ('a \<Rightarrow> 'k::linorder) \<Rightarrow> 'a list \<Rightarrow> 'k \<Rightarrow> nat \<Rightarrow> bool" where
  "is_argmin P key xs bk k = (k < length xs \<and> P (xs ! k) \<and> key (xs ! k) < bk \<and>
     (\<forall>x\<in>set xs. P x \<longrightarrow> key (xs ! k) \<le> key x))"

lemma argmin_from_cases:
  "(argmin_from P key xs i best bk = best \<and> (\<forall>x\<in>set xs. P x \<longrightarrow> bk \<le> key x)) \<or>
   (\<exists>k. argmin_from P key xs i best bk = int (i + k) \<and> is_argmin P key xs bk k)"
proof (induction P key xs i best bk rule: argmin_from.induct)
  case (2 P key x xs i best bk)
  show ?case
  proof (cases "P x \<and> key x < bk")
    case True
    then have eq: "argmin_from P key (x # xs) i best bk = argmin_from P key xs (Suc i) (int i) (key x)"
      by simp
    from "2.IH"(1) [OF True] show ?thesis
    proof (elim disjE exE conjE)
      assume "argmin_from P key xs (Suc i) (int i) (key x) = int i"
        and "\<forall>y\<in>set xs. P y \<longrightarrow> key x \<le> key y"
      with True eq show ?thesis by (intro disjI2 exI [of _ 0]) (auto simp: is_argmin_def)
    next
      fix k assume "argmin_from P key xs (Suc i) (int i) (key x) = int (Suc i + k)"
        and "is_argmin P key xs (key x) k"
      with True eq show ?thesis by (intro disjI2 exI [of _ "Suc k"]) (auto simp: is_argmin_def)
    qed
  next
    case False
    then have eq: "argmin_from P key (x # xs) i best bk = argmin_from P key xs (Suc i) best bk"
      by (auto simp del: not_less)
    from "2.IH"(2) [OF False] show ?thesis
    proof (elim disjE exE conjE)
      assume "argmin_from P key xs (Suc i) best bk = best" "\<forall>y\<in>set xs. P y \<longrightarrow> bk \<le> key y"
      with False eq show ?thesis by (intro disjI1) auto
    next
      fix k assume "argmin_from P key xs (Suc i) best bk = int (Suc i + k)" "is_argmin P key xs bk k"
      with False eq show ?thesis by (intro disjI2 exI [of _ "Suc k"]) (auto simp: is_argmin_def)
    qed
  qed
qed simp

lemma argmin_from_start:
  "(argmin_from P key xs 0 (-1) bk < 0 \<and> (\<forall>x\<in>set xs. P x \<longrightarrow> bk \<le> key x)) \<or>
   (\<exists>k. argmin_from P key xs 0 (-1) bk = int k \<and> is_argmin P key xs bk k)"
  using argmin_from_cases [of P key xs 0 "-1" bk] by auto

section \<open>Positions on a ring\<close>

text \<open>How many steps the slot \<open>i\<close> of a ring of \<open>m\<close> slots is ahead of the slot \<open>s\<close>.\<close>

definition ring_dist :: "nat \<Rightarrow> nat \<Rightarrow> nat \<Rightarrow> nat" where
  "ring_dist m s i = (i + m - s) mod m"

lemma ring_dist_lt: "0 < m \<Longrightarrow> ring_dist m s i < m"
  by (simp add: ring_dist_def)

lemma ring_slot: "s < m \<Longrightarrow> i < m \<Longrightarrow> (s + ring_dist m s i) mod m = i"
proof -
  assume "s < m" "i < m"
  then have "(s + ring_dist m s i) mod m = (s + (i + m - s)) mod m" by (simp add: ring_dist_def mod_add_right_eq)
  also have "s + (i + m - s) = i + m" using \<open>s < m\<close> by simp
  finally show ?thesis using \<open>i < m\<close> by simp
qed

lemma ring_dist_slot: "s < m \<Longrightarrow> k < m \<Longrightarrow> ring_dist m s ((s + k) mod m) = k"
proof (cases "s + k < m")
  case True
  assume "s < m" "k < m"
  with True show ?thesis by (simp add: ring_dist_def)
next
  case False
  assume s: "s < m" "k < m"
  then have "(s + k) mod m = s + k - m" using False by (simp add: mod_if)
  then show ?thesis using False s by (simp add: ring_dist_def)
qed

section \<open>Lists\<close>

lemma nth_list_update_if:
  "i < length xs \<Longrightarrow> xs[i := x] ! j = (if j = i then x else xs ! j)"
  by (simp add: nth_list_update)

text \<open>A buffer cut into \<open>n\<close> consecutive chunks of \<open>k\<close> bytes.\<close>

definition chunk :: "nat \<Rightarrow> 'a list \<Rightarrow> nat \<Rightarrow> 'a list" where
  "chunk k xs i = take k (drop (i * k) xs)"

lemma concat_chunks: "concat (map (chunk k xs) [0..<n]) = take (n * k) xs"
proof (induction n)
  case (Suc n)
  have "take (Suc n * k) xs = take (n * k) xs @ chunk k xs n"
    using take_add [of "n * k" k xs] by (simp add: chunk_def add.commute)
  with Suc show ?case by simp
qed simp

lemma length_chunk: "length xs = n * k \<Longrightarrow> i < n \<Longrightarrow> length (chunk k xs i) = k"
proof -
  assume len: "length xs = n * k" and "i < n"
  then have "Suc i * k \<le> n * k" by (intro mult_le_mono1) simp
  with len show ?thesis by (simp add: chunk_def)
qed

end
