(* ===== verification/Spinlock.thy ===== *)
theory Spinlock
  imports Prelude
begin

text \<open>
  Spin locks and sleep locks: \<^verbatim>\<open>kernel/spinlock.c\<close> and \<^verbatim>\<open>kernel/sleeplock.c\<close>. The spin lock
  is modelled at the grain of its memory accesses, with any number of CPUs interleaving the
  atomic swap, the recording of the owner and the release; the sleep lock is modelled at the
  grain of the critical sections of the spin lock inside it.
\<close>

section \<open>Spin locks\<close>

record spinlock =
  locked :: bool
  lcpu :: "nat option"

text \<open>The fields of \<^verbatim>\<open>struct cpu\<close> that locking uses, and the interrupt enable bit.\<close>

record cpu =
  intr :: bool
  noff :: int
  intena :: bool

definition initlock :: spinlock where
  "initlock = \<lparr>locked = False, lcpu = None\<rparr>"

definition holding :: "nat \<Rightarrow> spinlock \<Rightarrow> bool" where
  "holding c lk = (locked lk \<and> lcpu lk = Some c)"

definition push_off :: "cpu \<Rightarrow> cpu" where
  "push_off c =
     (let old = intr c; c1 = c\<lparr>intr := False\<rparr>;
          c2 = (if noff c1 = 0 then c1\<lparr>intena := old\<rparr> else c1)
      in c2\<lparr>noff := noff c2 + 1\<rparr>)"

definition pop_off :: "cpu \<Rightarrow> cpu result" where
  "pop_off c =
     (if intr c then Panic ''pop_off - interruptible''
      else if noff c < 1 then Panic ''pop_off''
      else let c1 = c\<lparr>noff := noff c - 1\<rparr>
           in Ok (if noff c1 = 0 \<and> intena c1 then c1\<lparr>intr := True\<rparr> else c1))"

text \<open>
  Where a CPU is: outside the lock code, spinning in the loop of \<open>acquire\<close>, between the
  successful swap and recording itself in \<open>lk->cpu\<close>, or between clearing \<open>lk->cpu\<close> and
  \<open>__sync_lock_release\<close>.
\<close>

datatype pc = Run | Spinning nat | Swapped nat | Releasing nat

record smp =
  locks :: "nat \<Rightarrow> spinlock"
  cpus :: "nat \<Rightarrow> cpu"
  pcs :: "nat \<Rightarrow> pc"

definition acquire_enter :: "nat \<Rightarrow> nat \<Rightarrow> smp \<Rightarrow> smp result" where
  "acquire_enter c l s =
     (let s1 = s\<lparr>cpus := (cpus s)(c := push_off (cpus s c))\<rparr>
      in if holding c (locks s1 l) then Panic ''acquire''
         else Ok (s1\<lparr>pcs := (pcs s1)(c := Spinning l)\<rparr>))"

text \<open>One \<open>amoswap\<close>: it stores 1 and looks at the old value.\<close>

definition acquire_swap :: "nat \<Rightarrow> nat \<Rightarrow> smp \<Rightarrow> smp" where
  "acquire_swap c l s =
     (let old = locked (locks s l); s1 = s\<lparr>locks := (locks s)(l := (locks s l)\<lparr>locked := True\<rparr>)\<rparr>
      in if old then s1 else s1\<lparr>pcs := (pcs s1)(c := Swapped l)\<rparr>)"

definition acquire_leave :: "nat \<Rightarrow> nat \<Rightarrow> smp \<Rightarrow> smp" where
  "acquire_leave c l s =
     s\<lparr>locks := (locks s)(l := (locks s l)\<lparr>lcpu := Some c\<rparr>), pcs := (pcs s)(c := Run)\<rparr>"

definition release_enter :: "nat \<Rightarrow> nat \<Rightarrow> smp \<Rightarrow> smp result" where
  "release_enter c l s =
     (if \<not> holding c (locks s l) then Panic ''release''
      else Ok (s\<lparr>locks := (locks s)(l := (locks s l)\<lparr>lcpu := None\<rparr>), pcs := (pcs s)(c := Releasing l)\<rparr>))"

definition release_leave :: "nat \<Rightarrow> nat \<Rightarrow> smp \<Rightarrow> smp result" where
  "release_leave c l s =
     (let s1 = s\<lparr>locks := (locks s)(l := (locks s l)\<lparr>locked := False\<rparr>)\<rparr>
      in bindR (pop_off (cpus s1 c)) (\<lambda>cp.
           Ok (s1\<lparr>cpus := (cpus s1)(c := cp), pcs := (pcs s1)(c := Run)\<rparr>)))"

text \<open>
  Any CPU may take its next step; a CPU that runs outside the lock code with no lock held may
  also switch its interrupts on or off (\<open>intr_on\<close>, \<open>intr_off\<close>).
\<close>

inductive lock_step :: "smp \<Rightarrow> smp \<Rightarrow> bool" where
  enter: "pcs s c = Run \<Longrightarrow> acquire_enter c l s = Ok s' \<Longrightarrow> lock_step s s'"
| swap: "pcs s c = Spinning l \<Longrightarrow> lock_step s (acquire_swap c l s)"
| leave: "pcs s c = Swapped l \<Longrightarrow> lock_step s (acquire_leave c l s)"
| rel_enter: "pcs s c = Run \<Longrightarrow> release_enter c l s = Ok s' \<Longrightarrow> lock_step s s'"
| rel_leave: "pcs s c = Releasing l \<Longrightarrow> release_leave c l s = Ok s' \<Longrightarrow> lock_step s s'"
| interrupts: "pcs s c = Run \<Longrightarrow> noff (cpus s c) = 0 \<Longrightarrow>
    lock_step s (s\<lparr>cpus := (cpus s)(c := (cpus s c)\<lparr>intr := b\<rparr>)\<rparr>)"

inductive_cases lock_stepE: "lock_step s s'"

definition smp_boot :: smp where
  "smp_boot = \<lparr>locks = (\<lambda>_. initlock), cpus = (\<lambda>_. \<lparr>intr = False, noff = 0, intena = False\<rparr>), pcs = (\<lambda>_. Run)\<rparr>"

inductive lock_reach :: "smp \<Rightarrow> bool" where
  boot: "lock_reach smp_boot"
| step: "lock_reach s \<Longrightarrow> lock_step s s' \<Longrightarrow> lock_reach s'"

text \<open>CPU \<open>c\<close> is inside the critical section of \<open>l\<close>: from its swap to its release.\<close>

definition owns :: "smp \<Rightarrow> nat \<Rightarrow> nat \<Rightarrow> bool" where
  "owns s c l = (pcs s c = Swapped l \<or> pcs s c = Releasing l \<or> lcpu (locks s l) = Some c)"

definition held :: "smp \<Rightarrow> nat \<Rightarrow> nat set" where
  "held s c = {l. lcpu (locks s l) = Some c}"

text \<open>The invariant: who owns a lock, and how the nesting depth counts locks.\<close>

definition owner_inv :: "smp \<Rightarrow> bool" where
  "owner_inv s = ((\<forall>l. locked (locks s l) = (\<exists>c. owns s c l)) \<and>
     (\<forall>c d l. owns s c l \<and> owns s d l \<longrightarrow> c = d) \<and>
     (\<forall>c l. pcs s c = Swapped l \<or> pcs s c = Releasing l \<longrightarrow> lcpu (locks s l) = None))"

definition depth_inv :: "smp \<Rightarrow> nat \<Rightarrow> bool" where
  "depth_inv s c = (finite (held s c) \<and>
     noff (cpus s c) = int (card (held s c)) + (if pcs s c = Run then 0 else 1) \<and>
     (intr (cpus s c) \<longrightarrow> noff (cpus s c) = 0))"

definition lock_inv :: "smp \<Rightarrow> bool" where
  "lock_inv s = (owner_inv s \<and> (\<forall>c. depth_inv s c))"

lemma owner_invD:
  assumes "owner_inv s"
  shows "locked (locks s l) = (\<exists>c. owns s c l)" "owns s c l \<Longrightarrow> owns s d l \<Longrightarrow> c = d"
    "pcs s c = Swapped l \<Longrightarrow> lcpu (locks s l) = None" "pcs s c = Releasing l \<Longrightarrow> lcpu (locks s l) = None"
  using assms unfolding owner_inv_def by blast+

lemma owner_invI:
  assumes "\<And>l. locked (locks s l) = (\<exists>c. owns s c l)" "\<And>c d l. owns s c l \<Longrightarrow> owns s d l \<Longrightarrow> c = d"
    "\<And>c l. pcs s c = Swapped l \<or> pcs s c = Releasing l \<Longrightarrow> lcpu (locks s l) = None"
  shows "owner_inv s"
  using assms unfolding owner_inv_def by blast

text \<open>How each step changes ownership.\<close>

lemma owns_enter:
  "pcs s c = Run \<Longrightarrow> acquire_enter c l s = Ok s' \<Longrightarrow> owns s' d k = owns s d k \<and> locks s' = locks s"
  by (auto simp: acquire_enter_def owns_def Let_def split: if_splits)

lemma owner_enter:
  assumes "owner_inv s" "pcs s c = Run" "acquire_enter c l s = Ok s'"
  shows "owner_inv s'"
proof (rule owner_invI)
  fix d k assume "pcs s' d = Swapped k \<or> pcs s' d = Releasing k"
  then have "pcs s d = Swapped k \<or> pcs s d = Releasing k"
    using assms(3) by (auto simp: acquire_enter_def Let_def split: if_splits)
  then show "lcpu (locks s' k) = None" using owner_invD(3,4) [OF assms(1)] owns_enter [OF assms(2,3)] by metis
qed (use owns_enter [OF assms(2,3)] owner_invD [OF assms(1)] in metis)+

lemma owns_swap:
  assumes "owner_inv s" "pcs s c = Spinning l"
  shows "owns (acquire_swap c l s) d k = (owns s d k \<or> (\<not> locked (locks s l) \<and> d = c \<and> k = l))"
  using assms(2) by (auto simp: acquire_swap_def owns_def Let_def)

lemma owner_swap:
  assumes "owner_inv s" "pcs s c = Spinning l"
  shows "owner_inv (acquire_swap c l s)"
proof (rule owner_invI)
  fix k
  show "locked (locks (acquire_swap c l s) k) = (\<exists>d. owns (acquire_swap c l s) d k)"
    unfolding owns_swap [OF assms] using owner_invD(1) [OF assms(1)] by (auto simp: acquire_swap_def Let_def)
next
  fix d e k assume "owns (acquire_swap c l s) d k" "owns (acquire_swap c l s) e k"
  then show "d = e" unfolding owns_swap [OF assms] using owner_invD(1,2) [OF assms(1)] by metis
next
  fix d k assume "pcs (acquire_swap c l s) d = Swapped k \<or> pcs (acquire_swap c l s) d = Releasing k"
  moreover have "lcpu (locks s l) = None" if "\<not> locked (locks s l)"
    using that owner_invD(1) [OF assms(1)] by (cases "lcpu (locks s l)") (auto simp: owns_def)
  ultimately show "lcpu (locks (acquire_swap c l s) k) = None"
    using owner_invD(3,4) [OF assms(1)] by (auto simp: acquire_swap_def Let_def split: if_splits)
qed

lemma owns_leave:
  assumes "owner_inv s" "pcs s c = Swapped l"
  shows "owns (acquire_leave c l s) d k = owns s d k"
  using assms(2) owner_invD(3) [OF assms] by (auto simp: acquire_leave_def owns_def)

lemma owner_leave:
  assumes "owner_inv s" "pcs s c = Swapped l"
  shows "owner_inv (acquire_leave c l s)"
proof (rule owner_invI)
  fix k
  show "locked (locks (acquire_leave c l s) k) = (\<exists>d. owns (acquire_leave c l s) d k)"
    unfolding owns_leave [OF assms] using owner_invD(1) [OF assms(1)] by (auto simp: acquire_leave_def)
next
  fix d e k assume "owns (acquire_leave c l s) d k" "owns (acquire_leave c l s) e k"
  then show "d = e" unfolding owns_leave [OF assms] using owner_invD(2) [OF assms(1)] by metis
next
  fix d k assume d: "pcs (acquire_leave c l s) d = Swapped k \<or> pcs (acquire_leave c l s) d = Releasing k"
  then have "d \<noteq> c" and p: "pcs s d = Swapped k \<or> pcs s d = Releasing k"
    by (auto simp: acquire_leave_def split: if_splits)
  then have "k \<noteq> l" using owner_invD(2) [OF assms(1), of c l d] assms(2) by (auto simp: owns_def)
  then show "lcpu (locks (acquire_leave c l s) k) = None"
    using owner_invD(3,4) [OF assms(1)] p by (auto simp: acquire_leave_def)
qed

lemma owns_rel_enter:
  assumes "owner_inv s" "pcs s c = Run" "release_enter c l s = Ok s'"
  shows "owns s' d k = owns s d k" "locked (locks s' k) = locked (locks s k)"
  using assms(2,3) by (auto simp: release_enter_def owns_def holding_def split: if_splits)

lemma owner_rel_enter:
  assumes "owner_inv s" "pcs s c = Run" "release_enter c l s = Ok s'"
  shows "owner_inv s'"
proof (rule owner_invI)
  fix d k assume d: "pcs s' d = Swapped k \<or> pcs s' d = Releasing k"
  show "lcpu (locks s' k) = None"
  proof (cases "k = l")
    case True
    then show ?thesis using assms(3) by (auto simp: release_enter_def split: if_splits)
  next
    case False
    then have "pcs s d = Swapped k \<or> pcs s d = Releasing k"
      using d assms(2,3) by (auto simp: release_enter_def split: if_splits)
    then show ?thesis
      using owner_invD(3,4) [OF assms(1)] False assms(3) by (auto simp: release_enter_def split: if_splits)
  qed
qed (use owns_rel_enter [OF assms] owner_invD [OF assms(1)] in metis)+

lemma owns_rel_leave:
  assumes "owner_inv s" "pcs s c = Releasing l" "release_leave c l s = Ok s'"
  shows "owns s' d k = (owns s d k \<and> \<not> (d = c \<and> k = l))" "locked (locks s' k) = (locked (locks s k) \<and> k \<noteq> l)"
proof -
  have "lcpu (locks s l) = None" using owner_invD(4) [OF assms(1,2)] .
  then show "owns s' d k = (owns s d k \<and> \<not> (d = c \<and> k = l))"
    using assms(2,3) by (cases "d = c"; cases "k = l") (auto simp: release_leave_def owns_def Let_def)
  show "locked (locks s' k) = (locked (locks s k) \<and> k \<noteq> l)"
    using assms(3) by (cases "k = l") (auto simp: release_leave_def Let_def)
qed

lemma owner_rel_leave:
  assumes "owner_inv s" "pcs s c = Releasing l" "release_leave c l s = Ok s'"
  shows "owner_inv s'"
proof (rule owner_invI)
  fix k
  have "owns s c l" using assms(2) by (simp add: owns_def)
  then show "locked (locks s' k) = (\<exists>d. owns s' d k)"
    using owns_rel_leave [OF assms] owner_invD(1,2) [OF assms(1)] by metis
next
  fix d e k assume "owns s' d k" "owns s' e k"
  then show "d = e" using owns_rel_leave [OF assms] owner_invD(2) [OF assms(1)] by metis
next
  fix d k assume "pcs s' d = Swapped k \<or> pcs s' d = Releasing k"
  then show "lcpu (locks s' k) = None"
    using owner_invD(3,4) [OF assms(1)] assms(3) by (auto simp: release_leave_def Let_def split: if_splits)
qed

lemma owner_inv_step: "lock_step s s' \<Longrightarrow> owner_inv s \<Longrightarrow> owner_inv s'"
proof (induction rule: lock_step.induct)
  case (interrupts s c b)
  then show ?case unfolding owner_inv_def owns_def by simp
qed (blast intro: owner_enter owner_swap owner_leave owner_rel_enter owner_rel_leave)+

lemma push_off_simps:
  "noff (push_off c) = noff c + 1" "\<not> intr (push_off c)"
  by (simp_all add: push_off_def Let_def)

lemma pop_off_ok:
  assumes "\<not> intr c" "1 \<le> noff c"
  obtains c' where "pop_off c = Ok c'" "noff c' = noff c - 1" "intr c' \<Longrightarrow> noff c' = 0"
proof
  let ?c = "c\<lparr>noff := noff c - 1\<rparr>"
  show "pop_off c = Ok (if noff ?c = 0 \<and> intena ?c then ?c\<lparr>intr := True\<rparr> else ?c)"
    using assms by (simp add: pop_off_def Let_def)
qed (use assms in \<open>auto split: if_splits\<close>)

lemma depth_invI:
  assumes "finite (held s c)" "noff (cpus s c) = int (card (held s c)) + (if pcs s c = Run then 0 else 1)"
    "intr (cpus s c) \<Longrightarrow> noff (cpus s c) = 0"
  shows "depth_inv s c"
  using assms by (simp add: depth_inv_def)

lemma depth_cong:
  assumes "depth_inv s d" "held s' d = held s d" "cpus s' d = cpus s d" "(pcs s' d = Run) = (pcs s d = Run)"
  shows "depth_inv s' d"
  using assms unfolding depth_inv_def by auto

lemma depth_enter:
  assumes "\<And>d. depth_inv s d" "pcs s c = Run" "acquire_enter c l s = Ok s'"
  shows "depth_inv s' d"
proof (cases "d = c")
  case True
  have "held s' c = held s c" "cpus s' c = push_off (cpus s c)" "pcs s' c \<noteq> Run"
    using assms(3) by (auto simp: acquire_enter_def held_def Let_def split: if_splits)
  then show ?thesis using assms(1) [of c] assms(2) True push_off_simps [of "cpus s c"] by (simp add: depth_inv_def)
next
  case False
  then show ?thesis
    by (intro depth_cong [OF assms(1)]) (use assms(3) in \<open>auto simp: acquire_enter_def held_def Let_def split: if_splits\<close>)
qed

lemma depth_swap:
  assumes "\<And>d. depth_inv s d" "pcs s c = Spinning l"
  shows "depth_inv (acquire_swap c l s) d"
  by (rule depth_cong [OF assms(1)]) (use assms(2) in \<open>auto simp: acquire_swap_def held_def Let_def\<close>)

lemma depth_leave:
  assumes "\<And>d. depth_inv s d" "owner_inv s" "pcs s c = Swapped l"
  shows "depth_inv (acquire_leave c l s) d"
proof (cases "d = c")
  case True
  have "lcpu (locks s l) = None" using owner_invD(3) [OF assms(2,3)] .
  then have "held (acquire_leave c l s) c = insert l (held s c)" "l \<notin> held s c"
    by (auto simp: held_def acquire_leave_def)
  moreover have "cpus (acquire_leave c l s) c = cpus s c" "pcs (acquire_leave c l s) c = Run"
    by (simp_all add: acquire_leave_def)
  ultimately show ?thesis using assms(1) [of c] assms(3) True unfolding depth_inv_def by auto
next
  case False
  then show ?thesis
    by (intro depth_cong [OF assms(1)])
      (use owner_invD(3) [OF assms(2,3)] in \<open>auto simp: acquire_leave_def held_def\<close>)
qed

lemma depth_rel_enter:
  assumes "\<And>d. depth_inv s d" "pcs s c = Run" "release_enter c l s = Ok s'"
  shows "depth_inv s' d"
proof (cases "d = c")
  case True
  have l: "l \<in> held s c" "held s' c = held s c - {l}" "cpus s' c = cpus s c" "pcs s' c \<noteq> Run"
    using assms(3) by (auto simp: release_enter_def held_def holding_def split: if_splits)
  then have "int (card (held s' c)) + 1 = int (card (held s c))"
    using assms(1) [of c] card_Suc_Diff1 [of "held s c" l] by (simp add: depth_inv_def)
  moreover have n: "noff (cpus s c) = int (card (held s c))" "finite (held s c)"
    "intr (cpus s c) \<longrightarrow> noff (cpus s c) = 0" using assms(1) [of c] assms(2) by (auto simp: depth_inv_def)
  ultimately show ?thesis
    unfolding True using l(3,4) finite_Diff [OF n(2), of "{l}"] l(2) by (intro depth_invI) simp_all
next
  case False
  then show ?thesis
    by (intro depth_cong [OF assms(1)])
      (use assms(3) in \<open>auto simp: release_enter_def held_def holding_def split: if_splits\<close>)
qed

lemma release_leave_ok:
  assumes "depth_inv s c" "pcs s c = Releasing l"
  obtains cp where "pop_off (cpus s c) = Ok cp" "noff cp = noff (cpus s c) - 1" "intr cp \<Longrightarrow> noff cp = 0"
proof -
  have "\<not> intr (cpus s c)" "1 \<le> noff (cpus s c)" using assms by (auto simp: depth_inv_def)
  then show thesis using pop_off_ok that by blast
qed

lemma depth_rel_leave:
  assumes "\<And>d. depth_inv s d" "pcs s c = Releasing l" "release_leave c l s = Ok s'"
  shows "depth_inv s' d"
proof (cases "d = c")
  case True
  obtain cp where cp: "pop_off (cpus s c) = Ok cp" "noff cp = noff (cpus s c) - 1" "intr cp \<Longrightarrow> noff cp = 0"
    using release_leave_ok [OF assms(1,2)] by blast
  have "held s' c = held s c" "cpus s' c = cp" "pcs s' c = Run"
    using assms(3) cp(1) by (auto simp: release_leave_def held_def Let_def split: if_splits)
  then show ?thesis using assms(1) [of c] assms(2) cp True by (simp add: depth_inv_def)
next
  case False
  then show ?thesis
    by (intro depth_cong [OF assms(1)]) (use assms(3) in \<open>auto simp: release_leave_def held_def Let_def split: if_splits\<close>)
qed

lemma lock_inv_step: "lock_step s s' \<Longrightarrow> lock_inv s \<Longrightarrow> lock_inv s'"
proof -
  assume st: "lock_step s s'" and inv: "lock_inv s"
  have o: "owner_inv s" and d: "\<And>d. depth_inv s d" using inv by (auto simp: lock_inv_def)
  from st have "depth_inv s' d" for d
  proof cases
    case (enter c l) then show ?thesis using depth_enter [OF d] by blast
  next
    case (swap c l) then show ?thesis using depth_swap [OF d] by blast
  next
    case (leave c l) then show ?thesis using depth_leave [OF d o] by blast
  next
    case (rel_enter c l) then show ?thesis using depth_rel_enter [OF d] by blast
  next
    case (rel_leave c l) then show ?thesis using depth_rel_leave [OF d] by blast
  next
    case (interrupts c b) then show ?thesis using d [of d] by (auto simp: depth_inv_def held_def)
  qed
  with owner_inv_step [OF st o] show ?thesis by (simp add: lock_inv_def)
qed

lemma lock_inv_boot: "lock_inv smp_boot"
  by (simp add: lock_inv_def owner_inv_def depth_inv_def owns_def held_def smp_boot_def initlock_def)

lemma lock_reach_inv: "lock_reach s \<Longrightarrow> lock_inv s"
  by (induction rule: lock_reach.induct) (auto intro: lock_inv_boot lock_inv_step)

section \<open>Sleep locks\<close>

text \<open>
  One sleep lock and the processes that use it. Each pass of \<open>acquiresleep\<close> and \<open>releasesleep\<close> runs under
  the spin lock \<open>lk->lk\<close>, and \<open>sleep\<close> puts the process to sleep and gives up that spin lock in
  one step, so they interleave as whole steps.
\<close>

datatype sleeper = Outside | Trying | Asleep | Holder

record sleeplock =
  sl_locked :: bool
  sl_pid :: int
  users :: "int \<Rightarrow> sleeper"

definition initsleeplock :: sleeplock where
  "initsleeplock = \<lparr>sl_locked = False, sl_pid = 0, users = (\<lambda>_. Outside)\<rparr>"

text \<open>One pass of the loop of \<open>acquiresleep\<close>.\<close>

definition acquiresleep_try :: "int \<Rightarrow> sleeplock \<Rightarrow> sleeplock" where
  "acquiresleep_try p lk =
     (if sl_locked lk then lk\<lparr>users := (users lk)(p := Asleep)\<rparr>
      else lk\<lparr>sl_locked := True, sl_pid := p, users := (users lk)(p := Holder)\<rparr>)"

text \<open>\<open>wakeup(lk)\<close> makes every sleeper try again.\<close>

definition releasesleep :: "int \<Rightarrow> sleeplock \<Rightarrow> sleeplock" where
  "releasesleep p lk =
     lk\<lparr>sl_locked := False, sl_pid := 0,
        users := (\<lambda>q. if users ((lk\<lparr>users := (users lk)(p := Outside)\<rparr>)) q = Asleep then Trying
                      else users ((lk\<lparr>users := (users lk)(p := Outside)\<rparr>)) q)\<rparr>"

definition holdingsleep :: "int \<Rightarrow> sleeplock \<Rightarrow> bool" where
  "holdingsleep p lk = (sl_locked lk \<and> sl_pid lk = p)"

inductive sleep_reach :: "sleeplock \<Rightarrow> bool" where
  init: "sleep_reach initsleeplock"
| call: "sleep_reach lk \<Longrightarrow> users lk p = Outside \<Longrightarrow> sleep_reach (lk\<lparr>users := (users lk)(p := Trying)\<rparr>)"
| attempt: "sleep_reach lk \<Longrightarrow> users lk p = Trying \<Longrightarrow> sleep_reach (acquiresleep_try p lk)"
| rel: "sleep_reach lk \<Longrightarrow> users lk p = Holder \<Longrightarrow> sleep_reach (releasesleep p lk)"

lemma sleep_inv:
  "sleep_reach lk \<Longrightarrow> (\<forall>p. (users lk p = Holder) = holdingsleep p lk) \<and> ((\<exists>p. users lk p = Asleep) \<longrightarrow> sl_locked lk)"
proof (induction rule: sleep_reach.induct)
  case (rel lk p)
  then show ?case by (auto simp: releasesleep_def holdingsleep_def)
next
  case (call lk p)
  then have "\<not> holdingsleep p lk" by (metis sleeper.distinct(5))
  then show ?case using call by (auto simp: holdingsleep_def)
next
  case (attempt lk p)
  then have "\<not> holdingsleep p lk" by (metis sleeper.distinct(9))
  then show ?case using attempt by (auto simp: acquiresleep_try_def holdingsleep_def)
qed (auto simp: initsleeplock_def holdingsleep_def)

section \<open>Properties of the locks\<close>

text \<open>
  C16. Mutual exclusion for spin locks: whatever the interleaving of the CPUs' atomic swaps,
  owner updates and releases, two CPUs are never both between their swap and their release of
  the same lock; the lock word is set exactly while some CPU is there; \<open>holding\<close> answers
  truthfully for every CPU outside the lock code; and a CPU that owns or waits for a lock has its
  interrupts off.
\<close>

theorem spinlock_mutual_exclusion:
  assumes "lock_reach s"
  shows "(owns s c l \<and> owns s d l \<longrightarrow> c = d) \<and> locked (locks s l) = (\<exists>c. owns s c l) \<and>
    (pcs s c = Run \<longrightarrow> holding c (locks s l) = owns s c l) \<and>
    (owns s c l \<or> pcs s c = Spinning l \<longrightarrow> \<not> intr (cpus s c))"
proof -
  have o: "owner_inv s" and d: "depth_inv s c" using lock_reach_inv [OF assms] by (auto simp: lock_inv_def)
  have "0 < noff (cpus s c)" if "owns s c l \<or> pcs s c = Spinning l"
  proof (cases "pcs s c = Run")
    case True
    then have "l \<in> held s c" using that by (auto simp: owns_def held_def)
    then have "0 < card (held s c)" using d by (auto simp: depth_inv_def card_gt_0_iff)
    then show ?thesis using d True by (simp add: depth_inv_def)
  qed (use d in \<open>auto simp: depth_inv_def\<close>)
  moreover have "intr (cpus s c) \<longrightarrow> noff (cpus s c) = 0" using d unfolding depth_inv_def by blast
  moreover have "holding c (locks s l) = owns s c l" if "pcs s c = Run"
    using that owner_invD(1) [OF o, of l] by (auto simp: holding_def owns_def)
  ultimately show ?thesis using owner_invD(1) [OF o, of l] owner_invD(2) [OF o, of c l d] by auto
qed

text \<open>A reachable state in which CPU 0 holds lock 7 and CPU 1 spins for it.\<close>

definition smp_contended :: smp where
  "smp_contended = acquire_swap 1 7 (case acquire_enter 1 7 (acquire_leave 0 7 (acquire_swap 0 7
     (case acquire_enter 0 7 smp_boot of Ok s \<Rightarrow> s | Panic _ \<Rightarrow> smp_boot))) of Ok s \<Rightarrow> s | Panic _ \<Rightarrow> smp_boot)"

lemma smp_contended_reach: "lock_reach smp_contended"
proof -
  obtain s1 where s1: "acquire_enter 0 7 smp_boot = Ok s1" "pcs s1 0 = Spinning 7" "pcs s1 1 = Run"
      "\<not> locked (locks s1 7)"
    by (simp add: acquire_enter_def smp_boot_def initlock_def holding_def Let_def)
  have r1: "lock_reach s1" using s1 boot lock_reach.step [OF boot lock_step.enter] by (simp add: smp_boot_def)
  let ?s2 = "acquire_leave 0 7 (acquire_swap 0 7 s1)"
  have "lock_reach (acquire_swap 0 7 s1)" using lock_reach.step [OF r1 lock_step.swap [OF s1(2)]] .
  moreover have "pcs (acquire_swap 0 7 s1) 0 = Swapped 7" using s1(4) by (simp add: acquire_swap_def Let_def)
  ultimately have r2: "lock_reach ?s2" using lock_reach.step lock_step.leave by blast
  have p: "pcs ?s2 1 = Run" "lcpu (locks ?s2 7) = Some 0"
    using s1 by (simp_all add: acquire_leave_def acquire_swap_def Let_def)
  then obtain s3 where s3: "acquire_enter 1 7 ?s2 = Ok s3" "pcs s3 1 = Spinning 7"
    by (simp add: acquire_enter_def holding_def Let_def)
  have "lock_reach s3" using lock_reach.step [OF r2 lock_step.enter [OF p(1) s3(1)]] .
  then have "lock_reach (acquire_swap 1 7 s3)" using lock_reach.step lock_step.swap [OF s3(2)] by blast
  then show ?thesis by (simp only: smp_contended_def s1(1) s3(1) result.case)
qed

theorem spinlock_mutual_exclusion_witness:
  "\<not> (owns smp_contended 0 7 \<and> owns smp_contended 1 7) \<and> \<not> intr (cpus smp_contended 1)"
  using spinlock_mutual_exclusion [OF smp_contended_reach, of 0 7 1]
    spinlock_mutual_exclusion [OF smp_contended_reach, of 1 7 0]
  by (simp add: smp_contended_def acquire_enter_def acquire_leave_def acquire_swap_def smp_boot_def initlock_def
      holding_def Let_def)

text \<open>
  Misuse is caught and nothing else panics: in every reachable state a CPU outside the lock
  code that acquires a lock it already owns, or releases one it does not own, panics; any other
  acquire starts, any other release finishes, and \<open>release\<close> never fails in \<open>pop_off\<close>.
\<close>

theorem spinlock_panics_exactly:
  assumes "lock_reach s" "pcs s c = Run"
  shows "(acquire_enter c l s = Panic ''acquire'') = owns s c l \<and>
    (release_enter c l s = Panic ''release'') = (\<not> owns s c l) \<and>
    (\<forall>s1. release_enter c l s = Ok s1 \<longrightarrow> (\<exists>s2. release_leave c l s1 = Ok s2 \<and> \<not> owns s2 c l \<and> \<not> locked (locks s2 l)))"
proof -
  have inv: "lock_inv s" using lock_reach_inv [OF assms(1)] .
  have o: "owner_inv s" using inv by (auto simp: lock_inv_def)
  have h: "holding c (locks s l) = owns s c l"
    using assms(2) owner_invD(1) [OF o, of l] by (auto simp: holding_def owns_def)
  have "\<exists>s2. release_leave c l s1 = Ok s2 \<and> \<not> owns s2 c l \<and> \<not> locked (locks s2 l)" if r: "release_enter c l s = Ok s1" for s1
  proof -
    have i1: "lock_inv s1" using lock_inv_step [OF lock_step.rel_enter [OF assms(2) r] inv] .
    have pc: "pcs s1 c = Releasing l" using r by (auto simp: release_enter_def split: if_splits)
    obtain cp where "pop_off (cpus s1 c) = Ok cp" using release_leave_ok [OF _ pc] i1 by (auto simp: lock_inv_def)
    then obtain s2 where s2: "release_leave c l s1 = Ok s2" by (simp add: release_leave_def Let_def)
    then show ?thesis using owns_rel_leave [OF _ pc s2] i1 by (auto simp: lock_inv_def)
  qed
  then show ?thesis using h by (auto simp: acquire_enter_def release_enter_def Let_def)
qed

theorem spinlock_panics_exactly_witness:
  "acquire_enter 0 7 smp_contended = Panic ''acquire'' \<and> release_enter 0 8 smp_contended = Panic ''release''"
  using spinlock_panics_exactly [OF smp_contended_reach, of 0 7] spinlock_panics_exactly [OF smp_contended_reach, of 0 8]
  by (simp add: smp_contended_def acquire_enter_def acquire_leave_def acquire_swap_def smp_boot_def initlock_def
      holding_def owns_def Let_def)

text \<open>
  C30. Sleep locks: at most one process holds the lock and \<open>holdingsleep\<close> names it, and no
  wakeup is lost: whenever a process sleeps for the lock, the lock is held, so a release that
  wakes it is still to come.
\<close>

theorem sleeplock_safe:
  assumes "sleep_reach lk"
  shows "(users lk p = Holder \<and> users lk q = Holder \<longrightarrow> p = q) \<and> (users lk p = Holder) = holdingsleep p lk \<and>
    (users lk p = Asleep \<longrightarrow> (\<exists>h. users lk h = Holder \<and> users (releasesleep h lk) p = Trying))"
proof -
  have i: "\<And>p. (users lk p = Holder) = holdingsleep p lk" "(\<exists>p. users lk p = Asleep) \<longrightarrow> sl_locked lk"
    using sleep_inv [OF assms] by auto
  have "\<exists>h. users lk h = Holder \<and> users (releasesleep h lk) p = Trying" if a: "users lk p = Asleep"
  proof -
    have "holdingsleep (sl_pid lk) lk" using i(2) a by (auto simp: holdingsleep_def)
    then have h: "users lk (sl_pid lk) = Holder" using i(1) by simp
    then have "users (releasesleep (sl_pid lk) lk) p = Trying" using a by (auto simp: releasesleep_def)
    with h show ?thesis by blast
  qed
  moreover have "users lk p = Holder \<and> users lk q = Holder \<longrightarrow> p = q" using i(1) by (auto simp: holdingsleep_def)
  ultimately show ?thesis using i(1) by blast
qed

definition sleep_contended :: sleeplock where
  "sleep_contended = acquiresleep_try 4 ((acquiresleep_try 3 (initsleeplock\<lparr>users := (users initsleeplock)(3 := Trying)\<rparr>))
     \<lparr>users := (users (acquiresleep_try 3 (initsleeplock\<lparr>users := (users initsleeplock)(3 := Trying)\<rparr>)))(4 := Trying)\<rparr>)"

lemma sleep_contended_reach: "sleep_reach sleep_contended"
  unfolding sleep_contended_def
  by (intro sleep_reach.intros) (simp_all add: initsleeplock_def acquiresleep_try_def)

theorem sleeplock_safe_witness:
  "users sleep_contended 4 = Asleep \<and> holdingsleep 3 sleep_contended \<and>
   (\<exists>h. users sleep_contended h = Holder \<and> users (releasesleep h sleep_contended) 4 = Trying)"
  using sleeplock_safe [OF sleep_contended_reach, of 4 3]
  by (simp add: sleep_contended_def initsleeplock_def acquiresleep_try_def holdingsleep_def)

end
