(* ===== verification/Bytes.thy ===== *)
theory Bytes
  imports Prelude
begin

text \<open>
  Bytes inside a disk block: reading a slice, patching one, and the little-endian integers that
  C structures laid over a block (log header, super block, inodes, directory entries, indirect
  blocks) consist of.
\<close>

section \<open>Slices and patches\<close>

definition slice :: "nat \<Rightarrow> nat \<Rightarrow> byte list \<Rightarrow> byte list" where
  "slice off n bs = take n (drop off bs)"

definition patch :: "nat \<Rightarrow> byte list \<Rightarrow> byte list \<Rightarrow> byte list" where
  "patch off xs bs = take off bs @ xs @ drop (off + length xs) bs"

lemma length_slice [simp]: "off + n \<le> length bs \<Longrightarrow> length (slice off n bs) = n"
  by (simp add: slice_def)

lemma length_patch [simp]: "off + length xs \<le> length bs \<Longrightarrow> length (patch off xs bs) = length bs"
  by (simp add: patch_def)

lemma nth_patch:
  assumes "off + length xs \<le> length bs" "i < length bs"
  shows "patch off xs bs ! i = (if off \<le> i \<and> i < off + length xs then xs ! (i - off) else bs ! i)"
  using assms by (auto simp: patch_def nth_append min_def)

lemma nth_slice: "off + n \<le> length bs \<Longrightarrow> i < n \<Longrightarrow> slice off n bs ! i = bs ! (off + i)"
  by (simp add: slice_def)

lemma slice_patch_same:
  assumes "off + length xs \<le> length bs"
  shows "slice off (length xs) (patch off xs bs) = xs"
  using assms by (simp add: slice_def patch_def)

lemma slice_patch_within:
  assumes "off + length xs \<le> length bs" "o2 + n \<le> length xs"
  shows "slice (off + o2) n (patch off xs bs) = slice o2 n xs"
  by (rule nth_equalityI) (use assms in \<open>auto simp: nth_slice nth_patch\<close>)

lemma slice_patch_other:
  assumes "off + length xs \<le> length bs" "o2 + n \<le> length bs" "o2 + n \<le> off \<or> off + length xs \<le> o2"
  shows "slice o2 n (patch off xs bs) = slice o2 n bs"
  by (rule nth_equalityI) (use assms in \<open>auto simp: nth_slice nth_patch\<close>)

lemma patch_slice_id: "off + n \<le> length bs \<Longrightarrow> patch off (slice off n bs) bs = bs"
  by (rule nth_equalityI) (auto simp: nth_patch nth_slice)

lemma slice_whole: "length bs = n \<Longrightarrow> slice 0 n bs = bs"
  by (simp add: slice_def)

section \<open>Little-endian integers\<close>

definition enc :: "nat \<Rightarrow> 'a::len word \<Rightarrow> byte list" where
  "enc k v = map (\<lambda>i. ucast (drop_bit (8 * i) v)) [0..<k]"

fun dec :: "byte list \<Rightarrow> 'a::len word" where
  "dec [] = 0"
| "dec (b # bs) = ucast b OR push_bit 8 (dec bs)"

lemma length_enc [simp]: "length (enc k v) = k"
  by (simp add: enc_def)

lemma bit_dec: "bit (dec bs :: 'a::len word) n \<longleftrightarrow> n < LENGTH('a) \<and> n div 8 < length bs \<and> bit (bs ! (n div 8)) (n mod 8)"
proof (induction bs arbitrary: n)
  case (Cons b bs)
  show ?case
  proof (cases "n < 8")
    case True
    then show ?thesis by (auto simp: bit_or_iff bit_ucast_iff bit_push_bit_iff)
  next
    case False
    then have n: "n = (n - 8) + 8" "n div 8 = Suc ((n - 8) div 8)" "n mod 8 = (n - 8) mod 8"
      by (simp_all add: div_if mod_if)
    have "\<not> bit (ucast b :: 'a word) n" using False by (auto simp: bit_ucast_iff dest: bit_imp_le_length)
    then show ?thesis using False Cons.IH [of "n - 8"] n by (auto simp: bit_or_iff bit_push_bit_iff)
  qed
qed simp

lemma dec_enc:
  assumes "LENGTH('a) = 8 * k"
  shows "dec (enc k (v :: 'a::len word)) = v"
proof (rule bit_word_eqI)
  fix n assume n: "n < LENGTH('a)"
  then have k: "n div 8 < k" using assms by (simp add: div_less_iff_less_mult mult.commute)
  then have "bit (enc k v ! (n div 8)) (n mod 8) = bit v n"
    using n by (simp add: enc_def bit_ucast_iff bit_drop_bit_eq)
  then show "bit (dec (enc k v) :: 'a word) n = bit v n" using n k by (simp add: bit_dec)
qed

definition get32 :: "byte list \<Rightarrow> nat \<Rightarrow> u32" where "get32 bs off = dec (slice off 4 bs)"
definition put32 :: "nat \<Rightarrow> u32 \<Rightarrow> byte list \<Rightarrow> byte list" where "put32 off v bs = patch off (enc 4 v) bs"
definition get16 :: "byte list \<Rightarrow> nat \<Rightarrow> u16" where "get16 bs off = dec (slice off 2 bs)"
definition put16 :: "nat \<Rightarrow> u16 \<Rightarrow> byte list \<Rightarrow> byte list" where "put16 off v bs = patch off (enc 2 v) bs"

lemma length_put [simp]:
  "off + 4 \<le> length bs \<Longrightarrow> length (put32 off v bs) = length bs"
  "off + 2 \<le> length bs \<Longrightarrow> length (put16 off w bs) = length bs"
  by (simp_all add: put32_def put16_def)

lemma get32_put32:
  assumes "off + 4 \<le> length bs" "o2 + 4 \<le> length bs" "o2 = off \<or> o2 + 4 \<le> off \<or> off + 4 \<le> o2"
  shows "get32 (put32 off v bs) o2 = (if o2 = off then v else get32 bs o2)"
  using assms slice_patch_same [of off "enc 4 v" bs] slice_patch_other [of off "enc 4 v" bs o2 4]
  by (auto simp: get32_def put32_def dec_enc)

lemma get16_put16:
  assumes "off + 2 \<le> length bs" "o2 + 2 \<le> length bs" "o2 = off \<or> o2 + 2 \<le> off \<or> off + 2 \<le> o2"
  shows "get16 (put16 off v bs) o2 = (if o2 = off then v else get16 bs o2)"
  using assms slice_patch_same [of off "enc 2 v" bs] slice_patch_other [of off "enc 2 v" bs o2 2]
  by (auto simp: get16_def put16_def dec_enc)

lemma get16_put32:
  assumes "off + 4 \<le> length bs" "o2 + 2 \<le> length bs" "o2 + 2 \<le> off \<or> off + 4 \<le> o2"
  shows "get16 (put32 off v bs) o2 = get16 bs o2"
  using assms slice_patch_other [of off "enc 4 v" bs o2 2] by (simp add: get16_def put32_def)

lemma get32_put16:
  assumes "off + 2 \<le> length bs" "o2 + 4 \<le> length bs" "o2 + 4 \<le> off \<or> off + 2 \<le> o2"
  shows "get32 (put16 off v bs) o2 = get32 bs o2"
  using assms slice_patch_other [of off "enc 2 v" bs o2 4] by (simp add: get32_def put16_def)

lemmas get_put = get32_put32 get16_put16 get16_put32 get32_put16

end
