(* ===== verification/Disksched.thy ===== *)
theory Disksched
  imports Prelude "HOL-Library.Product_Lexorder" "HOL-Library.Multiset"
begin

text \<open>
  The disk request scheduler between the buffer cache and the virtio driver,
  \<^verbatim>\<open>kernel/disksched.c\<close>: a table of pending requests, the two selection policies, the
  simulated head with its latency statistics, submission and draining. Everything between
  \<^verbatim>\<open>acquire(&dq_lock)\<close> and \<^verbatim>\<open>release(&dq_lock)\<close> is one atomic step; the transfer that
  follows (\<open>virtio_disk_rw\<close>) is part of the result.
\<close>

section \<open>State\<close>

definition MAX_DISK_QUEUE :: nat where "MAX_DISK_QUEUE = 64"
definition ROTATIONAL_CONST :: u32 where "ROTATIONAL_CONST = 5"
definition DISK_SCHED_FCFS :: int where "DISK_SCHED_FCFS = 0"
definition DISK_SCHED_SSTF :: int where "DISK_SCHED_SSTF = 1"

declare MAX_DISK_QUEUE_def [kconst] DISK_SCHED_FCFS_def [kconst] DISK_SCHED_SSTF_def [kconst]

text \<open>Buffers are named by their index in the cache.\<close>

record disk_req =
  buf :: nat
  dr_write :: bool
  blockno :: u32
  priority :: int
  dr_pid :: int
  valid :: bool
  seq :: u32

record dsched =
  dq :: "disk_req list"
  dq_size :: int
  dq_seq :: u32
  current_head :: u32
  sched_policy :: int
  total_latency :: u64
  total_ops :: u64

section \<open>Operations\<close>

definition disksched_init :: "dsched \<Rightarrow> dsched" where
  "disksched_init st = st\<lparr>dq_size := 0, current_head := 0, sched_policy := DISK_SCHED_FCFS,
     total_latency := 0, total_ops := 0, dq_seq := 0, dq := map (valid_update (\<lambda>_. False)) (dq st)\<rparr>"

definition disksched_set_policy :: "int \<Rightarrow> dsched \<Rightarrow> dsched result" where
  "disksched_set_policy policy st =
     (if policy \<noteq> DISK_SCHED_FCFS \<and> policy \<noteq> DISK_SCHED_SSTF
      then Panic ''disksched_set_policy: invalid policy''
      else Ok (st\<lparr>sched_policy := policy\<rparr>))"

definition disksched_get_policy :: "dsched \<Rightarrow> int" where
  "disksched_get_policy st = sched_policy st"

definition disksched_get_stats :: "dsched \<Rightarrow> u64 \<times> u64" where
  "disksched_get_stats st =
     (total_ops st, if total_ops st > 0 then total_latency st div total_ops st else 0)"

text \<open>The first free slot; \<open>None\<close> is the code's \<open>-1\<close>.\<close>

definition dq_alloc_slot :: "dsched \<Rightarrow> nat option" where
  "dq_alloc_slot st = find_index (\<lambda>r. \<not> valid r) (dq st)"

text \<open>The selection loops, with the index and the best candidate so far.\<close>

fun pick_fcfs_from :: "disk_req list \<Rightarrow> nat \<Rightarrow> int \<Rightarrow> u32 \<Rightarrow> int" where
  "pick_fcfs_from [] i best best_seq = best"
| "pick_fcfs_from (r # rs) i best best_seq =
     (if \<not> valid r then pick_fcfs_from rs (Suc i) best best_seq
      else if seq r < best_seq then pick_fcfs_from rs (Suc i) (int i) (seq r)
      else pick_fcfs_from rs (Suc i) best best_seq)"

definition pick_fcfs :: "dsched \<Rightarrow> int" where
  "pick_fcfs st = pick_fcfs_from (dq st) 0 (-1) 0xFFFFFFFF"

definition seek_dist :: "u32 \<Rightarrow> u32 \<Rightarrow> u32" where
  "seek_dist blk head = (if blk > head then blk - head else head - blk)"

fun pick_sstf_from :: "u32 \<Rightarrow> disk_req list \<Rightarrow> nat \<Rightarrow> int \<Rightarrow> u32 \<Rightarrow> int \<Rightarrow> int" where
  "pick_sstf_from head [] i best best_dist best_prio = best"
| "pick_sstf_from head (r # rs) i best best_dist best_prio =
     (if \<not> valid r then pick_sstf_from head rs (Suc i) best best_dist best_prio
      else let dist = seek_dist (blockno r) head
      in if dist < best_dist \<or> dist = best_dist \<and> priority r < best_prio
         then pick_sstf_from head rs (Suc i) (int i) dist (priority r)
         else pick_sstf_from head rs (Suc i) best best_dist best_prio)"

definition pick_sstf :: "dsched \<Rightarrow> int" where
  "pick_sstf st = pick_sstf_from (current_head st) (dq st) 0 (-1) 0xFFFFFFFF 0x7FFFFFFF"

definition compute_and_record_latency :: "u32 \<Rightarrow> int \<Rightarrow> dsched \<Rightarrow> u32 \<times> dsched" where
  "compute_and_record_latency blk pid st =
     (let seek = (if blk > current_head st then blk - current_head st else current_head st - blk);
          latency = seek + ROTATIONAL_CONST
      in (latency, st\<lparr>total_latency := total_latency st + ucast latency,
                     total_ops := total_ops st + 1\<rparr>))"

text \<open>
  The part of \<open>disksched_submit\<close> and of the loop of \<open>disksched_flush\<close> that picks a request by
  the current policy, takes it out of the table, accounts for it and moves the head. \<open>None\<close>
  when nothing is chosen; otherwise the buffer and direction to hand to the driver.
\<close>

definition take_next :: "dsched \<Rightarrow> dsched \<times> (nat \<times> bool) option" where
  "take_next st =
     (let chosen = (if sched_policy st = DISK_SCHED_SSTF then pick_sstf st else pick_fcfs st)
      in if chosen < 0 then (st, None)
         else let r = dq st ! nat chosen;
                  st1 = st\<lparr>dq := (dq st)[nat chosen := r\<lparr>valid := False\<rparr>], dq_size := dq_size st - 1\<rparr>;
                  st2 = snd (compute_and_record_latency (blockno r) (dr_pid r) st1)
              in (st2\<lparr>current_head := blockno r\<rparr>, Some (buf r, dr_write r)))"

text \<open>
  \<open>p\<close> is the running process as its level and pid, \<open>None\<close> when there is none; \<open>b\<close> and \<open>bno\<close>
  are the submitted buffer and its block number.
\<close>

definition enqueue :: "nat \<Rightarrow> u32 \<Rightarrow> bool \<Rightarrow> (int \<times> int) option \<Rightarrow> nat \<Rightarrow> dsched \<Rightarrow> dsched" where
  "enqueue b bno write p slot st =
     st\<lparr>dq := (dq st)[slot := (dq st ! slot)\<lparr>buf := b, dr_write := write, blockno := bno,
            priority := (case p of Some (level, _) \<Rightarrow> level | None \<Rightarrow> 99),
            dr_pid := (case p of Some (_, pid) \<Rightarrow> pid | None \<Rightarrow> -1),
            seq := dq_seq st, valid := True\<rparr>],
        dq_seq := dq_seq st + 1, dq_size := dq_size st + 1\<rparr>"

definition disksched_submit ::
  "nat \<Rightarrow> u32 \<Rightarrow> bool \<Rightarrow> (int \<times> int) option \<Rightarrow> dsched \<Rightarrow> (dsched \<times> (nat \<times> bool) option) result" where
  "disksched_submit b bno write p st =
     (case dq_alloc_slot st of
        None \<Rightarrow> Panic ''disksched: queue full''
      | Some slot \<Rightarrow> Ok (take_next (enqueue b bno write p slot st)))"

section \<open>Selection\<close>

lemma pick_fcfs_argmin: "pick_fcfs st = argmin_from valid seq (dq st) 0 (-1) 0xFFFFFFFF"
proof -
  have "pick_fcfs_from rs i best bk = argmin_from valid seq rs i best bk" for rs i best bk
    by (induction rs i best bk rule: pick_fcfs_from.induct) auto
  then show ?thesis by (simp add: pick_fcfs_def)
qed

text \<open>The key of the shortest-seek policy: distance first, then scheduling level.\<close>

definition sstf_key :: "u32 \<Rightarrow> disk_req \<Rightarrow> u32 \<times> int" where
  "sstf_key head r = (seek_dist (blockno r) head, priority r)"

lemma pick_sstf_argmin:
  "pick_sstf st = argmin_from valid (sstf_key (current_head st)) (dq st) 0 (-1) (0xFFFFFFFF, 0x7FFFFFFF)"
proof -
  have "pick_sstf_from head rs i best bd bp = argmin_from valid (sstf_key head) rs i best (bd, bp)"
    for head rs i best bd bp
    by (induction head rs i best bd bp rule: pick_sstf_from.induct)
      (auto simp: Let_def sstf_key_def less_prod_def)
  then show ?thesis by (simp add: pick_sstf_def)
qed

section \<open>Taking a request out of the table\<close>

definition chosen_req :: "dsched \<Rightarrow> nat option" where
  "chosen_req st =
     (let c = (if sched_policy st = DISK_SCHED_SSTF then pick_sstf st else pick_fcfs st)
      in if c < 0 then None else Some (nat c))"

definition pending :: "dsched \<Rightarrow> disk_req list" where
  "pending st = filter valid (dq st)"

text \<open>
  A request that the selection loops can see: its key is below their start value. Only a
  request whose sequence number is the largest \<open>uint\<close> is invisible to the FCFS loop.
\<close>

definition selectable :: "dsched \<Rightarrow> disk_req \<Rightarrow> bool" where
  "selectable st r = (if sched_policy st = DISK_SCHED_SSTF
     then sstf_key (current_head st) r < (0xFFFFFFFF, 0x7FFFFFFF) else seq r < 0xFFFFFFFF)"

lemma chosen_fcfs:
  assumes "sched_policy st \<noteq> DISK_SCHED_SSTF"
  shows "case chosen_req st of
      None \<Rightarrow> \<forall>r\<in>set (dq st). valid r \<longrightarrow> \<not> selectable st r
    | Some k \<Rightarrow> is_argmin valid seq (dq st) 0xFFFFFFFF k"
  using argmin_from_start [of valid seq "dq st" "0xFFFFFFFF"] assms
  by (auto simp: chosen_req_def pick_fcfs_argmin selectable_def not_less)

lemma chosen_sstf:
  assumes "sched_policy st = DISK_SCHED_SSTF"
  shows "case chosen_req st of
      None \<Rightarrow> \<forall>r\<in>set (dq st). valid r \<longrightarrow> \<not> selectable st r
    | Some k \<Rightarrow> is_argmin valid (sstf_key (current_head st)) (dq st) (0xFFFFFFFF, 0x7FFFFFFF) k"
  using argmin_from_start [of valid "sstf_key (current_head st)" "dq st" "(0xFFFFFFFF, 0x7FFFFFFF)"] assms
  by (auto simp: chosen_req_def pick_sstf_argmin selectable_def not_less)

lemma chosen_valid: "chosen_req st = Some k \<Longrightarrow> k < length (dq st) \<and> valid (dq st ! k)"
  using chosen_fcfs [of st] chosen_sstf [of st]
  by (cases "sched_policy st = DISK_SCHED_SSTF") (auto simp: is_argmin_def)

lemma chosen_None: "chosen_req st = None \<Longrightarrow> r \<in> set (dq st) \<Longrightarrow> valid r \<Longrightarrow> \<not> selectable st r"
  using chosen_fcfs [of st] chosen_sstf [of st]
  by (cases "sched_policy st = DISK_SCHED_SSTF") auto

text \<open>\<open>take_next\<close> in terms of the chosen index.\<close>

definition drop_req :: "nat \<Rightarrow> dsched \<Rightarrow> dsched" where
  "drop_req k st = st\<lparr>dq := (dq st)[k := (dq st ! k)\<lparr>valid := False\<rparr>], dq_size := dq_size st - 1,
     total_latency := total_latency st
       + ucast (seek_dist (blockno (dq st ! k)) (current_head st) + ROTATIONAL_CONST),
     total_ops := total_ops st + 1, current_head := blockno (dq st ! k)\<rparr>"

lemma take_next_chosen:
  "take_next st = (case chosen_req st of None \<Rightarrow> (st, None)
     | Some k \<Rightarrow> (drop_req k st, Some (buf (dq st ! k), dr_write (dq st ! k))))"
  by (simp add: take_next_def chosen_req_def drop_req_def compute_and_record_latency_def
      seek_dist_def Let_def)

lemma pending_drop:
  assumes "k < length (dq st)" "valid (dq st ! k)"
  shows "mset (pending st) = add_mset (dq st ! k) (mset (pending (drop_req k st)))"
proof -
  have "dq st = take k (dq st) @ dq st ! k # drop (Suc k) (dq st)"
    using assms(1) by (rule id_take_nth_drop)
  then have "mset (filter valid (dq st)) =
      mset (filter valid (take k (dq st))) + add_mset (dq st ! k) (mset (filter valid (drop (Suc k) (dq st))))"
    using assms(2) by (metis filter.simps(2) filter_append mset.simps(2) mset_append)
  moreover have "dq (drop_req k st) = take k (dq st) @ (dq st ! k)\<lparr>valid := False\<rparr> # drop (Suc k) (dq st)"
    using assms(1) by (simp add: drop_req_def upd_conv_take_nth_drop)
  ultimately show ?thesis by (simp add: pending_def)
qed

lemma pending_drop_length:
  "k < length (dq st) \<Longrightarrow> valid (dq st ! k) \<Longrightarrow>
    length (pending st) = Suc (length (pending (drop_req k st)))"
  by (drule (1) pending_drop) (metis size_add_mset size_mset)

section \<open>Draining the queue\<close>

text \<open>
  The loop of \<open>disksched_flush\<close>; the result lists the transfers handed to the driver, in
  order. Every round removes a pending request.
\<close>

function disksched_flush :: "dsched \<Rightarrow> dsched \<times> (nat \<times> bool) list" where
  "disksched_flush st =
     (if dq_size st = 0 then (st, [])
      else case take_next st of
          (st1, None) \<Rightarrow> (st1, [])
        | (st1, Some io) \<Rightarrow> (let (st2, ios) = disksched_flush st1 in (st2, io # ios)))"
  by pat_completeness auto
termination
  by (relation "measure (\<lambda>st. length (pending st))")
    (auto simp: take_next_chosen pending_drop_length dest: chosen_valid split: option.splits)

declare disksched_flush.simps [simp del]

definition dq_inv :: "dsched \<Rightarrow> bool" where
  "dq_inv st = (length (dq st) = MAX_DISK_QUEUE \<and> dq_size st = int (length (pending st)))"

lemma drop_req_simps [simp]:
  "sched_policy (drop_req k st) = sched_policy st" "dq_seq (drop_req k st) = dq_seq st"
  "length (dq (drop_req k st)) = length (dq st)" "dq_size (drop_req k st) = dq_size st - 1"
  by (simp_all add: drop_req_def)

lemma dq_inv_drop: "dq_inv st \<Longrightarrow> chosen_req st = Some k \<Longrightarrow> dq_inv (drop_req k st)"
  using pending_drop_length [of k st] chosen_valid [of st k] by (simp add: dq_inv_def)

text \<open>
  Requests of processes on real scheduling levels, submitted before the sequence counter
  wraps, are visible to both policies wherever the head stands.
\<close>

definition servable :: "disk_req \<Rightarrow> bool" where
  "servable r = (priority r < 0x7FFFFFFF \<and> seq r < 0xFFFFFFFF)"

lemma u32_le_max: "(x :: u32) \<le> 0xFFFFFFFF"
proof -
  have "(0xFFFFFFFF :: u32) = - 1" by simp
  then show ?thesis by (metis word_order.extremum)
qed

lemma servable_selectable: "servable r \<Longrightarrow> selectable st r"
  using u32_le_max [of "seek_dist (blockno r) (current_head st)"]
  by (auto simp: servable_def selectable_def sstf_key_def less_prod_def)

lemma chosen_servable:
  assumes "pending st \<noteq> []" "\<forall>r\<in>set (pending st). servable r"
  obtains k where "chosen_req st = Some k" "k < length (dq st)" "dq st ! k \<in> set (pending st)"
proof -
  obtain r where "r \<in> set (dq st)" "valid r" "servable r"
    using hd_in_set [OF assms(1)] assms(2) by (auto simp: pending_def)
  then obtain k where "chosen_req st = Some k"
    using chosen_None [of st r] servable_selectable [of r st] by (cases "chosen_req st") auto
  with chosen_valid [of st k] that show thesis by (auto simp: pending_def)
qed

lemma chosen_fcfs_min:
  "sched_policy st \<noteq> DISK_SCHED_SSTF \<Longrightarrow> chosen_req st = Some k \<Longrightarrow> r \<in> set (pending st) \<Longrightarrow>
    seq (dq st ! k) \<le> seq r"
  using chosen_fcfs [of st] by (auto simp: is_argmin_def pending_def)

lemma disksched_flush_empty: "dq_size st = 0 \<Longrightarrow> disksched_flush st = (st, [])"
  by (simp add: disksched_flush.simps)

lemma disksched_flush_step:
  "dq_size st \<noteq> 0 \<Longrightarrow> chosen_req st = Some k \<Longrightarrow>
    disksched_flush st = (let (st2, ios) = disksched_flush (drop_req k st)
      in (st2, (buf (dq st ! k), dr_write (dq st ! k)) # ios))"
  by (subst disksched_flush.simps) (simp add: take_next_chosen)

lemma flush_drains:
  assumes "dq_inv st" "\<forall>r\<in>set (pending st). servable r"
  shows "\<exists>st' rs. disksched_flush st = (st', map (\<lambda>r. (buf r, dr_write r)) rs) \<and>
    dq_inv st' \<and> pending st' = [] \<and> mset rs = mset (pending st) \<and>
    (sched_policy st \<noteq> DISK_SCHED_SSTF \<longrightarrow> sorted (map seq rs))"
  using assms
proof (induction "length (pending st)" arbitrary: st)
  case 0
  then show ?case by (auto simp: disksched_flush_empty dq_inv_def)
next
  case (Suc n)
  then have "pending st \<noteq> []" and ne: "dq_size st \<noteq> 0" by (auto simp: dq_inv_def)
  then obtain k where k: "chosen_req st = Some k" "k < length (dq st)" "dq st ! k \<in> set (pending st)"
    using chosen_servable Suc.prems(2) by blast
  let ?t = "drop_req k st"
  have add: "mset (pending st) = add_mset (dq st ! k) (mset (pending ?t))"
    using pending_drop k(2,3) by (simp add: pending_def)
  then have sub: "set (pending ?t) \<subseteq> set (pending st)"
    by (metis set_mset_add_mset_insert set_mset_mset subset_insertI)
  have "n = length (pending ?t)" using add Suc.hyps(2) by (metis nat.inject size_add_mset size_mset)
  then obtain st' rs where IH: "disksched_flush ?t = (st', map (\<lambda>r. (buf r, dr_write r)) rs)"
      "dq_inv st'" "pending st' = []" "mset rs = mset (pending ?t)"
      "sched_policy ?t \<noteq> DISK_SCHED_SSTF \<longrightarrow> sorted (map seq rs)"
    using Suc.hyps(1) dq_inv_drop [OF Suc.prems(1) k(1)] Suc.prems(2) sub by blast
  have "set rs \<subseteq> set (pending st)" using IH(4) sub by (metis set_mset_mset)
  then have "sched_policy st \<noteq> DISK_SCHED_SSTF \<longrightarrow> sorted (map seq (dq st ! k # rs))"
    using IH(5) chosen_fcfs_min [OF _ k(1)] by auto
  moreover have "disksched_flush st = (st', map (\<lambda>r. (buf r, dr_write r)) (dq st ! k # rs))"
    by (simp add: disksched_flush_step [OF ne k(1)] IH(1))
  ultimately show ?case using IH add by (metis mset.simps(2))
qed

section \<open>Submission\<close>

lemma find_index_first: "xs \<noteq> [] \<Longrightarrow> P (xs ! 0) \<Longrightarrow> find_index P xs = Some 0"
  by (cases xs) auto

lemma pending_Nil: "(pending st = []) = (\<forall>r\<in>set (dq st). \<not> valid r)"
  by (simp add: pending_def filter_empty_conv)

text \<open>With an empty table the submitted request is the only candidate.\<close>

lemma submit_empty:
  assumes "length (dq st) = MAX_DISK_QUEUE" "pending st = []"
    and "dq_seq st < 0xFFFFFFFF" "case p of Some (level, _) \<Rightarrow> level < 0x7FFFFFFF | None \<Rightarrow> True"
  obtains st' where "disksched_submit b bno w p st = Ok (st', Some (b, w))" "pending st' = []"
    "length (dq st') = MAX_DISK_QUEUE" "dq_size st' = dq_size st" "dq_seq st' = dq_seq st + 1"
    "current_head st' = bno" "total_ops st' = total_ops st + 1"
    "total_latency st' = total_latency st + ucast (seek_dist bno (current_head st) + ROTATIONAL_CONST)"
    "sched_policy st' = sched_policy st"
proof -
  let ?e = "enqueue b bno w p 0 st"
  obtain r0 rs where dq: "dq st = r0 # rs" using assms(1) by (cases "dq st") (auto simp: kconst)
  have slot: "dq_alloc_slot st = Some 0"
    using assms(2) by (simp add: dq_alloc_slot_def dq pending_Nil)
  have rest: "\<forall>r\<in>set rs. \<not> valid r" using assms(2) by (simp add: pending_Nil dq)
  obtain r where e: "dq ?e = r # rs" "buf r = b" "dr_write r = w" "blockno r = bno" "valid r" "servable r"
    using assms(3,4) by (auto simp: enqueue_def dq servable_def split: option.splits)
  then have pend: "pending ?e = [r]" using rest by (simp add: pending_def filter_False)
  then obtain k where k: "chosen_req ?e = Some k" "k < length (dq ?e)" "dq ?e ! k \<in> set (pending ?e)"
    using chosen_servable [of ?e] e by auto
  then have "valid ((r # rs) ! k)" using pend e by (auto simp: pending_def)
  then have k0: "k = 0" using rest k(2) e(1) by (cases k) auto
  have st': "disksched_submit b bno w p st = Ok (drop_req 0 ?e, Some (b, w))"
    using slot k(1) k0 e by (simp add: disksched_submit_def take_next_chosen)
  have "pending (drop_req 0 ?e) = []"
    using rest by (simp add: pending_Nil drop_req_def e(1))
  with st' that [of "drop_req 0 ?e"] show thesis
    using assms(1) e dq by (simp add: drop_req_def) (simp add: enqueue_def seek_dist_def)
qed

text \<open>
  The states the scheduler reaches, with the number of submissions so far: boot, then policy changes, submissions
  and flushes, in any order. A process's level is below \<open>0x7FFFFFFF\<close> (it is at most 3).
\<close>

inductive dsched_reach :: "dsched \<Rightarrow> nat \<Rightarrow> bool" where
  boot: "length (dq st) = MAX_DISK_QUEUE \<Longrightarrow> dsched_reach (disksched_init st) 0"
| policy: "dsched_reach st n \<Longrightarrow> disksched_set_policy pol st = Ok st' \<Longrightarrow> dsched_reach st' n"
| submit: "dsched_reach st n \<Longrightarrow> case p of Some (level, _) \<Rightarrow> level < 0x7FFFFFFF | None \<Rightarrow> True \<Longrightarrow>
    disksched_submit b bno w p st = Ok (st', io) \<Longrightarrow> dsched_reach st' (Suc n)"
| flush: "dsched_reach st n \<Longrightarrow> disksched_flush st = (st', ios) \<Longrightarrow> dsched_reach st' n"

lemma dsched_reach_empty:
  assumes "dsched_reach st n" "n < 2 ^ 32"
  shows "length (dq st) = MAX_DISK_QUEUE \<and> pending st = [] \<and> dq_size st = 0 \<and> unat (dq_seq st) = n"
  using assms
proof (induction rule: dsched_reach.induct)
  case (boot st)
  then show ?case by (simp add: disksched_init_def pending_def)
next
  case (policy st n pol st')
  then show ?case by (auto simp: disksched_set_policy_def pending_def split: if_splits)
next
  case (submit st n p b bno w st' io)
  then have IH: "length (dq st) = MAX_DISK_QUEUE" "pending st = []" "dq_size st = 0" "unat (dq_seq st) = n"
    by simp_all
  have "dq_seq st < 0xFFFFFFFF" using IH(4) submit.prems by (simp add: word_less_nat_alt)
  then obtain t where t: "disksched_submit b bno w p st = Ok (t, Some (b, w))" "pending t = []"
      "length (dq t) = MAX_DISK_QUEUE" "dq_size t = dq_size st" "dq_seq t = dq_seq st + 1"
    using submit_empty [OF IH(1,2) _ submit.hyps(2)] by metis
  then have "st' = t" using submit.hyps(3) by simp
  moreover have "unat (dq_seq t) = Suc n"
    using IH(4) submit.prems t(5) by (simp add: unat_word_ariths)
  ultimately show ?case using t IH by simp
next
  case (flush st n st' ios)
  then show ?case by (simp add: disksched_flush_empty)
qed

section \<open>Properties of the disk scheduler\<close>

definition blank_req :: disk_req where
  "blank_req = \<lparr>buf = 0, dr_write = False, blockno = 0, priority = 0, dr_pid = 0, valid = False, seq = 0\<rparr>"

definition boot_dsched :: dsched where
  "boot_dsched = disksched_init \<lparr>dq = replicate MAX_DISK_QUEUE blank_req, dq_size = 0, dq_seq = 0,
     current_head = 0, sched_policy = 0, total_latency = 0, total_ops = 0\<rparr>"

lemma boot_dsched_reach: "dsched_reach boot_dsched 0"
  unfolding boot_dsched_def by (rule dsched_reach.boot) simp

text \<open>
  C25. The selection loops find the best pending request: FCFS the one with the smallest
  sequence number, SSTF the one nearest to the head with the better scheduling level on
  equal distance; a pending request of a real level is never overlooked.
\<close>

theorem disksched_pick_optimal:
  assumes "r \<in> set (dq st)" "valid r" "priority r < 0x7FFFFFFF" "seq r < 0xFFFFFFFF"
  shows "(let k = nat (pick_fcfs st); c = dq st ! k in
      0 \<le> pick_fcfs st \<and> k < length (dq st) \<and> valid c \<and> (\<forall>x\<in>set (dq st). valid x \<longrightarrow> seq c \<le> seq x)) \<and>
    (let k = nat (pick_sstf st); c = dq st ! k; dist = (\<lambda>x. seek_dist (blockno x) (current_head st)) in
      0 \<le> pick_sstf st \<and> k < length (dq st) \<and> valid c \<and>
      (\<forall>x\<in>set (dq st). valid x \<longrightarrow> dist c < dist x \<or> dist c = dist x \<and> priority c \<le> priority x))"
proof (rule conjI)
  have sel: "servable r" using assms by (simp add: servable_def)
  show "let k = nat (pick_fcfs st); c = dq st ! k in
      0 \<le> pick_fcfs st \<and> k < length (dq st) \<and> valid c \<and> (\<forall>x\<in>set (dq st). valid x \<longrightarrow> seq c \<le> seq x)"
    using argmin_from_start [of valid seq "dq st" "0xFFFFFFFF"] assms
    by (auto simp: pick_fcfs_argmin is_argmin_def Let_def)
  have "sstf_key (current_head st) r < (0xFFFFFFFF, 0x7FFFFFFF)"
    using servable_selectable [OF sel, of "st\<lparr>sched_policy := DISK_SCHED_SSTF\<rparr>"] by (simp add: selectable_def)
  then show "let k = nat (pick_sstf st); c = dq st ! k; dist = (\<lambda>x. seek_dist (blockno x) (current_head st)) in
      0 \<le> pick_sstf st \<and> k < length (dq st) \<and> valid c \<and>
      (\<forall>x\<in>set (dq st). valid x \<longrightarrow> dist c < dist x \<or> dist c = dist x \<and> priority c \<le> priority x)"
    using argmin_from_start [of valid "sstf_key (current_head st)" "dq st" "(0xFFFFFFFF, 0x7FFFFFFF)"] assms
    by (fastforce simp: pick_sstf_argmin is_argmin_def Let_def sstf_key_def less_eq_prod_def)
qed

theorem disksched_pick_optimal_witness:
  "let st = boot_dsched\<lparr>dq := [blank_req\<lparr>valid := True, blockno := 9, seq := 1\<rparr>,
       blank_req\<lparr>valid := True, blockno := 3, seq := 2\<rparr>]\<rparr>
   in valid (dq st ! nat (pick_fcfs st)) \<and> valid (dq st ! nat (pick_sstf st)) \<and>
      pick_fcfs st = 0 \<and> pick_sstf st = 1"
  using disksched_pick_optimal [of "blank_req\<lparr>valid := True, blockno := 9, seq := 1\<rparr>"
      "boot_dsched\<lparr>dq := [blank_req\<lparr>valid := True, blockno := 9, seq := 1\<rparr>,
       blank_req\<lparr>valid := True, blockno := 3, seq := 2\<rparr>]\<rparr>"]
  by (simp add: boot_dsched_def disksched_init_def blank_req_def pick_fcfs_def pick_sstf_def
      seek_dist_def Let_def)

text \<open>
  C26. \<open>disksched_flush\<close> on a table whose counter is right and whose pending requests the selection loops can see, that is, with
  sequence numbers below \<open>0xFFFFFFFF\<close> and levels below \<open>0x7FFFFFFF\<close>: it terminates with an empty queue, and the transfers it hands to the
  driver are exactly the pending requests, each once; under FCFS they come in the order of
  their sequence numbers.
\<close>

theorem disksched_flush_drains:
  assumes "length (dq st) = MAX_DISK_QUEUE" "dq_size st = int (length (filter valid (dq st)))"
    and "\<forall>r\<in>set (dq st). valid r \<longrightarrow> priority r < 0x7FFFFFFF \<and> seq r < 0xFFFFFFFF"
  shows "\<exists>st' rs. disksched_flush st = (st', map (\<lambda>r. (buf r, dr_write r)) rs) \<and>
    dq_size st' = 0 \<and> filter valid (dq st') = [] \<and> mset rs = mset (filter valid (dq st)) \<and>
    (sched_policy st \<noteq> DISK_SCHED_SSTF \<longrightarrow> sorted (map seq rs))"
  using flush_drains [of st] assms by (force simp: dq_inv_def pending_def servable_def)

text \<open>Two requests, the later one in the first slot.\<close>

definition two_reqs :: dsched where
  "two_reqs = boot_dsched\<lparr>dq := [blank_req\<lparr>buf := 5, dr_write := True, valid := True, seq := 2\<rparr>, blank_req\<lparr>buf := 6, valid := True, seq := 1\<rparr>] @
     replicate (MAX_DISK_QUEUE - 2) blank_req, dq_size := 2\<rparr>"

theorem disksched_flush_drains_witness:
  "\<exists>st'. disksched_flush two_reqs = (st', [(6, False), (5, True)]) \<and> dq_size st' = 0 \<and> filter valid (dq st') = []"
proof -
  let ?a = "blank_req\<lparr>buf := 5, dr_write := True, valid := True, seq := 2\<rparr>" and ?b = "blank_req\<lparr>buf := 6, valid := True, seq := 1\<rparr>"
  have f: "filter valid (dq two_reqs) = [?a, ?b]" by (simp add: two_reqs_def blank_req_def filter_False)
  have h: "length (dq two_reqs) = MAX_DISK_QUEUE" "dq_size two_reqs = int (length (filter valid (dq two_reqs)))"
      "\<forall>r\<in>set (dq two_reqs). valid r \<longrightarrow> priority r < 0x7FFFFFFF \<and> seq r < 0xFFFFFFFF" "sched_policy two_reqs \<noteq> DISK_SCHED_SSTF"
    unfolding f by (auto simp: two_reqs_def boot_dsched_def disksched_init_def blank_req_def kconst)
  from disksched_flush_drains [OF h(1-3)] obtain st' rs where r: "disksched_flush two_reqs = (st', map (\<lambda>r. (buf r, dr_write r)) rs)"
      "dq_size st' = 0" "filter valid (dq st') = []" "mset rs = mset [?a, ?b]" "sorted (map seq rs)" using h(4) f by auto
  have "length rs = 2" using mset_eq_length [OF r(4)] by simp
  then obtain x y where rs: "rs = [x, y]" by (auto simp: length_Suc_conv numeral_eq_Suc)
  have "x = ?a \<and> y = ?b \<or> x = ?b \<and> y = ?a" using r(4) unfolding rs by (auto simp: add_eq_conv_ex)
  moreover have "seq ?a = 2" "seq ?b = 1" "\<not> (2 :: u32) \<le> 1" by (simp_all add: word_le_nat_alt)
  then have "\<not> (x = ?a \<and> y = ?b)" using r(5) unfolding rs by auto
  ultimately have "rs = [?b, ?a]" using rs by blast
  then show ?thesis using r(1-3) by (simp add: blank_req_def)
qed

text \<open>
  C9. Because the dequeue follows the enqueue under the same lock, the table is empty
  whenever the lock is free. In every state reached by fewer than \<open>2^32 - 1\<close> submissions, a
  submission by a process of a level below \<open>0x7FFFFFFF\<close>, or by none, succeeds, hands its own buffer to the driver, leaves nothing pending, moves the
  head to its block and adds \<open>|block - head| + 5\<close> to the latency total, under FCFS and SSTF alike: the queue never holds two
  requests to choose from. (The submission after those, under FCFS, is not served; see \<open>disksched_seq_wrap_no_io\<close>.)
\<close>

theorem disksched_submit_serves_itself:
  assumes "dsched_reach st n" "n < 2 ^ 32 - 1"
    and "case p of Some (level, _) \<Rightarrow> level < 0x7FFFFFFF | None \<Rightarrow> True"
  shows "\<exists>st'. disksched_submit b bno w p st = Ok (st', Some (b, w)) \<and>
    filter valid (dq st') = [] \<and> dq_size st' = 0 \<and> current_head st' = bno \<and>
    total_ops st' = total_ops st + 1 \<and>
    total_latency st' = total_latency st + ucast (seek_dist bno (current_head st) + ROTATIONAL_CONST)"
proof -
  have inv: "length (dq st) = MAX_DISK_QUEUE" "pending st = []" "dq_size st = 0" "unat (dq_seq st) = n"
    using dsched_reach_empty [OF assms(1)] assms(2) by auto
  have "dq_seq st < 0xFFFFFFFF" using inv(4) assms(2) by (simp add: word_less_nat_alt)
  then obtain st' where "disksched_submit b bno w p st = Ok (st', Some (b, w))" "pending st' = []"
      "dq_size st' = dq_size st" "current_head st' = bno" "total_ops st' = total_ops st + 1"
      "total_latency st' = total_latency st + ucast (seek_dist bno (current_head st) + ROTATIONAL_CONST)"
    using submit_empty [OF inv(1,2) _ assms(3)] by metis
  with inv show ?thesis by (auto simp: pending_def)
qed

theorem disksched_submit_serves_itself_witness:
  "\<exists>st'. disksched_submit 3 40 True (Some (2, 7)) boot_dsched = Ok (st', Some (3, True)) \<and>
    current_head st' = 40"
  using disksched_submit_serves_itself [OF boot_dsched_reach, of "Some (2, 7)" 3 40 True] by auto

text \<open>
  When the sequence counter has reached the largest \<open>uint\<close>, an FCFS submission to an
  empty queue transfers nothing: the selection loop cannot see the new request, so
  \<open>disksched_submit\<close> returns without calling the driver and the request stays in the table.
\<close>

theorem disksched_seq_wrap_no_io:
  assumes "length (dq st) = MAX_DISK_QUEUE" "filter valid (dq st) = []"
    and "dq_seq st = 0xFFFFFFFF" "sched_policy st = DISK_SCHED_FCFS"
  shows "\<exists>st'. disksched_submit b bno w p st = Ok (st', None) \<and> length (filter valid (dq st')) = 1"
proof -
  obtain r0 rs where dq: "dq st = r0 # rs" using assms(1) by (cases "dq st") (auto simp: kconst)
  let ?e = "enqueue b bno w p 0 st"
  have rest: "\<forall>r\<in>set rs. \<not> valid r" using assms(2) by (auto simp: dq filter_empty_conv split: if_splits)
  have slot: "dq_alloc_slot st = Some 0" using assms(2) by (auto simp: dq_alloc_slot_def dq split: if_splits)
  obtain r where e: "dq ?e = r # rs" "valid r" "seq r = 0xFFFFFFFF" "sched_policy ?e = DISK_SCHED_FCFS"
    using assms(3,4) by (auto simp: enqueue_def dq)
  have none: "pick_fcfs_from rs i best bseq = best" for i best bseq
    using rest by (induction rs arbitrary: i) auto
  have "take_next ?e = (?e, None)"
    using e none by (simp add: take_next_def pick_fcfs_def kconst)
  moreover have "filter valid (dq ?e) = [r]" using e rest by (simp add: filter_False)
  ultimately show ?thesis using slot by (simp add: disksched_submit_def)
qed

theorem disksched_seq_wrap_no_io_witness:
  "\<exists>st'. disksched_submit 3 40 False None (boot_dsched\<lparr>dq_seq := 0xFFFFFFFF\<rparr>) = Ok (st', None)"
  using disksched_seq_wrap_no_io [of "boot_dsched\<lparr>dq_seq := 0xFFFFFFFF\<rparr>" 3 40 False None]
  by (auto simp: boot_dsched_def disksched_init_def blank_req_def kconst)

end
