(* ===== verification/Bio.thy ===== *)
theory Bio
  imports Bytes Disksched
begin

text \<open>
  The buffer cache, \<^verbatim>\<open>kernel/bio.c\<close>, on top of the disk scheduler. The doubly linked list
  of buffers is the list of their indices, most recently used first. The cache is used by one
  process at a time here: a call of \<open>acquiresleep\<close> on a buffer that is already locked would sleep
  for ever and counts as not returning. The disk records its writes in order, so that a crash
  can be placed between any two of them.
\<close>

section \<open>State\<close>

definition NBUF :: nat where "NBUF = 30"
declare NBUF_def [kconst]

record buffer =
  b_valid :: bool
  b_dev :: u32
  b_blockno :: u32
  b_holder :: "int option"
  b_refcnt :: u32
  b_data :: "byte list"

record bio =
  bufs :: "buffer list"
  lru :: "nat list"
  disk :: "u32 \<Rightarrow> byte list"
  dtrace :: "(u32 \<times> byte list) list"
  dsch :: dsched
  cur_level :: int
  cur_pid :: int

definition upd_buf :: "nat \<Rightarrow> (buffer \<Rightarrow> buffer) \<Rightarrow> bio \<Rightarrow> bio" where
  "upd_buf i f st = st\<lparr>bufs := (bufs st)[i := f (bufs st ! i)]\<rparr>"

section \<open>Operations\<close>

text \<open>
  \<open>binit\<close> puts each buffer in turn at the head of the list; the buffers themselves are zeroed
  static storage.
\<close>

definition blank_buffer :: buffer where
  "blank_buffer = \<lparr>b_valid = False, b_dev = 0, b_blockno = 0, b_holder = None, b_refcnt = 0, b_data = replicate BSIZE 0\<rparr>"

definition binit :: "bio \<Rightarrow> bio" where
  "binit st = st\<lparr>bufs := replicate NBUF blank_buffer, dsch := disksched_init (dsch st),
     lru := fold (\<lambda>i l. i # l) [0..<NBUF] []\<rparr>"

definition acquiresleep :: "nat \<Rightarrow> bio \<Rightarrow> bio result" where
  "acquiresleep i st =
     (if b_holder (bufs st ! i) \<noteq> None then Panic ''sleep''
      else Ok (upd_buf i (\<lambda>b. b\<lparr>b_holder := Some (cur_pid st)\<rparr>) st))"

definition holdingsleep :: "nat \<Rightarrow> bio \<Rightarrow> bool" where
  "holdingsleep i st = (b_holder (bufs st ! i) = Some (cur_pid st))"

definition bget :: "u32 \<Rightarrow> u32 \<Rightarrow> bio \<Rightarrow> (nat \<times> bio) result" where
  "bget dev bno st =
     (case find (\<lambda>i. b_dev (bufs st ! i) = dev \<and> b_blockno (bufs st ! i) = bno) (lru st) of
        Some i \<Rightarrow> bindR (acquiresleep i (upd_buf i (\<lambda>b. b\<lparr>b_refcnt := b_refcnt b + 1\<rparr>) st)) (\<lambda>st1. Ok (i, st1))
      | None \<Rightarrow>
          (case find (\<lambda>i. b_refcnt (bufs st ! i) = 0) (rev (lru st)) of
             Some i \<Rightarrow> bindR (acquiresleep i (upd_buf i (\<lambda>b. b\<lparr>b_dev := dev, b_blockno := bno,
                                b_valid := False, b_refcnt := 1\<rparr>) st)) (\<lambda>st1. Ok (i, st1))
           | None \<Rightarrow> Panic ''bget: no buffers''))"

text \<open>
  The driver's transfer of one buffer, and the submission to the scheduler, which hands the
  buffer it picks to the driver (or none).
\<close>

definition virtio_disk_rw :: "nat \<Rightarrow> bool \<Rightarrow> bio \<Rightarrow> bio" where
  "virtio_disk_rw i write st =
     (let b = bufs st ! i
      in if write then st\<lparr>disk := (disk st)(b_blockno b := b_data b), dtrace := dtrace st @ [(b_blockno b, b_data b)]\<rparr>
         else upd_buf i (\<lambda>b. b\<lparr>b_data := disk st (b_blockno b)\<rparr>) st)"

definition submit :: "nat \<Rightarrow> bool \<Rightarrow> bio \<Rightarrow> bio result" where
  "submit i write st =
     bindR (disksched_submit i (b_blockno (bufs st ! i)) write (Some (cur_level st, cur_pid st)) (dsch st))
       (\<lambda>(ds, io). let st1 = st\<lparr>dsch := ds\<rparr>
          in Ok (case io of None \<Rightarrow> st1 | Some (j, w) \<Rightarrow> virtio_disk_rw j w st1))"

definition bread :: "u32 \<Rightarrow> u32 \<Rightarrow> bio \<Rightarrow> (nat \<times> bio) result" where
  "bread dev bno st =
     bindR (bget dev bno st) (\<lambda>(i, st1).
       if \<not> b_valid (bufs st1 ! i)
       then bindR (submit i False st1) (\<lambda>st2. Ok (i, upd_buf i (\<lambda>b. b\<lparr>b_valid := True\<rparr>) st2))
       else Ok (i, st1))"

definition bwrite :: "nat \<Rightarrow> bio \<Rightarrow> bio result" where
  "bwrite i st = (if \<not> holdingsleep i st then Panic ''bwrite'' else submit i True st)"

definition brelse :: "nat \<Rightarrow> bio \<Rightarrow> bio result" where
  "brelse i st =
     (if \<not> holdingsleep i st then Panic ''brelse''
      else let st1 = upd_buf i (\<lambda>b. b\<lparr>b_holder := None\<rparr>) st;
               st2 = upd_buf i (\<lambda>b. b\<lparr>b_refcnt := b_refcnt b - 1\<rparr>) st1
           in Ok (if b_refcnt (bufs st2 ! i) = 0 then st2\<lparr>lru := i # remove1 i (lru st2)\<rparr> else st2))"

definition bpin :: "nat \<Rightarrow> bio \<Rightarrow> bio" where
  "bpin i st = upd_buf i (\<lambda>b. b\<lparr>b_refcnt := b_refcnt b + 1\<rparr>) st"

definition bunpin :: "nat \<Rightarrow> bio \<Rightarrow> bio" where
  "bunpin i st = upd_buf i (\<lambda>b. b\<lparr>b_refcnt := b_refcnt b - 1\<rparr>) st"

text \<open>A caller's change to \<open>b->data\<close>.\<close>

definition bset :: "nat \<Rightarrow> byte list \<Rightarrow> bio \<Rightarrow> bio" where
  "bset i bs st = upd_buf i (\<lambda>b. b\<lparr>b_data := bs\<rparr>) st"

definition bdata :: "nat \<Rightarrow> bio \<Rightarrow> byte list" where
  "bdata i st = b_data (bufs st ! i)"

section \<open>Invariant and abstraction\<close>

text \<open>
  The scheduler can still take \<open>N\<close> submissions before its sequence number reaches the value it
  overlooks.
\<close>

definition io_ok :: "nat \<Rightarrow> bio \<Rightarrow> bool" where
  "io_ok N st = (length (dq (dsch st)) = MAX_DISK_QUEUE \<and> pending (dsch st) = [] \<and>
     unat (dq_seq (dsch st)) + N < 2 ^ 32 \<and> cur_level st < 0x7FFFFFFF)"

definition caches :: "bio \<Rightarrow> u32 \<Rightarrow> u32 \<Rightarrow> nat \<Rightarrow> bool" where
  "caches st d b i = (i < NBUF \<and> b_dev (bufs st ! i) = d \<and> b_blockno (bufs st ! i) = b)"

definition buf_ok :: "bio \<Rightarrow> nat \<Rightarrow> bool" where
  "buf_ok st i = (length (b_data (bufs st ! i)) = BSIZE \<and>
     (b_refcnt (bufs st ! i) = 0 \<longrightarrow> b_holder (bufs st ! i) = None \<and>
        (b_valid (bufs st ! i) \<longrightarrow> b_data (bufs st ! i) = disk st (b_blockno (bufs st ! i)))) \<and>
     (b_holder (bufs st ! i) \<noteq> None \<longrightarrow> b_holder (bufs st ! i) = Some (cur_pid st)) \<and>
     (b_refcnt (bufs st ! i) \<noteq> 0 \<longrightarrow> b_valid (bufs st ! i)))"

text \<open>The kernel uses one device, \<open>d\<close>; a buffer that was never used has device 0.\<close>

definition bio_inv :: "u32 \<Rightarrow> bio \<Rightarrow> bool" where
  "bio_inv d st = (d \<noteq> 0 \<and> length (bufs st) = NBUF \<and> distinct (lru st) \<and> set (lru st) = {..<NBUF} \<and>
     (\<forall>b i j. caches st d b i \<and> caches st d b j \<longrightarrow> i = j) \<and>
     (\<forall>i<NBUF. buf_ok st i \<and> (b_valid (bufs st ! i) \<longrightarrow> b_dev (bufs st ! i) = d)) \<and>
     (\<forall>b. length (disk st b) = BSIZE))"

text \<open>
  What a client sees of a block: its cached data if there is a valid buffer for it, else the
  disk's; how many references its buffer has; whether its buffer is locked; and the number of
  buffers that can be recycled.
\<close>

definition buf_of :: "bio \<Rightarrow> u32 \<Rightarrow> u32 \<Rightarrow> nat option" where
  "buf_of st d b = find (\<lambda>i. caches st d b i) [0..<NBUF]"

definition view :: "bio \<Rightarrow> u32 \<Rightarrow> u32 \<Rightarrow> byte list" where
  "view st d b = (case buf_of st d b of
     Some i \<Rightarrow> if b_valid (bufs st ! i) then b_data (bufs st ! i) else disk st b | None \<Rightarrow> disk st b)"

definition refs :: "bio \<Rightarrow> u32 \<Rightarrow> u32 \<Rightarrow> nat" where
  "refs st d b = (case buf_of st d b of Some i \<Rightarrow> unat (b_refcnt (bufs st ! i)) | None \<Rightarrow> 0)"

definition locked_blk :: "bio \<Rightarrow> u32 \<Rightarrow> u32 \<Rightarrow> bool" where
  "locked_blk st d b = (case buf_of st d b of Some i \<Rightarrow> b_holder (bufs st ! i) \<noteq> None | None \<Rightarrow> False)"

definition free_bufs :: "bio \<Rightarrow> nat set" where
  "free_bufs st = {i. i < NBUF \<and> b_refcnt (bufs st ! i) = 0}"

definition holds :: "bio \<Rightarrow> u32 \<Rightarrow> u32 \<Rightarrow> nat \<Rightarrow> bool" where
  "holds st d b i = (caches st d b i \<and> b_valid (bufs st ! i) \<and> b_holder (bufs st ! i) = Some (cur_pid st) \<and>
     b_refcnt (bufs st ! i) \<noteq> 0)"

lemma find_upt_Some: "find P [0..<n] = Some i \<Longrightarrow> i < n \<and> P i"
  by (metis find_Some_iff nth_mem set_upt atLeastLessThan_iff)

lemma buf_of_caches: "buf_of st d b = Some i \<Longrightarrow> caches st d b i"
  unfolding buf_of_def using find_upt_Some by blast

lemma buf_of_None: "(buf_of st d b = None) = (\<forall>i. \<not> caches st d b i)"
  unfolding buf_of_def find_None_iff by (auto simp: caches_def)

lemma buf_of_eq: "bio_inv d st \<Longrightarrow> (buf_of st d b = Some i) = caches st d b i"
proof
  assume inv: "bio_inv d st" and c: "caches st d b i"
  then obtain j where "buf_of st d b = Some j" using buf_of_None by fastforce
  then show "buf_of st d b = Some i" using buf_of_caches c inv unfolding bio_inv_def by blast
qed (rule buf_of_caches)

lemma bio_invD:
  assumes "bio_inv d st"
  shows "d \<noteq> 0" "length (bufs st) = NBUF" "distinct (lru st)" "set (lru st) = {..<NBUF}"
    "caches st d b i \<Longrightarrow> caches st d b j \<Longrightarrow> i = j" "i < NBUF \<Longrightarrow> buf_ok st i"
    "i < NBUF \<Longrightarrow> b_valid (bufs st ! i) \<Longrightarrow> b_dev (bufs st ! i) = d" "length (disk st b) = BSIZE"
  using assms unfolding bio_inv_def by blast+

text \<open>
  Replacing one buffer: either the one that caches the block, or an unreferenced one for a
  block that is not cached. Every operation of the cache is such a replacement.
\<close>

definition buf_change :: "u32 \<Rightarrow> bio \<Rightarrow> bio \<Rightarrow> nat \<Rightarrow> u32 \<Rightarrow> buffer \<Rightarrow> byte list \<Rightarrow> bool" where
  "buf_change d st st' i b nb x = (bio_inv d st \<and> i < NBUF \<and>
     (caches st d b i \<or> buf_of st d b = None \<and> b_refcnt (bufs st ! i) = 0) \<and>
     b_dev nb = d \<and> b_blockno nb = b \<and> b_valid nb \<and> length (b_data nb) = BSIZE \<and>
     (b_holder nb = None \<or> b_holder nb = Some (cur_pid st)) \<and>
     (b_refcnt nb = 0 \<longrightarrow> b_holder nb = None \<and> b_data nb = x) \<and>
     bufs st' = (bufs st)[i := nb] \<and> distinct (lru st') \<and> set (lru st') = {..<NBUF} \<and>
     cur_pid st' = cur_pid st \<and> disk st' = (disk st)(b := x) \<and> length x = BSIZE)"

lemma buf_changeD:
  assumes "buf_change d st st' i b nb x"
  shows "bio_inv d st" "i < NBUF" "caches st d b i \<or> buf_of st d b = None \<and> b_refcnt (bufs st ! i) = 0"
    "b_dev nb = d" "b_blockno nb = b" "b_valid nb" "length (b_data nb) = BSIZE"
    "b_holder nb = None \<or> b_holder nb = Some (cur_pid st)"
    "b_refcnt nb = 0 \<longrightarrow> b_holder nb = None \<and> b_data nb = x"
    "bufs st' = (bufs st)[i := nb]" "distinct (lru st')" "set (lru st') = {..<NBUF}"
    "cur_pid st' = cur_pid st" "disk st' = (disk st)(b := x)" "length x = BSIZE"
  using assms unfolding buf_change_def by blast+

lemmas bc_old = buf_changeD(1)
lemmas bc_i = buf_changeD(2)
lemmas bc_slot = buf_changeD(3)
lemmas bc_nb = buf_changeD(4-7)
lemmas bc_hold = buf_changeD(8)
lemmas bc_clean = buf_changeD(9)
lemmas bc_bufs = buf_changeD(10)
lemmas bc_lru = buf_changeD(11,12)
lemmas bc_pid = buf_changeD(13)
lemmas bc_disk = buf_changeD(14,15)

lemma bc_nth:
  assumes bc: "buf_change d st st' i b nb x"
  shows "j < NBUF \<Longrightarrow> bufs st' ! j = (if j = i then nb else bufs st ! j)"
  using bio_invD(2) [OF bc_old [OF bc]] bc_i [OF bc] by (simp add: bc_bufs [OF bc])

lemma bc_caches:
  assumes bc: "buf_change d st st' i b nb x"
  shows "caches st' d b' j = (if j = i then b' = b else caches st d b' j)"
  using bc_nth [OF bc] bc_nb [OF bc] bc_i [OF bc] by (auto simp: caches_def)

lemma bc_caches_other:
  assumes bc: "buf_change d st st' i b nb x"
  shows "j \<noteq> i \<Longrightarrow> \<not> caches st d b j"
  using bc_slot [OF bc] bio_invD(5) [OF bc_old [OF bc]] buf_of_None by blast

lemma bc_inv:
  assumes bc: "buf_change d st st' i b nb x"
  shows "bio_inv d st'"
proof -
  have "buf_ok st' j" "b_valid (bufs st' ! j) \<longrightarrow> b_dev (bufs st' ! j) = d" if "j < NBUF" for j
  proof -
    show "b_valid (bufs st' ! j) \<longrightarrow> b_dev (bufs st' ! j) = d"
      using bc_nth [OF bc that] bio_invD(7) [OF bc_old [OF bc] that] bc_nb [OF bc] by auto
    show "buf_ok st' j"
    proof (cases "j = i")
      case True
      then show ?thesis using bc_nth [OF bc that] bc_nb [OF bc] bc_hold [OF bc] bc_clean [OF bc] bc_pid [OF bc] bc_disk [OF bc] by (auto simp: buf_ok_def)
    next
      case False
      have "b_blockno (bufs st ! j) \<noteq> b" if "b_valid (bufs st ! j)"
        using bio_invD(7) [OF bc_old [OF bc] \<open>j < NBUF\<close> that] bc_caches_other [OF bc False] \<open>j < NBUF\<close> by (auto simp: caches_def)
      then show ?thesis using bc_nth [OF bc that] bio_invD(6) [OF bc_old [OF bc] that] False bc_pid [OF bc] bc_disk [OF bc] by (auto simp: buf_ok_def)
    qed
  qed
  moreover have "k = j" if "caches st' d b' j" "caches st' d b' k" for b' j k
    using that bc_caches [OF bc] bio_invD(5) [OF bc_old [OF bc]] bc_caches_other [OF bc] by (metis (full_types))
  ultimately show ?thesis
    using bio_invD [OF bc_old [OF bc]] bc_lru [OF bc] bc_disk [OF bc] bc_bufs [OF bc] unfolding bio_inv_def by auto
qed

lemma bc_buf_of:
  assumes bc: "buf_change d st st' i b nb x"
  shows "buf_of st' d b' = (if b' = b then Some i else if buf_of st d b' = Some i then None else buf_of st d b')"
proof (cases "b' = b")
  case True
  then show ?thesis using buf_of_eq [OF bc_inv [OF bc]] bc_caches [OF bc] by simp
next
  case False
  show ?thesis
  proof (cases "buf_of st d b'")
    case None
    then have "\<And>j. \<not> caches st' d b' j" using bc_caches [OF bc] False buf_of_None by metis
    then have "buf_of st' d b' = None" using buf_of_None by blast
    then show ?thesis using None False by simp
  next
    case (Some j)
    show ?thesis
    proof (cases "j = i")
      case True
      then have "\<And>k. \<not> caches st' d b' k"
        using bc_caches [OF bc] False Some buf_of_caches [OF Some] bio_invD(5) [OF bc_old [OF bc]] by metis
      then have "buf_of st' d b' = None" using buf_of_None by blast
      then show ?thesis using Some True False by simp
    next
      case False
      then have "caches st' d b' j" using bc_caches [OF bc] buf_of_caches [OF Some] by simp
      then show ?thesis using Some False \<open>b' \<noteq> b\<close> buf_of_eq [OF bc_inv [OF bc]] by simp
    qed
  qed
qed

lemma bc_evicted:
  assumes bc: "buf_change d st st' i b nb x"
  shows "b' \<noteq> b \<Longrightarrow> buf_of st d b' = Some i \<Longrightarrow>
  b_refcnt (bufs st ! i) = 0 \<and> b_holder (bufs st ! i) = None \<and>
  (b_valid (bufs st ! i) \<longrightarrow> b_data (bufs st ! i) = disk st b')"
proof -
  assume a: "b' \<noteq> b" "buf_of st d b' = Some i"
  then have c: "caches st d b' i" using buf_of_caches by blast
  then have "\<not> caches st d b i" using a(1) by (auto simp: caches_def)
  then have "b_refcnt (bufs st ! i) = 0" using bc_slot [OF bc] by simp
  moreover have "b_blockno (bufs st ! i) = b'" using c by (simp add: caches_def)
  ultimately show ?thesis using bio_invD(6) [OF bc_old [OF bc] bc_i [OF bc]] by (simp add: buf_ok_def)
qed

lemma bc_same_buf:
  assumes bc: "buf_change d st st' i b nb x"
  shows "b' \<noteq> b \<Longrightarrow> buf_of st d b' = Some j \<Longrightarrow> j \<noteq> i \<Longrightarrow> bufs st' ! j = bufs st ! j"
  using bc_nth [OF bc] buf_of_caches by (auto simp: caches_def)

lemma bc_view:
  assumes bc: "buf_change d st st' i b nb x"
  shows "view st' d b' = (if b' = b then b_data nb else view st d b')"
  using bc_evicted [OF bc] bc_same_buf [OF bc] bc_nth [OF bc bc_i [OF bc]] bc_nb [OF bc] bc_disk [OF bc]
  by (cases "buf_of st d b'") (auto simp: view_def bc_buf_of [OF bc])

lemma bc_refs:
  assumes bc: "buf_change d st st' i b nb x"
  shows "refs st' d b' = (if b' = b then unat (b_refcnt nb) else refs st d b')"
  using bc_evicted [OF bc] bc_same_buf [OF bc] bc_nth [OF bc bc_i [OF bc]]
  by (cases "buf_of st d b'") (auto simp: refs_def bc_buf_of [OF bc])

lemma bc_locked:
  assumes bc: "buf_change d st st' i b nb x"
  shows "locked_blk st' d b' = (if b' = b then b_holder nb \<noteq> None else locked_blk st d b')"
  using bc_evicted [OF bc] bc_same_buf [OF bc] bc_nth [OF bc bc_i [OF bc]]
  by (cases "buf_of st d b'") (auto simp: locked_blk_def bc_buf_of [OF bc])

lemma bc_free:
  assumes bc: "buf_change d st st' i b nb x"
  shows "free_bufs st' = (if b_refcnt nb = 0 then insert i (free_bufs st) else free_bufs st - {i})"
  using bc_nth [OF bc] bc_i [OF bc] by (auto simp: free_bufs_def split: if_splits)

lemma bc_holds_other:
  assumes bc: "buf_change d st st' i b nb x"
  shows "holds st d b' j \<Longrightarrow> j \<noteq> i \<Longrightarrow> holds st' d b' j"
  using bc_nth [OF bc, of j] bc_pid [OF bc] by (auto simp: holds_def caches_def)

lemma bc_holds_block:
  assumes bc: "buf_change d st st' i b nb x"
  shows "holds st d b' j \<Longrightarrow> b' \<noteq> b \<Longrightarrow> j \<noteq> i"
  using bc_slot [OF bc] by (auto simp: holds_def caches_def)

lemmas bc_facts = bc_inv bc_buf_of bc_view bc_refs bc_locked bc_free

section \<open>The operations on the abstraction\<close>

lemma io_ok_submit:
  assumes "io_ok (Suc N) st"
  obtains ds where "disksched_submit i bno w (Some (cur_level st, cur_pid st)) (dsch st) = Ok (ds, Some (i, w))"
    "io_ok N (st\<lparr>dsch := ds\<rparr>)"
proof -
  have q: "length (dq (dsch st)) = MAX_DISK_QUEUE" "pending (dsch st) = []" "cur_level st < 0x7FFFFFFF"
      "unat (dq_seq (dsch st)) + Suc N < 2 ^ 32"
    using assms by (auto simp: io_ok_def)
  have "dq_seq (dsch st) < 0xFFFFFFFF" using q(4) by (simp add: word_less_nat_alt)
  then obtain ds where ds: "disksched_submit i bno w (Some (cur_level st, cur_pid st)) (dsch st) = Ok (ds, Some (i, w))"
      "pending ds = []" "length (dq ds) = MAX_DISK_QUEUE" "dq_seq ds = dq_seq (dsch st) + 1"
    using submit_empty [OF q(1,2), of "Some (cur_level st, cur_pid st)" i bno w] q(3) by auto
  moreover have "unat (dq_seq ds) + N < 2 ^ 32" using q(4) ds(4) by (simp add: unat_word_ariths)
  ultimately show thesis using that q(3) by (simp add: io_ok_def)
qed

lemma io_ok_mono: "io_ok M st \<Longrightarrow> N \<le> M \<Longrightarrow> io_ok N st"
  by (simp add: io_ok_def)

lemma io_ok_cong: "dsch st' = dsch st \<Longrightarrow> cur_level st' = cur_level st \<Longrightarrow> io_ok N st' = io_ok N st"
  by (simp add: io_ok_def)

lemma holds_refs:
  assumes "bio_inv d st" "holds st d b i"
  shows "i < NBUF" "buf_of st d b = Some i" "refs st d b = unat (b_refcnt (bufs st ! i))" "0 < refs st d b"
    "bdata i st = view st d b" "b_holder (bufs st ! i) = Some (cur_pid st)" "locked_blk st d b"
proof -
  have c: "caches st d b i" using assms(2) by (simp add: holds_def)
  then show o: "buf_of st d b = Some i" using buf_of_eq [OF assms(1)] by simp
  then show "i < NBUF" "refs st d b = unat (b_refcnt (bufs st ! i))" "0 < refs st d b"
    "bdata i st = view st d b" "b_holder (bufs st ! i) = Some (cur_pid st)" "locked_blk st d b"
    using assms(2) c
    by (auto simp: holds_def refs_def view_def bdata_def locked_blk_def caches_def unat_gt_0)
qed

text \<open>
  What an operation on the buffer of block \<open>b\<close> leaves alone: the other blocks' views,
  references and locks, and the handles on them.
\<close>

definition only :: "u32 \<Rightarrow> u32 \<Rightarrow> bio \<Rightarrow> bio \<Rightarrow> bool" where
  "only d b st st' = (bio_inv d st' \<and> cur_pid st' = cur_pid st \<and> cur_level st' = cur_level st \<and>
     (\<forall>b'. b' \<noteq> b \<longrightarrow> view st' d b' = view st d b' \<and> refs st' d b' = refs st d b' \<and>
        locked_blk st' d b' = locked_blk st d b' \<and> (\<forall>j. holds st d b' j \<longrightarrow> holds st' d b' j)))"

lemma only_change:
  assumes "buf_change d st st' i b nb x" "cur_level st' = cur_level st"
  shows "only d b st st'"
  using bc_facts [OF assms(1)] bc_pid [OF assms(1)] assms(2) bc_holds_other [OF assms(1)] bc_holds_block [OF assms(1)]
  unfolding only_def by auto

lemma find_lru:
  assumes "bio_inv d st"
  shows "find P (lru st) = None \<longleftrightarrow> (\<forall>i<NBUF. \<not> P i)" "find P (rev (lru st)) = None \<longleftrightarrow> (\<forall>i<NBUF. \<not> P i)"
    "find P (lru st) = Some i \<Longrightarrow> i < NBUF \<and> P i" "find P (rev (lru st)) = Some i \<Longrightarrow> i < NBUF \<and> P i"
proof -
  have s: "set (lru st) = {..<NBUF}" using bio_invD(4) [OF assms] .
  show "find P (lru st) = None \<longleftrightarrow> (\<forall>i<NBUF. \<not> P i)" "find P (rev (lru st)) = None \<longleftrightarrow> (\<forall>i<NBUF. \<not> P i)"
    unfolding find_None_iff using s by auto
  show "find P (lru st) = Some i \<Longrightarrow> i < NBUF \<and> P i" "find P (rev (lru st)) = Some i \<Longrightarrow> i < NBUF \<and> P i"
    using s by (metis find_Some_iff lessThan_iff nth_mem, metis find_Some_iff lessThan_iff nth_mem set_rev)
qed

text \<open>The buffer that \<open>bread\<close> installs.\<close>

definition read_buf :: "bio \<Rightarrow> u32 \<Rightarrow> u32 \<Rightarrow> buffer" where
  "read_buf st d b = \<lparr>b_valid = True, b_dev = d, b_blockno = b, b_holder = Some (cur_pid st),
     b_refcnt = of_nat (refs st d b) + 1, b_data = view st d b\<rparr>"

lemma bread_buf:
  assumes inv: "bio_inv d st" and io: "io_ok (Suc N) st" and lk: "\<not> locked_blk st d b"
    and room: "0 < refs st d b \<or> free_bufs st \<noteq> {}"
  obtains i st' where "bread d b st = Ok (i, st')" "i < NBUF"
    "caches st d b i \<or> buf_of st d b = None \<and> b_refcnt (bufs st ! i) = 0"
    "bufs st' = (bufs st)[i := read_buf st d b]" "lru st' = lru st" "disk st' = disk st"
    "dtrace st' = dtrace st" "cur_level st' = cur_level st" "cur_pid st' = cur_pid st" "io_ok N st'"
proof -
  note result = that
  have len: "length (bufs st) = NBUF" using bio_invD(2) [OF inv] .
  have fin: thesis
    if i: "i < NBUF" and slot: "caches st d b i \<or> buf_of st d b = None \<and> b_refcnt (bufs st ! i) = 0"
      and h: "b_holder (bufs st ! i) = None"
      and nb: "bget d b st = Ok (i, st\<lparr>bufs := (bufs st)[i := (read_buf st d b)\<lparr>b_valid := v, b_data := x\<rparr>]\<rparr>)"
      and v: "v \<Longrightarrow> x = view st d b" "\<not> v \<Longrightarrow> view st d b = disk st b"
    for i v x
  proof (cases v)
    case True
    have "bread d b st = Ok (i, st\<lparr>bufs := (bufs st)[i := read_buf st d b]\<rparr>)"
      using nb True v(1) i len by (simp add: bread_def read_buf_def)
    then show thesis using result [of i "st\<lparr>bufs := (bufs st)[i := read_buf st d b]\<rparr>"] i slot io_ok_mono [OF io, of N]
      by (simp add: io_ok_def)
  next
    case False
    let ?st = "st\<lparr>bufs := (bufs st)[i := (read_buf st d b)\<lparr>b_valid := v, b_data := x\<rparr>]\<rparr>"
    have "io_ok (Suc N) ?st" using io by (simp add: io_ok_def)
    then obtain ds where ds: "disksched_submit i b False (Some (cur_level ?st, cur_pid ?st)) (dsch ?st) = Ok (ds, Some (i, False))"
        "io_ok N (?st\<lparr>dsch := ds\<rparr>)"
      using io_ok_submit by blast
    have "bread d b st = Ok (i, st\<lparr>bufs := (bufs st)[i := read_buf st d b], dsch := ds\<rparr>)"
      using nb False v(2) i len ds(1)
      by (simp add: bread_def submit_def virtio_disk_rw_def upd_buf_def read_buf_def)
    then show thesis using result [of i "st\<lparr>bufs := (bufs st)[i := read_buf st d b], dsch := ds\<rparr>"] i slot ds(2)
      by (simp add: io_ok_def)
  qed
  show thesis
  proof (cases "buf_of st d b")
    case (Some i)
    then have c: "caches st d b i" using buf_of_caches by blast
    have h: "b_holder (bufs st ! i) = None" using lk Some by (simp add: locked_blk_def)
    have "find (\<lambda>j. b_dev (bufs st ! j) = d \<and> b_blockno (bufs st ! j) = b) (lru st) = Some i"
    proof -
      obtain j where j: "find (\<lambda>j. b_dev (bufs st ! j) = d \<and> b_blockno (bufs st ! j) = b) (lru st) = Some j"
        using c find_lru(1) [OF inv, of "\<lambda>j. b_dev (bufs st ! j) = d \<and> b_blockno (bufs st ! j) = b"]
        by (auto simp: caches_def)
      then have "caches st d b j" using find_lru(3) [OF inv j] by (simp add: caches_def)
      then show ?thesis using j bio_invD(5) [OF inv c] by simp
    qed
    then have "bget d b st = Ok (i, st\<lparr>bufs := (bufs st)[i := (read_buf st d b)\<lparr>b_valid := b_valid (bufs st ! i), b_data := b_data (bufs st ! i)\<rparr>]\<rparr>)"
      using h c len Some
      by (cases "bufs st ! i") (simp add: bget_def acquiresleep_def upd_buf_def read_buf_def caches_def refs_def)
    then show thesis by (rule fin [rotated 3]) (use c h Some in \<open>auto simp: caches_def view_def\<close>)
  next
    case None
    have "free_bufs st \<noteq> {}" using room None by (simp add: refs_def)
    then obtain i where i: "find (\<lambda>i. b_refcnt (bufs st ! i) = 0) (rev (lru st)) = Some i"
      using find_lru(2) [OF inv, of "\<lambda>i. b_refcnt (bufs st ! i) = 0"] by (auto simp: free_bufs_def)
    then have r: "i < NBUF" "b_refcnt (bufs st ! i) = 0" using find_lru(4) [OF inv i] by auto
    then have h: "b_holder (bufs st ! i) = None" using bio_invD(6) [OF inv r(1)] by (simp add: buf_ok_def)
    have "find (\<lambda>j. b_dev (bufs st ! j) = d \<and> b_blockno (bufs st ! j) = b) (lru st) = None"
      using None buf_of_None find_lru(1) [OF inv] by (auto simp: caches_def)
    then have "bget d b st = Ok (i, st\<lparr>bufs := (bufs st)[i := (read_buf st d b)\<lparr>b_valid := False, b_data := b_data (bufs st ! i)\<rparr>]\<rparr>)"
      using h i r len None
      by (cases "bufs st ! i") (simp add: bget_def acquiresleep_def upd_buf_def read_buf_def refs_def)
    then show thesis by (rule fin [rotated 3]) (use r h None in \<open>auto simp: view_def\<close>)
  qed
qed

lemma bread_spec:
  assumes inv: "bio_inv d st" and io: "io_ok (Suc N) st" and lk: "\<not> locked_blk st d b"
    and room: "0 < refs st d b \<or> free_bufs st \<noteq> {}" and small: "refs st d b < 2 ^ 32 - 1"
  obtains i st' where "bread d b st = Ok (i, st')" "only d b st st'" "holds st' d b i" "view st' d b = view st d b"
    "refs st' d b = refs st d b + 1" "disk st' = disk st" "dtrace st' = dtrace st" "io_ok N st'"
    "card (free_bufs st') + (if refs st d b = 0 then 1 else 0) = card (free_bufs st)"
proof -
  obtain i st' where r: "bread d b st = Ok (i, st')" "i < NBUF"
    "caches st d b i \<or> buf_of st d b = None \<and> b_refcnt (bufs st ! i) = 0"
    "bufs st' = (bufs st)[i := read_buf st d b]" "lru st' = lru st" "disk st' = disk st"
    "dtrace st' = dtrace st" "cur_level st' = cur_level st" "cur_pid st' = cur_pid st" "io_ok N st'"
    using bread_buf [OF inv io lk room] by blast
  have rc: "unat (b_refcnt (read_buf st d b)) = refs st d b + 1"
    using small by (simp add: read_buf_def unat_word_ariths unat_of_nat)
  then have nz: "b_refcnt (read_buf st d b) \<noteq> 0" by auto
  have len: "length (view st d b) = BSIZE"
    using bio_invD(6,8) [OF inv] buf_of_caches
    by (cases "buf_of st d b") (auto simp: view_def buf_ok_def caches_def)
  have bc: "buf_change d st st' i b (read_buf st d b) (disk st b)"
    unfolding buf_change_def using r inv bio_invD(3,4,8) [OF inv] nz len by (simp add: read_buf_def)
  have h: "holds st' d b i"
    using bc_caches [OF bc, of b i] bc_nth [OF bc r(2)] nz r(9) by (simp add: holds_def) (simp add: read_buf_def)
  have "i \<in> free_bufs st \<longleftrightarrow> refs st d b = 0"
  proof (cases "caches st d b i")
    case True
    then have "buf_of st d b = Some i" using buf_of_eq [OF inv] by simp
    then show ?thesis using r(2) by (simp add: refs_def free_bufs_def unat_eq_0)
  next
    case False
    then show ?thesis using r(2,3) by (auto simp: refs_def free_bufs_def)
  qed
  moreover have "finite (free_bufs st)" by (simp add: free_bufs_def)
  ultimately have "card (free_bufs st') + (if refs st d b = 0 then 1 else 0) = card (free_bufs st)"
    using bc_free [OF bc] nz card_Suc_Diff1 [of "free_bufs st" i] by auto
  then show thesis
    using that r only_change [OF bc r(8)] h bc_view [OF bc, of b] bc_refs [OF bc, of b] rc by (simp add: read_buf_def)
qed

text \<open>A change to a held buffer that keeps its block.\<close>

lemma held_change:
  assumes inv: "bio_inv d st" and h: "holds st d b i"
    and st': "bufs st' = (bufs st)[i := nb]" "distinct (lru st')" "set (lru st') = {..<NBUF}"
      "cur_pid st' = cur_pid st" "disk st' = (disk st)(b := x)" "length x = BSIZE"
    and nb: "b_dev nb = d" "b_blockno nb = b" "b_valid nb" "length (b_data nb) = BSIZE"
      "b_holder nb = None \<or> b_holder nb = Some (cur_pid st)" "b_refcnt nb = 0 \<longrightarrow> b_holder nb = None \<and> b_data nb = x"
  shows "buf_change d st st' i b nb x"
  unfolding buf_change_def using assms by (auto simp: holds_def caches_def)

lemma held_buf:
  assumes "bio_inv d st" "holds st d b i"
  shows "b_dev (bufs st ! i) = d" "b_blockno (bufs st ! i) = b" "b_valid (bufs st ! i)"
    "length (b_data (bufs st ! i)) = BSIZE" "b_holder (bufs st ! i) = Some (cur_pid st)" "b_refcnt (bufs st ! i) \<noteq> 0"
    "length (disk st b) = BSIZE" "distinct (lru st)" "set (lru st) = {..<NBUF}" "i < length (bufs st)" "i < NBUF"
  using assms bio_invD(2,3,4,6,8) [OF assms(1)] by (auto simp: holds_def caches_def buf_ok_def)

lemma bset_spec:
  assumes inv: "bio_inv d st" and h: "holds st d b i" and len: "length bs = BSIZE"
  shows "only d b st (bset i bs st)" "holds (bset i bs st) d b i" "view (bset i bs st) d b = bs"
    "refs (bset i bs st) d b = refs st d b" "disk (bset i bs st) = disk st" "dtrace (bset i bs st) = dtrace st"
    "io_ok N (bset i bs st) = io_ok N st" "free_bufs (bset i bs st) = free_bufs st"
proof -
  note hb = held_buf [OF inv h]
  have bc: "buf_change d st (bset i bs st) i b ((bufs st ! i)\<lparr>b_data := bs\<rparr>) (disk st b)"
    by (rule held_change [OF inv h]) (use hb len in \<open>simp_all add: bset_def upd_buf_def\<close>)
  show "only d b st (bset i bs st)" by (rule only_change [OF bc]) (simp add: bset_def upd_buf_def)
  show "holds (bset i bs st) d b i" using bc_caches [OF bc, of b i] bc_nth [OF bc hb(11)] hb
    by (simp add: holds_def) (simp add: bset_def upd_buf_def)
  show "view (bset i bs st) d b = bs" using bc_view [OF bc, of b] by simp
  show "refs (bset i bs st) d b = refs st d b" using bc_refs [OF bc, of b] holds_refs(3) [OF inv h] by simp
  show "free_bufs (bset i bs st) = free_bufs st" using bc_free [OF bc] hb by (auto simp: free_bufs_def)
qed (simp_all add: bset_def upd_buf_def io_ok_def)

lemma bwrite_spec:
  assumes inv: "bio_inv d st" and h: "holds st d b i" and io: "io_ok (Suc N) st"
  obtains st' where "bwrite i st = Ok st'" "only d b st st'" "holds st' d b i" "view st' d b = view st d b"
    "refs st' d b = refs st d b" "disk st' = (disk st)(b := view st d b)"
    "dtrace st' = dtrace st @ [(b, view st d b)]" "io_ok N st'" "free_bufs st' = free_bufs st"
proof -
  note hb = held_buf [OF inv h]
  have v: "view st d b = b_data (bufs st ! i)" using holds_refs(5) [OF inv h] by (simp add: bdata_def)
  obtain ds where ds: "disksched_submit i b True (Some (cur_level st, cur_pid st)) (dsch st) = Ok (ds, Some (i, True))"
      "io_ok N (st\<lparr>dsch := ds\<rparr>)"
    using io_ok_submit [OF io] by blast
  define st' where "st' = st\<lparr>dsch := ds, disk := (disk st)(b := view st d b), dtrace := dtrace st @ [(b, view st d b)]\<rparr>"
  have run: "bwrite i st = Ok st'"
    using ds(1) hb v by (simp add: bwrite_def holdingsleep_def submit_def virtio_disk_rw_def st'_def Let_def)
  have bc: "buf_change d st st' i b (bufs st ! i) (view st d b)"
    by (rule held_change [OF inv h]) (use hb v in \<open>simp_all add: st'_def\<close>)
  have "holds st' d b i" using bc_caches [OF bc, of b i] hb by (simp add: holds_def) (simp add: st'_def)
  moreover have "only d b st st'" by (rule only_change [OF bc]) (simp add: st'_def)
  moreover have "free_bufs st' = free_bufs st" using bc_free [OF bc] hb by (auto simp: free_bufs_def)
  moreover have "io_ok N st'" using ds(2) by (simp add: st'_def io_ok_def)
  ultimately show thesis
    using that run bc_view [OF bc, of b] bc_refs [OF bc, of b] holds_refs(3) [OF inv h] v by (simp add: st'_def)
qed

lemma brelse_spec:
  assumes inv: "bio_inv d st" and h: "holds st d b i" and cl: "refs st d b = 1 \<longrightarrow> view st d b = disk st b"
  obtains st' where "brelse i st = Ok st'" "only d b st st'" "\<not> locked_blk st' d b" "view st' d b = view st d b"
    "refs st' d b = refs st d b - 1" "disk st' = disk st" "dtrace st' = dtrace st" "\<forall>N. io_ok N st' = io_ok N st"
    "card (free_bufs st') = card (free_bufs st) + (if refs st d b = 1 then 1 else 0)"
proof -
  note hb = held_buf [OF inv h]
  have v: "view st d b = b_data (bufs st ! i)" using holds_refs(5) [OF inv h] by (simp add: bdata_def)
  define nb where "nb = (bufs st ! i)\<lparr>b_holder := None, b_refcnt := b_refcnt (bufs st ! i) - 1\<rparr>"
  have rc: "unat (b_refcnt nb) = refs st d b - 1"
    using hb(6) holds_refs(3) [OF inv h] by (simp add: nb_def unat_minus_one)
  have z: "b_refcnt nb = 0 \<longleftrightarrow> refs st d b = 1"
    using rc holds_refs(4) [OF inv h] by (auto simp: unat_eq_0 [symmetric])
  define st' where "st' = (if b_refcnt nb = 0 then st\<lparr>bufs := (bufs st)[i := nb], lru := i # remove1 i (lru st)\<rparr>
    else st\<lparr>bufs := (bufs st)[i := nb]\<rparr>)"
  have run: "brelse i st = Ok st'"
    using hb by (simp add: brelse_def holdingsleep_def upd_buf_def st'_def nb_def)
  have bc: "buf_change d st st' i b nb (disk st b)"
    by (rule held_change [OF inv h]) (use hb cl v z in \<open>auto simp: st'_def nb_def\<close>)
  have "finite (free_bufs st)" by (simp add: free_bufs_def)
  then have "card (free_bufs st') = card (free_bufs st) + (if refs st d b = 1 then 1 else 0)"
    using bc_free [OF bc] z hb(6) by (auto simp: free_bufs_def)
  moreover have "only d b st st'" by (rule only_change [OF bc]) (simp add: st'_def)
  moreover have "view st' d b = view st d b" using bc_view [OF bc, of b] v by (simp add: nb_def)
  ultimately show thesis
    using that run bc_refs [OF bc, of b] bc_locked [OF bc, of b] rc
    by (simp add: nb_def io_ok_def st'_def)
qed

lemma bpin_spec:
  assumes inv: "bio_inv d st" and h: "holds st d b i" and small: "refs st d b < 2 ^ 32 - 1"
  shows "only d b st (bpin i st)" "holds (bpin i st) d b i" "view (bpin i st) d b = view st d b"
    "refs (bpin i st) d b = refs st d b + 1" "disk (bpin i st) = disk st" "dtrace (bpin i st) = dtrace st"
    "io_ok N (bpin i st) = io_ok N st" "free_bufs (bpin i st) = free_bufs st"
proof -
  note hb = held_buf [OF inv h]
  let ?nb = "(bufs st ! i)\<lparr>b_refcnt := b_refcnt (bufs st ! i) + 1\<rparr>"
  have rc: "unat (b_refcnt ?nb) = refs st d b + 1"
    using small holds_refs(3) [OF inv h] by (simp add: unat_word_ariths)
  then have nz: "b_refcnt ?nb \<noteq> 0" by (metis add_eq_0_iff_both_eq_0 one_neq_zero unat_eq_0)
  have bc: "buf_change d st (bpin i st) i b ?nb (disk st b)"
    by (rule held_change [OF inv h]) (use hb nz in \<open>simp_all add: bpin_def upd_buf_def\<close>)
  show "only d b st (bpin i st)" by (rule only_change [OF bc]) (simp add: bpin_def upd_buf_def)
  show "holds (bpin i st) d b i" using bc_caches [OF bc, of b i] bc_nth [OF bc hb(11)] hb nz
    by (simp add: holds_def) (simp add: bpin_def upd_buf_def)
  show "view (bpin i st) d b = view st d b"
    using bc_view [OF bc, of b] holds_refs(5) [OF inv h] by (simp add: bdata_def)
  show "refs (bpin i st) d b = refs st d b + 1" using bc_refs [OF bc, of b] rc by simp
  show "free_bufs (bpin i st) = free_bufs st" using bc_free [OF bc] hb nz by (auto simp: free_bufs_def)
qed (simp_all add: bpin_def upd_buf_def io_ok_def)

lemma bunpin_spec:
  assumes inv: "bio_inv d st" and h: "holds st d b i" and two: "2 \<le> refs st d b"
  shows "only d b st (bunpin i st)" "holds (bunpin i st) d b i" "view (bunpin i st) d b = view st d b"
    "refs (bunpin i st) d b = refs st d b - 1" "disk (bunpin i st) = disk st" "dtrace (bunpin i st) = dtrace st"
    "io_ok N (bunpin i st) = io_ok N st" "free_bufs (bunpin i st) = free_bufs st"
proof -
  note hb = held_buf [OF inv h]
  let ?nb = "(bufs st ! i)\<lparr>b_refcnt := b_refcnt (bufs st ! i) - 1\<rparr>"
  have rc: "unat (b_refcnt ?nb) = refs st d b - 1"
    using hb(6) holds_refs(3) [OF inv h] by (simp add: unat_minus_one)
  then have nz: "b_refcnt ?nb \<noteq> 0" using two by auto
  have bc: "buf_change d st (bunpin i st) i b ?nb (disk st b)"
    by (rule held_change [OF inv h]) (use hb nz in \<open>simp_all add: bunpin_def upd_buf_def\<close>)
  show "only d b st (bunpin i st)" by (rule only_change [OF bc]) (simp add: bunpin_def upd_buf_def)
  show "holds (bunpin i st) d b i" using bc_caches [OF bc, of b i] bc_nth [OF bc hb(11)] hb nz
    by (simp add: holds_def) (simp add: bunpin_def upd_buf_def)
  show "view (bunpin i st) d b = view st d b"
    using bc_view [OF bc, of b] holds_refs(5) [OF inv h] by (simp add: bdata_def)
  show "refs (bunpin i st) d b = refs st d b - 1" using bc_refs [OF bc, of b] rc by simp
  show "free_bufs (bunpin i st) = free_bufs st" using bc_free [OF bc] hb nz by (auto simp: free_bufs_def)
qed (simp_all add: bunpin_def upd_buf_def io_ok_def)

section \<open>The cache after boot\<close>

lemma fold_cons_rev: "fold (\<lambda>i l. i # l) xs ys = rev xs @ ys"
  by (induction xs arbitrary: ys) auto

lemma binit_inv:
  assumes "d \<noteq> 0" "\<forall>b. length (disk st b) = BSIZE" "length (dq (dsch st)) = MAX_DISK_QUEUE" "cur_level st < 0x7FFFFFFF" "N < 2 ^ 32"
  shows "bio_inv d (binit st)" "io_ok N (binit st)" "refs (binit st) d b = 0" "\<not> locked_blk (binit st) d b"
    "view (binit st) d b = disk st b" "card (free_bufs (binit st)) = NBUF"
proof -
  have n: "bufs (binit st) ! i = blank_buffer" if "i < NBUF" for i using that by (simp add: binit_def)
  have c: "\<not> caches (binit st) d b i" for b i using n assms(1) by (auto simp: caches_def blank_buffer_def)
  then have o: "buf_of (binit st) d b = None" for b using buf_of_None by blast
  show "bio_inv d (binit st)"
    unfolding bio_inv_def using c assms(1,2) n
    by (auto simp: binit_def fold_cons_rev buf_ok_def blank_buffer_def)
  show "io_ok N (binit st)" using assms(3-5) by (simp add: io_ok_def binit_def disksched_init_def pending_def filter_empty_conv)
  have "free_bufs (binit st) = {..<NBUF}" using n by (auto simp: free_bufs_def blank_buffer_def)
  then show "card (free_bufs (binit st)) = NBUF" by simp
  show "refs (binit st) d b = 0" "\<not> locked_blk (binit st) d b" using o by (simp_all add: refs_def locked_blk_def)
  show "view (binit st) d b = disk st b" using o by (simp add: view_def) (simp add: binit_def)
qed

definition boot_bio :: "(u32 \<Rightarrow> byte list) \<Rightarrow> bio" where
  "boot_bio img = binit \<lparr>bufs = [], lru = [], disk = img, dtrace = [], dsch = boot_dsched, cur_level = 0, cur_pid = 1\<rparr>"

lemma boot_bio:
  assumes "d \<noteq> 0" "\<And>b. length (img b) = BSIZE" "N < 2 ^ 32"
  shows "bio_inv d (boot_bio img)" "io_ok N (boot_bio img)" "refs (boot_bio img) d b = 0" "\<not> locked_blk (boot_bio img) d b"
    "view (boot_bio img) d b = img b" "card (free_bufs (boot_bio img)) = NBUF" "disk (boot_bio img) = img" "dtrace (boot_bio img) = []"
  using binit_inv [of d "\<lparr>bufs = [], lru = [], disk = img, dtrace = [], dsch = boot_dsched, cur_level = 0, cur_pid = 1\<rparr>" N] assms
  by (simp_all add: boot_bio_def boot_dsched_def disksched_init_def) (simp_all add: binit_def)

section \<open>Properties of the buffer cache\<close>

text \<open>
  C22. One block, read, changed, written and released: \<open>bread\<close> locks the one buffer of the block
  and shows its current contents (cached or from disk, recycling an unused buffer if need be),
  \<open>bwrite\<close> stores exactly the new contents in that block of the disk, a later \<open>bread\<close> shows them,
  and no other block changes in the cache or on the disk.
\<close>

theorem bio_write_read:
  assumes "bio_inv d st" "io_ok 3 st" "refs st d b = 0" "free_bufs st \<noteq> {}" "length bs = BSIZE"
  shows "\<exists>i st1 st2 st3 j st4. bread d b st = Ok (i, st1) \<and> bdata i st1 = view st d b \<and>
    bwrite i (bset i bs st1) = Ok st2 \<and> brelse i st2 = Ok st3 \<and> bread d b st3 = Ok (j, st4) \<and> bdata j st4 = bs \<and>
    disk st4 = (disk st)(b := bs) \<and> (\<forall>b'. b' \<noteq> b \<longrightarrow> view st4 d b' = view st d b') \<and> bio_inv d st4"
proof -
  have lk: "\<not> locked_blk st d b"
  proof
    assume l: "locked_blk st d b"
    then obtain i where i: "buf_of st d b = Some i" "b_holder (bufs st ! i) \<noteq> None"
      by (auto simp: locked_blk_def split: option.splits)
    then have "b_refcnt (bufs st ! i) = 0" "i < NBUF" using assms(3) buf_of_caches [OF i(1)]
      by (auto simp: refs_def unat_eq_0 caches_def)
    then show False using bio_invD(6) [OF assms(1)] i(2) by (auto simp: buf_ok_def)
  qed
  have io: "io_ok (Suc 2) st" using assms(2) by simp
  have room: "0 < refs st d b \<or> free_bufs st \<noteq> {}" "refs st d b < 2 ^ 32 - 1" using assms(3,4) by auto
  obtain i st1 where r1: "bread d b st = Ok (i, st1)" "only d b st st1" "holds st1 d b i" "view st1 d b = view st d b"
      "refs st1 d b = 1" "disk st1 = disk st" "io_ok 2 st1"
    by (rule bread_spec [OF assms(1) io lk room], rule that) (simp_all add: assms(3))
  have i1: "bio_inv d st1" using r1(2) by (simp add: only_def)
  note s = bset_spec [OF i1 r1(3) assms(5)]
  have ib: "bio_inv d (bset i bs st1)" using s(1) by (simp add: only_def)
  have "io_ok (Suc 1) (bset i bs st1)" using s(7) r1(7) by (simp add: numeral_2_eq_2)
  then obtain st2 where r2: "bwrite i (bset i bs st1) = Ok st2" "only d b (bset i bs st1) st2" "holds st2 d b i" "view st2 d b = bs"
      "refs st2 d b = 1" "disk st2 = (disk st)(b := bs)" "io_ok 1 st2"
    using bwrite_spec [OF ib s(2)] s(3,4,5) r1(5,6) by metis
  have i2: "bio_inv d st2" using r2(2) by (simp add: only_def)
  have cl: "refs st2 d b = 1 \<longrightarrow> view st2 d b = disk st2 b" using r2(4,6) by simp
  obtain st3 where b3: "brelse i st2 = Ok st3" "only d b st2 st3" "\<not> locked_blk st3 d b" "view st3 d b = view st2 d b"
      "refs st3 d b = refs st2 d b - 1" "disk st3 = disk st2" "\<forall>N. io_ok N st3 = io_ok N st2"
      "card (free_bufs st3) = card (free_bufs st2) + (if refs st2 d b = 1 then 1 else 0)"
    using brelse_spec [OF i2 r2(3) cl] by blast
  have r3: "brelse i st2 = Ok st3" "only d b st2 st3" "\<not> locked_blk st3 d b" "view st3 d b = bs"
      "refs st3 d b = 0" "disk st3 = disk st2" "io_ok (Suc 0) st3" "card (free_bufs st3) > 0"
    using b3 r2(4-7) by simp_all
  have i3: "bio_inv d st3" using r3(2) by (simp add: only_def)
  have f3: "free_bufs st3 \<noteq> {}" using r3(8) by auto
  obtain j st4 where r4: "bread d b st3 = Ok (j, st4)" "only d b st3 st4" "holds st4 d b j" "view st4 d b = bs" "disk st4 = disk st3"
    by (rule bread_spec [OF i3 r3(7,3)]) (use r3(4,5) f3 that in auto)
  have "bdata i st1 = view st d b" "bdata j st4 = bs"
    using holds_refs(5) [OF i1 r1(3)] holds_refs(5) [OF _ r4(3)] r1(4) r4(2,4) by (auto simp: only_def)
  moreover have "view st4 d b' = view st d b'" if "b' \<noteq> b" for b'
    using r1(2) s(1) r2(2) r3(2) r4(2) that by (simp add: only_def)
  moreover have "bio_inv d st4" using r4(2) by (simp add: only_def)
  ultimately show ?thesis using r1(1) r2(1,6) r3(1,6) r4(1,5) by auto
qed

theorem bio_write_read_witness:
  "\<exists>i st1 st2 st3 j st4. bread 1 40 (boot_bio (\<lambda>_. replicate BSIZE 0)) = Ok (i, st1) \<and>
    bwrite i (bset i (replicate BSIZE 7) st1) = Ok st2 \<and> brelse i st2 = Ok st3 \<and> bread 1 40 st3 = Ok (j, st4) \<and>
    bdata j st4 = replicate BSIZE 7 \<and> disk st4 41 = replicate BSIZE 0"
proof -
  let ?st = "boot_bio (\<lambda>_. replicate BSIZE 0)"
  have b: "bio_inv 1 ?st" "io_ok 3 ?st" "refs ?st 1 40 = 0" "card (free_bufs ?st) = NBUF" "disk ?st = (\<lambda>_. replicate BSIZE 0)"
    using boot_bio [of 1 "\<lambda>_. replicate BSIZE 0" 3] by simp_all
  have "free_bufs ?st \<noteq> {}" using b(4) by (auto simp: kconst)
  from bio_write_read [OF b(1-3) this, of "replicate BSIZE 7"] show ?thesis using b(5) by fastforce
qed

end
