(* ===== verification/Cache.thy ===== *)
theory Cache
  imports Bio
begin

text \<open>
  The buffer cache as its clients, the log and the file system, use it: a set \<open>L\<close> of blocks is
  pinned by the open transaction, a set \<open>H\<close> of blocks is held (read and locked, not yet
  released), every other buffer can be recycled. The operations of the cache are restated over
  these two sets and the contents of the blocks, together with a small calculus of total
  correctness for kernel code: \<open>wp r Q\<close> says that a call returns, without a panic, with a
  value that satisfies \<open>Q\<close>.
\<close>

section \<open>Total correctness of calls\<close>

definition wp :: "'a result \<Rightarrow> ('a \<Rightarrow> bool) \<Rightarrow> bool" where
  "wp r Q = (\<exists>a. r = Ok a \<and> Q a)"

named_theorems wp_rules "how wp passes through the program constructs"

lemma wp_Ok [simp]: "wp (Ok a) Q = Q a"
  by (simp add: wp_def)

lemma wp_Panic [simp]: "\<not> wp (Panic m) Q"
  by (simp add: wp_def)

lemma wp_bindR [simp]: "wp (bindR r f) Q = wp r (\<lambda>a. wp (f a) Q)"
  by (cases r) (auto simp: wp_def)

lemma wp_mono: "wp r P \<Longrightarrow> (\<And>a. P a \<Longrightarrow> Q a) \<Longrightarrow> wp r Q"
  by (auto simp: wp_def)

lemma wp_conj: "wp r P \<Longrightarrow> wp r Q \<Longrightarrow> wp r (\<lambda>a. P a \<and> Q a)"
  by (auto simp: wp_def)

lemma wpE: "wp r Q \<Longrightarrow> (\<And>a. r = Ok a \<Longrightarrow> Q a \<Longrightarrow> thesis) \<Longrightarrow> thesis"
  by (auto simp: wp_def)

text \<open>A counted loop, with an invariant on the number of iterations done.\<close>

lemma wp_forR:
  assumes "I 0 s" and "\<And>k s. k < length l \<Longrightarrow> I k s \<Longrightarrow> wp (body (l ! k) s) (I (Suc k))"
  shows "wp (forR body l s) (I (length l))"
  using assms
proof (induction l arbitrary: s I)
  case (Cons x l)
  have "wp (body x s) (I (Suc 0))" using Cons.prems(2) [of 0 s] Cons.prems(1) by simp
  moreover have "wp (forR body l s') (I (Suc (length l)))" if "I (Suc 0) s'" for s'
  proof (rule Cons.IH [of "\<lambda>k. I (Suc k)"])
    show "wp (body (l ! k) s) (I (Suc (Suc k)))" if "k < length l" "I (Suc k) s" for k s
      using Cons.prems(2) [of "Suc k" s] that by simp
  qed (rule that)
  ultimately show ?case by (auto intro: wp_mono)
qed simp

section \<open>Pinned and held blocks\<close>

definition cinv :: "u32 \<Rightarrow> u32 set \<Rightarrow> u32 set \<Rightarrow> bio \<Rightarrow> bool" where
  "cinv d L H st = (bio_inv d st \<and> finite L \<and> finite H \<and>
     (\<forall>b. refs st d b = of_bool (b \<in> L) + of_bool (b \<in> H)) \<and>
     (\<forall>b. locked_blk st d b = (b \<in> H)) \<and>
     card (free_bufs st) + card (L \<union> H) = NBUF)"

lemma cinvD:
  assumes "cinv d L H st"
  shows "bio_inv d st" "finite L" "finite H" "refs st d b = of_bool (b \<in> L) + of_bool (b \<in> H)"
    "locked_blk st d b = (b \<in> H)" "card (free_bufs st) + card (L \<union> H) = NBUF"
  using assms unfolding cinv_def by blast+

lemma refs_0_clean:
  assumes "bio_inv d st" "refs st d b = 0"
  shows "view st d b = disk st b"
proof (cases "buf_of st d b")
  case (Some i)
  then have "b_refcnt (bufs st ! i) = 0" "i < NBUF" "b_blockno (bufs st ! i) = b"
    using assms(2) buf_of_caches [OF Some] by (auto simp: refs_def caches_def unat_eq_0)
  then show ?thesis using bio_invD(6) [OF assms(1), of i] Some by (auto simp: view_def buf_ok_def)
qed (simp add: view_def)

text \<open>A block neither pinned nor held shows what is on the disk.\<close>

lemma cinv_clean: "cinv d L H st \<Longrightarrow> b \<notin> L \<Longrightarrow> b \<notin> H \<Longrightarrow> view st d b = disk st b"
  using refs_0_clean cinvD(1,4) by force

lemma view_length: "bio_inv d st \<Longrightarrow> length (view st d b) = BSIZE"
  using bio_invD(6,8) buf_of_caches
  by (cases "buf_of st d b") (auto simp: view_def buf_ok_def caches_def)

text \<open>The handles on all other blocks stay what they are, and so does the current process.\<close>

definition keeps :: "u32 \<Rightarrow> u32 \<Rightarrow> bio \<Rightarrow> bio \<Rightarrow> bool" where
  "keeps d b st st' = (cur_pid st' = cur_pid st \<and> (\<forall>b' j. b' \<noteq> b \<longrightarrow> holds st d b' j \<longrightarrow> holds st' d b' j))"

lemma only_keeps: "only d b st st' \<Longrightarrow> keeps d b st st'"
  by (auto simp: only_def keeps_def)

lemma only_view: "only d b st st' \<Longrightarrow> view st' d = (view st d)(b := view st' d b)"
  by (auto simp: only_def)

lemma cinv_only:
  assumes "cinv d L H st" "only d b st st'" "finite L'" "finite H'"
    and "\<And>b'. b' \<noteq> b \<Longrightarrow> (b' \<in> L') = (b' \<in> L) \<and> (b' \<in> H') = (b' \<in> H)"
    and "refs st' d b = of_bool (b \<in> L') + of_bool (b \<in> H')" "locked_blk st' d b = (b \<in> H')"
    and "card (free_bufs st') + card (L' \<union> H') = NBUF"
  shows "cinv d L' H' st'"
  unfolding cinv_def
proof (intro conjI allI)
  show "bio_inv d st'" using assms(2) by (simp add: only_def)
  show "refs st' d b' = of_bool (b' \<in> L') + of_bool (b' \<in> H')" for b'
    using assms(2,5,6) cinvD(4) [OF assms(1), of b'] by (cases "b' = b") (auto simp: only_def)
  show "locked_blk st' d b' = (b' \<in> H')" for b'
    using assms(2,5,7) cinvD(5) [OF assms(1), of b'] by (cases "b' = b") (auto simp: only_def)
qed (use assms in auto)

lemma cinv_bread:
  assumes c: "cinv d L H st" and io: "io_ok (Suc N) st" and b: "b \<notin> H" and room: "b \<in> L \<or> card (L \<union> H) < NBUF"
  shows "wp (bread d b st) (\<lambda>(i, st'). cinv d L (insert b H) st' \<and> holds st' d b i \<and> view st' d = view st d \<and>
    bdata i st' = view st d b \<and> disk st' = disk st \<and> dtrace st' = dtrace st \<and> io_ok N st' \<and> keeps d b st st')"
proof -
  note inv = cinvD(1) [OF c] and fr = cinvD(6) [OF c]
  have r: "refs st d b = of_bool (b \<in> L)" using cinvD(4) [OF c, of b] b by simp
  have "free_bufs st \<noteq> {}" if "b \<notin> L" using room fr that by auto
  then have ro: "0 < refs st d b \<or> free_bufs st \<noteq> {}" "refs st d b < 2 ^ 32 - 1" using r by auto
  obtain i st' where s: "bread d b st = Ok (i, st')" "only d b st st'" "holds st' d b i" "view st' d b = view st d b"
    "refs st' d b = refs st d b + 1" "disk st' = disk st" "dtrace st' = dtrace st" "io_ok N st'"
    "card (free_bufs st') + (if refs st d b = 0 then 1 else 0) = card (free_bufs st)"
    using bread_spec [OF inv io _ ro] cinvD(5) [OF c, of b] b by blast
  have inv': "bio_inv d st'" using s(2) by (simp add: only_def)
  have card: "card (L \<union> insert b H) = card (L \<union> H) + (if b \<in> L then 0 else 1)"
    using cinvD(2,3) [OF c] b by (auto simp: insert_absorb)
  have c': "cinv d L (insert b H) st'"
    by (rule cinv_only [OF c s(2)])
      (use cinvD(2,3) [OF c] s(5,9) r card fr holds_refs(7) [OF inv' s(3)] b in \<open>auto split: if_splits\<close>)
  have "view st' d = view st d" using only_view [OF s(2)] s(4) by simp
  moreover have "bdata i st' = view st d b" using holds_refs(5) [OF inv' s(3)] s(4) by simp
  ultimately show ?thesis using c' s only_keeps [OF s(2)] by (auto simp: wp_def)
qed

text \<open>With every buffer pinned or held, reading one more block panics.\<close>

lemma cinv_bread_panics:
  assumes c: "cinv d L H st" and b: "b \<notin> L" "b \<notin> H" "buf_of st d b = None" and full: "card (L \<union> H) = NBUF"
  shows "bread d b st = Panic ''bget: no buffers''"
proof -
  note inv = cinvD(1) [OF c]
  have "card (free_bufs st) = 0" using cinvD(6) [OF c] full by simp
  then have f: "b_refcnt (bufs st ! i) \<noteq> 0" if "i < NBUF" for i
    using that by (auto simp: free_bufs_def)
  have "find (\<lambda>i. b_dev (bufs st ! i) = d \<and> b_blockno (bufs st ! i) = b) (lru st) = None"
    using b(3) find_lru(1) [OF inv] buf_of_None by (auto simp: caches_def)
  moreover have "find (\<lambda>i. b_refcnt (bufs st ! i) = 0) (rev (lru st)) = None"
    using f find_lru(2) [OF inv] by blast
  ultimately show ?thesis by (simp add: bread_def bget_def)
qed

lemma full_not_cached:
  assumes c: "cinv d L H st" and b: "b \<notin> L" "b \<notin> H" and full: "card (L \<union> H) = NBUF"
  shows "buf_of st d b = None"
proof (rule ccontr)
  assume "buf_of st d b \<noteq> None"
  then obtain i where i: "buf_of st d b = Some i" by auto
  then have "i < NBUF" using buf_of_caches [OF i] by (simp add: caches_def)
  moreover have "b_refcnt (bufs st ! i) = 0" using cinvD(4) [OF c, of b] b i by (simp add: refs_def unat_eq_0)
  ultimately have "i \<in> free_bufs st" by (simp add: free_bufs_def)
  moreover have "finite (free_bufs st)" by (simp add: free_bufs_def)
  ultimately show False using cinvD(6) [OF c] full by (auto simp: card_eq_0_iff)
qed

lemma cinv_holds: "cinv d L H st \<Longrightarrow> holds st d b i \<Longrightarrow> b \<in> H"
  using holds_refs(7) cinvD(1,5) by blast

lemma cinv_bset:
  assumes c: "cinv d L H st" and h: "holds st d b i" and len: "length bs = BSIZE"
  shows "cinv d L H (bset i bs st)" "holds (bset i bs st) d b i" "view (bset i bs st) d = (view st d)(b := bs)"
    "disk (bset i bs st) = disk st" "dtrace (bset i bs st) = dtrace st" "io_ok N (bset i bs st) = io_ok N st"
    "keeps d b st (bset i bs st)" "bdata i (bset i bs st) = bs"
proof -
  note s = bset_spec [OF cinvD(1) [OF c] h len]
  show "cinv d L H (bset i bs st)"
    by (rule cinv_only [OF c s(1)]) (use s cinvD [OF c] holds_refs(7) [OF _ s(2)] cinv_holds [OF c h] in \<open>auto simp: only_def\<close>)
  show "view (bset i bs st) d = (view st d)(b := bs)" using only_view [OF s(1)] s(3) by simp
  show "keeps d b st (bset i bs st)" by (rule only_keeps [OF s(1)])
  show "bdata i (bset i bs st) = bs" using holds_refs(5) [OF _ s(2)] s(1,3) by (auto simp: only_def)
qed (use bset_spec [OF cinvD(1) [OF c] h len] in auto)

lemma cinv_bwrite:
  assumes c: "cinv d L H st" and h: "holds st d b i" and io: "io_ok (Suc N) st"
  shows "wp (bwrite i st) (\<lambda>st'. cinv d L H st' \<and> holds st' d b i \<and> view st' d = view st d \<and>
    disk st' = (disk st)(b := view st d b) \<and> dtrace st' = dtrace st @ [(b, view st d b)] \<and> io_ok N st' \<and> keeps d b st st')"
proof -
  obtain st' where s: "bwrite i st = Ok st'" "only d b st st'" "holds st' d b i" "view st' d b = view st d b"
    "refs st' d b = refs st d b" "disk st' = (disk st)(b := view st d b)"
    "dtrace st' = dtrace st @ [(b, view st d b)]" "io_ok N st'" "free_bufs st' = free_bufs st"
    using bwrite_spec [OF cinvD(1) [OF c] h io] by blast
  have "cinv d L H st'"
    by (rule cinv_only [OF c s(2)]) (use s cinvD [OF c] holds_refs(7) [OF _ s(3)] cinv_holds [OF c h] in \<open>auto simp: only_def\<close>)
  moreover have "view st' d = view st d" using only_view [OF s(2)] s(4) by simp
  ultimately show ?thesis using s only_keeps [OF s(2)] by (auto simp: wp_def)
qed

lemma cinv_brelse:
  assumes c: "cinv d L (insert b H) st" and b: "b \<notin> H" and h: "holds st d b i" and cl: "b \<in> L \<or> view st d b = disk st b"
  shows "wp (brelse i st) (\<lambda>st'. cinv d L H st' \<and> view st' d = view st d \<and> disk st' = disk st \<and> dtrace st' = dtrace st \<and>
    (\<forall>N. io_ok N st' = io_ok N st) \<and> keeps d b st st')"
proof -
  note r = cinvD(4) [OF c, of b]
  obtain st' where s: "brelse i st = Ok st'" "only d b st st'" "\<not> locked_blk st' d b" "view st' d b = view st d b"
    "refs st' d b = refs st d b - 1" "disk st' = disk st" "dtrace st' = dtrace st" "\<forall>N. io_ok N st' = io_ok N st"
    "card (free_bufs st') = card (free_bufs st) + (if refs st d b = 1 then 1 else 0)"
    using brelse_spec [OF cinvD(1) [OF c] h] cl r by (auto split: if_splits)
  have fin: "finite L" "finite H" using cinvD(2,3) [OF c] by auto
  have "card (L \<union> insert b H) = card (L \<union> H) + (if b \<in> L then 0 else 1)"
    using fin b by (auto simp: insert_absorb)
  then have "cinv d L H st'"
    by (intro cinv_only [OF c s(2)]) (use s fin b r cinvD(6) [OF c] in \<open>auto split: if_splits\<close>)
  moreover have "view st' d = view st d" using only_view [OF s(2)] s(4) by simp
  ultimately show ?thesis using s only_keeps [OF s(2)] by (auto simp: wp_def)
qed

lemma cinv_bpin:
  assumes c: "cinv d L H st" and h: "holds st d b i" and b: "b \<notin> L"
  shows "cinv d (insert b L) H (bpin i st)" "holds (bpin i st) d b i" "view (bpin i st) d = view st d"
    "disk (bpin i st) = disk st" "dtrace (bpin i st) = dtrace st" "io_ok N (bpin i st) = io_ok N st"
    "keeps d b st (bpin i st)"
proof -
  have bH: "b \<in> H" by (rule cinv_holds [OF c h])
  have r: "refs st d b = 1" using cinvD(4) [OF c, of b] b bH by simp
  then have "refs st d b < 2 ^ 32 - 1" by simp
  note s = bpin_spec [OF cinvD(1) [OF c] h this]
  show "cinv d (insert b L) H (bpin i st)"
    by (rule cinv_only [OF c s(1)])
      (use s cinvD [OF c] holds_refs(7) [OF _ s(2)] bH r in \<open>auto simp: only_def insert_absorb\<close>)
  show "view (bpin i st) d = view st d" using only_view [OF s(1)] s(3) by simp
  show "keeps d b st (bpin i st)" by (rule only_keeps [OF s(1)])
  show "holds (bpin i st) d b i" "disk (bpin i st) = disk st" "dtrace (bpin i st) = dtrace st"
    "io_ok N (bpin i st) = io_ok N st" using s by auto
qed

lemma cinv_bunpin:
  assumes c: "cinv d L H st" and h: "holds st d b i" and b: "b \<in> L"
  shows "cinv d (L - {b}) H (bunpin i st)" "holds (bunpin i st) d b i" "view (bunpin i st) d = view st d"
    "disk (bunpin i st) = disk st" "dtrace (bunpin i st) = dtrace st" "io_ok N (bunpin i st) = io_ok N st"
    "keeps d b st (bunpin i st)"
proof -
  have bH: "b \<in> H" by (rule cinv_holds [OF c h])
  have r: "refs st d b = 2" using cinvD(4) [OF c, of b] b bH by simp
  then have "2 \<le> refs st d b" by simp
  note s = bunpin_spec [OF cinvD(1) [OF c] h this]
  have "L - {b} \<union> H = L \<union> H" using bH by auto
  then show "cinv d (L - {b}) H (bunpin i st)"
    by (intro cinv_only [OF c s(1)])
      (use s cinvD [OF c] holds_refs(7) [OF _ s(2)] bH r in \<open>auto simp: only_def\<close>)
  show "view (bunpin i st) d = view st d" using only_view [OF s(1)] s(3) by simp
  show "keeps d b st (bunpin i st)" by (rule only_keeps [OF s(1)])
  show "holds (bunpin i st) d b i" "disk (bunpin i st) = disk st" "dtrace (bunpin i st) = dtrace st"
    "io_ok N (bunpin i st) = io_ok N st" using s by auto
qed

lemma boot_cinv:
  assumes "d \<noteq> 0" "\<And>b. length (img b) = BSIZE" "N < 2 ^ 32"
  shows "cinv d {} {} (boot_bio img)" "io_ok N (boot_bio img)" "view (boot_bio img) d = img"
    "disk (boot_bio img) = img" "dtrace (boot_bio img) = []"
  using boot_bio [OF assms] by (auto simp: cinv_def)

end
