(* ===== verification/Log.thy ===== *)
theory Log
  imports Cache
begin

text \<open>
  The write-ahead log, \<^verbatim>\<open>kernel/log.c\<close>, on top of the buffer cache: the in-memory header and
  its copy on disk, the transaction brackets \<open>begin_op\<close> and \<open>end_op\<close>, \<open>log_write\<close>, \<open>commit\<close> and
  recovery. The disk writes a commit issues are known in order from the cache's write trace,
  so a crash is a prefix of that trace followed by a boot.
\<close>

section \<open>State\<close>

definition MAXOPBLOCKS :: nat where "MAXOPBLOCKS = 10"
definition LOGBLOCKS :: nat where "LOGBLOCKS = MAXOPBLOCKS * 3"
declare MAXOPBLOCKS_def [kconst] LOGBLOCKS_def [kconst]

text \<open>
  \<open>struct log\<close>. Block numbers are kept as 32-bit patterns; the counters are C integers that
  stay small.
\<close>

record log_state =
  log_start :: u32
  outstanding :: int
  committing :: bool
  log_dev :: u32
  lh_n :: int
  lh_block :: "u32 list"

record fsio =
  lg :: log_state
  bc :: bio

section \<open>Operations\<close>

text \<open>\<open>install_trans\<close>: copy each logged block from the log area to its home location.\<close>

definition install_one :: "bool \<Rightarrow> nat \<Rightarrow> fsio \<Rightarrow> fsio result" where
  "install_one recovering tail st =
     (let l = lg st in
      bindR (bread (log_dev l) (log_start l + of_nat tail + 1) (bc st)) (\<lambda>(lbuf, b1).
      bindR (bread (log_dev l) (lh_block l ! tail) b1) (\<lambda>(dbuf, b2).
      bindR (bwrite dbuf (bset dbuf (bdata lbuf b2) b2)) (\<lambda>b3.
      let b4 = (if recovering then b3 else bunpin dbuf b3) in
      bindR (brelse lbuf b4) (\<lambda>b5.
      bindR (brelse dbuf b5) (\<lambda>b6. Ok (st\<lparr>bc := b6\<rparr>)))))))"

definition install_trans :: "bool \<Rightarrow> fsio \<Rightarrow> fsio result" where
  "install_trans recovering st = forR (install_one recovering) [0..<nat (lh_n (lg st))] st"

text \<open>
  \<open>struct logheader\<close> over the bytes of the header block: the count, then the block numbers. A
  count beyond \<open>LOGBLOCKS\<close> would make \<open>read_head\<close> write past the array; that path is an error here.
\<close>

definition read_head :: "fsio \<Rightarrow> fsio result" where
  "read_head st =
     (let l = lg st in
      bindR (bread (log_dev l) (log_start l) (bc st)) (\<lambda>(buf, b1).
      let hd = bdata buf b1; n = sint (get32 hd 0)
      in if int LOGBLOCKS < n then Panic ''read_head: block index out of range''
         else bindR (brelse buf b1) (\<lambda>b2.
           Ok \<lparr>lg = l\<lparr>lh_n := n, lh_block := fold (\<lambda>i bl. bl[i := get32 hd (4 + 4 * i)]) [0..<nat n] (lh_block l)\<rparr>,
               bc = b2\<rparr>)))"

definition head_bytes :: "log_state \<Rightarrow> byte list \<Rightarrow> byte list" where
  "head_bytes l hb = fold (\<lambda>i hb. put32 (4 + 4 * i) (lh_block l ! i) hb) [0..<nat (lh_n l)] (put32 0 (word_of_int (lh_n l)) hb)"

definition write_head :: "fsio \<Rightarrow> fsio result" where
  "write_head st =
     (let l = lg st in
      bindR (bread (log_dev l) (log_start l) (bc st)) (\<lambda>(buf, b1).
      bindR (bwrite buf (bset buf (head_bytes l (bdata buf b1)) b1)) (\<lambda>b2.
      bindR (brelse buf b2) (\<lambda>b3. Ok (st\<lparr>bc := b3\<rparr>)))))"

definition recover_from_log :: "fsio \<Rightarrow> fsio result" where
  "recover_from_log st =
     bindR (read_head st) (\<lambda>st1.
     bindR (install_trans True st1) (\<lambda>st2.
     write_head (st2\<lparr>lg := (lg st2)\<lparr>lh_n := 0\<rparr>\<rparr>)))"

definition initlog :: "u32 \<Rightarrow> u32 \<Rightarrow> fsio \<Rightarrow> fsio result" where
  "initlog dev logstart st =
     (if BSIZE \<le> 4 + 4 * LOGBLOCKS then Panic ''initlog: too big logheader''
      else recover_from_log (st\<lparr>lg := (lg st)\<lparr>log_start := logstart, log_dev := dev\<rparr>\<rparr>))"

text \<open>
  One pass of \<open>begin_op\<close>'s loop under the log's lock: \<open>None\<close> means that the caller goes to sleep
  on the log and tries again when it is woken.
\<close>

definition begin_op :: "log_state \<Rightarrow> log_state option" where
  "begin_op l =
     (if committing l then None
      else if int LOGBLOCKS < lh_n l + (outstanding l + 1) * int MAXOPBLOCKS then None
      else Some (l\<lparr>outstanding := outstanding l + 1\<rparr>))"

definition write_log_one :: "nat \<Rightarrow> fsio \<Rightarrow> fsio result" where
  "write_log_one tail st =
     (let l = lg st in
      bindR (bread (log_dev l) (log_start l + of_nat tail + 1) (bc st)) (\<lambda>(to, b1).
      bindR (bread (log_dev l) (lh_block l ! tail) b1) (\<lambda>(from, b2).
      bindR (bwrite to (bset to (bdata from b2) b2)) (\<lambda>b3.
      bindR (brelse from b3) (\<lambda>b4.
      bindR (brelse to b4) (\<lambda>b5. Ok (st\<lparr>bc := b5\<rparr>)))))))"

definition write_log :: "fsio \<Rightarrow> fsio result" where
  "write_log st = forR write_log_one [0..<nat (lh_n (lg st))] st"

definition commit :: "fsio \<Rightarrow> fsio result" where
  "commit st =
     (if 0 < lh_n (lg st) then
        bindR (write_log st) (\<lambda>st1.
        bindR (write_head st1) (\<lambda>st2.
        bindR (install_trans False st2) (\<lambda>st3.
        write_head (st3\<lparr>lg := (lg st3)\<lparr>lh_n := 0\<rparr>\<rparr>))))
      else Ok st)"

text \<open>
  \<open>end_op\<close> first updates the counters under the lock, and tells whether this caller commits; it
  commits without the lock and clears \<open>committing\<close> under it again.
\<close>

definition end_op_enter :: "log_state \<Rightarrow> (bool \<times> log_state) result" where
  "end_op_enter l =
     (let l1 = l\<lparr>outstanding := outstanding l - 1\<rparr>
      in if committing l1 then Panic ''log.committing''
         else if outstanding l1 = 0 then Ok (True, l1\<lparr>committing := True\<rparr>)
         else Ok (False, l1))"

definition end_op :: "fsio \<Rightarrow> fsio result" where
  "end_op st =
     bindR (end_op_enter (lg st)) (\<lambda>(do_commit, l1).
       if do_commit
       then bindR (commit (st\<lparr>lg := l1\<rparr>)) (\<lambda>st2. Ok (st2\<lparr>lg := (lg st2)\<lparr>committing := False\<rparr>\<rparr>))
       else Ok (st\<lparr>lg := l1\<rparr>))"

text \<open>
  \<open>log_write\<close>, the header's part (is the block new to the transaction, and the header with it)
  and the whole operation on a buffer.
\<close>

definition log_write_lh :: "u32 \<Rightarrow> log_state \<Rightarrow> (bool \<times> log_state) result" where
  "log_write_lh bno l =
     (if int LOGBLOCKS \<le> lh_n l then Panic ''too big a transaction''
      else if outstanding l < 1 then Panic ''log_write outside of trans''
      else let n = nat (lh_n l);
               i = (case find_index (\<lambda>x. x = bno) (take n (lh_block l)) of Some i \<Rightarrow> i | None \<Rightarrow> n);
               l1 = l\<lparr>lh_block := (lh_block l)[i := bno]\<rparr>
           in if i = n then Ok (True, l1\<lparr>lh_n := lh_n l + 1\<rparr>) else Ok (False, l1))"

definition log_write :: "nat \<Rightarrow> fsio \<Rightarrow> fsio result" where
  "log_write i st =
     bindR (log_write_lh (b_blockno (bufs (bc st) ! i)) (lg st)) (\<lambda>(added, l1).
       Ok (if added then \<lparr>lg = l1, bc = bpin i (bc st)\<rparr> else st\<lparr>lg := l1\<rparr>))"

section \<open>The header block\<close>

definition logged :: "log_state \<Rightarrow> u32 list" where
  "logged l = take (nat (lh_n l)) (lh_block l)"

definition log_area :: "u32 \<Rightarrow> u32 set" where
  "log_area s = (\<lambda>t. s + of_nat t) ` {0..LOGBLOCKS}"

definition log_ok :: "log_state \<Rightarrow> bool" where
  "log_ok l = (length (lh_block l) = LOGBLOCKS \<and> 0 \<le> lh_n l \<and> lh_n l \<le> int LOGBLOCKS \<and>
     distinct (logged l) \<and> set (logged l) \<inter> log_area (log_start l) = {})"

lemma length_logged [simp]: "log_ok l \<Longrightarrow> length (logged l) = nat (lh_n l)"
  by (auto simp: log_ok_def logged_def)

lemma logged_nth:
  assumes "log_ok l" "t < nat (lh_n l)"
  shows "t < LOGBLOCKS" "lh_block l ! t = logged l ! t" "logged l ! t \<in> set (logged l)" "t < length (logged l)"
proof -
  show len: "t < length (logged l)" using assms by simp
  then show "logged l ! t \<in> set (logged l)" by (rule nth_mem)
  show "t < LOGBLOCKS" "lh_block l ! t = logged l ! t" using assms by (auto simp: log_ok_def logged_def)
qed

lemma logged_not_area: "log_ok l \<Longrightarrow> b \<in> set (logged l) \<Longrightarrow> b \<notin> log_area (log_start l)"
  by (auto simp: log_ok_def)

lemma log_area_start: "s \<in> log_area s"
  by (auto simp: log_area_def image_iff intro: bexI [of _ 0])

lemma log_area_slot: "t < LOGBLOCKS \<Longrightarrow> s + of_nat t + 1 \<in> log_area s"
  by (auto simp: log_area_def image_iff intro!: bexI [of _ "Suc t"])

lemma slot_inj:
  assumes "t < LOGBLOCKS" "t' < LOGBLOCKS"
  shows "(s + of_nat t + 1 = (s + of_nat t' + 1 :: u32)) = (t = t')"
proof
  assume "s + of_nat t + 1 = (s + of_nat t' + 1 :: u32)"
  then have "(of_nat t :: u32) = of_nat t'" by simp
  then have "unat (of_nat t :: u32) = unat (of_nat t' :: u32)" by simp
  then show "t = t'" using assms by (simp add: unat_of_nat kconst)
qed simp

lemma slot_not_start:
  assumes "t < LOGBLOCKS"
  shows "s + of_nat t + 1 \<noteq> (s :: u32)"
proof
  assume "s + of_nat t + 1 = s"
  then have "of_nat (Suc t) = (0 :: u32)" by (simp add: add.assoc) (metis add.commute)
  then have "unat (of_nat (Suc t) :: u32) = 0" by simp
  then show False using assms by (simp add: unat_of_nat kconst del: of_nat_Suc)
qed

lemma fold_put32:
  assumes "4 + 4 * n \<le> length hb"
  shows "length (fold (\<lambda>i hb. put32 (4 + 4 * i) (f i) hb) [0..<n] hb) = length hb \<and>
    get32 (fold (\<lambda>i hb. put32 (4 + 4 * i) (f i) hb) [0..<n] hb) 0 = get32 hb 0 \<and>
    (\<forall>j<n. get32 (fold (\<lambda>i hb. put32 (4 + 4 * i) (f i) hb) [0..<n] hb) (4 + 4 * j) = f j)"
  using assms
proof (induction n)
  case (Suc n)
  then show ?case by (auto simp: get32_put32 less_Suc_eq)
qed simp

lemma head_bytes:
  assumes "log_ok l" "length hb = BSIZE"
  shows "length (head_bytes l hb) = BSIZE" "sint (get32 (head_bytes l hb) 0) = lh_n l"
    "t < nat (lh_n l) \<Longrightarrow> get32 (head_bytes l hb) (4 + 4 * t) = logged l ! t"
proof -
  have n: "nat (lh_n l) \<le> 30" "0 \<le> lh_n l" "lh_n l \<le> 30" using assms(1) by (auto simp: log_ok_def kconst)
  have b: "4 + 4 * nat (lh_n l) \<le> length (put32 0 (word_of_int (lh_n l)) hb)" using n assms(2) by (simp add: kconst)
  note f = fold_put32 [OF b, of "\<lambda>i. lh_block l ! i"]
  show "length (head_bytes l hb) = BSIZE" using f assms(2) by (simp add: head_bytes_def kconst)
  have "get32 (head_bytes l hb) 0 = word_of_int (lh_n l)"
    using f assms(2) by (simp add: head_bytes_def get32_put32 kconst)
  then show "sint (get32 (head_bytes l hb) 0) = lh_n l"
    using n by (simp add: signed_of_int signed_take_bit_int_eq_self)
  show "t < nat (lh_n l) \<Longrightarrow> get32 (head_bytes l hb) (4 + 4 * t) = logged l ! t"
    using f by (simp add: head_bytes_def logged_def)
qed

lemma fold_block_update:
  "n \<le> length bl \<Longrightarrow> fold (\<lambda>i bl. bl[i := f i]) [0..<n] bl = map f [0..<n] @ drop n bl"
proof (induction n)
  case (Suc n)
  then have "drop n bl = bl ! n # drop (Suc n) bl" by (simp add: Cons_nth_drop_Suc)
  with Suc show ?case by (simp add: list_update_append)
qed simp

section \<open>Copying one block to another through the cache\<close>

text \<open>
  \<open>write_log\<close> and \<open>install_trans\<close> both read two blocks, copy one buffer's data over the other's,
  write it and release both. The disk writes so far are followed by one more.
\<close>

definition apply_writes :: "(u32 \<times> byte list) list \<Rightarrow> (u32 \<Rightarrow> byte list) \<Rightarrow> u32 \<Rightarrow> byte list" where
  "apply_writes ws D = foldl (\<lambda>D (b, x). D(b := x)) D ws"

lemma apply_writes_simps [simp]:
  "apply_writes [] D = D" "apply_writes (ws @ ws') D = apply_writes ws' (apply_writes ws D)"
  "apply_writes ((b, x) # ws) D = apply_writes ws (D(b := x))"
  by (simp_all add: apply_writes_def)

lemma apply_writes_other: "b \<notin> fst ` set ws \<Longrightarrow> apply_writes ws D b = D b"
  by (induction ws arbitrary: D) auto

lemma apply_writes_nth:
  assumes "distinct (map fst ws)" "t < length ws"
  shows "apply_writes ws D (fst (ws ! t)) = snd (ws ! t)"
  using assms
proof (induction ws arbitrary: D t)
  case (Cons w ws)
  obtain b x where w: "w = (b, x)" by (cases w)
  show ?case
  proof (cases t)
    case 0
    have "b \<notin> fst ` set ws" using Cons.prems(1) w by auto
    then show ?thesis using 0 w by (simp add: apply_writes_other)
  next
    case (Suc k)
    then show ?thesis using Cons.IH [of k "D(b := x)"] Cons.prems w by (simp add: fun_upd_def)
  qed
qed simp

lemma two_reads:
  assumes c: "cinv d L {} b0" and io: "io_ok (Suc (Suc N)) b0" and ne: "x \<noteq> y"
    and room: "card L < NBUF" "y \<in> L \<or> card L + 1 < NBUF" and x: "x \<notin> L"
  obtains i b1 j b2 where "bread d x b0 = Ok (i, b1)" "bread d y b1 = Ok (j, b2)" "cinv d L {x, y} b2"
    "holds b2 d x i" "holds b2 d y j" "view b2 d = view b0 d" "bdata i b2 = view b0 d x" "bdata j b2 = view b0 d y"
    "disk b2 = disk b0" "dtrace b2 = dtrace b0" "io_ok N b2"
proof -
  note result = that
  obtain i b1 where r1: "bread d x b0 = Ok (i, b1)" "cinv d L {x} b1" "holds b1 d x i" "view b1 d = view b0 d"
      "disk b1 = disk b0" "dtrace b1 = dtrace b0" "io_ok (Suc N) b1"
    using cinv_bread [OF c io, of x] room by (auto simp: wp_def)
  have "card (L \<union> {x}) = card L + 1" using cinvD(2) [OF c] x by simp
  then have y: "y \<notin> {x}" "y \<in> L \<or> card (L \<union> {x}) < NBUF" using ne room by auto
  obtain j b2 where r2: "bread d y b1 = Ok (j, b2)" "cinv d L {y, x} b2" "holds b2 d y j" "view b2 d = view b1 d"
      "bdata j b2 = view b1 d y" "disk b2 = disk b1" "dtrace b2 = dtrace b1" "io_ok N b2" "keeps d y b1 b2"
    using cinv_bread [OF r1(2,7) y] by (auto simp: wp_def)
  have h: "holds b2 d x i" using r2(9) r1(3) ne by (auto simp: keeps_def)
  have "bdata i b2 = view b0 d x" using holds_refs(5) [OF cinvD(1) [OF r2(2)] h] r1(4) r2(4) by simp
  then show thesis using result [OF r1(1) r2(1)] r1 r2 h by (simp add: insert_commute)
qed

lemma copy_write:
  assumes c: "cinv d L {x, y} b2" and h: "holds b2 d x i" and io: "io_ok (Suc N) b2" and len: "length z = BSIZE"
  obtains b3 where "bwrite i (bset i z b2) = Ok b3" "cinv d L {x, y} b3" "holds b3 d x i"
    "view b3 d = (view b2 d)(x := z)" "disk b3 = (disk b2)(x := z)" "dtrace b3 = dtrace b2 @ [(x, z)]"
    "io_ok N b3" "keeps d x b2 b3"
proof -
  note s = cinv_bset [OF c h len]
  have "io_ok (Suc N) (bset i z b2)" using s(6) io by simp
  then obtain b3 where r: "bwrite i (bset i z b2) = Ok b3" "cinv d L {x, y} b3" "holds b3 d x i"
    "view b3 d = view (bset i z b2) d" "disk b3 = (disk (bset i z b2))(x := view (bset i z b2) d x)"
    "dtrace b3 = dtrace (bset i z b2) @ [(x, view (bset i z b2) d x)]" "io_ok N b3" "keeps d x (bset i z b2) b3"
    using cinv_bwrite [OF s(1,2)] by (auto simp: wp_def)
  then show thesis using that s by (auto simp: keeps_def)
qed

lemma release_two:
  assumes c: "cinv d L {x, y} b3" and ne: "x \<noteq> y" and h: "holds b3 d x i" "holds b3 d y j"
    and cl: "x \<in> L \<or> view b3 d x = disk b3 x" "y \<in> L \<or> view b3 d y = disk b3 y"
  obtains b4 b5 where "brelse i b3 = Ok b4" "brelse j b4 = Ok b5" "cinv d L {} b5" "view b5 d = view b3 d"
    "disk b5 = disk b3" "dtrace b5 = dtrace b3" "\<forall>N. io_ok N b5 = io_ok N b3"
proof -
  have "x \<notin> {y}" using ne by simp
  then obtain b4 where r: "brelse i b3 = Ok b4" "cinv d L {y} b4" "view b4 d = view b3 d" "disk b4 = disk b3"
      "dtrace b4 = dtrace b3" "\<forall>N. io_ok N b4 = io_ok N b3" "keeps d x b3 b4"
    using cinv_brelse [OF c _ h(1) cl(1)] by (auto simp: wp_def)
  have h4: "holds b4 d y j" using r(7) h(2) ne by (auto simp: keeps_def)
  have "y \<in> L \<or> view b4 d y = disk b4 y" using cl(2) r by simp
  then obtain b5 where r5: "brelse j b4 = Ok b5" "cinv d L {} b5" "view b5 d = view b4 d" "disk b5 = disk b4"
      "dtrace b5 = dtrace b4" "\<forall>N. io_ok N b5 = io_ok N b4"
    using cinv_brelse [OF r(2) _ h4] by (auto simp: wp_def)
  then show thesis using that r by simp
qed

lemma write_log_one_spec:
  assumes ok: "log_ok (lg st)" and t: "t < nat (lh_n (lg st))" and small: "lh_n (lg st) < int NBUF"
    and c: "cinv (log_dev (lg st)) (set (logged (lg st))) {} (bc st)" and io: "io_ok (Suc (Suc (Suc N))) (bc st)"
  defines "d \<equiv> log_dev (lg st)" and "x \<equiv> log_start (lg st) + of_nat t + 1" and "y \<equiv> logged (lg st) ! t"
  obtains b where "write_log_one t st = Ok (st\<lparr>bc := b\<rparr>)" "cinv d (set (logged (lg st))) {} b"
    "view b d = (view (bc st) d)(x := view (bc st) d y)"
    "disk b = (disk (bc st))(x := view (bc st) d y)" "dtrace b = dtrace (bc st) @ [(x, view (bc st) d y)]" "io_ok N b"
proof -
  let ?L = "set (logged (lg st))"
  have tn: "t < LOGBLOCKS" "lh_block (lg st) ! t = y" "y \<in> ?L"
    using logged_nth [OF ok t] by (simp_all add: y_def)
  have xL: "x \<notin> ?L" using ok log_area_slot [OF tn(1)] by (auto simp: log_ok_def x_def)
  then have ne: "x \<noteq> y" using tn by auto
  have len: "length (logged (lg st)) < NBUF" using ok small by (simp add: nat_less_iff kconst)
  then have card: "card ?L < NBUF" using card_length [of "logged (lg st)"] by simp
  obtain i b1 j b2 where r: "bread d x (bc st) = Ok (i, b1)" "bread d y b1 = Ok (j, b2)" "cinv d ?L {x, y} b2"
    "holds b2 d x i" "holds b2 d y j" "view b2 d = view (bc st) d" "bdata i b2 = view (bc st) d x" "bdata j b2 = view (bc st) d y"
    "disk b2 = disk (bc st)" "dtrace b2 = dtrace (bc st)" "io_ok (Suc N) b2"
    using two_reads [OF c io ne card _ xL] tn unfolding d_def by blast
  have lz: "length (bdata j b2) = BSIZE" using r(8) view_length [OF cinvD(1) [OF c]] by (simp add: d_def)
  obtain b3 where w: "bwrite i (bset i (bdata j b2) b2) = Ok b3" "cinv d ?L {x, y} b3" "holds b3 d x i"
    "view b3 d = (view b2 d)(x := bdata j b2)" "disk b3 = (disk b2)(x := bdata j b2)" "dtrace b3 = dtrace b2 @ [(x, bdata j b2)]"
    "io_ok N b3" "keeps d x b2 b3"
    using copy_write [OF r(3,4,11) lz] by blast
  have hy: "holds b3 d y j" using w(8) r(5) ne by (auto simp: keeps_def)
  have c3: "cinv d ?L {y, x} b3" using w(2) by (simp add: insert_commute)
  obtain b4 b5 where f: "brelse j b3 = Ok b4" "brelse i b4 = Ok b5" "cinv d ?L {} b5" "view b5 d = view b3 d"
    "disk b5 = disk b3" "dtrace b5 = dtrace b3" "\<forall>N. io_ok N b5 = io_ok N b3"
    by (rule release_two [OF c3 ne [symmetric] hy w(3)]) (use tn w in auto)
  have "write_log_one t st = Ok (st\<lparr>bc := b5\<rparr>)"
    using r(1,2) w(1) f(1,2) tn(2) by (simp add: write_log_one_def d_def x_def)
  then show thesis using that f r(6,8,9,10) w(4-7) by simp
qed

lemma install_one_spec:
  fixes rec :: bool
  assumes ok: "log_ok (lg st)" and t: "t < nat (lh_n (lg st))" and small: "rec \<or> lh_n (lg st) < int NBUF"
    and c: "cinv (log_dev (lg st)) L {} (bc st)" and L: "L = (if rec then {} else set (drop t (logged (lg st))))"
    and io: "io_ok (Suc (Suc (Suc N))) (bc st)"
  defines "d \<equiv> log_dev (lg st)" and "x \<equiv> log_start (lg st) + of_nat t + 1" and "y \<equiv> logged (lg st) ! t"
  obtains b where "install_one rec t st = Ok (st\<lparr>bc := b\<rparr>)"
    "cinv d (if rec then {} else set (drop (Suc t) (logged (lg st)))) {} b"
    "view b d = (view (bc st) d)(y := view (bc st) d x)"
    "disk b = (disk (bc st))(y := view (bc st) d x)" "dtrace b = dtrace (bc st) @ [(y, view (bc st) d x)]" "io_ok N b"
proof -
  let ?L' = "if rec then {} else set (drop (Suc t) (logged (lg st)))"
  have tn: "t < LOGBLOCKS" "lh_block (lg st) ! t = y" "y \<in> set (logged (lg st))" "t < length (logged (lg st))"
    using logged_nth [OF ok t] by (simp_all add: y_def)
  have dr: "drop t (logged (lg st)) = y # drop (Suc t) (logged (lg st))"
    using Cons_nth_drop_Suc [OF tn(4)] by (simp add: y_def)
  have di: "distinct (drop t (logged (lg st)))" using ok by (simp add: log_ok_def)
  have L': "L - {y} = ?L'" "y \<notin> ?L'" "rec \<or> y \<in> L" using dr di L by auto
  have sub: "L \<subseteq> set (logged (lg st))" using L set_drop_subset [of t "logged (lg st)"] by auto
  have xL: "x \<notin> L" "x \<noteq> y" using ok log_area_slot [OF tn(1)] sub tn(3) by (auto simp: log_ok_def x_def)
  have "rec \<or> length (logged (lg st)) < NBUF" using ok small by (auto simp: log_ok_def)
  moreover have "card L \<le> length (logged (lg st))"
    using card_mono [OF _ sub] card_length [of "logged (lg st)"] by simp
  moreover have "card L = 0" if rec using L that by simp
  moreover have "0 < NBUF" "1 < NBUF" by (simp_all add: kconst)
  ultimately have card: "card L < NBUF" "y \<in> L \<or> card L + 1 < NBUF" using L'(3) by linarith+
  obtain i b1 j b2 where r: "bread d x (bc st) = Ok (i, b1)" "bread d y b1 = Ok (j, b2)" "cinv d L {x, y} b2"
    "holds b2 d x i" "holds b2 d y j" "view b2 d = view (bc st) d" "bdata i b2 = view (bc st) d x" "bdata j b2 = view (bc st) d y"
    "disk b2 = disk (bc st)" "dtrace b2 = dtrace (bc st)" "io_ok (Suc N) b2"
    using two_reads [OF c io xL(2) card xL(1)] unfolding d_def by blast
  have lz: "length (bdata i b2) = BSIZE" using r(7) view_length [OF cinvD(1) [OF c]] by (simp add: d_def)
  have c2: "cinv d L {y, x} b2" using r(3) by (simp add: insert_commute)
  obtain b3 where w: "bwrite j (bset j (bdata i b2) b2) = Ok b3" "cinv d L {y, x} b3" "holds b3 d y j"
    "view b3 d = (view b2 d)(y := bdata i b2)" "disk b3 = (disk b2)(y := bdata i b2)" "dtrace b3 = dtrace b2 @ [(y, bdata i b2)]"
    "io_ok N b3" "keeps d y b2 b3"
    using copy_write [OF c2 r(5,11) lz] by blast
  have hx: "holds b3 d x i" using w(8) r(4) xL by (auto simp: keeps_def)
  define b4 where "b4 = (if rec then b3 else bunpin j b3)"
  have b4: "cinv d ?L' {x, y} b4 \<and> holds b4 d y j \<and> holds b4 d x i \<and> view b4 d = view b3 d \<and> disk b4 = disk b3 \<and>
      dtrace b4 = dtrace b3 \<and> io_ok N b4"
  proof (cases rec)
    case True
    then show ?thesis using w hx L by (simp add: b4_def insert_commute)
  next
    case False
    then have "y \<in> L" using L' by simp
    note u = cinv_bunpin [OF w(2,3) this]
    have "holds (bunpin j b3) d x i" using u(7) hx xL(2) by (auto simp: keeps_def)
    then show ?thesis using False L' u w(7) by (simp add: b4_def insert_commute)
  qed
  have clx: "view b4 d x = disk b4 x"
    using b4 w(4,5) r(6,9) xL cinv_clean [OF c, of x] by (simp add: d_def)
  obtain b5 b6 where f: "brelse i b4 = Ok b5" "brelse j b5 = Ok b6" "cinv d ?L' {} b6" "view b6 d = view b4 d"
    "disk b6 = disk b4" "dtrace b6 = dtrace b4" "\<forall>N. io_ok N b6 = io_ok N b4"
    by (rule release_two [of d ?L' x y b4 i j]) (use clx b4 w xL in auto)
  have "install_one rec t st = Ok (st\<lparr>bc := b6\<rparr>)"
    using r(1,2) w(1) f(1,2) tn(2) by (simp add: install_one_def d_def x_def b4_def)
  then show thesis using that f b4 r(6,7,9,10) w(4-7) by simp
qed

section \<open>The phases of a commit\<close>

text \<open>The writes of the three phases, as lists.\<close>

definition log_writes :: "log_state \<Rightarrow> (u32 \<Rightarrow> byte list) \<Rightarrow> nat \<Rightarrow> (u32 \<times> byte list) list" where
  "log_writes l V n = map (\<lambda>t. (log_start l + of_nat t + 1, V (logged l ! t))) [0..<n]"

definition home_writes :: "log_state \<Rightarrow> (u32 \<Rightarrow> byte list) \<Rightarrow> nat \<Rightarrow> (u32 \<times> byte list) list" where
  "home_writes l V n = map (\<lambda>t. (logged l ! t, V (log_start l + of_nat t + 1))) [0..<n]"

lemma writes_Suc [simp]:
  "log_writes l V 0 = []" "log_writes l V (Suc k) = log_writes l V k @ [(log_start l + of_nat k + 1, V (logged l ! k))]"
  "home_writes l V 0 = []" "home_writes l V (Suc k) = home_writes l V k @ [(logged l ! k, V (log_start l + of_nat k + 1))]"
  "length (log_writes l V k) = k" "length (home_writes l V k) = k"
  by (simp_all add: log_writes_def home_writes_def)

lemma log_writes_area: "log_ok l \<Longrightarrow> k \<le> nat (lh_n l) \<Longrightarrow> fst ` set (log_writes l V k) \<subseteq> log_area (log_start l)"
proof
  fix b assume ok: "log_ok l" "k \<le> nat (lh_n l)" and "b \<in> fst ` set (log_writes l V k)"
  then obtain t where t: "t < k" "b = log_start l + of_nat t + 1" by (auto simp: log_writes_def)
  then have "t < LOGBLOCKS" using logged_nth(1) [OF ok(1)] ok(2) by simp
  then show "b \<in> log_area (log_start l)" using log_area_slot t(2) by simp
qed

lemma home_writes_logged: "log_ok l \<Longrightarrow> k \<le> nat (lh_n l) \<Longrightarrow> fst ` set (home_writes l V k) \<subseteq> set (logged l)"
  using logged_nth(3) by (fastforce simp: home_writes_def)

lemma write_log_spec:
  assumes ok: "log_ok (lg st)" and small: "lh_n (lg st) < int NBUF"
    and c: "cinv (log_dev (lg st)) (set (logged (lg st))) {} (bc st)" and io: "io_ok (3 * nat (lh_n (lg st)) + N) (bc st)"
  defines "d \<equiv> log_dev (lg st)" and "n \<equiv> nat (lh_n (lg st))"
  shows "wp (write_log st) (\<lambda>st'. lg st' = lg st \<and> cinv d (set (logged (lg st))) {} (bc st') \<and>
    view (bc st') d = apply_writes (log_writes (lg st) (view (bc st) d) n) (view (bc st) d) \<and>
    disk (bc st') = apply_writes (log_writes (lg st) (view (bc st) d) n) (disk (bc st)) \<and>
    dtrace (bc st') = dtrace (bc st) @ log_writes (lg st) (view (bc st) d) n \<and> io_ok N (bc st'))"
proof -
  define I where "I = (\<lambda>k (st' :: fsio). lg st' = lg st \<and> cinv d (set (logged (lg st))) {} (bc st') \<and>
    view (bc st') d = apply_writes (log_writes (lg st) (view (bc st) d) k) (view (bc st) d) \<and>
    disk (bc st') = apply_writes (log_writes (lg st) (view (bc st) d) k) (disk (bc st)) \<and>
    dtrace (bc st') = dtrace (bc st) @ log_writes (lg st) (view (bc st) d) k \<and> io_ok (3 * (n - k) + N) (bc st'))"
  have "wp (forR write_log_one [0..<n] st) (I (length [0..<n]))"
  proof (rule wp_forR)
    show "I 0 st" using c io by (simp add: I_def d_def n_def)
    fix k s assume k: "k < length [0..<n]" and Ik: "I k s"
    then have lg: "lg s = lg st" and kn: "k < n" by (simp_all add: I_def)
    have io': "io_ok (Suc (Suc (Suc (3 * (n - Suc k) + N)))) (bc s)"
    proof -
      have "3 * (n - k) + N = Suc (Suc (Suc (3 * (n - Suc k) + N)))" using kn by simp
      moreover have "io_ok (3 * (n - k) + N) (bc s)" using Ik by (simp add: I_def)
      ultimately show ?thesis by (simp only:)
    qed
    have V: "view (bc s) d (logged (lg st) ! k) = view (bc st) d (logged (lg st) ! k)"
    proof -
      have "logged (lg st) ! k \<notin> log_area (log_start (lg st))"
        using logged_nth(3) [OF ok] logged_not_area [OF ok] kn unfolding n_def by blast
      then have "logged (lg st) ! k \<notin> fst ` set (log_writes (lg st) (view (bc st) d) k)"
        using log_writes_area [OF ok, of k "view (bc st) d"] less_imp_le [OF kn] unfolding n_def by blast
      then show ?thesis using Ik apply_writes_other by (simp add: I_def)
    qed
    obtain b where "write_log_one k s = Ok (s\<lparr>bc := b\<rparr>)" "cinv d (set (logged (lg st))) {} b"
        "view b d = (view (bc s) d)(log_start (lg st) + of_nat k + 1 := view (bc st) d (logged (lg st) ! k))"
        "disk b = (disk (bc s))(log_start (lg st) + of_nat k + 1 := view (bc st) d (logged (lg st) ! k))"
        "dtrace b = dtrace (bc s) @ [(log_start (lg st) + of_nat k + 1, view (bc st) d (logged (lg st) ! k))]"
        "io_ok (3 * (n - Suc k) + N) b"
      by (rule write_log_one_spec [of s k "3 * (n - Suc k) + N"])
        (use lg ok kn small Ik io' V in \<open>auto simp: I_def d_def n_def\<close>)
    then show "wp (write_log_one ([0..<n] ! k) s) (I (Suc k))"
      using Ik kn lg by (simp add: I_def)
  qed
  then show ?thesis by (simp add: write_log_def I_def n_def)
qed

lemma install_trans_spec:
  assumes ok: "log_ok (lg st)" and small: "rec \<or> lh_n (lg st) < int NBUF"
    and c: "cinv (log_dev (lg st)) (if rec then {} else set (logged (lg st))) {} (bc st)"
    and io: "io_ok (3 * nat (lh_n (lg st)) + N) (bc st)"
  defines "d \<equiv> log_dev (lg st)" and "n \<equiv> nat (lh_n (lg st))"
  shows "wp (install_trans rec st) (\<lambda>st'. lg st' = lg st \<and> cinv d {} {} (bc st') \<and>
    view (bc st') d = apply_writes (home_writes (lg st) (view (bc st) d) n) (view (bc st) d) \<and>
    disk (bc st') = apply_writes (home_writes (lg st) (view (bc st) d) n) (disk (bc st)) \<and>
    dtrace (bc st') = dtrace (bc st) @ home_writes (lg st) (view (bc st) d) n \<and> io_ok N (bc st'))"
proof -
  define I where "I = (\<lambda>k (st' :: fsio). lg st' = lg st \<and> cinv d (if rec then {} else set (drop k (logged (lg st)))) {} (bc st') \<and>
    view (bc st') d = apply_writes (home_writes (lg st) (view (bc st) d) k) (view (bc st) d) \<and>
    disk (bc st') = apply_writes (home_writes (lg st) (view (bc st) d) k) (disk (bc st)) \<and>
    dtrace (bc st') = dtrace (bc st) @ home_writes (lg st) (view (bc st) d) k \<and> io_ok (3 * (n - k) + N) (bc st'))"
  have "wp (forR (install_one rec) [0..<n] st) (I (length [0..<n]))"
  proof (rule wp_forR)
    show "I 0 st" using c io by (cases rec) (simp_all add: I_def d_def n_def)
    fix k s assume k: "k < length [0..<n]" and Ik: "I k s"
    then have lg: "lg s = lg st" and kn: "k < n" by (simp_all add: I_def)
    have io': "io_ok (Suc (Suc (Suc (3 * (n - Suc k) + N)))) (bc s)"
    proof -
      have "3 * (n - k) + N = Suc (Suc (Suc (3 * (n - Suc k) + N)))" using kn by simp
      moreover have "io_ok (3 * (n - k) + N) (bc s)" using Ik by (simp add: I_def)
      ultimately show ?thesis by (simp only:)
    qed
    have V: "view (bc s) d (log_start (lg st) + of_nat k + 1) = view (bc st) d (log_start (lg st) + of_nat k + 1)"
    proof -
      have "log_start (lg st) + of_nat k + 1 \<in> log_area (log_start (lg st))"
        using logged_nth(1) [OF ok] kn log_area_slot by (simp add: n_def)
      then have "log_start (lg st) + of_nat k + 1 \<notin> fst ` set (home_writes (lg st) (view (bc st) d) k)"
        using home_writes_logged [OF ok, of k "view (bc st) d"] logged_not_area [OF ok] less_imp_le [OF kn] unfolding n_def by blast
      then show ?thesis using Ik apply_writes_other by (simp add: I_def)
    qed
    have pre: "log_ok (lg s)" "k < nat (lh_n (lg s))" "rec \<or> lh_n (lg s) < int NBUF"
        "cinv (log_dev (lg s)) (if rec then {} else set (drop k (logged (lg s)))) {} (bc s)"
      using ok kn small Ik unfolding lg I_def d_def n_def by blast+
    obtain b where "install_one rec k s = Ok (s\<lparr>bc := b\<rparr>)" "cinv d (if rec then {} else set (drop (Suc k) (logged (lg st)))) {} b"
        "view b d = (view (bc s) d)(logged (lg st) ! k := view (bc st) d (log_start (lg st) + of_nat k + 1))"
        "disk b = (disk (bc s))(logged (lg st) ! k := view (bc st) d (log_start (lg st) + of_nat k + 1))"
        "dtrace b = dtrace (bc s) @ [(logged (lg st) ! k, view (bc st) d (log_start (lg st) + of_nat k + 1))]"
        "io_ok (3 * (n - Suc k) + N) b"
      using install_one_spec [OF pre refl io'] V unfolding lg d_def by metis
    then show "wp (install_one rec ([0..<n] ! k) s) (I (Suc k))"
      using Ik kn lg by (simp add: I_def)
  qed
  moreover have "I n s \<Longrightarrow> cinv d {} {} (bc s)" for s
    using length_logged [OF ok] by (cases rec) (simp_all add: I_def n_def)
  ultimately have "wp (forR (install_one rec) [0..<n] st) (\<lambda>s. I n s \<and> cinv d {} {} (bc s))"
    by (auto elim: wp_mono)
  then show ?thesis unfolding install_trans_def n_def [symmetric] by (rule wp_mono) (simp add: I_def)
qed

lemma write_head_spec:
  assumes ok: "log_ok (lg st)" and c: "cinv (log_dev (lg st)) L {} (bc st)" and io: "io_ok (Suc (Suc N)) (bc st)"
    and L: "log_start (lg st) \<notin> L" "card L < NBUF"
  defines "d \<equiv> log_dev (lg st)" and "s \<equiv> log_start (lg st)"
  defines "h \<equiv> head_bytes (lg st) (view (bc st) d s)"
  shows "wp (write_head st) (\<lambda>st'. lg st' = lg st \<and> cinv d L {} (bc st') \<and> view (bc st') d = (view (bc st) d)(s := h) \<and>
    disk (bc st') = (disk (bc st))(s := h) \<and> dtrace (bc st') = dtrace (bc st) @ [(s, h)] \<and> io_ok N (bc st'))"
proof -
  obtain i b1 where r: "bread d s (bc st) = Ok (i, b1)" "cinv d L {s} b1" "holds b1 d s i" "view b1 d = view (bc st) d"
      "bdata i b1 = view (bc st) d s" "disk b1 = disk (bc st)" "dtrace b1 = dtrace (bc st)" "io_ok (Suc N) b1"
    using cinv_bread [OF c io, of s] L by (auto simp: wp_def d_def)
  have hl: "length h = BSIZE" unfolding h_def
    by (rule head_bytes(1) [OF ok]) (simp add: view_length [OF cinvD(1) [OF c]] d_def)
  have c1: "cinv d L {s, s} b1" using r(2) by simp
  obtain b2 where w: "bwrite i (bset i h b1) = Ok b2" "cinv d L {s, s} b2" "holds b2 d s i"
    "view b2 d = (view b1 d)(s := h)" "disk b2 = (disk b1)(s := h)" "dtrace b2 = dtrace b1 @ [(s, h)]" "io_ok N b2"
    using copy_write [OF c1 r(3,8) hl] by blast
  obtain b3 where f: "brelse i b2 = Ok b3" "cinv d L {} b3" "view b3 d = view b2 d" "disk b3 = disk b2"
      "dtrace b3 = dtrace b2" "\<forall>N. io_ok N b3 = io_ok N b2"
    using cinv_brelse [of d L s "{}" b2 i] w by (auto simp: wp_def)
  then show ?thesis using r w by (simp add: write_head_def Let_def d_def s_def h_def)
qed

section \<open>What recovery makes of a disk\<close>

text \<open>
  The committed transaction recorded on a disk, and the disk it stands for: every logged block
  replaced by its copy in the log area.
\<close>

definition dl_n :: "u32 \<Rightarrow> (u32 \<Rightarrow> byte list) \<Rightarrow> int" where
  "dl_n s D = sint (get32 (D s) 0)"

definition dl_blocks :: "u32 \<Rightarrow> (u32 \<Rightarrow> byte list) \<Rightarrow> u32 list" where
  "dl_blocks s D = map (\<lambda>t. get32 (D s) (4 + 4 * t)) [0..<nat (dl_n s D)]"

definition dl_ok :: "u32 \<Rightarrow> (u32 \<Rightarrow> byte list) \<Rightarrow> bool" where
  "dl_ok s D = (0 \<le> dl_n s D \<and> dl_n s D \<le> int LOGBLOCKS \<and> distinct (dl_blocks s D) \<and>
     set (dl_blocks s D) \<inter> log_area s = {} \<and> (\<forall>b. length (D b) = BSIZE))"

definition recovered :: "u32 \<Rightarrow> (u32 \<Rightarrow> byte list) \<Rightarrow> u32 \<Rightarrow> byte list" where
  "recovered s D = apply_writes (map (\<lambda>t. (dl_blocks s D ! t, D (s + of_nat t + 1))) [0..<nat (dl_n s D)]) D"

lemma length_dl_blocks [simp]: "length (dl_blocks s D) = nat (dl_n s D)"
  by (simp add: dl_blocks_def)

lemma recovered_other: "b \<notin> set (dl_blocks s D) \<Longrightarrow> recovered s D b = D b"
  unfolding recovered_def by (rule apply_writes_other) (auto simp: in_set_conv_nth)

lemma recovered_logged:
  assumes "dl_ok s D" "t < nat (dl_n s D)"
  shows "recovered s D (dl_blocks s D ! t) = D (s + of_nat t + 1)"
proof -
  let ?ws = "map (\<lambda>t. (dl_blocks s D ! t, D (s + of_nat t + 1))) [0..<nat (dl_n s D)]"
  have "map fst ?ws = dl_blocks s D" by (intro nth_equalityI) auto
  then have "distinct (map fst ?ws)" using assms(1) by (simp only: dl_ok_def)
  from apply_writes_nth [OF this, of t D] show ?thesis using assms(2) by (simp add: recovered_def)
qed

lemma recovered_0: "dl_n s D = 0 \<Longrightarrow> recovered s D = D"
  by (simp add: recovered_def)

text \<open>Installing some of the blocks does not change what the disk stands for.\<close>

lemma recovered_cong:
  assumes ok: "dl_ok s D" and area: "\<And>b. b \<in> log_area s \<Longrightarrow> D' b = D b"
    and off: "\<And>b. b \<notin> log_area s \<Longrightarrow> b \<notin> set (dl_blocks s D) \<Longrightarrow> D' b = D b" and len: "\<And>b. length (D' b) = BSIZE"
  shows "dl_ok s D'" "b \<notin> log_area s \<Longrightarrow> recovered s D' b = recovered s D b"
proof -
  have hd: "dl_n s D' = dl_n s D" "dl_blocks s D' = dl_blocks s D"
    using area [OF log_area_start] by (simp_all add: dl_n_def dl_blocks_def)
  then show ok': "dl_ok s D'" using ok len by (simp add: dl_ok_def)
  show "recovered s D' b = recovered s D b" if b: "b \<notin> log_area s"
  proof (cases "b \<in> set (dl_blocks s D)")
    case True
    then obtain t where t: "t < nat (dl_n s D)" "b = dl_blocks s D ! t" by (auto simp: in_set_conv_nth)
    then have "t < LOGBLOCKS" using ok by (auto simp: dl_ok_def)
    then show ?thesis using recovered_logged [OF ok t(1)] recovered_logged [OF ok', of t] hd t area [OF log_area_slot] by simp
  next
    case False
    then show ?thesis using recovered_other hd off [OF b] by metis
  qed
qed

lemma read_head_spec:
  assumes c: "cinv (log_dev (lg st)) {} {} (bc st)" and io: "io_ok (Suc N) (bc st)"
    and ok: "dl_ok (log_start (lg st)) (disk (bc st))" and len: "length (lh_block (lg st)) = LOGBLOCKS"
  defines "d \<equiv> log_dev (lg st)" and "D \<equiv> disk (bc st)" and "s \<equiv> log_start (lg st)"
  shows "wp (read_head st) (\<lambda>st'. cinv d {} {} (bc st') \<and> disk (bc st') = D \<and> dtrace (bc st') = dtrace (bc st) \<and>
    io_ok N (bc st') \<and> log_ok (lg st') \<and> logged (lg st') = dl_blocks s D \<and> lh_n (lg st') = dl_n s D \<and>
    log_start (lg st') = s \<and> log_dev (lg st') = d \<and> outstanding (lg st') = outstanding (lg st) \<and> committing (lg st') = committing (lg st))"
proof -
  have "0 < NBUF" by (simp add: kconst)
  then obtain i b1 where r: "bread d s (bc st) = Ok (i, b1)" "cinv d {} {s} b1" "holds b1 d s i" "view b1 d = view (bc st) d"
      "bdata i b1 = view (bc st) d s" "disk b1 = D" "dtrace b1 = dtrace (bc st)" "io_ok N b1"
    using cinv_bread [OF c io, of s] by (auto simp: wp_def d_def D_def)
  have v: "view (bc st) d s = D s" using cinv_clean [OF c] by (simp add: D_def d_def)
  obtain b2 where f: "brelse i b1 = Ok b2" "cinv d {} {} b2" "disk b2 = disk b1" "dtrace b2 = dtrace b1" "\<forall>N. io_ok N b2 = io_ok N b1"
    using cinv_brelse [of d "{}" s "{}" b1 i] r v by (auto simp: wp_def)
  have n: "dl_n s D \<le> int LOGBLOCKS" "0 \<le> dl_n s D" using ok by (auto simp: dl_ok_def s_def D_def)
  define l where "l = (lg st)\<lparr>lh_n := dl_n s D, lh_block := fold (\<lambda>i bl. bl[i := get32 (D s) (4 + 4 * i)]) [0..<nat (dl_n s D)] (lh_block (lg st))\<rparr>"
  have lb: "lh_block l = dl_blocks s D @ drop (nat (dl_n s D)) (lh_block (lg st))"
    using n len by (simp add: l_def fold_block_update dl_blocks_def)
  have ll: "logged l = dl_blocks s D" by (simp add: logged_def lb) (simp add: l_def)
  have "log_ok l" using ok ll lb n len by (auto simp: log_ok_def dl_ok_def D_def s_def) (auto simp: l_def D_def s_def)
  moreover have "read_head st = Ok \<lparr>lg = l, bc = b2\<rparr>"
    using r(1,5) v f(1) n by (simp add: read_head_def l_def dl_n_def Let_def s_def d_def)
  ultimately show ?thesis using r f ll by (simp add: l_def s_def d_def)
qed

definition blank_log :: log_state where
  "blank_log = \<lparr>log_start = 0, outstanding = 0, committing = False, log_dev = 0, lh_n = 0, lh_block = replicate LOGBLOCKS 0\<rparr>"

definition boot_fs :: "(u32 \<Rightarrow> byte list) \<Rightarrow> fsio" where
  "boot_fs D = \<lparr>lg = blank_log, bc = boot_bio D\<rparr>"

text \<open>The writes of a recovery, and the header that records no transaction.\<close>

definition cleared_head :: "byte list \<Rightarrow> byte list" where
  "cleared_head h = put32 0 0 h"

lemma cleared_head: "length h = BSIZE \<Longrightarrow> get32 (cleared_head h) 0 = 0 \<and> length (cleared_head h) = BSIZE"
  by (simp add: cleared_head_def get32_put32 kconst)

lemma head_bytes_0: "lh_n l = 0 \<Longrightarrow> head_bytes l h = cleared_head h"
  by (simp add: head_bytes_def cleared_head_def)

definition recovery_writes :: "u32 \<Rightarrow> (u32 \<Rightarrow> byte list) \<Rightarrow> (u32 \<times> byte list) list" where
  "recovery_writes s D = map (\<lambda>t. (dl_blocks s D ! t, D (s + of_nat t + 1))) [0..<nat (dl_n s D)] @ [(s, cleared_head (D s))]"

lemma initlog_spec:
  assumes d: "d \<noteq> 0" and ok: "dl_ok s D"
  shows "wp (initlog d s (boot_fs D)) (\<lambda>st. cinv d {} {} (bc st) \<and> disk (bc st) = apply_writes (recovery_writes s D) D \<and>
    dtrace (bc st) = recovery_writes s D \<and> log_ok (lg st) \<and> lh_n (lg st) = 0 \<and> log_start (lg st) = s \<and> log_dev (lg st) = d \<and>
    outstanding (lg st) = 0 \<and> \<not> committing (lg st) \<and> io_ok 1000000 (bc st))"
proof -
  define n where "n = nat (dl_n s D)"
  have nb: "n \<le> 30" using ok by (auto simp: n_def dl_ok_def kconst)
  define st0 where "st0 = (boot_fs D)\<lparr>lg := (lg (boot_fs D))\<lparr>log_start := s, log_dev := d\<rparr>\<rparr>"
  have len: "\<And>b. length (D b) = BSIZE" using ok by (simp add: dl_ok_def)
  have bt: "cinv d {} {} (boot_bio D)" "io_ok (Suc (3 * n + 1000002)) (boot_bio D)" "view (boot_bio D) d = D"
      "disk (boot_bio D) = D" "dtrace (boot_bio D) = []"
    using boot_cinv [of d D "Suc (3 * n + 1000002)"] d len nb by simp_all
  have io: "io_ok (Suc (3 * n + 1000002)) (bc st0)" using bt(2) by (simp add: st0_def boot_fs_def)
  have p: "cinv (log_dev (lg st0)) {} {} (bc st0)" "dl_ok (log_start (lg st0)) (disk (bc st0))" "length (lh_block (lg st0)) = LOGBLOCKS"
    using bt ok by (simp_all add: st0_def boot_fs_def blank_log_def)
  obtain st1 where r: "read_head st0 = Ok st1" "cinv d {} {} (bc st1)" "disk (bc st1) = D" "dtrace (bc st1) = []"
      "io_ok (3 * n + 1000002) (bc st1)" "log_ok (lg st1)" "logged (lg st1) = dl_blocks s D" "lh_n (lg st1) = dl_n s D"
      "log_start (lg st1) = s" "log_dev (lg st1) = d" "outstanding (lg st1) = 0" "\<not> committing (lg st1)"
    using read_head_spec [OF p(1) io p(2,3)] bt(4,5) by (auto simp: wp_def st0_def boot_fs_def blank_log_def)
  have q: "cinv (log_dev (lg st1)) (if True then {} else set (logged (lg st1))) {} (bc st1)" "True \<or> lh_n (lg st1) < int NBUF"
      "io_ok (3 * nat (lh_n (lg st1)) + 1000002) (bc st1)"
    using r by (simp_all add: n_def)
  have v1: "view (bc st1) d = D" using cinv_clean [OF r(2)] r(3) by auto
  have hw: "home_writes (lg st1) D n = map (\<lambda>t. (dl_blocks s D ! t, D (s + of_nat t + 1))) [0..<n]"
    using r by (simp add: home_writes_def)
  obtain st2 where i: "install_trans True st1 = Ok st2" "lg st2 = lg st1" "cinv d {} {} (bc st2)"
      "disk (bc st2) = recovered s D" "dtrace (bc st2) = map (\<lambda>t. (dl_blocks s D ! t, D (s + of_nat t + 1))) [0..<n]" "io_ok 1000002 (bc st2)"
    using install_trans_spec [OF r(6) q(2,1,3)] r(3,4,8,10) hw v1 by (auto simp: wp_def recovered_def n_def)
  define st3 where "st3 = st2\<lparr>lg := (lg st2)\<lparr>lh_n := 0\<rparr>\<rparr>"
  have l3: "log_ok (lg st3)" "lh_n (lg st3) = 0" "log_start (lg st3) = s" "log_dev (lg st3) = d"
    using r(6,9,10) i(2) by (auto simp: st3_def log_ok_def logged_def)
  have w: "cinv (log_dev (lg st3)) {} {} (bc st3)" "io_ok (Suc (Suc 1000000)) (bc st3)" "log_start (lg st3) \<notin> {}" "card ({} :: u32 set) < NBUF"
    using i l3 by (simp_all add: st3_def kconst)
  have "s \<notin> set (dl_blocks s D)" using ok log_area_start by (auto simp: dl_ok_def)
  then have v3: "view (bc st3) d s = D s" using cinv_clean [OF i(3), of s] i(4) recovered_other by (simp add: st3_def)
  obtain st4 where "write_head st3 = Ok st4" "lg st4 = lg st3" "cinv d {} {} (bc st4)" "disk (bc st4) = (recovered s D)(s := cleared_head (D s))"
      "dtrace (bc st4) = dtrace (bc st2) @ [(s, cleared_head (D s))]" "io_ok 1000000 (bc st4)"
    using write_head_spec [OF l3(1) w] l3 v3 head_bytes_0 [OF l3(2)] i(4) by (auto simp: wp_def st3_def)
  moreover have "initlog d s (boot_fs D) = write_head st3"
    using r(1) i(1) by (simp add: initlog_def recover_from_log_def st3_def st0_def kconst)
  ultimately show ?thesis using l3 i r(11,12) by (simp add: recovery_writes_def recovered_def st3_def n_def)
qed

section \<open>Crashes during recovery\<close>

lemma length_apply_writes:
  "(\<And>b. length (D b) = n) \<Longrightarrow> (\<And>w. w \<in> set ws \<Longrightarrow> length (snd w) = n) \<Longrightarrow> length (apply_writes ws D b) = n"
proof (induction ws arbitrary: D)
  case (Cons w ws)
  obtain x y where w: "w = (x, y)" by (cases w)
  have "length y = n" using Cons.prems(2) [of w] w by simp
  then have "length ((D(x := y)) b) = n" for b using Cons.prems(1) by simp
  then show ?case using Cons.IH [of "D(x := y)"] Cons.prems(2) w by (simp add: fun_upd_def)
qed simp

lemma recovery_prefix:
  assumes ok: "dl_ok s D"
  defines "D' k \<equiv> apply_writes (take k (recovery_writes s D)) D"
  shows "dl_ok s (D' k)" "b \<notin> log_area s \<Longrightarrow> recovered s (D' k) b = recovered s D b"
proof -
  define n where "n = nat (dl_n s D)"
  define hw where "hw = map (\<lambda>t. (dl_blocks s D ! t, D (s + of_nat t + 1))) [0..<n]"
  have hl: "length hw = n" "recovery_writes s D = hw @ [(s, cleared_head (D s))]" by (simp_all add: hw_def recovery_writes_def n_def)
  have len: "\<And>b. length (D b) = BSIZE" using ok by (simp add: dl_ok_def)
  have blk: "fst ` set hw \<subseteq> set (dl_blocks s D)" by (auto simp: hw_def n_def)
  have dis: "set (dl_blocks s D) \<inter> log_area s = {}" using ok by (simp add: dl_ok_def)
  have cl: "length (cleared_head (D s)) = BSIZE" using cleared_head len by blast
  have lenk: "length (D' k b) = BSIZE" for b
    unfolding D'_def by (rule length_apply_writes [OF len]) (auto dest!: in_set_takeD simp: hl(2) hw_def cl len)
  have "dl_ok s (D' k) \<and> (\<forall>b. b \<notin> log_area s \<longrightarrow> recovered s (D' k) b = recovered s D b)"
  proof (cases "k \<le> n")
    case True
    have Dk: "D' k = apply_writes (take k hw) D" using True hl by (simp add: D'_def)
    have keep: "D' k b = D b" if "b \<notin> set (dl_blocks s D)" for b
      unfolding Dk by (rule apply_writes_other) (use that blk in \<open>auto dest!: in_set_takeD\<close>)
    have "dl_ok s (D' k)" by (rule recovered_cong(1) [OF ok]) (use keep dis lenk in auto)
    moreover have "recovered s (D' k) b = recovered s D b" if "b \<notin> log_area s" for b
      by (rule recovered_cong(2) [OF ok _ _ _ that]) (use keep dis lenk in auto)
    ultimately show ?thesis by blast
  next
    case False
    then have Dk: "D' k = (recovered s D)(s := cleared_head (D s))" using hl by (simp add: D'_def recovered_def hw_def n_def)
    have n0: "dl_n s (D' k) = 0" using cleared_head [OF len] by (simp add: Dk dl_n_def)
    then have "dl_ok s (D' k)" using lenk by (simp add: dl_ok_def dl_blocks_def)
    moreover have "recovered s (D' k) b = recovered s D b" if "b \<notin> log_area s" for b
      using recovered_0 [OF n0] that log_area_start [of s] by (auto simp: Dk)
    ultimately show ?thesis by blast
  qed
  then show "dl_ok s (D' k)" "b \<notin> log_area s \<Longrightarrow> recovered s (D' k) b = recovered s D b" by blast+
qed

text \<open>
  Boots that crash during recovery: each one reads the log of the disk it finds and gets as far
  as some prefix of its writes.
\<close>

inductive crashes :: "u32 \<Rightarrow> u32 \<Rightarrow> (u32 \<Rightarrow> byte list) \<Rightarrow> (u32 \<Rightarrow> byte list) \<Rightarrow> bool" for d s D where
  crash_none: "crashes d s D D"
| crash_more: "crashes d s D D1 \<Longrightarrow> initlog d s (boot_fs D1) = Ok st \<Longrightarrow>
    crashes d s D (apply_writes (take k (dtrace (bc st))) D1)"

lemma crashes_recovered:
  assumes "crashes d s D D'" "d \<noteq> 0" "dl_ok s D"
  shows "dl_ok s D' \<and> (\<forall>b. b \<notin> log_area s \<longrightarrow> recovered s D' b = recovered s D b)"
  using assms(1)
proof induction
  case (crash_more D1 st k)
  have "dtrace (bc st) = recovery_writes s D1"
    using initlog_spec [OF assms(2), of s D1] crash_more by (auto simp: wp_def)
  then show ?case using recovery_prefix [where D = D1 and s = s and k = k] crash_more.IH by auto
qed (use assms(3) in simp)

lemma initlog_view:
  assumes "d \<noteq> 0" "dl_ok s D"
  shows "wp (initlog d s (boot_fs D)) (\<lambda>st. \<forall>b. b \<notin> log_area s \<longrightarrow> view (bc st) d b = recovered s D b)"
proof (rule wp_mono [OF initlog_spec [OF assms]], elim conjE, intro allI impI)
  fix st b assume st: "cinv d {} {} (bc st)" "disk (bc st) = apply_writes (recovery_writes s D) D" and b: "b \<notin> log_area s"
  have "b \<noteq> s" using b log_area_start by auto
  then have "apply_writes (recovery_writes s D) D b = recovered s D b" by (simp add: recovery_writes_def recovered_def)
  then show "view (bc st) d b = recovered s D b" using cinv_clean [OF st(1)] st(2) by simp
qed

section \<open>The commit\<close>

definition commit_writes :: "log_state \<Rightarrow> (u32 \<Rightarrow> byte list) \<Rightarrow> (u32 \<times> byte list) list" where
  "commit_writes l V = (let n = nat (lh_n l); h = head_bytes l (V (log_start l)) in
     log_writes l V n @ [(log_start l, h)] @ map (\<lambda>b. (b, V b)) (logged l) @ [(log_start l, cleared_head h)])"

lemma start_not_log_writes: "log_ok l \<Longrightarrow> k \<le> nat (lh_n l) \<Longrightarrow> log_start l \<notin> fst ` set (log_writes l V k)"
  using slot_not_start logged_nth(1) by (fastforce simp: log_writes_def)

lemma log_writes_slot:
  assumes "log_ok l" "t < nat (lh_n l)"
  shows "apply_writes (log_writes l V (nat (lh_n l))) D (log_start l + of_nat t + 1) = V (logged l ! t)"
proof -
  let ?ws = "log_writes l V (nat (lh_n l))"
  have "distinct (map fst ?ws)"
    using slot_inj logged_nth(1) [OF assms(1)] by (auto simp: log_writes_def distinct_map o_def inj_on_def)
  from apply_writes_nth [OF this, of t D] show ?thesis using assms(2) by (simp add: log_writes_def)
qed

lemma commit_spec:
  assumes ok: "log_ok (lg st)" and n: "0 < lh_n (lg st)" "lh_n (lg st) < int NBUF"
    and c: "cinv (log_dev (lg st)) (set (logged (lg st))) {} (bc st)"
    and io: "io_ok (6 * nat (lh_n (lg st)) + 4 + N) (bc st)"
  defines "d \<equiv> log_dev (lg st)" and "s \<equiv> log_start (lg st)"
  defines "V \<equiv> view (bc st) d"
  shows "wp (commit st) (\<lambda>st'. lg st' = (lg st)\<lparr>lh_n := 0\<rparr> \<and> cinv d {} {} (bc st') \<and>
    dtrace (bc st') = dtrace (bc st) @ commit_writes (lg st) V \<and>
    disk (bc st') = apply_writes (commit_writes (lg st) V) (disk (bc st)) \<and>
    (\<forall>b. b \<notin> log_area s \<longrightarrow> view (bc st') d b = V b) \<and> io_ok N (bc st'))"
proof -
  define m where "m = nat (lh_n (lg st))"
  let ?l = "lg st" and ?L = "set (logged (lg st))"
  have sL: "s \<notin> ?L" using logged_not_area [OF ok] log_area_start by (auto simp: s_def)
  have cardL: "card ?L < NBUF" using card_length [of "logged ?l"] ok n by (simp add: nat_less_iff kconst)
  have io1: "io_ok (3 * nat (lh_n (lg st)) + (3 * m + 4 + N)) (bc st)"
    by (rule io_ok_mono [OF io]) (simp add: m_def)
  obtain st1 where w: "write_log st = Ok st1" "lg st1 = ?l" "cinv d ?L {} (bc st1)"
      "view (bc st1) d = apply_writes (log_writes ?l V m) V" "disk (bc st1) = apply_writes (log_writes ?l V m) (disk (bc st))"
      "dtrace (bc st1) = dtrace (bc st) @ log_writes ?l V m" "io_ok (3 * m + 4 + N) (bc st1)"
    using write_log_spec [OF ok n(2) c io1] by (auto simp: wp_def d_def V_def m_def)
  have V1s: "view (bc st1) d s = V s"
    using apply_writes_other [OF start_not_log_writes [OF ok], of m] w(4) by (simp add: s_def m_def)
  have V1: "view (bc st1) d b = V b" if "b \<notin> log_area s" for b
  proof -
    have "b \<notin> fst ` set (log_writes ?l V m)" using log_writes_area [OF ok, of m V] that unfolding s_def m_def by blast
    then show ?thesis using w(4) apply_writes_other by simp
  qed
  let ?h = "head_bytes ?l (V s)"
  have io2: "io_ok (Suc (Suc (3 * m + (2 + N)))) (bc st1)" using w(7) by (rule io_ok_mono) simp
  obtain st2 where h: "write_head st1 = Ok st2" "lg st2 = ?l" "cinv d ?L {} (bc st2)" "view (bc st2) d = (view (bc st1) d)(s := ?h)"
      "disk (bc st2) = (disk (bc st1))(s := ?h)" "dtrace (bc st2) = dtrace (bc st1) @ [(s, ?h)]" "io_ok (3 * m + (2 + N)) (bc st2)"
    using write_head_spec [of st1 ?L "3 * m + (2 + N)"] ok w(2,3) io2 sL cardL V1s
    by (auto simp: wp_def d_def s_def)
  have V2: "view (bc st2) d (s + of_nat t + 1) = V (logged ?l ! t)" if "t < m" for t
    using log_writes_slot [OF ok, of t V V] slot_not_start logged_nth(1) [OF ok, of t] that h(4) w(4)
    by (auto simp: m_def s_def)
  have hw: "home_writes ?l (view (bc st2) d) m = map (\<lambda>b. (b, V b)) (logged ?l)"
    by (rule nth_equalityI) (use V2 length_logged [OF ok] in \<open>auto simp: home_writes_def m_def s_def\<close>)
  have q: "log_ok (lg st2)" "False \<or> lh_n (lg st2) < int NBUF" "cinv (log_dev (lg st2)) (if False then {} else set (logged (lg st2))) {} (bc st2)"
      "io_ok (3 * nat (lh_n (lg st2)) + (2 + N)) (bc st2)"
    using ok n h(2,3,7) by (simp_all add: d_def m_def)
  obtain st3 where i: "install_trans False st2 = Ok st3" "lg st3 = ?l" "cinv d {} {} (bc st3)"
      "view (bc st3) d = apply_writes (map (\<lambda>b. (b, V b)) (logged ?l)) (view (bc st2) d)"
      "disk (bc st3) = apply_writes (map (\<lambda>b. (b, V b)) (logged ?l)) (disk (bc st2))"
      "dtrace (bc st3) = dtrace (bc st2) @ map (\<lambda>b. (b, V b)) (logged ?l)" "io_ok (2 + N) (bc st3)"
    using install_trans_spec [OF q] h(2) hw by (auto simp: wp_def d_def m_def)
  have V3: "view (bc st3) d b = V b" if "b \<notin> log_area s" for b
  proof (cases "b \<in> ?L")
    case True
    then obtain t where t: "t < length (logged ?l)" "b = logged ?l ! t" by (auto simp: in_set_conv_nth)
    have "distinct (map fst (map (\<lambda>b. (b, V b)) (logged ?l)))" using ok by (simp add: log_ok_def o_def)
    from apply_writes_nth [OF this, of t "view (bc st2) d"] show ?thesis using t i(4) by simp
  next
    case False
    then have "view (bc st3) d b = view (bc st2) d b" unfolding i(4) by (intro apply_writes_other) auto
    moreover have "b \<noteq> s" using that log_area_start by auto
    ultimately show ?thesis using V1 [OF that] h(4) by simp
  qed
  have V3s: "view (bc st3) d s = ?h"
  proof -
    have "view (bc st3) d s = view (bc st2) d s" unfolding i(4) by (rule apply_writes_other) (use sL in auto)
    then show ?thesis using h(4) by simp
  qed
  define st3' where "st3' = st3\<lparr>lg := ?l\<lparr>lh_n := 0\<rparr>\<rparr>"
  have l3: "log_ok (lg st3')" "lh_n (lg st3') = 0" "log_start (lg st3') = s" "log_dev (lg st3') = d" "bc st3' = bc st3"
    using ok by (auto simp: st3'_def log_ok_def logged_def s_def d_def)
  have q3: "cinv (log_dev (lg st3')) {} {} (bc st3')" "io_ok (Suc (Suc N)) (bc st3')" "log_start (lg st3') \<notin> {}" "card ({} :: u32 set) < NBUF"
    using i(3,7) l3 by (simp_all add: kconst)
  obtain st4 where e: "write_head st3' = Ok st4" "lg st4 = lg st3'" "cinv d {} {} (bc st4)" "view (bc st4) d = (view (bc st3) d)(s := cleared_head ?h)"
      "disk (bc st4) = (disk (bc st3))(s := cleared_head ?h)" "dtrace (bc st4) = dtrace (bc st3) @ [(s, cleared_head ?h)]" "io_ok N (bc st4)"
    using write_head_spec [OF l3(1) q3] l3 V3s head_bytes_0 [OF l3(2)] by (auto simp: wp_def)
  have "commit st = Ok st4"
    using n(1) w(1) h(1) i(1,2) e(1) by (simp add: commit_def st3'_def)
  moreover have "view (bc st4) d b = V b" if "b \<notin> log_area s" for b
  proof -
    have "b \<noteq> s" using that log_area_start by auto
    then show ?thesis using e(4) V3 [OF that] by simp
  qed
  ultimately show ?thesis
    using e i h w by (simp add: commit_writes_def Let_def m_def s_def st3'_def)
qed

text \<open>
  The disk after the first \<open>k\<close> writes of a commit stands for the old contents as long as the
  header is not written, and for the new contents from then on.
\<close>

lemma committed_disk:
  assumes ok: "log_ok l" and V: "\<And>b. b \<notin> set (logged l) \<Longrightarrow> b \<notin> log_area (log_start l) \<Longrightarrow> V b = D0 b" and lenV: "\<And>b. length (V b) = BSIZE"
    and len: "\<And>b. length (D0 b) = BSIZE"
  defines "s \<equiv> log_start l"
  defines "D1 \<equiv> (apply_writes (log_writes l V (nat (lh_n l))) D0)(s := head_bytes l (V s))"
  shows "dl_ok s D1" "dl_blocks s D1 = logged l" "b \<notin> log_area s \<Longrightarrow> recovered s D1 b = V b"
proof -
  let ?n = "nat (lh_n l)"
  have n: "dl_n s D1 = lh_n l" using head_bytes(2) [OF ok lenV] by (simp add: dl_n_def D1_def s_def)
  show blk: "dl_blocks s D1 = logged l"
    by (rule nth_equalityI) (use n head_bytes(3) [OF ok lenV] length_logged [OF ok] in \<open>auto simp: dl_blocks_def D1_def s_def\<close>)
  have lw: "length (snd w) = BSIZE" if "w \<in> set (log_writes l V ?n)" for w
    using that lenV by (auto simp: log_writes_def)
  have "length (D1 b) = BSIZE" for b
    using head_bytes(1) [OF ok lenV] length_apply_writes [of D0 BSIZE "log_writes l V ?n" b] len lw by (simp add: D1_def)
  then show dok: "dl_ok s D1" using ok n blk by (simp add: dl_ok_def log_ok_def s_def)
  show "recovered s D1 b = V b" if b: "b \<notin> log_area s"
  proof (cases "b \<in> set (logged l)")
    case True
    then obtain t where t: "t < ?n" "b = logged l ! t" using length_logged [OF ok] by (metis in_set_conv_nth)
    have "recovered s D1 b = D1 (s + of_nat t + 1)" using recovered_logged [OF dok, of t] t n blk by simp
    also have "\<dots> = V b" using log_writes_slot [OF ok t(1)] slot_not_start logged_nth(1) [OF ok t(1)] t(2) by (simp add: D1_def s_def)
    finally show ?thesis .
  next
    case False
    have "b \<notin> fst ` set (log_writes l V ?n)" "b \<noteq> s"
      using log_writes_area [OF ok, of ?n V] b log_area_start unfolding s_def by blast+
    then have "D1 b = D0 b" using apply_writes_other by (simp add: D1_def)
    then show ?thesis using recovered_other [of b s D1] False blk V b by (simp add: s_def)
  qed
qed

lemma commit_prefix:
  assumes ok: "log_ok l" and V: "\<And>b. b \<notin> set (logged l) \<Longrightarrow> b \<notin> log_area (log_start l) \<Longrightarrow> V b = D0 b" and lenV: "\<And>b. length (V b) = BSIZE"
    and len: "\<And>b. length (D0 b) = BSIZE" and hd: "get32 (D0 (log_start l)) 0 = 0"
  defines "s \<equiv> log_start l"
  defines "D' k \<equiv> apply_writes (take k (commit_writes l V)) D0"
  shows "dl_ok s (D' k) \<and> (\<forall>b. b \<notin> log_area s \<longrightarrow> recovered s (D' k) b = (if k \<le> nat (lh_n l) then D0 b else V b))"
proof -
  define n where "n = nat (lh_n l)"
  define h where "h = head_bytes l (V s)"
  define hw where "hw = map (\<lambda>b. (b, V b)) (logged l)"
  have cw: "commit_writes l V = (log_writes l V n @ [(s, h)]) @ hw @ [(s, cleared_head h)]"
    by (simp add: commit_writes_def n_def s_def h_def hw_def Let_def)
  have hl: "length hw = n" "length h = BSIZE" using length_logged [OF ok] head_bytes(1) [OF ok lenV] by (simp_all add: hw_def n_def h_def)
  have lenk: "length (D' k b) = BSIZE" for b unfolding D'_def
    by (rule length_apply_writes [OF len])
      (use hl(2) cleared_head [OF hl(2)] lenV in \<open>auto dest!: in_set_takeD simp: cw log_writes_def hw_def\<close>)
  define D1 where "D1 = (apply_writes (log_writes l V n) D0)(s := h)"
  have D1: "dl_ok s D1" "dl_blocks s D1 = logged l" "\<And>b. b \<notin> log_area s \<Longrightarrow> recovered s D1 b = V b"
    using committed_disk [of l V D0] ok V lenV len unfolding D1_def s_def n_def h_def by blast+
  have Ls: "set (logged l) \<inter> log_area s = {}" using ok by (simp add: log_ok_def s_def)
  consider (old) "k \<le> n" | (installing) "n < k" "k \<le> 2 * n + 1" | (cleared) "2 * n + 1 < k" by linarith
  then show ?thesis
  proof cases
    case old
    then have Dk: "D' k = apply_writes (log_writes l V k) D0"
      by (simp add: D'_def cw) (simp add: log_writes_def take_map)
    have "D' k s = D0 s" unfolding Dk s_def by (rule apply_writes_other [OF start_not_log_writes [OF ok]]) (use old n_def in simp)
    then have n0: "dl_n s (D' k) = 0" using hd by (simp add: dl_n_def s_def)
    then have "dl_ok s (D' k)" using lenk by (simp add: dl_ok_def dl_blocks_def)
    moreover have "D' k b = D0 b" if "b \<notin> log_area s" for b unfolding Dk
      by (rule apply_writes_other) (use log_writes_area [OF ok, of k V] old that in \<open>auto simp: s_def n_def\<close>)
    ultimately show ?thesis using recovered_0 [OF n0] old by (simp add: n_def)
  next
    case installing
    define j where "j = k - (n + 1)"
    then have kj: "k = n + 1 + j" "j \<le> n" using installing by simp_all
    have Dk: "D' k = apply_writes (take j hw) D1"
      using hl kj(2) unfolding kj(1) D'_def cw D1_def by simp
    have keep: "D' k b = D1 b" if "b \<notin> set (logged l)" for b unfolding Dk
      by (rule apply_writes_other) (use that in \<open>auto dest!: in_set_takeD simp: hw_def\<close>)
    have "dl_ok s (D' k)" by (rule recovered_cong(1) [OF D1(1)]) (use keep D1(2) Ls lenk in auto)
    moreover have "recovered s (D' k) b = recovered s D1 b" if "b \<notin> log_area s" for b
      by (rule recovered_cong(2) [OF D1(1) _ _ _ that]) (use keep D1(2) Ls lenk in auto)
    ultimately show ?thesis using D1(3) installing by (simp add: n_def)
  next
    case cleared
    then have Dk: "D' k = (apply_writes hw D1)(s := cleared_head h)" using hl by (simp add: D'_def cw D1_def)
    have n0: "dl_n s (D' k) = 0" using cleared_head [OF hl(2)] by (simp add: Dk dl_n_def)
    then have dok: "dl_ok s (D' k)" using lenk by (simp add: dl_ok_def dl_blocks_def)
    have "D' k b = V b" if b: "b \<notin> log_area s" for b
    proof (cases "b \<in> set (logged l)")
      case True
      then obtain t where t: "t < length (logged l)" "b = logged l ! t" by (auto simp: in_set_conv_nth)
      have "distinct (map fst hw)" using ok by (simp add: log_ok_def hw_def o_def)
      from apply_writes_nth [OF this, of t D1] show ?thesis using t b log_area_start by (auto simp: Dk hw_def)
    next
      case False
      then have "apply_writes hw D1 b = D1 b" by (intro apply_writes_other) (auto simp: hw_def)
      then show ?thesis using D1(3) [OF b] recovered_other [of b s D1] D1(2) False b log_area_start by (auto simp: Dk)
    qed
    then show ?thesis using dok recovered_0 [OF n0] cleared by (simp add: n_def)
  qed
qed

lemma cinv_home:
  assumes "cinv d (set (logged l)) {} b" "x \<notin> set (logged l)"
  shows "view b d x = disk b x"
  using cinv_clean [OF assms(1,2)] by simp

section \<open>Logging a block\<close>

lemma log_write_lh_new:
  assumes "log_ok l" "lh_n l < int LOGBLOCKS" "1 \<le> outstanding l" "b \<notin> set (logged l)"
  defines "l' \<equiv> l\<lparr>lh_block := (lh_block l)[nat (lh_n l) := b], lh_n := lh_n l + 1\<rparr>"
  shows "log_write_lh b l = Ok (True, l')" "logged l' = logged l @ [b]"
proof -
  have "find_index (\<lambda>x. x = b) (take (nat (lh_n l)) (lh_block l)) = None"
    using assms(4) find_index_None by (fastforce simp: logged_def)
  then show "log_write_lh b l = Ok (True, l')" using assms(2,3) by (simp add: log_write_lh_def l'_def)
  have "nat (lh_n l + 1) = Suc (nat (lh_n l))" "nat (lh_n l) < length (lh_block l)"
    using assms(1,2) by (auto simp: log_ok_def)
  then show "logged l' = logged l @ [b]" by (simp add: logged_def l'_def take_Suc_conv_app_nth)
qed

lemma log_write_lh_absorb:
  assumes "lh_n l < int LOGBLOCKS" "1 \<le> outstanding l" "b \<in> set (logged l)"
  shows "log_write_lh b l = Ok (False, l)"
proof -
  obtain i where i: "find_index (\<lambda>x. x = b) (take (nat (lh_n l)) (lh_block l)) = Some i"
    using assms(3) find_index_ex [of b "logged l" "\<lambda>x. x = b"] by (auto simp: logged_def)
  then have "i < length (lh_block l)" "i < nat (lh_n l)" "lh_block l ! i = b" using find_index_SomeD [OF i] by auto
  then show ?thesis using assms(1,2) i list_update_id [of "lh_block l" i] by (simp add: log_write_lh_def)
qed

text \<open>The state inside a transaction, with the blocks in \<open>H\<close> held.\<close>

definition tx_inv :: "u32 set \<Rightarrow> fsio \<Rightarrow> bool" where
  "tx_inv H st = (log_ok (lg st) \<and> cinv (log_dev (lg st)) (set (logged (lg st))) H (bc st) \<and> 1 \<le> outstanding (lg st))"

text \<open>What stays the same of the log while a transaction adds blocks to it.\<close>

definition log_same :: "log_state \<Rightarrow> log_state \<Rightarrow> bool" where
  "log_same l l' = (log_start l' = log_start l \<and> log_dev l' = log_dev l \<and> outstanding l' = outstanding l \<and> committing l' = committing l)"

lemma log_same_refl [simp]: "log_same l l"
  by (simp add: log_same_def)

lemma log_same_trans: "log_same a b \<Longrightarrow> log_same b c \<Longrightarrow> log_same a c"
  by (simp add: log_same_def)

lemma lh_n_card: "log_ok l \<Longrightarrow> lh_n l = int (card (set (logged l)))"
  using length_logged [of l] by (simp add: log_ok_def distinct_card)

lemma log_write_spec:
  assumes tx: "tx_inv H st" and room: "lh_n (lg st) < int LOGBLOCKS"
    and h: "holds (bc st) (log_dev (lg st)) b i" and b: "b \<notin> log_area (log_start (lg st))"
  defines "d \<equiv> log_dev (lg st)"
  shows "wp (log_write i st) (\<lambda>st'. tx_inv H st' \<and> log_same (lg st) (lg st') \<and>
    set (logged (lg st')) = insert b (set (logged (lg st))) \<and> holds (bc st') d b i \<and>
    view (bc st') d = view (bc st) d \<and> disk (bc st') = disk (bc st) \<and> dtrace (bc st') = dtrace (bc st) \<and>
    (\<forall>N. io_ok N (bc st') = io_ok N (bc st)) \<and> keeps d b (bc st) (bc st'))"
proof -
  have ok: "log_ok (lg st)" and c: "cinv d (set (logged (lg st))) H (bc st)" and out: "1 \<le> outstanding (lg st)"
    using tx by (auto simp: tx_inv_def d_def)
  have bno: "b_blockno (bufs (bc st) ! i) = b" and h': "holds (bc st) d b i" using h by (simp_all add: holds_def caches_def d_def)
  show ?thesis
  proof (cases "b \<in> set (logged (lg st))")
    case True
    then have "log_write i st = Ok st" using log_write_lh_absorb [OF room out True] bno by (simp add: log_write_def)
    then show ?thesis using tx h' True by (auto simp: keeps_def)
  next
    case False
    define l' where "l' = (lg st)\<lparr>lh_block := (lh_block (lg st))[nat (lh_n (lg st)) := b], lh_n := lh_n (lg st) + 1\<rparr>"
    note n = log_write_lh_new [OF ok room out False, folded l'_def]
    have run: "log_write i st = Ok \<lparr>lg = l', bc = bpin i (bc st)\<rparr>" using n(1) bno by (simp add: log_write_def)
    have same: "log_same (lg st) l'" by (simp add: log_same_def l'_def)
    have ok': "log_ok l'"
      using ok n(2) False b room by (auto simp: log_ok_def) (auto simp: l'_def)
    note p = cinv_bpin [OF c h' False]
    have "tx_inv H \<lparr>lg = l', bc = bpin i (bc st)\<rparr>"
      using ok' p(1) n(2) out same by (simp add: tx_inv_def log_same_def d_def)
    then show ?thesis using run same n(2) p by simp
  qed
qed

text \<open>
  The typical use that \<^verbatim>\<open>log.c\<close> names in a comment: read a block, modify it, log it, release it.
\<close>

definition log_update :: "u32 \<Rightarrow> u32 \<Rightarrow> (byte list \<Rightarrow> byte list) \<Rightarrow> fsio \<Rightarrow> fsio result" where
  "log_update dev b f st =
     bindR (bread dev b (bc st)) (\<lambda>(bp, b1).
     bindR (log_write bp (st\<lparr>bc := bset bp (f (bdata bp b1)) b1\<rparr>)) (\<lambda>st1.
     bindR (brelse bp (bc st1)) (\<lambda>b2. Ok (st1\<lparr>bc := b2\<rparr>))))"

lemma tx_room: "tx_inv H st \<Longrightarrow> lh_n (lg st) = int (card (set (logged (lg st))))"
  using lh_n_card by (simp add: tx_inv_def)

lemma log_update_spec:
  assumes tx: "tx_inv H st" and io: "io_ok (Suc N) (bc st)" and bH: "b \<notin> H"
    and room: "card (set (logged (lg st))) < LOGBLOCKS" "b \<in> set (logged (lg st)) \<or> card (set (logged (lg st)) \<union> H) < NBUF"
    and b: "b \<notin> log_area (log_start (lg st))" and len: "length (f (view (bc st) (log_dev (lg st)) b)) = BSIZE"
  defines "d \<equiv> log_dev (lg st)"
  shows "wp (log_update d b f st) (\<lambda>st'. tx_inv H st' \<and> log_same (lg st) (lg st') \<and>
    set (logged (lg st')) = insert b (set (logged (lg st))) \<and>
    view (bc st') d = (view (bc st) d)(b := f (view (bc st) d b)) \<and> disk (bc st') = disk (bc st) \<and>
    dtrace (bc st') = dtrace (bc st) \<and> io_ok N (bc st') \<and> keeps d b (bc st) (bc st'))"
proof -
  let ?L = "set (logged (lg st))"
  have c: "cinv d ?L H (bc st)" using tx by (simp add: tx_inv_def d_def)
  obtain i b1 where r: "bread d b (bc st) = Ok (i, b1)" "cinv d ?L (insert b H) b1" "holds b1 d b i" "view b1 d = view (bc st) d"
      "bdata i b1 = view (bc st) d b" "disk b1 = disk (bc st)" "dtrace b1 = dtrace (bc st)" "io_ok N b1" "keeps d b (bc st) b1"
    using cinv_bread [OF c io bH room(2)] by (auto simp: wp_def)
  define x where "x = f (bdata i b1)"
  have "length x = BSIZE" using len r(5) by (simp add: x_def d_def)
  note w = cinv_bset [OF r(2,3) this]
  define st1 where "st1 = st\<lparr>bc := bset i x b1\<rparr>"
  have tx1: "tx_inv (insert b H) st1" "lh_n (lg st1) < int LOGBLOCKS" "holds (bc st1) (log_dev (lg st1)) b i"
      "b \<notin> log_area (log_start (lg st1))"
    using tx w(1,2) tx_room [OF tx] room(1) b by (simp_all add: tx_inv_def st1_def d_def)
  obtain st2 where l: "log_write i st1 = Ok st2" "tx_inv (insert b H) st2" "log_same (lg st) (lg st2)" "set (logged (lg st2)) = insert b ?L"
      "holds (bc st2) d b i" "view (bc st2) d = (view (bc st) d)(b := x)" "disk (bc st2) = disk (bc st)" "dtrace (bc st2) = dtrace (bc st)"
      "io_ok N (bc st2)" "keeps d b (bc st1) (bc st2)"
    using log_write_spec [OF tx1] r w by (auto simp: wp_def st1_def d_def)
  have d2: "log_dev (lg st2) = d" using l(3) by (simp add: log_same_def d_def)
  have c2: "cinv d (insert b ?L) (insert b H) (bc st2)" using l(2,4) d2 by (simp add: tx_inv_def)
  obtain b3 where f: "brelse i (bc st2) = Ok b3" "cinv d (insert b ?L) H b3" "view b3 d = view (bc st2) d" "disk b3 = disk (bc st2)"
      "dtrace b3 = dtrace (bc st2)" "\<forall>N. io_ok N b3 = io_ok N (bc st2)" "keeps d b (bc st2) b3"
    using cinv_brelse [OF c2 bH l(5)] by (auto simp: wp_def)
  have "tx_inv H (st2\<lparr>bc := b3\<rparr>)" using l(2,4) f(2) d2 by (simp add: tx_inv_def)
  moreover have "keeps d b (bc st) b3" using r(9) w(7) l(10) f(7) by (auto simp: keeps_def st1_def)
  moreover have "log_update d b f st = Ok (st2\<lparr>bc := b3\<rparr>)"
    using r(1) l(1) f(1) by (simp add: log_update_def st1_def x_def)
  ultimately show ?thesis using l f r(5) by (simp add: x_def)
qed

text \<open>A transaction that logs a list of blocks.\<close>

lemma tx_logs_blocks:
  assumes "tx_inv {} st" "io_ok (length bs + N) (bc st)" "distinct (logged (lg st) @ bs)"
    and "length (logged (lg st) @ bs) \<le> LOGBLOCKS" "set bs \<inter> log_area (log_start (lg st)) = {}"
    and "\<And>x. length (f x) = BSIZE"
  shows "wp (forR (\<lambda>b. log_update (log_dev (lg st)) b f) bs st) (\<lambda>st'. tx_inv {} st' \<and> log_same (lg st) (lg st') \<and>
    set (logged (lg st')) = set (logged (lg st)) \<union> set bs \<and> disk (bc st') = disk (bc st) \<and> io_ok N (bc st') \<and>
    (\<forall>b\<in>set bs. view (bc st') (log_dev (lg st)) b = f (view (bc st) (log_dev (lg st)) b)) \<and> (\<forall>b. b \<notin> set bs \<longrightarrow> view (bc st') (log_dev (lg st)) b = view (bc st) (log_dev (lg st)) b))"
  using assms
proof (induction bs arbitrary: st)
  case (Cons b bs)
  let ?d = "log_dev (lg st)"
  have L: "card (set (logged (lg st))) < LOGBLOCKS"
    using Cons.prems(4) card_length [of "logged (lg st)"] by simp
  then have L': "card (set (logged (lg st)) \<union> {}) < NBUF" by (simp add: kconst)
  have io: "io_ok (Suc (length bs + N)) (bc st)" using Cons.prems(2) by simp
  have ba: "b \<notin> log_area (log_start (lg st))" using Cons.prems(5) by simp
  obtain st1 where u: "log_update ?d b f st = Ok st1" "tx_inv {} st1" "log_same (lg st) (lg st1)"
      "set (logged (lg st1)) = insert b (set (logged (lg st)))" "view (bc st1) ?d = (view (bc st) ?d)(b := f (view (bc st) ?d b))"
      "disk (bc st1) = disk (bc st)" "io_ok (length bs + N) (bc st1)"
    using log_update_spec [OF Cons.prems(1) io, of b f] L L' ba Cons.prems(6) by (auto simp: wp_def)
  have same: "log_dev (lg st1) = ?d" "log_start (lg st1) = log_start (lg st)" using u(3) by (simp_all add: log_same_def)
  have ok: "log_ok (lg st)" "log_ok (lg st1)" using Cons.prems(1) u(2) by (simp_all add: tx_inv_def)
  then have "length (logged (lg st1)) = card (insert b (set (logged (lg st))))" "distinct (logged (lg st1))"
    using u(4) by (simp_all add: log_ok_def flip: distinct_card)
  then have "distinct (logged (lg st1) @ bs)" "length (logged (lg st1) @ bs) \<le> LOGBLOCKS"
    using Cons.prems(3,4) u(4) by (auto simp: distinct_card)
  then have "wp (forR (\<lambda>b. log_update ?d b f) bs st1) (\<lambda>st'. tx_inv {} st' \<and> log_same (lg st1) (lg st') \<and>
    set (logged (lg st')) = set (logged (lg st1)) \<union> set bs \<and> disk (bc st') = disk (bc st1) \<and> io_ok N (bc st') \<and>
    (\<forall>b\<in>set bs. view (bc st') ?d b = f (view (bc st1) ?d b)) \<and> (\<forall>b. b \<notin> set bs \<longrightarrow> view (bc st') ?d b = view (bc st1) ?d b))"
    using Cons.IH [of st1] u(2,7) same Cons.prems(5,6) by simp
  moreover have "b \<notin> set bs" using Cons.prems(3) by simp
  ultimately show ?case using u log_same_trans [OF u(3)] by (auto simp: wp_def)
qed simp

lemma boot_tx:
  assumes "d \<noteq> 0" "dl_ok s D"
  shows "wp (initlog d s (boot_fs D)) (\<lambda>st. wp (case begin_op (lg st) of None \<Rightarrow> Panic ''sleep'' | Some l \<Rightarrow> Ok (st\<lparr>lg := l\<rparr>))
    (\<lambda>st'. tx_inv {} st' \<and> logged (lg st') = [] \<and> log_dev (lg st') = d \<and> log_start (lg st') = s \<and> outstanding (lg st') = 1 \<and>
       \<not> committing (lg st') \<and> disk (bc st') = apply_writes (recovery_writes s D) D \<and> io_ok 1000000 (bc st')))"
  by (rule wp_mono [OF initlog_spec [OF assms]])
    (auto simp: begin_op_def tx_inv_def logged_def log_ok_def kconst)

text \<open>A commit, and what the next boot finds after any prefix of its disk writes.\<close>

lemma commit_crash:
  assumes "log_ok (lg st)" "0 < lh_n (lg st)" "lh_n (lg st) < int NBUF"
    and "cinv d (set (logged (lg st))) {} (bc st)" "log_dev (lg st) = d" "log_start (lg st) = s" "d \<noteq> 0"
    and "io_ok (6 * nat (lh_n (lg st)) + 4) (bc st)" "get32 (disk (bc st) s) 0 = 0"
  obtains st' ws where "commit st = Ok st'" "dtrace (bc st') = dtrace (bc st) @ ws"
    "\<And>k D'. crashes d s (apply_writes (take k ws) (disk (bc st))) D' \<Longrightarrow>
      (\<exists>st2. initlog d s (boot_fs D') = Ok st2 \<and>
        (\<forall>b. b \<notin> log_area s \<longrightarrow>
          view (bc st2) d b = (if k \<le> nat (lh_n (lg st)) then disk (bc st) b else view (bc st) d b)))"
proof -
  let ?V = "view (bc st) d" and ?ws = "commit_writes (lg st) (view (bc st) d)"
  have c: "cinv (log_dev (lg st)) (set (logged (lg st))) {} (bc st)" "io_ok (6 * nat (lh_n (lg st)) + 4 + 0) (bc st)"
    using assms by simp_all
  obtain st' where st': "commit st = Ok st'" "dtrace (bc st') = dtrace (bc st) @ ?ws"
    using commit_spec [OF assms(1-3) c] assms(5) by (auto simp: wp_def)
  have lenV: "length (?V b) = BSIZE" "length (disk (bc st) b) = BSIZE" for b
    using view_length bio_invD(8) cinvD(1) [OF assms(4)] by blast+
  have pre: "dl_ok s D \<and> (\<forall>b. b \<notin> log_area s \<longrightarrow> recovered s D b = (if k \<le> nat (lh_n (lg st)) then disk (bc st) b else ?V b))"
    if "D = apply_writes (take k ?ws) (disk (bc st))" for k D
    using commit_prefix [OF assms(1), of ?V "disk (bc st)" k] cinv_home [OF assms(4)] lenV assms(6,9) that by auto
  have "\<exists>st2. initlog d s (boot_fs D') = Ok st2 \<and> (\<forall>b. b \<notin> log_area s \<longrightarrow>
      view (bc st2) d b = (if k \<le> nat (lh_n (lg st)) then disk (bc st) b else ?V b))"
    if cr: "crashes d s (apply_writes (take k ?ws) (disk (bc st))) D'" for k D'
  proof -
    note D = pre [OF refl, of k]
    have D': "dl_ok s D'" "\<And>b. b \<notin> log_area s \<Longrightarrow> recovered s D' b = recovered s (apply_writes (take k ?ws) (disk (bc st))) b"
      using crashes_recovered [OF cr assms(7)] D by auto
    show ?thesis using initlog_view [OF assms(7) D'(1)] D'(2) D by (auto simp: wp_def)
  qed
  then show thesis using that st' by blast
qed

section \<open>Properties of the log\<close>

text \<open>
  C1. Crash atomicity. A transaction is committed while the header on disk is empty. Whatever
  prefix of the commit's disk writes reaches the disk, and however many recoveries crash
  afterwards, each at any point, the recovery that finally completes shows every block outside
  the log area with its contents from before the transaction, or every such block with the
  transaction's contents; and it is the latter from the write of the header on.
\<close>

theorem commit_crash_atomic:
  assumes "log_ok (lg st)" "0 < lh_n (lg st)" "lh_n (lg st) < int NBUF"
    and "cinv d (set (logged (lg st))) {} (bc st)" "log_dev (lg st) = d" "log_start (lg st) = s" "d \<noteq> 0"
    and "io_ok (6 * nat (lh_n (lg st)) + 4) (bc st)" "get32 (disk (bc st) s) 0 = 0"
  shows "\<exists>st' ws. commit st = Ok st' \<and> dtrace (bc st') = dtrace (bc st) @ ws \<and>
    (\<forall>k D'. crashes d s (apply_writes (take k ws) (disk (bc st))) D' \<longrightarrow>
      (\<exists>st2. initlog d s (boot_fs D') = Ok st2 \<and>
        (\<forall>b. b \<notin> log_area s \<longrightarrow>
          view (bc st2) d b = (if k \<le> nat (lh_n (lg st)) then disk (bc st) b else view (bc st) d b))))"
  using commit_crash [OF assms] by metis

text \<open>A disk with an empty log, and a transaction on it that has logged some blocks.\<close>

lemma boot_transaction:
  assumes d: "d \<noteq> 0" and D: "\<And>b. length (D b) = BSIZE" "get32 (D s) 0 = 0"
    and bs: "distinct bs" "set bs \<inter> log_area s = {}" "length bs \<le> LOGBLOCKS" and x: "length x = BSIZE"
  obtains st where "tx_inv {} st" "set (logged (lg st)) = set bs" "log_dev (lg st) = d" "log_start (lg st) = s"
    "get32 (disk (bc st) s) 0 = 0" "\<forall>b\<in>set bs. view (bc st) d b = x" "\<forall>b. b \<noteq> s \<longrightarrow> disk (bc st) b = D b" "io_ok 1000 (bc st)"
proof -
  have n0: "dl_n s D = 0" using D(2) by (simp add: dl_n_def)
  then have ok: "dl_ok s D" using D(1) by (simp add: dl_ok_def dl_blocks_def)
  have rw: "apply_writes (recovery_writes s D) D = D(s := cleared_head (D s))" using n0 by (simp add: recovery_writes_def)
  obtain st where st: "tx_inv {} st" "logged (lg st) = []" "log_dev (lg st) = d" "log_start (lg st) = s" "outstanding (lg st) = 1"
      "disk (bc st) = D(s := cleared_head (D s))" "io_ok 1000000 (bc st)"
    using boot_tx [OF d ok] rw by (auto simp: wp_def)
  have io: "io_ok (length bs + 1000) (bc st)" using st(7) by (rule io_ok_mono) (use bs(3) in \<open>simp add: kconst\<close>)
  have p: "distinct (logged (lg st) @ bs)" "length (logged (lg st) @ bs) \<le> LOGBLOCKS" "set bs \<inter> log_area (log_start (lg st)) = {}"
    using bs st by simp_all
  obtain st1 where "tx_inv {} st1" "log_same (lg st) (lg st1)" "set (logged (lg st1)) = set bs" "disk (bc st1) = disk (bc st)"
      "io_ok 1000 (bc st1)" "\<forall>b\<in>set bs. view (bc st1) d b = x"
    using tx_logs_blocks [OF st(1) io p, of "\<lambda>_. x"] x st(2,3) by (auto simp: wp_def)
  then show thesis using that [of st1] st cleared_head [OF D(1)] by (auto simp: log_same_def)
qed

lemma not_in_log_area: "unat s + LOGBLOCKS < unat b \<Longrightarrow> b \<notin> log_area s"
proof
  assume lt: "unat s + LOGBLOCKS < unat b" and "b \<in> log_area s"
  then obtain t where t: "t \<le> LOGBLOCKS" "b = s + of_nat t" by (auto simp: log_area_def)
  then have "unat b \<le> unat s + t"
    by (simp add: unat_word_ariths unat_of_nat)
  then show False using lt t(1) by simp
qed

lemma zero_block: "length (replicate BSIZE (0::byte)) = BSIZE" "get32 (replicate BSIZE 0) 0 = 0"
  by (simp_all add: get32_def slice_def kconst numeral_eq_Suc)

theorem commit_crash_atomic_witness:
  "\<exists>st st' ws. commit st = Ok st' \<and> disk (bc st) 40 = replicate BSIZE 0 \<and> view (bc st) 1 40 = replicate BSIZE 7 \<and>
    dtrace (bc st') = dtrace (bc st) @ ws \<and>
    (\<forall>k D'. crashes 1 2 (apply_writes (take k ws) (disk (bc st))) D' \<longrightarrow>
      (\<exists>st2. initlog 1 2 (boot_fs D') = Ok st2 \<and> view (bc st2) 1 40 = (if k \<le> 1 then replicate BSIZE 0 else replicate BSIZE 7)))"
proof -
  have a: "(40 :: u32) \<notin> log_area 2" by (rule not_in_log_area) (simp add: kconst)
  obtain st where st: "tx_inv {} st" "set (logged (lg st)) = {40}" "log_dev (lg st) = 1" "log_start (lg st) = 2"
    "get32 (disk (bc st) 2) 0 = 0" "view (bc st) 1 40 = replicate BSIZE 7" "disk (bc st) 40 = replicate BSIZE 0" "io_ok 1000 (bc st)"
  proof (rule boot_transaction [of 1 "\<lambda>_. replicate BSIZE 0" 2 "[40]" "replicate BSIZE 7"])
    show "length [40 :: u32] \<le> LOGBLOCKS" by (simp add: kconst)
  qed (use zero_block a in auto)
  have n: "lh_n (lg st) = 1" "log_ok (lg st)" using lh_n_card [of "lg st"] st(1,2) by (simp_all add: tx_inv_def)
  have one: "(1 :: u32) \<noteq> 0" by simp
  have p: "0 < lh_n (lg st)" "lh_n (lg st) < int NBUF" "cinv 1 (set (logged (lg st))) {} (bc st)"
      "io_ok (6 * nat (lh_n (lg st)) + 4) (bc st)"
    using n st(1,3) io_ok_mono [OF st(8), of 10] by (simp_all add: tx_inv_def kconst)
  from commit_crash_atomic [OF n(2) p(1-3) st(3,4) one p(4) st(5)] n(1) st(6,7) a
  show ?thesis by fastforce
qed

text \<open>
  The log's counters when several system calls run at once. \<open>ops p\<close> is the set of blocks that process
  \<open>p\<close>'s operation has logged so far, \<open>None\<close> when it is in no operation; a process logs at most
  \<open>MAXOPBLOCKS\<close> different blocks per operation, each as often as it likes. The commit runs without the lock,
  between the two halves of \<open>end_op\<close>.
\<close>

inductive log_run :: "log_state \<Rightarrow> (int \<Rightarrow> u32 set option) \<Rightarrow> bool" where
  run_boot: "log_ok l \<Longrightarrow> lh_n l = 0 \<Longrightarrow> outstanding l = 0 \<Longrightarrow> \<not> committing l \<Longrightarrow> log_run l (\<lambda>_. None)"
| run_begin: "log_run l ops \<Longrightarrow> ops p = None \<Longrightarrow> begin_op l = Some l' \<Longrightarrow> log_run l' (ops(p \<mapsto> {}))"
| run_write: "log_run l ops \<Longrightarrow> ops p = Some B \<Longrightarrow> card (insert b B) \<le> MAXOPBLOCKS \<Longrightarrow> b \<notin> log_area (log_start l) \<Longrightarrow>
    log_write_lh b l = Ok (new, l') \<Longrightarrow> log_run l' (ops(p \<mapsto> insert b B))"
| run_end: "log_run l ops \<Longrightarrow> ops p = Some B \<Longrightarrow> end_op_enter l = Ok (c, l') \<Longrightarrow> log_run l' (ops(p := None))"
| run_committed: "log_run l ops \<Longrightarrow> committing l \<Longrightarrow> log_run (l\<lparr>lh_n := 0, committing := False\<rparr>) ops"

inductive_cases log_runE: "log_run l ops"

text \<open>The blocks that the operations in progress may still log.\<close>

definition ops_room :: "(int \<Rightarrow> u32 set option) \<Rightarrow> nat" where
  "ops_room ops = (\<Sum>p\<in>dom ops. MAXOPBLOCKS - card (the (ops p)))"

definition log_run_inv :: "log_state \<Rightarrow> (int \<Rightarrow> u32 set option) \<Rightarrow> bool" where
  "log_run_inv l ops = (log_ok l \<and> finite (dom ops) \<and> outstanding l = int (card (dom ops)) \<and>
     (\<forall>p B. ops p = Some B \<longrightarrow> card B \<le> MAXOPBLOCKS \<and> B \<subseteq> set (logged l)) \<and> (committing l \<longrightarrow> dom ops = {}) \<and>
     lh_n l + int (ops_room ops) \<le> int LOGBLOCKS)"

lemma ops_room_upd:
  assumes "finite (dom ops)"
  shows "ops_room (ops(p \<mapsto> B)) = ops_room (ops(p := None)) + (MAXOPBLOCKS - card B)"
    "ops p = None \<Longrightarrow> ops(p := None) = ops" "ops p = Some C \<Longrightarrow> ops_room ops = ops_room (ops(p := None)) + (MAXOPBLOCKS - card C)"
proof -
  have rest: "(\<Sum>q\<in>dom ops - {p}. MAXOPBLOCKS - card (the ((ops(p := v)) q))) = (\<Sum>q\<in>dom ops - {p}. MAXOPBLOCKS - card (the (ops q)))" for v
    by (rule sum.cong) auto
  have "dom (ops(p \<mapsto> B)) = insert p (dom ops - {p})" "dom (ops(p := None)) = dom ops - {p}" for B by auto
  moreover have "(\<Sum>q\<in>insert p (dom ops - {p}). MAXOPBLOCKS - card (the ((ops(p \<mapsto> B)) q))) =
      MAXOPBLOCKS - card (the ((ops(p \<mapsto> B)) p)) + (\<Sum>q\<in>dom ops - {p}. MAXOPBLOCKS - card (the ((ops(p \<mapsto> B)) q)))" for B
    by (rule sum.insert) (use assms in auto)
  ultimately show all: "ops_room (ops(p \<mapsto> B)) = ops_room (ops(p := None)) + (MAXOPBLOCKS - card B)" for B
    unfolding ops_room_def rest by (simp only: rest fun_upd_same option.sel add.commute)
  show "ops p = None \<Longrightarrow> ops(p := None) = ops" by auto
  show "ops p = Some C \<Longrightarrow> ops_room ops = ops_room (ops(p := None)) + (MAXOPBLOCKS - card C)"
    using all [of C] by (metis fun_upd_triv)
qed

lemma ops_room_le: "ops_room ops \<le> card (dom ops) * MAXOPBLOCKS"
  unfolding ops_room_def using sum_bounded_above [of "dom ops" "\<lambda>q. MAXOPBLOCKS - card (the (ops q))" MAXOPBLOCKS] by simp

lemma log_write_lh_step:
  assumes "log_ok l" "1 \<le> outstanding l" "b \<notin> log_area (log_start l)" "lh_n l < int LOGBLOCKS"
  shows "\<exists>new l'. log_write_lh b l = Ok (new, l') \<and> log_ok l' \<and> lh_n l' = lh_n l + (if b \<in> set (logged l) then 0 else 1) \<and> log_same l l' \<and>
    set (logged l') = insert b (set (logged l))"
proof (cases "b \<in> set (logged l)")
  case True
  then show ?thesis using log_write_lh_absorb [OF assms(4,2)] assms(1) by auto
next
  case False
  note n = log_write_lh_new [OF assms(1,4,2) False]
  have "log_ok (l\<lparr>lh_block := (lh_block l)[nat (lh_n l) := b], lh_n := lh_n l + 1\<rparr>)"
    using assms n(2) False by (auto simp: log_ok_def)
  then show ?thesis using n False by (auto simp: log_same_def)
qed

lemma log_run_invD:
  assumes "log_run_inv l ops" "ops p = Some B"
  shows "1 \<le> outstanding l" "\<not> committing l" "lh_n l + int (MAXOPBLOCKS - card B) \<le> int LOGBLOCKS" "B \<subseteq> set (logged l)" "finite B"
proof -
  have f: "finite (dom ops)" "p \<in> dom ops" using assms by (auto simp: log_run_inv_def)
  have "0 < card (dom ops)" using f card_gt_0_iff by auto
  then show "1 \<le> outstanding l" using assms(1) by (simp add: log_run_inv_def)
  show "\<not> committing l" using assms f(2) by (auto simp: log_run_inv_def)
  show "lh_n l + int (MAXOPBLOCKS - card B) \<le> int LOGBLOCKS"
    using ops_room_upd(3) [OF f(1) assms(2)] assms(1) by (simp add: log_run_inv_def)
  show sub: "B \<subseteq> set (logged l)" using assms by (auto simp: log_run_inv_def)
  show "finite B" by (rule finite_subset [OF sub]) simp
qed

text \<open>The log is full only when every operation has used up its share, so that only a block logged already can come.\<close>

lemma log_run_full:
  assumes "log_run_inv l ops" "ops p = Some B" "card (insert b B) \<le> MAXOPBLOCKS"
  shows "lh_n l < int LOGBLOCKS \<or> lh_n l = int LOGBLOCKS \<and> card B = MAXOPBLOCKS \<and> b \<in> B"
proof -
  note d = log_run_invD [OF assms(1,2)]
  have B: "card B \<le> MAXOPBLOCKS" using assms(1,2) by (auto simp: log_run_inv_def)
  have "card B < MAXOPBLOCKS" if "b \<notin> B" using assms(3) d(5) that by (simp add: card_insert_if)
  then show ?thesis using d(3) B by linarith
qed

lemma log_run_inv: "log_run l ops \<Longrightarrow> log_run_inv l ops"
proof (induction rule: log_run.induct)
  case (run_boot l)
  then show ?case by (simp add: log_run_inv_def ops_room_def)
next
  case (run_begin l ops p l')
  have fin: "finite (dom ops)" "outstanding l = int (card (dom ops))"
      and l': "l' = l\<lparr>outstanding := outstanding l + 1\<rparr>" "\<not> committing l"
        "lh_n l + (outstanding l + 1) * int MAXOPBLOCKS \<le> int LOGBLOCKS"
    using run_begin by (auto simp: log_run_inv_def begin_op_def split: if_splits)
  have "ops_room (ops(p \<mapsto> {})) = ops_room ops + MAXOPBLOCKS" using ops_room_upd [OF fin(1), of p] run_begin(2) by simp
  moreover have "int (ops_room ops) \<le> outstanding l * int MAXOPBLOCKS"
    using ops_room_le [of ops] fin(2) by (metis of_nat_le_iff of_nat_mult)
  ultimately have "lh_n l + int (ops_room (ops(p \<mapsto> {}))) \<le> int LOGBLOCKS" using l'(3) by (simp add: distrib_right)
  moreover have "card (dom (ops(p \<mapsto> {}))) = Suc (card (dom ops))" using fin run_begin(2) by (simp add: domIff)
  ultimately show ?case
    using run_begin.IH l'(1,2) fin unfolding log_run_inv_def
    by (intro conjI) (auto simp: log_ok_def logged_def simp del: fun_upd_apply, auto split: if_splits)
next
  case (run_write l ops p B b new l')
  note d = log_run_invD [OF run_write.IH run_write(2)]
  have inv: "log_ok l" "finite (dom ops)" using run_write.IH by (auto simp: log_run_inv_def)
  have room: "lh_n l < int LOGBLOCKS" using run_write(5) by (auto simp: log_write_lh_def split: if_splits)
  have w: "log_ok l'" "lh_n l' = lh_n l + (if b \<in> set (logged l) then 0 else 1)" "log_same l l'" "set (logged l') = insert b (set (logged l))"
    using log_write_lh_step [OF inv(1) d(1) run_write(4) room] run_write(5) by auto
  have "card (insert b B) = card B + (if b \<in> B then 0 else 1)" using d(5) by (simp add: card_insert_if)
  then have "lh_n l' + int (ops_room (ops(p \<mapsto> insert b B))) \<le> lh_n l + int (ops_room ops)"
    using ops_room_upd(1) [OF inv(2), of p "insert b B"] ops_room_upd(3) [OF inv(2) run_write(2)] run_write(3) w(2) d(4)
    by (auto split: if_splits)
  moreover have "dom (ops(p \<mapsto> insert b B)) = dom ops" using run_write(2) by auto
  moreover have "card C \<le> MAXOPBLOCKS \<and> C \<subseteq> set (logged l')" if "(ops(p \<mapsto> insert b B)) q = Some C" for q C
  proof (cases "q = p")
    case False
    then have "card C \<le> MAXOPBLOCKS \<and> C \<subseteq> set (logged l)" using that run_write.IH by (auto simp: log_run_inv_def)
    then show ?thesis using w(4) by auto
  qed (use that run_write(3) w(4) d(4) in auto)
  ultimately show ?case
    using run_write.IH w(1,3) d(2) unfolding log_run_inv_def log_same_def by (auto simp del: fun_upd_apply)
next
  case (run_end l ops p B c l')
  have inv: "log_ok l" "finite (dom ops)" "outstanding l = int (card (dom ops))" using run_end.IH by (auto simp: log_run_inv_def)
  have l': "log_ok l'" "lh_n l' = lh_n l" "outstanding l' = outstanding l - 1" "committing l' \<longrightarrow> outstanding l = 1" "logged l' = logged l"
    using run_end(3) inv(1) by (auto simp: end_op_enter_def Let_def log_ok_def logged_def split: if_splits)
  have p: "p \<in> dom ops" using run_end(2) by auto
  then have card: "card (dom (ops(p := None))) = card (dom ops) - 1" "0 < card (dom ops)" using inv(2) card_gt_0_iff by auto
  have "ops_room (ops(p := None)) \<le> ops_room ops" using ops_room_upd(3) [OF inv(2) run_end(2)] by simp
  moreover have "dom (ops(p := None)) = {}" if "committing l'"
  proof -
    have "card (dom (ops(p := None))) = 0" using that l'(4) inv(3) card by simp
    then show ?thesis using inv(2) by auto
  qed
  moreover have "finite (dom (ops(p := None)))" "\<forall>q C. (ops(p := None)) q = Some C \<longrightarrow> card C \<le> MAXOPBLOCKS \<and> C \<subseteq> set (logged l')"
    using run_end.IH l'(5) by (auto simp: log_run_inv_def split: if_splits)
  moreover have "lh_n l + int (ops_room ops) \<le> int LOGBLOCKS" using run_end.IH by (simp add: log_run_inv_def)
  ultimately show ?case
    using l'(1-3) card inv(3) unfolding log_run_inv_def by (simp del: fun_upd_apply dom_fun_upd)
qed (auto simp: log_run_inv_def log_ok_def logged_def ops_room_def)

text \<open>
  C17. Log space. However the operations of many processes interleave, as long as each logs at
  most \<open>MAXOPBLOCKS\<close> different blocks, and those as often as it likes: the header never names more than \<open>LOGBLOCKS\<close> blocks;
  \<open>log_write\<close> adds a block that is not logged yet and absorbs one that is; it panics only if the log is full to the last
  block, which takes that every operation in progress has logged all of its \<open>MAXOPBLOCKS\<close> blocks, and then on a
  block that this operation has logged before, because the check for room comes before the absorption; \<open>end_op\<close> does not panic, and a commit starts only
  when no other operation is in progress.
\<close>

theorem log_space_safe:
  assumes "log_run l ops" "ops p = Some B"
  shows "(card (insert b B) \<le> MAXOPBLOCKS \<and> b \<notin> log_area (log_start l) \<longrightarrow>
      (if lh_n l < int LOGBLOCKS then \<exists>new l'. log_write_lh b l = Ok (new, l') \<and> lh_n l' = lh_n l + (if b \<in> set (logged l) then 0 else 1) \<and>
           set (logged l') = insert b (set (logged l))
       else b \<in> B \<and> (\<forall>q C. ops q = Some C \<longrightarrow> card C = MAXOPBLOCKS) \<and> log_write_lh b l = Panic ''too big a transaction'')) \<and>
    (\<exists>c l'. end_op_enter l = Ok (c, l') \<and> (c \<longrightarrow> (\<forall>q. q \<noteq> p \<longrightarrow> ops q = None))) \<and>
    0 \<le> lh_n l \<and> lh_n l \<le> int LOGBLOCKS \<and> B \<subseteq> set (logged l) \<and> \<not> committing l"
proof -
  have inv: "log_run_inv l ops" by (rule log_run_inv [OF assms(1)])
  note d = log_run_invD [OF inv assms(2)]
  have ok: "log_ok l" "finite (dom ops)" "outstanding l = int (card (dom ops))" using inv by (simp_all add: log_run_inv_def)
  have "q = p" if "outstanding l = 1" "ops q = Some j" for q j
  proof -
    have "card (dom ops) = 1" using that(1) ok(3) by simp
    then obtain r where "dom ops = {r}" using card_1_singletonE by blast
    then show ?thesis using that(2) assms(2) by (metis domI singletonD)
  qed
  then have "\<exists>c l'. end_op_enter l = Ok (c, l') \<and> (c \<longrightarrow> (\<forall>q. q \<noteq> p \<longrightarrow> ops q = None))"
    using d(2) by (auto simp: end_op_enter_def Let_def)
  moreover have "if lh_n l < int LOGBLOCKS then \<exists>new l'. log_write_lh b l = Ok (new, l') \<and> lh_n l' = lh_n l + (if b \<in> set (logged l) then 0 else 1) \<and>
           set (logged l') = insert b (set (logged l))
       else b \<in> B \<and> (\<forall>q C. ops q = Some C \<longrightarrow> card C = MAXOPBLOCKS) \<and> log_write_lh b l = Panic ''too big a transaction''"
    if w: "card (insert b B) \<le> MAXOPBLOCKS \<and> b \<notin> log_area (log_start l)"
  proof (cases "lh_n l < int LOGBLOCKS")
    case True
    then show ?thesis using log_write_lh_step [OF ok(1) d(1) _ True, of b] w by auto
  next
    case False
    have "card C = MAXOPBLOCKS" if "ops q = Some C" for q C
    proof -
      have "card C \<le> MAXOPBLOCKS" using inv that by (auto simp: log_run_inv_def)
      then show ?thesis using log_run_invD(3) [OF inv that] False by linarith
    qed
    then show ?thesis using False log_run_full [OF inv assms(2), of b] w by (auto simp: log_write_lh_def)
  qed
  moreover have "0 \<le> lh_n l" "lh_n l \<le> int LOGBLOCKS" using ok(1) by (simp_all add: log_ok_def)
  ultimately show ?thesis using d(2,4) by blast
qed

text \<open>One operation logs block 40 twice: the second time it is absorbed.\<close>

theorem log_space_safe_witness:
  "\<exists>l1 l2. log_write_lh 40 (blank_log\<lparr>outstanding := 1\<rparr>) = Ok (True, l1) \<and> lh_n l1 = 1 \<and>
     log_write_lh 40 l1 = Ok (False, l2) \<and> lh_n l2 = 1"
proof -
  let ?l = "blank_log\<lparr>outstanding := 1\<rparr>"
  have r0: "log_run blank_log (\<lambda>_. None)" by (rule run_boot) (auto simp: blank_log_def log_ok_def logged_def)
  have "begin_op blank_log = Some ?l" by (simp add: begin_op_def blank_log_def kconst)
  from run_begin [OF r0 _ this, of 7] have r1: "log_run ?l ((\<lambda>_. None)(7 \<mapsto> {}))" by simp
  have a: "(40 :: u32) \<notin> log_area (log_start ?l)" by (rule not_in_log_area) (simp add: kconst blank_log_def)
  obtain l1 where l1: "log_write_lh 40 ?l = Ok (True, l1)" "lh_n l1 = 1" "log_start l1 = log_start ?l"
    by (simp add: log_write_lh_def blank_log_def kconst Let_def)
  have c: "card (insert 40 {} :: u32 set) \<le> MAXOPBLOCKS" by (simp add: kconst)
  have r2: "log_run l1 ([7 \<mapsto> {40}])" using run_write [OF r1 _ c a l1(1), of 7] by simp
  have "card (insert 40 {40} :: u32 set) \<le> MAXOPBLOCKS" by (simp add: kconst)
  then obtain new l2 where l2: "log_write_lh 40 l1 = Ok (new, l2)" "lh_n l2 = 1"
    using log_space_safe [OF r2, of 7 "{40}" 40] a l1(2,3) by (auto simp: kconst)
  moreover have "\<not> new" using l2 l1(2) by (auto simp: log_write_lh_def Let_def split: if_splits)
  ultimately show ?thesis using l1 by auto
qed

text \<open>
  C31. The log holds as many blocks as the cache has buffers, so a transaction that fills the log
  pins every buffer, and its commit panics in \<open>bget\<close> at the first read of a log block.
\<close>

theorem commit_full_log_panics:
  assumes "log_ok (lg st)" "lh_n (lg st) = int LOGBLOCKS" "cinv (log_dev (lg st)) (set (logged (lg st))) {} (bc st)"
  shows "commit st = Panic ''bget: no buffers''"
proof -
  let ?L = "set (logged (lg st))" and ?x = "log_start (lg st) + of_nat 0 + 1"
  have full: "card (?L \<union> {}) = NBUF" using lh_n_card [OF assms(1)] assms(2) by (simp add: kconst)
  have x: "?x \<notin> ?L" using logged_not_area [OF assms(1)] log_area_slot [of 0 "log_start (lg st)"] by (auto simp: kconst)
  have "bread (log_dev (lg st)) ?x (bc st) = Panic ''bget: no buffers''"
    using cinv_bread_panics [OF assms(3) x _ full_not_cached [OF assms(3) x _ full] full] by simp
  then have "write_log_one 0 st = Panic ''bget: no buffers''" by (simp add: write_log_one_def Let_def)
  moreover have "[0..<LOGBLOCKS] = 0 # [1..<LOGBLOCKS]" by (simp add: upt_conv_Cons kconst)
  ultimately have "write_log st = Panic ''bget: no buffers''" using assms(2) by (simp add: write_log_def)
  then show ?thesis using assms(2) by (simp add: commit_def kconst)
qed

theorem commit_full_log_panics_witness:
  "\<exists>st. lh_n (lg st) = 30 \<and> commit st = Panic ''bget: no buffers''"
proof -
  let ?bs = "map of_nat [40..<70] :: u32 list"
  have di: "distinct ?bs"
    by (auto simp: distinct_map inj_on_def word_unat_eq_iff unat_of_nat)
  have ar: "set ?bs \<inter> log_area 2 = {}"
    using not_in_log_area [of 2] by (force simp: unat_of_nat kconst)
  obtain st where st: "tx_inv {} st" "set (logged (lg st)) = set ?bs" "log_dev (lg st) = 1"
  proof (rule boot_transaction [of 1 "\<lambda>_. replicate BSIZE 0" 2 ?bs "replicate BSIZE 7"])
    show "length ?bs \<le> LOGBLOCKS" by (simp add: kconst)
  qed (use zero_block di ar in auto)
  have "card (set ?bs) = 30" using distinct_card [OF di] by simp
  then have n: "lh_n (lg st) = int LOGBLOCKS" "log_ok (lg st)"
    using lh_n_card [of "lg st"] st(1,2) by (simp_all add: tx_inv_def kconst)
  have "cinv (log_dev (lg st)) (set (logged (lg st))) {} (bc st)" using st(1) by (simp add: tx_inv_def)
  from commit_full_log_panics [OF n(2,1) this] show ?thesis using n(1) by (auto simp: kconst)
qed

end
