(* ===== verification/Kmem.thy ===== *)
theory Kmem
  imports Prelude
begin

text \<open>
  Physical memory and the page allocator of \<^verbatim>\<open>kernel/kalloc.c\<close>: memory is a function from
  64-bit addresses to bytes, the free list is threaded through the free pages themselves
  (the \<^verbatim>\<open>struct run\<close> at the start of each page), and \<open>kalloc\<close>, \<open>kfree\<close> and \<open>freerange\<close>
  work on that memory as the code does. The address \<open>kend\<close> of the linker symbol
  \<^verbatim>\<open>end[]\<close> is a parameter.
\<close>

section \<open>Memory\<close>

type_synonym memory = "u64 \<Rightarrow> byte"

text \<open>Little-endian 64-bit loads and stores, and \<^verbatim>\<open>memset(pa, c, PGSIZE)\<close>.\<close>

definition load64 :: "memory \<Rightarrow> u64 \<Rightarrow> u64" where
  "load64 m a = fold (\<lambda>i w. w OR push_bit (8 * i) (ucast (m (a + of_nat i)))) [0..<8] 0"

definition store64 :: "u64 \<Rightarrow> u64 \<Rightarrow> memory \<Rightarrow> memory" where
  "store64 a v m = (\<lambda>x. if unat (x - a) < 8 then ucast (drop_bit (8 * unat (x - a)) v) else m x)"

definition memset_page :: "u64 \<Rightarrow> byte \<Rightarrow> memory \<Rightarrow> memory" where
  "memset_page pa c m = (\<lambda>x. if unat (x - pa) < PGSIZE then c else m x)"

definition read_bytes :: "memory \<Rightarrow> u64 \<Rightarrow> nat \<Rightarrow> byte list" where
  "read_bytes m a n = map (\<lambda>i. m (a + of_nat i)) [0..<n]"

definition write_bytes :: "u64 \<Rightarrow> byte list \<Rightarrow> memory \<Rightarrow> memory" where
  "write_bytes a bs m = (\<lambda>x. if unat (x - a) < length bs then bs ! unat (x - a) else m x)"

section \<open>The allocator\<close>

definition KERNBASE :: u64 where "KERNBASE = 0x80000000"
definition PHYSTOP :: u64 where "PHYSTOP = 0x88000000"

record kmem =
  mem :: memory
  freelist :: u64

definition kfree :: "u64 \<Rightarrow> u64 \<Rightarrow> kmem \<Rightarrow> kmem result" where
  "kfree kend pa k =
     (if unat pa mod PGSIZE \<noteq> 0 \<or> pa < kend \<or> pa \<ge> PHYSTOP then Panic ''kfree''
      else let m1 = memset_page pa 1 (mem k);
               m2 = store64 pa (freelist k) m1
           in Ok (k\<lparr>mem := m2, freelist := pa\<rparr>))"

definition kalloc :: "kmem \<Rightarrow> u64 \<times> kmem" where
  "kalloc k =
     (let r = freelist k;
          k1 = (if r \<noteq> 0 then k\<lparr>freelist := load64 (mem k) r\<rparr> else k)
      in (r, if r \<noteq> 0 then k1\<lparr>mem := memset_page r 5 (mem k1)\<rparr> else k1))"

definition PGROUNDUP :: "u64 \<Rightarrow> u64" where
  "PGROUNDUP sz = (sz + of_nat PGSIZE - 1) AND NOT (of_nat PGSIZE - 1)"

definition PGROUNDDOWN :: "u64 \<Rightarrow> u64" where
  "PGROUNDDOWN a = a AND NOT (of_nat PGSIZE - 1)"

lemma unat_add_page: "unat (p :: u64) + PGSIZE \<le> unat (q :: u64) \<Longrightarrow> unat (p + of_nat PGSIZE) = unat p + PGSIZE"
proof -
  assume "unat p + PGSIZE \<le> unat q"
  moreover have "unat q < 2 ^ LENGTH(64)" by (rule unsigned_less)
  ultimately show ?thesis by (simp add: unat_word_ariths kconst)
qed

lemma PGSIZE_pos [simp]: "0 < PGSIZE"
  by (simp add: kconst)

text \<open>
  The loop of \<open>freerange\<close>, over the address \<open>p\<close>; the comparison is on addresses as numbers,
  as C pointer arithmetic does not wrap.
\<close>

function freerange_loop :: "u64 \<Rightarrow> u64 \<Rightarrow> u64 \<Rightarrow> kmem \<Rightarrow> kmem result" where
  "freerange_loop kend p pa_end k =
     (if unat p + PGSIZE \<le> unat pa_end
      then bindR (kfree kend p k) (freerange_loop kend (p + of_nat PGSIZE) pa_end)
      else Ok k)"
  by pat_completeness auto

termination
proof (relation "measure (\<lambda>(kend, p, pa_end, k). unat pa_end - unat p)", goal_cases)
  case (2 kend p pa_end k x)
  then show ?case using unat_add_page [of p pa_end] by (auto simp: PGSIZE_def)
qed simp

declare freerange_loop.simps [simp del]

definition freerange :: "u64 \<Rightarrow> u64 \<Rightarrow> u64 \<Rightarrow> kmem \<Rightarrow> kmem result" where
  "freerange kend pa_start pa_end k = freerange_loop kend (PGROUNDUP pa_start) pa_end k"

section \<open>Loads and stores\<close>

lemma fold_or_upt8:
  "fold (\<lambda>i w. w OR f i) [0..<8] (0 :: 'a::len word) =
     (((((((f 0 OR f 1) OR f 2) OR f 3) OR f 4) OR f 5) OR f 6) OR f 7)"
proof -
  have "[0..<8] = [0, 1, 2, 3, 4, 5, 6, 7 :: nat]" by (simp add: upt_rec)
  then show ?thesis by simp
qed

lemma load64_store64 [simp]: "load64 (store64 a v m) a = v"
proof (rule bit_word_eqI)
  fix n assume "n < LENGTH(64)"
  then have n: "n < 64" by simp
  have b: "bit (push_bit (8 * i) (ucast (store64 a v m (a + of_nat i)) :: u64)) n
      = (8 * i \<le> n \<and> n < 8 * i + 8 \<and> bit v n)" if "i < 8" for i
  proof -
    have "store64 a v m (a + of_nat i) = ucast (drop_bit (8 * i) v)"
      using that by (simp add: store64_def unat_of_nat)
    then show ?thesis
      using n that by (auto simp: bit_push_bit_iff bit_ucast_iff bit_drop_bit_eq)
  qed
  have "n \<in> {0..<8} \<or> n \<in> {8..<16} \<or> n \<in> {16..<24} \<or> n \<in> {24..<32} \<or> n \<in> {32..<40} \<or>
      n \<in> {40..<48} \<or> n \<in> {48..<56} \<or> n \<in> {56..<64}" using n by auto
  then show "bit (load64 (store64 a v m) a) n = bit v n"
    unfolding load64_def fold_or_upt8 bit_or_iff
    by (simp only: b) auto
qed

lemma load64_cong:
  assumes "\<And>i. i < 8 \<Longrightarrow> m (a + of_nat i) = m' (a + of_nat i)"
  shows "load64 m a = load64 m' a"
  unfolding load64_def by (rule fold_cong) (auto simp: assms)

lemma load64_zero: "load64 (\<lambda>_. 0) a = 0"
  unfolding load64_def fold_or_upt8 by simp

section \<open>Pages\<close>

definition page_aligned :: "u64 \<Rightarrow> bool" where
  "page_aligned p = (unat p mod PGSIZE = 0)"

definition in_page :: "u64 \<Rightarrow> u64 \<Rightarrow> bool" where
  "in_page p a = (unat (a - p) < PGSIZE)"

lemma unat64_lt: "unat (a :: u64) < 2 ^ 64"
proof -
  have "unat a < 2 ^ LENGTH(64)" by (rule unsigned_less)
  then show ?thesis by simp
qed

lemma aligned_room: "page_aligned p \<Longrightarrow> unat p + PGSIZE \<le> 2 ^ 64"
proof -
  assume "page_aligned p"
  then obtain q where q: "unat p = 4096 * q" by (auto simp: page_aligned_def kconst)
  then have "q < 2 ^ 52" using unat64_lt [of p] by simp
  then show ?thesis by (simp add: q kconst)
qed

lemma unat_add_offset: "page_aligned p \<Longrightarrow> unat d < PGSIZE \<Longrightarrow> unat (p + d) = unat p + unat d"
  using aligned_room [of p] by (simp add: unat_word_ariths)

lemma in_page_div:
  assumes "page_aligned p"
  shows "in_page p a = (unat a div PGSIZE = unat p div PGSIZE)"
proof -
  obtain q where q: "unat p = PGSIZE * q" using assms by (auto simp: page_aligned_def)
  show ?thesis
  proof
    assume d: "in_page p a"
    have "unat a = unat (p + (a - p))" by simp
    also have "\<dots> = PGSIZE * q + unat (a - p)"
      using d assms unat_add_offset [of p "a - p"] by (simp add: in_page_def q)
    finally show "unat a div PGSIZE = unat p div PGSIZE"
      using d by (simp add: in_page_def q)
  next
    assume eq: "unat a div PGSIZE = unat p div PGSIZE"
    have "unat a = PGSIZE * q + unat a mod PGSIZE"
      using eq q by (metis PGSIZE_pos div_mult_mod_eq mult.commute nonzero_mult_div_cancel_left not_gr_zero)
    moreover have "unat a mod PGSIZE < PGSIZE" by simp
    ultimately have le: "unat p \<le> unat a" and "unat a - unat p < PGSIZE" using q by linarith+
    moreover have "unat (a - p) = unat a - unat p" using le by (simp add: unat_sub word_le_nat_alt)
    ultimately show "in_page p a" by (simp add: in_page_def)
  qed
qed

lemma pages_disjoint:
  "page_aligned p \<Longrightarrow> page_aligned q \<Longrightarrow> in_page p a \<Longrightarrow> in_page q a \<Longrightarrow> p = q"
  by (metis in_page_div div_mult_mod_eq page_aligned_def word_unat_eq_iff)

lemma in_page_offset: "i < PGSIZE \<Longrightarrow> in_page p (p + of_nat i)"
  by (simp add: in_page_def unat_of_nat kconst)

lemma memset_page_other: "\<not> in_page p a \<Longrightarrow> memset_page p c m a = m a"
  by (simp add: memset_page_def in_page_def)

lemma memset_page_in: "in_page p a \<Longrightarrow> memset_page p c m a = c"
  by (simp add: memset_page_def in_page_def)

lemma store64_other: "\<not> in_page p a \<Longrightarrow> store64 p v m a = m a"
  by (simp add: store64_def in_page_def kconst)

section \<open>The free list\<close>

text \<open>The pages on the list that starts at \<open>p\<close>, in order; a null pointer ends it.\<close>

fun free_chain :: "memory \<Rightarrow> u64 \<Rightarrow> u64 list \<Rightarrow> bool" where
  "free_chain m p [] = (p = 0)"
| "free_chain m p (x # xs) = (p = x \<and> x \<noteq> 0 \<and> free_chain m (load64 m x) xs)"

lemma free_chain_cong:
  assumes "\<And>x i. x \<in> set xs \<Longrightarrow> i < 8 \<Longrightarrow> m (x + of_nat i) = m' (x + of_nat i)"
  shows "free_chain m p xs = free_chain m' p xs"
  using assms
proof (induction xs arbitrary: p)
  case (Cons x xs)
  have "load64 m x = load64 m' x" by (rule load64_cong) (simp add: Cons.prems)
  moreover have "free_chain m q xs = free_chain m' q xs" for q
    by (rule Cons.IH) (simp add: Cons.prems)
  ultimately show ?case by simp
qed simp

definition page_ok :: "u64 \<Rightarrow> u64 \<Rightarrow> bool" where
  "page_ok kend p = (page_aligned p \<and> kend \<le> p \<and> p < PHYSTOP)"

definition kmem_inv :: "u64 \<Rightarrow> u64 list \<Rightarrow> kmem \<Rightarrow> bool" where
  "kmem_inv kend xs k = (0 < kend \<and> free_chain (mem k) (freelist k) xs \<and> distinct xs \<and>
     (\<forall>x\<in>set xs. page_ok kend x))"

text \<open>Writing outside the free pages keeps the list.\<close>

lemma kmem_inv_write:
  assumes "kmem_inv kend xs k" and "\<And>x a. x \<in> set xs \<Longrightarrow> in_page x a \<Longrightarrow> m a = mem k a"
  shows "kmem_inv kend xs (k\<lparr>mem := m\<rparr>)"
proof -
  have "free_chain m (freelist k) xs = free_chain (mem k) (freelist k) xs"
    by (rule free_chain_cong) (simp add: assms(2) in_page_offset kconst)
  with assms(1) show ?thesis by (simp add: kmem_inv_def)
qed

lemma kalloc_cons:
  assumes "kmem_inv kend (x # xs) k"
  shows "kalloc k = (x, k\<lparr>freelist := load64 (mem k) x, mem := memset_page x 5 (mem k)\<rparr>)"
  using assms by (simp add: kalloc_def kmem_inv_def)

lemma kalloc_inv:
  assumes "kmem_inv kend (x # xs) k" "kalloc k = (p, k')"
  shows "p = x" "kmem_inv kend xs k'" "mem k' = memset_page x 5 (mem k)"
proof -
  let ?k = "k\<lparr>freelist := load64 (mem k) x\<rparr>"
  have inv: "kmem_inv kend xs ?k" using assms(1) by (simp add: kmem_inv_def)
  have "kmem_inv kend xs (?k\<lparr>mem := memset_page x 5 (mem k)\<rparr>)"
  proof (rule kmem_inv_write [OF inv])
    fix y a assume "y \<in> set xs" "in_page y a"
    then have "\<not> in_page x a"
      using assms(1) pages_disjoint [of x y a] by (auto simp: kmem_inv_def page_ok_def)
    then show "memset_page x 5 (mem k) a = mem ?k a" by (simp add: memset_page_other)
  qed
  with kalloc_cons [OF assms(1)] assms(2)
  show "p = x" "kmem_inv kend xs k'" "mem k' = memset_page x 5 (mem k)" by auto
qed

lemma kalloc_nil: "kmem_inv kend [] k \<Longrightarrow> kalloc k = (0, k)"
  by (simp add: kmem_inv_def kalloc_def)

lemma kfree_inv:
  assumes "kmem_inv kend xs k" "page_ok kend p" "p \<notin> set xs"
  obtains k' where "kfree kend p k = Ok k'" "kmem_inv kend (p # xs) k'"
    "\<And>a. \<not> in_page p a \<Longrightarrow> mem k' a = mem k a"
proof -
  define k' where "k' = k\<lparr>mem := store64 p (freelist k) (memset_page p 1 (mem k)), freelist := p\<rparr>"
  have run: "kfree kend p k = Ok k'"
    using assms(2) by (auto simp: kfree_def page_ok_def page_aligned_def k'_def Let_def)
  have frame: "mem k' a = mem k a" if "\<not> in_page p a" for a
    using that by (simp add: k'_def store64_other memset_page_other)
  have "free_chain (mem k') q xs = free_chain (mem k) q xs" for q
  proof (rule free_chain_cong)
    fix x i assume x: "x \<in> set xs" and i: "i < (8::nat)"
    then have "in_page x (x + of_nat i)" by (simp add: in_page_offset kconst)
    moreover have "page_aligned x" "x \<noteq> p" using x assms by (auto simp: kmem_inv_def page_ok_def)
    ultimately have "\<not> in_page p (x + of_nat i)"
      using assms(2) pages_disjoint by (auto simp: page_ok_def)
    then show "mem k' (x + of_nat i) = mem k (x + of_nat i)" by (rule frame)
  qed
  moreover have "p \<noteq> 0" using assms(1,2) by (auto simp: kmem_inv_def page_ok_def)
  ultimately have "kmem_inv kend (p # xs) k'"
    using assms by (simp add: kmem_inv_def) (simp add: k'_def)
  with run frame that show thesis by blast
qed

section \<open>Rounding to pages\<close>

lemma and_not_mask12: "(x :: u64) AND NOT (of_nat PGSIZE - 1) = push_bit 12 (drop_bit 12 x)"
proof -
  have "of_nat PGSIZE - 1 = (mask 12 :: u64)" by (simp add: kconst mask_eq_exp_minus_1)
  moreover have "x AND NOT (mask 12) = push_bit 12 (drop_bit 12 x)"
    by (rule bit_word_eqI) (auto simp: bit_and_iff bit_not_iff bit_mask_iff bit_push_bit_iff bit_drop_bit_eq)
  ultimately show ?thesis by simp
qed

lemma unat_page_base: "unat (push_bit 12 (drop_bit 12 (x :: u64))) = unat x div PGSIZE * PGSIZE"
proof -
  have "push_bit 12 (drop_bit 12 (unat x)) = unat x div PGSIZE * PGSIZE"
    by (simp add: push_bit_eq_mult drop_bit_eq_div kconst)
  moreover have "unat x div PGSIZE * PGSIZE < 2 ^ 64"
    using unat64_lt [of x] by (metis div_times_less_eq_dividend le_less_trans)
  moreover have "take_bit 64 (unat x) = unat x" by (rule take_bit_nat_eq_self [OF unat64_lt])
  ultimately show ?thesis
    by (simp add: unsigned_push_bit_eq unsigned_drop_bit_eq take_bit_nat_eq_self)
qed

lemma unat_PGROUNDDOWN: "unat (PGROUNDDOWN a) = unat a div PGSIZE * PGSIZE"
  by (simp add: PGROUNDDOWN_def and_not_mask12 unat_page_base)

lemma unat_PGROUNDUP:
  assumes "unat a + PGSIZE \<le> 2 ^ 64"
  shows "unat (PGROUNDUP a) = (unat a + PGSIZE - 1) div PGSIZE * PGSIZE"
proof -
  have "unat (a + of_nat PGSIZE - 1) = unat a + PGSIZE - 1"
  proof -
    have "a + of_nat PGSIZE - 1 = a + 4095" by (simp add: kconst)
    then show ?thesis using assms by (simp add: unat_word_ariths kconst)
  qed
  then show ?thesis by (simp add: PGROUNDUP_def and_not_mask12 unat_page_base)
qed

lemma aligned_PGROUNDDOWN: "page_aligned (PGROUNDDOWN a)"
  by (simp add: page_aligned_def unat_PGROUNDDOWN)

lemma aligned_PGROUNDUP: "page_aligned (PGROUNDUP a)"
  by (simp add: page_aligned_def PGROUNDUP_def and_not_mask12 unat_page_base)

lemma PGROUNDUP_ge: "unat a + PGSIZE \<le> 2 ^ 64 \<Longrightarrow> a \<le> PGROUNDUP a"
proof -
  assume "unat a + PGSIZE \<le> 2 ^ 64"
  then have "unat (PGROUNDUP a) = (unat a + PGSIZE - 1) div PGSIZE * PGSIZE" by (rule unat_PGROUNDUP)
  moreover have "unat a \<le> (unat a + PGSIZE - 1) div PGSIZE * PGSIZE"
  proof -
    have "(unat a + PGSIZE - 1) mod PGSIZE < PGSIZE" by simp
    then show ?thesis
      using div_mult_mod_eq [of "unat a + PGSIZE - 1" PGSIZE] PGSIZE_pos by linarith
  qed
  ultimately show ?thesis by (simp add: word_le_nat_alt)
qed

section \<open>Filling the free list\<close>

definition pages_from :: "u64 \<Rightarrow> u64 \<Rightarrow> u64 set" where
  "pages_from p e = {q. page_aligned q \<and> p \<le> q \<and> unat q + PGSIZE \<le> unat e}"

lemma aligned_next:
  assumes "page_aligned p" "unat p + PGSIZE \<le> unat (e :: u64)"
  shows "page_aligned (p + of_nat PGSIZE)" "unat (p + of_nat PGSIZE) = unat p + PGSIZE"
proof -
  show eq: "unat (p + of_nat PGSIZE) = unat p + PGSIZE" using unat_add_page [OF assms(2)] .
  then show "page_aligned (p + of_nat PGSIZE)" using assms(1) by (simp add: page_aligned_def)
qed

lemma aligned_gap:
  assumes "page_aligned p" "page_aligned q" "p < q"
  shows "unat p + PGSIZE \<le> unat q"
proof -
  obtain a where a: "unat p = PGSIZE * a" using assms(1) by (auto simp: page_aligned_def)
  obtain b where b: "unat q = PGSIZE * b" using assms(2) by (auto simp: page_aligned_def)
  note ab = a b
  have "a < b" using assms(3) ab by (simp add: word_less_nat_alt)
  then have "PGSIZE * Suc a \<le> PGSIZE * b" by (intro mult_le_mono2) simp
  with ab show ?thesis by simp
qed

lemma pages_from_step:
  assumes "page_aligned p" "unat p + PGSIZE \<le> unat e"
  shows "pages_from p e = insert p (pages_from (p + of_nat PGSIZE) e)"
proof -
  have "p + of_nat PGSIZE \<le> q" if "page_aligned q" "p \<le> q" "q \<noteq> p" for q
  proof -
    have "p < q" using that by simp
    then show ?thesis
      using aligned_gap [OF assms(1) that(1)] aligned_next [OF assms] by (simp add: word_le_nat_alt)
  qed
  moreover have "p \<le> p + of_nat PGSIZE" using aligned_next [OF assms] by (simp add: word_le_nat_alt)
  ultimately show ?thesis using assms by (auto simp: pages_from_def)
qed

lemma freerange_loop_inv:
  assumes "kmem_inv kend xs k" "page_aligned p" "kend \<le> p" "e \<le> PHYSTOP" "\<forall>x\<in>set xs. x < p"
  shows "\<exists>k' ys. freerange_loop kend p e k = Ok k' \<and> kmem_inv kend ys k' \<and> set ys = set xs \<union> pages_from p e"
  using assms
proof (induction kend p e k arbitrary: xs rule: freerange_loop.induct)
  case (1 kend p e k)
  show ?case
  proof (cases "unat p + PGSIZE \<le> unat e")
    case True
    have "p < PHYSTOP"
      using True "1.prems"(4) PGSIZE_pos unfolding word_le_nat_alt word_less_nat_alt by linarith
    then have ok: "page_ok kend p" using "1.prems" by (simp add: page_ok_def)
    have "p \<notin> set xs" using "1.prems"(5) by auto
    then obtain k1 where k1: "kfree kend p k = Ok k1" "kmem_inv kend (p # xs) k1"
      using kfree_inv [OF "1.prems"(1) ok] by blast
    have nxt: "page_aligned (p + of_nat PGSIZE)" "p < p + of_nat PGSIZE"
      using aligned_next [OF "1.prems"(2) True] by (simp_all add: word_less_nat_alt)
    then have "kend \<le> p + of_nat PGSIZE" "\<forall>x\<in>set (p # xs). x < p + of_nat PGSIZE"
      using "1.prems"(3,5) by auto
    then obtain k' ys where "freerange_loop kend (p + of_nat PGSIZE) e k1 = Ok k'" "kmem_inv kend ys k'"
        "set ys = set (p # xs) \<union> pages_from (p + of_nat PGSIZE) e"
      using "1.IH" [OF True k1(2) nxt(1) _ "1.prems"(4)] by blast
    with True k1 show ?thesis
      by (auto simp: freerange_loop.simps [of kend p] pages_from_step [OF "1.prems"(2) True])
  next
    case False
    then have "pages_from p e = {}" by (auto simp: pages_from_def word_le_nat_alt)
    with False "1.prems"(1) show ?thesis by (auto simp: freerange_loop.simps [of kend p])
  qed
qed

section \<open>The allocator as an interface\<close>

text \<open>
  What the clients of the page allocator use: a pool of free pages, from which \<open>alloc\<close> takes
  one (or returns a null pointer when it is empty) and to which \<open>free\<close> returns one.
\<close>

fun alloc_n :: "('s \<Rightarrow> u64 \<times> 's) \<Rightarrow> nat \<Rightarrow> 's \<Rightarrow> u64 list \<times> 's" where
  "alloc_n alloc 0 s = ([], s)"
| "alloc_n alloc (Suc n) s =
     (let (p, s1) = alloc s; (ps, s2) = alloc_n alloc n s1 in (p # ps, s2))"

locale page_pool =
  fixes alloc :: "'s \<Rightarrow> u64 \<times> 's"
    and free :: "u64 \<Rightarrow> 's \<Rightarrow> 's result"
    and pool :: "'s \<Rightarrow> u64 set \<Rightarrow> bool"
    and usable :: "u64 \<Rightarrow> bool"
  assumes pool_finite: "pool s F \<Longrightarrow> finite F"
    and pool_usable: "pool s F \<Longrightarrow> p \<in> F \<Longrightarrow> usable p \<and> p \<noteq> 0"
    and alloc_empty: "pool s {} \<Longrightarrow> alloc s = (0, s)"
    and alloc_takes: "pool s F \<Longrightarrow> F \<noteq> {} \<Longrightarrow> alloc s = (p, s') \<Longrightarrow> p \<in> F \<and> pool s' (F - {p})"
    and free_returns: "pool s F \<Longrightarrow> usable p \<Longrightarrow> p \<notin> F \<Longrightarrow> \<exists>s'. free p s = Ok s' \<and> pool s' (insert p F)"
begin

lemma alloc_nonnull: "pool s F \<Longrightarrow> alloc s = (p, s') \<Longrightarrow> (p = 0) = (F = {})"
  using alloc_empty alloc_takes pool_usable by (metis fst_conv)

lemma alloc_n_pool:
  assumes "pool s F" "n \<le> card F" "alloc_n alloc n s = (ps, s')"
  shows "length ps = n \<and> distinct ps \<and> set ps \<subseteq> F \<and> pool s' (F - set ps)"
  using assms
proof (induction n arbitrary: s F ps s')
  case (Suc n)
  obtain p s1 where p: "alloc s = (p, s1)" by fastforce
  obtain qs s2 where q: "alloc_n alloc n s1 = (qs, s2)" by fastforce
  have "F \<noteq> {}" using Suc.prems(2) by auto
  then have p1: "p \<in> F" "pool s1 (F - {p})" using alloc_takes [OF Suc.prems(1) _ p] by auto
  have "n \<le> card (F - {p})" using Suc.prems(2) p1(1) pool_finite [OF Suc.prems(1)] by simp
  then have "length qs = n \<and> distinct qs \<and> set qs \<subseteq> F - {p} \<and> pool s2 (F - {p} - set qs)"
    using Suc.IH [OF p1(2) _ q] by blast
  moreover have "ps = p # qs" "s' = s2" using Suc.prems(3) p q by auto
  moreover have "F - {p} - set qs = F - set (p # qs)" by auto
  ultimately show ?case using p1(1) by auto
qed simp

end

definition kmem_pool :: "u64 \<Rightarrow> kmem \<Rightarrow> u64 set \<Rightarrow> bool" where
  "kmem_pool kend k F = (\<exists>xs. kmem_inv kend xs k \<and> set xs = F)"

interpretation kpages: page_pool kalloc "kfree kend" "kmem_pool kend" "page_ok kend" for kend
proof (unfold_locales, goal_cases)
  case (4 k F p k')
  then obtain xs where xs: "kmem_inv kend xs k" "set xs = F" by (auto simp: kmem_pool_def)
  then obtain x ys where x: "xs = x # ys" using 4(2) by (cases xs) auto
  then have "p = x" "kmem_inv kend ys k'" using kalloc_inv xs(1) 4(3) by blast+
  moreover have "F - {x} = set ys" using xs x by (auto simp: kmem_inv_def)
  ultimately show ?case using xs x by (auto simp: kmem_pool_def)
next
  case (5 k F p)
  then obtain xs where xs: "kmem_inv kend xs k" "set xs = F" by (auto simp: kmem_pool_def)
  then obtain k' where "kfree kend p k = Ok k'" "kmem_inv kend (p # xs) k'"
    using kfree_inv 5(2,3) by metis
  with xs show ?case by (auto simp: kmem_pool_def)
qed (auto simp: kmem_pool_def kmem_inv_def page_ok_def kalloc_def)

section \<open>Properties of the page allocator\<close>

text \<open>
  C10. At boot \<open>freerange\<close> succeeds and threads every whole page between the end of the
  kernel image and \<open>PHYSTOP\<close> onto the free list, each exactly once.
\<close>

theorem freerange_fills_pool:
  assumes "0 < kend" "kend < PHYSTOP" "freelist k = 0"
  shows "\<exists>k' xs. freerange kend kend PHYSTOP k = Ok k' \<and> free_chain (mem k') (freelist k') xs \<and>
    distinct xs \<and> set xs = {p. page_aligned p \<and> PGROUNDUP kend \<le> p \<and> unat p + PGSIZE \<le> unat PHYSTOP}"
proof -
  have inv: "kmem_inv kend [] k" using assms by (simp add: kmem_inv_def)
  have "unat kend < 0x88000000" using assms(2) by (simp add: word_less_nat_alt PHYSTOP_def)
  then have ge: "kend \<le> PGROUNDUP kend" by (intro PGROUNDUP_ge) (simp add: kconst)
  have "\<exists>k' ys. freerange_loop kend (PGROUNDUP kend) PHYSTOP k = Ok k' \<and> kmem_inv kend ys k' \<and>
      set ys = set [] \<union> pages_from (PGROUNDUP kend) PHYSTOP"
    by (rule freerange_loop_inv [OF inv aligned_PGROUNDUP ge]) simp_all
  then show ?thesis by (auto simp: freerange_def kmem_inv_def pages_from_def)
qed

theorem freerange_fills_pool_witness:
  "\<exists>k'. freerange 0x80021000 0x80021000 PHYSTOP \<lparr>mem = (\<lambda>_. 0), freelist = 0\<rparr> = Ok k'"
  using freerange_fills_pool [of "0x80021000" "\<lparr>mem = (\<lambda>_. 0), freelist = 0\<rparr>"]
  by (auto simp: PHYSTOP_def)

text \<open>
  C11. As many \<open>kalloc\<close> calls as there are free pages return pairwise distinct, page-aligned,
  non-null pages of the free list, and the rest of the list stays well formed; the next call
  returns a null pointer exactly when no page is left.
\<close>

theorem kalloc_distinct_pages:
  assumes "kmem_inv kend xs k" "n \<le> length xs" "alloc_n kalloc n k = (ps, k')" "kalloc k' = (p, k'')"
  shows "length ps = n \<and> distinct ps \<and> (\<forall>q\<in>set ps. page_ok kend q \<and> q \<noteq> 0 \<and> q \<in> set xs) \<and>
    (\<exists>ys. kmem_inv kend ys k' \<and> set ys = set xs - set ps) \<and> (p = 0) = (n = length xs)"
proof -
  have pool: "kmem_pool kend k (set xs)" using assms(1) by (auto simp: kmem_pool_def)
  have d: "distinct xs" using assms(1) by (simp add: kmem_inv_def)
  then have "n \<le> card (set xs)" using assms(2) by (simp add: distinct_card)
  then have r: "length ps = n" "distinct ps" "set ps \<subseteq> set xs" "kmem_pool kend k' (set xs - set ps)"
    using kpages.alloc_n_pool [OF pool _ assms(3)] by auto
  have "(p = 0) = (set xs - set ps = {})" using kpages.alloc_nonnull [OF r(4) assms(4)] .
  also have "\<dots> = (n = length xs)"
  proof
    assume "set xs - set ps = {}"
    then have "set ps = set xs" using r(3) by blast
    then have "card (set ps) = card (set xs)" by simp
    then show "n = length xs" using r(1,2) d by (simp add: distinct_card)
  next
    assume "n = length xs"
    then have "card (set ps) = card (set xs)" using r(1,2) d by (simp add: distinct_card)
    then have "set ps = set xs" using r(3) by (simp add: card_subset_eq)
    then show "set xs - set ps = {}" by simp
  qed
  finally show ?thesis
    using r kpages.pool_usable [OF pool] by (auto simp: kmem_pool_def)
qed

theorem kalloc_distinct_pages_witness:
  "\<exists>ps k'. alloc_n kalloc 1 \<lparr>mem = (\<lambda>_. 0), freelist = 0x80022000\<rparr> = (ps, k') \<and> length ps = 1 \<and>
    ps = [0x80022000] \<and> fst (kalloc k') = 0"
proof -
  let ?k = "\<lparr>mem = (\<lambda>_. 0), freelist = 0x80022000\<rparr>"
  have inv: "kmem_inv 0x80021000 [0x80022000] ?k"
    by (simp add: kmem_inv_def page_ok_def page_aligned_def PHYSTOP_def kconst load64_zero)
  obtain ps k' where a: "alloc_n kalloc 1 ?k = (ps, k')" by fastforce
  obtain p k'' where b: "kalloc k' = (p, k'')" by fastforce
  from kalloc_distinct_pages [OF inv _ a b] have "length ps = 1" "set ps \<subseteq> {0x80022000}" "p = 0" by auto
  then have "ps = [0x80022000]" by (cases ps) auto
  with a b \<open>p = 0\<close> show ?thesis by simp
qed

text \<open>
  Freeing a page and allocating again gives the same page back, filled with the
  allocation pattern 5; the free list and all memory outside that page are as before. A
  misaligned or out-of-range address panics.
\<close>

theorem kfree_kalloc_roundtrip:
  assumes "kmem_inv kend xs k" "p \<notin> set xs"
  shows "if page_ok kend p
    then \<exists>k1 k2. kfree kend p k = Ok k1 \<and> kalloc k1 = (p, k2) \<and> kmem_inv kend xs k2 \<and>
      freelist k2 = freelist k \<and> (\<forall>a. mem k2 a = (if in_page p a then 5 else mem k a))
    else kfree kend p k = Panic ''kfree''"
proof (cases "page_ok kend p")
  case True
  then obtain k1 where k1: "kfree kend p k = Ok k1" "kmem_inv kend (p # xs) k1"
      "\<And>a. \<not> in_page p a \<Longrightarrow> mem k1 a = mem k a"
    using kfree_inv [OF assms(1) _ assms(2)] by blast
  obtain q k2 where k2: "kalloc k1 = (q, k2)" by fastforce
  have "q = p" "kmem_inv kend xs k2" "mem k2 = memset_page p 5 (mem k1)"
    using kalloc_inv [OF k1(2) k2] by simp_all
  moreover have "freelist k2 = freelist k"
  proof -
    have "k1 = k\<lparr>mem := store64 p (freelist k) (memset_page p 1 (mem k)), freelist := p\<rparr>"
      using k1(1) by (auto simp: kfree_def Let_def split: if_splits)
    then show ?thesis using kalloc_cons [OF k1(2)] k2 by auto
  qed
  ultimately show ?thesis
    using True k1 k2 by (auto simp: memset_page_def in_page_def)
next
  case False
  then show ?thesis by (auto simp: kfree_def page_ok_def page_aligned_def not_le not_less)
qed

theorem kfree_kalloc_roundtrip_witness:
  "\<exists>k1 k2. kfree 0x80021000 0x80022000 \<lparr>mem = (\<lambda>_. 0), freelist = 0\<rparr> = Ok k1 \<and>
     kalloc k1 = (0x80022000, k2) \<and> kfree 0x80021000 0x80022008 \<lparr>mem = (\<lambda>_. 0), freelist = 0\<rparr> = Panic ''kfree''"
  using kfree_kalloc_roundtrip [of "0x80021000" "[]" "\<lparr>mem = (\<lambda>_. 0), freelist = 0\<rparr>" "0x80022000"]
  by (auto simp: kmem_inv_def page_ok_def page_aligned_def PHYSTOP_def kconst kfree_def)

end
