(* ===== verification/Cstring.thy ===== *)
theory Cstring
  imports Kmem
begin

text \<open>
  The memory and string routines of \<^verbatim>\<open>kernel/string.c\<close>, as loops over byte-addressed memory.
  Lengths that the code takes as \<^verbatim>\<open>uint\<close> or non-negative \<^verbatim>\<open>int\<close> are natural numbers; the
  loops count them down exactly as the code does.
\<close>

section \<open>The routines\<close>

fun memset_loop :: "nat \<Rightarrow> u64 \<Rightarrow> byte \<Rightarrow> memory \<Rightarrow> memory" where
  "memset_loop 0 d c m = m"
| "memset_loop (Suc n) d c m = memset_loop n (d + 1) c (m(d := c))"

definition memset :: "u64 \<Rightarrow> byte \<Rightarrow> nat \<Rightarrow> memory \<Rightarrow> memory" where
  "memset dst c n m = memset_loop n dst c m"

fun memcmp :: "u64 \<Rightarrow> u64 \<Rightarrow> nat \<Rightarrow> memory \<Rightarrow> int" where
  "memcmp s1 s2 0 m = 0"
| "memcmp s1 s2 (Suc n) m =
     (if m s1 \<noteq> m s2 then uint (m s1) - uint (m s2) else memcmp (s1 + 1) (s2 + 1) n m)"

text \<open>The two copy loops of \<open>memmove\<close>: \<open>*d++ = *s++\<close> and \<open>*--d = *--s\<close>.\<close>

fun copy_up :: "nat \<Rightarrow> u64 \<Rightarrow> u64 \<Rightarrow> memory \<Rightarrow> memory" where
  "copy_up 0 d s m = m"
| "copy_up (Suc n) d s m = copy_up n (d + 1) (s + 1) (m(d := m s))"

fun copy_down :: "nat \<Rightarrow> u64 \<Rightarrow> u64 \<Rightarrow> memory \<Rightarrow> memory" where
  "copy_down 0 d s m = m"
| "copy_down (Suc n) d s m = copy_down n (d - 1) (s - 1) (m(d - 1 := m (s - 1)))"

definition memmove :: "u64 \<Rightarrow> u64 \<Rightarrow> nat \<Rightarrow> memory \<Rightarrow> memory" where
  "memmove dst src n m =
     (if n = 0 then m
      else if src < dst \<and> unat src + n > unat dst
      then copy_down n (dst + of_nat n) (src + of_nat n) m
      else copy_up n dst src m)"

definition memcpy :: "u64 \<Rightarrow> u64 \<Rightarrow> nat \<Rightarrow> memory \<Rightarrow> memory" where
  "memcpy dst src n m = memmove dst src n m"

fun strncmp :: "u64 \<Rightarrow> u64 \<Rightarrow> nat \<Rightarrow> memory \<Rightarrow> int" where
  "strncmp p q 0 m = 0"
| "strncmp p q (Suc n) m =
     (if m p \<noteq> 0 \<and> m p = m q then strncmp (p + 1) (q + 1) n m else uint (m p) - uint (m q))"

text \<open>
  The copy loop shared by \<open>strncpy\<close> and \<open>safestrcpy\<close>: at most \<open>n\<close> bytes, stopping after a copied
  NUL; it returns the bytes not yet used, and the destination pointer.
\<close>

fun str_copy :: "nat \<Rightarrow> u64 \<Rightarrow> u64 \<Rightarrow> memory \<Rightarrow> nat \<times> u64 \<times> memory" where
  "str_copy 0 s t m = (0, s, m)"
| "str_copy (Suc n) s t m =
     (let m' = m(s := m t) in if m t \<noteq> 0 then str_copy n (s + 1) (t + 1) m' else (n, s + 1, m'))"

definition strncpy :: "u64 \<Rightarrow> u64 \<Rightarrow> nat \<Rightarrow> memory \<Rightarrow> memory" where
  "strncpy s t n m = (case str_copy n s t m of (r, s', m') \<Rightarrow> memset_loop r s' 0 m')"

definition safestrcpy :: "u64 \<Rightarrow> u64 \<Rightarrow> nat \<Rightarrow> memory \<Rightarrow> memory" where
  "safestrcpy s t n m =
     (if n = 0 then m else case str_copy (n - 1) s t m of (r, s', m') \<Rightarrow> m'(s' := 0))"

text \<open>\<open>strlen\<close> scans until a NUL; without one it never returns.\<close>

partial_function (option) strlen_from :: "u64 \<Rightarrow> nat \<Rightarrow> memory \<Rightarrow> nat option" where
  "strlen_from s n m = (if m (s + of_nat n) = 0 then Some n else strlen_from s (Suc n) m)"

definition strlen :: "u64 \<Rightarrow> memory \<Rightarrow> nat option" where
  "strlen s m = strlen_from s 0 m"

section \<open>Byte ranges\<close>

text \<open>Offsets into a range that does not wrap around the address space.\<close>

lemma range_off:
  assumes "unat (a :: u64) + n \<le> 2 ^ 64" "i < n"
  shows "unat (a + of_nat i) = unat a + i"
  using assms by (simp add: unat_word_ariths unat_of_nat)

lemma range_inj:
  assumes "unat (a :: u64) + n \<le> 2 ^ 64" "i < n" "j < n"
  shows "(a + of_nat i = a + of_nat j) = (i = j)"
  using range_off [OF assms(1,2)] range_off [OF assms(1,3)] by (metis add_left_imp_eq)

lemma range_mem:
  assumes "unat (a :: u64) + n \<le> 2 ^ 64"
  shows "(unat (x - a) < n) = (\<exists>i<n. x = a + of_nat i)"
proof
  assume "unat (x - a) < n"
  then show "\<exists>i<n. x = a + of_nat i" by (intro exI [of _ "unat (x - a)"]) simp
next
  assume "\<exists>i<n. x = a + of_nat i"
  then obtain i where "i < n" "x = a + of_nat i" by blast
  then show "unat (x - a) < n" using assms unat64_lt [of a] by (simp add: unat_of_nat)
qed

lemma length_read_bytes [simp]: "length (read_bytes m a n) = n"
  by (simp add: read_bytes_def)

lemma nth_read_bytes [simp]: "i < n \<Longrightarrow> read_bytes m a n ! i = m (a + of_nat i)"
  by (simp add: read_bytes_def)

lemma write_bytes_at:
  assumes "unat a + length bs \<le> 2 ^ 64" "i < length bs"
  shows "write_bytes a bs m (a + of_nat i) = bs ! i"
  using assms by (simp add: write_bytes_def unat_of_nat)

lemma write_bytes_out:
  assumes "unat a + length bs \<le> 2 ^ 64" "\<And>i. i < length bs \<Longrightarrow> x \<noteq> a + of_nat i"
  shows "write_bytes a bs m x = m x"
  using assms range_mem [OF assms(1), of x] by (auto simp: write_bytes_def)

lemma write_bytes_Nil [simp]: "write_bytes a [] m = m"
  by (simp add: write_bytes_def)

lemma read_write_bytes:
  "unat a + length bs \<le> 2 ^ 64 \<Longrightarrow> read_bytes (write_bytes a bs m) a (length bs) = bs"
  by (intro nth_equalityI) (simp_all add: write_bytes_at)

lemma write_bytes_eqI:
  assumes "unat a + length bs \<le> 2 ^ 64"
    and "\<And>i. i < length bs \<Longrightarrow> m' (a + of_nat i) = bs ! i"
    and "\<And>x. (\<And>i. i < length bs \<Longrightarrow> x \<noteq> a + of_nat i) \<Longrightarrow> m' x = m x"
  shows "m' = write_bytes a bs m"
proof
  fix x
  show "m' x = write_bytes a bs m x"
  proof (cases "\<exists>i<length bs. x = a + of_nat i")
    case True
    then show ?thesis using assms(2) write_bytes_at [OF assms(1)] by auto
  next
    case False
    then show ?thesis using assms(3) write_bytes_out [OF assms(1)] by auto
  qed
qed

lemma read_bytes_snoc: "read_bytes m s (Suc n) = read_bytes m s n @ [m (s + of_nat n)]"
  by (simp add: read_bytes_def)

lemma read_bytes_Suc: "read_bytes m s (Suc n) = m s # read_bytes m (s + 1) n"
  unfolding read_bytes_def by (simp add: upt_conv_Cons map_Suc_upt [symmetric] ac_simps del: upt_Suc)

lemma read_bytes_cong:
  "(\<And>i. i < n \<Longrightarrow> m (s + of_nat i) = m' (s + of_nat i)) \<Longrightarrow> read_bytes m s n = read_bytes m' s n"
  by (simp add: read_bytes_def)

lemma write_bytes_Cons:
  assumes "unat a + Suc (length bs) \<le> 2 ^ 64"
  shows "write_bytes (a + 1) bs (m(a := b)) = write_bytes a (b # bs) m"
proof (cases bs)
  case Nil
  then show ?thesis by (auto simp: write_bytes_def fun_eq_iff unat_eq_0)
next
  case (Cons c cs)
  then have r: "unat (a + 1) + length bs \<le> 2 ^ 64" using assms by (simp add: unat_word_ariths)
  have len: "length (b # bs) = Suc (length bs)" by simp
  show ?thesis
  proof (rule write_bytes_eqI)
    show "unat a + length (b # bs) \<le> 2 ^ 64" using assms by simp
  next
    fix i assume i: "i < length (b # bs)"
    show "write_bytes (a + 1) bs (m(a := b)) (a + of_nat i) = (b # bs) ! i"
    proof (cases i)
      case 0
      have "a \<noteq> a + 1 + of_nat j" if "j < length bs" for j
        using range_inj [OF assms, of 0 "Suc j"] that by (simp add: add.assoc)
      then show ?thesis using 0 write_bytes_out [OF r] by simp
    next
      case (Suc j)
      then have e: "a + of_nat i = (a + 1) + of_nat j" by simp
      show ?thesis unfolding e using write_bytes_at [OF r, of j] Suc i by simp
    qed
  next
    fix x assume x: "\<And>i. i < length (b # bs) \<Longrightarrow> x \<noteq> a + of_nat i"
    have "x \<noteq> a + 1 + of_nat j" if "j < length bs" for j using x [of "Suc j"] that by (simp add: add.assoc)
    moreover have "x \<noteq> a" using x [of 0] by simp
    ultimately show "write_bytes (a + 1) bs (m(a := b)) x = m x" using write_bytes_out [OF r] by simp
  qed
qed

lemma write_bytes_append:
  assumes "unat a + (length bs + length cs) \<le> 2 ^ 64"
  shows "write_bytes (a + of_nat (length bs)) cs (write_bytes a bs m) = write_bytes a (bs @ cs) m"
  using assms
proof (induction cs arbitrary: bs)
  case Nil
  then show ?case by simp
next
  case (Cons c cs)
  let ?M = "write_bytes a bs m" and ?p = "a + of_nat (length bs)"
  have p: "unat ?p = unat a + length bs" using range_off [OF Cons.prems, of "length bs"] by simp
  have M: "?M(?p := c) = write_bytes a (bs @ [c]) m"
  proof (rule write_bytes_eqI, goal_cases)
    case (2 i)
    have "i < length bs \<Longrightarrow> a + of_nat i \<noteq> ?p" using range_inj [OF Cons.prems, of i "length bs"] by simp
    moreover have "\<not> i < length bs \<Longrightarrow> i = length bs" using 2 by simp
    ultimately show ?case using write_bytes_at [of a bs i m] Cons.prems by (cases "i < length bs") (auto simp: nth_append)
  next
    case (3 x)
    then show ?case using write_bytes_out [of a bs x m] Cons.prems by simp
  qed (use Cons.prems in simp)
  have "write_bytes ?p (c # cs) ?M = write_bytes (?p + 1) cs (?M(?p := c))"
    by (rule write_bytes_Cons [symmetric]) (use p Cons.prems in simp)
  also have "\<dots> = write_bytes (a + of_nat (length (bs @ [c]))) cs (write_bytes a (bs @ [c]) m)"
    unfolding M by (simp add: ac_simps)
  also have "\<dots> = write_bytes a ((bs @ [c]) @ cs) m" by (rule Cons.IH) (use Cons.prems in simp)
  finally show ?case by simp
qed

lemma write_bytes_snoc:
  assumes "unat a + Suc (length bs) \<le> 2 ^ 64"
  shows "write_bytes a bs (m(a + of_nat (length bs) := b)) = write_bytes a (bs @ [b]) m"
proof (rule write_bytes_eqI)
  have r: "unat a + length bs \<le> 2 ^ 64" using assms by simp
  show "unat a + length (bs @ [b]) \<le> 2 ^ 64" using assms by simp
  show "write_bytes a bs (m(a + of_nat (length bs) := b)) (a + of_nat i) = (bs @ [b]) ! i"
    if "i < length (bs @ [b])" for i
  proof (cases "i < length bs")
    case True
    then show ?thesis using write_bytes_at [OF r True] by (simp add: nth_append)
  next
    case False
    then have i: "i = length bs" using that by simp
    have "a + of_nat i \<noteq> a + of_nat j" if "j < length bs" for j
      using range_inj [OF assms, of i j] that i by simp
    then show ?thesis using write_bytes_out [OF r] i by simp
  qed
  show "write_bytes a bs (m(a + of_nat (length bs) := b)) x = m x"
    if x: "\<And>i. i < length (bs @ [b]) \<Longrightarrow> x \<noteq> a + of_nat i" for x
    using write_bytes_out [OF r, of x] x by simp
qed

section \<open>Loops\<close>

lemma memset_loop_eq:
  "unat d + n \<le> 2 ^ 64 \<Longrightarrow> memset_loop n d c m = write_bytes d (replicate n c) m"
proof (induction n arbitrary: d m)
  case 0
  then show ?case by (simp add: write_bytes_def)
next
  case (Suc n)
  show ?case
  proof (cases n)
    case 0
    then show ?thesis using write_bytes_Cons [of d "[]" m c] Suc.prems by (simp add: write_bytes_def)
  next
    case (Suc k)
    then have "unat (d + 1) + n \<le> 2 ^ 64" using Suc.prems by (simp add: unat_word_ariths)
    from Suc.IH [OF this, of "m(d := c)"] show ?thesis
      using write_bytes_Cons [of d "replicate n c" m c] Suc.prems by (simp only: memset_loop.simps replicate_Suc length_replicate)
  qed
qed

lemma copy_up_eq:
  assumes "unat d + n \<le> 2 ^ 64" "\<And>i j. j < i \<Longrightarrow> i < n \<Longrightarrow> d + of_nat j \<noteq> s + of_nat i"
  shows "copy_up n d s m = write_bytes d (read_bytes m s n) m"
  using assms
proof (induction n arbitrary: d s m)
  case 0
  then show ?case by (simp add: write_bytes_def)
next
  case (Suc n)
  have "(d + 1) + of_nat j \<noteq> (s + 1) + of_nat i" if "j < i" "i < n" for i j
    using Suc.prems(2) [of "Suc j" "Suc i"] that by (simp add: algebra_simps)
  moreover have "unat (d + 1) + n \<le> 2 ^ 64" using Suc.prems(1) by (simp add: unat_word_ariths)
  ultimately have "copy_up (Suc n) d s m = write_bytes (d + 1) (read_bytes (m(d := m s)) (s + 1) n) (m(d := m s))"
    by (simp only: copy_up.simps) (rule Suc.IH)
  also have "read_bytes (m(d := m s)) (s + 1) n = read_bytes m (s + 1) n"
  proof (rule read_bytes_cong)
    fix i assume "i < n"
    then have "d \<noteq> s + 1 + of_nat i" using Suc.prems(2) [of 0 "Suc i"] by (simp add: algebra_simps)
    then show "(m(d := m s)) (s + 1 + of_nat i) = m (s + 1 + of_nat i)" by auto
  qed
  also have "write_bytes (d + 1) (read_bytes m (s + 1) n) (m(d := m s)) = write_bytes d (read_bytes m s (Suc n)) m"
    using write_bytes_Cons [of d "read_bytes m (s + 1) n" m "m s"] Suc.prems(1)
    by (simp only: read_bytes_Suc length_read_bytes)
  finally show ?case .
qed

lemma copy_down_eq:
  assumes "unat d + n \<le> 2 ^ 64" "\<And>i j. i < j \<Longrightarrow> j < n \<Longrightarrow> d + of_nat j \<noteq> s + of_nat i"
  shows "copy_down n (d + of_nat n) (s + of_nat n) m = write_bytes d (read_bytes m s n) m"
  using assms
proof (induction n arbitrary: m)
  case 0
  then show ?case by (simp add: write_bytes_def)
next
  case (Suc n)
  let ?m = "m(d + of_nat n := m (s + of_nat n))"
  have "copy_down (Suc n) (d + of_nat (Suc n)) (s + of_nat (Suc n)) m = copy_down n (d + of_nat n) (s + of_nat n) ?m"
    by simp
  also have "\<dots> = write_bytes d (read_bytes ?m s n) ?m"
    by (rule Suc.IH) (use Suc.prems in auto)
  also have "read_bytes ?m s n = read_bytes m s n"
  proof (rule read_bytes_cong)
    fix i assume "i < n"
    then show "?m (s + of_nat i) = m (s + of_nat i)" using Suc.prems(2) [of i n] by auto
  qed
  also have "write_bytes d (read_bytes m s n) ?m = write_bytes d (read_bytes m s (Suc n)) m"
    using write_bytes_snoc [of d "read_bytes m s n" m "m (s + of_nat n)"] Suc.prems(1)
    by (simp add: read_bytes_snoc)
  finally show ?case .
qed

lemma memmove_eq:
  assumes "unat src + n \<le> 2 ^ 64" "unat dst + n \<le> 2 ^ 64"
  shows "memmove dst src n m = write_bytes dst (read_bytes m src n) m"
proof -
  have u: "unat (dst + of_nat i) = unat dst + i" "unat (src + of_nat i) = unat src + i" if "i < n" for i
    using range_off assms that by auto
  show ?thesis
  proof (cases "src < dst \<and> unat src + n > unat dst")
    case True
    have "dst + of_nat j \<noteq> src + of_nat i" if "i < j" "j < n" for i j
    proof
      assume "dst + of_nat j = src + of_nat i"
      then have "unat dst + j = unat src + i" using u [of i] u [of j] that by simp
      then show False using True that by (simp add: word_less_nat_alt)
    qed
    then have "copy_down n (dst + of_nat n) (src + of_nat n) m = write_bytes dst (read_bytes m src n) m"
      by (rule copy_down_eq [OF assms(2)])
    then show ?thesis using True by (auto simp: memmove_def write_bytes_def)
  next
    case False
    have "dst + of_nat j \<noteq> src + of_nat i" if "j < i" "i < n" for i j
    proof
      assume "dst + of_nat j = src + of_nat i"
      then have "unat dst + j = unat src + i" using u [of i] u [of j] that by simp
      then show False using False that by (simp add: word_less_nat_alt)
    qed
    then have "copy_up n dst src m = write_bytes dst (read_bytes m src n) m" by (rule copy_up_eq [OF assms(2)])
    then show ?thesis using False by (auto simp: memmove_def write_bytes_def)
  qed
qed

text \<open>The string in a byte list, as C sees it: the bytes before the first NUL.\<close>

definition cstr :: "byte list \<Rightarrow> byte list" where
  "cstr bs = takeWhile (\<lambda>b. b \<noteq> 0) bs"

lemma cstr_simps [simp]: "cstr [] = []" "cstr (b # bs) = (if b = 0 then [] else b # cstr bs)"
  by (simp_all add: cstr_def)

lemma cstr_length: "length (cstr bs) \<le> length bs"
  by (simp add: cstr_def length_takeWhile_le)

text \<open>What the copy loop writes: the string and, if there is room for it, its NUL.\<close>

definition copied :: "byte list \<Rightarrow> byte list" where
  "copied bs = (if length (cstr bs) < length bs then cstr bs @ [0] else cstr bs)"

lemma copied_Cons: "copied (b # bs) = (if b = 0 then [0] else b # copied bs)"
  by (simp add: copied_def)

lemma copied_length: "length (copied bs) \<le> length bs"
  using cstr_length [of bs] by (auto simp: copied_def)

lemma str_copy_eq:
  assumes "unat s + n \<le> 2 ^ 64" "\<And>i j. i < n \<Longrightarrow> j < n \<Longrightarrow> s + of_nat i \<noteq> t + of_nat j"
  shows "str_copy n s t m = (let c = copied (read_bytes m t n) in (n - length c, s + of_nat (length c), write_bytes s c m))"
  using assms
proof (induction n arbitrary: s t m)
  case 0
  then show ?case by (simp add: copied_def write_bytes_def read_bytes_def)
next
  case (Suc n)
  show ?case
  proof (cases "m t = 0")
    case True
    have "m(s := 0) = write_bytes s [0] m"
      using write_bytes_Cons [of s "[]" m 0] Suc.prems(1) by (simp del: fun_upd_apply)
    then show ?thesis using True by (simp add: read_bytes_Suc copied_Cons Let_def)
  next
    case False
    let ?m = "m(s := m t)" and ?c = "copied (read_bytes m (t + 1) n)"
    have d: "(s + 1) + of_nat i \<noteq> (t + 1) + of_nat j" if "i < n" "j < n" for i j
      using Suc.prems(2) [of "Suc i" "Suc j"] that by (simp add: algebra_simps)
    have r: "unat (s + 1) + n \<le> 2 ^ 64" using Suc.prems(1) by (simp add: unat_word_ariths)
    have "read_bytes ?m (t + 1) n = read_bytes m (t + 1) n"
    proof (rule read_bytes_cong)
      fix i assume "i < n"
      then have "s \<noteq> t + 1 + of_nat i" using Suc.prems(2) [of 0 "Suc i"] by (simp add: algebra_simps)
      then show "?m (t + 1 + of_nat i) = m (t + 1 + of_nat i)" by auto
    qed
    with Suc.IH [OF r d, of ?m] have "str_copy n (s + 1) (t + 1) ?m =
        (n - length ?c, s + 1 + of_nat (length ?c), write_bytes (s + 1) ?c ?m)" by (simp only: Let_def)
    moreover have "write_bytes (s + 1) ?c ?m = write_bytes s (m t # ?c) m"
      by (rule write_bytes_Cons) (use Suc.prems(1) copied_length [of "read_bytes m (t + 1) n"] in simp)
    ultimately show ?thesis using False by (simp only: str_copy.simps Let_def read_bytes_Suc copied_Cons) simp
  qed
qed

lemma strlen_eq:
  assumes "m (s + of_nat k) = 0" "\<And>i. i < k \<Longrightarrow> m (s + of_nat i) \<noteq> 0"
  shows "strlen s m = Some k"
proof -
  have "strlen_from s n m = Some k" if "n \<le> k" for n
    using that
  proof (induction "k - n" arbitrary: n)
    case 0
    then have "n = k" by simp
    then show ?case using assms(1) strlen_from.simps [of s k m] by simp
  next
    case (Suc d)
    then have "strlen_from s (Suc n) m = Some k" by (intro Suc(1)) auto
    then show ?case using assms(2) [of n] Suc(2) strlen_from.simps [of s n m] by simp
  qed
  then show ?thesis by (simp add: strlen_def)
qed

section \<open>Properties of the string routines\<close>

text \<open>
  C29. \<open>memmove\<close> copies: for any two ranges that do not wrap around the address space,
  overlapping or not, the destination afterwards holds the bytes the source held before, and
  nothing else changes.
\<close>

theorem memmove_copies:
  assumes "unat src + n \<le> 2 ^ 64" "unat dst + n \<le> 2 ^ 64"
  shows "read_bytes (memmove dst src n m) dst n = read_bytes m src n \<and>
    (\<forall>x. (\<forall>i<n. x \<noteq> dst + of_nat i) \<longrightarrow> memmove dst src n m x = m x)"
  using memmove_eq [OF assms, of m] read_write_bytes [of dst "read_bytes m src n" m]
    write_bytes_out [of dst "read_bytes m src n" _ m] assms(2) by auto

theorem memmove_copies_witness:
  "\<forall>m. read_bytes (memmove 101 100 4 m) 101 4 = read_bytes m 100 4 \<and>
   memmove 101 100 4 m 100 = m 100 \<and> read_bytes (memmove 100 101 4 m) 100 4 = read_bytes m 101 4"
proof
  fix m
  have "\<forall>i<4. 100 \<noteq> (101 :: u64) + of_nat i" using range_off [of 101 4] by (auto simp: word_unat_eq_iff)
  then show "read_bytes (memmove 101 100 4 m) 101 4 = read_bytes m 100 4 \<and>
   memmove 101 100 4 m 100 = m 100 \<and> read_bytes (memmove 100 101 4 m) 100 4 = read_bytes m 101 4"
    using memmove_copies [of 100 4 101 m] memmove_copies [of 101 4 100 m] by simp
qed

lemma strncpy_eq:
  assumes "unat s + n \<le> 2 ^ 64" "\<And>i j. i < n \<Longrightarrow> j < n \<Longrightarrow> s + of_nat i \<noteq> t + of_nat j"
  shows "strncpy s t n m = write_bytes s (cstr (read_bytes m t n) @
      replicate (n - length (cstr (read_bytes m t n))) 0) m"
proof -
  define c where "c = copied (read_bytes m t n)"
  have c: "length c \<le> n" using copied_length [of "read_bytes m t n"] by (simp add: c_def)
  have sc: "str_copy n s t m = (n - length c, s + of_nat (length c), write_bytes s c m)"
    using str_copy_eq [OF assms, of m] by (simp add: c_def Let_def)
  have "unat (s + of_nat (length c)) + (n - length c) \<le> 2 ^ 64"
  proof (cases "length c < n")
    case True
    then show ?thesis using range_off [OF assms(1) True] assms(1) by simp
  next
    case False
    then show ?thesis using unat64_lt [of "s + of_nat (length c)"] by simp
  qed
  then have "strncpy s t n m = write_bytes s (c @ replicate (n - length c) 0) m"
    using c assms(1) by (simp add: strncpy_def sc memset_loop_eq write_bytes_append)
  moreover have "c @ replicate (n - length c) 0 = cstr (read_bytes m t n) @
      replicate (n - length (cstr (read_bytes m t n))) 0"
    using cstr_length [of "read_bytes m t n"] by (auto simp: c_def copied_def simp flip: replicate_Suc)
  ultimately show ?thesis by simp
qed

lemma safestrcpy_eq:
  assumes "unat s + Suc n \<le> 2 ^ 64" "\<And>i j. i < n \<Longrightarrow> j < n \<Longrightarrow> s + of_nat i \<noteq> t + of_nat j"
  shows "safestrcpy s t (Suc n) m = write_bytes s (copied (read_bytes m t n) @ [0]) m"
proof -
  define c where "c = copied (read_bytes m t n)"
  have c: "length c \<le> n" using copied_length [of "read_bytes m t n"] by (simp add: c_def)
  have sc: "str_copy n s t m = (n - length c, s + of_nat (length c), write_bytes s c m)"
    using str_copy_eq [of s n t m] assms by (simp add: c_def Let_def)
  have p: "unat (s + of_nat (length c)) = unat s + length c" using range_off [OF assms(1), of "length c"] c by simp
  have "safestrcpy s t (Suc n) m = write_bytes (s + of_nat (length c)) [0] (write_bytes s c m)"
    using write_bytes_Cons [of "s + of_nat (length c)" "[]" "write_bytes s c m" 0] p assms(1) c
    by (simp add: safestrcpy_def sc del: fun_upd_apply)
  also have "\<dots> = write_bytes s (c @ [0]) m" by (rule write_bytes_append) (use assms(1) c in simp)
  finally show ?thesis by (simp add: c_def)
qed

lemma copied_nul:
  assumes "i \<le> length (cstr bs)"
  shows "(copied bs @ [0]) ! i = (if i < length (cstr bs) then cstr bs ! i else 0)"
  using assms by (auto simp: copied_def nth_append)

lemma cstr_nonzero: "i < length (cstr bs) \<Longrightarrow> cstr bs ! i \<noteq> 0"
  unfolding cstr_def by (metis (mono_tags, lifting) nth_mem set_takeWhileD)

text \<open>
  \<open>strncpy\<close> writes exactly \<open>n\<close> bytes, the source string padded with NULs (and not
  terminated when it has no NUL among its first \<open>n\<close> bytes); \<open>safestrcpy\<close> leaves a terminated
  string, whose length \<open>strlen\<close> then finds: the longest prefix of the source string that fits
  with its NUL. Both leave every byte outside the destination's \<open>n\<close> bytes alone.
\<close>

theorem strncpy_safestrcpy_spec:
  assumes "unat s + Suc n \<le> 2 ^ 64" "\<forall>i\<le>n. \<forall>j\<le>n. s + of_nat i \<noteq> t + of_nat j"
  shows "read_bytes (strncpy s t (Suc n) m) s (Suc n) = cstr (read_bytes m t (Suc n)) @
      replicate (Suc n - length (cstr (read_bytes m t (Suc n)))) 0 \<and>
    strlen s (safestrcpy s t (Suc n) m) = Some (length (cstr (read_bytes m t n))) \<and>
    read_bytes (safestrcpy s t (Suc n) m) s (length (cstr (read_bytes m t n))) = cstr (read_bytes m t n) \<and>
    (\<forall>x. (\<forall>i\<le>n. x \<noteq> s + of_nat i) \<longrightarrow> strncpy s t (Suc n) m x = m x \<and> safestrcpy s t (Suc n) m x = m x)"
proof -
  let ?N = "cstr (read_bytes m t (Suc n)) @ replicate (Suc n - length (cstr (read_bytes m t (Suc n)))) 0"
  let ?c = "cstr (read_bytes m t n)" and ?w = "copied (read_bytes m t n) @ [0]"
  have N: "length ?N = Suc n" using cstr_length [of "read_bytes m t (Suc n)"] by simp
  have w: "length ?c < length ?w" "length ?w \<le> Suc n"
    using copied_length [of "read_bytes m t n"] by (auto simp: copied_def)
  have a: "strncpy s t (Suc n) m = write_bytes s ?N m"
    by (rule strncpy_eq) (use assms in auto)
  have b: "safestrcpy s t (Suc n) m = write_bytes s ?w m"
    by (rule safestrcpy_eq) (use assms in auto)
  have at: "safestrcpy s t (Suc n) m (s + of_nat i) = (if i < length ?c then ?c ! i else 0)"
    if "i \<le> length ?c" for i
    using write_bytes_at [of s ?w i m] copied_nul [OF that] that w assms(1) unfolding b by simp
  have "strlen s (safestrcpy s t (Suc n) m) = Some (length ?c)"
    by (rule strlen_eq) (use at cstr_nonzero in auto)
  moreover have "read_bytes (safestrcpy s t (Suc n) m) s (length ?c) = ?c"
    by (rule nth_equalityI) (use at in auto)
  moreover have "read_bytes (strncpy s t (Suc n) m) s (Suc n) = ?N"
    using read_write_bytes [of s ?N m] N assms(1) unfolding a by simp
  moreover have "strncpy s t (Suc n) m x = m x \<and> safestrcpy s t (Suc n) m x = m x"
    if "\<forall>i\<le>n. x \<noteq> s + of_nat i" for x
    using write_bytes_out [of s ?N x m] write_bytes_out [of s ?w x m] that N w assms(1) unfolding a b by simp
  ultimately show ?thesis by blast
qed

theorem strncpy_safestrcpy_spec_witness:
  "\<forall>m. strlen 200 (safestrcpy 200 100 16 (m(100 := 104, 101 := 105, 102 := 0))) = Some 2"
proof
  fix m :: memory
  let ?m = "m(100 := 104, 101 := 105, 102 := 0)"
  have "\<forall>i\<le>15. \<forall>j\<le>15. (200 :: u64) + of_nat i \<noteq> 100 + of_nat j"
  proof (intro allI impI)
    fix i j :: nat assume "i \<le> 15" "j \<le> 15"
    then show "(200 :: u64) + of_nat i \<noteq> 100 + of_nat j"
      using range_off [of 200 16 i] range_off [of 100 16 j] by (auto simp: word_unat_eq_iff)
  qed
  then have "strlen 200 (safestrcpy 200 100 (Suc 15) ?m) = Some (length (cstr (read_bytes ?m 100 15)))"
    using strncpy_safestrcpy_spec [of 200 15 100 ?m] by simp
  moreover have "read_bytes ?m 100 15 = 104 # 105 # 0 # read_bytes ?m 103 12"
    using read_bytes_Suc [of ?m 100 14] read_bytes_Suc [of ?m 101 13] read_bytes_Suc [of ?m 102 12] by simp
  ultimately show "strlen 200 (safestrcpy 200 100 16 ?m) = Some 2" by simp
qed

end
