(* ===== verification/Fs.thy ===== *)
theory Fs
  imports Log Cstring
begin

text \<open>
  The file system, \<^verbatim>\<open>kernel/fs.c\<close>: block allocator, inode table, inode contents, directories and
  path names, on top of the log. In-memory inodes are indices into the inode table; a null
  pointer is \<open>None\<close>. As in the layers below, one process runs at a time: a sleep lock that is
  already held is a call that does not return. The copies between the kernel and a process
  (\<open>either_copyout\<close>, \<open>either_copyin\<close>) are arguments that act on a memory of type \<open>'m\<close>.
\<close>

section \<open>Data\<close>

definition ROOTINO :: u32 where "ROOTINO = 1"
definition ROOTDEV :: u32 where "ROOTDEV = 1"
definition NINODE :: nat where "NINODE = 50"
definition FSMAGIC :: u32 where "FSMAGIC = 0x10203040"
definition NDIRECT :: nat where "NDIRECT = 12"
definition NINDIRECT :: nat where "NINDIRECT = BSIZE div 4"
definition MAXFILE :: nat where "MAXFILE = NDIRECT + NINDIRECT"
definition DINODE_SIZE :: nat where "DINODE_SIZE = 64"
definition IPB :: nat where "IPB = BSIZE div DINODE_SIZE"
definition BPB :: nat where "BPB = BSIZE * 8"
definition DIRSIZ :: nat where "DIRSIZ = 14"
definition DIRENT_SIZE :: nat where "DIRENT_SIZE = 16"
definition T_DIR :: u16 where "T_DIR = 1"
definition T_FILE :: u16 where "T_FILE = 2"
definition T_DEVICE :: u16 where "T_DEVICE = 3"

declare NINODE_def [kconst] NDIRECT_def [kconst] NINDIRECT_def [kconst] MAXFILE_def [kconst] DINODE_SIZE_def [kconst]
  IPB_def [kconst] BPB_def [kconst] DIRSIZ_def [kconst] DIRENT_SIZE_def [kconst]

record superblock =
  s_magic :: u32
  s_size :: u32
  s_nblocks :: u32
  s_ninodes :: u32
  s_nlog :: u32
  s_logstart :: u32
  s_inodestart :: u32
  s_bmapstart :: u32

record inode =
  i_dev :: u32
  i_inum :: u32
  i_ref :: int
  i_holder :: "int option"
  i_valid :: bool
  i_type :: u16
  i_major :: u16
  i_minor :: u16
  i_nlink :: u16
  i_size :: u32
  i_addrs :: "u32 list"

record stat =
  st_dev :: u32
  st_ino :: u32
  st_type :: u16
  st_nlink :: u16
  st_size :: u64

record fsys =
  fio :: fsio
  sb :: superblock
  itable :: "inode list"

text \<open>\<open>struct dinode\<close> at a byte offset of a block.\<close>

definition read_dinode :: "byte list \<Rightarrow> nat \<Rightarrow> inode \<Rightarrow> inode" where
  "read_dinode bs o1 ip = ip\<lparr>i_type := get16 bs o1, i_major := get16 bs (o1 + 2), i_minor := get16 bs (o1 + 4),
     i_nlink := get16 bs (o1 + 6), i_size := get32 bs (o1 + 8),
     i_addrs := map (\<lambda>k. get32 bs (o1 + 12 + 4 * k)) [0..<NDIRECT + 1]\<rparr>"

definition write_dinode :: "inode \<Rightarrow> nat \<Rightarrow> byte list \<Rightarrow> byte list" where
  "write_dinode ip o1 bs =
     fold (\<lambda>k bs. put32 (o1 + 12 + 4 * k) (i_addrs ip ! k) bs) [0..<NDIRECT + 1]
       (put32 (o1 + 8) (i_size ip) (put16 (o1 + 6) (i_nlink ip) (put16 (o1 + 4) (i_minor ip)
         (put16 (o1 + 2) (i_major ip) (put16 o1 (i_type ip) bs)))))"

definition IBLOCK :: "u32 \<Rightarrow> superblock \<Rightarrow> u32" where
  "IBLOCK i s = i div of_nat IPB + s_inodestart s"

definition BBLOCK :: "u32 \<Rightarrow> superblock \<Rightarrow> u32" where
  "BBLOCK b s = b div of_nat BPB + s_bmapstart s"

definition inode_off :: "u32 \<Rightarrow> nat" where
  "inode_off inum = unat (inum mod of_nat IPB) * DINODE_SIZE"

section \<open>The cache and the log from the file system\<close>

definition with_bc :: "bio \<Rightarrow> fsys \<Rightarrow> fsys" where
  "with_bc b st = st\<lparr>fio := (fio st)\<lparr>bc := b\<rparr>\<rparr>"

definition fs_bread :: "u32 \<Rightarrow> u32 \<Rightarrow> fsys \<Rightarrow> (nat \<times> fsys) result" where
  "fs_bread dev b st = bindR (bread dev b (bc (fio st))) (\<lambda>(bp, b1). Ok (bp, with_bc b1 st))"

definition fs_brelse :: "nat \<Rightarrow> fsys \<Rightarrow> fsys result" where
  "fs_brelse bp st = bindR (brelse bp (bc (fio st))) (\<lambda>b1. Ok (with_bc b1 st))"

definition fs_log_write :: "nat \<Rightarrow> fsys \<Rightarrow> fsys result" where
  "fs_log_write bp st = bindR (log_write bp (fio st)) (\<lambda>s1. Ok (st\<lparr>fio := s1\<rparr>))"

definition fs_data :: "nat \<Rightarrow> fsys \<Rightarrow> byte list" where
  "fs_data bp st = bdata bp (bc (fio st))"

definition fs_bset :: "nat \<Rightarrow> byte list \<Rightarrow> fsys \<Rightarrow> fsys" where
  "fs_bset bp bs st = with_bc (bset bp bs (bc (fio st))) st"

definition upd_inode :: "nat \<Rightarrow> (inode \<Rightarrow> inode) \<Rightarrow> fsys \<Rightarrow> fsys" where
  "upd_inode ip f st = st\<lparr>itable := (itable st)[ip := f (itable st ! ip)]\<rparr>"

section \<open>Super block and block allocator\<close>

definition readsb :: "u32 \<Rightarrow> fsys \<Rightarrow> fsys result" where
  "readsb dev st =
     bindR (fs_bread dev 1 st) (\<lambda>(bp, st1).
     let d = fs_data bp st1 in
     fs_brelse bp (st1\<lparr>sb := \<lparr>s_magic = get32 d 0, s_size = get32 d 4, s_nblocks = get32 d 8, s_ninodes = get32 d 12,
       s_nlog = get32 d 16, s_logstart = get32 d 20, s_inodestart = get32 d 24, s_bmapstart = get32 d 28\<rparr>\<rparr>))"

definition bzero :: "u32 \<Rightarrow> u32 \<Rightarrow> fsys \<Rightarrow> fsys result" where
  "bzero dev bno st =
     bindR (fs_bread dev bno st) (\<lambda>(bp, st1).
     bindR (fs_log_write bp (fs_bset bp (replicate BSIZE 0) st1)) (\<lambda>st2.
     fs_brelse bp st2))"

definition bit_mask :: "nat \<Rightarrow> byte" where
  "bit_mask bi = push_bit (bi mod 8) 1"

definition bit_set :: "nat \<Rightarrow> byte list \<Rightarrow> bool" where
  "bit_set bi bs = (bs ! (bi div 8) AND bit_mask bi \<noteq> 0)"

text \<open>The scan of one bitmap block after another; \<open>b\<close> is the number of the block's first bit.\<close>

fun balloc_from :: "u32 \<Rightarrow> nat list \<Rightarrow> fsys \<Rightarrow> (u32 \<times> fsys) result" where
  "balloc_from dev [] st = Ok (0, st)"
| "balloc_from dev (b # rest) st =
     bindR (fs_bread dev (BBLOCK (of_nat b) (sb st)) st) (\<lambda>(bp, st1).
     case find (\<lambda>bi. \<not> bit_set bi (fs_data bp st1)) [0..<min BPB (unat (s_size (sb st1)) - b)] of
       Some bi \<Rightarrow>
         let d = fs_data bp st1 in
         bindR (fs_log_write bp (fs_bset bp (d[bi div 8 := d ! (bi div 8) OR bit_mask bi]) st1)) (\<lambda>st2.
         bindR (fs_brelse bp st2) (\<lambda>st3.
         bindR (bzero dev (of_nat (b + bi)) st3) (\<lambda>st4.
         Ok (of_nat (b + bi), st4))))
     | None \<Rightarrow> bindR (fs_brelse bp st1) (balloc_from dev rest))"

definition balloc :: "u32 \<Rightarrow> fsys \<Rightarrow> (u32 \<times> fsys) result" where
  "balloc dev st = balloc_from dev (map (\<lambda>k. k * BPB) [0..<(unat (s_size (sb st)) + BPB - 1) div BPB]) st"

definition bfree :: "u32 \<Rightarrow> u32 \<Rightarrow> fsys \<Rightarrow> fsys result" where
  "bfree dev b st =
     bindR (fs_bread dev (BBLOCK b (sb st)) st) (\<lambda>(bp, st1).
     let bi = unat b mod BPB; d = fs_data bp st1 in
     if \<not> bit_set bi d then Panic ''freeing free block''
     else bindR (fs_log_write bp (fs_bset bp (d[bi div 8 := d ! (bi div 8) AND NOT (bit_mask bi)]) st1)) (\<lambda>st2.
       fs_brelse bp st2))"

section \<open>Inodes\<close>

definition blank_inode :: inode where
  "blank_inode = \<lparr>i_dev = 0, i_inum = 0, i_ref = 0, i_holder = None, i_valid = False, i_type = 0, i_major = 0,
     i_minor = 0, i_nlink = 0, i_size = 0, i_addrs = replicate (NDIRECT + 1) 0\<rparr>"

definition iinit :: "fsys \<Rightarrow> fsys" where
  "iinit st = st\<lparr>itable := map (\<lambda>ip. ip\<lparr>i_holder := None\<rparr>) (itable st)\<rparr>"

definition iget :: "u32 \<Rightarrow> u32 \<Rightarrow> fsys \<Rightarrow> (nat \<times> fsys) result" where
  "iget dev inum st =
     (case find_index (\<lambda>ip. 0 < i_ref ip \<and> i_dev ip = dev \<and> i_inum ip = inum) (itable st) of
        Some k \<Rightarrow> Ok (k, upd_inode k (\<lambda>ip. ip\<lparr>i_ref := i_ref ip + 1\<rparr>) st)
      | None \<Rightarrow>
          (case find_index (\<lambda>ip. i_ref ip = 0) (itable st) of
             None \<Rightarrow> Panic ''iget: no inodes''
           | Some k \<Rightarrow> Ok (k, upd_inode k (\<lambda>ip. ip\<lparr>i_dev := dev, i_inum := inum, i_ref := 1, i_valid := False\<rparr>) st)))"

fun ialloc_from :: "u32 \<Rightarrow> u16 \<Rightarrow> nat list \<Rightarrow> fsys \<Rightarrow> (nat option \<times> fsys) result" where
  "ialloc_from dev ty [] st = Ok (None, st)"
| "ialloc_from dev ty (inum # rest) st =
     bindR (fs_bread dev (IBLOCK (of_nat inum) (sb st)) st) (\<lambda>(bp, st1).
     let o1 = inode_off (of_nat inum); d = fs_data bp st1 in
     if get16 d o1 = 0
     then bindR (fs_log_write bp (fs_bset bp (put16 o1 ty (patch o1 (replicate DINODE_SIZE 0) d)) st1)) (\<lambda>st2.
          bindR (fs_brelse bp st2) (\<lambda>st3.
          bindR (iget dev (of_nat inum) st3) (\<lambda>(k, st4). Ok (Some k, st4))))
     else bindR (fs_brelse bp st1) (ialloc_from dev ty rest))"

definition ialloc :: "u32 \<Rightarrow> u16 \<Rightarrow> fsys \<Rightarrow> (nat option \<times> fsys) result" where
  "ialloc dev ty st = ialloc_from dev ty [1..<unat (s_ninodes (sb st))] st"

definition iupdate :: "nat \<Rightarrow> fsys \<Rightarrow> fsys result" where
  "iupdate ip st =
     (let i = itable st ! ip in
      bindR (fs_bread (i_dev i) (IBLOCK (i_inum i) (sb st)) st) (\<lambda>(bp, st1).
      bindR (fs_log_write bp (fs_bset bp (write_dinode i (inode_off (i_inum i)) (fs_data bp st1)) st1)) (\<lambda>st2.
      fs_brelse bp st2)))"

definition idup :: "nat \<Rightarrow> fsys \<Rightarrow> nat \<times> fsys" where
  "idup ip st = (ip, upd_inode ip (\<lambda>i. i\<lparr>i_ref := i_ref i + 1\<rparr>) st)"

definition fs_pid :: "fsys \<Rightarrow> int" where
  "fs_pid st = cur_pid (bc (fio st))"

definition iacquire :: "nat \<Rightarrow> fsys \<Rightarrow> fsys result" where
  "iacquire ip st =
     (if i_holder (itable st ! ip) \<noteq> None then Panic ''sleep''
      else Ok (upd_inode ip (\<lambda>i. i\<lparr>i_holder := Some (fs_pid st)\<rparr>) st))"

definition ilock :: "nat option \<Rightarrow> fsys \<Rightarrow> fsys result" where
  "ilock p st =
     (case p of None \<Rightarrow> Panic ''ilock''
      | Some ip \<Rightarrow>
          if i_ref (itable st ! ip) < 1 then Panic ''ilock''
          else bindR (iacquire ip st) (\<lambda>st1.
            if i_valid (itable st1 ! ip) then Ok st1
            else let i = itable st1 ! ip in
              bindR (fs_bread (i_dev i) (IBLOCK (i_inum i) (sb st1)) st1) (\<lambda>(bp, st2).
              let d = fs_data bp st2; st3 = upd_inode ip (read_dinode d (inode_off (i_inum i))) st2 in
              bindR (fs_brelse bp st3) (\<lambda>st4.
              let st5 = upd_inode ip (\<lambda>i. i\<lparr>i_valid := True\<rparr>) st4 in
              if i_type (itable st5 ! ip) = 0 then Panic ''ilock: no type'' else Ok st5))))"

definition iunlock :: "nat option \<Rightarrow> fsys \<Rightarrow> fsys result" where
  "iunlock p st =
     (case p of None \<Rightarrow> Panic ''iunlock''
      | Some ip \<Rightarrow>
          if i_holder (itable st ! ip) \<noteq> Some (fs_pid st) \<or> i_ref (itable st ! ip) < 1 then Panic ''iunlock''
          else Ok (upd_inode ip (\<lambda>i. i\<lparr>i_holder := None\<rparr>) st))"

section \<open>Inode contents\<close>

definition bmap :: "nat \<Rightarrow> u32 \<Rightarrow> fsys \<Rightarrow> (u32 \<times> fsys) result" where
  "bmap ip bn st =
     (let i = itable st ! ip in
      if unat bn < NDIRECT then
        let addr = i_addrs i ! unat bn in
        if addr = 0 then
          bindR (balloc (i_dev i) st) (\<lambda>(addr, st1).
          if addr = 0 then Ok (0, st1)
          else Ok (addr, upd_inode ip (\<lambda>i. i\<lparr>i_addrs := (i_addrs i)[unat bn := addr]\<rparr>) st1))
        else Ok (addr, st)
      else let bn = unat bn - NDIRECT in
      if bn < NINDIRECT then
        bindR (let addr = i_addrs i ! NDIRECT in
               if addr = 0 then
                 bindR (balloc (i_dev i) st) (\<lambda>(addr, st1).
                 if addr = 0 then Ok (0, st1)
                 else Ok (addr, upd_inode ip (\<lambda>i. i\<lparr>i_addrs := (i_addrs i)[NDIRECT := addr]\<rparr>) st1))
               else Ok (addr, st)) (\<lambda>(addr, st1).
        if addr = 0 then Ok (0, st1)
        else bindR (fs_bread (i_dev i) addr st1) (\<lambda>(bp, st2).
          let addr = get32 (fs_data bp st2) (4 * bn) in
          bindR (if addr = 0 then
                   bindR (balloc (i_dev i) st2) (\<lambda>(addr, st3).
                   if addr \<noteq> 0
                   then bindR (fs_log_write bp (fs_bset bp (put32 (4 * bn) addr (fs_data bp st3)) st3)) (\<lambda>st4. Ok (addr, st4))
                   else Ok (addr, st3))
                 else Ok (addr, st2)) (\<lambda>(addr, st5).
          bindR (fs_brelse bp st5) (\<lambda>st6. Ok (addr, st6)))))
      else Panic ''bmap: out of range'')"

definition itrunc_direct :: "nat \<Rightarrow> nat \<Rightarrow> fsys \<Rightarrow> fsys result" where
  "itrunc_direct ip k st =
     (let i = itable st ! ip in
      if i_addrs i ! k \<noteq> 0
      then bindR (bfree (i_dev i) (i_addrs i ! k) st) (\<lambda>st1.
        Ok (upd_inode ip (\<lambda>i. i\<lparr>i_addrs := (i_addrs i)[k := 0]\<rparr>) st1))
      else Ok st)"

definition itrunc_indirect :: "u32 \<Rightarrow> nat \<Rightarrow> nat \<Rightarrow> fsys \<Rightarrow> fsys result" where
  "itrunc_indirect dev bp j st =
     (let a = get32 (fs_data bp st) (4 * j) in if a \<noteq> 0 then bfree dev a st else Ok st)"

definition itrunc :: "nat \<Rightarrow> fsys \<Rightarrow> fsys result" where
  "itrunc ip st =
     bindR (forR (itrunc_direct ip) [0..<NDIRECT] st) (\<lambda>st1.
     bindR (let i = itable st1 ! ip in
            if i_addrs i ! NDIRECT \<noteq> 0 then
              bindR (fs_bread (i_dev i) (i_addrs i ! NDIRECT) st1) (\<lambda>(bp, st2).
              bindR (forR (itrunc_indirect (i_dev i) bp) [0..<NINDIRECT] st2) (\<lambda>st3.
              bindR (fs_brelse bp st3) (\<lambda>st4.
              bindR (bfree (i_dev i) (i_addrs i ! NDIRECT) st4) (\<lambda>st5.
              Ok (upd_inode ip (\<lambda>i. i\<lparr>i_addrs := (i_addrs i)[NDIRECT := 0]\<rparr>) st5)))))
            else Ok st1) (\<lambda>st6.
     iupdate ip (upd_inode ip (\<lambda>i. i\<lparr>i_size := 0\<rparr>) st6)))"

definition iput :: "nat \<Rightarrow> fsys \<Rightarrow> fsys result" where
  "iput ip st =
     (let i = itable st ! ip in
      bindR (if i_ref i = 1 \<and> i_valid i \<and> i_nlink i = 0 then
               bindR (iacquire ip st) (\<lambda>st1.
               bindR (itrunc ip st1) (\<lambda>st2.
               bindR (iupdate ip (upd_inode ip (\<lambda>i. i\<lparr>i_type := 0\<rparr>) st2)) (\<lambda>st3.
               Ok (upd_inode ip (\<lambda>i. i\<lparr>i_valid := False, i_holder := None\<rparr>) st3))))
             else Ok st) (\<lambda>st4.
      Ok (upd_inode ip (\<lambda>i. i\<lparr>i_ref := i_ref i - 1\<rparr>) st4)))"

definition iunlockput :: "nat \<Rightarrow> fsys \<Rightarrow> fsys result" where
  "iunlockput ip st = bindR (iunlock (Some ip) st) (iput ip)"

definition fs_begin_op :: "fsys \<Rightarrow> fsys result" where
  "fs_begin_op st = (case begin_op (lg (fio st)) of None \<Rightarrow> Panic ''sleep'' | Some l \<Rightarrow> Ok (st\<lparr>fio := (fio st)\<lparr>lg := l\<rparr>\<rparr>))"

definition fs_end_op :: "fsys \<Rightarrow> fsys result" where
  "fs_end_op st = bindR (end_op (fio st)) (\<lambda>s1. Ok (st\<lparr>fio := s1\<rparr>))"

definition ireclaim_one :: "u32 \<Rightarrow> nat \<Rightarrow> fsys \<Rightarrow> fsys result" where
  "ireclaim_one dev inum st =
     bindR (fs_bread dev (IBLOCK (of_nat inum) (sb st)) st) (\<lambda>(bp, st1).
     let o1 = inode_off (of_nat inum); d = fs_data bp st1 in
     bindR (if get16 d o1 \<noteq> 0 \<and> get16 d (o1 + 6) = 0
            then bindR (iget dev (of_nat inum) st1) (\<lambda>(k, st2). Ok (Some k, st2)) else Ok (None, st1)) (\<lambda>(ip, st2).
     bindR (fs_brelse bp st2) (\<lambda>st3.
     case ip of None \<Rightarrow> Ok st3
     | Some k \<Rightarrow>
         bindR (fs_begin_op st3) (\<lambda>st4.
         bindR (ilock (Some k) st4) (\<lambda>st5.
         bindR (iunlock (Some k) st5) (\<lambda>st6.
         bindR (iput k st6) fs_end_op))))))"

definition ireclaim :: "u32 \<Rightarrow> fsys \<Rightarrow> fsys result" where
  "ireclaim dev st = forR (ireclaim_one dev) [1..<unat (s_ninodes (sb st))] st"

definition fsinit :: "u32 \<Rightarrow> fsys \<Rightarrow> fsys result" where
  "fsinit dev st =
     bindR (readsb dev st) (\<lambda>st1.
     if s_magic (sb st1) \<noteq> FSMAGIC then Panic ''invalid file system''
     else bindR (initlog dev (s_logstart (sb st1)) (fio st1)) (\<lambda>s2.
       ireclaim dev (st1\<lparr>fio := s2\<rparr>)))"

definition stati :: "nat \<Rightarrow> fsys \<Rightarrow> stat" where
  "stati ip st = (let i = itable st ! ip in
     \<lparr>st_dev = i_dev i, st_ino = i_inum i, st_type = i_type i, st_nlink = i_nlink i, st_size = ucast (i_size i)\<rparr>)"

text \<open>
  The loops of \<open>readi\<close> and \<open>writei\<close>: \<open>tot\<close> bytes are done, the next one is at \<open>off\<close> in the file
  and at address \<open>a\<close> in memory. \<open>cout\<close> stores bytes at an address and says whether it could;
  \<open>cin\<close> fetches bytes, a shorter list when it fails on the way.
\<close>

type_synonym 'm cout = "u64 \<Rightarrow> byte list \<Rightarrow> 'm \<Rightarrow> (bool \<times> 'm) result"
type_synonym 'm cin = "u64 \<Rightarrow> nat \<Rightarrow> 'm \<Rightarrow> (bool \<times> byte list \<times> 'm) result"

definition chunk_len :: "u32 \<Rightarrow> u32 \<Rightarrow> u32 \<Rightarrow> u32" where
  "chunk_len n tot off = min (n - tot) (of_nat BSIZE - off mod of_nat BSIZE)"

lemma chunk_len_pos:
  assumes "tot < n"
  shows "0 < chunk_len n tot off" "chunk_len n tot off \<le> n - tot" "n - (tot + chunk_len n tot off) < n - tot"
proof -
  have B: "off mod of_nat BSIZE < (of_nat BSIZE :: u32)"
    by (rule word_mod_less_divisor) (simp add: kconst)
  show le: "chunk_len n tot off \<le> n - tot" by (simp add: chunk_len_def)
  have "0 < n - tot" using assms by (simp add: word_gt_0)
  moreover have "0 < of_nat BSIZE - off mod (of_nat BSIZE :: u32)" using B by (simp add: word_gt_0)
  ultimately show p: "0 < chunk_len n tot off" by (simp add: chunk_len_def)
  have e: "n - (tot + chunk_len n tot off) = (n - tot) - chunk_len n tot off" by simp
  have "unat ((n - tot) - chunk_len n tot off) < unat (n - tot)"
    using p unat_sub [OF le] le by (simp add: word_less_nat_alt word_le_nat_alt)
  then show "n - (tot + chunk_len n tot off) < n - tot" unfolding e word_less_nat_alt .
qed

function readi_loop :: "'m cout \<Rightarrow> nat \<Rightarrow> u64 \<Rightarrow> u32 \<Rightarrow> u32 \<Rightarrow> u32 \<Rightarrow> 'm \<Rightarrow> fsys \<Rightarrow> (int \<times> 'm \<times> fsys) result" where
  "readi_loop cout ip dst off n tot um st =
     (if \<not> tot < n then Ok (sint tot, um, st)
      else bindR (bmap ip (off div of_nat BSIZE) st) (\<lambda>(addr, st1).
        if addr = 0 then Ok (sint tot, um, st1)
        else bindR (fs_bread (i_dev (itable st1 ! ip)) addr st1) (\<lambda>(bp, st2).
          let m = chunk_len n tot off in
          bindR (cout dst (slice (unat (off mod of_nat BSIZE)) (unat m) (fs_data bp st2)) um) (\<lambda>(ok, um1).
          bindR (fs_brelse bp st2) (\<lambda>st3.
          if \<not> ok then Ok (-1, um1, st3)
          else readi_loop cout ip (dst + ucast m) (off + m) n (tot + m) um1 st3)))))"
  by pat_completeness auto

termination
  by (relation "measure (\<lambda>(cout, ip, dst, off, n, tot, um, st). unat (n - tot))")
    (use chunk_len_pos(3) in \<open>auto simp: word_less_nat_alt\<close>)

declare readi_loop.simps [simp del]

definition readi :: "'m cout \<Rightarrow> nat \<Rightarrow> u64 \<Rightarrow> u32 \<Rightarrow> u32 \<Rightarrow> 'm \<Rightarrow> fsys \<Rightarrow> (int \<times> 'm \<times> fsys) result" where
  "readi cout ip dst off n um st =
     (let sz = i_size (itable st ! ip) in
      if sz < off \<or> off + n < off then Ok (0, um, st)
      else readi_loop cout ip dst off (if sz < off + n then sz - off else n) 0 um st)"

text \<open>The loop of \<open>writei\<close> returns the final \<open>tot\<close> and \<open>off\<close>.\<close>

function writei_loop :: "'m cin \<Rightarrow> nat \<Rightarrow> u64 \<Rightarrow> u32 \<Rightarrow> u32 \<Rightarrow> u32 \<Rightarrow> 'm \<Rightarrow> fsys \<Rightarrow> (u32 \<times> u32 \<times> 'm \<times> fsys) result" where
  "writei_loop cin ip src off n tot um st =
     (if \<not> tot < n then Ok (tot, off, um, st)
      else bindR (bmap ip (off div of_nat BSIZE) st) (\<lambda>(addr, st1).
        if addr = 0 then Ok (tot, off, um, st1)
        else bindR (fs_bread (i_dev (itable st1 ! ip)) addr st1) (\<lambda>(bp, st2).
          let m = chunk_len n tot off in
          bindR (cin src (unat m) um) (\<lambda>(ok, bytes, um1).
          let st3 = fs_bset bp (patch (unat (off mod of_nat BSIZE)) bytes (fs_data bp st2)) st2 in
          if \<not> ok then bindR (fs_brelse bp st3) (\<lambda>st4. Ok (tot, off, um1, st4))
          else bindR (fs_log_write bp st3) (\<lambda>st4.
            bindR (fs_brelse bp st4) (\<lambda>st5.
            writei_loop cin ip (src + ucast m) (off + m) n (tot + m) um1 st5))))))"
  by pat_completeness auto

termination
  by (relation "measure (\<lambda>(cin, ip, src, off, n, tot, um, st). unat (n - tot))")
    (use chunk_len_pos(3) in \<open>auto simp: word_less_nat_alt\<close>)

declare writei_loop.simps [simp del]

definition writei :: "'m cin \<Rightarrow> nat \<Rightarrow> u64 \<Rightarrow> u32 \<Rightarrow> u32 \<Rightarrow> 'm \<Rightarrow> fsys \<Rightarrow> (int \<times> 'm \<times> fsys) result" where
  "writei cin ip src off n um st =
     (if i_size (itable st ! ip) < off \<or> off + n < off then Ok (-1, um, st)
      else if of_nat (MAXFILE * BSIZE) < off + n then Ok (-1, um, st)
      else bindR (writei_loop cin ip src off n 0 um st) (\<lambda>(tot, off1, um1, st1).
        bindR (iupdate ip (if i_size (itable st1 ! ip) < off1 then upd_inode ip (\<lambda>i. i\<lparr>i_size := off1\<rparr>) st1 else st1)) (\<lambda>st2.
        Ok (sint tot, um1, st2))))"

section \<open>Directories\<close>

text \<open>
  Names are byte lists. \<open>strncmp\<close> on two of them reads NULs beyond their ends. A directory entry
  is read into, and written from, a 16-byte kernel buffer.
\<close>

fun strncmp_list :: "byte list \<Rightarrow> byte list \<Rightarrow> nat \<Rightarrow> int" where
  "strncmp_list s t 0 = 0"
| "strncmp_list s t (Suc n) =
     (let p = (case s of [] \<Rightarrow> 0 | c # _ \<Rightarrow> c); q = (case t of [] \<Rightarrow> 0 | c # _ \<Rightarrow> c) in
      if p \<noteq> 0 \<and> p = q then strncmp_list (tl s) (tl t) n else uint p - uint q)"

definition namecmp :: "byte list \<Rightarrow> byte list \<Rightarrow> int" where
  "namecmp s t = strncmp_list s t DIRSIZ"

definition kcopyout :: "byte list cout" where
  "kcopyout dst bs um = Ok (True, patch (unat dst) bs um)"

definition kcopyin :: "byte list cin" where
  "kcopyin src n um = Ok (True, slice (unat src) n um, um)"

definition dirent_offs :: "u32 \<Rightarrow> u32 list" where
  "dirent_offs sz = map (\<lambda>k. of_nat (k * DIRENT_SIZE)) [0..<(unat sz + DIRENT_SIZE - 1) div DIRENT_SIZE]"

definition de_inum :: "byte list \<Rightarrow> u16" where "de_inum de = get16 de 0"
definition de_name :: "byte list \<Rightarrow> byte list" where "de_name de = slice 2 DIRSIZ de"

fun dirlookup_from :: "nat \<Rightarrow> byte list \<Rightarrow> u32 list \<Rightarrow> byte list \<Rightarrow> fsys \<Rightarrow> ((nat \<times> u32) option \<times> fsys) result" where
  "dirlookup_from dp name [] de st = Ok (None, st)"
| "dirlookup_from dp name (off # rest) de st =
     bindR (readi kcopyout dp 0 off (of_nat DIRENT_SIZE) de st) (\<lambda>(r, de1, st1).
     if r \<noteq> int DIRENT_SIZE then Panic ''dirlookup read''
     else if de_inum de1 = 0 then dirlookup_from dp name rest de1 st1
     else if namecmp name (de_name de1) = 0
     then bindR (iget (i_dev (itable st1 ! dp)) (ucast (de_inum de1)) st1) (\<lambda>(k, st2). Ok (Some (k, off), st2))
     else dirlookup_from dp name rest de1 st1)"

definition dirlookup :: "nat \<Rightarrow> byte list \<Rightarrow> fsys \<Rightarrow> ((nat \<times> u32) option \<times> fsys) result" where
  "dirlookup dp name st =
     (if i_type (itable st ! dp) \<noteq> T_DIR then Panic ''dirlookup not DIR''
      else dirlookup_from dp name (dirent_offs (i_size (itable st ! dp))) (replicate DIRENT_SIZE 0) st)"

text \<open>\<open>dirlink\<close>'s search for an unused entry ends at the end of the directory if there is none.\<close>

fun empty_from :: "nat \<Rightarrow> u32 list \<Rightarrow> u32 \<Rightarrow> byte list \<Rightarrow> fsys \<Rightarrow> (u32 \<times> byte list \<times> fsys) result" where
  "empty_from dp [] eof de st = Ok (eof, de, st)"
| "empty_from dp (off # rest) eof de st =
     bindR (readi kcopyout dp 0 off (of_nat DIRENT_SIZE) de st) (\<lambda>(r, de1, st1).
     if r \<noteq> int DIRENT_SIZE then Panic ''dirlink read''
     else if de_inum de1 = 0 then Ok (off, de1, st1)
     else empty_from dp rest eof de1 st1)"

definition strncpy_list :: "byte list \<Rightarrow> nat \<Rightarrow> byte list" where
  "strncpy_list s n = (let c = cstr (take n s) in c @ replicate (n - length c) 0)"

definition dirlink :: "nat \<Rightarrow> byte list \<Rightarrow> u32 \<Rightarrow> fsys \<Rightarrow> (int \<times> fsys) result" where
  "dirlink dp name inum st =
     bindR (dirlookup dp name st) (\<lambda>(r, st1).
     case r of
       Some (ip, _) \<Rightarrow> bindR (iput ip st1) (\<lambda>st2. Ok (-1, st2))
     | None \<Rightarrow>
         let offs = dirent_offs (i_size (itable st1 ! dp)) in
         bindR (empty_from dp offs (of_nat (length offs * DIRENT_SIZE)) (replicate DIRENT_SIZE 0) st1) (\<lambda>(off, de, st2).
         let de1 = put16 0 (ucast inum) (patch 2 (strncpy_list name DIRSIZ) de) in
         bindR (writei kcopyin dp 0 off (of_nat DIRENT_SIZE) de1 st2) (\<lambda>(r, _, st3).
         Ok (if r \<noteq> int DIRENT_SIZE then -1 else 0, st3))))"

section \<open>Path names\<close>

text \<open>
  A path is the bytes of a C string before its NUL. \<open>name\<close> is the caller's buffer of \<open>DIRSIZ\<close>
  bytes, which keeps its old contents after the copied element and its NUL.
\<close>

definition SLASH :: byte where "SLASH = 47"

definition skipelem :: "byte list \<Rightarrow> byte list \<Rightarrow> (byte list \<times> byte list) option" where
  "skipelem path name =
     (let p1 = dropWhile (\<lambda>c. c = SLASH) path in
      if p1 = [] then None
      else let s = takeWhile (\<lambda>c. c \<noteq> SLASH) p1; p2 = dropWhile (\<lambda>c. c \<noteq> SLASH) p1;
               name1 = (if DIRSIZ \<le> length s then patch 0 (take DIRSIZ s) name else patch 0 (s @ [0]) name)
           in Some (dropWhile (\<lambda>c. c = SLASH) p2, name1))"

lemma skipelem_shorter:
  assumes "skipelem path name = Some (rest, name1)"
  shows "length rest < length path"
proof -
  define p1 where "p1 = dropWhile (\<lambda>c. c = SLASH) path"
  have p1: "p1 \<noteq> []" "rest = dropWhile (\<lambda>c. c = SLASH) (dropWhile (\<lambda>c. c \<noteq> SLASH) p1)"
    using assms by (auto simp: skipelem_def p1_def Let_def split: if_splits)
  then have "hd p1 \<noteq> SLASH" using hd_dropWhile [of "\<lambda>c. c = SLASH" path] by (simp add: p1_def)
  then have "dropWhile (\<lambda>c. c \<noteq> SLASH) p1 = dropWhile (\<lambda>c. c \<noteq> SLASH) (tl p1)" using p1(1) by (cases p1) auto
  then have "length rest \<le> length (tl p1)" 
    using p1(2) length_dropWhile_le [of "\<lambda>c. c = SLASH" "dropWhile (\<lambda>c. c \<noteq> SLASH) (tl p1)"]
      length_dropWhile_le [of "\<lambda>c. c \<noteq> SLASH" "tl p1"] by simp
  also have "\<dots> < length p1" using p1(1) by (cases p1) auto
  also have "\<dots> \<le> length path" by (simp add: p1_def length_dropWhile_le)
  finally show ?thesis .
qed

function namex_loop :: "byte list \<Rightarrow> bool \<Rightarrow> byte list \<Rightarrow> nat \<Rightarrow> fsys \<Rightarrow> (nat option \<times> byte list \<times> fsys) result" where
  "namex_loop path parent name ip st =
     (case skipelem path name of
        None \<Rightarrow>
          if parent then bindR (iput ip st) (\<lambda>st1. Ok (None, name, st1)) else Ok (Some ip, name, st)
      | Some (rest, name1) \<Rightarrow>
          bindR (ilock (Some ip) st) (\<lambda>st1.
          if i_type (itable st1 ! ip) \<noteq> T_DIR
          then bindR (iunlockput ip st1) (\<lambda>st2. Ok (None, name1, st2))
          else if parent \<and> rest = [] then bindR (iunlock (Some ip) st1) (\<lambda>st2. Ok (Some ip, name1, st2))
          else bindR (dirlookup ip name1 st1) (\<lambda>(r, st2).
            case r of
              None \<Rightarrow> bindR (iunlockput ip st2) (\<lambda>st3. Ok (None, name1, st3))
            | Some (next, _) \<Rightarrow> bindR (iunlockput ip st2) (namex_loop rest parent name1 next))))"
  by pat_completeness auto

termination
  by (relation "measure (\<lambda>(path, parent, name, ip, st). length path)") (auto simp: skipelem_shorter)

declare namex_loop.simps [simp del]

definition namex :: "nat \<Rightarrow> byte list \<Rightarrow> bool \<Rightarrow> byte list \<Rightarrow> fsys \<Rightarrow> (nat option \<times> byte list \<times> fsys) result" where
  "namex cwd path parent name st =
     (if path \<noteq> [] \<and> hd path = SLASH
      then bindR (iget ROOTDEV ROOTINO st) (\<lambda>(ip, st1). namex_loop path parent name ip st1)
      else let (ip, st1) = idup cwd st in namex_loop path parent name ip st1)"

definition namei :: "nat \<Rightarrow> byte list \<Rightarrow> fsys \<Rightarrow> (nat option \<times> fsys) result" where
  "namei cwd path st = bindR (namex cwd path False (replicate DIRSIZ 0) st) (\<lambda>(ip, _, st1). Ok (ip, st1))"

definition nameiparent :: "nat \<Rightarrow> byte list \<Rightarrow> byte list \<Rightarrow> fsys \<Rightarrow> (nat option \<times> byte list \<times> fsys) result" where
  "nameiparent cwd path name st = namex cwd path True name st"

end
