(* ===== verification/FsNames.thy ===== *)
theory FsNames
  imports Fs
begin

text \<open>
  Facts about \<^verbatim>\<open>fs.c\<close> that need no disk: path names against a reference definition of their
  elements, name comparison, and the reference counts of the in-memory inode table.
\<close>

section \<open>Path elements\<close>

fun split_slash :: "byte list \<Rightarrow> byte list list" where
  "split_slash [] = [[]]"
| "split_slash (c # cs) =
     (if c = SLASH then [] # split_slash cs
      else (case split_slash cs of [] \<Rightarrow> [[c]] | w # ws \<Rightarrow> (c # w) # ws))"

definition elems :: "byte list \<Rightarrow> byte list list" where
  "elems path = filter (\<lambda>w. w \<noteq> []) (split_slash path)"

lemma elems_slash: "elems (dropWhile (\<lambda>c. c = SLASH) path) = elems path"
  by (induction path) (auto simp: elems_def)

lemma split_slash_nonempty: "split_slash cs \<noteq> []"
  by (induction cs) (auto split: list.splits)

lemma split_slash_word:
  "split_slash p = takeWhile (\<lambda>c. c \<noteq> SLASH) p #
     (case dropWhile (\<lambda>c. c \<noteq> SLASH) p of [] \<Rightarrow> [] | _ # q \<Rightarrow> split_slash q)"
  by (induction p) (auto split: list.splits)

lemma elems_word:
  assumes "p \<noteq> []" "hd p \<noteq> SLASH"
  shows "elems p = takeWhile (\<lambda>c. c \<noteq> SLASH) p # elems (dropWhile (\<lambda>c. c \<noteq> SLASH) p)"
proof -
  have w: "takeWhile (\<lambda>c. c \<noteq> SLASH) p \<noteq> []" using assms by (cases p) auto
  show ?thesis
  proof (cases "dropWhile (\<lambda>c. c \<noteq> SLASH) p")
    case Nil
    have "split_slash p = [takeWhile (\<lambda>c. c \<noteq> SLASH) p]" using split_slash_word [of p] unfolding Nil by simp
    then show ?thesis using w unfolding Nil by (simp add: elems_def)
  next
    case (Cons c q)
    then have "c = SLASH" using hd_dropWhile [of "\<lambda>c. c \<noteq> SLASH" p] by simp
    then show ?thesis using split_slash_word [of p] w Cons by (simp add: elems_def)
  qed
qed

lemma cstr_no_nul: "0 \<notin> set s \<Longrightarrow> cstr s = s"
  by (induction s) auto

lemma cstr_nul: "0 \<notin> set s \<Longrightarrow> cstr (s @ 0 # t) = s"
  by (induction s) auto

text \<open>The buffer that \<open>skipelem\<close> leaves: the element, cut to \<open>DIRSIZ\<close> bytes, as a C string.\<close>

lemma name_buffer:
  assumes "length name = DIRSIZ" "0 \<notin> set s"
  defines "name1 \<equiv> (if DIRSIZ \<le> length s then patch 0 (take DIRSIZ s) name else patch 0 (s @ [0]) name)"
  shows "length name1 = DIRSIZ" "cstr name1 = take DIRSIZ s"
proof -
  have z: "0 \<notin> set (take DIRSIZ s)" using assms(2) by (auto dest: in_set_takeD)
  show "length name1 = DIRSIZ" using assms(1) by (auto simp: name1_def)
  show "cstr name1 = take DIRSIZ s"
    using assms(1,2) z cstr_no_nul [of "take DIRSIZ s"] cstr_nul [of s]
    by (auto simp: name1_def patch_def min_def)
qed

text \<open>
  C32. \<open>skipelem\<close> peels the first element off a path: against the reference that splits at slashes
  and drops empty words, it fails exactly on a path without elements, otherwise the name buffer
  holds the first element, cut to \<open>DIRSIZ\<close> bytes, and the rest has the remaining elements and no
  leading slash, so that it is the empty string exactly when the element was the last.
\<close>

theorem skipelem_splits:
  assumes "length name = DIRSIZ" "0 \<notin> set path"
  shows "case elems path of
      [] \<Rightarrow> skipelem path name = None
    | e # es \<Rightarrow> \<exists>rest name1. skipelem path name = Some (rest, name1) \<and> elems rest = es \<and>
        (rest = [] \<longleftrightarrow> es = []) \<and> length rest < length path \<and> length name1 = DIRSIZ \<and> cstr name1 = take DIRSIZ e"
proof -
  define p1 where "p1 = dropWhile (\<lambda>c. c = SLASH) path"
  have e: "elems path = elems p1" using elems_slash by (simp add: p1_def)
  show ?thesis
  proof (cases "p1 = []")
    case True
    then have "elems path = []" using e by (simp add: elems_def)
    then show ?thesis using True by (simp add: skipelem_def p1_def)
  next
    case False
    then have hd: "hd p1 \<noteq> SLASH" using hd_dropWhile [of "\<lambda>c. c = SLASH" path] by (simp add: p1_def)
    define s where "s = takeWhile (\<lambda>c. c \<noteq> SLASH) p1"
    define rest where "rest = dropWhile (\<lambda>c. c = SLASH) (dropWhile (\<lambda>c. c \<noteq> SLASH) p1)"
    define name1 where "name1 = (if DIRSIZ \<le> length s then patch 0 (take DIRSIZ s) name else patch 0 (s @ [0]) name)"
    have run: "skipelem path name = Some (rest, name1)"
      using False by (simp add: skipelem_def p1_def s_def rest_def name1_def Let_def)
    have el: "elems path = s # elems rest" using e elems_word [OF False hd] elems_slash by (simp add: s_def rest_def)
    have "0 \<notin> set s" using assms(2) unfolding s_def p1_def by (meson set_dropWhileD set_takeWhileD)
    note nb = name_buffer [OF assms(1) this, folded name1_def]
    have "rest = [] \<longleftrightarrow> elems rest = []"
    proof
      assume "elems rest = []"
      moreover have "hd rest \<noteq> SLASH" if "rest \<noteq> []"
        using hd_dropWhile [of "\<lambda>c. c = SLASH" "dropWhile (\<lambda>c. c \<noteq> SLASH) p1"] that unfolding rest_def by blast
      ultimately show "rest = []" using elems_word [of rest] by fastforce
    qed (simp add: elems_def)
    then show ?thesis using el run nb skipelem_shorter [OF run] by simp
  qed
qed

theorem skipelem_splits_witness:
  "elems [47, 47, 97, 47, 98, 98] = [[97], [98, 98]] \<and>
   (\<exists>rest name1. skipelem [47, 47, 97, 47, 98, 98] (replicate DIRSIZ 9) = Some (rest, name1) \<and> elems rest = [[98, 98]] \<and> cstr name1 = [97])"
proof -
  have e: "elems [47, 47, 97, 47, 98, 98] = [[97], [98, 98]]" by (simp add: elems_def SLASH_def)
  have h: "length (replicate DIRSIZ (9::byte)) = DIRSIZ" "0 \<notin> set [47, 47, 97, 47, 98, 98 :: byte]" by simp_all
  from skipelem_splits [OF h, unfolded e list.case] show ?thesis unfolding e by (auto simp: DIRSIZ_def)
qed

section \<open>Comparing names\<close>

text \<open>The list version of \<open>strncmp\<close> is the one of \<^verbatim>\<open>string.c\<close> on the bytes in memory.\<close>

lemma strncmp_list_mem: "strncmp p q n m = strncmp_list (read_bytes m p n) (read_bytes m q n) n"
proof (induction n arbitrary: p q)
  case (Suc n)
  then show ?case by (simp add: read_bytes_Suc Let_def)
qed simp

lemma strncmp_list_eq: "(strncmp_list s t n = 0) = (cstr (take n s) = cstr (take n t))"
proof (induction n arbitrary: s t)
  case (Suc n)
  have u: "(uint a = uint b) = (a = b)" "(uint a = 0) = (a = 0)" for a b :: byte
    using unsigned_word_eqI [of a b] unsigned_eq_0_iff [of a] by auto
  show ?case by (cases s; cases t) (auto simp: Suc Let_def u)
qed simp

lemma namecmp_eq: "(namecmp s t = 0) = (cstr (take DIRSIZ s) = cstr (take DIRSIZ t))"
  by (simp add: namecmp_def strncmp_list_eq)

lemma namecmp_strncpy: "(namecmp name (strncpy_list other DIRSIZ) = 0) = (namecmp name other = 0)"
proof -
  have "cstr (take DIRSIZ (strncpy_list other DIRSIZ)) = cstr (take DIRSIZ other)"
  proof -
    let ?c = "cstr (take DIRSIZ other)"
    have l: "length ?c \<le> DIRSIZ" using cstr_length [of "take DIRSIZ other"] by simp
    have z: "0 \<notin> set ?c" by (auto simp: cstr_def dest: set_takeWhileD)
    have "take DIRSIZ (strncpy_list other DIRSIZ) = ?c @ replicate (DIRSIZ - length ?c) 0" using l by (simp add: strncpy_list_def Let_def)
    then show ?thesis using z cstr_no_nul [OF z] cstr_nul [OF z] by (cases "DIRSIZ - length ?c") auto
  qed
  then show ?thesis by (simp add: namecmp_eq)
qed

section \<open>The inode table\<close>

text \<open>
  At most one entry in use for each inode, counts never negative, and every locked entry in use.
\<close>

definition itable_inv :: "fsys \<Rightarrow> bool" where
  "itable_inv st = (length (itable st) = NINODE \<and>
     (\<forall>i<NINODE. 0 \<le> i_ref (itable st ! i) \<and> (i_holder (itable st ! i) \<noteq> None \<longrightarrow> 0 < i_ref (itable st ! i))) \<and>
     (\<forall>i<NINODE. \<forall>j<NINODE. 0 < i_ref (itable st ! i) \<and> 0 < i_ref (itable st ! j) \<and>
        i_dev (itable st ! i) = i_dev (itable st ! j) \<and> i_inum (itable st ! i) = i_inum (itable st ! j) \<longrightarrow> i = j))"

text \<open>How many references the table holds to an inode.\<close>

definition irefs :: "fsys \<Rightarrow> u32 \<Rightarrow> u32 \<Rightarrow> int" where
  "irefs st dev inum = sum_list (map (\<lambda>ip. if i_dev ip = dev \<and> i_inum ip = inum then i_ref ip else 0) (itable st))"

lemma sum_list_update_one:
  fixes f :: "'a \<Rightarrow> int"
  assumes "k < length xs"
  shows "sum_list (map f (xs[k := y])) = sum_list (map f xs) - f (xs ! k) + f y"
  using assms
proof (induction xs arbitrary: k)
  case (Cons x xs)
  then show ?case by (cases k) auto
qed simp

lemma irefs_upd:
  assumes "k < length (itable st)"
  shows "irefs (upd_inode k f st) dev inum = irefs st dev inum
    - (if i_dev (itable st ! k) = dev \<and> i_inum (itable st ! k) = inum then i_ref (itable st ! k) else 0)
    + (if i_dev (f (itable st ! k)) = dev \<and> i_inum (f (itable st ! k)) = inum then i_ref (f (itable st ! k)) else 0)"
  unfolding irefs_def upd_inode_def using sum_list_update_one [OF assms] by simp

lemma itable_nth: "itable_inv st \<Longrightarrow> k < NINODE \<Longrightarrow> itable (upd_inode k f st) ! j = (if j = k then f (itable st ! k) else itable st ! j)"
  by (simp add: upd_inode_def itable_inv_def nth_list_update_if)

lemma itable_inv_upd:
  assumes inv: "itable_inv st" and k: "k < NINODE" and f: "0 \<le> i_ref (f (itable st ! k))"
    "i_holder (f (itable st ! k)) \<noteq> None \<Longrightarrow> 0 < i_ref (f (itable st ! k))"
    and uniq: "\<And>j. 0 < i_ref (f (itable st ! k)) \<Longrightarrow> j < NINODE \<Longrightarrow> j \<noteq> k \<Longrightarrow> 0 < i_ref (itable st ! j) \<Longrightarrow>
      \<not> (i_dev (itable st ! j) = i_dev (f (itable st ! k)) \<and> i_inum (itable st ! j) = i_inum (f (itable st ! k)))"
  shows "itable_inv (upd_inode k f st)"
  unfolding itable_inv_def
proof (intro conjI allI impI)
  show "length (itable (upd_inode k f st)) = NINODE" using inv by (simp add: itable_inv_def upd_inode_def)
next
  fix i assume i: "i < NINODE"
  show "0 \<le> i_ref (itable (upd_inode k f st) ! i)" using f inv i by (simp add: itable_nth [OF inv k] itable_inv_def)
  show "0 < i_ref (itable (upd_inode k f st) ! i)" if "i_holder (itable (upd_inode k f st) ! i) \<noteq> None"
    using f(2) inv i that by (auto simp: itable_nth [OF inv k] itable_inv_def split: if_splits)
next
  fix i j assume i: "i < NINODE" "j < NINODE" and e: "0 < i_ref (itable (upd_inode k f st) ! i) \<and> 0 < i_ref (itable (upd_inode k f st) ! j) \<and>
      i_dev (itable (upd_inode k f st) ! i) = i_dev (itable (upd_inode k f st) ! j) \<and> i_inum (itable (upd_inode k f st) ! i) = i_inum (itable (upd_inode k f st) ! j)"
  show "i = j"
  proof (cases "i = k \<or> j = k")
    case True
    then show ?thesis using e uniq [of i] uniq [of j] i by (auto simp: itable_nth [OF inv k] split: if_splits)
  next
    case False
    then show ?thesis using e inv i unfolding itable_inv_def itable_nth [OF inv k] by auto
  qed
qed

text \<open>
  \<open>iget\<close> returns the one entry of the table that stands for the inode, adds one reference to
  it and none to any other inode, keeps every entry that is in use (a recycled entry was unused),
  and panics exactly when the inode has no entry and all \<open>NINODE\<close> entries are in use.
\<close>

theorem iget_refs:
  assumes "itable_inv st"
  shows "(\<exists>k st'. iget dev inum st = Ok (k, st') \<and> k < NINODE \<and> itable_inv st' \<and>
       i_dev (itable st' ! k) = dev \<and> i_inum (itable st' ! k) = inum \<and>
       (\<forall>d n. irefs st' d n = irefs st d n + (if d = dev \<and> n = inum then 1 else 0)) \<and>
       (\<forall>j<NINODE. j \<noteq> k \<longrightarrow> itable st' ! j = itable st ! j) \<and> 0 < i_ref (itable st' ! k)) \<or>
    (iget dev inum st = Panic ''iget: no inodes'' \<and> (\<forall>j<NINODE. 0 < i_ref (itable st ! j) \<and>
       \<not> (i_dev (itable st ! j) = dev \<and> i_inum (itable st ! j) = inum)))"
proof -
  let ?hit = "\<lambda>ip. 0 < i_ref ip \<and> i_dev ip = dev \<and> i_inum ip = inum"
  have len: "length (itable st) = NINODE" using assms by (simp add: itable_inv_def)
  have pos: "0 \<le> i_ref (itable st ! j)" if "j < NINODE" for j using assms that by (simp add: itable_inv_def)
  show ?thesis
  proof (cases "find_index ?hit (itable st)")
    case (Some k)
    then have k: "k < NINODE" "?hit (itable st ! k)" using find_index_SomeD [OF Some] len by auto
    let ?st' = "upd_inode k (\<lambda>ip. ip\<lparr>i_ref := i_ref ip + 1\<rparr>) st"
    have run: "iget dev inum st = Ok (k, ?st')" using Some by (simp add: iget_def)
    have other: "\<not> ?hit (itable st ! j)" if "j < NINODE" "j \<noteq> k" for j
      using assms that k unfolding itable_inv_def by metis
    have "itable_inv ?st'" by (rule itable_inv_upd [OF assms k(1)]) (use k other in auto)
    moreover have "irefs ?st' d n = irefs st d n + (if d = dev \<and> n = inum then 1 else 0)" for d n
      using irefs_upd [of k st "\<lambda>ip. ip\<lparr>i_ref := i_ref ip + 1\<rparr>" d n] k len by simp
    moreover have "itable ?st' ! k = (itable st ! k)\<lparr>i_ref := i_ref (itable st ! k) + 1\<rparr>"
        "\<forall>j<NINODE. j \<noteq> k \<longrightarrow> itable ?st' ! j = itable st ! j"
      using itable_nth [OF assms k(1)] by simp_all
    ultimately show ?thesis using run k by (intro disjI1 exI [of _ k] exI [of _ ?st']) simp
  next
    case None
    have nohit: "\<not> ?hit (itable st ! j)" if "j < NINODE" for j using that len find_index_None [THEN iffD1, rule_format, OF None, of "itable st ! j"] nth_mem [of j "itable st"] by metis
    show ?thesis
    proof (cases "find_index (\<lambda>ip. i_ref ip = 0) (itable st)")
      case (Some k)
      then have k: "k < NINODE" "i_ref (itable st ! k) = 0" using find_index_SomeD [OF Some] len by auto
      let ?st' = "upd_inode k (\<lambda>ip. ip\<lparr>i_dev := dev, i_inum := inum, i_ref := 1, i_valid := False\<rparr>) st"
      have run: "iget dev inum st = Ok (k, ?st')" using None Some by (simp add: iget_def)
      have "itable_inv ?st'" by (rule itable_inv_upd [OF assms k(1)]) (use nohit in auto)
      moreover have "irefs ?st' d n = irefs st d n + (if d = dev \<and> n = inum then 1 else 0)" for d n
        using irefs_upd [of k st "\<lambda>ip. ip\<lparr>i_dev := dev, i_inum := inum, i_ref := 1, i_valid := False\<rparr>" d n] k len by auto
      moreover have "itable ?st' ! k = (itable st ! k)\<lparr>i_dev := dev, i_inum := inum, i_ref := 1, i_valid := False\<rparr>"
          "\<forall>j<NINODE. j \<noteq> k \<longrightarrow> itable ?st' ! j = itable st ! j"
        using itable_nth [OF assms k(1)] by simp_all
      ultimately show ?thesis using run k by (intro disjI1 exI [of _ k] exI [of _ ?st']) simp
    next
      case full: None
      have "i_ref (itable st ! j) \<noteq> 0" if "j < NINODE" for j using that len find_index_None [THEN iffD1, rule_format, OF full, of "itable st ! j"] nth_mem [of j "itable st"] by metis
      then have "0 < i_ref (itable st ! j)" if "j < NINODE" for j using that pos by (metis order_le_less)
      then show ?thesis using None full nohit by (simp add: iget_def)
    qed
  qed
qed

definition boot_fsys :: "(u32 \<Rightarrow> byte list) \<Rightarrow> fsys" where
  "boot_fsys D = iinit \<lparr>fio = boot_fs D, sb = \<lparr>s_magic = 0, s_size = 0, s_nblocks = 0, s_ninodes = 0, s_nlog = 0,
     s_logstart = 0, s_inodestart = 0, s_bmapstart = 0\<rparr>, itable = replicate NINODE blank_inode\<rparr>"

lemma boot_itable: "itable_inv (boot_fsys D)"
  by (auto simp: boot_fsys_def iinit_def itable_inv_def blank_inode_def)

theorem iget_refs_witness:
  "\<exists>k st'. iget 1 5 (boot_fsys (\<lambda>_. [])) = Ok (k, st') \<and> irefs st' 1 5 = 1 \<and> irefs st' 1 6 = 0"
proof -
  have z: "irefs (boot_fsys (\<lambda>_. [])) d n = 0" for d n
    by (simp add: irefs_def boot_fsys_def iinit_def blank_inode_def sum_list_replicate)
  have "0 < NINODE" by (simp add: kconst)
  moreover have "i_ref (itable (boot_fsys (\<lambda>_. [])) ! 0) = 0" by (simp add: boot_fsys_def iinit_def blank_inode_def kconst)
  ultimately show ?thesis using iget_refs [OF boot_itable, of 1 5 "\<lambda>_. []"] z by force
qed

end
