(* ===== verification/FsBlocks.thy ===== *)
theory FsBlocks
  imports Fs
begin

text \<open>
  The block layer of \<^verbatim>\<open>fs.c\<close> inside a transaction: what one read, one logged write and one
  release do to the contents of the blocks, to the room in the log and in the cache and to the
  handles of the caller, and on top of them the bitmap allocator (\<open>bzero\<close>, \<open>balloc\<close>, \<open>bfree\<close>).
\<close>

section \<open>A transaction from the file system\<close>

abbreviation dv :: "fsys \<Rightarrow> u32" where "dv st \<equiv> log_dev (lg (fio st))"
abbreviation blks :: "fsys \<Rightarrow> u32 \<Rightarrow> byte list" where "blks st \<equiv> view (bc (fio st)) (dv st)"
abbreviation lgd :: "fsys \<Rightarrow> u32 set" where "lgd st \<equiv> set (logged (lg (fio st)))"
abbreviation lstart :: "fsys \<Rightarrow> u32" where "lstart st \<equiv> log_start (lg (fio st))"
abbreviation hold :: "fsys \<Rightarrow> u32 \<Rightarrow> nat \<Rightarrow> bool" where "hold st \<equiv> holds (bc (fio st)) (dv st)"

text \<open>
  A transaction is open and holds the buffers of \<open>H\<close>; the log and the cache have room for the blocks
  of \<open>M\<close> and for \<open>k\<close> further ones; \<open>N\<close> disk reads can still be issued.
\<close>

definition fs_tx :: "u32 set \<Rightarrow> u32 set \<Rightarrow> nat \<Rightarrow> nat \<Rightarrow> fsys \<Rightarrow> bool" where
  "fs_tx M H k N st = (tx_inv H (fio st) \<and> io_ok N (bc (fio st)) \<and> finite M \<and> card (lgd st \<union> M) + card H + k \<le> NBUF)"

text \<open>What the operations of a transaction leave alone: all that is on the disk, and the handles on \<open>H\<close>.\<close>

definition fs_keeps :: "u32 set \<Rightarrow> fsys \<Rightarrow> fsys \<Rightarrow> bool" where
  "fs_keeps H st st' = (sb st' = sb st \<and> log_same (lg (fio st)) (lg (fio st')) \<and> lgd st \<subseteq> lgd st' \<and>
     disk (bc (fio st')) = disk (bc (fio st)) \<and> dtrace (bc (fio st')) = dtrace (bc (fio st)) \<and>
     (\<forall>b\<in>H. \<forall>j. hold st b j \<longrightarrow> hold st' b j))"

lemma fs_keeps_refl [simp]: "fs_keeps H st st"
  by (simp add: fs_keeps_def)

lemma fs_keeps_trans [trans]: "fs_keeps H a b \<Longrightarrow> fs_keeps H b c \<Longrightarrow> fs_keeps H a c"
  by (auto simp: fs_keeps_def log_same_def)

lemma fs_keepsD:
  assumes "fs_keeps H st st'"
  shows "sb st' = sb st" "dv st' = dv st" "lstart st' = lstart st" "lgd st \<subseteq> lgd st'"
    "disk (bc (fio st')) = disk (bc (fio st))" "b \<in> H \<Longrightarrow> hold st b j \<Longrightarrow> hold st' b j"
  using assms by (auto simp: fs_keeps_def log_same_def)

lemma fs_keeps_mono: "fs_keeps H st st' \<Longrightarrow> G \<subseteq> H \<Longrightarrow> fs_keeps G st st'"
  by (auto simp: fs_keeps_def)

lemma fs_keeps_itable [simp]: "fs_keeps H st (st'\<lparr>itable := t\<rparr>) = fs_keeps H st st'"
  "fs_keeps H (st\<lparr>itable := t\<rparr>) st' = fs_keeps H st st'"
  by (simp_all add: fs_keeps_def)

lemma fs_tx_itable [simp]: "fs_tx M H k N (st\<lparr>itable := t\<rparr>) = fs_tx M H k N st"
  by (simp add: fs_tx_def)

lemma fs_txD:
  assumes "fs_tx M H k N st"
  shows "tx_inv H (fio st)" "io_ok N (bc (fio st))" "finite M" "finite H" "card (lgd st \<union> M) + card H + k \<le> NBUF"
    "cinv (dv st) (lgd st) H (bc (fio st))"
  using assms cinvD(3) by (auto simp: fs_tx_def tx_inv_def)

lemma fs_tx_less: "fs_tx M H k N st \<Longrightarrow> k' \<le> k \<Longrightarrow> N' \<le> N \<Longrightarrow> fs_tx M H k' N' st"
  by (auto simp: fs_tx_def intro: io_ok_mono)

lemma length_blks: "fs_tx M H k N st \<Longrightarrow> length (blks st b) = BSIZE"
  using view_length cinvD(1) fs_txD(6) by blast

lemma hold_data: "fs_tx M H k N st \<Longrightarrow> hold st b i \<Longrightarrow> fs_data i st = blks st b"
  using holds_refs(5) [OF cinvD(1) [OF fs_txD(6)]] by (simp add: fs_data_def)

lemma hold_held: "fs_tx M H k N st \<Longrightarrow> hold st b i \<Longrightarrow> b \<in> H"
  using cinv_holds [OF fs_txD(6)] by blast

lemma fs_bread_spec:
  assumes tx: "fs_tx M H (Suc k) (Suc N) st" and b: "b \<notin> H"
  shows "wp (fs_bread (dv st) b st) (\<lambda>(i, st'). fs_tx M (insert b H) k N st' \<and> fs_keeps H st st' \<and> hold st' b i \<and>
    blks st' = blks st \<and> fs_data i st' = blks st b \<and> itable st' = itable st \<and> lgd st' = lgd st \<and>
    (b \<in> lgd st \<or> blks st b = disk (bc (fio st)) b))"
proof -
  note t = fs_txD [OF tx]
  have u: "card (lgd st \<union> H) \<le> card (lgd st) + card H" by (rule card_Un_le)
  have l: "card (lgd st) \<le> card (lgd st \<union> M)" using t(3) by (intro card_mono) auto
  have room: "card (lgd st \<union> H) < NBUF" using u l t(5) by linarith
  have clean: "b \<in> lgd st \<or> blks st b = disk (bc (fio st)) b" using cinv_clean [OF t(6) _ b] by blast
  have "card (insert b H) = Suc (card H)" using t(4) b by simp
  then have room': "card (lgd st \<union> M) + card (insert b H) + k \<le> NBUF" using t(5) by simp
  obtain i b1 where r: "bread (dv st) b (bc (fio st)) = Ok (i, b1)" "cinv (dv st) (lgd st) (insert b H) b1" "holds b1 (dv st) b i"
      "view b1 (dv st) = blks st" "bdata i b1 = blks st b" "disk b1 = disk (bc (fio st))" "dtrace b1 = dtrace (bc (fio st))"
      "io_ok N b1" "keeps (dv st) b (bc (fio st)) b1"
    using cinv_bread [OF t(6,2) b] room by (auto simp: wp_def)
  have "fs_tx M (insert b H) k N (with_bc b1 st)"
    using t(1,3) r(2,8) room' by (simp add: fs_tx_def tx_inv_def with_bc_def)
  moreover have "fs_keeps H st (with_bc b1 st)"
    using r(6,7,9) b by (auto simp: fs_keeps_def with_bc_def keeps_def)
  ultimately show ?thesis using r clean by (simp add: fs_bread_def with_bc_def fs_data_def)
qed

lemma fs_brelse_spec:
  assumes tx: "fs_tx M (insert b H) k N st" and b: "b \<notin> H" and h: "hold st b i"
    and clean: "b \<in> lgd st \<or> blks st b = disk (bc (fio st)) b"
  shows "wp (fs_brelse i st) (\<lambda>st'. fs_tx M H (Suc k) N st' \<and> fs_keeps H st st' \<and> blks st' = blks st \<and>
    itable st' = itable st \<and> lgd st' = lgd st)"
proof -
  note t = fs_txD [OF tx]
  have "card (insert b H) = Suc (card H)" using t(4) b by simp
  then have room: "card (lgd st \<union> M) + card H + Suc k \<le> NBUF" using t(5) by simp
  obtain b1 where r: "brelse i (bc (fio st)) = Ok b1" "cinv (dv st) (lgd st) H b1" "view b1 (dv st) = blks st"
      "disk b1 = disk (bc (fio st))" "dtrace b1 = dtrace (bc (fio st))" "\<forall>N. io_ok N b1 = io_ok N (bc (fio st))"
      "keeps (dv st) b (bc (fio st)) b1"
    using cinv_brelse [OF t(6) b h clean] by (auto simp: wp_def)
  have "fs_tx M H (Suc k) N (with_bc b1 st)"
    using t(1,2,3) r(2,6) room by (simp add: fs_tx_def tx_inv_def with_bc_def)
  moreover have "fs_keeps H st (with_bc b1 st)"
    using r(4,5,7) b by (auto simp: fs_keeps_def with_bc_def keeps_def)
  ultimately show ?thesis using r by (simp add: fs_brelse_def with_bc_def)
qed

text \<open>Changing a held buffer and logging it; a block of \<open>M\<close>, or one already logged, takes no further room.\<close>

lemma fs_log_write_spec:
  assumes tx: "fs_tx M H k' N st" and k: "k' = (if b \<in> lgd st \<union> M then k else Suc k)"
    and h: "hold st b i" and b: "b \<notin> log_area (lstart st)" and len: "length bs = BSIZE"
  shows "wp (fs_log_write i (fs_bset i bs st)) (\<lambda>st'. fs_tx M H k N st' \<and> fs_keeps H st st' \<and> hold st' b i \<and>
    blks st' = (blks st)(b := bs) \<and> itable st' = itable st \<and> lgd st' = insert b (lgd st))"
proof -
  note t = fs_txD [OF tx]
  have bH: "b \<in> H" by (rule hold_held [OF tx h])
  have "0 < card H" using t(4) bH by (auto simp: card_gt_0_iff)
  moreover have "card (lgd st) \<le> card (lgd st \<union> M)" using t(3) by (intro card_mono) auto
  ultimately have "card (lgd st) < NBUF" using t(5) by linarith
  then have room: "lh_n (lg (fio st)) < int LOGBLOCKS" using tx_room [OF t(1)] by (simp add: kconst)
  have "card (insert b (lgd st \<union> M)) = (if b \<in> lgd st \<union> M then 0 else 1) + card (lgd st \<union> M)"
    using t(3) by (simp add: card_insert_if)
  then have room': "card (insert b (lgd st) \<union> M) + card H + k \<le> NBUF" using t(5) k by (auto split: if_splits)
  define b0 where "b0 = bset i bs (bc (fio st))"
  note w = cinv_bset [OF t(6) h len, folded b0_def]
  define s0 where "s0 = (fio st)\<lparr>bc := b0\<rparr>"
  have s0: "tx_inv H s0" "lh_n (lg s0) < int LOGBLOCKS" "holds (bc s0) (log_dev (lg s0)) b i" "b \<notin> log_area (log_start (lg s0))"
    using t(1) w(1,2) room b by (simp_all add: s0_def tx_inv_def)
  obtain s1 where l: "log_write i s0 = Ok s1" "tx_inv H s1" "log_same (lg s0) (lg s1)"
      "set (logged (lg s1)) = insert b (set (logged (lg s0)))" "holds (bc s1) (dv st) b i"
      "view (bc s1) (dv st) = view (bc s0) (dv st)" "disk (bc s1) = disk (bc s0)" "dtrace (bc s1) = dtrace (bc s0)"
      "\<forall>N. io_ok N (bc s1) = io_ok N (bc s0)" "keeps (dv st) b (bc s0) (bc s1)"
    using log_write_spec [OF s0] by (auto simp: wp_def s0_def)
  have d1: "log_dev (lg s1) = dv st" using l(3) by (simp add: log_same_def s0_def)
  have "fs_tx M H k N (st\<lparr>fio := s1\<rparr>)"
    using l(2,4,9) w(6) t(2,3) room' by (simp add: fs_tx_def s0_def)
  moreover have "hold st' b' j" if "hold st b' j" "st' = st\<lparr>fio := s1\<rparr>" for st' b' j
  proof (cases "b' = b")
    case True
    then have "j = i" using buf_of_eq [OF cinvD(1) [OF t(6)], of b] that(1) h by (metis holds_def option.inject)
    then show ?thesis using True l(5) d1 that(2) by simp
  next
    case False
    then show ?thesis using that w(7) l(10) d1 by (auto simp: keeps_def s0_def)
  qed
  ultimately show ?thesis using l w d1
    by (auto simp: fs_log_write_def fs_bset_def with_bc_def s0_def b0_def fs_keeps_def log_same_def)
qed

section \<open>The free bitmap\<close>

definition setb :: "nat \<Rightarrow> byte list \<Rightarrow> byte list" where
  "setb bi d = d[bi div 8 := d ! (bi div 8) OR bit_mask bi]"

definition clrb :: "nat \<Rightarrow> byte list \<Rightarrow> byte list" where
  "clrb bi d = d[bi div 8 := d ! (bi div 8) AND NOT (bit_mask bi)]"

lemma length_setb [simp]: "length (setb bi d) = length d" "length (clrb bi d) = length d"
  by (simp_all add: setb_def clrb_def)

lemma bit_set_bit: "bit_set bi d = bit (d ! (bi div 8)) (bi mod 8)"
  by (simp add: bit_set_def bit_mask_def bit_iff_and_push_bit_not_eq_0)

lemma bit_bit_mask: "n < 8 \<Longrightarrow> bit (bit_mask bi) n = (n = bi mod 8)"
  by (auto simp: bit_mask_def bit_exp_iff)

lemma bit_set_setb:
  assumes "bi < 8 * length d"
  shows "bit_set bj (setb bi d) = (bj = bi \<or> bit_set bj d)" "bit_set bj (clrb bi d) = (bj \<noteq> bi \<and> bit_set bj d)"
proof -
  have l: "bi div 8 < length d" using assms by (simp add: div_less_iff_less_mult mult.commute)
  have e: "bj = bi \<longleftrightarrow> bj div 8 = bi div 8 \<and> bj mod 8 = bi mod 8" by (metis div_mult_mod_eq)
  have m: "bj mod 8 < 8" "bj mod 8 < LENGTH(8)" by simp_all
  show "bit_set bj (setb bi d) = (bj = bi \<or> bit_set bj d)"
    unfolding e bit_set_bit setb_def using l m bit_bit_mask [OF m(1), of bi]
    by (auto simp: nth_list_update bit_or_iff)
  show "bit_set bj (clrb bi d) = (bj \<noteq> bi \<and> bit_set bj d)"
    unfolding e bit_set_bit clrb_def using l m bit_bit_mask [OF m(1), of bi]
    by (auto simp: nth_list_update bit_and_iff bit_not_iff_eq)
qed

text \<open>Whether the bitmap in the blocks \<open>V\<close> says that a block is in use, and the bitmap with one block marked.\<close>

definition marked :: "(u32 \<Rightarrow> byte list) \<Rightarrow> superblock \<Rightarrow> u32 \<Rightarrow> bool" where
  "marked V s b = bit_set (unat b mod BPB) (V (BBLOCK b s))"

definition mark :: "superblock \<Rightarrow> u32 \<Rightarrow> (u32 \<Rightarrow> byte list) \<Rightarrow> u32 \<Rightarrow> byte list" where
  "mark s b V = V(BBLOCK b s := setb (unat b mod BPB) (V (BBLOCK b s)))"

definition unmark :: "superblock \<Rightarrow> u32 \<Rightarrow> (u32 \<Rightarrow> byte list) \<Rightarrow> u32 \<Rightarrow> byte list" where
  "unmark s b V = V(BBLOCK b s := clrb (unat b mod BPB) (V (BBLOCK b s)))"

definition bmap_blocks :: "superblock \<Rightarrow> u32 set" where
  "bmap_blocks s = (\<lambda>b. BBLOCK b s) ` {b. b < s_size s}"

lemma unat_BPB [simp]: "unat (of_nat BPB :: u32) = BPB"
  by (simp add: unat_of_nat kconst)

lemma BBLOCK_eq: "(BBLOCK b s = BBLOCK c s) = (unat b div BPB = unat c div BPB)"
proof -
  have "(BBLOCK b s = BBLOCK c s) = (b div of_nat BPB = c div of_nat BPB)" by (simp add: BBLOCK_def)
  then show ?thesis by (simp add: word_unat_eq_iff unat_div)
qed

lemma same_block_bit: "BBLOCK b s = BBLOCK c s \<Longrightarrow> unat b mod BPB = unat c mod BPB \<Longrightarrow> b = c"
  unfolding BBLOCK_eq by (metis div_mult_mod_eq unsigned_word_eqI)

lemma bit_in_block: "unat b mod BPB < 8 * BSIZE"
  using mod_less_divisor [of BPB "unat b"] by (simp add: kconst)

lemma marked_mark:
  assumes "length (V (BBLOCK b s)) = BSIZE"
  shows "marked (mark s b V) s c = (c = b \<or> marked V s c)" "marked (unmark s b V) s c = (c \<noteq> b \<and> marked V s c)"
proof -
  have l: "unat b mod BPB < 8 * length (V (BBLOCK b s))" using bit_in_block assms by simp
  show "marked (mark s b V) s c = (c = b \<or> marked V s c)" "marked (unmark s b V) s c = (c \<noteq> b \<and> marked V s c)"
    using bit_set_setb [OF l] same_block_bit [of c s b] by (auto simp: marked_def mark_def unmark_def)
qed

lemma finite_bmap_blocks [simp]: "finite (bmap_blocks s)"
  by (simp add: bmap_blocks_def)

definition free_blocks :: "fsys \<Rightarrow> u32 set" where
  "free_blocks st = {b. b < s_size (sb st) \<and> \<not> marked (blks st) (sb st) b}"

section \<open>Zeroing, allocating and freeing a block\<close>

text \<open>Read a block, change it, log it, release it.\<close>

lemma fs_update:
  assumes tx: "fs_tx M H (Suc k') (Suc N) st" and k: "k' = (if b \<in> lgd st \<union> M then k else Suc k)"
    and b: "b \<notin> H" "b \<notin> log_area (lstart st)" and len: "length x = BSIZE"
  obtains i st1 st2 st3 where "fs_bread (dv st) b st = Ok (i, st1)" "fs_data i st1 = blks st b" "sb st1 = sb st"
    "fs_log_write i (fs_bset i x st1) = Ok st2" "fs_brelse i st2 = Ok st3" "fs_tx M H (Suc k) N st3"
    "fs_keeps H st st3" "blks st3 = (blks st)(b := x)" "itable st3 = itable st" "lgd st3 = insert b (lgd st)"
proof -
  note result = that
  obtain i st1 where r: "fs_bread (dv st) b st = Ok (i, st1)" "fs_tx M (insert b H) k' N st1" "fs_keeps H st st1"
      "hold st1 b i" "blks st1 = blks st" "itable st1 = itable st" "lgd st1 = lgd st" "fs_data i st1 = blks st b"
    using fs_bread_spec [OF tx b(1)] by (auto simp: wp_def)
  have b1: "b \<notin> log_area (lstart st1)" "k' = (if b \<in> lgd st1 \<union> M then k else Suc k)"
    using b(2) fs_keepsD(3) [OF r(3)] r(7) k by simp_all
  obtain st2 where l: "fs_log_write i (fs_bset i x st1) = Ok st2" "fs_tx M (insert b H) k N st2"
      "fs_keeps (insert b H) st1 st2" "hold st2 b i" "blks st2 = (blks st1)(b := x)" "itable st2 = itable st1"
      "lgd st2 = insert b (lgd st1)"
    using fs_log_write_spec [OF r(2) b1(2) r(4) b1(1) len] by (auto simp: wp_def)
  obtain st3 where e: "fs_brelse i st2 = Ok st3" "fs_tx M H (Suc k) N st3" "fs_keeps H st2 st3" "blks st3 = blks st2"
      "itable st3 = itable st2" "lgd st3 = lgd st2"
    using fs_brelse_spec [OF l(2) b(1) l(4)] l(7) by (auto simp: wp_def)
  have "fs_keeps H st st3"
    using fs_keeps_trans [OF r(3) fs_keeps_trans [OF fs_keeps_mono [OF l(3)] e(3)]] by auto
  then show thesis using result [OF r(1,8) fs_keepsD(1) [OF r(3)] l(1) e(1,2)] r l e by simp
qed

text \<open>
  A block read and released again. This needs no transaction, only room in the cache for one more block.
\<close>

definition fs_cache :: "u32 set \<Rightarrow> nat \<Rightarrow> nat \<Rightarrow> fsys \<Rightarrow> bool" where
  "fs_cache H k N st = (cinv (dv st) (lgd st) H (bc (fio st)) \<and> io_ok N (bc (fio st)) \<and> card (lgd st) + card H + k \<le> NBUF)"

lemma fs_tx_cache:
  assumes "fs_tx M H k N st"
  shows "fs_cache H k N st"
proof -
  have "card (lgd st) \<le> card (lgd st \<union> M)" using fs_txD(3) [OF assms] by (intro card_mono) auto
  then show ?thesis using fs_txD [OF assms] by (simp add: fs_cache_def)
qed

lemma fs_read:
  assumes c: "fs_cache H (Suc k) (Suc N) st" and b: "b \<notin> H"
  obtains i b1 b2 where "fs_bread (dv st) b st = Ok (i, with_bc b1 st)" "fs_data i (with_bc b1 st) = blks st b"
    "fs_brelse i (with_bc b1 st) = Ok (with_bc b2 st)" "fs_cache H (Suc k) N (with_bc b2 st)" "fs_keeps H st (with_bc b2 st)"
    "blks (with_bc b2 st) = blks st"
proof -
  note result = that
  have t: "cinv (dv st) (lgd st) H (bc (fio st))" "io_ok (Suc N) (bc (fio st))" "card (lgd st) + card H + Suc k \<le> NBUF"
    using c by (simp_all add: fs_cache_def)
  have room: "card (lgd st \<union> H) < NBUF" using t(3) card_Un_le [of "lgd st" H] by linarith
  obtain i b1 where r: "bread (dv st) b (bc (fio st)) = Ok (i, b1)" "cinv (dv st) (lgd st) (insert b H) b1" "holds b1 (dv st) b i"
      "view b1 (dv st) = blks st" "bdata i b1 = blks st b" "disk b1 = disk (bc (fio st))" "dtrace b1 = dtrace (bc (fio st))"
      "io_ok N b1" "keeps (dv st) b (bc (fio st)) b1"
    using cinv_bread [OF t(1,2) b] room by (auto simp: wp_def)
  have "b \<in> lgd st \<or> view b1 (dv st) b = disk b1 b" using cinv_clean [OF t(1) _ b] r(4,6) by auto
  then obtain b2 where e: "brelse i b1 = Ok b2" "cinv (dv st) (lgd st) H b2" "view b2 (dv st) = view b1 (dv st)"
      "disk b2 = disk b1" "dtrace b2 = dtrace b1" "\<forall>N. io_ok N b2 = io_ok N b1" "keeps (dv st) b b1 b2"
    using cinv_brelse [OF r(2) b r(3)] by (auto simp: wp_def)
  have "fs_cache H (Suc k) N (with_bc b2 st)" using e(2,6) r(8) t(3) by (simp add: fs_cache_def with_bc_def)
  moreover have "fs_keeps H st (with_bc b2 st)" using r(6,7,9) e(4,5,7)
    by (simp add: fs_keeps_def with_bc_def keeps_def) (use b in metis)
  ultimately show thesis
    by (intro result [of i b1 b2]) (use r e in \<open>simp_all add: fs_bread_def fs_brelse_def with_bc_def fs_data_def\<close>)
qed

lemma fs_peek:
  assumes tx: "fs_tx M H (Suc k) (Suc N) st" and b: "b \<notin> H"
  obtains i st1 st2 where "fs_bread (dv st) b st = Ok (i, st1)" "fs_data i st1 = blks st b" "sb st1 = sb st" "fs_brelse i st1 = Ok st2"
    "fs_tx M H (Suc k) N st2" "fs_keeps H st st2" "blks st2 = blks st" "itable st2 = itable st" "lgd st2 = lgd st"
proof -
  note result = that
  obtain i b1 b2 where r: "fs_bread (dv st) b st = Ok (i, with_bc b1 st)" "fs_data i (with_bc b1 st) = blks st b"
    "fs_brelse i (with_bc b1 st) = Ok (with_bc b2 st)" "fs_cache H (Suc k) N (with_bc b2 st)" "fs_keeps H st (with_bc b2 st)"
    "blks (with_bc b2 st) = blks st"
    by (rule fs_read [OF fs_tx_cache [OF tx] b])
  have "fs_tx M H (Suc k) N (with_bc b2 st)"
    using tx r(4) by (simp add: fs_tx_def fs_cache_def tx_inv_def with_bc_def)
  then show thesis using result [OF r(1,2) _ r(3) _ r(5,6)] by (simp add: with_bc_def)
qed

lemma bzero_spec:
  assumes tx: "fs_tx M H (Suc (Suc k)) (Suc N) st" and b: "b \<notin> H" "b \<notin> log_area (lstart st)"
  obtains st' where "bzero (dv st) b st = Ok st'" "fs_tx M H (Suc k) N st'" "fs_keeps H st st'"
    "blks st' = (blks st)(b := replicate BSIZE 0)" "itable st' = itable st" "lgd st' = insert b (lgd st)"
proof -
  have tx': "fs_tx M H (Suc (if b \<in> lgd st \<union> M then k else Suc k)) (Suc N) st" using fs_tx_less [OF tx] by simp
  show thesis by (rule fs_update [OF tx' refl b, of "replicate BSIZE 0"]) (use that in \<open>auto simp: bzero_def\<close>)
qed

text \<open>
  What the allocator relies on: neither the bitmap nor a free block is in the log's area or held by the
  caller.
\<close>

definition alloc_ok :: "u32 set \<Rightarrow> u32 \<Rightarrow> superblock \<Rightarrow> (u32 \<Rightarrow> byte list) \<Rightarrow> bool" where
  "alloc_ok H ls s V = (\<forall>b. b < s_size s \<longrightarrow> BBLOCK b s \<notin> log_area ls \<union> H \<and> (marked V s b \<or> b \<notin> log_area ls \<union> H))"

definition zero_alloc :: "superblock \<Rightarrow> u32 \<Rightarrow> (u32 \<Rightarrow> byte list) \<Rightarrow> u32 \<Rightarrow> byte list" where
  "zero_alloc s b V = (mark s b V)(b := replicate BSIZE 0)"

text \<open>The first free block, if there is one.\<close>

definition first_free :: "(u32 \<Rightarrow> byte list) \<Rightarrow> superblock \<Rightarrow> u32 \<Rightarrow> bool" where
  "first_free V s b = (b < s_size s \<and> \<not> marked V s b \<and> (\<forall>c<b. marked V s c))"

definition full :: "(u32 \<Rightarrow> byte list) \<Rightarrow> superblock \<Rightarrow> bool" where
  "full V s = (\<forall>c. c < s_size s \<longrightarrow> marked V s c)"

lemma scan_block:
  assumes "k * BPB < unat (s_size s)" "bi < min BPB (unat (s_size s) - k * BPB)"
  shows "unat (of_nat (k * BPB + bi) :: u32) = k * BPB + bi" "of_nat (k * BPB + bi) < s_size s"
    "BBLOCK (of_nat (k * BPB + bi)) s = BBLOCK (of_nat (k * BPB)) s" "unat (of_nat (k * BPB + bi) :: u32) mod BPB = bi"
proof -
  have lt: "k * BPB + bi < unat (s_size s)" using assms by auto
  then have u: "unat (of_nat (k * BPB + bi) :: u32) = k * BPB + bi" "unat (of_nat (k * BPB) :: u32) = k * BPB"
    using unsigned_less [of "s_size s", where ?'a = nat] by (simp_all add: unat_of_nat del: of_nat_add of_nat_mult)
  then show "unat (of_nat (k * BPB + bi) :: u32) = k * BPB + bi" "of_nat (k * BPB + bi) < s_size s"
    "unat (of_nat (k * BPB + bi) :: u32) mod BPB = bi" using lt assms(2) by (simp_all add: word_less_nat_alt del: of_nat_add of_nat_mult)
  show "BBLOCK (of_nat (k * BPB + bi)) s = BBLOCK (of_nat (k * BPB)) s"
    unfolding BBLOCK_eq u using assms(2) by (simp add: kconst)
qed

text \<open>The blocks whose bits are in the bitmap block that starts at \<open>k * BPB\<close>.\<close>

lemma scan_marked:
  assumes "k * BPB < unat (s_size s)"
    and all: "\<forall>c. c < s_size s \<and> unat c < k * BPB \<longrightarrow> marked V s c"
    and scan: "\<forall>bi < lim. bit_set bi (V (BBLOCK (of_nat (k * BPB)) s))" "lim \<le> min BPB (unat (s_size s) - k * BPB)"
  shows "unat c < k * BPB + lim \<Longrightarrow> marked V s c"
proof -
  assume c: "unat c < k * BPB + lim"
  show "marked V s c"
  proof (cases "unat c < k * BPB")
    case False
    define bi where "bi = unat c - k * BPB"
    have bi: "bi < lim" "bi < min BPB (unat (s_size s) - k * BPB)" "unat c = k * BPB + bi" using c False scan(2) by (auto simp: bi_def)
    have "c = of_nat (unat c)" by simp
    then have "c = of_nat (k * BPB + bi)" unfolding bi(3) .
    then show ?thesis using scan_block(3,4) [OF assms(1) bi(2)] scan(1) bi(1) by (simp add: marked_def del: of_nat_add of_nat_mult)
  qed (use all assms(1) in \<open>simp add: word_less_nat_alt\<close>)
qed

lemma balloc_from_spec:
  assumes tx: "fs_tx M H (Suc (Suc k)) (n - j + Suc N) st" and M: "bmap_blocks (sb st) \<subseteq> M"
    and ok: "alloc_ok H (lstart st) (sb st) (blks st)" and n: "n = (unat (s_size (sb st)) + BPB - 1) div BPB"
    and all: "\<forall>c. c < s_size (sb st) \<and> unat c < j * BPB \<longrightarrow> marked (blks st) (sb st) c" and j: "j \<le> n"
  shows "wp (balloc_from (dv st) (map (\<lambda>k. k * BPB) [j..<n]) st) (\<lambda>(b, st'). fs_keeps H st st' \<and> itable st' = itable st \<and>
    (b = 0 \<and> full (blks st) (sb st) \<and> blks st' = blks st \<and> lgd st' = lgd st \<and> fs_tx M H (Suc (Suc k)) N st' \<or>
     first_free (blks st) (sb st) b \<and> blks st' = zero_alloc (sb st) b (blks st) \<and>
       lgd st' = insert b (insert (BBLOCK b (sb st)) (lgd st)) \<and> fs_tx M H (Suc k) N st'))"
  using assms
proof (induction "n - j" arbitrary: j st)
  case 0
  then have "unat (s_size (sb st)) \<le> j * BPB" by (simp add: kconst)
  then have "full (blks st) (sb st)" using "0.prems"(5) by (auto simp: full_def word_less_nat_alt)
  moreover have "fs_tx M H (Suc (Suc k)) N st" by (rule fs_tx_less [OF "0.prems"(1)]) simp_all
  ultimately show ?case using 0 by simp
next
  case (Suc m)
  let ?s = "sb st" and ?b = "BBLOCK (of_nat (j * BPB)) (sb st)" and ?lim = "min BPB (unat (s_size (sb st)) - j * BPB)"
  have jn: "j < n" "[j..<n] = j # [Suc j..<n]" using Suc.hyps(2) by (simp_all add: upt_conv_Cons)
  then have sz: "j * BPB < unat (s_size ?s)" using Suc.prems(4) by (simp add: kconst)
  then have lim: "0 < ?lim" by (simp add: kconst)
  note first = scan_block [OF sz lim]
  have bH: "?b \<notin> H" "?b \<notin> log_area (lstart st)" "?b \<in> M"
    using Suc.prems(2,3) first(2) by (auto simp: alloc_ok_def bmap_blocks_def)
  have io: "n - j + Suc N = Suc (n - Suc j + Suc N)" using jn(1) by simp
  have tx: "fs_tx M H (Suc (Suc k)) (Suc (n - Suc j + Suc N)) st" using Suc.prems(1) unfolding io .
  show ?case
  proof (cases "find (\<lambda>bi. \<not> bit_set bi (blks st ?b)) [0..<?lim]")
    case None
    obtain i st1 st2 where p: "fs_bread (dv st) ?b st = Ok (i, st1)" "fs_data i st1 = blks st ?b" "sb st1 = ?s" "fs_brelse i st1 = Ok st2"
      "fs_tx M H (Suc (Suc k)) (n - Suc j + Suc N) st2" "fs_keeps H st st2" "blks st2 = blks st" "itable st2 = itable st" "lgd st2 = lgd st"
      by (rule fs_peek [OF tx bH(1)])
    note same = fs_keepsD(1-3) [OF p(6)]
    have "\<forall>bi<?lim. bit_set bi (blks st ?b)" using None by (auto simp: find_None_iff)
    note sm = scan_marked [OF sz Suc.prems(5) this order_refl]
    have all: "\<forall>c. c < s_size (sb st2) \<and> unat c < Suc j * BPB \<longrightarrow> marked (blks st2) (sb st2) c"
    proof (intro allI impI)
      fix c assume "c < s_size (sb st2) \<and> unat c < Suc j * BPB"
      then have "unat c < j * BPB + ?lim" using same(1) sz by (auto simp: word_less_nat_alt min_def)
      then show "marked (blks st2) (sb st2) c" using sm same(1) p(7) by simp
    qed
    have "wp (balloc_from (dv st) (map (\<lambda>k. k * BPB) [Suc j..<n]) st2) (\<lambda>(b, st'). fs_keeps H st2 st' \<and> itable st' = itable st \<and>
      (b = 0 \<and> full (blks st) ?s \<and> blks st' = blks st \<and> lgd st' = lgd st \<and> fs_tx M H (Suc (Suc k)) N st' \<or>
       first_free (blks st) ?s b \<and> blks st' = zero_alloc ?s b (blks st) \<and>
         lgd st' = insert b (insert (BBLOCK b ?s) (lgd st)) \<and> fs_tx M H (Suc k) N st'))"
      using Suc.hyps(1) [of "Suc j" st2] Suc.hyps(2) p(5,7,8,9) same all Suc.prems(2,3,4) jn(1) by simp
    moreover have "balloc_from (dv st) (map (\<lambda>k. k * BPB) [j..<n]) st = balloc_from (dv st) (map (\<lambda>k. k * BPB) [Suc j..<n]) st2"
      using p(1-4) None by (simp add: jn(2) del: of_nat_mult)
    ultimately show ?thesis using fs_keeps_trans [OF p(6)] by (auto elim!: wp_mono)
  next
    case (Some bi)
    then have bi: "bi < ?lim" "\<not> bit_set bi (blks st ?b)" "\<forall>bj<bi. bit_set bj (blks st ?b)"
      by (auto simp: find_Some_iff)
    define b :: u32 where "b = of_nat (j * BPB + bi)"
    note at = scan_block [OF sz bi(1), folded b_def]
    have nm: "\<not> marked (blks st) ?s b" using bi(2) at(3,4) by (simp add: marked_def)
    have lt: "unat c < j * BPB + bi" if "c < b" for c using that at(1) by (simp add: word_less_nat_alt)
    have ff: "first_free (blks st) ?s b"
      using scan_marked [OF sz Suc.prems(5) bi(3)] bi(1) at(2) nm lt by (auto simp: first_free_def)
    have bA: "b \<notin> H" "b \<notin> log_area (lstart st)" using Suc.prems(3) at(2) nm by (auto simp: alloc_ok_def)
    have tx': "fs_tx M H (Suc (Suc k)) (Suc (Suc N)) st" using Suc.prems(1) by (rule fs_tx_less) (use jn in auto)
    have len: "length (setb bi (blks st ?b)) = BSIZE" using length_blks [OF tx] by simp
    obtain i st1 st2 st3 where u: "fs_bread (dv st) ?b st = Ok (i, st1)" "fs_data i st1 = blks st ?b" "sb st1 = ?s"
        "fs_log_write i (fs_bset i (setb bi (blks st ?b)) st1) = Ok st2" "fs_brelse i st2 = Ok st3" "fs_tx M H (Suc (Suc k)) (Suc N) st3"
        "fs_keeps H st st3" "blks st3 = (blks st)(?b := setb bi (blks st ?b))" "itable st3 = itable st" "lgd st3 = insert ?b (lgd st)"
      by (rule fs_update [OF tx' _ bH(1,2) len, of "Suc k"]) (use bH(3) in auto)
    note same = fs_keepsD(1-3) [OF u(7)]
    have mk: "blks st3 = mark ?s b (blks st)" using u(8) at(3,4) by (simp add: mark_def)
    have bA': "b \<notin> log_area (lstart st3)" using bA same by simp
    obtain st4 where z: "bzero (dv st3) b st3 = Ok st4" "fs_tx M H (Suc k) N st4" "fs_keeps H st3 st4"
        "blks st4 = (blks st3)(b := replicate BSIZE 0)" "itable st4 = itable st3" "lgd st4 = insert b (lgd st3)"
      by (rule bzero_spec [OF u(6) bA(1) bA'])
    have "balloc_from (dv st) (map (\<lambda>k. k * BPB) [j..<n]) st = Ok (b, st4)"
      using u(1-5) z(1) Some same by (simp add: jn(2) setb_def b_def Let_def del: of_nat_mult of_nat_add)
    then show ?thesis using ff z u fs_keeps_trans [OF u(7) z(3)] mk at(3) by (simp add: zero_alloc_def)
  qed
qed

lemma balloc_spec:
  assumes tx: "fs_tx M H (Suc (Suc k)) ((unat (s_size (sb st)) + BPB - 1) div BPB + Suc N) st" and M: "bmap_blocks (sb st) \<subseteq> M"
    and ok: "alloc_ok H (lstart st) (sb st) (blks st)"
  shows "wp (balloc (dv st) st) (\<lambda>(b, st'). fs_keeps H st st' \<and> itable st' = itable st \<and>
    (b = 0 \<and> full (blks st) (sb st) \<and> blks st' = blks st \<and> lgd st' = lgd st \<and> fs_tx M H (Suc (Suc k)) N st' \<or>
     first_free (blks st) (sb st) b \<and> blks st' = zero_alloc (sb st) b (blks st) \<and>
       lgd st' = insert b (insert (BBLOCK b (sb st)) (lgd st)) \<and> fs_tx M H (Suc k) N st'))"
  unfolding balloc_def by (rule balloc_from_spec [OF _ M ok refl, of k 0 N]) (use tx in simp_all)

lemma bfree_spec:
  assumes tx: "fs_tx M H (Suc k) (Suc N) st" and M: "BBLOCK b (sb st) \<in> M" and b: "BBLOCK b (sb st) \<notin> log_area (lstart st) \<union> H"
    and m: "marked (blks st) (sb st) b"
  obtains st' where "bfree (dv st) b st = Ok st'" "fs_tx M H (Suc k) N st'" "fs_keeps H st st'" "itable st' = itable st"
    "blks st' = unmark (sb st) b (blks st)" "lgd st' = insert (BBLOCK b (sb st)) (lgd st)"
proof -
  let ?b = "BBLOCK b (sb st)" and ?f = "clrb (unat b mod BPB)"
  have len: "length (?f (blks st ?b)) = BSIZE" using length_blks [OF tx] by simp
  have k: "k = (if ?b \<in> lgd st \<union> M then k else Suc k)" "?b \<notin> H" "?b \<notin> log_area (lstart st)" using M b by auto
  obtain i st1 st2 st3 where u: "fs_bread (dv st) ?b st = Ok (i, st1)" "fs_data i st1 = blks st ?b" "sb st1 = sb st"
        "fs_log_write i (fs_bset i (?f (blks st ?b)) st1) = Ok st2" "fs_brelse i st2 = Ok st3" "fs_tx M H (Suc k) N st3"
        "fs_keeps H st st3" "blks st3 = (blks st)(?b := ?f (blks st ?b))" "itable st3 = itable st" "lgd st3 = insert ?b (lgd st)"
    by (rule fs_update [OF tx k len])
  then show thesis using that [OF _ u(6,7,9) _ u(10)] m by (simp add: bfree_def marked_def unmark_def clrb_def)
qed

text \<open>Freeing a block that the bitmap has as free is a panic.\<close>

lemma bfree_panics:
  assumes tx: "fs_tx M H (Suc k) (Suc N) st" and b: "BBLOCK b (sb st) \<notin> H" and m: "\<not> marked (blks st) (sb st) b"
  shows "bfree (dv st) b st = Panic ''freeing free block''"
proof -
  obtain i st1 where "fs_bread (dv st) (BBLOCK b (sb st)) st = Ok (i, st1)" "fs_data i st1 = blks st (BBLOCK b (sb st))"
    by (rule fs_peek [OF tx b])
  then show ?thesis using m by (simp add: bfree_def marked_def)
qed

end
