(* ===== verification/FsFile.thy ===== *)
theory FsFile
  imports FsBlocks
begin

text \<open>
  Files on top of the block layer: the block map of an inode (\<open>bmap\<close>), and \<open>readi\<close> and \<open>writei\<close> against
  the contents of a file as a sequence of bytes.
\<close>

section \<open>Well-formed file systems and files\<close>

definition inode_blocks :: "superblock \<Rightarrow> u32 set" where
  "inode_blocks s = (\<lambda>i. IBLOCK i s) ` {i. i < s_ninodes s}"

text \<open>A block of the data area.\<close>

definition data_blk :: "superblock \<Rightarrow> u32 \<Rightarrow> u32 \<Rightarrow> bool" where
  "data_blk s ls b = (b \<noteq> 0 \<and> b < s_size s \<and> b \<notin> log_area ls \<and> b \<notin> bmap_blocks s \<and> b \<notin> inode_blocks s)"

text \<open>The areas of the disk are apart, and all that the bitmap has as free is in the data area.\<close>

definition fs_ok :: "superblock \<Rightarrow> u32 \<Rightarrow> (u32 \<Rightarrow> byte list) \<Rightarrow> bool" where
  "fs_ok s ls V = ((\<forall>b. length (V b) = BSIZE) \<and> bmap_blocks s \<inter> (log_area ls \<union> inode_blocks s) = {} \<and>
     inode_blocks s \<inter> log_area ls = {} \<and> (\<forall>b. b < s_size s \<and> \<not> marked V s b \<longrightarrow> data_blk s ls b))"

text \<open>
  The block that holds block \<open>m\<close> of a file with the addresses \<open>A\<close>, 0 for none: twelve direct addresses
  and the entries of the indirect block.
\<close>

definition fblk :: "(u32 \<Rightarrow> byte list) \<Rightarrow> u32 list \<Rightarrow> nat \<Rightarrow> u32" where
  "fblk V A m = (if m < NDIRECT then A ! m else if A ! NDIRECT = 0 then 0 else get32 (V (A ! NDIRECT)) (4 * (m - NDIRECT)))"

definition used :: "(u32 \<Rightarrow> byte list) \<Rightarrow> u32 list \<Rightarrow> u32 \<Rightarrow> bool" where
  "used V A b = (b \<noteq> 0 \<and> (b = A ! NDIRECT \<or> (\<exists>m<MAXFILE. fblk V A m = b)))"

text \<open>The blocks of a file are data blocks, are marked, and none of them is used twice.\<close>

definition file_ok :: "superblock \<Rightarrow> u32 \<Rightarrow> (u32 \<Rightarrow> byte list) \<Rightarrow> u32 list \<Rightarrow> bool" where
  "file_ok s ls V A = (length A = Suc NDIRECT \<and> (\<forall>b. used V A b \<longrightarrow> data_blk s ls b \<and> marked V s b) \<and>
     (\<forall>m<MAXFILE. fblk V A m \<noteq> 0 \<longrightarrow> fblk V A m \<noteq> A ! NDIRECT \<and> (\<forall>m'<MAXFILE. fblk V A m' = fblk V A m \<longrightarrow> m' = m)))"

text \<open>
  How a file may grow: nothing is unmapped or freed, no block is marked that the file does not use, and no block
  outside the file and the bitmap that was in use changes.
\<close>

definition fgrows :: "superblock \<Rightarrow> (u32 \<Rightarrow> byte list) \<Rightarrow> u32 list \<Rightarrow> (u32 \<Rightarrow> byte list) \<Rightarrow> u32 list \<Rightarrow> bool" where
  "fgrows s V A V' A' =
     ((\<forall>b. b < s_size s \<and> marked V s b \<longrightarrow> marked V' s b) \<and>
      (\<forall>b. b < s_size s \<and> marked V' s b \<longrightarrow> marked V s b \<or> used V' A' b) \<and>
      (A ! NDIRECT \<noteq> 0 \<longrightarrow> A' ! NDIRECT = A ! NDIRECT) \<and>
      (\<forall>m<MAXFILE. fblk V A m \<noteq> 0 \<longrightarrow> fblk V' A' m = fblk V A m) \<and>
      (\<forall>b. b \<notin> bmap_blocks s \<and> (b < s_size s \<longrightarrow> marked V s b) \<and> \<not> used V A b \<longrightarrow> V' b = V b \<and> \<not> used V' A' b))"

lemma fgrows_refl [simp]: "fgrows s V A V A"
  by (simp add: fgrows_def)

lemma fgrows_used: "fgrows s V A V' A' \<Longrightarrow> used V A b \<Longrightarrow> used V' A' b"
  unfolding fgrows_def used_def by metis

lemma fgrowsD:
  assumes "fgrows s V A V' A'"
  shows "b < s_size s \<Longrightarrow> marked V s b \<Longrightarrow> marked V' s b"
    "b < s_size s \<Longrightarrow> marked V' s b \<Longrightarrow> marked V s b \<or> used V' A' b"
    "A ! NDIRECT \<noteq> 0 \<Longrightarrow> A' ! NDIRECT = A ! NDIRECT"
    "m < MAXFILE \<Longrightarrow> fblk V A m \<noteq> 0 \<Longrightarrow> fblk V' A' m = fblk V A m"
    "b \<notin> bmap_blocks s \<Longrightarrow> (b < s_size s \<Longrightarrow> marked V s b) \<Longrightarrow> \<not> used V A b \<Longrightarrow> V' b = V b \<and> \<not> used V' A' b"
  using assms unfolding fgrows_def by blast+

lemma fgrows_trans:
  assumes a: "fgrows s V A V1 A1" and b: "fgrows s V1 A1 V2 A2"
  shows "fgrows s V A V2 A2"
proof -
  note a' = fgrowsD [OF a] and b' = fgrowsD [OF b]
  show ?thesis
    unfolding fgrows_def
  proof (intro conjI allI impI)
    fix c assume c: "c < s_size s \<and> marked V2 s c"
    then have "marked V1 s c \<or> used V2 A2 c" using b'(2) by blast
    then show "marked V s c \<or> used V2 A2 c" using a'(2) c fgrows_used [OF b] by blast
  next
    fix m assume "m < MAXFILE" "fblk V A m \<noteq> 0"
    then show "fblk V2 A2 m = fblk V A m" using a'(4) b'(4) by metis
  next
    fix c assume c: "c \<notin> bmap_blocks s \<and> (c < s_size s \<longrightarrow> marked V s c) \<and> \<not> used V A c"
    then have "V1 c = V c" "\<not> used V1 A1 c" using a'(5) by blast+
    moreover have "c < s_size s \<Longrightarrow> marked V1 s c" using c a'(1) by blast
    ultimately show "V2 c = V c" "\<not> used V2 A2 c" using b'(5) c by metis+
  qed (use a'(1,3) b'(1,3) in auto)
qed

lemma zero_alloc:
  assumes ok: "fs_ok s ls V" and b: "b < s_size s" "\<not> marked V s b"
  defines "Z \<equiv> zero_alloc s b V"
  shows "data_blk s ls b" "x \<noteq> b \<Longrightarrow> x \<notin> bmap_blocks s \<Longrightarrow> Z x = V x"
    "c < s_size s \<Longrightarrow> marked Z s c = (c = b \<or> marked V s c)" "Z b = replicate BSIZE 0" "fs_ok s ls Z"
proof -
  have len: "length (V x) = BSIZE" for x using ok by (simp add: fs_ok_def)
  show d: "data_blk s ls b" using ok b by (simp add: fs_ok_def)
  have BB: "BBLOCK c s \<in> bmap_blocks s" if "c < s_size s" for c using that by (simp add: bmap_blocks_def)
  show o: "Z x = V x" if "x \<noteq> b" "x \<notin> bmap_blocks s" for x
    using that BB [OF b(1)] by (auto simp: Z_def zero_alloc_def mark_def)
  show m: "marked Z s c = (c = b \<or> marked V s c)" if "c < s_size s" for c
  proof -
    have "BBLOCK c s \<noteq> b" using BB [OF that] d by (auto simp: data_blk_def)
    then have "marked Z s c = marked (mark s b V) s c" by (simp add: Z_def zero_alloc_def marked_def)
    then show ?thesis using marked_mark(1) [OF len] by simp
  qed
  show "Z b = replicate BSIZE 0" by (simp add: Z_def zero_alloc_def)
  have "length (Z x) = BSIZE" for x using len by (simp add: Z_def zero_alloc_def mark_def)
  then show "fs_ok s ls Z" using ok m unfolding fs_ok_def by auto
qed

text \<open>A file gets one more block, by an address of the inode or an entry of the indirect block.\<close>

lemma file_add:
  assumes f: "file_ok s ls V A" and b: "data_blk s ls b" "\<not> marked V s b"
    and m: "m < MAXFILE" "fblk V A m = 0" and A': "length A' = Suc NDIRECT" "A' ! NDIRECT = A ! NDIRECT"
    and map: "\<And>m'. m' < MAXFILE \<Longrightarrow> fblk V' A' m' = (if m' = m then b else fblk V A m')"
    and mk: "\<And>c. c < s_size s \<Longrightarrow> marked V' s c = (c = b \<or> marked V s c)"
    and other: "\<And>x. x \<notin> bmap_blocks s \<Longrightarrow> x \<noteq> b \<Longrightarrow> \<not> used V A x \<Longrightarrow> V' x = V x"
  shows "file_ok s ls V' A'" "fgrows s V A V' A'"
proof -
  have nb: "b \<noteq> 0" "b < s_size s" using b(1) by (simp_all add: data_blk_def)
  have nu: "\<not> used V A b" using f b(2) by (auto simp: file_ok_def)
  have u: "used V' A' c = (c = b \<or> used V A c)" for c
    using map m nb A'(2) by (auto simp: used_def split: if_splits)
  have ne: "fblk V A m' \<noteq> b" if "m' < MAXFILE" for m' using nu that nb by (auto simp: used_def)
  have nd: "b \<noteq> A ! NDIRECT" using nu nb by (auto simp: used_def)
  have du: "data_blk s ls c \<and> marked V' s c" if "used V' A' c" for c
  proof (cases "c = b")
    case True
    then show ?thesis using b(1) mk nb by simp
  next
    case False
    then have "data_blk s ls c \<and> marked V s c" using that u f by (simp add: file_ok_def)
    then show ?thesis using mk by (simp add: data_blk_def)
  qed
  have inj: "fblk V A m' \<noteq> A ! NDIRECT" "m'' < MAXFILE \<Longrightarrow> fblk V A m'' = fblk V A m' \<Longrightarrow> m'' = m'"
    if "m' < MAXFILE" "fblk V A m' \<noteq> 0" for m' m'' using f that by (simp_all add: file_ok_def)
  show "file_ok s ls V' A'"
    unfolding file_ok_def
  proof (intro conjI allI impI)
    fix m' m'' assume "m' < MAXFILE" "fblk V' A' m' \<noteq> 0" "m'' < MAXFILE" "fblk V' A' m'' = fblk V' A' m'"
    then show "m'' = m'" using map inj(2) [of m' m''] ne [of m'] ne [of m''] by (auto split: if_splits)
  next
    fix m' assume "m' < MAXFILE" "fblk V' A' m' \<noteq> 0"
    then show "fblk V' A' m' \<noteq> A' ! NDIRECT" using map inj(1) [of m'] nd A'(2) by (auto split: if_splits)
  qed (use A'(1) du in auto)
  show "fgrows s V A V' A'"
    unfolding fgrows_def
  proof (intro conjI allI impI)
    fix c assume c: "c \<notin> bmap_blocks s \<and> (c < s_size s \<longrightarrow> marked V s c) \<and> \<not> used V A c"
    then have "c \<noteq> b" using nb b(2) by auto
    then show "V' c = V c" "\<not> used V' A' c" using c u other by auto
  qed (use mk u m A'(2) map in auto)
qed

text \<open>A file gets its indirect block, which is all zero.\<close>

lemma file_indirect:
  assumes f: "file_ok s ls V A" and ok: "fs_ok s ls V" and b: "b < s_size s" "\<not> marked V s b" and A: "A ! NDIRECT = 0"
  defines "Z \<equiv> zero_alloc s b V" and "A' \<equiv> A[NDIRECT := b]"
  shows "file_ok s ls Z A'" "fgrows s V A Z A'" "m < MAXFILE \<Longrightarrow> fblk Z A' m = fblk V A m"
proof -
  note z = zero_alloc [OF ok b, folded Z_def]
  have lA: "length A = Suc NDIRECT" using f by (simp add: file_ok_def)
  have nb: "b \<noteq> 0" using z(1) by (simp add: data_blk_def)
  have nu: "\<not> used V A b" using f b(2) by (auto simp: file_ok_def)
  have zero: "get32 (replicate BSIZE 0) (4 * j) = 0" if "j < NINDIRECT" for j
  proof -
    have "slice (4 * j) 4 (replicate BSIZE 0) = replicate 4 0" using that by (simp add: slice_def kconst min_def)
    moreover have "dec (replicate n (0::byte)) = (0::u32)" for n by (induction n) simp_all
    ultimately show ?thesis by (simp add: get32_def)
  qed
  show map: "fblk Z A' m = fblk V A m" if "m < MAXFILE" for m
    using that A lA nb zero [of "m - NDIRECT"] z(4) by (auto simp: fblk_def A'_def kconst)
  have u: "used Z A' c = (c = b \<or> used V A c)" for c
    using map lA A nb by (auto simp: used_def A'_def)
  have du: "data_blk s ls c \<and> marked Z s c" if "used Z A' c" for c
    using that u z(1,3) f by (auto simp: file_ok_def data_blk_def)
  have nf: "fblk V A m \<noteq> b" if "m < MAXFILE" for m using nu nb that by (auto simp: used_def)
  show "file_ok s ls Z A'"
    unfolding file_ok_def
  proof (intro conjI allI impI)
    fix m m' assume "m < MAXFILE" "fblk Z A' m \<noteq> 0" "m' < MAXFILE" "fblk Z A' m' = fblk Z A' m"
    then show "m' = m" using f map by (simp add: file_ok_def)
  qed (use du lA nf map in \<open>auto simp: A'_def\<close>)
  show "fgrows s V A Z A'"
    unfolding fgrows_def
  proof (intro conjI allI impI)
    fix c assume c: "c \<notin> bmap_blocks s \<and> (c < s_size s \<longrightarrow> marked V s c) \<and> \<not> used V A c"
    then have "c \<noteq> b" using b by auto
    then show "Z c = V c" "\<not> used Z A' c" using c u z(2) by auto
  qed (use z(3) u A map in auto)
qed

section \<open>The block map\<close>

abbreviation addrs :: "nat \<Rightarrow> fsys \<Rightarrow> u32 list" where "addrs ip st \<equiv> i_addrs (itable st ! ip)"

definition fs_file :: "nat \<Rightarrow> fsys \<Rightarrow> bool" where
  "fs_file ip st = (ip < length (itable st) \<and> i_dev (itable st ! ip) = dv st \<and> fs_ok (sb st) (lstart st) (blks st) \<and>
     file_ok (sb st) (lstart st) (blks st) (addrs ip st))"

text \<open>
  A step of \<open>bmap\<close> on the inode \<open>ip\<close>: only its addresses change in the inode table, the file grows, the
  blocks it already had keep their contents, and the blocks that are newly marked are logged.
\<close>

definition new_logged :: "fsys \<Rightarrow> fsys \<Rightarrow> bool" where
  "new_logged st st' = (\<forall>b. b < s_size (sb st) \<and> marked (blks st') (sb st) b \<longrightarrow> marked (blks st) (sb st) b \<or> b \<in> lgd st')"

lemma new_logged_refl: "blks st' = blks st \<Longrightarrow> new_logged st st'"
  by (simp add: new_logged_def)

lemma new_logged_trans:
  assumes "new_logged st st1" "new_logged st1 st2" "fs_keeps H st st1" "fs_keeps H st1 st2"
  shows "new_logged st st2"
  using assms fs_keepsD(1) [OF assms(3)] fs_keepsD(4) [OF assms(4)] unfolding new_logged_def by auto

definition fstep :: "nat \<Rightarrow> fsys \<Rightarrow> fsys \<Rightarrow> bool" where
  "fstep ip st st' = (fs_keeps {} st st' \<and> fs_file ip st' \<and>
     (\<exists>A'. itable st' = (itable st)[ip := (itable st ! ip)\<lparr>i_addrs := A'\<rparr>]) \<and>
     fgrows (sb st) (blks st) (addrs ip st) (blks st') (addrs ip st') \<and> new_logged st st' \<and>
     (\<forall>m<MAXFILE. fblk (blks st) (addrs ip st) m \<noteq> 0 \<longrightarrow>
        blks st' (fblk (blks st) (addrs ip st) m) = blks st (fblk (blks st) (addrs ip st) m)))"

lemma fstepD:
  assumes "fstep ip st st'"
  shows "fs_keeps {} st st'" "fs_file ip st'" "fgrows (sb st) (blks st) (addrs ip st) (blks st') (addrs ip st')"
    "m < MAXFILE \<Longrightarrow> fblk (blks st) (addrs ip st) m \<noteq> 0 \<Longrightarrow>
       blks st' (fblk (blks st) (addrs ip st) m) = blks st (fblk (blks st) (addrs ip st) m)"
    "new_logged st st'"
  using assms unfolding fstep_def by blast+

lemma fstep_refl: "fs_file ip st \<Longrightarrow> fstep ip st st"
  unfolding fstep_def by (auto intro!: exI [of _ "addrs ip st"] new_logged_refl)

lemma fstep_trans:
  assumes a: "fstep ip st st1" and b: "fstep ip st1 st2"
  shows "fstep ip st st2"
proof -
  let ?f = "fblk (blks st) (addrs ip st)"
  have sb: "sb st1 = sb st" using a fs_keepsD(1) by (auto simp: fstep_def)
  have g: "fgrows (sb st) (blks st) (addrs ip st) (blks st1) (addrs ip st1)" "fgrows (sb st) (blks st1) (addrs ip st1) (blks st2) (addrs ip st2)"
    using a b sb by (simp_all add: fstep_def)
  obtain A1 where A1: "itable st1 = (itable st)[ip := (itable st ! ip)\<lparr>i_addrs := A1\<rparr>]" using a by (auto simp: fstep_def)
  obtain A2 where A2: "itable st2 = (itable st1)[ip := (itable st1 ! ip)\<lparr>i_addrs := A2\<rparr>]" using b by (auto simp: fstep_def)
  have "ip < length (itable st1)" using a by (simp add: fstep_def fs_file_def)
  then have "itable st2 = (itable st)[ip := (itable st ! ip)\<lparr>i_addrs := A2\<rparr>]" unfolding A2 A1 by simp
  moreover have "blks st2 (?f m) = blks st (?f m)" if "m < MAXFILE" "?f m \<noteq> 0" for m
  proof -
    have "fblk (blks st1) (addrs ip st1) m = ?f m" "blks st1 (?f m) = blks st (?f m)"
      using fgrowsD(4) [OF g(1) that] a that by (simp_all add: fstep_def)
    then show ?thesis using b that by (auto simp: fstep_def)
  qed
  moreover have "fs_keeps {} st st2" using a b fs_keeps_trans by (auto simp: fstep_def)
  moreover have "new_logged st st2" using new_logged_trans a b unfolding fstep_def by blast
  ultimately show ?thesis using fgrows_trans [OF g] b by (auto simp: fstep_def)
qed

definition nbitmap :: "superblock \<Rightarrow> nat" where
  "nbitmap s = (unat (s_size s) + BPB - 1) div BPB"

lemma fs_ok_alloc:
  assumes ok: "fs_ok s ls V" and H: "\<And>h. h \<in> H \<Longrightarrow> h \<notin> bmap_blocks s \<and> (h < s_size s \<longrightarrow> marked V s h)"
  shows "alloc_ok H ls s V"
  unfolding alloc_ok_def
proof (intro allI impI conjI)
  fix b assume b: "b < s_size s"
  then have "BBLOCK b s \<in> bmap_blocks s" by (auto simp: bmap_blocks_def)
  then show "BBLOCK b s \<notin> log_area ls \<union> H" using ok H by (auto simp: fs_ok_def)
  show "marked V s b \<or> b \<notin> log_area ls \<union> H" using ok H b by (auto simp: fs_ok_def data_blk_def)
qed

text \<open>\<open>balloc\<close> for a caller that holds only blocks in use.\<close>

lemma balloc_cases:
  assumes tx: "fs_tx M H (Suc (Suc k)) (nbitmap (sb st) + Suc N) st" and M: "bmap_blocks (sb st) \<subseteq> M"
    and ok: "fs_ok (sb st) (lstart st) (blks st)" and H: "\<And>h. h \<in> H \<Longrightarrow> h \<notin> bmap_blocks (sb st) \<and> (h < s_size (sb st) \<longrightarrow> marked (blks st) (sb st) h)"
  obtains (none) st' where "balloc (dv st) st = Ok (0, st')" "full (blks st) (sb st)" "fs_keeps H st st'" "itable st' = itable st"
      "blks st' = blks st" "lgd st' = lgd st" "fs_tx M H (Suc (Suc k)) N st'"
  | (new) b st' where "balloc (dv st) st = Ok (b, st')" "b \<noteq> 0" "b < s_size (sb st)" "\<not> marked (blks st) (sb st) b" "fs_keeps H st st'"
      "itable st' = itable st" "blks st' = zero_alloc (sb st) b (blks st)" "lgd st' = insert b (insert (BBLOCK b (sb st)) (lgd st))"
      "fs_tx M H (Suc k) N st'"
proof -
  note n = none and w = new
  have "alloc_ok H (lstart st) (sb st) (blks st)" using fs_ok_alloc [OF ok H] .
  then obtain b st' where r: "balloc (dv st) st = Ok (b, st')" "fs_keeps H st st'" "itable st' = itable st"
    "b = 0 \<and> full (blks st) (sb st) \<and> blks st' = blks st \<and> lgd st' = lgd st \<and> fs_tx M H (Suc (Suc k)) N st' \<or>
     first_free (blks st) (sb st) b \<and> blks st' = zero_alloc (sb st) b (blks st) \<and>
       lgd st' = insert b (insert (BBLOCK b (sb st)) (lgd st)) \<and> fs_tx M H (Suc k) N st'"
    using balloc_spec [OF tx [unfolded nbitmap_def] M] by (auto simp: wp_def)
  from r(4) show thesis
  proof (elim disjE conjE)
    assume "b = 0" "full (blks st) (sb st)" "blks st' = blks st" "lgd st' = lgd st" "fs_tx M H (Suc (Suc k)) N st'"
    then show thesis using n r by blast
  next
    assume a: "first_free (blks st) (sb st) b" "blks st' = zero_alloc (sb st) b (blks st)"
       "lgd st' = insert b (insert (BBLOCK b (sb st)) (lgd st))" "fs_tx M H (Suc k) N st'"
    then have "b < s_size (sb st)" "\<not> marked (blks st) (sb st) b" by (simp_all add: first_free_def)
    moreover from this have "b \<noteq> 0" using ok by (auto simp: fs_ok_def data_blk_def)
    ultimately show thesis using w r a by blast
  qed
qed

text \<open>The inode with an address filled in.\<close>

definition set_addr :: "nat \<Rightarrow> nat \<Rightarrow> u32 \<Rightarrow> fsys \<Rightarrow> fsys" where
  "set_addr ip k b st = upd_inode ip (\<lambda>i. i\<lparr>i_addrs := (i_addrs i)[k := b]\<rparr>) st"

lemma set_addr [simp]:
  "fio (set_addr ip k b st) = fio st" "sb (set_addr ip k b st) = sb st" "fs_tx M H n N (set_addr ip k b st) = fs_tx M H n N st"
  "fs_keeps H st0 (set_addr ip k b st) = fs_keeps H st0 st"
  "ip < length (itable st) \<Longrightarrow> addrs ip (set_addr ip k b st) = (addrs ip st)[k := b]"
  by (simp_all add: set_addr_def upd_inode_def fs_tx_def fs_keeps_def)

lemma bmap_direct:
  assumes f: "fs_file ip st" and m: "m < NDIRECT" "addrs ip st ! m = 0" and st': "fs_keeps {} st st'" "itable st' = itable st"
    "blks st' = zero_alloc (sb st) b (blks st)" and b: "b < s_size (sb st)" "\<not> marked (blks st) (sb st) b" "b \<in> lgd st'"
  shows "fstep ip st (set_addr ip m b st')" "fblk (blks st') (addrs ip (set_addr ip m b st')) m = b"
proof -
  let ?s = "sb st" and ?V = "blks st" and ?A = "addrs ip st" and ?Z = "zero_alloc (sb st) b (blks st)"
  note fi = f [unfolded fs_file_def]
  have ok: "fs_ok ?s (lstart st) ?V" and fk: "file_ok ?s (lstart st) ?V ?A" and ip: "ip < length (itable st)" using fi by simp_all
  note z = zero_alloc [OF ok b(1,2)] and same = fs_keepsD [OF st'(1)]
  have A: "addrs ip (set_addr ip m b st') = ?A[m := b]" using st'(2) ip by simp
  have lA: "length ?A = Suc NDIRECT" using fk by (simp add: file_ok_def)
  have nu: "\<not> used ?V ?A b" using fk b(2) by (auto simp: file_ok_def)
  have uz: "?Z c = ?V c" if "used ?V ?A c" for c
    using that nu fk by (intro z(2)) (auto simp: file_ok_def data_blk_def)
  have ind: "?Z (?A ! NDIRECT) = ?V (?A ! NDIRECT)" if "?A ! NDIRECT \<noteq> 0" using uz that by (simp add: used_def)
  have map: "fblk ?Z (?A[m := b]) m' = (if m' = m then b else fblk ?V ?A m')" if "m' < MAXFILE" for m'
    using m lA ind by (auto simp: fblk_def)
  have m': "m < MAXFILE" "fblk ?V ?A m = 0" using m by (simp_all add: kconst fblk_def)
  have add: "file_ok ?s (lstart st) ?Z (?A[m := b])" "fgrows ?s ?V ?A ?Z (?A[m := b])"
    by (rule file_add [OF fk z(1) b(2) m' _ _ map z(3) z(2)]; use lA m in simp)+
  have "fs_file ip (set_addr ip m b st')"
    using add(1) fi same st'(2,3) z(5) A by (simp add: fs_file_def) (simp add: set_addr_def upd_inode_def)
  moreover have "itable (set_addr ip m b st') = (itable st)[ip := (itable st ! ip)\<lparr>i_addrs := ?A[m := b]\<rparr>]"
    using st'(2) by (simp add: set_addr_def upd_inode_def)
  moreover have "?Z (fblk ?V ?A m) = ?V (fblk ?V ?A m)" if "m < MAXFILE" "fblk ?V ?A m \<noteq> 0" for m
    using that by (intro uz) (auto simp: used_def)
  moreover have "new_logged st (set_addr ip m b st')" using z(3) b(3) st'(3) by (auto simp: new_logged_def)
  ultimately show "fstep ip st (set_addr ip m b st')"
    using st'(1,3) add(2) A by (auto simp: fstep_def)
  show "fblk (blks st') (addrs ip (set_addr ip m b st')) m = b" using map [OF m'(1)] A st'(3) by simp
qed

lemma bmap_new_indirect:
  assumes f: "fs_file ip st" and m: "addrs ip st ! NDIRECT = 0" and st': "fs_keeps {} st st'" "itable st' = itable st"
    "blks st' = zero_alloc (sb st) b (blks st)" and b: "b < s_size (sb st)" "\<not> marked (blks st) (sb st) b" "b \<in> lgd st'"
  shows "fstep ip st (set_addr ip NDIRECT b st')" "addrs ip (set_addr ip NDIRECT b st') ! NDIRECT = b"
    "k < MAXFILE \<Longrightarrow> fblk (blks st') (addrs ip (set_addr ip NDIRECT b st')) k = fblk (blks st) (addrs ip st) k"
proof -
  let ?s = "sb st" and ?V = "blks st" and ?A = "addrs ip st" and ?Z = "zero_alloc (sb st) b (blks st)"
  note fi = f [unfolded fs_file_def]
  have ok: "fs_ok ?s (lstart st) ?V" and fk: "file_ok ?s (lstart st) ?V ?A" and ip: "ip < length (itable st)" using fi by simp_all
  note z = zero_alloc [OF ok b(1,2)] and same = fs_keepsD [OF st'(1)]
  have A: "addrs ip (set_addr ip NDIRECT b st') = ?A[NDIRECT := b]" using st'(2) ip by simp
  have lA: "length ?A = Suc NDIRECT" using fk by (simp add: file_ok_def)
  have nu: "\<not> used ?V ?A b" using fk b(2) by (auto simp: file_ok_def)
  have uz: "?Z c = ?V c" if "used ?V ?A c" for c
    using that nu fk by (intro z(2)) (auto simp: file_ok_def data_blk_def)
  note add = file_indirect [OF fk ok b(1,2) m]
  have "fs_file ip (set_addr ip NDIRECT b st')"
    using add(1) fi same st'(2,3) z(5) A by (simp add: fs_file_def) (simp add: set_addr_def upd_inode_def)
  moreover have "itable (set_addr ip NDIRECT b st') = (itable st)[ip := (itable st ! ip)\<lparr>i_addrs := ?A[NDIRECT := b]\<rparr>]"
    using st'(2) by (simp add: set_addr_def upd_inode_def)
  moreover have "?Z (fblk ?V ?A m) = ?V (fblk ?V ?A m)" if "m < MAXFILE" "fblk ?V ?A m \<noteq> 0" for m
    using that by (intro uz) (auto simp: used_def)
  moreover have "new_logged st (set_addr ip NDIRECT b st')" using z(3) b(3) st'(3) by (auto simp: new_logged_def)
  ultimately show "fstep ip st (set_addr ip NDIRECT b st')"
    using st'(1,3) add(2) A by (auto simp: fstep_def)
  show "addrs ip (set_addr ip NDIRECT b st') ! NDIRECT = b" using A lA by simp
  show "k < MAXFILE \<Longrightarrow> fblk (blks st') (addrs ip (set_addr ip NDIRECT b st')) k = fblk ?V ?A k" using add(3) A st'(3) by simp
qed

lemma bmap_entry:
  assumes f: "fs_file ip st" and m: "j < NINDIRECT" "addrs ip st ! NDIRECT = ind" "ind \<noteq> 0" "fblk (blks st) (addrs ip st) (NDIRECT + j) = 0"
    and st': "fs_keeps {} st st'" "itable st' = itable st"
    "blks st' = (zero_alloc (sb st) b (blks st))(ind := put32 (4 * j) b (blks st ind))" and b: "b < s_size (sb st)" "\<not> marked (blks st) (sb st) b" "b \<in> lgd st'"
  shows "fstep ip st st'" "fblk (blks st') (addrs ip st') (NDIRECT + j) = b"
proof -
  let ?s = "sb st" and ?V = "blks st" and ?A = "addrs ip st" and ?Z = "zero_alloc (sb st) b (blks st)"
  let ?W = "?Z(ind := put32 (4 * j) b (?V ind))"
  note fi = f [unfolded fs_file_def]
  have ok: "fs_ok ?s (lstart st) ?V" and fk: "file_ok ?s (lstart st) ?V ?A" using fi by simp_all
  note z = zero_alloc [OF ok b(1,2)] and same = fs_keepsD [OF st'(1)]
  have lA: "length ?A = Suc NDIRECT" and nu: "\<not> used ?V ?A b" using fk b(2) by (auto simp: file_ok_def)
  have ui: "used ?V ?A ind" using m by (simp add: used_def)
  then have i: "ind \<noteq> b" "ind \<notin> bmap_blocks ?s" "data_blk ?s (lstart st) ind" using nu fk by (auto simp: file_ok_def data_blk_def)
  have len: "length (?V ind) = BSIZE" using ok by (simp add: fs_ok_def)
  have Wo: "?W x = ?V x" if "x \<noteq> b" "x \<notin> bmap_blocks ?s" "x \<noteq> ind" for x using z(2) that by simp
  have uz: "?W c = ?V c" if "used ?V ?A c" "c \<noteq> ind" for c
    using that nu fk by (intro Wo) (auto simp: file_ok_def data_blk_def)
  have map: "fblk ?W ?A m' = (if m' = NDIRECT + j then b else fblk ?V ?A m')" if "m' < MAXFILE" for m'
  proof (cases "m' < NDIRECT")
    case False
    then obtain j' where j': "m' = NDIRECT + j'" using le_Suc_ex not_less by blast
    then have "4 * j + 4 \<le> BSIZE" "4 * j' + 4 \<le> BSIZE" using that m(1) by (simp_all add: kconst)
    then have "get32 (put32 (4 * j) b (?V ind)) (4 * j') = (if j' = j then b else get32 (?V ind) (4 * j'))"
      using len get32_put32 [of "4 * j" "?V ind" "4 * j'" b] by (cases j' j rule: linorder_cases) (simp_all add: kconst)
    then show ?thesis using j' m by (simp add: fblk_def)
  qed (simp add: fblk_def)
  have mk: "marked ?W ?s c = (c = b \<or> marked ?V ?s c)" if "c < s_size ?s" for c
  proof -
    have "BBLOCK c ?s \<noteq> ind" using i(2) that by (auto simp: bmap_blocks_def)
    then have "marked ?W ?s c = marked ?Z ?s c" by (simp add: marked_def)
    then show ?thesis using z(3) [OF that] by simp
  qed
  have m': "NDIRECT + j < MAXFILE" using m(1) by (simp add: kconst)
  have add: "file_ok ?s (lstart st) ?W ?A" "fgrows ?s ?V ?A ?W ?A"
    by (rule file_add [OF fk z(1) b(2) m' m(4) lA refl map mk Wo]; use ui in blast)+
  have "fs_ok ?s (lstart st) ?W" using z(5) len m(1) mk z(3) unfolding fs_ok_def by (auto simp: kconst)
  then have "fs_file ip st'" using add(1) fi same st'(2,3) by (simp add: fs_file_def)
  moreover have "\<exists>A'. itable st' = (itable st)[ip := (itable st ! ip)\<lparr>i_addrs := A'\<rparr>]"
    by (rule exI [of _ ?A]) (use st'(2) in simp)
  moreover have "?W (fblk ?V ?A m) = ?V (fblk ?V ?A m)" if "m < MAXFILE" "fblk ?V ?A m \<noteq> 0" for m
    using that fk m(2) by (intro uz) (auto simp: used_def file_ok_def)
  moreover have "new_logged st st'" using mk b(3) st'(3) by (auto simp: new_logged_def)
  ultimately show "fstep ip st st'" using st'(1,2,3) add(2) unfolding fstep_def by auto
  show "fblk (blks st') (addrs ip st') (NDIRECT + j) = b" using map [OF m'] st'(2,3) by simp
qed

text \<open>How much room in the log the indirect block may still need.\<close>

definition ind_room :: "nat \<Rightarrow> fsys \<Rightarrow> nat" where
  "ind_room ip st = (if addrs ip st ! NDIRECT \<noteq> 0 \<and> addrs ip st ! NDIRECT \<in> lgd st then 0 else 1)"

lemma ind_room_less:
  assumes "fstep ip st st'"
  shows "ind_room ip st' \<le> ind_room ip st"
proof -
  have "addrs ip st ! NDIRECT \<noteq> 0 \<Longrightarrow> addrs ip st' ! NDIRECT = addrs ip st ! NDIRECT" "lgd st \<subseteq> lgd st'"
    using fgrowsD(3) [OF fstepD(3) [OF assms]] fs_keepsD(4) [OF fstepD(1) [OF assms]] by simp_all
  then show ?thesis by (auto simp: ind_room_def)
qed

lemma fs_file_used:
  assumes "fs_file ip st" "used (blks st) (addrs ip st) b"
  shows "b \<notin> bmap_blocks (sb st)" "b < s_size (sb st)" "marked (blks st) (sb st) b" "b \<notin> log_area (lstart st)" "b \<notin> inode_blocks (sb st)"
    "b \<noteq> 0"
  using assms by (auto simp: fs_file_def file_ok_def data_blk_def)

text \<open>\<open>bmap\<close>'s first half for an indirect block: find the indirect block, or allocate it.\<close>

definition bmap_ind :: "nat \<Rightarrow> fsys \<Rightarrow> (u32 \<times> fsys) result" where
  "bmap_ind ip st =
     (let i = itable st ! ip; addr = i_addrs i ! NDIRECT in
      if addr = 0 then
        bindR (balloc (i_dev i) st) (\<lambda>(addr, st1). if addr = 0 then Ok (0, st1) else Ok (addr, set_addr ip NDIRECT addr st1))
      else Ok (addr, st))"

definition bmap_entry_of :: "u32 \<Rightarrow> nat \<Rightarrow> u32 \<Rightarrow> fsys \<Rightarrow> (u32 \<times> fsys) result" where
  "bmap_entry_of dev bn addr st =
      bindR (fs_bread dev addr st) (\<lambda>(bp, st2).
          let addr = get32 (fs_data bp st2) (4 * bn) in
          bindR (if addr = 0 then
                   bindR (balloc dev st2) (\<lambda>(addr, st3).
                   if addr \<noteq> 0
                   then bindR (fs_log_write bp (fs_bset bp (put32 (4 * bn) addr (fs_data bp st3)) st3)) (\<lambda>st4. Ok (addr, st4))
                   else Ok (addr, st3))
                 else Ok (addr, st2)) (\<lambda>(addr, st5).
          bindR (fs_brelse bp st5) (\<lambda>st6. Ok (addr, st6))))"

lemma bmap_split:
  assumes "unat bn = NDIRECT + j" "j < NINDIRECT"
  shows "bmap ip bn st = bindR (bmap_ind ip st) (\<lambda>(addr, st1). if addr = 0 then Ok (0, st1)
    else bmap_entry_of (i_dev (itable st ! ip)) j addr st1)"
proof -
  have e: "(unat bn < NDIRECT) = False" "unat bn - NDIRECT = j" "(j < NINDIRECT) = True" using assms by simp_all
  show ?thesis unfolding bmap_def bmap_ind_def bmap_entry_of_def set_addr_def Let_def e if_True if_False by (rule refl)
qed

lemma bmap_ind_spec:
  assumes tx: "fs_tx M {} (k + ind_room ip st + 3) (nbitmap (sb st) + Suc N) st" and M: "bmap_blocks (sb st) \<subseteq> M" and f: "fs_file ip st"
  obtains a st1 where "bmap_ind ip st = Ok (a, st1)" "fstep ip st st1" "a = addrs ip st1 ! NDIRECT"
    "\<And>m. m < MAXFILE \<Longrightarrow> fblk (blks st1) (addrs ip st1) m = fblk (blks st) (addrs ip st) m"
    "a = 0 \<Longrightarrow> full (blks st1) (sb st1)" "fs_tx M {} (k + ind_room ip st1 + 3) N st1"
proof (cases "addrs ip st ! NDIRECT = 0")
  case True
  note result = that
  have dev: "i_dev (itable st ! ip) = dv st" and ip: "ip < length (itable st)" and ok: "fs_ok (sb st) (lstart st) (blks st)"
    using f by (simp_all add: fs_file_def)
  have r: "ind_room ip st = 1" using True by (simp add: ind_room_def)
  have tx': "fs_tx M {} (Suc (Suc (k + 2))) (nbitmap (sb st) + Suc N) st" using tx r by (simp add: numeral_eq_Suc)
  show thesis
  proof (rule balloc_cases [OF tx' M ok])
    fix st' assume n: "balloc (dv st) st = Ok (0, st')" "full (blks st) (sb st)" "fs_keeps {} st st'" "itable st' = itable st"
      "blks st' = blks st" "lgd st' = lgd st" "fs_tx M {} (Suc (Suc (k + 2))) N st'"
    have e: "sb st' = sb st" "dv st' = dv st" "lstart st' = lstart st" using fs_keepsD [OF n(3)] by simp_all
    then have "fs_file ip st'" using f n(4,5) by (simp add: fs_file_def)
    then have "fstep ip st st'"
      using n(3,4,5) unfolding fstep_def by (auto intro!: exI [of _ "addrs ip st"] new_logged_refl)
    then show thesis
      by (intro result [of 0 st']) (use n e True dev r in \<open>auto simp: bmap_ind_def ind_room_def numeral_eq_Suc\<close>)
  next
    fix b st' assume n: "balloc (dv st) st = Ok (b, st')" "b \<noteq> 0" "b < s_size (sb st)" "\<not> marked (blks st) (sb st) b" "fs_keeps {} st st'"
      "itable st' = itable st" "blks st' = zero_alloc (sb st) b (blks st)" "lgd st' = insert b (insert (BBLOCK b (sb st)) (lgd st))"
      "fs_tx M {} (Suc (k + 2)) N st'"
    have "b \<in> lgd st'" using n(8) by simp
    note i = bmap_new_indirect [OF f True n(5-7,3,4) this]
    have "ind_room ip (set_addr ip NDIRECT b st') = 0" using i(2) n(2,8) by (simp add: ind_room_def)
    then show thesis
      by (intro result [of b "set_addr ip NDIRECT b st'"]) (use n i dev True in \<open>auto simp: bmap_ind_def numeral_eq_Suc\<close>)
  qed simp
next
  case False
  have "fs_tx M {} (k + ind_room ip st + 3) N st" using tx by (rule fs_tx_less) simp_all
  then show thesis using that [of "addrs ip st ! NDIRECT" st] False fstep_refl [OF f] by (simp add: bmap_ind_def)
qed

lemma bmap_entry_spec:
  assumes tx: "fs_tx M {} (k + ind_room ip st + 3) (nbitmap (sb st) + Suc (Suc N)) st" and M: "bmap_blocks (sb st) \<subseteq> M" and f: "fs_file ip st"
    and ind: "addrs ip st ! NDIRECT = ind" "ind \<noteq> 0" and j: "j < NINDIRECT"
  obtains a st1 where "bmap_entry_of (dv st) j ind st = Ok (a, st1)" "fstep ip st st1" "a = fblk (blks st1) (addrs ip st1) (NDIRECT + j)"
    "a = 0 \<Longrightarrow> full (blks st1) (sb st1)" "fs_tx M {} (k + ind_room ip st1 + (if a \<in> lgd st1 then 2 else 3)) N st1"
proof -
  note result = that
  let ?s = "sb st" and ?V = "blks st" and ?A = "addrs ip st" and ?r = "ind_room ip st"
  have dev: "i_dev (itable st ! ip) = dv st" and ok: "fs_ok ?s (lstart st) ?V" using f by (simp_all add: fs_file_def)
  have ui: "used ?V ?A ind" using ind by (simp add: used_def)
  note iu = fs_file_used [OF f ui]
  have tx0: "fs_tx M {} (Suc (k + ?r + 2)) (Suc (nbitmap ?s + Suc N)) st" using tx by (simp add: numeral_eq_Suc)
  obtain i st2 where r: "fs_bread (dv st) ind st = Ok (i, st2)" "fs_tx M {ind} (k + ?r + 2) (nbitmap ?s + Suc N) st2" "fs_keeps {} st st2"
      "hold st2 ind i" "blks st2 = ?V" "fs_data i st2 = ?V ind" "itable st2 = itable st" "lgd st2 = lgd st"
      "ind \<in> lgd st \<or> ?V ind = disk (bc (fio st)) ind"
    using fs_bread_spec [OF tx0, of ind] by (auto simp: wp_def)
  note s2 = fs_keepsD [OF r(3)]
  have fb: "fblk ?V ?A (NDIRECT + j) = get32 (?V ind) (4 * j)" using ind by (simp add: fblk_def)
  have fr: "fstep ip st st'" "ind_room ip st' = ?r" if "fs_keeps {} st st'" "itable st' = itable st" "blks st' = ?V" "lgd st' = lgd st" for st'
  proof -
    have "fs_file ip st'" using f that(2,3) fs_keepsD [OF that(1)] by (simp add: fs_file_def)
    then show "fstep ip st st'" using that unfolding fstep_def by (auto intro!: exI [of _ "addrs ip st"] new_logged_refl)
    show "ind_room ip st' = ?r" using that by (simp add: ind_room_def)
  qed
  show thesis
  proof (cases "get32 (?V ind) (4 * j) = 0")
    case False
    have cl: "ind \<in> lgd st2 \<or> blks st2 ind = disk (bc (fio st2)) ind" using r(5,8,9) s2(5) by simp
    obtain st6 where e: "fs_brelse i st2 = Ok st6" "fs_tx M {} (Suc (k + ?r + 2)) (nbitmap ?s + Suc N) st6" "fs_keeps {} st2 st6"
        "blks st6 = blks st2" "itable st6 = itable st2" "lgd st6 = lgd st2"
      using fs_brelse_spec [OF r(2) _ r(4) cl] by (auto simp: wp_def)
    note st = fr [of st6, OF fs_keeps_trans [OF r(3) e(3)]]
    have "fs_tx M {} (k + ind_room ip st6 + (if x \<in> lgd st6 then 2 else 3)) N st6" for x
      using st(2) r e by (intro fs_tx_less [OF e(2)]) simp_all
    then show thesis
      by (intro result [of "get32 (?V ind) (4 * j)" st6]) (use r e st dev False fb in \<open>auto simp: bmap_entry_of_def\<close>)
  next
    case True
    have H: "h \<notin> bmap_blocks (sb st2) \<and> (h < s_size (sb st2) \<longrightarrow> marked (blks st2) (sb st2) h)" if "h \<in> {ind}" for h
      using that iu s2(1) r(5) by simp
    have tx2: "fs_tx M {ind} (Suc (Suc (k + ?r))) (nbitmap (sb st2) + Suc N) st2" using r(2) s2(1) by simp
    have ok2: "fs_ok (sb st2) (lstart st2) (blks st2)" "bmap_blocks (sb st2) \<subseteq> M" using ok M r(5) s2 by simp_all
    show thesis
    proof (rule balloc_cases [OF tx2 ok2(2,1) H])
      fix st3 assume n: "balloc (dv st2) st2 = Ok (0, st3)" "full (blks st2) (sb st2)" "fs_keeps {ind} st2 st3" "itable st3 = itable st2"
        "blks st3 = blks st2" "lgd st3 = lgd st2" "fs_tx M {ind} (Suc (Suc (k + ?r))) N st3"
      note s3 = fs_keepsD [OF n(3)]
      have cl: "ind \<in> lgd st3 \<or> blks st3 ind = disk (bc (fio st3)) ind" using n(5,6) r(5,8,9) s2(5) s3(5) by simp
      have h: "hold st3 ind i" using s3(6) r(4) by simp
      obtain st6 where e: "fs_brelse i st3 = Ok st6" "fs_tx M {} (Suc (Suc (Suc (k + ?r)))) N st6" "fs_keeps {} st3 st6"
          "blks st6 = blks st3" "itable st6 = itable st3" "lgd st6 = lgd st3"
        using fs_brelse_spec [OF n(7) _ h cl] by (auto simp: wp_def)
      have k: "fs_keeps {} st st6" using fs_keeps_trans [OF r(3) fs_keeps_trans [OF fs_keeps_mono [OF n(3)] e(3)]] by simp
      note st = fr [OF k]
      have "fs_tx M {} (k + ind_room ip st6 + (if x \<in> lgd st6 then 2 else 3)) N st6" for x
        using st(2) r e n by (intro fs_tx_less [OF e(2)]) simp_all
      then show thesis
        by (intro result [of 0 st6]) (use r e n st dev s2 True fb fs_keepsD(1) [OF k] in \<open>auto simp: bmap_entry_of_def\<close>)
    next
      fix b st3 assume n: "balloc (dv st2) st2 = Ok (b, st3)" "b \<noteq> 0" "b < s_size (sb st2)" "\<not> marked (blks st2) (sb st2) b" "fs_keeps {ind} st2 st3"
        "itable st3 = itable st2" "blks st3 = zero_alloc (sb st2) b (blks st2)" "lgd st3 = insert b (insert (BBLOCK b (sb st2)) (lgd st2))"
        "fs_tx M {ind} (Suc (k + ?r)) N st3"
      note s3 = fs_keepsD [OF n(5)]
      have bi: "b \<noteq> ind" "\<not> marked ?V ?s b" "b < s_size ?s" using n(3,4) iu(3) s2(1) r(5) by auto
      have z3: "blks st3 = zero_alloc ?s b ?V" using n(7) s2(1) r(5) by simp
      have d3: "blks st3 ind = ?V ind" unfolding z3 by (rule zero_alloc(2) [OF ok bi(3,2)]) (use bi iu in auto)
      have h: "hold st3 ind i" using s3(6) r(4) by simp
      have ia: "ind \<notin> log_area (lstart st3)" using iu(4) s2(3) s3(3) by simp
      define k' where "k' = (if ind \<in> lgd st3 \<union> M then Suc k else Suc (Suc k))"
      have "?r = 1" if "ind \<notin> lgd st3" using that n(8) r(8) by (auto simp: ind_room_def ind)
      then have tx3: "fs_tx M {ind} k' N st3" by (intro fs_tx_less [OF n(9)]) (auto simp: k'_def)
      have len: "length (put32 (4 * j) b (?V ind)) = BSIZE" using length_blks [OF tx] j by (simp add: kconst)
      obtain st4 where l: "fs_log_write i (fs_bset i (put32 (4 * j) b (?V ind)) st3) = Ok st4" "fs_tx M {ind} (Suc k) N st4"
          "fs_keeps {ind} st3 st4" "hold st4 ind i" "blks st4 = (blks st3)(ind := put32 (4 * j) b (?V ind))" "itable st4 = itable st3"
          "lgd st4 = insert ind (lgd st3)"
        using fs_log_write_spec [OF tx3 k'_def h ia len] by (auto simp: wp_def)
      obtain st6 where e: "fs_brelse i st4 = Ok st6" "fs_tx M {} (Suc (Suc k)) N st6" "fs_keeps {} st4 st6"
          "blks st6 = blks st4" "itable st6 = itable st4" "lgd st6 = lgd st4"
        using fs_brelse_spec [OF l(2) _ l(4)] l(7) by (auto simp: wp_def)
      have k: "fs_keeps {} st st6"
        using fs_keeps_trans [OF r(3) fs_keeps_trans [OF fs_keeps_mono [OF fs_keeps_trans [OF n(5) l(3)]] e(3)]] by simp
      have st6: "itable st6 = itable st" "blks st6 = (zero_alloc ?s b ?V)(ind := put32 (4 * j) b (?V ind))" using e l n r z3 by simp_all
      have z: "fblk ?V ?A (NDIRECT + j) = 0" "b \<in> lgd st6" using fb True e(6) l(7) n(8) by simp_all
      note st = bmap_entry [OF f j ind z(1) k st6 bi(3,2) z(2)]
      have "ind_room ip st6 = 0" using st6(1) ind e(6) l(7) by (simp add: ind_room_def)
      then have tx6: "fs_tx M {} (k + ind_room ip st6 + (if b \<in> lgd st6 then 2 else 3)) N st6" using e(2,6) l(7) n(8) by simp
      have "fs_data i st3 = ?V ind" using hold_data [OF n(9) h] d3 by simp
      then have "bmap_entry_of (dv st) j ind st = Ok (b, st6)" using r n(1,2) l(1) e(1) dev s2(2) True by (simp add: bmap_entry_of_def)
      then show thesis using result st tx6 n(2) by blast
    qed
  qed
qed

definition bmap_io :: "superblock \<Rightarrow> nat" where
  "bmap_io s = 2 * nbitmap s + 3"

lemma bmap_direct_spec:
  assumes tx: "fs_tx M {} (k + 3) (nbitmap (sb st) + Suc N) st" and M: "bmap_blocks (sb st) \<subseteq> M" and f: "fs_file ip st"
    and bn: "unat bn < NDIRECT"
  obtains a st1 where "bmap ip bn st = Ok (a, st1)" "fstep ip st st1" "a = fblk (blks st1) (addrs ip st1) (unat bn)"
    "a = 0 \<Longrightarrow> full (blks st1) (sb st1)" "fs_tx M {} (k + (if a \<in> lgd st1 then 2 else 3)) N st1"
proof (cases "addrs ip st ! unat bn = 0")
  case True
  note result = that
  have dev: "i_dev (itable st ! ip) = dv st" and ok: "fs_ok (sb st) (lstart st) (blks st)" using f by (simp_all add: fs_file_def)
  have fb: "fblk (blks st) (addrs ip st) (unat bn) = 0" using True bn by (simp add: fblk_def)
  have tx': "fs_tx M {} (Suc (Suc (k + 1))) (nbitmap (sb st) + Suc N) st" using tx by (simp add: numeral_eq_Suc)
  show thesis
  proof (rule balloc_cases [OF tx' M ok])
    fix st' assume n: "balloc (dv st) st = Ok (0, st')" "full (blks st) (sb st)" "fs_keeps {} st st'" "itable st' = itable st"
      "blks st' = blks st" "lgd st' = lgd st" "fs_tx M {} (Suc (Suc (k + 1))) N st'"
    have "fs_file ip st'" using f n(4,5) fs_keepsD [OF n(3)] by (simp add: fs_file_def)
    then have "fstep ip st st'" using n(3,4,5) unfolding fstep_def by (auto intro!: exI [of _ "addrs ip st"] new_logged_refl)
    moreover have "fs_tx M {} (k + (if 0 \<in> lgd st' then 2 else 3)) N st'" using n(7) by (rule fs_tx_less) simp_all
    ultimately show thesis using result [of 0 st'] n fb True bn dev fs_keepsD(1) [OF n(3)] by (simp add: bmap_def)
  next
    fix b st' assume n: "balloc (dv st) st = Ok (b, st')" "b \<noteq> 0" "b < s_size (sb st)" "\<not> marked (blks st) (sb st) b" "fs_keeps {} st st'"
      "itable st' = itable st" "blks st' = zero_alloc (sb st) b (blks st)" "lgd st' = insert b (insert (BBLOCK b (sb st)) (lgd st))"
      "fs_tx M {} (Suc (k + 1)) N st'"
    have "b \<in> lgd st'" using n(8) by simp
    note i = bmap_direct [OF f bn True n(5-7,3,4) this]
    have "bmap ip bn st = Ok (b, set_addr ip (unat bn) b st')" using n True bn dev by (simp add: bmap_def set_addr_def)
    then show thesis using result [OF _ i(1)] i(2) n by simp
  qed simp
next
  case False
  have "fs_tx M {} (k + (if addrs ip st ! unat bn \<in> lgd st then 2 else 3)) N st" using tx by (rule fs_tx_less) simp_all
  moreover have "bmap ip bn st = Ok (addrs ip st ! unat bn, st)" using False bn by (simp add: bmap_def Let_def)
  ultimately show thesis using that [OF _ fstep_refl [OF f]] False bn by (simp add: fblk_def)
qed

lemma bmap_spec:
  assumes tx: "fs_tx M {} (k + ind_room ip st + 3) (bmap_io (sb st) + N) st" and M: "bmap_blocks (sb st) \<subseteq> M" and f: "fs_file ip st"
    and bn: "unat bn < MAXFILE"
  obtains a st1 where "bmap ip bn st = Ok (a, st1)" "fstep ip st st1" "a = fblk (blks st1) (addrs ip st1) (unat bn)"
    "a = 0 \<Longrightarrow> full (blks st1) (sb st1)" "fs_tx M {} (k + ind_room ip st1 + (if a \<in> lgd st1 then 2 else 3)) N st1"
proof (cases "unat bn < NDIRECT")
  case True
  note result = that
  have tx': "fs_tx M {} ((k + ind_room ip st) + 3) (nbitmap (sb st) + Suc N) st"
    using tx by (rule fs_tx_less) (simp_all add: bmap_io_def)
  obtain a st1 where r: "bmap ip bn st = Ok (a, st1)" "fstep ip st st1" "a = fblk (blks st1) (addrs ip st1) (unat bn)"
    "a = 0 \<Longrightarrow> full (blks st1) (sb st1)" "fs_tx M {} (k + ind_room ip st + (if a \<in> lgd st1 then 2 else 3)) N st1"
    using bmap_direct_spec [OF tx' M f True] by blast
  have "fs_tx M {} (k + ind_room ip st1 + (if a \<in> lgd st1 then 2 else 3)) N st1" using ind_room_less [OF r(2)] by (intro fs_tx_less [OF r(5)]) simp_all
  then show thesis using result r by blast
next
  case False
  note result = that
  define j where "j = unat bn - NDIRECT"
  have j: "j < NINDIRECT" "unat bn = NDIRECT + j" using bn False by (simp_all add: j_def kconst)
  have tx': "fs_tx M {} (k + ind_room ip st + 3) (nbitmap (sb st) + Suc (nbitmap (sb st) + Suc (Suc N))) st"
    using tx by (rule fs_tx_less) (simp_all add: bmap_io_def)
  obtain a st1 where r: "bmap_ind ip st = Ok (a, st1)" "fstep ip st st1" "a = addrs ip st1 ! NDIRECT"
    "\<And>m. m < MAXFILE \<Longrightarrow> fblk (blks st1) (addrs ip st1) m = fblk (blks st) (addrs ip st) m"
    "a = 0 \<Longrightarrow> full (blks st1) (sb st1)" "fs_tx M {} (k + ind_room ip st1 + 3) (nbitmap (sb st) + Suc (Suc N)) st1"
    using bmap_ind_spec [OF tx' M f] by blast
  note s1 = fs_keepsD [OF fstepD(1) [OF r(2)]] and f1 = fstepD(2) [OF r(2)]
  have dev: "i_dev (itable st ! ip) = dv st" using f by (simp add: fs_file_def)
  have run: "bmap ip bn st = (if a = 0 then Ok (0, st1) else bmap_entry_of (dv st) j a st1)"
    using r(1) dev bmap_split [OF j(2,1)] by simp
  show thesis
  proof (cases "a = 0")
    case True
    have "fblk (blks st1) (addrs ip st1) (unat bn) = 0" using True r(3) j by (simp add: fblk_def)
    moreover have "fs_tx M {} (k + ind_room ip st1 + (if 0 \<in> lgd st1 then 2 else 3)) N st1" using r(6) by (rule fs_tx_less) simp_all
    ultimately show thesis using result [of 0 st1] run r(2,5) True by simp
  next
    case False
    have "bmap_blocks (sb st1) \<subseteq> M" "fs_tx M {} (k + ind_room ip st1 + 3) (nbitmap (sb st1) + Suc (Suc N)) st1" using M r(6) s1(1) by simp_all
    then obtain a' st2 where e: "bmap_entry_of (dv st) j a st1 = Ok (a', st2)" "fstep ip st1 st2" "a' = fblk (blks st2) (addrs ip st2) (NDIRECT + j)"
      "a' = 0 \<Longrightarrow> full (blks st2) (sb st2)" "fs_tx M {} (k + ind_room ip st2 + (if a' \<in> lgd st2 then 2 else 3)) N st2"
      using bmap_entry_spec [OF _ _ f1 r(3) [symmetric] False j(1)] s1(2) by metis
    then show thesis using result [of a' st2] run False j(2) fstep_trans [OF r(2) e(2)] by simp
  qed
qed

section \<open>Reading a file\<close>

text \<open>The bytes of a file, and that all blocks of its first \<open>n\<close> bytes are there.\<close>

definition fbyte :: "(u32 \<Rightarrow> byte list) \<Rightarrow> u32 list \<Rightarrow> nat \<Rightarrow> byte" where
  "fbyte V A i = V (fblk V A (i div BSIZE)) ! (i mod BSIZE)"

definition fbytes :: "(u32 \<Rightarrow> byte list) \<Rightarrow> u32 list \<Rightarrow> nat \<Rightarrow> nat \<Rightarrow> byte list" where
  "fbytes V A off n = map (fbyte V A) [off..<off + n]"

definition mapped :: "(u32 \<Rightarrow> byte list) \<Rightarrow> u32 list \<Rightarrow> nat \<Rightarrow> bool" where
  "mapped V A n = (n \<le> MAXFILE * BSIZE \<and> (\<forall>m. m * BSIZE < n \<longrightarrow> fblk V A m \<noteq> 0))"

lemma unat_BSIZE [simp]: "unat (of_nat BSIZE :: u32) = BSIZE"
  by (simp add: unat_of_nat kconst)

lemma unat_off [simp]: "unat (off div of_nat BSIZE :: u32) = unat off div BSIZE" "unat (off mod of_nat BSIZE :: u32) = unat off mod BSIZE"
  by (simp_all add: unat_div unat_mod)

lemma unat_chunk:
  assumes "tot \<le> n"
  shows "unat (chunk_len n tot off) = min (unat n - unat tot) (BSIZE - unat off mod BSIZE)"
proof -
  have "off mod of_nat BSIZE \<le> (of_nat BSIZE :: u32)"
    by (intro order_less_imp_le word_mod_less_divisor) (simp add: kconst)
  then have "unat (of_nat BSIZE - off mod (of_nat BSIZE :: u32)) = BSIZE - unat off mod BSIZE" by (simp add: unat_sub)
  then show ?thesis using unat_sub [OF assms] by (simp add: chunk_len_def min_def word_le_nat_alt)
qed

lemma length_fbytes [simp]: "length (fbytes V A off n) = n"
  by (simp add: fbytes_def)

lemma fbytes_append: "fbytes V A off n @ fbytes V A (off + n) k = fbytes V A off (n + k)"
  using upt_add_eq_append [of off "off + n" k] by (simp add: fbytes_def add.assoc)

text \<open>The bytes of a file that are in one block.\<close>

lemma fbytes_chunk:
  assumes "length (V (fblk V A (off div BSIZE))) = BSIZE" "m \<le> BSIZE - off mod BSIZE"
  shows "slice (off mod BSIZE) m (V (fblk V A (off div BSIZE))) = fbytes V A off m"
proof (rule nth_equalityI)
  have B: "off mod BSIZE + m \<le> BSIZE" using assms(2) mod_less_divisor [of BSIZE off] by (simp add: kconst)
  show "length (slice (off mod BSIZE) m (V (fblk V A (off div BSIZE)))) = length (fbytes V A off m)" using B assms(1) by simp
  fix i assume "i < length (slice (off mod BSIZE) m (V (fblk V A (off div BSIZE))))"
  then have i: "i < m" using B assms(1) by simp
  then have "off mod BSIZE + i < BSIZE" using B by simp
  moreover have "off + i = off div BSIZE * BSIZE + (off mod BSIZE + i)" by simp
  ultimately have "(off + i) div BSIZE = off div BSIZE" "(off + i) mod BSIZE = off mod BSIZE + i"
    by (metis div_mult_self3 div_less add.right_neutral less_nat_zero_code gr0I, metis mod_mult_self3 mod_less)
  then show "slice (off mod BSIZE) m (V (fblk V A (off div BSIZE))) ! i = fbytes V A off m ! i"
    using i B assms(1) by (simp add: nth_slice fbytes_def fbyte_def)
qed

text \<open>\<open>bmap\<close> on a block that the file has changes nothing, and needs no transaction.\<close>

lemma bmap_mapped:
  assumes c: "fs_cache {} (Suc k) (Suc N) st" and dev: "i_dev (itable st ! ip) = dv st"
    and bn: "unat bn < MAXFILE" and a: "fblk (blks st) (addrs ip st) (unat bn) \<noteq> 0"
  obtains b where "bmap ip bn st = Ok (fblk (blks st) (addrs ip st) (unat bn), with_bc b st)" "fs_cache {} (Suc k) N (with_bc b st)"
    "fs_keeps {} st (with_bc b st)" "blks (with_bc b st) = blks st"
proof (cases "unat bn < NDIRECT")
  case True
  have "with_bc (bc (fio st)) st = st" by (simp add: with_bc_def)
  moreover have "fs_cache {} (Suc k) N st" using c io_ok_mono [of "Suc N" _ N] by (auto simp: fs_cache_def)
  ultimately show thesis using that [of "bc (fio st)"] True a by (simp add: bmap_def fblk_def)
next
  case False
  note result = that
  define j where "j = unat bn - NDIRECT"
  have j: "j < NINDIRECT" "unat bn = NDIRECT + j" using bn False by (simp_all add: j_def kconst)
  define ind where "ind = addrs ip st ! NDIRECT"
  have fb: "ind \<noteq> 0" "fblk (blks st) (addrs ip st) (unat bn) = get32 (blks st ind) (4 * j)"
    using a j(2) by (auto simp: fblk_def ind_def split: if_splits)
  obtain i b1 b2 where r: "fs_bread (dv st) ind st = Ok (i, with_bc b1 st)" "fs_data i (with_bc b1 st) = blks st ind"
    "fs_brelse i (with_bc b1 st) = Ok (with_bc b2 st)" "fs_cache {} (Suc k) N (with_bc b2 st)" "fs_keeps {} st (with_bc b2 st)"
    "blks (with_bc b2 st) = blks st"
    by (rule fs_read [OF c, of ind]) simp
  have "bmap_ind ip st = Ok (ind, st)" using fb(1) by (simp add: bmap_ind_def ind_def)
  moreover have "bmap_entry_of (dv st) j ind st = Ok (get32 (blks st ind) (4 * j), with_bc b2 st)"
    using r(1-3) a fb(2) by (simp add: bmap_entry_of_def)
  ultimately have "bmap ip bn st = Ok (get32 (blks st ind) (4 * j), with_bc b2 st)"
    using bmap_split [OF j(2,1)] fb(1) dev by simp
  then show thesis using result r(4-6) fb(2) by simp
qed

text \<open>
  The loop of \<open>readi\<close> delivers the bytes of the file to its destination. \<open>md bs\<close> is the destination's memory
  once the bytes \<open>bs\<close> have been stored from \<open>dst0\<close> on.
\<close>

lemma with_bc_simps [simp]:
  "with_bc b (with_bc b' st) = with_bc b st" "itable (with_bc b st) = itable st" "sb (with_bc b st) = sb st" "lg (fio (with_bc b st)) = lg (fio st)"
  by (simp_all add: with_bc_def)

text \<open>The arithmetic of one pass of the loops: the chunk, and the position after it.\<close>

lemma chunk_step:
  assumes "tot < n" "unat off = o0 + unat tot" "o0 + unat n \<le> MAXFILE * BSIZE"
  defines "m \<equiv> unat (chunk_len n tot off)"
  shows "0 < m" "m \<le> unat n - unat tot" "m \<le> BSIZE - unat off mod BSIZE" "unat (off div of_nat BSIZE) < MAXFILE"
    "tot + chunk_len n tot off \<le> n" "unat (tot + chunk_len n tot off) = unat tot + m" "unat (off + chunk_len n tot off) = o0 + (unat tot + m)"
    "unat off div BSIZE * BSIZE < o0 + unat n"
proof -
  have lt: "unat tot < unat n" using assms(1) by (simp add: word_less_nat_alt)
  have me: "m = min (unat n - unat tot) (BSIZE - unat off mod BSIZE)" unfolding m_def by (rule unat_chunk) (use assms(1) in simp)
  have "unat off mod BSIZE < BSIZE" by (simp add: kconst)
  then show "0 < m" "m \<le> unat n - unat tot" "m \<le> BSIZE - unat off mod BSIZE" using me lt by simp_all
  have B: "o0 + unat n \<le> 274432" using assms(3) by (simp add: kconst)
  show t: "unat (tot + chunk_len n tot off) = unat tot + m"
    using \<open>m \<le> unat n - unat tot\<close> lt B by (simp add: unat_word_ariths m_def)
  show "tot + chunk_len n tot off \<le> n" unfolding word_le_nat_alt t using \<open>m \<le> unat n - unat tot\<close> lt by simp
  show "unat (off + chunk_len n tot off) = o0 + (unat tot + m)"
    using \<open>m \<le> unat n - unat tot\<close> lt B assms(2) by (simp add: unat_word_ariths m_def)
  have "unat off < o0 + unat n" using assms(2) lt by simp
  then show "unat off div BSIZE * BSIZE < o0 + unat n" using div_times_less_eq_dividend [of "unat off" BSIZE] by linarith
  show "unat (off div of_nat BSIZE) < MAXFILE"
    unfolding unat_off using \<open>unat off < o0 + unat n\<close> assms(3) by (simp add: div_less_iff_less_mult kconst)
qed

lemma sint_small: "unat n \<le> 274432 \<Longrightarrow> sint (n :: u32) = int (unat n)"
proof -
  assume n: "unat n \<le> 274432"
  have e: "uint n = int (unat n)" and p: "(2::int) ^ 31 = 2147483648" by simp_all
  have "signed_take_bit 31 (uint n) = uint n"
    by (rule signed_take_bit_int_eq_self; unfold e p; use n in linarith)
  moreover have "sint n = signed_take_bit 31 (uint n)" using sint_uint [of n] by simp
  ultimately show ?thesis by simp
qed

lemma readi_loop_spec:
  assumes law: "\<And>bs xs. length bs + length xs \<le> unat n \<Longrightarrow> cout (dst0 + of_nat (length bs)) xs (md bs) = Ok (True, md (bs @ xs))"
    and dev: "i_dev (itable st ! ip) = dv st" and lens: "\<And>b. length (blks st b) = BSIZE"
    and sz: "mapped (blks st) (addrs ip st) (o0 + unat n)"
    and c: "fs_cache {} (Suc k) (2 * (unat n - unat tot) + N) st" and at: "tot \<le> n" "unat off = o0 + unat tot"
      "dst = dst0 + of_nat (unat tot)" "um = md (fbytes (blks st) (addrs ip st) o0 (unat tot))"
  shows "\<exists>b. readi_loop cout ip dst off n tot um st = Ok (int (unat n), md (fbytes (blks st) (addrs ip st) o0 (unat n)), with_bc b st) \<and>
    fs_cache {} (Suc k) N (with_bc b st) \<and> fs_keeps {} st (with_bc b st) \<and> blks (with_bc b st) = blks st"
  using dev lens sz c at
proof (induction "unat n - unat tot" arbitrary: tot off dst um st rule: less_induct)
  case less
  let ?V = "blks st" and ?A = "addrs ip st"
  show ?case
  proof (cases "tot < n")
    case False
    then have e: "tot = n" using less.prems(5) by simp
    have "unat n \<le> 274432" using less.prems(3) by (simp add: mapped_def kconst)
    then have "sint n = int (unat n)" by (rule sint_small)
    then have "readi_loop cout ip dst off n tot um st = Ok (int (unat n), um, st)" by (subst readi_loop.simps) (simp add: e)
    moreover have "fs_cache {} (Suc k) N st" using less.prems(4) io_ok_mono by (auto simp: fs_cache_def)
    moreover have "with_bc (bc (fio st)) st = st" by (simp add: with_bc_def)
    ultimately show ?thesis using less.prems(8) e by (intro exI [of _ "bc (fio st)"]) simp
  next
    case True
    define m where "m = chunk_len n tot off"
    note ch = chunk_step [OF True less.prems(6), folded m_def]
    have ch: "0 < unat m" "unat m \<le> unat n - unat tot" "unat m \<le> BSIZE - unat off mod BSIZE" "unat (off div of_nat BSIZE) < MAXFILE"
        "tot + m \<le> n" "unat (tot + m) = unat tot + unat m" "unat (off + m) = o0 + (unat tot + unat m)" "unat off div BSIZE * BSIZE < o0 + unat n"
      using ch less.prems(3) by (simp_all add: mapped_def)
    define a where "a = fblk ?V ?A (unat off div BSIZE)"
    have a: "a \<noteq> 0" using less.prems(3) ch(8) by (simp add: mapped_def a_def)
    define N1 where "N1 = 2 * (unat n - unat (tot + m)) + N"
    have "Suc (Suc N1) \<le> 2 * (unat n - unat tot) + N" using ch(1,2,6) by (simp add: N1_def)
    then have c0: "fs_cache {} (Suc k) (Suc (Suc N1)) st" using less.prems(4) io_ok_mono by (auto simp: fs_cache_def)
    have a': "fblk ?V ?A (unat (off div of_nat BSIZE)) \<noteq> 0" using a by (simp add: a_def)
    obtain b1 where r1: "bmap ip (off div of_nat BSIZE) st = Ok (a, with_bc b1 st)" "fs_cache {} (Suc k) (Suc N1) (with_bc b1 st)"
        "fs_keeps {} st (with_bc b1 st)" "blks (with_bc b1 st) = ?V"
      using bmap_mapped [OF c0 less.prems(1) ch(4) a'] by (auto simp: a_def)
    obtain i b2 b3 where r2: "fs_bread (dv (with_bc b1 st)) a (with_bc b1 st) = Ok (i, with_bc b2 st)" "fs_data i (with_bc b2 st) = blks (with_bc b1 st) a"
        "fs_brelse i (with_bc b2 st) = Ok (with_bc b3 st)" "fs_cache {} (Suc k) N1 (with_bc b3 st)" "fs_keeps {} (with_bc b1 st) (with_bc b3 st)"
        "blks (with_bc b3 st) = blks (with_bc b1 st)"
      using fs_read [OF r1(2), of a] by auto
    have chunk: "slice (unat off mod BSIZE) (unat m) (?V a) = fbytes ?V ?A (o0 + unat tot) (unat m)"
      unfolding a_def using fbytes_chunk [OF less.prems(2) ch(3)] less.prems(6) by simp
    have out: "cout dst (fbytes ?V ?A (o0 + unat tot) (unat m)) um = Ok (True, md (fbytes ?V ?A o0 (unat (tot + m))))"
      using law [of "fbytes ?V ?A o0 (unat tot)" "fbytes ?V ?A (o0 + unat tot) (unat m)"] less.prems(7,8) ch(2,6) True
      by (simp add: fbytes_append word_less_nat_alt)
    have run: "readi_loop cout ip dst off n tot um st =
        readi_loop cout ip (dst + ucast m) (off + m) n (tot + m) (md (fbytes ?V ?A o0 (unat (tot + m)))) (with_bc b3 st)"
      by (subst readi_loop.simps)
        (use True a r1(1,4) r2(1-3) less.prems(1) chunk out in \<open>simp add: m_def [symmetric] Let_def\<close>)
    have V3: "blks (with_bc b3 st) = ?V" using r1(4) r2(6) by simp
    have "\<exists>b. readi_loop cout ip (dst + ucast m) (off + m) n (tot + m) (md (fbytes ?V ?A o0 (unat (tot + m)))) (with_bc b3 st) =
          Ok (int (unat n), md (fbytes (blks (with_bc b3 st)) (addrs ip (with_bc b3 st)) o0 (unat n)), with_bc b (with_bc b3 st)) \<and>
        fs_cache {} (Suc k) N (with_bc b (with_bc b3 st)) \<and> fs_keeps {} (with_bc b3 st) (with_bc b (with_bc b3 st)) \<and>
        blks (with_bc b (with_bc b3 st)) = blks (with_bc b3 st)"
    proof (rule less.hyps)
      show "unat n - unat (tot + m) < unat n - unat tot" using ch(1,2,6) by simp
      show "dst + ucast m = dst0 + of_nat (unat (tot + m))" using less.prems(7) ch(6) by simp
      show "fs_cache {} (Suc k) (2 * (unat n - unat (tot + m)) + N) (with_bc b3 st)" using r2(4) by (simp only: N1_def)
    qed (use V3 less.prems(1-3) ch(5-7) in simp_all)
    then obtain b where "readi_loop cout ip (dst + ucast m) (off + m) n (tot + m) (md (fbytes ?V ?A o0 (unat (tot + m)))) (with_bc b3 st) =
          Ok (int (unat n), md (fbytes ?V ?A o0 (unat n)), with_bc b st)" "fs_cache {} (Suc k) N (with_bc b st)"
        "fs_keeps {} (with_bc b3 st) (with_bc b st)" "blks (with_bc b st) = blks (with_bc b3 st)"
      unfolding V3 by auto
    then show ?thesis
      using run r1(4) r2(6) fs_keeps_trans [OF fs_keeps_trans [OF r1(3) r2(5)]] by auto
  qed
qed

end
