(* ===== verification/FsWrite.thy ===== *)
theory FsWrite
  imports FsFile
begin

text \<open>
  \<open>writei\<close> and \<open>iupdate\<close>: what a write does to the bytes of a file, to the inode on the disk, to the other
  blocks and to the log; then reading back what was written.
\<close>

section \<open>What a write does to a file\<close>

text \<open>The bytes \<open>xs\<close> are in the file from \<open>o1\<close> on, and the others that it had are the same.\<close>

definition fwrote :: "nat \<Rightarrow> fsys \<Rightarrow> fsys \<Rightarrow> nat \<Rightarrow> byte list \<Rightarrow> bool" where
  "fwrote ip st st' o1 xs = (fs_keeps {} st st' \<and> fs_file ip st' \<and>
     (\<exists>A'. itable st' = (itable st)[ip := (itable st ! ip)\<lparr>i_addrs := A'\<rparr>]) \<and>
     fgrows (sb st) (blks st) (addrs ip st) (blks st') (addrs ip st') \<and> new_logged st st' \<and>
     (\<forall>i<MAXFILE * BSIZE. if o1 \<le> i \<and> i < o1 + length xs
        then fblk (blks st') (addrs ip st') (i div BSIZE) \<noteq> 0 \<and> fbyte (blks st') (addrs ip st') i = xs ! (i - o1)
        else fblk (blks st) (addrs ip st) (i div BSIZE) \<noteq> 0 \<longrightarrow> fbyte (blks st') (addrs ip st') i = fbyte (blks st) (addrs ip st) i))"

lemma fwroteD:
  assumes "fwrote ip st st' o1 xs"
  shows "fs_keeps {} st st'" "fs_file ip st'" "fgrows (sb st) (blks st) (addrs ip st) (blks st') (addrs ip st')"
    "i < MAXFILE * BSIZE \<Longrightarrow> o1 \<le> i \<Longrightarrow> i < o1 + length xs \<Longrightarrow> fblk (blks st') (addrs ip st') (i div BSIZE) \<noteq> 0"
    "i < MAXFILE * BSIZE \<Longrightarrow> o1 \<le> i \<Longrightarrow> i < o1 + length xs \<Longrightarrow> fbyte (blks st') (addrs ip st') i = xs ! (i - o1)"
    "i < MAXFILE * BSIZE \<Longrightarrow> \<not> (o1 \<le> i \<and> i < o1 + length xs) \<Longrightarrow> fblk (blks st) (addrs ip st) (i div BSIZE) \<noteq> 0 \<Longrightarrow>
       fbyte (blks st') (addrs ip st') i = fbyte (blks st) (addrs ip st) i"
    "new_logged st st'"
  using assms unfolding fwrote_def by (blast, blast, blast, metis, metis, metis, blast)

lemma off_blk: "i < MAXFILE * BSIZE \<Longrightarrow> i div BSIZE < MAXFILE"
  by (simp add: div_less_iff_less_mult kconst)

lemma fstep_fwrote:
  assumes "fstep ip st st'"
  shows "fwrote ip st st' o1 []"
proof -
  note d = fstepD [OF assms]
  have "fbyte (blks st') (addrs ip st') i = fbyte (blks st) (addrs ip st) i"
    if "i < MAXFILE * BSIZE" "fblk (blks st) (addrs ip st) (i div BSIZE) \<noteq> 0" for i
    using d(4) [OF off_blk [OF that(1)] that(2)] fgrowsD(4) [OF d(3) off_blk [OF that(1)] that(2)] by (simp add: fbyte_def)
  then show ?thesis using assms unfolding fwrote_def fstep_def by auto
qed

lemma fwrote_trans:
  assumes a: "fwrote ip st st1 o1 xs" and b: "fwrote ip st1 st2 (o1 + length xs) ys"
  shows "fwrote ip st st2 o1 (xs @ ys)"
proof -
  note a' = fwroteD [OF a] and b' = fwroteD [OF b]
  have sb: "sb st1 = sb st" using fs_keepsD(1) [OF a'(1)] .
  obtain A1 where A1: "itable st1 = (itable st)[ip := (itable st ! ip)\<lparr>i_addrs := A1\<rparr>]" using a by (auto simp: fwrote_def)
  obtain A2 where A2: "itable st2 = (itable st1)[ip := (itable st1 ! ip)\<lparr>i_addrs := A2\<rparr>]" using b by (auto simp: fwrote_def)
  have "ip < length (itable st1)" using a'(2) by (simp add: fs_file_def)
  then have it: "itable st2 = (itable st)[ip := (itable st ! ip)\<lparr>i_addrs := A2\<rparr>]" unfolding A2 A1 by simp
  have "if o1 \<le> i \<and> i < o1 + length (xs @ ys)
      then fblk (blks st2) (addrs ip st2) (i div BSIZE) \<noteq> 0 \<and> fbyte (blks st2) (addrs ip st2) i = (xs @ ys) ! (i - o1)
      else fblk (blks st) (addrs ip st) (i div BSIZE) \<noteq> 0 \<longrightarrow> fbyte (blks st2) (addrs ip st2) i = fbyte (blks st) (addrs ip st) i"
    if i: "i < MAXFILE * BSIZE" for i
  proof -
    note m = off_blk [OF i]
    consider "o1 \<le> i" "i < o1 + length xs" | "o1 + length xs \<le> i" "i < o1 + length xs + length ys" | "\<not> (o1 \<le> i \<and> i < o1 + length xs + length ys)" by linarith
    then show ?thesis
    proof cases
      case 1
      then have "fblk (blks st1) (addrs ip st1) (i div BSIZE) \<noteq> 0" "fbyte (blks st1) (addrs ip st1) i = xs ! (i - o1)" using a'(4,5) i by simp_all
      moreover have "fblk (blks st2) (addrs ip st2) (i div BSIZE) \<noteq> 0" using fgrowsD(4) [OF b'(3) m] calculation(1) by simp
      ultimately show ?thesis using b'(6) [OF i] 1 by (simp add: nth_append less_diff_conv2)
    next
      case 2
      then have "\<not> i - o1 < length xs" "o1 \<le> i" by auto
      then show ?thesis using b'(4,5) i 2 by (simp add: nth_append)
    next
      case 3
      then have n: "\<not> (o1 \<le> i \<and> i < o1 + length xs)" "\<not> (o1 + length xs \<le> i \<and> i < o1 + length xs + length ys)"
        "\<not> (o1 \<le> i \<and> i < o1 + length (xs @ ys))" by auto
      have "fbyte (blks st2) (addrs ip st2) i = fbyte (blks st) (addrs ip st) i" if "fblk (blks st) (addrs ip st) (i div BSIZE) \<noteq> 0"
        using a'(6) [OF i n(1) that] b'(6) [OF i n(2)] fgrowsD(4) [OF a'(3) m that] that by simp
      then show ?thesis unfolding if_not_P [OF n(3)] by blast
    qed
  qed
  then show ?thesis
    using it fs_keeps_trans [OF a'(1) b'(1)] b'(2) fgrows_trans [OF a'(3) b'(3) [unfolded sb]]
      new_logged_trans [OF a'(7) b'(7) a'(1) b'(1)] unfolding fwrote_def by blast
qed

text \<open>One chunk: a block of the file is patched.\<close>

lemma fwrote_patch:
  assumes f: "fs_file ip st" and i: "off < MAXFILE * BSIZE" and a: "a = fblk (blks st) (addrs ip st) (off div BSIZE)" "a \<noteq> 0"
    and m: "off mod BSIZE + length xs \<le> BSIZE" and st': "fs_keeps {} st st'" "itable st' = itable st"
    "blks st' = (blks st)(a := patch (off mod BSIZE) xs (blks st a))"
  shows "fwrote ip st st' off xs"
proof -
  let ?s = "sb st" and ?V = "blks st" and ?A = "addrs ip st" and ?W = "blks st'"
  have ok: "fs_ok ?s (lstart st) ?V" and fk: "file_ok ?s (lstart st) ?V ?A" using f by (simp_all add: fs_file_def)
  have am: "off div BSIZE < MAXFILE" by (rule off_blk [OF i])
  have u: "used ?V ?A a" using a am by (auto simp: used_def)
  note au = fs_file_used [OF f u]
  have ai: "a \<noteq> ?A ! NDIRECT" "fblk ?V ?A m' = a \<Longrightarrow> m' < MAXFILE \<Longrightarrow> m' = off div BSIZE" for m'
    using fk a am by (auto simp: file_ok_def)
  have len: "length (?V b) = BSIZE" for b using ok by (simp add: fs_ok_def)
  have map: "fblk ?W ?A m' = fblk ?V ?A m'" for m' using ai(1) st'(3) by (simp add: fblk_def)
  have us: "used ?W ?A = used ?V ?A" by (rule ext) (simp add: used_def map)
  have mk: "marked ?W ?s c = marked ?V ?s c" if "c < s_size ?s" for c
  proof -
    have "BBLOCK c ?s \<noteq> a" using au(1) that by (auto simp: bmap_blocks_def)
    then show ?thesis using st'(3) by (simp add: marked_def)
  qed
  have okW: "fs_ok ?s (lstart st) ?W" using ok mk len m st'(3) unfolding fs_ok_def by auto
  have "file_ok ?s (lstart st) ?W ?A" using fk mk unfolding file_ok_def us map by (auto simp: data_blk_def)
  then have "fs_file ip st'" using okW f st'(2) fs_keepsD [OF st'(1)] by (simp add: fs_file_def)
  moreover have "fgrows ?s ?V ?A ?W ?A" using mk u st'(3) unfolding fgrows_def us map by auto
  moreover have "\<exists>A'. itable st' = (itable st)[ip := (itable st ! ip)\<lparr>i_addrs := A'\<rparr>]" by (rule exI [of _ ?A]) (use st'(2) in simp)
  moreover have "if off \<le> i \<and> i < off + length xs then fblk ?W ?A (i div BSIZE) \<noteq> 0 \<and> fbyte ?W ?A i = xs ! (i - off)
      else fblk ?V ?A (i div BSIZE) \<noteq> 0 \<longrightarrow> fbyte ?W ?A i = fbyte ?V ?A i" if "i < MAXFILE * BSIZE" for i
  proof -
    have lt: "i mod BSIZE < BSIZE" by (simp add: kconst)
    show ?thesis
    proof (cases "i div BSIZE = off div BSIZE")
      case True
      have "i + off mod BSIZE = off + i mod BSIZE" using True by (metis add.assoc add.commute div_mult_mod_eq)
      then have r: "(off \<le> i \<and> i < off + length xs) = (off mod BSIZE \<le> i mod BSIZE \<and> i mod BSIZE < off mod BSIZE + length xs)"
        "off \<le> i \<Longrightarrow> i - off = i mod BSIZE - off mod BSIZE" by linarith+
      have w: "?W a ! (i mod BSIZE) = (if off mod BSIZE \<le> i mod BSIZE \<and> i mod BSIZE < off mod BSIZE + length xs
          then xs ! (i mod BSIZE - off mod BSIZE) else ?V a ! (i mod BSIZE))"
        using st'(3) nth_patch [of "off mod BSIZE" xs "?V a" "i mod BSIZE"] m len lt by simp
      have e: "fbyte ?W ?A i = ?W a ! (i mod BSIZE)" "fbyte ?V ?A i = ?V a ! (i mod BSIZE)" "fblk ?W ?A (i div BSIZE) \<noteq> 0"
        using True a map by (simp_all add: fbyte_def)
      show ?thesis
      proof (cases "off \<le> i \<and> i < off + length xs")
        case True
        then show ?thesis using e r w by simp
      next
        case False
        then show ?thesis using e w unfolding r(1) by auto
      qed
    next
      case False
      have "\<not> (off \<le> i \<and> i < off + length xs)"
      proof
        assume "off \<le> i \<and> i < off + length xs"
        then have "off mod BSIZE + (i - off) < BSIZE" "i = off div BSIZE * BSIZE + (off mod BSIZE + (i - off))" using m by auto
        then show False using False by (metis div_mult_self3 div_less add.right_neutral less_nat_zero_code gr0I)
      qed
      moreover have "fblk ?V ?A (i div BSIZE) \<noteq> a" using ai(2) off_blk that False by blast
      ultimately show ?thesis using st'(3) map by (auto simp: fbyte_def)
    qed
  qed
  moreover have "new_logged st st'" using mk by (auto simp: new_logged_def)
  ultimately show ?thesis using st'(1,2) unfolding fwrote_def by auto
qed

section \<open>The loop of writei\<close>

text \<open>How many passes the loop makes for \<open>r\<close> bytes at the offset \<open>off\<close>.\<close>

definition passes :: "nat \<Rightarrow> nat \<Rightarrow> nat" where
  "passes off r = (if r = 0 then 0 else (off mod BSIZE + r + BSIZE - 1) div BSIZE)"

lemma passes_step:
  assumes "0 < r" "m = min r (BSIZE - off mod BSIZE)"
  shows "passes off r = Suc (passes (off + m) (r - m))"
proof -
  have lt: "off mod BSIZE < BSIZE" by (simp add: kconst)
  show ?thesis
  proof (cases "r \<le> BSIZE - off mod BSIZE")
    case True
    then have "off mod BSIZE + r + BSIZE - 1 = BSIZE + (off mod BSIZE + r - 1)" "off mod BSIZE + r - 1 < BSIZE" using lt assms(1) by auto
    then have "(off mod BSIZE + r + BSIZE - 1) div BSIZE = 1" by (simp add: kconst)
    then show ?thesis using True assms by (simp add: passes_def)
  next
    case False
    then have m: "m = BSIZE - off mod BSIZE" "m < r" using assms(2) by auto
    have "off div BSIZE * BSIZE + off mod BSIZE = off" by simp
    then have "off + m = off div BSIZE * BSIZE + BSIZE" using m(1) lt by linarith
    then have z: "(off + m) mod BSIZE = 0" by simp
    have "off mod BSIZE + r + BSIZE - 1 = (r - m + BSIZE - 1) + BSIZE" using m lt by simp
    then have "(off mod BSIZE + r + BSIZE - 1) div BSIZE = Suc ((r - m + BSIZE - 1) div BSIZE)" by (simp add: kconst)
    then show ?thesis using assms(1) m(2) z by (simp add: passes_def)
  qed
qed

text \<open>One pass, from the block that \<open>bmap\<close> gave on.\<close>

lemma writei_chunk:
  assumes tx: "fs_tx M {} (k + (if a \<in> lgd st then 2 else 3)) (Suc N) st" and f: "fs_file ip st" and o1: "off < MAXFILE * BSIZE"
    and a: "a = fblk (blks st) (addrs ip st) (off div BSIZE)" "a \<noteq> 0" and m: "off mod BSIZE + length xs \<le> BSIZE"
  obtains i st1 st2 st3 where "fs_bread (dv st) a st = Ok (i, st1)"
    "fs_log_write i (fs_bset i (patch (off mod BSIZE) xs (fs_data i st1)) st1) = Ok st2" "fs_brelse i st2 = Ok st3"
    "fwrote ip st st3 off xs" "fs_tx M {} (k + 2) N st3" "itable st3 = itable st"
proof -
  note result = that
  have "used (blks st) (addrs ip st) a" using a off_blk [OF o1] by (auto simp: used_def)
  note au = fs_file_used [OF f this]
  have tx': "fs_tx M {} (Suc (if a \<in> lgd st \<union> M then Suc k else Suc (Suc k))) (Suc N) st"
    using tx by (rule fs_tx_less) auto
  have len: "length (patch (off mod BSIZE) xs (blks st a)) = BSIZE" using m length_blks [OF tx] by simp
  obtain i st1 st2 st3 where u: "fs_bread (dv st) a st = Ok (i, st1)" "fs_data i st1 = blks st a" "sb st1 = sb st"
    "fs_log_write i (fs_bset i (patch (off mod BSIZE) xs (blks st a)) st1) = Ok st2" "fs_brelse i st2 = Ok st3" "fs_tx M {} (Suc (Suc k)) N st3"
    "fs_keeps {} st st3" "blks st3 = (blks st)(a := patch (off mod BSIZE) xs (blks st a))" "itable st3 = itable st" "lgd st3 = insert a (lgd st)"
    by (rule fs_update [OF tx' refl _ au(4) len]) simp_all
  have "fwrote ip st st3 off xs" by (rule fwrote_patch [OF f o1 a m u(7,9,8)])
  then show thesis using result [OF u(1) _ u(5)] u by simp
qed

text \<open>One pass of the loop: it stops when the disk is full, else a chunk is written and the loop goes on.\<close>

lemma writei_pass:
  assumes cin: "cin src (unat (chunk_len n tot off)) um = Ok (True, xs, um)" "length xs = unat (chunk_len n tot off)" and tot: "tot < n"
    and sz: "unat off = o0 + unat tot" "o0 + unat n \<le> MAXFILE * BSIZE" and M: "bmap_blocks (sb st) \<subseteq> M" and f: "fs_file ip st"
    and tx: "fs_tx M {} (k + ind_room ip st + 3) (bmap_io (sb st) + Suc N) st"
  obtains (stop) st' where "writei_loop cin ip src off n tot um st = Ok (tot, off, um, st')" "fwrote ip st st' (unat off) []"
      "full (blks st') (sb st')" "fs_tx M {} (k + ind_room ip st' + 2) N st'"
  | (pass) st' where "writei_loop cin ip src off n tot um st =
        writei_loop cin ip (src + ucast (chunk_len n tot off)) (off + chunk_len n tot off) n (tot + chunk_len n tot off) um st'"
      "fwrote ip st st' (unat off) xs" "fs_tx M {} (k + ind_room ip st' + 2) N st'"
proof -
  note stop = stop and pass = pass
  define m where "m = chunk_len n tot off"
  note ch = chunk_step [OF tot sz, folded m_def]
  obtain a st1 where b: "bmap ip (off div of_nat BSIZE) st = Ok (a, st1)" "fstep ip st st1" "a = fblk (blks st1) (addrs ip st1) (unat (off div of_nat BSIZE))"
      "a = 0 \<Longrightarrow> full (blks st1) (sb st1)" "fs_tx M {} (k + ind_room ip st1 + (if a \<in> lgd st1 then 2 else 3)) (Suc N) st1"
    using bmap_spec [OF tx M f ch(4)] by blast
  note f1 = fstepD(2) [OF b(2)] and w1 = fstep_fwrote [OF b(2), of "unat off"]
  have dev1: "i_dev (itable st1 ! ip) = dv st1" using f1 by (simp add: fs_file_def)
  show thesis
  proof (cases "a = 0")
    case True
    have "writei_loop cin ip src off n tot um st = Ok (tot, off, um, st1)"
      by (subst writei_loop.simps) (use tot b(1) True in simp)
    moreover have "fs_tx M {} (k + ind_room ip st1 + 2) N st1" using b(5) by (rule fs_tx_less) simp_all
    ultimately show thesis using stop w1 b(4) True by blast
  next
    case False
    have o1: "unat off < MAXFILE * BSIZE" using sz tot by (simp add: word_less_nat_alt)
    have xB: "unat off mod BSIZE + length xs \<le> BSIZE" using cin(2) ch(3) mod_less_divisor [of BSIZE "unat off"] by (simp add: kconst m_def)
    obtain i st2 st3 st4 where w: "fs_bread (dv st1) a st1 = Ok (i, st2)"
        "fs_log_write i (fs_bset i (patch (unat off mod BSIZE) xs (fs_data i st2)) st2) = Ok st3" "fs_brelse i st3 = Ok st4"
        "fwrote ip st1 st4 (unat off) xs" "fs_tx M {} ((k + ind_room ip st1) + 2) N st4" "itable st4 = itable st1"
      by (rule writei_chunk [OF b(5) f1 o1 _ False xB]) (use b(3) in simp_all)
    have run: "writei_loop cin ip src off n tot um st = writei_loop cin ip (src + ucast m) (off + m) n (tot + m) um st4"
      by (subst writei_loop.simps) (use tot b(1) False w(1-3) dev1 cin(1) in \<open>simp add: m_def [symmetric] Let_def\<close>)
    have "ind_room ip st4 \<le> ind_room ip st1" using w(6) fs_keepsD(4) [OF fwroteD(1) [OF w(4)]] by (auto simp: ind_room_def)
    then have "fs_tx M {} (k + ind_room ip st4 + 2) N st4" by (intro fs_tx_less [OF w(5)]) simp_all
    moreover have "fwrote ip st st4 (unat off) xs" using fwrote_trans [OF w1, of st4] w(4) by simp
    ultimately show thesis using pass run unfolding m_def by blast
  qed
qed

lemma slice_join: "slice a m data @ slice (a + m) k data = slice a (m + k) data"
  using take_add [of m k "drop a data"] by (simp add: slice_def add.commute)

lemma writei_loop_spec:
  assumes law: "\<And>t m. t + m \<le> unat n \<Longrightarrow> cin (src0 + of_nat t) m um = Ok (True, slice t m data, um)" and data: "unat n \<le> length data"
    and sz: "o0 + unat n \<le> MAXFILE * BSIZE" and M: "bmap_blocks (sb st) \<subseteq> M"
    and f: "fs_file ip st" and at: "tot \<le> n" "unat off = o0 + unat tot" "src = src0 + of_nat (unat tot)"
    and tx: "fs_tx M {} (passes (unat off) (unat n - unat tot) + k + ind_room ip st + 2)
      (passes (unat off) (unat n - unat tot) * (bmap_io (sb st) + 1) + N) st"
  shows "\<exists>t off' st'. writei_loop cin ip src off n tot um st = Ok (t, off', um, st') \<and> tot \<le> t \<and> t \<le> n \<and> unat off' = o0 + unat t \<and>
    fwrote ip st st' (unat off) (slice (unat tot) (unat t - unat tot) data) \<and> (t < n \<longrightarrow> full (blks st') (sb st')) \<and>
    fs_tx M {} (k + ind_room ip st' + 2) N st'"
  using M f at tx
proof (induction "unat n - unat tot" arbitrary: tot off src st rule: less_induct)
  case less
  show ?case
  proof (cases "tot < n")
    case False
    then have e: "tot = n" using less.prems(3) by simp
    then have "writei_loop cin ip src off n tot um st = Ok (n, off, um, st)" by (subst writei_loop.simps) simp
    moreover have "fwrote ip st st (unat off) []" by (rule fstep_fwrote [OF fstep_refl [OF less.prems(2)]])
    ultimately show ?thesis using less.prems(4,6) e by (simp add: passes_def slice_def)
  next
    case True
    define m where "m = chunk_len n tot off"
    note ch = chunk_step [OF True less.prems(4) sz, folded m_def]
    have offm: "unat (off + m) = unat off + unat m" using ch(7) less.prems(4) by simp
    define P where "P = passes (unat (off + m)) (unat n - unat (tot + m))"
    have P: "passes (unat off) (unat n - unat tot) = Suc P"
      using passes_step [of "unat n - unat tot" "unat m" "unat off"] unat_chunk [OF less.prems(3), of off] ch(2,6) True offm
      by (simp add: P_def m_def word_less_nat_alt)
    let ?N = "P * (bmap_io (sb st) + 1) + N" and ?xs = "slice (unat tot) (unat m) data"
    have tx0: "fs_tx M {} ((P + k) + ind_room ip st + 3) (bmap_io (sb st) + Suc ?N) st"
      using less.prems(6) unfolding P by (rule fs_tx_less) simp_all
    have cin: "cin src (unat m) um = Ok (True, ?xs, um)" "length ?xs = unat m"
      using law [of "unat tot" "unat m"] data ch(2) True less.prems(5) by (simp_all add: word_less_nat_alt)
    show ?thesis
    proof (rule writei_pass [where cin = cin and xs = ?xs and k = "P + k" and N = ?N and n = n and tot = tot and off = off, folded m_def,
          OF cin True less.prems(4) sz less.prems(1,2) tx0])
      fix st' assume s: "writei_loop cin ip src off n tot um st = Ok (tot, off, um, st')" "fwrote ip st st' (unat off) []"
        "full (blks st') (sb st')" "fs_tx M {} (P + k + ind_room ip st' + 2) ?N st'"
      moreover have "fs_tx M {} (k + ind_room ip st' + 2) N st'" using s(4) by (rule fs_tx_less) simp_all
      ultimately show ?thesis using less.prems(3,4) by (simp add: slice_def)
    next
      fix st1 assume s: "writei_loop cin ip src off n tot um st = writei_loop cin ip (src + ucast m) (off + m) n (tot + m) um st1"
        "fwrote ip st st1 (unat off) ?xs" "fs_tx M {} (P + k + ind_room ip st1 + 2) ?N st1"
      note s1 = fs_keepsD [OF fwroteD(1) [OF s(2)]]
      have "\<exists>t off' st'. writei_loop cin ip (src + ucast m) (off + m) n (tot + m) um st1 = Ok (t, off', um, st') \<and> tot + m \<le> t \<and> t \<le> n \<and>
          unat off' = o0 + unat t \<and> fwrote ip st1 st' (unat (off + m)) (slice (unat (tot + m)) (unat t - unat (tot + m)) data) \<and>
          (t < n \<longrightarrow> full (blks st') (sb st')) \<and> fs_tx M {} (k + ind_room ip st' + 2) N st'"
      proof (rule less.hyps)
        show "unat n - unat (tot + m) < unat n - unat tot" using ch(1,2,6) by simp
        show "src + ucast m = src0 + of_nat (unat (tot + m))" using less.prems(5) ch(6) by simp
      qed (use s(3) s1(1) less.prems(1) fwroteD(2) [OF s(2)] ch(5-7) in \<open>simp_all add: P_def\<close>)
      then obtain t off' st' where h: "writei_loop cin ip (src + ucast m) (off + m) n (tot + m) um st1 = Ok (t, off', um, st')" "tot + m \<le> t" "t \<le> n"
          "unat off' = o0 + unat t" "fwrote ip st1 st' (unat (off + m)) (slice (unat (tot + m)) (unat t - unat (tot + m)) data)"
          "t < n \<longrightarrow> full (blks st') (sb st')" "fs_tx M {} (k + ind_room ip st' + 2) N st'"
        by blast
      have tt: "unat tot + unat m \<le> unat t" using h(2) ch(6) by (simp add: word_le_nat_alt)
      then have j: "?xs @ slice (unat (tot + m)) (unat t - unat (tot + m)) data = slice (unat tot) (unat t - unat tot) data"
        using slice_join [of "unat tot" "unat m" data] ch(6) by simp
      have "fwrote ip st st' (unat off) (slice (unat tot) (unat t - unat tot) data)"
        using fwrote_trans [OF s(2), of st'] h(5) offm cin(2) unfolding j [symmetric] by simp
      moreover have "tot \<le> t" using tt by (simp add: word_le_nat_alt)
      ultimately show ?thesis using s(1) h by auto
    qed
  qed
qed

section \<open>The inode on the disk\<close>

lemma write_dinode_addrs:
  fixes A :: "u32 list"
  assumes "o1 + 12 + 4 * n \<le> length bs"
  defines "w \<equiv> fold (\<lambda>k bs. put32 (o1 + 12 + 4 * k) (A ! k) bs) [0..<n] bs"
  shows "length w = length bs" "\<forall>k<n. get32 w (o1 + 12 + 4 * k) = A ! k"
    "\<forall>o2. o2 + 4 \<le> o1 + 12 \<longrightarrow> get32 w o2 = get32 bs o2" "\<forall>o2. o2 + 2 \<le> o1 + 12 \<longrightarrow> get16 w o2 = get16 bs o2"
proof -
  have "length w = length bs \<and> (\<forall>k<n. get32 w (o1 + 12 + 4 * k) = A ! k) \<and> (\<forall>o2. o2 + 4 \<le> o1 + 12 \<longrightarrow> get32 w o2 = get32 bs o2) \<and>
    (\<forall>o2. o2 + 2 \<le> o1 + 12 \<longrightarrow> get16 w o2 = get16 bs o2)"
    using assms(1) unfolding w_def
  proof (induction n)
    case (Suc n)
    then show ?case by (auto simp: get_put less_Suc_eq)
  qed simp
  then show "length w = length bs" "\<forall>k<n. get32 w (o1 + 12 + 4 * k) = A ! k"
    "\<forall>o2. o2 + 4 \<le> o1 + 12 \<longrightarrow> get32 w o2 = get32 bs o2" "\<forall>o2. o2 + 2 \<le> o1 + 12 \<longrightarrow> get16 w o2 = get16 bs o2" by blast+
qed

text \<open>What \<open>iupdate\<close> stores in the inode's slot, \<open>ilock\<close> reads back.\<close>

lemma dinode_roundtrip:
  assumes "o1 + DINODE_SIZE \<le> length bs" "length (i_addrs i) = Suc NDIRECT"
  shows "length (write_dinode i o1 bs) = length bs"
    "read_dinode (write_dinode i o1 bs) o1 ip = ip\<lparr>i_type := i_type i, i_major := i_major i, i_minor := i_minor i,
       i_nlink := i_nlink i, i_size := i_size i, i_addrs := i_addrs i\<rparr>"
proof -
  define b0 where "b0 = put32 (o1 + 8) (i_size i) (put16 (o1 + 6) (i_nlink i) (put16 (o1 + 4) (i_minor i)
         (put16 (o1 + 2) (i_major i) (put16 o1 (i_type i) bs))))"
  have len: "o1 + 64 \<le> length bs" using assms(1) by (simp add: kconst)
  then have l0: "length b0 = length bs" by (simp add: b0_def)
  have "o1 + 12 + 4 * (NDIRECT + 1) \<le> length b0" using len l0 by (simp add: kconst)
  note w = write_dinode_addrs [OF this, of "i_addrs i"]
  have e: "write_dinode i o1 bs = fold (\<lambda>k bs. put32 (o1 + 12 + 4 * k) (i_addrs i ! k) bs) [0..<NDIRECT + 1] b0"
    by (simp only: write_dinode_def b0_def)
  show "length (write_dinode i o1 bs) = length bs" unfolding e using w(1) l0 by simp
  have f: "get16 b0 o1 = i_type i" "get16 b0 (o1 + 2) = i_major i" "get16 b0 (o1 + 4) = i_minor i" "get16 b0 (o1 + 6) = i_nlink i"
    "get32 b0 (o1 + 8) = i_size i" using len by (simp_all add: b0_def get_put)
  have "map (\<lambda>k. get32 (write_dinode i o1 bs) (o1 + 12 + 4 * k)) [0..<NDIRECT + 1] = i_addrs i"
    unfolding e by (rule nth_equalityI) (use w(2) assms(2) in \<open>auto simp del: upt_Suc\<close>)
  then show "read_dinode (write_dinode i o1 bs) o1 ip = ip\<lparr>i_type := i_type i, i_major := i_major i, i_minor := i_minor i,
       i_nlink := i_nlink i, i_size := i_size i, i_addrs := i_addrs i\<rparr>"
    unfolding read_dinode_def using w(3,4) f unfolding e [symmetric] by simp
qed

lemma inode_slot: "inode_off inum + DINODE_SIZE \<le> BSIZE"
proof -
  have "inum mod of_nat IPB < (of_nat IPB :: u32)" by (rule word_mod_less_divisor) (simp add: kconst)
  then have "unat (inum mod of_nat IPB) < 16" by (simp add: word_less_nat_alt kconst)
  then show ?thesis by (simp add: inode_off_def kconst)
qed

text \<open>A change of an inode block, and of an inode's size, leaves the files as they are.\<close>

lemma inode_change:
  assumes f: "fs_file ip st" and b: "b \<in> inode_blocks (sb st)" and len: "length x = BSIZE" and st': "fs_keeps {} st st'"
    "blks st' = (blks st)(b := x)" "ip < length (itable st')" "i_dev (itable st' ! ip) = dv st" "addrs ip st' = addrs ip st"
  shows "fs_file ip st'" "used (blks st') (addrs ip st) = used (blks st) (addrs ip st)" "m < MAXFILE \<Longrightarrow> fblk (blks st') (addrs ip st) m = fblk (blks st) (addrs ip st) m"
    "i < MAXFILE * BSIZE \<Longrightarrow> fblk (blks st) (addrs ip st) (i div BSIZE) \<noteq> 0 \<Longrightarrow> fbyte (blks st') (addrs ip st) i = fbyte (blks st) (addrs ip st) i"
    "c < s_size (sb st) \<Longrightarrow> marked (blks st') (sb st) c = marked (blks st) (sb st) c"
proof -
  let ?s = "sb st" and ?V = "blks st" and ?A = "addrs ip st" and ?W = "blks st'"
  have ok: "fs_ok ?s (lstart st) ?V" and fk: "file_ok ?s (lstart st) ?V ?A" using f by (simp_all add: fs_file_def)
  have nb: "\<not> used ?V ?A b" using fs_file_used(5) [OF f] b by blast
  show map: "fblk ?W ?A m = fblk ?V ?A m" if "m < MAXFILE" for m using nb st'(2) by (auto simp: fblk_def used_def)
  show us: "used ?W ?A = used ?V ?A" by (rule ext) (use map in \<open>auto simp: used_def\<close>)
  show mk: "marked ?W ?s c = marked ?V ?s c" if "c < s_size ?s" for c
  proof -
    have "BBLOCK c ?s \<noteq> b" using ok b that by (auto simp: fs_ok_def bmap_blocks_def)
    then show ?thesis using st'(2) by (simp add: marked_def)
  qed
  show "fbyte ?W ?A i = fbyte ?V ?A i" if "i < MAXFILE * BSIZE" "fblk ?V ?A (i div BSIZE) \<noteq> 0"
  proof -
    have "fblk ?V ?A (i div BSIZE) \<noteq> b" using nb that off_blk by (auto simp: used_def)
    then show ?thesis using map off_blk that st'(2) by (simp add: fbyte_def)
  qed
  have okW: "fs_ok ?s (lstart st) ?W" using ok mk len st'(2) unfolding fs_ok_def by auto
  have "file_ok ?s (lstart st) ?W ?A" using fk mk map unfolding file_ok_def us by (auto simp: data_blk_def)
  then show "fs_file ip st'" using okW f st'(3-5) fs_keepsD [OF st'(1)] by (simp add: fs_file_def)
qed

lemma iupdate_spec:
  assumes tx: "fs_tx M {} (Suc k) (Suc N) st" and i: "i = itable st ! ip" "i_dev i = dv st" "length (i_addrs i) = Suc NDIRECT"
    and b: "b = IBLOCK (i_inum i) (sb st)" "b \<in> M" "b \<notin> log_area (lstart st)"
  obtains st' where "iupdate ip st = Ok st'" "fs_tx M {} (Suc k) N st'" "fs_keeps {} st st'" "itable st' = itable st"
    "blks st' = (blks st)(b := write_dinode i (inode_off (i_inum i)) (blks st b))" "lgd st' = insert b (lgd st)"
    "length (write_dinode i (inode_off (i_inum i)) (blks st b)) = BSIZE"
proof -
  note result = that
  have "inode_off (i_inum i) + DINODE_SIZE \<le> length (blks st b)" using inode_slot length_blks [OF tx] by simp
  then have len: "length (write_dinode i (inode_off (i_inum i)) (blks st b)) = BSIZE" using dinode_roundtrip(1) i(3) length_blks [OF tx] by simp
  have k: "k = (if b \<in> lgd st \<union> M then k else Suc k)" using b(2) by simp
  obtain j st1 st2 st3 where u: "fs_bread (dv st) b st = Ok (j, st1)" "fs_data j st1 = blks st b" "sb st1 = sb st"
    "fs_log_write j (fs_bset j (write_dinode i (inode_off (i_inum i)) (blks st b)) st1) = Ok st2" "fs_brelse j st2 = Ok st3" "fs_tx M {} (Suc k) N st3"
    "fs_keeps {} st st3" "blks st3 = (blks st)(b := write_dinode i (inode_off (i_inum i)) (blks st b))" "itable st3 = itable st" "lgd st3 = insert b (lgd st)"
    by (rule fs_update [OF tx k _ b(3) len]) simp_all
  have "iupdate ip st = Ok st3" using u(1,2,4,5) i(1,2) b(1) by (simp add: iupdate_def)
  then show thesis using result u(6-10) len by blast
qed

section \<open>writei\<close>

text \<open>
  The bytes \<open>xs\<close> have been written to the file \<open>ip\<close> at \<open>off\<close>: its contents are patched, its size grows if it has
  to, the inode on the disk is the one in memory, no block is marked but for the file, and no other block in use
  has changed, the bitmap and the inode's block apart.
\<close>

definition wrote :: "nat \<Rightarrow> nat \<Rightarrow> byte list \<Rightarrow> fsys \<Rightarrow> fsys \<Rightarrow> bool" where
  "wrote ip off xs st st' =
     (let s = sb st; i = itable st ! ip; i' = itable st' ! ip; V = blks st; V' = blks st'; ib = IBLOCK (i_inum i) s in
      fs_file ip st' \<and> unat (i_size i') = max (unat (i_size i)) (off + length xs) \<and> mapped V' (i_addrs i') (unat (i_size i')) \<and>
      fbytes V' (i_addrs i') 0 (unat (i_size i')) = patch off xs (fbytes V (i_addrs i) 0 (unat (i_size i))) \<and>
      itable st' = (itable st)[ip := i\<lparr>i_addrs := i_addrs i', i_size := i_size i'\<rparr>] \<and>
      read_dinode (V' ib) (inode_off (i_inum i)) i' = i' \<and>
      (\<forall>b. b < s_size s \<longrightarrow> marked V' s b = (marked V s b \<or> used V' (i_addrs i') b)) \<and>
      (\<forall>b. b \<notin> bmap_blocks s \<and> b \<noteq> ib \<and> (b < s_size s \<longrightarrow> marked V s b) \<and> \<not> used V (i_addrs i) b \<longrightarrow> V' b = V b))"

lemma nth_patch_grow:
  assumes "off \<le> length bs" "i < max (length bs) (off + length xs)"
  shows "patch off xs bs ! i = (if off \<le> i \<and> i < off + length xs then xs ! (i - off) else bs ! i)"
  using assms by (auto simp: patch_def nth_append min_def)

lemma length_patch_grow: "off \<le> length bs \<Longrightarrow> length (patch off xs bs) = max (length bs) (off + length xs)"
  by (auto simp: patch_def)

lemma mapped_blk: "mapped V A n \<Longrightarrow> i < n \<Longrightarrow> fblk V A (i div BSIZE) \<noteq> 0"
proof -
  assume "mapped V A n" "i < n"
  moreover have "i div BSIZE * BSIZE \<le> i" by simp
  ultimately show ?thesis unfolding mapped_def by (meson order.strict_trans1)
qed

lemma fwrote_contents:
  assumes w: "fwrote ip st st' off xs" and m: "mapped (blks st) (addrs ip st) sz" and o1: "off \<le> sz" "off + length xs \<le> MAXFILE * BSIZE"
  defines "sz' \<equiv> max sz (off + length xs)"
  shows "mapped (blks st') (addrs ip st') sz'"
    "fbytes (blks st') (addrs ip st') 0 sz' = patch off xs (fbytes (blks st) (addrs ip st) 0 sz)"
proof -
  note d = fwroteD [OF w]
  have lim: "sz' \<le> MAXFILE * BSIZE" using m o1(2) by (simp add: mapped_def sz'_def)
  have byte: "fblk (blks st') (addrs ip st') (i div BSIZE) \<noteq> 0 \<and>
      fbyte (blks st') (addrs ip st') i = (if off \<le> i \<and> i < off + length xs then xs ! (i - off) else fbyte (blks st) (addrs ip st) i)"
    if "i < sz'" for i
  proof (cases "off \<le> i \<and> i < off + length xs")
    case True
    then show ?thesis using d(4,5) lim that by simp
  next
    case False
    then have "i < sz" using that o1(1) by (auto simp: sz'_def)
    then have b: "fblk (blks st) (addrs ip st) (i div BSIZE) \<noteq> 0" "i < MAXFILE * BSIZE" using mapped_blk [OF m] lim that by auto
    then show ?thesis using d(6) [OF b(2) False b(1)] fgrowsD(4) [OF d(3) off_blk [OF b(2)] b(1)] False by auto
  qed
  show "mapped (blks st') (addrs ip st') sz'"
    unfolding mapped_def
  proof (intro conjI allI impI lim)
    fix m assume "m * BSIZE < sz'"
    then show "fblk (blks st') (addrs ip st') m \<noteq> 0" using byte [of "m * BSIZE"] by (simp add: kconst)
  qed
  show "fbytes (blks st') (addrs ip st') 0 sz' = patch off xs (fbytes (blks st) (addrs ip st) 0 sz)"
  proof (rule nth_equalityI)
    show "length (fbytes (blks st') (addrs ip st') 0 sz') = length (patch off xs (fbytes (blks st) (addrs ip st) 0 sz))"
      using o1(1) by (simp add: length_patch_grow sz'_def)
    fix i assume "i < length (fbytes (blks st') (addrs ip st') 0 sz')"
    then have i: "i < sz'" by simp
    then show "fbytes (blks st') (addrs ip st') 0 sz' ! i = patch off xs (fbytes (blks st) (addrs ip st) 0 sz) ! i"
      using byte nth_patch_grow [of off "fbytes (blks st) (addrs ip st) 0 sz" i xs] o1(1) by (auto simp: fbytes_def sz'_def)
  qed
qed

text \<open>After the loop: the new size and the inode's block.\<close>

lemma wrote_finish:
  assumes w: "fwrote ip st st1 off xs" and m: "mapped (blks st) (addrs ip st) (unat (i_size (itable st ! ip)))"
    and o1: "off \<le> unat (i_size (itable st ! ip))" "off + length xs \<le> MAXFILE * BSIZE" and z: "unat z = max (unat (i_size (itable st ! ip))) (off + length xs)"
    and ip: "ip < length (itable st)" "i_inum (itable st ! ip) < s_ninodes (sb st)"
    and M: "IBLOCK (i_inum (itable st ! ip)) (sb st) \<in> M" and tx: "fs_tx M {} (Suc k) (Suc N) st1"
  obtains st' where "iupdate ip (upd_inode ip (\<lambda>i. i\<lparr>i_size := z\<rparr>) st1) = Ok st'" "fs_tx M {} (Suc k) N st'" "fs_keeps {} st st'" "wrote ip off xs st st'"
    "full (blks st1) (sb st1) \<Longrightarrow> full (blks st') (sb st')" "new_logged st st'" "lgd st' \<noteq> {}"
proof -
  note result = that and d = fwroteD [OF w]
  let ?i = "itable st ! ip" and ?s = "sb st"
  obtain A1 where A1: "itable st1 = (itable st)[ip := ?i\<lparr>i_addrs := A1\<rparr>]" using w by (auto simp: fwrote_def)
  define st2 where "st2 = upd_inode ip (\<lambda>i. i\<lparr>i_size := z\<rparr>) st1"
  define i2 where "i2 = ?i\<lparr>i_addrs := A1, i_size := z\<rparr>"
  have it2: "itable st2 = (itable st)[ip := i2]" using A1 ip(1) by (simp add: st2_def upd_inode_def i2_def)
  have e2: "fio st2 = fio st1" "sb st2 = sb st1" "fs_tx M {} (Suc k) (Suc N) st2" using tx by (simp_all add: st2_def upd_inode_def)
  note s1 = fs_keepsD [OF d(1)]
  have f1: "ip < length (itable st1)" "i_dev ?i = dv st1" "length A1 = Suc NDIRECT" "fs_ok ?s (lstart st1) (blks st1)" "addrs ip st1 = A1"
    using d(2) A1 ip(1) s1(1) by (simp_all add: fs_file_def file_ok_def)
  let ?b = "IBLOCK (i_inum ?i) ?s"
  have b: "?b \<in> inode_blocks ?s" using ip(2) by (auto simp: inode_blocks_def)
  have bl: "?b \<notin> log_area (lstart st2)" using f1(4) b e2 by (auto simp: fs_ok_def)
  have i2: "i2 = itable st2 ! ip" "i_dev i2 = dv st2" "length (i_addrs i2) = Suc NDIRECT" "?b = IBLOCK (i_inum i2) (sb st2)"
    using it2 ip(1) f1(2,3) e2 s1(1) by (simp_all add: i2_def)
  obtain st3 where u: "iupdate ip st2 = Ok st3" "fs_tx M {} (Suc k) N st3" "fs_keeps {} st2 st3" "itable st3 = itable st2"
    "blks st3 = (blks st2)(?b := write_dinode i2 (inode_off (i_inum i2)) (blks st2 ?b))" "lgd st3 = insert ?b (lgd st2)"
    "length (write_dinode i2 (inode_off (i_inum i2)) (blks st2 ?b)) = BSIZE"
    by (rule iupdate_spec [OF e2(3) i2 M bl])
  have k13: "fs_keeps {} st1 st3" using u(3) e2 by (simp add: fs_keeps_def)
  have i3: "itable st3 ! ip = i2" "addrs ip st3 = A1" using u(4) it2 ip(1) by (simp_all add: i2_def)
  have V3: "blks st3 = (blks st1)(?b := write_dinode i2 (inode_off (i_inum i2)) (blks st2 ?b))" using u(5) e2 by simp
  have b1: "?b \<in> inode_blocks (sb st1)" using b s1(1) by simp
  have p: "ip < length (itable st3)" "i_dev (itable st3 ! ip) = dv st1" "addrs ip st3 = addrs ip st1"
    using u(4) it2 ip(1) i3 f1 by (simp_all add: i2_def)
  note ch = inode_change [OF d(2) b1 u(7) k13 V3 p]
  note c = fwrote_contents [OF w m o1]
  have lim: "unat z \<le> MAXFILE * BSIZE" using c(1) z by (simp add: mapped_def)
  have mp: "mapped (blks st3) A1 (unat z)"
    unfolding mapped_def
  proof (intro conjI allI impI lim)
    fix m assume m: "m * BSIZE < unat z"
    then have "m * BSIZE < MAXFILE * BSIZE" using lim by linarith
    then have "m < MAXFILE" by simp
    then show "fblk (blks st3) A1 m \<noteq> 0" using ch(3) [of m] c(1) z f1(5) m by (simp add: mapped_def)
  qed
  have fby: "fbytes (blks st3) A1 0 (unat z) = fbytes (blks st1) A1 0 (unat z)"
    unfolding fbytes_def by (rule map_cong [OF refl]) (use ch(4) c(1) z f1(5) lim mapped_blk in auto)
  have mk: "marked (blks st3) ?s c = (marked (blks st) ?s c \<or> used (blks st3) A1 c)" if "c < s_size ?s" for c
  proof -
    have "used (blks st1) A1 c \<Longrightarrow> marked (blks st1) ?s c" using fs_file_used(3) [OF d(2)] f1(5) s1(1) by simp
    then show ?thesis using ch(2,5) fgrowsD(1,2) [OF d(3) that] that s1(1) f1(5) by auto
  qed
  have rd: "read_dinode (blks st3 ?b) (inode_off (i_inum ?i)) i2 = i2"
    using dinode_roundtrip(2) [of "inode_off (i_inum i2)" "blks st2 ?b" i2 i2] inode_slot [of "i_inum i2"] i2(3) V3 f1(4) e2(1)
    by (simp add: i2_def fs_ok_def)
  have fr: "blks st3 c = blks st c" if "c \<notin> bmap_blocks ?s \<and> c \<noteq> ?b \<and> (c < s_size ?s \<longrightarrow> marked (blks st) ?s c) \<and> \<not> used (blks st) (addrs ip st) c" for c
    using fgrowsD(5) [OF d(3), of c] that V3 by simp
  have "wrote ip off xs st st3"
    unfolding wrote_def Let_def i3 using ch(1) z mp fby c(2) mk rd fr u(4) it2 f1(5) by (simp add: i2_def)
  moreover have "full (blks st3) (sb st3)" if "full (blks st1) (sb st1)" using that ch(5) fs_keepsD(1) [OF k13] by (simp add: full_def)
  moreover have "new_logged st1 st3" using ch(5) by (auto simp: new_logged_def)
  ultimately show thesis using result [OF _ u(2) fs_keeps_trans [OF d(1) k13]] u(1,6) new_logged_trans [OF d(7) _ d(1) k13] by (simp add: st2_def)
qed

lemma writei_spec:
  assumes law: "\<And>t m. t + m \<le> unat n \<Longrightarrow> cin (src + of_nat t) m um = Ok (True, slice t m data, um)" and data: "unat n \<le> length data"
    and f: "fs_file ip st" and mp: "mapped (blks st) (addrs ip st) (unat (i_size (itable st ! ip)))"
    and inum: "i_inum (itable st ! ip) < s_ninodes (sb st)" and off: "off \<le> i_size (itable st ! ip)" "unat off + unat n \<le> MAXFILE * BSIZE"
    and M: "bmap_blocks (sb st) \<subseteq> M" "IBLOCK (i_inum (itable st ! ip)) (sb st) \<in> M"
    and tx: "fs_tx M {} (passes (unat off) (unat n) + k + ind_room ip st + 2) (passes (unat off) (unat n) * (bmap_io (sb st) + 1) + Suc N) st"
  obtains r st' where "writei cin ip src off n um st = Ok (int r, um, st')" "r \<le> unat n" "r < unat n \<Longrightarrow> full (blks st') (sb st')"
    "fs_keeps {} st st'" "wrote ip (unat off) (take r data) st st'" "fs_tx M {} (k + 2) N st'" "new_logged st st'" "lgd st' \<noteq> {}"
proof -
  note result = that
  let ?i = "itable st ! ip"
  have "\<exists>t off' st'. writei_loop cin ip src off n 0 um st = Ok (t, off', um, st') \<and> 0 \<le> t \<and> t \<le> n \<and> unat off' = unat off + unat t \<and>
    fwrote ip st st' (unat off) (slice (unat (0::u32)) (unat t - unat (0::u32)) data) \<and> (t < n \<longrightarrow> full (blks st') (sb st')) \<and>
    fs_tx M {} (k + ind_room ip st' + 2) (Suc N) st'"
    by (rule writei_loop_spec [where cin = cin and um = um and ?src0.0 = src and n = n and data = data, OF law data off(2) M(1) f])
      (use tx in simp_all)
  then obtain t off' st1 where l: "writei_loop cin ip src off n 0 um st = Ok (t, off', um, st1)" "t \<le> n" "unat off' = unat off + unat t"
      "fwrote ip st st1 (unat off) (take (unat t) data)" "t < n \<longrightarrow> full (blks st1) (sb st1)" "fs_tx M {} (k + ind_room ip st1 + 2) (Suc N) st1"
    by (auto simp: slice_def)
  have t: "unat t \<le> unat n" "unat t \<le> length data" "unat off + unat t \<le> 274432" using l(2) data off(2) by (simp_all add: word_le_nat_alt kconst)
  define z where "z = (if i_size ?i < off' then off' else i_size ?i)"
  have i1: "i_size (itable st1 ! ip) = i_size ?i" using l(4) f by (auto simp: fwrote_def fs_file_def)
  have up: "(if i_size (itable st1 ! ip) < off' then upd_inode ip (\<lambda>i. i\<lparr>i_size := off'\<rparr>) st1 else st1) = upd_inode ip (\<lambda>i. i\<lparr>i_size := z\<rparr>) st1"
    using i1 [symmetric] by (simp add: z_def upd_inode_def)
  have z: "unat z = max (unat (i_size ?i)) (unat off + length (take (unat t) data))"
    using l(3) t(2) by (auto simp: z_def word_less_nat_alt max_def)
  have ip: "ip < length (itable st)" using f by (simp add: fs_file_def)
  have o1: "unat off \<le> unat (i_size ?i)" "unat off + length (take (unat t) data) \<le> MAXFILE * BSIZE"
    using off t by (simp_all add: word_le_nat_alt)
  have tx1: "fs_tx M {} (Suc (k + 1)) (Suc N) st1" using l(6) by (rule fs_tx_less) simp_all
  obtain st' where w: "iupdate ip (upd_inode ip (\<lambda>i. i\<lparr>i_size := z\<rparr>) st1) = Ok st'" "fs_tx M {} (Suc (k + 1)) N st'" "fs_keeps {} st st'"
      "wrote ip (unat off) (take (unat t) data) st st'" "full (blks st1) (sb st1) \<Longrightarrow> full (blks st') (sb st')" "new_logged st st'" "lgd st' \<noteq> {}"
    using wrote_finish [OF l(4) mp o1 z ip inum M(2) tx1] by blast
  have no: "\<not> i_size ?i < off" "\<not> off + n < off" "\<not> of_nat (MAXFILE * BSIZE) < off + n"
    using off by (auto simp: word_less_nat_alt word_le_nat_alt unat_word_ariths unat_of_nat kconst)
  have "sint t = int (unat t)" by (rule sint_small) (use t(3) in simp)
  then have "writei cin ip src off n um st = Ok (int (unat t), um, st')"
    using no l(1) w(1) up by (simp add: writei_def)
  then show thesis using result [of "unat t" st'] t(1) l(5) w by (simp add: word_less_nat_alt)
qed

section \<open>Reading back\<close>

lemma readi_spec:
  assumes law: "\<And>bs xs. length bs + length xs \<le> unat n \<Longrightarrow> cout (dst + of_nat (length bs)) xs (md bs) = Ok (True, md (bs @ xs))"
    and f: "fs_file ip st" and mp: "mapped (blks st) (addrs ip st) (unat (i_size (itable st ! ip)))"
    and off: "unat off + unat n \<le> unat (i_size (itable st ! ip))" and c: "fs_cache {} (Suc k) (2 * unat n + N) st"
  obtains b where "readi cout ip dst off n (md []) st = Ok (int (unat n), md (fbytes (blks st) (addrs ip st) (unat off) (unat n)), with_bc b st)"
    "fs_cache {} (Suc k) N (with_bc b st)" "fs_keeps {} st (with_bc b st)" "blks (with_bc b st) = blks st"
proof -
  note result = that
  have dev: "i_dev (itable st ! ip) = dv st" and lens: "\<And>b. length (blks st b) = BSIZE" using f by (simp_all add: fs_file_def fs_ok_def)
  have sz: "unat (i_size (itable st ! ip)) \<le> 274432" using mp by (simp add: mapped_def kconst)
  have m': "mapped (blks st) (addrs ip st) (unat off + unat n)" using mp off by (auto simp: mapped_def)
  have no: "\<not> i_size (itable st ! ip) < off" "\<not> off + n < off" "\<not> i_size (itable st ! ip) < off + n"
    using off sz by (auto simp: word_less_nat_alt unat_word_ariths)
  have "\<exists>b. readi_loop cout ip dst off n 0 (md []) st = Ok (int (unat n), md (fbytes (blks st) (addrs ip st) (unat off) (unat n)), with_bc b st) \<and>
    fs_cache {} (Suc k) N (with_bc b st) \<and> fs_keeps {} st (with_bc b st) \<and> blks (with_bc b st) = blks st"
    by (rule readi_loop_spec [where cout = cout and ?dst0.0 = dst and n = n and md = md, OF law dev lens m']) (use c in \<open>simp_all add: fbytes_def\<close>)
  then show thesis using result no by (auto simp: readi_def)
qed

lemma kcopyin_law: "t + m \<le> unat (n :: u32) \<Longrightarrow> kcopyin (0 + of_nat t) m data = Ok (True, slice t m data, data)"
proof -
  assume "t + m \<le> unat n"
  then have "t < 2 ^ 64" using unsigned_less [of n, where ?'a = nat] by simp
  then show ?thesis by (simp add: kcopyin_def unat_of_nat)
qed

lemma kcopyout_law:
  "length bs + length xs \<le> unat (n :: u32) \<Longrightarrow> kcopyout (0 + of_nat (length bs)) xs (patch 0 bs um) = Ok (True, patch 0 (bs @ xs) um)"
proof -
  assume "length bs + length xs \<le> unat n"
  then have "length bs < 2 ^ 64" using unsigned_less [of n, where ?'a = nat] by simp
  then have "unat (of_nat (length bs) :: u64) = length bs" by (simp add: unat_of_nat)
  then show ?thesis by (simp add: kcopyout_def patch_def add.commute [of "length xs"])
qed

lemma fbytes_sub: "off + n \<le> sz \<Longrightarrow> fbytes V A off n = slice off n (fbytes V A 0 sz)"
  by (rule nth_equalityI) (auto simp: fbytes_def slice_def)

lemma one_bitmap:
  assumes "unat (s_size s) \<le> BPB"
  shows "bmap_blocks s \<subseteq> {s_bmapstart s}" "nbitmap s \<le> 1"
proof -
  have "BBLOCK b s = s_bmapstart s" if "b < s_size s" for b
  proof -
    have "unat (b div of_nat BPB) = 0" using that assms by (simp add: unat_div word_less_nat_alt)
    then show ?thesis by (simp add: BBLOCK_def unat_eq_0)
  qed
  then show "bmap_blocks s \<subseteq> {s_bmapstart s}" by (auto simp: bmap_blocks_def)
  show "nbitmap s \<le> 1" using assms by (simp add: nbitmap_def kconst)
qed

lemma passes_bound: "r \<le> 3 * BSIZE \<Longrightarrow> passes off r \<le> 4"
proof -
  assume r: "r \<le> 3 * BSIZE"
  have "off mod BSIZE < BSIZE" by (simp add: kconst)
  then have "off mod BSIZE + r + BSIZE - 1 < 5 * BSIZE" using r by (simp add: kconst)
  then have "(off mod BSIZE + r + BSIZE - 1) div BSIZE < 5" by (rule less_mult_imp_div_less)
  then show ?thesis unfolding passes_def by (cases "r = 0") simp_all
qed

section \<open>A write of one system call\<close>

lemma full_few_free:
  assumes "new_logged st st1" "full (blks st1) (sb st1)" "fs_keeps H st st1" "tx_inv {} (fio st1)"
  shows "int (card (free_blocks st)) \<le> lh_n (lg (fio st1))"
proof -
  have "free_blocks st \<subseteq> lgd st1" using assms(1,2) fs_keepsD(1) [OF assms(3)] by (auto simp: free_blocks_def new_logged_def full_def)
  then have "card (free_blocks st) \<le> card (lgd st1)" by (intro card_mono) simp_all
  then show ?thesis using tx_room [OF assms(4)] by simp
qed

text \<open>The room that a call needs at most: a bitmap block, the inode's block, an indirect block and four data blocks.\<close>

lemma write_room:
  assumes tx: "tx_inv {} (fio st)" "lh_n (lg (fio st)) + int MAXOPBLOCKS \<le> int LOGBLOCKS" "io_ok 10000 (bc (fio st))"
    and s: "unat (s_size (sb st)) \<le> BPB" and n: "n \<le> 3 * BSIZE"
  obtains M k where "bmap_blocks (sb st) \<subseteq> M" "ib \<in> M" "int NBUF \<le> lh_n (lg (fio st)) + int (k + 9)"
    "fs_tx M {} (passes off n + k + ind_room ip st + 2) (passes off n * (bmap_io (sb st) + 1) + Suc 9000) st"
proof -
  note result = that
  define M where "M = bmap_blocks (sb st) \<union> {ib}"
  have M: "bmap_blocks (sb st) \<subseteq> M" "ib \<in> M" "finite M" by (auto simp: M_def)
  have "M \<subseteq> {s_bmapstart (sb st), ib}" using one_bitmap(1) [OF s] by (auto simp: M_def)
  then have "card M \<le> card {s_bmapstart (sb st), ib}" by (intro card_mono) simp_all
  also have "\<dots> \<le> 2" by (simp add: card_insert_if)
  finally have cM: "card (lgd st \<union> M) \<le> card (lgd st) + 2" using card_Un_le [of "lgd st" M] by linarith
  have lh: "lh_n (lg (fio st)) = int (card (lgd st))" by (rule tx_room [OF tx(1)])
  have r: "passes off n \<le> 4" "ind_room ip st \<le> 1" using passes_bound [OF n(1)] by (simp_all add: ind_room_def)
  define k where "k = NBUF - (card (lgd st \<union> M) + passes off n + ind_room ip st + 2)"
  have k: "card (lgd st \<union> M) + (passes off n + k + ind_room ip st + 2) = NBUF" using cM lh tx(2) r by (simp add: k_def kconst)
  have "passes off n * (bmap_io (sb st) + 1) \<le> 4 * 6" using r(1) one_bitmap(2) [OF s] by (intro mult_le_mono) (simp_all add: bmap_io_def)
  then have "passes off n * (bmap_io (sb st) + 1) + Suc 9000 \<le> 10000" by simp
  then have "fs_tx M {} (passes off n + k + ind_room ip st + 2) (passes off n * (bmap_io (sb st) + 1) + Suc 9000) st"
    using tx(1,3) M(3) k io_ok_mono by (simp add: fs_tx_def)
  moreover have "int NBUF \<le> lh_n (lg (fio st)) + int (k + 9)" using k cM r lh by linarith
  ultimately show thesis using result M(1,2) by blast
qed

lemma read_back:
  assumes w: "wrote ip (unat off) xs st st1" and off: "off \<le> i_size (itable st ! ip)" and xs: "length xs = t" "t \<le> 3 * BSIZE"
    and tx: "fs_tx M {} (k + 2) 9000 st1"
  shows "\<exists>st2. readi kcopyout ip 0 off (of_nat t) um st1 = Ok (int t, patch 0 xs um, st2) \<and> blks st2 = blks st1"
proof -
  have z: "unat (i_size (itable st1 ! ip)) = max (unat (i_size (itable st ! ip))) (unat off + t)"
      "mapped (blks st1) (addrs ip st1) (unat (i_size (itable st1 ! ip)))" "fs_file ip st1"
      "fbytes (blks st1) (addrs ip st1) 0 (unat (i_size (itable st1 ! ip))) =
         patch (unat off) xs (fbytes (blks st) (addrs ip st) 0 (unat (i_size (itable st ! ip))))"
    using w xs(1) by (auto simp: wrote_def Let_def)
  have ut: "unat (of_nat t :: u32) = t" using xs(2) by (simp add: unat_of_nat kconst)
  have lim: "unat off + unat (of_nat t :: u32) \<le> unat (i_size (itable st1 ! ip))" using z(1) ut by simp
  have "2 * t \<le> 9000" using xs(2) by (simp add: kconst)
  then have c: "fs_cache {} (Suc (k + 1)) (2 * unat (of_nat t :: u32) + 0) st1"
    using fs_tx_cache [OF tx] ut io_ok_mono [of 9000 _ "2 * t"] by (simp add: fs_cache_def)
  have fb: "fbytes (blks st1) (addrs ip st1) (unat off) t = xs"
    using fbytes_sub [of "unat off" t "unat (i_size (itable st1 ! ip))" "blks st1" "addrs ip st1"] lim ut z(4) off xs(1)
    by (simp add: slice_def patch_def word_le_nat_alt)
  obtain b where "readi kcopyout ip 0 off (of_nat t) (patch 0 [] um) st1 =
      Ok (int (unat (of_nat t :: u32)), patch 0 (fbytes (blks st1) (addrs ip st1) (unat off) (unat (of_nat t :: u32))) um, with_bc b st1)"
      "blks (with_bc b st1) = blks st1"
    using readi_spec [where cout = kcopyout and dst = 0 and n = "of_nat t" and md = "\<lambda>bs. patch 0 bs um", OF kcopyout_law [where n = "of_nat t"] z(3,2) lim c] by blast
  then show ?thesis using ut fb by (auto simp: patch_def)
qed

lemma write_op:
  assumes tx: "tx_inv {} (fio st)" "lh_n (lg (fio st)) + int MAXOPBLOCKS \<le> int LOGBLOCKS" "io_ok 10000 (bc (fio st))"
    and s: "unat (s_size (sb st)) \<le> BPB"
    and f: "fs_file ip st" "mapped (blks st) (addrs ip st) (unat (i_size (itable st ! ip)))" "i_inum (itable st ! ip) < s_ninodes (sb st)"
    and off: "off \<le> i_size (itable st ! ip)" "unat off + unat n \<le> MAXFILE * BSIZE" and n: "unat n \<le> 3 * BSIZE" "unat n \<le> length data"
  obtains r st1 M k where "writei kcopyin ip 0 off n data st = Ok (int r, data, st1)" "r \<le> unat n"
    "r = unat n \<or> free_blocks st1 = {} \<and> int (card (free_blocks st)) \<le> lh_n (lg (fio st)) + int MAXOPBLOCKS" "fs_keeps {} st st1"
    "wrote ip (unat off) (take r data) st st1" "fs_tx M {} (k + 2) 9000 st1" "lgd st1 \<noteq> {}"
    "lh_n (lg (fio st1)) \<le> lh_n (lg (fio st)) + int MAXOPBLOCKS"
proof -
  note result = that
  obtain M k where M: "bmap_blocks (sb st) \<subseteq> M" "IBLOCK (i_inum (itable st ! ip)) (sb st) \<in> M" "int NBUF \<le> lh_n (lg (fio st)) + int (k + 9)"
      "fs_tx M {} (passes (unat off) (unat n) + k + ind_room ip st + 2) (passes (unat off) (unat n) * (bmap_io (sb st) + 1) + Suc 9000) st"
    by (rule write_room [OF tx s n(1)])
  obtain t st1 where w: "writei kcopyin ip 0 off n data st = Ok (int t, data, st1)" "t \<le> unat n" "t < unat n \<Longrightarrow> full (blks st1) (sb st1)"
      "fs_keeps {} st st1" "wrote ip (unat off) (take t data) st st1" "fs_tx M {} (k + 2) 9000 st1" "new_logged st st1" "lgd st1 \<noteq> {}"
    using writei_spec [where cin = kcopyin and n = n and src = 0 and um = data and data = data, OF kcopyin_law [where n = n] n(2) f off M(1,2,4)]
    by blast
  note tx1 = fs_txD [OF w(6)]
  have "card (lgd st1) \<le> card (lgd st1 \<union> M)" using tx1(3) by (intro card_mono) auto
  then have lh1: "lh_n (lg (fio st1)) \<le> lh_n (lg (fio st)) + int MAXOPBLOCKS"
    using tx_room [OF tx1(1)] tx1(5) M(3) by (simp add: kconst)
  have few: "t = unat n \<or> free_blocks st1 = {} \<and> int (card (free_blocks st)) \<le> lh_n (lg (fio st)) + int MAXOPBLOCKS"
  proof (cases "t < unat n")
    case True
    then have "free_blocks st1 = {}" using w(3) by (auto simp: free_blocks_def full_def)
    then show ?thesis using full_few_free [OF w(7) w(3) [OF True] w(4) tx1(1)] lh1 by linarith
  qed (use w(2) in simp)
  show thesis by (rule result [OF w(1,2) few w(4-6,8) lh1])
qed

text \<open>
  C4. \<open>writei\<close> and \<open>readi\<close> implement a file as a sequence of bytes, and one call of \<open>writei\<close>, of at most the three blocks that
  \<open>filewrite\<close> passes at a time, keeps to the part of the log that \<open>begin_op\<close> reserves. Inside a transaction whose log has
  \<open>MAXOPBLOCKS\<close> blocks left, on a disk with one bitmap block, for a well-formed file and an offset within it: the
  call does not panic; it writes a prefix of the data, and less than all of it only if no block of the disk is free in the end (and only if
  there were at most as many free blocks before as the log may hold); the contents of the file
  are patched and no others change; at most \<open>MAXOPBLOCKS\<close> blocks are added to the log; and \<open>readi\<close> then returns the bytes written.
\<close>

theorem writei_readi:
  assumes tx: "tx_inv {} (fio st)" "lh_n (lg (fio st)) + int MAXOPBLOCKS \<le> int LOGBLOCKS" "io_ok 10000 (bc (fio st))"
    and s: "unat (s_size (sb st)) \<le> BPB"
    and f: "fs_file ip st" "mapped (blks st) (addrs ip st) (unat (i_size (itable st ! ip)))" "i_inum (itable st ! ip) < s_ninodes (sb st)"
    and off: "off \<le> i_size (itable st ! ip)" "unat off + unat n \<le> MAXFILE * BSIZE" and n: "unat n \<le> 3 * BSIZE" "unat n \<le> length data"
  shows "\<exists>r st1. writei kcopyin ip 0 off n data st = Ok (int r, data, st1) \<and> r \<le> unat n \<and>
    (r = unat n \<or> free_blocks st1 = {} \<and> int (card (free_blocks st)) \<le> lh_n (lg (fio st)) + int MAXOPBLOCKS) \<and>
    wrote ip (unat off) (take r data) st st1 \<and>
    tx_inv {} (fio st1) \<and> lh_n (lg (fio st1)) \<le> lh_n (lg (fio st)) + int MAXOPBLOCKS \<and>
    (\<exists>st2. readi kcopyout ip 0 off (of_nat r) um st1 = Ok (int r, patch 0 (take r data) um, st2) \<and> blks st2 = blks st1)"
proof -
  obtain t st1 M k where w: "writei kcopyin ip 0 off n data st = Ok (int t, data, st1)" "t \<le> unat n"
      "t = unat n \<or> free_blocks st1 = {} \<and> int (card (free_blocks st)) \<le> lh_n (lg (fio st)) + int MAXOPBLOCKS" "fs_keeps {} st st1"
      "wrote ip (unat off) (take t data) st st1" "fs_tx M {} (k + 2) 9000 st1" "lgd st1 \<noteq> {}"
      "lh_n (lg (fio st1)) \<le> lh_n (lg (fio st)) + int MAXOPBLOCKS"
    by (rule write_op [OF tx s f off n])
  have "length (take t data) = t" "t \<le> 3 * BSIZE" using w(2) n by simp_all
  from read_back [OF w(5) off(1) this w(6), of um] show ?thesis using w(1,2,3,5,8) fs_txD(1) [OF w(6)] by blast
qed

text \<open>
  A small disk: the log from block 2, the inodes in block 40, the bitmap in block 41 with the first 48 blocks marked,
  64 blocks in all, and an inode table with one empty file.
\<close>

definition demo_sb :: superblock where
  "demo_sb = \<lparr>s_magic = FSMAGIC, s_size = 64, s_nblocks = 22, s_ninodes = 16, s_nlog = 31, s_logstart = 2, s_inodestart = 40, s_bmapstart = 41\<rparr>"

definition demo_inode :: inode where
  "demo_inode = blank_inode\<lparr>i_dev := 1, i_inum := 1, i_ref := 1, i_valid := True, i_type := T_FILE, i_nlink := 1\<rparr>"

definition demo_disk :: "u32 \<Rightarrow> byte list" where
  "demo_disk b = (if b = 41 then replicate 6 255 @ replicate (BSIZE - 6) 0
     else if b = 40 then write_dinode demo_inode (inode_off 1) (replicate BSIZE 0) else replicate BSIZE 0)"

lemma demo_inode_block:
  "length (demo_disk 40) = BSIZE" "read_dinode (demo_disk 40) (inode_off 1) demo_inode = demo_inode"
  using dinode_roundtrip(1) [of "inode_off 1" "replicate BSIZE 0" demo_inode]
    dinode_roundtrip(2) [of "inode_off 1" "replicate BSIZE 0" demo_inode demo_inode] inode_slot [of 1]
  by (simp_all add: demo_disk_def demo_inode_def blank_inode_def)

lemma demo_marked:
  assumes V: "V 41 = demo_disk 41" and b: "b < 64"
  shows "marked V demo_sb b = (b < 48)" "BBLOCK b demo_sb = 41"
proof -
  have u: "unat b < 64" using b by (simp add: word_less_nat_alt)
  have "unat (b div of_nat BPB) = 0" using u by (simp add: unat_div kconst)
  then show bb: "BBLOCK b demo_sb = 41" by (simp add: BBLOCK_def unat_eq_0 demo_sb_def)
  have i: "unat b mod BPB = unat b" using u by (simp add: kconst)
  have "marked V demo_sb b = bit (demo_disk 41 ! (unat b div 8)) (unat b mod 8)"
    unfolding marked_def bb i V bit_set_bit by (rule refl)
  also have "\<dots> = (unat b div 8 < 6)"
  proof (cases "unat b div 8 < 6")
    case True
    have "(255 :: byte) = - 1" by simp
    then have "bit (255 :: byte) (unat b mod 8)" by (simp only: bit_minus_1_iff) simp
    then show ?thesis using True by (simp add: demo_disk_def nth_append)
  next
    case False
    moreover have "unat b div 8 - 6 < BSIZE - 6" using u by (simp add: kconst)
    ultimately show ?thesis by (simp add: demo_disk_def nth_append)
  qed
  also have "\<dots> = (b < 48)" by (simp add: word_less_nat_alt div_less_iff_less_mult)
  finally show "marked V demo_sb b = (b < 48)" .
qed

lemma demo_fs:
  assumes V: "\<And>b. b \<noteq> 2 \<Longrightarrow> V b = demo_disk b" "\<And>b. length (V b) = BSIZE"
  shows "fs_ok demo_sb 2 V" "file_ok demo_sb 2 V (i_addrs demo_inode)" "{b. b < s_size demo_sb \<and> \<not> marked V demo_sb b} = {48..<64}"
proof -
  have sz: "s_size demo_sb = 64" "s_ninodes demo_sb = 16" by (simp_all add: demo_sb_def)
  have V41: "V 41 = demo_disk 41" using V(1) by simp
  note m = demo_marked [of V, OF V41]
  have bm: "bmap_blocks demo_sb \<subseteq> {41}" using m(2) sz by (auto simp: bmap_blocks_def)
  have "IBLOCK i demo_sb = 40" if "i < 16" for i
  proof -
    have "unat (i div of_nat IPB) = 0" using that by (simp add: unat_div word_less_nat_alt kconst unat_of_nat)
    then show ?thesis by (simp add: IBLOCK_def unat_eq_0 demo_sb_def)
  qed
  then have ib: "inode_blocks demo_sb \<subseteq> {40}" using sz by (auto simp: inode_blocks_def)
  have la: "b \<notin> log_area 2" if "32 < unat b" for b using that by (intro not_in_log_area) (simp add: kconst)
  have d: "data_blk demo_sb 2 b" if "b < s_size demo_sb \<and> \<not> marked V demo_sb b" for b
  proof -
    have "b < 64" "48 \<le> unat b" using that m(1) [of b] sz by (auto simp: word_less_nat_alt)
    moreover have "b \<noteq> 0" "b \<noteq> 40" "b \<noteq> 41" using \<open>48 \<le> unat b\<close> by auto
    ultimately show ?thesis using la [of b] bm ib sz by (auto simp: data_blk_def)
  qed
  have "41 \<notin> log_area 2" "40 \<notin> log_area 2" using la by auto
  then show "fs_ok demo_sb 2 V" using V(2) bm ib d unfolding fs_ok_def by auto
  have A: "i_addrs demo_inode = replicate (Suc NDIRECT) 0" by (simp add: demo_inode_def blank_inode_def)
  then have nd: "i_addrs demo_inode ! k = 0" if "k \<le> NDIRECT" for k using that by (simp del: replicate_Suc)
  then have "fblk V (i_addrs demo_inode) k = 0" for k by (simp add: fblk_def)
  then show "file_ok demo_sb 2 V (i_addrs demo_inode)" using nd A by (auto simp: file_ok_def used_def)
  show "{b. b < s_size demo_sb \<and> \<not> marked V demo_sb b} = {48..<64}" using m(1) sz by auto
qed

lemma demo_state:
  obtains st where "tx_inv {} (fio st)" "lh_n (lg (fio st)) = 0" "io_ok 10000 (bc (fio st))" "sb st = demo_sb" "itable st = [demo_inode]"
    "dv st = 1" "lstart st = 2" "\<forall>b. b \<noteq> 2 \<longrightarrow> blks st b = demo_disk b" "\<forall>b. length (blks st b) = BSIZE"
    "outstanding (lg (fio st)) = 1" "\<not> committing (lg (fio st))" "get32 (disk (bc (fio st)) 2) 0 = 0"
proof -
  note result = that
  have len: "length (demo_disk b) = BSIZE" for b using demo_inode_block(1) by (simp add: demo_disk_def kconst)
  have z: "get32 (demo_disk 2) 0 = 0" using zero_block(2) by (simp add: demo_disk_def)
  have n0: "dl_n 2 demo_disk = 0" using z by (simp add: dl_n_def)
  then have ok: "dl_ok 2 demo_disk" using len by (simp add: dl_ok_def dl_blocks_def)
  have one: "(1 :: u32) \<noteq> 0" by simp
  have rw: "apply_writes (recovery_writes 2 demo_disk) demo_disk = demo_disk(2 := cleared_head (demo_disk 2))"
    using n0 by (simp add: recovery_writes_def)
  obtain s1 where s1: "tx_inv {} s1" "logged (lg s1) = []" "log_dev (lg s1) = 1" "log_start (lg s1) = 2"
      "disk (bc s1) = demo_disk(2 := cleared_head (demo_disk 2))" "io_ok 1000000 (bc s1)" "outstanding (lg s1) = 1" "\<not> committing (lg s1)"
    using boot_tx [OF one ok] rw by (auto simp: wp_def)
  have c: "cinv 1 {} {} (bc s1)" using s1(1-3) by (simp add: tx_inv_def)
  have v: "view (bc s1) 1 b = disk (bc s1) b" for b using cinv_clean [OF c] by simp
  show thesis
    by (rule result [of "\<lparr>fio = s1, sb = demo_sb, itable = [demo_inode]\<rparr>"])
      (use s1 v tx_room [OF s1(1)] io_ok_mono [OF s1(6), of 10000] view_length [OF cinvD(1) [OF c]] cleared_head [OF len] in \<open>auto simp: fun_upd_def\<close>)
qed

lemma demo_file:
  assumes "sb st = demo_sb" "itable st = [demo_inode]" "dv st = 1" "lstart st = 2" "\<forall>b. b \<noteq> 2 \<longrightarrow> blks st b = demo_disk b" "\<forall>b. length (blks st b) = BSIZE"
  shows "fs_file 0 st" "free_blocks st = {48..<64}" "unat (s_size (sb st)) \<le> BPB" "fs_ok (sb st) (lstart st) (blks st)"
    "mapped (blks st) (addrs 0 st) (unat (i_size (itable st ! 0)))" "i_inum (itable st ! 0) < s_ninodes (sb st)" "i_size (itable st ! 0) = 0"
proof -
  have V: "\<And>b. b \<noteq> 2 \<Longrightarrow> blks st b = demo_disk b" "\<And>b. length (blks st b) = BSIZE" using assms(5,6) by blast+
  note fs = demo_fs [of "blks st", OF V]
  have i: "itable st ! 0 = demo_inode" "i_size demo_inode = 0" "i_dev demo_inode = 1" "i_inum demo_inode < s_ninodes demo_sb"
    using assms(2) by (simp_all add: demo_inode_def blank_inode_def demo_sb_def)
  show "fs_file 0 st" "free_blocks st = {48..<64}" "unat (s_size (sb st)) \<le> BPB" "fs_ok (sb st) (lstart st) (blks st)"
    "mapped (blks st) (addrs 0 st) (unat (i_size (itable st ! 0)))" "i_inum (itable st ! 0) < s_ninodes (sb st)" "i_size (itable st ! 0) = 0"
    using fs assms(1-4) i by (simp_all add: fs_file_def free_blocks_def mapped_def kconst demo_sb_def)
qed

theorem writei_readi_witness:
  "\<exists>st st1 st2. itable st = [demo_inode] \<and> writei kcopyin 0 0 0 3 [1, 2, 3] st = Ok (3, [1, 2, 3], st1) \<and>
    i_size (itable st1 ! 0) = 3 \<and> fbytes (blks st1) (addrs 0 st1) 0 3 = [1, 2, 3] \<and>
    readi kcopyout 0 0 0 3 [0, 0, 0, 9] st1 = Ok (3, [1, 2, 3, 9], st2)"
proof -
  obtain st where st: "tx_inv {} (fio st)" "lh_n (lg (fio st)) = 0" "io_ok 10000 (bc (fio st))" "sb st = demo_sb" "itable st = [demo_inode]"
      "dv st = 1" "lstart st = 2" "\<forall>b. b \<noteq> 2 \<longrightarrow> blks st b = demo_disk b" "\<forall>b. length (blks st b) = BSIZE"
    by (rule demo_state)
  note d = demo_file [OF st(4-9)]
  have h: "lh_n (lg (fio st)) + int MAXOPBLOCKS \<le> int LOGBLOCKS" "(0 :: u32) \<le> i_size (itable st ! 0)"
      "unat (0 :: u32) + unat (3 :: u32) \<le> MAXFILE * BSIZE" "unat (3 :: u32) \<le> 3 * BSIZE" "unat (3 :: u32) \<le> length [1, 2, 3 :: byte]"
    using st(2) by (simp_all add: kconst)
  have "{48, 49, 50, 51, 52, 53, 54, 55, 56, 57, 58} \<subseteq> free_blocks st" unfolding d(2) by simp
  from card_mono [OF _ this] have fr: "11 \<le> card (free_blocks st)" by simp
  obtain r st1 st2 where w: "writei kcopyin 0 0 0 3 [1, 2, 3] st = Ok (int r, [1, 2, 3], st1)" "r \<le> 3"
      "r = 3 \<or> free_blocks st1 = {} \<and> int (card (free_blocks st)) \<le> lh_n (lg (fio st)) + int MAXOPBLOCKS" "wrote 0 0 (take r [1, 2, 3]) st st1"
      "readi kcopyout 0 0 0 (of_nat r) [0, 0, 0, 9] st1 = Ok (int r, patch 0 (take r [1, 2, 3]) [0, 0, 0, 9], st2)"
    using writei_readi [OF st(1) h(1) st(3) d(3,1,5,6) h(2-5), of "[0, 0, 0, 9]"] by auto
  have r: "r = 3" using w(3) fr st(2) by (simp add: kconst)
  have w': "wrote 0 0 [1, 2, 3] st st1" using w(4) unfolding r by simp
  have sz: "unat (i_size (itable st1 ! 0)) = 3" using w' d(7) by (simp add: wrote_def Let_def)
  have "fbytes (blks st1) (addrs 0 st1) 0 (unat (i_size (itable st1 ! 0))) = patch 0 [1, 2, 3] (fbytes (blks st) (addrs 0 st) 0 (unat (i_size (itable st ! 0))))"
    using w' unfolding wrote_def Let_def by blast
  then have fb: "fbytes (blks st1) (addrs 0 st1) 0 3 = [1, 2, 3]" unfolding sz using d(7) by (simp add: patch_def fbytes_def)
  have "i_size (itable st1 ! 0) = 3" using sz by (simp add: word_unat_eq_iff)
  moreover have "writei kcopyin 0 0 0 3 [1, 2, 3] st = Ok (3, [1, 2, 3], st1)" "readi kcopyout 0 0 0 3 [0, 0, 0, 9] st1 = Ok (3, [1, 2, 3, 9], st2)"
    using w(1,5) unfolding r by (simp_all add: patch_def)
  ultimately show ?thesis using st(5) fb by blast
qed

section \<open>The block allocator\<close>

text \<open>
  C14. The block allocator inside a transaction, on a disk whose free blocks are all data blocks. \<open>balloc\<close> returns 0
  exactly when no block is free, and changes nothing then; otherwise it returns the lowest free block, which is then marked and zeroed,
  every other block outside the bitmap keeps its contents and every other free block stays free. \<open>bfree\<close> gives the block
  back, and freeing it a second time is a panic.
\<close>

theorem balloc_bfree:
  assumes tx: "fs_tx (bmap_blocks (sb st)) {} 2 (nbitmap (sb st) + 3) st" and ok: "fs_ok (sb st) (lstart st) (blks st)"
  shows "\<exists>b st1. balloc (dv st) st = Ok (b, st1) \<and> (b = 0 \<longleftrightarrow> free_blocks st = {}) \<and> (b = 0 \<longrightarrow> blks st1 = blks st) \<and>
    (b \<noteq> 0 \<longrightarrow> b \<in> free_blocks st \<and> (\<forall>c\<in>free_blocks st. b \<le> c) \<and> free_blocks st1 = free_blocks st - {b} \<and>
       blks st1 b = replicate BSIZE 0 \<and> (\<forall>c. c \<noteq> b \<and> c \<notin> bmap_blocks (sb st) \<longrightarrow> blks st1 c = blks st c) \<and>
       (\<exists>st2. bfree (dv st) b st1 = Ok st2 \<and> free_blocks st2 = free_blocks st \<and> bfree (dv st) b st2 = Panic ''freeing free block''))"
proof -
  let ?s = "sb st" and ?V = "blks st" and ?M = "bmap_blocks (sb st)"
  have tx': "fs_tx ?M {} (Suc (Suc 0)) ((unat (s_size ?s) + BPB - 1) div BPB + Suc (Suc (Suc 0))) st"
    using tx by (simp add: nbitmap_def numeral_eq_Suc)
  obtain b st1 where r: "balloc (dv st) st = Ok (b, st1)" "fs_keeps {} st st1" and c:
      "b = 0 \<and> full ?V ?s \<and> blks st1 = ?V \<or>
       first_free ?V ?s b \<and> blks st1 = zero_alloc ?s b ?V \<and> fs_tx ?M {} (Suc 0) (Suc (Suc 0)) st1"
    using balloc_spec [OF tx' order_refl fs_ok_alloc [OF ok]] by (auto simp: wp_def)
  from c show ?thesis
  proof (elim disjE conjE)
    assume "b = 0" "full ?V ?s" "blks st1 = ?V"
    then show ?thesis using r(1) by (auto simp: free_blocks_def full_def)
  next
    assume ff: "first_free ?V ?s b" and z: "blks st1 = zero_alloc ?s b ?V" and tx1: "fs_tx ?M {} (Suc 0) (Suc (Suc 0)) st1"
    have b: "b < s_size ?s" "\<not> marked ?V ?s b" "\<And>c. c < b \<Longrightarrow> marked ?V ?s c" using ff by (auto simp: first_free_def)
    note za = zero_alloc [OF ok b(1,2)] and s1 = fs_keepsD [OF r(2)]
    have b0: "b \<noteq> 0" and bM: "BBLOCK b ?s \<in> ?M" using za(1) b(1) by (auto simp: data_blk_def bmap_blocks_def)
    have fr: "b \<in> free_blocks st" "\<And>c. c \<in> free_blocks st \<Longrightarrow> b \<le> c" "free_blocks st1 = free_blocks st - {b}"
      using b za(3) s1(1) z by (auto simp: free_blocks_def not_le [symmetric])
    have "marked (blks st1) (sb st1) b" "BBLOCK b (sb st1) \<notin> log_area (lstart st1) \<union> {}" "BBLOCK b (sb st1) \<in> ?M"
      using za(3) b(1) s1 z bM ok by (auto simp: fs_ok_def)
    then obtain st2 where f: "bfree (dv st1) b st1 = Ok st2" "fs_tx ?M {} (Suc 0) (Suc 0) st2" "fs_keeps {} st1 st2"
        "blks st2 = unmark (sb st1) b (blks st1)"
      using bfree_spec [OF tx1, of b] by blast
    have len: "length (blks st1 x) = BSIZE" for x by (rule length_blks [OF tx1])
    have m2: "marked (blks st2) (sb st2) x = (x \<noteq> b \<and> marked (blks st1) (sb st1) x)" for x
      using marked_mark(2) [OF len] f(4) fs_keepsD(1) [OF f(3)] by simp
    have "free_blocks st2 = free_blocks st" using m2 fr(1,3) fs_keepsD(1) [OF f(3)] s1(1) by (auto simp: free_blocks_def)
    moreover have "bfree (dv st2) b st2 = Panic ''freeing free block''" by (rule bfree_panics [OF f(2)]) (simp_all add: m2)
    ultimately show ?thesis using r(1) b0 fr f(1) s1(2) fs_keepsD(2) [OF f(3)] za(2,4) z by auto
  qed
qed

theorem balloc_bfree_witness:
  "\<exists>st st1 st2. balloc 1 st = Ok (48, st1) \<and> blks st1 48 = replicate BSIZE 0 \<and> bfree 1 48 st1 = Ok st2 \<and>
    bfree 1 48 st2 = Panic ''freeing free block''"
proof -
  obtain st where st: "tx_inv {} (fio st)" "lh_n (lg (fio st)) = 0" "io_ok 10000 (bc (fio st))" "sb st = demo_sb" "itable st = [demo_inode]"
      "dv st = 1" "lstart st = 2" "\<forall>b. b \<noteq> 2 \<longrightarrow> blks st b = demo_disk b" "\<forall>b. length (blks st b) = BSIZE"
    by (rule demo_state)
  note d = demo_file [OF st(4-9)]
  have "lgd st = {}" using tx_room [OF st(1)] st(2) by simp
  moreover have "card (bmap_blocks (sb st)) \<le> 1" using card_mono [OF _ one_bitmap(1) [OF d(3)]] by simp
  ultimately have tx: "fs_tx (bmap_blocks (sb st)) {} 2 (nbitmap (sb st) + 3) st"
    using st(1) io_ok_mono [OF st(3)] one_bitmap(2) [OF d(3)] by (simp add: fs_tx_def kconst)
  have mem: "48 \<in> free_blocks st" unfolding d(2) by simp
  then have ne: "free_blocks st \<noteq> {}" by blast
  from balloc_bfree [OF tx d(4)] obtain b st1 where r: "balloc (dv st) st = Ok (b, st1)" "b \<in> free_blocks st" "\<forall>c\<in>free_blocks st. b \<le> c"
      "blks st1 b = replicate BSIZE 0" "\<exists>st2. bfree (dv st) b st1 = Ok st2 \<and> bfree (dv st) b st2 = Panic ''freeing free block''"
    using ne by (elim exE conjE) (simp, blast)
  have "b \<le> 48" "48 \<le> b" using r(2,3) mem d(2) by auto
  then have "b = 48" by simp
  then show ?thesis using r(1,4,5) st(6) by metis
qed

end
