(* ===== verification/FsCrash.thy ===== *)
theory FsCrash
  imports FsWrite
begin

text \<open>
  A write and a crash: the file system call's transaction on top of \<^verbatim>\<open>log.c\<close>'s commit and recovery.
\<close>

section \<open>What a freshly booted kernel finds in a file\<close>

text \<open>The bytes of the file with the inode number \<open>inum\<close>, from the blocks of the disk alone.\<close>

definition disk_file :: "superblock \<Rightarrow> u32 \<Rightarrow> (u32 \<Rightarrow> byte list) \<Rightarrow> byte list" where
  "disk_file s inum V = (let i = read_dinode (V (IBLOCK inum s)) (inode_off inum) blank_inode in fbytes V (i_addrs i) 0 (unat (i_size i)))"

text \<open>The inode in memory is what is in its block.\<close>

definition synced :: "nat \<Rightarrow> fsys \<Rightarrow> bool" where
  "synced ip st = (let i = itable st ! ip in read_dinode (blks st (IBLOCK (i_inum i) (sb st))) (inode_off (i_inum i)) i = i)"

lemma disk_file_synced:
  assumes f: "fs_file ip st" and sy: "synced ip st" and m: "mapped (blks st) (addrs ip st) (unat (i_size (itable st ! ip)))"
    and inum: "i_inum (itable st ! ip) < s_ninodes (sb st)"
    and V: "\<And>b. b \<notin> log_area (lstart st) \<Longrightarrow> V b = blks st b"
  shows "disk_file (sb st) (i_inum (itable st ! ip)) V = fbytes (blks st) (addrs ip st) 0 (unat (i_size (itable st ! ip)))"
proof -
  let ?i = "itable st ! ip" and ?A = "addrs ip st"
  have "IBLOCK (i_inum ?i) (sb st) \<in> inode_blocks (sb st)" using inum by (auto simp: inode_blocks_def)
  then have "V (IBLOCK (i_inum ?i) (sb st)) = blks st (IBLOCK (i_inum ?i) (sb st))" using f by (intro V) (auto simp: fs_file_def fs_ok_def)
  moreover have "i_addrs (read_dinode bs o1 a) = i_addrs (read_dinode bs o1 b)" "i_size (read_dinode bs o1 a) = i_size (read_dinode bs o1 b)" for bs o1 a b
    by (simp_all add: read_dinode_def)
  ultimately have d: "disk_file (sb st) (i_inum ?i) V = fbytes V ?A 0 (unat (i_size ?i))"
    using sy unfolding disk_file_def synced_def Let_def by metis
  have u: "V b = blks st b" if "used (blks st) ?A b" for b using fs_file_used(4) [OF f that] V by simp
  have fb: "fblk V ?A k = fblk (blks st) ?A k" for k using u by (auto simp: fblk_def used_def)
  have "fbyte V ?A k = fbyte (blks st) ?A k" if "k < unat (i_size ?i)" for k
  proof -
    have "k < MAXFILE * BSIZE" using that m by (auto simp: mapped_def)
    then have "used (blks st) ?A (fblk (blks st) ?A (k div BSIZE))" using mapped_blk [OF m that] off_blk by (auto simp: used_def)
    then show ?thesis using u fb by (simp add: fbyte_def)
  qed
  then show ?thesis unfolding d by (auto simp: fbytes_def)
qed

section \<open>A write is atomic\<close>

text \<open>The end of a transaction that nobody else is in: the commit, and what a boot finds after a crash in it.\<close>

lemma end_op_crash:
  assumes tx: "fs_tx M {} k 9000 st" "lgd st \<noteq> {}" "lh_n (lg (fio st)) < int NBUF"
    and l: "outstanding (lg (fio st)) = 1" "\<not> committing (lg (fio st))" and hd: "get32 (disk (bc (fio st)) (lstart st)) 0 = 0"
  obtains st' ws where "fs_end_op st = Ok st'" "dtrace (bc (fio st')) = dtrace (bc (fio st)) @ ws"
    "\<And>k D'. crashes (dv st) (lstart st) (apply_writes (take k ws) (disk (bc (fio st)))) D' \<Longrightarrow>
      \<exists>s3. initlog (dv st) (lstart st) (boot_fs D') = Ok s3 \<and> (\<forall>b. b \<notin> log_area (lstart st) \<longrightarrow>
        view (bc s3) (dv st) b = (if k \<le> nat (lh_n (lg (fio st))) then disk (bc (fio st)) b else blks st b))"
proof -
  note result = that and t = fs_txD [OF tx(1)]
  define s1 where "s1 = (fio st)\<lparr>lg := (lg (fio st))\<lparr>outstanding := 0, committing := True\<rparr>\<rparr>"
  have e: "log_dev (lg s1) = dv st" "log_start (lg s1) = lstart st" "lh_n (lg s1) = lh_n (lg (fio st))" "bc s1 = bc (fio st)" "logged (lg s1) = logged (lg (fio st))"
    by (simp_all add: s1_def logged_def)
  have ok: "log_ok (lg s1)" using t(1) by (simp add: tx_inv_def log_ok_def s1_def logged_def)
  have pos: "0 < lh_n (lg s1)" "lh_n (lg s1) < int NBUF" using tx_room [OF t(1)] tx(2,3) e(3) by (simp_all add: card_gt_0_iff)
  have c1: "cinv (dv st) (set (logged (lg s1))) {} (bc s1)" using t(6) e by simp
  have d0: "dv st \<noteq> 0" using cinvD(1) [OF c1] by (simp add: bio_inv_def)
  have io: "io_ok (6 * nat (lh_n (lg s1)) + 4) (bc s1)" by (rule io_ok_mono [of 9000]) (use t(2) e(4) pos(2) in \<open>simp_all add: kconst\<close>)
  have hd1: "get32 (disk (bc s1) (lstart st)) 0 = 0" using hd e(4) by simp
  obtain s2 ws where c: "commit s1 = Ok s2" "dtrace (bc s2) = dtrace (bc s1) @ ws"
      "\<And>k D'. crashes (dv st) (lstart st) (apply_writes (take k ws) (disk (bc s1))) D' \<Longrightarrow>
        (\<exists>s3. initlog (dv st) (lstart st) (boot_fs D') = Ok s3 \<and> (\<forall>b. b \<notin> log_area (lstart st) \<longrightarrow>
          view (bc s3) (dv st) b = (if k \<le> nat (lh_n (lg s1)) then disk (bc s1) b else view (bc s1) (dv st) b)))"
    using commit_crash [OF ok pos c1 e(1,2) d0 io hd1] by blast
  have "end_op (fio st) = Ok (s2\<lparr>lg := (lg s2)\<lparr>committing := False\<rparr>\<rparr>)"
    using l c(1) by (simp add: end_op_def end_op_enter_def s1_def Let_def)
  then have "fs_end_op st = Ok (st\<lparr>fio := s2\<lparr>lg := (lg s2)\<lparr>committing := False\<rparr>\<rparr>\<rparr>)" by (simp add: fs_end_op_def)
  then show thesis using result c(2,3) unfolding e by auto
qed

text \<open>What the disk shows after the write, wherever it agrees with the blocks of the finished transaction.\<close>

lemma disk_file_wrote:
  assumes w: "wrote ip off xs st st1" and f: "fs_file ip st" "i_inum (itable st ! ip) < s_ninodes (sb st)" and k: "fs_keeps {} st st1"
    and V: "\<And>b. b \<notin> log_area (lstart st) \<Longrightarrow> V b = blks st1 b"
  shows "disk_file (sb st) (i_inum (itable st ! ip)) V = patch off xs (fbytes (blks st) (addrs ip st) 0 (unat (i_size (itable st ! ip))))"
proof -
  note k1 = fs_keepsD [OF k]
  have ip: "ip < length (itable st)" using f(1) by (simp add: fs_file_def)
  have q: "fs_file ip st1" "mapped (blks st1) (addrs ip st1) (unat (i_size (itable st1 ! ip)))"
      "itable st1 = (itable st)[ip := (itable st ! ip)\<lparr>i_addrs := addrs ip st1, i_size := i_size (itable st1 ! ip)\<rparr>]"
      "read_dinode (blks st1 (IBLOCK (i_inum (itable st ! ip)) (sb st))) (inode_off (i_inum (itable st ! ip))) (itable st1 ! ip) = itable st1 ! ip"
      "fbytes (blks st1) (addrs ip st1) 0 (unat (i_size (itable st1 ! ip))) = patch off xs (fbytes (blks st) (addrs ip st) 0 (unat (i_size (itable st ! ip))))"
    using w unfolding wrote_def Let_def by blast+
  have i: "i_inum (itable st1 ! ip) = i_inum (itable st ! ip)" by (subst q(3)) (use ip in simp)
  have sy: "synced ip st1" using q(4) i k1(1) by (simp add: synced_def)
  have "disk_file (sb st1) (i_inum (itable st1 ! ip)) V = fbytes (blks st1) (addrs ip st1) 0 (unat (i_size (itable st1 ! ip)))"
    by (rule disk_file_synced [OF q(1) sy q(2)]) (use f(2) i k1 V in simp_all)
  then show ?thesis using q(5) i k1(1) by simp
qed

text \<open>
  C2. A write survives a crash whole or not at all. A transaction with nothing logged yet writes at most three
  blocks to a well-formed file whose inode on the disk is current, and ends. Whatever prefix of the disk writes of
  \<open>end_op\<close> reaches the disk, and however many recoveries crash before one completes, a booted kernel finds the old
  contents of the file, or these with the written bytes patched in; the latter once the header of the log is written.
\<close>

theorem write_crash_atomic:
  assumes tx: "tx_inv {} (fio st)" "lh_n (lg (fio st)) = 0" "io_ok 10000 (bc (fio st))" "outstanding (lg (fio st)) = 1" "\<not> committing (lg (fio st))"
    and hd: "get32 (disk (bc (fio st)) (lstart st)) 0 = 0" and s: "unat (s_size (sb st)) \<le> BPB"
    and f: "fs_file ip st" "mapped (blks st) (addrs ip st) (unat (i_size (itable st ! ip)))" "i_inum (itable st ! ip) < s_ninodes (sb st)"
    and sy: "synced ip st" and off: "off \<le> i_size (itable st ! ip)" "unat off + unat n \<le> MAXFILE * BSIZE"
    and n: "unat n \<le> 3 * BSIZE" "unat n \<le> length data"
  defines "inum \<equiv> i_inum (itable st ! ip)" and "old \<equiv> fbytes (blks st) (addrs ip st) 0 (unat (i_size (itable st ! ip)))"
  shows "\<exists>r st1 st2 ws. writei kcopyin ip 0 off n data st = Ok (int r, data, st1) \<and> r \<le> unat n \<and>
    (r = unat n \<or> card (free_blocks st) \<le> MAXOPBLOCKS) \<and> fs_end_op st1 = Ok st2 \<and>
    dtrace (bc (fio st2)) = dtrace (bc (fio st)) @ ws \<and>
    (\<forall>k D'. crashes (dv st) (lstart st) (apply_writes (take k ws) (disk (bc (fio st)))) D' \<longrightarrow>
      (\<exists>s3. initlog (dv st) (lstart st) (boot_fs D') = Ok s3 \<and>
        disk_file (sb st) inum (view (bc s3) (dv st)) =
          (if k \<le> nat (lh_n (lg (fio st1))) then old else patch (unat off) (take r data) old)))"
proof -
  have room: "lh_n (lg (fio st)) + int MAXOPBLOCKS \<le> int LOGBLOCKS" using tx(2) by (simp add: kconst)
  obtain r st1 M k where w: "writei kcopyin ip 0 off n data st = Ok (int r, data, st1)" "r \<le> unat n"
      "r = unat n \<or> free_blocks st1 = {} \<and> int (card (free_blocks st)) \<le> lh_n (lg (fio st)) + int MAXOPBLOCKS" "fs_keeps {} st st1"
      "wrote ip (unat off) (take r data) st st1" "fs_tx M {} (k + 2) 9000 st1" "lgd st1 \<noteq> {}"
      "lh_n (lg (fio st1)) \<le> lh_n (lg (fio st)) + int MAXOPBLOCKS"
    by (rule write_op [OF tx(1) room tx(3) s f off n])
  note k1 = fs_keepsD [OF w(4)]
  have o1: "outstanding (lg (fio st1)) = 1" "\<not> committing (lg (fio st1))" "disk (bc (fio st1)) = disk (bc (fio st))" "dtrace (bc (fio st1)) = dtrace (bc (fio st))"
    using w(4) tx(4,5) by (simp_all add: fs_keeps_def log_same_def)
  have few: "lh_n (lg (fio st1)) < int NBUF" using w(8) tx(2) by (simp add: kconst)
  have hd1: "get32 (disk (bc (fio st1)) (lstart st1)) 0 = 0" using hd o1(3) k1(3) by simp
  obtain st2 ws where c: "fs_end_op st1 = Ok st2" "dtrace (bc (fio st2)) = dtrace (bc (fio st1)) @ ws"
    "\<And>k D'. crashes (dv st1) (lstart st1) (apply_writes (take k ws) (disk (bc (fio st1)))) D' \<Longrightarrow>
      \<exists>s3. initlog (dv st1) (lstart st1) (boot_fs D') = Ok s3 \<and> (\<forall>b. b \<notin> log_area (lstart st1) \<longrightarrow>
        view (bc s3) (dv st1) b = (if k \<le> nat (lh_n (lg (fio st1))) then disk (bc (fio st1)) b else blks st1 b))"
    using end_op_crash [OF w(6,7) few o1(1,2) hd1] by blast
  have "lgd st = {}" using tx_room [OF tx(1)] tx(2) by simp
  then have clean: "disk (bc (fio st)) b = blks st b" for b using cinv_clean [of "dv st" "{}" "{}" "bc (fio st)" b] tx(1) by (simp add: tx_inv_def)
  have V: "disk_file (sb st) inum (view (bc s3) (dv st)) = (if k \<le> nat (lh_n (lg (fio st1))) then old else patch (unat off) (take r data) old)"
    if v: "\<forall>b. b \<notin> log_area (lstart st) \<longrightarrow> view (bc s3) (dv st) b = (if k \<le> nat (lh_n (lg (fio st1))) then disk (bc (fio st1)) b else blks st1 b)" for k s3
  proof (cases "k \<le> nat (lh_n (lg (fio st1)))")
    case True
    have "view (bc s3) (dv st) b = blks st b" if "b \<notin> log_area (lstart st)" for b using v that True clean o1(3) by simp
    from disk_file_synced [OF f(1) sy f(2,3) this] show ?thesis using True by (simp add: inum_def old_def)
  next
    case False
    have "view (bc s3) (dv st) b = blks st1 b" if "b \<notin> log_area (lstart st)" for b using v that False by simp
    from disk_file_wrote [OF w(5) f(1,3) w(4) this] show ?thesis using False by (simp add: inum_def old_def)
  qed
  have free: "r = unat n \<or> card (free_blocks st) \<le> MAXOPBLOCKS" using w(3) tx(2) by auto
  have "\<exists>s3. initlog (dv st) (lstart st) (boot_fs D') = Ok s3 \<and> disk_file (sb st) inum (view (bc s3) (dv st)) =
      (if k \<le> nat (lh_n (lg (fio st1))) then old else patch (unat off) (take r data) old)"
    if "crashes (dv st) (lstart st) (apply_writes (take k ws) (disk (bc (fio st)))) D'" for k D'
    using c(3) [of k D'] V that unfolding k1(2,3) o1(3) by metis
  then show ?thesis using w(1,2) free c(1,2) o1(4) by metis
qed

theorem write_crash_atomic_witness:
  "\<exists>st st1 st2 ws. writei kcopyin 0 0 0 3 [1, 2, 3] st = Ok (3, [1, 2, 3], st1) \<and> fs_end_op st1 = Ok st2 \<and>
    dtrace (bc (fio st2)) = dtrace (bc (fio st)) @ ws \<and>
    (\<forall>k D'. crashes 1 2 (apply_writes (take k ws) (disk (bc (fio st)))) D' \<longrightarrow>
      (\<exists>s3. initlog 1 2 (boot_fs D') = Ok s3 \<and>
        disk_file demo_sb 1 (view (bc s3) 1) = (if k \<le> nat (lh_n (lg (fio st1))) then [] else [1, 2, 3])))"
proof -
  obtain st where st: "tx_inv {} (fio st)" "lh_n (lg (fio st)) = 0" "io_ok 10000 (bc (fio st))" "sb st = demo_sb" "itable st = [demo_inode]"
      "dv st = 1" "lstart st = 2" "\<forall>b. b \<noteq> 2 \<longrightarrow> blks st b = demo_disk b" "\<forall>b. length (blks st b) = BSIZE"
      "outstanding (lg (fio st)) = 1" "\<not> committing (lg (fio st))" "get32 (disk (bc (fio st)) 2) 0 = 0"
    by (rule demo_state)
  note d = demo_file [OF st(4-9)]
  have i: "i_inum (itable st ! 0) = 1" "IBLOCK 1 (sb st) = 40" "itable st ! 0 = demo_inode"
    using st(4,5) by (simp_all add: demo_inode_def IBLOCK_def demo_sb_def kconst)
  have sy: "synced 0 st" using i st(8) demo_inode_block(2) by (simp add: synced_def)
  have h: "(0 :: u32) \<le> i_size (itable st ! 0)" "unat (0 :: u32) + unat (3 :: u32) \<le> MAXFILE * BSIZE" "unat (3 :: u32) \<le> 3 * BSIZE"
      "unat (3 :: u32) \<le> length [1, 2, 3 :: byte]" "get32 (disk (bc (fio st)) (lstart st)) 0 = 0"
    using st(7,12) by (simp_all add: kconst)
  have "{48, 49, 50, 51, 52, 53, 54, 55, 56, 57, 58} \<subseteq> free_blocks st" unfolding d(2) by simp
  from card_mono [OF _ this] have fr: "11 \<le> card (free_blocks st)" by simp
  from write_crash_atomic [OF st(1-3,10,11) h(5) d(3,1,5,6) sy h(1-4)]
  obtain r st1 st2 ws where w: "writei kcopyin 0 0 0 3 [1, 2, 3] st = Ok (int r, [1, 2, 3], st1)" "r = unat (3 :: u32) \<or> card (free_blocks st) \<le> MAXOPBLOCKS"
      "fs_end_op st1 = Ok st2" "dtrace (bc (fio st2)) = dtrace (bc (fio st)) @ ws" and c:
      "\<forall>k D'. crashes (dv st) (lstart st) (apply_writes (take k ws) (disk (bc (fio st)))) D' \<longrightarrow>
        (\<exists>s3. initlog (dv st) (lstart st) (boot_fs D') = Ok s3 \<and>
          disk_file (sb st) (i_inum (itable st ! 0)) (view (bc s3) (dv st)) =
            (if k \<le> nat (lh_n (lg (fio st1))) then fbytes (blks st) (addrs 0 st) 0 (unat (i_size (itable st ! 0)))
             else patch (unat (0 :: u32)) (take r [1, 2, 3]) (fbytes (blks st) (addrs 0 st) 0 (unat (i_size (itable st ! 0))))))"
    by (elim exE conjE) (rule that)
  have r: "r = 3" using w(2) fr by (simp add: kconst)
  have e1: "fbytes (blks st) (addrs 0 st) 0 (unat (i_size (itable st ! 0))) = []" using d(7) by (simp add: fbytes_def)
  have e2: "patch (unat (0 :: u32)) (take 3 [1, 2, 3]) [] = [1, 2, 3 :: byte]" by (simp add: patch_def)
  note c = c [unfolded r e1, unfolded e2, unfolded i(1) st(4,6,7)]
  have "writei kcopyin 0 0 0 3 [1, 2, 3] st = Ok (3, [1, 2, 3], st1)" using w(1) unfolding r by simp
  then show ?thesis using w(3,4) c by blast
qed

end
