(* ===== verification/FsTrunc.thy ===== *)
theory FsTrunc
  imports FsWrite FsCrash
begin

text \<open>
  \<open>itrunc\<close>: the blocks of a file go back to the bitmap, all of them and no others, without the panic that freeing a
  free block would be.
\<close>

section \<open>Freeing a list of blocks\<close>

definition freed :: "superblock \<Rightarrow> u32 list \<Rightarrow> (u32 \<Rightarrow> byte list) \<Rightarrow> u32 \<Rightarrow> byte list" where
  "freed s bs V = fold (unmark s) bs V"

lemma freed_simps [simp]: "freed s [] V = V" "freed s (bs @ [b]) V = unmark s b (freed s bs V)"
  by (simp_all add: freed_def)

lemma freed_props:
  assumes "\<And>x. length (V x) = BSIZE" "\<And>b. b \<in> set bs \<Longrightarrow> b < s_size s"
  shows "length (freed s bs V x) = BSIZE" "marked (freed s bs V) s c = (marked V s c \<and> c \<notin> set bs)"
    "x \<notin> bmap_blocks s \<Longrightarrow> freed s bs V x = V x"
proof -
  have "(\<forall>x. length (freed s bs V x) = BSIZE) \<and> (\<forall>c. marked (freed s bs V) s c = (marked V s c \<and> c \<notin> set bs)) \<and>
      (\<forall>x. x \<notin> bmap_blocks s \<longrightarrow> freed s bs V x = V x)"
    using assms(2)
  proof (induction bs rule: rev_induct)
    case Nil
    then show ?case using assms(1) by simp
  next
    case (snoc b bs)
    have b: "BBLOCK b s \<in> bmap_blocks s" using snoc.prems [of b] by (auto simp: bmap_blocks_def)
    have IH: "\<And>x. length (freed s bs V x) = BSIZE" "\<And>c. marked (freed s bs V) s c = (marked V s c \<and> c \<notin> set bs)"
        "\<And>x. x \<notin> bmap_blocks s \<Longrightarrow> freed s bs V x = V x" using snoc by auto
    have "length (unmark s b (freed s bs V) x) = BSIZE" for x using IH(1) by (simp add: unmark_def)
    moreover have "unmark s b (freed s bs V) x = V x" if "x \<notin> bmap_blocks s" for x using that b IH(3) by (auto simp: unmark_def)
    ultimately show ?case using marked_mark(2) [of "freed s bs V" b s, OF IH(1)] IH(2) by auto
  qed
  then show "length (freed s bs V x) = BSIZE" "marked (freed s bs V) s c = (marked V s c \<and> c \<notin> set bs)"
    "x \<notin> bmap_blocks s \<Longrightarrow> freed s bs V x = V x" by blast+
qed

text \<open>A transaction that has given back the blocks \<open>bs\<close>, all of them data blocks that were marked.\<close>

definition freeing :: "u32 set \<Rightarrow> u32 set \<Rightarrow> nat \<Rightarrow> nat \<Rightarrow> fsys \<Rightarrow> u32 list \<Rightarrow> fsys \<Rightarrow> bool" where
  "freeing M H k N st bs st' = (bmap_blocks (sb st) \<subseteq> M \<and> fs_tx M H (Suc k) N st' \<and> fs_keeps H st st' \<and> blks st' = freed (sb st) bs (blks st) \<and>
     lgd st' \<subseteq> lgd st \<union> bmap_blocks (sb st))"

lemma freeing_bfree:
  assumes f: "freeing M H k (Suc N) st bs st'" and b: "b < s_size (sb st)" "marked (blks st) (sb st) b" "b \<notin> set bs" "\<And>c. c \<in> set bs \<Longrightarrow> c < s_size (sb st)"
    and H: "bmap_blocks (sb st) \<inter> (log_area (lstart st) \<union> H) = {}" and len: "\<And>x. length (blks st x) = BSIZE"
  shows "wp (bfree (dv st) b st') (\<lambda>st''. freeing M H k N st (bs @ [b]) st'' \<and> itable st'' = itable st' \<and> fs_keeps H st' st'')"
proof -
  have f': "fs_tx M H (Suc k) (Suc N) st'" "fs_keeps H st st'" "blks st' = freed (sb st) bs (blks st)"
    "lgd st' \<subseteq> lgd st \<union> bmap_blocks (sb st)" "bmap_blocks (sb st) \<subseteq> M" using f by (simp_all add: freeing_def)
  note k = fs_keepsD [OF f'(2)]
  have BB: "BBLOCK b (sb st) \<in> bmap_blocks (sb st)" using b(1) by (auto simp: bmap_blocks_def)
  have m: "marked (blks st') (sb st') b" using f'(3) k(1) freed_props(2) [OF len b(4)] b(2,3) by simp
  have p: "BBLOCK b (sb st') \<in> M" "BBLOCK b (sb st') \<notin> log_area (lstart st') \<union> H" using BB H k f'(5) by auto
  obtain st'' where r: "bfree (dv st') b st' = Ok st''" "fs_tx M H (Suc k) N st''" "fs_keeps H st' st''" "itable st'' = itable st'"
    "blks st'' = unmark (sb st') b (blks st')" "lgd st'' = insert (BBLOCK b (sb st')) (lgd st')"
    by (rule bfree_spec [OF f'(1) p m])
  have "freeing M H k N st (bs @ [b]) st''"
    using r f'(3-5) k(1) BB fs_keeps_trans [OF f'(2) r(3)] by (auto simp: freeing_def)
  then show ?thesis using r(1,3,4) k(2) by (simp add: wp_def)
qed

section \<open>itrunc\<close>

abbreviation nz :: "u32 list \<Rightarrow> u32 list" where "nz bs \<equiv> filter (\<lambda>b. b \<noteq> 0) bs"

lemma itrunc_direct_loop:
  assumes f: "fs_file ip st" and M: "bmap_blocks (sb st) \<subseteq> M" and tx: "fs_tx M {} (Suc k) (NDIRECT + N) st"
  shows "wp (forR (itrunc_direct ip) [0..<NDIRECT] st) (\<lambda>st'. freeing M {} k N st (nz (take NDIRECT (addrs ip st))) st' \<and>
    itable st' = (itable st)[ip := (itable st ! ip)\<lparr>i_addrs := replicate NDIRECT 0 @ drop NDIRECT (addrs ip st)\<rparr>])"
proof -
  let ?A = "addrs ip st" and ?s = "sb st"
  have ip: "ip < length (itable st)" and dev: "i_dev (itable st ! ip) = dv st" and fk: "file_ok ?s (lstart st) (blks st) ?A"
    and ok: "fs_ok ?s (lstart st) (blks st)" using f by (simp_all add: fs_file_def)
  have lA: "length ?A = Suc NDIRECT" using fk by (simp add: file_ok_def)
  have len: "\<And>x. length (blks st x) = BSIZE" and H: "bmap_blocks ?s \<inter> (log_area (lstart st) \<union> {}) = {}" using ok by (auto simp: fs_ok_def)
  have fb: "fblk (blks st) ?A j = ?A ! j" if "j < NDIRECT" for j using that by (simp add: fblk_def)
  have u: "used (blks st) ?A (?A ! j)" if "j < NDIRECT" "?A ! j \<noteq> 0" for j
    using that fb [OF that(1)] by (auto simp: used_def kconst intro!: exI [of _ j])
  have inj: "?A ! j' = ?A ! j \<Longrightarrow> j' = j" if "j < NDIRECT" "?A ! j \<noteq> 0" "j' < NDIRECT" for j j'
    using fk that fb by (auto simp: file_ok_def kconst)
  define I where "I j st' = (freeing M {} k (NDIRECT - j + N) st (nz (take j ?A)) st' \<and>
    itable st' = (itable st)[ip := (itable st ! ip)\<lparr>i_addrs := replicate j 0 @ drop j ?A\<rparr>])" for j st'
  have "wp (forR (itrunc_direct ip) [0..<NDIRECT] st) (I (length [0..<NDIRECT]))"
  proof (rule wp_forR)
    show "I 0 st" using tx ip M by (simp add: I_def freeing_def)
  next
    fix j st' assume "j < length [0..<NDIRECT]" "I j st'"
    then have j: "j < NDIRECT" and fr: "freeing M {} k (NDIRECT - j + N) st (nz (take j ?A)) st'"
      and it: "itable st' = (itable st)[ip := (itable st ! ip)\<lparr>i_addrs := replicate j 0 @ drop j ?A\<rparr>]" by (simp_all add: I_def)
    have a: "addrs ip st' = replicate j 0 @ drop j ?A" "i_dev (itable st' ! ip) = dv st" "addrs ip st' ! j = ?A ! j"
      using it ip dev j lA by (simp_all add: nth_append)
    have dr: "drop j ?A = ?A ! j # drop (Suc j) ?A" using j lA by (simp add: Cons_nth_drop_Suc)
    have tk: "take (Suc j) ?A = take j ?A @ [?A ! j]" using j lA by (simp add: take_Suc_conv_app_nth)
    have N: "NDIRECT - j + N = Suc (NDIRECT - Suc j + N)" using j by simp
    show "wp (itrunc_direct ip ([0..<NDIRECT] ! j) st') (I (Suc j))"
    proof (cases "?A ! j = 0")
      case True
      then have "replicate j 0 @ drop j ?A = replicate (Suc j) 0 @ drop (Suc j) ?A" using dr by (simp add: replicate_append_same)
      moreover have "freeing M {} k (NDIRECT - Suc j + N) st (nz (take j ?A)) st'" using fr fs_tx_less unfolding freeing_def N by fastforce
      ultimately show ?thesis using j it True tk a by (simp add: itrunc_direct_def I_def)
    next
      case False
      have "?A ! j \<notin> set (nz (take j ?A))"
      proof
        assume "?A ! j \<in> set (nz (take j ?A))"
        then obtain j' where "j' < j" "?A ! j' = ?A ! j" using j lA by (auto simp: in_set_conv_nth)
        then show False using inj [OF j False, of j'] j by simp
      qed
      moreover have "c < s_size ?s" if cs: "c \<in> set (nz (take j ?A))" for c
      proof -
        obtain j' where "j' < j" "c = ?A ! j'" "c \<noteq> 0" using cs j lA by (auto simp: in_set_conv_nth)
        then show ?thesis using fs_file_used(2) [OF f u] j by simp
      qed
      ultimately have "wp (bfree (dv st) (?A ! j) st') (\<lambda>st''. freeing M {} k (NDIRECT - Suc j + N) st (nz (take j ?A) @ [?A ! j]) st'' \<and> itable st'' = itable st' \<and> fs_keeps {} st' st'')"
        using freeing_bfree [OF fr [unfolded N] fs_file_used(2,3) [OF f u [OF j False]] _ _ H len] by blast
      then show ?thesis
        using j a False tk it ip dr
        by (auto simp: itrunc_direct_def I_def Let_def freeing_def upd_inode_def list_update_append replicate_app_Cons_same elim!: wp_mono)
    qed
  qed
  then show ?thesis by (rule wp_mono) (simp add: I_def)
qed

lemma itrunc_indirect_loop:
  assumes fr: "freeing M {ind} k (n + N) st bs st2" and h: "hold st2 ind bp"
    and H: "bmap_blocks (sb st) \<inter> (log_area (lstart st) \<union> {ind}) = {}" and len: "\<And>x. length (blks st x) = BSIZE"
    and bs: "\<And>c. c \<in> set bs \<Longrightarrow> c < s_size (sb st)"
    and e: "\<And>j. j < n \<Longrightarrow> get32 (blks st ind) (4 * j) \<noteq> 0 \<Longrightarrow>
      get32 (blks st ind) (4 * j) < s_size (sb st) \<and> marked (blks st) (sb st) (get32 (blks st ind) (4 * j)) \<and> get32 (blks st ind) (4 * j) \<notin> set bs \<and>
      (\<forall>j'<n. get32 (blks st ind) (4 * j') = get32 (blks st ind) (4 * j) \<longrightarrow> j' = j)"
  shows "wp (forR (itrunc_indirect (dv st) bp) [0..<n] st2) (\<lambda>st3. freeing M {ind} k N st (bs @ nz (map (\<lambda>j. get32 (blks st ind) (4 * j)) [0..<n])) st3 \<and>
    itable st3 = itable st2 \<and> hold st3 ind bp)"
proof -
  let ?e = "\<lambda>j. get32 (blks st ind) (4 * j)"
  define I where "I j st3 = (freeing M {ind} k (n - j + N) st (bs @ nz (map ?e [0..<j])) st3 \<and> itable st3 = itable st2 \<and> hold st3 ind bp)" for j st3
  have "wp (forR (itrunc_indirect (dv st) bp) [0..<n] st2) (I (length [0..<n]))"
  proof (rule wp_forR)
    show "I 0 st2" using fr h by (simp add: I_def)
  next
    fix j st3 assume "j < length [0..<n]" "I j st3"
    then have j: "j < n" and f3: "freeing M {ind} k (n - j + N) st (bs @ nz (map ?e [0..<j])) st3" "itable st3 = itable st2" "hold st3 ind bp"
      by (simp_all add: I_def)
    have lt: "c < s_size (sb st)" if "c \<in> set (bs @ nz (map ?e [0..<j]))" for c using that bs e j by auto
    have N: "n - j + N = Suc (n - Suc j + N)" using j by simp
    have q: "fs_tx M {ind} (Suc k) (n - j + N) st3" "blks st3 = freed (sb st) (bs @ nz (map ?e [0..<j])) (blks st)" using f3(1) by (simp_all add: freeing_def)
    have "ind \<notin> bmap_blocks (sb st)" using H by auto
    then have d: "fs_data bp st3 = blks st ind" using hold_data [OF q(1) f3(3)] q(2) freed_props(3) [of "blks st" "bs @ nz (map ?e [0..<j])" "sb st", OF len lt] by simp
    have nx: "nz (map ?e [0..<Suc j]) = nz (map ?e [0..<j]) @ (if ?e j = 0 then [] else [?e j])" by simp
    show "wp (itrunc_indirect (dv st) bp ([0..<n] ! j) st3) (I (Suc j))"
    proof (cases "?e j = 0")
      case True
      moreover have "freeing M {ind} k (n - Suc j + N) st (bs @ nz (map ?e [0..<j])) st3" using f3(1) fs_tx_less unfolding freeing_def N by fastforce
      ultimately show ?thesis using j f3(2,3) d nx by (simp add: itrunc_indirect_def I_def)
    next
      case False
      have "j' = j" if "j' < j" "?e j' = ?e j" for j' using e [OF j False] that j order_less_trans by blast
      then have "?e j \<notin> set (bs @ nz (map ?e [0..<j]))" using e [OF j False] by fastforce
      then have "wp (bfree (dv st) (?e j) st3) (\<lambda>st''. freeing M {ind} k (n - Suc j + N) st ((bs @ nz (map ?e [0..<j])) @ [?e j]) st'' \<and>
          itable st'' = itable st3 \<and> fs_keeps {ind} st3 st'')"
        using freeing_bfree [OF f3(1) [unfolded N] _ _ _ lt H len] e [OF j False] by blast
      then show ?thesis using j f3(2,3) d nx False fs_keepsD(6)
        by (auto simp: itrunc_indirect_def I_def Let_def elim!: wp_mono)
    qed
  qed
  then show ?thesis by (rule wp_mono) (simp add: I_def)
qed

text \<open>\<open>itrunc\<close> after its first loop: the indirect block and the blocks it names.\<close>

definition itrunc_tail :: "nat \<Rightarrow> fsys \<Rightarrow> fsys result" where
  "itrunc_tail ip st1 =
     (let i = itable st1 ! ip in
      if i_addrs i ! NDIRECT \<noteq> 0 then
        bindR (fs_bread (i_dev i) (i_addrs i ! NDIRECT) st1) (\<lambda>(bp, st2).
        bindR (forR (itrunc_indirect (i_dev i) bp) [0..<NINDIRECT] st2) (\<lambda>st3.
        bindR (fs_brelse bp st3) (\<lambda>st4.
        bindR (bfree (i_dev i) (i_addrs i ! NDIRECT) st4) (\<lambda>st5.
        Ok (set_addr ip NDIRECT 0 st5)))))
      else Ok st1)"

lemma itrunc_split:
  "itrunc ip st = bindR (forR (itrunc_direct ip) [0..<NDIRECT] st) (\<lambda>st1. bindR (itrunc_tail ip st1) (\<lambda>st6.
     iupdate ip (upd_inode ip (\<lambda>i. i\<lparr>i_size := 0\<rparr>) st6)))"
  unfolding itrunc_def itrunc_tail_def set_addr_def by (rule refl)

text \<open>The blocks of a file, as \<open>itrunc\<close> meets them.\<close>

lemma used_list:
  assumes "length A = Suc NDIRECT" "ind = A ! NDIRECT"
  shows "{b. used V A b} = set (nz (take NDIRECT A)) \<union> (if ind = 0 then {} else insert ind (set (nz (map (\<lambda>j. get32 (V ind) (4 * j)) [0..<NINDIRECT]))))"
proof -
  have d: "(\<exists>m<NDIRECT. A ! m = b) = (b \<in> set (take NDIRECT A))" for b using assms(1) by (auto simp: in_set_conv_nth)
  have e: "(\<exists>m. NDIRECT \<le> m \<and> m < MAXFILE \<and> P (m - NDIRECT)) = (\<exists>j<NINDIRECT. P j)" for P
  proof
    assume "\<exists>j<NINDIRECT. P j"
    then obtain j where "j < NINDIRECT" "P j" by blast
    then show "\<exists>m. NDIRECT \<le> m \<and> m < MAXFILE \<and> P (m - NDIRECT)" by (intro exI [of _ "NDIRECT + j"]) (simp add: kconst)
  next
    assume "\<exists>m. NDIRECT \<le> m \<and> m < MAXFILE \<and> P (m - NDIRECT)"
    then obtain m where "NDIRECT \<le> m" "m < MAXFILE" "P (m - NDIRECT)" by blast
    then show "\<exists>j<NINDIRECT. P j" by (intro exI [of _ "m - NDIRECT"]) (simp add: kconst)
  qed
  have "(\<exists>m<MAXFILE. fblk V A m = b) = (b \<in> set (take NDIRECT A) \<or> (\<exists>m. NDIRECT \<le> m \<and> m < MAXFILE \<and> fblk V A m = b))" for b
  proof -
    have "(\<exists>m<MAXFILE. fblk V A m = b) = ((\<exists>m<NDIRECT. fblk V A m = b) \<or> (\<exists>m. NDIRECT \<le> m \<and> m < MAXFILE \<and> fblk V A m = b))"
      using order_less_le_trans [OF _ le_add1 [of NDIRECT NINDIRECT, folded MAXFILE_def]] not_less by metis
    moreover have "(\<exists>m<NDIRECT. fblk V A m = b) = (\<exists>m<NDIRECT. A ! m = b)" using fblk_def by auto
    ultimately show ?thesis unfolding d [of b] by blast
  qed
  moreover have "(\<exists>m. NDIRECT \<le> m \<and> m < MAXFILE \<and> fblk V A m = b) =
      (if ind = 0 then b = 0 else b \<in> set (map (\<lambda>j. get32 (V ind) (4 * j)) [0..<NINDIRECT]))" for b
  proof (cases "ind = 0")
    case True
    then have "fblk V A m = 0" if "NDIRECT \<le> m" for m using that assms(2) by (simp add: fblk_def)
    then show ?thesis using True by (auto simp: kconst intro!: exI [of _ NDIRECT])
  next
    case False
    then have "fblk V A m = get32 (V ind) (4 * (m - NDIRECT))" if "NDIRECT \<le> m" for m using that assms(2) by (simp add: fblk_def)
    then have "(\<exists>m. NDIRECT \<le> m \<and> m < MAXFILE \<and> fblk V A m = b) = (\<exists>m. NDIRECT \<le> m \<and> m < MAXFILE \<and> get32 (V ind) (4 * (m - NDIRECT)) = b)" by auto
    then show ?thesis using False e [of "\<lambda>j. get32 (V ind) (4 * j) = b"] by auto
  qed
  ultimately show ?thesis using assms(2) by (auto simp: used_def split: if_splits)
qed

lemma file_ok_entries:
  assumes fk: "file_ok s ls V A" and i: "A ! NDIRECT \<noteq> 0" and j: "j < NINDIRECT" "get32 (V (A ! NDIRECT)) (4 * j) \<noteq> 0"
  defines "e \<equiv> \<lambda>j. get32 (V (A ! NDIRECT)) (4 * j)"
  shows "used V A (e j)" "e j \<noteq> A ! NDIRECT" "e j \<notin> set (nz (take NDIRECT A))" "\<forall>j'<NINDIRECT. e j' = e j \<longrightarrow> j' = j"
proof -
  have fe: "fblk V A (NDIRECT + j') = e j'" for j' using i by (simp add: fblk_def e_def)
  have fd: "fblk V A j' = A ! j'" if "j' < NDIRECT" for j' using that by (simp add: fblk_def)
  have m: "NDIRECT + j' < MAXFILE" if "j' < NINDIRECT" for j' using that by (simp add: MAXFILE_def)
  have lA: "length A = Suc NDIRECT" using fk by (simp add: file_ok_def)
  have ne: "fblk V A (NDIRECT + j) \<noteq> 0" using fe j(2) by (simp add: e_def)
  have inj: "fblk V A (NDIRECT + j) \<noteq> A ! NDIRECT" "\<And>m'. m' < MAXFILE \<Longrightarrow> fblk V A m' = fblk V A (NDIRECT + j) \<Longrightarrow> m' = NDIRECT + j"
    using fk m [OF j(1)] ne unfolding file_ok_def by blast+
  show "used V A (e j)" using ne fe m [OF j(1)] unfolding used_def by metis
  show "e j \<noteq> A ! NDIRECT" using inj(1) fe by simp
  show "\<forall>j'<NINDIRECT. e j' = e j \<longrightarrow> j' = j" using inj(2) [of "NDIRECT + j'" for j'] m fe by auto
  show "e j \<notin> set (nz (take NDIRECT A))"
  proof
    assume "e j \<in> set (nz (take NDIRECT A))"
    then obtain j' where "j' < NDIRECT" "A ! j' = e j" using lA by (auto simp: in_set_conv_nth)
    then show False using inj(2) [of j'] fd [of j'] fe [of j] by (simp add: MAXFILE_def)
  qed
qed

lemma itrunc_tail_spec:
  assumes f: "fs_file ip st" and free: "\<And>b j. \<not> hold st b j"
    and fr: "freeing M {} (Suc k) (NINDIRECT + N + 2) st (nz (take NDIRECT (addrs ip st))) st1"
    and it: "itable st1 = (itable st)[ip := (itable st ! ip)\<lparr>i_addrs := replicate NDIRECT 0 @ drop NDIRECT (addrs ip st)\<rparr>]"
  shows "wp (itrunc_tail ip st1) (\<lambda>st6. \<exists>bs. freeing M {} (Suc k) N st bs st6 \<and> set bs = {b. used (blks st) (addrs ip st) b} \<and>
    itable st6 = (itable st)[ip := (itable st ! ip)\<lparr>i_addrs := replicate (Suc NDIRECT) 0\<rparr>])"
proof -
  let ?A = "addrs ip st" and ?s = "sb st" and ?V = "blks st" and ?bs = "nz (take NDIRECT (addrs ip st))"
  define ind where "ind = ?A ! NDIRECT"
  let ?es = "nz (map (\<lambda>j. get32 (?V ind) (4 * j)) [0..<NINDIRECT])"
  have ip: "ip < length (itable st)" and dev: "i_dev (itable st ! ip) = dv st" and fk: "file_ok ?s (lstart st) ?V ?A"
    and ok: "fs_ok ?s (lstart st) ?V" using f by (simp_all add: fs_file_def)
  have lA: "length ?A = Suc NDIRECT" using fk by (simp add: file_ok_def)
  have dr: "drop NDIRECT ?A = [ind]" using lA Cons_nth_drop_Suc [of NDIRECT ?A] by (simp add: ind_def)
  have i1: "i_dev (itable st1 ! ip) = dv st" "addrs ip st1 ! NDIRECT = ind" "addrs ip st1 = replicate NDIRECT 0 @ [ind]"
    using it ip dev dr by (simp_all add: nth_append)
  note ul = used_list [OF lA ind_def, of ?V]
  have len: "\<And>x. length (?V x) = BSIZE" and H0: "bmap_blocks ?s \<inter> (log_area (lstart st) \<union> {}) = {}" using ok by (auto simp: fs_ok_def)
  have z: "replicate (Suc NDIRECT) 0 = replicate NDIRECT (0 :: u32) @ [0]" by (simp add: replicate_append_same)
  show ?thesis
  proof (cases "ind = 0")
    case True
    have "freeing M {} (Suc k) N st ?bs st1" using fr fs_tx_less unfolding freeing_def by fastforce
    moreover have "itable st1 = (itable st)[ip := (itable st ! ip)\<lparr>i_addrs := replicate (Suc NDIRECT) 0\<rparr>]" using it dr True unfolding z by simp
    moreover have "set ?bs = {b. used ?V ?A b}" unfolding ul using True by simp
    moreover have "itrunc_tail ip st1 = Ok st1" using i1 True by (simp add: itrunc_tail_def)
    ultimately show ?thesis by (auto simp: wp_def)
  next
    case False
    have lt: "c < s_size ?s" "marked ?V ?s c" "c \<notin> bmap_blocks ?s" if "used ?V ?A c" for c using fs_file_used [OF f that] by simp_all
    have ui: "used ?V ?A ind" and sub: "\<And>c. c \<in> set (?bs @ ?es) \<Longrightarrow> used ?V ?A c" using ul False by auto
    have nb: "ind \<notin> bmap_blocks ?s" by (rule lt [OF ui])
    note en = file_ok_entries [OF fk, folded ind_def, OF False]
    have ni: "ind \<notin> set (?bs @ ?es)"
    proof -
      have "ind \<noteq> ?A ! j" if "j < NDIRECT" for j
      proof -
        have "fblk ?V ?A j = ?A ! j" "j < MAXFILE" using that by (simp_all add: fblk_def MAXFILE_def)
        then show ?thesis using fk False unfolding file_ok_def ind_def by metis
      qed
      then have "ind \<notin> set ?bs" using lA by (auto simp: in_set_conv_nth)
      moreover have "ind \<notin> set ?es" using en(2) False by fastforce
      ultimately show ?thesis by simp
    qed
    have t1: "fs_tx M {} (Suc (Suc k)) (Suc (NINDIRECT + Suc N)) st1" "fs_keeps {} st st1" "blks st1 = freed ?s ?bs ?V"
      "lgd st1 \<subseteq> lgd st \<union> bmap_blocks ?s" "bmap_blocks ?s \<subseteq> M" using fr by (simp_all add: freeing_def)
    have Vi: "freed ?s bs ?V ind = ?V ind" if "\<And>c. c \<in> set bs \<Longrightarrow> used ?V ?A c" for bs
      by (rule freed_props(3) [OF len _ nb]) (use that lt in blast)
    obtain bp st2 where r: "fs_bread (dv st1) ind st1 = Ok (bp, st2)" "fs_tx M {ind} (Suc k) (NINDIRECT + Suc N) st2" "fs_keeps {} st1 st2"
        "hold st2 ind bp" "blks st2 = blks st1" "itable st2 = itable st1" "lgd st2 = lgd st1" "ind \<in> lgd st1 \<or> blks st1 ind = disk (bc (fio st1)) ind"
      using fs_bread_spec [OF t1(1), of ind] by (auto simp: wp_def)
    have k2: "fs_keeps {} st st2" by (rule fs_keeps_trans [OF t1(2) r(3)])
    then have k2': "fs_keeps {ind} st st2" using free by (simp add: fs_keeps_def)
    have fr2: "freeing M {ind} k (NINDIRECT + Suc N) st ?bs st2" using r k2' t1 by (simp add: freeing_def)
    have H: "bmap_blocks ?s \<inter> (log_area (lstart st) \<union> {ind}) = {}" using H0 nb by auto
    have "wp (forR (itrunc_indirect (dv st) bp) [0..<NINDIRECT] st2) (\<lambda>st3. freeing M {ind} k (Suc N) st (?bs @ ?es) st3 \<and> itable st3 = itable st2 \<and> hold st3 ind bp)"
      by (rule itrunc_indirect_loop [OF fr2 r(4) H len]) (use sub lt en in auto)
    then obtain st3 where l: "forR (itrunc_indirect (dv st) bp) [0..<NINDIRECT] st2 = Ok st3" "freeing M {ind} k (Suc N) st (?bs @ ?es) st3"
        "itable st3 = itable st2" "hold st3 ind bp" by (auto simp: wp_def)
    have t3: "fs_tx M (insert ind {}) (Suc k) (Suc N) st3" "fs_keeps {ind} st st3" "blks st3 = freed ?s (?bs @ ?es) ?V"
      "lgd st3 \<subseteq> lgd st \<union> bmap_blocks ?s" using l(2) by (simp_all add: freeing_def)
    have "disk (bc (fio st3)) = disk (bc (fio st1))" "lgd st \<subseteq> lgd st3" using fs_keepsD(4,5) [OF t3(2)] fs_keepsD(5) [OF t1(2)] by auto
    moreover have "freed ?s (?bs @ ?es) ?V ind = ?V ind" by (rule Vi) (rule sub)
    then have "blks st3 ind = blks st1 ind" unfolding t1(3) t3(3) using Vi [of ?bs] sub by simp
    ultimately have "ind \<in> lgd st3 \<or> blks st3 ind = disk (bc (fio st3)) ind" using r(8) t1(4) nb by auto
    then obtain st4 where b: "fs_brelse bp st3 = Ok st4" "fs_tx M {} (Suc (Suc k)) (Suc N) st4" "fs_keeps {} st3 st4" "blks st4 = blks st3"
        "itable st4 = itable st3" "lgd st4 = lgd st3"
      using fs_brelse_spec [OF t3(1) _ l(4)] by (auto simp: wp_def)
    have "freeing M {} (Suc k) (Suc N) st (?bs @ ?es) st4"
      using b t3 t1(5) fs_keeps_trans [OF fs_keeps_mono [OF t3(2)] b(3)] by (simp add: freeing_def)
    then have "wp (bfree (dv st) ind st4) (\<lambda>st5. freeing M {} (Suc k) N st ((?bs @ ?es) @ [ind]) st5 \<and> itable st5 = itable st4 \<and> fs_keeps {} st4 st5)"
      using freeing_bfree [OF _ lt(1,2) [OF ui] ni lt(1) [OF sub] H0 len] by blast
    then obtain st5 where e: "bfree (dv st) ind st4 = Ok st5" "freeing M {} (Suc k) N st ((?bs @ ?es) @ [ind]) st5" "itable st5 = itable st4" by (auto simp: wp_def)
    let ?st6 = "set_addr ip NDIRECT 0 st5"
    have "itrunc_tail ip st1 = Ok ?st6"
      using i1(1,2) False r(1) fs_keepsD(2) [OF t1(2)] l(1) b(1) e(1) by (simp add: itrunc_tail_def Let_def)
    moreover have "itable ?st6 = (itable st)[ip := (itable st ! ip)\<lparr>i_addrs := replicate (Suc NDIRECT) 0\<rparr>]"
      using e(3) b(5) l(3) r(6) it dr ip unfolding z by (simp add: set_addr_def upd_inode_def list_update_append)
    moreover have "freeing M {} (Suc k) N st ((?bs @ ?es) @ [ind]) ?st6" using e(2) by (simp add: freeing_def set_addr_def upd_inode_def)
    moreover have "set ((?bs @ ?es) @ [ind]) = {b. used ?V ?A b}" unfolding ul using False by auto
    ultimately show ?thesis by (auto simp: wp_def)
  qed
qed

text \<open>A file none of whose blocks has changed or been freed.\<close>

lemma file_untouched:
  assumes f: "fs_file jp st" and k: "fs_keeps {} st st'" and it: "jp < length (itable st')" "itable st' ! jp = itable st ! jp"
    and ok: "fs_ok (sb st') (lstart st') (blks st')"
    and same: "\<And>b. used (blks st) (addrs jp st) b \<Longrightarrow> blks st' b = blks st b \<and> marked (blks st') (sb st) b"
  shows "fs_file jp st'" "mapped (blks st) (addrs jp st) n \<Longrightarrow> fbytes (blks st') (addrs jp st) 0 n = fbytes (blks st) (addrs jp st) 0 n"
proof -
  let ?A = "addrs jp st" and ?V = "blks st" and ?W = "blks st'"
  note k1 = fs_keepsD [OF k]
  have fk: "file_ok (sb st) (lstart st) ?V ?A" and dev: "i_dev (itable st ! jp) = dv st" using f by (simp_all add: fs_file_def)
  have fb: "fblk ?W ?A m = fblk ?V ?A m" for m using same by (auto simp: fblk_def used_def)
  have us: "used ?W ?A = used ?V ?A" by (rule ext) (simp add: used_def fb)
  have "file_ok (sb st) (lstart st) ?W ?A" using fk same unfolding file_ok_def us fb by blast
  then show "fs_file jp st'" using it ok k1 dev by (simp add: fs_file_def)
  show "fbytes ?W ?A 0 n = fbytes ?V ?A 0 n" if m: "mapped ?V ?A n"
  proof -
    have "fbyte ?W ?A i = fbyte ?V ?A i" if "i < n" for i
    proof -
      have "i < MAXFILE * BSIZE" using that m by (auto simp: mapped_def)
      then have "used ?V ?A (fblk ?V ?A (i div BSIZE))" using mapped_blk [OF m that] off_blk by (auto simp: used_def)
      then show ?thesis using same fb by (simp add: fbyte_def)
    qed
    then show ?thesis by (simp add: fbytes_def)
  qed
qed

text \<open>The empty file.\<close>

lemma empty_file_ok: "file_ok s ls V (replicate (Suc NDIRECT) 0)"
proof -
  have nd: "replicate (Suc NDIRECT) (0 :: u32) ! k = 0" if "k \<le> NDIRECT" for k using that by (simp del: replicate_Suc)
  then have "fblk V (replicate (Suc NDIRECT) 0) k = 0" for k by (simp add: fblk_def del: replicate_Suc)
  then show ?thesis using nd by (auto simp: file_ok_def used_def simp del: replicate_Suc)
qed

text \<open>What \<open>itrunc\<close> does to the blocks: those of the file are unmarked and the inode is stored.\<close>

lemma itrunc_spec:
  assumes f: "fs_file ip st" and inum: "i_inum (itable st ! ip) < s_ninodes (sb st)"
    and M: "bmap_blocks (sb st) \<subseteq> M" "IBLOCK (i_inum (itable st ! ip)) (sb st) \<in> M"
    and tx: "fs_tx M {} (Suc (Suc k)) (NDIRECT + NINDIRECT + 3 + N) st"
  defines "i' \<equiv> (itable st ! ip)\<lparr>i_addrs := replicate (Suc NDIRECT) 0, i_size := 0\<rparr>" and "ib \<equiv> IBLOCK (i_inum (itable st ! ip)) (sb st)"
  obtains st' bs x where "itrunc ip st = Ok st'" "fs_tx M {} (Suc (Suc k)) N st'" "fs_keeps {} st st'" "itable st' = (itable st)[ip := i']"
    "blks st' = (freed (sb st) bs (blks st))(ib := x)" "length x = BSIZE" "read_dinode x (inode_off (i_inum i')) i' = i'"
    "set bs = {b. used (blks st) (addrs ip st) b}" "lgd st' \<subseteq> lgd st \<union> M"
proof -
  note result = that
  have ip: "ip < length (itable st)" and dev: "i_dev (itable st ! ip) = dv st" and ok: "fs_ok (sb st) (lstart st) (blks st)"
    using f by (simp_all add: fs_file_def)
  have free: "\<not> hold st b j" for b j using hold_held [OF tx] by blast
  have tx0: "fs_tx M {} (Suc (Suc k)) (NDIRECT + (NINDIRECT + Suc N + 2)) st" using tx by (simp add: add.assoc numeral_eq_Suc)
  obtain st1 where a: "forR (itrunc_direct ip) [0..<NDIRECT] st = Ok st1"
      "freeing M {} (Suc k) (NINDIRECT + Suc N + 2) st (nz (take NDIRECT (addrs ip st))) st1"
      "itable st1 = (itable st)[ip := (itable st ! ip)\<lparr>i_addrs := replicate NDIRECT 0 @ drop NDIRECT (addrs ip st)\<rparr>]"
    using itrunc_direct_loop [OF f M(1) tx0] by (auto simp: wp_def)
  obtain st6 bs where b: "itrunc_tail ip st1 = Ok st6" "freeing M {} (Suc k) (Suc N) st bs st6" "set bs = {b. used (blks st) (addrs ip st) b}"
      "itable st6 = (itable st)[ip := (itable st ! ip)\<lparr>i_addrs := replicate (Suc NDIRECT) 0\<rparr>]"
    using itrunc_tail_spec [OF f free a(2,3)] by (auto simp: wp_def)
  define st7 where "st7 = upd_inode ip (\<lambda>i. i\<lparr>i_size := 0\<rparr>) st6"
  have it7: "itable st7 = (itable st)[ip := i']" using b(4) ip by (simp add: st7_def upd_inode_def i'_def)
  have e: "fio st7 = fio st6" "sb st7 = sb st6" by (simp_all add: st7_def upd_inode_def)
  have k6: "fs_keeps {} st st6" "fs_tx M {} (Suc (Suc k)) (Suc N) st7" "blks st6 = freed (sb st) bs (blks st)" "lgd st6 \<subseteq> lgd st \<union> bmap_blocks (sb st)"
    using b(2) by (simp_all add: freeing_def st7_def upd_inode_def)
  note k7 = fs_keepsD [OF k6(1)]
  have i7: "i' = itable st7 ! ip" "i_dev i' = dv st7" "length (i_addrs i') = Suc NDIRECT" "ib = IBLOCK (i_inum i') (sb st7)"
    using it7 ip dev k7 e by (simp_all add: i'_def ib_def)
  have bl: "ib \<notin> log_area (lstart st7)" using ok inum e k7(3) unfolding ib_def by (auto simp: fs_ok_def inode_blocks_def)
  obtain st8 where u: "iupdate ip st7 = Ok st8" "fs_tx M {} (Suc (Suc k)) N st8" "fs_keeps {} st7 st8" "itable st8 = itable st7"
    "blks st8 = (blks st7)(ib := write_dinode i' (inode_off (i_inum i')) (blks st7 ib))" "lgd st8 = insert ib (lgd st7)"
    "length (write_dinode i' (inode_off (i_inum i')) (blks st7 ib)) = BSIZE"
    by (rule iupdate_spec [OF k6(2) i7 M(2) [folded ib_def] bl])
  have "fs_keeps {} st st8" by (rule fs_keeps_trans [OF k6(1)]) (use u(3) e in \<open>simp add: fs_keeps_def\<close>)
  moreover have "itrunc ip st = Ok st8" unfolding itrunc_split using a(1) b(1) u(1) by (simp add: st7_def)
  moreover have "read_dinode (write_dinode i' (inode_off (i_inum i')) (blks st7 ib)) (inode_off (i_inum i')) i' = i'"
    using dinode_roundtrip(2) [of "inode_off (i_inum i')" "blks st7 ib" i' i'] inode_slot [of "i_inum i'"] i7(3) length_blks [OF k6(2)] by (simp add: i'_def)
  moreover have "lgd st8 \<subseteq> lgd st \<union> M" using u(6) k6(4) M e(1) by (auto simp: ib_def)
  ultimately show thesis using result u(2,4,5,7) it7 b(3) k6(3) e(1) by simp
qed

text \<open>
  \<open>itrunc\<close> gives back the blocks of a file, all of them and no others. Inside a transaction whose log has \<open>MAXOPBLOCKS\<close>
  blocks left, on a disk with one bitmap block, for a well-formed file: the call does not panic, whatever the file has of its
  direct blocks, its indirect block and the blocks named there; the free blocks are then those that were free and those of the
  file; the inode has no address and the size 0, in memory and in its block, and is again a well-formed file; at most two
  blocks are added to the log; and every other open file that shares no block with this one is as it was, contents included.
\<close>

theorem itrunc_frees:
  assumes tx: "tx_inv {} (fio st)" "lh_n (lg (fio st)) + int MAXOPBLOCKS \<le> int LOGBLOCKS" "io_ok 300 (bc (fio st))"
    and s: "unat (s_size (sb st)) \<le> BPB" and f: "fs_file ip st" "i_inum (itable st ! ip) < s_ninodes (sb st)"
  shows "\<exists>st1. itrunc ip st = Ok st1 \<and> tx_inv {} (fio st1) \<and> lh_n (lg (fio st1)) \<le> lh_n (lg (fio st)) + 2 \<and>
    itable st1 = (itable st)[ip := (itable st ! ip)\<lparr>i_addrs := replicate (Suc NDIRECT) 0, i_size := 0\<rparr>] \<and> fs_file ip st1 \<and> synced ip st1 \<and>
    free_blocks st1 = free_blocks st \<union> {b. used (blks st) (addrs ip st) b} \<and>
    (\<forall>b. b \<notin> bmap_blocks (sb st) \<and> b \<noteq> IBLOCK (i_inum (itable st ! ip)) (sb st) \<longrightarrow> blks st1 b = blks st b) \<and>
    (\<forall>jp. jp \<noteq> ip \<and> fs_file jp st \<and> (\<forall>b. \<not> (used (blks st) (addrs ip st) b \<and> used (blks st) (addrs jp st) b)) \<longrightarrow> fs_file jp st1 \<and>
       (\<forall>n. mapped (blks st) (addrs jp st) n \<longrightarrow> fbytes (blks st1) (addrs jp st1) 0 n = fbytes (blks st) (addrs jp st) 0 n))"
proof -
  let ?i = "itable st ! ip" and ?s = "sb st" and ?V = "blks st"
  define ib where "ib = IBLOCK (i_inum ?i) ?s"
  define M where "M = bmap_blocks ?s \<union> {ib}"
  define i' where "i' = ?i\<lparr>i_addrs := replicate (Suc NDIRECT) 0, i_size := 0\<rparr>"
  have M: "bmap_blocks ?s \<subseteq> M" "IBLOCK (i_inum ?i) ?s \<in> M" "finite M" by (auto simp: M_def ib_def)
  have "M \<subseteq> {s_bmapstart ?s, ib}" using one_bitmap(1) [OF s] by (auto simp: M_def)
  then have "card M \<le> card {s_bmapstart ?s, ib}" by (intro card_mono) simp_all
  also have "\<dots> \<le> 2" by (simp add: card_insert_if)
  finally have cM: "card (lgd st \<union> M) \<le> card (lgd st) + 2" using card_Un_le [of "lgd st" M] by linarith
  have lh: "lh_n (lg (fio st)) = int (card (lgd st))" by (rule tx_room [OF tx(1)])
  have tx0: "fs_tx M {} (Suc (Suc 0)) (NDIRECT + NINDIRECT + 3 + 0) st"
    using tx(1,2) M(3) cM lh io_ok_mono [OF tx(3)] by (simp add: fs_tx_def kconst)
  obtain st1 bs x where r: "itrunc ip st = Ok st1" "fs_tx M {} (Suc (Suc 0)) 0 st1" "fs_keeps {} st st1" "itable st1 = (itable st)[ip := i']"
      "blks st1 = (freed ?s bs ?V)(ib := x)" "length x = BSIZE" "read_dinode x (inode_off (i_inum i')) i' = i'"
      "set bs = {b. used ?V (addrs ip st) b}" "lgd st1 \<subseteq> lgd st \<union> M"
    by (rule itrunc_spec [OF f M(1,2) tx0, folded i'_def ib_def])
  note k = fs_keepsD [OF r(3)]
  have ip: "ip < length (itable st)" and dev: "i_dev ?i = dv st" and ok: "fs_ok ?s (lstart st) ?V" using f(1) by (simp_all add: fs_file_def)
  have ibk: "ib \<in> inode_blocks ?s" using f(2) by (auto simp: ib_def inode_blocks_def)
  have len: "\<And>x. length (?V x) = BSIZE" using ok by (simp add: fs_ok_def)
  have u: "\<And>b. b \<in> set bs \<Longrightarrow> b < s_size ?s" "\<And>b. b \<in> set bs \<Longrightarrow> data_blk ?s (lstart st) b"
    using r(8) fs_file_used(2) [OF f(1)] f(1) by (auto simp: fs_file_def file_ok_def)
  note fp = freed_props [OF len u(1)]
  have mk: "marked (blks st1) ?s c = (marked ?V ?s c \<and> \<not> used ?V (addrs ip st) c)" if "c < s_size ?s" for c
  proof -
    have "BBLOCK c ?s \<noteq> ib" using ok ibk that by (auto simp: fs_ok_def bmap_blocks_def)
    then have "marked (blks st1) ?s c = marked (freed ?s bs ?V) ?s c" using r(5) by (simp add: marked_def)
    then show ?thesis using fp(2) [of bs] r(8) by simp
  qed
  have ok1: "fs_ok (sb st1) (lstart st1) (blks st1)"
  proof -
    have "length (blks st1 b) = BSIZE" for b using r(5,6) fp(1) [of bs] by simp
    moreover have "data_blk ?s (lstart st) b" if "b < s_size ?s" "\<not> marked (blks st1) ?s b" for b
      using that mk u(2) r(8) ok by (auto simp: fs_ok_def)
    ultimately show ?thesis using ok k unfolding fs_ok_def by simp
  qed
  have i1: "itable st1 ! ip = i'" using r(4) ip by simp
  have "fs_file ip st1" using ok1 empty_file_ok ip r(4) i1 dev k(2) by (simp add: fs_file_def i'_def)
  moreover have "synced ip st1" using i1 r(5,7) k(1) by (simp add: synced_def i'_def ib_def)
  moreover have "free_blocks st1 = free_blocks st \<union> {b. used ?V (addrs ip st) b}" using mk k(1) r(8) u(1) by (auto simp: free_blocks_def)
  moreover have same: "blks st1 b = ?V b" if "b \<notin> bmap_blocks ?s \<and> b \<noteq> ib" for b using that r(5) fp(3) by simp
  moreover have "fs_file jp st1 \<and> (\<forall>n. mapped ?V (addrs jp st) n \<longrightarrow> fbytes (blks st1) (addrs jp st1) 0 n = fbytes ?V (addrs jp st) 0 n)"
    if jp: "jp \<noteq> ip \<and> fs_file jp st \<and> (\<forall>b. \<not> (used ?V (addrs ip st) b \<and> used ?V (addrs jp st) b))" for jp
  proof -
    have j: "jp < length (itable st1)" "itable st1 ! jp = itable st ! jp" using jp r(4) by (simp_all add: fs_file_def)
    have "blks st1 b = ?V b \<and> marked (blks st1) ?s b" if "used ?V (addrs jp st) b" for b
      using same mk jp that ibk fs_file_used [of jp st b] by blast
    from file_untouched [OF _ r(3) j ok1 this] show ?thesis using jp j(2) by simp
  qed
  moreover have "lh_n (lg (fio st1)) \<le> lh_n (lg (fio st)) + 2"
  proof -
    have "card (lgd st1) \<le> card (lgd st \<union> M)" using r(9) M(3) by (intro card_mono) auto
    then show ?thesis using cM lh tx_room [OF fs_txD(1) [OF r(2)]] by linarith
  qed
  ultimately show ?thesis using r(1,4) fs_txD(1) [OF r(2)] unfolding i'_def ib_def by blast
qed

theorem itrunc_frees_witness:
  "\<exists>st st1 st2. free_blocks st = {48..<64} \<and> writei kcopyin 0 0 0 3 [1, 2, 3] st = Ok (3, [1, 2, 3], st1) \<and>
    i_size (itable st1 ! 0) = 3 \<and> fbytes (blks st1) (addrs 0 st1) 0 3 = [1, 2, 3] \<and>
    itrunc 0 st1 = Ok st2 \<and> i_size (itable st2 ! 0) = 0 \<and> addrs 0 st2 = replicate (Suc NDIRECT) 0 \<and> {48..<64} \<subseteq> free_blocks st2"
proof -
  obtain st where st: "tx_inv {} (fio st)" "lh_n (lg (fio st)) = 0" "io_ok 10000 (bc (fio st))" "sb st = demo_sb" "itable st = [demo_inode]"
      "dv st = 1" "lstart st = 2" "\<forall>b. b \<noteq> 2 \<longrightarrow> blks st b = demo_disk b" "\<forall>b. length (blks st b) = BSIZE"
    by (rule demo_state)
  note d = demo_file [OF st(4-9)]
  have h: "lh_n (lg (fio st)) + int MAXOPBLOCKS \<le> int LOGBLOCKS" "(0 :: u32) \<le> i_size (itable st ! 0)"
      "unat (0 :: u32) + unat (3 :: u32) \<le> MAXFILE * BSIZE" "unat (3 :: u32) \<le> 3 * BSIZE" "unat (3 :: u32) \<le> length [1, 2, 3 :: byte]"
    using st(2) by (simp_all add: kconst)
  have "{48, 49, 50, 51, 52, 53, 54, 55, 56, 57, 58} \<subseteq> free_blocks st" unfolding d(2) by simp
  from card_mono [OF _ this] have fr: "11 \<le> card (free_blocks st)" by simp
  obtain r st1 M k where w: "writei kcopyin 0 0 0 3 [1, 2, 3] st = Ok (int r, [1, 2, 3], st1)" "r \<le> unat (3 :: u32)"
      "r = unat (3 :: u32) \<or> free_blocks st1 = {} \<and> int (card (free_blocks st)) \<le> lh_n (lg (fio st)) + int MAXOPBLOCKS" "fs_keeps {} st st1"
      "wrote 0 (unat (0 :: u32)) (take r [1, 2, 3]) st st1" "fs_tx M {} (k + 2) 9000 st1" "lgd st1 \<noteq> {}"
      "lh_n (lg (fio st1)) \<le> lh_n (lg (fio st)) + int MAXOPBLOCKS"
    by (rule write_op [OF st(1) h(1) st(3) d(3,1,5,6) h(2-5)])
  have r: "r = 3" using w(3) fr st(2) by (simp add: kconst)
  have w': "wrote 0 0 [1, 2, 3] st st1" using w(5) unfolding r by simp
  have sz: "unat (i_size (itable st1 ! 0)) = 3" using w' d(7) by (simp add: wrote_def Let_def)
  have q: "fs_file 0 st1" "\<And>b. b < s_size (sb st) \<Longrightarrow> marked (blks st1) (sb st) b = (marked (blks st) (sb st) b \<or> used (blks st1) (addrs 0 st1) b)"
      "itable st1 = (itable st)[0 := (itable st ! 0)\<lparr>i_addrs := addrs 0 st1, i_size := i_size (itable st1 ! 0)\<rparr>]"
      "fbytes (blks st1) (addrs 0 st1) 0 (unat (i_size (itable st1 ! 0))) = patch 0 [1, 2, 3] (fbytes (blks st) (addrs 0 st) 0 (unat (i_size (itable st ! 0))))"
    using w' unfolding wrote_def Let_def by blast+
  have fb: "fbytes (blks st1) (addrs 0 st1) 0 3 = [1, 2, 3]" using q(4) unfolding sz using d(7) by (simp add: patch_def fbytes_def)
  have inum: "i_inum (itable st1 ! 0) = i_inum (itable st ! 0)" by (subst q(3)) (use st(5) in simp)
  note k1 = fs_keepsD [OF w(4)] and t1 = fs_txD [OF w(6)]
  have p: "lh_n (lg (fio st1)) + int MAXOPBLOCKS \<le> int LOGBLOCKS" "io_ok 300 (bc (fio st1))" "unat (s_size (sb st1)) \<le> BPB"
      "i_inum (itable st1 ! 0) < s_ninodes (sb st1)"
    using w(8) st(2) io_ok_mono [OF t1(2)] d(3,6) k1(1) inum by (simp_all add: kconst)
  from itrunc_frees [OF t1(1) p(1-3) q(1) p(4)]
  obtain st2 where c: "itrunc 0 st1 = Ok st2" "itable st2 = (itable st1)[0 := (itable st1 ! 0)\<lparr>i_addrs := replicate (Suc NDIRECT) 0, i_size := 0\<rparr>]"
      "free_blocks st2 = free_blocks st1 \<union> {b. used (blks st1) (addrs 0 st1) b}"
    by (elim exE conjE) (rule that)
  have "0 < length (itable st1)" using q(1) by (simp add: fs_file_def)
  then have "i_size (itable st2 ! 0) = 0" "addrs 0 st2 = replicate (Suc NDIRECT) 0" using c(2) by simp_all
  moreover have "i_size (itable st1 ! 0) = 3" using sz by (simp add: word_unat_eq_iff)
  moreover have "free_blocks st \<subseteq> free_blocks st2" unfolding c(3) using q(2) k1(1) by (auto simp: free_blocks_def)
  ultimately show ?thesis using w(1) fb c(1) d(2) unfolding r by auto
qed

end
