(* ===== verification/PageTable.thy ===== *)
theory PageTable
  imports Kmem
begin

text \<open>
  The Sv39 page tables of \<^verbatim>\<open>kernel/vm.c\<close> and \<^verbatim>\<open>kernel/riscv.h\<close>: page-table entries, the
  three-level \<open>walk\<close>, and the operations built from it that touch nothing but physical
  memory and the free list (\<open>walkaddr\<close>, \<open>mappages\<close>, \<open>uvmcreate\<close>, \<open>uvmclear\<close>, \<open>ismapped\<close>). A page
  table abstracts to a function from virtual addresses to entries, and \<open>mappages\<close> is an
  update of that function.
\<close>

section \<open>Entries and addresses\<close>

type_synonym pte = u64

definition PTE_V :: u64 where "PTE_V = 1"
definition PTE_R :: u64 where "PTE_R = 2"
definition PTE_W :: u64 where "PTE_W = 4"
definition PTE_X :: u64 where "PTE_X = 8"
definition PTE_U :: u64 where "PTE_U = 16"

definition PA2PTE :: "u64 \<Rightarrow> pte" where "PA2PTE pa = push_bit 10 (drop_bit 12 pa)"
definition PTE2PA :: "pte \<Rightarrow> u64" where "PTE2PA e = push_bit 12 (drop_bit 10 e)"
definition PTE_FLAGS :: "pte \<Rightarrow> u64" where "PTE_FLAGS e = e AND 0x3FF"

definition PX :: "nat \<Rightarrow> u64 \<Rightarrow> u64" where
  "PX level va = drop_bit (12 + 9 * level) va AND 0x1FF"

definition MAXVA :: u64 where "MAXVA = push_bit (9 + 9 + 9 + 12 - 1) 1"

section \<open>Operations\<close>

text \<open>
  The address of entry \<open>x\<close> of the table page \<open>pt\<close>, and the descent of \<open>walk\<close> from the given
  level; a null pointer reports a missing table (without \<open>alloc\<close>) or an exhausted allocator.
\<close>

definition pte_addr :: "u64 \<Rightarrow> u64 \<Rightarrow> u64" where
  "pte_addr pt x = pt + 8 * x"

fun walk_from :: "nat \<Rightarrow> u64 \<Rightarrow> u64 \<Rightarrow> bool \<Rightarrow> kmem \<Rightarrow> u64 \<times> kmem" where
  "walk_from 0 pt va alloc k = (pte_addr pt (PX 0 va), k)"
| "walk_from (Suc l) pt va alloc k =
     (let pa = pte_addr pt (PX (Suc l) va); e = load64 (mem k) pa
      in if e AND PTE_V \<noteq> 0 then walk_from l (PTE2PA e) va alloc k
         else if \<not> alloc then (0, k)
         else let (pg, k1) = kalloc k
              in if pg = 0 then (0, k1)
                 else let k2 = k1\<lparr>mem := memset_page pg 0 (mem k1)\<rparr>;
                          k3 = k2\<lparr>mem := store64 pa (PA2PTE pg OR PTE_V) (mem k2)\<rparr>
                      in walk_from l pg va alloc k3)"

definition walk :: "u64 \<Rightarrow> u64 \<Rightarrow> bool \<Rightarrow> kmem \<Rightarrow> (u64 \<times> kmem) result" where
  "walk pt va alloc k =
     (if va \<ge> MAXVA then Panic ''walk'' else Ok (walk_from 2 pt va alloc k))"

definition walkaddr :: "u64 \<Rightarrow> u64 \<Rightarrow> kmem \<Rightarrow> u64 result" where
  "walkaddr pt va k =
     (if va \<ge> MAXVA then Ok 0
      else bindR (walk pt va False k) (\<lambda>(pa, k1).
        if pa = 0 then Ok 0
        else let e = load64 (mem k1) pa
             in if e AND PTE_V = 0 then Ok 0
                else if e AND PTE_U = 0 then Ok 0
                else Ok (PTE2PA e)))"

text \<open>
  The loop of \<open>mappages\<close> over the pages still to map; \<open>a = last\<close> in the code is the last of
  \<open>size / PGSIZE\<close> pages. The result is the return value (0 or \<open>-1\<close>).
\<close>

fun mappages_loop :: "nat \<Rightarrow> u64 \<Rightarrow> u64 \<Rightarrow> u64 \<Rightarrow> u64 \<Rightarrow> kmem \<Rightarrow> (int \<times> kmem) result" where
  "mappages_loop 0 pt a pa perm k = Ok (0, k)"
| "mappages_loop (Suc n) pt a pa perm k =
     bindR (walk pt a True k) (\<lambda>(p, k1).
       if p = 0 then Ok (-1, k1)
       else if load64 (mem k1) p AND PTE_V \<noteq> 0 then Panic ''mappages: remap''
       else mappages_loop n pt (a + of_nat PGSIZE) (pa + of_nat PGSIZE) perm
              (k1\<lparr>mem := store64 p (PA2PTE pa OR perm OR PTE_V) (mem k1)\<rparr>))"

definition mappages :: "u64 \<Rightarrow> u64 \<Rightarrow> u64 \<Rightarrow> u64 \<Rightarrow> u64 \<Rightarrow> kmem \<Rightarrow> (int \<times> kmem) result" where
  "mappages pt va sz pa perm k =
     (if unat va mod PGSIZE \<noteq> 0 then Panic ''mappages: va not aligned''
      else if unat sz mod PGSIZE \<noteq> 0 then Panic ''mappages: size not aligned''
      else if sz = 0 then Panic ''mappages: size''
      else mappages_loop (unat sz div PGSIZE) pt va pa perm k)"

definition kvmmap :: "u64 \<Rightarrow> u64 \<Rightarrow> u64 \<Rightarrow> u64 \<Rightarrow> u64 \<Rightarrow> kmem \<Rightarrow> kmem result" where
  "kvmmap kpgtbl va pa sz perm k =
     bindR (mappages kpgtbl va sz pa perm k) (\<lambda>(r, k1). if r \<noteq> 0 then Panic ''kvmmap'' else Ok k1)"

definition uvmcreate :: "kmem \<Rightarrow> u64 \<times> kmem" where
  "uvmcreate k = (let (pt, k1) = kalloc k
     in if pt = 0 then (0, k1) else (pt, k1\<lparr>mem := memset_page pt 0 (mem k1)\<rparr>))"

definition uvmclear :: "u64 \<Rightarrow> u64 \<Rightarrow> kmem \<Rightarrow> kmem result" where
  "uvmclear pt va k =
     bindR (walk pt va False k) (\<lambda>(p, k1).
       if p = 0 then Panic ''uvmclear''
       else Ok (k1\<lparr>mem := store64 p (load64 (mem k1) p AND NOT PTE_U) (mem k1)\<rparr>))"

definition ismapped :: "u64 \<Rightarrow> u64 \<Rightarrow> kmem \<Rightarrow> bool result" where
  "ismapped pt va k =
     bindR (walk pt va False k) (\<lambda>(p, k1).
       if p = 0 then Ok False else Ok (load64 (mem k1) p AND PTE_V \<noteq> 0))"

section \<open>Slots of a table page\<close>

lemma slot_unat:
  assumes "page_aligned p" "x < 512"
  shows "unat (pte_addr p x) = unat p + 8 * unat x" and "i < 8 \<Longrightarrow> unat (pte_addr p x + of_nat i) = unat p + 8 * unat x + i"
proof -
  have x: "unat x < 512" using assms(2) by (simp add: word_less_nat_alt)
  have u8: "unat (8 * x) = 8 * unat x" using x by (simp add: unat_word_ariths)
  have "unat (8 * x + of_nat i) = 8 * unat x + i" if "i < 8"
    using that x u8 by (simp add: unat_word_ariths unat_of_nat)
  then show "i < 8 \<Longrightarrow> unat (pte_addr p x + of_nat i) = unat p + 8 * unat x + i"
    using unat_add_offset [OF assms(1), of "8 * x + of_nat i"] x by (simp add: pte_addr_def kconst add.assoc)
  show "unat (pte_addr p x) = unat p + 8 * unat x"
    using unat_add_offset [OF assms(1), of "8 * x"] x u8 by (simp add: pte_addr_def kconst)
qed

lemma slot_in_page:
  assumes "page_aligned p" "x < 512" "i < 8"
  shows "in_page p (pte_addr p x + of_nat i)"
proof -
  have "unat x < 512" using assms(2) by (simp add: word_less_nat_alt)
  moreover have "unat (pte_addr p x + of_nat i) - unat p = 8 * unat x + i"
    using slot_unat(2) [OF assms] by simp
  moreover have "unat (pte_addr p x + of_nat i - p) = unat (pte_addr p x + of_nat i) - unat p"
    using slot_unat(2) [OF assms] by (simp add: unat_sub word_le_nat_alt)
  ultimately show ?thesis using assms(3) by (simp add: in_page_def kconst)
qed

lemma slot_store_touch:
  assumes "page_aligned p" "x < 512" "page_aligned q" "y < 512" "i < 8"
    and "unat (pte_addr q y + of_nat i - pte_addr p x) < 8"
  shows "p = q \<and> x = y"
proof -
  define j where "j = unat (pte_addr q y + of_nat i - pte_addr p x)"
  have j: "pte_addr q y + of_nat i = pte_addr p x + of_nat j" by (simp add: j_def)
  have "j < 8" using assms(6) by (simp add: j_def)
  then have "in_page p (pte_addr q y + of_nat i)" using slot_in_page [OF assms(1,2)] j by simp
  then have pq: "p = q" using pages_disjoint [OF assms(1,3)] slot_in_page [OF assms(3,4,5)] by blast
  have "unat p + 8 * unat x + j = unat q + 8 * unat y + i"
    using slot_unat(2) [OF assms(1,2) \<open>j < 8\<close>] slot_unat(2) [OF assms(3,4,5)] j by simp
  then have "8 * unat x + j = 8 * unat y + i" using pq by simp
  then have "unat x = unat y" using \<open>j < 8\<close> assms(5) by arith
  with pq show ?thesis by (simp add: word_unat_eq_iff)
qed

lemma load_store_slot:
  assumes "page_aligned p" "x < 512" "page_aligned q" "y < 512"
  shows "load64 (store64 (pte_addr p x) v m) (pte_addr q y) =
    (if p = q \<and> x = y then v else load64 m (pte_addr q y))"
proof (cases "p = q \<and> x = y")
  case False
  have "load64 (store64 (pte_addr p x) v m) (pte_addr q y) = load64 m (pte_addr q y)"
  proof (rule load64_cong)
    fix i assume "i < (8::nat)"
    then show "store64 (pte_addr p x) v m (pte_addr q y + of_nat i) = m (pte_addr q y + of_nat i)"
      using slot_store_touch [OF assms] False by (auto simp: store64_def)
  qed
  with False show ?thesis by auto
qed auto

lemma load_memset_other:
  assumes "page_aligned p" "page_aligned q" "p \<noteq> q" "y < 512"
  shows "load64 (memset_page p c m) (pte_addr q y) = load64 m (pte_addr q y)"
proof (rule load64_cong)
  fix i assume "i < (8::nat)"
  then have "\<not> in_page p (pte_addr q y + of_nat i)"
    using slot_in_page [OF assms(2,4)] pages_disjoint [OF assms(1,2)] assms(3) by blast
  then show "memset_page p c m (pte_addr q y + of_nat i) = m (pte_addr q y + of_nat i)"
    by (rule memset_page_other)
qed

lemma load_memset_slot:
  assumes "page_aligned p" "page_aligned q" "y < 512"
  shows "load64 (memset_page p 0 m) (pte_addr q y) = (if p = q then 0 else load64 m (pte_addr q y))"
proof (cases "p = q")
  case True
  have "load64 (memset_page p 0 m) (pte_addr q y) = load64 (\<lambda>_. 0) (pte_addr q y)"
    by (rule load64_cong) (use True slot_in_page [OF assms(2,3)] in \<open>simp add: memset_page_in\<close>)
  with True show ?thesis by (simp add: load64_zero)
qed (simp add: load_memset_other assms)

lemma store_slot_frame:
  assumes "page_aligned p" "x < 512" "page_aligned q" "p \<noteq> q" "in_page q a"
  shows "store64 (pte_addr p x) v m a = m a"
proof -
  have "\<not> unat (a - pte_addr p x) < 8"
  proof
    assume l: "unat (a - pte_addr p x) < 8"
    have "a = pte_addr p x + of_nat (unat (a - pte_addr p x))" by simp
    then have "in_page p a" using slot_in_page [OF assms(1,2) l] by simp
    then show False using pages_disjoint [OF assms(1,3) _ assms(5)] assms(4) by simp
  qed
  then show ?thesis by (simp add: store64_def)
qed

section \<open>Entry arithmetic\<close>

lemma PX_lt [simp]: "PX l va < 512"
proof -
  have "PX l va \<le> 0x1FF" unfolding PX_def by (rule word_and_le1)
  then show ?thesis by (simp add: word_le_nat_alt word_less_nat_alt)
qed

lemma page_aligned_bits: "page_aligned g \<Longrightarrow> push_bit 12 (drop_bit 12 g) = g"
  by (simp add: word_unat_eq_iff unat_page_base page_aligned_def) (metis dvd_div_mult_self mod_eq_0_iff_dvd)

lemma flags_high: "(f :: u64) < 1024 \<Longrightarrow> 10 \<le> n \<Longrightarrow> \<not> bit f n"
proof -
  assume f: "f < 1024" and n: "10 \<le> n"
  then have "unat f < 2 ^ 10" by (simp add: word_less_nat_alt)
  then have "take_bit 10 f = f" by (simp add: word_unat_eq_iff unsigned_take_bit_eq take_bit_nat_eq_self)
  then show ?thesis using n by (metis bit_take_bit_iff not_less)
qed

lemma PTE2PA_PA2PTE:
  assumes "page_aligned g" "f < 1024"
  shows "PTE2PA (PA2PTE g OR f) = g"
proof -
  have "PTE2PA (PA2PTE g OR f) = push_bit 12 (drop_bit 12 g)"
  proof (rule bit_word_eqI)
    fix n assume "n < LENGTH(64)"
    then show "bit (PTE2PA (PA2PTE g OR f)) n = bit (push_bit 12 (drop_bit 12 g)) n"
      using flags_high [OF assms(2), of "10 + (n - 12)"]
      by (auto simp: PTE2PA_def PA2PTE_def bit_push_bit_iff bit_drop_bit_eq bit_or_iff)
  qed
  then show ?thesis using page_aligned_bits [OF assms(1)] by simp
qed

lemma PTE_V_bit: "(e AND PTE_V \<noteq> 0) = odd (e :: u64)"
  by (simp add: PTE_V_def and_one_eq mod_2_eq_odd)

lemma valid_or [simp]: "odd (a OR PTE_V)" "odd (a OR b OR PTE_V)"
  by (simp_all add: PTE_V_def even_or_iff)

section \<open>Page tables as functions\<close>

text \<open>
  Following one entry to a lower table, two entries to a leaf table, and the leaf entry of a
  virtual address; a missing table reads as the entry 0.
\<close>

definition sub :: "memory \<Rightarrow> u64 \<Rightarrow> u64 \<Rightarrow> u64 option" where
  "sub m pt x = (let e = load64 m (pte_addr pt x) in if odd e then Some (PTE2PA e) else None)"

definition tab0 :: "memory \<Rightarrow> u64 \<Rightarrow> u64 \<Rightarrow> u64 \<Rightarrow> u64 option" where
  "tab0 m pt x y = (case sub m pt x of None \<Rightarrow> None | Some p \<Rightarrow> sub m p y)"

definition pte_of :: "memory \<Rightarrow> u64 \<Rightarrow> u64 \<Rightarrow> pte" where
  "pte_of m pt va = (case tab0 m pt (PX 2 va) (PX 1 va) of
     None \<Rightarrow> 0 | Some p \<Rightarrow> load64 m (pte_addr p (PX 0 va)))"

lemma walk_noalloc:
  "walk_from 2 pt va False k =
     (case tab0 (mem k) pt (PX 2 va) (PX 1 va) of None \<Rightarrow> (0, k) | Some p \<Rightarrow> (pte_addr p (PX 0 va), k))"
  by (simp add: numeral_2_eq_2 tab0_def sub_def PTE_V_bit Let_def)

text \<open>
  Well-formedness: the table pages form a tree without sharing, lie in the allocator's range
  and are not free.
\<close>

definition wf_pt :: "u64 \<Rightarrow> u64 set \<Rightarrow> memory \<Rightarrow> u64 \<Rightarrow> bool" where
  "wf_pt kend F m pt = (page_ok kend pt \<and> pt \<notin> F \<and>
     (\<forall>x p. x < 512 \<and> sub m pt x = Some p \<longrightarrow> page_ok kend p \<and> p \<notin> F \<and> p \<noteq> pt) \<and>
     (\<forall>x y p. x < 512 \<and> y < 512 \<and> tab0 m pt x y = Some p \<longrightarrow>
        page_ok kend p \<and> p \<notin> F \<and> p \<noteq> pt \<and> (\<forall>x'<512. sub m pt x' \<noteq> Some p)) \<and>
     (\<forall>x x' p. x < 512 \<and> x' < 512 \<and> sub m pt x = Some p \<and> sub m pt x' = Some p \<longrightarrow> x = x') \<and>
     (\<forall>x y x' y' p. x < 512 \<and> y < 512 \<and> x' < 512 \<and> y' < 512 \<and> tab0 m pt x y = Some p \<and>
        tab0 m pt x' y' = Some p \<longrightarrow> x = x' \<and> y = y'))"

lemma wf_ptD:
  assumes "wf_pt kend F m pt"
  shows "page_ok kend pt" "pt \<notin> F"
    and "x < 512 \<Longrightarrow> sub m pt x = Some p \<Longrightarrow> page_ok kend p \<and> p \<notin> F \<and> p \<noteq> pt"
    and "x < 512 \<Longrightarrow> y < 512 \<Longrightarrow> tab0 m pt x y = Some p \<Longrightarrow>
      page_ok kend p \<and> p \<notin> F \<and> p \<noteq> pt \<and> (\<forall>x'<512. sub m pt x' \<noteq> Some p)"
    and "x < 512 \<Longrightarrow> x' < 512 \<Longrightarrow> sub m pt x = Some p \<Longrightarrow> sub m pt x' = Some p \<Longrightarrow> x = x'"
    and "x < 512 \<Longrightarrow> y < 512 \<Longrightarrow> x' < 512 \<Longrightarrow> y' < 512 \<Longrightarrow> tab0 m pt x y = Some p \<Longrightarrow>
      tab0 m pt x' y' = Some p \<Longrightarrow> x = x' \<and> y = y'"
  using assms unfolding wf_pt_def by blast+

lemma wf_ptI:
  assumes "page_ok kend pt" "pt \<notin> F"
    and "\<And>x p. x < 512 \<Longrightarrow> sub m pt x = Some p \<Longrightarrow> page_ok kend p \<and> p \<notin> F \<and> p \<noteq> pt"
    and "\<And>x y p. x < 512 \<Longrightarrow> y < 512 \<Longrightarrow> tab0 m pt x y = Some p \<Longrightarrow>
      page_ok kend p \<and> p \<notin> F \<and> p \<noteq> pt \<and> (\<forall>x'<512. sub m pt x' \<noteq> Some p)"
    and "\<And>x x' p. x < 512 \<Longrightarrow> x' < 512 \<Longrightarrow> sub m pt x = Some p \<Longrightarrow> sub m pt x' = Some p \<Longrightarrow> x = x'"
    and "\<And>x y x' y' p. x < 512 \<Longrightarrow> y < 512 \<Longrightarrow> x' < 512 \<Longrightarrow> y' < 512 \<Longrightarrow> tab0 m pt x y = Some p \<Longrightarrow>
      tab0 m pt x' y' = Some p \<Longrightarrow> x = x' \<and> y = y'"
  shows "wf_pt kend F m pt"
  unfolding wf_pt_def using assms by blast

lemma page_ok_aligned: "page_ok kend p \<Longrightarrow> page_aligned p"
  by (simp add: page_ok_def)

lemma wf_pt_aligned:
  assumes "wf_pt kend F m pt"
  shows "page_aligned pt"
    and "x < 512 \<Longrightarrow> sub m pt x = Some p \<Longrightarrow> page_aligned p"
    and "x < 512 \<Longrightarrow> y < 512 \<Longrightarrow> tab0 m pt x y = Some p \<Longrightarrow> page_aligned p"
  using wf_ptD [OF assms] page_ok_aligned by blast+

text \<open>A fresh page \<open>g\<close> hung below slot \<open>x\<close> of page \<open>p\<close>, as \<open>walk\<close> does.\<close>

definition hang :: "u64 \<Rightarrow> u64 \<Rightarrow> u64 \<Rightarrow> memory \<Rightarrow> memory" where
  "hang p x g m = store64 (pte_addr p x) (PA2PTE g OR PTE_V) (memset_page g 0 (memset_page g 5 m))"

lemma load_hang:
  assumes "page_aligned p" "x < 512" "page_aligned g" "p \<noteq> g" "page_aligned a" "b < 512"
  shows "load64 (hang p x g m) (pte_addr a b) =
    (if a = p \<and> b = x then PA2PTE g OR PTE_V else if a = g then 0 else load64 m (pte_addr a b))"
  using assms by (auto simp: hang_def load_store_slot load_memset_slot load_memset_other)

lemma sub_hang:
  assumes "page_aligned p" "x < 512" "page_aligned g" "p \<noteq> g" "page_aligned a" "b < 512"
  shows "sub (hang p x g m) a b =
    (if a = p \<and> b = x then Some g else if a = g then None else sub m a b)"
  using assms PTE2PA_PA2PTE [OF assms(3), of PTE_V] by (simp add: sub_def load_hang PTE_V_def even_or_iff)

lemma wf_pt_cong:
  assumes wf: "wf_pt kend F m pt"
    and s1: "\<And>x. x < 512 \<Longrightarrow> sub m' pt x = sub m pt x"
    and s2: "\<And>x y. x < 512 \<Longrightarrow> y < 512 \<Longrightarrow> tab0 m' pt x y = tab0 m pt x y"
  shows "wf_pt kend F m' pt"
proof (rule wf_ptI, goal_cases)
  case (3 x p) then show ?case using wf_ptD(3) [OF wf] s1 by metis
next
  case (4 x y p) then show ?case using wf_ptD(4) [OF wf] s1 s2 by metis
next
  case (5 x x' p) then show ?case using wf_ptD(5) [OF wf] s1 by metis
next
  case (6 x y x' y' p) then show ?case using wf_ptD(6) [OF wf] s2 by metis
qed (use wf_ptD(1,2) [OF wf] in auto)

section \<open>Growing a table\<close>

text \<open>Hanging a free page below the root, and below a level-1 table.\<close>

lemma hang_root:
  assumes wf: "wf_pt kend F m pt" and x: "x < 512" "sub m pt x = None" and g: "g \<in> F" "page_aligned g"
  shows "b < 512 \<Longrightarrow> sub (hang pt x g m) pt b = (if b = x then Some g else sub m pt b)"
    and "b < 512 \<Longrightarrow> y < 512 \<Longrightarrow> tab0 (hang pt x g m) pt b y = tab0 m pt b y"
proof -
  have pt: "page_aligned pt" "pt \<noteq> g" using wf_pt_aligned(1) [OF wf] wf_ptD(2) [OF wf] g by auto
  show s: "sub (hang pt x g m) pt b = (if b = x then Some g else sub m pt b)" if "b < 512" for b
    using sub_hang [OF pt(1) x(1) g(2) pt(2) pt(1) that] pt by auto
  show "tab0 (hang pt x g m) pt b y = tab0 m pt b y" if "b < 512" "y < 512"
  proof (cases "sub m pt b")
    case None
    then show ?thesis using s [OF that(1)] sub_hang [OF pt(1) x(1) g(2) pt(2) g(2) that(2)] pt
      by (auto simp: tab0_def)
  next
    case (Some p)
    then have "p \<noteq> g" "p \<noteq> pt" "page_aligned p" "b \<noteq> x"
      using wf_ptD(3) [OF wf that(1) Some] wf_pt_aligned(2) [OF wf that(1) Some] g x by auto
    then show ?thesis using s [OF that(1)] Some sub_hang [OF pt(1) x(1) g(2) pt(2) _ that(2)]
      by (auto simp: tab0_def)
  qed
qed

lemma hang_mid:
  assumes wf: "wf_pt kend F m pt" and x: "x < 512" "sub m pt x = Some p"
    and y: "y < 512" "sub m p y = None" and g: "g \<in> F" "page_aligned g"
  shows "b < 512 \<Longrightarrow> sub (hang p y g m) pt b = sub m pt b"
    and "b < 512 \<Longrightarrow> c < 512 \<Longrightarrow>
      tab0 (hang p y g m) pt b c = (if b = x \<and> c = y then Some g else tab0 m pt b c)"
proof -
  have pt: "page_aligned pt" "pt \<noteq> g" using wf_pt_aligned(1) [OF wf] wf_ptD(2) [OF wf] g by auto
  have p: "page_aligned p" "p \<noteq> g" "p \<noteq> pt"
    using wf_ptD(3) [OF wf x] wf_pt_aligned(2) [OF wf x] g by auto
  show s: "sub (hang p y g m) pt b = sub m pt b" if "b < 512" for b
    using sub_hang [OF p(1) y(1) g(2) p(2) pt(1) that] pt p by auto
  show "tab0 (hang p y g m) pt b c = (if b = x \<and> c = y then Some g else tab0 m pt b c)"
    if "b < 512" "c < 512"
  proof (cases "sub m pt b")
    case None
    then show ?thesis using s [OF that(1)] x by (auto simp: tab0_def)
  next
    case (Some q)
    then have q: "q \<noteq> g" "page_aligned q" "(q = p) = (b = x)"
      using wf_ptD(3) [OF wf that(1) Some] wf_pt_aligned(2) [OF wf that(1) Some] g
        wf_ptD(5) [OF wf that(1) x(1)] x Some by auto
    then show ?thesis using s [OF that(1)] Some sub_hang [OF p(1) y(1) g(2) p(2) q(2) that(2)]
      by (auto simp: tab0_def)
  qed
qed

lemma wf_hang_root:
  assumes wf: "wf_pt kend F m pt" and x: "x < 512" "sub m pt x = None"
    and g: "g \<in> F" "page_ok kend g"
  shows "wf_pt kend (F - {g}) (hang pt x g m) pt"
proof -
  note h = hang_root [OF wf x g(1) page_ok_aligned [OF g(2)]]
  have gx: "sub m pt b \<noteq> Some g" "tab0 m pt b c \<noteq> Some g" if "b < 512" "c < 512" for b c
    using wf_ptD(3,4) [OF wf] that g by blast+
  show ?thesis
  proof (rule wf_ptI, goal_cases)
    case (3 b p) then show ?case using h wf_ptD(2,3) [OF wf] g by (auto split: if_splits)
  next
    case (4 b c p) then show ?case using h wf_ptD(4) [OF wf] gx by (auto split: if_splits)
  next
    case (5 b b' p) then show ?case using h wf_ptD(5) [OF wf] gx by (auto split: if_splits)
  next
    case (6 b c b' c' p) then show ?case using h wf_ptD(6) [OF wf] by auto
  qed (use wf_ptD(1,2) [OF wf] in auto)
qed

lemma wf_hang_mid:
  assumes wf: "wf_pt kend F m pt" and x: "x < 512" "sub m pt x = Some p"
    and y: "y < 512" "sub m p y = None" and g: "g \<in> F" "page_ok kend g"
  shows "wf_pt kend (F - {g}) (hang p y g m) pt"
proof -
  note h = hang_mid [OF wf x y g(1) page_ok_aligned [OF g(2)]]
  have gx: "sub m pt b \<noteq> Some g" "tab0 m pt b c \<noteq> Some g" if "b < 512" "c < 512" for b c
    using wf_ptD(3,4) [OF wf] that g by blast+
  have gp: "g \<noteq> pt" using wf_ptD(2) [OF wf] g by auto
  show ?thesis
  proof (rule wf_ptI, goal_cases)
    case (3 b q) then show ?case using h(1) wf_ptD(3) [OF wf] by auto
  next
    case (4 b c q) then show ?case using h wf_ptD(4) [OF wf] gx gp g by (auto split: if_splits)
  next
    case (5 b b' q) then show ?case using h(1) wf_ptD(5) [OF wf] by auto
  next
    case (6 b c b' c' q) then show ?case using h(2) wf_ptD(6) [OF wf] gx by (auto split: if_splits)
  qed (use wf_ptD(1,2) [OF wf] in auto)
qed

lemma pte_of_hang_root:
  assumes wf: "wf_pt kend F m pt" and x: "x < 512" "sub m pt x = None"
    and g: "g \<in> F" "page_ok kend g"
  shows "pte_of (hang pt x g m) pt va = pte_of m pt va"
proof (cases "tab0 m pt (PX 2 va) (PX 1 va)")
  case None
  then show ?thesis using hang_root(2) [OF wf x g(1) page_ok_aligned [OF g(2)]] by (simp add: pte_of_def)
next
  case (Some q)
  then have "page_aligned q" "q \<noteq> pt" "q \<noteq> g"
    using wf_ptD(4) [OF wf _ _ Some] wf_pt_aligned(3) [OF wf _ _ Some] g by auto
  moreover have "pt \<noteq> g" using wf_ptD(2) [OF wf] g by auto
  ultimately have "load64 (hang pt x g m) (pte_addr q (PX 0 va)) = load64 m (pte_addr q (PX 0 va))"
    by (simp add: load_hang wf_pt_aligned(1) [OF wf] x page_ok_aligned [OF g(2)])
  then show ?thesis
    using Some hang_root(2) [OF wf x g(1) page_ok_aligned [OF g(2)]] by (simp add: pte_of_def)
qed

lemma pte_of_hang_mid:
  assumes wf: "wf_pt kend F m pt" and x: "x < 512" "sub m pt x = Some p"
    and y: "y < 512" "sub m p y = None" and g: "g \<in> F" "page_ok kend g"
  shows "pte_of (hang p y g m) pt va = pte_of m pt va"
proof -
  have p: "page_aligned p" "p \<noteq> g" using wf_ptD(3) [OF wf x] wf_pt_aligned(2) [OF wf x] g by auto
  note t = hang_mid(2) [OF wf x y g(1) page_ok_aligned [OF g(2)], of "PX 2 va" "PX 1 va"]
  show ?thesis
  proof (cases "tab0 m pt (PX 2 va) (PX 1 va)")
    case None
    then show ?thesis using t load_hang [OF p(1) y(1) page_ok_aligned [OF g(2)] p(2) page_ok_aligned [OF g(2)]] p
      by (auto simp: pte_of_def)
  next
    case (Some q)
    then have q: "page_aligned q" "q \<noteq> p" "q \<noteq> g"
      using wf_ptD(4) [OF wf _ _ Some] wf_pt_aligned(3) [OF wf _ _ Some] g x by auto
    moreover have "\<not> (PX 2 va = x \<and> PX 1 va = y)" using Some x y by (auto simp: tab0_def)
    ultimately show ?thesis
      using t Some load_hang [OF p(1) y(1) page_ok_aligned [OF g(2)] p(2) q(1), of "PX 0 va"]
      by (auto simp: pte_of_def)
  qed
qed

section \<open>Walking with allocation\<close>

definition tables :: "memory \<Rightarrow> u64 \<Rightarrow> u64 set" where
  "tables m pt = {pt} \<union> {p. \<exists>x<512. sub m pt x = Some p} \<union> {p. \<exists>x<512. \<exists>y<512. tab0 m pt x y = Some p}"

definition pt_inv :: "u64 \<Rightarrow> u64 list \<Rightarrow> kmem \<Rightarrow> u64 \<Rightarrow> bool" where
  "pt_inv kend xs k pt = (kmem_inv kend xs k \<and> wf_pt kend (set xs) (mem k) pt)"

text \<open>
  What \<open>walk\<close> may do to the kernel's memory: take pages from the front of the free list and
  make them tables of \<open>pt\<close>, without changing a single mapping or any other page.
\<close>

definition confined :: "u64 \<Rightarrow> u64 \<Rightarrow> u64 list \<Rightarrow> kmem \<Rightarrow> u64 list \<Rightarrow> kmem \<Rightarrow> bool" where
  "confined kend pt xs k ys k' = (pt_inv kend ys k' pt \<and> (\<exists>zs. xs = zs @ ys) \<and>
     tables (mem k') pt \<subseteq> tables (mem k) pt \<union> set xs \<and>
     (\<forall>q a. page_aligned q \<and> q \<notin> tables (mem k) pt \<union> set xs \<and> in_page q a \<longrightarrow> mem k' a = mem k a))"

definition grows :: "u64 \<Rightarrow> u64 \<Rightarrow> u64 list \<Rightarrow> kmem \<Rightarrow> u64 list \<Rightarrow> kmem \<Rightarrow> bool" where
  "grows kend pt xs k ys k' = (confined kend pt xs k ys k' \<and>
     (\<forall>va. pte_of (mem k') pt va = pte_of (mem k) pt va))"

lemma confined_refl: "pt_inv kend xs k pt \<Longrightarrow> confined kend pt xs k xs k"
  by (auto simp: confined_def)

lemma confined_trans:
  assumes "confined kend pt xs k ys k1" "confined kend pt ys k1 zs k2"
  shows "confined kend pt xs k zs k2"
proof -
  have t: "tables (mem k1) pt \<union> set ys \<subseteq> tables (mem k) pt \<union> set xs"
    using assms(1) unfolding confined_def by auto
  have "mem k2 a = mem k a" if "page_aligned q" "q \<notin> tables (mem k) pt \<union> set xs" "in_page q a" for q a
  proof -
    have "mem k1 a = mem k a" using assms(1) that unfolding confined_def by blast
    moreover have "mem k2 a = mem k1 a" using assms(2) that t unfolding confined_def by blast
    ultimately show ?thesis by simp
  qed
  moreover have "tables (mem k2) pt \<subseteq> tables (mem k) pt \<union> set xs"
    using assms(2) t unfolding confined_def by blast
  moreover have "\<exists>us. xs = us @ zs" using assms unfolding confined_def by (metis append.assoc)
  ultimately show ?thesis using assms unfolding confined_def by simp blast
qed

lemma grows_refl: "pt_inv kend xs k pt \<Longrightarrow> grows kend pt xs k xs k"
  by (simp add: grows_def confined_refl)

lemma grows_trans: "grows kend pt xs k ys k1 \<Longrightarrow> grows kend pt ys k1 zs k2 \<Longrightarrow> grows kend pt xs k zs k2"
  using confined_trans by (auto simp: grows_def)

lemma confined_inv: "confined kend pt xs k ys k' \<Longrightarrow> pt_inv kend ys k' pt"
  by (simp add: confined_def)

lemma grows_inv: "grows kend pt xs k ys k' \<Longrightarrow> pt_inv kend ys k' pt"
  unfolding grows_def using confined_inv by blast

lemma hang_frame:
  assumes "page_aligned p" "x < 512" "page_aligned g" "page_aligned q" "q \<noteq> p" "q \<noteq> g" "in_page q a"
  shows "hang p x g m a = m a"
proof -
  have "\<not> in_page g a" using pages_disjoint [OF assms(3,4) _ assms(7)] assms(6) by blast
  then show ?thesis
    using store_slot_frame [OF assms(1,2,4) _ assms(7)] assms(5) by (simp add: hang_def memset_page_other)
qed

text \<open>The allocator's state after \<open>walk\<close> hung a page below \<open>p\<close>.\<close>

definition hang_k :: "u64 \<Rightarrow> u64 \<Rightarrow> kmem \<Rightarrow> kmem" where
  "hang_k p x k = (let (g, k1) = kalloc k in k1\<lparr>mem := hang p x g (mem k)\<rparr>)"

lemma hang_k_inv:
  assumes inv: "kmem_inv kend (g # xs) k" and p: "page_aligned p" "p \<notin> set xs" "x < 512"
  shows "kmem_inv kend xs (hang_k p x k)" "mem (hang_k p x k) = hang p x g (mem k)"
proof -
  obtain g' k1 where k1: "kalloc k = (g', k1)" by fastforce
  note a = kalloc_inv [OF inv k1]
  have g: "page_aligned g" "g \<notin> set xs" using inv by (auto simp: kmem_inv_def page_ok_def)
  have "kmem_inv kend xs (k1\<lparr>mem := hang p x g (mem k)\<rparr>)"
  proof (rule kmem_inv_write [OF a(2)])
    fix y b assume y: "y \<in> set xs" "in_page y b"
    then have "page_aligned y" "y \<noteq> p" "y \<noteq> g" using inv p g by (auto simp: kmem_inv_def page_ok_def)
    moreover have "\<not> in_page g b" using calculation pages_disjoint [OF g(1) _ _ y(2)] by blast
    ultimately show "hang p x g (mem k) b = mem k1 b"
      using hang_frame [OF p(1,3) g(1) _ _ _ y(2)] a(3) by (simp add: memset_page_other)
  qed
  then show "kmem_inv kend xs (hang_k p x k)" "mem (hang_k p x k) = hang p x g (mem k)"
    using k1 a(1) by (simp_all add: hang_k_def)
qed

lemma tablesI:
  "pt \<in> tables m pt" "x < 512 \<Longrightarrow> sub m pt x = Some p \<Longrightarrow> p \<in> tables m pt"
  "x < 512 \<Longrightarrow> y < 512 \<Longrightarrow> tab0 m pt x y = Some p \<Longrightarrow> p \<in> tables m pt"
  by (auto simp: tables_def)

lemma grows_root:
  assumes pt: "pt_inv kend (g # xs) k pt" and x: "x < 512" "sub (mem k) pt x = None"
  shows "grows kend pt (g # xs) k xs (hang_k pt x k)"
proof -
  have inv: "kmem_inv kend (g # xs) k" and wf: "wf_pt kend (set (g # xs)) (mem k) pt"
    using pt by (auto simp: pt_inv_def)
  have g: "page_ok kend g" "g \<in> set (g # xs)" "set (g # xs) - {g} = set xs"
    using inv by (auto simp: kmem_inv_def)
  note h = hang_k_inv [OF inv wf_pt_aligned(1) [OF wf] _ x(1)]
  have p: "pt \<notin> set xs" "page_aligned pt" using wf_ptD(2) [OF wf] wf_pt_aligned(1) [OF wf] by auto
  have "wf_pt kend (set xs) (mem (hang_k pt x k)) pt"
    using wf_hang_root [OF wf x g(2,1)] g(3) h(2) [OF p(1)] by simp
  moreover have "tables (mem (hang_k pt x k)) pt \<subseteq> tables (mem k) pt \<union> set (g # xs)"
    using hang_root [OF wf x g(2) page_ok_aligned [OF g(1)]] h(2) [OF p(1)]
    by (auto simp: tables_def split: if_splits)
  moreover have "mem (hang_k pt x k) a = mem k a"
    if "page_aligned q" "q \<notin> tables (mem k) pt \<union> set (g # xs)" "in_page q a" for q a
    using hang_frame [OF p(2) x(1) page_ok_aligned [OF g(1)] that(1) _ _ that(3)] that(2)
      h(2) [OF p(1)] tablesI(1) [of pt "mem k"] by auto
  ultimately show ?thesis
    using h [OF p(1)] pte_of_hang_root [OF wf x g(2,1)]
    unfolding grows_def confined_def pt_inv_def by auto
qed

lemma grows_mid:
  assumes pt: "pt_inv kend (g # xs) k pt" and x: "x < 512" "sub (mem k) pt x = Some p"
    and y: "y < 512" "sub (mem k) p y = None"
  shows "grows kend pt (g # xs) k xs (hang_k p y k)"
proof -
  have inv: "kmem_inv kend (g # xs) k" and wf: "wf_pt kend (set (g # xs)) (mem k) pt"
    using pt by (auto simp: pt_inv_def)
  have g: "page_ok kend g" "g \<in> set (g # xs)" "set (g # xs) - {g} = set xs"
    using inv by (auto simp: kmem_inv_def)
  have p: "p \<notin> set xs" "page_aligned p" using wf_ptD(3) [OF wf x] wf_pt_aligned(2) [OF wf x] by auto
  note h = hang_k_inv [OF inv p(2) p(1) y(1)]
  have "wf_pt kend (set xs) (mem (hang_k p y k)) pt"
    using wf_hang_mid [OF wf x y g(2,1)] g(3) h(2) by simp
  moreover have "tables (mem (hang_k p y k)) pt \<subseteq> tables (mem k) pt \<union> set (g # xs)"
    using hang_mid [OF wf x y g(2) page_ok_aligned [OF g(1)]] h(2)
    by (auto simp: tables_def split: if_splits)
  moreover have "mem (hang_k p y k) a = mem k a"
    if "page_aligned q" "q \<notin> tables (mem k) pt \<union> set (g # xs)" "in_page q a" for q a
    using hang_frame [OF p(2) y(1) page_ok_aligned [OF g(1)] that(1) _ _ that(3)] that(2)
      h(2) tablesI(2) [OF x] by auto
  ultimately show ?thesis
    using h pte_of_hang_mid [OF wf x y g(2,1)]
    unfolding grows_def confined_def pt_inv_def by auto
qed

lemma walk_from_alloc:
  assumes "kmem_inv kend (g # xs) k" "sub (mem k) p (PX (Suc l) va) = None"
  shows "walk_from (Suc l) p va True k = walk_from l g va True (hang_k p (PX (Suc l) va) k)"
proof -
  have "g \<noteq> 0" using assms(1) by (simp add: kmem_inv_def)
  moreover have "even (load64 (mem k) (pte_addr p (PX (Suc l) va)))"
    using assms(2) by (auto simp: sub_def Let_def split: if_splits)
  ultimately show ?thesis
    using kalloc_cons [OF assms(1)] PTE_V_bit [of "load64 (mem k) (pte_addr p (PX (Suc l) va))"]
    by (simp add: hang_k_def hang_def Let_def)
qed

lemma walk_from_exhausted:
  assumes "kmem_inv kend [] k" "sub (mem k) p (PX (Suc l) va) = None"
  shows "walk_from (Suc l) p va True k = (0, k)"
proof -
  have "even (load64 (mem k) (pte_addr p (PX (Suc l) va)))"
    using assms(2) by (auto simp: sub_def Let_def split: if_splits)
  then show ?thesis
    using kalloc_nil [OF assms(1)] PTE_V_bit [of "load64 (mem k) (pte_addr p (PX (Suc l) va))"]
    by (simp add: Let_def)
qed

lemma walk_from_sub:
  assumes "sub (mem k) p (PX (Suc l) va) = Some q"
  shows "walk_from (Suc l) p va al k = walk_from l q va al k"
  using assms by (auto simp: sub_def Let_def PTE_V_bit split: if_splits)

lemma pte_addr_nonnull:
  assumes "page_ok kend t" "0 < kend" "x < 512"
  shows "pte_addr t x \<noteq> 0"
proof -
  have "0 < unat t" using assms(1,2) by (auto simp: page_ok_def word_le_nat_alt word_less_nat_alt)
  then have "0 < unat (pte_addr t x)" using slot_unat(1) [OF page_ok_aligned [OF assms(1)] assms(3)] by simp
  then show ?thesis by auto
qed

definition walked :: "u64 \<Rightarrow> u64 \<Rightarrow> u64 list \<Rightarrow> kmem \<Rightarrow> u64 \<times> kmem \<Rightarrow> bool" where
  "walked pt va ys k' r = (snd r = k' \<and> (if fst r = 0 then ys = []
     else \<exists>t. tab0 (mem k') pt (PX 2 va) (PX 1 va) = Some t \<and> fst r = pte_addr t (PX 0 va)))"

lemma walked_null: "walked pt va ys k' r \<Longrightarrow> fst r = 0 \<Longrightarrow> ys = []"
  by (simp add: walked_def)

lemma walk_leaf:
  assumes "pt_inv kend xs k pt" "tab0 (mem k) pt (PX 2 va) (PX 1 va) = Some t"
  shows "walked pt va xs k (walk_from 0 t va True k)"
proof -
  have "page_ok kend t" using wf_ptD(4) [OF _ PX_lt PX_lt assms(2)] assms(1) by (auto simp: pt_inv_def)
  then have "pte_addr t (PX 0 va) \<noteq> 0"
    using pte_addr_nonnull assms(1) by (auto simp: pt_inv_def kmem_inv_def)
  with assms(2) show ?thesis by (simp add: walked_def)
qed

declare walk_from.simps(2) [simp del]

lemma walk_mid:
  assumes pt: "pt_inv kend xs k pt" and p: "sub (mem k) pt (PX 2 va) = Some p"
  shows "\<exists>ys k'. grows kend pt xs k ys k' \<and> walked pt va ys k' (walk_from 1 p va True k) \<and>
    length xs \<le> length ys + 1 \<and> (fst (walk_from 1 p va True k) = 0 \<longrightarrow> xs = [])"
proof (cases "sub (mem k) p (PX 1 va)")
  case (Some t)
  then have "tab0 (mem k) pt (PX 2 va) (PX 1 va) = Some t" using p by (simp add: tab0_def)
  then have "walked pt va xs k (walk_from 1 p va True k)"
    using walk_leaf [OF pt] walk_from_sub [of k p 0 va t True] Some by simp
  then show ?thesis using grows_refl [OF pt] using walked_null by (intro exI [of _ xs] exI [of _ k]) auto
next
  case None
  show ?thesis
  proof (cases xs)
    case Nil
    then have "walk_from 1 p va True k = (0, k)"
      using walk_from_exhausted [of kend k p 0 va] None pt by (simp add: pt_inv_def)
    then show ?thesis using grows_refl [OF pt] Nil by (auto simp: walked_def)
  next
    case (Cons g ys)
    let ?k = "hang_k p (PX 1 va) k"
    have inv: "kmem_inv kend (g # ys) k" and wf: "wf_pt kend (set (g # ys)) (mem k) pt"
      using pt Cons by (auto simp: pt_inv_def)
    have gr: "grows kend pt xs k ys ?k"
      using grows_mid [OF _ PX_lt p PX_lt None] pt Cons by simp
    have pa: "page_aligned p" "p \<notin> set ys"
      using wf_ptD(3) [OF wf PX_lt p] wf_pt_aligned(2) [OF wf PX_lt p] by auto
    have ga: "page_aligned g" using inv by (auto simp: kmem_inv_def page_ok_def)
    have "mem ?k = hang p (PX 1 va) g (mem k)" by (rule hang_k_inv(2) [OF inv pa PX_lt])
    then have "tab0 (mem ?k) pt (PX 2 va) (PX 1 va) = Some g"
      using hang_mid(2) [OF wf PX_lt p PX_lt None _ ga, of "PX 2 va" "PX 1 va"] by simp
    then have "walked pt va ys ?k (walk_from 0 g va True ?k)"
      by (rule walk_leaf [OF grows_inv [OF gr]])
    moreover have "walk_from 1 p va True k = walk_from 0 g va True ?k"
      using walk_from_alloc [OF inv, of p 0 va] None by simp
    moreover have "fst (walk_from 0 g va True ?k) \<noteq> 0"
      using pte_addr_nonnull [OF _ _ PX_lt, of kend g] inv by (auto simp: kmem_inv_def)
    ultimately show ?thesis using gr Cons by (intro exI [of _ ys] exI [of _ ?k]) simp
  qed
qed

text \<open>
  \<open>walk\<close> with allocation: it hangs at most the missing tables, changes no mapping, and
  returns the leaf entry's address; it returns a null pointer only when the free list is empty.
\<close>

lemma walk_alloc:
  assumes pt: "pt_inv kend xs k pt"
  shows "\<exists>ys k'. grows kend pt xs k ys k' \<and> walked pt va ys k' (walk_from 2 pt va True k) \<and>
    length xs \<le> length ys + 2 \<and> (fst (walk_from 2 pt va True k) = 0 \<longrightarrow> length xs < 2)"
proof (cases "sub (mem k) pt (PX 2 va)")
  case (Some p)
  then have "walk_from 2 pt va True k = walk_from 1 p va True k"
    using walk_from_sub [of k pt 1 va p True] by (simp add: numeral_2_eq_2)
  then show ?thesis using walk_mid [OF pt Some] by fastforce
next
  case None
  show ?thesis
  proof (cases xs)
    case Nil
    then have "walk_from 2 pt va True k = (0, k)"
      using walk_from_exhausted [of kend k pt 1 va] None pt by (simp add: pt_inv_def numeral_2_eq_2)
    then show ?thesis using grows_refl [OF pt] Nil by (auto simp: walked_def)
  next
    case (Cons g ys)
    let ?k = "hang_k pt (PX 2 va) k"
    have inv: "kmem_inv kend (g # ys) k" and wf: "wf_pt kend (set (g # ys)) (mem k) pt"
      using pt Cons by (auto simp: pt_inv_def)
    have gr: "grows kend pt xs k ys ?k" using grows_root [OF _ PX_lt None] pt Cons by simp
    have ga: "page_aligned g" using inv by (auto simp: kmem_inv_def page_ok_def)
    have "mem ?k = hang pt (PX 2 va) g (mem k)"
      by (rule hang_k_inv(2) [OF inv wf_pt_aligned(1) [OF wf] _ PX_lt]) (use wf_ptD(2) [OF wf] in auto)
    then have "sub (mem ?k) pt (PX 2 va) = Some g"
      using hang_root(1) [OF wf PX_lt None _ ga, of "PX 2 va"] by simp
    then obtain zs k' where z: "grows kend pt ys ?k zs k'" "walked pt va zs k' (walk_from 1 g va True ?k)"
        "length ys \<le> length zs + 1" "fst (walk_from 1 g va True ?k) = 0 \<longrightarrow> ys = []"
      using walk_mid [OF grows_inv [OF gr]] by blast
    moreover have "walk_from 2 pt va True k = walk_from 1 g va True ?k"
      using walk_from_alloc [OF inv, of pt 1 va] None by (simp add: numeral_2_eq_2)
    ultimately show ?thesis using grows_trans [OF gr z(1)] Cons
      by (intro exI [of _ zs] exI [of _ k']) auto
  qed
qed

section \<open>Writing a leaf entry\<close>

definition vpn :: "u64 \<Rightarrow> nat" where
  "vpn va = unat va div PGSIZE"

lemma PX_bit: "bit (PX l va) n = (n < 9 \<and> bit va (12 + 9 * l + n))"
proof -
  have "PX l va = drop_bit (12 + 9 * l) va AND mask 9" by (simp add: PX_def mask_eq_exp_minus_1)
  then show ?thesis by (simp only: bit_and_iff bit_mask_iff bit_drop_bit_eq) auto
qed

lemma vpn_drop_bit: "vpn va = unat (drop_bit 12 va)"
proof -
  have "take_bit 64 (unat va) = unat va" by (rule take_bit_nat_eq_self [OF unat64_lt])
  then have "unat (drop_bit 12 va) = drop_bit 12 (unat va)" by (simp only: unsigned_drop_bit_eq) simp
  then show ?thesis by (simp add: vpn_def drop_bit_eq_div kconst)
qed

lemma MAXVA_bit:
  assumes "va < MAXVA" "38 \<le> n"
  shows "\<not> bit va n"
proof -
  have "unat va < 2 ^ 38" using assms(1) by (simp add: MAXVA_def word_less_nat_alt)
  then have "take_bit 38 va = va" by (simp add: word_unat_eq_iff unsigned_take_bit_eq take_bit_nat_eq_self)
  then show ?thesis using assms(2) by (metis bit_take_bit_iff not_less)
qed

lemma PX_eq_vpn:
  assumes "va < MAXVA" "va' < MAXVA"
  shows "(PX 2 va = PX 2 va' \<and> PX 1 va = PX 1 va' \<and> PX 0 va = PX 0 va') = (vpn va = vpn va')"
proof
  assume eq: "PX 2 va = PX 2 va' \<and> PX 1 va = PX 1 va' \<and> PX 0 va = PX 0 va'"
  have "bit va (12 + n) = bit va' (12 + n)" for n
  proof -
    have l: "bit va (12 + 9 * l + i) = bit va' (12 + 9 * l + i)" if "l < 3" "i < 9" for l i
    proof -
      have "l = 0 \<or> l = 1 \<or> l = 2" using that by auto
      then have "PX l va = PX l va'" using eq by auto
      then have "bit (PX l va) i = bit (PX l va') i" by simp
      then show ?thesis using that by (simp add: PX_bit)
    qed
    show ?thesis
    proof (cases "n < 27")
      case True
      then have "n div 9 < 3" "n mod 9 < 9" by auto
      from l [OF this] show ?thesis by (simp add: add.assoc)
    qed (use MAXVA_bit [OF assms(1)] MAXVA_bit [OF assms(2)] in auto)
  qed
  then have "drop_bit 12 va = drop_bit 12 va'" by (intro bit_word_eqI) (simp add: bit_drop_bit_eq)
  then show "vpn va = vpn va'" by (simp add: vpn_drop_bit)
next
  assume "vpn va = vpn va'"
  then have d: "drop_bit 12 va = drop_bit 12 va'" by (simp add: vpn_drop_bit word_unat_eq_iff)
  have "PX l va = PX l va'" for l
  proof -
    have "drop_bit (12 + 9 * l) va = drop_bit (9 * l) (drop_bit 12 va)"
      "drop_bit (12 + 9 * l) va' = drop_bit (9 * l) (drop_bit 12 va')" by (simp_all add: add.commute)
    then show ?thesis using d by (simp only: PX_def)
  qed
  then show "PX 2 va = PX 2 va' \<and> PX 1 va = PX 1 va' \<and> PX 0 va = PX 0 va'" by simp
qed

lemma leaf_store:
  fixes k v
  assumes pt: "pt_inv kend xs k pt" and t: "tab0 (mem k) pt (PX 2 va) (PX 1 va) = Some t"
  defines "k' \<equiv> k\<lparr>mem := store64 (pte_addr t (PX 0 va)) v (mem k)\<rparr>"
  shows "pt_inv kend xs k' pt"
    and "va < MAXVA \<Longrightarrow> va' < MAXVA \<Longrightarrow>
      pte_of (mem k') pt va' = (if vpn va' = vpn va then v else pte_of (mem k) pt va')"
    and "tables (mem k') pt = tables (mem k) pt"
    and "page_aligned q \<Longrightarrow> q \<noteq> t \<Longrightarrow> in_page q a \<Longrightarrow> mem k' a = mem k a"
proof -
  have inv: "kmem_inv kend xs k" and wf: "wf_pt kend (set xs) (mem k) pt" using pt by (auto simp: pt_inv_def)
  note d = wf_ptD(4) [OF wf PX_lt PX_lt t]
  have ta: "page_aligned t" using wf_pt_aligned(3) [OF wf PX_lt PX_lt t] .
  show frame: "mem k' a = mem k a" if "page_aligned q" "q \<noteq> t" "in_page q a" for q a
    using store_slot_frame [OF ta PX_lt that(1) _ that(3)] that(2) by (auto simp: k'_def)
  have sub: "sub (mem k') p x = sub (mem k) p x" if "page_aligned p" "p \<noteq> t" "x < 512" for p x
    using that by (simp add: k'_def sub_def load_store_slot ta)
  have s1: "sub (mem k') pt x = sub (mem k) pt x" if "x < 512" for x
    using sub [OF wf_pt_aligned(1) [OF wf]] d that by auto
  have s2: "tab0 (mem k') pt x y = tab0 (mem k) pt x y" if "x < 512" "y < 512" for x y
  proof (cases "sub (mem k) pt x")
    case (Some p)
    then have "p \<noteq> t" "page_aligned p" using d that wf_pt_aligned(2) [OF wf that(1) Some] by auto
    then show ?thesis using s1 [OF that(1)] Some sub that by (simp add: tab0_def)
  qed (use s1 [OF that(1)] in \<open>simp add: tab0_def\<close>)
  show "tables (mem k') pt = tables (mem k) pt" using s1 s2 by (auto simp: tables_def)
  have "kmem_inv kend xs k'"
    unfolding k'_def
  proof (rule kmem_inv_write [OF inv])
    fix x a assume x: "x \<in> set xs" "in_page x a"
    then have "x \<noteq> t" "page_aligned x" using d inv by (auto simp: kmem_inv_def page_ok_def)
    then show "store64 (pte_addr t (PX 0 va)) v (mem k) a = mem k a"
      using frame [of x a] x by (simp add: k'_def)
  qed
  moreover have "wf_pt kend (set xs) (mem k') pt" by (rule wf_pt_cong [OF wf s1 s2])
  ultimately show "pt_inv kend xs k' pt" by (simp add: pt_inv_def)
  show "pte_of (mem k') pt va' = (if vpn va' = vpn va then v else pte_of (mem k) pt va')"
    if "va < MAXVA" "va' < MAXVA"
  proof (cases "tab0 (mem k) pt (PX 2 va') (PX 1 va')")
    case None
    then have "vpn va' \<noteq> vpn va" using t PX_eq_vpn [OF that(2,1)] by auto
    then show ?thesis using None s2 by (simp add: pte_of_def)
  next
    case (Some t')
    have "(t' = t) = (PX 2 va' = PX 2 va \<and> PX 1 va' = PX 1 va)"
    proof
      assume "t' = t"
      then have "tab0 (mem k) pt (PX 2 va') (PX 1 va') = Some t" using Some by simp
      from wf_ptD(6) [OF wf PX_lt PX_lt PX_lt PX_lt this t]
      show "PX 2 va' = PX 2 va \<and> PX 1 va' = PX 1 va" .
    qed (use Some t in simp)
    moreover have "page_aligned t'" using wf_pt_aligned(3) [OF wf PX_lt PX_lt Some] .
    ultimately show ?thesis
      using Some s2 PX_eq_vpn [OF that(2,1)] by (auto simp: pte_of_def k'_def load_store_slot ta)
  qed
qed

lemma leaf_store_confined:
  assumes "pt_inv kend xs k pt" "tab0 (mem k) pt (PX 2 va) (PX 1 va) = Some t"
  shows "confined kend pt xs k xs (k\<lparr>mem := store64 (pte_addr t (PX 0 va)) v (mem k)\<rparr>)"
  using leaf_store [OF assms, where v = v] tablesI(3) [OF PX_lt PX_lt assms(2)]
  unfolding confined_def by blast

section \<open>Mapping a range\<close>

lemma vpn_aligned:
  assumes "page_aligned a"
  shows "unat a = PGSIZE * vpn a"
  using assms by (auto simp: page_aligned_def vpn_def)

lemma vpn_MAXVA: "vpn MAXVA = 2 ^ 26"
  by (simp add: vpn_def MAXVA_def kconst)

lemma aligned_below_MAXVA:
  assumes "page_aligned a" "vpn a < vpn MAXVA"
  shows "a < MAXVA"
proof -
  have "unat a < PGSIZE * 2 ^ 26" using vpn_aligned [OF assms(1)] assms(2) by (simp add: vpn_MAXVA)
  then show ?thesis by (simp add: word_less_nat_alt MAXVA_def kconst)
qed

lemma next_page:
  assumes "page_aligned a" "vpn a < vpn MAXVA"
  shows "page_aligned (a + of_nat PGSIZE)" "vpn (a + of_nat PGSIZE) = Suc (vpn a)"
proof -
  have "unat a < 2 ^ 38"
    using aligned_below_MAXVA [OF assms] by (simp add: word_less_nat_alt MAXVA_def)
  then have "unat (a + of_nat PGSIZE) = PGSIZE * Suc (vpn a)"
    using vpn_aligned [OF assms(1)] by (simp add: unat_word_ariths kconst)
  then show "page_aligned (a + of_nat PGSIZE)" "vpn (a + of_nat PGSIZE) = Suc (vpn a)"
    unfolding page_aligned_def vpn_def by simp_all
qed

lemma walked_pte: "tab0 m pt (PX 2 a) (PX 1 a) = Some t \<Longrightarrow> load64 m (pte_addr t (PX 0 a)) = pte_of m pt a"
  by (simp add: pte_of_def)

text \<open>The entries of a table after \<open>j\<close> pages from \<open>a\<close> on were mapped to \<open>pa\<close> and what follows.\<close>

definition mapped_range :: "(u64 \<Rightarrow> pte) \<Rightarrow> u64 \<Rightarrow> u64 \<Rightarrow> u64 \<Rightarrow> nat \<Rightarrow> u64 \<Rightarrow> pte" where
  "mapped_range f a pa perm j va =
     (if vpn a \<le> vpn va \<and> vpn va < vpn a + j
      then PA2PTE (pa + of_nat (PGSIZE * (vpn va - vpn a))) OR perm OR PTE_V else f va)"

lemma mapped_range_0: "mapped_range f a pa perm 0 va = f va"
  by (auto simp: mapped_range_def)

lemma mapped_range_Suc:
  assumes "vpn (a + of_nat PGSIZE) = Suc (vpn a)"
    and "g va = (if vpn va = vpn a then PA2PTE pa OR perm OR PTE_V else f va)"
  shows "mapped_range g (a + of_nat PGSIZE) (pa + of_nat PGSIZE) perm j va = mapped_range f a pa perm (Suc j) va"
proof -
  consider "vpn va < vpn a" | "vpn va = vpn a" | d where "vpn va = Suc (vpn a + d)"
    by (metis less_iff_Suc_add linorder_neqE_nat)
  then show ?thesis
  proof cases
    case 3
    then show ?thesis by (simp add: mapped_range_def assms add.assoc)
  qed (simp_all add: mapped_range_def assms)
qed

lemma mappages_loop_spec:
  assumes "pt_inv kend xs k pt" "page_aligned a" "vpn a + n \<le> vpn MAXVA"
    and "\<And>va. va < MAXVA \<Longrightarrow> vpn a \<le> vpn va \<Longrightarrow> vpn va < vpn a + n \<Longrightarrow> even (pte_of (mem k) pt va)"
  shows "\<exists>j ys k'. mappages_loop n pt a pa perm k = Ok (if j = n then 0 else -1, k') \<and> j \<le> n \<and>
    (j < n \<longrightarrow> ys = [] \<and> length xs < 2 * n) \<and> confined kend pt xs k ys k' \<and>
    (\<forall>va<MAXVA. pte_of (mem k') pt va = mapped_range (pte_of (mem k) pt) a pa perm j va)"
  using assms
proof (induction n arbitrary: xs k a pa)
  case 0
  then show ?case using confined_refl by (force simp: mapped_range_def)
next
  case (Suc n)
  have a: "vpn a < vpn MAXVA" "a < MAXVA" using Suc.prems aligned_below_MAXVA by auto
  note nx = next_page [OF Suc.prems(2) a(1)]
  obtain ys k1 where w: "grows kend pt xs k ys k1" "walked pt a ys k1 (walk_from 2 pt a True k)"
    "length xs \<le> length ys + 2" "fst (walk_from 2 pt a True k) = 0 \<longrightarrow> length xs < 2"
    using walk_alloc [OF Suc.prems(1)] by blast
  have wk: "walk pt a True k = Ok (fst (walk_from 2 pt a True k), k1)"
    using a(2) w(2) by (cases "walk_from 2 pt a True k") (simp add: walk_def walked_def)
  show ?case
  proof (cases "fst (walk_from 2 pt a True k) = 0")
    case True
    then have "ys = []" using w(2) by (simp add: walked_def)
    with True wk w(1,4) show ?thesis
      by (intro exI [of _ 0] exI [of _ "[]"] exI [of _ k1]) (simp add: grows_def mapped_range_0)
  next
    case False
    then obtain t where t: "tab0 (mem k1) pt (PX 2 a) (PX 1 a) = Some t" "fst (walk_from 2 pt a True k) = pte_addr t (PX 0 a)"
      using w(2) by (auto simp: walked_def)
    let ?e = "PA2PTE pa OR perm OR PTE_V"
    let ?k = "k1\<lparr>mem := store64 (pte_addr t (PX 0 a)) ?e (mem k1)\<rparr>"
    have e: "load64 (mem k1) (pte_addr t (PX 0 a)) = pte_of (mem k) pt a"
      using w(1) walked_pte [OF t(1)] by (simp add: grows_def)
    have "even (pte_of (mem k) pt a)" using Suc.prems(4) [OF a(2)] by simp
    then have step: "mappages_loop (Suc n) pt a pa perm k =
        mappages_loop n pt (a + of_nat PGSIZE) (pa + of_nat PGSIZE) perm ?k"
      using wk False t(2) PTE_V_bit [of "pte_of (mem k) pt a"] by (simp add: e)
    have f: "pte_of (mem ?k) pt va = (if vpn va = vpn a then ?e else pte_of (mem k) pt va)" if "va < MAXVA" for va
      using leaf_store(2) [OF grows_inv [OF w(1)] t(1) a(2) that, of ?e] w(1) by (simp add: grows_def)
    have c: "confined kend pt xs k ys ?k"
      using confined_trans leaf_store_confined [OF grows_inv [OF w(1)] t(1)] w(1) grows_def by blast
    have "\<exists>j zs k'. mappages_loop n pt (a + of_nat PGSIZE) (pa + of_nat PGSIZE) perm ?k =
        Ok (if j = n then 0 else -1, k') \<and> j \<le> n \<and> (j < n \<longrightarrow> zs = [] \<and> length ys < 2 * n) \<and> confined kend pt ys ?k zs k' \<and>
        (\<forall>va<MAXVA. pte_of (mem k') pt va =
          mapped_range (pte_of (mem ?k) pt) (a + of_nat PGSIZE) (pa + of_nat PGSIZE) perm j va)"
      by (rule Suc.IH [OF confined_inv [OF c] nx(1)]) (use Suc.prems(3,4) nx f in auto)
    then obtain j zs k' where j: "mappages_loop (Suc n) pt a pa perm k = Ok (if j = n then 0 else -1, k')"
      "j \<le> n" "j < n \<longrightarrow> zs = [] \<and> length ys < 2 * n" "confined kend pt ys ?k zs k'"
      "\<forall>va<MAXVA. pte_of (mem k') pt va =
          mapped_range (pte_of (mem ?k) pt) (a + of_nat PGSIZE) (pa + of_nat PGSIZE) perm j va"
      unfolding step by blast
    have "pte_of (mem k') pt va = mapped_range (pte_of (mem k) pt) a pa perm (Suc j) va" if "va < MAXVA" for va
      using j(5) mapped_range_Suc [OF nx(2), of "pte_of (mem ?k) pt" va pa perm "pte_of (mem k) pt" j, OF f [OF that]] that
      by simp
    then show ?thesis using j(1-3) confined_trans [OF c j(4)] w(3)
      by (intro exI [of _ "Suc j"] exI [of _ zs] exI [of _ k']) auto
  qed
qed

lemma walk_lookup:
  assumes "pt_inv kend xs k pt" "va < MAXVA"
  obtains "walk pt va False k = Ok (0, k)" "pte_of (mem k) pt va = 0"
  | t where "tab0 (mem k) pt (PX 2 va) (PX 1 va) = Some t"
    "walk pt va False k = Ok (pte_addr t (PX 0 va), k)" "pte_addr t (PX 0 va) \<noteq> 0"
    "load64 (mem k) (pte_addr t (PX 0 va)) = pte_of (mem k) pt va"
proof (cases "tab0 (mem k) pt (PX 2 va) (PX 1 va)")
  case None
  then show thesis using that(1) assms(2) by (simp add: walk_def walk_noalloc pte_of_def)
next
  case (Some t)
  then have "page_ok kend t" "0 < kend"
    using wf_ptD(4) [OF _ PX_lt PX_lt Some] assms(1) by (auto simp: pt_inv_def kmem_inv_def)
  then show thesis
    using that(2) [OF Some] pte_addr_nonnull walked_pte [OF Some] assms(2) Some
    by (simp add: walk_def walk_noalloc)
qed

lemma walkaddr_eq:
  assumes "pt_inv kend xs k pt"
  shows "walkaddr pt va k = Ok (if va < MAXVA \<and> pte_of (mem k) pt va AND PTE_V \<noteq> 0 \<and>
    pte_of (mem k) pt va AND PTE_U \<noteq> 0 then PTE2PA (pte_of (mem k) pt va) else 0)"
proof (cases "va < MAXVA")
  case True
  then have ge: "\<not> va \<ge> MAXVA" by simp
  show ?thesis
    by (rule walk_lookup [OF assms True]) (simp_all add: walkaddr_def Let_def ge True)
next
  case False
  then have "va \<ge> MAXVA" by simp
  with False show ?thesis by (auto simp: walkaddr_def)
qed

lemma mappages_eq_loop:
  assumes "page_aligned va" "page_aligned sz" "sz \<noteq> 0"
  shows "mappages pt va sz pa perm k = mappages_loop (vpn sz) pt va pa perm k"
  using assms by (simp add: mappages_def page_aligned_def vpn_def)

lemma aligned_add_pages:
  assumes "page_aligned a"
  shows "page_aligned (a + of_nat (PGSIZE * i))"
proof -
  have e: "PGSIZE dvd (2 :: nat) ^ 64" by (simp add: kconst)
  then have "PGSIZE dvd unat (of_nat (PGSIZE * i) :: u64)"
    by (simp add: unat_of_nat dvd_mod del: of_nat_mult)
  moreover have "PGSIZE dvd unat a" using assms by (auto simp: page_aligned_def)
  ultimately have "PGSIZE dvd unat (a + of_nat (PGSIZE * i))"
    using e by (simp add: unat_word_ariths dvd_mod del: of_nat_mult)
  then show ?thesis by (simp add: page_aligned_def)
qed

lemma small_or:
  assumes "(a :: u64) < 1024" "b < 1024"
  shows "a OR b < 1024"
proof -
  have t: "(f < 1024) = (take_bit 10 f = f)" for f :: u64
    by (simp add: word_less_nat_alt word_unat_eq_iff unsigned_take_bit_eq take_bit_nat_eq_self_iff)
  show ?thesis using assms unfolding t by simp
qed

lemma flag_or: "(p :: u64) AND u \<noteq> 0 \<Longrightarrow> (a OR p OR b) AND u \<noteq> 0"
  by (simp add: bit.conj_disj_distrib2 or_eq_0_iff)

text \<open>Concrete page tables: an empty root, with no and with two free pages.\<close>

lemma sub_zero: "sub (\<lambda>_. 0) p x = None"
  by (simp add: sub_def load64_zero)

lemma pte_of_zero: "pte_of (\<lambda>_. 0) p va = 0"
  by (simp add: pte_of_def tab0_def sub_zero)

lemma pt_inv_zero: "pt_inv 0x80021000 [] \<lparr>mem = (\<lambda>_. 0), freelist = 0\<rparr> 0x80022000"
  by (simp add: pt_inv_def kmem_inv_def wf_pt_def tab0_def sub_zero page_ok_def page_aligned_def PHYSTOP_def kconst)

lemma sub_two: "x < 512 \<Longrightarrow> sub (store64 0x80024000 0x80025000 (\<lambda>_. 0)) 0x80022000 x = None"
  using load_store_slot [of "0x80024000" 0 "0x80022000" x "0x80025000" "\<lambda>_. 0"]
  by (simp add: sub_def page_aligned_def kconst load64_zero pte_addr_def)

lemma pte_of_two: "pte_of (store64 0x80024000 0x80025000 (\<lambda>_. 0)) 0x80022000 va = 0"
  by (simp add: pte_of_def tab0_def sub_two)

lemma pt_inv_two:
  "pt_inv 0x80021000 [0x80024000, 0x80025000]
     \<lparr>mem = store64 0x80024000 0x80025000 (\<lambda>_. 0), freelist = 0x80024000\<rparr> 0x80022000"
proof -
  have "load64 (store64 0x80024000 0x80025000 (\<lambda>_. 0)) 0x80025000 = 0"
    using load_store_slot [of "0x80024000" 0 "0x80025000" 0 "0x80025000" "\<lambda>_. 0"]
    by (simp add: page_aligned_def kconst load64_zero pte_addr_def)
  then have "kmem_inv 0x80021000 [0x80024000, 0x80025000]
     \<lparr>mem = store64 0x80024000 0x80025000 (\<lambda>_. 0), freelist = 0x80024000\<rparr>"
    by (simp add: kmem_inv_def page_ok_def page_aligned_def PHYSTOP_def kconst)
  moreover have "wf_pt 0x80021000 {0x80024000, 0x80025000} (store64 0x80024000 0x80025000 (\<lambda>_. 0)) 0x80022000"
    by (rule wf_ptI) (simp_all add: tab0_def sub_two page_ok_def page_aligned_def PHYSTOP_def kconst)
  ultimately show ?thesis by (simp add: pt_inv_def)
qed

section \<open>Properties of page tables\<close>

text \<open>
  C21. \<open>mappages\<close> on an aligned, unmapped range below \<open>MAXVA\<close> never panics. With two free
  pages for every page to map it returns 0; with fewer it either returns 0 or runs the free
  list dry and returns \<open>-1\<close> with a prefix of the range mapped. In both cases the entries of the
  mapped pages are the requested ones, every other virtual address keeps its entry, the table
  stays well formed, and only table pages and formerly free pages are written.
\<close>

theorem mappages_maps:
  assumes "pt_inv kend xs k pt" "page_aligned va" "page_aligned sz" "sz \<noteq> 0"
    and "vpn va + vpn sz \<le> vpn MAXVA"
    and "\<forall>a<MAXVA. vpn va \<le> vpn a \<and> vpn a < vpn va + vpn sz \<longrightarrow> pte_of (mem k) pt a AND PTE_V = 0"
  shows "\<exists>j ys k'. mappages pt va sz pa perm k = Ok (if j = vpn sz then 0 else -1, k') \<and> j \<le> vpn sz \<and>
    (j < vpn sz \<longrightarrow> ys = [] \<and> length xs < 2 * vpn sz) \<and> confined kend pt xs k ys k' \<and>
    (\<forall>a<MAXVA. pte_of (mem k') pt a = mapped_range (pte_of (mem k) pt) va pa perm j a)"
proof -
  have "even (pte_of (mem k) pt a)" if "a < MAXVA" "vpn va \<le> vpn a" "vpn a < vpn va + vpn sz" for a
    using assms(6) that PTE_V_bit by blast
  then show ?thesis
    unfolding mappages_eq_loop [OF assms(2-4)] by (rule mappages_loop_spec [OF assms(1,2,5)])
qed

theorem mappages_maps_witness:
  "\<exists>k'. mappages 0x80022000 0x1000 0x1000 0x80023000 PTE_R \<lparr>mem = (\<lambda>_. 0), freelist = 0\<rparr> = Ok (-1, k') \<and>
     mem k' = (\<lambda>_. 0)"
proof -
  let ?k = "\<lparr>mem = (\<lambda>_. 0), freelist = 0\<rparr>"
  have "\<exists>j ys k'. mappages 0x80022000 0x1000 0x1000 0x80023000 PTE_R ?k = Ok (if j = vpn 0x1000 then 0 else -1, k') \<and> j \<le> vpn 0x1000 \<and>
    (j < vpn 0x1000 \<longrightarrow> ys = [] \<and> length ([] :: u64 list) < 2 * vpn 0x1000) \<and> confined 0x80021000 0x80022000 [] ?k ys k' \<and>
    (\<forall>a<MAXVA. pte_of (mem k') 0x80022000 a = mapped_range (pte_of (mem ?k) 0x80022000) 0x1000 0x80023000 PTE_R j a)"
    by (rule mappages_maps) (simp_all add: pt_inv_zero page_aligned_def vpn_def MAXVA_def kconst pte_of_zero PTE_V_def)
  then obtain k' r where "mappages 0x80022000 0x1000 0x1000 0x80023000 PTE_R ?k = Ok (r, k')" by blast
  then show ?thesis
    using walk_from_exhausted [of "0x80021000" ?k "0x80022000" 1 "0x1000"] pt_inv_zero
    by (auto simp: mappages_def kconst walk_def MAXVA_def sub_zero pt_inv_def simp flip: numeral_2_eq_2)
qed

text \<open>
  C12. Translation round trip: after \<open>mappages\<close> with a user permission returned 0,
  \<open>walkaddr\<close> maps every address of the range to the corresponding physical page, and every
  other address exactly as before.
\<close>

theorem mappages_walkaddr:
  assumes "pt_inv kend xs k pt" "page_aligned va" "page_aligned sz" "sz \<noteq> 0"
    and "vpn va + vpn sz \<le> vpn MAXVA" "2 * vpn sz \<le> length xs"
    and "\<forall>a<MAXVA. vpn va \<le> vpn a \<and> vpn a < vpn va + vpn sz \<longrightarrow> pte_of (mem k) pt a AND PTE_V = 0"
    and "page_aligned pa" "perm < 1024" "perm AND PTE_U \<noteq> 0"
  shows "\<exists>k'. mappages pt va sz pa perm k = Ok (0, k') \<and> (\<forall>a. walkaddr pt a k' =
    (if a < MAXVA \<and> vpn va \<le> vpn a \<and> vpn a < vpn va + vpn sz
     then Ok (pa + of_nat (PGSIZE * (vpn a - vpn va))) else walkaddr pt a k))"
proof -
  have un: "even (pte_of (mem k) pt a)" if "a < MAXVA" "vpn va \<le> vpn a" "vpn a < vpn va + vpn sz" for a
    using assms(7) that PTE_V_bit by blast
  have "\<exists>j ys k'. mappages_loop (vpn sz) pt va pa perm k = Ok (if j = vpn sz then 0 else -1, k') \<and> j \<le> vpn sz \<and>
    (j < vpn sz \<longrightarrow> ys = [] \<and> length xs < 2 * vpn sz) \<and> confined kend pt xs k ys k' \<and>
    (\<forall>a<MAXVA. pte_of (mem k') pt a = mapped_range (pte_of (mem k) pt) va pa perm j a)"
    by (rule mappages_loop_spec [OF assms(1,2,5) un])
  then obtain ys k' where k': "mappages_loop (vpn sz) pt va pa perm k = Ok (0, k')" "confined kend pt xs k ys k'"
      "\<And>a. a < MAXVA \<Longrightarrow> pte_of (mem k') pt a = mapped_range (pte_of (mem k) pt) va pa perm (vpn sz) a"
    using assms(6) by fastforce
  have w: "walkaddr pt a k' = Ok (pa + of_nat (PGSIZE * (vpn a - vpn va)))"
    if "a < MAXVA" "vpn va \<le> vpn a" "vpn a < vpn va + vpn sz" for a
  proof -
    define g where "g = pa + of_nat (PGSIZE * (vpn a - vpn va))"
    have e: "pte_of (mem k') pt a = PA2PTE g OR perm OR PTE_V"
      using k'(3) [OF that(1)] that by (simp add: mapped_range_def g_def)
    have "PTE2PA (PA2PTE g OR perm OR PTE_V) = g"
      using PTE2PA_PA2PTE [of g "perm OR PTE_V"] aligned_add_pages [OF assms(8)] small_or [OF assms(9)]
      by (simp add: or.assoc PTE_V_def g_def)
    then show ?thesis
      using walkaddr_eq [OF confined_inv [OF k'(2)], of a] that(1) flag_or [OF assms(10)]
      unfolding e g_def [symmetric] by (simp add: PTE_V_bit)
  qed
  have "walkaddr pt a k' = walkaddr pt a k" if "\<not> (a < MAXVA \<and> vpn va \<le> vpn a \<and> vpn a < vpn va + vpn sz)" for a
    using walkaddr_eq [OF confined_inv [OF k'(2)], of a] walkaddr_eq [OF assms(1), of a] k'(3) [of a] that
    by (auto simp: mapped_range_def)
  then have "\<forall>a. walkaddr pt a k' = (if a < MAXVA \<and> vpn va \<le> vpn a \<and> vpn a < vpn va + vpn sz
     then Ok (pa + of_nat (PGSIZE * (vpn a - vpn va))) else walkaddr pt a k)"
    using w by simp
  then show ?thesis using k'(1) unfolding mappages_eq_loop [OF assms(2-4)] by blast
qed

theorem mappages_walkaddr_witness:
  "\<exists>k'. mappages 0x80022000 0x1000 0x1000 0x80023000 (PTE_R OR PTE_U) 
     \<lparr>mem = store64 0x80024000 0x80025000 (\<lambda>_. 0), freelist = 0x80024000\<rparr> = Ok (0, k') \<and>
     walkaddr 0x80022000 0x1234 k' = Ok 0x80023000"
proof -
  let ?k = "\<lparr>mem = store64 0x80024000 0x80025000 (\<lambda>_. 0), freelist = 0x80024000\<rparr>"
  have "\<exists>k'. mappages 0x80022000 0x1000 0x1000 0x80023000 (PTE_R OR PTE_U) ?k = Ok (0, k') \<and>
    (\<forall>a. walkaddr 0x80022000 a k' = (if a < MAXVA \<and> vpn 0x1000 \<le> vpn a \<and> vpn a < vpn 0x1000 + vpn 0x1000
     then Ok (0x80023000 + of_nat (PGSIZE * (vpn a - vpn 0x1000))) else walkaddr 0x80022000 a ?k))"
    by (rule mappages_walkaddr [OF pt_inv_two])
      (simp_all add: page_aligned_def vpn_def MAXVA_def kconst pte_of_two PTE_R_def PTE_U_def)
  then obtain k' where k': "mappages 0x80022000 0x1000 0x1000 0x80023000 (PTE_R OR PTE_U) ?k = Ok (0, k')"
    "walkaddr 0x80022000 0x1234 k' = (if 0x1234 < MAXVA \<and> vpn 0x1000 \<le> vpn 0x1234 \<and> vpn 0x1234 < vpn 0x1000 + vpn 0x1000
     then Ok (0x80023000 + of_nat (PGSIZE * (vpn 0x1234 - vpn 0x1000))) else walkaddr 0x80022000 0x1234 ?k)" by blast
  then show ?thesis by (simp add: MAXVA_def vpn_def kconst)
qed

lemma walk_alloc_present:
  assumes "pt_inv kend xs k pt" "va < MAXVA" "tab0 (mem k) pt (PX 2 va) (PX 1 va) = Some t"
  shows "walk pt va True k = Ok (pte_addr t (PX 0 va), k)"
proof -
  obtain p where p: "sub (mem k) pt (PX (Suc 1) va) = Some p" "sub (mem k) p (PX (Suc 0) va) = Some t"
    using assms(3) by (auto simp: tab0_def numeral_2_eq_2 split: option.splits)
  then have "walk_from 2 pt va True k = walk_from 0 t va True k"
    using walk_from_sub [OF p(1), of True] walk_from_sub [OF p(2), of True] by (simp add: numeral_2_eq_2)
  then show ?thesis using assms(2) by (simp add: walk_def)
qed

text \<open>
  \<open>mappages\<close> refuses what would corrupt a table: a misaligned address or size, an empty
  range, an address at or beyond \<open>MAXVA\<close> and a page that is already mapped all panic, whatever
  the rest of the range.
\<close>

theorem mappages_panics:
  assumes "pt_inv kend xs k pt"
  shows "mappages pt va sz pa perm k =
    (if \<not> page_aligned va then Panic ''mappages: va not aligned''
     else if \<not> page_aligned sz then Panic ''mappages: size not aligned''
     else if sz = 0 then Panic ''mappages: size''
     else if va \<ge> MAXVA then Panic ''walk''
     else if pte_of (mem k) pt va AND PTE_V \<noteq> 0 then Panic ''mappages: remap''
     else mappages_loop (vpn sz) pt va pa perm k)"
proof (cases "page_aligned va \<and> page_aligned sz \<and> sz \<noteq> 0")
  case True
  then have eq: "mappages pt va sz pa perm k = mappages_loop (vpn sz) pt va pa perm k"
    by (simp add: mappages_eq_loop)
  have "vpn sz \<noteq> 0" using True vpn_aligned [of sz] by (auto simp: word_unat_eq_iff)
  then obtain n where n: "vpn sz = Suc n" by (cases "vpn sz") auto
  consider "va \<ge> MAXVA" | "va < MAXVA" "even (pte_of (mem k) pt va)"
    | t where "va < MAXVA" "odd (pte_of (mem k) pt va)" "tab0 (mem k) pt (PX 2 va) (PX 1 va) = Some t"
    using pte_of_def by (cases "tab0 (mem k) pt (PX 2 va) (PX 1 va)") (force simp: pte_of_def)+
  then show ?thesis
  proof cases
    case 3
    then have "page_ok kend t" using wf_ptD(4) [OF _ PX_lt PX_lt] assms by (auto simp: pt_inv_def)
    then have "pte_addr t (PX 0 va) \<noteq> 0" using pte_addr_nonnull assms by (auto simp: pt_inv_def kmem_inv_def)
    then have "mappages_loop (vpn sz) pt va pa perm k = Panic ''mappages: remap''"
      using walk_alloc_present [OF assms 3(1,3)] walked_pte [OF 3(3)] 3(2) by (simp add: n PTE_V_bit)
    then show ?thesis using True 3 eq by (auto simp: PTE_V_bit)
  qed (use True eq in \<open>auto simp: PTE_V_bit n walk_def\<close>)
qed (auto simp: mappages_def page_aligned_def)

theorem mappages_panics_witness:
  "mappages 0x80022000 0x1008 0x1000 0x80023000 PTE_R \<lparr>mem = (\<lambda>_. 0), freelist = 0\<rparr> =
     Panic ''mappages: va not aligned'' \<and>
   mappages 0x80022000 MAXVA 0x1000 0x80023000 PTE_R \<lparr>mem = (\<lambda>_. 0), freelist = 0\<rparr> = Panic ''walk''"
  using mappages_panics [OF pt_inv_zero, of "0x1008" "0x1000" "0x80023000" PTE_R]
    mappages_panics [OF pt_inv_zero, of MAXVA "0x1000" "0x80023000" PTE_R]
  by (simp add: page_aligned_def MAXVA_def kconst)

end
