(* ===== verification/Raid.thy ===== *)
theory Raid
  imports Prelude
begin

text \<open>
  The simulated RAID layer under the swap device, \<^verbatim>\<open>kernel/raid.c\<close>: four simulated disks,
  the three layouts (striping, mirroring, rotating parity), failure injection, and the page
  transfers \<open>raid_read\<close>, \<open>raid_write\<close> and \<open>raid_copy\<close>. Every operation runs under
  \<open>raid_lock\<close> and is one atomic step here.
\<close>

section \<open>State\<close>

definition NUM_DISKS :: nat where "NUM_DISKS = 4"
definition DISK_BLOCKS :: nat where "DISK_BLOCKS = 512"
definition BLOCKS_PER_PAGE :: nat where "BLOCKS_PER_PAGE = 4"
definition DATA_DISKS :: nat where "DATA_DISKS = 3"

declare NUM_DISKS_def [kconst] DISK_BLOCKS_def [kconst] BLOCKS_PER_PAGE_def [kconst]
  DATA_DISKS_def [kconst]

record raid_state =
  sim_disk :: "nat \<Rightarrow> nat \<Rightarrow> byte list"
  disk_failed :: "nat \<Rightarrow> bool"
  raid_mode :: int
  raid_copy_buf :: "byte list"

section \<open>Physical blocks\<close>

definition phys_write_block :: "int \<Rightarrow> u32 \<Rightarrow> byte list \<Rightarrow> raid_state \<Rightarrow> raid_state result" where
  "phys_write_block disk_id blk src st =
     (if disk_id < 0 \<or> disk_id \<ge> int NUM_DISKS then Panic ''raid: phys_write bad disk''
      else if unat blk \<ge> DISK_BLOCKS then Panic ''raid: phys_write block out of range''
      else if disk_failed st (nat disk_id) then Ok st
      else Ok (st\<lparr>sim_disk := (sim_disk st)(nat disk_id :=
                    (sim_disk st (nat disk_id))(unat blk := take BSIZE src))\<rparr>))"

text \<open>A return of \<open>-1\<close> (failed disk) is \<open>None\<close>; a return of \<open>0\<close> is the block copied to \<open>dst\<close>.\<close>

definition phys_read_block :: "int \<Rightarrow> u32 \<Rightarrow> raid_state \<Rightarrow> byte list option result" where
  "phys_read_block disk_id blk st =
     (if disk_id < 0 \<or> disk_id \<ge> int NUM_DISKS then Panic ''raid: phys_read bad disk''
      else if unat blk \<ge> DISK_BLOCKS then Panic ''raid: phys_read block out of range''
      else if disk_failed st (nat disk_id) then Ok None
      else Ok (Some (sim_disk st (nat disk_id) (unat blk))))"

definition xor_block :: "byte list \<Rightarrow> byte list \<Rightarrow> byte list" where
  "xor_block dst src = map (\<lambda>i. dst ! i XOR src ! i) [0..<BSIZE]"

section \<open>RAID-0 and RAID-1\<close>

definition raid0_write :: "u32 \<Rightarrow> byte list \<Rightarrow> raid_state \<Rightarrow> raid_state result" where
  "raid0_write lb src st =
     phys_write_block (uint (lb mod of_nat NUM_DISKS)) (lb div of_nat NUM_DISKS) src st"

definition raid0_read :: "u32 \<Rightarrow> raid_state \<Rightarrow> byte list result" where
  "raid0_read lb st =
     bindR (phys_read_block (uint (lb mod of_nat NUM_DISKS)) (lb div of_nat NUM_DISKS) st)
       (\<lambda>r. case r of Some b \<Rightarrow> Ok b | None \<Rightarrow> Panic ''raid0: disk failed'')"

definition raid1_write :: "u32 \<Rightarrow> byte list \<Rightarrow> raid_state \<Rightarrow> raid_state result" where
  "raid1_write lb src st = bindR (phys_write_block 0 lb src st) (phys_write_block 1 lb src)"

definition raid1_read :: "u32 \<Rightarrow> raid_state \<Rightarrow> byte list result" where
  "raid1_read lb st =
     bindR (phys_read_block 0 lb st) (\<lambda>r0. case r0 of Some b \<Rightarrow> Ok b | None \<Rightarrow>
     bindR (phys_read_block 1 lb st) (\<lambda>r1. case r1 of Some b \<Rightarrow> Ok b | None \<Rightarrow>
       Panic ''raid1: both mirrors failed''))"

section \<open>RAID-5\<close>

definition raid5_parity_disk :: "u32 \<Rightarrow> int" where
  "raid5_parity_disk stripe = uint (stripe mod of_nat NUM_DISKS)"

definition raid5_data_disk :: "u32 \<Rightarrow> int \<Rightarrow> int" where
  "raid5_data_disk stripe d = (raid5_parity_disk stripe + 1 + d) mod int NUM_DISKS"

text \<open>The parity loop of \<open>raid5_write\<close>: blocks of failed disks are left out.\<close>

fun raid5_parity :: "u32 \<Rightarrow> raid_state \<Rightarrow> int list \<Rightarrow> byte list \<Rightarrow> byte list result" where
  "raid5_parity stripe st [] parity = Ok parity"
| "raid5_parity stripe st (d # ds) parity =
     bindR (phys_read_block (raid5_data_disk stripe d) stripe st)
       (\<lambda>r. case r of Some tmp \<Rightarrow> raid5_parity stripe st ds (xor_block parity tmp)
                    | None \<Rightarrow> raid5_parity stripe st ds parity)"

definition raid5_write :: "u32 \<Rightarrow> byte list \<Rightarrow> raid_state \<Rightarrow> raid_state result" where
  "raid5_write lb src st =
     (let stripe = lb div of_nat DATA_DISKS;
          data_idx = uint (lb mod of_nat DATA_DISKS);
          this_d = raid5_data_disk stripe data_idx;
          par_d = raid5_parity_disk stripe
      in bindR (phys_write_block this_d stripe src st) (\<lambda>st1.
         bindR (raid5_parity stripe st1 [0, 1, 2] (replicate BSIZE 0)) (\<lambda>parity.
           phys_write_block par_d stripe parity st1)))"

text \<open>The reconstruction loop of \<open>raid5_read\<close>: all data disks of the stripe but \<open>this_d\<close>.\<close>

fun raid5_rebuild :: "u32 \<Rightarrow> int \<Rightarrow> raid_state \<Rightarrow> int list \<Rightarrow> byte list \<Rightarrow> byte list result" where
  "raid5_rebuild stripe this_d st [] rec = Ok rec"
| "raid5_rebuild stripe this_d st (d # ds) rec =
     (let disk = raid5_data_disk stripe d
      in if disk = this_d then raid5_rebuild stripe this_d st ds rec
         else bindR (phys_read_block disk stripe st)
           (\<lambda>r. case r of None \<Rightarrow> Panic ''raid5: two disks failed''
                        | Some tmp \<Rightarrow> raid5_rebuild stripe this_d st ds (xor_block rec tmp)))"

definition raid5_read :: "u32 \<Rightarrow> raid_state \<Rightarrow> byte list result" where
  "raid5_read lb st =
     (let stripe = lb div of_nat DATA_DISKS;
          data_idx = uint (lb mod of_nat DATA_DISKS);
          this_d = raid5_data_disk stripe data_idx;
          par_d = raid5_parity_disk stripe
      in bindR (phys_read_block this_d stripe st) (\<lambda>r. case r of Some b \<Rightarrow> Ok b | None \<Rightarrow>
         bindR (raid5_rebuild stripe this_d st [0, 1, 2] (replicate BSIZE 0)) (\<lambda>rec.
         bindR (phys_read_block par_d stripe st) (\<lambda>p. case p of
             None \<Rightarrow> Panic ''raid5: parity disk also failed''
           | Some ptmp \<Rightarrow> Ok (xor_block rec ptmp)))))"

section \<open>Control operations\<close>

definition raid_init :: "raid_state \<Rightarrow> raid_state" where
  "raid_init st = st\<lparr>raid_mode := 0,
     disk_failed := (\<lambda>d. if d < NUM_DISKS then False else disk_failed st d),
     sim_disk := (\<lambda>d b. replicate BSIZE 0)\<rparr>"

definition raid_setmode :: "int \<Rightarrow> raid_state \<Rightarrow> raid_state result" where
  "raid_setmode mode st =
     (if mode \<noteq> 0 \<and> mode \<noteq> 1 \<and> mode \<noteq> 5 then Panic ''raid_setmode: invalid mode''
      else Ok (st\<lparr>raid_mode := mode\<rparr>))"

definition raid_getmode :: "raid_state \<Rightarrow> int" where
  "raid_getmode st = raid_mode st"

definition raid_fail_disk :: "int \<Rightarrow> raid_state \<Rightarrow> raid_state result" where
  "raid_fail_disk d st =
     (if d < 0 \<or> d \<ge> int NUM_DISKS then Panic ''raid_fail_disk''
      else Ok (st\<lparr>disk_failed := (disk_failed st)(nat d := True)\<rparr>))"

definition raid_restore_disk :: "int \<Rightarrow> raid_state \<Rightarrow> raid_state result" where
  "raid_restore_disk d st =
     (if d < 0 \<or> d \<ge> int NUM_DISKS then Panic ''raid_restore_disk''
      else Ok (st\<lparr>disk_failed := (disk_failed st)(nat d := False)\<rparr>))"

section \<open>Page transfers\<close>

text \<open>The \<^verbatim>\<open>switch(raid_mode)\<close> inside the three transfer loops.\<close>

definition raid_block_write :: "string \<Rightarrow> u32 \<Rightarrow> byte list \<Rightarrow> raid_state \<Rightarrow> raid_state result" where
  "raid_block_write msg lb s st =
     (if raid_mode st = 0 then raid0_write lb s st
      else if raid_mode st = 1 then raid1_write lb s st
      else if raid_mode st = 5 then raid5_write lb s st
      else Panic msg)"

definition raid_block_read :: "string \<Rightarrow> u32 \<Rightarrow> raid_state \<Rightarrow> byte list result" where
  "raid_block_read msg lb st =
     (if raid_mode st = 0 then raid0_read lb st
      else if raid_mode st = 1 then raid1_read lb st
      else if raid_mode st = 5 then raid5_read lb st
      else Panic msg)"

text \<open>
  The loops over the blocks of one page. The reading loop fills its destination buffer from
  the front, one block after the other.
\<close>

definition write_page :: "(u32 \<Rightarrow> byte list \<Rightarrow> 's \<Rightarrow> 's result) \<Rightarrow> u32 \<Rightarrow> byte list \<Rightarrow> 's \<Rightarrow> 's result" where
  "write_page wr lblock src st =
     forR (\<lambda>i. wr (lblock + of_nat i) (chunk BSIZE src i)) [0..<BLOCKS_PER_PAGE] st"

definition read_page :: "(u32 \<Rightarrow> 's \<Rightarrow> byte list result) \<Rightarrow> u32 \<Rightarrow> 's \<Rightarrow> byte list result" where
  "read_page rd lblock st =
     forR (\<lambda>i dst. bindR (rd (lblock + of_nat i) st) (\<lambda>b. Ok (dst @ b))) [0..<BLOCKS_PER_PAGE] []"

definition raid_write :: "u32 \<Rightarrow> byte list \<Rightarrow> raid_state \<Rightarrow> raid_state result" where
  "raid_write lblock src st = write_page (raid_block_write ''raid_write: bad mode'') lblock src st"

definition raid_read :: "u32 \<Rightarrow> raid_state \<Rightarrow> byte list result" where
  "raid_read lblock st = read_page (raid_block_read ''raid_read: bad mode'') lblock st"

definition raid_copy :: "u32 \<Rightarrow> u32 \<Rightarrow> raid_state \<Rightarrow> raid_state result" where
  "raid_copy src_lblock dst_lblock st =
     bindR (read_page (raid_block_read ''raid_copy: bad mode'') src_lblock st) (\<lambda>buf.
       write_page (raid_block_write ''raid_copy: bad mode'') dst_lblock buf
         (st\<lparr>raid_copy_buf := buf\<rparr>))"

section \<open>Block devices\<close>

text \<open>
  What the swap layer needs of the RAID layer: in a good state every valid block can be read
  and written, a block reads back as written, and no other block changes. The page transfer
  lemmas follow from these laws alone and are proved once.
\<close>

locale block_device =
  fixes rd :: "u32 \<Rightarrow> 's \<Rightarrow> byte list result"
    and wr :: "u32 \<Rightarrow> byte list \<Rightarrow> 's \<Rightarrow> 's result"
    and good :: "'s \<Rightarrow> bool"
    and valid :: "u32 \<Rightarrow> bool"
  assumes wr_total: "good s \<Longrightarrow> valid lb \<Longrightarrow> length b = BSIZE \<Longrightarrow> \<exists>s'. wr lb b s = Ok s'"
    and wr_good: "good s \<Longrightarrow> valid lb \<Longrightarrow> length b = BSIZE \<Longrightarrow> wr lb b s = Ok s' \<Longrightarrow> good s'"
    and rd_wr_same: "good s \<Longrightarrow> valid lb \<Longrightarrow> length b = BSIZE \<Longrightarrow> wr lb b s = Ok s' \<Longrightarrow>
      rd lb s' = Ok b"
    and rd_wr_other: "good s \<Longrightarrow> valid lb \<Longrightarrow> length b = BSIZE \<Longrightarrow> wr lb b s = Ok s' \<Longrightarrow>
      valid lb' \<Longrightarrow> lb' \<noteq> lb \<Longrightarrow> rd lb' s' = rd lb' s"
    and rd_total: "good s \<Longrightarrow> valid lb \<Longrightarrow> \<exists>b. rd lb s = Ok b \<and> length b = BSIZE"
begin

lemma write_blocks:
  assumes "good s" and "\<And>i. i < n \<Longrightarrow> valid (l + of_nat i)" and "n < 2 ^ 32"
    and "\<And>i. i < n \<Longrightarrow> length (chunk BSIZE src i) = BSIZE"
  shows "\<exists>s'. forR (\<lambda>i. wr (l + of_nat i) (chunk BSIZE src i)) [0..<n] s = Ok s' \<and> good s' \<and>
    (\<forall>i<n. rd (l + of_nat i) s' = Ok (chunk BSIZE src i)) \<and>
    (\<forall>lb. valid lb \<longrightarrow> (\<forall>i<n. lb \<noteq> l + of_nat i) \<longrightarrow> rd lb s' = rd lb s)"
  using assms
proof (induction n)
  case (Suc n)
  then obtain s1 where s1: "forR (\<lambda>i. wr (l + of_nat i) (chunk BSIZE src i)) [0..<n] s = Ok s1"
      "good s1" "\<forall>i<n. rd (l + of_nat i) s1 = Ok (chunk BSIZE src i)"
      "\<forall>lb. valid lb \<longrightarrow> (\<forall>i<n. lb \<noteq> l + of_nat i) \<longrightarrow> rd lb s1 = rd lb s"
    by auto
  have v: "valid (l + of_nat n)" and len: "length (chunk BSIZE src n) = BSIZE"
    using Suc.prems by auto
  then obtain s2 where s2: "wr (l + of_nat n) (chunk BSIZE src n) s1 = Ok s2"
    using wr_total s1(2) by blast
  have neq: "l + of_nat i \<noteq> l + of_nat n" if "i < n" for i
  proof
    assume "l + of_nat i = l + of_nat n"
    then have "(of_nat i :: u32) = of_nat n" by simp
    then show False
      using that Suc.prems(3) by (simp add: of_nat_inverse word_unat_eq_iff unat_of_nat)
  qed
  have run: "forR (\<lambda>i. wr (l + of_nat i) (chunk BSIZE src i)) [0..<Suc n] s = Ok s2"
    using s1(1) s2 by (simp add: forR_append)
  have rds: "rd (l + of_nat i) s2 = Ok (chunk BSIZE src i)" if "i < Suc n" for i
  proof (cases "i = n")
    case True
    then show ?thesis using rd_wr_same [OF s1(2) v len s2] by simp
  next
    case False
    with that have "i < n" by simp
    then show ?thesis
      using rd_wr_other [OF s1(2) v len s2, of "l + of_nat i"] neq [of i] s1(3) Suc.prems(2) by auto
  qed
  have frame: "rd lb s2 = rd lb s" if "valid lb" "\<forall>i<Suc n. lb \<noteq> l + of_nat i" for lb
    using rd_wr_other [OF s1(2) v len s2, of lb] s1(4) that by auto
  have "good s2" using wr_good [OF s1(2) v len s2] .
  with run rds frame show ?case by blast
qed auto

lemma read_blocks:
  assumes "\<And>i. i < n \<Longrightarrow> rd (l + of_nat i) s = Ok (B i)"
  shows "forR (\<lambda>i dst. bindR (rd (l + of_nat i) s) (\<lambda>b. Ok (dst @ b))) [0..<n] acc
    = Ok (acc @ concat (map B [0..<n]))"
  using assms by (induction n) (auto simp: forR_append)

lemma write_page_ok:
  assumes "good s" and "\<And>i. i < BLOCKS_PER_PAGE \<Longrightarrow> valid (l + of_nat i)"
    and "length src = PGSIZE"
  obtains s' where "write_page wr l src s = Ok s'" and "good s'"
    and "read_page rd l s' = Ok src"
    and "\<And>lb. valid lb \<Longrightarrow> (\<And>i. i < BLOCKS_PER_PAGE \<Longrightarrow> lb \<noteq> l + of_nat i) \<Longrightarrow> rd lb s' = rd lb s"
proof -
  have len: "length (chunk BSIZE src i) = BSIZE" if "i < BLOCKS_PER_PAGE" for i
    by (rule length_chunk [OF _ that]) (simp add: assms(3) kconst)
  have "BLOCKS_PER_PAGE < 2 ^ 32" by (simp add: kconst)
  then obtain s' where s': "write_page wr l src s = Ok s'" "good s'"
      "\<forall>i<BLOCKS_PER_PAGE. rd (l + of_nat i) s' = Ok (chunk BSIZE src i)"
      "\<forall>lb. valid lb \<longrightarrow> (\<forall>i<BLOCKS_PER_PAGE. lb \<noteq> l + of_nat i) \<longrightarrow> rd lb s' = rd lb s"
    using write_blocks [OF assms(1) assms(2) _ len] unfolding write_page_def by blast
  have "read_page rd l s' = Ok (concat (map (chunk BSIZE src) [0..<BLOCKS_PER_PAGE]))"
    unfolding read_page_def using read_blocks [of BLOCKS_PER_PAGE l s' "chunk BSIZE src" "[]"] s'(3)
    by simp
  then have "read_page rd l s' = Ok src"
    by (simp add: concat_chunks assms(3) kconst)
  with s' that show thesis by blast
qed

lemma read_page_cong:
  assumes "\<And>i. i < BLOCKS_PER_PAGE \<Longrightarrow> rd (l + of_nat i) s' = rd (l + of_nat i) s"
  shows "read_page rd l s' = read_page rd l s"
  unfolding read_page_def by (rule forR_cong) (auto simp: assms)

lemma read_page_total:
  assumes "good s" and "\<And>i. i < BLOCKS_PER_PAGE \<Longrightarrow> valid (l + of_nat i)"
  shows "\<exists>p. read_page rd l s = Ok p \<and> length p = PGSIZE"
proof -
  define B where "B i = (SOME b. rd (l + of_nat i) s = Ok b \<and> length b = BSIZE)" for i :: nat
  have B: "rd (l + of_nat i) s = Ok (B i) \<and> length (B i) = BSIZE" if "i < BLOCKS_PER_PAGE" for i
    unfolding B_def using rd_total [OF assms(1) assms(2) [OF that]] by (rule someI_ex)
  have "read_page rd l s = Ok (concat (map B [0..<BLOCKS_PER_PAGE]))"
    unfolding read_page_def using read_blocks [of BLOCKS_PER_PAGE l s B "[]"] B by simp
  moreover have "length (concat (map B [0..<BLOCKS_PER_PAGE])) = PGSIZE"
  proof -
    have "length (concat (map B [0..<n])) = n * BSIZE" if "n \<le> BLOCKS_PER_PAGE" for n
      using that B by (induction n) auto
    then show ?thesis by (simp add: kconst)
  qed
  ultimately show ?thesis by blast
qed

end

section \<open>Physical block lemmas\<close>

definition blocks_wf :: "raid_state \<Rightarrow> bool" where
  "blocks_wf st = (\<forall>d<NUM_DISKS. \<forall>b<DISK_BLOCKS. length (sim_disk st d b) = BSIZE)"

definition all_healthy :: "raid_state \<Rightarrow> bool" where
  "all_healthy st = (\<forall>d<NUM_DISKS. \<not> disk_failed st d)"

definition put_block :: "nat \<Rightarrow> nat \<Rightarrow> byte list \<Rightarrow> raid_state \<Rightarrow> raid_state" where
  "put_block d b src st = st\<lparr>sim_disk := (sim_disk st)(d := (sim_disk st d)(b := src))\<rparr>"

lemma put_block_simps [simp]:
  "sim_disk (put_block d b src st) d' b' = (if d' = d \<and> b' = b then src else sim_disk st d' b')"
  "disk_failed (put_block d b src st) = disk_failed st"
  "raid_mode (put_block d b src st) = raid_mode st"
  by (auto simp: put_block_def)

lemma phys_write_block_ok:
  "0 \<le> d \<Longrightarrow> d < int NUM_DISKS \<Longrightarrow> unat blk < DISK_BLOCKS \<Longrightarrow> length src = BSIZE \<Longrightarrow>
    phys_write_block d blk src st =
      Ok (if disk_failed st (nat d) then st else put_block (nat d) (unat blk) src st)"
  by (simp add: phys_write_block_def put_block_def)

lemma phys_read_block_ok:
  "0 \<le> d \<Longrightarrow> d < int NUM_DISKS \<Longrightarrow> unat blk < DISK_BLOCKS \<Longrightarrow>
    phys_read_block d blk st =
      Ok (if disk_failed st (nat d) then None else Some (sim_disk st (nat d) (unat blk)))"
  by (simp add: phys_read_block_def)

lemma blocks_wf_put:
  "blocks_wf st \<Longrightarrow> length src = BSIZE \<Longrightarrow> blocks_wf (put_block d b src st)"
  by (simp add: blocks_wf_def)

lemma blocks_wfD: "blocks_wf st \<Longrightarrow> d < NUM_DISKS \<Longrightarrow> b < DISK_BLOCKS \<Longrightarrow> length (sim_disk st d b) = BSIZE"
  by (simp add: blocks_wf_def)

lemma all_healthy_put [simp]: "all_healthy (put_block d b src st) = all_healthy st"
  by (simp add: all_healthy_def)

lemma all_healthyD: "all_healthy st \<Longrightarrow> d < NUM_DISKS \<Longrightarrow> \<not> disk_failed st d"
  by (simp add: all_healthy_def)

lemma length_xor_block [simp]: "length (xor_block a b) = BSIZE"
  by (simp add: xor_block_def)

lemma nth_xor_block [simp]: "i < BSIZE \<Longrightarrow> xor_block a b ! i = a ! i XOR b ! i"
  by (simp add: xor_block_def)

subsection \<open>Striping and mirroring are block devices\<close>

lemma raid0_addr:
  fixes lb :: u32
  shows "uint (lb mod of_nat NUM_DISKS) = int (unat lb mod 4)"
    and "unat (lb div of_nat NUM_DISKS) = unat lb div 4"
  by (simp_all add: kconst uint_mod unat_div zmod_int)

lemma raid0_write_ok:
  assumes "all_healthy st" "unat lb < 2048" "length b = BSIZE"
  shows "raid0_write lb b st = Ok (put_block (unat lb mod 4) (unat lb div 4) b st)"
proof -
  have "unat lb mod 4 < NUM_DISKS" "unat lb div 4 < DISK_BLOCKS"
    using assms(2) by (auto simp: kconst)
  then show ?thesis using assms
    by (simp add: raid0_write_def raid0_addr phys_write_block_ok all_healthyD)
qed

lemma raid0_read_ok:
  assumes "all_healthy st" "unat lb < 2048"
  shows "raid0_read lb st = Ok (sim_disk st (unat lb mod 4) (unat lb div 4))"
proof -
  have "unat lb mod 4 < NUM_DISKS" "unat lb div 4 < DISK_BLOCKS"
    using assms(2) by (auto simp: kconst)
  then show ?thesis using assms
    by (simp add: raid0_read_def raid0_addr phys_read_block_ok all_healthyD)
qed

lemma div_mod_inj: "(a::nat) mod n = b mod n \<Longrightarrow> a div n = b div n \<Longrightarrow> a = b"
  by (metis mod_div_decomp)

interpretation raid0: block_device raid0_read raid0_write
  "\<lambda>st. blocks_wf st \<and> all_healthy st" "\<lambda>lb. unat lb < 2048"
proof (unfold_locales, goal_cases)
  case (4 s lb b s' lb')
  have "\<not> (unat lb' mod 4 = unat lb mod 4 \<and> unat lb' div 4 = unat lb div 4)"
    using 4(6) div_mod_inj [of "unat lb'" 4 "unat lb"] by (auto simp: word_unat_eq_iff)
  with 4 show ?case by (auto simp: raid0_write_ok raid0_read_ok)
next
  case (5 s lb)
  then have "unat lb mod 4 < NUM_DISKS" "unat lb div 4 < DISK_BLOCKS" by (auto simp: kconst)
  with 5 show ?case by (auto simp: raid0_read_ok blocks_wf_def)
qed (auto simp: raid0_write_ok raid0_read_ok blocks_wf_put)

text \<open>A mirror keeps working as long as one of its two disks does.\<close>

definition mirror_up :: "raid_state \<Rightarrow> bool" where
  "mirror_up st = (\<not> disk_failed st 0 \<or> \<not> disk_failed st 1)"

lemma raid1_write_ok:
  assumes "unat lb < DISK_BLOCKS" "length b = BSIZE"
  shows "raid1_write lb b st =
    Ok (let st1 = (if disk_failed st 0 then st else put_block 0 (unat lb) b st)
        in if disk_failed st 1 then st1 else put_block 1 (unat lb) b st1)"
  using assms by (simp add: raid1_write_def phys_write_block_ok NUM_DISKS_def Let_def)

lemma raid1_read_ok:
  assumes "mirror_up st" "unat lb < DISK_BLOCKS"
  shows "raid1_read lb st = Ok (sim_disk st (if disk_failed st 0 then 1 else 0) (unat lb))"
  using assms by (auto simp: raid1_read_def phys_read_block_ok NUM_DISKS_def mirror_up_def)

interpretation raid1: block_device raid1_read raid1_write
  "\<lambda>st. blocks_wf st \<and> mirror_up st" "\<lambda>lb. unat lb < DISK_BLOCKS"
proof (unfold_locales, goal_cases)
  case (2 s lb b s')
  then show ?case by (auto simp: raid1_write_ok Let_def blocks_wf_put mirror_up_def split: if_splits)
next
  case (3 s lb b s')
  then have "mirror_up s'" by (auto simp: raid1_write_ok Let_def mirror_up_def split: if_splits)
  with 3 show ?case by (auto simp: raid1_write_ok raid1_read_ok Let_def mirror_up_def split: if_splits)
next
  case (4 s lb b s' lb')
  then have "mirror_up s'" and "unat lb' \<noteq> unat lb"
    by (auto simp: raid1_write_ok Let_def mirror_up_def word_unat_eq_iff split: if_splits)
  with 4 show ?case by (auto simp: raid1_write_ok raid1_read_ok Let_def split: if_splits)
next
  case (5 s lb)
  then show ?case by (auto simp: raid1_read_ok blocks_wf_def NUM_DISKS_def)
qed (auto simp: raid1_write_ok)

subsection \<open>Rotating parity is a block device\<close>

text \<open>The geometry of a stripe on natural numbers: row, parity disk, data disks.\<close>

definition r5_data :: "nat \<Rightarrow> nat \<Rightarrow> nat" where
  "r5_data r d = (r mod 4 + 1 + d) mod 4"

lemma r5_data_lt [simp]: "r5_data r d < NUM_DISKS"
  by (simp add: r5_data_def kconst)

lemma r5_par_lt [simp]: "r mod 4 < NUM_DISKS"
  by (simp add: kconst)

lemma mod4_cases: "(r::nat) mod 4 = 0 \<or> r mod 4 = 1 \<or> r mod 4 = 2 \<or> r mod 4 = 3"
  by arith

lemma less3_cases: "(d::nat) < 3 \<longleftrightarrow> d = 0 \<or> d = 1 \<or> d = 2"
  by arith

lemma r5_data_inj: "d < 3 \<Longrightarrow> e < 3 \<Longrightarrow> (r5_data r d = r5_data r e) = (d = e)"
  using mod4_cases [of r] by (elim disjE) (auto simp: r5_data_def less3_cases)

lemma r5_data_par: "d < 3 \<Longrightarrow> r5_data r d \<noteq> r mod 4"
  using mod4_cases [of r] by (elim disjE) (auto simp: r5_data_def less3_cases)

lemma r5_data_table:
  "r mod 4 = 0 \<Longrightarrow> r5_data r 0 = 1" "r mod 4 = 0 \<Longrightarrow> r5_data r 1 = 2" "r mod 4 = 0 \<Longrightarrow> r5_data r 2 = 3"
  "r mod 4 = 1 \<Longrightarrow> r5_data r 0 = 2" "r mod 4 = 1 \<Longrightarrow> r5_data r 1 = 3" "r mod 4 = 1 \<Longrightarrow> r5_data r 2 = 0"
  "r mod 4 = 2 \<Longrightarrow> r5_data r 0 = 3" "r mod 4 = 2 \<Longrightarrow> r5_data r 1 = 0" "r mod 4 = 2 \<Longrightarrow> r5_data r 2 = 1"
  "r mod 4 = 3 \<Longrightarrow> r5_data r 0 = 0" "r mod 4 = 3 \<Longrightarrow> r5_data r 1 = 1" "r mod 4 = 3 \<Longrightarrow> r5_data r 2 = 2"
  by (simp_all add: r5_data_def)

lemma raid5_par_nat: "raid5_parity_disk stripe = int (unat stripe mod 4)"
  by (simp add: raid5_parity_disk_def kconst uint_mod zmod_int)

lemma raid5_data_nat: "raid5_data_disk stripe (int d) = int (r5_data (unat stripe) d)"
  by (simp add: raid5_data_disk_def raid5_par_nat r5_data_def kconst zmod_int ac_simps)

lemma raid5_data_012:
  "raid5_data_disk stripe 0 = int (r5_data (unat stripe) 0)"
  "raid5_data_disk stripe 1 = int (r5_data (unat stripe) 1)"
  "raid5_data_disk stripe 2 = int (r5_data (unat stripe) 2)"
  using raid5_data_nat [of stripe 0] raid5_data_nat [of stripe 1] raid5_data_nat [of stripe 2]
  by simp_all

lemma raid5_addr:
  fixes lb :: u32
  shows "unat (lb div of_nat DATA_DISKS) = unat lb div 3"
    and "uint (lb mod of_nat DATA_DISKS) = int (unat lb mod 3)"
  by (simp_all add: kconst uint_mod unat_div zmod_int)

lemma raid5_row: "unat (lb :: u32) < 1536 \<Longrightarrow> unat lb div 3 < DISK_BLOCKS"
  by (simp add: kconst)

definition row_xor :: "raid_state \<Rightarrow> nat \<Rightarrow> nat \<Rightarrow> byte" where
  "row_xor st r i = sim_disk st 0 r ! i XOR sim_disk st 1 r ! i XOR sim_disk st 2 r ! i
     XOR sim_disk st 3 r ! i"

definition parity_ok :: "raid_state \<Rightarrow> bool" where
  "parity_ok st = (\<forall>r<DISK_BLOCKS. \<forall>i<BSIZE. row_xor st r i = 0)"

lemma row_xor_geometry:
  "row_xor st r i = sim_disk st (r mod 4) r ! i XOR sim_disk st (r5_data r 0) r ! i
     XOR sim_disk st (r5_data r 1) r ! i XOR sim_disk st (r5_data r 2) r ! i"
  using mod4_cases [of r]
  by (elim disjE) (simp_all add: row_xor_def r5_data_table ac_simps del: One_nat_def)

lemma xor_zero_iff: "(a XOR b = 0) = (a = (b :: 'a::len word))"
proof
  assume "a XOR b = 0"
  then have "(a XOR b) XOR b = b" by simp
  then show "a = b" by (simp add: xor.assoc)
qed simp

definition stripe_parity :: "raid_state \<Rightarrow> nat \<Rightarrow> byte list" where
  "stripe_parity st r = xor_block (xor_block (xor_block (replicate BSIZE 0)
     (sim_disk st (r5_data r 0) r)) (sim_disk st (r5_data r 1) r)) (sim_disk st (r5_data r 2) r)"

lemma raid5_write_ok:
  assumes "all_healthy st" "unat lb < 1536" "length b = BSIZE"
  defines "r \<equiv> unat lb div 3"
  defines "st1 \<equiv> put_block (r5_data r (unat lb mod 3)) r b st"
  shows "raid5_write lb b st = Ok (put_block (r mod 4) r (stripe_parity st1 r) st1)"
proof -
  have r: "r < DISK_BLOCKS" using assms(2) raid5_row by (simp add: r_def)
  have w1: "phys_write_block (int (r5_data r (unat lb mod 3))) (lb div of_nat DATA_DISKS) b st = Ok st1"
    using r assms(1,3) by (simp add: phys_write_block_ok raid5_addr all_healthyD st1_def flip: r_def)
  have h1: "all_healthy st1" using assms(1) by (simp add: st1_def)
  have par: "raid5_parity (lb div of_nat DATA_DISKS) st1 [0, 1, 2] (replicate BSIZE 0)
      = Ok (stripe_parity st1 r)"
    using r h1
    by (simp add: raid5_data_012 raid5_addr phys_read_block_ok all_healthyD stripe_parity_def flip: r_def)
  have "length (stripe_parity st1 r) = BSIZE" by (simp add: stripe_parity_def)
  then have w2: "phys_write_block (int (r mod 4)) (lb div of_nat DATA_DISKS) (stripe_parity st1 r) st1
      = Ok (put_block (r mod 4) r (stripe_parity st1 r) st1)"
    using r h1 by (simp add: phys_write_block_ok raid5_addr all_healthyD flip: r_def)
  show ?thesis
    using w1 par w2
    by (simp add: raid5_write_def Let_def raid5_addr raid5_data_nat raid5_par_nat
        del: raid5_parity.simps flip: r_def)
qed

lemma parity_ok_write:
  fixes b :: "byte list"
  assumes "parity_ok st" "r < DISK_BLOCKS" "d < 3"
  defines "st1 \<equiv> put_block (r5_data r d) r b st"
  shows "parity_ok (put_block (r mod 4) r (stripe_parity st1 r) st1)"
  unfolding parity_ok_def
proof (intro allI impI)
  fix r' i assume r': "r' < DISK_BLOCKS" and i: "i < BSIZE"
  let ?st2 = "put_block (r mod 4) r (stripe_parity st1 r) st1"
  show "row_xor ?st2 r' i = 0"
  proof (cases "r' = r")
    case False
    then have "row_xor ?st2 r' i = row_xor st r' i" by (simp add: row_xor_def st1_def)
    with assms(1) r' i show ?thesis by (simp add: parity_ok_def)
  next
    case True
    have "r5_data r e \<noteq> r mod 4" if "e < 3" for e
      using r5_data_par [OF that] .
    then show ?thesis
      unfolding True row_xor_geometry using i
      by (simp add: stripe_parity_def xor_zero_iff ac_simps)
  qed
qed

text \<open>
  Reading a block returns the stored data block as long as no disk but one is failed: either
  the block's own disk is up, or the other three rebuild it.
\<close>

lemma raid5_read_ok:
  assumes "blocks_wf st" "parity_ok st" "\<And>d. d < NUM_DISKS \<Longrightarrow> disk_failed st d \<Longrightarrow> d = f"
    and "unat lb < 1536"
  shows "raid5_read lb st = Ok (sim_disk st (r5_data (unat lb div 3) (unat lb mod 3)) (unat lb div 3))"
proof -
  define r where "r = unat lb div 3"
  define x where "x = unat lb mod 3"
  have r: "r < DISK_BLOCKS" using assms(4) raid5_row by (simp add: r_def)
  have x: "x < 3" by (simp add: x_def)
  note geo = Let_def raid5_addr raid5_data_nat raid5_data_012 raid5_par_nat
  show ?thesis
  proof (cases "disk_failed st (r5_data r x)")
    case False
    then show ?thesis using r
      by (simp add: raid5_read_def geo phys_read_block_ok flip: r_def x_def)
  next
    case True
    then have up: "\<not> disk_failed st d" if "d < NUM_DISKS" "d \<noteq> r5_data r x" for d
      using assms(3) that r5_data_lt by metis
    have par_up: "\<not> disk_failed st (r mod 4)" using up r5_data_par [OF x] r5_par_lt by metis
    have data_up: "\<not> disk_failed st (r5_data r e)" if "e < 3" "e \<noteq> x" for e
      using up r5_data_inj [OF that(1) x] that(2) r5_data_lt by metis
    let ?D = "\<lambda>e. sim_disk st (r5_data r e) r"
    let ?P = "sim_disk st (r mod 4) r"
    have "x = 0 \<or> x = 1 \<or> x = 2" using x by auto
    then obtain e1 e2 where perm: "(e1, e2, x) \<in> {(1, 2, 0), (0, 2, 1), (0, 1, 2)}"
      and rec: "raid5_rebuild (lb div of_nat DATA_DISKS) (int (r5_data r x)) st [0, 1, 2]
          (replicate BSIZE 0) = Ok (xor_block (xor_block (replicate BSIZE 0) (?D e1)) (?D e2))"
      using r data_up by (elim disjE) (auto simp: geo r5_data_inj phys_read_block_ok simp flip: r_def)
    have "xor_block (xor_block (xor_block (replicate BSIZE 0) (?D e1)) (?D e2)) ?P = ?D x"
    proof (rule nth_equalityI)
      show "length (xor_block (xor_block (xor_block (replicate BSIZE 0) (?D e1)) (?D e2)) ?P) = length (?D x)"
        using assms(1) r by (simp add: blocks_wfD)
    next
      fix i assume "i < length (xor_block (xor_block (xor_block (replicate BSIZE 0) (?D e1)) (?D e2)) ?P)"
      then have i: "i < BSIZE" by simp
      have "row_xor st r i = 0" using assms(2) r i by (simp add: parity_ok_def)
      then have "(?D e1 ! i XOR ?D e2 ! i XOR ?P ! i) XOR ?D x ! i = 0"
        using perm by (auto simp: row_xor_geometry ac_simps)
      with i show "xor_block (xor_block (xor_block (replicate BSIZE 0) (?D e1)) (?D e2)) ?P ! i = ?D x ! i"
        by (simp add: xor_zero_iff ac_simps)
    qed
    with True r par_up rec show ?thesis
      by (simp add: raid5_read_def geo phys_read_block_ok del: raid5_rebuild.simps flip: r_def x_def)
  qed
qed

definition raid5_good :: "raid_state \<Rightarrow> bool" where
  "raid5_good st = (blocks_wf st \<and> all_healthy st \<and> parity_ok st)"

lemma raid5_read_healthy:
  "raid5_good st \<Longrightarrow> unat lb < 1536 \<Longrightarrow>
    raid5_read lb st = Ok (sim_disk st (r5_data (unat lb div 3) (unat lb mod 3)) (unat lb div 3))"
  by (rule raid5_read_ok [where f = 0]) (auto simp: raid5_good_def all_healthy_def)

lemma raid5_write_good:
  assumes "raid5_good s" "unat lb < 1536" "length b = BSIZE" "raid5_write lb b s = Ok s'"
  shows "raid5_good s'"
proof -
  have "parity_ok s'"
    using assms parity_ok_write [of s "unat lb div 3" "unat lb mod 3" b] raid5_row [of lb]
    by (simp add: raid5_write_ok raid5_good_def)
  moreover have "blocks_wf s' \<and> all_healthy s'"
    using assms by (auto simp: raid5_write_ok raid5_good_def blocks_wf_put stripe_parity_def)
  ultimately show ?thesis by (simp add: raid5_good_def)
qed

lemma raid5_write_put:
  assumes "raid5_good s" "unat lb < 1536" "length b = BSIZE" "raid5_write lb b s = Ok s'" "d < 3"
  shows "sim_disk s' (r5_data r d) r =
    (if r = unat lb div 3 \<and> d = unat lb mod 3 then b else sim_disk s (r5_data r d) r)"
  using assms r5_data_par [OF assms(5), of r] r5_data_inj [of d "unat lb mod 3" r]
  by (auto simp: raid5_write_ok raid5_good_def)

interpretation raid5: block_device raid5_read raid5_write raid5_good "\<lambda>lb. unat lb < 1536"
proof (unfold_locales, goal_cases)
  case (1 s lb b)
  then show ?case by (auto simp: raid5_write_ok raid5_good_def)
next
  case (2 s lb b s')
  then show ?case by (auto intro: raid5_write_good)
next
  case (3 s lb b s')
  with raid5_write_good show ?case by (simp add: raid5_read_healthy raid5_write_put)
next
  case (4 s lb b s' lb')
  then have "\<not> (unat lb' div 3 = unat lb div 3 \<and> unat lb' mod 3 = unat lb mod 3)"
    using div_mod_inj [of "unat lb'" 3 "unat lb"] by (auto simp: word_unat_eq_iff)
  with 4 raid5_write_good show ?case by (auto simp: raid5_read_healthy raid5_write_put)
next
  case (5 s lb)
  then show ?case by (simp add: raid5_read_healthy) (simp add: raid5_good_def blocks_wfD raid5_row)
qed

section \<open>The configured array\<close>

text \<open>
  The array as the swap layer uses it: one of the three modes is set, all disks are up, and
  the redundancy of the mode is in place. Swap uses logical blocks below 512.
\<close>

definition mirrored :: "raid_state \<Rightarrow> bool" where
  "mirrored st = (\<forall>b<DISK_BLOCKS. sim_disk st 0 b = sim_disk st 1 b)"

definition raid_full :: "raid_state \<Rightarrow> bool" where
  "raid_full st = (blocks_wf st \<and> all_healthy st \<and> raid_mode st \<in> {0, 1, 5} \<and>
     (raid_mode st = 1 \<longrightarrow> mirrored st) \<and> (raid_mode st = 5 \<longrightarrow> parity_ok st))"

lemma phys_write_block_mode: "phys_write_block d blk b s = Ok s' \<Longrightarrow> raid_mode s' = raid_mode s"
  by (auto simp: phys_write_block_def split: if_splits)

lemma raid_mode_write:
  "raid0_write lb b s = Ok s' \<Longrightarrow> raid_mode s' = raid_mode s"
  "raid1_write lb b s = Ok s' \<Longrightarrow> raid_mode s' = raid_mode s"
  "raid5_write lb b s = Ok s' \<Longrightarrow> raid_mode s' = raid_mode s"
    apply (auto simp: raid0_write_def raid1_write_def dest!: phys_write_block_mode)[2]
  apply (auto simp: raid5_write_def Let_def simp del: raid5_parity.simps dest!: phys_write_block_mode)
  done

lemma raid_block_write_mode: "raid_block_write m lb b s = Ok s' \<Longrightarrow> raid_mode s' = raid_mode s"
  by (auto simp: raid_block_write_def dest: raid_mode_write split: if_splits)

lemma mirrored_write:
  "mirrored s \<Longrightarrow> all_healthy s \<Longrightarrow> unat lb < DISK_BLOCKS \<Longrightarrow> length b = BSIZE \<Longrightarrow>
    raid1_write lb b s = Ok s' \<Longrightarrow> mirrored s' \<and> all_healthy s'"
  by (auto simp: raid1_write_ok Let_def mirrored_def all_healthyD kconst)

lemma healthy_mirror_up: "all_healthy s \<Longrightarrow> mirror_up s"
  by (simp add: mirror_up_def all_healthyD kconst)

lemma swap_valid_bounds: "unat (lb :: u32) < DISK_BLOCKS \<Longrightarrow> unat lb < 2048 \<and> unat lb < 1536"
  by (simp add: kconst)

interpretation raid: block_device "raid_block_read m" "raid_block_write m'"
  raid_full "\<lambda>lb. unat lb < DISK_BLOCKS" for m m'
proof (unfold_locales, goal_cases)
  case (1 s lb b)
  then show ?case
    using raid0.wr_total [of s lb b] raid1.wr_total [of s lb b] raid5.wr_total [of s lb b]
      swap_valid_bounds [of lb] healthy_mirror_up [of s]
    by (auto simp: raid_full_def raid5_good_def raid_block_write_def)
next
  case (2 s lb b s')
  then show ?case
    using raid0.wr_good [of s lb b s'] raid1.wr_good [of s lb b s'] raid5.wr_good [of s lb b s']
      swap_valid_bounds [of lb] healthy_mirror_up [of s] mirrored_write [of s lb b s']
      raid_block_write_mode [of m' lb b s s']
    by (auto simp: raid_full_def raid5_good_def raid_block_write_def)
next
  case (3 s lb b s')
  then show ?case
    using raid0.rd_wr_same [of s lb b s'] raid1.rd_wr_same [of s lb b s'] raid5.rd_wr_same [of s lb b s']
      swap_valid_bounds [of lb] healthy_mirror_up [of s] raid_block_write_mode [of m' lb b s s']
    by (auto simp: raid_full_def raid5_good_def raid_block_write_def raid_block_read_def)
next
  case (4 s lb b s' lb')
  then show ?case
    using raid0.rd_wr_other [of s lb b s' lb'] raid1.rd_wr_other [of s lb b s' lb']
      raid5.rd_wr_other [of s lb b s' lb'] swap_valid_bounds [of lb] swap_valid_bounds [of lb']
      healthy_mirror_up [of s] raid_block_write_mode [of m' lb b s s']
    by (auto simp: raid_full_def raid5_good_def raid_block_write_def raid_block_read_def)
next
  case (5 s lb)
  then show ?case
    using raid0.rd_total [of s lb] raid1.rd_total [of s lb] raid5.rd_total [of s lb]
      swap_valid_bounds [of lb] healthy_mirror_up [of s]
    by (auto simp: raid_full_def raid5_good_def raid_block_read_def)
qed

text \<open>Booting gives a full array, in the striping mode.\<close>

lemma raid_full_init: "raid_full (raid_init st)"
  by (simp add: raid_full_def raid_init_def blocks_wf_def all_healthy_def)

text \<open>The blocks of one page, and pages that do not overlap.\<close>

definition page_range :: "u32 \<Rightarrow> bool" where
  "page_range l = (unat l + BLOCKS_PER_PAGE \<le> DISK_BLOCKS)"

definition page_disjoint :: "u32 \<Rightarrow> u32 \<Rightarrow> bool" where
  "page_disjoint l k = (unat l + BLOCKS_PER_PAGE \<le> unat k \<or> unat k + BLOCKS_PER_PAGE \<le> unat l)"

lemma unat_page_block:
  "page_range l \<Longrightarrow> i < BLOCKS_PER_PAGE \<Longrightarrow> unat (l + of_nat i) = unat l + i"
  by (simp add: page_range_def kconst unat_word_ariths unat_of_nat)

lemma page_range_valid:
  "page_range l \<Longrightarrow> i < BLOCKS_PER_PAGE \<Longrightarrow> unat (l + of_nat i) < DISK_BLOCKS"
  by (simp add: unat_page_block) (simp add: page_range_def)

lemma page_disjoint_neq:
  "page_range l \<Longrightarrow> page_range k \<Longrightarrow> page_disjoint l k \<Longrightarrow> i < BLOCKS_PER_PAGE \<Longrightarrow>
    j < BLOCKS_PER_PAGE \<Longrightarrow> k + of_nat i \<noteq> l + of_nat j"
  by (auto simp: word_unat_eq_iff unat_page_block page_disjoint_def)

lemma write_page_frame:
  assumes "raid_full st" "page_range l" "length src = PGSIZE"
  obtains st' where "write_page (raid_block_write m') l src st = Ok st'" and "raid_full st'"
    and "read_page (raid_block_read m) l st' = Ok src"
    and "\<And>k. page_range k \<Longrightarrow> page_disjoint l k \<Longrightarrow>
      read_page (raid_block_read m) k st' = read_page (raid_block_read m) k st"
proof -
  obtain st' where st': "write_page (raid_block_write m') l src st = Ok st'" "raid_full st'"
      "read_page (raid_block_read m) l st' = Ok src"
      "\<And>lb. unat lb < DISK_BLOCKS \<Longrightarrow> (\<And>i. i < BLOCKS_PER_PAGE \<Longrightarrow> lb \<noteq> l + of_nat i) \<Longrightarrow>
        raid_block_read m lb st' = raid_block_read m lb st"
    using raid.write_page_ok [OF assms(1) page_range_valid [OF assms(2)] assms(3), where m'=m' and m=m]
    by metis
  have "read_page (raid_block_read m) k st' = read_page (raid_block_read m) k st"
    if "page_range k" "page_disjoint l k" for k
    by (rule raid.read_page_cong)
      (use st'(4) page_range_valid [OF that(1)] page_disjoint_neq [OF assms(2) that] in auto)
  with st' that show thesis by blast
qed

section \<open>Degraded arrays\<close>

interpretation degraded_mirror: block_device "raid_block_read m" "raid_block_write m'"
  "\<lambda>st. raid_mode st = 1 \<and> blocks_wf st \<and> mirror_up st" "\<lambda>lb. unat lb < DISK_BLOCKS" for m m'
proof (unfold_locales, goal_cases)
  case (2 s lb b s')
  then show ?case
    using raid1.wr_good [of s lb b s'] raid_mode_write(2) [of lb b s s']
    by (auto simp: raid_block_write_def)
next
  case (3 s lb b s')
  then show ?case
    using raid1.rd_wr_same [of s lb b s'] raid_mode_write(2) [of lb b s s']
    by (auto simp: raid_block_write_def raid_block_read_def)
next
  case (4 s lb b s' lb')
  then show ?case
    using raid1.rd_wr_other [of s lb b s' lb'] raid_mode_write(2) [of lb b s s']
    by (auto simp: raid_block_write_def raid_block_read_def)
qed (use raid1.wr_total raid1.rd_total in \<open>auto simp: raid_block_write_def raid_block_read_def\<close>)

lemma raid_block_read_failed:
  assumes "raid_full st" "raid_mode st \<in> {1, 5}" "raid_fail_disk d st = Ok st'" "unat lb < DISK_BLOCKS"
  shows "raid_block_read m lb st' = raid_block_read m lb st"
proof -
  have st': "sim_disk st' = sim_disk st" "raid_mode st' = raid_mode st"
      "disk_failed st' = (disk_failed st)(nat d := True)"
    using assms(3) by (auto simp: raid_fail_disk_def split: if_splits)
  consider "raid_mode st = 1" | "raid_mode st = 5" using assms(2) by auto
  then show ?thesis
  proof cases
    case 1
    then have "mirror_up st" "mirror_up st'" "mirrored st"
      using assms(1) st' by (auto simp: raid_full_def healthy_mirror_up mirror_up_def all_healthyD kconst)
    with 1 assms(4) st' show ?thesis
      by (auto simp: raid_block_read_def raid1_read_ok mirrored_def)
  next
    case 2
    then have g: "raid5_good st" using assms(1) by (simp add: raid_full_def raid5_good_def)
    have wf: "blocks_wf st'" "parity_ok st'"
      using g st' by (simp_all add: raid5_good_def blocks_wf_def parity_ok_def row_xor_def)
    have one: "e = nat d" if "e < NUM_DISKS" "disk_failed st' e" for e
      using that st' g by (auto simp: raid5_good_def all_healthy_def split: if_splits)
    show ?thesis
      using raid5_read_ok [OF wf one] raid5_read_healthy [OF g] swap_valid_bounds [OF assms(4)] 2 st'
      by (simp add: raid_block_read_def)
  qed
qed

lemma raid5_degraded_write:
  assumes "unat lb < 1536" "length b = BSIZE" "r = unat lb div 3" "x = unat lb mod 3"
    and "disk_failed st (r5_data r x)"
    and "\<And>d. d < NUM_DISKS \<Longrightarrow> d \<noteq> r5_data r x \<Longrightarrow> \<not> disk_failed st d"
  shows "\<exists>st'. raid5_write lb b st = Ok st' \<and> raid5_read lb st' = Ok (replicate BSIZE 0)"
proof -
  have r: "r < DISK_BLOCKS" using assms(1,3) raid5_row by simp
  have x: "x < 3" by (simp add: assms(4))
  have rx: "unat lb div 3 = r" "unat lb mod 3 = x" by (simp_all add: assms)
  have par_up: "\<not> disk_failed st (r mod 4)" using assms(6) r5_data_par [OF x] r5_par_lt by metis
  have data_up: "\<not> disk_failed st (r5_data r e)" if "e < 3" "e \<noteq> x" for e
    using assms(6) r5_data_inj [OF that(1) x] that(2) r5_data_lt by metis
  note geo = Let_def raid5_addr raid5_data_nat raid5_data_012 raid5_par_nat rx
  let ?stripe = "lb div of_nat DATA_DISKS"
  let ?D = "\<lambda>e. sim_disk st (r5_data r e) r"
  have "x = 0 \<or> x = 1 \<or> x = 2" using x by auto
  then obtain e1 e2 where perm: "(e1, e2, x) \<in> {(1, 2, 0), (0, 2, 1), (0, 1, 2)}"
    and par: "raid5_parity ?stripe st [0, 1, 2] (replicate BSIZE 0)
       = Ok (xor_block (xor_block (replicate BSIZE 0) (?D e1)) (?D e2))"
    using r data_up assms(5) by (elim disjE) (auto simp: geo phys_read_block_ok)
  define P where "P = xor_block (xor_block (replicate BSIZE 0) (?D e1)) (?D e2)"
  define st' where "st' = put_block (r mod 4) r P st"
  have w: "raid5_write lb b st = Ok st'"
    using r assms(2,5) par par_up
    by (simp add: raid5_write_def geo phys_write_block_ok st'_def P_def del: raid5_parity.simps)
  have keep: "sim_disk st' (r5_data r e) r = ?D e" if "e < 3" for e
    using r5_data_par [OF that] by (simp add: st'_def)
  have up': "disk_failed st' = disk_failed st" "sim_disk st' (r mod 4) r = P" by (simp_all add: st'_def)
  have rec: "raid5_rebuild ?stripe (int (r5_data r x)) st' [0, 1, 2] (replicate BSIZE 0) = Ok P"
    using perm r data_up
    by (auto simp: geo r5_data_inj phys_read_block_ok up' keep P_def)
  have "xor_block P P = replicate BSIZE 0"
    by (rule nth_equalityI) (simp_all add: P_def)
  then have "raid5_read lb st' = Ok (replicate BSIZE 0)"
    using r assms(5) rec par_up
    by (simp add: raid5_read_def geo phys_read_block_ok up' del: raid5_rebuild.simps)
  with w show ?thesis by blast
qed

lemma raid_block_read_msg: "raid_mode st \<in> {0, 1, 5} \<Longrightarrow> raid_block_read m lb st = raid_block_read m' lb st"
  by (auto simp: raid_block_read_def)

lemma read_page_msg:
  assumes "raid_mode st \<in> {0, 1, 5}"
  shows "read_page (raid_block_read m) l st = read_page (raid_block_read m') l st"
  unfolding read_page_def
  by (rule forR_cong) (simp_all add: raid_block_read_msg [OF assms, of m _ m'])

lemma phys_read_copy_buf [simp]:
  "phys_read_block d b (st\<lparr>raid_copy_buf := x\<rparr>) = phys_read_block d b st"
  by (simp add: phys_read_block_def)

lemma raid5_rebuild_copy_buf [simp]:
  "raid5_rebuild s t (st\<lparr>raid_copy_buf := x\<rparr>) ds acc = raid5_rebuild s t st ds acc"
  by (induction ds arbitrary: acc) (auto simp: Let_def intro!: arg_cong [where f = "bindR _"] split: option.splits)

lemma raid_block_read_copy_buf [simp]:
  "raid_block_read m lb (st\<lparr>raid_copy_buf := x\<rparr>) = raid_block_read m lb st"
  by (simp add: raid_block_read_def raid0_read_def raid1_read_def raid5_read_def Let_def
      del: raid5_rebuild.simps)

lemma raid_full_copy_buf [simp]: "raid_full (st\<lparr>raid_copy_buf := x\<rparr>) = raid_full st"
  by (simp add: raid_full_def blocks_wf_def all_healthy_def mirrored_def parity_ok_def row_xor_def)

section \<open>Properties of the RAID layer\<close>

text \<open>A freshly booted kernel, for the witnesses.\<close>

definition raid_boot :: "int \<Rightarrow> raid_state" where
  "raid_boot mode = (raid_init \<lparr>sim_disk = (\<lambda>_ _. []), disk_failed = (\<lambda>_. False), raid_mode = 0,
     raid_copy_buf = []\<rparr>)\<lparr>raid_mode := mode\<rparr>"

lemma raid_full_boot: "mode \<in> {0, 1, 5} \<Longrightarrow> raid_full (raid_boot mode)"
  by (auto simp: raid_full_def raid_boot_def raid_init_def blocks_wf_def all_healthy_def
      mirrored_def parity_ok_def row_xor_def)

lemma raid_boot_mode [simp]: "raid_mode (raid_boot mode) = mode"
  by (simp add: raid_boot_def)

lemma page_range_0_4: "page_range 0" "page_range 4" "page_disjoint 0 4" "page_disjoint 4 0"
  by (simp_all add: page_range_def page_disjoint_def kconst)

text \<open>
  C5. In each of the three modes, on a healthy array, writing a page to a swap block range
  succeeds, keeps the array healthy and its redundancy in place, and the page reads back byte
  for byte; every page range that does not overlap reads as before.
\<close>

theorem raid_write_read:
  assumes "raid_full st" "page_range l" "length src = PGSIZE"
  shows "\<exists>st'. raid_write l src st = Ok st' \<and> raid_full st' \<and> raid_read l st' = Ok src \<and>
    (\<forall>k. page_range k \<and> page_disjoint l k \<longrightarrow> raid_read k st' = raid_read k st)"
  using write_page_frame [OF assms, of "''raid_write: bad mode''" "''raid_read: bad mode''"]
  unfolding raid_write_def raid_read_def by metis

theorem raid_write_read_witness:
  "\<exists>st'. raid_write 4 (replicate PGSIZE 7) (raid_boot 5) = Ok st' \<and> raid_full st' \<and>
    raid_read 4 st' = Ok (replicate PGSIZE 7) \<and> raid_read 0 st' = raid_read 0 (raid_boot 5)"
  using raid_write_read [OF raid_full_boot [of 5] page_range_0_4(2), of "replicate PGSIZE 7"]
    page_range_0_4 by auto

text \<open>
  C6. In the mirroring and the parity mode a healthy array survives the failure of any one
  disk: after \<open>raid_fail_disk\<close> every page still reads exactly as before, without a panic.
\<close>

theorem raid_survives_disk_failure:
  assumes "raid_full st" "raid_mode st \<in> {1, 5}" "raid_fail_disk d st = Ok st'" "page_range l"
  shows "raid_read l st' = raid_read l st \<and> (\<exists>p. raid_read l st' = Ok p \<and> length p = PGSIZE)"
proof -
  have "raid_read l st' = raid_read l st"
    unfolding raid_read_def
    by (rule raid.read_page_cong)
      (simp add: raid_block_read_failed [OF assms(1-3)] page_range_valid [OF assms(4)])
  with raid.read_page_total [OF assms(1) page_range_valid [OF assms(4)]] show ?thesis
    by (metis raid_read_def)
qed

theorem raid_survives_disk_failure_witness:
  "\<exists>st'. raid_fail_disk 2 (raid_boot 5) = Ok st' \<and> raid_read 4 st' = raid_read 4 (raid_boot 5)"
proof -
  have "raid_fail_disk 2 (raid_boot 5) =
      Ok ((raid_boot 5)\<lparr>disk_failed := (disk_failed (raid_boot 5))(2 := True)\<rparr>)"
    by (simp add: raid_fail_disk_def kconst)
  with raid_survives_disk_failure [OF raid_full_boot [of 5] _ this page_range_0_4(2)]
  show ?thesis by simp
qed

text \<open>
  C27. A mirror with one failed disk keeps accepting writes: the page reads back and the
  other pages keep their contents.
\<close>

theorem raid1_degraded_write_read:
  assumes "raid_mode st = 1" "blocks_wf st" "\<not> (disk_failed st 0 \<and> disk_failed st 1)"
    and "page_range l" "length src = PGSIZE"
  shows "\<exists>st'. raid_write l src st = Ok st' \<and> raid_read l st' = Ok src \<and>
    (\<forall>k. page_range k \<and> page_disjoint l k \<longrightarrow> raid_read k st' = raid_read k st)"
proof -
  have "raid_mode st = 1 \<and> blocks_wf st \<and> mirror_up st" using assms by (auto simp: mirror_up_def)
  then obtain st' where st': "raid_write l src st = Ok st'" "raid_read l st' = Ok src"
      "\<And>lb. unat lb < DISK_BLOCKS \<Longrightarrow> (\<And>i. i < BLOCKS_PER_PAGE \<Longrightarrow> lb \<noteq> l + of_nat i) \<Longrightarrow>
        raid_block_read ''raid_read: bad mode'' lb st' = raid_block_read ''raid_read: bad mode'' lb st"
    unfolding raid_write_def raid_read_def
    using degraded_mirror.write_page_ok [OF _ page_range_valid [OF assms(4)] assms(5),
        where m = "''raid_read: bad mode''" and m' = "''raid_write: bad mode''"]
    by metis
  have "raid_read k st' = raid_read k st" if "page_range k" "page_disjoint l k" for k
    unfolding raid_read_def
    by (rule raid.read_page_cong)
      (use st'(3) page_range_valid [OF that(1)] page_disjoint_neq [OF assms(4) that] in auto)
  with st' show ?thesis by blast
qed

theorem raid1_degraded_write_read_witness:
  "\<exists>st'. raid_write 4 (replicate PGSIZE 7)
       ((raid_boot 1)\<lparr>disk_failed := (\<lambda>d. d = 0)\<rparr>) = Ok st' \<and> raid_read 4 st' = Ok (replicate PGSIZE 7)"
proof -
  have "blocks_wf ((raid_boot 1)\<lparr>disk_failed := (\<lambda>d. d = 0)\<rparr>)"
    by (simp add: raid_boot_def raid_init_def blocks_wf_def)
  then show ?thesis
    using raid1_degraded_write_read [OF _ _ _ page_range_0_4(2),
        of "(raid_boot 1)\<lparr>disk_failed := (\<lambda>d. d = 0)\<rparr>" "replicate PGSIZE 7"] by auto
qed

text \<open>
  \<open>raid_copy\<close>, which fork uses to duplicate a swapped-out page, makes the destination
  range read as the source range did and leaves the source and every other range unchanged.
\<close>

theorem raid_copy_duplicates:
  assumes "raid_full st" "page_range s" "page_range d"
  shows "\<exists>st' p. raid_copy s d st = Ok st' \<and> raid_full st' \<and> raid_read s st = Ok p \<and>
    raid_read d st' = Ok p \<and>
    (\<forall>k. page_range k \<and> page_disjoint d k \<longrightarrow> raid_read k st' = raid_read k st)"
proof -
  obtain p where p: "raid_read s st = Ok p" "length p = PGSIZE"
    using raid.read_page_total [OF assms(1) page_range_valid [OF assms(2)]] by (metis raid_read_def)
  have mode: "raid_mode st \<in> {0, 1, 5}" using assms(1) by (simp add: raid_full_def)
  have "read_page (raid_block_read ''raid_copy: bad mode'') s st = Ok p"
    using p(1) read_page_msg [OF mode, of "''raid_copy: bad mode''" s "''raid_read: bad mode''"] by (simp add: raid_read_def)
  moreover obtain st' where st': "write_page (raid_block_write ''raid_copy: bad mode'') d p
        (st\<lparr>raid_copy_buf := p\<rparr>) = Ok st'" "raid_full st'" "raid_read d st' = Ok p"
      "\<And>k. page_range k \<Longrightarrow> page_disjoint d k \<Longrightarrow> raid_read k st' = raid_read k (st\<lparr>raid_copy_buf := p\<rparr>)"
    using write_page_frame [of "st\<lparr>raid_copy_buf := p\<rparr>" d p] assms(1,3) p(2)
    unfolding raid_read_def by (metis raid_full_copy_buf)
  moreover have "raid_read k (st\<lparr>raid_copy_buf := p\<rparr>) = raid_read k st" for k
    by (simp add: raid_read_def read_page_def)
  ultimately show ?thesis using p(1) by (auto simp: raid_copy_def)
qed

theorem raid_copy_duplicates_witness:
  "\<exists>st' p. raid_copy 0 4 (raid_boot 0) = Ok st' \<and> raid_read 0 (raid_boot 0) = Ok p \<and> raid_read 4 st' = Ok p"
  using raid_copy_duplicates [OF raid_full_boot [of 0] page_range_0_4(1,2)] by auto

text \<open>
  C28. A write to a RAID-5 block whose data disk is failed is lost although it reports
  success: the parity is recomputed from the surviving data disks only, so the block reads
  back as all zeros, whatever was written.
\<close>

theorem raid5_degraded_write_lost:
  assumes "unat lb < 1536" "length b = BSIZE"
    and "dsk = nat (raid5_data_disk (lb div of_nat DATA_DISKS) (uint (lb mod of_nat DATA_DISKS)))"
    and "disk_failed st dsk" "\<forall>d<NUM_DISKS. d \<noteq> dsk \<longrightarrow> \<not> disk_failed st d"
  shows "\<exists>st'. raid5_write lb b st = Ok st' \<and> raid5_read lb st' = Ok (replicate BSIZE 0)"
proof -
  have "dsk = r5_data (unat lb div 3) (unat lb mod 3)"
    by (simp add: assms(3) raid5_addr raid5_data_nat)
  with raid5_degraded_write [OF assms(1,2) refl refl, of st] assms(4,5) show ?thesis by blast
qed

theorem raid5_degraded_write_lost_witness:
  "\<exists>st'. raid5_write 0 (replicate BSIZE 9) ((raid_boot 5)\<lparr>disk_failed := (\<lambda>d. d = 1)\<rparr>) = Ok st' \<and>
    raid5_read 0 st' = Ok (replicate BSIZE 0)"
  by (rule raid5_degraded_write_lost [where dsk = 1])
    (simp_all add: raid5_data_disk_def raid5_parity_disk_def kconst)

end
