(* ===== verification/Kstate.thy ===== *)
theory Kstate
  imports PageTable Cstring Raid Disksched
begin

text \<open>
  The kernel state that virtual memory and process management share: physical memory and the
  free list, the process table of \<^verbatim>\<open>kernel/proc.h\<close>, the frame table and the swap slots of
  \<^verbatim>\<open>kernel/swap.h\<close>, and the array the swap area lives on. A process pointer is an index into the
  table, the null pointer \<open>None\<close>; a page table or trapframe pointer is the physical address of its
  page.
\<close>

datatype procstate = UNUSED | USED | SLEEPING | RUNNABLE | RUNNING | ZOMBIE

text \<open>What a process can sleep on: a process table slot, or another kernel object at an address.\<close>

datatype chan = NoChan | ProcChan nat | AddrChan u64

record proc =
  p_state :: procstate
  p_chan :: chan
  p_killed :: int
  p_xstate :: int
  p_pid :: int
  p_parent :: "nat option"
  p_kstack :: u64
  p_sz :: u64
  p_pagetable :: u64
  p_trapframe :: u64
  p_context :: "u64 list"
  p_ofile :: "nat option list"
  p_cwd :: "nat option"
  p_name :: "byte list"
  p_syscount :: u64
  p_level :: int
  p_used_ticks :: int
  p_total_ticks :: "int list"
  p_times_scheduled :: int
  p_slice_start :: int
  p_page_faults :: int
  p_pages_evicted :: int
  p_pages_swapped_in :: int
  p_pages_swapped_out :: int
  p_resident :: int
  p_disk_reads :: u64
  p_disk_writes :: u64
  p_total_latency :: u64
  p_disk_ops :: int

definition MAX_SWAP :: nat where "MAX_SWAP = 128"
definition MAX_FRAMES :: nat where "MAX_FRAMES = 32"
definition SWAP_START_BLOCK :: u32 where "SWAP_START_BLOCK = 0"
definition PTE_SWAPPED :: u64 where "PTE_SWAPPED = push_bit 8 1"
definition PTE_SWAP_SHIFT :: nat where "PTE_SWAP_SHIFT = 10"
declare MAX_SWAP_def [kconst] MAX_FRAMES_def [kconst]

record swap_slot =
  ss_used :: bool
  ss_proc :: "nat option"
  ss_va :: u64
  ss_block :: u32

record frame_entry =
  f_used :: bool
  f_proc :: "nat option"
  f_va :: u64
  f_pa :: u64
  f_ref :: bool
  f_grace :: int

text \<open>
  \<open>kend\<close>, \<open>etext\<close>, \<open>trampoline\<close> and \<open>forkret_addr\<close> are addresses the linker fixes; \<open>curp\<close> is
  \<open>myproc()\<close> on the CPU that runs. \<open>nextpid\<close> is a C \<open>int\<close>, which wraps around. \<open>npids\<close> is not in the
  code: it counts the process ids handed out, so that statements can say how many there have been;
  no operation reads it.
\<close>

record kstate =
  km :: kmem
  kend :: u64
  etext :: u64
  trampoline :: u64
  forkret_addr :: u64
  procs :: "proc list"
  curp :: "nat option"
  initproc :: "nat option"
  nextpid :: int
  npids :: nat
  frames :: "frame_entry list"
  clock_hand :: nat
  slots :: "swap_slot list"
  swap_head :: u32
  raid :: raid_state

definition upd_proc :: "nat \<Rightarrow> (proc \<Rightarrow> proc) \<Rightarrow> kstate \<Rightarrow> kstate" where
  "upd_proc p f st = st\<lparr>procs := (procs st)[p := f (procs st ! p)]\<rparr>"

definition upd_popt :: "nat option \<Rightarrow> (proc \<Rightarrow> proc) \<Rightarrow> kstate \<Rightarrow> kstate" where
  "upd_popt p f st = (case p of None \<Rightarrow> st | Some i \<Rightarrow> upd_proc i f st)"

definition upd_frame :: "nat \<Rightarrow> (frame_entry \<Rightarrow> frame_entry) \<Rightarrow> kstate \<Rightarrow> kstate" where
  "upd_frame i f st = st\<lparr>frames := (frames st)[i := f (frames st ! i)]\<rparr>"

definition upd_slot :: "nat \<Rightarrow> (swap_slot \<Rightarrow> swap_slot) \<Rightarrow> kstate \<Rightarrow> kstate" where
  "upd_slot i f st = st\<lparr>slots := (slots st)[i := f (slots st ! i)]\<rparr>"

text \<open>Calls of the allocator and the page-table code on this state.\<close>

definition k_alloc :: "kstate \<Rightarrow> u64 \<times> kstate" where
  "k_alloc st = (let (pa, k1) = kalloc (km st) in (pa, st\<lparr>km := k1\<rparr>))"

definition k_free :: "u64 \<Rightarrow> kstate \<Rightarrow> kstate result" where
  "k_free pa st = bindR (kfree (kend st) pa (km st)) (\<lambda>k1. Ok (st\<lparr>km := k1\<rparr>))"

definition k_walk :: "u64 \<Rightarrow> u64 \<Rightarrow> bool \<Rightarrow> kstate \<Rightarrow> (u64 \<times> kstate) result" where
  "k_walk pt va alloc st = bindR (walk pt va alloc (km st)) (\<lambda>(a, k1). Ok (a, st\<lparr>km := k1\<rparr>))"

definition k_mappages :: "u64 \<Rightarrow> u64 \<Rightarrow> u64 \<Rightarrow> u64 \<Rightarrow> u64 \<Rightarrow> kstate \<Rightarrow> (int \<times> kstate) result" where
  "k_mappages pt va sz pa perm st = bindR (mappages pt va sz pa perm (km st)) (\<lambda>(r, k1). Ok (r, st\<lparr>km := k1\<rparr>))"

definition k_load :: "u64 \<Rightarrow> kstate \<Rightarrow> u64" where
  "k_load a st = load64 (mem (km st)) a"

definition k_store :: "u64 \<Rightarrow> u64 \<Rightarrow> kstate \<Rightarrow> kstate" where
  "k_store a v st = st\<lparr>km := (km st)\<lparr>mem := store64 a v (mem (km st))\<rparr>\<rparr>"

definition k_bytes :: "u64 \<Rightarrow> nat \<Rightarrow> kstate \<Rightarrow> byte list" where
  "k_bytes a n st = read_bytes (mem (km st)) a n"

definition k_write :: "u64 \<Rightarrow> byte list \<Rightarrow> kstate \<Rightarrow> kstate" where
  "k_write a bs st = st\<lparr>km := (km st)\<lparr>mem := write_bytes a bs (mem (km st))\<rparr>\<rparr>"

definition k_memset :: "u64 \<Rightarrow> byte \<Rightarrow> kstate \<Rightarrow> kstate" where
  "k_memset pa c st = st\<lparr>km := (km st)\<lparr>mem := memset_page pa c (mem (km st))\<rparr>\<rparr>"

definition k_memmove :: "u64 \<Rightarrow> u64 \<Rightarrow> nat \<Rightarrow> kstate \<Rightarrow> kstate" where
  "k_memmove dst src n st = st\<lparr>km := (km st)\<lparr>mem := memmove dst src n (mem (km st))\<rparr>\<rparr>"

text \<open>The kernel's static storage at boot, with the addresses the linker chose.\<close>

definition blank_proc :: proc where
  "blank_proc = \<lparr>p_state = UNUSED, p_chan = NoChan, p_killed = 0, p_xstate = 0, p_pid = 0, p_parent = None, p_kstack = 0,
     p_sz = 0, p_pagetable = 0, p_trapframe = 0, p_context = replicate 14 0, p_ofile = replicate NOFILE None, p_cwd = None,
     p_name = replicate 16 0, p_syscount = 0, p_level = 0, p_used_ticks = 0, p_total_ticks = [0, 0, 0, 0],
     p_times_scheduled = 0, p_slice_start = 0, p_page_faults = 0, p_pages_evicted = 0, p_pages_swapped_in = 0,
     p_pages_swapped_out = 0, p_resident = 0, p_disk_reads = 0, p_disk_writes = 0, p_total_latency = 0, p_disk_ops = 0\<rparr>"

definition boot_kstate :: "u64 \<Rightarrow> u64 \<Rightarrow> u64 \<Rightarrow> u64 \<Rightarrow> kstate" where
  "boot_kstate ke et tr fr = \<lparr>km = \<lparr>mem = (\<lambda>_. 0), freelist = 0\<rparr>, kend = ke, etext = et, trampoline = tr, forkret_addr = fr,
     procs = replicate NPROC blank_proc, curp = None, initproc = None, nextpid = 1, npids = 0,
     frames = replicate MAX_FRAMES \<lparr>f_used = False, f_proc = None, f_va = 0, f_pa = 0, f_ref = False, f_grace = 0\<rparr>,
     clock_hand = 0, slots = replicate MAX_SWAP \<lparr>ss_used = False, ss_proc = None, ss_va = 0, ss_block = 0\<rparr>, swap_head = 0,
     raid = raid_boot 0\<rparr>"

end
