(* ===== verification/Swap.thy ===== *)
theory Swap
  imports Kstate
begin

text \<open>
  Swap slots, \<^verbatim>\<open>kernel/swap.c\<close>, and the frame table with its clock replacement, the second half of
  \<^verbatim>\<open>kernel/kalloc.c\<close>. The kernel runs one process at a time here; the locks of the two tables are
  not part of the state.
\<close>

section \<open>Swap slots\<close>

definition blank_slot :: swap_slot where
  "blank_slot = \<lparr>ss_used = False, ss_proc = None, ss_va = 0, ss_block = 0\<rparr>"

definition swap_init :: "kstate \<Rightarrow> kstate" where
  "swap_init st = st\<lparr>raid := raid_init (raid st), slots := replicate MAX_SWAP blank_slot\<rparr>"

definition swap_alloc :: "kstate \<Rightarrow> int \<times> kstate" where
  "swap_alloc st =
     (case find_index (\<lambda>s. \<not> ss_used s) (slots st) of
        Some i \<Rightarrow> (int i, upd_slot i (\<lambda>s. s\<lparr>ss_used := True\<rparr>) st)
      | None \<Rightarrow> (-1, st))"

definition swap_free :: "nat \<Rightarrow> kstate \<Rightarrow> kstate" where
  "swap_free i st = upd_slot i (\<lambda>s. s\<lparr>ss_used := False, ss_proc := None, ss_va := 0\<rparr>) st"

text \<open>The seek of the swap device's simulated head, and the statistics of the process charged.\<close>

definition swap_seek :: "u32 \<Rightarrow> kstate \<Rightarrow> u32 \<times> kstate" where
  "swap_seek blk st = (seek_dist blk (swap_head st) + ROTATIONAL_CONST, st\<lparr>swap_head := blk\<rparr>)"

definition swap_write :: "nat \<Rightarrow> u64 \<Rightarrow> nat option \<Rightarrow> u64 \<Rightarrow> nat option \<Rightarrow> kstate \<Rightarrow> kstate result" where
  "swap_write slot pa victim va creditor st =
     (let blk = SWAP_START_BLOCK + of_nat slot * of_nat BLOCKS_PER_PAGE;
          st1 = upd_slot slot (\<lambda>s. s\<lparr>ss_block := blk, ss_proc := victim, ss_va := va\<rparr>) st;
          (latency, st2) = swap_seek blk st1
      in bindR (raid_write blk (k_bytes pa PGSIZE st2) (raid st2)) (\<lambda>r.
         Ok (upd_popt creditor (\<lambda>p. p\<lparr>p_disk_writes := p_disk_writes p + 1,
               p_total_latency := p_total_latency p + ucast latency, p_disk_ops := p_disk_ops p + 1\<rparr>) (st2\<lparr>raid := r\<rparr>))))"

definition swap_read :: "nat \<Rightarrow> u64 \<Rightarrow> nat option \<Rightarrow> kstate \<Rightarrow> kstate result" where
  "swap_read slot pa creditor st =
     (let blk = ss_block (slots st ! slot); (latency, st1) = swap_seek blk st
      in bindR (raid_read blk (raid st1)) (\<lambda>bs.
         Ok (upd_popt creditor (\<lambda>p. p\<lparr>p_disk_reads := p_disk_reads p + 1,
               p_total_latency := p_total_latency p + ucast latency, p_disk_ops := p_disk_ops p + 1\<rparr>) (k_write pa bs st1))))"

section \<open>The frame table\<close>

definition blank_frame :: frame_entry where
  "blank_frame = \<lparr>f_used = False, f_proc = None, f_va = 0, f_pa = 0, f_ref = False, f_grace = 0\<rparr>"

definition kinit :: "kstate \<Rightarrow> kstate result" where
  "kinit st =
     bindR (freerange (kend st) (kend st) PHYSTOP (km st)) (\<lambda>k1.
     Ok (st\<lparr>km := k1, frames := replicate MAX_FRAMES blank_frame\<rparr>))"

text \<open>
  One of the two sweeps of \<open>clock_pick_victim\<close>: at most \<open>n\<close> steps of the hand, passing over the
  frames that are not eligible, clearing set reference bits, stopping at a clear one.
\<close>

fun clock_sweep :: "nat \<Rightarrow> (frame_entry \<Rightarrow> bool) \<Rightarrow> kstate \<Rightarrow> nat option \<times> kstate" where
  "clock_sweep 0 elig st = (None, st)"
| "clock_sweep (Suc n) elig st =
     (let idx = clock_hand st; f = frames st ! idx;
          st1 = st\<lparr>clock_hand := (idx + 1) mod MAX_FRAMES\<rparr>
      in if \<not> elig f then clock_sweep n elig st1
         else if f_ref f then clock_sweep n elig (upd_frame idx (\<lambda>f. f\<lparr>f_ref := False\<rparr>) st1)
         else (Some idx, st1))"

definition clock_pick_victim :: "nat option \<Rightarrow> kstate \<Rightarrow> (nat \<times> kstate) result" where
  "clock_pick_victim cp st =
     (case clock_sweep (2 * MAX_FRAMES) (\<lambda>f. f_used f \<and> f_proc f = cp) st of
        (Some idx, st1) \<Rightarrow> Ok (idx, st1)
      | (None, st1) \<Rightarrow>
          (case clock_sweep (2 * MAX_FRAMES) (\<lambda>f. f_used f \<and> f_proc f \<noteq> None) st1 of
             (Some idx, st2) \<Rightarrow> Ok (idx, st2)
           | (None, st2) \<Rightarrow>
               (case find_index (\<lambda>f. f_used f \<and> f_proc f \<noteq> None) (frames st2) of
                  Some i \<Rightarrow> Ok (i, st2)
                | None \<Rightarrow> Panic ''clock_pick_victim: no evictable frame'')))"

text \<open>The entry a swapped-out page leaves in the page table.\<close>

definition swapped_pte :: "nat \<Rightarrow> pte \<Rightarrow> pte" where
  "swapped_pte slot e = (push_bit PTE_SWAP_SHIFT (of_nat slot) OR PTE_SWAPPED OR (PTE_FLAGS e AND 0x3FF)) AND NOT PTE_V"

definition mark_swapped :: "nat option \<Rightarrow> u64 \<Rightarrow> nat \<Rightarrow> kstate \<Rightarrow> kstate result" where
  "mark_swapped vp vva slot st =
     (case vp of None \<Rightarrow> Ok st
      | Some v \<Rightarrow>
          if p_pagetable (procs st ! v) = 0 then Ok st
          else bindR (k_walk (p_pagetable (procs st ! v)) vva False st) (\<lambda>(pte, st1).
            if pte \<noteq> 0 \<and> k_load pte st1 AND PTE_V \<noteq> 0
            then Ok (k_store pte (swapped_pte slot (k_load pte st1)) st1) else Ok st1))"

definition drop_frame :: "nat \<Rightarrow> kstate \<Rightarrow> kstate" where
  "drop_frame i st = upd_frame i (\<lambda>f. f\<lparr>f_used := False, f_proc := None\<rparr>) st"

definition kalloc_user :: "nat option \<Rightarrow> u64 \<Rightarrow> kstate \<Rightarrow> (u64 \<times> kstate) result" where
  "kalloc_user p va st =
     (case find_index (\<lambda>f. \<not> f_used f) (frames st) of
        Some i \<Rightarrow>
          let st1 = upd_frame i (\<lambda>f. f\<lparr>f_used := True, f_proc := p, f_va := va, f_ref := True, f_grace := 0\<rparr>) st;
              (pa, st2) = k_alloc st1
          in if pa = 0 then Ok (0, drop_frame i st2)
             else Ok (pa, upd_frame i (\<lambda>f. f\<lparr>f_pa := pa\<rparr>) st2)
      | None \<Rightarrow>
          bindR (clock_pick_victim p st) (\<lambda>(v, st1).
          let vp = f_proc (frames st1 ! v); vva = f_va (frames st1 ! v); vpa = f_pa (frames st1 ! v);
              st2 = upd_frame v (\<lambda>f. f\<lparr>f_used := True, f_proc := p, f_va := va, f_pa := 0, f_ref := True, f_grace := 0\<rparr>) st1;
              (slot, st3) = swap_alloc st2
          in if slot < 0 then Ok (0, drop_frame v st3)
             else bindR (swap_write (nat slot) vpa vp vva p st3) (\<lambda>st4.
               bindR (mark_swapped vp vva (nat slot) st4) (\<lambda>st5.
               let st6 = upd_popt vp (\<lambda>q. q\<lparr>p_pages_evicted := p_pages_evicted q + 1,
                     p_pages_swapped_out := p_pages_swapped_out q + 1, p_resident := p_resident q - 1\<rparr>) st5
               in bindR (k_free vpa st6) (\<lambda>st7.
                  let (pa, st8) = k_alloc st7
                  in if pa = 0 then Ok (0, drop_frame v st8)
                     else Ok (pa, upd_frame v (\<lambda>f. f\<lparr>f_pa := pa\<rparr>) st8))))))"

definition evict_page :: "nat \<Rightarrow> kstate \<Rightarrow> kstate result" where
  "evict_page idx st =
     (let f = frames st ! idx; st1 = drop_frame idx st
      in case f_proc f of
           None \<Rightarrow> Ok st1
         | Some p \<Rightarrow>
             if p_state (procs st ! p) = UNUSED then Ok st1
             else bindR (k_walk (p_pagetable (procs st1 ! p)) (f_va f) False st1) (\<lambda>(pte, st2).
               if pte = 0 \<or> k_load pte st2 AND PTE_V = 0 then Ok st2
               else let pa = PTE2PA (k_load pte st2); (slot, st3) = swap_alloc st2
                 in if slot < 0 then Ok st3
                    else bindR (swap_write (nat slot) pa (Some p) (f_va f) (Some p) st3) (\<lambda>st4.
                      bindR (k_free pa (k_store pte (push_bit PTE_SWAP_SHIFT (of_nat (nat slot)) OR PTE_SWAPPED) st4)) (\<lambda>st5.
                      Ok (upd_proc p (\<lambda>q. q\<lparr>p_pages_evicted := p_pages_evicted q + 1,
                        p_pages_swapped_out := p_pages_swapped_out q + 1, p_resident := p_resident q - 1\<rparr>) st5)))))"

end
