(* ===== verification/Vm.thy ===== *)
theory Vm
  imports Swap
begin

text \<open>
  User address spaces with demand paging, the rest of \<^verbatim>\<open>kernel/vm.c\<close>: unmapping, growing and
  shrinking, copying for fork, the page-fault handler with lazy allocation and swap-in, and the
  copies between kernel and user memory. Loops over the pages of a range run over its page
  numbers; ranges do not wrap around the address space.
\<close>

section \<open>Kernel page table\<close>

definition UART0 :: u64 where "UART0 = 0x10000000"
definition VIRTIO0 :: u64 where "VIRTIO0 = 0x10001000"
definition PLIC :: u64 where "PLIC = 0x0c000000"
definition TRAMPOLINE :: u64 where "TRAMPOLINE = MAXVA - of_nat PGSIZE"
definition TRAPFRAME :: u64 where "TRAPFRAME = TRAMPOLINE - of_nat PGSIZE"
definition KSTACK :: "nat \<Rightarrow> u64" where "KSTACK p = TRAMPOLINE - of_nat ((p + 1) * 2 * PGSIZE)"

definition k_kvmmap :: "u64 \<Rightarrow> u64 \<Rightarrow> u64 \<Rightarrow> u64 \<Rightarrow> u64 \<Rightarrow> kstate \<Rightarrow> kstate result" where
  "k_kvmmap kpgtbl va pa sz perm st = bindR (kvmmap kpgtbl va pa sz perm (km st)) (\<lambda>k1. Ok (st\<lparr>km := k1\<rparr>))"

definition proc_mapstacks :: "u64 \<Rightarrow> kstate \<Rightarrow> kstate result" where
  "proc_mapstacks kpgtbl st =
     forR (\<lambda>p st. let (pa, st1) = k_alloc st
        in if pa = 0 then Panic ''kalloc''
           else k_kvmmap kpgtbl (KSTACK p) pa (of_nat PGSIZE) (PTE_R OR PTE_W) st1) [0..<NPROC] st"

text \<open>A null page from the allocator would be written to here; that call does not return.\<close>

definition kvmmake :: "kstate \<Rightarrow> (u64 \<times> kstate) result" where
  "kvmmake st =
     (let (kpgtbl, st1) = k_alloc st in
      if kpgtbl = 0 then Panic ''kvmmake: null''
      else let st2 = k_memset kpgtbl 0 st1; pg = of_nat PGSIZE; rw = PTE_R OR PTE_W; rx = PTE_R OR PTE_X in
        bindR (k_kvmmap kpgtbl UART0 UART0 pg rw st2) (\<lambda>st3.
        bindR (k_kvmmap kpgtbl VIRTIO0 VIRTIO0 pg rw st3) (\<lambda>st4.
        bindR (k_kvmmap kpgtbl PLIC PLIC 0x4000000 rw st4) (\<lambda>st5.
        bindR (k_kvmmap kpgtbl KERNBASE KERNBASE (etext st5 - KERNBASE) rx st5) (\<lambda>st6.
        bindR (k_kvmmap kpgtbl (etext st6) (etext st6) (PHYSTOP - etext st6) rw st6) (\<lambda>st7.
        bindR (k_kvmmap kpgtbl TRAMPOLINE (trampoline st7) pg rx st7) (\<lambda>st8.
        bindR (proc_mapstacks kpgtbl st8) (\<lambda>st9. Ok (kpgtbl, st9)))))))))"

section \<open>Unmapping\<close>

definition pte_slot :: "pte \<Rightarrow> nat" where
  "pte_slot e = unat (drop_bit PTE_SWAP_SHIFT e AND 0xFF)"

definition forget_frame :: "u64 \<Rightarrow> kstate \<Rightarrow> kstate" where
  "forget_frame pa st =
     (case find_index (\<lambda>f. f_used f \<and> f_pa f = pa) (frames st) of
        Some i \<Rightarrow> upd_frame i (\<lambda>f. f\<lparr>f_used := False, f_proc := None, f_pa := 0, f_va := 0\<rparr>) st
      | None \<Rightarrow> st)"

definition unmap_one :: "u64 \<Rightarrow> bool \<Rightarrow> u64 \<Rightarrow> kstate \<Rightarrow> kstate result" where
  "unmap_one pt do_free a st =
     bindR (k_walk pt a False st) (\<lambda>(pte, st1).
     if pte = 0 then Ok st1
     else let e = k_load pte st1 in
       if e AND PTE_SWAPPED \<noteq> 0 then Ok (k_store pte 0 (swap_free (pte_slot e) st1))
       else if e AND PTE_V = 0 then Ok st1
       else bindR (if do_free then k_free (PTE2PA e) (forget_frame (PTE2PA e) st1) else Ok st1) (\<lambda>st2.
         Ok (k_store pte 0 st2)))"

definition uvmunmap :: "u64 \<Rightarrow> u64 \<Rightarrow> nat \<Rightarrow> bool \<Rightarrow> kstate \<Rightarrow> kstate result" where
  "uvmunmap pt va npages do_free st =
     (if unat va mod PGSIZE \<noteq> 0 then Panic ''uvmunmap: not aligned''
      else forR (\<lambda>k. unmap_one pt do_free (va + of_nat (k * PGSIZE))) [0..<npages] st)"

definition uvmdealloc :: "u64 \<Rightarrow> u64 \<Rightarrow> u64 \<Rightarrow> kstate \<Rightarrow> (u64 \<times> kstate) result" where
  "uvmdealloc pt oldsz newsz st =
     (if newsz \<ge> oldsz then Ok (oldsz, st)
      else if PGROUNDUP newsz < PGROUNDUP oldsz then
        let npages = unat (PGROUNDUP oldsz - PGROUNDUP newsz) div PGSIZE in
        bindR (case curp st of None \<Rightarrow> Ok st
               | Some p \<Rightarrow> forR (\<lambda>k st.
                   bindR (k_walk pt (PGROUNDUP newsz + of_nat (k * PGSIZE)) False st) (\<lambda>(pte, st1).
                   Ok (if pte \<noteq> 0 \<and> k_load pte st1 AND PTE_V \<noteq> 0
                       then upd_proc p (\<lambda>q. q\<lparr>p_resident := p_resident q - 1\<rparr>) st1 else st1))) [0..<npages] st) (\<lambda>st1.
        bindR (uvmunmap pt (PGROUNDUP newsz) npages True st1) (\<lambda>st2. Ok (newsz, st2)))
      else Ok (newsz, st))"

section \<open>Growing\<close>

text \<open>\<open>base\<close> is the rounded old size, to which a failure shrinks back.\<close>

fun uvmalloc_loop :: "u64 \<Rightarrow> u64 \<Rightarrow> u64 \<Rightarrow> u64 list \<Rightarrow> u64 \<Rightarrow> kstate \<Rightarrow> (u64 \<times> kstate) result" where
  "uvmalloc_loop pt base xperm [] newsz st = Ok (newsz, st)"
| "uvmalloc_loop pt base xperm (a # rest) newsz st =
     bindR (kalloc_user (curp st) a st) (\<lambda>(pa, st1).
     if pa = 0 then bindR (uvmdealloc pt a base st1) (\<lambda>(_, st2). Ok (0, st2))
     else bindR (k_mappages pt a (of_nat PGSIZE) pa (PTE_R OR PTE_U OR xperm) (k_memset pa 0 st1)) (\<lambda>(r, st2).
       if r \<noteq> 0 then
         bindR (k_free pa st2) (\<lambda>st3.
         bindR (uvmdealloc pt a base st3) (\<lambda>(_, st4). Ok (0, st4)))
       else uvmalloc_loop pt base xperm rest newsz st2))"

definition pages_from :: "u64 \<Rightarrow> u64 \<Rightarrow> u64 list" where
  "pages_from lo hi = map (\<lambda>k. lo + of_nat (k * PGSIZE)) [0..<(unat hi - unat lo + PGSIZE - 1) div PGSIZE]"

definition uvmalloc :: "u64 \<Rightarrow> u64 \<Rightarrow> u64 \<Rightarrow> u64 \<Rightarrow> kstate \<Rightarrow> (u64 \<times> kstate) result" where
  "uvmalloc pt oldsz newsz xperm st =
     (if newsz < oldsz then Ok (oldsz, st)
      else uvmalloc_loop pt (PGROUNDUP oldsz) xperm (pages_from (PGROUNDUP oldsz) newsz) newsz st)"

section \<open>Freeing a page table\<close>

text \<open>
  \<open>freewalk\<close> recurses through tables; the three levels of Sv39 bound its depth. A table hanging
  below the third level would send the code on; that path is an error here.
\<close>

fun freewalk :: "nat \<Rightarrow> u64 \<Rightarrow> kstate \<Rightarrow> kstate result" where
  "freewalk 0 pt st = Panic ''freewalk: too deep''"
| "freewalk (Suc l) pt st =
     bindR (forR (\<lambda>i st.
        let e = k_load (pte_addr pt (of_nat i)) st in
        if e AND PTE_V \<noteq> 0 \<and> e AND (PTE_R OR PTE_W OR PTE_X) = 0
        then bindR (freewalk l (PTE2PA e) st) (\<lambda>st1. Ok (k_store (pte_addr pt (of_nat i)) 0 st1))
        else if e AND PTE_V \<noteq> 0 then Panic ''freewalk: leaf'' else Ok st) [0..<512] st) (k_free pt)"

definition uvmfree :: "u64 \<Rightarrow> u64 \<Rightarrow> kstate \<Rightarrow> kstate result" where
  "uvmfree pt sz st =
     bindR (if sz > 0 then uvmunmap pt 0 (unat (PGROUNDUP sz) div PGSIZE) True st else Ok st) (freewalk 3 pt)"

section \<open>Copying an address space\<close>

definition uvmcopy_err :: "u64 \<Rightarrow> u64 \<Rightarrow> kstate \<Rightarrow> (int \<times> kstate) result" where
  "uvmcopy_err new i st = bindR (uvmunmap new 0 (unat i div PGSIZE) True st) (\<lambda>st1. Ok (-1, st1))"

fun uvmcopy_loop :: "u64 \<Rightarrow> u64 \<Rightarrow> nat option \<Rightarrow> u64 list \<Rightarrow> kstate \<Rightarrow> (int \<times> kstate) result" where
  "uvmcopy_loop old new newp [] st = Ok (0, st)"
| "uvmcopy_loop old new newp (i # rest) st =
     bindR (k_walk old i False st) (\<lambda>(pte, st1).
     if pte = 0 then uvmcopy_loop old new newp rest st1
     else let e = k_load pte st1 in
     if e AND PTE_SWAPPED \<noteq> 0 then
       let (newslot, st2) = swap_alloc st1 in
       if newslot < 0 then uvmcopy_err new i st2
       else let newblk = SWAP_START_BLOCK + of_nat (nat newslot) * of_nat BLOCKS_PER_PAGE;
                st3 = upd_slot (nat newslot) (\<lambda>s. s\<lparr>ss_block := newblk, ss_used := True, ss_proc := None, ss_va := i\<rparr>) st2 in
         bindR (raid_copy (ss_block (slots st3 ! pte_slot e)) newblk (raid st3)) (\<lambda>r.
         bindR (k_walk new i True (st3\<lparr>raid := r\<rparr>)) (\<lambda>(newpte, st4).
         if newpte = 0 then uvmcopy_err new i st4
         else uvmcopy_loop old new newp rest
           (k_store newpte (push_bit PTE_SWAP_SHIFT (of_nat (nat newslot)) OR PTE_SWAPPED OR (PTE_FLAGS (k_load pte st4) AND 0x3FF)) st4)))
     else if e AND PTE_V = 0 then uvmcopy_loop old new newp rest st1
     else
       bindR (kalloc_user newp i st1) (\<lambda>(pa, st2).
       if pa = 0 then uvmcopy_err new i st2
       else bindR (k_mappages new i (of_nat PGSIZE) pa (PTE_FLAGS e) (k_memmove pa (PTE2PA e) PGSIZE st2)) (\<lambda>(r, st3).
         if r \<noteq> 0 then bindR (k_free pa st3) (uvmcopy_err new i)
         else uvmcopy_loop old new newp rest st3)))"

definition uvmcopy :: "u64 \<Rightarrow> u64 \<Rightarrow> u64 \<Rightarrow> nat option \<Rightarrow> kstate \<Rightarrow> (int \<times> kstate) result" where
  "uvmcopy old new sz newp st = uvmcopy_loop old new newp (pages_from 0 sz) st"

section \<open>The page-fault handler\<close>

text \<open>
  \<open>myproc()\<close> without a process would be a null dereference; that call does not return.
\<close>

definition vmfault :: "u64 \<Rightarrow> u64 \<Rightarrow> bool \<Rightarrow> kstate \<Rightarrow> (u64 \<times> kstate) result" where
  "vmfault pt va0 wr st =
     (case curp st of None \<Rightarrow> Panic ''vmfault: no process''
      | Some p \<Rightarrow>
        let va = PGROUNDDOWN va0 in
        if va \<ge> p_sz (procs st ! p) then Ok (0, st)
        else bindR (k_walk pt va True st) (\<lambda>(pte, st1).
          if pte = 0 then Ok (0, st1)
          else let e = k_load pte st1 in
          if e AND PTE_SWAPPED \<noteq> 0 then
            bindR (kalloc_user (Some p) va st1) (\<lambda>(pa, st2).
            if pa = 0 then Ok (0, st2)
            else bindR (swap_read (pte_slot e) pa (Some p) st2) (\<lambda>st3.
              let st4 = swap_free (pte_slot e) st3;
                  e1 = (PA2PTE pa OR PTE_V OR (PTE_FLAGS (k_load pte st4) AND 0x3FF)) AND NOT PTE_SWAPPED
              in Ok (pa, upd_proc p (\<lambda>q. q\<lparr>p_pages_swapped_in := p_pages_swapped_in q + 1, p_resident := p_resident q + 1\<rparr>)
                     (k_store pte e1 st4))))
          else if e AND PTE_V = 0 then
            bindR (kalloc_user (Some p) va st1) (\<lambda>(pa, st2).
            if pa = 0 then Ok (0, st2)
            else Ok (pa, upd_proc p (\<lambda>q. q\<lparr>p_page_faults := p_page_faults q + 1, p_resident := p_resident q + 1\<rparr>)
                   (k_store pte (PA2PTE pa OR PTE_V OR PTE_R OR PTE_W OR PTE_U) (k_memset pa 0 st2))))
          else Ok (PTE2PA e,
            case find_index (\<lambda>f. f_used f \<and> f_proc f = Some p \<and> f_va f = va) (frames st1) of
              Some i \<Rightarrow> upd_frame i (\<lambda>f. f\<lparr>f_ref := True\<rparr>) st1 | None \<Rightarrow> st1)))"

section \<open>Copies between kernel and user memory\<close>

definition page_left :: "u64 \<Rightarrow> nat" where
  "page_left va = PGSIZE - unat (va - PGROUNDDOWN va)"

lemma page_left_pos [simp]: "0 < page_left va"
proof -
  have le: "PGROUNDDOWN va \<le> va" by (simp add: word_le_nat_alt unat_PGROUNDDOWN)
  have "unat (va - PGROUNDDOWN va) = unat va - unat va div PGSIZE * PGSIZE"
    using unat_sub [OF le] by (simp add: unat_PGROUNDDOWN)
  also have "\<dots> = unat va mod PGSIZE" by (simp add: minus_div_mult_eq_mod)
  finally show ?thesis by (simp add: page_left_def)
qed

function copyout :: "u64 \<Rightarrow> u64 \<Rightarrow> byte list \<Rightarrow> kstate \<Rightarrow> (int \<times> kstate) result" where
  "copyout pt dstva src st =
     (if src = [] then Ok (0, st)
      else let va0 = PGROUNDDOWN dstva in
      if va0 \<ge> MAXVA then Ok (-1, st)
      else bindR (bindR (walkaddr pt va0 (km st)) (\<lambda>pa0. if pa0 = 0 then vmfault pt va0 False st else Ok (pa0, st))) (\<lambda>(pa0, st1).
        if pa0 = 0 then Ok (-1, st1)
        else bindR (k_walk pt va0 False st1) (\<lambda>(pte, st2).
          if k_load pte st2 AND PTE_W = 0 then Ok (-1, st2)
          else let n = min (page_left dstva) (length src) in
            copyout pt (va0 + of_nat PGSIZE) (drop n src) (k_write (pa0 + (dstva - va0)) (take n src) st2))))"
  by pat_completeness auto

termination
  by (relation "measure (\<lambda>(pt, dstva, src, st). length src)") (auto simp: min_def)

text \<open>\<open>copyin\<close> returns the bytes that arrived at \<open>dst\<close>, also when it fails on the way.\<close>

function copyin :: "u64 \<Rightarrow> u64 \<Rightarrow> nat \<Rightarrow> kstate \<Rightarrow> (int \<times> byte list \<times> kstate) result" where
  "copyin pt srcva len st =
     (if len = 0 then Ok (0, [], st)
      else let va0 = PGROUNDDOWN srcva in
      bindR (bindR (walkaddr pt va0 (km st)) (\<lambda>pa0. if pa0 = 0 then vmfault pt va0 False st else Ok (pa0, st))) (\<lambda>(pa0, st1).
        if pa0 = 0 then Ok (-1, [], st1)
        else let n = min (page_left srcva) len in
          bindR (copyin pt (va0 + of_nat PGSIZE) (len - n) st1) (\<lambda>(r, bs, st2).
          Ok (r, k_bytes (pa0 + (srcva - va0)) n st1 @ bs, st2))))"
  by pat_completeness auto

termination
  by (relation "measure (\<lambda>(pt, srcva, len, st). len)") (auto simp: min_def)

text \<open>\<open>copyinstr\<close> returns what it stored at \<open>dst\<close>, the terminating NUL included.\<close>

function copyinstr :: "u64 \<Rightarrow> u64 \<Rightarrow> nat \<Rightarrow> kstate \<Rightarrow> (int \<times> byte list) result" where
  "copyinstr pt srcva mx st =
     (if mx = 0 then Ok (-1, [])
      else let va0 = PGROUNDDOWN srcva in
      bindR (walkaddr pt va0 (km st)) (\<lambda>pa0.
      if pa0 = 0 then Ok (-1, [])
      else let n = min (page_left srcva) mx; bs = k_bytes (pa0 + (srcva - va0)) n st in
        if 0 \<in> set bs then Ok (0, takeWhile (\<lambda>b. b \<noteq> 0) bs @ [0])
        else bindR (copyinstr pt (va0 + of_nat PGSIZE) (mx - n) st) (\<lambda>(r, rest). Ok (r, bs @ rest))))"
  by pat_completeness auto

termination
  by (relation "measure (\<lambda>(pt, srcva, mx, st). mx)") (auto simp: min_def)

declare copyout.simps [simp del] copyin.simps [simp del] copyinstr.simps [simp del]

end
