(* ===== verification/Proc.thy ===== *)
theory Proc
  imports Vm Bytes
begin

text \<open>
  Process management, \<^verbatim>\<open>kernel/proc.c\<close>, apart from the parts that need files: the process table,
  address spaces of processes, sleep and wakeup, wait, kill, and the multi-level feedback queue
  scheduler. Code runs on one CPU and is cut at its calls of \<open>swtch\<close>: a function that switches
  away is given up to its \<open>swtch\<close> and from its \<open>swtch\<close> on.
\<close>

section \<open>The process table\<close>

definition quantum_times :: "int list" where "quantum_times = [2, 4, 8, 16]"

definition procinit :: "kstate \<Rightarrow> kstate" where
  "procinit st = st\<lparr>procs := map (\<lambda>i. (procs st ! i)\<lparr>p_state := UNUSED, p_kstack := KSTACK i\<rparr>) [0..<NPROC]\<rparr>"

definition allocpid :: "kstate \<Rightarrow> int \<times> kstate" where
  "allocpid st = (nextpid st, st\<lparr>nextpid := signed_take_bit 31 (nextpid st + 1), npids := Suc (npids st)\<rparr>)"

definition proc_pagetable :: "nat \<Rightarrow> kstate \<Rightarrow> (u64 \<times> kstate) result" where
  "proc_pagetable p st =
     (let (pt, k1) = uvmcreate (km st); st1 = st\<lparr>km := k1\<rparr> in
      if pt = 0 then Ok (0, st1)
      else bindR (k_mappages pt TRAMPOLINE (of_nat PGSIZE) (trampoline st1) (PTE_R OR PTE_X) st1) (\<lambda>(r, st2).
        if r < 0 then bindR (uvmfree pt 0 st2) (\<lambda>st3. Ok (0, st3))
        else bindR (k_mappages pt TRAPFRAME (of_nat PGSIZE) (p_trapframe (procs st2 ! p)) (PTE_R OR PTE_W) st2) (\<lambda>(r, st3).
          if r < 0 then
            bindR (uvmunmap pt TRAMPOLINE 1 False st3) (\<lambda>st4.
            bindR (uvmfree pt 0 st4) (\<lambda>st5. Ok (0, st5)))
          else Ok (pt, st3))))"

definition proc_freepagetable :: "u64 \<Rightarrow> u64 \<Rightarrow> kstate \<Rightarrow> kstate result" where
  "proc_freepagetable pt sz st =
     bindR (uvmunmap pt TRAMPOLINE 1 False st) (\<lambda>st1.
     bindR (uvmunmap pt TRAPFRAME 1 False st1) (uvmfree pt sz))"

definition freeproc :: "nat \<Rightarrow> kstate \<Rightarrow> kstate result" where
  "freeproc p st =
     bindR (if p_trapframe (procs st ! p) \<noteq> 0 then k_free (p_trapframe (procs st ! p)) st else Ok st) (\<lambda>st1.
     let st2 = upd_proc p (\<lambda>q. q\<lparr>p_trapframe := 0\<rparr>) st1 in
     bindR (if p_pagetable (procs st2 ! p) \<noteq> 0
            then proc_freepagetable (p_pagetable (procs st2 ! p)) (p_sz (procs st2 ! p)) st2 else Ok st2) (\<lambda>st3.
     let st4 = upd_proc p (\<lambda>q. q\<lparr>p_pagetable := 0, p_sz := 0, p_pid := 0, p_parent := None,
                 p_name := (p_name q)[0 := 0], p_chan := NoChan, p_killed := 0, p_xstate := 0\<rparr>) st3;
         st5 = st4\<lparr>frames := map (\<lambda>f. if f_proc f = Some p then f\<lparr>f_used := False, f_proc := None\<rparr> else f) (frames st4),
                   slots := map (\<lambda>s. if ss_proc s = Some p then s\<lparr>ss_used := False, ss_proc := None\<rparr> else s) (slots st4)\<rparr>
     in Ok (upd_proc p (\<lambda>q. q\<lparr>p_state := UNUSED\<rparr>) st5)))"

definition allocproc :: "kstate \<Rightarrow> (nat option \<times> kstate) result" where
  "allocproc st =
     (case find_index (\<lambda>q. p_state q = UNUSED) (procs st) of
        None \<Rightarrow> Ok (None, st)
      | Some p \<Rightarrow>
          let st1 = upd_proc p (\<lambda>q. q\<lparr>p_level := 0, p_used_ticks := 0, p_times_scheduled := 0, p_slice_start := 0,
                p_total_ticks := [0, 0, 0, 0], p_page_faults := 0, p_pages_evicted := 0, p_pages_swapped_in := 0,
                p_pages_swapped_out := 0, p_resident := 0, p_disk_reads := 0, p_disk_writes := 0,
                p_total_latency := 0, p_disk_ops := 0\<rparr>) st;
              (pid, st2) = allocpid st1;
              st3 = upd_proc p (\<lambda>q. q\<lparr>p_pid := pid, p_state := USED, p_syscount := 0\<rparr>) st2;
              (tf, st4) = k_alloc st3;
              st5 = upd_proc p (\<lambda>q. q\<lparr>p_trapframe := tf\<rparr>) st4
          in if tf = 0 then bindR (freeproc p st5) (\<lambda>st6. Ok (None, st6))
             else bindR (proc_pagetable p st5) (\<lambda>(pt, st6).
               let st7 = upd_proc p (\<lambda>q. q\<lparr>p_pagetable := pt\<rparr>) st6 in
               if pt = 0 then bindR (freeproc p st7) (\<lambda>st8. Ok (None, st8))
               else Ok (Some p, upd_proc p (\<lambda>q. q\<lparr>p_context := [forkret_addr st7, p_kstack q + of_nat PGSIZE] @ replicate 12 0\<rparr>) st7)))"

definition growproc :: "int \<Rightarrow> nat \<Rightarrow> kstate \<Rightarrow> (int \<times> kstate) result" where
  "growproc n p st =
     (let q = procs st ! p; sz = p_sz q in
      if n > 0 then
        if sz + of_int n > TRAPFRAME then Ok (-1, st)
        else bindR (uvmalloc (p_pagetable q) sz (sz + of_int n) PTE_W st) (\<lambda>(sz1, st1).
          if sz1 = 0 then Ok (-1, st1) else Ok (0, upd_proc p (\<lambda>q. q\<lparr>p_sz := sz1\<rparr>) st1))
      else if n < 0 then
        bindR (uvmdealloc (p_pagetable q) sz (sz + of_int n) st) (\<lambda>(sz1, st1).
        Ok (0, upd_proc p (\<lambda>q. q\<lparr>p_sz := sz1\<rparr>) st1))
      else Ok (0, upd_proc p (\<lambda>q. q\<lparr>p_sz := sz\<rparr>) st))"

section \<open>Sleeping, waking, killing\<close>

definition wakeup :: "chan \<Rightarrow> kstate \<Rightarrow> kstate" where
  "wakeup ch st = st\<lparr>procs := map (\<lambda>i. let q = procs st ! i in
     if Some i \<noteq> curp st \<and> p_state q = SLEEPING \<and> p_chan q = ch then q\<lparr>p_state := RUNNABLE\<rparr> else q) [0..<length (procs st)]\<rparr>"

text \<open>\<open>sched\<close>'s checks before it switches: lock held, nesting depth, state, interrupts.\<close>

definition sched_check :: "bool \<Rightarrow> int \<Rightarrow> bool \<Rightarrow> nat \<Rightarrow> kstate \<Rightarrow> kstate result" where
  "sched_check holding noff intr p st =
     (if \<not> holding then Panic ''sched p->lock''
      else if noff \<noteq> 1 then Panic ''sched locks''
      else if p_state (procs st ! p) = RUNNING then Panic ''sched RUNNING''
      else if intr then Panic ''sched interruptible'' else Ok st)"

text \<open>
  \<open>yield\<close> and \<open>sleep\<close> up to the switch (they hold \<open>p->lock\<close> alone, with interrupts off), and \<open>sleep\<close>
  after it.
\<close>

definition yield_enter :: "nat \<Rightarrow> kstate \<Rightarrow> kstate result" where
  "yield_enter p st = sched_check True 1 False p (upd_proc p (\<lambda>q. q\<lparr>p_state := RUNNABLE\<rparr>) st)"

definition sleep_enter :: "chan \<Rightarrow> nat \<Rightarrow> kstate \<Rightarrow> kstate result" where
  "sleep_enter ch p st = sched_check True 1 False p (upd_proc p (\<lambda>q. q\<lparr>p_chan := ch, p_state := SLEEPING\<rparr>) st)"

definition sleep_leave :: "nat \<Rightarrow> kstate \<Rightarrow> kstate" where
  "sleep_leave p st = upd_proc p (\<lambda>q. q\<lparr>p_chan := NoChan\<rparr>) st"

definition kkill :: "int \<Rightarrow> kstate \<Rightarrow> int \<times> kstate" where
  "kkill pid st =
     (case find_index (\<lambda>q. p_pid q = pid) (procs st) of
        None \<Rightarrow> (-1, st)
      | Some p \<Rightarrow> (0, upd_proc p (\<lambda>q. let q1 = q\<lparr>p_killed := 1\<rparr> in
                     if p_state q1 = SLEEPING then q1\<lparr>p_state := RUNNABLE\<rparr> else q1) st))"

definition setkilled :: "nat \<Rightarrow> kstate \<Rightarrow> kstate" where
  "setkilled p st = upd_proc p (\<lambda>q. q\<lparr>p_killed := 1\<rparr>) st"

definition killed :: "nat \<Rightarrow> kstate \<Rightarrow> bool" where
  "killed p st = (p_killed (procs st ! p) \<noteq> 0)"

section \<open>Exit and wait\<close>

definition reparent_one :: "nat \<Rightarrow> nat \<Rightarrow> kstate \<Rightarrow> kstate" where
  "reparent_one p pp st =
     (if p_parent (procs st ! pp) = Some p
      then wakeup (case initproc st of Some i \<Rightarrow> ProcChan i | None \<Rightarrow> NoChan) (upd_proc pp (\<lambda>q. q\<lparr>p_parent := initproc st\<rparr>) st)
      else st)"

definition reparent :: "nat \<Rightarrow> kstate \<Rightarrow> kstate" where
  "reparent p st = fold (reparent_one p) [0..<NPROC] st"

text \<open>The part of \<open>kexit\<close> after the files are closed, up to its switch.\<close>

definition exit_zombie :: "int \<Rightarrow> nat \<Rightarrow> kstate \<Rightarrow> kstate result" where
  "exit_zombie status p st =
     (let st1 = reparent p st;
          st2 = wakeup (case p_parent (procs st1 ! p) of Some i \<Rightarrow> ProcChan i | None \<Rightarrow> NoChan) st1
      in sched_check True 1 False p (upd_proc p (\<lambda>q. q\<lparr>p_xstate := status, p_state := ZOMBIE\<rparr>) st2))"

text \<open>One scan of \<open>kwait\<close>: it returns a value, or the caller sleeps on its own slot.\<close>

datatype wait_outcome = WaitRet int | WaitSleep

fun kwait_scan :: "nat \<Rightarrow> u64 \<Rightarrow> nat list \<Rightarrow> bool \<Rightarrow> kstate \<Rightarrow> (wait_outcome \<times> kstate) result" where
  "kwait_scan p addr [] havekids st =
     (if \<not> havekids \<or> killed p st then Ok (WaitRet (-1), st)
      else bindR (sleep_enter (ProcChan p) p st) (\<lambda>st1. Ok (WaitSleep, st1)))"
| "kwait_scan p addr (pp # rest) havekids st =
     (if p_parent (procs st ! pp) = Some p then
        if p_state (procs st ! pp) = ZOMBIE then
          let pid = p_pid (procs st ! pp) in
          bindR (if addr \<noteq> 0
                 then copyout (p_pagetable (procs st ! p)) addr (enc 4 (word_of_int (p_xstate (procs st ! pp)) :: u32)) st
                 else Ok (0, st)) (\<lambda>(r, st1).
          if r < 0 then Ok (WaitRet (-1), st1)
          else bindR (freeproc pp st1) (\<lambda>st2. Ok (WaitRet pid, st2)))
        else kwait_scan p addr rest True st
      else kwait_scan p addr rest havekids st)"

definition kwait :: "nat \<Rightarrow> u64 \<Rightarrow> kstate \<Rightarrow> (wait_outcome \<times> kstate) result" where
  "kwait p addr st = kwait_scan p addr [0..<NPROC] False st"

section \<open>The scheduler\<close>

text \<open>\<open>scheduler\<close>'s two static variables.\<close>

record mlfq =
  prev_b :: u32
  prev_i :: nat

definition boost_proc :: "proc \<Rightarrow> proc" where
  "boost_proc q = (if p_state q = RUNNABLE \<or> p_state q = RUNNING then q\<lparr>p_level := 0, p_used_ticks := 0\<rparr> else q)"

definition sched_boost :: "u32 \<Rightarrow> mlfq \<times> kstate \<Rightarrow> mlfq \<times> kstate" where
  "sched_boost ticks s =
     (let (q, st) = s in
      if ticks - prev_b q \<ge> 128 then (q\<lparr>prev_b := ticks\<rparr>, st\<lparr>procs := map boost_proc (procs st)\<rparr>) else (q, st))"

text \<open>The search, level by level, each level round robin from \<open>prev_i\<close>.\<close>

definition pick_level :: "int \<Rightarrow> nat \<Rightarrow> proc list \<Rightarrow> nat option" where
  "pick_level lv start ps =
     find (\<lambda>i. p_state (ps ! i) = RUNNABLE \<and> p_level (ps ! i) = lv) (map (\<lambda>k. (start + k) mod NPROC) [0..<NPROC])"

fun pick_from :: "int list \<Rightarrow> nat \<Rightarrow> proc list \<Rightarrow> nat option" where
  "pick_from [] start ps = None"
| "pick_from (lv # lvs) start ps = (case pick_level lv start ps of Some i \<Rightarrow> Some i | None \<Rightarrow> pick_from lvs start ps)"

definition sched_pick :: "mlfq \<Rightarrow> kstate \<Rightarrow> nat option" where
  "sched_pick q st = pick_from [0, 1, 2, 3] (prev_i q) (procs st)"

text \<open>Up to the switch to the process, and the accounting when it switches back.\<close>

definition sched_dispatch :: "nat \<Rightarrow> mlfq \<times> kstate \<Rightarrow> mlfq \<times> kstate" where
  "sched_dispatch i s =
     (let (q, st) = s in
      (q\<lparr>prev_i := (i + 1) mod NPROC\<rparr>,
       (upd_proc i (\<lambda>p. p\<lparr>p_times_scheduled := p_times_scheduled p + 1, p_slice_start := sint (ucast (p_syscount p) :: u32),
          p_state := RUNNING\<rparr>) st)\<lparr>curp := Some i\<rparr>))"

definition delta_sys :: "proc \<Rightarrow> int" where
  "delta_sys p = sint (ucast (p_syscount p - of_int (p_slice_start p)) :: u32)"

definition account :: "proc \<Rightarrow> proc" where
  "account p =
     (if p_used_ticks p \<ge> quantum_times ! nat (p_level p)
      then (if delta_sys p < p_used_ticks p \<and> p_level p < 3 then p\<lparr>p_level := p_level p + 1\<rparr> else p)\<lparr>p_used_ticks := 0\<rparr>
      else p)"

definition sched_return :: "nat \<Rightarrow> kstate \<Rightarrow> kstate" where
  "sched_return i st = (upd_proc i account st)\<lparr>curp := None\<rparr>"

text \<open>One round of the loop before the switch: the process switched to, if any.\<close>

definition sched_round :: "u32 \<Rightarrow> mlfq \<times> kstate \<Rightarrow> nat option \<times> mlfq \<times> kstate" where
  "sched_round ticks s =
     (let (q, st) = sched_boost ticks s
      in case sched_pick q st of
           None \<Rightarrow> (None, q, st)
         | Some i \<Rightarrow> (Some i, sched_dispatch i (q, st)))"

text \<open>The timer interrupt's part in the traps: charge the running process, and the boost of the traps.\<close>

definition timer_charge :: "nat \<Rightarrow> kstate \<Rightarrow> kstate" where
  "timer_charge p st =
     (if p_state (procs st ! p) = RUNNING
      then upd_proc p (\<lambda>q. q\<lparr>p_used_ticks := p_used_ticks q + 1,
             p_total_ticks := (p_total_ticks q)[nat (p_level q) := p_total_ticks q ! nat (p_level q) + 1]\<rparr>) st
      else st)"

definition trap_boost :: "int \<Rightarrow> kstate \<Rightarrow> kstate" where
  "trap_boost gticks st =
     (if gticks mod 128 = 0
      then st\<lparr>procs := map (\<lambda>q. if p_state q = RUNNABLE then q\<lparr>p_level := 0\<rparr> else q) (procs st)\<rparr> else st)"

section \<open>Copies for the file system and statistics\<close>

definition either_copyout :: "bool \<Rightarrow> u64 \<Rightarrow> byte list \<Rightarrow> kstate \<Rightarrow> (bool \<times> kstate) result" where
  "either_copyout user_dst dst bs st =
     (if user_dst then
        (case curp st of None \<Rightarrow> Panic ''either_copyout: no process''
         | Some p \<Rightarrow> bindR (copyout (p_pagetable (procs st ! p)) dst bs st) (\<lambda>(r, st1). Ok (r = 0, st1)))
      else Ok (True, k_write dst bs st))"

definition either_copyin :: "bool \<Rightarrow> u64 \<Rightarrow> nat \<Rightarrow> kstate \<Rightarrow> (bool \<times> byte list \<times> kstate) result" where
  "either_copyin user_src src n st =
     (if user_src then
        (case curp st of None \<Rightarrow> Panic ''either_copyin: no process''
         | Some p \<Rightarrow> bindR (copyin (p_pagetable (procs st ! p)) src n st) (\<lambda>(r, bs, st1). Ok (r = 0, bs, st1)))
      else Ok (True, k_bytes src n st, st))"

record vmstats =
  v_page_faults :: int
  v_pages_evicted :: int
  v_pages_swapped_in :: int
  v_pages_swapped_out :: int
  v_resident :: int
  v_disk_reads :: u64
  v_disk_writes :: u64
  v_avg_latency :: u64

definition getvmstats :: "int \<Rightarrow> kstate \<Rightarrow> vmstats option" where
  "getvmstats pid st =
     (case find_index (\<lambda>q. p_pid q = pid \<and> p_state q \<noteq> UNUSED) (procs st) of
        None \<Rightarrow> None
      | Some i \<Rightarrow> let p = procs st ! i in
          Some \<lparr>v_page_faults = p_page_faults p, v_pages_evicted = p_pages_evicted p, v_pages_swapped_in = p_pages_swapped_in p,
            v_pages_swapped_out = p_pages_swapped_out p, v_resident = p_resident p, v_disk_reads = p_disk_reads p,
            v_disk_writes = p_disk_writes p,
            v_avg_latency = (if p_disk_ops p > 0 then p_total_latency p div of_int (p_disk_ops p) else 0)\<rparr>)"

end
