(* ===== verification/Sched.thy ===== *)
theory Sched
  imports Proc
begin

text \<open>
  The multi-level feedback queue: which process \<open>scheduler\<close> picks, what keeps the levels and the
  used ticks in range, and that round robin within the top level starves nobody.
\<close>

section \<open>Round-robin order\<close>

definition rr_dist :: "nat \<Rightarrow> nat \<Rightarrow> nat" where
  "rr_dist start i = ring_dist NPROC start i"

lemma rr_dist_lt [simp]: "rr_dist start i < NPROC"
  unfolding rr_dist_def by (rule ring_dist_lt) (simp add: NPROC_def)

lemmas rr_slot = ring_slot [where m = NPROC, folded rr_dist_def]
lemmas rr_dist_slot = ring_dist_slot [where m = NPROC, folded rr_dist_def]

lemma find_map_first:
  assumes "find P (map f [0..<n]) = Some x"
  obtains k where "k < n" "x = f k" "P x" "\<And>j. j < k \<Longrightarrow> \<not> P (f j)"
proof -
  obtain k where "k < length (map f [0..<n])" "P (map f [0..<n] ! k)" "x = map f [0..<n] ! k" "\<forall>j<k. \<not> P (map f [0..<n] ! j)"
    using assms by (auto simp: find_Some_iff)
  then show thesis using that [of k] by auto
qed

lemma pick_level_Some:
  assumes "pick_level lv start ps = Some i" "start < NPROC"
  shows "i < NPROC" "p_state (ps ! i) = RUNNABLE" "p_level (ps ! i) = lv"
    "j < NPROC \<Longrightarrow> p_state (ps ! j) = RUNNABLE \<Longrightarrow> p_level (ps ! j) = lv \<Longrightarrow> rr_dist start i \<le> rr_dist start j"
proof -
  obtain k where k: "k < NPROC" "i = (start + k) mod NPROC" "p_state (ps ! i) = RUNNABLE \<and> p_level (ps ! i) = lv"
      "\<And>j. j < k \<Longrightarrow> \<not> (p_state (ps ! ((start + j) mod NPROC)) = RUNNABLE \<and> p_level (ps ! ((start + j) mod NPROC)) = lv)"
    using assms(1) unfolding pick_level_def by (rule find_map_first) blast
  show "i < NPROC" using k(2) by (simp add: NPROC_def)
  show "p_state (ps ! i) = RUNNABLE" "p_level (ps ! i) = lv" using k(3) by auto
  show "rr_dist start i \<le> rr_dist start j" if "j < NPROC" "p_state (ps ! j) = RUNNABLE" "p_level (ps ! j) = lv"
    using rr_dist_slot [OF assms(2) k(1)] k(2) k(4) [of "rr_dist start j"] rr_slot [OF assms(2) that(1)] that(2,3)
    by (auto simp: not_less [symmetric])
qed

lemma pick_level_None:
  assumes "pick_level lv start ps = None" "start < NPROC" "j < NPROC"
  shows "\<not> (p_state (ps ! j) = RUNNABLE \<and> p_level (ps ! j) = lv)"
proof -
  have "\<forall>x \<in> (\<lambda>k. (start + k) mod NPROC) ` {0..<NPROC}. \<not> (p_state (ps ! x) = RUNNABLE \<and> p_level (ps ! x) = lv)"
    using assms(1) unfolding pick_level_def find_None_iff by auto
  moreover have "j \<in> (\<lambda>k. (start + k) mod NPROC) ` {0..<NPROC}"
    using rr_slot [OF assms(2,3)] by (intro image_eqI [of _ _ "rr_dist start j"]) auto
  ultimately show ?thesis by blast
qed

lemma pick_from_Some:
  assumes "pick_from lvs start ps = Some i" "start < NPROC" "sorted lvs"
  shows "i < NPROC \<and> p_state (ps ! i) = RUNNABLE \<and> p_level (ps ! i) \<in> set lvs \<and>
    (\<forall>j<NPROC. p_state (ps ! j) = RUNNABLE \<and> p_level (ps ! j) \<in> set lvs \<longrightarrow>
       p_level (ps ! i) < p_level (ps ! j) \<or> p_level (ps ! i) = p_level (ps ! j) \<and> rr_dist start i \<le> rr_dist start j)"
  using assms
proof (induction lvs)
  case (Cons lv lvs)
  show ?case
  proof (cases "pick_level lv start ps")
    case (Some i')
    then have i: "i' = i" using Cons.prems(1) by simp
    note p = pick_level_Some [OF Some Cons.prems(2), unfolded i]
    have "lv \<le> lv'" if "lv' \<in> set lvs" for lv' using Cons.prems(3) that by simp
    moreover have "p_level (ps ! i) < p_level (ps ! j) \<or> p_level (ps ! i) = p_level (ps ! j) \<and> rr_dist start i \<le> rr_dist start j"
      if "j < NPROC" "p_state (ps ! j) = RUNNABLE" "lv \<le> p_level (ps ! j)" for j
      using p(3) p(4) [OF that(1,2)] that(3) by linarith
    moreover have "rr_dist start i \<le> rr_dist start j"
      if "j < NPROC" "p_state (ps ! j) = RUNNABLE" "p_level (ps ! j) = lv" for j using p(4) that .
    ultimately show ?thesis using p(1-3) by auto
  next
    case None
    then have r: "pick_from lvs start ps = Some i" using Cons.prems(1) by simp
    have "sorted lvs" using Cons.prems(3) by simp
    note ih = Cons.IH [OF r Cons.prems(2) this]
    have "\<not> (p_state (ps ! j) = RUNNABLE \<and> p_level (ps ! j) = lv)" if "j < NPROC" for j
      by (rule pick_level_None [OF None Cons.prems(2) that])
    then show ?thesis using ih by auto
  qed
qed simp

lemma pick_from_None:
  assumes "pick_from lvs start ps = None" "start < NPROC" "j < NPROC" "p_state (ps ! j) = RUNNABLE"
  shows "p_level (ps ! j) \<notin> set lvs"
  using assms(1)
proof (induction lvs)
  case (Cons lv lvs)
  then have "pick_level lv start ps = None" "pick_from lvs start ps = None" by (auto split: option.splits)
  then show ?case using pick_level_None [OF _ assms(2,3)] Cons.IH assms(4) by auto
qed simp

section \<open>The levels stay in range\<close>

definition proc_ok :: "proc \<Rightarrow> bool" where
  "proc_ok p = (0 \<le> p_level p \<and> p_level p \<le> 3 \<and> 0 \<le> p_used_ticks p \<and> length (p_total_ticks p) = 4)"

definition mlfq_ok :: "mlfq \<times> kstate \<Rightarrow> bool" where
  "mlfq_ok s = (length (procs (snd s)) = NPROC \<and> prev_i (fst s) < NPROC \<and> (\<forall>p\<in>set (procs (snd s)). proc_ok p))"

text \<open>
  With the bound on the used ticks that the accounting keeps up: a process is charged one tick at
  a time, and the accounting that follows resets them at the quantum, 16 at most.
\<close>

definition proc_fit :: "proc \<Rightarrow> bool" where
  "proc_fit p = (proc_ok p \<and> p_used_ticks p < 16)"

definition charge :: "proc \<Rightarrow> proc" where
  "charge q = q\<lparr>p_used_ticks := p_used_ticks q + 1,
     p_total_ticks := (p_total_ticks q)[nat (p_level q) := p_total_ticks q ! nat (p_level q) + 1]\<rparr>"

lemma proc_fit_upd [simp]:
  "proc_fit (q\<lparr>p_state := v1\<rparr>) = proc_fit q" "proc_fit (q\<lparr>p_chan := v2\<rparr>) = proc_fit q" "proc_fit (q\<lparr>p_killed := v3\<rparr>) = proc_fit q"
  "proc_fit (q\<lparr>p_xstate := v4\<rparr>) = proc_fit q" "proc_fit (q\<lparr>p_pid := v5\<rparr>) = proc_fit q" "proc_fit (q\<lparr>p_parent := v6\<rparr>) = proc_fit q"
  "proc_fit (q\<lparr>p_sz := v7\<rparr>) = proc_fit q" "proc_fit (q\<lparr>p_pagetable := v8\<rparr>) = proc_fit q" "proc_fit (q\<lparr>p_trapframe := v9\<rparr>) = proc_fit q"
  "proc_fit (q\<lparr>p_context := v10\<rparr>) = proc_fit q" "proc_fit (q\<lparr>p_ofile := v11\<rparr>) = proc_fit q" "proc_fit (q\<lparr>p_cwd := v12\<rparr>) = proc_fit q"
  "proc_fit (q\<lparr>p_name := v13\<rparr>) = proc_fit q" "proc_fit (q\<lparr>p_syscount := v14\<rparr>) = proc_fit q"
  "proc_fit (q\<lparr>p_times_scheduled := v15\<rparr>) = proc_fit q" "proc_fit (q\<lparr>p_slice_start := v16\<rparr>) = proc_fit q"
  "proc_fit (q\<lparr>p_page_faults := v17\<rparr>) = proc_fit q" "proc_fit (q\<lparr>p_pages_evicted := v18\<rparr>) = proc_fit q"
  "proc_fit (q\<lparr>p_pages_swapped_in := v19\<rparr>) = proc_fit q" "proc_fit (q\<lparr>p_pages_swapped_out := v20\<rparr>) = proc_fit q"
  "proc_fit (q\<lparr>p_resident := v21\<rparr>) = proc_fit q" "proc_fit (q\<lparr>p_disk_reads := v22\<rparr>) = proc_fit q" "proc_fit (q\<lparr>p_disk_writes := v23\<rparr>) = proc_fit q"
  "proc_fit (q\<lparr>p_total_latency := v24\<rparr>) = proc_fit q" "proc_fit (q\<lparr>p_disk_ops := v25\<rparr>) = proc_fit q"
  by (simp_all add: proc_fit_def proc_ok_def)

lemma quantum_le: "proc_ok p \<Longrightarrow> quantum_times ! nat (p_level p) \<le> 16"
proof -
  assume "proc_ok p"
  then have "p_level p \<in> {0, 1, 2, 3}" by (auto simp: proc_ok_def)
  then show ?thesis by (auto simp: quantum_times_def)
qed

lemma account_fit: "proc_ok p \<Longrightarrow> proc_fit (account p)"
  using quantum_le [of p] by (auto simp: account_def proc_fit_def proc_ok_def)

lemma charge_ok: "proc_ok p \<Longrightarrow> proc_ok (charge p)"
  by (simp add: charge_def proc_ok_def)

lemma boost_fit: "proc_fit p \<Longrightarrow> proc_fit (boost_proc p)"
  by (auto simp: boost_proc_def proc_fit_def proc_ok_def)

section \<open>The choice\<close>

lemma sched_pick_spec:
  assumes "mlfq_ok (q, st)"
  shows "case sched_pick q st of
      None \<Rightarrow> \<forall>j<NPROC. p_state (procs st ! j) \<noteq> RUNNABLE
    | Some i \<Rightarrow> i < NPROC \<and> p_state (procs st ! i) = RUNNABLE \<and>
        (\<forall>j<NPROC. p_state (procs st ! j) = RUNNABLE \<longrightarrow> p_level (procs st ! i) \<le> p_level (procs st ! j) \<and>
          (p_level (procs st ! i) = p_level (procs st ! j) \<longrightarrow> rr_dist (prev_i q) i \<le> rr_dist (prev_i q) j))"
proof -
  have s: "prev_i q < NPROC" using assms by (simp add: mlfq_ok_def)
  have lv: "p_level (procs st ! j) \<in> set [0, 1, 2, 3]" if "j < NPROC" for j
  proof -
    have "proc_ok (procs st ! j)" using assms that by (simp add: mlfq_ok_def)
    then show ?thesis by (auto simp: proc_ok_def)
  qed
  show ?thesis
  proof (cases "sched_pick q st")
    case None
    then have "\<forall>j<NPROC. p_state (procs st ! j) \<noteq> RUNNABLE"
      using pick_from_None [OF _ s, of "[0, 1, 2, 3]" "procs st"] lv unfolding sched_pick_def by blast
    then show ?thesis using None by simp
  next
    case (Some i)
    have "sorted [0, 1, 2, 3 :: int]" by simp
    then have p: "i < NPROC \<and> p_state (procs st ! i) = RUNNABLE \<and>
      (\<forall>j<NPROC. p_state (procs st ! j) = RUNNABLE \<longrightarrow> p_level (procs st ! i) < p_level (procs st ! j) \<or>
         p_level (procs st ! i) = p_level (procs st ! j) \<and> rr_dist (prev_i q) i \<le> rr_dist (prev_i q) j)"
      using pick_from_Some [of "[0, 1, 2, 3]" "prev_i q" "procs st" i] s lv Some unfolding sched_pick_def by blast
    then show ?thesis using Some by (auto simp: order_le_less)
  qed
qed

text \<open>A state with two runnable processes, for examples.\<close>

definition two_runnable :: kstate where
  "two_runnable = (boot_kstate 0 0 0 0)\<lparr>procs := (replicate NPROC blank_proc)
     [3 := blank_proc\<lparr>p_state := RUNNABLE, p_level := 1\<rparr>, 5 := blank_proc\<lparr>p_state := RUNNABLE\<rparr>]\<rparr>"

lemma two_runnable_nth:
  "j < NPROC \<Longrightarrow> procs two_runnable ! j =
     (if j = 5 then blank_proc\<lparr>p_state := RUNNABLE\<rparr> else if j = 3 then blank_proc\<lparr>p_state := RUNNABLE, p_level := 1\<rparr> else blank_proc)"
  by (simp add: two_runnable_def nth_list_update NPROC_def)

lemma two_runnable_ok: "i < NPROC \<Longrightarrow> mlfq_ok (\<lparr>prev_b = 0, prev_i = i\<rparr>, two_runnable)"
proof -
  assume i: "i < NPROC"
  have "proc_ok p" if pin: "p \<in> set (procs two_runnable)" for p
  proof -
    have "length (procs two_runnable) = NPROC" by (simp add: two_runnable_def)
    then obtain j where "j < NPROC" "p = procs two_runnable ! j" using in_set_conv_nth [of p "procs two_runnable"] pin by auto
    then show ?thesis using two_runnable_nth by (simp add: proc_ok_def blank_proc_def)
  qed
  then show ?thesis using i by (simp add: mlfq_ok_def) (simp add: two_runnable_def)
qed

lemma two_runnable_state: "j < NPROC \<Longrightarrow> (p_state (procs two_runnable ! j) = RUNNABLE) = (j = 3 \<or> j = 5)"
  "p_level (procs two_runnable ! 5) = 0" "p_level (procs two_runnable ! 3) = 1"
  by (simp_all add: two_runnable_nth blank_proc_def) (simp_all add: two_runnable_nth blank_proc_def NPROC_def)

section \<open>Properties of the scheduler\<close>

text \<open>
  C33. The scheduler's choice. In a state with all levels in range it finds a process exactly when
  one is runnable, and then a runnable one of the highest priority (lowest level), the first of
  that level in round-robin order after the last one it ran.
\<close>

theorem sched_pick_optimal:
  assumes "mlfq_ok (q, st)"
  shows "case sched_pick q st of
      None \<Rightarrow> \<forall>j<NPROC. p_state (procs st ! j) \<noteq> RUNNABLE
    | Some i \<Rightarrow> i < NPROC \<and> p_state (procs st ! i) = RUNNABLE \<and>
        (\<forall>j<NPROC. p_state (procs st ! j) = RUNNABLE \<longrightarrow> p_level (procs st ! i) \<le> p_level (procs st ! j) \<and>
          (p_level (procs st ! i) = p_level (procs st ! j) \<longrightarrow> rr_dist (prev_i q) i \<le> rr_dist (prev_i q) j))"
  by (rule sched_pick_spec [OF assms])

theorem sched_pick_optimal_witness:
  "sched_pick \<lparr>prev_b = 0, prev_i = 7\<rparr> two_runnable = Some 5"
proof -
  have n: "(5::nat) < NPROC" "(7::nat) < NPROC" by (simp_all add: NPROC_def)
  note p = sched_pick_optimal [OF two_runnable_ok [OF n(2)]]
  show ?thesis
  proof (cases "sched_pick \<lparr>prev_b = 0, prev_i = 7\<rparr> two_runnable")
    case None
    then show ?thesis using p n(1) two_runnable_state(1) [OF n(1)] by auto
  next
    case (Some i)
    then have "i < NPROC" "p_state (procs two_runnable ! i) = RUNNABLE" "p_level (procs two_runnable ! i) \<le> p_level (procs two_runnable ! 5)"
      using p n(1) two_runnable_state(1) [OF n(1)] by auto
    then show ?thesis using Some two_runnable_state by auto
  qed
qed

lemma rr_progress:
  assumes "i < NPROC" "j < NPROC" "s < NPROC" "i \<noteq> j" "rr_dist s i \<le> rr_dist s j"
  shows "rr_dist ((i + 1) mod NPROC) j < rr_dist s j"
proof -
  have ne: "rr_dist s i \<noteq> rr_dist s j" using rr_slot [OF assms(3,1)] rr_slot [OF assms(3,2)] assms(4) by metis
  define a where "a = rr_dist s i"
  define b where "b = rr_dist s j"
  have ab: "a < b" "b < NPROC" using ne assms(5) by (simp_all add: a_def b_def)
  have i: "i = (s + a) mod NPROC" and j: "j = (s + b) mod NPROC" using rr_slot assms(1-3) by (simp_all add: a_def b_def)
  have s1: "(i + 1) mod NPROC < NPROC" by (simp add: NPROC_def)
  have "j = ((i + 1) mod NPROC + (b - a - 1)) mod NPROC"
  proof -
    have "((i + 1) mod NPROC + (b - a - 1)) mod NPROC = (s + a + 1 + (b - a - 1)) mod NPROC"
      unfolding i by (simp add: mod_simps)
    also have "s + a + 1 + (b - a - 1) = s + b" using ab by simp
    finally show ?thesis using j by simp
  qed
  then have "rr_dist ((i + 1) mod NPROC) j = b - a - 1" using rr_dist_slot [OF s1, of "b - a - 1"] ab by simp
  then show ?thesis using ab by (simp add: b_def)
qed

text \<open>
  C35. No starvation at the top level: if process \<open>j\<close> is runnable at level 0 in each of 64
  consecutive scheduling rounds (whatever else happens between them), one of these rounds picks it.
\<close>

theorem top_level_no_starvation:
  assumes "\<forall>k<NPROC. mlfq_ok (q k, st k) \<and> p_state (procs (st k) ! j) = RUNNABLE \<and> p_level (procs (st k) ! j) = 0"
    and "\<forall>k i. sched_pick (q k) (st k) = Some i \<longrightarrow> q (Suc k) = fst (sched_dispatch i (q k, st k))" "j < NPROC"
  shows "\<exists>k<NPROC. sched_pick (q k) (st k) = Some j"
proof (rule ccontr)
  assume no: "\<not> (\<exists>k<NPROC. sched_pick (q k) (st k) = Some j)"
  have step: "rr_dist (prev_i (q (Suc k))) j < rr_dist (prev_i (q k)) j" if k: "k < NPROC" for k
  proof -
    have ok: "mlfq_ok (q k, st k)" "p_state (procs (st k) ! j) = RUNNABLE" "p_level (procs (st k) ! j) = 0" using assms(1) k by auto
    have s: "prev_i (q k) < NPROC" using ok(1) by (simp add: mlfq_ok_def)
    obtain i where i: "sched_pick (q k) (st k) = Some i" using sched_pick_spec [OF ok(1)] ok(2) assms(3) by (cases "sched_pick (q k) (st k)") auto
    then have c: "i < NPROC" "p_level (procs (st k) ! i) \<le> 0"
        "p_level (procs (st k) ! i) = 0 \<Longrightarrow> rr_dist (prev_i (q k)) i \<le> rr_dist (prev_i (q k)) j"
      using sched_pick_spec [OF ok(1)] ok(2,3) assms(3) by auto
    moreover have "0 \<le> p_level (procs (st k) ! i)"
    proof -
      have "proc_ok (procs (st k) ! i)" using ok(1) c(1) by (simp add: mlfq_ok_def)
      then show ?thesis by (simp add: proc_ok_def)
    qed
    ultimately have "rr_dist (prev_i (q k)) i \<le> rr_dist (prev_i (q k)) j" by simp
    moreover have "i \<noteq> j" using no i k by auto
    moreover have "prev_i (q (Suc k)) = (i + 1) mod NPROC" using assms(2) i by (simp add: sched_dispatch_def)
    ultimately show ?thesis using rr_progress [OF c(1) assms(3) s] by simp
  qed
  have "rr_dist (prev_i (q k)) j + k < NPROC" if "k \<le> NPROC" for k
    using that
  proof (induction k)
    case (Suc k)
    then show ?case using step [of k] by simp
  qed simp
  from this [of NPROC] show False by simp
qed

theorem top_level_no_starvation_witness:
  "\<exists>k<NPROC. sched_pick \<lparr>prev_b = 0, prev_i = (if k = 0 then 7 else 6)\<rparr> two_runnable = Some 5"
proof -
  define q where "q k = \<lparr>prev_b = 0, prev_i = (if k = 0 then 7 else 6)\<rparr>" for k :: nat
  have n: "(5::nat) < NPROC" "(3::nat) < NPROC" by (simp_all add: NPROC_def)
  have ok: "mlfq_ok (q k, two_runnable)" for k unfolding q_def by (rule two_runnable_ok) (simp add: NPROC_def)
  have "i = 5" if s: "sched_pick (q k) two_runnable = Some i" for k i
  proof -
    have "i < NPROC" "p_state (procs two_runnable ! i) = RUNNABLE" "p_level (procs two_runnable ! i) \<le> p_level (procs two_runnable ! 5)"
      using sched_pick_spec [OF ok, of k] s n(1) two_runnable_state(1) [OF n(1)] by auto
    then show ?thesis using two_runnable_state by auto
  qed
  moreover have "q (Suc k) = fst (sched_dispatch 5 (q k, two_runnable))" for k
    by (simp add: q_def sched_dispatch_def NPROC_def)
  ultimately have "\<forall>k i. sched_pick (q k) two_runnable = Some i \<longrightarrow> q (Suc k) = fst (sched_dispatch i (q k, two_runnable))"
    by blast
  then have "\<exists>k<NPROC. sched_pick (q k) two_runnable = Some 5"
    using top_level_no_starvation [of q "\<lambda>_. two_runnable" 5] ok two_runnable_state n by simp
  then show ?thesis by (simp add: q_def)
qed

end
