(* ===== verification/Clock.thy ===== *)
theory Clock
  imports Swap
begin

text \<open>
  The clock of the frame table against the rule it implements, the swap slots as storage for
  pages, and the page-table entries of swapped-out pages.
\<close>

section \<open>One sweep of the clock\<close>

definition clock_stop :: "(frame_entry \<Rightarrow> bool) \<Rightarrow> kstate \<Rightarrow> bool" where
  "clock_stop elig st = (elig (frames st ! clock_hand st) \<and> \<not> f_ref (frames st ! clock_hand st))"

definition clock_step :: "(frame_entry \<Rightarrow> bool) \<Rightarrow> kstate \<Rightarrow> kstate" where
  "clock_step elig st = (let idx = clock_hand st; st1 = st\<lparr>clock_hand := (idx + 1) mod MAX_FRAMES\<rparr> in
     if elig (frames st ! idx) then upd_frame idx (\<lambda>f. f\<lparr>f_ref := False\<rparr>) st1 else st1)"

lemma clock_sweep_Suc:
  "clock_sweep (Suc n) elig st =
     (if clock_stop elig st then (Some (clock_hand st), st\<lparr>clock_hand := (clock_hand st + 1) mod MAX_FRAMES\<rparr>)
      else clock_sweep n elig (clock_step elig st))"
  by (auto simp: clock_stop_def clock_step_def Let_def upd_frame_def)

lemma clock_sweep_pass:
  "(\<And>k. k < n \<Longrightarrow> \<not> clock_stop elig ((clock_step elig ^^ k) st)) \<Longrightarrow>
   clock_sweep (n + m) elig st = clock_sweep m elig ((clock_step elig ^^ n) st)"
proof (induction n arbitrary: st)
  case (Suc n)
  have "\<not> clock_stop elig st" using Suc.prems [of 0] by simp
  moreover have "\<not> clock_stop elig ((clock_step elig ^^ k) (clock_step elig st))" if "k < n" for k
    using Suc.prems [of "Suc k"] that by (simp add: funpow_swap1)
  ultimately show ?case using Suc.IH [of "clock_step elig st"] by (simp add: clock_sweep_Suc funpow_swap1 del: clock_sweep.simps)
qed simp

definition clear_ref :: "frame_entry \<Rightarrow> frame_entry" where
  "clear_ref f = f\<lparr>f_ref := False\<rparr>"

lemma clear_ref_twice [simp]: "clear_ref (clear_ref f) = clear_ref f"
  by (simp add: clear_ref_def)

text \<open>Classes of frames that do not depend on the reference bit.\<close>

definition bit_blind :: "(frame_entry \<Rightarrow> bool) \<Rightarrow> bool" where
  "bit_blind elig = (\<forall>f. elig (clear_ref f) = elig f)"

definition clock_ok :: "kstate \<Rightarrow> bool" where
  "clock_ok st = (length (frames st) = MAX_FRAMES \<and> clock_hand st < MAX_FRAMES)"

text \<open>The frame table after the hand has passed its first \<open>n\<close> positions.\<close>

definition passed :: "(frame_entry \<Rightarrow> bool) \<Rightarrow> nat \<Rightarrow> kstate \<Rightarrow> kstate" where
  "passed elig n st = st\<lparr>clock_hand := (clock_hand st + n) mod MAX_FRAMES,
     frames := map (\<lambda>j. let f = frames st ! j in
       if ring_dist MAX_FRAMES (clock_hand st) j < n \<and> elig f then clear_ref f else f) [0..<MAX_FRAMES]\<rparr>"

lemma MF: "0 < MAX_FRAMES"
  by (simp add: kconst)

lemma steps_passed:
  assumes ok: "clock_ok st" and el: "bit_blind elig" and n: "n \<le> MAX_FRAMES"
  shows "(clock_step elig ^^ n) st = passed elig n st"
  using n
proof (induction n)
  case 0
  have "map (\<lambda>j. let f = frames st ! j in f) [0..<MAX_FRAMES] = frames st"
    using ok by (simp add: clock_ok_def) (metis map_nth)
  then show ?case using ok by (simp add: passed_def clock_ok_def)
next
  case (Suc n)
  let ?h = "clock_hand st"
  let ?i = "(?h + n) mod MAX_FRAMES"
  have h: "?h < MAX_FRAMES" and nl: "n < MAX_FRAMES" "?i < MAX_FRAMES" using ok Suc.prems by (simp_all add: clock_ok_def kconst)
  have at: "ring_dist MAX_FRAMES ?h j = n \<longleftrightarrow> j = ?i" if "j < MAX_FRAMES" for j
    using ring_dist_slot [OF h nl(1)] ring_slot [OF h that] by auto
  have fr: "frames (passed elig n st) ! ?i = frames st ! ?i"
    using ring_dist_slot [OF h nl(1)] nl by (simp add: passed_def Let_def)
  have "clock_step elig (passed elig n st) = passed elig (Suc n) st"
  proof -
    have hand: "clock_hand (passed elig n st) = ?i" by (simp add: passed_def)
    have "frames (clock_step elig (passed elig n st)) = frames (passed elig (Suc n) st)"
    proof (rule nth_equalityI)
      show "length (frames (clock_step elig (passed elig n st))) = length (frames (passed elig (Suc n) st))"
        by (simp add: clock_step_def Let_def upd_frame_def passed_def)
      fix j assume "j < length (frames (clock_step elig (passed elig n st)))"
      then have j: "j < MAX_FRAMES" by (simp add: clock_step_def Let_def upd_frame_def passed_def split: if_splits)
      have "frames (clock_step elig (passed elig n st)) ! j =
          (if j = ?i \<and> elig (frames st ! ?i) then clear_ref (frames st ! ?i) else frames (passed elig n st) ! j)"
        using j nl fr hand by (auto simp: clock_step_def Let_def upd_frame_def passed_def nth_list_update clear_ref_def)
      also have "\<dots> = frames (passed elig (Suc n) st) ! j"
        using at [OF j] j by (auto simp: passed_def Let_def less_Suc_eq)
      finally show "frames (clock_step elig (passed elig n st)) ! j = frames (passed elig (Suc n) st) ! j" .
    qed
    moreover have "clock_step elig (passed elig n st) = (passed elig n st)\<lparr>frames := frames (clock_step elig (passed elig n st)),
        clock_hand := (?i + 1) mod MAX_FRAMES\<rparr>"
      using hand by (simp add: clock_step_def Let_def upd_frame_def)
    moreover have "(?i + 1) mod MAX_FRAMES = (?h + Suc n) mod MAX_FRAMES" by (simp add: mod_simps)
    ultimately show ?thesis by (simp add: passed_def)
  qed
  then show ?case using Suc by simp
qed

lemma stop_passed:
  assumes "clock_ok st" "n < MAX_FRAMES"
  shows "clock_stop elig (passed elig n st) = (let f = frames st ! ((clock_hand st + n) mod MAX_FRAMES) in elig f \<and> \<not> f_ref f)"
proof -
  have h: "clock_hand st < MAX_FRAMES" using assms(1) by (simp add: clock_ok_def)
  have "frames (passed elig n st) ! ((clock_hand st + n) mod MAX_FRAMES) = frames st ! ((clock_hand st + n) mod MAX_FRAMES)"
    using ring_dist_slot [OF h assms(2)] MF by (simp add: passed_def Let_def)
  then show ?thesis by (simp add: clock_stop_def Let_def) (simp add: passed_def)
qed

text \<open>The frames of a class that the hand stops at, in its order.\<close>

definition nearest :: "(frame_entry \<Rightarrow> bool) \<Rightarrow> kstate \<Rightarrow> nat \<Rightarrow> bool" where
  "nearest P st v = (v < MAX_FRAMES \<and> P (frames st ! v) \<and>
     (\<forall>j<MAX_FRAMES. P (frames st ! j) \<longrightarrow> ring_dist MAX_FRAMES (clock_hand st) v \<le> ring_dist MAX_FRAMES (clock_hand st) j))"

lemma nearest_ex: "j < MAX_FRAMES \<Longrightarrow> P (frames st ! j) \<Longrightarrow> \<exists>v. nearest P st v"
proof -
  assume j: "j < MAX_FRAMES" "P (frames st ! j)"
  define S where "S = {j. j < MAX_FRAMES \<and> P (frames st ! j)}"
  have "finite S" "S \<noteq> {}" using j by (auto simp: S_def)
  then obtain v where "v \<in> S" "\<forall>x\<in>S. ring_dist MAX_FRAMES (clock_hand st) v \<le> ring_dist MAX_FRAMES (clock_hand st) x"
    using finite_has_minimal [of "ring_dist MAX_FRAMES (clock_hand st) ` S"] by (metis (no_types, lifting) arg_min_if_finite(1) arg_min_least)
  then show ?thesis by (auto simp: nearest_def S_def)
qed

lemma sweep_clear:
  assumes ok: "clock_ok st" and el: "bit_blind elig"
    and v: "nearest (\<lambda>f. elig f \<and> \<not> f_ref f) st v" and n: "MAX_FRAMES \<le> n"
  defines "k \<equiv> ring_dist MAX_FRAMES (clock_hand st) v"
  shows "clock_sweep n elig st = (Some v, (passed elig k st)\<lparr>clock_hand := (v + 1) mod MAX_FRAMES\<rparr>)"
proof -
  have h: "clock_hand st < MAX_FRAMES" using ok by (simp add: clock_ok_def)
  have k: "k < MAX_FRAMES" "(clock_hand st + k) mod MAX_FRAMES = v"
    using ring_dist_lt [OF MF] ring_slot [OF h] v by (auto simp: k_def nearest_def)
  have "\<not> clock_stop elig ((clock_step elig ^^ j) st)" if "j < k" for j
  proof -
    let ?i = "(clock_hand st + j) mod MAX_FRAMES"
    have "ring_dist MAX_FRAMES (clock_hand st) ?i = j" using ring_dist_slot [OF h] that k(1) by simp
    moreover have "?i < MAX_FRAMES" using MF by simp
    ultimately have "\<not> (elig (frames st ! ?i) \<and> \<not> f_ref (frames st ! ?i))"
      using v that unfolding nearest_def k_def by (metis (no_types, lifting) not_le)
    then show ?thesis using steps_passed [OF ok el, of j] stop_passed [OF ok, of j] that k(1) by (simp add: Let_def)
  qed
  moreover have "k + (n - k) = n" using n k(1) by simp
  ultimately have "clock_sweep n elig st = clock_sweep (n - k) elig (passed elig k st)"
    using clock_sweep_pass [of k elig st "n - k"] steps_passed [OF ok el, of k] k(1) by simp
  moreover have "clock_stop elig (passed elig k st)" using stop_passed [OF ok k(1)] k(2) v by (simp add: nearest_def)
  moreover obtain m where "n - k = Suc m" using n k(1) by (metis Suc_diff_Suc less_le_trans)
  moreover have "clock_hand (passed elig k st) = v" using k(2) by (simp add: passed_def)
  ultimately show ?thesis by (simp add: clock_sweep_Suc del: clock_sweep.simps)
qed

lemma sweep_none:
  assumes ok: "clock_ok st" and el: "bit_blind elig"
    and no: "\<And>j. j < MAX_FRAMES \<Longrightarrow> \<not> (elig (frames st ! j) \<and> \<not> f_ref (frames st ! j))"
  shows "clock_sweep (MAX_FRAMES + m) elig st = clock_sweep m elig (passed elig MAX_FRAMES st)"
    "frames (passed elig MAX_FRAMES st) = map (\<lambda>f. if elig f then clear_ref f else f) (frames st)"
    "clock_hand (passed elig MAX_FRAMES st) = clock_hand st" "clock_ok (passed elig MAX_FRAMES st)"
proof -
  have len: "length (frames st) = MAX_FRAMES" using ok by (simp add: clock_ok_def)
  have "\<not> clock_stop elig ((clock_step elig ^^ j) st)" if "j < MAX_FRAMES" for j
    using steps_passed [OF ok el, of j] stop_passed [OF ok that] no MF that by (auto simp: Let_def)
  then show "clock_sweep (MAX_FRAMES + m) elig st = clock_sweep m elig (passed elig MAX_FRAMES st)"
    using clock_sweep_pass [of MAX_FRAMES elig st m] steps_passed [OF ok el, of MAX_FRAMES] by simp
  show "frames (passed elig MAX_FRAMES st) = map (\<lambda>f. if elig f then clear_ref f else f) (frames st)"
    by (rule nth_equalityI) (use len ring_dist_lt [OF MF] in \<open>auto simp: passed_def Let_def\<close>)
  show "clock_hand (passed elig MAX_FRAMES st) = clock_hand st" using ok by (simp add: passed_def clock_ok_def)
  then show "clock_ok (passed elig MAX_FRAMES st)" using ok by (simp add: clock_ok_def) (simp add: passed_def)
qed

text \<open>
  The whole sweep: the nearest eligible frame with a clear bit, or when all eligible bits are set
  the nearest eligible frame, or nothing.
\<close>

definition sweep_choice :: "(frame_entry \<Rightarrow> bool) \<Rightarrow> kstate \<Rightarrow> nat \<Rightarrow> bool" where
  "sweep_choice elig st v =
     (if \<exists>j<MAX_FRAMES. elig (frames st ! j) \<and> \<not> f_ref (frames st ! j)
      then nearest (\<lambda>f. elig f \<and> \<not> f_ref f) st v else nearest elig st v)"

text \<open>Two states that differ in the hand and in reference bits only.\<close>

definition same_but_bits :: "kstate \<Rightarrow> kstate \<Rightarrow> bool" where
  "same_but_bits st st' = (\<exists>fr h. st' = st\<lparr>frames := fr, clock_hand := h\<rparr> \<and> length fr = MAX_FRAMES \<and> h < MAX_FRAMES \<and>
     (\<forall>j<MAX_FRAMES. fr ! j = frames st ! j \<or> fr ! j = clear_ref (frames st ! j)))"

lemma passed_same: "h < MAX_FRAMES \<Longrightarrow> same_but_bits st ((passed elig k st)\<lparr>clock_hand := h\<rparr>)"
  unfolding same_but_bits_def passed_def by (rule exI, rule exI [of _ h]) (auto simp: Let_def)

lemma same_but_bits_trans:
  assumes "same_but_bits a b" "same_but_bits b c"
  shows "same_but_bits a c"
proof -
  obtain fr h where b: "b = a\<lparr>frames := fr, clock_hand := h\<rparr>" "length fr = MAX_FRAMES"
      "\<forall>j<MAX_FRAMES. fr ! j = frames a ! j \<or> fr ! j = clear_ref (frames a ! j)"
    using assms(1) by (auto simp: same_but_bits_def)
  obtain fr' h' where c: "c = b\<lparr>frames := fr', clock_hand := h'\<rparr>" "length fr' = MAX_FRAMES" "h' < MAX_FRAMES"
      "\<forall>j<MAX_FRAMES. fr' ! j = frames b ! j \<or> fr' ! j = clear_ref (frames b ! j)"
    using assms(2) by (auto simp: same_but_bits_def)
  have "fr' ! j = frames a ! j \<or> fr' ! j = clear_ref (frames a ! j)" if "j < MAX_FRAMES" for j
  proof -
    have "frames b = fr" using b(1) by simp
    then show ?thesis using b(3) c(4) that by (metis clear_ref_twice)
  qed
  then show ?thesis unfolding same_but_bits_def using b c by (intro exI [of _ fr'] exI [of _ h']) simp
qed

lemma same_but_bits_ok: "same_but_bits st st' \<Longrightarrow> clock_ok st'"
  by (auto simp: same_but_bits_def clock_ok_def)

lemma sweep_spec:
  assumes ok: "clock_ok st" and el: "bit_blind elig"
  shows "(\<exists>v st'. clock_sweep (2 * MAX_FRAMES) elig st = (Some v, st') \<and> sweep_choice elig st v \<and> same_but_bits st st' \<and>
      clock_hand st' = (v + 1) mod MAX_FRAMES) \<or>
    (clock_sweep (2 * MAX_FRAMES) elig st = (None, st) \<and> (\<forall>j<MAX_FRAMES. \<not> elig (frames st ! j)))"
proof (cases "\<exists>j<MAX_FRAMES. elig (frames st ! j) \<and> \<not> f_ref (frames st ! j)")
  case True
  then obtain v where v: "nearest (\<lambda>f. elig f \<and> \<not> f_ref f) st v" using nearest_ex [of _ "\<lambda>f. elig f \<and> \<not> f_ref f" st] by blast
  define k where "k = ring_dist MAX_FRAMES (clock_hand st) v"
  have run: "clock_sweep (2 * MAX_FRAMES) elig st = (Some v, (passed elig k st)\<lparr>clock_hand := (v + 1) mod MAX_FRAMES\<rparr>)"
    unfolding k_def by (rule sweep_clear [OF ok el v]) simp
  have "same_but_bits st ((passed elig k st)\<lparr>clock_hand := (v + 1) mod MAX_FRAMES\<rparr>)" by (rule passed_same) (simp add: MF)
  then show ?thesis using run v True by (auto simp: sweep_choice_def)
next
  case False
  then have no: "\<And>j. j < MAX_FRAMES \<Longrightarrow> \<not> (elig (frames st ! j) \<and> \<not> f_ref (frames st ! j))" by blast
  note pass = sweep_none [OF ok el no]
  define st1 where "st1 = passed elig MAX_FRAMES st"
  have two: "clock_sweep (2 * MAX_FRAMES) elig st = clock_sweep MAX_FRAMES elig st1"
    using pass(1) [of MAX_FRAMES] by (simp add: st1_def mult_2)
  have len: "length (frames st) = MAX_FRAMES" using ok by (simp add: clock_ok_def)
  have fr1: "frames st1 ! j = (if elig (frames st ! j) then clear_ref (frames st ! j) else frames st ! j)" if "j < MAX_FRAMES" for j
    using pass(2) that len by (simp add: st1_def)
  have st1: "st1 = st1\<lparr>clock_hand := clock_hand st\<rparr>" using pass(3) by (simp add: st1_def)
  have same1: "same_but_bits st st1"
    using passed_same [of "clock_hand st" st elig MAX_FRAMES] ok st1 by (simp add: clock_ok_def st1_def [symmetric])
  show ?thesis
  proof (cases "\<exists>j<MAX_FRAMES. elig (frames st ! j)")
    case True
    then obtain v where v: "nearest elig st v" using nearest_ex by blast
    have bl: "elig (frames st1 ! j) = elig (frames st ! j)" if "j < MAX_FRAMES" for j
      using fr1 [OF that] el by (simp add: bit_blind_def)
    have rf: "elig (frames st ! j) \<Longrightarrow> \<not> f_ref (frames st1 ! j)" if "j < MAX_FRAMES" for j
      using fr1 [OF that] by (simp add: clear_ref_def)
    have v1: "nearest (\<lambda>f. elig f \<and> \<not> f_ref f) st1 v"
      using v bl rf pass(3) unfolding nearest_def st1_def [symmetric] by auto
    define k where "k = ring_dist MAX_FRAMES (clock_hand st1) v"
    have ok1: "clock_ok st1" using pass(4) by (simp add: st1_def)
    have run: "clock_sweep MAX_FRAMES elig st1 = (Some v, (passed elig k st1)\<lparr>clock_hand := (v + 1) mod MAX_FRAMES\<rparr>)"
      unfolding k_def by (rule sweep_clear [OF ok1 el v1]) simp
    have "same_but_bits st1 ((passed elig k st1)\<lparr>clock_hand := (v + 1) mod MAX_FRAMES\<rparr>)" by (rule passed_same) (simp add: MF)
    then show ?thesis using run two v False same_but_bits_trans [OF same1] by (auto simp: sweep_choice_def)
  next
    case none: False
    have "frames st1 = frames st" by (rule nth_equalityI) (use fr1 none len pass(2) in \<open>auto simp: st1_def\<close>)
    then have e: "st1 = st" using same1 st1 by (auto simp: same_but_bits_def)
    have "clock_sweep MAX_FRAMES elig st = (None, st)"
      using sweep_none(1) [OF ok el no, of 0] e by (simp add: st1_def)
    then show ?thesis using two e none by simp
  qed
qed


section \<open>The victim\<close>

definition own_frame :: "nat option \<Rightarrow> frame_entry \<Rightarrow> bool" where
  "own_frame cp f = (f_used f \<and> f_proc f = cp)"

definition proc_frame :: "frame_entry \<Rightarrow> bool" where
  "proc_frame f = (f_used f \<and> f_proc f \<noteq> None)"

lemma bit_blind_classes: "bit_blind (own_frame cp)" "bit_blind proc_frame"
  by (simp_all add: bit_blind_def own_frame_def proc_frame_def clear_ref_def)

lemma clock_pick_victim_eq:
  "clock_pick_victim cp st =
     (case clock_sweep (2 * MAX_FRAMES) (own_frame cp) st of
        (Some idx, st1) \<Rightarrow> Ok (idx, st1)
      | (None, st1) \<Rightarrow>
          (case clock_sweep (2 * MAX_FRAMES) proc_frame st1 of
             (Some idx, st2) \<Rightarrow> Ok (idx, st2)
           | (None, st2) \<Rightarrow>
               (case find_index proc_frame (frames st2) of
                  Some i \<Rightarrow> Ok (i, st2)
                | None \<Rightarrow> Panic ''clock_pick_victim: no evictable frame'')))"
  unfolding clock_pick_victim_def own_frame_def [abs_def] proc_frame_def [abs_def] ..

lemma clock_victim:
  assumes ok: "clock_ok st"
  shows "if \<exists>j<MAX_FRAMES. own_frame cp (frames st ! j) \<or> proc_frame (frames st ! j)
    then \<exists>v st'. clock_pick_victim cp st = Ok (v, st') \<and> same_but_bits st st' \<and> clock_hand st' = (v + 1) mod MAX_FRAMES \<and>
      sweep_choice (if \<exists>j<MAX_FRAMES. own_frame cp (frames st ! j) then own_frame cp else proc_frame) st v
    else clock_pick_victim cp st = Panic ''clock_pick_victim: no evictable frame''"
  using sweep_spec [OF ok bit_blind_classes(1) [of cp]]
proof (elim disjE exE conjE)
  fix v st' assume a: "clock_sweep (2 * MAX_FRAMES) (own_frame cp) st = (Some v, st')" "sweep_choice (own_frame cp) st v"
    "same_but_bits st st'" "clock_hand st' = (v + 1) mod MAX_FRAMES"
  have "\<exists>j<MAX_FRAMES. own_frame cp (frames st ! j)"
    using a(2) by (auto simp: sweep_choice_def nearest_def split: if_splits)
  then show ?thesis using a by (auto simp: clock_pick_victim_eq)
next
  assume a: "clock_sweep (2 * MAX_FRAMES) (own_frame cp) st = (None, st)" "\<forall>j<MAX_FRAMES. \<not> own_frame cp (frames st ! j)"
  from sweep_spec [OF ok bit_blind_classes(2)] show ?thesis
  proof (elim disjE exE conjE)
    fix v st' assume b: "clock_sweep (2 * MAX_FRAMES) proc_frame st = (Some v, st')" "sweep_choice proc_frame st v"
      "same_but_bits st st'" "clock_hand st' = (v + 1) mod MAX_FRAMES"
    have "\<exists>j<MAX_FRAMES. proc_frame (frames st ! j)"
      using b(2) by (auto simp: sweep_choice_def nearest_def split: if_splits)
    then show ?thesis using a b by (auto simp: clock_pick_victim_eq)
  next
    assume b: "clock_sweep (2 * MAX_FRAMES) proc_frame st = (None, st)" "\<forall>j<MAX_FRAMES. \<not> proc_frame (frames st ! j)"
    have "find_index proc_frame (frames st) = None"
      using b(2) ok by (auto simp: find_index_None clock_ok_def in_set_conv_nth)
    then show ?thesis using a b by (auto simp: clock_pick_victim_eq)
  qed
qed

section \<open>Swap slots as storage\<close>

lemma k_bytes_write: "unat a + length bs \<le> 2 ^ 64 \<Longrightarrow> k_bytes a (length bs) (k_write a bs st) = bs"
  by (simp add: k_bytes_def k_write_def read_write_bytes)

lemma upd_popt_simps [simp]:
  "km (upd_popt c f st) = km st" "slots (upd_popt c f st) = slots st" "raid (upd_popt c f st) = raid st"
  "frames (upd_popt c f st) = frames st" "swap_head (upd_popt c f st) = swap_head st" "kend (upd_popt c f st) = kend st"
  by (cases c; simp add: upd_popt_def upd_proc_def)+

definition slot_block :: "nat \<Rightarrow> u32" where
  "slot_block s = SWAP_START_BLOCK + of_nat s * of_nat BLOCKS_PER_PAGE"

lemma unat_slot_block: "s < MAX_SWAP \<Longrightarrow> unat (slot_block s) = 4 * s"
  by (simp add: slot_block_def SWAP_START_BLOCK_def kconst unat_word_ariths unat_of_nat)

lemma slot_block_range: "s < MAX_SWAP \<Longrightarrow> page_range (slot_block s)"
  unfolding page_range_def using unat_slot_block by (simp add: kconst)

lemma slot_block_disjoint: "s < MAX_SWAP \<Longrightarrow> t < MAX_SWAP \<Longrightarrow> s \<noteq> t \<Longrightarrow> page_disjoint (slot_block s) (slot_block t)"
  unfolding page_disjoint_def by (simp add: unat_slot_block BLOCKS_PER_PAGE_def) presburger

text \<open>What a slot holds, and the slots whose record of the disk block is right.\<close>

definition slot_page :: "nat \<Rightarrow> kstate \<Rightarrow> byte list result" where
  "slot_page s st = raid_read (ss_block (slots st ! s)) (raid st)"

definition slot_ready :: "nat \<Rightarrow> kstate \<Rightarrow> bool" where
  "slot_ready s st = (s < MAX_SWAP \<and> length (slots st) = MAX_SWAP \<and> ss_block (slots st ! s) = slot_block s)"

lemma swap_write_ok:
  assumes "raid_full (raid st)" "s < MAX_SWAP" "length (slots st) = MAX_SWAP"
  obtains st' where "swap_write s pa vp va c st = Ok st'" "raid_full (raid st')" "slot_ready s st'" "km st' = km st"
    "slot_page s st' = Ok (k_bytes pa PGSIZE st)" "frames st' = frames st" "kend st' = kend st"
    "\<And>t. t \<noteq> s \<Longrightarrow> slot_ready t st \<Longrightarrow> slot_ready t st' \<and> slot_page t st' = slot_page t st"
proof -
  define st2 where "st2 = (upd_slot s (\<lambda>x. x\<lparr>ss_block := slot_block s, ss_proc := vp, ss_va := va\<rparr>) st)\<lparr>swap_head := slot_block s\<rparr>"
  have b: "k_bytes pa PGSIZE st2 = k_bytes pa PGSIZE st" by (simp add: k_bytes_def st2_def upd_slot_def)
  have rd: "raid st2 = raid st" by (simp add: st2_def upd_slot_def)
  obtain r where r: "raid_write (slot_block s) (k_bytes pa PGSIZE st) (raid st) = Ok r" "raid_full r"
      "raid_read (slot_block s) r = Ok (k_bytes pa PGSIZE st)"
      "\<And>k. page_range k \<Longrightarrow> page_disjoint (slot_block s) k \<Longrightarrow> raid_read k r = raid_read k (raid st)"
    using write_page_frame [OF assms(1) slot_block_range [OF assms(2)], of "k_bytes pa PGSIZE st" "''raid_write: bad mode''" "''raid_read: bad mode''"]
    unfolding raid_write_def raid_read_def by (auto simp: k_bytes_def)
  define f where "f = (\<lambda>p. p\<lparr>p_disk_writes := p_disk_writes p + 1,
     p_total_latency := p_total_latency p + ucast (seek_dist (slot_block s) (swap_head st) + ROTATIONAL_CONST), p_disk_ops := p_disk_ops p + 1\<rparr> :: proc)"
  have run: "swap_write s pa vp va c st = Ok (upd_popt c f (st2\<lparr>raid := r\<rparr>))"
    using r(1) b rd by (simp add: swap_write_def swap_seek_def Let_def slot_block_def [symmetric] f_def)
      (simp add: st2_def upd_slot_def)
  have sl: "slots st2 ! t = (if t = s then (slots st ! s)\<lparr>ss_block := slot_block s, ss_proc := vp, ss_va := va\<rparr> else slots st ! t)"
    "length (slots st2) = MAX_SWAP" for t
    using assms(2,3) by (auto simp: st2_def upd_slot_def)
  show thesis
  proof (rule that [OF run])
    fix t assume t: "t \<noteq> s" "slot_ready t st"
    then have tl: "t < MAX_SWAP" by (simp add: slot_ready_def)
    show "slot_ready t (upd_popt c f (st2\<lparr>raid := r\<rparr>)) \<and> slot_page t (upd_popt c f (st2\<lparr>raid := r\<rparr>)) = slot_page t st"
      using t sl r(4) [OF slot_block_range [OF tl] slot_block_disjoint [OF assms(2) tl]] tl
      by (auto simp: slot_ready_def slot_page_def)
  qed (use sl r assms(2) in \<open>simp_all add: slot_ready_def slot_page_def\<close>, auto simp: st2_def upd_slot_def)
qed

lemma swap_read_ok:
  assumes "slot_page s st = Ok bs" "unat pa + length bs \<le> 2 ^ 64"
  shows "\<exists>st'. swap_read s pa c st = Ok st' \<and> k_bytes pa (length bs) st' = bs \<and> km st' = km (k_write pa bs st) \<and>
    slots st' = slots st \<and> raid st' = raid st \<and> frames st' = frames st \<and> kend st' = kend st"
proof -
  have "k_bytes pa (length bs) (upd_popt c f st') = k_bytes pa (length bs) st'" for f st' by (simp add: k_bytes_def)
  then show ?thesis using assms k_bytes_write [OF assms(2)]
    by (simp add: swap_read_def swap_seek_def slot_page_def Let_def) (simp add: k_write_def k_bytes_def)
qed

section \<open>Theorems\<close>

text \<open>
  C36. Victim selection. With the hand inside the table \<open>clock_pick_victim\<close> always decides. If the
  allocating process owns frames the victim is one of them, whatever the levels of the processes
  and the bits of other frames; only a process without frames takes one from any owner. In the
  class it searches the victim is the first frame from the hand whose reference bit is clear; when
  all bits of the class are set, it is the first frame of the class from the hand, still an own
  one when there is one, the bits having been cleared on the way. Then the hand stands behind the
  victim, and only the hand and reference bits have changed. The call panics exactly when there
  is no candidate.
\<close>

theorem clock_pick_second_chance:
  assumes "clock_ok st"
  shows "if \<exists>j<MAX_FRAMES. own_frame cp (frames st ! j) \<or> proc_frame (frames st ! j)
    then \<exists>v st'. clock_pick_victim cp st = Ok (v, st') \<and> same_but_bits st st' \<and> clock_hand st' = (v + 1) mod MAX_FRAMES \<and>
      sweep_choice (if \<exists>j<MAX_FRAMES. own_frame cp (frames st ! j) then own_frame cp else proc_frame) st v
    else clock_pick_victim cp st = Panic ''clock_pick_victim: no evictable frame''"
  by (rule clock_victim [OF assms])

text \<open>
  Three frames are in use, the middle one by another process and with a clear bit. The hand is at
  that one; the process that owns the other two takes the one with the clear bit, which is behind
  the end of the table, or, when both bits are set, the nearer one.
\<close>

definition held :: "nat \<Rightarrow> bool \<Rightarrow> frame_entry" where
  "held p r = blank_frame\<lparr>f_used := True, f_proc := Some p, f_ref := r\<rparr>"

definition three_held :: "bool \<Rightarrow> kstate" where
  "three_held r = (boot_kstate 0x80020000 0 0 0)\<lparr>clock_hand := 1,
     frames := held 3 r # held 5 False # held 3 True # replicate 29 blank_frame\<rparr>"

lemma three_held_frames:
  "clock_ok (three_held r)" "clock_hand (three_held r) = 1"
  "j < MAX_FRAMES \<Longrightarrow> own_frame (Some 3) (frames (three_held r) ! j) = (j = 0 \<or> j = 2)"
  "frames (three_held r) ! 0 = held 3 r" "frames (three_held r) ! 2 = held 3 True"
  by (auto simp: three_held_def clock_ok_def kconst own_frame_def held_def blank_frame_def nth_Cons' split: if_splits)

theorem clock_pick_second_chance_witness:
  "clock_ok (three_held False) \<and> (\<exists>st'. clock_pick_victim (Some 3) (three_held False) = Ok (0, st') \<and> clock_hand st' = 1) \<and>
   clock_ok (three_held True) \<and> (\<exists>st'. clock_pick_victim (Some 3) (three_held True) = Ok (2, st') \<and> clock_hand st' = 3)"
proof -
  have own: "\<exists>j<MAX_FRAMES. own_frame (Some 3) (frames (three_held r) ! j)" for r
    using three_held_frames(3) [of 0 r] MF by (intro exI [of _ 0]) simp
  have pick: "\<exists>v st'. clock_pick_victim (Some 3) (three_held r) = Ok (v, st') \<and> clock_hand st' = (v + 1) mod MAX_FRAMES \<and>
      sweep_choice (own_frame (Some 3)) (three_held r) v" for r
    using clock_pick_second_chance [OF three_held_frames(1) [of r], of "Some 3"] own [of r] by (auto split: if_splits)
  have at: "sweep_choice (own_frame (Some 3)) (three_held r) v \<Longrightarrow> v = 0 \<or> v = 2" for r v
    using three_held_frames(3) [of v r] by (auto simp: sweep_choice_def nearest_def split: if_splits)
  have "v \<noteq> 2" if "sweep_choice (own_frame (Some 3)) (three_held False) v" for v
  proof
    assume "v = 2"
    moreover have "\<exists>j<MAX_FRAMES. own_frame (Some 3) (frames (three_held False) ! j) \<and> \<not> f_ref (frames (three_held False) ! j)"
      using three_held_frames(3) [of 0 False] three_held_frames(4) [of False] MF by (intro exI [of _ 0]) (simp add: held_def)
    ultimately show False using that three_held_frames(5) [of False] by (simp add: sweep_choice_def nearest_def held_def)
  qed
  moreover have "v \<noteq> 0" if "sweep_choice (own_frame (Some 3)) (three_held True) v" for v
  proof
    assume v: "v = 0"
    have "ring_dist MAX_FRAMES 1 0 \<le> ring_dist MAX_FRAMES 1 2"
      using that three_held_frames(3) [of 2 True] three_held_frames(2,4) [of True]
      by (simp add: sweep_choice_def nearest_def held_def v kconst split: if_splits)
    then show False by (simp add: ring_dist_def kconst)
  qed
  ultimately show ?thesis using pick [of False] pick [of True] at [of False] at [of True] three_held_frames(1)
    by (fastforce simp: kconst)
qed

text \<open>
  C37. Swap round trip. On a healthy array, in any mode, writing a page to a slot succeeds; reading
  that slot later, into any page and with any changes in between to memory, processes and frames,
  gives the page back byte for byte, and what the other slots hold is untouched.
\<close>

theorem swap_write_read:
  assumes "raid_full (raid st)" "s < MAX_SWAP" "length (slots st) = MAX_SWAP"
  shows "\<exists>st1. swap_write s pa vp va c st = Ok st1 \<and> raid_full (raid st1) \<and>
    (\<forall>st2 pa2 c2. raid st2 = raid st1 \<and> slots st2 = slots st1 \<and> unat pa2 + PGSIZE \<le> 2 ^ 64 \<longrightarrow>
      (\<exists>st3. swap_read s pa2 c2 st2 = Ok st3 \<and> k_bytes pa2 PGSIZE st3 = k_bytes pa PGSIZE st)) \<and>
    (\<forall>t. t \<noteq> s \<and> slot_ready t st \<longrightarrow> slot_ready t st1 \<and> slot_page t st1 = slot_page t st)"
proof -
  obtain st1 where st1: "swap_write s pa vp va c st = Ok st1" "raid_full (raid st1)"
      "slot_page s st1 = Ok (k_bytes pa PGSIZE st)"
      "\<And>t. t \<noteq> s \<Longrightarrow> slot_ready t st \<Longrightarrow> slot_ready t st1 \<and> slot_page t st1 = slot_page t st"
    using swap_write_ok [OF assms] by metis
  have "\<exists>st3. swap_read s pa2 c2 st2 = Ok st3 \<and> k_bytes pa2 PGSIZE st3 = k_bytes pa PGSIZE st"
    if "raid st2 = raid st1" "slots st2 = slots st1" "unat pa2 + PGSIZE \<le> 2 ^ 64" for st2 pa2 c2
  proof -
    have len: "length (k_bytes pa PGSIZE st) = PGSIZE" by (simp add: k_bytes_def)
    have "slot_page s st2 = Ok (k_bytes pa PGSIZE st)" using st1(3) that by (simp add: slot_page_def)
    then show ?thesis using swap_read_ok [of s st2 "k_bytes pa PGSIZE st" pa2 c2] that(3) len by auto
  qed
  then show ?thesis using st1 by blast
qed

theorem swap_write_read_witness:
  "\<exists>st1. swap_write 5 0x80021000 (Some 1) 0x4000 (Some 2) (swap_init (boot_kstate 0x80020000 0 0 0)) = Ok st1 \<and>
    (\<exists>st3. swap_read 5 0x80022000 None st1 = Ok st3 \<and>
      k_bytes 0x80022000 PGSIZE st3 = k_bytes 0x80021000 PGSIZE (swap_init (boot_kstate 0x80020000 0 0 0)))"
proof -
  let ?st = "swap_init (boot_kstate 0x80020000 0 0 0)"
  have "raid_full (raid ?st)" "(5::nat) < MAX_SWAP" "length (slots ?st) = MAX_SWAP"
    by (simp_all add: swap_init_def raid_full_init kconst)
  note rt = swap_write_read [OF this, of "0x80021000" "Some 1" "0x4000" "Some 2"]
  have "unat (0x80022000 :: u64) + PGSIZE \<le> 2 ^ 64" by (simp add: kconst)
  with rt show ?thesis by blast
qed

end
