(* ===== verification/Printf.thy ===== *)
theory Printf
  imports Prelude
begin

text \<open>
  Formatted output: \<^verbatim>\<open>kernel/printf.c\<close> and the user library's \<^verbatim>\<open>user/printf.c\<close>. Both run over the bytes
  of the format, before its NUL, and yield what they hand to \<open>consputc\<close> or \<open>putc\<close>, one number per
  call. An argument is a number in a 64-bit register or a string, null being \<open>None\<close>; a missing one
  reads as zero.
\<close>

section \<open>Numbers\<close>

definition digits :: "byte list" where
  "digits = map (\<lambda>c. of_nat (of_char c)) ''0123456789abcdef''"

definition udigits :: "byte list" where
  "udigits = map (\<lambda>c. of_nat (of_char c)) ''0123456789ABCDEF''"

definition MINUS :: byte where "MINUS = 45"

text \<open>The digits of a number, lowest first, as the loop stores them; the bases are 10 and 16.\<close>

function digit_loop :: "byte list \<Rightarrow> nat \<Rightarrow> nat \<Rightarrow> byte list" where
  "digit_loop ds base x = ds ! (x mod base) # (if 2 \<le> base \<and> x div base \<noteq> 0 then digit_loop ds base (x div base) else [])"
  by pat_completeness auto

termination
  by (relation "measure (\<lambda>(ds, base, x). x)") (auto intro!: div_less_dividend gr0I)

declare digit_loop.simps [simp del]

definition printint_buf :: "byte list \<Rightarrow> u64 \<Rightarrow> nat \<Rightarrow> bool \<Rightarrow> byte list" where
  "printint_buf ds xx base sign =
     (let neg = (sign \<and> sint xx < 0); x = (if neg then - xx else xx)
      in digit_loop ds base (unat x) @ (if neg then [MINUS] else []))"

definition printint :: "u64 \<Rightarrow> nat \<Rightarrow> bool \<Rightarrow> byte list" where
  "printint xx base sign = rev (printint_buf digits xx base sign)"

definition printptr :: "byte list \<Rightarrow> u64 \<Rightarrow> byte list" where
  "printptr ds x = [48, 120] @ map (\<lambda>i. ds ! unat (drop_bit 60 (push_bit (4 * i) x))) [0..<16]"

section \<open>The format\<close>

datatype varg = VNum u64 | VStr "byte list option"

definition va_num :: "varg list \<Rightarrow> u64" where
  "va_num args = (case args of VNum x # _ \<Rightarrow> x | _ \<Rightarrow> 0)"

definition va_str :: "varg list \<Rightarrow> byte list option" where
  "va_str args = (case args of VStr s # _ \<Rightarrow> s | _ \<Rightarrow> None)"

definition va_int :: "varg list \<Rightarrow> u64" where "va_int args = scast (ucast (va_num args) :: u32)"
definition va_u32 :: "varg list \<Rightarrow> u64" where "va_u32 args = ucast (ucast (va_num args) :: u32)"

text \<open>Byte \<open>i\<close> of the rest of the format, zero from its NUL on.\<close>

definition fmt_at :: "byte list \<Rightarrow> nat \<Rightarrow> byte" where
  "fmt_at fmt i = (if i < length fmt then fmt ! i else 0)"

definition chr :: "char \<Rightarrow> byte" where "chr c = of_nat (of_char c)"

definition null_str :: "byte list" where "null_str = map chr ''(null)''"

text \<open>
  One conversion: what it prints, how many more bytes of the format it consumes after \<open>c0\<close>, and
  the arguments left; \<open>None\<close> at the end of the format.
\<close>

definition kconv :: "byte \<Rightarrow> byte \<Rightarrow> byte \<Rightarrow> varg list \<Rightarrow> (int list \<times> nat \<times> varg list) option" where
  "kconv c0 c1 c2 args =
     (let out = map uint; rest = tl args in
      if c0 = chr CHR ''d'' then Some (out (printint (va_int args) 10 True), 0, rest)
      else if c0 = chr CHR ''l'' \<and> c1 = chr CHR ''d'' then Some (out (printint (va_num args) 10 True), 1, rest)
      else if c0 = chr CHR ''l'' \<and> c1 = chr CHR ''l'' \<and> c2 = chr CHR ''d'' then Some (out (printint (va_num args) 10 True), 2, rest)
      else if c0 = chr CHR ''u'' then Some (out (printint (va_u32 args) 10 False), 0, rest)
      else if c0 = chr CHR ''l'' \<and> c1 = chr CHR ''u'' then Some (out (printint (va_num args) 10 False), 1, rest)
      else if c0 = chr CHR ''l'' \<and> c1 = chr CHR ''l'' \<and> c2 = chr CHR ''u'' then Some (out (printint (va_num args) 10 False), 2, rest)
      else if c0 = chr CHR ''x'' then Some (out (printint (va_u32 args) 16 False), 0, rest)
      else if c0 = chr CHR ''l'' \<and> c1 = chr CHR ''x'' then Some (out (printint (va_num args) 16 False), 1, rest)
      else if c0 = chr CHR ''l'' \<and> c1 = chr CHR ''l'' \<and> c2 = chr CHR ''x'' then Some (out (printint (va_num args) 16 False), 2, rest)
      else if c0 = chr CHR ''p'' then Some (out (printptr digits (va_num args)), 0, rest)
      else if c0 = chr CHR ''c'' then Some ([uint (va_u32 args)], 0, rest)
      else if c0 = chr CHR ''s'' then Some (out (case va_str args of None \<Rightarrow> null_str | Some s \<Rightarrow> takeWhile (\<lambda>b. b \<noteq> 0) s), 0, rest)
      else if c0 = chr CHR ''%'' then Some ([uint (chr CHR ''%'')], 0, args)
      else if c0 = 0 then None
      else Some ([uint (chr CHR ''%''), uint c0], 0, args))"

function printf :: "byte list \<Rightarrow> varg list \<Rightarrow> int list" where
  "printf [] args = []"
| "printf (cx # fmt) args =
     (if cx \<noteq> chr CHR ''%'' then uint cx # printf fmt args
      else case kconv (fmt_at fmt 0) (if fmt_at fmt 0 = 0 then 0 else fmt_at fmt 1)
                  (if fmt_at fmt 0 = 0 \<or> fmt_at fmt 1 = 0 then 0 else fmt_at fmt 2) args of
          None \<Rightarrow> []
        | Some (out, k, rest) \<Rightarrow> out @ printf (drop (Suc k) fmt) rest)"
  by pat_completeness auto

termination
  by (relation "measure (\<lambda>(fmt, args). length fmt)") auto

section \<open>The user library\<close>

definition uprintint :: "u64 \<Rightarrow> nat \<Rightarrow> bool \<Rightarrow> byte list" where
  "uprintint xx base sign = rev (printint_buf udigits xx base sign)"

text \<open>\<open>putc\<close> takes a \<open>char\<close>, so \<open>%c\<close> prints one byte.\<close>

definition uconv :: "byte \<Rightarrow> byte \<Rightarrow> byte \<Rightarrow> varg list \<Rightarrow> byte list \<times> nat \<times> varg list" where
  "uconv c0 c1 c2 args =
     (let rest = tl args in
      if c0 = chr CHR ''d'' then (uprintint (va_int args) 10 True, 0, rest)
      else if c0 = chr CHR ''l'' \<and> c1 = chr CHR ''d'' then (uprintint (va_num args) 10 True, 1, rest)
      else if c0 = chr CHR ''l'' \<and> c1 = chr CHR ''l'' \<and> c2 = chr CHR ''d'' then (uprintint (va_num args) 10 True, 2, rest)
      else if c0 = chr CHR ''u'' then (uprintint (va_u32 args) 10 False, 0, rest)
      else if c0 = chr CHR ''l'' \<and> c1 = chr CHR ''u'' then (uprintint (va_num args) 10 False, 1, rest)
      else if c0 = chr CHR ''l'' \<and> c1 = chr CHR ''l'' \<and> c2 = chr CHR ''u'' then (uprintint (va_num args) 10 False, 2, rest)
      else if c0 = chr CHR ''x'' then (uprintint (va_u32 args) 16 False, 0, rest)
      else if c0 = chr CHR ''l'' \<and> c1 = chr CHR ''x'' then (uprintint (va_num args) 16 False, 1, rest)
      else if c0 = chr CHR ''l'' \<and> c1 = chr CHR ''l'' \<and> c2 = chr CHR ''x'' then (uprintint (va_num args) 16 False, 2, rest)
      else if c0 = chr CHR ''p'' then (printptr udigits (va_num args), 0, rest)
      else if c0 = chr CHR ''c'' then ([ucast (va_u32 args)], 0, rest)
      else if c0 = chr CHR ''s'' then (case va_str args of None \<Rightarrow> null_str | Some s \<Rightarrow> takeWhile (\<lambda>b. b \<noteq> 0) s, 0, rest)
      else if c0 = chr CHR ''%'' then ([chr CHR ''%''], 0, args)
      else ([chr CHR ''%'', c0], 0, args))"

text \<open>\<open>vprintf\<close>, a loop over the format with \<open>state\<close> true after a percent sign.\<close>

function vprintf :: "bool \<Rightarrow> byte list \<Rightarrow> varg list \<Rightarrow> byte list" where
  "vprintf state [] args = []"
| "vprintf state (c0 # fmt) args =
     (if \<not> state then
        (if c0 = chr CHR ''%'' then vprintf True fmt args else c0 # vprintf False fmt args)
      else let c1 = (if c0 = 0 then 0 else fmt_at fmt 0); c2 = (if c1 = 0 then 0 else fmt_at fmt 1);
               (out, k, rest) = uconv c0 c1 c2 args
           in out @ vprintf False (drop k fmt) rest)"
  by pat_completeness auto

termination
  by (relation "measure (\<lambda>(state, fmt, args). length fmt)") auto

section \<open>The user library's string to number conversion\<close>

text \<open>\<open>atoi\<close>; the sum is a C \<open>int\<close>, the 32 bits of a register that wrap around.\<close>

definition is_digit :: "byte \<Rightarrow> bool" where "is_digit c = (48 \<le> c \<and> c \<le> 57)"

fun atoi_loop :: "byte list \<Rightarrow> u32 \<Rightarrow> u32" where
  "atoi_loop [] n = n"
| "atoi_loop (c # s) n = (if is_digit c then atoi_loop s (n * 10 + ucast c - 48) else n)"

definition atoi :: "byte list \<Rightarrow> int" where
  "atoi s = sint (atoi_loop s 0)"

section \<open>Correctness of the numbers\<close>

fun digit_value :: "nat \<Rightarrow> nat list \<Rightarrow> nat" where
  "digit_value base [] = 0"
| "digit_value base (d # ds) = d + base * digit_value base ds"

text \<open>The digits as numbers.\<close>

function nat_digits :: "nat \<Rightarrow> nat \<Rightarrow> nat list" where
  "nat_digits base x = x mod base # (if 2 \<le> base \<and> x div base \<noteq> 0 then nat_digits base (x div base) else [])"
  by pat_completeness auto

termination
  by (relation "measure (\<lambda>(base, x). x)") (auto intro!: div_less_dividend gr0I)

declare nat_digits.simps [simp del]

lemma digit_loop_map: "digit_loop ds base x = map ((!) ds) (nat_digits base x)"
  by (induction ds base x rule: digit_loop.induct) (subst digit_loop.simps, subst nat_digits.simps, simp)

lemma nat_digits_value: "2 \<le> base \<Longrightarrow> digit_value base (nat_digits base x) = x"
  by (induction base x rule: nat_digits.induct) (subst nat_digits.simps, auto simp: div_eq_0_iff)

lemma nat_digits_lt: "2 \<le> base \<Longrightarrow> d \<in> set (nat_digits base x) \<Longrightarrow> d < base"
  by (induction base x rule: nat_digits.induct) (subst (asm) nat_digits.simps, auto split: if_splits)

lemma nat_digits_length: "2 \<le> base \<Longrightarrow> x < base ^ k \<Longrightarrow> 0 < k \<Longrightarrow> length (nat_digits base x) \<le> k"
proof (induction base x arbitrary: k rule: nat_digits.induct)
  case (1 base x)
  obtain j where j: "k = Suc j" using 1(4) by (cases k) auto
  show ?case
  proof (cases "x div base = 0")
    case False
    then have jp: "0 < j" using 1(2,3) j by (cases j) auto
    have "x div base < base ^ j" using 1(2,3) j by (simp add: less_mult_imp_div_less mult.commute)
    then have "length (nat_digits base (x div base)) \<le> j" using 1(1) 1(2) False jp by simp
    then show ?thesis using j 1(2) False by (subst nat_digits.simps) simp
  qed (use j in \<open>subst nat_digits.simps, simp\<close>)
qed

lemma nat_digits_nonempty: "nat_digits base x \<noteq> []"
  by (subst nat_digits.simps) simp

lemma dec_digits:
  assumes "d < 10" shows "ucast (digits ! d) = (of_nat d + 48 :: u32)" "is_digit (digits ! d)" "udigits ! d = digits ! d"
proof -
  have "d \<in> {0, 1, 2, 3, 4, 5, 6, 7, 8, 9}" using assms by auto
  then show "ucast (digits ! d) = (of_nat d + 48 :: u32)" "is_digit (digits ! d)" "udigits ! d = digits ! d"
    by (auto simp: digits_def udigits_def is_digit_def)
qed

lemma atoi_append:
  "(\<And>c. c \<in> set s \<Longrightarrow> is_digit c) \<Longrightarrow> atoi_loop (s @ t) n = atoi_loop t (atoi_loop s n)"
  by (induction s arbitrary: n) auto

lemma atoi_digits:
  "(\<And>d. d \<in> set ds \<Longrightarrow> d < 10) \<Longrightarrow> atoi_loop (rev (map ((!) digits) ds)) 0 = of_nat (digit_value 10 ds)"
proof (induction ds)
  case (Cons d ds)
  have "\<And>c. c \<in> set (rev (map ((!) digits) ds)) \<Longrightarrow> is_digit c" using Cons.prems dec_digits(2) by auto
  then have "atoi_loop (rev (map ((!) digits) (d # ds))) 0 = atoi_loop [digits ! d] (atoi_loop (rev (map ((!) digits) ds)) 0)"
    using atoi_append [of "rev (map ((!) digits) ds)" "[digits ! d]" 0] by simp
  then show ?case using Cons dec_digits [of d] by simp
qed simp

lemma is_digit_printed:
  "c \<in> set (rev (digit_loop digits 10 x)) \<Longrightarrow> is_digit c"
  using nat_digits_lt [of 10 _ x] dec_digits(2) by (auto simp: digit_loop_map)

lemma atoi_dec: "atoi_loop (rev (digit_loop digits 10 x)) 0 = of_nat x"
  using atoi_digits [of "nat_digits 10 x"] nat_digits_lt [of 10 _ x] by (simp add: digit_loop_map nat_digits_value)

lemma printint_unsigned:
  "\<not> (sign \<and> sint xx < 0) \<Longrightarrow> printint xx 10 sign = rev (digit_loop digits 10 (unat xx))"
  by (auto simp: Let_def printint_def printint_buf_def)

lemma printint_negative: "sint xx < 0 \<Longrightarrow> printint xx 10 True = MINUS # rev (digit_loop digits 10 (unat (- xx)))"
  by (simp add: printint_def printint_buf_def)

lemma of_nat_unat_ucast: "of_nat (unat (x :: u64)) = (ucast x :: u32)"
  by transfer simp

lemma atoi_printint:
  "\<not> (sign \<and> sint xx < 0) \<Longrightarrow> atoi (printint xx 10 sign) = sint (ucast xx :: u32)"
  "sint xx < 0 \<Longrightarrow> atoi (printint xx 10 True) = 0"
  "sint xx < 0 \<Longrightarrow> atoi (tl (printint xx 10 True)) = sint (ucast (- xx) :: u32)"
  by (simp_all add: atoi_def printint_unsigned printint_negative atoi_dec of_nat_unat_ucast del: of_nat_unat)
    (simp add: is_digit_def MINUS_def)

text \<open>Numbers that fit a C \<open>int\<close> without their sign.\<close>

lemma sint64_nonneg: "0 \<le> sint (x :: u64) \<Longrightarrow> sint x = uint x"
proof -
  assume a: "0 \<le> sint x"
  have "sint x = take_bit 64 (uint x) - 2 ^ 64 * of_bool (bit (uint x) 63)"
    by (simp add: sint_uint signed_take_bit_eq_take_bit_minus)
  moreover have "take_bit 64 (uint x) = uint x" by (rule take_bit_int_eq_self) (use uint_lt2p [of x] in simp_all)
  ultimately show ?thesis using a uint_lt2p [of x] by (cases "bit (uint x) 63") auto
qed

lemma sint_ucast_small:
  assumes "0 \<le> sint (x :: u64)" "sint x < 2 ^ 31"
  shows "sint (ucast x :: u32) = sint x"
proof -
  have u: "uint x < 2 ^ 31" "0 \<le> uint x" using sint64_nonneg [OF assms(1)] assms(2) by simp_all
  have "sint (ucast x :: u32) = signed_take_bit 31 (uint x)" by (simp add: signed_ucast_eq)
  also have "\<dots> = uint x" by (rule signed_take_bit_int_eq_self) (use u in linarith)+
  finally show ?thesis using sint64_nonneg [OF assms(1)] by simp
qed

lemma sint64_neg: "sint (x :: u64) < 0 \<Longrightarrow> sint x = uint x - 2 ^ 64"
proof -
  assume a: "sint x < 0"
  have e: "sint x = take_bit 64 (uint x) - 2 ^ 64 * of_bool (bit (uint x) 63)"
    by (simp add: sint_uint signed_take_bit_eq_take_bit_minus)
  moreover have "take_bit 64 (uint x) = uint x" by (rule take_bit_int_eq_self) (use uint_lt2p [of x] in simp_all)
  moreover have "0 \<le> uint x" by simp
  ultimately show ?thesis using a by (cases "bit (uint x) 63") auto
qed

lemma uint_neg64: "sint (xx :: u64) < 0 \<Longrightarrow> uint (- xx) = 2 ^ 64 - uint xx"
proof -
  assume "sint xx < 0"
  then have "xx \<noteq> 0" by auto
  then have "uint xx \<noteq> 0" "uint xx < 2 ^ 64" using uint_lt2p [of xx] by (simp_all add: uint_0_iff)
  moreover have "0 \<le> uint xx" by simp
  ultimately have "(- uint xx) mod 2 ^ 64 = 2 ^ 64 - uint xx" by (simp add: zmod_zminus1_eq_if)
  then show ?thesis by (simp add: uint_word_ariths)
qed

lemma printint_fits: "base = 10 \<or> base = 16 \<Longrightarrow> length (printint_buf ds xx base sign) \<le> 20"
proof -
  assume b: "base = 10 \<or> base = 16"
  have l: "length (digit_loop ds base x) \<le> k" if "x < base ^ k" "0 < k" for x k
    using b nat_digits_length [of base x k] that by (auto simp: digit_loop_map)
  have u: "unat y < 2 ^ 64" for y :: u64 using unsigned_less [where ?'a=nat, of y] by simp
  have "(2::nat) ^ 64 \<le> base ^ 20" using b by auto
  then have all: "length (digit_loop ds base (unat y)) \<le> 20" for y :: u64
    using l [of "unat y" 20] u [of y] by simp
  moreover have "length (digit_loop ds base (unat (- xx))) \<le> 19" if "sint xx < 0"
  proof (rule l)
    have "- sint xx \<le> 2 ^ 63" using sint_ge [of xx] by simp
    moreover have "int (unat (- xx)) = - sint xx" using uint_neg64 [OF that] sint64_neg [OF that] by simp
    ultimately have "int (unat (- xx)) \<le> int (2 ^ 63)" by simp
    then have "unat (- xx) \<le> 2 ^ 63" by (simp only: of_nat_le_iff)
    also have "(2::nat) ^ 63 < base ^ 19" using b by auto
    finally show "unat (- xx) < base ^ 19" .
  qed simp
  ultimately show ?thesis by (simp add: printint_buf_def Let_def)
qed

section \<open>The decimals of the user library\<close>

lemma uprintint_dec: "uprintint xx 10 sign = printint xx 10 sign"
proof -
  have "digit_loop udigits 10 x = digit_loop digits 10 x" for x
    unfolding digit_loop_map using nat_digits_lt [of 10 _ x] dec_digits(3) by auto
  then show ?thesis by (simp add: uprintint_def printint_def printint_buf_def)
qed

section \<open>Theorems\<close>

text \<open>
  C39. Numbers and \<open>atoi\<close>. What \<open>atoi\<close> reads from a decimal that \<open>printint\<close> printed, the kernel's or
  the user library's, is the number's low 32 bits as a C \<open>int\<close>, so exactly the number itself when
  it lies between 0 and \<open>2 ^ 31 - 1\<close>; of a negative number it reads 0, as it stops at the minus sign,
  and behind the sign it reads the magnitude, again as a C \<open>int\<close>. No number overflows the 20-byte
  buffer in either base, with a sign or without.
\<close>

theorem printint_atoi:
  "atoi (printint x 10 False) = sint (ucast x :: u32) \<and>
   (if sint x < 0 then hd (printint x 10 True) = MINUS \<and> atoi (printint x 10 True) = 0 \<and>
        atoi (tl (printint x 10 True)) = sint (ucast (- x) :: u32)
    else atoi (printint x 10 True) = sint (ucast x :: u32)) \<and>
   (0 \<le> sint x \<and> sint x < 2 ^ 31 \<longrightarrow> atoi (printint x 10 sign) = sint x) \<and>
   uprintint x 10 sign = printint x 10 sign \<and>
   (\<forall>base sign. base \<in> {10, 16} \<longrightarrow> length (printint_buf digits x base sign) \<le> 20 \<and> length (printint_buf udigits x base sign) \<le> 20)"
  using atoi_printint(1) [of False x] atoi_printint(1) [of True x] atoi_printint(1) [of sign x] atoi_printint(2,3) [of x] sint_ucast_small [of x]
    printint_fits [of _ digits x] printint_fits [of _ udigits x] uprintint_dec [of x sign] printint_negative [of x]
  by auto

theorem printint_atoi_witness:
  "atoi (printint 2147483647 10 True) = 2147483647 \<and> atoi (printint (2 ^ 32 + 5) 10 True) = 5 \<and>
   atoi (printint (- 42) 10 True) = 0 \<and> atoi (tl (printint (- 42) 10 True)) = 42 \<and> length (printint_buf digits (- 42) 16 True) \<le> 20"
  using printint_atoi [of 2147483647 True] printint_atoi [of "2 ^ 32 + 5" True] printint_atoi [of "- 42" True] by simp

end
