(* ===== verification/Console.thy ===== *)
theory Console
  imports Proc Printf
begin

text \<open>
  The console, \<^verbatim>\<open>kernel/console.c\<close>, over the transmit half of \<^verbatim>\<open>kernel/uart.c\<close>: line editing in
  the input interrupt, line-wise reads, and writes in batches of 32 bytes. A call that sleeps is
  cut there, as in the pipe: what it returns says where it goes on. The bytes that have been
  stored in the transmit register are a list.
\<close>

section \<open>State and operations\<close>

definition INPUT_BUF_SIZE :: nat where "INPUT_BUF_SIZE = 128"
declare INPUT_BUF_SIZE_def [kconst]

record cons =
  c_buf :: "byte list"
  c_r :: u32
  c_w :: u32
  c_e :: u32

record uart =
  tx_busy :: bool
  tx_out :: "byte list"

text \<open>Wait channels: the addresses of \<open>cons.r\<close> and \<open>tx_chan\<close>, which the linker fixes.\<close>

definition cons_r_chan :: chan where "cons_r_chan = AddrChan 1"
definition tx_chan :: chan where "tx_chan = AddrChan 2"

definition BACKSPACE :: int where "BACKSPACE = 0x100"
definition ctrl :: "byte \<Rightarrow> byte" where "ctrl x = x - 64"
definition NL :: byte where "NL = 10"

definition uartputc_sync :: "byte \<Rightarrow> uart \<Rightarrow> uart" where
  "uartputc_sync c u = u\<lparr>tx_out := tx_out u @ [c]\<rparr>"

definition consputc :: "int \<Rightarrow> uart \<Rightarrow> uart" where
  "consputc c u =
     (if c = BACKSPACE then uartputc_sync 8 (uartputc_sync 32 (uartputc_sync 8 u)) else uartputc_sync (word_of_int c) u)"

text \<open>\<open>uartwrite\<close> from position \<open>i\<close> of its buffer to its return or its next sleep at position \<open>j\<close>.\<close>

function uartwrite :: "byte list \<Rightarrow> nat \<Rightarrow> uart \<Rightarrow> nat option \<times> uart" where
  "uartwrite bs i u =
     (if i < length bs
      then if tx_busy u then (Some i, u)
           else uartwrite bs (Suc i) (u\<lparr>tx_out := tx_out u @ [bs ! i], tx_busy := True\<rparr>)
      else (None, u))"
  by pat_completeness auto

termination
  by (relation "measure (\<lambda>(bs, i, u). length bs - i)") auto

declare uartwrite.simps [simp del]

text \<open>Where \<open>consolewrite\<close> is left: it returns, or sleeps in batch \<open>bs\<close>, which started at \<open>i\<close>, before byte \<open>j\<close>.\<close>

datatype cwrite = CwRet int | CwSleep nat "byte list" nat

function consolewrite_loop :: "bool \<Rightarrow> u64 \<Rightarrow> int \<Rightarrow> nat \<Rightarrow> uart \<Rightarrow> kstate \<Rightarrow> (cwrite \<times> uart \<times> kstate) result" where
  "consolewrite_loop user_src src n i u st =
     (if \<not> int i < n then Ok (CwRet (int i), u, st)
      else let nn = nat (min 32 (n - int i)) in
        bindR (either_copyin user_src (src + of_nat i) nn st) (\<lambda>(ok, bs, st1).
        if \<not> ok then Ok (CwRet (int i), u, st1)
        else case uartwrite bs 0 u of
            (Some j, u1) \<Rightarrow> Ok (CwSleep i bs j, u1, st1)
          | (None, u1) \<Rightarrow> consolewrite_loop user_src src n (i + nn) u1 st1))"
  by pat_completeness auto

termination
  by (relation "measure (\<lambda>(user_src, src, n, i, u, st). nat (n - int i))") auto

declare consolewrite_loop.simps [simp del]

definition consolewrite :: "bool \<Rightarrow> u64 \<Rightarrow> int \<Rightarrow> uart \<Rightarrow> kstate \<Rightarrow> (cwrite \<times> uart \<times> kstate) result" where
  "consolewrite user_src src n u st = consolewrite_loop user_src src n 0 u st"

text \<open>The continuation of a sleeping write.\<close>

definition consolewrite_resume :: "bool \<Rightarrow> u64 \<Rightarrow> int \<Rightarrow> nat \<Rightarrow> byte list \<Rightarrow> nat \<Rightarrow> uart \<Rightarrow> kstate \<Rightarrow> (cwrite \<times> uart \<times> kstate) result" where
  "consolewrite_resume user_src src n i bs j u st =
     (case uartwrite bs j u of
        (Some j1, u1) \<Rightarrow> Ok (CwSleep i bs j1, u1, st)
      | (None, u1) \<Rightarrow> consolewrite_loop user_src src n (i + length bs) u1 st)"

text \<open>\<open>consoleread\<close> returns, or sleeps with \<open>dst\<close> and \<open>n\<close> advanced.\<close>

datatype cread = CrRet int | CrSleep u64 int

function consoleread_loop :: "bool \<Rightarrow> bool \<Rightarrow> u32 \<Rightarrow> u64 \<Rightarrow> int \<Rightarrow> cons \<Rightarrow> kstate \<Rightarrow> (cread \<times> cons \<times> kstate) result" where
  "consoleread_loop user_dst kill target dst n cs st =
     (let ret = CrRet (sint (target - of_int n)) in
      if \<not> 0 < n then Ok (ret, cs, st)
      else if c_r cs = c_w cs then Ok (if kill then CrRet (-1) else CrSleep dst n, cs, st)
      else let c = c_buf cs ! (unat (c_r cs) mod INPUT_BUF_SIZE); cs1 = cs\<lparr>c_r := c_r cs + 1\<rparr> in
        if c = ctrl 68 then Ok (ret, if of_int n < target then cs1\<lparr>c_r := c_r cs1 - 1\<rparr> else cs1, st)
        else bindR (either_copyout user_dst dst [c] st) (\<lambda>(ok, st1).
          if \<not> ok then Ok (ret, cs1, st1)
          else if c = NL then Ok (CrRet (sint (target - of_int (n - 1))), cs1, st1)
          else consoleread_loop user_dst kill target (dst + 1) (n - 1) cs1 st1))"
  by pat_completeness auto

termination
  by (relation "measure (\<lambda>(user_dst, kill, target, dst, n, cs, st). nat n)") auto

declare consoleread_loop.simps [simp del]

definition consoleread :: "bool \<Rightarrow> bool \<Rightarrow> u64 \<Rightarrow> int \<Rightarrow> cons \<Rightarrow> kstate \<Rightarrow> (cread \<times> cons \<times> kstate) result" where
  "consoleread user_dst kill dst n cs st = consoleread_loop user_dst kill (of_int n) dst n cs st"


function kill_line :: "cons \<Rightarrow> uart \<Rightarrow> cons \<times> uart" where
  "kill_line cs u =
     (if c_e cs \<noteq> c_w cs \<and> c_buf cs ! (unat (c_e cs - 1) mod INPUT_BUF_SIZE) \<noteq> NL
      then kill_line (cs\<lparr>c_e := c_e cs - 1\<rparr>) (consputc BACKSPACE u) else (cs, u))"
  by pat_completeness auto

termination
proof (relation "measure (\<lambda>(cs, u). unat (c_e cs - c_w cs))", goal_cases)
  case (2 cs u)
  then have "c_e cs - c_w cs \<noteq> 0" by simp
  then have "unat (c_e cs - c_w cs - 1) < unat (c_e cs - c_w cs)" by (rule measure_unat)
  then show ?case by (simp add: algebra_simps)
qed simp

declare kill_line.simps [simp del]

text \<open>\<open>procdump\<close>, which control-P runs, and the other special characters.\<close>

definition kprint :: "int list \<Rightarrow> uart \<Rightarrow> uart" where
  "kprint out u = fold consputc out u"

definition state_name :: "procstate \<Rightarrow> byte list" where
  "state_name s = map chr (case s of UNUSED \<Rightarrow> ''unused'' | USED \<Rightarrow> ''used'' | SLEEPING \<Rightarrow> ''sleep '' | RUNNABLE \<Rightarrow> ''runble''
     | RUNNING \<Rightarrow> ''run   '' | ZOMBIE \<Rightarrow> ''zombie'')"

definition procdump :: "kstate \<Rightarrow> uart \<Rightarrow> uart" where
  "procdump st u =
     fold (\<lambda>p u. if p_state p = UNUSED then u
        else kprint (printf [NL] [])
          (kprint (printf (map chr ''%d %s %s'') [VNum (word_of_int (p_pid p)), VStr (Some (state_name (p_state p))), VStr (Some (p_name p))]) u))
       (procs st) (kprint (printf [NL] []) u)"

definition consoleintr :: "byte \<Rightarrow> cons \<Rightarrow> uart \<Rightarrow> kstate \<Rightarrow> cons \<times> uart \<times> kstate" where
  "consoleintr c cs u st =
     (if c = ctrl 80 then (cs, procdump st u, st)
      else if c = ctrl 85 then (let (cs1, u1) = kill_line cs u in (cs1, u1, st))
      else if c = ctrl 72 \<or> c = 127 then
        if c_e cs \<noteq> c_w cs then (cs\<lparr>c_e := c_e cs - 1\<rparr>, consputc BACKSPACE u, st) else (cs, u, st)
      else if c \<noteq> 0 \<and> unat (c_e cs - c_r cs) < INPUT_BUF_SIZE then
        let c1 = (if c = 13 then NL else c);
            u1 = consputc (uint c1) u;
            cs1 = cs\<lparr>c_buf := (c_buf cs)[unat (c_e cs) mod INPUT_BUF_SIZE := c1], c_e := c_e cs + 1\<rparr>
        in if c1 = NL \<or> c1 = ctrl 68 \<or> unat (c_e cs1 - c_r cs1) = INPUT_BUF_SIZE
           then (cs1\<lparr>c_w := c_e cs1\<rparr>, u1, wakeup cons_r_chan st)
           else (cs1, u1, st)
      else (cs, u, st))"

text \<open>\<open>uartintr\<close>: \<open>idle\<close> and \<open>input\<close> are what the line status and receive registers give.\<close>

definition uartintr :: "bool \<Rightarrow> byte list \<Rightarrow> cons \<Rightarrow> uart \<Rightarrow> kstate \<Rightarrow> cons \<times> uart \<times> kstate" where
  "uartintr idle input cs u st =
     (let (u1, st1) = (if idle then (u\<lparr>tx_busy := False\<rparr>, wakeup tx_chan st) else (u, st))
      in fold (\<lambda>c (cs, u, st). consoleintr c cs u st) input (cs, u1, st1))"

section \<open>The input buffer as an edited line\<close>

text \<open>The bytes from the read index to the write index are committed, from there to the edit index editable.\<close>

definition c_len :: "cons \<Rightarrow> nat" where "c_len cs = unat (c_e cs - c_r cs)"
definition c_done :: "cons \<Rightarrow> nat" where "c_done cs = unat (c_w cs - c_r cs)"

definition c_bytes :: "cons \<Rightarrow> byte list" where
  "c_bytes cs = map (\<lambda>i. c_buf cs ! ((unat (c_r cs) + i) mod INPUT_BUF_SIZE)) [0..<c_len cs]"

definition committed :: "cons \<Rightarrow> byte list" where "committed cs = take (c_done cs) (c_bytes cs)"
definition editing :: "cons \<Rightarrow> byte list" where "editing cs = drop (c_done cs) (c_bytes cs)"

definition cons_inv :: "cons \<Rightarrow> bool" where
  "cons_inv cs = (length (c_buf cs) = INPUT_BUF_SIZE \<and> c_done cs \<le> c_len cs \<and> c_len cs \<le> INPUT_BUF_SIZE \<and> NL \<notin> set (editing cs))"

text \<open>The line editor the interrupt handler implements.\<close>

definition line_edit :: "byte \<Rightarrow> byte list \<times> byte list \<Rightarrow> byte list \<times> byte list" where
  "line_edit c l =
     (let (com, ed) = l in
      if c = ctrl 80 then l
      else if c = ctrl 85 then (com, [])
      else if c = ctrl 72 \<or> c = 127 then (com, butlast ed)
      else if c \<noteq> 0 \<and> length com + length ed < INPUT_BUF_SIZE then
        let c1 = (if c = 13 then NL else c) in
        if c1 = NL \<or> c1 = ctrl 68 \<or> length com + length ed + 1 = INPUT_BUF_SIZE then (com @ ed @ [c1], [])
        else (com, ed @ [c1])
      else l)"

lemma length_c_bytes [simp]: "length (c_bytes cs) = c_len cs"
  by (simp add: c_bytes_def)

lemma ring32: "unat (a + b :: u32) mod INPUT_BUF_SIZE = (unat a + unat b) mod INPUT_BUF_SIZE"
  by (simp add: unat_word_ariths kconst mod_mod_cancel)

lemma c_e_slot: "unat (c_e cs) mod INPUT_BUF_SIZE = (unat (c_r cs) + c_len cs) mod INPUT_BUF_SIZE"
  using ring32 [of "c_r cs" "c_e cs - c_r cs"] by (simp add: c_len_def)

lemma c_ew: "(c_e cs = c_w cs) = (c_len cs = c_done cs)"
proof -
  have "(c_len cs = c_done cs) = (c_e cs - c_r cs = c_w cs - c_r cs)" unfolding c_len_def c_done_def by (metis word_unat_eq_iff)
  then show ?thesis by simp
qed

lemma c_len_less: "c_len cs \<le> INPUT_BUF_SIZE \<Longrightarrow> Suc (c_len cs) < 2 ^ 32"
  by (simp add: kconst)

lemma ring_slot_inj:
  assumes "i < m" "j < m" "(a + i) mod m = (a + j) mod (m :: nat)"
  shows "i = j"
proof -
  have "ring_dist m (a mod m) ((a + k) mod m) = k" if "k < m" for k
    using ring_dist_slot [of "a mod m" m k] that by (simp add: mod_add_left_eq)
  then show ?thesis using assms by metis
qed

lemma add_char:
  fixes b
  assumes inv: "cons_inv cs" and room: "c_len cs < INPUT_BUF_SIZE"
  defines "cs' \<equiv> cs\<lparr>c_buf := (c_buf cs)[unat (c_e cs) mod INPUT_BUF_SIZE := b], c_e := c_e cs + 1\<rparr>"
  shows "c_len cs' = Suc (c_len cs)" "c_done cs' = c_done cs" "c_bytes cs' = c_bytes cs @ [b]"
    "length (c_buf cs') = INPUT_BUF_SIZE"
proof -
  have L: "length (c_buf cs) = INPUT_BUF_SIZE" using inv by (simp add: cons_inv_def)
  have "c_e cs + 1 - c_r cs = (c_e cs - c_r cs) + 1" by simp
  moreover have "unat ((c_e cs - c_r cs) + 1) = Suc (c_len cs)"
    using room by (simp add: c_len_def unat_word_ariths kconst)
  ultimately have "unat (c_e cs + 1 - c_r cs) = Suc (c_len cs)" by metis
  then show len: "c_len cs' = Suc (c_len cs)" by (simp add: cs'_def c_len_def)
  show "c_done cs' = c_done cs" by (simp add: cs'_def c_done_def)
  have ne: "(unat (c_r cs) + i) mod INPUT_BUF_SIZE \<noteq> (unat (c_r cs) + c_len cs) mod INPUT_BUF_SIZE" if "i < c_len cs" for i
    using that room ring_slot_inj [of i INPUT_BUF_SIZE "c_len cs" "unat (c_r cs)"] by linarith
  show "c_bytes cs' = c_bytes cs @ [b]"
    unfolding c_bytes_def len using L ne ne [symmetric] room by (auto simp: cs'_def c_e_slot)
  show "length (c_buf cs') = INPUT_BUF_SIZE" using L by (simp add: cs'_def)
qed

lemma del_char:
  assumes inv: "cons_inv cs" and ne: "c_e cs \<noteq> c_w cs"
  defines "cs' \<equiv> cs\<lparr>c_e := c_e cs - 1\<rparr>"
  shows "committed cs' = committed cs" "editing cs' = butlast (editing cs)" "cons_inv cs'"
    "c_buf cs ! (unat (c_e cs - 1) mod INPUT_BUF_SIZE) = last (editing cs)" "editing cs \<noteq> []"
proof -
  have d: "c_done cs < c_len cs" using inv c_ew [of cs] ne by (simp add: cons_inv_def)
  have "c_e cs - 1 - c_r cs = (c_e cs - c_r cs) - 1" by simp
  moreover have "unat ((c_e cs - c_r cs) - 1) = c_len cs - 1"
    using d unat_sub [of 1 "c_e cs - c_r cs"] by (simp add: c_len_def word_le_nat_alt)
  ultimately have "unat (c_e cs - 1 - c_r cs) = c_len cs - 1" by metis
  then have len: "c_len cs' = c_len cs - 1" by (simp add: cs'_def c_len_def)
  have by': "c_bytes cs' = butlast (c_bytes cs)"
  proof -
    obtain n where "c_len cs = Suc n" using d by (cases "c_len cs") auto
    then show ?thesis unfolding c_bytes_def len by (simp add: cs'_def)
  qed
  have done': "c_done cs' = c_done cs" by (simp add: cs'_def c_done_def)
  show com: "committed cs' = committed cs" using d by (simp add: committed_def by' done' take_butlast)
  show ed: "editing cs' = butlast (editing cs)" unfolding editing_def by' done' by (simp only: drop_butlast)
  show ne': "editing cs \<noteq> []" using d by (simp add: editing_def)
  show "cons_inv cs'" 
  proof -
    have "NL \<notin> set (editing cs')" using inv in_set_butlastD unfolding ed by (fastforce simp: cons_inv_def)
    moreover have "length (c_buf cs') = length (c_buf cs)" by (simp add: cs'_def)
    ultimately show ?thesis using inv d len done' unfolding cons_inv_def by linarith
  qed
  have "c_buf cs ! (unat (c_e cs - 1) mod INPUT_BUF_SIZE) = last (c_bytes cs)"
  proof -
    have "unat (c_e cs - 1) mod INPUT_BUF_SIZE = (unat (c_r cs) + (c_len cs - 1)) mod INPUT_BUF_SIZE"
      using c_e_slot [of cs'] len by (simp add: cs'_def)
    then show ?thesis using d by (simp add: c_bytes_def last_map)
  qed
  then show "c_buf cs ! (unat (c_e cs - 1) mod INPUT_BUF_SIZE) = last (editing cs)" using d by (simp add: editing_def)
qed

lemma kill_line_spec:
  assumes "cons_inv cs" "kill_line cs u = (cs', u')"
  shows "cons_inv cs' \<and> committed cs' = committed cs \<and> editing cs' = []"
  using assms
proof (induction cs u arbitrary: cs' u' rule: kill_line.induct)
  case (1 cs u)
  show ?case
  proof (cases "c_e cs = c_w cs")
    case True
    then have "editing cs = []" using c_ew [of cs] by (simp add: editing_def)
    then show ?thesis using 1(2,3) True by (subst (asm) kill_line.simps) simp
  next
    case False
    note del = del_char [OF 1(2) False]
    have nl: "c_buf cs ! (unat (c_e cs - 1) mod INPUT_BUF_SIZE) \<noteq> NL"
      using del(4) last_in_set [OF del(5)] 1(2) unfolding cons_inv_def by metis
    then have "kill_line (cs\<lparr>c_e := c_e cs - 1\<rparr>) (consputc BACKSPACE u) = (cs', u')"
      using 1(3) False by (subst (asm) kill_line.simps) simp
    then show ?thesis using 1(1) [OF conjI [OF False nl] del(3)] del(1) by simp
  qed
qed

lemma c_lens: "cons_inv cs \<Longrightarrow> length (committed cs) + length (editing cs) = c_len cs"
  by (simp add: committed_def editing_def cons_inv_def)

lemma committed_editing: "committed cs @ editing cs = c_bytes cs"
  by (simp add: committed_def editing_def)

lemma consoleintr_refines:
  assumes inv: "cons_inv cs" and run: "consoleintr c cs u st = (cs', u', st')"
  shows "cons_inv cs' \<and> (committed cs', editing cs') = line_edit c (committed cs, editing cs) \<and>
    st' = (if committed cs' = committed cs then st else wakeup cons_r_chan st)"
proof -
  consider (p) "c = ctrl 80" | (u) "c \<noteq> ctrl 80" "c = ctrl 85" | (h) "c \<noteq> ctrl 80" "c \<noteq> ctrl 85" "c = ctrl 72 \<or> c = 127"
    | (o) "c \<noteq> ctrl 80" "c \<noteq> ctrl 85" "\<not> (c = ctrl 72 \<or> c = 127)" by blast
  then show ?thesis
  proof cases
    case u
    then show ?thesis using run kill_line_spec [OF inv] by (auto simp: consoleintr_def line_edit_def split: prod.splits)
  next
    case h
    show ?thesis
    proof (cases "c_e cs = c_w cs")
      case True
      then have "editing cs = []" using c_ew [of cs] by (simp add: editing_def)
      then show ?thesis using h run True inv unfolding consoleintr_def line_edit_def by auto
    next
      case False
      then show ?thesis using h run del_char [OF inv False] unfolding consoleintr_def line_edit_def by auto
    qed
  next
    case o
    show ?thesis
    proof (cases "c \<noteq> 0 \<and> c_len cs < INPUT_BUF_SIZE")
      case True
      define c1 where "c1 = (if c = 13 then NL else c)"
      define cs1 where "cs1 = cs\<lparr>c_buf := (c_buf cs)[unat (c_e cs) mod INPUT_BUF_SIZE := c1], c_e := c_e cs + 1\<rparr>"
      define full where "full = (c1 = NL \<or> c1 = ctrl 68 \<or> c_len cs1 = INPUT_BUF_SIZE)"
      note add = add_char [OF inv conjunct2 [OF True], of c1, folded cs1_def]
      have cs': "cs' = (if full then cs1\<lparr>c_w := c_e cs1\<rparr> else cs1)" "st' = (if full then wakeup cons_r_chan st else st)"
        using o run True unfolding consoleintr_def c_len_def c1_def [symmetric] Let_def cs1_def [symmetric] full_def
        by (auto split: if_splits)
      have abs: "line_edit c (committed cs, editing cs) =
          (if full then (c_bytes cs1, []) else (committed cs, editing cs @ [c1]))"
        using o True c_lens [OF inv] add(1) committed_editing [of cs]
        unfolding line_edit_def c1_def [symmetric] full_def add(3) by (simp add: Let_def)
      show ?thesis
      proof (cases full)
        case True
        have "committed cs \<noteq> c_bytes cs1" using add(3) committed_editing [of cs] by (metis append_is_Nil_conv append_self_conv list.distinct(1) append.assoc)
        moreover have "c_done cs' = c_len cs'" "c_bytes cs' = c_bytes cs1" "c_len cs' = c_len cs1" "c_buf cs' = c_buf cs1"
          using cs' True by (simp_all add: c_done_def c_len_def c_bytes_def)
        moreover have "c_len cs1 \<le> INPUT_BUF_SIZE" using add(1) \<open>c \<noteq> 0 \<and> c_len cs < INPUT_BUF_SIZE\<close> by simp
        ultimately show ?thesis using abs True add(4) cs'(2) by (auto simp add: cons_inv_def committed_def editing_def)
      next
        case False
        have "c_done cs \<le> c_len cs" "NL \<notin> set (editing cs)" using inv by (simp_all add: cons_inv_def)
        moreover have "c1 \<noteq> NL" using False by (simp add: full_def)
        ultimately show ?thesis using abs cs' False add \<open>c \<noteq> 0 \<and> c_len cs < INPUT_BUF_SIZE\<close>
          by (simp add: cons_inv_def committed_def editing_def)
      qed
    next
      case False
      then have "cs' = cs" "st' = st" using o run unfolding consoleintr_def c_len_def by auto
      then show ?thesis using o False inv c_lens [OF inv] by (auto simp: line_edit_def)
    qed
  qed (use run inv in \<open>simp add: consoleintr_def line_edit_def\<close>)
qed

section \<open>The kernel's formatter on the console and the user library's\<close>

text \<open>The bytes \<open>consputc\<close> sends for one number.\<close>

definition cons_bytes :: "int \<Rightarrow> byte list" where
  "cons_bytes c = (if c = BACKSPACE then [8, 32, 8] else [word_of_int c])"

lemma kprint_bytes: "tx_out (kprint out u) = tx_out u @ concat (map cons_bytes out)"
  by (induction out arbitrary: u) (simp_all add: kprint_def consputc_def cons_bytes_def uartputc_sync_def)

lemma cons_bytes_uint [simp]: "cons_bytes (uint (b :: byte)) = [b]"
  using uint_lt2p [of b] by (simp add: cons_bytes_def BACKSPACE_def)

lemma cons_bytes_map [simp]: "concat (map (cons_bytes \<circ> uint) (bs :: byte list)) = bs"
  by (induction bs) simp_all

text \<open>
  The conversions of a format, in its order, each with the argument register it reads: one, two or
  three characters after a percent sign.
\<close>

definition conv_spec :: "byte \<Rightarrow> byte \<Rightarrow> byte \<Rightarrow> byte list" where
  "conv_spec c0 c1 c2 =
     (let num = (\<lambda>c. c = chr CHR ''d'' \<or> c = chr CHR ''u'' \<or> c = chr CHR ''x''); l = chr CHR ''l'' in
      if c0 = l \<and> num c1 then [c0, c1] else if c0 = l \<and> c1 = l \<and> num c2 then [c0, c1, c2] else [c0])"

definition takes_arg :: "byte list \<Rightarrow> bool" where
  "takes_arg s = (s \<in> map chr ` {''d'', ''ld'', ''lld'', ''u'', ''lu'', ''llu'', ''x'', ''lx'', ''llx'', ''p'', ''c'', ''s''})"

definition hex_conv :: "byte list \<Rightarrow> bool" where
  "hex_conv s = (s \<in> map chr ` {''x'', ''lx'', ''llx'', ''p''})"

function conversions :: "byte list \<Rightarrow> varg list \<Rightarrow> (byte list \<times> u64) list" where
  "conversions [] args = []"
| "conversions (c # fmt) args =
     (if c \<noteq> chr CHR ''%'' then conversions fmt args
      else if fmt = [] then []
      else let s = conv_spec (fmt_at fmt 0) (fmt_at fmt 1) (fmt_at fmt 2)
           in (s, va_num args) # conversions (drop (length s) fmt) (if takes_arg s then tl args else args))"
  by pat_completeness auto

termination
  by (relation "measure (\<lambda>(fmt, args). length fmt)") auto

text \<open>Equality of output but for the case of the letters a to f.\<close>

definition fold_case :: "byte \<Rightarrow> byte" where
  "fold_case b = (if 97 \<le> b \<and> b \<le> 102 then b - 32 else b)"

definition same_output :: "bool \<Rightarrow> byte list \<Rightarrow> byte list \<Rightarrow> bool" where
  "same_output exact xs ys = (if exact then xs = ys else map fold_case xs = map fold_case ys)"

lemma same_output_append: "same_output e a b \<Longrightarrow> same_output e' c d \<Longrightarrow> same_output (e \<and> e') (a @ c) (b @ d)"
  by (auto simp: same_output_def split: if_splits)

lemma same_output_refl [simp]: "same_output e a a"
  by (simp add: same_output_def)

lemma hex_digits:
  assumes "d < 16" shows "fold_case (digits ! d) = fold_case (udigits ! d)"
proof -
  have "d \<in> {0, 1, 2, 3, 4, 5, 6, 7, 8, 9, 10, 11, 12, 13, 14, 15}" using assms by simp arith
  then show ?thesis by (auto simp: digits_def udigits_def fold_case_def)
qed

lemma hex_printint: "same_output False (printint xx 16 sign) (uprintint xx 16 sign)"
proof -
  have "map fold_case (digit_loop digits 16 x) = map fold_case (digit_loop udigits 16 x)" for x
    unfolding digit_loop_map using nat_digits_lt [of 16 _ x] hex_digits by auto
  then show ?thesis by (simp add: same_output_def printint_def uprintint_def printint_buf_def rev_map [symmetric] Let_def)
qed

lemma hex_printptr: "same_output False (printptr digits x) (printptr udigits x)"
proof -
  have "unat (drop_bit 60 y) < 16" for y :: u64
    using unsigned_less [where ?'a = nat, of y] by (simp add: drop_bit_eq_div unat_div less_mult_imp_div_less)
  then show ?thesis by (auto simp: same_output_def printptr_def hex_digits)
qed

lemma conv_cases:
  obtains (one) c where "x = chr c" "c \<in> {CHR ''d'', CHR ''u'', CHR ''x'', CHR ''p'', CHR ''c'', CHR ''s'', CHR ''%''}"
  | (two) c where "x = chr CHR ''l''" "y = chr c" "c \<in> {CHR ''d'', CHR ''u'', CHR ''x''}"
  | (three) c where "x = chr CHR ''l''" "y = chr CHR ''l''" "z = chr c" "c \<in> {CHR ''d'', CHR ''u'', CHR ''x''}"
  | (other) "x \<notin> chr ` {CHR ''d'', CHR ''u'', CHR ''x'', CHR ''p'', CHR ''c'', CHR ''s'', CHR ''%''}"
      "x = chr CHR ''l'' \<Longrightarrow> y \<notin> chr ` {CHR ''d'', CHR ''u'', CHR ''x''}"
      "x = chr CHR ''l'' \<Longrightarrow> y = chr CHR ''l'' \<Longrightarrow> z \<notin> chr ` {CHR ''d'', CHR ''u'', CHR ''x''}"
  by blast

lemma va_u32_backspace: "uint (va_u32 args) = 0x100 \<longleftrightarrow> (ucast (va_num args) :: u32) = 0x100"
proof -
  have "uint (ucast w :: u64) = uint w" for w :: u32
    using uint_lt2p [of w] by (simp add: unsigned_ucast_eq take_bit_int_eq_self)
  then show ?thesis by (simp add: va_u32_def word_uint_eq_iff)
qed

lemma kconv_uconv:
  fixes args
  defines "s c0 c1 c2 \<equiv> conv_spec c0 c1 c2"
  assumes "c0 \<noteq> 0" "\<not> (s c0 c1 c2 = [chr CHR ''c''] \<and> (ucast (va_num args) :: u32) = 0x100)"
  shows "\<exists>out uout k rest. kconv c0 c1 c2 args = Some (out, k, rest) \<and> uconv c0 c1 c2 args = (uout, k, rest) \<and>
    Suc k = length (s c0 c1 c2) \<and> rest = (if takes_arg (s c0 c1 c2) then tl args else args) \<and>
    same_output (\<not> hex_conv (s c0 c1 c2)) (concat (map cons_bytes out)) uout"
proof -
  note defs = s_def conv_spec_def takes_arg_def hex_conv_def kconv_def uconv_def Let_def chr_def
  show ?thesis
  proof (rule conv_cases [where x = c0 and y = c1 and z = c2])
    fix c assume c: "c0 = chr c" "c \<in> {CHR ''d'', CHR ''u'', CHR ''x'', CHR ''p'', CHR ''c'', CHR ''s'', CHR ''%''}"
    then show ?thesis
      using assms(3) hex_printint hex_printptr
      by (elim insertE emptyE) (simp_all add: defs uprintint_dec cons_bytes_def BACKSPACE_def va_u32_backspace)
  next
    fix c assume "c0 = chr CHR ''l''" "c1 = chr c" "c \<in> {CHR ''d'', CHR ''u'', CHR ''x''}"
    then show ?thesis using hex_printint by (elim insertE emptyE) (simp_all add: defs uprintint_dec)
  next
    fix c assume "c0 = chr CHR ''l''" "c1 = chr CHR ''l''" "c2 = chr c" "c \<in> {CHR ''d'', CHR ''u'', CHR ''x''}"
    then show ?thesis using hex_printint by (elim insertE emptyE) (simp_all add: defs uprintint_dec)
  next
    assume "c0 \<notin> chr ` {CHR ''d'', CHR ''u'', CHR ''x'', CHR ''p'', CHR ''c'', CHR ''s'', CHR ''%''}"
      "c0 = chr CHR ''l'' \<Longrightarrow> c1 \<notin> chr ` {CHR ''d'', CHR ''u'', CHR ''x''}"
      "c0 = chr CHR ''l'' \<Longrightarrow> c1 = chr CHR ''l'' \<Longrightarrow> c2 \<notin> chr ` {CHR ''d'', CHR ''u'', CHR ''x''}"
    moreover have "cons_bytes 37 = [37]" by (simp add: cons_bytes_def BACKSPACE_def)
    ultimately show ?thesis using assms(2) by (auto simp: defs)
  qed
qed

definition plain_conv :: "byte list \<times> u64 \<Rightarrow> bool" where
  "plain_conv c = (fst c = [chr CHR ''c''] \<longrightarrow> (ucast (snd c) :: u32) \<noteq> 0x100)"

lemma vprintf_printf:
  "0 \<notin> set fmt \<Longrightarrow> list_all plain_conv (conversions fmt args) \<Longrightarrow>
   same_output (\<not> list_ex (\<lambda>c. hex_conv (fst c)) (conversions fmt args)) (concat (map cons_bytes (printf fmt args))) (vprintf False fmt args)"
proof (induction fmt args rule: conversions.induct)
  case (2 cx fmt args)
  show ?case
  proof (cases "cx = chr CHR ''%''")
    case False
    then have "same_output (\<not> list_ex (\<lambda>c. hex_conv (fst c)) (conversions fmt args)) (concat (map cons_bytes (printf fmt args))) (vprintf False fmt args)"
      using 2 by simp
    then show ?thesis using False same_output_append [of True "[cx]" "[cx]"] by simp
  next
    case pct: True
    show ?thesis
    proof (cases fmt)
      case Nil
      have "kconv 0 0 0 args = None" by (simp add: kconv_def chr_def)
      then show ?thesis using pct Nil by (simp add: fmt_at_def)
    next
      case (Cons c0 r)
      define c1 c2 where "c1 = fmt_at r 0" and "c2 = fmt_at r 1"
      define s where "s = conv_spec c0 c1 c2"
      define rest where "rest = (if takes_arg s then tl args else args)"
      have at: "fmt_at fmt 0 = c0" "fmt_at fmt 1 = c1" "fmt_at fmt 2 = c2" "fmt_at r 0 = c1" "fmt_at r (Suc 0) = c2" using Cons by (simp_all add: fmt_at_def c1_def c2_def)
      have c0: "c0 \<noteq> 0" using 2(3) Cons by auto
      have c2: "c1 = 0 \<Longrightarrow> c2 = 0"
        using 2(3) Cons by (cases r) (auto simp: c1_def c2_def fmt_at_def)
      have conv: "conversions (cx # fmt) args = (s, va_num args) # conversions (drop (length s) fmt) rest"
        using pct at Cons by (simp add: s_def rest_def Let_def)
      then obtain out uout k where k: "kconv c0 c1 c2 args = Some (out, k, rest)" "uconv c0 c1 c2 args = (uout, k, rest)"
          "Suc k = length s" "same_output (\<not> hex_conv s) (concat (map cons_bytes out)) uout"
        using kconv_uconv [OF c0, of c1 c2 args] 2(4) unfolding s_def rest_def by (auto simp: plain_conv_def)
      have ih: "same_output (\<not> list_ex (\<lambda>c. hex_conv (fst c)) (conversions (drop (length s) fmt) rest))
          (concat (map cons_bytes (printf (drop (length s) fmt) rest))) (vprintf False (drop (length s) fmt) rest)"
      proof -
        have z: "0 \<notin> set (drop (length s) fmt)" using 2(3) in_set_dropD [of 0 "length s" fmt] by auto
        have pl: "list_all plain_conv (conversions (drop (length s) fmt) rest)" using 2(4) conv by simp
        show ?thesis using 2(2) [of s] pct Cons z pl unfolding at s_def rest_def by simp
      qed
      have "printf (cx # fmt) args = out @ printf (drop (length s) fmt) rest"
        using pct at c0 c2 k(1,3) by (cases "c1 = 0") simp_all
      moreover have "vprintf False (cx # fmt) args = uout @ vprintf False (drop (length s) fmt) rest"
        using pct c0 c2 k(2) k(3) [symmetric] Cons
        by (cases "c1 = 0") (simp_all add: at Let_def)
      ultimately show ?thesis using same_output_append [OF k(4) ih] conv by simp
    qed
  qed
qed (simp add: same_output_def)

section \<open>Theorems\<close>

text \<open>
  C38. The input interrupt implements a line editor: with the buffer's bytes split into committed
  input and the line being edited, each character acts on this pair as \<open>line_edit\<close> says (erase,
  kill, end of line, end of file, full buffer), over ring indices that wrap around at \<open>2 ^ 32\<close>; the
  buffer's invariant is kept, and readers are woken exactly when input is committed.
\<close>

theorem console_line_discipline:
  assumes "cons_inv cs" "consoleintr c cs u st = (cs', u', st')"
  shows "cons_inv cs' \<and> (committed cs', editing cs') = line_edit c (committed cs, editing cs) \<and>
    st' = (if committed cs' = committed cs then st else wakeup cons_r_chan st)"
  by (rule consoleintr_refines [OF assms])

text \<open>A console whose counters are about to wrap around.\<close>

definition late_cons :: cons where
  "late_cons = \<lparr>c_buf = replicate INPUT_BUF_SIZE 0, c_r = 0xFFFFFFFF, c_w = 0xFFFFFFFF, c_e = 0xFFFFFFFF\<rparr>"

lemma late_cons_inv: "cons_inv late_cons" "committed late_cons = []" "editing late_cons = []"
  by (simp_all add: cons_inv_def late_cons_def c_done_def c_len_def editing_def committed_def c_bytes_def)

theorem console_line_discipline_witness:
  "\<exists>cs' u' st'. consoleintr 13 late_cons \<lparr>tx_busy = False, tx_out = []\<rparr> (boot_kstate 0 0 0 0) = (cs', u', st') \<and>
    cons_inv cs' \<and> committed cs' = [NL] \<and> editing cs' = []"
proof -
  obtain cs' u' st' where run: "consoleintr 13 late_cons \<lparr>tx_busy = False, tx_out = []\<rparr> (boot_kstate 0 0 0 0) = (cs', u', st')"
    by (metis prod.exhaust)
  have "line_edit 13 ([], []) = ([NL], [])" by (simp add: line_edit_def ctrl_def kconst)
  then show ?thesis using console_line_discipline [OF late_cons_inv(1) run] run late_cons_inv(2,3) by auto
qed

text \<open>
  C40. The kernel's \<open>printf\<close> and the user library's \<open>vprintf\<close>, two separate pieces of code, agree: for
  the same format and arguments, whatever conversions, well-formed or not, the bytes that the
  kernel's sends to the serial line through \<open>consputc\<close> are the bytes the user library's writes, if
  the format has no hexadecimal conversion (\<open>%x\<close>, \<open>%lx\<close>, \<open>%llx\<close>, \<open>%p\<close>), and with one they differ at most
  in the case of the letters a to f. The one exception is a \<open>%c\<close> whose argument is \<open>0x100\<close>, which
  \<open>consputc\<close> takes for its code of erasing a character.
\<close>

theorem printf_formatters_agree:
  assumes "0 \<notin> set fmt" "list_all plain_conv (conversions fmt args)"
  shows "\<exists>out. tx_out (kprint (printf fmt args) u) = tx_out u @ out \<and>
    map fold_case out = map fold_case (vprintf False fmt args) \<and>
    (\<not> list_ex (\<lambda>c. hex_conv (fst c)) (conversions fmt args) \<longrightarrow> out = vprintf False fmt args)"
  using vprintf_printf [OF assms] unfolding kprint_bytes same_output_def by (auto split: if_splits)

theorem printf_formatters_agree_witness:
  "(\<exists>out. tx_out (kprint (printf (map chr ''exec %d %s%'') [VNum (- 7), VStr None]) \<lparr>tx_busy = False, tx_out = [65]\<rparr>) = 65 # out \<and>
      out = vprintf False (map chr ''exec %d %s%'') [VNum (- 7), VStr None]) \<and>
   (\<exists>out. tx_out (kprint (printf (map chr ''%x%c'') [VNum 0xBEEF, VNum 0x241]) \<lparr>tx_busy = False, tx_out = []\<rparr>) = out \<and>
      map fold_case out = map fold_case (vprintf False (map chr ''%x%c'') [VNum 0xBEEF, VNum 0x241]))"
proof -
  have c: "conversions (map chr ''exec %d %s%'') [VNum (- 7), VStr None] = [(map chr ''d'', - 7), (map chr ''s'', 0)]"
    "conversions (map chr ''%x%c'') [VNum 0xBEEF, VNum 0x241] = [(map chr ''x'', 0xBEEF), (map chr ''c'', 0x241)]"
    by (simp_all add: chr_def fmt_at_def conv_spec_def takes_arg_def va_num_def)
  have "list_all plain_conv [(map chr ''d'', - 7), (map chr ''s'', 0)]" "list_all plain_conv [(map chr ''x'', 0xBEEF), (map chr ''c'', 0x241)]"
    "\<not> list_ex (\<lambda>c. hex_conv (fst c)) [(map chr ''d'', - 7), (map chr ''s'', 0 :: u64)]"
    by (simp_all add: plain_conv_def hex_conv_def chr_def)
  moreover have "0 \<notin> set (map chr ''exec %d %s%'')" "0 \<notin> set (map chr ''%x%c'')" by (simp_all add: chr_def)
  ultimately show ?thesis
    using printf_formatters_agree [of "map chr ''exec %d %s%''" "[VNum (- 7), VStr None]" "\<lparr>tx_busy = False, tx_out = [65]\<rparr>"]
      printf_formatters_agree [of "map chr ''%x%c''" "[VNum 0xBEEF, VNum 0x241]" "\<lparr>tx_busy = False, tx_out = []\<rparr>"]
    unfolding c by auto
qed

end
