(* ===== verification/Pipe.thy ===== *)
theory Pipe
  imports Prelude
begin

text \<open>
  Pipes, \<^verbatim>\<open>kernel/pipe.c\<close>: a 512-byte ring indexed by two free-running 32-bit counters.
  \<open>pipewrite\<close> and \<open>piperead\<close> hold \<open>pi->lock\<close> except while they sleep, so a call is a sequence of
  atomic segments, each ending in a return or in a call of \<open>sleep\<close>. The user-memory copies
  \<open>copyin\<close> and \<open>copyout\<close> of one byte are arguments that act on a state of their own.
\<close>

section \<open>State and operations\<close>

definition PIPESIZE :: nat where "PIPESIZE = 512"
declare PIPESIZE_def [kconst]

record pipe =
  pdata :: "byte list"
  nread :: u32
  nwrite :: u32
  readopen :: bool
  writeopen :: bool

text \<open>The pipe that \<open>pipealloc\<close> sets up in a fresh page.\<close>

definition pipe_init :: "byte list \<Rightarrow> pipe" where
  "pipe_init page = \<lparr>pdata = take PIPESIZE page, nread = 0, nwrite = 0, readopen = True, writeopen = True\<rparr>"

text \<open>
  The end of a segment: the call returns a value, or it sleeps with its loop counter at \<open>i\<close>.
\<close>

datatype segment = Ret int | Sleep nat

text \<open>\<open>pipeclose\<close>; the second result says that the page is freed.\<close>

definition pipeclose :: "pipe \<Rightarrow> bool \<Rightarrow> pipe \<times> bool" where
  "pipeclose pi writable =
     (let pi1 = (if writable then pi\<lparr>writeopen := False\<rparr> else pi\<lparr>readopen := False\<rparr>)
      in (pi1, \<not> readopen pi1 \<and> \<not> writeopen pi1))"

function pipewrite_seg :: "(u64 \<Rightarrow> 's \<Rightarrow> (byte option \<times> 's) result) \<Rightarrow> bool \<Rightarrow> u64 \<Rightarrow> int \<Rightarrow> nat
    \<Rightarrow> pipe \<Rightarrow> 's \<Rightarrow> (segment \<times> pipe \<times> 's) result" where
  "pipewrite_seg cin kill addr n i pi s =
     (if \<not> int i < n then Ok (Ret (int i), pi, s)
      else if \<not> readopen pi \<or> kill then Ok (Ret (-1), pi, s)
      else if nwrite pi = nread pi + of_nat PIPESIZE then Ok (Sleep i, pi, s)
      else bindR (cin (addr + of_nat i) s) (\<lambda>(ch, s1).
        case ch of None \<Rightarrow> Ok (Ret (int i), pi, s1)
        | Some b \<Rightarrow> pipewrite_seg cin kill addr n (Suc i)
            (pi\<lparr>pdata := (pdata pi)[unat (nwrite pi) mod PIPESIZE := b], nwrite := nwrite pi + 1\<rparr>) s1))"
  by pat_completeness auto

termination
  by (relation "measure (\<lambda>(cin, kill, addr, n, i, pi, s). nat (n - int i))") auto

function piperead_seg :: "(u64 \<Rightarrow> byte \<Rightarrow> 's \<Rightarrow> (bool \<times> 's) result) \<Rightarrow> u64 \<Rightarrow> int \<Rightarrow> nat
    \<Rightarrow> pipe \<Rightarrow> 's \<Rightarrow> (segment \<times> pipe \<times> 's) result" where
  "piperead_seg cout addr n i pi s =
     (if \<not> int i < n then Ok (Ret (int i), pi, s)
      else if nread pi = nwrite pi then Ok (Ret (int i), pi, s)
      else let ch = pdata pi ! (unat (nread pi) mod PIPESIZE)
           in bindR (cout (addr + of_nat i) ch s) (\<lambda>(ok, s1).
                if \<not> ok then Ok (Ret (if i = 0 then -1 else int i), pi, s1)
                else piperead_seg cout addr n (Suc i) (pi\<lparr>nread := nread pi + 1\<rparr>) s1))"
  by pat_completeness auto

termination
  by (relation "measure (\<lambda>(cout, addr, n, i, pi, s). nat (n - int i))") auto

declare pipewrite_seg.simps [simp del] piperead_seg.simps [simp del]

text \<open>The calls: \<open>pipewrite\<close> resumes at its loop counter, \<open>piperead\<close> sleeps only before its loop.\<close>

definition pipewrite :: "(u64 \<Rightarrow> 's \<Rightarrow> (byte option \<times> 's) result) \<Rightarrow> bool \<Rightarrow> u64 \<Rightarrow> int
    \<Rightarrow> pipe \<Rightarrow> 's \<Rightarrow> (segment \<times> pipe \<times> 's) result" where
  "pipewrite cin kill addr n pi s = pipewrite_seg cin kill addr n 0 pi s"

definition piperead :: "(u64 \<Rightarrow> byte \<Rightarrow> 's \<Rightarrow> (bool \<times> 's) result) \<Rightarrow> bool \<Rightarrow> u64 \<Rightarrow> int
    \<Rightarrow> pipe \<Rightarrow> 's \<Rightarrow> (segment \<times> pipe \<times> 's) result" where
  "piperead cout kill addr n pi s =
     (if nread pi = nwrite pi \<and> writeopen pi
      then if kill then Ok (Ret (-1), pi, s) else Ok (Sleep 0, pi, s)
      else piperead_seg cout addr n 0 pi s)"

section \<open>The ring as a queue\<close>

text \<open>The unread bytes, oldest first; the counters wrap around at \<open>2 ^ 32\<close>.\<close>

definition pipe_len :: "pipe \<Rightarrow> nat" where
  "pipe_len pi = unat (nwrite pi - nread pi)"

definition contents :: "pipe \<Rightarrow> byte list" where
  "contents pi = map (\<lambda>i. pdata pi ! ((unat (nread pi) + i) mod PIPESIZE)) [0..<pipe_len pi]"

definition pipe_inv :: "pipe \<Rightarrow> bool" where
  "pipe_inv pi = (length (pdata pi) = PIPESIZE \<and> pipe_len pi \<le> PIPESIZE)"

lemma unat_add32_mod: "unat (a + b :: u32) mod PIPESIZE = (unat a + unat b) mod PIPESIZE"
  by (simp add: unat_word_ariths kconst mod_mod_cancel)

lemma pipe_nwrite: "nwrite pi = nread pi + of_nat (pipe_len pi)"
  by (simp add: pipe_len_def)

lemma pipe_full: "pipe_inv pi \<Longrightarrow> (nwrite pi = nread pi + of_nat PIPESIZE) = (pipe_len pi = PIPESIZE)"
proof
  assume "nwrite pi = nread pi + of_nat PIPESIZE"
  then have "nwrite pi - nread pi = of_nat PIPESIZE" by simp
  then show "pipe_len pi = PIPESIZE" by (simp add: pipe_len_def kconst)
qed (use pipe_nwrite [of pi] in simp)

lemma pipe_empty: "(nread pi = nwrite pi) = (pipe_len pi = 0)"
  by (auto simp: pipe_len_def unat_eq_0)

lemma write_byte:
  fixes b
  assumes inv: "pipe_inv pi" and room: "pipe_len pi < PIPESIZE"
  defines "pi' \<equiv> pi\<lparr>pdata := (pdata pi)[unat (nwrite pi) mod PIPESIZE := b], nwrite := nwrite pi + 1\<rparr>"
  shows "pipe_inv pi'" "contents pi' = contents pi @ [b]"
proof -
  note w = pipe_nwrite [of pi]
  have len: "pipe_len pi' = Suc (pipe_len pi)"
  proof -
    have "nwrite pi + 1 - nread pi = of_nat (Suc (pipe_len pi))" by (simp add: w)
    then show ?thesis using room by (simp add: pipe_len_def pi'_def unat_of_nat kconst del: of_nat_Suc)
  qed
  then show "pipe_inv pi'" using inv room by (simp add: pipe_inv_def pi'_def)
  have at: "unat (nwrite pi) mod PIPESIZE = (unat (nread pi) + pipe_len pi) mod PIPESIZE"
  proof -
    have "unat (of_nat (pipe_len pi) :: u32) = pipe_len pi" using room by (simp add: unat_of_nat kconst)
    then show ?thesis unfolding w by (simp only: unat_add32_mod)
  qed
  have other: "(unat (nread pi) + i) mod PIPESIZE \<noteq> (unat (nread pi) + pipe_len pi) mod PIPESIZE"
    if "i < pipe_len pi" for i
  proof
    assume "(unat (nread pi) + i) mod PIPESIZE = (unat (nread pi) + pipe_len pi) mod PIPESIZE"
    then have "PIPESIZE dvd pipe_len pi - i"
      using that by (metis add_diff_cancel_left less_imp_le_nat mod_eq_dvd_iff_nat nat_add_left_cancel_le)
    then show False using that room by (auto dest: dvd_imp_le)
  qed
  show "contents pi' = contents pi @ [b]"
  proof -
    have "contents pi' = map (\<lambda>i. (pdata pi)[unat (nwrite pi) mod PIPESIZE := b] ! ((unat (nread pi) + i) mod PIPESIZE)) [0..<Suc (pipe_len pi)]"
      using len by (simp add: contents_def pi'_def)
    also have "\<dots> = contents pi @ [b]"
    proof -
      have "0 < PIPESIZE" by (simp add: kconst)
      then show ?thesis using inv other other [symmetric] unfolding at
        by (simp add: contents_def pipe_inv_def nth_list_update)
    qed
    finally show ?thesis .
  qed
qed

lemma read_byte:
  assumes inv: "pipe_inv pi" and ne: "pipe_len pi \<noteq> 0"
  defines "pi' \<equiv> pi\<lparr>nread := nread pi + 1\<rparr>"
  shows "pipe_inv pi'" "contents pi = pdata pi ! (unat (nread pi) mod PIPESIZE) # contents pi'"
proof -
  obtain k where k: "pipe_len pi = Suc k" using ne by (cases "pipe_len pi") auto
  have "nwrite pi - (nread pi + 1) = of_nat k"
  proof -
    have "nwrite pi = nread pi + of_nat (Suc k)" using pipe_nwrite [of pi] k by simp
    then show ?thesis by simp
  qed
  moreover have "k < 2 ^ 32" using inv k by (simp add: pipe_inv_def kconst)
  ultimately have len: "pipe_len pi' = k" by (simp add: pipe_len_def pi'_def unat_of_nat)
  then show "pipe_inv pi'" using inv k by (simp add: pipe_inv_def pi'_def)
  have "contents pi = map (\<lambda>i. pdata pi ! ((unat (nread pi) + i) mod PIPESIZE)) (0 # map Suc [0..<k])"
    by (simp add: contents_def k upt_conv_Cons map_Suc_upt del: upt_Suc)
  also have "\<dots> = pdata pi ! (unat (nread pi) mod PIPESIZE) # contents pi'"
  proof -
    have "unat (nread pi + 1) mod PIPESIZE = (unat (nread pi) + 1) mod PIPESIZE" by (simp add: unat_add32_mod)
    then have "(unat (nread pi + 1) + i) mod PIPESIZE = (unat (nread pi) + Suc i) mod PIPESIZE" for i
      by (metis add_Suc_right mod_add_left_eq plus_1_eq_Suc add.commute add_Suc)
    then show ?thesis using len by (simp add: contents_def pi'_def)
  qed
  finally show "contents pi = pdata pi ! (unat (nread pi) mod PIPESIZE) # contents pi'" .
qed

section \<open>Segments\<close>

text \<open>
  User memory as a source and a sink that keep a log of the bytes that went into and came out
  of the pipe; a copy may fail at any address.
\<close>

definition cin_log :: "(u64 \<Rightarrow> byte option) \<Rightarrow> u64 \<Rightarrow> byte list \<Rightarrow> (byte option \<times> byte list) result" where
  "cin_log src a w = Ok (case src a of None \<Rightarrow> (None, w) | Some b \<Rightarrow> (Some b, w @ [b]))"

definition cout_log :: "(u64 \<Rightarrow> bool) \<Rightarrow> u64 \<Rightarrow> byte \<Rightarrow> byte list \<Rightarrow> (bool \<times> byte list) result" where
  "cout_log ok a b r = Ok (if ok a then (True, r @ [b]) else (False, r))"

lemma pipewrite_log:
  "pipewrite_seg (cin_log src) kill addr n i pi w = Ok (seg, pi', w') \<Longrightarrow> pipe_inv pi \<Longrightarrow>
   pipe_inv pi' \<and> (\<exists>bs. contents pi' = contents pi @ bs \<and> w' = w @ bs)"
proof (induction "nat (n - int i)" arbitrary: i pi w)
  case 0
  then show ?case by (simp add: pipewrite_seg.simps [of _ _ _ n i])
next
  case (Suc d)
  then have lt: "int i < n" by simp
  show ?case
  proof (cases "readopen pi \<and> \<not> kill \<and> nwrite pi \<noteq> nread pi + of_nat PIPESIZE \<and> src (addr + of_nat i) \<noteq> None")
    case True
    then obtain b where b: "src (addr + of_nat i) = Some b" by auto
    let ?p = "pi\<lparr>pdata := (pdata pi)[unat (nwrite pi) mod PIPESIZE := b], nwrite := nwrite pi + 1\<rparr>"
    have "pipe_len pi < PIPESIZE" using True Suc.prems(2) pipe_full [OF Suc.prems(2)] by (auto simp: pipe_inv_def)
    note wb = write_byte [OF Suc.prems(2) this, of b]
    have "pipewrite_seg (cin_log src) kill addr n (Suc i) ?p (w @ [b]) = Ok (seg, pi', w')"
      using Suc.prems(1) lt True b by (subst (asm) pipewrite_seg.simps) (simp add: cin_log_def)
    then have "pipe_inv pi' \<and> (\<exists>bs. contents pi' = contents ?p @ bs \<and> w' = (w @ [b]) @ bs)"
      by (intro Suc.hyps(1) [of "Suc i"]) (use Suc.hyps(2) wb(1) in simp_all)
    then show ?thesis unfolding wb(2) by auto
  next
    case False
    then show ?thesis using Suc.prems by (subst (asm) pipewrite_seg.simps) (auto simp: cin_log_def split: if_splits)
  qed
qed

lemma piperead_log:
  "piperead_seg (cout_log ok) addr n i pi r = Ok (seg, pi', r') \<Longrightarrow> pipe_inv pi \<Longrightarrow>
   pipe_inv pi' \<and> (\<exists>bs. contents pi = bs @ contents pi' \<and> r' = r @ bs)"
proof (induction "nat (n - int i)" arbitrary: i pi r)
  case 0
  then show ?case by (simp add: piperead_seg.simps [of _ _ n i])
next
  case (Suc d)
  then have lt: "int i < n" by simp
  let ?ch = "pdata pi ! (unat (nread pi) mod PIPESIZE)" and ?p = "pi\<lparr>nread := nread pi + 1\<rparr>"
  show ?case
  proof (cases "nread pi \<noteq> nwrite pi \<and> ok (addr + of_nat i)")
    case True
    then have "pipe_len pi \<noteq> 0" using pipe_empty by metis
    note rb = read_byte [OF Suc.prems(2) this]
    have "piperead_seg (cout_log ok) addr n (Suc i) ?p (r @ [?ch]) = Ok (seg, pi', r')"
      using Suc.prems(1) lt True by (subst (asm) piperead_seg.simps) (simp add: cout_log_def Let_def)
    then have "pipe_inv pi' \<and> (\<exists>bs. contents ?p = bs @ contents pi' \<and> r' = (r @ [?ch]) @ bs)"
      by (intro Suc.hyps(1) [of "Suc i"]) (use Suc.hyps(2) rb(1) in simp_all)
    then show ?thesis unfolding rb(2) by auto
  next
    case False
    then show ?thesis
      using Suc.prems by (subst (asm) piperead_seg.simps) (auto simp: cout_log_def Let_def split: if_splits)
  qed
qed

text \<open>
  Any sequence of write segments, read calls and closes by any processes, with the log of all
  bytes written and all bytes read.
\<close>

inductive pipe_run :: "pipe \<Rightarrow> byte list \<Rightarrow> byte list \<Rightarrow> bool" where
  start: "PIPESIZE \<le> length page \<Longrightarrow> pipe_run (pipe_init page) [] []"
| put: "pipe_run pi w r \<Longrightarrow> pipewrite_seg (cin_log src) kill addr n i pi w = Ok (seg, pi', w') \<Longrightarrow> pipe_run pi' w' r"
| get: "pipe_run pi w r \<Longrightarrow> piperead (cout_log ok) kill addr n pi r = Ok (seg, pi', r') \<Longrightarrow> pipe_run pi' w r'"
| close: "pipe_run pi w r \<Longrightarrow> pipeclose pi writable = (pi', freed) \<Longrightarrow> pipe_run pi' w r"

lemma pipe_init_empty: "PIPESIZE \<le> length page \<Longrightarrow> pipe_inv (pipe_init page) \<and> contents (pipe_init page) = []"
  by (simp add: pipe_inv_def contents_def pipe_len_def pipe_init_def)

lemma pipeclose_same:
  "pipeclose pi writable = (pi', freed) \<Longrightarrow> pipe_inv pi' = pipe_inv pi \<and> contents pi' = contents pi"
  by (cases writable) (auto simp: pipeclose_def Let_def pipe_inv_def contents_def pipe_len_def)

lemma pipe_run_inv: "pipe_run pi w r \<Longrightarrow> pipe_inv pi \<and> w = r @ contents pi"
proof (induction rule: pipe_run.induct)
  case (put pi w r src kill addr n i seg pi' w')
  then show ?case using pipewrite_log by fastforce
next
  case (get pi w r ok kill addr n seg pi' r')
  then show ?case using piperead_log [of ok addr n 0 pi r seg pi' r'] by (auto simp: piperead_def split: if_splits)
qed (use pipe_init_empty pipeclose_same in auto)

text \<open>What a segment does when no copy fails.\<close>

lemma pipewrite_total:
  assumes "pipe_inv pi" "readopen pi" "\<And>a s. cin a s = Ok (Some (src a), s)" "k + pipe_len pi \<le> PIPESIZE"
    "int (i + k) \<le> n" "int (i + k) < n \<Longrightarrow> k + pipe_len pi = PIPESIZE"
  shows "\<exists>pi'. pipewrite_seg cin False addr n i pi s =
    Ok (if int (i + k) < n then Sleep (i + k) else Ret n, pi', s) \<and> pipe_inv pi' \<and>
    contents pi' = contents pi @ map (\<lambda>j. src (addr + of_nat j)) [i..<i + k]"
  using assms(1,2,4-6)
proof (induction k arbitrary: i pi)
  case 0
  then show ?case using pipe_full [of pi] by (simp add: pipewrite_seg.simps [of _ _ _ n i])
next
  case (Suc k)
  let ?b = "src (addr + of_nat i)"
  let ?p = "pi\<lparr>pdata := (pdata pi)[unat (nwrite pi) mod PIPESIZE := ?b], nwrite := nwrite pi + 1\<rparr>"
  have room: "pipe_len pi < PIPESIZE" using Suc.prems(3) by simp
  note wb = write_byte [OF Suc.prems(1) room, of ?b]
  have len: "pipe_len ?p = Suc (pipe_len pi)"
    using arg_cong [OF wb(2), of length] by (simp add: contents_def)
  have step: "pipewrite_seg cin False addr n i pi s = pipewrite_seg cin False addr n (Suc i) ?p s"
    using Suc.prems pipe_full [of pi] room assms(3) by (simp add: pipewrite_seg.simps [of _ _ _ n i])
  have "\<exists>pi'. pipewrite_seg cin False addr n (Suc i) ?p s =
    Ok (if int (Suc i + k) < n then Sleep (Suc i + k) else Ret n, pi', s) \<and> pipe_inv pi' \<and>
    contents pi' = contents ?p @ map (\<lambda>j. src (addr + of_nat j)) [Suc i..<Suc i + k]"
    by (rule Suc.IH) (use wb(1) Suc.prems len in auto)
  moreover have "Suc i + k = i + Suc k" by simp
  moreover have "[i..<i + Suc k] = i # [Suc i..<i + Suc k]" by (simp add: upt_conv_Cons del: upt_Suc)
  ultimately show ?case unfolding step wb(2) by (simp only: append.assoc append.simps list.map)
qed

lemma piperead_total:
  assumes "pipe_inv pi" "k \<le> pipe_len pi" "int (i + length r + k) \<le> n" "int (i + length r + k) < n \<Longrightarrow> k = pipe_len pi"
  shows "\<exists>pi'. piperead_seg (cout_log (\<lambda>_. True)) addr n (i + length r) pi r =
      Ok (Ret (int (i + length r + k)), pi', r @ take k (contents pi)) \<and> pipe_inv pi' \<and> contents pi' = drop k (contents pi)"
  using assms
proof (induction k arbitrary: pi r)
  case 0
  then show ?case using pipe_empty [of pi] by (simp add: piperead_seg.simps [of _ _ n "i + length r"])
next
  case (Suc k)
  let ?ch = "pdata pi ! (unat (nread pi) mod PIPESIZE)" and ?p = "pi\<lparr>nread := nread pi + 1\<rparr>"
  have ne: "pipe_len pi \<noteq> 0" using Suc.prems(2) by simp
  note rb = read_byte [OF Suc.prems(1) ne]
  have len: "pipe_len pi = Suc (pipe_len ?p)" using arg_cong [OF rb(2), of length] by (simp add: contents_def)
  have step: "piperead_seg (cout_log (\<lambda>_. True)) addr n (i + length r) pi r =
      piperead_seg (cout_log (\<lambda>_. True)) addr n (i + length (r @ [?ch])) ?p (r @ [?ch])"
    using Suc.prems ne pipe_empty [of pi] by (simp add: piperead_seg.simps [of _ _ n "i + length r"] cout_log_def Let_def)
  have "\<exists>pi'. piperead_seg (cout_log (\<lambda>_. True)) addr n (i + length (r @ [?ch])) ?p (r @ [?ch]) =
      Ok (Ret (int (i + length (r @ [?ch]) + k)), pi', (r @ [?ch]) @ take k (contents ?p)) \<and> pipe_inv pi' \<and>
      contents pi' = drop k (contents ?p)"
    by (rule Suc.IH) (use rb(1) Suc.prems len in auto)
  then show ?case unfolding step rb(2) by simp
qed

section \<open>Properties of pipes\<close>

text \<open>
  C15. A pipe is a byte stream: after any interleaving of write segments, reads and closes, with
  copies failing anywhere and the 32-bit counters wrapping around, the bytes read so far followed
  by the unread bytes of the ring are exactly the bytes written, in order, and at most 512 are
  unread.
\<close>

theorem pipe_stream:
  assumes "pipe_run pi w r"
  shows "w = r @ contents pi \<and> length (contents pi) \<le> PIPESIZE"
  using pipe_run_inv [OF assms] by (simp add: pipe_inv_def contents_def)

theorem pipe_stream_witness:
  "\<exists>pi. pipe_run pi [97, 98, 99] [97] \<and> contents pi = [98, 99]"
proof -
  let ?src = "\<lambda>a :: u64. Some (ucast a :: byte)"
  define p0 where "p0 = pipe_init (replicate 512 0)"
  have r0: "pipe_run p0 [] []" unfolding p0_def by (rule pipe_run.start) (simp add: kconst)
  have "\<exists>pi. pipewrite_seg (cin_log ?src) False 97 3 0 p0 [] = Ok (Ret 3, pi, [97, 98, 99]) \<and> nread pi = 0 \<and> nwrite pi = 3"
    by (simp add: p0_def pipe_init_def pipewrite_seg.simps cin_log_def kconst)
  then obtain p1 where p1: "pipewrite_seg (cin_log ?src) False 97 3 0 p0 [] = Ok (Ret 3, p1, [97, 98, 99])"
      "nread p1 = 0" "nwrite p1 = 3" by blast
  have r1: "pipe_run p1 [97, 98, 99] []" by (rule pipe_run.put [OF r0 p1(1)])
  have c1: "contents p1 = [97, 98, 99]" using pipe_stream [OF r1] by simp
  have "\<exists>pi. piperead_seg (cout_log (\<lambda>_. True)) 0 1 (0 + length ([] :: byte list)) p1 [] =
      Ok (Ret (int (0 + length ([] :: byte list) + 1)), pi, [] @ take 1 (contents p1)) \<and> pipe_inv pi \<and> contents pi = drop 1 (contents p1)"
    by (rule piperead_total) (use pipe_run_inv [OF r1] p1 in \<open>simp_all add: pipe_len_def\<close>)
  then obtain p2 where "piperead (cout_log (\<lambda>_. True)) False 0 1 p1 [] = Ok (Ret 1, p2, [97])" "contents p2 = [98, 99]"
    using p1 c1 by (auto simp: piperead_def)
  then show ?thesis using pipe_run.get [OF r1] by blast
qed

text \<open>
  What one call does when the user memory is accessible. A write of \<open>n\<close> bytes to a pipe with
  an open read end appends as many of them as fit and returns \<open>n\<close>, or goes to sleep only with the
  ring full; with the read end closed or the writer killed it returns \<open>-1\<close>. A read returns the
  oldest \<open>min n len\<close> bytes; it sleeps only on an empty pipe whose write end is open, and returns
  0 at end of file.
\<close>

theorem pipe_call_outcome:
  assumes "pipe_inv pi" "0 < n"
  shows "(\<not> readopen pi \<or> kill \<longrightarrow> pipewrite (\<lambda>a s. Ok (Some (src a), s)) kill addr n pi s = Ok (Ret (-1), pi, s)) \<and>
    (readopen pi \<and> \<not> kill \<longrightarrow> (\<exists>pi'. pipewrite (\<lambda>a s. Ok (Some (src a), s)) kill addr n pi s =
        Ok (if int (PIPESIZE - pipe_len pi) < n then Sleep (PIPESIZE - pipe_len pi) else Ret n, pi', s) \<and>
      contents pi' = contents pi @ map (\<lambda>j. src (addr + of_nat j)) [0..<min (nat n) (PIPESIZE - pipe_len pi)])) \<and>
    (contents pi = [] \<and> writeopen pi \<longrightarrow>
      piperead (cout_log (\<lambda>_. True)) kill addr n pi [] = Ok (if kill then Ret (-1) else Sleep 0, pi, [])) \<and>
    (\<not> (contents pi = [] \<and> writeopen pi) \<longrightarrow> (\<exists>pi'. piperead (cout_log (\<lambda>_. True)) kill addr n pi [] =
        Ok (Ret (min n (int (length (contents pi)))), pi', take (nat n) (contents pi)) \<and>
      contents pi' = drop (nat n) (contents pi)))"
proof -
  let ?k = "min (nat n) (PIPESIZE - pipe_len pi)" and ?m = "min (nat n) (pipe_len pi)"
  have len: "pipe_len pi \<le> PIPESIZE" "length (contents pi) = pipe_len pi"
    using assms(1) by (simp_all add: pipe_inv_def contents_def)
  have e: "(nread pi = nwrite pi) = (contents pi = [])" using pipe_empty [of pi] len(2) by auto
  have "\<exists>pi'. pipewrite (\<lambda>a s. Ok (Some (src a), s)) kill addr n pi s =
        Ok (if int (PIPESIZE - pipe_len pi) < n then Sleep (PIPESIZE - pipe_len pi) else Ret n, pi', s) \<and>
      contents pi' = contents pi @ map (\<lambda>j. src (addr + of_nat j)) [0..<?k]" if "readopen pi" "\<not> kill"
  proof -
    have "\<exists>pi'. pipewrite_seg (\<lambda>a s. Ok (Some (src a), s)) False addr n 0 pi s =
        Ok (if int (0 + ?k) < n then Sleep (0 + ?k) else Ret n, pi', s) \<and> pipe_inv pi' \<and>
        contents pi' = contents pi @ map (\<lambda>j. src (addr + of_nat j)) [0..<0 + ?k]"
      by (rule pipewrite_total) (use assms that len in auto)
    moreover have "(int ?k < n) = (int (PIPESIZE - pipe_len pi) < n)"
      "int ?k < n \<Longrightarrow> ?k = PIPESIZE - pipe_len pi" using assms(2) by auto
    ultimately show ?thesis using that by (auto simp: pipewrite_def)
  qed
  moreover have "\<exists>pi'. piperead (cout_log (\<lambda>_. True)) kill addr n pi [] =
        Ok (Ret (min n (int (length (contents pi)))), pi', take (nat n) (contents pi)) \<and>
      contents pi' = drop (nat n) (contents pi)" if "\<not> (contents pi = [] \<and> writeopen pi)"
  proof -
    have "\<exists>pi'. piperead_seg (cout_log (\<lambda>_. True)) addr n (0 + length ([] :: byte list)) pi [] =
        Ok (Ret (int (0 + length ([] :: byte list) + ?m)), pi', [] @ take ?m (contents pi)) \<and> pipe_inv pi' \<and>
        contents pi' = drop ?m (contents pi)"
      by (rule piperead_total) (use assms in auto)
    moreover have "take ?m (contents pi) = take (nat n) (contents pi)" "drop ?m (contents pi) = drop (nat n) (contents pi)"
      "int ?m = min n (int (length (contents pi)))" using len(2) assms(2) by (auto simp: min_def)
    ultimately show ?thesis using that e by (auto simp: piperead_def)
  qed
  moreover have "pipewrite (\<lambda>a s. Ok (Some (src a), s)) kill addr n pi s = Ok (Ret (-1), pi, s)" if "\<not> readopen pi \<or> kill"
    using that assms(2) by (simp add: pipewrite_def pipewrite_seg.simps)
  ultimately show ?thesis using e by (simp add: piperead_def)
qed

theorem pipe_call_outcome_witness:
  "\<exists>pi'. pipewrite (\<lambda>a s. Ok (Some (ucast a :: byte), s)) False 0 600 (pipe_init (replicate 512 0)) () = Ok (Sleep 512, pi', ()) \<and>
     length (contents pi') = 512"
proof -
  have inv: "pipe_inv (pipe_init (replicate 512 0))" "pipe_len (pipe_init (replicate 512 0)) = 0"
      "readopen (pipe_init (replicate 512 0))" "contents (pipe_init (replicate 512 0)) = []"
    using pipe_init_empty [of "replicate 512 0"] by (simp_all add: kconst pipe_len_def pipe_init_def)
  show ?thesis
    using pipe_call_outcome [OF inv(1), of 600 False "\<lambda>a. ucast a :: byte" 0 "()"] inv(2-4) by (auto simp: kconst)
qed

end
