(* ===== verification/File.thy ===== *)
theory File
  imports Console Pipe Fs
begin

text \<open>
  The state of the whole kernel, and the file layer over it: \<^verbatim>\<open>kernel/file.c\<close> and the parts of
  \<^verbatim>\<open>kernel/pipe.c\<close> that deal with files, memory and sleeping processes. A system call that sleeps
  is cut there: it leaves its process asleep, and what it still has to do is a value of type \<open>kont\<close>.
  The file system below serves one process at a time and does not sleep.
\<close>

section \<open>State\<close>

datatype fdtype = FD_NONE | FD_PIPE | FD_INODE | FD_DEVICE

record kfile =
  fl_type :: fdtype
  fl_ref :: int
  fl_readable :: bool
  fl_writable :: bool
  fl_pipe :: u64
  fl_ip :: nat
  fl_off :: u32
  fl_major :: u16

definition NFILE :: nat where "NFILE = 100"
definition NDEV :: nat where "NDEV = 10"
definition CONSOLE :: int where "CONSOLE = 1"

datatype kont =
  KPipeWrite u64 u64 int nat
| KPipeRead u64 u64 int
| KConsRead u32 u64 int
| KConsWrite u64 int nat "byte list" nat
| KWait u64
| KPause u32 int
| KFork
| KYield

text \<open>The end of a call: it returns, sleeps, or its process is gone.\<close>

datatype kcall = KRet int | KBlock kont | KGone

text \<open>
  \<open>pipes\<close> holds the pipe in each page that has one; \<open>konts\<close> what a process that is off the CPU
  inside the kernel does next; \<open>fs_first\<close> is \<open>forkret\<close>'s static variable.
\<close>

record kernel =
  kst :: kstate
  fsy :: fsys
  ftable :: "kfile list"
  pipes :: "u64 \<Rightarrow> pipe option"
  kcons :: cons
  kuart :: uart
  ticks :: u32
  gticks :: int
  kq :: mlfq
  konts :: "nat \<Rightarrow> kont option"
  fs_first :: bool

section \<open>Calls of the layers below\<close>

definition cpid :: "kernel \<Rightarrow> int" where
  "cpid k = (case curp (kst k) of None \<Rightarrow> 0 | Some p \<Rightarrow> p_pid (procs (kst k) ! p))"

definition clevel :: "kernel \<Rightarrow> int" where
  "clevel k = (case curp (kst k) of None \<Rightarrow> 0 | Some p \<Rightarrow> p_level (procs (kst k) ! p))"

text \<open>The file system as the current process sees it.\<close>

definition kfs :: "kernel \<Rightarrow> fsys" where
  "kfs k = with_bc ((bc (fio (fsy k)))\<lparr>cur_pid := cpid k, cur_level := clevel k\<rparr>) (fsy k)"

definition on_fs :: "(fsys \<Rightarrow> fsys result) \<Rightarrow> kernel \<Rightarrow> kernel result" where
  "on_fs f k = bindR (f (kfs k)) (\<lambda>s. Ok (k\<lparr>fsy := s\<rparr>))"

definition on_fsv :: "(fsys \<Rightarrow> ('a \<times> fsys) result) \<Rightarrow> kernel \<Rightarrow> ('a \<times> kernel) result" where
  "on_fsv f k = bindR (f (kfs k)) (\<lambda>(x, s). Ok (x, k\<lparr>fsy := s\<rparr>))"

definition on_ks :: "(kstate \<Rightarrow> kstate result) \<Rightarrow> kernel \<Rightarrow> kernel result" where
  "on_ks f k = bindR (f (kst k)) (\<lambda>s. Ok (k\<lparr>kst := s\<rparr>))"

definition on_ksv :: "(kstate \<Rightarrow> ('a \<times> kstate) result) \<Rightarrow> kernel \<Rightarrow> ('a \<times> kernel) result" where
  "on_ksv f k = bindR (f (kst k)) (\<lambda>(x, s). Ok (x, k\<lparr>kst := s\<rparr>))"

definition k_procs :: "kernel \<Rightarrow> proc list" where
  "k_procs k = procs (kst k)"

definition k_updp :: "nat \<Rightarrow> (proc \<Rightarrow> proc) \<Rightarrow> kernel \<Rightarrow> kernel" where
  "k_updp p f k = k\<lparr>kst := upd_proc p f (kst k)\<rparr>"

definition k_inode :: "kernel \<Rightarrow> nat \<Rightarrow> inode" where
  "k_inode k ip = itable (fsy k) ! ip"

definition k_wakeup :: "chan \<Rightarrow> kernel \<Rightarrow> kernel" where
  "k_wakeup ch k = k\<lparr>kst := wakeup ch (kst k)\<rparr>"

text \<open>\<open>sleep\<close> up to its switch, leaving \<open>c\<close> to be done.\<close>

definition block :: "nat \<Rightarrow> chan \<Rightarrow> kont \<Rightarrow> kernel \<Rightarrow> (kcall \<times> kernel) result" where
  "block p ch c k = bindR (on_ks (sleep_enter ch p) k) (\<lambda>k1. Ok (KBlock c, k1\<lparr>konts := (konts k1)(p := Some c)\<rparr>))"

definition upd_file :: "nat \<Rightarrow> (kfile \<Rightarrow> kfile) \<Rightarrow> kernel \<Rightarrow> kernel" where
  "upd_file f g k = k\<lparr>ftable := (ftable k)[f := g (ftable k ! f)]\<rparr>"

section \<open>Pipes\<close>

text \<open>\<open>&pi->nread\<close>, \<open>&pi->nwrite\<close> and \<open>pi->data\<close>, after the spinlock of 24 bytes.\<close>

definition pi_nread :: "u64 \<Rightarrow> chan" where "pi_nread pi = AddrChan (pi + 536)"
definition pi_nwrite :: "u64 \<Rightarrow> chan" where "pi_nwrite pi = AddrChan (pi + 540)"

definition k_pipe :: "kernel \<Rightarrow> u64 \<Rightarrow> pipe" where
  "k_pipe k pi = (case pipes k pi of Some q \<Rightarrow> q | None \<Rightarrow> pipe_init [])"

definition k_pipeclose :: "u64 \<Rightarrow> bool \<Rightarrow> kernel \<Rightarrow> kernel result" where
  "k_pipeclose pi writable k =
     (let (q, fr) = pipeclose (k_pipe k pi) writable;
          k1 = k_wakeup (if writable then pi_nread pi else pi_nwrite pi) (k\<lparr>pipes := (pipes k)(pi := Some q)\<rparr>)
      in if fr then on_ks (k_free pi) (k1\<lparr>pipes := (pipes k1)(pi := None)\<rparr>) else Ok k1)"

definition pipe_cin :: "u64 \<Rightarrow> u64 \<Rightarrow> kstate \<Rightarrow> (byte option \<times> kstate) result" where
  "pipe_cin pt a st = bindR (copyin pt a 1 st) (\<lambda>(r, bs, st1). Ok (if r = -1 then None else Some (hd bs), st1))"

definition pipe_cout :: "u64 \<Rightarrow> u64 \<Rightarrow> byte \<Rightarrow> kstate \<Rightarrow> (bool \<times> kstate) result" where
  "pipe_cout pt a ch st = bindR (copyout pt a [ch] st) (\<lambda>(r, st1). Ok (r \<noteq> -1, st1))"

text \<open>\<open>pipewrite\<close> from loop counter \<open>i\<close> on, with its wakeups.\<close>

definition k_pipewrite :: "nat \<Rightarrow> u64 \<Rightarrow> u64 \<Rightarrow> int \<Rightarrow> nat \<Rightarrow> kernel \<Rightarrow> (kcall \<times> kernel) result" where
  "k_pipewrite p pi addr n i k =
     bindR (pipewrite_seg (pipe_cin (p_pagetable (k_procs k ! p))) (killed p (kst k)) addr n i (k_pipe k pi) (kst k)) (\<lambda>(r, q, st).
     let k1 = k\<lparr>kst := st, pipes := (pipes k)(pi := Some q)\<rparr> in
     case r of
       Ret v \<Rightarrow> Ok (KRet v, if v = -1 then k1 else k_wakeup (pi_nread pi) k1)
     | Sleep j \<Rightarrow> block p (pi_nwrite pi) (KPipeWrite pi addr n j) (k_wakeup (pi_nread pi) k1))"

definition k_piperead :: "nat \<Rightarrow> u64 \<Rightarrow> u64 \<Rightarrow> int \<Rightarrow> kernel \<Rightarrow> (kcall \<times> kernel) result" where
  "k_piperead p pi addr n k =
     (let q0 = k_pipe k pi; waits = (nread q0 = nwrite q0 \<and> writeopen q0) in
      bindR (piperead (pipe_cout (p_pagetable (k_procs k ! p))) (killed p (kst k)) addr n q0 (kst k)) (\<lambda>(r, q, st).
      let k1 = k\<lparr>kst := st, pipes := (pipes k)(pi := Some q)\<rparr> in
      case r of
        Ret v \<Rightarrow> Ok (KRet v, if waits then k1 else k_wakeup (pi_nwrite pi) k1)
      | Sleep _ \<Rightarrow> block p (pi_nread pi) (KPipeRead pi addr n) k1))"

section \<open>Files\<close>

definition filealloc :: "kernel \<Rightarrow> nat option \<times> kernel" where
  "filealloc k =
     (case find_index (\<lambda>f. fl_ref f = 0) (ftable k) of
        Some i \<Rightarrow> (Some i, upd_file i (\<lambda>f. f\<lparr>fl_ref := 1\<rparr>) k)
      | None \<Rightarrow> (None, k))"

definition filedup :: "nat \<Rightarrow> kernel \<Rightarrow> kernel result" where
  "filedup f k =
     (if fl_ref (ftable k ! f) < 1 then Panic ''filedup'' else Ok (upd_file f (\<lambda>f. f\<lparr>fl_ref := fl_ref f + 1\<rparr>) k))"

definition k_iput :: "nat \<Rightarrow> kernel \<Rightarrow> kernel result" where
  "k_iput ip k = bindR (on_fs fs_begin_op k) (\<lambda>k1. bindR (on_fs (iput ip) k1) (on_fs fs_end_op))"

definition fileclose :: "nat \<Rightarrow> kernel \<Rightarrow> kernel result" where
  "fileclose f k =
     (let ff = ftable k ! f in
      if fl_ref ff < 1 then Panic ''fileclose''
      else if fl_ref ff - 1 > 0 then Ok (upd_file f (\<lambda>f. f\<lparr>fl_ref := fl_ref f - 1\<rparr>) k)
      else let k1 = upd_file f (\<lambda>f. f\<lparr>fl_ref := 0, fl_type := FD_NONE\<rparr>) k in
        case fl_type ff of
          FD_PIPE \<Rightarrow> k_pipeclose (fl_pipe ff) (fl_writable ff) k1
        | FD_INODE \<Rightarrow> k_iput (fl_ip ff) k1
        | FD_DEVICE \<Rightarrow> k_iput (fl_ip ff) k1
        | FD_NONE \<Rightarrow> Ok k1)"

text \<open>\<open>struct stat\<close> in memory: 24 bytes, 4 of them padding before \<open>size\<close>.\<close>

definition stat_bytes :: "stat \<Rightarrow> byte list" where
  "stat_bytes s = enc 4 (st_dev s) @ enc 4 (st_ino s) @ enc 2 (st_type s) @ enc 2 (st_nlink s) @ [0, 0, 0, 0] @ enc 8 (st_size s)"

definition filestat :: "nat \<Rightarrow> nat \<Rightarrow> u64 \<Rightarrow> kernel \<Rightarrow> (int \<times> kernel) result" where
  "filestat p f addr k =
     (let ff = ftable k ! f in
      if fl_type ff = FD_INODE \<or> fl_type ff = FD_DEVICE then
        bindR (on_fs (ilock (Some (fl_ip ff))) k) (\<lambda>k1.
        let s = stati (fl_ip ff) (fsy k1) in
        bindR (on_fs (iunlock (Some (fl_ip ff))) k1) (\<lambda>k2.
        bindR (on_ksv (copyout (p_pagetable (k_procs k2 ! p)) addr (stat_bytes s)) k2) (\<lambda>(r, k3).
        Ok (if r < 0 then -1 else 0, k3))))
      else Ok (-1, k))"

text \<open>\<open>devsw\<close> has the console's functions only.\<close>

definition dev_ok :: "u16 \<Rightarrow> bool" where
  "dev_ok m = (0 \<le> sint m \<and> sint m < int NDEV \<and> sint m = CONSOLE)"

definition k_consoleread :: "nat \<Rightarrow> u32 \<Rightarrow> u64 \<Rightarrow> int \<Rightarrow> kernel \<Rightarrow> (kcall \<times> kernel) result" where
  "k_consoleread p target dst n k =
     bindR (consoleread_loop True (killed p (kst k)) target dst n (kcons k) (kst k)) (\<lambda>(r, cs, st).
     let k1 = k\<lparr>kcons := cs, kst := st\<rparr> in
     case r of CrRet v \<Rightarrow> Ok (KRet v, k1)
     | CrSleep d m \<Rightarrow> block p cons_r_chan (KConsRead target d m) k1)"

definition k_cwrite :: "nat \<Rightarrow> u64 \<Rightarrow> int \<Rightarrow> cwrite \<times> uart \<times> kstate \<Rightarrow> kernel \<Rightarrow> (kcall \<times> kernel) result" where
  "k_cwrite p src n r k =
     (let (c, u, st) = r; k1 = k\<lparr>kuart := u, kst := st\<rparr> in
      case c of CwRet v \<Rightarrow> Ok (KRet v, k1)
      | CwSleep i bs j \<Rightarrow> block p tx_chan (KConsWrite src n i bs j) k1)"

definition k_consolewrite :: "nat \<Rightarrow> u64 \<Rightarrow> int \<Rightarrow> kernel \<Rightarrow> (kcall \<times> kernel) result" where
  "k_consolewrite p src n k =
     bindR (consolewrite True src n (kuart k) (kst k)) (\<lambda>r. k_cwrite p src n r k)"

definition k_readi :: "nat \<Rightarrow> u64 \<Rightarrow> u32 \<Rightarrow> u32 \<Rightarrow> kernel \<Rightarrow> (int \<times> kernel) result" where
  "k_readi ip dst off n k =
     bindR (readi (either_copyout True) ip dst off n (kst k) (kfs k)) (\<lambda>(r, st, s). Ok (r, k\<lparr>kst := st, fsy := s\<rparr>))"

definition k_writei :: "nat \<Rightarrow> u64 \<Rightarrow> u32 \<Rightarrow> u32 \<Rightarrow> kernel \<Rightarrow> (int \<times> kernel) result" where
  "k_writei ip src off n k =
     bindR (writei (either_copyin True) ip src off n (kst k) (kfs k)) (\<lambda>(r, st, s). Ok (r, k\<lparr>kst := st, fsy := s\<rparr>))"

definition fileread :: "nat \<Rightarrow> nat \<Rightarrow> u64 \<Rightarrow> int \<Rightarrow> kernel \<Rightarrow> (kcall \<times> kernel) result" where
  "fileread p f addr n k =
     (let ff = ftable k ! f in
      if \<not> fl_readable ff then Ok (KRet (-1), k)
      else case fl_type ff of
        FD_PIPE \<Rightarrow> k_piperead p (fl_pipe ff) addr n k
      | FD_DEVICE \<Rightarrow>
          if \<not> dev_ok (fl_major ff) then Ok (KRet (-1), k)
          else k_consoleread p (of_int n) addr n k
      | FD_INODE \<Rightarrow>
          bindR (on_fs (ilock (Some (fl_ip ff))) k) (\<lambda>k1.
          bindR (k_readi (fl_ip ff) addr (fl_off ff) (of_int n) k1) (\<lambda>(r, k2).
          let k3 = (if r > 0 then upd_file f (\<lambda>f. f\<lparr>fl_off := fl_off f + of_int r\<rparr>) k2 else k2) in
          bindR (on_fs (iunlock (Some (fl_ip ff))) k3) (\<lambda>k4. Ok (KRet r, k4))))
      | FD_NONE \<Rightarrow> Panic ''fileread'')"

text \<open>The loop of \<open>filewrite\<close>: \<open>i\<close> bytes are written, in transactions of at most three blocks.\<close>

definition write_max :: int where
  "write_max = ((int MAXOPBLOCKS - 1 - 1 - 2) div 2) * int BSIZE"

function filewrite_loop :: "nat \<Rightarrow> u64 \<Rightarrow> int \<Rightarrow> int \<Rightarrow> kernel \<Rightarrow> (int \<times> kernel) result" where
  "filewrite_loop f addr n i k =
     (if \<not> i < n then Ok (i, k)
      else let n1 = min (n - i) write_max; ip = fl_ip (ftable k ! f) in
        bindR (on_fs fs_begin_op k) (\<lambda>k1.
        bindR (on_fs (ilock (Some ip)) k1) (\<lambda>k2.
        bindR (k_writei ip (addr + of_int i) (fl_off (ftable k2 ! f)) (of_int n1) k2) (\<lambda>(r, k3).
        let k4 = (if r > 0 then upd_file f (\<lambda>f. f\<lparr>fl_off := fl_off f + of_int r\<rparr>) k3 else k3) in
        bindR (on_fs (iunlock (Some ip)) k4) (\<lambda>k5.
        bindR (on_fs fs_end_op k5) (\<lambda>k6.
        if r \<noteq> n1 then Ok (i, k6) else filewrite_loop f addr n (i + r) k6))))))"
  by pat_completeness auto

termination
  by (relation "measure (\<lambda>(f, addr, n, i, k). nat (n - i))") (auto simp: write_max_def kconst)

declare filewrite_loop.simps [simp del]

definition filewrite :: "nat \<Rightarrow> nat \<Rightarrow> u64 \<Rightarrow> int \<Rightarrow> kernel \<Rightarrow> (kcall \<times> kernel) result" where
  "filewrite p f addr n k =
     (let ff = ftable k ! f in
      if \<not> fl_writable ff then Ok (KRet (-1), k)
      else case fl_type ff of
        FD_PIPE \<Rightarrow> k_pipewrite p (fl_pipe ff) addr n 0 k
      | FD_DEVICE \<Rightarrow>
          if \<not> dev_ok (fl_major ff) then Ok (KRet (-1), k) else k_consolewrite p addr n k
      | FD_INODE \<Rightarrow> bindR (filewrite_loop f addr n 0 k) (\<lambda>(i, k1). Ok (KRet (if i = n then n else -1), k1))
      | FD_NONE \<Rightarrow> Panic ''filewrite'')"

section \<open>Making a pipe\<close>

definition pipealloc_bad :: "nat option \<Rightarrow> nat option \<Rightarrow> kernel \<Rightarrow> ((nat \<times> nat) option \<times> kernel) result" where
  "pipealloc_bad f0 f1 k =
     bindR (case f0 of Some f \<Rightarrow> fileclose f k | None \<Rightarrow> Ok k) (\<lambda>k1.
     bindR (case f1 of Some f \<Rightarrow> fileclose f k1 | None \<Rightarrow> Ok k1) (\<lambda>k2. Ok (None, k2)))"

definition pipealloc :: "kernel \<Rightarrow> ((nat \<times> nat) option \<times> kernel) result" where
  "pipealloc k =
     (case filealloc k of
        (None, k1) \<Rightarrow> pipealloc_bad None None k1
      | (Some f0, k1) \<Rightarrow>
          (case filealloc k1 of
             (None, k2) \<Rightarrow> pipealloc_bad (Some f0) None k2
           | (Some f1, k2) \<Rightarrow>
               let (pi, st) = k_alloc (kst k2); k3 = k2\<lparr>kst := st\<rparr> in
               if pi = 0 then pipealloc_bad (Some f0) (Some f1) k3
               else Ok (Some (f0, f1),
                 upd_file f1 (\<lambda>f. f\<lparr>fl_type := FD_PIPE, fl_readable := False, fl_writable := True, fl_pipe := pi\<rparr>)
                 (upd_file f0 (\<lambda>f. f\<lparr>fl_type := FD_PIPE, fl_readable := True, fl_writable := False, fl_pipe := pi\<rparr>)
                 (k3\<lparr>pipes := (pipes k3)(pi := Some (pipe_init (k_bytes (pi + 24) PIPESIZE st)))\<rparr>)))))"

end
