(* ===== verification/Exec.thy ===== *)
theory Exec
  imports File
begin

text \<open>
  Processes with files: the rest of \<^verbatim>\<open>kernel/proc.c\<close> (\<open>userinit\<close>, \<open>kfork\<close>, \<open>kexit\<close>) and program loading,
  \<^verbatim>\<open>kernel/exec.c\<close>. A kernel string is its bytes before the NUL.
\<close>

section \<open>Trap frames and names\<close>

text \<open>Offsets in \<open>struct trapframe\<close>.\<close>

definition TF_SIZE :: nat where "TF_SIZE = 288"
definition TF_EPC :: u64 where "TF_EPC = 24"
definition TF_SP :: u64 where "TF_SP = 48"
definition TF_A :: "nat \<Rightarrow> u64" where "TF_A n = 112 + 8 * of_nat n"

definition tf_get :: "nat \<Rightarrow> u64 \<Rightarrow> kernel \<Rightarrow> u64" where
  "tf_get p f k = k_load (p_trapframe (k_procs k ! p) + f) (kst k)"

definition tf_set :: "nat \<Rightarrow> u64 \<Rightarrow> u64 \<Rightarrow> kernel \<Rightarrow> kernel" where
  "tf_set p f v k = k\<lparr>kst := k_store (p_trapframe (k_procs k ! p) + f) v (kst k)\<rparr>"

definition safestrcpy_list :: "byte list \<Rightarrow> byte list \<Rightarrow> nat \<Rightarrow> byte list" where
  "safestrcpy_list old s n = patch 0 (take (n - 1) (cstr s) @ [0]) old"

text \<open>\<open>namei\<close> for the current process; a relative path without a working directory dereferences null.\<close>

definition k_namei :: "nat \<Rightarrow> byte list \<Rightarrow> kernel \<Rightarrow> (nat option \<times> kernel) result" where
  "k_namei p path k =
     (case p_cwd (k_procs k ! p) of
        Some c \<Rightarrow> on_fsv (namei c path) k
      | None \<Rightarrow> if path \<noteq> [] \<and> hd path = SLASH then on_fsv (namei 0 path) k else Panic ''namei: null cwd'')"

section \<open>First process, fork, exit\<close>

definition userinit :: "kernel \<Rightarrow> kernel result" where
  "userinit k =
     bindR (on_ksv allocproc k) (\<lambda>(np, k1).
     case np of None \<Rightarrow> Panic ''userinit: null''
     | Some p \<Rightarrow>
         let k2 = k1\<lparr>kst := (kst k1)\<lparr>initproc := Some p\<rparr>, konts := (konts k1)(p := Some KFork)\<rparr> in
         bindR (on_fsv (namei 0 [SLASH]) k2) (\<lambda>(ip, k3).
         Ok (k_updp p (\<lambda>q. q\<lparr>p_cwd := ip, p_state := RUNNABLE\<rparr>) k3)))"

definition fork_file :: "nat \<Rightarrow> nat \<Rightarrow> nat \<Rightarrow> kernel \<Rightarrow> kernel result" where
  "fork_file p np i k =
     (case p_ofile (k_procs k ! p) ! i of
        None \<Rightarrow> Ok k
      | Some f \<Rightarrow> bindR (filedup f k) (\<lambda>k1. Ok (k_updp np (\<lambda>q. q\<lparr>p_ofile := (p_ofile q)[i := Some f]\<rparr>) k1)))"

definition kfork :: "nat \<Rightarrow> kernel \<Rightarrow> (int \<times> kernel) result" where
  "kfork p k =
     bindR (on_ksv allocproc k) (\<lambda>(r, k1).
     case r of None \<Rightarrow> Ok (-1, k1)
     | Some np \<Rightarrow>
         bindR (on_ksv (uvmcopy (p_pagetable (k_procs k1 ! p)) (p_pagetable (k_procs k1 ! np)) (p_sz (k_procs k1 ! p)) (Some np)) k1) (\<lambda>(r, k2).
         if r < 0 then bindR (on_ks (freeproc np) k2) (\<lambda>k3. Ok (-1, k3))
         else
           let k3 = k_updp np (\<lambda>q. q\<lparr>p_sz := p_sz (k_procs k2 ! p)\<rparr>) k2;
               k4 = k3\<lparr>kst := k_write (p_trapframe (k_procs k3 ! np)) (k_bytes (p_trapframe (k_procs k3 ! p)) TF_SIZE (kst k3)) (kst k3)\<rparr>;
               k5 = tf_set np (TF_A 0) 0 k4
           in bindR (forR (fork_file p np) [0..<NOFILE] k5) (\<lambda>k6.
              case p_cwd (k_procs k6 ! p) of None \<Rightarrow> Panic ''kfork: null cwd''
              | Some c \<Rightarrow>
                  let (c1, s) = idup c (kfs k6);
                      k7 = k_updp np (\<lambda>q. q\<lparr>p_cwd := Some c1, p_name := safestrcpy_list (p_name q) (p_name (k_procs k6 ! p)) 16\<rparr>)
                             (k6\<lparr>fsy := s\<rparr>)
                  in Ok (p_pid (k_procs k7 ! np),
                     (k_updp np (\<lambda>q. q\<lparr>p_parent := Some p, p_state := RUNNABLE\<rparr>) k7)\<lparr>konts := (konts k7)(np := Some KFork)\<rparr>))))"

definition exit_file :: "nat \<Rightarrow> nat \<Rightarrow> kernel \<Rightarrow> kernel result" where
  "exit_file p fd k =
     (case p_ofile (k_procs k ! p) ! fd of
        None \<Rightarrow> Ok k
      | Some f \<Rightarrow> bindR (fileclose f k) (\<lambda>k1. Ok (k_updp p (\<lambda>q. q\<lparr>p_ofile := (p_ofile q)[fd := None]\<rparr>) k1)))"

definition kexit :: "int \<Rightarrow> nat \<Rightarrow> kernel \<Rightarrow> kernel result" where
  "kexit status p k =
     (if initproc (kst k) = Some p then Panic ''init exiting''
      else bindR (forR (exit_file p) [0..<NOFILE] k) (\<lambda>k1.
        case p_cwd (k_procs k1 ! p) of None \<Rightarrow> Panic ''kexit: null cwd''
        | Some c \<Rightarrow>
            bindR (k_iput c k1) (\<lambda>k2.
            on_ks (exit_zombie status p) (k_updp p (\<lambda>q. q\<lparr>p_cwd := None\<rparr>) k2))))"

section \<open>Loading a program\<close>

definition ELF_MAGIC :: u32 where "ELF_MAGIC = 0x464C457F"
definition ELF_PROG_LOAD :: u32 where "ELF_PROG_LOAD = 1"
definition MAXARG :: nat where "MAXARG = 32"
definition USERSTACK :: nat where "USERSTACK = 1"
definition ELFHDR_SIZE :: nat where "ELFHDR_SIZE = 64"
definition PROGHDR_SIZE :: nat where "PROGHDR_SIZE = 56"

definition get64 :: "byte list \<Rightarrow> nat \<Rightarrow> u64" where "get64 bs off = dec (slice off 8 bs)"

record elfhdr =
  e_magic :: u32
  e_entry :: u64
  e_phoff :: u64
  e_phnum :: u16

definition read_elfhdr :: "byte list \<Rightarrow> elfhdr" where
  "read_elfhdr bs = \<lparr>e_magic = get32 bs 0, e_entry = get64 bs 24, e_phoff = get64 bs 32, e_phnum = get16 bs 56\<rparr>"

record proghdr =
  ph_type :: u32
  ph_flags :: u32
  ph_off :: u64
  ph_vaddr :: u64
  ph_filesz :: u64
  ph_memsz :: u64

definition read_proghdr :: "byte list \<Rightarrow> proghdr" where
  "read_proghdr bs = \<lparr>ph_type = get32 bs 0, ph_flags = get32 bs 4, ph_off = get64 bs 8, ph_vaddr = get64 bs 16,
     ph_filesz = get64 bs 32, ph_memsz = get64 bs 40\<rparr>"

definition flags2perm :: "u32 \<Rightarrow> u64" where
  "flags2perm flags = (let perm = (if flags AND 1 \<noteq> 0 then PTE_X else 0) in if flags AND 2 \<noteq> 0 then perm OR PTE_W else perm)"

text \<open>\<open>readi\<close> into a kernel structure of \<open>n\<close> bytes.\<close>

definition read_struct :: "nat \<Rightarrow> u32 \<Rightarrow> nat \<Rightarrow> kernel \<Rightarrow> (int \<times> byte list \<times> kernel) result" where
  "read_struct ip off n k =
     bindR (readi kcopyout ip 0 off (of_nat n) (replicate n 0) (kfs k)) (\<lambda>(r, bs, s). Ok (r, bs, k\<lparr>fsy := s\<rparr>))"

text \<open>The pages of a segment, one after another, straight into physical memory.\<close>

fun loadseg_loop :: "u64 \<Rightarrow> u64 \<Rightarrow> nat \<Rightarrow> u32 \<Rightarrow> u32 \<Rightarrow> u32 list \<Rightarrow> kernel \<Rightarrow> (int \<times> kernel) result" where
  "loadseg_loop pt va ip offset sz [] k = Ok (0, k)"
| "loadseg_loop pt va ip offset sz (i # rest) k =
     bindR (walkaddr pt (va + ucast i) (km (kst k))) (\<lambda>pa.
     if pa = 0 then Panic ''loadseg: address should exist''
     else let n = (if sz - i < of_nat PGSIZE then sz - i else of_nat PGSIZE) in
       bindR (readi (either_copyout False) ip pa (offset + i) n (kst k) (kfs k)) (\<lambda>(r, st, s).
       let k1 = k\<lparr>kst := st, fsy := s\<rparr> in
       if of_int r \<noteq> n then Ok (-1, k1) else loadseg_loop pt va ip offset sz rest k1))"

definition loadseg :: "u64 \<Rightarrow> u64 \<Rightarrow> nat \<Rightarrow> u32 \<Rightarrow> u32 \<Rightarrow> kernel \<Rightarrow> (int \<times> kernel) result" where
  "loadseg pt va ip offset sz k =
     loadseg_loop pt va ip offset sz (map (\<lambda>j. of_nat (j * PGSIZE)) [0..<(unat sz + PGSIZE - 1) div PGSIZE]) k"

text \<open>The loop over the program headers; \<open>Inl sz\<close> is a \<open>goto bad\<close> with the size so far.\<close>

fun kexec_load :: "u64 \<Rightarrow> nat \<Rightarrow> u32 list \<Rightarrow> u64 \<Rightarrow> kernel \<Rightarrow> ((u64 + u64) \<times> kernel) result" where
  "kexec_load pt ip [] sz k = Ok (Inr sz, k)"
| "kexec_load pt ip (off # rest) sz k =
     bindR (read_struct ip off PROGHDR_SIZE k) (\<lambda>(r, bs, k1).
     let ph = read_proghdr bs in
     if r \<noteq> int PROGHDR_SIZE then Ok (Inl sz, k1)
     else if ph_type ph \<noteq> ELF_PROG_LOAD then kexec_load pt ip rest sz k1
     else if ph_memsz ph < ph_filesz ph then Ok (Inl sz, k1)
     else if ph_vaddr ph + ph_memsz ph < ph_vaddr ph then Ok (Inl sz, k1)
     else if unat (ph_vaddr ph) mod PGSIZE \<noteq> 0 then Ok (Inl sz, k1)
     else bindR (on_ksv (uvmalloc pt sz (ph_vaddr ph + ph_memsz ph) (flags2perm (ph_flags ph))) k1) (\<lambda>(sz1, k2).
       if sz1 = 0 then Ok (Inl sz, k2)
       else bindR (loadseg pt (ph_vaddr ph) ip (ucast (ph_off ph)) (ucast (ph_filesz ph)) k2) (\<lambda>(r, k3).
         if r < 0 then Ok (Inl sz1, k3) else kexec_load pt ip rest sz1 k3)))"

text \<open>The argument strings, pushed on the new stack one below the other; the result is the stack
  pointer and the addresses.\<close>

fun kexec_args :: "u64 \<Rightarrow> u64 \<Rightarrow> byte list list \<Rightarrow> u64 \<Rightarrow> u64 list \<Rightarrow> kernel \<Rightarrow> ((u64 \<times> u64 list) option \<times> kernel) result" where
  "kexec_args pt stackbase [] sp ustack k = Ok (Some (sp, ustack), k)"
| "kexec_args pt stackbase (s # argv) sp ustack k =
     (if length ustack \<ge> MAXARG then Ok (None, k)
      else let sp1 = sp - of_nat (length s + 1); sp2 = sp1 - sp1 mod 16 in
        if sp2 < stackbase then Ok (None, k)
        else bindR (on_ksv (copyout pt sp2 (s @ [0])) k) (\<lambda>(r, k1).
          if r < 0 then Ok (None, k1) else kexec_args pt stackbase argv sp2 (ustack @ [sp2]) k1))"

definition kexec_bad :: "nat option \<Rightarrow> u64 \<Rightarrow> u64 \<Rightarrow> kernel \<Rightarrow> (int \<times> kernel) result" where
  "kexec_bad ip pt sz k =
     bindR (if pt \<noteq> 0 then on_ks (proc_freepagetable pt sz) k else Ok k) (\<lambda>k1.
     case ip of None \<Rightarrow> Ok (-1, k1)
     | Some i \<Rightarrow> bindR (on_fs (iunlockput i) k1) (\<lambda>k2. bindR (on_fs fs_end_op k2) (\<lambda>k3. Ok (-1, k3))))"

definition last_elem :: "byte list \<Rightarrow> byte list" where
  "last_elem path = rev (takeWhile (\<lambda>c. c \<noteq> SLASH) (rev path))"

text \<open>From the loaded segments on: stack, arguments, and the switch to the new image.\<close>

definition kexec_stack :: "nat \<Rightarrow> byte list \<Rightarrow> byte list list \<Rightarrow> elfhdr \<Rightarrow> u64 \<Rightarrow> u64 \<Rightarrow> kernel \<Rightarrow> (int \<times> kernel) result" where
  "kexec_stack p path argv elf pt sz0 k =
     (let oldsz = p_sz (k_procs k ! p); sz = PGROUNDUP sz0; room = of_nat ((USERSTACK + 1) * PGSIZE) in
      bindR (on_ksv (uvmalloc pt sz (sz + room) PTE_W) k) (\<lambda>(sz1, k1).
      if sz1 = 0 then kexec_bad None pt sz k1
      else bindR (on_ks (\<lambda>st. bindR (uvmclear pt (sz1 - room) (km st)) (\<lambda>m. Ok (st\<lparr>km := m\<rparr>))) k1) (\<lambda>k2.
        let stackbase = sz1 - of_nat (USERSTACK * PGSIZE) in
        bindR (kexec_args pt stackbase argv sz1 [] k2) (\<lambda>(r, k3).
        case r of None \<Rightarrow> kexec_bad None pt sz1 k3
        | Some (sp, ustack) \<Rightarrow>
            let argc = length ustack; sp1 = sp - of_nat ((argc + 1) * 8); sp2 = sp1 - sp1 mod 16 in
            if sp2 < stackbase then kexec_bad None pt sz1 k3
            else bindR (on_ksv (copyout pt sp2 (concat (map (enc 8) (ustack @ [0])))) k3) (\<lambda>(r, k4).
              if r < 0 then kexec_bad None pt sz1 k4
              else
                let k5 = k_updp p (\<lambda>q. q\<lparr>p_name := safestrcpy_list (p_name q) (last_elem path) 16\<rparr>) (tf_set p (TF_A 1) sp2 k4);
                    oldpt = p_pagetable (k_procs k5 ! p);
                    k6 = tf_set p TF_SP sp2 (tf_set p TF_EPC (e_entry elf) (k_updp p (\<lambda>q. q\<lparr>p_pagetable := pt, p_sz := sz1\<rparr>) k5))
                in bindR (on_ks (proc_freepagetable oldpt oldsz) k6) (\<lambda>k7. Ok (int argc, k7)))))))"

definition kexec :: "nat \<Rightarrow> byte list \<Rightarrow> byte list list \<Rightarrow> kernel \<Rightarrow> (int \<times> kernel) result" where
  "kexec p path argv k =
     bindR (on_fs fs_begin_op k) (\<lambda>k1.
     bindR (k_namei p path k1) (\<lambda>(r, k2).
     case r of None \<Rightarrow> bindR (on_fs fs_end_op k2) (\<lambda>k3. Ok (-1, k3))
     | Some ip \<Rightarrow>
         bindR (on_fs (ilock (Some ip)) k2) (\<lambda>k3.
         bindR (read_struct ip 0 ELFHDR_SIZE k3) (\<lambda>(r, bs, k4).
         let elf = read_elfhdr bs in
         if r \<noteq> int ELFHDR_SIZE \<or> e_magic elf \<noteq> ELF_MAGIC then kexec_bad (Some ip) 0 0 k4
         else bindR (on_ksv (proc_pagetable p) k4) (\<lambda>(pt, k5).
           if pt = 0 then kexec_bad (Some ip) 0 0 k5
           else bindR (kexec_load pt ip (map (\<lambda>i. ucast (e_phoff elf) + of_nat (i * PROGHDR_SIZE)) [0..<unat (e_phnum elf)]) 0 k5) (\<lambda>(r, k6).
             case r of Inl sz \<Rightarrow> kexec_bad (Some ip) pt sz k6
             | Inr sz \<Rightarrow>
                 bindR (on_fs (iunlockput ip) k6) (\<lambda>k7.
                 bindR (on_fs fs_end_op k7) (kexec_stack p path argv elf pt sz))))))))"

end
