(* ===== verification/Sysfile.thy ===== *)
theory Sysfile
  imports Exec
begin

text \<open>
  The file-system calls, \<^verbatim>\<open>kernel/sysfile.c\<close>, and the fetching of arguments, \<^verbatim>\<open>kernel/syscall.c\<close>. \<open>p\<close> is
  the calling process, \<open>myproc()\<close>, which has a working directory. Calls that run inside one
  transaction on the file system alone are functions on its state.
\<close>

section \<open>Arguments\<close>

definition MAXPATH :: nat where "MAXPATH = 128"

definition argraw :: "nat \<Rightarrow> nat \<Rightarrow> kernel \<Rightarrow> u64 result" where
  "argraw p n k = (if n < 6 then Ok (tf_get p (TF_A n) k) else Panic ''argraw'')"

definition argint :: "nat \<Rightarrow> nat \<Rightarrow> kernel \<Rightarrow> int result" where
  "argint p n k = bindR (argraw p n k) (\<lambda>v. Ok (sint (ucast v :: u32)))"

definition argaddr :: "nat \<Rightarrow> nat \<Rightarrow> kernel \<Rightarrow> u64 result" where
  "argaddr p n k = argraw p n k"

definition fetchaddr :: "nat \<Rightarrow> u64 \<Rightarrow> kernel \<Rightarrow> (u64 option \<times> kernel) result" where
  "fetchaddr p addr k =
     (let q = k_procs k ! p in
      if addr \<ge> p_sz q \<or> addr + 8 > p_sz q then Ok (None, k)
      else bindR (copyin (p_pagetable q) addr 8 (kst k)) (\<lambda>(r, bs, st).
        Ok (if r \<noteq> 0 then None else Some (dec bs), k\<lparr>kst := st\<rparr>)))"

text \<open>The fetched string, before its NUL.\<close>

definition fetchstr :: "nat \<Rightarrow> u64 \<Rightarrow> nat \<Rightarrow> kernel \<Rightarrow> byte list option result" where
  "fetchstr p addr mx k =
     bindR (copyinstr (p_pagetable (k_procs k ! p)) addr mx (kst k)) (\<lambda>(r, bs).
     Ok (if r < 0 then None else Some (cstr bs)))"

definition argstr :: "nat \<Rightarrow> nat \<Rightarrow> nat \<Rightarrow> kernel \<Rightarrow> byte list option result" where
  "argstr p n mx k = bindR (argaddr p n k) (\<lambda>a. fetchstr p a mx k)"

text \<open>A file descriptor and its file.\<close>

definition argfd :: "nat \<Rightarrow> nat \<Rightarrow> kernel \<Rightarrow> (nat \<times> nat) option result" where
  "argfd p n k =
     bindR (argint p n k) (\<lambda>fd.
     Ok (if fd < 0 \<or> fd \<ge> int NOFILE then None
         else case p_ofile (k_procs k ! p) ! nat fd of None \<Rightarrow> None | Some f \<Rightarrow> Some (nat fd, f)))"

definition fdalloc :: "nat \<Rightarrow> nat \<Rightarrow> kernel \<Rightarrow> int \<times> kernel" where
  "fdalloc p f k =
     (case find_index (\<lambda>o1. o1 = None) (p_ofile (k_procs k ! p)) of
        Some fd \<Rightarrow> (int fd, k_updp p (\<lambda>q. q\<lparr>p_ofile := (p_ofile q)[fd := Some f]\<rparr>) k)
      | None \<Rightarrow> (-1, k))"

definition k_cwd :: "nat \<Rightarrow> kernel \<Rightarrow> nat result" where
  "k_cwd p k = (case p_cwd (k_procs k ! p) of Some c \<Rightarrow> Ok c | None \<Rightarrow> Panic ''null cwd'')"

section \<open>Calls on open files\<close>

definition sys_dup :: "nat \<Rightarrow> kernel \<Rightarrow> (int \<times> kernel) result" where
  "sys_dup p k =
     bindR (argfd p 0 k) (\<lambda>a.
     case a of None \<Rightarrow> Ok (-1, k)
     | Some (_, f) \<Rightarrow>
         let (fd, k1) = fdalloc p f k in
         if fd < 0 then Ok (-1, k1) else bindR (filedup f k1) (\<lambda>k2. Ok (fd, k2)))"

definition sys_read :: "nat \<Rightarrow> kernel \<Rightarrow> (kcall \<times> kernel) result" where
  "sys_read p k =
     bindR (argaddr p 1 k) (\<lambda>a. bindR (argint p 2 k) (\<lambda>n. bindR (argfd p 0 k) (\<lambda>r.
     case r of None \<Rightarrow> Ok (KRet (-1), k) | Some (_, f) \<Rightarrow> fileread p f a n k)))"

definition sys_write :: "nat \<Rightarrow> kernel \<Rightarrow> (kcall \<times> kernel) result" where
  "sys_write p k =
     bindR (argaddr p 1 k) (\<lambda>a. bindR (argint p 2 k) (\<lambda>n. bindR (argfd p 0 k) (\<lambda>r.
     case r of None \<Rightarrow> Ok (KRet (-1), k) | Some (_, f) \<Rightarrow> filewrite p f a n k)))"

definition sys_close :: "nat \<Rightarrow> kernel \<Rightarrow> (int \<times> kernel) result" where
  "sys_close p k =
     bindR (argfd p 0 k) (\<lambda>a.
     case a of None \<Rightarrow> Ok (-1, k)
     | Some (fd, f) \<Rightarrow>
         bindR (fileclose f (k_updp p (\<lambda>q. q\<lparr>p_ofile := (p_ofile q)[fd := None]\<rparr>) k)) (\<lambda>k1. Ok (0, k1)))"

definition sys_fstat :: "nat \<Rightarrow> kernel \<Rightarrow> (int \<times> kernel) result" where
  "sys_fstat p k =
     bindR (argaddr p 1 k) (\<lambda>a. bindR (argfd p 0 k) (\<lambda>r.
     case r of None \<Rightarrow> Ok (-1, k) | Some (_, f) \<Rightarrow> filestat p f a k))"

section \<open>Links and directories\<close>

definition name_buf :: "byte list" where "name_buf = replicate DIRSIZ 0"

text \<open>Bytes of ''.'' and ''..'' and the link count update of an inode.\<close>

definition DOT :: "byte list" where "DOT = [46]"
definition DOTDOT :: "byte list" where "DOTDOT = [46, 46]"

definition add_nlink :: "u16 \<Rightarrow> nat \<Rightarrow> fsys \<Rightarrow> fsys result" where
  "add_nlink d ip st = iupdate ip (upd_inode ip (\<lambda>i. i\<lparr>i_nlink := i_nlink i + d\<rparr>) st)"

definition link_bad :: "nat \<Rightarrow> fsys \<Rightarrow> (int \<times> fsys) result" where
  "link_bad ip st =
     bindR (ilock (Some ip) st) (\<lambda>st1.
     bindR (add_nlink (-1) ip st1) (\<lambda>st2.
     bindR (iunlockput ip st2) (\<lambda>st3.
     bindR (fs_end_op st3) (\<lambda>st4. Ok (-1, st4)))))"

definition fs_link :: "nat \<Rightarrow> byte list \<Rightarrow> byte list \<Rightarrow> fsys \<Rightarrow> (int \<times> fsys) result" where
  "fs_link cwd old new st =
     bindR (fs_begin_op st) (\<lambda>st1.
     bindR (namei cwd old st1) (\<lambda>(r, st2).
     case r of None \<Rightarrow> bindR (fs_end_op st2) (\<lambda>st3. Ok (-1, st3))
     | Some ip \<Rightarrow>
         bindR (ilock (Some ip) st2) (\<lambda>st3.
         if i_type (itable st3 ! ip) = T_DIR
         then bindR (iunlockput ip st3) (\<lambda>st4. bindR (fs_end_op st4) (\<lambda>st5. Ok (-1, st5)))
         else
           bindR (add_nlink 1 ip st3) (\<lambda>st4.
           bindR (iunlock (Some ip) st4) (\<lambda>st5.
           bindR (nameiparent cwd new name_buf st5) (\<lambda>(r, name, st6).
           case r of None \<Rightarrow> link_bad ip st6
           | Some dp \<Rightarrow>
               bindR (ilock (Some dp) st6) (\<lambda>st7.
               bindR (if i_dev (itable st7 ! dp) \<noteq> i_dev (itable st7 ! ip) then Ok (-1, st7)
                      else dirlink dp name (i_inum (itable st7 ! ip)) st7) (\<lambda>(r, st8).
               bindR (iunlockput dp st8) (\<lambda>st9.
               if r < 0 then link_bad ip st9
               else bindR (iput ip st9) (\<lambda>st10. bindR (fs_end_op st10) (\<lambda>st11. Ok (0, st11))))))))))))"

definition sys_link :: "nat \<Rightarrow> kernel \<Rightarrow> (int \<times> kernel) result" where
  "sys_link p k =
     bindR (argstr p 0 MAXPATH k) (\<lambda>old. bindR (argstr p 1 MAXPATH k) (\<lambda>new.
     case (old, new) of (Some o1, Some n1) \<Rightarrow> bindR (k_cwd p k) (\<lambda>c. on_fsv (fs_link c o1 n1) k)
     | _ \<Rightarrow> Ok (-1, k)))"

fun isdirempty_from :: "nat \<Rightarrow> u32 list \<Rightarrow> byte list \<Rightarrow> fsys \<Rightarrow> (bool \<times> fsys) result" where
  "isdirempty_from dp [] de st = Ok (True, st)"
| "isdirempty_from dp (off # rest) de st =
     bindR (readi kcopyout dp 0 off (of_nat DIRENT_SIZE) de st) (\<lambda>(r, de1, st1).
     if r \<noteq> int DIRENT_SIZE then Panic ''isdirempty: readi''
     else if de_inum de1 \<noteq> 0 then Ok (False, st1) else isdirempty_from dp rest de1 st1)"

definition isdirempty :: "nat \<Rightarrow> fsys \<Rightarrow> (bool \<times> fsys) result" where
  "isdirempty dp st = isdirempty_from dp (drop 2 (dirent_offs (i_size (itable st ! dp)))) (replicate DIRENT_SIZE 0) st"

definition unlink_bad :: "nat \<Rightarrow> fsys \<Rightarrow> (int \<times> fsys) result" where
  "unlink_bad dp st = bindR (iunlockput dp st) (\<lambda>st1. bindR (fs_end_op st1) (\<lambda>st2. Ok (-1, st2)))"

text \<open>Clearing the entry and dropping the link, once all checks have passed.\<close>

definition unlink_entry :: "nat \<Rightarrow> nat \<Rightarrow> u32 \<Rightarrow> fsys \<Rightarrow> (int \<times> fsys) result" where
  "unlink_entry dp ip off st =
     bindR (writei kcopyin dp 0 off (of_nat DIRENT_SIZE) (replicate DIRENT_SIZE 0) st) (\<lambda>(r, _, st1).
     if r \<noteq> int DIRENT_SIZE then Panic ''unlink: writei''
     else bindR (if i_type (itable st1 ! ip) = T_DIR then add_nlink (-1) dp st1 else Ok st1) (\<lambda>st2.
       bindR (iunlockput dp st2) (\<lambda>st3.
       bindR (add_nlink (-1) ip st3) (\<lambda>st4.
       bindR (iunlockput ip st4) (\<lambda>st5.
       bindR (fs_end_op st5) (\<lambda>st6. Ok (0, st6)))))))"

definition fs_unlink :: "nat \<Rightarrow> byte list \<Rightarrow> fsys \<Rightarrow> (int \<times> fsys) result" where
  "fs_unlink cwd path st =
     bindR (fs_begin_op st) (\<lambda>st1.
     bindR (nameiparent cwd path name_buf st1) (\<lambda>(r, name, st2).
     case r of None \<Rightarrow> bindR (fs_end_op st2) (\<lambda>st3. Ok (-1, st3))
     | Some dp \<Rightarrow>
         bindR (ilock (Some dp) st2) (\<lambda>st3.
         if namecmp name DOT = 0 \<or> namecmp name DOTDOT = 0 then unlink_bad dp st3
         else bindR (dirlookup dp name st3) (\<lambda>(r, st4).
           case r of None \<Rightarrow> unlink_bad dp st4
           | Some (ip, off) \<Rightarrow>
               bindR (ilock (Some ip) st4) (\<lambda>st5.
               if sint (i_nlink (itable st5 ! ip)) < 1 then Panic ''unlink: nlink < 1''
               else bindR (if i_type (itable st5 ! ip) = T_DIR then isdirempty ip st5 else Ok (True, st5)) (\<lambda>(e, st6).
                 if \<not> e then bindR (iunlockput ip st6) (unlink_bad dp)
                 else unlink_entry dp ip off st6))))))"

definition sys_unlink :: "nat \<Rightarrow> kernel \<Rightarrow> (int \<times> kernel) result" where
  "sys_unlink p k =
     bindR (argstr p 0 MAXPATH k) (\<lambda>path.
     case path of None \<Rightarrow> Ok (-1, k) | Some s \<Rightarrow> bindR (k_cwd p k) (\<lambda>c. on_fsv (fs_unlink c s) k))"

section \<open>Creating and opening\<close>

definition create_fail :: "nat \<Rightarrow> nat \<Rightarrow> fsys \<Rightarrow> (nat option \<times> fsys) result" where
  "create_fail dp ip st =
     bindR (iupdate ip (upd_inode ip (\<lambda>i. i\<lparr>i_nlink := 0\<rparr>) st)) (\<lambda>st1.
     bindR (iunlockput ip st1) (\<lambda>st2.
     bindR (iunlockput dp st2) (\<lambda>st3. Ok (None, st3))))"

text \<open>The two entries of a new directory.\<close>

definition create_dots :: "nat \<Rightarrow> nat \<Rightarrow> fsys \<Rightarrow> (bool \<times> fsys) result" where
  "create_dots dp ip st =
     bindR (dirlink ip DOT (i_inum (itable st ! ip)) st) (\<lambda>(r, st1).
     if r < 0 then Ok (False, st1)
     else bindR (dirlink ip DOTDOT (i_inum (itable st1 ! dp)) st1) (\<lambda>(r, st2). Ok (\<not> r < 0, st2)))"

definition create :: "nat \<Rightarrow> byte list \<Rightarrow> u16 \<Rightarrow> u16 \<Rightarrow> u16 \<Rightarrow> fsys \<Rightarrow> (nat option \<times> fsys) result" where
  "create cwd path type major minor st =
     bindR (nameiparent cwd path name_buf st) (\<lambda>(r, name, st1).
     case r of None \<Rightarrow> Ok (None, st1)
     | Some dp \<Rightarrow>
         bindR (ilock (Some dp) st1) (\<lambda>st2.
         bindR (dirlookup dp name st2) (\<lambda>(r, st3).
         case r of
           Some (ip, _) \<Rightarrow>
             bindR (iunlockput dp st3) (\<lambda>st4.
             bindR (ilock (Some ip) st4) (\<lambda>st5.
             if type = T_FILE \<and> (i_type (itable st5 ! ip) = T_FILE \<or> i_type (itable st5 ! ip) = T_DEVICE)
             then Ok (Some ip, st5)
             else bindR (iunlockput ip st5) (\<lambda>st6. Ok (None, st6))))
         | None \<Rightarrow>
             bindR (ialloc (i_dev (itable st3 ! dp)) type st3) (\<lambda>(r, st4).
             case r of None \<Rightarrow> bindR (iunlockput dp st4) (\<lambda>st5. Ok (None, st5))
             | Some ip \<Rightarrow>
                 bindR (ilock (Some ip) st4) (\<lambda>st5.
                 bindR (iupdate ip (upd_inode ip (\<lambda>i. i\<lparr>i_major := major, i_minor := minor, i_nlink := 1\<rparr>) st5)) (\<lambda>st6.
                 bindR (if type = T_DIR then create_dots dp ip st6 else Ok (True, st6)) (\<lambda>(ok, st7).
                 if \<not> ok then create_fail dp ip st7
                 else bindR (dirlink dp name (i_inum (itable st7 ! ip)) st7) (\<lambda>(r, st8).
                   if r < 0 then create_fail dp ip st8
                   else bindR (if type = T_DIR then add_nlink 1 dp st8 else Ok st8) (\<lambda>st9.
                     bindR (iunlockput dp st9) (\<lambda>st10. Ok (Some ip, st10)))))))))))"

definition O_WRONLY :: u32 where "O_WRONLY = 0x001"
definition O_RDWR :: u32 where "O_RDWR = 0x002"
definition O_CREATE :: u32 where "O_CREATE = 0x200"
definition O_TRUNC :: u32 where "O_TRUNC = 0x400"

text \<open>The inode of \<open>open\<close>, locked, or \<open>None\<close> with the transaction ended.\<close>

definition open_inode :: "nat \<Rightarrow> byte list \<Rightarrow> u32 \<Rightarrow> fsys \<Rightarrow> (nat option \<times> fsys) result" where
  "open_inode cwd path omode st =
     bindR (if omode AND O_CREATE \<noteq> 0 then create cwd path T_FILE 0 0 st
            else bindR (namei cwd path st) (\<lambda>(r, st1).
              case r of None \<Rightarrow> Ok (None, st1)
              | Some ip \<Rightarrow>
                  bindR (ilock (Some ip) st1) (\<lambda>st2.
                  if i_type (itable st2 ! ip) = T_DIR \<and> omode \<noteq> 0
                  then bindR (iunlockput ip st2) (\<lambda>st3. Ok (None, st3)) else Ok (Some ip, st2)))) (\<lambda>(r, st4).
     case r of None \<Rightarrow> bindR (fs_end_op st4) (\<lambda>st5. Ok (None, st5))
     | Some ip \<Rightarrow>
         let i = itable st4 ! ip in
         if i_type i = T_DEVICE \<and> (sint (i_major i) < 0 \<or> sint (i_major i) \<ge> int NDEV)
         then bindR (iunlockput ip st4) (\<lambda>st5. bindR (fs_end_op st5) (\<lambda>st6. Ok (None, st6)))
         else Ok (Some ip, st4))"

definition open_fail :: "nat \<Rightarrow> kernel \<Rightarrow> (int \<times> kernel) result" where
  "open_fail ip k = bindR (on_fs (iunlockput ip) k) (\<lambda>k1. bindR (on_fs fs_end_op k1) (\<lambda>k2. Ok (-1, k2)))"

definition open_file :: "nat \<Rightarrow> u32 \<Rightarrow> inode \<Rightarrow> kfile \<Rightarrow> kfile" where
  "open_file ip omode i f =
     (if i_type i = T_DEVICE then f\<lparr>fl_type := FD_DEVICE, fl_major := i_major i\<rparr> else f\<lparr>fl_type := FD_INODE, fl_off := 0\<rparr>)
     \<lparr>fl_ip := ip, fl_readable := (omode AND O_WRONLY = 0), fl_writable := (omode AND O_WRONLY \<noteq> 0 \<or> omode AND O_RDWR \<noteq> 0)\<rparr>"

definition sys_open :: "nat \<Rightarrow> kernel \<Rightarrow> (int \<times> kernel) result" where
  "sys_open p k =
     bindR (argint p 1 k) (\<lambda>om. bindR (argstr p 0 MAXPATH k) (\<lambda>path.
     case path of None \<Rightarrow> Ok (-1, k)
     | Some s \<Rightarrow>
         let omode = word_of_int om in
         bindR (k_cwd p k) (\<lambda>c. bindR (on_fs fs_begin_op k) (\<lambda>k1.
         bindR (on_fsv (open_inode c s omode) k1) (\<lambda>(r, k2).
         case r of None \<Rightarrow> Ok (-1, k2)
         | Some ip \<Rightarrow>
             (case filealloc k2 of
                (None, k3) \<Rightarrow> open_fail ip k3
              | (Some f, k3) \<Rightarrow>
                  let (fd, k4) = fdalloc p f k3 in
                  if fd < 0 then bindR (fileclose f k4) (open_fail ip)
                  else
                    let i = k_inode k4 ip; k5 = upd_file f (open_file ip omode i) k4 in
                    bindR (if omode AND O_TRUNC \<noteq> 0 \<and> i_type i = T_FILE then on_fs (itrunc ip) k5 else Ok k5) (\<lambda>k6.
                    bindR (on_fs (iunlock (Some ip)) k6) (\<lambda>k7.
                    bindR (on_fs fs_end_op k7) (\<lambda>k8. Ok (fd, k8))))))))))"

text \<open>\<open>mkdir\<close> and \<open>mknod\<close> fetch the path inside the transaction.\<close>

definition fs_mk :: "nat \<Rightarrow> byte list option \<Rightarrow> u16 \<Rightarrow> u16 \<Rightarrow> u16 \<Rightarrow> fsys \<Rightarrow> (int \<times> fsys) result" where
  "fs_mk cwd path type major minor st =
     bindR (case path of None \<Rightarrow> Ok (None, st) | Some s \<Rightarrow> create cwd s type major minor st) (\<lambda>(r, st1).
     case r of None \<Rightarrow> bindR (fs_end_op st1) (\<lambda>st2. Ok (-1, st2))
     | Some ip \<Rightarrow> bindR (iunlockput ip st1) (\<lambda>st2. bindR (fs_end_op st2) (\<lambda>st3. Ok (0, st3))))"

definition sys_mkdir :: "nat \<Rightarrow> kernel \<Rightarrow> (int \<times> kernel) result" where
  "sys_mkdir p k =
     bindR (on_fs fs_begin_op k) (\<lambda>k1. bindR (argstr p 0 MAXPATH k1) (\<lambda>path.
     bindR (k_cwd p k1) (\<lambda>c. on_fsv (fs_mk c path T_DIR 0 0) k1)))"

definition sys_mknod :: "nat \<Rightarrow> kernel \<Rightarrow> (int \<times> kernel) result" where
  "sys_mknod p k =
     bindR (on_fs fs_begin_op k) (\<lambda>k1. bindR (argint p 1 k1) (\<lambda>major. bindR (argint p 2 k1) (\<lambda>minor.
     bindR (argstr p 0 MAXPATH k1) (\<lambda>path.
     bindR (k_cwd p k1) (\<lambda>c. on_fsv (fs_mk c path T_DEVICE (word_of_int major) (word_of_int minor)) k1)))))"

definition sys_chdir :: "nat \<Rightarrow> kernel \<Rightarrow> (int \<times> kernel) result" where
  "sys_chdir p k =
     bindR (on_fs fs_begin_op k) (\<lambda>k1. bindR (argstr p 0 MAXPATH k1) (\<lambda>path. bindR (k_cwd p k1) (\<lambda>c.
     bindR (case path of None \<Rightarrow> Ok (None, k1) | Some s \<Rightarrow> on_fsv (namei c s) k1) (\<lambda>(r, k2).
     case r of None \<Rightarrow> bindR (on_fs fs_end_op k2) (\<lambda>k3. Ok (-1, k3))
     | Some ip \<Rightarrow>
         bindR (on_fs (ilock (Some ip)) k2) (\<lambda>k3.
         if i_type (k_inode k3 ip) \<noteq> T_DIR
         then bindR (on_fs (iunlockput ip) k3) (\<lambda>k4. bindR (on_fs fs_end_op k4) (\<lambda>k5. Ok (-1, k5)))
         else bindR (on_fs (iunlock (Some ip)) k3) (\<lambda>k4.
           bindR (on_fs (iput c) k4) (\<lambda>k5.
           bindR (on_fs fs_end_op k5) (\<lambda>k6.
           Ok (0, k_updp p (\<lambda>q. q\<lparr>p_cwd := Some ip\<rparr>) k6)))))))))"

section \<open>Exec and pipe\<close>

text \<open>
  The argument vector of \<open>exec\<close>: each string goes into a page of its own; \<open>pgs\<close> are the pages so
  far. The string is read back from its page, NUL and all.
\<close>

fun exec_args :: "nat \<Rightarrow> u64 \<Rightarrow> nat list \<Rightarrow> u64 list \<Rightarrow> kernel \<Rightarrow> (bool \<times> u64 list \<times> kernel) result" where
  "exec_args p uargv [] pgs k = Ok (False, pgs, k)"
| "exec_args p uargv (i # rest) pgs k =
     bindR (fetchaddr p (uargv + 8 * of_nat i) k) (\<lambda>(r, k1).
     case r of None \<Rightarrow> Ok (False, pgs, k1)
     | Some uarg \<Rightarrow>
         if uarg = 0 then Ok (True, pgs, k1)
         else let (pg, st) = k_alloc (kst k1); k2 = k1\<lparr>kst := st\<rparr> in
           if pg = 0 then Ok (False, pgs, k2)
           else bindR (copyinstr (p_pagetable (k_procs k2 ! p)) uarg PGSIZE (kst k2)) (\<lambda>(r, bs).
             let k3 = k2\<lparr>kst := k_write pg bs (kst k2)\<rparr> in
             if r < 0 then Ok (False, pgs @ [pg], k3) else exec_args p uargv rest (pgs @ [pg]) k3))"

definition free_pages :: "u64 list \<Rightarrow> kernel \<Rightarrow> kernel result" where
  "free_pages pgs k = forR (\<lambda>pg. on_ks (k_free pg)) pgs k"

definition page_str :: "u64 \<Rightarrow> kernel \<Rightarrow> byte list" where
  "page_str pg k = cstr (k_bytes pg PGSIZE (kst k))"

definition sys_exec :: "nat \<Rightarrow> kernel \<Rightarrow> (int \<times> kernel) result" where
  "sys_exec p k =
     bindR (argaddr p 1 k) (\<lambda>uargv. bindR (argstr p 0 MAXPATH k) (\<lambda>path.
     case path of None \<Rightarrow> Ok (-1, k)
     | Some s \<Rightarrow>
         bindR (exec_args p uargv [0..<MAXARG] [] k) (\<lambda>(ok, pgs, k1).
         bindR (if ok then kexec p s (map (\<lambda>pg. page_str pg k1) pgs) k1 else Ok (-1, k1)) (\<lambda>(ret, k2).
         bindR (free_pages pgs k2) (\<lambda>k3. Ok (ret, k3))))))"

definition clear_fd :: "nat \<Rightarrow> int \<Rightarrow> kernel \<Rightarrow> kernel" where
  "clear_fd p fd k = k_updp p (\<lambda>q. q\<lparr>p_ofile := (p_ofile q)[nat fd := None]\<rparr>) k"

definition pipe_undo :: "nat \<Rightarrow> nat \<Rightarrow> kernel \<Rightarrow> (int \<times> kernel) result" where
  "pipe_undo f0 f1 k = bindR (fileclose f0 k) (\<lambda>k1. bindR (fileclose f1 k1) (\<lambda>k2. Ok (-1, k2)))"

definition sys_pipe :: "nat \<Rightarrow> kernel \<Rightarrow> (int \<times> kernel) result" where
  "sys_pipe p k =
     bindR (argaddr p 0 k) (\<lambda>fdarray. bindR (pipealloc k) (\<lambda>(r, k1).
     case r of None \<Rightarrow> Ok (-1, k1)
     | Some (f0, f1) \<Rightarrow>
         let (fd0, k2) = fdalloc p f0 k1 in
         if fd0 < 0 then pipe_undo f0 f1 k2
         else let (fd1, k3) = fdalloc p f1 k2 in
           if fd1 < 0 then pipe_undo f0 f1 (clear_fd p fd0 k3)
           else
             let pt = p_pagetable (k_procs k3 ! p) in
             bindR (on_ksv (copyout pt fdarray (enc 4 (word_of_int fd0 :: u32))) k3) (\<lambda>(r0, k4).
             bindR (if r0 < 0 then Ok (-1, k4)
                    else on_ksv (copyout pt (fdarray + 4) (enc 4 (word_of_int fd1 :: u32))) k4) (\<lambda>(r1, k5).
             if r1 < 0 then pipe_undo f0 f1 (clear_fd p fd1 (clear_fd p fd0 k5)) else Ok (0, k5)))))"

end
