(* ===== verification/Syscall.thy ===== *)
theory Syscall
  imports Sysfile
begin

text \<open>
  The process calls, \<^verbatim>\<open>kernel/sysproc.c\<close>, the dispatch of \<^verbatim>\<open>kernel/syscall.c\<close>, and the continuation of
  a call that slept.
\<close>

section \<open>Process calls\<close>

definition SBRK_EAGER :: int where "SBRK_EAGER = 1"

text \<open>The address of \<open>ticks\<close>, on which \<open>pause\<close> sleeps.\<close>

definition ticks_chan :: chan where "ticks_chan = AddrChan 3"

definition sys_exit :: "nat \<Rightarrow> kernel \<Rightarrow> (kcall \<times> kernel) result" where
  "sys_exit p k = bindR (argint p 0 k) (\<lambda>n. bindR (kexit n p k) (\<lambda>k1. Ok (KGone, k1)))"

definition sys_getpid :: "nat \<Rightarrow> kernel \<Rightarrow> int" where
  "sys_getpid p k = p_pid (k_procs k ! p)"

definition sys_fork :: "nat \<Rightarrow> kernel \<Rightarrow> (int \<times> kernel) result" where
  "sys_fork p k = kfork p k"

text \<open>\<open>kwait\<close> ends in a value or leaves its process asleep on its own slot.\<close>

definition k_wait :: "nat \<Rightarrow> u64 \<Rightarrow> kernel \<Rightarrow> (kcall \<times> kernel) result" where
  "k_wait p addr k =
     bindR (on_ksv (kwait p addr) k) (\<lambda>(r, k1).
     case r of WaitRet v \<Rightarrow> Ok (KRet v, k1)
     | WaitSleep \<Rightarrow> Ok (KBlock (KWait addr), k1\<lparr>konts := (konts k1)(p := Some (KWait addr))\<rparr>))"

definition sys_wait :: "nat \<Rightarrow> kernel \<Rightarrow> (kcall \<times> kernel) result" where
  "sys_wait p k = bindR (argaddr p 0 k) (\<lambda>a. k_wait p a k)"

definition sys_sbrk :: "nat \<Rightarrow> kernel \<Rightarrow> (int \<times> kernel) result" where
  "sys_sbrk p k =
     bindR (argint p 0 k) (\<lambda>n. bindR (argint p 1 k) (\<lambda>t.
     let addr = p_sz (k_procs k ! p) in
     if t = SBRK_EAGER \<or> n < 0 then
       bindR (on_ksv (growproc n p) k) (\<lambda>(r, k1). Ok (if r < 0 then -1 else uint addr, k1))
     else if addr + of_int n < addr then Ok (-1, k)
     else if addr + of_int n > TRAPFRAME then Ok (-1, k)
     else Ok (uint addr, k_updp p (\<lambda>q. q\<lparr>p_sz := p_sz q + of_int n\<rparr>) k)))"

definition k_pause :: "nat \<Rightarrow> u32 \<Rightarrow> int \<Rightarrow> kernel \<Rightarrow> (kcall \<times> kernel) result" where
  "k_pause p ticks0 n k =
     (if \<not> ticks k - ticks0 < of_int n then Ok (KRet 0, k)
      else if killed p (kst k) then Ok (KRet (-1), k)
      else block p ticks_chan (KPause ticks0 n) k)"

definition sys_pause :: "nat \<Rightarrow> kernel \<Rightarrow> (kcall \<times> kernel) result" where
  "sys_pause p k = bindR (argint p 0 k) (\<lambda>n. k_pause p (ticks k) (if n < 0 then 0 else n) k)"

definition sys_kill :: "nat \<Rightarrow> kernel \<Rightarrow> (int \<times> kernel) result" where
  "sys_kill p k = bindR (argint p 0 k) (\<lambda>pid. let (r, st) = kkill pid (kst k) in Ok (r, k\<lparr>kst := st\<rparr>))"

definition k_print :: "string \<Rightarrow> varg list \<Rightarrow> kernel \<Rightarrow> kernel" where
  "k_print fmt args k = k\<lparr>kuart := kprint (printf (map chr fmt) args) (kuart k)\<rparr>"

definition sys_hello :: "kernel \<Rightarrow> int \<times> kernel" where
  "sys_hello k = (0, k_print (''Hello from the kernel!'' @ [CHR 0x0A]) [] k)"

definition sys_getpid2 :: "nat \<Rightarrow> kernel \<Rightarrow> int" where
  "sys_getpid2 p k = p_pid (k_procs k ! p)"

definition sys_getppid :: "nat \<Rightarrow> kernel \<Rightarrow> int" where
  "sys_getppid p k = (case p_parent (k_procs k ! p) of None \<Rightarrow> -1 | Some q \<Rightarrow> p_pid (k_procs k ! q))"

definition sys_getnumchild :: "nat \<Rightarrow> kernel \<Rightarrow> int" where
  "sys_getnumchild p k =
     foldl (\<lambda>count q. if p_parent q = Some p \<and> p_state q \<noteq> ZOMBIE then count + 1 else count) 0 (k_procs k)"

definition sys_getsyscount :: "nat \<Rightarrow> kernel \<Rightarrow> int" where
  "sys_getsyscount p k = uint (p_syscount (k_procs k ! p))"

definition sys_getchildsyscount :: "nat \<Rightarrow> kernel \<Rightarrow> int result" where
  "sys_getchildsyscount p k =
     bindR (argint p 0 k) (\<lambda>pid.
     Ok (case find_index (\<lambda>q. p_pid q = pid \<and> p_parent q = Some p) (k_procs k) of
           Some i \<Rightarrow> uint (p_syscount (k_procs k ! i)) | None \<Rightarrow> -1))"

definition sys_getlevel :: "nat \<Rightarrow> kernel \<Rightarrow> int" where
  "sys_getlevel p k = p_level (k_procs k ! p)"

definition sys_uptime :: "kernel \<Rightarrow> int" where
  "sys_uptime k = uint (ticks k)"

text \<open>\<open>struct mlfqinfo\<close> and \<open>struct vmstats\<close> as they lie in memory.\<close>

definition enc_int :: "int \<Rightarrow> byte list" where
  "enc_int v = enc 4 (word_of_int v :: u32)"

definition mlfqinfo_bytes :: "proc \<Rightarrow> byte list" where
  "mlfqinfo_bytes q =
     enc_int (p_level q) @ concat (map (\<lambda>i. enc_int (p_total_ticks q ! i)) [0..<4]) @ enc_int (p_times_scheduled q)
       @ enc 4 (ucast (p_syscount q) :: u32)"

definition sys_getmlfqinfo :: "nat \<Rightarrow> kernel \<Rightarrow> (int \<times> kernel) result" where
  "sys_getmlfqinfo p k =
     bindR (argint p 0 k) (\<lambda>pid. bindR (argaddr p 1 k) (\<lambda>addr.
     case find_index (\<lambda>q. p_pid q = pid) (k_procs k) of
       None \<Rightarrow> Ok (-1, k)
     | Some i \<Rightarrow>
         bindR (on_ksv (copyout (p_pagetable (k_procs k ! p)) addr (mlfqinfo_bytes (k_procs k ! i))) k) (\<lambda>(r, k1).
         Ok (if r < 0 then -1 else 0, k1))))"

definition vmstats_bytes :: "vmstats \<Rightarrow> byte list" where
  "vmstats_bytes s =
     enc_int (v_page_faults s) @ enc_int (v_pages_evicted s) @ enc_int (v_pages_swapped_in s) @ enc_int (v_pages_swapped_out s)
       @ enc_int (v_resident s) @ [0, 0, 0, 0] @ enc 8 (v_disk_reads s) @ enc 8 (v_disk_writes s) @ enc 8 (v_avg_latency s)"

definition sys_getvmstats :: "nat \<Rightarrow> kernel \<Rightarrow> (int \<times> kernel) result" where
  "sys_getvmstats p k =
     bindR (argint p 0 k) (\<lambda>pid. bindR (argaddr p 1 k) (\<lambda>addr.
     case getvmstats pid (kst k) of None \<Rightarrow> Ok (-1, k)
     | Some s \<Rightarrow>
         bindR (on_ksv (copyout (p_pagetable (k_procs k ! p)) addr (vmstats_bytes s)) k) (\<lambda>(r, k1).
         Ok (if r < 0 then -1 else 0, k1))))"

definition sys_setdisksched :: "nat \<Rightarrow> kernel \<Rightarrow> (int \<times> kernel) result" where
  "sys_setdisksched p k =
     bindR (argint p 0 k) (\<lambda>policy.
     if policy \<noteq> DISK_SCHED_FCFS \<and> policy \<noteq> DISK_SCHED_SSTF then Ok (-1, k)
     else let b = bc (fio (fsy k)) in
       bindR (disksched_set_policy policy (dsch b)) (\<lambda>d. Ok (0, k\<lparr>fsy := with_bc (b\<lparr>dsch := d\<rparr>) (fsy k)\<rparr>)))"

section \<open>Dispatch\<close>

definition NSYSCALLS :: int where "NSYSCALLS = 32"

definition ret :: "(int \<times> kernel) result \<Rightarrow> (kcall \<times> kernel) result" where
  "ret r = bindR r (\<lambda>(v, k). Ok (KRet v, k))"

text \<open>The table \<open>syscalls[]\<close>.\<close>

definition syscalls :: "int \<Rightarrow> nat \<Rightarrow> kernel \<Rightarrow> (kcall \<times> kernel) result" where
  "syscalls num p k =
     (if num = 1 then ret (sys_fork p k)
      else if num = 2 then sys_exit p k
      else if num = 3 then sys_wait p k
      else if num = 4 then ret (sys_pipe p k)
      else if num = 5 then sys_read p k
      else if num = 6 then ret (sys_kill p k)
      else if num = 7 then ret (sys_exec p k)
      else if num = 8 then ret (sys_fstat p k)
      else if num = 9 then ret (sys_chdir p k)
      else if num = 10 then ret (sys_dup p k)
      else if num = 11 then Ok (KRet (sys_getpid p k), k)
      else if num = 12 then ret (sys_sbrk p k)
      else if num = 13 then sys_pause p k
      else if num = 14 then Ok (KRet (sys_uptime k), k)
      else if num = 15 then ret (sys_open p k)
      else if num = 16 then sys_write p k
      else if num = 17 then ret (sys_mknod p k)
      else if num = 18 then ret (sys_unlink p k)
      else if num = 19 then ret (sys_link p k)
      else if num = 20 then ret (sys_mkdir p k)
      else if num = 21 then ret (sys_close p k)
      else if num = 22 then ret (Ok (sys_hello k))
      else if num = 23 then Ok (KRet (sys_getpid2 p k), k)
      else if num = 24 then Ok (KRet (sys_getppid p k), k)
      else if num = 25 then Ok (KRet (sys_getnumchild p k), k)
      else if num = 26 then Ok (KRet (sys_getsyscount p k), k)
      else if num = 27 then bindR (sys_getchildsyscount p k) (\<lambda>v. Ok (KRet v, k))
      else if num = 28 then Ok (KRet (sys_getlevel p k), k)
      else if num = 29 then ret (sys_getmlfqinfo p k)
      else if num = 30 then ret (sys_getvmstats p k)
      else ret (sys_setdisksched p k))"

text \<open>The return value goes to \<open>a0\<close>, of a call that slept when it has gone on.\<close>

definition set_ret :: "nat \<Rightarrow> kcall \<times> kernel \<Rightarrow> kcall \<times> kernel" where
  "set_ret p r = (case r of (KRet v, k) \<Rightarrow> (KRet v, tf_set p (TF_A 0) (word_of_int v) k) | _ \<Rightarrow> r)"

definition syscall :: "nat \<Rightarrow> kernel \<Rightarrow> (kcall \<times> kernel) result" where
  "syscall p k =
     (let num = sint (ucast (tf_get p (TF_A 7) k) :: u32) in
      if num > 0 \<and> num < NSYSCALLS
      then bindR (syscalls num p (k_updp p (\<lambda>q. q\<lparr>p_syscount := p_syscount q + 1\<rparr>) k)) (\<lambda>r. Ok (set_ret p r))
      else let q = k_procs k ! p in
        Ok (KRet (-1), tf_set p (TF_A 0) (-1)
          (k_print (''%d %s: unknown sys call %d'' @ [CHR 0x0A])
             [VNum (word_of_int (p_pid q)), VStr (Some (p_name q)), VNum (word_of_int num)] k)))"

text \<open>A call that goes on after its sleep.\<close>

definition resume_call :: "nat \<Rightarrow> kont \<Rightarrow> kernel \<Rightarrow> (kcall \<times> kernel) result" where
  "resume_call p c k0 =
     (let k = k0\<lparr>kst := sleep_leave p (kst k0)\<rparr> in
      bindR (case c of
          KPipeWrite pi addr n i \<Rightarrow> k_pipewrite p pi addr n i k
        | KPipeRead pi addr n \<Rightarrow> k_piperead p pi addr n k
        | KConsRead target dst n \<Rightarrow> k_consoleread p target dst n k
        | KConsWrite src n i bs j \<Rightarrow>
            bindR (consolewrite_resume True src n i bs j (kuart k) (kst k)) (\<lambda>r. k_cwrite p src n r k)
        | KWait addr \<Rightarrow> k_wait p addr k
        | KPause t0 n \<Rightarrow> k_pause p t0 n k
        | _ \<Rightarrow> Panic ''resume'') (\<lambda>r. Ok (set_ret p r)))"

end
