(* ===== verification/Trap.thy ===== *)
theory Trap
  imports Syscall
begin

text \<open>
  Traps, \<^verbatim>\<open>kernel/trap.c\<close>: entry from user space, page faults, device and timer interrupts, the
  return to user space, and the first return of a new process (\<open>forkret\<close> of \<^verbatim>\<open>kernel/proc.c\<close>). A
  trap ends in user space or with its process off the CPU; what a process off the CPU does when it
  is scheduled again is \<open>run_kont\<close>. The disk driver is below this model: its requests complete when
  they are made, and its interrupt finds nothing to do.
\<close>

section \<open>The hart\<close>

text \<open>Control registers, and the addresses of the trap entries.\<close>

record hart =
  h_sstatus :: u64
  h_sepc :: u64
  h_scause :: u64
  h_stval :: u64
  h_stvec :: u64
  h_satp :: u64
  h_tp :: u64
  h_time :: u64
  h_stimecmp :: u64
  h_intr :: bool
  kernelvec :: u64
  uservec :: u64
  usertrap_addr :: u64

definition SSTATUS_SPP :: u64 where "SSTATUS_SPP = push_bit 8 1"
definition SSTATUS_SPIE :: u64 where "SSTATUS_SPIE = push_bit 5 1"
definition UART0_IRQ :: int where "UART0_IRQ = 10"
definition VIRTIO0_IRQ :: int where "VIRTIO0_IRQ = 1"

definition MAKE_SATP :: "u64 \<Rightarrow> u64" where
  "MAKE_SATP pt = push_bit 60 8 OR drop_bit 12 pt"

text \<open>What the devices have to say at an interrupt: the claimed line, and the serial port's state.\<close>

record devs =
  d_irq :: int
  d_idle :: bool
  d_input :: "byte list"

section \<open>Interrupts\<close>

definition clockintr :: "hart \<Rightarrow> kernel \<Rightarrow> hart \<times> kernel" where
  "clockintr h k =
     (h\<lparr>h_stimecmp := h_time h + 1000000\<rparr>,
      if h_tp h = 0 then k_wakeup ticks_chan (k\<lparr>ticks := ticks k + 1\<rparr>) else k)"

definition k_uartintr :: "devs \<Rightarrow> kernel \<Rightarrow> kernel" where
  "k_uartintr d k =
     (let (cs, u, st) = uartintr (d_idle d) (d_input d) (kcons k) (kuart k) (kst k)
      in k\<lparr>kcons := cs, kuart := u, kst := st\<rparr>)"

definition devintr :: "devs \<Rightarrow> hart \<Rightarrow> kernel \<Rightarrow> int \<times> hart \<times> kernel" where
  "devintr d h k =
     (if h_scause h = 0x8000000000000009 then
        (1, h,
         if d_irq d = UART0_IRQ then k_uartintr d k
         else if d_irq d = VIRTIO0_IRQ then k
         else if d_irq d \<noteq> 0 then k_print (''unexpected interrupt irq=%d'' @ [CHR 0x0A]) [VNum (word_of_int (d_irq d))] k
         else k)
      else if h_scause h = 0x8000000000000005 then (let (h1, k1) = clockintr h k in (2, h1, k1))
      else (0, h, k))"

definition prepare_return :: "nat \<Rightarrow> hart \<Rightarrow> kernel \<Rightarrow> hart \<times> kernel" where
  "prepare_return p h k =
     (let k1 = tf_set p 0 (h_satp h) k;
          k2 = tf_set p 8 (p_kstack (k_procs k1 ! p) + of_nat PGSIZE) k1;
          k3 = tf_set p 16 (usertrap_addr h) k2;
          k4 = tf_set p 32 (h_tp h) k3
      in (h\<lparr>h_intr := False, h_stvec := TRAMPOLINE + (uservec h - trampoline (kst k)),
            h_sstatus := (h_sstatus h AND NOT SSTATUS_SPP) OR SSTATUS_SPIE, h_sepc := tf_get p TF_EPC k4\<rparr>, k4))"

section \<open>Traps from user space\<close>

text \<open>The end of a trap: in user space with a page table, or off the CPU.\<close>

datatype uret = URet u64 | UOff

definition to_user :: "nat \<Rightarrow> hart \<Rightarrow> kernel \<Rightarrow> (uret \<times> hart \<times> kernel) result" where
  "to_user p h k =
     (let (h1, k1) = prepare_return p h k in Ok (URet (MAKE_SATP (p_pagetable (k_procs k1 ! p))), h1, k1))"

definition k_boost :: "kernel \<Rightarrow> kernel" where
  "k_boost k = k\<lparr>kst := trap_boost (gticks k) (kst k)\<rparr>"

text \<open>From the last check for a kill to the end, with the yield of a timer interrupt on the way.\<close>

definition usertrap_tail :: "int \<Rightarrow> nat \<Rightarrow> hart \<Rightarrow> kernel \<Rightarrow> (uret \<times> hart \<times> kernel) result" where
  "usertrap_tail which_dev p h k =
     (if killed p (kst k) then bindR (kexit (-1) p k) (\<lambda>k1. Ok (UOff, h, k1))
      else if which_dev = 2 then
        let k1 = k\<lparr>gticks := gticks k + 1\<rparr> in
        if p_state (k_procs k1 ! p) = RUNNING
        then bindR (on_ks (\<lambda>st. yield_enter p (timer_charge p st)) k1) (\<lambda>k2.
          Ok (UOff, h, k2\<lparr>konts := (konts k2)(p := Some KYield)\<rparr>))
        else to_user p h (k_boost k1)
      else to_user p h k)"

definition usertrap :: "devs \<Rightarrow> nat \<Rightarrow> hart \<Rightarrow> kernel \<Rightarrow> (uret \<times> hart \<times> kernel) result" where
  "usertrap d p h0 k0 =
     (if h_sstatus h0 AND SSTATUS_SPP \<noteq> 0 then Panic ''usertrap: not from user mode''
      else
        let h = h0\<lparr>h_stvec := kernelvec h0\<rparr>; k = tf_set p TF_EPC (h_sepc h0) k0; sc = h_scause h in
        if sc = 8 then
          if killed p (kst k) then bindR (kexit (-1) p k) (\<lambda>k1. Ok (UOff, h, k1))
          else bindR (syscall p (tf_set p TF_EPC (tf_get p TF_EPC k + 4) k)) (\<lambda>(r, k1).
            case r of KRet _ \<Rightarrow> usertrap_tail 0 p (h\<lparr>h_intr := True\<rparr>) k1
            | _ \<Rightarrow> Ok (UOff, h\<lparr>h_intr := True\<rparr>, k1))
        else
          let (dev, h1, k1) = devintr d h k in
          if dev \<noteq> 0 then usertrap_tail dev p h1 k1
          else if sc = 12 \<or> sc = 13 \<or> sc = 15 then
            bindR (on_ksv (vmfault (p_pagetable (k_procs k1 ! p)) (h_stval h1) (sc = 15)) k1) (\<lambda>(pa, k2).
            usertrap_tail 0 p h1 (if pa = 0 then k_updp p (\<lambda>q. q\<lparr>p_killed := 1\<rparr>) k2 else k2))
          else
            let k2 = k_print (''usertrap(): unexpected scause 0x%lx pid=%d'' @ [CHR 0x0A]) [VNum sc, VNum (word_of_int (p_pid (k_procs k1 ! p)))] k1;
                k3 = k_print (''            sepc=0x%lx stval=0x%lx'' @ [CHR 0x0A]) [VNum (h_sepc h1), VNum (h_stval h1)] k2
            in usertrap_tail 0 p h1 (k3\<lparr>kst := setkilled p (kst k3)\<rparr>))"

section \<open>Traps inside the kernel\<close>

text \<open>\<open>kerneltrap\<close> up to its yield, which it says it takes, and after it.\<close>

definition kerneltrap :: "devs \<Rightarrow> hart \<Rightarrow> kernel \<Rightarrow> (bool \<times> hart \<times> kernel) result" where
  "kerneltrap d h k =
     (if h_sstatus h AND SSTATUS_SPP = 0 then Panic ''kerneltrap: not from supervisor mode''
      else if h_intr h then Panic ''kerneltrap: interrupts enabled''
      else
        let (dev, h1, k1) = devintr d h k in
        if dev = 0 then Panic ''kerneltrap''
        else case curp (kst k) of
          None \<Rightarrow> Ok (False, h1, k1)
        | Some p \<Rightarrow>
            if dev \<noteq> 2 then Ok (False, h1, k1)
            else let k2 = k1\<lparr>gticks := gticks k1 + 1\<rparr> in
              if p_state (k_procs k2 ! p) = RUNNING
              then bindR (on_ks (\<lambda>st. yield_enter p (timer_charge p st)) k2) (\<lambda>k3. Ok (True, h1, k3))
              else Ok (False, h1, k_boost k2))"

definition kerneltrap_leave :: "u64 \<Rightarrow> u64 \<Rightarrow> hart \<Rightarrow> kernel \<Rightarrow> hart \<times> kernel" where
  "kerneltrap_leave sepc sstatus h k = (h\<lparr>h_sepc := sepc, h_sstatus := sstatus\<rparr>, k_boost k)"

section \<open>Back on the CPU\<close>

definition forkret :: "nat \<Rightarrow> hart \<Rightarrow> kernel \<Rightarrow> (uret \<times> hart \<times> kernel) result" where
  "forkret p h k =
     bindR (if fs_first k then
        let path = map chr ''/init'' in
        bindR (on_fs (fsinit ROOTDEV) k) (\<lambda>k1.
        bindR (kexec p path [path] (k1\<lparr>fs_first := False\<rparr>)) (\<lambda>(r, k2).
        let k3 = tf_set p (TF_A 0) (word_of_int r) k2 in
        if tf_get p (TF_A 0) k3 = -1 then Panic ''exec'' else Ok k3))
      else Ok k) (to_user p h)"

text \<open>What a process that the scheduler has switched to does: return from its sleep in a call, from
  the yield of a timer interrupt, or from its creation.\<close>

definition run_kont :: "nat \<Rightarrow> hart \<Rightarrow> kernel \<Rightarrow> (uret \<times> hart \<times> kernel) result" where
  "run_kont p h k0 =
     (let k = k0\<lparr>konts := (konts k0)(p := None)\<rparr> in
      case konts k0 p of
        None \<Rightarrow> Panic ''no continuation''
      | Some KFork \<Rightarrow> forkret p h k
      | Some KYield \<Rightarrow> to_user p h (k_boost k)
      | Some c \<Rightarrow>
          bindR (resume_call p c k) (\<lambda>(r, k1).
          case r of KRet _ \<Rightarrow> usertrap_tail 0 p h k1 | _ \<Rightarrow> Ok (UOff, h, k1)))"

text \<open>A round of the scheduler: a boost when it is due, then the chosen process, if there is one.\<close>

definition schedule :: "hart \<Rightarrow> kernel \<Rightarrow> ((nat \<times> uret) option \<times> hart \<times> kernel) result" where
  "schedule h k =
     (case sched_round (ticks k) (kq k, kst k) of
        (None, q, st) \<Rightarrow> Ok (None, h, k\<lparr>kq := q, kst := st\<rparr>)
      | (Some p, q, st) \<Rightarrow> bindR (run_kont p h (k\<lparr>kq := q, kst := st\<rparr>)) (\<lambda>(u, h1, k1). Ok (Some (p, u), h1, k1)))"

text \<open>The scheduler's accounting when a process that went off the CPU switches back to it.\<close>

definition back_to_scheduler :: "nat \<Rightarrow> kernel \<Rightarrow> kernel" where
  "back_to_scheduler p k = k\<lparr>kst := sched_return p (kst k)\<rparr>"

end
