(* ===== verification/Frame.thy ===== *)
theory Frame
  imports Vm
begin

text \<open>
  What virtual memory leaves alone: no operation on address spaces, page faults, swapping and user
  copies included, changes anything in the process table but the statistics. The statements are
  about calls that return.
\<close>

section \<open>Partial correctness\<close>

text \<open>
  What holds in the state a call leaves if it returns: of calls that return a state, a value and a
  state, or two values and a state.
\<close>

definition post1 :: "('s \<Rightarrow> bool) \<Rightarrow> 's result \<Rightarrow> bool" where
  "post1 P r = (\<forall>s. r = Ok s \<longrightarrow> P s)"

definition post2 :: "('s \<Rightarrow> bool) \<Rightarrow> ('x \<times> 's) result \<Rightarrow> bool" where
  "post2 P r = (\<forall>x s. r = Ok (x, s) \<longrightarrow> P s)"

definition post3 :: "('s \<Rightarrow> bool) \<Rightarrow> ('x \<times> 'y \<times> 's) result \<Rightarrow> bool" where
  "post3 P r = (\<forall>x y s. r = Ok (x, y, s) \<longrightarrow> P s)"

named_theorems post_rules "how partial correctness passes through the program constructs"

lemma post_base [simp]:
  "post1 P (Ok s) = P s" "post2 P (Ok xs) = P (snd xs)" "post1 P (Panic m)" "post2 P (Panic m)" "post3 P (Panic m)"
  "post3 P (Ok ys) = P (snd (snd ys))"
  by (auto simp: post1_def post2_def post3_def) (metis prod.collapse)+

lemma post_bind [post_rules]:
  "post1 P r \<Longrightarrow> (\<And>s. P s \<Longrightarrow> post1 P (f1 s)) \<Longrightarrow> post1 P (bindR r f1)"
  "post1 P r \<Longrightarrow> (\<And>s. P s \<Longrightarrow> post2 P (f2 s)) \<Longrightarrow> post2 P (bindR r f2)"
  "post1 P r \<Longrightarrow> (\<And>s. P s \<Longrightarrow> post3 P (f3 s)) \<Longrightarrow> post3 P (bindR r f3)"
  "post2 P q \<Longrightarrow> (\<And>x s. P s \<Longrightarrow> post1 P (g1 (x, s))) \<Longrightarrow> post1 P (bindR q g1)"
  "post2 P q \<Longrightarrow> (\<And>x s. P s \<Longrightarrow> post2 P (g2 (x, s))) \<Longrightarrow> post2 P (bindR q g2)"
  "post2 P q \<Longrightarrow> (\<And>x s. P s \<Longrightarrow> post3 P (g3 (x, s))) \<Longrightarrow> post3 P (bindR q g3)"
  "post3 P t \<Longrightarrow> (\<And>x y s. P s \<Longrightarrow> post1 P (h1 (x, y, s))) \<Longrightarrow> post1 P (bindR t h1)"
  "post3 P t \<Longrightarrow> (\<And>x y s. P s \<Longrightarrow> post2 P (h2 (x, y, s))) \<Longrightarrow> post2 P (bindR t h2)"
  "post3 P t \<Longrightarrow> (\<And>x y s. P s \<Longrightarrow> post3 P (h3 (x, y, s))) \<Longrightarrow> post3 P (bindR t h3)"
  by (auto simp: post1_def post2_def post3_def)

text \<open>Calls that return no state.\<close>

lemma post_bind_value:
  "(\<And>x. post1 P (f1 x)) \<Longrightarrow> post1 P (bindR r f1)" "(\<And>x. post2 P (f2 x)) \<Longrightarrow> post2 P (bindR r f2)"
  "(\<And>x. post3 P (f3 x)) \<Longrightarrow> post3 P (bindR r f3)"
  by (auto simp: post1_def post2_def post3_def)

lemma post_if [post_rules]:
  "(b \<Longrightarrow> post1 P x1) \<Longrightarrow> (\<not> b \<Longrightarrow> post1 P y1) \<Longrightarrow> post1 P (if b then x1 else y1)"
  "(b \<Longrightarrow> post2 P x2) \<Longrightarrow> (\<not> b \<Longrightarrow> post2 P y2) \<Longrightarrow> post2 P (if b then x2 else y2)"
  "(b \<Longrightarrow> post3 P x3) \<Longrightarrow> (\<not> b \<Longrightarrow> post3 P y3) \<Longrightarrow> post3 P (if b then x3 else y3)"
  by auto

lemma post_forR [post_rules]: "P s \<Longrightarrow> (\<And>i t. P t \<Longrightarrow> post1 P (body i t)) \<Longrightarrow> post1 P (forR body l s)"
  by (induction l arbitrary: s) (auto intro!: post_bind(1))

lemma postD:
  "post1 P r \<Longrightarrow> r = Ok s \<Longrightarrow> P s" "post2 P q \<Longrightarrow> q = Ok (x, s) \<Longrightarrow> P s" "post3 P t \<Longrightarrow> t = Ok (x, y, s) \<Longrightarrow> P s"
  by (auto simp: post1_def post2_def post3_def)

lemma post_mono:
  "post1 P r \<Longrightarrow> (\<And>s. P s \<Longrightarrow> Q s) \<Longrightarrow> post1 Q r" "post2 P q \<Longrightarrow> (\<And>s. P s \<Longrightarrow> Q s) \<Longrightarrow> post2 Q q"
  "post3 P t \<Longrightarrow> (\<And>s. P s \<Longrightarrow> Q s) \<Longrightarrow> post3 Q t"
  by (auto simp: post1_def post2_def post3_def)

lemmas post_bind_raid [post_rules] = post_bind_value [where r = "r :: raid_state result" for r]
lemmas post_bind_u64 [post_rules] = post_bind_value [where r = "r :: u64 result" for r]
lemmas post_bind_bytes [post_rules] = post_bind_value [where r = "r :: byte list result" for r]

section \<open>States that agree up to statistics\<close>

definition core :: "proc \<Rightarrow> proc" where
  "core q = q\<lparr>p_page_faults := 0, p_pages_evicted := 0, p_pages_swapped_in := 0, p_pages_swapped_out := 0, p_resident := 0,
     p_disk_reads := 0, p_disk_writes := 0, p_total_latency := 0, p_disk_ops := 0\<rparr>"

definition agree :: "kstate \<Rightarrow> kstate \<Rightarrow> bool" where
  "agree a b = (map core (procs b) = map core (procs a) \<and> curp b = curp a \<and> initproc b = initproc a \<and> nextpid b = nextpid a \<and> npids b = npids a)"

lemma keeps_refl [simp, intro]: "agree a a"
  by (simp add: agree_def)

lemma core_upd: "(\<And>q. core (f q) = core q) \<Longrightarrow> map core (ps[i := f (ps ! i)]) = map core ps"
  by (rule nth_equalityI) (simp_all, metis nth_list_update_eq nth_list_update_neq)

lemma keeps_upd_proc: "(\<And>q. core (f q) = core q) \<Longrightarrow> agree a (upd_proc i f b) = agree a b"
  by (simp add: agree_def upd_proc_def core_upd)

lemma keeps_upd_popt: "(\<And>q. core (f q) = core q) \<Longrightarrow> agree a (upd_popt i f b) = agree a b"
  by (cases i) (simp_all add: upd_popt_def keeps_upd_proc)

lemma keeps_other [simp]:
  "agree a (upd_frame i g b) = agree a b" "agree a (upd_slot i h b) = agree a b" "agree a (k_store x v b) = agree a b"
  "agree a (k_write x bs b) = agree a b" "agree a (k_memset x c b) = agree a b" "agree a (k_memmove x y n b) = agree a b"
  "agree a (drop_frame i b) = agree a b" "agree a (swap_free i b) = agree a b" "agree a (forget_frame x b) = agree a b"
  "agree a (b\<lparr>km := m\<rparr>) = agree a b" "agree a (b\<lparr>raid := r\<rparr>) = agree a b" "agree a (b\<lparr>swap_head := s\<rparr>) = agree a b"
  "agree a (b\<lparr>frames := fr\<rparr>) = agree a b" "agree a (b\<lparr>slots := sl\<rparr>) = agree a b" "agree a (b\<lparr>clock_hand := c0\<rparr>) = agree a b"
  by (auto simp: agree_def upd_frame_def upd_slot_def k_store_def k_write_def k_memset_def k_memmove_def drop_frame_def
      swap_free_def forget_frame_def split: option.splits)

section \<open>The allocator and page tables\<close>

lemma keeps_k_alloc [simp]: "k_alloc b = (x, b') \<Longrightarrow> agree a b' = agree a b"
  by (auto simp: k_alloc_def split: prod.splits)

lemma kp_calls [post_rules]:
  "agree a b \<Longrightarrow> post1 (agree a) (k_free pa b)" "agree a b \<Longrightarrow> post2 (agree a) (k_walk pt va al b)" "agree a b \<Longrightarrow> post2 (agree a) (k_mappages pt va sz pa perm b)"
  by (auto simp: k_free_def k_walk_def k_mappages_def post1_def post2_def split: prod.splits)

section \<open>Swap\<close>

lemma keeps_swap_alloc [simp]: "swap_alloc b = (x, b') \<Longrightarrow> agree a b' = agree a b"
  by (auto simp: swap_alloc_def split: option.splits)

lemma kp_swap [post_rules]: "agree a b \<Longrightarrow> post1 (agree a) (swap_write s pa v va c b)" "agree a b \<Longrightarrow> post1 (agree a) (swap_read s pa c b)"
  by (auto simp: swap_write_def swap_read_def swap_seek_def Let_def core_def intro!: post_rules keeps_upd_popt [THEN iffD2])

lemma keeps_clock_sweep: "agree a (snd (clock_sweep n elig b)) = agree a b"
  by (induction n arbitrary: b) (simp_all add: Let_def)

lemma kp_clock [post_rules]: "agree a b \<Longrightarrow> post2 (agree a) (clock_pick_victim cp b)"
proof -
  assume ab: "agree a b"
  let ?own = "\<lambda>f. f_used f \<and> f_proc f = cp" and ?any = "\<lambda>f. f_used f \<and> f_proc f \<noteq> None"
  obtain v1 s1 where r1: "clock_sweep (2 * MAX_FRAMES) ?own b = (v1, s1)" by fastforce
  obtain v2 s2 where r2: "clock_sweep (2 * MAX_FRAMES) ?any s1 = (v2, s2)" by fastforce
  have "agree a s1" "agree a s2"
    using ab keeps_clock_sweep [of a "2 * MAX_FRAMES" ?own b] keeps_clock_sweep [of a "2 * MAX_FRAMES" ?any s1] r1 r2 by simp_all
  note ag = this
  show ?thesis
  proof (cases v1)
    case None
    show ?thesis unfolding clock_pick_victim_def r1 None prod.case option.case r2 using ag by (cases v2) (auto split: option.split)
  qed (use ag in \<open>simp add: clock_pick_victim_def r1\<close>)
qed

lemma kp_mark [post_rules]: "agree a b \<Longrightarrow> post1 (agree a) (mark_swapped vp vva s b)"
  by (auto simp: mark_swapped_def intro!: post_rules split: option.splits)

lemma kp_kalloc_user [post_rules]: "agree a b \<Longrightarrow> post2 (agree a) (kalloc_user p va b)"
  unfolding kalloc_user_def Let_def
  by (auto intro!: post_rules keeps_upd_popt [THEN iffD2] simp: core_def split: option.splits prod.splits)

section \<open>Address spaces\<close>

lemma kp_unmap_one [post_rules]: "agree a b \<Longrightarrow> post1 (agree a) (unmap_one pt fr va b)"
  unfolding unmap_one_def Let_def by (auto intro!: post_rules)

lemma kp_uvmunmap [post_rules]: "agree a b \<Longrightarrow> post1 (agree a) (uvmunmap pt va n fr b)"
  unfolding uvmunmap_def by (auto intro!: post_rules)

lemma kp_uvmdealloc [post_rules]: "agree a b \<Longrightarrow> post2 (agree a) (uvmdealloc pt o1 n1 b)"
  unfolding uvmdealloc_def Let_def
  by (auto intro!: post_rules keeps_upd_proc [THEN iffD2] simp: core_def split: option.splits)

lemma kp_uvmalloc_loop [post_rules]: "agree a b \<Longrightarrow> post2 (agree a) (uvmalloc_loop pt base xperm l newsz b)"
proof (induction l arbitrary: b)
  case (Cons x l)
  then show ?case by (auto intro!: post_rules)
qed simp

lemma kp_uvmalloc [post_rules]: "agree a b \<Longrightarrow> post2 (agree a) (uvmalloc pt o1 n1 xperm b)"
  unfolding uvmalloc_def by (auto intro!: post_rules)

lemma kp_freewalk [post_rules]: "agree a b \<Longrightarrow> post1 (agree a) (freewalk l pt b)"
proof (induction l arbitrary: pt b)
  case (Suc l)
  then show ?case by (auto simp: Let_def intro!: post_rules)
qed simp

lemma kp_uvmfree [post_rules]: "agree a b \<Longrightarrow> post1 (agree a) (uvmfree pt sz b)"
  unfolding uvmfree_def by (auto intro!: post_rules)

lemma kp_uvmcopy_err [post_rules]: "agree a b \<Longrightarrow> post2 (agree a) (uvmcopy_err new i b)"
  unfolding uvmcopy_err_def by (auto intro!: post_rules)

lemma kp_uvmcopy_loop [post_rules]: "agree a b \<Longrightarrow> post2 (agree a) (uvmcopy_loop old new newp l b)"
proof (induction l arbitrary: b)
  case (Cons x l)
  then show ?case unfolding uvmcopy_loop.simps Let_def by (auto intro!: post_rules split: prod.splits)
qed simp

lemma kp_uvmcopy [post_rules]: "agree a b \<Longrightarrow> post2 (agree a) (uvmcopy old new sz newp b)"
  unfolding uvmcopy_def by (auto intro!: post_rules)

lemma kp_vmfault [post_rules]: "agree a b \<Longrightarrow> post2 (agree a) (vmfault pt va wr b)"
  unfolding vmfault_def Let_def
  by (auto intro!: post_rules keeps_upd_proc [THEN iffD2] simp: core_def split: option.splits)

section \<open>Copies\<close>

lemma kp_fault_in: "agree a b \<Longrightarrow> post2 (agree a) (bindR (walkaddr pt va m) (\<lambda>pa0. if pa0 = 0 then vmfault pt va False b else Ok (pa0, b)))"
  by (auto intro!: post_rules)

lemma kp_copyout [post_rules]: "agree a b \<Longrightarrow> post2 (agree a) (copyout pt va src b)"
proof (induction pt va src b rule: copyout.induct)
  case (1 pt dstva src st)
  show ?case
    by (subst copyout.simps) (use 1 in \<open>auto simp: Let_def intro!: post_rules kp_fault_in\<close>)
qed

lemma kp_copyin [post_rules]: "agree a b \<Longrightarrow> post3 (agree a) (copyin pt va n b)"
proof (induction pt va n b rule: copyin.induct)
  case (1 pt srcva len st)
  show ?case
    by (subst copyin.simps) (use 1 in \<open>auto simp: Let_def intro!: post_rules kp_fault_in\<close>)
qed

section \<open>What agreement means\<close>

lemma core_simps [simp]:
  "p_state (core q) = p_state q" "p_pid (core q) = p_pid q" "p_parent (core q) = p_parent q" "p_ofile (core q) = p_ofile q"
  "p_cwd (core q) = p_cwd q" "p_pagetable (core q) = p_pagetable q" "p_trapframe (core q) = p_trapframe q" "p_sz (core q) = p_sz q"
  by (simp_all add: core_def)

lemma agree_map: "(\<And>q. g (core q) = g q) \<Longrightarrow> agree a b \<Longrightarrow> map g (procs b) = map g (procs a)"
proof -
  assume g: "\<And>q. g (core q) = g q" and ab: "agree a b"
  have "map g (map core (procs b)) = map g (map core (procs a))" using ab by (simp add: agree_def)
  then show ?thesis by (simp add: g comp_def)
qed

lemma agree_length: "agree a b \<Longrightarrow> length (procs b) = length (procs a)"
  by (metis agree_def length_map)

lemma agree_nth: "(\<And>q. g (core q) = g q) \<Longrightarrow> agree a b \<Longrightarrow> i < length (procs a) \<Longrightarrow> g (procs b ! i) = g (procs a ! i)"
  using agree_map [of g a b] agree_length [of a b] by (metis nth_map)

lemmas agree_fields = agree_nth [where g = p_state] agree_nth [where g = p_pid] agree_nth [where g = p_parent]
  agree_nth [where g = p_ofile] agree_nth [where g = p_cwd] agree_nth [where g = p_pagetable] agree_nth [where g = p_trapframe]
  agree_nth [where g = p_sz]

end
