(* ===== verification/Kinv.thy ===== *)
theory Kinv
  imports Trap Frame Sched
begin

text \<open>
  An invariant of the whole kernel and its preservation by every system call and trap: process
  identifiers are unique until the counter wraps around, parents are alive, dead processes hold no
  files, the scheduler's levels are in range, and the reference count of every open file is the
  number of descriptors that refer to it.
\<close>

section \<open>The invariant\<close>

text \<open>What the invariant looks at in a process.\<close>

definition pview :: "proc \<Rightarrow> int \<times> nat option \<times> nat option list \<times> bool \<times> bool \<times> bool" where
  "pview q = (p_pid q, p_parent q, p_ofile q, p_state q = UNUSED, p_state q = ZOMBIE, proc_fit q)"

definition live :: "proc \<Rightarrow> bool" where
  "live q = (p_state q \<noteq> UNUSED \<and> p_state q \<noteq> ZOMBIE)"

definition no_files :: "proc \<Rightarrow> bool" where
  "no_files q = (\<forall>x\<in>set (p_ofile q). x = None)"

text \<open>The descriptors that refer to file \<open>f\<close>.\<close>

definition fd_refs :: "proc list \<Rightarrow> nat \<Rightarrow> int" where
  "fd_refs ps f = int (count (mset (concat (map p_ofile ps))) (Some f))"

text \<open>\<open>allocpid\<close> has not used up the positive numbers of a C \<open>int\<close>.\<close>

definition few_pids :: "kstate \<Rightarrow> bool" where
  "few_pids st = (npids st < 2 ^ 31 - 1)"

definition pid_count :: "kstate \<Rightarrow> bool" where
  "pid_count st = (nextpid st = signed_take_bit 31 (1 + int (npids st)))"

definition proc_inv :: "kstate \<Rightarrow> bool" where
  "proc_inv st = (length (procs st) = NPROC \<and> pid_count st \<and>
     (\<forall>i<NPROC. let q = procs st ! i in
        length (p_ofile q) = NOFILE \<and> (\<forall>f. Some f \<in> set (p_ofile q) \<longrightarrow> f < NFILE) \<and>
        (p_state q = UNUSED \<longrightarrow> p_pid q = 0 \<and> p_parent q = None) \<and>
        (\<not> live q \<longrightarrow> no_files q) \<and> proc_fit q \<and>
        (few_pids st \<and> p_state q \<noteq> UNUSED \<longrightarrow> 0 < p_pid q \<and> p_pid q < nextpid st) \<and>
        (\<forall>m. p_parent q = Some m \<longrightarrow> m < NPROC \<and> live (procs st ! m))) \<and>
     (few_pids st \<longrightarrow> (\<forall>i<NPROC. \<forall>j<NPROC. i \<noteq> j \<and> p_state (procs st ! i) \<noteq> UNUSED \<and> p_state (procs st ! j) \<noteq> UNUSED \<longrightarrow>
        p_pid (procs st ! i) \<noteq> p_pid (procs st ! j))) \<and>
     (\<forall>m. initproc st = Some m \<longrightarrow> m < NPROC \<and> live (procs st ! m)))"

text \<open>
  Inside a call the kernel itself may hold references, or owe them: \<open>D f\<close> is the difference.
\<close>

definition kinv :: "(nat \<Rightarrow> int) \<Rightarrow> kernel \<Rightarrow> bool" where
  "kinv D k = (proc_inv (kst k) \<and> prev_i (kq k) < NPROC \<and> length (ftable k) = NFILE \<and>
     (\<forall>f<NFILE. fl_ref (ftable k ! f) = fd_refs (procs (kst k)) f + D f))"

text \<open>The invariant while process \<open>p\<close> runs in the kernel.\<close>

definition rinv :: "(nat \<Rightarrow> int) \<Rightarrow> nat \<Rightarrow> kernel \<Rightarrow> bool" where
  "rinv D p k = (kinv D k \<and> p < NPROC \<and> live (procs (kst k) ! p))"

section \<open>It depends on the view only\<close>

lemma pview_fields:
  assumes "map pview ps' = map pview ps"
  shows "length ps' = length ps" "map p_ofile ps' = map p_ofile ps"
    "i < length ps \<Longrightarrow> p_pid (ps' ! i) = p_pid (ps ! i) \<and> p_parent (ps' ! i) = p_parent (ps ! i) \<and> p_ofile (ps' ! i) = p_ofile (ps ! i) \<and>
      (p_state (ps' ! i) = UNUSED) = (p_state (ps ! i) = UNUSED) \<and> live (ps' ! i) = live (ps ! i) \<and> no_files (ps' ! i) = no_files (ps ! i) \<and>
      proc_fit (ps' ! i) = proc_fit (ps ! i)"
proof -
  show len: "length ps' = length ps" using assms by (metis length_map)
  have "map (\<lambda>v. fst (snd (snd v))) (map pview ps') = map (\<lambda>v. fst (snd (snd v))) (map pview ps)" using assms by simp
  then show "map p_ofile ps' = map p_ofile ps" by (simp add: pview_def comp_def)
  show "p_pid (ps' ! i) = p_pid (ps ! i) \<and> p_parent (ps' ! i) = p_parent (ps ! i) \<and> p_ofile (ps' ! i) = p_ofile (ps ! i) \<and>
      (p_state (ps' ! i) = UNUSED) = (p_state (ps ! i) = UNUSED) \<and> live (ps' ! i) = live (ps ! i) \<and> no_files (ps' ! i) = no_files (ps ! i) \<and>
      proc_fit (ps' ! i) = proc_fit (ps ! i)"
    if "i < length ps"
  proof -
    have "pview (ps' ! i) = pview (ps ! i)" using assms len that by (metis nth_map)
    then show ?thesis by (simp add: pview_def live_def no_files_def)
  qed
qed

definition same_procs :: "kstate \<Rightarrow> kstate \<Rightarrow> bool" where
  "same_procs a b = (map pview (procs b) = map pview (procs a) \<and> initproc b = initproc a \<and> nextpid b = nextpid a \<and>
     npids b = npids a)"

lemma proc_inv_same:
  assumes "same_procs a b"
  shows "proc_inv b = proc_inv a"
proof -
  note f = pview_fields [OF conjunct1 [OF assms [unfolded same_procs_def]]]
  have o: "initproc b = initproc a" "nextpid b = nextpid a" "few_pids b = few_pids a" "pid_count b = pid_count a"
    using assms by (simp_all add: same_procs_def few_pids_def pid_count_def)
  show ?thesis
  proof (cases "length (procs a) = NPROC")
    case True
    then show ?thesis unfolding proc_inv_def Let_def o f(1) using f(3) by (simp cong: conj_cong)
  qed (simp add: proc_inv_def f(1))
qed

lemma inv_same:
  assumes "same_procs (kst a) (kst b)" "map fl_ref (ftable b) = map fl_ref (ftable a)" "kq b = kq a"
  shows "kinv D b = kinv D a" "rinv D p b = rinv D p a"
proof -
  note f = pview_fields [OF conjunct1 [OF assms(1) [unfolded same_procs_def]]]
  have len: "length (ftable b) = length (ftable a)" using assms(2) by (metis length_map)
  have ref: "i < length (ftable a) \<Longrightarrow> fl_ref (ftable b ! i) = fl_ref (ftable a ! i)" for i
    using assms(2) len by (metis nth_map)
  show k: "kinv D b = kinv D a"
    using proc_inv_same [OF assms(1)] len ref f(2) assms(3) by (auto simp: kinv_def fd_refs_def)
  show "rinv D p b = rinv D p a"
    using k f(3) [of p] by (auto simp: rinv_def kinv_def proc_inv_def f(1))
qed

section \<open>Operations that do not change the view\<close>

lemma pview_core [simp]: "pview (core q) = pview q"
  by (simp add: pview_def core_def)

lemma agree_same: "agree a b \<Longrightarrow> same_procs a b"
  using agree_map [of pview a b] by (simp add: same_procs_def agree_def)

lemma inv_kst: "agree (kst k) st \<Longrightarrow> rinv D p (k\<lparr>kst := st\<rparr>) = rinv D p k"
  using inv_same(2) [of k "k\<lparr>kst := st\<rparr>"] agree_same by simp

lemma inv_upd [simp]:
  "rinv D p (k\<lparr>fsy := s\<rparr>) = rinv D p k" "rinv D p (k\<lparr>pipes := q\<rparr>) = rinv D p k" "rinv D p (k\<lparr>kcons := c\<rparr>) = rinv D p k"
  "rinv D p (k\<lparr>kuart := u\<rparr>) = rinv D p k" "rinv D p (k\<lparr>ticks := t\<rparr>) = rinv D p k" "rinv D p (k\<lparr>gticks := g\<rparr>) = rinv D p k"
  "rinv D p (k\<lparr>konts := n\<rparr>) = rinv D p k" "rinv D p (k\<lparr>fs_first := b\<rparr>) = rinv D p k"
  by (simp_all add: rinv_def kinv_def)

lemma pview_upd: "(\<And>q. pview (f q) = pview q) \<Longrightarrow> map pview (ps[i := f (ps ! i)]) = map pview ps"
  by (rule nth_equalityI) (simp_all, metis nth_list_update_eq nth_list_update_neq)

lemma inv_updp: "(\<And>q. pview (f q) = pview q) \<Longrightarrow> rinv D p (k_updp i f k) = rinv D p k"
  by (rule inv_same(2)) (simp_all add: k_updp_def same_procs_def upd_proc_def pview_upd)

lemma inv_upd_file: "(\<And>f. fl_ref (g f) = fl_ref f) \<Longrightarrow> rinv D p (upd_file i g k) = rinv D p k"
proof (rule inv_same(2))
  assume g: "\<And>f. fl_ref (g f) = fl_ref f"
  show "map fl_ref (ftable (upd_file i g k)) = map fl_ref (ftable k)"
    by (rule nth_equalityI) (simp_all add: upd_file_def, metis g nth_list_update_eq nth_list_update_neq)
qed (simp_all add: upd_file_def same_procs_def)

lemma inv_wakeup [simp]: "rinv D p (k_wakeup ch k) = rinv D p k"
proof (rule inv_same(2))
  have "map pview (procs (wakeup ch st)) = map pview (procs st)" for st
    by (rule nth_equalityI) (simp_all add: wakeup_def Let_def pview_def)
  then show "same_procs (kst k) (kst (k_wakeup ch k))" by (simp add: k_wakeup_def same_procs_def wakeup_def)
qed (simp_all add: k_wakeup_def)

lemma inv_tf_set [simp]: "rinv D p (tf_set i f v k) = rinv D p k"
  by (rule inv_same(2)) (simp_all add: tf_set_def same_procs_def k_store_def)

lemma post_on_fs [post_rules]: "rinv D p k \<Longrightarrow> post1 (rinv D p) (on_fs f k)" "rinv D p k \<Longrightarrow> post2 (rinv D p) (on_fsv g k)"
  by (auto simp: on_fs_def on_fsv_def post1_def post2_def)

lemma post_on_ks:
  "rinv D p k \<Longrightarrow> post1 (agree (kst k)) (f (kst k)) \<Longrightarrow> post1 (rinv D p) (on_ks f k)"
  "rinv D p k \<Longrightarrow> post2 (agree (kst k)) (g (kst k)) \<Longrightarrow> post2 (rinv D p) (on_ksv g k)"
  by (auto simp: on_ks_def on_ksv_def post1_def post2_def inv_kst)

lemmas post_bind_int [post_rules] = post_bind_value [where r = "r :: int result" for r]
lemmas post_bind_nat [post_rules] = post_bind_value [where r = "r :: nat result" for r]
lemmas post_bind_str [post_rules] = post_bind_value [where r = "r :: byte list option result" for r]
lemmas post_bind_istr [post_rules] = post_bind_value [where r = "r :: (int \<times> byte list) result" for r]

text \<open>Going to sleep.\<close>

lemma inv_state:
  assumes "rinv D p k" "\<And>q. (p_pid (f q), p_parent (f q), p_ofile (f q), proc_fit (f q)) = (p_pid q, p_parent q, p_ofile q, proc_fit q)" "\<And>q. live (f q)"
  shows "rinv D p (k_updp p f k)"
proof -
  have p: "p < NPROC" "length (procs (kst k)) = NPROC" "live (procs (kst k) ! p)"
    using assms(1) by (auto simp: rinv_def kinv_def proc_inv_def)
  have "pview (f (procs (kst k) ! p)) = pview (procs (kst k) ! p)"
    using assms(2,3) p(3) by (simp add: pview_def live_def)
  then have "map pview ((procs (kst k))[p := f (procs (kst k) ! p)]) = map pview (procs (kst k))"
    by (simp add: map_update) (metis list_update_id map_update)
  then have "same_procs (kst k) (kst (k_updp p f k))" by (simp add: same_procs_def k_updp_def upd_proc_def)
  then show ?thesis using inv_same(2) [of k "k_updp p f k"] assms(1) by (simp add: k_updp_def)
qed

lemma post_block [post_rules]: "rinv D p k \<Longrightarrow> post2 (rinv D p) (block p ch c k)"
proof -
  assume i: "rinv D p k"
  have "rinv D p (k_updp p (\<lambda>q. q\<lparr>p_chan := ch, p_state := SLEEPING\<rparr>) k)"
    by (rule inv_state [OF i]) (simp_all add: live_def)
  then show ?thesis
    by (auto simp: block_def on_ks_def sleep_enter_def sched_check_def post2_def k_updp_def split: if_splits)
qed

section \<open>User copies inside the file layer\<close>

lemma post_either [post_rules]:
  "agree a b \<Longrightarrow> post2 (agree a) (either_copyout u dst bs b)" "agree a b \<Longrightarrow> post3 (agree a) (either_copyin u src n b)"
  unfolding either_copyout_def either_copyin_def by (auto intro!: post_rules split: option.splits)

lemma readi_loop_um:
  "(\<And>a bs m. Q m \<Longrightarrow> post2 Q (cout a bs m)) \<Longrightarrow> Q um \<Longrightarrow>
   readi_loop cout ip dst off n tot um st = Ok (r, um', st') \<Longrightarrow> Q um'"
proof (induction cout ip dst off n tot um st rule: readi_loop.induct)
  case (1 cout ip dst off n tot um st)
  have q: "Q m'" if "cout a bs um = Ok (x, m')" for a bs x m' by (rule postD(2) [OF 1(2) [OF 1(3)] that])
  show ?case
  proof (cases "tot < n")
    case lt: True
    let ?m = "chunk_len n tot off"
    from 1(4) [unfolded readi_loop.simps [of cout ip dst off n tot um st]] lt
    have "um' = um \<or> (\<exists>a bs ok um1 st3. cout a bs um = Ok (ok, um1) \<and>
        (um' = um1 \<or> readi_loop cout ip (dst + ucast ?m) (off + ?m) n (tot + ?m) um1 st3 = Ok (r, um', st')))"
      by (simp add: Let_def split: if_splits) blast
    moreover have "Q um'" if "Q um1" "readi_loop cout ip (dst + ucast ?m) (off + ?m) n (tot + ?m) um1 st3 = Ok (r, um', st')" for um1 st3
      using 1(1) [of 1 ?m True um1 st3] lt that 1(2) by simp
    ultimately show ?thesis using q 1(3) by blast
  qed (use 1(3,4) in \<open>simp add: readi_loop.simps [of cout ip dst off n tot um st]\<close>)
qed

lemma readi_um:
  "(\<And>a bs m. Q m \<Longrightarrow> post2 Q (cout a bs m)) \<Longrightarrow> Q um \<Longrightarrow> readi cout ip dst off n um st = Ok (r, um', st') \<Longrightarrow> Q um'"
  by (auto simp: readi_def Let_def intro: readi_loop_um split: if_splits)

lemma writei_loop_um:
  "(\<And>a l m. Q m \<Longrightarrow> post3 Q (cin a l m)) \<Longrightarrow> Q um \<Longrightarrow>
   writei_loop cin ip src off n tot um st = Ok (t, o1, um', st') \<Longrightarrow> Q um'"
proof (induction cin ip src off n tot um st rule: writei_loop.induct)
  case (1 cin ip src off n tot um st)
  have q: "Q m'" if "cin a l um = Ok (x, y, m')" for a l x y m' by (rule postD(3) [OF 1(2) [OF 1(3)] that])
  show ?case
  proof (cases "tot < n")
    case lt: True
    let ?m = "chunk_len n tot off"
    from 1(4) [unfolded writei_loop.simps [of cin ip src off n tot um st]] lt
    have "um' = um \<or> (\<exists>ok bs um1 st3. cin src (unat ?m) um = Ok (ok, bs, um1) \<and>
        (um' = um1 \<or> writei_loop cin ip (src + ucast ?m) (off + ?m) n (tot + ?m) um1 st3 = Ok (t, o1, um', st')))"
      by (simp add: Let_def split: if_splits) blast
    moreover have "Q um'" if "Q um1" "writei_loop cin ip (src + ucast ?m) (off + ?m) n (tot + ?m) um1 st3 = Ok (t, o1, um', st')" for um1 st3
      using 1(1) [of 1 ?m "fs_bset 0 (patch (unat (off mod of_nat BSIZE)) [] (fs_data 0 st)) st" 0 "[]" st True um1 st3] lt that 1(2) by simp
    ultimately show ?thesis using q 1(3) by blast
  qed (use 1(3,4) in \<open>simp add: writei_loop.simps [of cin ip src off n tot um st]\<close>)
qed

lemma writei_um:
  "(\<And>a l m. Q m \<Longrightarrow> post3 Q (cin a l m)) \<Longrightarrow> Q um \<Longrightarrow> writei cin ip src off n um st = Ok (r, um', st') \<Longrightarrow> Q um'"
  by (auto simp: writei_def Let_def intro: writei_loop_um split: if_splits)

lemma post_readi [post_rules]:
  assumes "rinv D p k" shows "post2 (rinv D p) (k_readi ip dst off n k)" "post2 (rinv D p) (k_writei ip dst off n k)"
proof -
  have "agree (kst k) st" if "readi (either_copyout True) ip dst off n (kst k) (kfs k) = Ok (r, st, s)" for r st s
    by (rule readi_um [OF _ _ that]) (auto intro!: post_rules)
  then show "post2 (rinv D p) (k_readi ip dst off n k)" using assms
    by (auto simp: k_readi_def post2_def inv_kst [of k])
  have "agree (kst k) st" if "writei (either_copyin True) ip dst off n (kst k) (kfs k) = Ok (r, st, s)" for r st s
    by (rule writei_um [OF _ _ that]) (auto intro!: post_rules)
  then show "post2 (rinv D p) (k_writei ip dst off n k)" using assms
    by (auto simp: k_writei_def post2_def inv_kst [of k])
qed

lemma post_pipe_copies:
  "agree a b \<Longrightarrow> post2 (agree a) (pipe_cin pt x b)" "agree a b \<Longrightarrow> post2 (agree a) (pipe_cout pt x ch b)"
  unfolding pipe_cin_def pipe_cout_def by (auto intro!: post_rules)

lemma post_pipewrite_seg: "agree a b \<Longrightarrow> post3 (agree a) (pipewrite_seg (pipe_cin pt) kill addr n i pi b)"
proof (induction "pipe_cin pt" kill addr n i pi b rule: pipewrite_seg.induct)
  case (1 kill addr n i pi b)
  show ?case
    by (subst pipewrite_seg.simps) (use 1 in \<open>auto intro!: post_rules post_pipe_copies split: option.splits\<close>)
qed

lemma post_piperead_seg: "agree a b \<Longrightarrow> post3 (agree a) (piperead_seg (pipe_cout pt) addr n i pi b)"
proof (induction "pipe_cout pt" addr n i pi b rule: piperead_seg.induct)
  case (1 addr n i pi b)
  show ?case
    by (subst piperead_seg.simps) (use 1 in \<open>auto simp: Let_def intro!: post_rules post_pipe_copies\<close>)
qed

text \<open>A call on the kernel state, with other results, inside a kernel call.\<close>

lemma post_bind_ks:
  "post3 (agree (kst k)) r \<Longrightarrow> (\<And>x y st. agree (kst k) st \<Longrightarrow> post2 P (f (x, y, st))) \<Longrightarrow> post2 P (bindR r f)"
  by (auto simp: post2_def post3_def)

lemma post_k_pipes [post_rules]:
  "rinv D p k \<Longrightarrow> post2 (rinv D p) (k_pipewrite p pi addr n i k)" "rinv D p k \<Longrightarrow> post2 (rinv D p) (k_piperead p pi addr n k)"
proof -
  assume i: "rinv D p k"
  show "post2 (rinv D p) (k_pipewrite p pi addr n i k)"
    unfolding k_pipewrite_def
    by (rule post_bind_ks [OF post_pipewrite_seg]) (auto simp: Let_def i inv_kst intro!: post_rules split: segment.splits)
  have "post3 (agree (kst k)) (piperead (pipe_cout pt) kill addr n q (kst k))" for pt kill q
    unfolding piperead_def by (auto intro!: post_piperead_seg post_rules)
  then show "post2 (rinv D p) (k_piperead p pi addr n k)"
    unfolding k_piperead_def Let_def
    by (rule post_bind_ks) (auto simp: i inv_kst intro!: post_rules split: segment.splits)
qed

lemma post_k_pipeclose [post_rules]: "rinv D p k \<Longrightarrow> post1 (rinv D p) (k_pipeclose pi w k)"
  unfolding k_pipeclose_def Let_def by (auto intro!: post_on_ks post_rules split: prod.splits)

lemma post_consoleread: "agree a b \<Longrightarrow> post3 (agree a) (consoleread_loop u kill target dst n cs b)"
proof (induction u kill target dst n cs b rule: consoleread_loop.induct)
  case (1 u kill target dst n cs b)
  show ?case
    by (subst consoleread_loop.simps) (use 1 in \<open>auto simp: Let_def intro!: post_rules\<close>)
qed

lemma post_consolewrite: "agree a b \<Longrightarrow> post3 (agree a) (consolewrite_loop us src n i u b)"
proof (induction us src n i u b rule: consolewrite_loop.induct)
  case (1 us src n i u b)
  have "post3 (agree a) (consolewrite_loop us src n (i + nat (min 32 (n - int i))) u1 s)"
    if "int i < n" "uartwrite bs 0 u = (None, u1)" "agree a s" for bs u1 s
    using 1(1) [of _ True] that that(2) [symmetric] by auto
  with 1 show ?case
    by (subst consolewrite_loop.simps) (use 1 in \<open>auto simp: Let_def intro!: post_rules split: prod.splits option.splits\<close>)
qed

lemma post_k_console [post_rules]:
  assumes i: "rinv D p k"
  shows "post2 (rinv D p) (k_consoleread p target dst n k)" "post2 (rinv D p) (k_consolewrite p src n k)"
    "post2 (rinv D p) (bindR (consolewrite_resume True src n j bs l (kuart k) (kst k)) (\<lambda>r. k_cwrite p src n r k))"
proof -
  show "post2 (rinv D p) (k_consoleread p target dst n k)"
    unfolding k_consoleread_def
    by (rule post_bind_ks [OF post_consoleread]) (auto simp: Let_def i inv_kst intro!: post_rules split: cread.splits)
  have w: "post2 (rinv D p) (k_cwrite p src n (c, u, st) k)" if "agree (kst k) st" for c u st
    using that i by (auto simp: k_cwrite_def Let_def inv_kst intro!: post_rules split: cwrite.splits)
  show "post2 (rinv D p) (k_consolewrite p src n k)"
    unfolding k_consolewrite_def consolewrite_def
    by (rule post_bind_ks [OF post_consolewrite]) (auto intro!: w)
  have "post3 (agree (kst k)) (consolewrite_resume True src n j bs l (kuart k) (kst k))"
    unfolding consolewrite_resume_def by (auto intro!: post_consolewrite split: prod.splits option.splits)
  then show "post2 (rinv D p) (bindR (consolewrite_resume True src n j bs l (kuart k) (kst k)) (\<lambda>r. k_cwrite p src n r k))"
    by (rule post_bind_ks) (auto intro!: w)
qed

section \<open>Reading and writing files\<close>

lemma post_k_iput [post_rules]: "rinv D p k \<Longrightarrow> post1 (rinv D p) (k_iput ip k)"
  unfolding k_iput_def by (auto intro!: post_rules)

lemma post_filestat [post_rules]: "rinv D p k \<Longrightarrow> post2 (rinv D p) (filestat q f addr k)"
  unfolding filestat_def Let_def by (auto intro!: post_rules post_on_ks)

lemma post_fileread [post_rules]: "rinv D p k \<Longrightarrow> post2 (rinv D p) (fileread p f addr n k)"
  unfolding fileread_def Let_def
  by (auto intro!: post_rules inv_upd_file [THEN iffD2] split: fdtype.splits)

lemma post_filewrite_loop [post_rules]: "rinv D p k \<Longrightarrow> post2 (rinv D p) (filewrite_loop f addr n i k)"
proof (induction f addr n i k rule: filewrite_loop.induct)
  case (1 f addr n i k)
  show ?case
    by (subst filewrite_loop.simps) (use 1 in \<open>auto simp: Let_def intro!: post_rules inv_upd_file [THEN iffD2]\<close>)
qed

lemma post_filewrite [post_rules]: "rinv D p k \<Longrightarrow> post2 (rinv D p) (filewrite p f addr n k)"
  unfolding filewrite_def Let_def by (auto intro!: post_rules split: fdtype.splits)

section \<open>References\<close>

text \<open>The kernel takes or gives up a reference to \<open>f\<close> of its own.\<close>

definition hold :: "nat \<Rightarrow> (nat \<Rightarrow> int) \<Rightarrow> nat \<Rightarrow> int" where
  "hold f D g = (if g = f then D g + 1 else D g)"

definition owe :: "nat \<Rightarrow> (nat \<Rightarrow> int) \<Rightarrow> nat \<Rightarrow> int" where
  "owe f D g = (if g = f then D g - 1 else D g)"

lemma hold_owe [simp]: "hold f (owe f D) = D" "owe f (hold f D) = D"
  by (auto simp: hold_def owe_def)

lemma hold_commute: "hold f (hold g D) = hold g (hold f D)" "owe f (owe g D) = owe g (owe f D)" "hold f (owe g D) = owe g (hold f D)"
  by (auto simp: hold_def owe_def)

definition give :: "nat option \<Rightarrow> (nat \<Rightarrow> int) \<Rightarrow> nat \<Rightarrow> int" where
  "give v D = (case v of None \<Rightarrow> D | Some f \<Rightarrow> owe f D)"

definition take_back :: "nat option \<Rightarrow> (nat \<Rightarrow> int) \<Rightarrow> nat \<Rightarrow> int" where
  "take_back v D = (case v of None \<Rightarrow> D | Some f \<Rightarrow> hold f D)"

lemma count_concat_update:
  "i < length xs \<Longrightarrow> int (count (mset (concat (xs[i := y]))) z) =
     int (count (mset (concat xs)) z) - int (count (mset (xs ! i)) z) + int (count (mset y) z)"
proof (induction xs arbitrary: i)
  case (Cons x xs)
  then show ?case by (cases i) auto
qed simp

lemma count_update:
  "i < length xs \<Longrightarrow> int (count (mset (xs[i := y])) z) =
     int (count (mset xs) z) - (if xs ! i = z then 1 else 0) + (if y = z then 1 else 0)"
proof (induction xs arbitrary: i)
  case (Cons x xs)
  show ?case
  proof (cases i)
    case (Suc n)
    then show ?thesis using Cons.IH [of n] Cons.prems by (cases "x = z"; cases "xs ! n = z"; cases "y = z"; simp)
  qed simp
qed simp

definition set_fd :: "nat \<Rightarrow> nat option \<Rightarrow> proc \<Rightarrow> proc" where
  "set_fd fd v q = q\<lparr>p_ofile := (p_ofile q)[fd := v]\<rparr>"

lemma fd_refs_set:
  assumes "i < length ps" "fd < length (p_ofile (ps ! i))"
  shows "fd_refs (ps[i := set_fd fd v (ps ! i)]) f =
    fd_refs ps f - (if p_ofile (ps ! i) ! fd = Some f then 1 else 0) + (if v = Some f then 1 else 0)"
proof -
  have "map p_ofile (ps[i := set_fd fd v (ps ! i)]) = (map p_ofile ps)[i := (p_ofile (ps ! i))[fd := v]]"
    by (simp add: map_update set_fd_def)
  then show ?thesis using assms by (simp add: fd_refs_def count_concat_update count_update)
qed

lemma proc_inv_set_fd:
  assumes inv: "proc_inv st" and p: "p < NPROC" "live (procs st ! p)" and v: "\<And>f. v = Some f \<Longrightarrow> f < NFILE"
  shows "proc_inv (upd_proc p (set_fd fd v) st)"
proof -
  have len: "length (procs st) = NPROC" using inv by (simp add: proc_inv_def)
  have nth: "procs (upd_proc p (set_fd fd v) st) ! i = (if i = p then set_fd fd v (procs st ! p) else procs st ! i)" for i
    using p len by (simp add: upd_proc_def nth_list_update_if)
  have fields: "p_pid (procs (upd_proc p (set_fd fd v) st) ! i) = p_pid (procs st ! i)"
    "p_parent (procs (upd_proc p (set_fd fd v) st) ! i) = p_parent (procs st ! i)"
    "p_state (procs (upd_proc p (set_fd fd v) st) ! i) = p_state (procs st ! i)"
    "live (procs (upd_proc p (set_fd fd v) st) ! i) = live (procs st ! i)"
    "length (p_ofile (procs (upd_proc p (set_fd fd v) st) ! i)) = length (p_ofile (procs st ! i))"
    "proc_fit (procs (upd_proc p (set_fd fd v) st) ! i) = proc_fit (procs st ! i)" for i
    by (simp_all add: nth set_fd_def live_def)
  have files: "f < NFILE" if "i < NPROC" "Some f \<in> set (p_ofile (procs (upd_proc p (set_fd fd v) st) ! i))" for i f
  proof -
    have "Some f \<in> insert v (set (p_ofile (procs st ! i)))"
      using that(2) set_update_subset_insert [of "p_ofile (procs st ! p)" fd v] by (auto simp: nth set_fd_def split: if_splits)
    then show ?thesis using v inv that(1) by (auto simp: proc_inv_def Let_def)
  qed
  have none: "no_files (procs (upd_proc p (set_fd fd v) st) ! i)" if "i < NPROC" "\<not> live (procs st ! i)" for i
    using that p(2) inv by (auto simp: nth proc_inv_def Let_def)
  have rest: "length (procs (upd_proc p (set_fd fd v) st)) = NPROC" "nextpid (upd_proc p (set_fd fd v) st) = nextpid st"
    "initproc (upd_proc p (set_fd fd v) st) = initproc st" "few_pids (upd_proc p (set_fd fd v) st) = few_pids st"
    "pid_count (upd_proc p (set_fd fd v) st) = pid_count st" using len by (simp_all add: upd_proc_def few_pids_def pid_count_def)
  show ?thesis using inv files none unfolding proc_inv_def Let_def rest fields by simp
qed

lemma rinvD:
  assumes "rinv D p k"
  shows "p < NPROC" "length (procs (kst k)) = NPROC" "live (procs (kst k) ! p)" "length (p_ofile (procs (kst k) ! p)) = NOFILE"
    "\<And>fd f. fd < NOFILE \<Longrightarrow> p_ofile (procs (kst k) ! p) ! fd = Some f \<Longrightarrow> f < NFILE" "length (ftable k) = NFILE"
    "proc_inv (kst k)" "prev_i (kq k) < NPROC"
proof -
  show *: "p < NPROC" "length (procs (kst k)) = NPROC" "live (procs (kst k) ! p)" "length (ftable k) = NFILE" "proc_inv (kst k)"
    "prev_i (kq k) < NPROC"
    using assms by (auto simp: rinv_def kinv_def proc_inv_def)
  then show o: "length (p_ofile (procs (kst k) ! p)) = NOFILE" by (auto simp: proc_inv_def Let_def)
  fix fd f assume "fd < NOFILE" "p_ofile (procs (kst k) ! p) ! fd = Some f"
  then have "Some f \<in> set (p_ofile (procs (kst k) ! p))" using o by (metis nth_mem)
  then show "f < NFILE" using * by (auto simp: proc_inv_def Let_def)
qed

lemma rinv_set_fd:
  assumes inv: "rinv D p k" and fd: "fd < NOFILE" and v: "\<And>f. v = Some f \<Longrightarrow> f < NFILE"
  shows "rinv (take_back (p_ofile (procs (kst k) ! p) ! fd) (give v D)) p (k_updp p (set_fd fd v) k)"
proof -
  note d = rinvD [OF inv]
  have "proc_inv (kst (k_updp p (set_fd fd v) k))"
    using proc_inv_set_fd [OF d(7,1,3), of v fd] v by (simp add: k_updp_def)
  moreover have "live (procs (kst (k_updp p (set_fd fd v) k)) ! p)"
    using d by (simp add: k_updp_def upd_proc_def set_fd_def live_def)
  moreover have "fl_ref (ftable k ! f) = fd_refs ((procs (kst k))[p := set_fd fd v (procs (kst k) ! p)]) f
      + take_back (p_ofile (procs (kst k) ! p) ! fd) (give v D) f" if "f < NFILE" for f
  proof -
    have "fl_ref (ftable k ! f) = fd_refs (procs (kst k)) f + D f" using inv that by (simp add: rinv_def kinv_def)
    moreover have "p < length (procs (kst k))" "fd < length (p_ofile (procs (kst k) ! p))" using d fd by simp_all
    ultimately show ?thesis
      by (auto simp: fd_refs_set take_back_def give_def hold_def owe_def split: option.splits)
  qed
  ultimately show ?thesis using d by (simp add: rinv_def kinv_def) (simp add: k_updp_def upd_proc_def)
qed

lemma rinv_ref:
  assumes "rinv D p k" "f < NFILE" "\<And>x. fl_ref (g x) = fl_ref x + d" "\<And>h. D' h = (if h = f then D h + d else D h)"
  shows "rinv D' p (upd_file f g k)"
  using assms rinvD(6) [OF assms(1)] by (auto simp: rinv_def kinv_def upd_file_def nth_list_update)

lemma filealloc_spec:
  assumes "rinv D p k"
  shows "case filealloc k of (None, k') \<Rightarrow> k' = k | (Some f, k') \<Rightarrow> f < NFILE \<and> rinv (hold f D) p k'"
proof (cases "find_index (\<lambda>f. fl_ref f = 0) (ftable k)")
  case (Some i)
  have i: "i < NFILE" "fl_ref (ftable k ! i) = 0" using find_index_SomeD [OF Some] rinvD(6) [OF assms] by auto
  have "rinv (hold i D) p (upd_file i (\<lambda>f. f\<lparr>fl_ref := 1\<rparr>) k)"
    using assms i rinvD(6) [OF assms] by (auto simp: rinv_def kinv_def upd_file_def nth_list_update hold_def)
  with i Some show ?thesis by (simp add: filealloc_def)
qed (simp add: filealloc_def)

lemma post_filedup: "rinv D p k \<Longrightarrow> f < NFILE \<Longrightarrow> post1 (rinv (hold f D) p) (filedup f k)"
  using rinv_ref [of D p k f "\<lambda>f. f\<lparr>fl_ref := fl_ref f + 1\<rparr>" 1 "hold f D"] by (simp add: filedup_def hold_def)

lemma post_fileclose:
  assumes "rinv D p k" "f < NFILE"
  shows "post1 (rinv (owe f D) p) (fileclose f k)"
proof -
  have "rinv (owe f D) p (upd_file f (\<lambda>f. f\<lparr>fl_ref := fl_ref f - 1\<rparr>) k)"
    by (rule rinv_ref [OF assms, of _ "- 1"]) (simp_all add: owe_def)
  moreover have "rinv (owe f D) p (upd_file f (\<lambda>f. f\<lparr>fl_ref := 0, fl_type := FD_NONE\<rparr>) k)" if "fl_ref (ftable k ! f) = 1"
    using assms that rinvD(6) [OF assms(1)] by (auto simp: rinv_def kinv_def upd_file_def nth_list_update owe_def)
  ultimately show ?thesis
    unfolding fileclose_def Let_def by (auto intro!: post_rules split: fdtype.splits)
qed

end
