(* ===== verification/Life.thy ===== *)
theory Life
  imports Kinv
begin

text \<open>
  The life of processes against the kernel's invariant: allocation, fork, exit, wait.
\<close>

section \<open>Replacing one process\<close>

lemma same_refl [simp]: "same_procs a a"
  by (simp add: same_procs_def)

lemma same_trans: "same_procs a b \<Longrightarrow> same_procs b c \<Longrightarrow> same_procs a c"
  by (simp add: same_procs_def)

lemma same_agree: "same_procs a b \<Longrightarrow> agree b c \<Longrightarrow> same_procs a c"
  using same_trans agree_same by blast

definition pview_fun :: "(proc \<Rightarrow> proc) \<Rightarrow> bool" where
  "pview_fun f = (\<forall>q q'. pview q = pview q' \<longrightarrow> pview (f q) = pview (f q'))"

lemma same_upd: "same_procs a b \<Longrightarrow> pview_fun f \<Longrightarrow> same_procs (upd_proc i f a) (upd_proc i f b)"
proof -
  assume s: "same_procs a b" and f: "pview_fun f"
  have v: "map pview (procs b) = map pview (procs a)" using s by (simp add: same_procs_def)
  then have len: "length (procs b) = length (procs a)" by (metis length_map)
  have "map pview ((procs b)[i := f (procs b ! i)]) = map pview ((procs a)[i := f (procs a ! i)])"
  proof (cases "i < length (procs a)")
    case True
    then have "pview (procs b ! i) = pview (procs a ! i)" using v len by (metis nth_map)
    then have "pview (f (procs b ! i)) = pview (f (procs a ! i))" using f unfolding pview_fun_def by blast
    then show ?thesis using v by (simp add: map_update)
  qed (use v len in \<open>simp add: list_update_beyond\<close>)
  then show ?thesis using s by (simp add: same_procs_def upd_proc_def)
qed

lemma same_upd_id: "(\<And>q. pview (f q) = pview q) \<Longrightarrow> same_procs a (upd_proc i f a)"
  by (simp add: same_procs_def upd_proc_def pview_upd)

lemma kinv_same: "same_procs (kst k) st \<Longrightarrow> kinv D (k\<lparr>kst := st\<rparr>) = kinv D k"
  using inv_same(1) [of k "k\<lparr>kst := st\<rparr>"] by simp

lemma fd_refs_same: "map p_ofile ps = map p_ofile qs \<Longrightarrow> fd_refs ps f = fd_refs qs f"
  by (simp add: fd_refs_def)

lemma fd_refs_replace: "p_ofile q = p_ofile (ps ! i) \<Longrightarrow> fd_refs (ps[i := q]) f = fd_refs ps f"
  by (rule fd_refs_same) (metis list_update_id map_update)

lemma few_pids_next:
  assumes "pid_count st" "few_pids st"
  shows "nextpid st = 1 + int (npids st)"
  using assms by (simp add: pid_count_def few_pids_def signed_take_bit_int_eq_self)

lemma proc_invD:
  assumes "proc_inv st" "i < NPROC"
  shows "length (procs st) = NPROC" "length (p_ofile (procs st ! i)) = NOFILE" "\<And>f. Some f \<in> set (p_ofile (procs st ! i)) \<Longrightarrow> f < NFILE"
    "p_state (procs st ! i) = UNUSED \<Longrightarrow> p_pid (procs st ! i) = 0 \<and> p_parent (procs st ! i) = None"
    "\<not> live (procs st ! i) \<Longrightarrow> no_files (procs st ! i)"
    "few_pids st \<Longrightarrow> p_state (procs st ! i) \<noteq> UNUSED \<Longrightarrow> 0 < p_pid (procs st ! i) \<and> p_pid (procs st ! i) < nextpid st"
    "\<And>m. p_parent (procs st ! i) = Some m \<Longrightarrow> m < NPROC \<and> live (procs st ! m)"
    "\<And>m. initproc st = Some m \<Longrightarrow> m < NPROC \<and> live (procs st ! m)"
    "proc_fit (procs st ! i)" "pid_count st"
    "\<And>j. few_pids st \<Longrightarrow> j < NPROC \<Longrightarrow> j \<noteq> i \<Longrightarrow> p_state (procs st ! i) \<noteq> UNUSED \<Longrightarrow> p_state (procs st ! j) \<noteq> UNUSED \<Longrightarrow>
      p_pid (procs st ! j) \<noteq> p_pid (procs st ! i)"
  using assms unfolding proc_inv_def Let_def by blast+

lemma proc_inv_replace:
  assumes inv: "proc_inv st" and i: "i < NPROC"
    and q: "length (p_ofile q) = NOFILE" "\<And>f. Some f \<in> set (p_ofile q) \<Longrightarrow> f < NFILE"
      "p_state q = UNUSED \<Longrightarrow> p_pid q = 0 \<and> p_parent q = None" "\<not> live q \<Longrightarrow> no_files q"
      "n < 2 ^ 31 - 1 \<Longrightarrow> p_state q \<noteq> UNUSED \<Longrightarrow> 0 < p_pid q \<and> p_pid q < np"
      "\<And>m. p_parent q = Some m \<Longrightarrow> m < NPROC \<and> (m \<noteq> i \<or> live q) \<and> live (procs st ! m)" "proc_fit q"
    and uniq: "\<And>j. n < 2 ^ 31 - 1 \<Longrightarrow> p_state q \<noteq> UNUSED \<Longrightarrow> j < NPROC \<Longrightarrow> j \<noteq> i \<Longrightarrow> p_state (procs st ! j) \<noteq> UNUSED \<Longrightarrow>
      p_pid (procs st ! j) \<noteq> p_pid q"
    and dead: "\<And>j. \<not> live q \<Longrightarrow> j < NPROC \<Longrightarrow> j \<noteq> i \<Longrightarrow> p_parent (procs st ! j) \<noteq> Some i" "\<not> live q \<Longrightarrow> initproc st \<noteq> Some i"
    and np: "npids st \<le> n" "np = signed_take_bit 31 (1 + int n)"
  shows "proc_inv (st\<lparr>procs := (procs st)[i := q], nextpid := np, npids := n\<rparr>)"
proof -
  let ?ps = "(procs st)[i := q]" and ?st = "st\<lparr>procs := (procs st)[i := q], nextpid := np, npids := n\<rparr>"
  have len: "length (procs st) = NPROC" using inv by (simp add: proc_inv_def)
  have nth: "?ps ! j = (if j = i then q else procs st ! j)" for j using i len by (simp add: nth_list_update_if)
  have lv: "live (?ps ! m)" if "live (procs st ! m)" "m \<noteq> i \<or> live q" for m using that by (auto simp: nth)
  have few: "few_pids ?st = (n < 2 ^ 31 - 1)" "pid_count ?st" using np(2) by (simp_all add: few_pids_def pid_count_def)
  have le: "few_pids st \<and> nextpid st \<le> np" if "n < 2 ^ 31 - 1"
    using few_pids_next [OF few(2)] few_pids_next [OF proc_invD(10) [OF inv i]] that np(1) few(1) by (simp add: few_pids_def)
  have one: "length (p_ofile (?ps ! j)) = NOFILE \<and> (\<forall>f. Some f \<in> set (p_ofile (?ps ! j)) \<longrightarrow> f < NFILE) \<and>
      (p_state (?ps ! j) = UNUSED \<longrightarrow> p_pid (?ps ! j) = 0 \<and> p_parent (?ps ! j) = None) \<and> (\<not> live (?ps ! j) \<longrightarrow> no_files (?ps ! j)) \<and>
      proc_fit (?ps ! j) \<and> (n < 2 ^ 31 - 1 \<and> p_state (?ps ! j) \<noteq> UNUSED \<longrightarrow> 0 < p_pid (?ps ! j) \<and> p_pid (?ps ! j) < np) \<and>
      (\<forall>m. p_parent (?ps ! j) = Some m \<longrightarrow> m < NPROC \<and> live (?ps ! m))" if j: "j < NPROC" for j
  proof (cases "j = i")
    case True
    then have e: "?ps ! j = q" by (simp add: nth)
    have "m < NPROC \<and> live (?ps ! m)" if "p_parent q = Some m" for m using q(6) [OF that] lv by auto
    then show ?thesis unfolding e using q(1-5,7) by blast
  next
    case False
    then have e: "?ps ! j = procs st ! j" by (simp add: nth)
    note o = proc_invD [OF inv j]
    have "m < NPROC \<and> live (?ps ! m)" if "p_parent (procs st ! j) = Some m" for m
      using o(7) that lv dead(1) [OF _ j False] by (metis)
    moreover have "0 < p_pid (procs st ! j) \<and> p_pid (procs st ! j) < np" if "n < 2 ^ 31 - 1" "p_state (procs st ! j) \<noteq> UNUSED"
      using o(6) le [OF that(1)] that(2) by auto
    ultimately show ?thesis unfolding e using o(2-5,9) by blast
  qed
  have two: "p_pid (?ps ! j) \<noteq> p_pid (?ps ! l)"
    if "n < 2 ^ 31 - 1" "j < NPROC" "l < NPROC" "j \<noteq> l" "p_state (?ps ! j) \<noteq> UNUSED" "p_state (?ps ! l) \<noteq> UNUSED" for j l
    using that proc_invD(11) [OF inv that(3), of j] le [OF that(1)] uniq [OF that(1), of j] uniq [OF that(1), of l] unfolding nth
    by (auto split: if_splits)
  have ini: "m < NPROC \<and> live (?ps ! m)" if "initproc st = Some m" for m
    using that inv dead(2) lv unfolding proc_inv_def by metis
  show ?thesis unfolding proc_inv_def Let_def few(1) using one two ini len few(2) by simp
qed

text \<open>Without a new process id.\<close>

lemma proc_inv_put:
  assumes inv: "proc_inv st" and i: "i < NPROC"
    and q: "length (p_ofile q) = NOFILE" "\<And>f. Some f \<in> set (p_ofile q) \<Longrightarrow> f < NFILE"
      "p_state q = UNUSED \<Longrightarrow> p_pid q = 0 \<and> p_parent q = None" "\<not> live q \<Longrightarrow> no_files q"
      "\<And>m. p_parent q = Some m \<Longrightarrow> m < NPROC \<and> (m \<noteq> i \<or> live q) \<and> live (procs st ! m)" "proc_fit q"
    and pid: "p_state q \<noteq> UNUSED \<Longrightarrow> p_pid q = p_pid (procs st ! i) \<and> p_state (procs st ! i) \<noteq> UNUSED"
    and dead: "\<And>j. \<not> live q \<Longrightarrow> j < NPROC \<Longrightarrow> j \<noteq> i \<Longrightarrow> p_parent (procs st ! j) \<noteq> Some i" "\<not> live q \<Longrightarrow> initproc st \<noteq> Some i"
  shows "proc_inv (st\<lparr>procs := (procs st)[i := q]\<rparr>)"
proof -
  have few: "few_pids st" if "npids st < 2 ^ 31 - 1" using that by (simp add: few_pids_def)
  have "proc_inv (st\<lparr>procs := (procs st)[i := q], nextpid := nextpid st, npids := npids st\<rparr>)"
  proof (rule proc_inv_replace [OF inv i q(1-4) _ q(5,6) _ dead])
    show "0 < p_pid q \<and> p_pid q < nextpid st" if "npids st < 2 ^ 31 - 1" "p_state q \<noteq> UNUSED"
      using proc_invD(6) [OF inv i few [OF that(1)]] pid [OF that(2)] by simp
    show "p_pid (procs st ! j) \<noteq> p_pid q"
      if "npids st < 2 ^ 31 - 1" "p_state q \<noteq> UNUSED" "j < NPROC" "j \<noteq> i" "p_state (procs st ! j) \<noteq> UNUSED" for j
      using proc_invD(11) [OF inv i few [OF that(1)] that(3,4)] pid [OF that(2)] that(5) by simp
    show "nextpid st = signed_take_bit 31 (1 + int (npids st))" using proc_invD(10) [OF inv i] by (simp add: pid_count_def)
  qed simp_all
  then show ?thesis by simp
qed

section \<open>Birth and burial\<close>

definition born :: "nat \<Rightarrow> kstate \<Rightarrow> kstate" where
  "born i st = st\<lparr>procs := (procs st)[i := (procs st ! i)\<lparr>p_level := 0, p_used_ticks := 0, p_total_ticks := [0, 0, 0, 0],
     p_pid := nextpid st, p_state := USED\<rparr>], nextpid := signed_take_bit 31 (nextpid st + 1), npids := Suc (npids st)\<rparr>"

definition bury :: "proc \<Rightarrow> proc" where
  "bury q = q\<lparr>p_pid := 0, p_parent := None, p_state := UNUSED\<rparr>"

lemma pview_fun_bury: "pview_fun bury"
  by (simp add: pview_fun_def pview_def bury_def)

lemma freeproc_view:
  assumes "freeproc i st = Ok st'"
  shows "same_procs (upd_proc i bury st) st'"
proof -
  let ?c = "\<lambda>q. q\<lparr>p_pagetable := 0, p_sz := 0, p_pid := 0, p_parent := None, p_name := (p_name q)[0 := 0], p_chan := NoChan,
      p_killed := 0, p_xstate := 0\<rparr>"
  obtain st1 st3 where 1: "(if p_trapframe (procs st ! i) \<noteq> 0 then k_free (p_trapframe (procs st ! i)) st else Ok st) = Ok st1"
    and 3: "(if p_pagetable (procs (upd_proc i (\<lambda>q. q\<lparr>p_trapframe := 0\<rparr>) st1) ! i) \<noteq> 0
        then proc_freepagetable (p_pagetable (procs (upd_proc i (\<lambda>q. q\<lparr>p_trapframe := 0\<rparr>) st1) ! i))
               (p_sz (procs (upd_proc i (\<lambda>q. q\<lparr>p_trapframe := 0\<rparr>) st1) ! i)) (upd_proc i (\<lambda>q. q\<lparr>p_trapframe := 0\<rparr>) st1)
        else Ok (upd_proc i (\<lambda>q. q\<lparr>p_trapframe := 0\<rparr>) st1)) = Ok st3"
    and st': "st' = upd_proc i (\<lambda>q. q\<lparr>p_state := UNUSED\<rparr>) ((upd_proc i ?c st3)
       \<lparr>frames := map (\<lambda>f. if f_proc f = Some i then f\<lparr>f_used := False, f_proc := None\<rparr> else f) (frames (upd_proc i ?c st3)),
        slots := map (\<lambda>s. if ss_proc s = Some i then s\<lparr>ss_used := False, ss_proc := None\<rparr> else s) (slots (upd_proc i ?c st3))\<rparr>)"
    using assms unfolding freeproc_def Let_def by (simp only: bindR_eq_Ok result.inject) blast
  have "agree st st1" by (rule postD(1) [OF _ 1]) (auto intro!: post_rules)
  then have "same_procs st (upd_proc i (\<lambda>q. q\<lparr>p_trapframe := 0\<rparr>) st1)"
    using same_trans [OF agree_same same_upd_id] by (simp add: pview_def)
  moreover have "agree (upd_proc i (\<lambda>q. q\<lparr>p_trapframe := 0\<rparr>) st1) st3"
    by (rule postD(1) [OF _ 3]) (auto simp: proc_freepagetable_def intro!: post_rules)
  ultimately have s: "same_procs st st3" by (rule same_agree)
  have "map pview (procs st') = map pview (procs (upd_proc i bury st3))"
    unfolding st' by (cases "i < length (procs st3)") (simp_all add: upd_proc_def map_update pview_def bury_def list_update_beyond)
  then have "same_procs (upd_proc i bury st3) st'" by (simp add: same_procs_def st' upd_proc_def)
  with same_upd [OF s pview_fun_bury] show ?thesis by (rule same_trans)
qed

lemma kinv_bury:
  assumes inv: "kinv D k" and i: "i < NPROC" and nf: "no_files (procs (kst k) ! i)"
    and ch: "\<And>j. j < NPROC \<Longrightarrow> p_parent (procs (kst k) ! j) \<noteq> Some i" and ini: "initproc (kst k) \<noteq> Some i"
    and f: "freeproc i (kst k) = Ok st'"
  shows "kinv D (k\<lparr>kst := st'\<rparr>)"
proof -
  have pi: "proc_inv (kst k)" using inv by (simp add: kinv_def)
  have "proc_inv ((kst k)\<lparr>procs := (procs (kst k))[i := bury (procs (kst k) ! i)]\<rparr>)"
  proof (rule proc_inv_put [OF pi i])
    note d = proc_invD [OF pi i]
    show "length (p_ofile (bury (procs (kst k) ! i))) = NOFILE" "\<And>f. Some f \<in> set (p_ofile (bury (procs (kst k) ! i))) \<Longrightarrow> f < NFILE"
      using d(2,3) by (simp_all add: bury_def)
    show "no_files (bury (procs (kst k) ! i))" using nf by (simp add: bury_def no_files_def)
    show "p_parent (procs (kst k) ! j) \<noteq> Some i" if "j < NPROC" for j by (rule ch [OF that])
    show "initproc (kst k) \<noteq> Some i" by (rule ini)
    show "proc_fit (bury (procs (kst k) ! i))" using d(9) by (simp add: bury_def)
  qed (simp_all add: bury_def)
  then have "proc_inv (upd_proc i bury (kst k))" by (simp add: upd_proc_def)
  then have "kinv D (k\<lparr>kst := upd_proc i bury (kst k)\<rparr>)"
    using inv by (simp add: kinv_def upd_proc_def fd_refs_replace bury_def)
  then show ?thesis using kinv_same [of "k\<lparr>kst := upd_proc i bury (kst k)\<rparr>" st' D] freeproc_view [OF f] by simp
qed

lemma wrap_Suc: "signed_take_bit 31 (signed_take_bit 31 (1 + int n) + 1) = signed_take_bit 31 (1 + int (Suc n))"
  using signed_take_bit_add [of 31 "1 + int n" 1] by (simp add: algebra_simps)

lemma kinv_born:
  assumes inv: "kinv D k" and i: "i < NPROC" "p_state (procs (kst k) ! i) = UNUSED"
  shows "kinv D (k\<lparr>kst := born i (kst k)\<rparr>)"
proof -
  have pi: "proc_inv (kst k)" using inv by (simp add: kinv_def)
  note d = proc_invD [OF pi i(1)]
  let ?q = "(procs (kst k) ! i)\<lparr>p_level := 0, p_used_ticks := 0, p_total_ticks := [0, 0, 0, 0], p_pid := nextpid (kst k), p_state := USED\<rparr>"
  have nx: "few_pids (kst k) \<and> nextpid (kst k) = 1 + int (npids (kst k)) \<and> signed_take_bit 31 (2 + int (npids (kst k))) = 2 + int (npids (kst k))"
    if "Suc (npids (kst k)) < 2 ^ 31 - 1"
    using few_pids_next [OF d(10)] that by (simp add: few_pids_def signed_take_bit_int_eq_self)
  have "proc_inv (born i (kst k))" unfolding born_def
  proof (rule proc_inv_replace [OF pi i(1)])
    show "length (p_ofile ?q) = NOFILE" "\<And>f. Some f \<in> set (p_ofile ?q) \<Longrightarrow> f < NFILE" using d(2,3) by simp_all
    show "0 < p_pid ?q \<and> p_pid ?q < signed_take_bit 31 (nextpid (kst k) + 1)" if "Suc (npids (kst k)) < 2 ^ 31 - 1"
      using nx [OF that] by simp
    show "m < NPROC \<and> (m \<noteq> i \<or> live ?q) \<and> live (procs (kst k) ! m)" if "p_parent ?q = Some m" for m
      using that d(4) [OF i(2)] by simp
    show "p_pid (procs (kst k) ! j) \<noteq> p_pid ?q"
      if "Suc (npids (kst k)) < 2 ^ 31 - 1" "j < NPROC" "p_state (procs (kst k) ! j) \<noteq> UNUSED" for j
      using proc_invD(6) [OF pi that(2) _ that(3)] nx [OF that(1)] by simp
    show "proc_fit ?q" by (simp add: proc_fit_def proc_ok_def)
    show "signed_take_bit 31 (nextpid (kst k) + 1) = signed_take_bit 31 (1 + int (Suc (npids (kst k))))"
      using d(10) unfolding pid_count_def by (simp only: wrap_Suc)
  qed (simp_all add: live_def)
  then show ?thesis using inv by (simp add: kinv_def) (simp add: born_def fd_refs_replace)
qed

definition fresh_proc :: "nat \<Rightarrow> kstate \<Rightarrow> bool" where
  "fresh_proc i st = (i < NPROC \<and> live (procs st ! i) \<and> p_parent (procs st ! i) = None \<and> no_files (procs st ! i) \<and>
     initproc st \<noteq> Some i \<and> (\<forall>j<NPROC. p_parent (procs st ! j) \<noteq> Some i))"

lemma same_fresh: "same_procs a b \<Longrightarrow> length (procs a) = NPROC \<Longrightarrow> fresh_proc i a \<Longrightarrow> fresh_proc i b"
  using pview_fields(3) [of "procs b" "procs a"] by (simp add: fresh_proc_def same_procs_def)

lemma born_fresh:
  assumes pi: "proc_inv st" and i: "i < NPROC" "p_state (procs st ! i) = UNUSED"
  shows "fresh_proc i (born i st)"
proof -
  note d = proc_invD [OF pi i(1)]
  have nl: "\<not> live (procs st ! i)" using i(2) by (simp add: live_def)
  have "p_parent (procs st ! j) \<noteq> Some i" if "j < NPROC" for j using proc_invD(7) [OF pi that] nl by blast
  moreover have "initproc st \<noteq> Some i" using d(8) nl by blast
  ultimately show ?thesis using i d(1) d(4) [OF i(2)] d(5) [OF nl]
    by (auto simp: fresh_proc_def born_def live_def no_files_def nth_list_update)
qed

lemma kp_proc_pagetable [post_rules]: "agree a b \<Longrightarrow> post2 (agree a) (proc_pagetable p b)"
  unfolding proc_pagetable_def Let_def by (auto intro!: post_rules split: prod.splits)

lemma allocproc_cases:
  assumes "allocproc st = Ok (r, st')" "length (procs st) = NPROC"
  obtains "r = None" "st' = st"
  | i stA where "i < NPROC" "p_state (procs st ! i) = UNUSED" "same_procs (born i st) stA"
      "r = Some i \<and> st' = stA \<or> r = None \<and> freeproc i stA = Ok st'"
proof (cases "find_index (\<lambda>q. p_state q = UNUSED) (procs st)")
  case None
  then show ?thesis using assms that(1) by (simp add: allocproc_def)
next
  case (Some i)
  have i: "i < NPROC" "p_state (procs st ! i) = UNUSED" using find_index_SomeD [OF Some] assms(2) by simp_all
  define st3 where "st3 = upd_proc i (\<lambda>q. q\<lparr>p_pid := nextpid st, p_state := USED, p_syscount := 0\<rparr>)
     ((upd_proc i (\<lambda>q. q\<lparr>p_level := 0, p_used_ticks := 0, p_times_scheduled := 0, p_slice_start := 0,
                p_total_ticks := [0, 0, 0, 0], p_page_faults := 0, p_pages_evicted := 0, p_pages_swapped_in := 0,
                p_pages_swapped_out := 0, p_resident := 0, p_disk_reads := 0, p_disk_writes := 0,
                p_total_latency := 0, p_disk_ops := 0\<rparr>) st)\<lparr>nextpid := signed_take_bit 31 (nextpid st + 1), npids := Suc (npids st)\<rparr>)"
  obtain tf st4 where al: "k_alloc st3 = (tf, st4)" by fastforce
  define st5 where "st5 = upd_proc i (\<lambda>q. q\<lparr>p_trapframe := tf\<rparr>) st4"
  have "same_procs (born i st) st3"
    using i assms(2) by (simp add: same_procs_def st3_def born_def upd_proc_def map_update pview_def proc_fit_def proc_ok_def)
  moreover have "agree st3 st4" using al by simp
  moreover have "same_procs st4 st5" unfolding st5_def by (rule same_upd_id) (simp add: pview_def)
  ultimately have s5: "same_procs (born i st) st5" using same_agree same_trans by blast
  have np: "nextpid (upd_proc i f st) = nextpid st" "npids (upd_proc i f st) = npids st" for f by (simp_all add: upd_proc_def)
  have run: "(if tf = 0 then bindR (freeproc i st5) (\<lambda>st6. Ok (None, st6))
      else bindR (proc_pagetable i st5) (\<lambda>(pt, st6).
        let st7 = upd_proc i (\<lambda>q. q\<lparr>p_pagetable := pt\<rparr>) st6 in
        if pt = 0 then bindR (freeproc i st7) (\<lambda>st8. Ok (None, st8))
        else Ok (Some i, upd_proc i (\<lambda>q. q\<lparr>p_context := [forkret_addr st7, p_kstack q + of_nat PGSIZE] @ replicate 12 0\<rparr>) st7))) = Ok (r, st')"
    using assms(1) al unfolding allocproc_def Some allocpid_def Let_def st5_def st3_def by (simp add: np)
  show ?thesis
  proof (cases "tf = 0")
    case True
    then show ?thesis using run that(2) [OF i s5] by auto
  next
    case False
    then obtain pt st6 where pt: "proc_pagetable i st5 = Ok (pt, st6)"
      and rest: "(let st7 = upd_proc i (\<lambda>q. q\<lparr>p_pagetable := pt\<rparr>) st6 in
        if pt = 0 then bindR (freeproc i st7) (\<lambda>st8. Ok (None, st8))
        else Ok (Some i, upd_proc i (\<lambda>q. q\<lparr>p_context := [forkret_addr st7, p_kstack q + of_nat PGSIZE] @ replicate 12 0\<rparr>) st7)) = Ok (r, st')"
      using run by auto
    have "agree st5 st6" by (rule postD(2) [OF _ pt]) (auto intro!: post_rules)
    then have s7: "same_procs (born i st) (upd_proc i (\<lambda>q. q\<lparr>p_pagetable := pt\<rparr>) st6)"
      using same_trans [OF same_agree [OF s5] same_upd_id] by (simp add: pview_def)
    show ?thesis
    proof (cases "pt = 0")
      case True
      then show ?thesis using rest that(2) [OF i s7] by (auto simp: Let_def)
    next
      case False
      have "same_procs (born i st) st'" using rest False same_trans [OF s7 same_upd_id] by (auto simp: Let_def pview_def)
      then show ?thesis using rest False that(2) [OF i] by (auto simp: Let_def)
    qed
  qed
qed

lemma allocproc_kinv:
  assumes inv: "rinv D p k" and run: "allocproc (kst k) = Ok (r, st')"
  shows "rinv D p (k\<lparr>kst := st'\<rparr>) \<and> (\<forall>i. r = Some i \<longrightarrow> i \<noteq> p \<and> fresh_proc i st')"
proof -
  have pi: "proc_inv (kst k)" "kinv D k" "p < NPROC" "live (procs (kst k) ! p)" "length (procs (kst k)) = NPROC"
    using inv by (auto simp: rinv_def kinv_def proc_inv_def)
  from allocproc_cases [OF run pi(5)] show ?thesis
  proof cases
    case 1
    then show ?thesis using inv by simp
  next
    case (2 i stA)
    have ne: "i \<noteq> p" using 2(2) pi(4) by (auto simp: live_def)
    have kb: "kinv D (k\<lparr>kst := born i (kst k)\<rparr>)" by (rule kinv_born [OF pi(2) 2(1,2)])
    then have ka: "kinv D (k\<lparr>kst := stA\<rparr>)" using kinv_same [of "k\<lparr>kst := born i (kst k)\<rparr>" stA D] 2(3) by simp
    have lb: "length (procs (born i (kst k))) = NPROC" using pi(5) by (simp add: born_def)
    have "live (procs (born i (kst k)) ! p)" using pi ne by (simp add: born_def)
    then have lA: "live (procs stA ! p)" using pview_fields(3) [of "procs stA" "procs (born i (kst k))" p] 2(3) lb pi(3) by (simp add: same_procs_def)
    have fr: "fresh_proc i stA" by (rule same_fresh [OF 2(3) lb born_fresh [OF pi(1) 2(1,2)]])
    have la: "length (procs stA) = NPROC" using ka by (simp add: kinv_def proc_inv_def)
    from 2(4) show ?thesis
    proof (elim disjE conjE)
      assume "r = Some i" "st' = stA"
      then show ?thesis using ka pi(3) lA ne fr by (simp add: rinv_def)
    next
      assume r: "r = None" "freeproc i stA = Ok st'"
      have "kinv D (k\<lparr>kst := stA, kst := st'\<rparr>)"
        by (rule kinv_bury [OF ka 2(1)]) (use fr r(2) in \<open>auto simp: fresh_proc_def\<close>)
      moreover have "live (procs st' ! p)"
        using pview_fields(3) [of "procs st'" "procs (upd_proc i bury stA)" p] freeproc_view [OF r(2)] la pi(3) lA ne
        by (simp add: same_procs_def upd_proc_def)
      ultimately show ?thesis using r pi(3) by (simp add: rinv_def)
    qed
  qed
qed

section \<open>Fork\<close>

lemma rinv_iff: "rinv D p k \<longleftrightarrow> kinv D k \<and> p < NPROC \<and> live (procs (kst k) ! p)"
  by (simp add: rinv_def)

text \<open>A free descriptor of process \<open>q\<close> takes over a reference the kernel holds.\<close>

lemma rinv_fill:
  assumes inv: "rinv (hold f D) q k" and fd: "fd < NOFILE" and f: "f < NFILE" and free: "p_ofile (procs (kst k) ! q) ! fd = None"
  shows "rinv D q (k_updp q (set_fd fd (Some f)) k)"
  using rinv_set_fd [OF inv fd, of "Some f"] f free by (simp add: take_back_def give_def)

text \<open>A descriptor that is cleared leaves its reference with the kernel.\<close>

lemma rinv_clear:
  assumes inv: "rinv D q k" and fd: "fd < NOFILE" and f: "p_ofile (procs (kst k) ! q) ! fd = Some f"
  shows "rinv (hold f D) q (k_updp q (set_fd fd None) k)"
  using rinv_set_fd [OF inv fd, of None] f by (simp add: take_back_def give_def)

lemma live_set_fd: "live (procs (kst (k_updp q (set_fd fd v) k)) ! p) = live (procs (kst k) ! p)"
  by (cases "p = q \<and> q < length (procs (kst k))")
    (auto simp: k_updp_def upd_proc_def set_fd_def live_def nth_list_update list_update_beyond)

lemma rinv_other: "rinv D q k \<Longrightarrow> p < NPROC \<Longrightarrow> live (procs (kst k) ! p) \<Longrightarrow> rinv D p k"
  by (simp add: rinv_def)

lemma fold_set_fd: "(\<lambda>q. q\<lparr>p_ofile := (p_ofile q)[fd := v]\<rparr>) = set_fd fd v"
  by (simp add: fun_eq_iff set_fd_def)

lemma filedup_frame: "post1 (\<lambda>k'. kst k' = kst k) (filedup f k)"
  by (simp add: filedup_def upd_file_def)

lemma post_fork_file:
  assumes p: "rinv D p k" and np: "rinv D np k" and i: "i < NOFILE" and free: "p_ofile (procs (kst k) ! np) ! i = None"
  shows "post1 (\<lambda>k'. rinv D p k' \<and> rinv D np k' \<and>
    (\<forall>j. j \<noteq> i \<longrightarrow> p_ofile (procs (kst k') ! np) ! j = p_ofile (procs (kst k) ! np) ! j)) (fork_file p np i k)"
proof (cases "p_ofile (procs (kst k) ! p) ! i")
  case None
  then show ?thesis using p np by (simp add: fork_file_def k_procs_def)
next
  case (Some f)
  have f: "f < NFILE" using rinvD(5) [OF p i Some] .
  have "rinv D p (k_updp np (set_fd i (Some f)) k1) \<and> rinv D np (k_updp np (set_fd i (Some f)) k1) \<and>
      (\<forall>j. j \<noteq> i \<longrightarrow> p_ofile (procs (kst (k_updp np (set_fd i (Some f)) k1)) ! np) ! j = p_ofile (procs (kst k) ! np) ! j)"
    if run: "filedup f k = Ok k1" for k1
  proof -
    have kst: "kst k1 = kst k" by (rule postD(1) [OF filedup_frame run])
    have "rinv (hold f D) np k1" by (rule postD(1) [OF post_filedup [OF np f] run])
    then have r: "rinv D np (k_updp np (set_fd i (Some f)) k1)" by (rule rinv_fill [OF _ i f]) (simp add: kst free)
    have "rinv D p (k_updp np (set_fd i (Some f)) k1)"
      by (rule rinv_other [OF r]) (use rinvD [OF p] in \<open>simp_all add: live_set_fd kst\<close>)
    then show ?thesis using r rinvD [OF np] by (simp add: k_updp_def upd_proc_def kst set_fd_def)
  qed
  then show ?thesis by (simp add: fork_file_def k_procs_def Some fold_set_fd post1_def) blast
qed

lemma post_fork_files:
  assumes "rinv D p k" "rinv D np k" "distinct l" "\<And>i. i \<in> set l \<Longrightarrow> i < NOFILE \<and> p_ofile (procs (kst k) ! np) ! i = None"
  shows "post1 (\<lambda>k'. rinv D p k' \<and> rinv D np k') (forR (fork_file p np) l k)"
  using assms
proof (induction l arbitrary: k)
  case (Cons i l)
  note s = post_fork_file [OF Cons.prems(1,2), of i]
  have "post1 (\<lambda>k'. rinv D p k' \<and> rinv D np k') (forR (fork_file p np) l k1)" if "fork_file p np i k = Ok k1" for k1
  proof (rule Cons.IH)
    note t = postD(1) [OF s that]
    show "rinv D p k1" "rinv D np k1" using t Cons.prems(4) by auto
    show "j < NOFILE \<and> p_ofile (procs (kst k1) ! np) ! j = None" if "j \<in> set l" for j
      using t Cons.prems(3,4) that by (metis distinct.simps(2) list.set_intros)
  qed (use Cons.prems(3) in simp)
  then show ?case by (auto simp: post1_def)
qed simp

text \<open>A new process gets its parent.\<close>

lemma rinv_adopt:
  assumes inv: "rinv D p k" and np: "np < NPROC" "live (procs (kst k) ! np)" "np \<noteq> p"
  shows "rinv D p (k_updp np (\<lambda>q. q\<lparr>p_parent := Some p, p_state := RUNNABLE\<rparr>) k)"
proof -
  let ?q = "(procs (kst k) ! np)\<lparr>p_parent := Some p, p_state := RUNNABLE\<rparr>"
  note d = rinvD [OF inv] and e = proc_invD [OF rinvD(7) [OF inv] np(1)]
  have "proc_inv ((kst k)\<lparr>procs := (procs (kst k))[np := ?q]\<rparr>)"
  proof (rule proc_inv_put [OF d(7) np(1)])
    show "length (p_ofile ?q) = NOFILE" "\<And>f. Some f \<in> set (p_ofile ?q) \<Longrightarrow> f < NFILE" using e(2,3) by simp_all
    show "m < NPROC \<and> (m \<noteq> np \<or> live ?q) \<and> live (procs (kst k) ! m)" if "p_parent ?q = Some m" for m using that d np(3) by simp
    show "proc_fit ?q" using e(9) by simp
    show "p_pid ?q = p_pid (procs (kst k) ! np) \<and> p_state (procs (kst k) ! np) \<noteq> UNUSED" using np(2) by (simp add: live_def)
  qed (simp_all add: live_def)
  then show ?thesis using inv d(2,3) np(3) by (simp add: rinv_def kinv_def k_updp_def upd_proc_def fd_refs_replace)
qed

lemma rinv_bury:
  assumes inv: "rinv D p k" and ne: "i \<noteq> p" and fr: "fresh_proc i (kst k) \<or> i < NPROC \<and> p_state (procs (kst k) ! i) = ZOMBIE"
    and run: "freeproc i (kst k) = Ok st'"
  shows "rinv D p (k\<lparr>kst := st'\<rparr>)"
proof -
  note d = rinvD [OF inv]
  have "i < NPROC \<and> no_files (procs (kst k) ! i) \<and> (\<forall>j<NPROC. p_parent (procs (kst k) ! j) \<noteq> Some i) \<and> initproc (kst k) \<noteq> Some i"
    using fr
  proof
    assume z: "i < NPROC \<and> p_state (procs (kst k) ! i) = ZOMBIE"
    then have nl: "\<not> live (procs (kst k) ! i)" by (simp add: live_def)
    then show ?thesis using z proc_invD(5,8) [OF d(7), of i] proc_invD(7) [OF d(7)] by blast
  qed (simp add: fresh_proc_def)
  then have "kinv D (k\<lparr>kst := st'\<rparr>)" using kinv_bury [OF _ _ _ _ _ run] inv by (simp add: rinv_def)
  moreover have "live (procs st' ! p)"
    using pview_fields(3) [of "procs st'" "procs (upd_proc i bury (kst k))" p] freeproc_view [OF run] d ne
    by (simp add: same_procs_def upd_proc_def)
  ultimately show ?thesis using d by (simp add: rinv_def)
qed

lemma rinv_view: "same_procs (kst k) st \<Longrightarrow> rinv D p (k\<lparr>kst := st\<rparr>) = rinv D p k"
  using inv_same(2) [of k "k\<lparr>kst := st\<rparr>"] by simp

lemma fresh_rinv: "rinv D p k \<Longrightarrow> fresh_proc i (kst k) \<Longrightarrow> rinv D i k"
  by (simp add: rinv_def fresh_proc_def)

text \<open>Sequencing with different conditions on the states between.\<close>

lemma post_seq:
  "post1 Q r \<Longrightarrow> (\<And>s. Q s \<Longrightarrow> post1 P (f1 s)) \<Longrightarrow> post1 P (bindR r f1)"
  "post1 Q r \<Longrightarrow> (\<And>s. Q s \<Longrightarrow> post2 P (f2 s)) \<Longrightarrow> post2 P (bindR r f2)"
  "post2 Q q \<Longrightarrow> (\<And>x s. Q s \<Longrightarrow> post2 P (g2 (x, s))) \<Longrightarrow> post2 P (bindR q g2)"
  "(\<And>x s. q = Ok (x, s) \<Longrightarrow> post2 P (g2 (x, s))) \<Longrightarrow> post2 P (bindR q g2)"
  "post2 Q q \<Longrightarrow> (\<And>x s. Q s \<Longrightarrow> post1 P (g1 (x, s))) \<Longrightarrow> post1 P (bindR q g1)"
  by (auto simp: post1_def post2_def)

lemma rinv_final:
  assumes "rinv D p k" "rinv D np k" "np \<noteq> p"
  shows "rinv D p ((k_updp np (\<lambda>q. q\<lparr>p_parent := Some p, p_state := RUNNABLE\<rparr>)
    (k_updp np (\<lambda>q. q\<lparr>p_cwd := c, p_name := safestrcpy_list (p_name q) nm 16\<rparr>) (k\<lparr>fsy := s\<rparr>))))"
proof -
  let ?k = "k_updp np (\<lambda>q. q\<lparr>p_cwd := c, p_name := safestrcpy_list (p_name q) nm 16\<rparr>) (k\<lparr>fsy := s\<rparr>)"
  have "rinv D p ?k" "rinv D np ?k" using assms by (simp_all add: inv_updp pview_def)
  then show ?thesis using assms(3) by (simp add: rinv_adopt rinvD)
qed

lemma post_fork_fresh:
  assumes inv: "rinv D p k" and fr: "fresh_proc np (kst k)"
  shows "post1 (\<lambda>k'. rinv D p k' \<and> rinv D np k') (forR (fork_file p np) [0..<NOFILE] k)"
proof (rule post_fork_files)
  show rn: "rinv D np k" using inv fr fresh_rinv by blast
  show "i < NOFILE \<and> p_ofile (procs (kst k) ! np) ! i = None" if "i \<in> set [0..<NOFILE]" for i
    using that fr rinvD(4) [OF rn] by (auto simp: fresh_proc_def no_files_def)
qed (simp_all add: inv)

lemma post_kfork: "rinv D p k \<Longrightarrow> post2 (rinv D p) (kfork p k)"
proof -
  assume inv: "rinv D p k"
  let ?F = "\<lambda>np k. rinv D p k \<and> np \<noteq> p \<and> fresh_proc np (kst k)"
  have fv: "?F np (k1\<lparr>kst := st\<rparr>)" if "?F np k1" "same_procs (kst k1) st" for np k1 st
    using that same_fresh [OF that(2) rinvD(2) [of D p]] by (simp add: rinv_view)
  have fu: "?F np (k_updp i f k1)" if "?F np k1" "\<And>q. pview (f q) = pview q" for np k1 i f
    using fv [OF that(1) same_upd_id [OF that(2)]] by (simp add: k_updp_def)
  have alloc: "case r of None \<Rightarrow> rinv D p k1 | Some np \<Rightarrow> ?F np k1" if "on_ksv allocproc k = Ok (r, k1)" for r k1
    using allocproc_kinv [OF inv] that by (auto simp: on_ksv_def split: option.split)
  have copy: "post2 (?F np) (on_ksv (uvmcopy old new sz (Some np)) k1)" if "?F np k1" for np k1 old new sz
    using fv [OF that agree_same] kp_uvmcopy [of "kst k1" "kst k1"] by (auto simp: on_ksv_def post2_def)
  have undo: "post2 (rinv D p) (bindR (on_ks (freeproc np) k2) (\<lambda>k3. Ok (-1, k3)))" if "?F np k2" for np k2
    using rinv_bury that by (auto simp: on_ks_def post2_def)
  have fill: "post2 (rinv D p) (bindR (forR (fork_file p np) [0..<NOFILE] k5) (\<lambda>k6.
              case p_cwd (k_procs k6 ! p) of None \<Rightarrow> Panic ''kfork: null cwd''
              | Some c \<Rightarrow>
                  let (c1, s) = idup c (kfs k6);
                      k7 = k_updp np (\<lambda>q. q\<lparr>p_cwd := Some c1, p_name := safestrcpy_list (p_name q) (p_name (k_procs k6 ! p)) 16\<rparr>)
                             (k6\<lparr>fsy := s\<rparr>)
                  in Ok (p_pid (k_procs k7 ! np),
                     (k_updp np (\<lambda>q. q\<lparr>p_parent := Some p, p_state := RUNNABLE\<rparr>) k7)\<lparr>konts := (konts k7)(np := Some KFork)\<rparr>)))"
    if "?F np k5" for np k5
    using that by (intro post_seq(2) [OF post_fork_fresh]) (auto simp: Let_def rinv_final split: option.split prod.split)
  have tf: "?F np (tf_set np i v (k1\<lparr>kst := k_write x bs (kst k1)\<rparr>))" if "?F np k1" for np i v k1 x bs
    using fv [OF that, of "kst (tf_set np i v (k1\<lparr>kst := k_write x bs (kst k1)\<rparr>))"]
    by (simp add: tf_set_def same_procs_def k_store_def k_write_def)
  have branch: "post2 (rinv D p) (case r of None \<Rightarrow> Ok (-1, k1) | Some np \<Rightarrow> b np)"
    if "on_ksv allocproc k = Ok (r, k1)" "\<And>np. ?F np k1 \<Longrightarrow> post2 (rinv D p) (b np)" for r k1 b
    using alloc [OF that(1)] that(2) by (auto split: option.splits)
  show ?thesis
    unfolding kfork_def
    apply (rule post_seq(4), unfold prod.case, erule branch)
    apply (rule post_seq(3) [OF copy], assumption, unfold prod.case Let_def)
    apply (rule post_if(2), erule undo)
    apply (rule fill [unfolded Let_def], rule tf, erule fu)
    apply (simp add: pview_def)
    done
qed

section \<open>Exit\<close>

lemma wakeup_same: "same_procs a b \<Longrightarrow> same_procs a (wakeup ch b)"
proof -
  have "map pview (procs (wakeup ch b)) = map pview (procs b)"
    by (rule nth_equalityI) (simp_all add: wakeup_def Let_def pview_def)
  then show "same_procs a b \<Longrightarrow> same_procs a (wakeup ch b)" by (simp add: same_procs_def wakeup_def)
qed

lemma fileclose_view: "post1 (\<lambda>k'. same_procs (kst k) (kst k')) (fileclose f k)"
proof -
  have fs: "post1 (\<lambda>k'. same_procs a (kst k')) (on_fs g k1)" if "same_procs a (kst k1)" for a g k1
    using that by (auto simp: on_fs_def post1_def)
  have fr: "post1 (\<lambda>k'. same_procs a (kst k')) (on_ks (k_free x) k1)" if "same_procs a (kst k1)" for a x k1
    using that same_agree [OF that postD(1) [OF kp_calls(1) [OF keeps_refl]]] by (auto simp: on_ks_def post1_def)
  have pc: "post1 (\<lambda>k'. same_procs a (kst k')) (k_pipeclose pi w k1)" if "same_procs a (kst k1)" for a pi w k1
    using that unfolding k_pipeclose_def Let_def
    by (auto intro!: fr wakeup_same simp: k_wakeup_def split: prod.splits)
  show ?thesis
    unfolding fileclose_def Let_def k_iput_def
    by (auto intro!: post_rules fs pc simp: upd_file_def split: fdtype.splits)
qed

lemma post_exit_file:
  assumes inv: "rinv D p k" and fd: "fd < NOFILE"
  shows "post1 (\<lambda>k'. rinv D p k' \<and> initproc (kst k') = initproc (kst k) \<and>
    p_ofile (procs (kst k') ! p) = (p_ofile (procs (kst k) ! p))[fd := None]) (exit_file p fd k)"
proof (cases "p_ofile (procs (kst k) ! p) ! fd")
  case None
  then show ?thesis using inv by (simp add: exit_file_def k_procs_def) (metis list_update_id)
next
  case (Some f)
  note d = rinvD [OF inv]
  have "rinv D p (k_updp p (set_fd fd None) k1) \<and> initproc (kst (k_updp p (set_fd fd None) k1)) = initproc (kst k) \<and>
      p_ofile (procs (kst (k_updp p (set_fd fd None) k1)) ! p) = (p_ofile (procs (kst k) ! p))[fd := None]"
    if run: "fileclose f k = Ok k1" for k1
  proof -
    have v: "same_procs (kst k) (kst k1)" by (rule postD(1) [OF fileclose_view run])
    then have o: "p_ofile (procs (kst k1) ! p) = p_ofile (procs (kst k) ! p)" "length (procs (kst k1)) = NPROC"
      using pview_fields(1) [of "procs (kst k1)" "procs (kst k)"] pview_fields(3) [of "procs (kst k1)" "procs (kst k)" p] d
      by (simp_all add: same_procs_def)
    have "rinv (owe f D) p k1" by (rule postD(1) [OF post_fileclose [OF inv d(5) [OF fd Some]] run])
    then have "rinv (hold f (owe f D)) p (k_updp p (set_fd fd None) k1)" by (rule rinv_clear [OF _ fd]) (simp add: o Some)
    then show ?thesis using v o d by (simp add: k_updp_def upd_proc_def set_fd_def same_procs_def)
  qed
  then show ?thesis by (simp add: exit_file_def k_procs_def Some fold_set_fd post1_def) blast
qed

lemma post_exit_files:
  assumes "rinv D p k" "\<And>fd. fd \<in> set l \<Longrightarrow> fd < NOFILE"
  shows "post1 (\<lambda>k'. rinv D p k' \<and> initproc (kst k') = initproc (kst k) \<and>
    (\<forall>fd. fd \<in> set l \<or> p_ofile (procs (kst k) ! p) ! fd = None \<longrightarrow> fd < NOFILE \<longrightarrow> p_ofile (procs (kst k') ! p) ! fd = None)) (forR (exit_file p) l k)"
  using assms
proof (induction l arbitrary: k)
  case (Cons i l)
  have i: "i < NOFILE" using Cons.prems(2) by simp
  note s = post_exit_file [OF Cons.prems(1) i] and len = rinvD(4) [OF Cons.prems(1)]
  show ?case
    unfolding forR.simps
  proof (rule post_seq(1) [OF s], elim conjE)
    fix k1 assume k1: "rinv D p k1" "initproc (kst k1) = initproc (kst k)" "p_ofile (procs (kst k1) ! p) = (p_ofile (procs (kst k) ! p))[i := None]"
    show "post1 (\<lambda>k'. rinv D p k' \<and> initproc (kst k') = initproc (kst k) \<and>
       (\<forall>fd. fd \<in> set (i # l) \<or> p_ofile (procs (kst k) ! p) ! fd = None \<longrightarrow> fd < NOFILE \<longrightarrow> p_ofile (procs (kst k') ! p) ! fd = None))
       (forR (exit_file p) l k1)"
    proof (rule post_mono(1) [OF Cons.IH [OF k1(1)]])
      show "fd < NOFILE" if "fd \<in> set l" for fd using Cons.prems(2) that by simp
    qed (use k1 i len in \<open>auto simp: nth_list_update\<close>)
  qed
qed simp

text \<open>Handing the children over: the state \<open>st\<close> of the process table inside kernel \<open>k\<close>.\<close>

definition dying :: "(nat \<Rightarrow> int) \<Rightarrow> nat \<Rightarrow> kernel \<Rightarrow> kstate \<Rightarrow> bool" where
  "dying D p k st = (rinv D p (k\<lparr>kst := st\<rparr>) \<and> initproc st \<noteq> Some p \<and> no_files (procs st ! p))"

lemma dying_same: "dying D p k a \<Longrightarrow> same_procs a b \<Longrightarrow> dying D p k b"
  using rinv_view [of "k\<lparr>kst := a\<rparr>" b D p] pview_fields(3) [of "procs b" "procs a" p] rinvD(1,2) [of D p "k\<lparr>kst := a\<rparr>"]
  by (auto simp: dying_def same_procs_def)

lemma reparent_one_dying:
  assumes d: "dying D p k st" and pp: "pp < NPROC"
  shows "dying D p k (reparent_one p pp st) \<and> p_parent (procs (reparent_one p pp st) ! pp) \<noteq> Some p \<and>
    (\<forall>j<NPROC. p_parent (procs st ! j) \<noteq> Some p \<longrightarrow> p_parent (procs (reparent_one p pp st) ! j) \<noteq> Some p)"
proof (cases "p_parent (procs st ! pp) = Some p")
  case True
  have inv: "rinv D p (k\<lparr>kst := st\<rparr>)" "initproc st \<noteq> Some p" "no_files (procs st ! p)" using d by (simp_all add: dying_def)
  have pi: "proc_inv st" and len: "length (procs st) = NPROC" and p: "p < NPROC" "live (procs st ! p)" using rinvD [OF inv(1)] by simp_all
  let ?q = "(procs st ! pp)\<lparr>p_parent := initproc st\<rparr>" and ?u = "upd_proc pp (\<lambda>q. q\<lparr>p_parent := initproc st\<rparr>) st"
  note e = proc_invD [OF pi pp]
  have used: "p_state (procs st ! pp) \<noteq> UNUSED" using e(4) True by auto
  have "proc_inv (st\<lparr>procs := (procs st)[pp := ?q]\<rparr>)"
  proof (rule proc_inv_put [OF pi pp])
    show "length (p_ofile ?q) = NOFILE" "\<And>f. Some f \<in> set (p_ofile ?q) \<Longrightarrow> f < NFILE" using e(2,3) by simp_all
    show "no_files ?q" if "\<not> live ?q" using e(5) that by (simp add: live_def no_files_def)
    show "proc_fit ?q" using e(9) by simp
    show "p_pid ?q = p_pid (procs st ! pp) \<and> p_state (procs st ! pp) \<noteq> UNUSED" using used by simp
    show "m < NPROC \<and> (m \<noteq> pp \<or> live ?q) \<and> live (procs st ! m)" if "p_parent ?q = Some m" for m
      using that e(8) by (auto simp: live_def)
    show "p_parent (procs st ! j) \<noteq> Some pp" if "\<not> live ?q" "j < NPROC" for j
      using that proc_invD(7) [OF pi that(2)] by (auto simp: live_def)
    show "initproc st \<noteq> Some pp" if "\<not> live ?q" using that e(8) by (auto simp: live_def)
  qed (use used in simp_all)
  then have "rinv D p (k\<lparr>kst := ?u\<rparr>)"
    using inv(1) p pp len by (auto simp: rinv_def kinv_def upd_proc_def fd_refs_replace nth_list_update live_def)
  moreover have "no_files (procs ?u ! p)" using inv(3) len p pp by (auto simp: upd_proc_def no_files_def nth_list_update)
  ultimately have u: "dying D p k ?u" using inv(2) by (simp add: dying_def upd_proc_def)
  have w: "same_procs ?u (wakeup ch ?u)" for ch by (rule wakeup_same) simp
  have par: "p_parent (procs (wakeup ch ?u) ! j) = p_parent (procs ?u ! j)" if "j < NPROC" for ch j
    using pview_fields(3) [of "procs (wakeup ch ?u)" "procs ?u" j] w that len by (simp add: same_procs_def upd_proc_def)
  show ?thesis using True dying_same [OF u w] par pp len inv(2) by (auto simp: reparent_one_def upd_proc_def nth_list_update)
qed (use d in \<open>simp add: reparent_one_def\<close>)

lemma reparent_dying:
  assumes "dying D p k st"
  shows "dying D p k (reparent p st) \<and> (\<forall>j<NPROC. p_parent (procs (reparent p st) ! j) \<noteq> Some p)"
proof -
  have "dying D p k (fold (reparent_one p) l st) \<and>
      (\<forall>j<NPROC. j \<in> set l \<or> p_parent (procs st ! j) \<noteq> Some p \<longrightarrow> p_parent (procs (fold (reparent_one p) l st) ! j) \<noteq> Some p)"
    if "\<And>j. j \<in> set l \<Longrightarrow> j < NPROC" "dying D p k st" for l st
    using that
  proof (induction l arbitrary: st)
    case (Cons i l)
    have i: "i < NPROC" using Cons.prems(1) by simp
    note r = reparent_one_dying [OF Cons.prems(2) i]
    then show ?case using Cons.IH [of "reparent_one p i st"] Cons.prems(1) by auto
  qed simp
  from this [of "[0..<NPROC]" st] assms show ?thesis by (auto simp: reparent_def)
qed

lemma kinv_zombie:
  assumes d: "dying D p k st" and ch: "\<And>j. j < NPROC \<Longrightarrow> p_parent (procs st ! j) \<noteq> Some p"
  shows "kinv D (k\<lparr>kst := upd_proc p (\<lambda>q. q\<lparr>p_xstate := s, p_state := ZOMBIE\<rparr>) st\<rparr>)"
proof -
  have inv: "rinv D p (k\<lparr>kst := st\<rparr>)" "initproc st \<noteq> Some p" "no_files (procs st ! p)" using d by (simp_all add: dying_def)
  have pi: "proc_inv st" and len: "length (procs st) = NPROC" and p: "p < NPROC" "live (procs st ! p)" using rinvD [OF inv(1)] by simp_all
  let ?q = "(procs st ! p)\<lparr>p_xstate := s, p_state := ZOMBIE\<rparr>"
  note e = proc_invD [OF pi p(1)]
  have "proc_inv (st\<lparr>procs := (procs st)[p := ?q]\<rparr>)"
  proof (rule proc_inv_put [OF pi p(1)])
    show "length (p_ofile ?q) = NOFILE" "\<And>f. Some f \<in> set (p_ofile ?q) \<Longrightarrow> f < NFILE" using e(2,3) by simp_all
    show "no_files ?q" using inv(3) by (simp add: no_files_def)
    show "proc_fit ?q" using e(9) by simp
    show "p_pid ?q = p_pid (procs st ! p) \<and> p_state (procs st ! p) \<noteq> UNUSED" using p(2) by (simp add: live_def)
    show "m < NPROC \<and> (m \<noteq> p \<or> live ?q) \<and> live (procs st ! m)" if "p_parent ?q = Some m" for m
      using that e(7) ch [OF p(1)] by auto
    show "p_parent (procs st ! j) \<noteq> Some p" if "j < NPROC" for j by (rule ch [OF that])
    show "initproc st \<noteq> Some p" by (rule inv(2))
  qed simp_all
  then show ?thesis using inv(1) by (simp add: rinv_def kinv_def upd_proc_def fd_refs_replace)
qed

lemma post_kexit: "rinv D p k \<Longrightarrow> post1 (kinv D) (kexit status p k)"
proof (cases "initproc (kst k) = Some p")
  case False
  assume inv: "rinv D p k"
  let ?R = "\<lambda>k'. rinv D p k' \<and> initproc (kst k') \<noteq> Some p \<and> no_files (procs (kst k') ! p)"
  have files: "post1 ?R (forR (exit_file p) [0..<NOFILE] k)"
  proof (rule post_mono(1) [OF post_exit_files [OF inv]])
    show "?R k1" if "rinv D p k1 \<and> initproc (kst k1) = initproc (kst k) \<and> (\<forall>fd. fd \<in> set [0..<NOFILE] \<or>
      p_ofile (procs (kst k) ! p) ! fd = None \<longrightarrow> fd < NOFILE \<longrightarrow> p_ofile (procs (kst k1) ! p) ! fd = None)" for k1
      using that False rinvD(4) [of D p k1] by (auto simp: no_files_def in_set_conv_nth)
  qed simp
  have put: "post1 ?R (k_iput c k1)" if "?R k1" for c k1
    using that by (auto simp: k_iput_def on_fs_def post1_def)
  have zombie: "post1 (kinv D) (on_ks (exit_zombie status p) (k_updp p (\<lambda>q. q\<lparr>p_cwd := None\<rparr>) k2))" if "?R k2" for k2
  proof -
    let ?k = "k_updp p (\<lambda>q. q\<lparr>p_cwd := None\<rparr>) k2"
    have "rinv D p ?k" using that by (simp add: inv_updp pview_def)
    then have d: "dying D p ?k (kst ?k)"
      using that rinvD(1,2) [of D p k2] by (simp add: dying_def) (simp add: k_updp_def upd_proc_def no_files_def)
    note r = reparent_dying [OF d]
    let ?s = "reparent p (kst ?k)"
    have w: "same_procs ?s (wakeup ch ?s)" for ch by (rule wakeup_same) simp
    have len: "length (procs ?s) = NPROC" using r rinvD(2) unfolding dying_def by fastforce
    have "p_parent (procs (wakeup ch ?s) ! j) \<noteq> Some p" if "j < NPROC" for ch j
      using pview_fields(3) [of "procs (wakeup ch ?s)" "procs ?s" j] w that r len by (simp add: same_procs_def)
    then have "kinv D (?k\<lparr>kst := upd_proc p (\<lambda>q. q\<lparr>p_xstate := status, p_state := ZOMBIE\<rparr>) (wakeup ch ?s)\<rparr>)" for ch
      using kinv_zombie [OF dying_same [OF conjunct1 [OF r] w]] by blast
    then show ?thesis by (auto simp: on_ks_def exit_zombie_def Let_def sched_check_def post1_def split: if_splits)
  qed
  show ?thesis unfolding kexit_def
    by (auto simp: False intro!: post_seq(1) [OF files] post_seq(1) [OF put] zombie split: option.splits)
qed (simp add: kexit_def)

section \<open>Wait and kill\<close>

lemma post_kwait_scan:
  assumes "rinv D p (k\<lparr>kst := st\<rparr>)" "\<And>pp. pp \<in> set l \<Longrightarrow> pp < NPROC"
  shows "post2 (\<lambda>st'. rinv D p (k\<lparr>kst := st'\<rparr>)) (kwait_scan p addr l hk st)"
  using assms
proof (induction l arbitrary: hk)
  case Nil
  have "rinv D p (k_updp p (\<lambda>q. q\<lparr>p_chan := ProcChan p, p_state := SLEEPING\<rparr>) (k\<lparr>kst := st\<rparr>))"
    by (rule inv_state [OF Nil(1)]) (simp_all add: live_def)
  then show ?case using Nil(1)
    by (auto simp: sleep_enter_def sched_check_def post2_def k_updp_def split: if_splits)
next
  case (Cons pp l)
  have pp: "pp < NPROC" using Cons.prems(2) by simp
  note d = rinvD [OF Cons.prems(1)]
  have reap: "rinv D p (k\<lparr>kst := st2\<rparr>)" if z: "p_state (procs st ! pp) = ZOMBIE" and ag: "agree st st1" and run: "freeproc pp st1 = Ok st2" for st1 st2
  proof -
    have "rinv D p (k\<lparr>kst := st1\<rparr>)" using inv_kst [of "k\<lparr>kst := st\<rparr>" st1] Cons.prems(1) ag by simp
    moreover have "p_state (procs st1 ! pp) = ZOMBIE" using agree_nth [OF _ ag, of p_state pp] pp d z by simp
    moreover have "pp \<noteq> p" using z d(3) by (auto simp: live_def)
    ultimately show ?thesis using rinv_bury [of D p "k\<lparr>kst := st1\<rparr>" pp st2] pp run by simp
  qed
  have copy: "agree st st1" if "copyout pt addr bs st = Ok (r, st1)" for pt bs r st1
    by (rule postD(2) [OF kp_copyout that]) simp
  have stay: "rinv D p (k\<lparr>kst := st1\<rparr>)" if "agree st st1" for st1
    using inv_kst [of "k\<lparr>kst := st\<rparr>" st1] Cons.prems(1) that by simp
  have more: "post2 (\<lambda>st'. rinv D p (k\<lparr>kst := st'\<rparr>)) (kwait_scan p addr l hk st)" for hk
    by (rule Cons.IH [OF Cons.prems(1)]) (use Cons.prems(2) in simp)
  show ?case
    using more reap copy stay Cons.prems(1) by (auto simp: Let_def post2_def) blast+
qed

lemma post_k_wait [post_rules]: "rinv D p k \<Longrightarrow> post2 (rinv D p) (k_wait p addr k)"
proof -
  assume inv: "rinv D p k"
  have "post2 (\<lambda>st'. rinv D p (k\<lparr>kst := st'\<rparr>)) (kwait p addr (kst k))"
    unfolding kwait_def by (rule post_kwait_scan) (simp_all add: inv)
  then show ?thesis by (auto simp: k_wait_def on_ksv_def post2_def split: wait_outcome.split_asm)
qed

lemma post_sys_kill [post_rules]: "rinv D p k \<Longrightarrow> post2 (rinv D p) (sys_kill p k)"
proof -
  assume inv: "rinv D p k"
  have "same_procs (kst k) (upd_proc i (\<lambda>q. let q1 = q\<lparr>p_killed := 1\<rparr> in if p_state q1 = SLEEPING then q1\<lparr>p_state := RUNNABLE\<rparr> else q1) (kst k))" for i
    by (rule same_upd_id) (simp add: pview_def Let_def)
  then have "rinv D p (k\<lparr>kst := snd (kkill pid (kst k))\<rparr>)" for pid
    using inv by (simp add: kkill_def rinv_view split: option.split)
  then show ?thesis unfolding sys_kill_def
    by (auto intro!: post_bind_int simp: Let_def split: prod.split) (metis snd_conv)
qed

end
