(* ===== verification/Calls.thy ===== *)
theory Calls
  imports Life
begin

text \<open>
  Every system call, every trap and every round of the scheduler keep the kernel's invariant.
\<close>

section \<open>Descriptors\<close>

lemma fdalloc_spec:
  assumes inv: "rinv D p k" and f: "f < NFILE" and run: "fdalloc p f k = (fd, k')"
  shows "fd < 0 \<and> k' = k \<or> 0 \<le> fd \<and> fd < int NOFILE \<and> p_ofile (procs (kst k) ! p) ! nat fd = None \<and>
    k' = k_updp p (set_fd (nat fd) (Some f)) k \<and> rinv (owe f D) p k'"
proof (cases "find_index (\<lambda>o1. o1 = None) (p_ofile (k_procs k ! p))")
  case (Some i)
  have i: "i < NOFILE" "p_ofile (procs (kst k) ! p) ! i = None"
    using find_index_SomeD [OF Some] rinvD(4) [OF inv] by (simp_all add: k_procs_def)
  have "rinv (owe f D) p (k_updp p (set_fd i (Some f)) k)"
    by (rule rinv_fill [OF _ i(1) f i(2)]) (simp add: inv)
  then show ?thesis using run i by (auto simp: fdalloc_def Some fold_set_fd)
qed (use run in \<open>simp add: fdalloc_def\<close>)

lemma argfd_spec:
  assumes "rinv D p k" "argfd p n k = Ok (Some (fd, f))"
  shows "fd < NOFILE \<and> p_ofile (procs (kst k) ! p) ! fd = Some f \<and> f < NFILE"
  using assms(2) rinvD(5) [OF assms(1), of fd f] by (auto simp: argfd_def k_procs_def split: if_splits option.splits)

text \<open>With a descriptor, or without.\<close>

lemma post_argfd:
  assumes inv: "rinv D p k" and none: "post2 Q g"
    and some: "\<And>fd f. fd < NOFILE \<Longrightarrow> p_ofile (procs (kst k) ! p) ! fd = Some f \<Longrightarrow> f < NFILE \<Longrightarrow> post2 Q (h (fd, f))"
  shows "post2 Q (bindR (argfd p n k) (\<lambda>a. case a of None \<Rightarrow> g | Some x \<Rightarrow> h x))"
  using none some argfd_spec [OF inv, of n] by (fastforce simp: post2_def split: option.splits)

lemma post_sys_dup: "rinv D p k \<Longrightarrow> post2 (rinv D p) (sys_dup p k)"
proof -
  assume inv: "rinv D p k"
  have "post2 (rinv D p) (let (fd, k1) = fdalloc p f k in if fd < 0 then Ok (-1, k1) else bindR (filedup f k1) (\<lambda>k2. Ok (fd, k2)))"
    if f: "f < NFILE" for f
  proof (cases "fdalloc p f k")
    case (Pair fd k1)
    show ?thesis using fdalloc_spec [OF inv f Pair]
    proof
      assume "0 \<le> fd \<and> fd < int NOFILE \<and> p_ofile (procs (kst k) ! p) ! nat fd = None \<and>
        k1 = k_updp p (set_fd (nat fd) (Some f)) k \<and> rinv (owe f D) p k1"
      then show ?thesis using post_filedup [of "owe f D" p k1 f] f by (auto simp: Pair post1_def post2_def)
    qed (simp add: Pair inv)
  qed
  then show ?thesis unfolding sys_dup_def by (intro post_argfd [OF inv]) (simp_all add: inv split: prod.split)
qed

lemma post_sys_close: "rinv D p k \<Longrightarrow> post2 (rinv D p) (sys_close p k)"
proof -
  assume inv: "rinv D p k"
  have "post1 (rinv D p) (fileclose f (k_updp p (set_fd fd None) k))"
    if "fd < NOFILE" "p_ofile (procs (kst k) ! p) ! fd = Some f" "f < NFILE" for fd f
    using post_fileclose [OF rinv_clear [OF inv that(1,2)] that(3)] by simp
  then show ?thesis unfolding sys_close_def fold_set_fd
    by (intro post_argfd [OF inv]) (auto simp: inv intro!: post_bind(2))
qed

lemma post_sys_fd:
  assumes inv: "rinv D p k"
  shows "post2 (rinv D p) (sys_read p k)" "post2 (rinv D p) (sys_write p k)" "post2 (rinv D p) (sys_fstat p k)"
  unfolding sys_read_def sys_write_def sys_fstat_def
  by (auto intro!: post_rules post_argfd [OF inv] simp: inv)

section \<open>Opening files and pipes\<close>

lemma post_open_fail [post_rules]: "rinv D p k \<Longrightarrow> post2 (rinv D p) (open_fail ip k)"
  unfolding open_fail_def by (auto intro!: post_rules)

lemma open_file_ref [simp]: "fl_ref (open_file ip om i f) = fl_ref f"
  by (simp add: open_file_def)

lemma post_sys_open: "rinv D p k \<Longrightarrow> post2 (rinv D p) (sys_open p k)"
proof -
  assume inv: "rinv D p k"
  have "post2 (rinv D p) (case filealloc k2 of
                (None, k3) \<Rightarrow> open_fail ip k3
              | (Some f, k3) \<Rightarrow>
                  let (fd, k4) = fdalloc p f k3 in
                  if fd < 0 then bindR (fileclose f k4) (open_fail ip)
                  else
                    let i = k_inode k4 ip; k5 = upd_file f (open_file ip omode i) k4 in
                    bindR (if omode AND O_TRUNC \<noteq> 0 \<and> i_type i = T_FILE then on_fs (itrunc ip) k5 else Ok k5) (\<lambda>k6.
                    bindR (on_fs (iunlock (Some ip)) k6) (\<lambda>k7.
                    bindR (on_fs fs_end_op k7) (\<lambda>k8. Ok (fd, k8)))))"
    if k2: "rinv D p k2" for k2 ip omode
  proof -
    obtain r k3 where fa: "filealloc k2 = (r, k3)" by fastforce
    show ?thesis
    proof (cases r)
      case None
      then show ?thesis using filealloc_spec [OF k2] fa k2 by (auto intro!: post_rules)
    next
      case (Some f)
      have f: "f < NFILE" "rinv (hold f D) p k3" using filealloc_spec [OF k2] fa Some by auto
      obtain fd k4 where fd: "fdalloc p f k3 = (fd, k4)" by fastforce
      have "rinv D p k4" if "\<not> fd < 0" using fdalloc_spec [OF f(2,1) fd] that by auto
      moreover have "post1 (rinv D p) (fileclose f k4)" if "fd < 0"
        using fdalloc_spec [OF f(2,1) fd] that post_fileclose [OF f(2,1)] by auto
      ultimately show ?thesis unfolding fa Some prod.case option.case fd Let_def
        by (auto intro!: post_rules inv_upd_file [THEN iffD2])
    qed
  qed
  then show ?thesis unfolding sys_open_def Let_def
    by (auto intro!: post_rules simp: inv split: option.split)
qed

text \<open>Both ends of a new pipe are references the kernel holds.\<close>

lemma post_pipealloc_bad:
  assumes "rinv (take_back f0 (take_back f1 D)) p k" "\<And>f. f0 = Some f \<Longrightarrow> f < NFILE" "\<And>f. f1 = Some f \<Longrightarrow> f < NFILE"
  shows "post2 (rinv D p) (pipealloc_bad f0 f1 k)"
proof -
  have close: "post1 (rinv E p) (case v of Some f \<Rightarrow> fileclose f k1 | None \<Rightarrow> Ok k1)"
    if "rinv (take_back v E) p k1" "\<And>f. v = Some f \<Longrightarrow> f < NFILE" for v E k1
    using that post_fileclose [of "take_back v E" p k1 "the v"] by (cases v) (simp_all add: take_back_def)
  show ?thesis unfolding pipealloc_bad_def
    by (rule post_seq(2) [OF close [OF assms(1,2)]]) (auto intro!: post_bind(2) close assms(3))
qed

lemma pipealloc_spec:
  assumes inv: "rinv D p k" and run: "pipealloc k = Ok (r, k')"
  shows "case r of None \<Rightarrow> rinv D p k' | Some (f0, f1) \<Rightarrow> f0 < NFILE \<and> f1 < NFILE \<and> rinv (hold f0 (hold f1 D)) p k'"
proof -
  have bad: "rinv D p k' \<and> r = None" if "pipealloc_bad f0 f1 k1 = Ok (r, k')" "rinv (take_back f0 (take_back f1 D)) p k1"
      "\<And>f. f0 = Some f \<Longrightarrow> f < NFILE" "\<And>f. f1 = Some f \<Longrightarrow> f < NFILE" for f0 f1 k1
    using postD(2) [OF post_pipealloc_bad [OF that(2-4)] that(1)] that(1) by (auto simp: pipealloc_bad_def)
  obtain r0 k1 where a0: "filealloc k = (r0, k1)" by fastforce
  show ?thesis
  proof (cases r0)
    case None
    then have "pipealloc_bad None None k = Ok (r, k')" using run a0 filealloc_spec [OF inv] by (simp add: pipealloc_def)
    from bad [OF this] inv show ?thesis by (simp add: take_back_def)
  next
    case (Some f0)
    have f0: "f0 < NFILE" "rinv (hold f0 D) p k1" using filealloc_spec [OF inv] a0 Some by auto
    obtain r1 k2 where a1: "filealloc k1 = (r1, k2)" by fastforce
    show ?thesis
    proof (cases r1)
      case None
      then have "pipealloc_bad (Some f0) None k1 = Ok (r, k')" using run a0 a1 Some filealloc_spec [OF f0(2)] by (simp add: pipealloc_def)
      from bad [OF this] f0 show ?thesis by (simp add: take_back_def)
    next
      case r1: (Some f1)
      have f1: "f1 < NFILE" "rinv (hold f0 (hold f1 D)) p k2"
        using filealloc_spec [OF f0(2)] a1 r1 by (auto simp: hold_commute(1) [of f0 f1])
      obtain pi st where al: "k_alloc (kst k2) = (pi, st)" by fastforce
      have k3: "rinv (hold f0 (hold f1 D)) p (k2\<lparr>kst := st\<rparr>)" using f1(2) inv_kst [of k2 st] keeps_k_alloc [OF al, of "kst k2"] by simp
      have run': "(if pi = 0 then pipealloc_bad (Some f0) (Some f1) (k2\<lparr>kst := st\<rparr>)
          else Ok (Some (f0, f1), upd_file f1 (\<lambda>f. f\<lparr>fl_type := FD_PIPE, fl_readable := False, fl_writable := True, fl_pipe := pi\<rparr>)
                 (upd_file f0 (\<lambda>f. f\<lparr>fl_type := FD_PIPE, fl_readable := True, fl_writable := False, fl_pipe := pi\<rparr>)
                 (k2\<lparr>kst := st, pipes := (pipes k2)(pi := Some (pipe_init (k_bytes (pi + 24) PIPESIZE st)))\<rparr>)))) = Ok (r, k')"
        using run a0 a1 Some r1 al by (simp add: pipealloc_def Let_def split: if_splits)
      show ?thesis
      proof (cases "pi = 0")
        case True
        then have "pipealloc_bad (Some f0) (Some f1) (k2\<lparr>kst := st\<rparr>) = Ok (r, k')" using run' by simp
        from bad [OF this] k3 f0(1) f1(1) show ?thesis by (simp add: take_back_def)
      next
        case False
        then show ?thesis using run' k3 f0(1) f1(1) by (auto simp: inv_upd_file)
      qed
    qed
  qed
qed

lemma post_pipe_undo:
  assumes "rinv (hold f0 (hold f1 D)) p k" "f0 < NFILE" "f1 < NFILE"
  shows "post2 (rinv D p) (pipe_undo f0 f1 k)"
proof -
  have "post1 (rinv (hold f1 D) p) (fileclose f0 k)" using post_fileclose [OF assms(1,2)] by simp
  then show ?thesis unfolding pipe_undo_def
    by (rule post_seq(2)) (use post_fileclose [of "hold f1 D" p _ f1] assms(3) in \<open>auto intro!: post_bind(2)\<close>)
qed

text \<open>Clearing a descriptor that holds \<open>f\<close>.\<close>

lemma rinv_clear_fd:
  assumes "rinv D p k" "0 \<le> fd" "fd < int NOFILE" "p_ofile (procs (kst k) ! p) ! nat fd = Some f"
  shows "rinv (hold f D) p (clear_fd p fd k)"
  using rinv_clear [OF assms(1) _ assms(4)] assms(2,3) by (simp add: clear_fd_def fold_set_fd)

lemma ofile_set_fd:
  assumes "rinv D p k" "fd < NOFILE"
  shows "p_ofile (procs (kst (k_updp p (set_fd fd v) k)) ! p) ! j = (if j = fd then v else p_ofile (procs (kst k) ! p) ! j)"
  using rinvD(1,2,4) [OF assms(1)] assms(2) by (simp add: k_updp_def upd_proc_def set_fd_def)

lemma ofile_agree: "rinv D p k \<Longrightarrow> agree (kst k) st \<Longrightarrow> p_ofile (procs st ! p) = p_ofile (procs (kst k) ! p)"
  using agree_nth [of p_ofile "kst k" st p] rinvD(1,2) by auto

lemma post_sys_pipe: "rinv D p k \<Longrightarrow> post2 (rinv D p) (sys_pipe p k)"
proof -
  assume inv: "rinv D p k"
  have copy: "post2 (\<lambda>k'. rinv D p k' \<and> p_ofile (procs (kst k') ! p) = o1) (on_ksv (copyout pt a bs) k1)"
    if k1: "rinv D p k1" "p_ofile (procs (kst k1) ! p) = o1" for pt a bs k1 o1
  proof -
    have "rinv D p (k1\<lparr>kst := st\<rparr>) \<and> p_ofile (procs st ! p) = o1" if "copyout pt a bs (kst k1) = Ok (r, st)" for r st
    proof -
      have "agree (kst k1) st" by (rule postD(2) [OF kp_copyout that]) simp
      then show ?thesis using k1 ofile_agree [OF k1(1), of st] inv_kst [of k1 st D p] by simp
    qed
    then show ?thesis by (auto simp: on_ksv_def post2_def)
  qed
  have ends: "post2 (rinv D p) (let (fd0, k2) = fdalloc p f0 k1 in
         if fd0 < 0 then pipe_undo f0 f1 k2
         else let (fd1, k3) = fdalloc p f1 k2 in
           if fd1 < 0 then pipe_undo f0 f1 (clear_fd p fd0 k3)
           else
             let pt = p_pagetable (k_procs k3 ! p) in
             bindR (on_ksv (copyout pt fdarray (enc 4 (word_of_int fd0 :: u32))) k3) (\<lambda>(r0, k4).
             bindR (if r0 < 0 then Ok (-1, k4)
                    else on_ksv (copyout pt (fdarray + 4) (enc 4 (word_of_int fd1 :: u32))) k4) (\<lambda>(r1, k5).
             if r1 < 0 then pipe_undo f0 f1 (clear_fd p fd1 (clear_fd p fd0 k5)) else Ok (0, k5))))"
    if f: "f0 < NFILE" "f1 < NFILE" and k1: "rinv (hold f0 (hold f1 D)) p k1" for f0 f1 k1 fdarray
  proof -
    obtain fd0 k2 where a0: "fdalloc p f0 k1 = (fd0, k2)" by fastforce
    note s0 = fdalloc_spec [OF k1 f(1) a0]
    show ?thesis
    proof (cases "fd0 < 0")
      case True
      then show ?thesis using s0 post_pipe_undo [OF k1 f] by (simp add: a0)
    next
      case False
      then have r0: "0 \<le> fd0" "fd0 < int NOFILE" "k2 = k_updp p (set_fd (nat fd0) (Some f0)) k1" "rinv (hold f1 D) p k2"
        using s0 by auto
      then have o0: "p_ofile (procs (kst k2) ! p) ! nat fd0 = Some f0" using ofile_set_fd [OF k1, of "nat fd0"] by simp
      obtain fd1 k3 where a1: "fdalloc p f1 k2 = (fd1, k3)" by fastforce
      note s1 = fdalloc_spec [OF r0(4) f(2) a1]
      show ?thesis
      proof (cases "fd1 < 0")
        case True
        then show ?thesis using s1 post_pipe_undo [OF rinv_clear_fd [OF r0(4,1,2) o0] f] False by (simp add: a0 a1)
      next
        case neg: False
        then have r1: "0 \<le> fd1" "fd1 < int NOFILE" "p_ofile (procs (kst k2) ! p) ! nat fd1 = None"
            "k3 = k_updp p (set_fd (nat fd1) (Some f1)) k2" "rinv D p k3" using s1 by auto
        then have ne: "nat fd0 \<noteq> nat fd1" using o0 by auto
        have o3: "p_ofile (procs (kst k3) ! p) ! nat fd0 = Some f0" "p_ofile (procs (kst k3) ! p) ! nat fd1 = Some f1"
          using ofile_set_fd [OF r0(4), of "nat fd1"] r1 o0 ne by simp_all
        have undo: "post2 (rinv D p) (pipe_undo f0 f1 (clear_fd p fd1 (clear_fd p fd0 k5)))"
          if "rinv D p k5 \<and> p_ofile (procs (kst k5) ! p) = p_ofile (procs (kst k3) ! p)" for k5
        proof -
          have c0: "rinv (hold f0 D) p (clear_fd p fd0 k5)" using rinv_clear_fd [of D p k5 fd0 f0] that r0 o3 by simp
          have "p_ofile (procs (kst (clear_fd p fd0 k5)) ! p) ! nat fd1 = Some f1"
            using that o3 ne ofile_set_fd [of D p k5 "nat fd0"] r0 by (simp add: clear_fd_def fold_set_fd)
          then have "rinv (hold f1 (hold f0 D)) p (clear_fd p fd1 (clear_fd p fd0 k5))" using rinv_clear_fd [OF c0] r1 by simp
          then show ?thesis using post_pipe_undo f hold_commute(1) [of f1 f0] by simp
        qed
        show ?thesis using False neg
          by (simp add: a0 a1 Let_def)
            (intro post_seq(3) [OF copy [OF r1(5) refl]], auto intro!: undo post_seq(3) [OF copy])
      qed
    qed
  qed
  have alloc: "post2 (rinv D p) (case r of None \<Rightarrow> Ok (-1, k1) | Some (f0, f1) \<Rightarrow> b f0 f1)"
    if "pipealloc k = Ok (r, k1)" "\<And>f0 f1. f0 < NFILE \<Longrightarrow> f1 < NFILE \<Longrightarrow> rinv (hold f0 (hold f1 D)) p k1 \<Longrightarrow> post2 (rinv D p) (b f0 f1)" for r k1 b
    using pipealloc_spec [OF inv that(1)] that(2) by (auto split: option.splits prod.splits)
  show ?thesis
    unfolding sys_pipe_def
    by (rule post_bind_u64(2), rule post_seq(4), unfold prod.case, erule alloc) (rule ends)
qed

section \<open>Program loading\<close>

lemma post_k_namei [post_rules]: "rinv D p k \<Longrightarrow> post2 (rinv D p) (k_namei q path k)"
  unfolding k_namei_def by (auto intro!: post_rules split: option.split)

lemma post_read_struct [post_rules]: "rinv D p k \<Longrightarrow> post3 (rinv D p) (read_struct ip off n k)"
  by (auto simp: read_struct_def post3_def)

lemma post_loadseg_loop [post_rules]: "rinv D p k \<Longrightarrow> post2 (rinv D p) (loadseg_loop pt va ip off sz l k)"
proof (induction l arbitrary: k)
  case (Cons i l)
  have rd: "post2 (rinv D p) (bindR (readi (either_copyout False) ip pa o1 n (kst k) (kfs k)) g)"
    if g: "\<And>r st s. agree (kst k) st \<Longrightarrow> post2 (rinv D p) (g (r, st, s))" for pa o1 n g
  proof -
    have "agree (kst k) st" if "readi (either_copyout False) ip pa o1 n (kst k) (kfs k) = Ok (r, st, s)" for r st s
      by (rule readi_um [OF _ _ that]) (auto intro!: post_rules)
    then show ?thesis using g by (fastforce simp: post2_def)
  qed
  show ?case using Cons
    by (auto simp: Let_def inv_kst intro!: post_bind_u64(2) rd)
qed simp

lemma post_loadseg [post_rules]: "rinv D p k \<Longrightarrow> post2 (rinv D p) (loadseg pt va ip off sz k)"
  unfolding loadseg_def by (auto intro!: post_rules)

lemma post_kexec_load [post_rules]: "rinv D p k \<Longrightarrow> post2 (rinv D p) (kexec_load pt ip l sz k)"
proof (induction l arbitrary: sz k)
  case (Cons off l)
  then show ?case by (auto simp: Let_def intro!: post_rules post_on_ks)
qed simp

lemma post_kexec_args [post_rules]: "rinv D p k \<Longrightarrow> post2 (rinv D p) (kexec_args pt bas argv sp us k)"
proof (induction argv arbitrary: sp us k)
  case (Cons s argv)
  then show ?case by (auto simp: Let_def intro!: post_rules post_on_ks)
qed simp

lemma post_freept [post_rules]: "rinv D p k \<Longrightarrow> post1 (rinv D p) (on_ks (proc_freepagetable pt sz) k)"
  by (rule post_on_ks) (auto simp: proc_freepagetable_def intro!: post_rules)

lemma post_kexec_bad [post_rules]: "rinv D p k \<Longrightarrow> post2 (rinv D p) (kexec_bad ip pt sz k)"
  unfolding kexec_bad_def by (auto intro!: post_rules split: option.split)

lemmas post_bind_kmem [post_rules] = post_bind_value [where r = "r :: kmem result" for r]

lemma post_kexec_stack [post_rules]: "rinv D p k \<Longrightarrow> post2 (rinv D p) (kexec_stack q path argv elf pt sz k)"
  unfolding kexec_stack_def Let_def
  by (auto intro!: post_rules post_on_ks inv_updp [THEN iffD2] simp: pview_def split: option.split)

lemma post_kexec [post_rules]: "rinv D p k \<Longrightarrow> post2 (rinv D p) (kexec q path argv k)"
  unfolding kexec_def Let_def
  by (auto intro!: post_rules post_on_ks split: option.split sum.split)

lemma post_fetchaddr [post_rules]: "rinv D p k \<Longrightarrow> post2 (rinv D p) (fetchaddr q a k)"
  using kp_copyin [of "kst k" "kst k"] inv_kst [of k]
  by (auto simp: fetchaddr_def Let_def post2_def post3_def)

lemma post_exec_args [post_rules]: "rinv D p k \<Longrightarrow> post3 (rinv D p) (exec_args q uargv l pgs k)"
proof (induction l arbitrary: pgs k)
  case (Cons i l)
  have al: "rinv D p (k1\<lparr>kst := k_write pg bs st\<rparr>)" "rinv D p (k1\<lparr>kst := st\<rparr>)" if "rinv D p k1" "k_alloc (kst k1) = (pg, st)" for k1 pg st bs
    using inv_kst [of k1] that keeps_k_alloc [OF that(2), of "kst k1"] by simp_all
  show ?case using Cons
    by (auto simp: Let_def al intro!: post_rules split: option.split prod.split)
qed simp

lemma post_free_pages [post_rules]: "rinv D p k \<Longrightarrow> post1 (rinv D p) (free_pages pgs k)"
  unfolding free_pages_def by (auto intro!: post_rules post_on_ks)

lemma post_sys_exec: "rinv D p k \<Longrightarrow> post2 (rinv D p) (sys_exec p k)"
  unfolding sys_exec_def by (auto intro!: post_rules split: option.split)

section \<open>The remaining calls\<close>

lemma post_sys_fs:
  assumes inv: "rinv D p k"
  shows "post2 (rinv D p) (sys_link p k)" "post2 (rinv D p) (sys_unlink p k)" "post2 (rinv D p) (sys_mkdir p k)"
    "post2 (rinv D p) (sys_mknod p k)" "post2 (rinv D p) (sys_chdir p k)"
  unfolding sys_link_def sys_unlink_def sys_mkdir_def sys_mknod_def sys_chdir_def
  by (auto intro!: post_rules inv_updp [THEN iffD2] simp: inv pview_def split: option.split)

lemma post_growproc: "rinv D p k \<Longrightarrow> post2 (rinv D p) (on_ksv (growproc n q) k)"
proof -
  assume inv: "rinv D p k"
  have u: "same_procs (kst k) (upd_proc q (\<lambda>x. x\<lparr>p_sz := s\<rparr>) st)" if "agree (kst k) st" for st s
    by (rule same_trans [OF agree_same [OF that] same_upd_id]) (simp add: pview_def)
  have "post2 (same_procs (kst k)) (growproc n q (kst k))"
    unfolding growproc_def Let_def
    by (intro post_if post_seq(3) [OF kp_uvmalloc [OF keeps_refl]] post_seq(3) [OF kp_uvmdealloc [OF keeps_refl]])
      (auto intro: u agree_same)
  then show ?thesis using inv rinv_view [of k] by (auto simp: on_ksv_def post2_def)
qed

lemma post_sys_proc:
  assumes inv: "rinv D p k"
  shows "post2 (rinv D p) (sys_wait p k)" "post2 (rinv D p) (sys_sbrk p k)" "post2 (rinv D p) (sys_pause p k)"
    "post2 (rinv D p) (sys_getmlfqinfo p k)" "post2 (rinv D p) (sys_getvmstats p k)" "post2 (rinv D p) (k_pause p t0 n k)"
  unfolding sys_wait_def sys_sbrk_def sys_pause_def sys_getmlfqinfo_def sys_getvmstats_def k_pause_def Let_def
  by (auto intro!: post_rules post_growproc post_on_ks inv_updp [THEN iffD2] simp: inv pview_def split: option.split)

lemma post_sys_setdisksched: "rinv D p k \<Longrightarrow> post2 (rinv D p) (sys_setdisksched p k)"
  by (auto simp: sys_setdisksched_def Let_def post2_def split: if_splits)

section \<open>Dispatch\<close>

lemma post_ret: "post2 P r \<Longrightarrow> post2 P (ret r)"
  by (auto simp: ret_def post2_def)

text \<open>What a call leaves: the invariant, and its process, unless it is gone.\<close>

definition call_inv :: "(nat \<Rightarrow> int) \<Rightarrow> nat \<Rightarrow> kcall \<times> kernel \<Rightarrow> bool" where
  "call_inv D p r = (kinv D (snd r) \<and> (fst r \<noteq> KGone \<longrightarrow> rinv D p (snd r)))"

lemma call_inv: "post2 (rinv D p) r \<Longrightarrow> post1 (call_inv D p) r"
  by (auto simp: call_inv_def post1_def post2_def rinv_def)

lemma post_sys_exit: "rinv D p k \<Longrightarrow> post1 (call_inv D p) (sys_exit p k)"
  using post_kexit by (fastforce simp: sys_exit_def post1_def call_inv_def)

lemma post_syscalls:
  assumes inv: "rinv D p k"
  shows "post1 (call_inv D p) (syscalls num p k)"
proof -
  have "post1 (call_inv D p) (bindR (sys_getchildsyscount p k) (\<lambda>v. Ok (KRet v, k)))"
    using inv by (auto simp: post1_def call_inv_def rinv_def)
  moreover have "call_inv D p (KRet v, k)" for v using inv by (simp add: call_inv_def rinv_def)
  moreover have "rinv D p (snd (sys_hello k))" using inv by (simp add: sys_hello_def k_print_def)
  moreover have "post1 (call_inv D p) (syscalls 2 p k)" using post_sys_exit [OF inv] by (simp add: syscalls_def)
  ultimately show ?thesis
    unfolding syscalls_def sys_fork_def using inv
    by (cases "num = 2") (simp, auto intro!: post_if(1) call_inv post_ret post_kfork post_sys_pipe post_sys_kill post_sys_exec post_sys_fd
        post_sys_dup post_sys_open post_sys_close post_sys_fs post_sys_proc post_sys_setdisksched)
qed

lemma call_inv_set_ret [simp]: "call_inv D p (set_ret p r) = call_inv D p r"
proof (cases r)
  case (Pair c k)
  have "kinv D (tf_set p i v k) = kinv D k" for i v
    by (rule inv_same(1)) (simp_all add: tf_set_def same_procs_def k_store_def)
  then show ?thesis by (cases c) (simp_all add: Pair set_ret_def call_inv_def)
qed

lemma post_set_ret: "post1 (call_inv D p) r \<Longrightarrow> post1 (call_inv D p) (bindR r (\<lambda>r. Ok (set_ret p r)))"
  by (rule post_bind(1)) simp_all

lemma post_syscall: "rinv D p k \<Longrightarrow> post1 (call_inv D p) (syscall p k)"
proof -
  assume inv: "rinv D p k"
  have "rinv D p (k_updp p (\<lambda>q. q\<lparr>p_syscount := p_syscount q + 1\<rparr>) k)" using inv by (simp add: inv_updp pview_def)
  from post_syscalls [OF this] have "post1 (call_inv D p) (bindR (syscalls num p (k_updp p (\<lambda>q. q\<lparr>p_syscount := p_syscount q + 1\<rparr>) k)) (\<lambda>r. Ok (set_ret p r)))" for num
    by (rule post_set_ret)
  moreover have "rinv D p (tf_set p (TF_A 0) (-1) (k_print f a k))" for f a using inv by (simp add: k_print_def)
  ultimately show ?thesis
    unfolding syscall_def Let_def by (auto simp: call_inv_def rinv_def)
qed

lemma post_resume_call: "rinv D p k \<Longrightarrow> post1 (call_inv D p) (resume_call p c k)"
proof -
  assume inv: "rinv D p k"
  have i: "rinv D p (k\<lparr>kst := sleep_leave p (kst k)\<rparr>)"
    using inv_updp [of "\<lambda>q. q\<lparr>p_chan := NoChan\<rparr>" D p p k] inv by (simp add: sleep_leave_def k_updp_def pview_def)
  show ?thesis unfolding resume_call_def Let_def
    by (rule post_set_ret [OF call_inv])
      (use post_k_console(3) [OF i] in \<open>auto intro!: post_rules i post_sys_proc split: kont.split\<close>)
qed

section \<open>Traps\<close>

text \<open>
  What a trap leaves: the invariant of the process that returns to user space, or the invariant
  once the scheduler has accounted for the process that went off the CPU.
\<close>

definition trap_inv :: "(nat \<Rightarrow> int) \<Rightarrow> nat \<Rightarrow> uret \<times> hart \<times> kernel \<Rightarrow> bool" where
  "trap_inv D p r = (if fst r = UOff then kinv D (back_to_scheduler p (snd (snd r))) else rinv D p (snd (snd r)))"

lemma rinv_kinv: "rinv D p k \<Longrightarrow> kinv D k"
  by (simp add: rinv_def)

text \<open>Changes of levels and ticks that keep them in range.\<close>

lemma pview_fit:
  "proc_fit q \<Longrightarrow> proc_fit q' \<Longrightarrow> (p_pid q', p_parent q', p_ofile q', p_state q') = (p_pid q, p_parent q, p_ofile q, p_state q) \<Longrightarrow>
   pview q' = pview q"
  by (simp add: pview_def)

lemma same_put: "pview q = pview (procs st ! i) \<Longrightarrow> same_procs st (st\<lparr>procs := (procs st)[i := q]\<rparr>)"
  by (simp add: same_procs_def map_update) (metis list_update_id map_update)

lemma same_fit:
  assumes "proc_inv st" "\<And>q. proc_fit q \<Longrightarrow> pview (f q) = pview q"
  shows "i < NPROC \<Longrightarrow> same_procs st (upd_proc i f st)" "same_procs st (st\<lparr>procs := map f (procs st)\<rparr>)"
proof -
  note d = proc_invD(1,9) [OF assms(1)]
  show "same_procs st (upd_proc i f st)" if "i < NPROC"
    using same_put [of "f (procs st ! i)" st i] assms(2) [OF d(2) [OF that]] by (simp add: upd_proc_def)
  have "pview (f q) = pview q" if q: "q \<in> set (procs st)" for q
  proof -
    have "length (procs st) = NPROC" using assms(1) by (simp add: proc_inv_def)
    then obtain j where "j < NPROC" "q = procs st ! j" using q by (auto simp: in_set_conv_nth)
    then show ?thesis using assms(2) d(2) by simp
  qed
  then show "same_procs st (st\<lparr>procs := map f (procs st)\<rparr>)" by (simp add: same_procs_def)
qed

lemma pview_account: "proc_fit q \<Longrightarrow> pview (account q) = pview q"
  by (rule pview_fit) (simp_all add: account_fit proc_fit_def [of q], simp add: account_def)

lemma off_kinv:
  assumes "kinv D k" "p < NPROC"
  shows "kinv D (back_to_scheduler p k)"
proof -
  have "same_procs (kst k) (upd_proc p account (kst k))"
    using same_fit(1) [OF _ pview_account assms(2)] assms(1) by (simp add: kinv_def)
  then have "same_procs (kst k) (kst (back_to_scheduler p k))" by (simp add: back_to_scheduler_def sched_return_def same_procs_def)
  then show ?thesis using inv_same(1) [of k "back_to_scheduler p k"] assms(1) by (simp add: back_to_scheduler_def)
qed

lemma trap_inv_off: "kinv D k \<Longrightarrow> p < NPROC \<Longrightarrow> trap_inv D p (UOff, h, k)"
  by (simp add: trap_inv_def off_kinv)

lemma inv_boost: "rinv D p k \<Longrightarrow> rinv D p (k_boost k)"
proof -
  assume inv: "rinv D p k"
  have "pview (if p_state q = RUNNABLE then q\<lparr>p_level := 0\<rparr> else q) = pview q" if "proc_fit q" for q
    by (rule pview_fit [OF that]) (use that in \<open>auto simp: proc_fit_def proc_ok_def\<close>)
  then have "same_procs (kst k) (trap_boost (gticks k) (kst k))"
    using same_fit(2) [OF rinvD(7) [OF inv]] by (simp add: trap_boost_def)
  then show ?thesis using rinv_view inv by (simp add: k_boost_def)
qed

lemma post_to_user: "rinv D p k \<Longrightarrow> post1 (trap_inv D p) (to_user p h k)"
  by (simp add: to_user_def prepare_return_def Let_def trap_inv_def)

lemma post_yield:
  assumes inv: "rinv D p k"
  shows "post1 (\<lambda>k'. kinv D (back_to_scheduler p k')) (on_ks (\<lambda>st. yield_enter p (timer_charge p st)) k)"
proof -
  note d = rinvD [OF inv]
  let ?q = "procs (kst k) ! p"
  define q1 where "q1 = (if p_state ?q = RUNNING then charge ?q else ?q)"
  have fit: "proc_fit ?q" by (rule proc_invD(9) [OF d(7,1)])
  then have "proc_ok q1" by (simp add: q1_def charge_ok proc_fit_def)
  then have "proc_fit (account (q1\<lparr>p_state := RUNNABLE\<rparr>))" by (intro account_fit) (simp add: proc_ok_def)
  then have v: "pview (account (q1\<lparr>p_state := RUNNABLE\<rparr>)) = pview ?q"
    using fit d(3) by (simp add: pview_def live_def account_def q1_def charge_def)
  have same: "same_procs (kst k) (kst (back_to_scheduler p k'))" and other: "ftable k' = ftable k" "kq k' = kq k"
    if "on_ks (\<lambda>st. yield_enter p (timer_charge p st)) k = Ok k'" for k'
  proof -
    have k': "k' = k\<lparr>kst := upd_proc p (\<lambda>q. q\<lparr>p_state := RUNNABLE\<rparr>) (timer_charge p (kst k))\<rparr>"
      using that by (auto simp: on_ks_def yield_enter_def sched_check_def split: if_splits)
    have "kst (back_to_scheduler p k') = (kst k)\<lparr>procs := (procs (kst k))[p := account (q1\<lparr>p_state := RUNNABLE\<rparr>)], curp := None\<rparr>"
      using d(1,2) by (simp add: k' back_to_scheduler_def sched_return_def upd_proc_def timer_charge_def q1_def charge_def)
    then show "same_procs (kst k) (kst (back_to_scheduler p k'))"
      using same_put [of "account (q1\<lparr>p_state := RUNNABLE\<rparr>)" "kst k" p] v by (simp add: same_procs_def)
    show "ftable k' = ftable k" "kq k' = kq k" by (simp_all add: k')
  qed
  have "kinv D (back_to_scheduler p k')" if "on_ks (\<lambda>st. yield_enter p (timer_charge p st)) k = Ok k'" for k'
    using inv_same(1) [OF same [OF that]] other [OF that] rinv_kinv [OF inv] by (simp add: back_to_scheduler_def)
  then show ?thesis by (simp add: post1_def)
qed

lemma post_usertrap_tail: "rinv D p k \<Longrightarrow> post1 (trap_inv D p) (usertrap_tail dev p h k)"
proof -
  assume inv: "rinv D p k"
  have x: "post1 (trap_inv D p) (bindR (kexit (-1) p k) (\<lambda>k1. Ok (UOff, h, k1)))"
    using post_kexit [OF inv] rinvD(1) [OF inv] by (auto simp: post1_def trap_inv_off)
  have y: "post1 (trap_inv D p) (bindR (on_ks (\<lambda>st. yield_enter p (timer_charge p st)) k1) (\<lambda>k2. Ok (UOff, h, k2\<lparr>konts := (konts k2)(p := Some KYield)\<rparr>)))"
    if "rinv D p k1" for k1
    using post_yield [OF that] by (auto simp: post1_def trap_inv_def kinv_def back_to_scheduler_def)
  show ?thesis unfolding usertrap_tail_def Let_def
    by (auto intro!: post_if(1) x y post_to_user inv_boost simp: inv)
qed

text \<open>The console's interrupt wakes readers and prints; it does not touch the process table otherwise.\<close>

lemma same_consoleintr: "same_procs a b \<Longrightarrow> same_procs a (snd (snd (consoleintr c cs u b)))"
  by (simp add: consoleintr_def Let_def wakeup_same split: prod.split)

lemma same_uartintr: "same_procs a b \<Longrightarrow> same_procs a (snd (snd (uartintr idle input cs u b)))"
proof -
  have "same_procs a (snd (snd (fold (\<lambda>c (cs, u, st). consoleintr c cs u st) input t)))" if "same_procs a (snd (snd t))" for t
    using that
  proof (induction input arbitrary: t)
    case (Cons c input)
    then show ?case using same_consoleintr [of a "snd (snd t)" c "fst t" "fst (snd t)"] by (simp add: case_prod_beta)
  qed simp
  then show "same_procs a b \<Longrightarrow> same_procs a (snd (snd (uartintr idle input cs u b)))"
    by (simp add: uartintr_def Let_def wakeup_same)
qed

text \<open>An interrupt does not change what the invariants see.\<close>

definition kview :: "kernel \<Rightarrow> kernel \<Rightarrow> bool" where
  "kview a b = (same_procs (kst a) (kst b) \<and> map fl_ref (ftable b) = map fl_ref (ftable a) \<and> kq b = kq a)"

lemma kview_inv: "kview a b \<Longrightarrow> kinv D b = kinv D a" "kview a b \<Longrightarrow> rinv D p b = rinv D p a"
  using inv_same [of a b] by (simp_all add: kview_def)

lemma devintr_view: "devintr d h k = (dev, h', k') \<Longrightarrow> kview k k'"
  using same_uartintr [of "kst k" "kst k" "d_idle d" "d_input d" "kcons k" "kuart k"]
  by (auto simp: devintr_def clockintr_def k_uartintr_def k_print_def k_wakeup_def kview_def wakeup_same Let_def split: if_splits prod.splits)

lemma post_usertrap: "rinv D p k \<Longrightarrow> post1 (trap_inv D p) (usertrap d p h k)"
proof -
  assume inv0: "rinv D p k"
  let ?k = "tf_set p TF_EPC (h_sepc h) k" and ?h = "h\<lparr>h_stvec := kernelvec h\<rparr>"
  have inv: "rinv D p ?k" using inv0 by simp
  have x: "post1 (trap_inv D p) (bindR (kexit (-1) p ?k) (\<lambda>k1. Ok (UOff, ?h, k1)))"
    using post_kexit [OF inv] rinvD(1) [OF inv0] by (auto simp: post1_def trap_inv_off)
  have call: "post1 (trap_inv D p) (bindR (syscall p (tf_set p TF_EPC v ?k)) (\<lambda>(r, k1).
            case r of KRet _ \<Rightarrow> usertrap_tail 0 p (?h\<lparr>h_intr := True\<rparr>) k1
            | _ \<Rightarrow> Ok (UOff, ?h\<lparr>h_intr := True\<rparr>, k1)))" for v
    by (rule post_seq(1) [OF post_syscall [of D]])
      (auto simp: inv0 call_inv_def rinvD(1) [OF inv0] intro!: post_usertrap_tail trap_inv_off split: kcall.split)
  obtain dev h1 k1 where di: "devintr d ?h ?k = (dev, h1, k1)" by (metis prod_cases3)
  have k1: "rinv D p k1" using kview_inv(2) [OF devintr_view [OF di]] inv by simp
  have fault: "post1 (trap_inv D p) (bindR (on_ksv (vmfault pt a w) k1) (\<lambda>(pa, k2).
            usertrap_tail 0 p h1 (if pa = 0 then k_updp p (\<lambda>q. q\<lparr>p_killed := 1\<rparr>) k2 else k2)))" for pt a w
  proof -
    have "post2 (rinv D p) (on_ksv (vmfault pt a w) k1)" by (rule post_on_ks(2) [OF k1]) (auto intro!: post_rules)
    then show ?thesis by (rule post_seq(5)) (auto intro!: post_usertrap_tail simp: inv_updp pview_def)
  qed
  have kill: "rinv D p (k2\<lparr>kst := setkilled p (kst k2)\<rparr>)" if "rinv D p k2" for k2
    using that inv_updp [of "\<lambda>q. q\<lparr>p_killed := 1\<rparr>" D p p k2] by (simp add: setkilled_def k_updp_def pview_def)
  have odd: "post1 (trap_inv D p) (usertrap_tail 0 p h1 ((k_print f2 a2 (k_print f1 a1 k1))
       \<lparr>kst := setkilled p (kst (k_print f2 a2 (k_print f1 a1 k1)))\<rparr>))" for f1 a1 f2 a2
    by (intro post_usertrap_tail kill) (simp add: k_print_def k1)
  show ?thesis
    unfolding usertrap_def Let_def
    using x call fault odd post_usertrap_tail [OF k1] by (simp add: di)
qed

lemma post_forkret: "rinv D p k \<Longrightarrow> post1 (trap_inv D p) (forkret p h k)"
proof -
  assume inv: "rinv D p k"
  have "post1 (rinv D p) (if fs_first k then
        let path = map chr ''/init'' in
        bindR (on_fs (fsinit ROOTDEV) k) (\<lambda>k1.
        bindR (kexec p path [path] (k1\<lparr>fs_first := False\<rparr>)) (\<lambda>(r, k2).
        let k3 = tf_set p (TF_A 0) (word_of_int r) k2 in
        if tf_get p (TF_A 0) k3 = -1 then Panic ''exec'' else Ok k3))
      else Ok k)"
    unfolding Let_def by (auto intro!: post_rules simp: inv)
  then show ?thesis unfolding forkret_def by (rule post_seq(1)) (rule post_to_user)
qed

lemma post_run_kont: "rinv D p k \<Longrightarrow> post1 (trap_inv D p) (run_kont p h k)"
proof -
  assume inv: "rinv D p k"
  have call: "post1 (trap_inv D p) (bindR (resume_call p c (k\<lparr>konts := ko\<rparr>)) (\<lambda>(r, k1).
          case r of KRet _ \<Rightarrow> usertrap_tail 0 p h k1 | _ \<Rightarrow> Ok (UOff, h, k1)))" for c ko
    by (rule post_seq(1) [OF post_resume_call [of D]])
      (auto simp: inv call_inv_def rinvD(1) [OF inv] intro!: post_usertrap_tail trap_inv_off split: kcall.split)
  show ?thesis unfolding run_kont_def Let_def
    by (auto intro!: post_to_user post_forkret call inv_boost simp: inv split: option.split kont.split)
qed

section \<open>The machine\<close>

lemma sched_pick_RUNNABLE:
  assumes "sched_pick q st = Some p"
  shows "p < NPROC \<and> p_state (procs st ! p) = RUNNABLE"
proof -
  have "p < NPROC \<and> p_state (procs st ! p) = RUNNABLE" if "pick_from l s (procs st) = Some p" for l s
    using that
    by (induction l) (auto simp: pick_level_def find_Some_iff NPROC_def split: option.splits)
  then show ?thesis using assms unfolding sched_pick_def by blast
qed

lemma post_schedule:
  assumes inv: "kinv D k" and run: "schedule h k = Ok (r, h', k')"
  shows "case r of None \<Rightarrow> kinv D k' | Some (p, u) \<Rightarrow> trap_inv D p (u, h', k')"
proof -
  obtain q1 st1 where b: "sched_boost (ticks k) (kq k, kst k) = (q1, st1)" by fastforce
  have pi: "proc_inv (kst k)" "prev_i (kq k) < NPROC" using inv by (simp_all add: kinv_def)
  have pb: "pview (boost_proc q) = pview q" if "proc_fit q" for q
    by (rule pview_fit [OF that boost_fit [OF that]]) (simp add: boost_proc_def)
  have sb: "same_procs (kst k) st1" and q1: "prev_i q1 < NPROC"
    using b same_fit(2) [OF pi(1) pb] pi(2) by (auto simp: sched_boost_def Let_def split: if_splits)
  have kb: "kinv D (k\<lparr>kq := x, kst := st1\<rparr>)" if "prev_i x < NPROC" for x
    using kinv_same [OF sb, of D] inv that by (simp add: kinv_def)
  show ?thesis
  proof (cases "sched_pick q1 st1")
    case None
    then show ?thesis using run b kb [OF q1] by (auto simp: schedule_def sched_round_def)
  next
    case (Some p)
    let ?f = "\<lambda>p. p\<lparr>p_times_scheduled := p_times_scheduled p + 1, p_slice_start := sint (ucast (p_syscount p) :: u32), p_state := RUNNING\<rparr>"
    note pk = sched_pick_RUNNABLE [OF Some]
    obtain q2 st2 where d: "sched_dispatch p (q1, st1) = (q2, st2)" by fastforce
    then have "prev_i q2 < NPROC" by (auto simp: sched_dispatch_def NPROC_def)
    then have "rinv D p (k\<lparr>kq := q2, kst := st1\<rparr>)" using pk kb by (simp add: rinv_def live_def)
    from inv_state [OF this, of ?f] have "rinv D p (k\<lparr>kq := q2, kst := upd_proc p ?f st1\<rparr>)" by (simp add: live_def k_updp_def)
    then have "rinv D p (k\<lparr>kq := q2, kst := st2\<rparr>)"
      using d rinv_view [of "k\<lparr>kq := q2, kst := upd_proc p ?f st1\<rparr>" st2 D p] by (auto simp: sched_dispatch_def same_procs_def)
    from post_run_kont [OF this] show ?thesis using run b Some d
      by (auto simp: schedule_def sched_round_def post1_def)
  qed
qed

text \<open>
  The machine between kernel entries: the scheduler runs, or a user process does. User code changes
  its registers and memory as it likes, and traps at any point with any cause; the kernel's data is
  out of its reach.
\<close>

datatype machine = Scheduler hart kernel | User nat hart kernel

inductive mstep :: "machine \<Rightarrow> machine \<Rightarrow> bool" where
  idle: "schedule h k = Ok (None, h', k') \<Longrightarrow> mstep (Scheduler h k) (Scheduler h' k')"
| dispatch: "schedule h k = Ok (Some (p, URet pt), h', k') \<Longrightarrow> mstep (Scheduler h k) (User p h' k')"
| dispatch_off: "schedule h k = Ok (Some (p, UOff), h', k') \<Longrightarrow> mstep (Scheduler h k) (Scheduler h' (back_to_scheduler p k'))"
| user: "mstep (User p h k) (User p h' (k\<lparr>kst := (kst k)\<lparr>km := m\<rparr>\<rparr>))"
| trap: "usertrap d p h k = Ok (URet pt, h', k') \<Longrightarrow> mstep (User p h k) (User p h' k')"
| trap_off: "usertrap d p h k = Ok (UOff, h', k') \<Longrightarrow> mstep (User p h k) (Scheduler h' (back_to_scheduler p k'))"
| intr: "curp (kst k) = None \<Longrightarrow> kerneltrap d h k = Ok (b, h', k') \<Longrightarrow> mstep (Scheduler h k) (Scheduler h' k')"

fun machine_inv :: "machine \<Rightarrow> bool" where
  "machine_inv (Scheduler h k) = kinv (\<lambda>_. 0) k"
| "machine_inv (User p h k) = rinv (\<lambda>_. 0) p k"

fun kernel_of :: "machine \<Rightarrow> kernel" where
  "kernel_of (Scheduler h k) = k"
| "kernel_of (User p h k) = k"

lemma mstep_inv: "mstep a b \<Longrightarrow> machine_inv a \<Longrightarrow> machine_inv b"
proof (induction rule: mstep.induct)
  case (user p h k h' m)
  then show ?case using rinv_view [of k "(kst k)\<lparr>km := m\<rparr>"] by (simp add: same_procs_def)
next
  case (intr k d h b h' k')
  then obtain dev where "devintr d h k = (dev, h', k')"
    by (auto simp: kerneltrap_def Let_def split: if_splits prod.splits)
  then show ?case using kview_inv(1) [OF devintr_view] intr(3) by simp
next
  case (trap d p h k pt h' k')
  then show ?case using post_usertrap [of "\<lambda>_. 0" p k d h] by (simp add: post1_def trap_inv_def)
next
  case (trap_off d p h k h' k')
  then show ?case using post_usertrap [of "\<lambda>_. 0" p k d h] by (simp add: post1_def trap_inv_def)
next
  case (dispatch_off h k p h' k')
  then show ?case using post_schedule [OF _ dispatch_off(1), of "\<lambda>_. 0"] by (simp add: trap_inv_def)
next
  case (idle h k h' k')
  then show ?case using post_schedule [OF _ idle(1), of "\<lambda>_. 0"] by simp
next
  case (dispatch h k p pt h' k')
  then show ?case using post_schedule [OF _ dispatch(1), of "\<lambda>_. 0"] by (simp add: trap_inv_def)
qed

interpretation mach: step_invariant mstep machine_inv
  by unfold_locales (rule mstep_inv)

section \<open>The start\<close>

text \<open>Static storage, before the first process is made.\<close>

definition boot_ok :: "kernel \<Rightarrow> bool" where
  "boot_ok k = (length (procs (kst k)) = NPROC \<and> (\<forall>q\<in>set (procs (kst k)). p_state q = UNUSED \<and> p_pid q = 0 \<and> p_parent q = None \<and>
     p_ofile q = replicate NOFILE None) \<and> initproc (kst k) = None \<and> nextpid (kst k) = 1 \<and>
     length (ftable k) = NFILE \<and> (\<forall>f\<in>set (ftable k). fl_ref f = 0))"

text \<open>The scheduler's part of it, and no process id handed out.\<close>

definition boot_static :: "kernel \<Rightarrow> bool" where
  "boot_static k = (boot_ok k \<and> npids (kst k) = 0 \<and> prev_i (kq k) = 0 \<and>
     (\<forall>q\<in>set (procs (kst k)). p_level q = 0 \<and> p_used_ticks q = 0 \<and> p_total_ticks q = [0, 0, 0, 0]))"

lemma boot_kinv: "boot_static k \<Longrightarrow> kinv (\<lambda>_. 0) k"
proof -
  assume bs: "boot_static k"
  then have b: "boot_ok k" by (simp add: boot_static_def)
  then have len: "length (procs (kst k)) = NPROC" by (simp add: boot_ok_def)
  have q: "p_state (procs (kst k) ! i) = UNUSED \<and> p_pid (procs (kst k) ! i) = 0 \<and> p_parent (procs (kst k) ! i) = None \<and>
      p_ofile (procs (kst k) ! i) = replicate NOFILE None" if "i < NPROC" for i
    using b that by (auto simp: boot_ok_def)
  have "Some f \<notin> set (p_ofile x)" if "x \<in> set (procs (kst k))" for x f using b that by (auto simp: boot_ok_def)
  then have refs: "fd_refs (procs (kst k)) f = 0" for f by (auto simp: fd_refs_def count_eq_zero_iff)
  have "proc_fit (procs (kst k) ! i)" if "i < NPROC" for i
  proof -
    have "procs (kst k) ! i \<in> set (procs (kst k))" using len that by simp
    then have "p_level (procs (kst k) ! i) = 0 \<and> p_used_ticks (procs (kst k) ! i) = 0 \<and> p_total_ticks (procs (kst k) ! i) = [0, 0, 0, 0]"
      using bs by (simp add: boot_static_def)
    then show ?thesis by (simp add: proc_fit_def proc_ok_def)
  qed
  moreover have "pid_count (kst k)" using bs by (simp add: boot_static_def boot_ok_def pid_count_def signed_take_bit_int_eq_self)
  ultimately have "proc_inv (kst k)" using b q by (simp add: proc_inv_def boot_ok_def Let_def live_def no_files_def)
  then show ?thesis using b refs bs by (simp add: kinv_def boot_ok_def boot_static_def NPROC_def)
qed

lemma userinit_kinv:
  assumes inv: "kinv D k" and ini: "initproc (kst k) = None" and run: "userinit k = Ok k'"
  shows "kinv D k'"
proof -
  obtain r st1 where al0: "allocproc (kst k) = Ok (r, st1)" using run by (auto simp: userinit_def on_ksv_def)
  then obtain p where r: "r = Some p" using run by (cases r) (simp_all add: userinit_def on_ksv_def)
  note al = al0 [unfolded r]
  obtain ip k3 where nm: "on_fsv (namei 0 [SLASH]) (k\<lparr>kst := st1\<lparr>initproc := Some p\<rparr>, konts := (konts k)(p := Some KFork)\<rparr>) = Ok (ip, k3)"
    and k': "k' = k_updp p (\<lambda>q. q\<lparr>p_cwd := ip, p_state := RUNNABLE\<rparr>) k3"
    using run al by (simp add: userinit_def on_ksv_def Let_def) blast
  have len: "length (procs (kst k)) = NPROC" and pi: "proc_inv (kst k)" using inv by (simp_all add: kinv_def proc_inv_def)
  have i: "p < NPROC" "p_state (procs (kst k) ! p) = UNUSED" "same_procs (born p (kst k)) st1"
    by (rule allocproc_cases [OF al len]; simp)+
  have k1: "kinv D (k\<lparr>kst := st1\<rparr>)"
    using kinv_same [of "k\<lparr>kst := born p (kst k)\<rparr>" st1 D] kinv_born [OF inv i(1,2)] i(3) by simp
  have "fresh_proc p st1" using same_fresh [OF i(3) _ born_fresh [OF pi i(1,2)]] len by (simp add: born_def)
  then have p: "p < NPROC" "live (procs st1 ! p)" by (simp_all add: fresh_proc_def)
  have "proc_inv st1" using k1 by (simp add: kinv_def)
  moreover have f: "procs (st1\<lparr>initproc := Some p\<rparr>) = procs st1" "nextpid (st1\<lparr>initproc := Some p\<rparr>) = nextpid st1"
    "initproc (st1\<lparr>initproc := Some p\<rparr>) = Some p" "few_pids (st1\<lparr>initproc := Some p\<rparr>) = few_pids st1"
    "pid_count (st1\<lparr>initproc := Some p\<rparr>) = pid_count st1" by (simp_all add: few_pids_def pid_count_def)
  ultimately have "proc_inv (st1\<lparr>initproc := Some p\<rparr>)" using p unfolding proc_inv_def f option.inject by blast
  then have "rinv D p (k\<lparr>kst := st1\<lparr>initproc := Some p\<rparr>, konts := (konts k)(p := Some KFork)\<rparr>)"
    using k1 p by (simp add: rinv_def kinv_def)
  then have "rinv D p k3" using postD(2) [OF post_on_fs(2) nm] by blast
  then have "rinv D p k'" unfolding k' by (rule inv_state) (simp_all add: live_def)
  then show ?thesis by (rule rinv_kinv)
qed

definition started :: "machine \<Rightarrow> bool" where
  "started m = (\<exists>h k k1. boot_static k \<and> userinit k = Ok k1 \<and> m = Scheduler h k1)"

lemma reachable_inv:
  assumes "started m0" "mstep\<^sup>*\<^sup>* m0 m"
  shows "machine_inv m"
proof (rule mach.reach [OF assms(2)])
  show "machine_inv m0" using assms(1) userinit_kinv boot_kinv by (fastforce simp: started_def boot_static_def boot_ok_def)
qed

end
