(* ===== verification/Boot.thy ===== *)
theory Boot
  imports Calls FsNames
begin

text \<open>
  Enough memory is enough: with free pages for a trap frame and four tables, \<open>allocproc\<close> makes a
  process with exactly the two pages of the trap path mapped, and \<open>userinit\<close> makes the first one.
\<close>

section \<open>A fresh page table\<close>

lemma uvmcreate_spec:
  assumes inv: "kmem_inv ke (x # xs) k"
  obtains k' where "uvmcreate k = (x, k')" "pt_inv ke xs k' x" "\<forall>va. pte_of (mem k') x va = 0"
    "\<forall>q a. page_aligned q \<and> q \<noteq> x \<and> in_page q a \<longrightarrow> mem k' a = mem k a" "tables (mem k') x = {x}"
proof -
  obtain p k1 where al: "kalloc k = (p, k1)" by fastforce
  note a = kalloc_inv [OF inv al]
  let ?k = "k1\<lparr>mem := memset_page x 0 (mem k1)\<rparr>"
  have x: "page_ok ke x" "x \<notin> set xs" "x \<noteq> 0" "page_aligned x" using inv by (auto simp: kmem_inv_def page_ok_def word_less_nat_alt word_le_nat_alt)
  have ki: "kmem_inv ke xs ?k"
  proof (rule kmem_inv_write [OF a(2)])
    show "memset_page x 0 (mem k1) b = mem k1 b" if "y \<in> set xs" "in_page y b" for y b
    proof -
      have "page_aligned y" "y \<noteq> x" using that(1) inv by (auto simp: kmem_inv_def page_ok_def)
      then show ?thesis using pages_disjoint [of x y b] that(2) x(4) by (auto intro!: memset_page_other)
    qed
  qed
  have s: "sub (mem ?k) x b = None" if "b < 512" for b
    using load_memset_slot [OF x(4) x(4) that, of "mem k1"] by (simp add: sub_def)
  have wf: "wf_pt ke (set xs) (mem ?k) x" by (rule wf_ptI) (use x s in \<open>auto simp: tab0_def\<close>)
  have "mem ?k b = mem k b" if "page_aligned q" "q \<noteq> x" "in_page q b" for q b
    using that pages_disjoint [of x q b] x(4) by (metis a(3) kmem.select_convs(1) kmem.update_convs(1) kmem.surjective memset_page_other)
  moreover have "uvmcreate k = (x, ?k)" using al a(1) x(3) by (simp add: uvmcreate_def)
  moreover have "pte_of (mem ?k) x va = 0" for va using s by (simp add: pte_of_def tab0_def)
  moreover have "tables (mem ?k) x = {x}" using s by (auto simp: tables_def tab0_def)
  moreover have "pt_inv ke xs ?k x" using ki wf by (simp add: pt_inv_def)
  ultimately show thesis using that by blast
qed

lemma map_page:
  assumes inv: "pt_inv ke xs k pt" and va: "page_aligned va" "va < MAXVA" and free: "even (pte_of (mem k) pt va)" and len: "2 \<le> length xs"
  obtains ys k' where "mappages pt va (of_nat PGSIZE) pa perm k = Ok (0, k')" "length xs \<le> length ys + 2" "confined ke pt xs k ys k'"
    "\<forall>a<MAXVA. pte_of (mem k') pt a = (if vpn a = vpn va then PA2PTE pa OR perm OR PTE_V else pte_of (mem k) pt a)"
proof -
  obtain ys k1 where w: "grows ke pt xs k ys k1" "walked pt va ys k1 (walk_from 2 pt va True k)"
    "length xs \<le> length ys + 2" "fst (walk_from 2 pt va True k) = 0 \<longrightarrow> length xs < 2"
    using walk_alloc [OF inv] by blast
  have wk: "walk pt va True k = Ok (fst (walk_from 2 pt va True k), k1)"
    using va(2) w(2) by (cases "walk_from 2 pt va True k") (simp add: walk_def walked_def)
  obtain t where t: "tab0 (mem k1) pt (PX 2 va) (PX 1 va) = Some t" "fst (walk_from 2 pt va True k) = pte_addr t (PX 0 va)" "pte_addr t (PX 0 va) \<noteq> 0"
    using w(2,4) len by (auto simp: walked_def split: if_splits)
  let ?e = "PA2PTE pa OR perm OR PTE_V"
  let ?k = "k1\<lparr>mem := store64 (pte_addr t (PX 0 va)) ?e (mem k1)\<rparr>"
  have e: "load64 (mem k1) (pte_addr t (PX 0 va)) = pte_of (mem k) pt va"
    using w(1) walked_pte [OF t(1)] by (simp add: grows_def)
  have "mappages_loop (Suc 0) pt va pa perm k = Ok (0, ?k)"
    using wk t(2,3) free PTE_V_bit [of "pte_of (mem k) pt va"] by (simp add: e)
  moreover have "vpn (of_nat PGSIZE) = Suc 0" "page_aligned (of_nat PGSIZE)" by (simp_all add: vpn_def page_aligned_def kconst)
  ultimately have run: "mappages pt va (of_nat PGSIZE) pa perm k = Ok (0, ?k)"
    using mappages_eq_loop [OF va(1), of "of_nat PGSIZE" pt pa perm k] by (simp add: kconst)
  have f: "pte_of (mem ?k) pt a = (if vpn a = vpn va then ?e else pte_of (mem k) pt a)" if "a < MAXVA" for a
    using leaf_store(2) [OF grows_inv [OF w(1)] t(1) va(2) that, of ?e] w(1) by (simp add: grows_def)
  have c: "confined ke pt xs k ys ?k"
    using confined_trans leaf_store_confined [OF grows_inv [OF w(1)] t(1)] w(1) grows_def by blast
  show thesis using that [OF run w(3) c] f by blast
qed

text \<open>The entries of a new process's table.\<close>

definition proc_ptes :: "u64 \<Rightarrow> u64 \<Rightarrow> u64 \<Rightarrow> pte" where
  "proc_ptes tr tf a =
     (if vpn a = vpn TRAMPOLINE then PA2PTE tr OR PTE_R OR PTE_X OR PTE_V
      else if vpn a = vpn TRAPFRAME then PA2PTE tf OR PTE_R OR PTE_W OR PTE_V else 0)"

lemma trap_pages: "page_aligned TRAMPOLINE" "TRAMPOLINE < MAXVA" "page_aligned TRAPFRAME" "TRAPFRAME < MAXVA" "vpn TRAPFRAME \<noteq> vpn TRAMPOLINE"
  by (simp_all add: TRAMPOLINE_def TRAPFRAME_def MAXVA_def page_aligned_def vpn_def kconst)

lemma proc_pagetable_ok:
  assumes inv: "kmem_inv ke (x # xs) (km st)" and len: "4 \<le> length xs"
  obtains m ys where "proc_pagetable p st = Ok (x, st\<lparr>km := m\<rparr>)" "pt_inv ke ys m x" "length xs \<le> length ys + 4"
    "\<forall>a<MAXVA. pte_of (mem m) x a = proc_ptes (trampoline st) (p_trapframe (procs st ! p)) a"
    "\<forall>q a. page_aligned q \<and> q \<notin> set (x # xs) \<and> in_page q a \<longrightarrow> mem m a = mem (km st) a"
proof -
  obtain k1 where c: "uvmcreate (km st) = (x, k1)" "pt_inv ke xs k1 x" "\<forall>va. pte_of (mem k1) x va = 0"
    "\<forall>q a. page_aligned q \<and> q \<noteq> x \<and> in_page q a \<longrightarrow> mem k1 a = mem (km st) a"
    "tables (mem k1) x = {x}"
    using uvmcreate_spec [OF inv] by blast
  have x: "x \<noteq> 0" using inv by (auto simp: kmem_inv_def page_ok_def word_less_nat_alt word_le_nat_alt)
  have free0: "even (pte_of (mem k1) x TRAMPOLINE)" "2 \<le> length xs" using c(3) len by auto
  obtain ys k2 where m1: "mappages x TRAMPOLINE (of_nat PGSIZE) (trampoline st) (PTE_R OR PTE_X) k1 = Ok (0, k2)"
    "length xs \<le> length ys + 2" "confined ke x xs k1 ys k2"
    "\<forall>a<MAXVA. pte_of (mem k2) x a = (if vpn a = vpn TRAMPOLINE then PA2PTE (trampoline st) OR (PTE_R OR PTE_X) OR PTE_V else pte_of (mem k1) x a)"
    using map_page [OF c(2) trap_pages(1,2) free0] by blast
  have free: "even (pte_of (mem k2) x TRAPFRAME)" "2 \<le> length ys" using m1(2,4) trap_pages(4,5) c(3) len by auto
  obtain zs k3 where m2: "mappages x TRAPFRAME (of_nat PGSIZE) (p_trapframe (procs st ! p)) (PTE_R OR PTE_W) k2 = Ok (0, k3)"
    "length ys \<le> length zs + 2" "confined ke x ys k2 zs k3"
    "\<forall>a<MAXVA. pte_of (mem k3) x a = (if vpn a = vpn TRAPFRAME then PA2PTE (p_trapframe (procs st ! p)) OR (PTE_R OR PTE_W) OR PTE_V else pte_of (mem k2) x a)"
    using map_page [OF confined_inv [OF m1(3)] trap_pages(3,4) free] by blast
  have run: "proc_pagetable p st = Ok (x, st\<lparr>km := k3\<rparr>)"
    using c(1) x m1(1) m2(1) by (simp add: proc_pagetable_def k_mappages_def)
  have ptes: "pte_of (mem k3) x a = proc_ptes (trampoline st) (p_trapframe (procs st ! p)) a" if "a < MAXVA" for a
    using m2(4) m1(4) that c(3) trap_pages(5) by (simp add: proc_ptes_def or.assoc)
  have con: "confined ke x xs k1 zs k3" by (rule confined_trans [OF m1(3) m2(3)])
  then have "mem k3 a = mem (km st) a" if "page_aligned q" "q \<notin> set (x # xs)" "in_page q a" for q a
    using that c(4) c(5) unfolding confined_def by (metis Un_iff list.set_intros(1) list.set_intros(2) singletonD)
  then show thesis using that run confined_inv [OF con] ptes m1(2) m2(2) by force
qed

section \<open>A new process\<close>

definition new_proc :: "int \<Rightarrow> u64 \<Rightarrow> u64 \<Rightarrow> u64 \<Rightarrow> proc \<Rightarrow> proc" where
  "new_proc pid tf pt ra q = q\<lparr>p_level := 0, p_used_ticks := 0, p_times_scheduled := 0, p_slice_start := 0,
     p_total_ticks := [0, 0, 0, 0], p_page_faults := 0, p_pages_evicted := 0, p_pages_swapped_in := 0, p_pages_swapped_out := 0,
     p_resident := 0, p_disk_reads := 0, p_disk_writes := 0, p_total_latency := 0, p_disk_ops := 0,
     p_pid := pid, p_state := USED, p_syscount := 0, p_trapframe := tf, p_pagetable := pt,
     p_context := [ra, p_kstack q + of_nat PGSIZE] @ replicate 12 0\<rparr>"

lemma allocproc_ok:
  assumes i: "find_index (\<lambda>q. p_state q = UNUSED) (procs st) = Some i"
    and inv: "kmem_inv ke (t # x # xs) (km st)" and len: "4 \<le> length xs"
  shows "\<exists>m ys. allocproc st = Ok (Some i, st\<lparr>procs := (procs st)[i := new_proc (nextpid st) t x (forkret_addr st) (procs st ! i)],
      nextpid := signed_take_bit 31 (nextpid st + 1), npids := Suc (npids st), km := m\<rparr>) \<and> pt_inv ke ys m x \<and> length xs \<le> length ys + 4 \<and>
    (\<forall>a<MAXVA. pte_of (mem m) x a = proc_ptes (trampoline st) t a) \<and>
    (\<forall>q a. page_aligned q \<and> q \<notin> set (t # x # xs) \<and> in_page q a \<longrightarrow> mem m a = mem (km st) a)"
proof -
  have lt: "i < length (procs st)" using find_index_SomeD [OF i] by simp
  obtain p k1 where al: "kalloc (km st) = (p, k1)" by fastforce
  note a = kalloc_inv [OF inv al]
  have t: "t \<noteq> 0" "x \<noteq> 0" "page_aligned t" using inv by (auto simp: kmem_inv_def page_ok_def word_less_nat_alt word_le_nat_alt)
  define st5 where "st5 = upd_proc i (\<lambda>q. q\<lparr>p_trapframe := t\<rparr>) ((upd_proc i (\<lambda>q. q\<lparr>p_pid := nextpid st, p_state := USED, p_syscount := 0\<rparr>)
     ((upd_proc i (\<lambda>q. q\<lparr>p_level := 0, p_used_ticks := 0, p_times_scheduled := 0, p_slice_start := 0,
                p_total_ticks := [0, 0, 0, 0], p_page_faults := 0, p_pages_evicted := 0, p_pages_swapped_in := 0,
                p_pages_swapped_out := 0, p_resident := 0, p_disk_reads := 0, p_disk_writes := 0,
                p_total_latency := 0, p_disk_ops := 0\<rparr>) st)\<lparr>nextpid := signed_take_bit 31 (nextpid st + 1), npids := Suc (npids st)\<rparr>))\<lparr>km := k1\<rparr>)"
  have f5: "km st5 = k1" "trampoline st5 = trampoline st" "forkret_addr st5 = forkret_addr st" "p_trapframe (procs st5 ! i) = t" "length (procs st5) = length (procs st)"
    using lt by (simp_all add: st5_def upd_proc_def)
  obtain m ys where m: "proc_pagetable i st5 = Ok (x, st5\<lparr>km := m\<rparr>)" "pt_inv ke ys m x" "length xs \<le> length ys + 4"
      "\<forall>a<MAXVA. pte_of (mem m) x a = proc_ptes (trampoline st) t a"
      "\<forall>q a. page_aligned q \<and> q \<notin> set (x # xs) \<and> in_page q a \<longrightarrow> mem m a = mem k1 a"
    using proc_pagetable_ok [of ke x xs st5 i] a(2) len by (auto simp: f5)
  have run: "allocproc st = (let st7 = upd_proc i (\<lambda>q. q\<lparr>p_pagetable := x\<rparr>) (st5\<lparr>km := m\<rparr>) in
     Ok (Some i, upd_proc i (\<lambda>q. q\<lparr>p_context := [forkret_addr st7, p_kstack q + of_nat PGSIZE] @ replicate 12 0\<rparr>) st7))"
    using m(1) al a(1) t(1,2) by (simp add: allocproc_def i allocpid_def k_alloc_def st5_def upd_proc_def Let_def)
  also have "\<dots> = Ok (Some i, st\<lparr>procs := (procs st)[i := new_proc (nextpid st) t x (forkret_addr st) (procs st ! i)],
      nextpid := signed_take_bit 31 (nextpid st + 1), npids := Suc (npids st), km := m\<rparr>)"
    using lt by (simp add: st5_def upd_proc_def Let_def new_proc_def)
  finally have r: "allocproc st = Ok (Some i, st\<lparr>procs := (procs st)[i := new_proc (nextpid st) t x (forkret_addr st) (procs st ! i)],
      nextpid := signed_take_bit 31 (nextpid st + 1), npids := Suc (npids st), km := m\<rparr>)" .
  have "mem m a = mem (km st) a" if "page_aligned q" "q \<notin> set (t # x # xs)" "in_page q a" for q a
  proof -
    have "mem m a = mem k1 a" using m(5) that by auto
    also have "\<dots> = mem (km st) a" using that pages_disjoint [of t q a] t(3) by (metis a(3) list.set_intros(1) memset_page_other)
    finally show ?thesis .
  qed
  then show ?thesis using r m(2-4) by blast
qed

section \<open>The first process\<close>

text \<open>An inode table that nobody uses.\<close>

definition itable_unused :: "fsys \<Rightarrow> bool" where
  "itable_unused s = (itable s \<noteq> [] \<and> (\<forall>ip\<in>set (itable s). i_ref ip = 0))"

lemma namei_root:
  assumes "itable_unused s"
  shows "namei c [SLASH] s = Ok (Some 0, upd_inode 0 (\<lambda>ip. ip\<lparr>i_dev := ROOTDEV, i_inum := ROOTINO, i_ref := 1, i_valid := False\<rparr>) s)"
proof -
  have ne: "itable s \<noteq> []" and z: "\<And>ip. ip \<in> set (itable s) \<Longrightarrow> i_ref ip = 0" using assms by (auto simp: itable_unused_def)
  have "find_index (\<lambda>ip. 0 < i_ref ip \<and> i_dev ip = ROOTDEV \<and> i_inum ip = ROOTINO) (itable s) = None"
    using z by (auto simp: find_index_None)
  moreover have "find_index (\<lambda>ip. i_ref ip = 0) (itable s) = Some 0" using ne z by (cases "itable s") auto
  ultimately show ?thesis by (simp add: namei_def namex_def iget_def namex_loop.simps skipelem_def)
qed

lemma itable_kfs [simp]: "itable (kfs k) = itable (fsy k)"
  by (simp add: kfs_def with_bc_def)

lemma boot_slot: "boot_ok k \<Longrightarrow> find_index (\<lambda>q. p_state q = UNUSED) (procs (kst k)) = Some 0"
  by (cases "procs (kst k)") (auto simp: boot_ok_def NPROC_def)

lemma userinit_ok:
  assumes boot: "boot_ok k" and inv: "kmem_inv ke (t # x # xs) (km (kst k))" "4 \<le> length xs" and unused: "itable_unused (fsy k)"
  shows "\<exists>k'. userinit k = Ok k' \<and> initproc (kst k') = Some 0 \<and>
    procs (kst k') = (procs (kst k))[0 := (new_proc 1 t x (forkret_addr (kst k)) (procs (kst k) ! 0))\<lparr>p_cwd := Some 0, p_state := RUNNABLE\<rparr>] \<and>
    (\<forall>a<MAXVA. pte_of (mem (km (kst k'))) x a = proc_ptes (trampoline (kst k)) t a) \<and>
    i_dev (itable (fsy k') ! 0) = ROOTDEV \<and> i_inum (itable (fsy k') ! 0) = ROOTINO \<and> i_ref (itable (fsy k') ! 0) = 1 \<and>
    curp (kst k') = curp (kst k) \<and> ticks k' = ticks k \<and> kq k' = kq k \<and> konts k' 0 = Some KFork \<and> fs_first k' = fs_first k"
proof -
  have pid: "nextpid (kst k) = 1" and len: "length (procs (kst k)) = NPROC" using boot by (simp_all add: boot_ok_def)
  obtain m where m: "allocproc (kst k) = Ok (Some 0, (kst k)\<lparr>procs := (procs (kst k))[0 := new_proc 1 t x (forkret_addr (kst k)) (procs (kst k) ! 0)],
      nextpid := 2, npids := Suc (npids (kst k)), km := m\<rparr>)" "\<forall>a<MAXVA. pte_of (mem m) x a = proc_ptes (trampoline (kst k)) t a"
    using allocproc_ok [OF boot_slot [OF boot] inv] unfolding pid by (auto simp: signed_take_bit_int_eq_self)
  let ?st = "(kst k)\<lparr>procs := (procs (kst k))[0 := new_proc 1 t x (forkret_addr (kst k)) (procs (kst k) ! 0)], nextpid := 2, npids := Suc (npids (kst k)), km := m, initproc := Some 0\<rparr>"
  let ?k = "k\<lparr>kst := ?st, konts := (konts k)(0 := Some KFork)\<rparr>"
  have un: "itable_unused (kfs ?k)" using unused by (simp add: itable_unused_def)
  have ne: "itable (fsy k) \<noteq> []" using unused by (simp add: itable_unused_def)
  have run: "userinit k = Ok (k_updp 0 (\<lambda>q. q\<lparr>p_cwd := Some 0, p_state := RUNNABLE\<rparr>)
      (?k\<lparr>fsy := upd_inode 0 (\<lambda>ip. ip\<lparr>i_dev := ROOTDEV, i_inum := ROOTINO, i_ref := 1, i_valid := False\<rparr>) (kfs ?k)\<rparr>))"
    unfolding userinit_def using m(1) namei_root [OF un] by (simp add: on_ksv_def on_fsv_def Let_def)
  show ?thesis
    unfolding run using m(2) len ne by (simp add: k_updp_def upd_proc_def upd_inode_def NPROC_def)
qed

section \<open>A machine\<close>

text \<open>The static storage at boot with six free pages.\<close>

definition six_pages :: "u64 list" where
  "six_pages = [0x80100000, 0x80101000, 0x80102000, 0x80103000, 0x80104000, 0x80105000]"

definition six_mem :: memory where
  "six_mem = store64 0x80100000 0x80101000 (store64 0x80101000 0x80102000 (store64 0x80102000 0x80103000
     (store64 0x80103000 0x80104000 (store64 0x80104000 0x80105000 (\<lambda>_. 0)))))"

lemma load_link:
  assumes "page_aligned p" "page_aligned q"
  shows "load64 (store64 p v m) q = (if p = q then v else load64 m q)"
  using load_store_slot [OF assms(1) _ assms(2), of 0 0 v m] by (simp add: pte_addr_def)

lemma six_inv: "kmem_inv 0x80021000 six_pages \<lparr>mem = six_mem, freelist = 0x80100000\<rparr>"
  by (simp add: kmem_inv_def six_pages_def six_mem_def load_link page_aligned_def page_ok_def PHYSTOP_def kconst load64_zero)

definition boot_kernel :: "memory \<Rightarrow> u64 \<Rightarrow> kernel" where
  "boot_kernel m fl = \<lparr>kst = (boot_kstate 0x80021000 0x80008000 0x80007000 0x80001000)\<lparr>km := \<lparr>mem = m, freelist = fl\<rparr>\<rparr>,
     fsy = boot_fsys (\<lambda>_. []), ftable = replicate NFILE \<lparr>fl_type = FD_NONE, fl_ref = 0, fl_readable = False, fl_writable = False,
       fl_pipe = 0, fl_ip = 0, fl_off = 0, fl_major = 0\<rparr>, pipes = (\<lambda>_. None),
     kcons = \<lparr>c_buf = replicate INPUT_BUF_SIZE 0, c_r = 0, c_w = 0, c_e = 0\<rparr>, kuart = \<lparr>tx_busy = False, tx_out = []\<rparr>,
     ticks = 0, gticks = 0, kq = \<lparr>prev_b = 0, prev_i = 0\<rparr>, konts = (\<lambda>_. None), fs_first = True\<rparr>"

lemma boot_kernel_ok: "boot_ok (boot_kernel m fl)" "itable_unused (fsy (boot_kernel m fl))" "boot_static (boot_kernel m fl)"
  by (auto simp: boot_static_def boot_ok_def boot_kernel_def boot_kstate_def blank_proc_def itable_unused_def boot_fsys_def iinit_def blank_inode_def NINODE_def)

section \<open>Reference counts\<close>

lemma fd_refs_bounds: "0 \<le> fd_refs ps f" "(\<And>q. q \<in> set ps \<Longrightarrow> length (p_ofile q) = n) \<Longrightarrow> fd_refs ps f \<le> int (length ps * n)"
proof -
  assume l: "\<And>q. q \<in> set ps \<Longrightarrow> length (p_ofile q) = n"
  have "count (mset (concat (map p_ofile ps))) (Some f) \<le> length (concat (map p_ofile ps))"
    by (metis count_le_size size_mset)
  also have "\<dots> = length ps * n" using l by (induction ps) simp_all
  finally show "fd_refs ps f \<le> int (length ps * n)" unfolding fd_refs_def by linarith
qed (simp add: fd_refs_def)

lemma fd_refs_pos: "q \<in> set ps \<Longrightarrow> Some f \<in> set (p_ofile q) \<Longrightarrow> 1 \<le> fd_refs ps f"
proof -
  assume "q \<in> set ps" "Some f \<in> set (p_ofile q)"
  then have "Some f \<in># mset (concat (map p_ofile ps))" by auto
  then have "1 \<le> count (mset (concat (map p_ofile ps))) (Some f)" by (metis One_nat_def Suc_leI count_greater_zero_iff)
  then show ?thesis by (simp add: fd_refs_def)
qed

lemma ref_bounds:
  assumes "kinv (\<lambda>_. 0) k" "f < NFILE"
  shows "0 \<le> fl_ref (ftable k ! f) \<and> fl_ref (ftable k ! f) \<le> int (NPROC * NOFILE)"
proof -
  have l: "length (procs (kst k)) = NPROC" and pi: "proc_inv (kst k)" using assms(1) by (auto simp: kinv_def proc_inv_def)
  have "length (p_ofile q) = NOFILE" if "q \<in> set (procs (kst k))" for q
    using that proc_invD(2) [OF pi] l by (metis in_set_conv_nth)
  then show ?thesis using fd_refs_bounds [of "procs (kst k)"] assms l by (auto simp: kinv_def)
qed

lemma ref_open:
  assumes inv: "rinv (\<lambda>_. 0) p k" and fd: "fd < NOFILE" "p_ofile (procs (kst k) ! p) ! fd = Some f"
  shows "1 \<le> fl_ref (ftable k ! f)"
proof -
  note d = rinvD [OF inv]
  have "procs (kst k) ! p \<in> set (procs (kst k))" "Some f \<in> set (p_ofile (procs (kst k) ! p))"
    using d fd by (simp, metis nth_mem)
  from fd_refs_pos [OF this] show ?thesis using inv d(5) [OF fd] by (simp add: rinv_def kinv_def)
qed

lemma sys_dup_total:
  assumes inv: "rinv (\<lambda>_. 0) p k"
  shows "\<exists>r k'. sys_dup p k = Ok (r, k') \<and> -1 \<le> r \<and> r < int NOFILE"
proof -
  obtain a where a: "argfd p 0 k = Ok a" by (simp add: argfd_def argint_def argraw_def)
  show ?thesis
  proof (cases a)
    case (Some x)
    obtain fd0 f where x: "x = (fd0, f)" by fastforce
    have f: "fd0 < NOFILE" "p_ofile (procs (kst k) ! p) ! fd0 = Some f" "f < NFILE" using argfd_spec [OF inv] a Some x by blast+
    obtain fd k1 where al: "fdalloc p f k = (fd, k1)" by fastforce
    have "ftable k1 = ftable k" using al by (auto simp: fdalloc_def k_updp_def split: option.splits)
    then have "filedup f k1 \<noteq> Panic m" for m using ref_open [OF inv f(1,2)] by (simp add: filedup_def)
    then obtain k2 where "filedup f k1 = Ok k2" by (cases "filedup f k1") auto
    then show ?thesis using fdalloc_spec [OF inv f(3) al] a Some x al by (auto simp: sys_dup_def NOFILE_def)
  qed (simp add: sys_dup_def a NOFILE_def)
qed

section \<open>Theorems\<close>

text \<open>
  C18. The kernel makes its first process: from static storage with six free pages, \<open>userinit\<close>
  returns (it does not panic); the process in slot 0 has pid 1, is runnable, works in the root
  directory, holds no files, and its address space maps exactly the trampoline and its trap frame.
\<close>

theorem userinit_first_process:
  assumes "boot_ok k" "kmem_inv ke (t # x # xs) (km (kst k))" "4 \<le> length xs" "itable_unused (fsy k)"
  shows "\<exists>k'. userinit k = Ok k' \<and> initproc (kst k') = Some 0 \<and>
    procs (kst k') = (procs (kst k))[0 := (new_proc 1 t x (forkret_addr (kst k)) (procs (kst k) ! 0))\<lparr>p_cwd := Some 0, p_state := RUNNABLE\<rparr>] \<and>
    (\<forall>a<MAXVA. pte_of (mem (km (kst k'))) x a = proc_ptes (trampoline (kst k)) t a) \<and>
    i_dev (itable (fsy k') ! 0) = ROOTDEV \<and> i_inum (itable (fsy k') ! 0) = ROOTINO \<and> i_ref (itable (fsy k') ! 0) = 1"
  using userinit_ok [OF assms] by blast

theorem userinit_first_process_witness:
  "\<exists>k'. userinit (boot_kernel six_mem 0x80100000) = Ok k' \<and> initproc (kst k') = Some 0 \<and>
     pte_of (mem (km (kst k'))) 0x80101000 TRAMPOLINE = PA2PTE 0x80007000 OR PTE_R OR PTE_X OR PTE_V"
proof -
  let ?k = "boot_kernel six_mem 0x80100000"
  have k: "km (kst ?k) = \<lparr>mem = six_mem, freelist = 0x80100000\<rparr>" "trampoline (kst ?k) = 0x80007000"
    by (simp_all add: boot_kernel_def boot_kstate_def)
  have "kmem_inv 0x80021000 (0x80100000 # 0x80101000 # [0x80102000, 0x80103000, 0x80104000, 0x80105000]) (km (kst ?k))"
    using six_inv by (simp add: k(1) six_pages_def)
  from userinit_first_process [OF boot_kernel_ok(1) this _ boot_kernel_ok(2)] obtain k' where
    "userinit ?k = Ok k'" "initproc (kst k') = Some 0" "\<forall>a<MAXVA. pte_of (mem (km (kst k'))) 0x80101000 a = proc_ptes 0x80007000 0x80100000 a"
    unfolding k(2) by auto
  then show ?thesis using trap_pages by (auto simp: proc_ptes_def)
qed

text \<open>
  C3. Whatever the user programs do, and however traps, interrupts and scheduler rounds follow each
  other after the first process was made, the kernel's tables stay consistent: parents and init are
  alive, unused slots and zombies hold no files, descriptors name entries of the file table, the
  reference count of every open file is the number of descriptors that refer to it, and the
  scheduler's levels are in range. Process ids are unique, positive and below the counter as long
  as fewer than \<open>2 ^ 31 - 1\<close> of them have been handed out; then \<open>nextpid\<close>, a C \<open>int\<close>, wraps around.
\<close>

theorem kernel_invariant:
  assumes "boot_static k" "userinit k = Ok k1" "mstep\<^sup>*\<^sup>* (Scheduler h k1) m"
  shows "machine_inv m"
  using reachable_inv [of "Scheduler h k1" m] assms unfolding started_def by blast

lemma boot_userinit:
  "\<exists>k1. userinit (boot_kernel six_mem 0x80100000) = Ok k1 \<and> curp (kst k1) = None \<and> ticks k1 = 0"
proof -
  have "kmem_inv 0x80021000 (0x80100000 # 0x80101000 # [0x80102000, 0x80103000, 0x80104000, 0x80105000]) (km (kst (boot_kernel six_mem 0x80100000)))"
    using six_inv by (simp add: boot_kernel_def six_pages_def)
  from userinit_ok [OF boot_kernel_ok(1) this _ boot_kernel_ok(2)] show ?thesis
    by (auto simp: boot_kernel_def boot_kstate_def)
qed

text \<open>A timer interrupt that finds the scheduler.\<close>

definition tick_hart :: hart where
  "tick_hart = \<lparr>h_sstatus = SSTATUS_SPP, h_sepc = 0, h_scause = 0x8000000000000005, h_stval = 0, h_stvec = 0, h_satp = 0, h_tp = 0,
     h_time = 7, h_stimecmp = 0, h_intr = False, kernelvec = 0, uservec = 0, usertrap_addr = 0\<rparr>"

theorem kernel_invariant_witness:
  "\<exists>k1 h2 k2. userinit (boot_kernel six_mem 0x80100000) = Ok k1 \<and> mstep\<^sup>*\<^sup>* (Scheduler tick_hart k1) (Scheduler h2 k2) \<and>
     ticks k2 = 1 \<and> machine_inv (Scheduler h2 k2)"
proof -
  obtain k1 where k1: "userinit (boot_kernel six_mem 0x80100000) = Ok k1" "curp (kst k1) = None" "ticks k1 = 0"
    using boot_userinit by blast
  let ?h = "tick_hart\<lparr>h_stimecmp := 1000007\<rparr>" and ?k = "k_wakeup ticks_chan (k1\<lparr>ticks := 1\<rparr>)"
  have "kerneltrap \<lparr>d_irq = 0, d_idle = True, d_input = []\<rparr> tick_hart k1 = Ok (False, ?h, ?k)"
    using k1(2,3) by (simp add: kerneltrap_def devintr_def clockintr_def tick_hart_def SSTATUS_SPP_def)
  then have s: "mstep\<^sup>*\<^sup>* (Scheduler tick_hart k1) (Scheduler ?h ?k)" using mstep.intr [OF k1(2)] by blast
  have "machine_inv (Scheduler ?h ?k)" by (rule kernel_invariant [OF boot_kernel_ok(3) k1(1) s])
  then show ?thesis using k1(1) s by (auto simp: k_wakeup_def intro!: exI [of _ k1] exI [of _ ?h] exI [of _ ?k])
qed

lemma machine_levels:
  assumes "machine_inv m"
  shows "mlfq_ok (kq (kernel_of m), kst (kernel_of m)) \<and> (\<forall>q\<in>set (procs (kst (kernel_of m))). proc_fit q)"
proof -
  have k: "kinv (\<lambda>_. 0) (kernel_of m)" using assms by (cases m) (simp_all add: rinv_kinv)
  then have "proc_inv (kst (kernel_of m))" "prev_i (kq (kernel_of m)) < NPROC" by (simp_all add: kinv_def)
  moreover have len: "length (procs (kst (kernel_of m))) = NPROC" using k by (simp add: kinv_def proc_inv_def)
  ultimately have "\<forall>q\<in>set (procs (kst (kernel_of m))). proc_fit q" using proc_invD(9) by (auto simp: in_set_conv_nth)
  then show ?thesis using len \<open>prev_i _ < NPROC\<close> by (simp add: mlfq_ok_def proc_fit_def)
qed

text \<open>
  C34. The levels of the feedback queue. From boot on, whatever processes are created, run, forked,
  killed, waited for and buried, and however system calls, timer ticks, yields, sleeps, boosts and
  scheduler rounds follow each other: every slot of the process table has a level between 0 and 3,
  so the indices into the quantum table and into \<open>total_ticks\<close> are in range, its used ticks are
  between 0 and 15, and the scheduler's position is a slot of the table. So the states in which
  the scheduler is correct are the ones it meets. (Interrupts come in user mode and in the scheduler.)
\<close>

theorem mlfq_levels_bounded:
  assumes "boot_static k" "userinit k = Ok k1" "mstep\<^sup>*\<^sup>* (Scheduler h k1) m" "p \<in> set (procs (kst (kernel_of m)))"
  shows "0 \<le> p_level p \<and> p_level p \<le> 3 \<and> nat (p_level p) < length quantum_times \<and>
    nat (p_level p) < length (p_total_ticks p) \<and> 0 \<le> p_used_ticks p \<and> p_used_ticks p < 16 \<and>
    prev_i (kq (kernel_of m)) < NPROC \<and> mlfq_ok (kq (kernel_of m), kst (kernel_of m))"
proof -
  have "machine_inv m" using reachable_inv [of "Scheduler h k1" m] assms(1-3) unfolding started_def by blast
  from machine_levels [OF this] have "proc_fit p" "mlfq_ok (kq (kernel_of m), kst (kernel_of m))" using assms(4) by blast+
  then show ?thesis by (auto simp: proc_fit_def proc_ok_def mlfq_ok_def quantum_times_def)
qed

text \<open>
  The first process, without a file system to start from, is dispatched and goes to user space,
  where a timer interrupt takes it off the CPU after a tick.
\<close>

definition warm_kernel :: kernel where
  "warm_kernel = (boot_kernel six_mem 0x80100000)\<lparr>fs_first := False\<rparr>"

lemma warm_userinit:
  "\<exists>k1 q. userinit warm_kernel = Ok k1 \<and> procs (kst k1) = (replicate NPROC blank_proc)[0 := q] \<and> p_state q = RUNNABLE \<and> p_level q = 0 \<and>
     p_used_ticks q = 0 \<and> p_killed q = 0 \<and> ticks k1 = 0 \<and> kq k1 = \<lparr>prev_b = 0, prev_i = 0\<rparr> \<and> konts k1 0 = Some KFork \<and> \<not> fs_first k1"
proof -
  have b: "boot_ok warm_kernel" "itable_unused (fsy warm_kernel)"
    using boot_kernel_ok [of six_mem "0x80100000"] by (simp_all add: warm_kernel_def boot_ok_def)
  have "kmem_inv 0x80021000 (0x80100000 # 0x80101000 # [0x80102000, 0x80103000, 0x80104000, 0x80105000]) (km (kst warm_kernel))"
    using six_inv by (simp add: warm_kernel_def boot_kernel_def six_pages_def)
  from userinit_ok [OF b(1) this _ b(2)] obtain k1 where k1: "userinit warm_kernel = Ok k1" "procs (kst k1) = (procs (kst warm_kernel))
      [0 := (new_proc 1 0x80100000 0x80101000 (forkret_addr (kst warm_kernel)) (procs (kst warm_kernel) ! 0))\<lparr>p_cwd := Some 0, p_state := RUNNABLE\<rparr>]"
      "ticks k1 = ticks warm_kernel" "kq k1 = kq warm_kernel" "konts k1 0 = Some KFork" "fs_first k1 = fs_first warm_kernel"
    by auto
  have w: "procs (kst warm_kernel) = replicate NPROC blank_proc" "ticks warm_kernel = 0" "kq warm_kernel = \<lparr>prev_b = 0, prev_i = 0\<rparr>"
      "\<not> fs_first warm_kernel" "p_killed (procs (kst warm_kernel) ! 0) = 0"
    by (simp_all add: warm_kernel_def boot_kernel_def boot_kstate_def blank_proc_def NPROC_def)
  let ?q = "(new_proc 1 0x80100000 0x80101000 (forkret_addr (kst warm_kernel)) (procs (kst warm_kernel) ! 0))\<lparr>p_cwd := Some 0, p_state := RUNNABLE\<rparr>"
  have "procs (kst k1) = (replicate NPROC blank_proc)[0 := ?q]" using k1(2) w(1) by simp
  moreover have "p_state ?q = RUNNABLE" "p_level ?q = 0" "p_used_ticks ?q = 0" "p_killed ?q = 0" using w(5) by (simp_all add: new_proc_def)
  ultimately show ?thesis using k1 w(2-4) by metis
qed

lemma procs_tf_set [simp]: "procs (kst (tf_set p f v k)) = procs (kst k)" "gticks (tf_set p f v k) = gticks k"
  by (simp_all add: tf_set_def k_store_def)

lemma wakeup_awake:
  "i < length (procs st) \<Longrightarrow> p_state (procs st ! i) \<noteq> SLEEPING \<Longrightarrow> procs (wakeup ch st) ! i = procs st ! i"
  "length (procs (wakeup ch st)) = length (procs st)"
  by (simp_all add: wakeup_def Let_def)

theorem mlfq_levels_bounded_witness:
  "\<exists>k1 m. userinit warm_kernel = Ok k1 \<and> mstep\<^sup>*\<^sup>* (Scheduler (tick_hart\<lparr>h_sstatus := 0\<rparr>) k1) m \<and>
     p_used_ticks (procs (kst (kernel_of m)) ! 0) = 1 \<and> p_level (procs (kst (kernel_of m)) ! 0) \<le> 3 \<and> prev_i (kq (kernel_of m)) < NPROC"
proof -
  let ?h = "tick_hart\<lparr>h_sstatus := 0\<rparr>"
  obtain k1 q where k1: "userinit warm_kernel = Ok k1" "procs (kst k1) = (replicate NPROC blank_proc)[0 := q]" "p_state q = RUNNABLE"
      "p_level q = 0" "p_used_ticks q = 0" "p_killed q = 0" "ticks k1 = 0" "kq k1 = \<lparr>prev_b = 0, prev_i = 0\<rparr>" "konts k1 0 = Some KFork" "\<not> fs_first k1"
    using warm_userinit by blast
  have n: "0 < NPROC" by (simp add: NPROC_def)
  have pick: "sched_pick (kq k1) (kst k1) = Some 0"
    using k1(2-4,8) n by (simp add: sched_pick_def pick_level_def upt_conv_Cons)
  define q2 where "q2 = q\<lparr>p_times_scheduled := p_times_scheduled q + 1, p_slice_start := sint (ucast (p_syscount q) :: u32), p_state := RUNNING\<rparr>"
  obtain pt h2 k2 where d: "schedule ?h k1 = Ok (Some (0, URet pt), h2, k2)" "procs (kst k2) ! 0 = q2" "length (procs (kst k2)) = NPROC"
      "h_scause h2 = 0x8000000000000005" "h_sstatus h2 AND SSTATUS_SPP = 0"
    using k1(2,7-10) pick n
    by (simp add: schedule_def sched_round_def sched_boost_def sched_dispatch_def run_kont_def forkret_def to_user_def prepare_return_def
        Let_def upd_proc_def tick_hart_def q2_def SSTATUS_SPIE_def SSTATUS_SPP_def)
  have s1: "mstep (Scheduler ?h k1) (User 0 h2 k2)" by (rule mstep.dispatch [OF d(1)])
  have q2: "p_state q2 = RUNNING" "p_level q2 = 0" "p_used_ticks q2 = 0" "p_killed q2 = 0" using k1(4-6) by (simp_all add: q2_def)
  obtain h3 k3 where t: "usertrap \<lparr>d_irq = 0, d_idle = True, d_input = []\<rparr> 0 h2 k2 = Ok (UOff, h3, k3)"
      "procs (kst k3) ! 0 = (charge q2)\<lparr>p_state := RUNNABLE\<rparr>" "length (procs (kst k3)) = NPROC"
    using d q2 n wakeup_awake(1) [of 0 "kst (tf_set 0 TF_EPC (h_sepc h2) k2)" ticks_chan] wakeup_awake(2) [of ticks_chan]
    by (cases "h_tp h2 = 0") (simp_all add: usertrap_def Let_def devintr_def clockintr_def usertrap_tail_def killed_def k_procs_def k_wakeup_def on_ks_def
        timer_charge_def yield_enter_def sched_check_def upd_proc_def charge_def)
  then have "mstep\<^sup>*\<^sup>* (Scheduler ?h k1) (Scheduler h3 (back_to_scheduler 0 k3))"
    using s1 mstep.trap_off [OF t(1)] by (meson converse_rtranclp_into_rtranclp r_into_rtranclp)
  moreover have "p_used_ticks (procs (kst (back_to_scheduler 0 k3)) ! 0) = 1"
    using t(2,3) q2 n by (simp add: back_to_scheduler_def sched_return_def upd_proc_def account_def charge_def quantum_times_def)
  moreover have "procs (kst (back_to_scheduler 0 k3)) ! 0 \<in> set (procs (kst (back_to_scheduler 0 k3)))"
    by (rule nth_mem) (use t(3) n in \<open>simp add: back_to_scheduler_def sched_return_def upd_proc_def\<close>)
  moreover have "boot_static warm_kernel" using boot_kernel_ok(3) by (simp add: warm_kernel_def boot_static_def boot_ok_def)
  ultimately show ?thesis
    using k1(1) mlfq_levels_bounded [of warm_kernel k1 ?h "Scheduler h3 (back_to_scheduler 0 k3)"] by (metis kernel_of.simps(1))
qed

text \<open>
  C20. Duplicating a descriptor never panics: in every state the machine can be in, \<open>dup\<close> of any
  argument returns \<open>-1\<close> or a descriptor number, because an open descriptor's file has a positive
  count; it keeps the machine's invariant, and the counts stay between 0 and \<open>NPROC * NOFILE\<close>, so
  the \<open>int\<close> in \<open>struct file\<close> does not overflow.
\<close>

theorem dup_safe:
  assumes "machine_inv (User p h k)"
  shows "\<exists>r k'. sys_dup p k = Ok (r, k') \<and> -1 \<le> r \<and> r < int NOFILE \<and> machine_inv (User p h k') \<and>
    (\<forall>f<NFILE. 0 \<le> fl_ref (ftable k' ! f) \<and> fl_ref (ftable k' ! f) \<le> int (NPROC * NOFILE))"
proof -
  have inv: "rinv (\<lambda>_. 0) p k" using assms by simp
  obtain r k' where run: "sys_dup p k = Ok (r, k')" "-1 \<le> r" "r < int NOFILE" using sys_dup_total [OF inv] by blast
  have "rinv (\<lambda>_. 0) p k'" by (rule postD(2) [OF post_sys_dup [OF inv] run(1)])
  then show ?thesis using run ref_bounds [OF rinv_kinv] by auto
qed

text \<open>A process alone in the machine, its trap frame in a page of zeros, and file 7 as its descriptor 0.\<close>

definition lone_proc :: kernel where
  "lone_proc = (boot_kernel (\<lambda>_. 0) 0)\<lparr>kst := (kst (boot_kernel (\<lambda>_. 0) 0))\<lparr>procs := (replicate NPROC blank_proc)
     [0 := blank_proc\<lparr>p_pid := 1, p_state := RUNNING, p_trapframe := 0x80100000\<rparr>], initproc := Some 0, nextpid := 2, npids := 1\<rparr>\<rparr>"

definition lone_file :: kernel where
  "lone_file = k_updp 0 (set_fd 0 (Some 7)) (upd_file 7 (\<lambda>f. f\<lparr>fl_ref := fl_ref f + 1\<rparr>) lone_proc)"

lemma lone_proc_inv: "rinv (\<lambda>_. 0) 0 lone_proc"
proof -
  let ?q = "blank_proc\<lparr>p_pid := 1, p_state := RUNNING, p_trapframe := 0x80100000\<rparr>"
  have ps: "procs (kst lone_proc) = (replicate NPROC blank_proc)[0 := ?q]" "initproc (kst lone_proc) = Some 0" "nextpid (kst lone_proc) = 2"
      "ftable lone_proc = ftable (boot_kernel (\<lambda>_. 0) 0)" "pid_count (kst lone_proc)" "kq lone_proc = kq (boot_kernel (\<lambda>_. 0) 0)"
    by (simp_all add: lone_proc_def pid_count_def signed_take_bit_int_eq_self)
  have nth: "procs (kst lone_proc) ! i = (if i = 0 then ?q else blank_proc)" if "i < NPROC" for i
    using that by (simp add: ps nth_list_update)
  have "proc_inv (kst lone_proc)"
    unfolding proc_inv_def Let_def using nth by (simp add: ps(2,3,5) blank_proc_def live_def no_files_def proc_fit_def proc_ok_def NPROC_def) (simp add: ps NPROC_def)
  moreover have "kinv (\<lambda>_. 0) (boot_kernel (\<lambda>_. 0) 0)" by (rule boot_kinv [OF boot_kernel_ok(3)])
  moreover have "fd_refs (procs (kst lone_proc)) f = fd_refs (procs (kst (boot_kernel (\<lambda>_. 0) 0))) f" for f
  proof -
    have "procs (kst (boot_kernel (\<lambda>_. 0) 0)) = replicate NPROC blank_proc" by (simp add: boot_kernel_def boot_kstate_def)
    then show ?thesis by (simp add: ps fd_refs_replace NPROC_def)
  qed
  ultimately show ?thesis by (simp add: rinv_def kinv_def ps nth NPROC_def live_def)
qed

lemma lone_file_inv: "rinv (\<lambda>_. 0) 0 lone_file"
proof -
  have "rinv (hold 7 (\<lambda>_. 0)) 0 (upd_file 7 (\<lambda>f. f\<lparr>fl_ref := fl_ref f + 1\<rparr>) lone_proc)"
    by (rule rinv_ref [OF lone_proc_inv, of _ _ 1]) (simp_all add: NFILE_def hold_def)
  then show ?thesis unfolding lone_file_def
    by (rule rinv_fill) (simp_all add: NOFILE_def NFILE_def upd_file_def lone_proc_def blank_proc_def NPROC_def)
qed

theorem dup_safe_witness:
  "\<exists>k'. sys_dup 0 lone_file = Ok (1, k') \<and> machine_inv (User 0 tick_hart k') \<and> fl_ref (ftable k' ! 7) \<le> 1024"
proof -
  obtain r k' where r: "sys_dup 0 lone_file = Ok (r, k')" "machine_inv (User 0 tick_hart k')"
      "\<forall>f<NFILE. fl_ref (ftable k' ! f) \<le> int (NPROC * NOFILE)"
    using dup_safe [of 0 tick_hart lone_file] lone_file_inv by auto
  have e: "(replicate 16 None :: nat option list) = None # replicate 15 None" by (simp add: numeral_eq_Suc)
  have o: "p_ofile (k_procs lone_file ! 0) = Some 7 # replicate 15 None"
    by (simp add: lone_file_def lone_proc_def k_procs_def k_updp_def upd_proc_def set_fd_def upd_file_def blank_proc_def NPROC_def NOFILE_def e)
  have "mem (km (kst lone_file)) = (\<lambda>_. 0)"
    by (simp add: lone_file_def k_updp_def upd_proc_def upd_file_def lone_proc_def boot_kernel_def)
  then have "tf_get 0 (TF_A 0) lone_file = 0" by (simp add: tf_get_def k_load_def load64_zero)
  then have "argfd 0 0 lone_file = Ok (Some (0, 7))" by (simp add: argfd_def argint_def argraw_def o NOFILE_def)
  moreover have "find_index (\<lambda>o1. o1 = None) (p_ofile (k_procs lone_file ! 0)) = Some 1"
    by (simp add: o) (simp add: numeral_eq_Suc)
  ultimately have "r = 1" using r(1) by (auto simp: sys_dup_def fdalloc_def)
  then show ?thesis using r by (auto simp: NFILE_def NPROC_def NOFILE_def)
qed

end
