(* ===== verification/Grep.thy ===== *)
theory Grep
  imports Prelude
begin

text \<open>
  The matcher and the line scanner of \<^verbatim>\<open>user/grep.c\<close>. A C string is the list of its bytes before the
  NUL, a pointer into it the rest of the list from there. \<open>read\<close> is a parameter: how many of the
  remaining bytes of the file it returns when it is asked for at most \<open>n\<close>.
\<close>

section \<open>The matcher\<close>

definition CARET :: byte where "CARET = 94"
definition DOLLAR :: byte where "DOLLAR = 36"
definition DOT_C :: byte where "DOT_C = 46"
definition STAR :: byte where "STAR = 42"
definition NEWLINE :: byte where "NEWLINE = 10"

function matchhere :: "byte list \<Rightarrow> byte list \<Rightarrow> bool" and matchstar :: "byte \<Rightarrow> byte list \<Rightarrow> byte list \<Rightarrow> bool" where
  "matchhere re text =
     (case re of
        [] \<Rightarrow> True
      | c # re1 \<Rightarrow>
          if re1 \<noteq> [] \<and> hd re1 = STAR then matchstar c (tl re1) text
          else if c = DOLLAR \<and> re1 = [] then text = []
          else case text of [] \<Rightarrow> False | t # text1 \<Rightarrow> if c = DOT_C \<or> c = t then matchhere re1 text1 else False)"
| "matchstar c re text =
     (if matchhere re text then True
      else case text of [] \<Rightarrow> False | t # text1 \<Rightarrow> if t = c \<or> c = DOT_C then matchstar c re text1 else False)"
  by pat_completeness auto

termination
  by (relation "inv_image (less_than <*lex*> less_than)
       (\<lambda>x. case x of Inl (re, text) \<Rightarrow> (2 * length re, length text) | Inr (c, re, text) \<Rightarrow> (2 * length re + 1, length text))")
    (auto simp: neq_Nil_conv)

declare matchhere.simps [simp del] matchstar.simps [simp del]

fun match_from :: "byte list \<Rightarrow> byte list \<Rightarrow> bool" where
  "match_from re text =
     (if matchhere re text then True else case text of [] \<Rightarrow> False | t # text1 \<Rightarrow> match_from re text1)"

declare match_from.simps [simp del]

definition match :: "byte list \<Rightarrow> byte list \<Rightarrow> bool" where
  "match re text = (if re \<noteq> [] \<and> hd re = CARET then matchhere (tl re) text else match_from re text)"

section \<open>What a pattern means\<close>

text \<open>The items of a pattern: one character, any number of them, the end of the line.\<close>

datatype item = One byte | Many byte | End

fun items :: "byte list \<Rightarrow> item list" where
  "items [] = []"
| "items [c] = (if c = DOLLAR then [End] else [One c])"
| "items (c # d # re) = (if d = STAR then Many c # items re else One c # items (d # re))"

definition fits :: "byte \<Rightarrow> byte \<Rightarrow> bool" where
  "fits c t = (c = DOT_C \<or> c = t)"

text \<open>The words an item stands for, and those of a list of items; \<open>End\<close> stands for the empty word.\<close>

fun item_lang :: "item \<Rightarrow> byte list set" where
  "item_lang (One c) = {[t] |t. fits c t}"
| "item_lang (Many c) = {w. \<forall>t\<in>set w. fits c t}"
| "item_lang End = {[]}"

fun lang :: "item list \<Rightarrow> byte list set" where
  "lang [] = {[]}"
| "lang (i # l) = {u @ w |u w. u \<in> item_lang i \<and> w \<in> lang l}"

definition at_end :: "item list \<Rightarrow> bool" where
  "at_end l = (l \<noteq> [] \<and> last l = End)"

text \<open>Found at the beginning of the text.\<close>

definition here :: "item list \<Rightarrow> byte list \<Rightarrow> bool" where
  "here l text = (\<exists>u v. text = u @ v \<and> u \<in> lang l \<and> (at_end l \<longrightarrow> v = []))"

text \<open>Found somewhere in the text, at its beginning if the pattern starts with a caret.\<close>

definition found :: "byte list \<Rightarrow> byte list \<Rightarrow> bool" where
  "found re text =
     (if re \<noteq> [] \<and> hd re = CARET then here (items (tl re)) text else \<exists>p rest. text = p @ rest \<and> here (items re) rest)"

section \<open>The matcher finds patterns\<close>

lemma here_Nil: "here [] text"
  by (auto simp: here_def at_end_def)

lemma here_End: "here [End] text = (text = [])"
  by (auto simp: here_def at_end_def)

lemma at_end_Cons: "l \<noteq> [] \<Longrightarrow> at_end (i # l) = at_end l"
  by (simp add: at_end_def)

lemma at_end_item [simp]: "at_end (One c # l) = at_end l" "at_end (Many c # l) = at_end l"
  by (auto simp: at_end_def)

lemma here_Cons:
  assumes "i \<noteq> End"
  shows "here (i # l) tx = (\<exists>a rest. tx = a @ rest \<and> a \<in> item_lang i \<and> here l rest)"
proof
  assume "here (i # l) tx"
  then obtain u v where u: "tx = u @ v" "u \<in> lang (i # l)" "at_end (i # l) \<longrightarrow> v = []" unfolding here_def by blast
  then obtain a w where a: "u = a @ w" "a \<in> item_lang i" "w \<in> lang l" by auto
  have "here l (w @ v)" unfolding here_def using a(3) u(3) assms by (cases i) auto
  then show "\<exists>a rest. tx = a @ rest \<and> a \<in> item_lang i \<and> here l rest" using u(1) a(1,2) by (intro exI [of _ a] exI [of _ "w @ v"]) simp
next
  assume "\<exists>a rest. tx = a @ rest \<and> a \<in> item_lang i \<and> here l rest"
  then obtain a w v where a: "tx = a @ w @ v" "a \<in> item_lang i" "w \<in> lang l" "at_end l \<longrightarrow> v = []" unfolding here_def by blast
  then have "a @ w \<in> lang (i # l)" by auto
  then show "here (i # l) tx" unfolding here_def using a assms by (intro exI [of _ "a @ w"] exI [of _ v]) (cases i; simp)
qed

lemma here_One: "here (One c # l) tx = (case tx of [] \<Rightarrow> False | t # rest \<Rightarrow> fits c t \<and> here l rest)"
  by (cases tx) (auto simp: here_Cons intro: exI [of _ "[x]" for x])

lemma here_Many:
  "here (Many c # l) tx = (here l tx \<or> (case tx of [] \<Rightarrow> False | t # rest \<Rightarrow> fits c t \<and> here (Many c # l) rest))"
proof
  assume "here (Many c # l) tx"
  then obtain a r where a: "tx = a @ r" "\<forall>t\<in>set a. fits c t" "here l r" by (auto simp: here_Cons)
  then show "here l tx \<or> (case tx of [] \<Rightarrow> False | t # rest \<Rightarrow> fits c t \<and> here (Many c # l) rest)"
    by (cases a) (auto simp: here_Cons)
next
  assume h: "here l tx \<or> (case tx of [] \<Rightarrow> False | t # rest \<Rightarrow> fits c t \<and> here (Many c # l) rest)"
  have z: "here (Many c # l) tx" if "here l tx" using that unfolding here_Cons [OF item.distinct(5)] by (intro exI [of _ "[]"] exI [of _ tx]) simp
  have s: "here (Many c # l) (t # rest)" if f: "fits c t" "here (Many c # l) rest" for t rest
  proof -
    obtain a r where "rest = a @ r" "\<forall>t\<in>set a. fits c t" "here l r" using f(2) by (auto simp: here_Cons)
    then show ?thesis unfolding here_Cons [OF item.distinct(5)] using f(1) by (intro exI [of _ "t # a"] exI [of _ r]) simp
  qed
  from h z s show "here (Many c # l) tx" by (cases tx) auto
qed

lemma matchers:
  "matchhere re text = here (items re) text" "matchstar c re text = here (Many c # items re) text"
proof (induction re "text" and c re "text" rule: matchhere_matchstar.induct)
  case (1 re tx)
  show ?case
  proof (cases re rule: items.cases)
    case 1
    then show ?thesis by (simp add: matchhere.simps here_Nil)
  next
    case (2 c)
    then show ?thesis using 1(2) by (subst matchhere.simps) (auto simp: here_End here_One here_Nil fits_def split: list.splits)
  next
    case (3 c d r)
    then show ?thesis using 1(1) [of c "d # r"] 1(2) [of c "d # r"]
      by (subst matchhere.simps) (auto simp: here_One fits_def split: list.splits)
  qed
next
  case (2 c re tx)
  show ?case using 2 by (subst matchstar.simps, subst here_Many) (auto simp: fits_def split: list.splits)
qed

lemma match_from_found: "match_from re text = (\<exists>p rest. text = p @ rest \<and> here (items re) rest)"
proof (induction re "text" rule: match_from.induct)
  case (1 re tx)
  show ?case
  proof (cases tx)
    case Nil
    then show ?thesis by (simp add: match_from.simps matchers)
  next
    case (Cons t rest)
    have "(\<exists>p r. t # rest = p @ r \<and> here (items re) r) = (here (items re) (t # rest) \<or> (\<exists>p r. rest = p @ r \<and> here (items re) r))"
      by (metis append_Cons append_Nil append_eq_Cons_conv)
    then show ?thesis using 1 Cons by (subst match_from.simps) (auto simp: matchers)
  qed
qed

lemma match_found: "match re text = found re text"
  by (simp add: match_def found_def matchers match_from_found)

section \<open>Lines\<close>

text \<open>
  The inner loop of \<open>grep\<close> over the buffer, which \<open>strchr\<close> sees up to the first NUL: what it writes,
  and the number of bytes before \<open>p\<close> at the end.
\<close>

function scan_lines :: "byte list \<Rightarrow> byte list \<Rightarrow> byte list \<times> nat" where
  "scan_lines pat p =
     (if NEWLINE \<notin> set (takeWhile (\<lambda>c. c \<noteq> 0) p) then ([], 0)
      else let line = takeWhile (\<lambda>c. c \<noteq> NEWLINE) p; (out, n) = scan_lines pat (drop (length line + 1) p)
           in ((if match pat line then line @ [NEWLINE] else []) @ out, length line + 1 + n))"
  by pat_completeness auto

termination
  by (relation "measure (\<lambda>(pat, p). length p)") (auto intro!: diff_less simp: neq_Nil_conv)

declare scan_lines.simps [simp del]

definition BUFSZ :: nat where "BUFSZ = 1024"

text \<open>
  The outer loop; \<open>held\<close> are the \<open>m\<close> bytes at the start of the buffer, \<open>inp\<close> the rest of the file.
\<close>

function grep_loop :: "(nat \<Rightarrow> byte list \<Rightarrow> nat) \<Rightarrow> byte list \<Rightarrow> byte list \<Rightarrow> byte list \<Rightarrow> byte list" where
  "grep_loop rd pat held inp =
     (let got = take (rd (BUFSZ - length held - 1) inp) inp in
      if got = [] then []
      else let b = held @ got; (out, n) = scan_lines pat b
           in out @ grep_loop rd pat (drop n b) (drop (length got) inp))"
  by pat_completeness auto

termination
  by (relation "measure (\<lambda>(rd, pat, held, inp). length inp)") auto

declare grep_loop.simps [simp del]

definition grep :: "(nat \<Rightarrow> byte list \<Rightarrow> nat) \<Rightarrow> byte list \<Rightarrow> byte list \<Rightarrow> byte list" where
  "grep rd pat inp = grep_loop rd pat [] inp"

text \<open>What \<open>read\<close> documents: at most what was asked for, and something unless the file is at its end.\<close>

definition read_ok :: "(nat \<Rightarrow> byte list \<Rightarrow> nat) \<Rightarrow> bool" where
  "read_ok rd = (\<forall>n inp. rd n inp \<le> n \<and> (0 < n \<and> inp \<noteq> [] \<longrightarrow> 0 < rd n inp))"

text \<open>The complete lines of a file, and what is left after the last newline.\<close>

function lines_of :: "byte list \<Rightarrow> byte list list" where
  "lines_of s = (if NEWLINE \<notin> set s then []
     else takeWhile (\<lambda>c. c \<noteq> NEWLINE) s # lines_of (drop (length (takeWhile (\<lambda>c. c \<noteq> NEWLINE) s) + 1) s))"
  by pat_completeness auto

termination
  by (relation "measure length") (auto simp: neq_Nil_conv dest: length_pos_if_in_set)

declare lines_of.simps [simp del]

definition left_of :: "byte list \<Rightarrow> byte list" where
  "left_of s = rev (takeWhile (\<lambda>c. c \<noteq> NEWLINE) (rev s))"

definition print_matches :: "byte list \<Rightarrow> byte list list \<Rightarrow> byte list" where
  "print_matches pat ls = concat (map (\<lambda>l. l @ [NEWLINE]) (filter (match pat) ls))"

section \<open>Scanning in pieces\<close>

lemma takeWhile_line [simp]:
  "NEWLINE \<notin> set l \<Longrightarrow> takeWhile (\<lambda>c. c \<noteq> NEWLINE) (l @ NEWLINE # s) = l"
  "NEWLINE \<notin> set l \<Longrightarrow> takeWhile (\<lambda>c. c \<noteq> NEWLINE) l = l"
  "(z :: byte) \<notin> set l \<Longrightarrow> takeWhile (\<lambda>c. c \<noteq> z) l = l"
  by (induction l) auto

lemma lines_of_none: "NEWLINE \<notin> set s \<Longrightarrow> lines_of s = []"
  by (simp add: lines_of.simps)

lemma lines_of_line: "NEWLINE \<notin> set l \<Longrightarrow> lines_of (l @ NEWLINE # s) = l # lines_of s"
  by (subst lines_of.simps) simp

lemma left_none: "NEWLINE \<notin> set s \<Longrightarrow> left_of s = s"
  by (simp add: left_of_def)

lemma left_line: "left_of (l @ NEWLINE # s) = left_of s"
proof -
  have "takeWhile (\<lambda>c. c \<noteq> NEWLINE) (rev s @ NEWLINE # rev l) = takeWhile (\<lambda>c. c \<noteq> NEWLINE) (rev s)" for s l :: "byte list"
    by (induction s rule: rev_induct) auto
  then show ?thesis by (simp add: left_of_def)
qed

lemma left_NL: "NEWLINE \<notin> set (left_of s)"
  by (auto simp: left_of_def dest: set_takeWhileD)

text \<open>Induction over the lines of a file.\<close>

lemma lines_induct [case_names none line]:
  assumes "\<And>s. NEWLINE \<notin> set s \<Longrightarrow> P s" "\<And>l s. NEWLINE \<notin> set l \<Longrightarrow> P s \<Longrightarrow> P (l @ NEWLINE # s)"
  shows "P s"
proof (induction "length s" arbitrary: s rule: less_induct)
  case less
  show ?case
  proof (cases "NEWLINE \<in> set s")
    case True
    then obtain l r where "s = l @ NEWLINE # r" "NEWLINE \<notin> set l" by (metis split_list_first)
    then show ?thesis using less [of r] assms(2) by simp
  qed (rule assms(1))
qed

lemma lines_append: "lines_of (s @ t) = lines_of s @ lines_of (left_of s @ t)"
  by (induction s rule: lines_induct) (simp_all add: lines_of_none left_none lines_of_line left_line)

lemma left_append: "left_of (s @ t) = left_of (left_of s @ t)"
  by (induction s rule: lines_induct) (simp_all add: left_none left_line)

text \<open>What \<open>strchr\<close> sees of a string.\<close>

definition text_of :: "byte list \<Rightarrow> byte list" where
  "text_of s = takeWhile (\<lambda>c. c \<noteq> 0) s"

lemma text_append: "text_of (s @ t) = (if 0 \<in> set s then text_of s else s @ text_of t)"
  by (induction s) (auto simp: text_of_def)

lemma text_none: "0 \<notin> set s \<Longrightarrow> text_of s = s"
  by (simp add: text_of_def)

lemma text_zero: "0 \<notin> set (text_of s)"
  by (auto simp: text_of_def dest: set_takeWhileD)

lemma length_text: "length (text_of s) \<le> length s"
  by (simp add: text_of_def length_takeWhile_le)

lemma left_length: "length (left_of s) \<le> length s"
  by (simp add: left_of_def) (metis length_rev length_takeWhile_le)

lemma text_rest: "text_of p @ drop (length (text_of p)) p = p" "drop (length (text_of p)) p = dropWhile (\<lambda>c. c \<noteq> 0) p"
  by (simp_all add: text_of_def flip: dropWhile_eq_drop)

text \<open>
  One pass over a buffer \<open>p\<close>: it prints the lines found in the text before the first NUL, and what it keeps starts with
  what is left of that text.
\<close>

lemma scan_lines_spec:
  "scan_lines pat p = (print_matches pat (lines_of (text_of p)), length (text_of p) - length (left_of (text_of p))) \<and>
     drop (length (text_of p) - length (left_of (text_of p))) p = left_of (text_of p) @ drop (length (text_of p)) p"
proof (induction "text_of p" arbitrary: p rule: lines_induct)
  case none
  then have "scan_lines pat p = ([], 0)" by (subst scan_lines.simps) (simp add: text_of_def)
  moreover have "lines_of (text_of p) = []" "left_of (text_of p) = text_of p" using none by (simp_all add: lines_of_none left_none)
  ultimately show ?case by (simp add: print_matches_def text_rest(1))
next
  case (line l t)
  have p: "p = l @ NEWLINE # drop (length l + 1) p" "text_of (drop (length l + 1) p) = t"
  proof -
    obtain u where u: "p = l @ NEWLINE # u" using text_rest(1) [of p] unfolding line(3) [symmetric] by (metis append_Cons append_assoc)
    have z: "0 \<notin> set (l @ [NEWLINE])" using text_zero [of p] unfolding line(3) [symmetric] by auto
    then have "text_of p = (l @ [NEWLINE]) @ text_of u" using text_append [of "l @ [NEWLINE]" u] u by simp
    then show "p = l @ NEWLINE # drop (length l + 1) p" "text_of (drop (length l + 1) p) = t" using u line(3) by simp_all
  qed
  have tk: "takeWhile (\<lambda>c. c \<noteq> NEWLINE) p = l" using p(1) line(1) takeWhile_line(1) by metis
  have nl: "NEWLINE \<in> set (takeWhile (\<lambda>c. c \<noteq> 0) p)" unfolding text_of_def [symmetric] line(3) [symmetric] by simp
  have r: "scan_lines pat p = (let (out, n) = scan_lines pat (drop (length l + 1) p)
           in ((if match pat l then l @ [NEWLINE] else []) @ out, length l + 1 + n))"
    using nl tk by (subst scan_lines.simps) simp
  note IH = line(2) [OF p(2) [symmetric], unfolded p(2)]
  have d: "length (l @ NEWLINE # t) - length (left_of t) = length l + 1 + (length t - length (left_of t))" using left_length [of t] by simp
  have "drop (length l + 1 + j) p = drop j (drop (length l + 1) p)" for j by (simp add: add.commute)
  moreover have "drop (length (l @ NEWLINE # t)) p = drop (length t) (drop (length l + 1) p)" by (simp add: add.commute)
  ultimately show ?case using IH unfolding r line(3) [symmetric] left_line d
    by (simp add: lines_of_line line(1) print_matches_def)
qed

lemma lines_length: "l \<in> set (lines_of s) \<Longrightarrow> length l < length s"
  by (induction s rule: lines_induct) (auto simp: lines_of_none lines_of_line)

text \<open>The lines that fit into the buffer with their newline, up to the first that does not.\<close>

definition fitting :: "byte list list \<Rightarrow> byte list list" where
  "fitting ls = takeWhile (\<lambda>l. length l \<le> BUFSZ - 2) ls"

lemma grep_loop_spec:
  assumes "read_ok rd" "NEWLINE \<notin> set (text_of held)" "length held \<le> BUFSZ - 1"
  shows "grep_loop rd pat held inp = print_matches pat (fitting (lines_of (text_of (held @ inp))))"
  using assms
proof (induction rd pat held inp rule: grep_loop.induct)
  case (1 rd pat held inp)
  define got where "got = take (rd (BUFSZ - length held - 1) inp) inp"
  show ?case
  proof (cases "got = []")
    case True
    have stop: "inp = [] \<or> length held = BUFSZ - 1"
    proof (rule ccontr)
      assume "\<not> (inp = [] \<or> length held = BUFSZ - 1)"
      then have "0 < BUFSZ - length held - 1" "inp \<noteq> []" using 1(4) by (auto simp: BUFSZ_def)
      then have "0 < rd (BUFSZ - length held - 1) inp" using 1(2) unfolding read_ok_def by blast
      then show False using True \<open>\<not> (inp = [] \<or> length held = BUFSZ - 1)\<close> by (simp add: got_def)
    qed
    have "fitting (lines_of (text_of (held @ inp))) = []"
    proof (cases "0 \<in> set held \<or> inp = []")
      case True
      then have "text_of (held @ inp) = text_of held" by (auto simp: text_append text_none)
      then show ?thesis using 1(3) by (simp add: lines_of_none fitting_def)
    next
      case False
      then have t: "text_of (held @ inp) = held @ text_of inp" "NEWLINE \<notin> set held" using 1(3) text_none by (simp_all add: text_append)
      show ?thesis
      proof (cases "NEWLINE \<in> set (text_of inp)")
        case True
        then obtain a c where "text_of inp = a @ NEWLINE # c" "NEWLINE \<notin> set a" by (metis split_list_first)
        then have "lines_of (text_of (held @ inp)) = (held @ a) # lines_of c" using lines_of_line [of "held @ a" c] t by simp
        then show ?thesis using stop False by (simp add: fitting_def BUFSZ_def)
      qed (use t in \<open>simp add: lines_of_none fitting_def\<close>)
    qed
    then show ?thesis using True by (subst grep_loop.simps) (simp add: got_def print_matches_def)
  next
    case False
    have len: "length got = min (rd (BUFSZ - length held - 1) inp) (length inp)" by (simp add: got_def)
    have io: "got @ drop (length got) inp = inp" unfolding len by (simp add: got_def min_def)
    define b r n where "b = held @ got" and "r = drop (length got) inp" and "n = length (text_of b) - length (left_of (text_of b))"
    have eq: "b @ r = held @ inp" using io by (simp add: b_def r_def)
    have "rd (BUFSZ - length held - 1) inp \<le> BUFSZ - length held - 1" using 1(2) by (simp add: read_ok_def)
    then have lb: "length b \<le> BUFSZ - 1" using 1(4) len by (simp add: b_def)
    have sc: "scan_lines pat b = (print_matches pat (lines_of (text_of b)), n)" "drop n b = left_of (text_of b) @ drop (length (text_of b)) b"
      using scan_lines_spec [of pat b] by (simp_all add: n_def)
    have lz: "0 \<notin> set (left_of (text_of b))" using text_zero [of b] set_takeWhileD [of 0 _ "rev (text_of b)"] by (auto simp: left_of_def)
    have rest: "0 \<notin> set b \<Longrightarrow> drop (length (text_of b)) b = []" "0 \<in> set b \<Longrightarrow> drop (length (text_of b)) b \<noteq> [] \<and> hd (drop (length (text_of b)) b) = 0"
    proof -
      note d = text_rest(2) [of b]
      show "0 \<notin> set b \<Longrightarrow> drop (length (text_of b)) b = []" by (simp add: text_none)
      show "0 \<in> set b \<Longrightarrow> drop (length (text_of b)) b \<noteq> [] \<and> hd (drop (length (text_of b)) b) = 0"
        unfolding d using hd_dropWhile [of "\<lambda>c. c \<noteq> 0" b] dropWhile_eq_Nil_conv [of "\<lambda>c. c \<noteq> 0" b] by auto
    qed
    have tn: "text_of (drop n b @ r) = (if 0 \<in> set b then left_of (text_of b) else left_of (text_of b) @ text_of r)" for r
    proof (cases "0 \<in> set b")
      case True
      then obtain u where "drop (length (text_of b)) b = 0 # u" using rest(2) by (metis list.collapse)
      then show ?thesis using True lz by (simp add: sc(2) text_append) (simp add: text_of_def)
    qed (use rest(1) lz in \<open>simp add: sc(2) text_append\<close>)
    have "text_of (drop n b) = left_of (text_of b)" using tn [of "[]"] by (auto simp: text_of_def split: if_splits)
    then have IH: "grep_loop rd pat (drop n b) (drop (length got) inp) = print_matches pat (fitting (lines_of (text_of (drop n b @ drop (length got) inp))))"
      by (intro 1(1) [OF got_def False b_def sc(1) [symmetric] refl]) (use 1(2) left_NL lb in simp_all)
    have "lines_of (text_of (held @ inp)) = lines_of (text_of b) @ lines_of (text_of (drop n b @ r))"
      using lines_append [of "text_of b" "text_of r"] left_NL [of "text_of b"] unfolding eq [symmetric] tn text_append [of b r]
      by (cases "0 \<in> set b") (simp_all add: lines_of_none text_none)
    moreover have "length l \<le> BUFSZ - 2" if "l \<in> set (lines_of (text_of b))" for l
      using lines_length [OF that] length_text [of b] lb by simp
    ultimately have "fitting (lines_of (text_of (held @ inp))) = lines_of (text_of b) @ fitting (lines_of (text_of (drop n b @ r)))"
      by (simp add: fitting_def)
    moreover have "grep_loop rd pat held inp = (case scan_lines pat b of (out, n) \<Rightarrow> out @ grep_loop rd pat (drop n b) (drop (length got) inp))"
      using False unfolding grep_loop.simps [of rd pat held inp] got_def [symmetric] b_def Let_def by simp
    ultimately show ?thesis using sc IH by (simp add: r_def print_matches_def)
  qed
qed

section \<open>Theorems\<close>

text \<open>
  C23. The matcher recognises the language of the pattern: \<open>match\<close> succeeds exactly when some part
  of the text is a word of the pattern's items (a character, a dot for any character, either of
  them any number of times), starting at the beginning after a caret and ending at the end before
  a dollar sign. Both loops look at the empty rest too.
\<close>

theorem grep_match_language: "match re tx = found re tx"
  by (rule match_found)

text \<open>
  C24. What \<open>grep\<close> writes, whatever the file holds and however \<open>read\<close> cuts it into pieces: of the complete lines before the
  first NUL byte, up to the first that is longer than 1022 bytes, exactly those in which the pattern is found, in
  order. It is all the matching lines of a file without NUL bytes and without longer lines; after a NUL, or from a line that does not fit its
  buffer on, nothing is searched, and neither is what follows the last newline.
\<close>

theorem grep_prints_found_lines:
  assumes "read_ok rd"
  shows "grep rd pat inp = concat (map (\<lambda>l. l @ [NEWLINE])
    (filter (found pat) (takeWhile (\<lambda>l. length l \<le> 1022) (lines_of (takeWhile (\<lambda>c. c \<noteq> 0) inp)))))"
proof -
  have "match pat = found pat" by (simp add: fun_eq_iff match_found)
  moreover have "grep rd pat inp = print_matches pat (fitting (lines_of (text_of inp)))"
    unfolding grep_def using assms grep_loop_spec [of rd "[]" pat inp] by (simp add: text_of_def)
  ultimately show ?thesis by (simp add: print_matches_def fitting_def text_of_def BUFSZ_def)
qed

text \<open>The pattern \<open>a.*c$\<close> on three lines, a NUL and one more line, read two bytes at a time.\<close>

theorem grep_prints_found_lines_witness:
  "grep (\<lambda>n inp. min n 2) [97, 46, 42, 99, 36] [98, 97, 99, 10, 97, 99, 100, 10, 97, 98, 99, 10, 0, 97, 99, 10] =
     [98, 97, 99, 10, 97, 98, 99, 10]"
proof -
  let ?inp = "[98, 97, 99, 10, 97, 99, 100, 10, 97, 98, 99, 10, 0, 97, 99, 10] :: byte list"
  have l: "lines_of (takeWhile (\<lambda>c. c \<noteq> 0) ?inp) = [[98, 97, 99], [97, 99, 100], [97, 98, 99]]" by (simp add: lines_of.simps NEWLINE_def)
  have m: "found [97, 46, 42, 99, 36] [98, 97, 99]" "\<not> found [97, 46, 42, 99, 36] [97, 99, 100]" "found [97, 46, 42, 99, 36] [97, 98, 99]"
    by (simp_all flip: match_found add: match_def match_from.simps matchhere.simps matchstar.simps CARET_def STAR_def DOLLAR_def DOT_C_def)
  have "read_ok (\<lambda>n inp. min n 2)" by (simp add: read_ok_def)
  from grep_prints_found_lines [OF this, of "[97, 46, 42, 99, 36]" ?inp] show ?thesis unfolding l by (simp add: m NEWLINE_def)
qed

end
