(* ===== verification/Umalloc.thy ===== *)
theory Umalloc
  imports Prelude
begin

text \<open>
  The allocator of user programs, \<^verbatim>\<open>user/umalloc.c\<close>. Memory is seen in cells of the size of a
  \<open>Header\<close>, 16 bytes, by their addresses; addresses of user space are natural numbers, as they stay
  far below \<open>2 ^ 64\<close>, and sizes are counted in cells and wrap around at \<open>2 ^ 32\<close> like the code's
  \<open>uint\<close>. What \<open>sbrk\<close> grants is a parameter, how it moves the break is the kernel's \<open>growproc\<close>.
\<close>

section \<open>State\<close>

record header =
  h_ptr :: nat
  h_size :: nat

record uheap =
  hdr :: "nat \<Rightarrow> header"
  freep :: nat
  brk :: nat

text \<open>The address of the static variable \<open>base\<close>.\<close>

type_synonym uaddr = nat

definition HSIZE :: nat where "HSIZE = 16"

definition set_ptr :: "uaddr \<Rightarrow> nat \<Rightarrow> uheap \<Rightarrow> uheap" where
  "set_ptr a v st = st\<lparr>hdr := (hdr st)(a := (hdr st a)\<lparr>h_ptr := v\<rparr>)\<rparr>"

definition set_size :: "uaddr \<Rightarrow> nat \<Rightarrow> uheap \<Rightarrow> uheap" where
  "set_size a v st = st\<lparr>hdr := (hdr st)(a := (hdr st a)\<lparr>h_size := v mod 2 ^ 32\<rparr>)\<rparr>"

abbreviation ptr_of :: "uheap \<Rightarrow> uaddr \<Rightarrow> nat" where "ptr_of st a \<equiv> h_ptr (hdr st a)"
abbreviation size_of :: "uheap \<Rightarrow> uaddr \<Rightarrow> nat" where "size_of st a \<equiv> h_size (hdr st a)"

section \<open>Operations\<close>

text \<open>The loop of \<open>free\<close>: the node after which the block at \<open>bp\<close> belongs.\<close>

definition stop_at :: "uheap \<Rightarrow> uaddr \<Rightarrow> uaddr \<Rightarrow> bool" where
  "stop_at st bp p = ((p < bp \<and> bp < ptr_of st p) \<or> (ptr_of st p \<le> p \<and> (p < bp \<or> bp < ptr_of st p)))"

partial_function (option) free_scan :: "uheap \<Rightarrow> uaddr \<Rightarrow> uaddr \<Rightarrow> uaddr option" where
  "free_scan st bp p = (if stop_at st bp p then Some p else free_scan st bp (ptr_of st p))"

definition free_insert :: "uaddr \<Rightarrow> uaddr \<Rightarrow> uheap \<Rightarrow> uheap" where
  "free_insert bp p st =
     (let next = ptr_of st p;
          st1 = (if bp + HSIZE * size_of st bp = next
                 then set_ptr bp (ptr_of st next) (set_size bp (size_of st bp + size_of st next) st)
                 else set_ptr bp next st);
          st2 = (if p + HSIZE * size_of st1 p = bp
                 then set_ptr p (ptr_of st1 bp) (set_size p (size_of st1 p + size_of st1 bp) st1)
                 else set_ptr p bp st1)
      in st2\<lparr>freep := p\<rparr>)"

definition free :: "uaddr \<Rightarrow> uheap \<Rightarrow> uheap option" where
  "free ap st =
     (let bp = ap - HSIZE in
      case free_scan st bp (freep st) of None \<Rightarrow> None | Some p \<Rightarrow> Some (free_insert bp p st))"

text \<open>The argument of \<open>sbrk\<close> is an \<open>int\<close>; the result is the old break.\<close>

definition c_int :: "nat \<Rightarrow> int" where
  "c_int n = (let x = int (n mod 2 ^ 32) in if x < 2 ^ 31 then x else x - 2 ^ 32)"

definition sbrk :: "(nat \<Rightarrow> int \<Rightarrow> bool) \<Rightarrow> int \<Rightarrow> uheap \<Rightarrow> uaddr option \<times> uheap" where
  "sbrk grant n st =
     (if n < 0 then (Some (brk st), if - n \<le> int (brk st) then st\<lparr>brk := nat (int (brk st) + n)\<rparr> else st)
      else if grant (brk st) n then (Some (brk st), st\<lparr>brk := brk st + nat n\<rparr>)
      else (None, st))"

definition morecore :: "(nat \<Rightarrow> int \<Rightarrow> bool) \<Rightarrow> nat \<Rightarrow> uheap \<Rightarrow> (uaddr \<times> uheap) option" where
  "morecore grant nu st =
     (let nu1 = (if nu < 4096 then 4096 else nu) in
      case sbrk grant (c_int (nu1 * HSIZE)) st of
        (None, st1) \<Rightarrow> Some (0, st1)
      | (Some hp, st1) \<Rightarrow>
          (case free (hp + HSIZE) (set_size hp nu1 st1) of
             None \<Rightarrow> None
           | Some st2 \<Rightarrow> Some (freep st2, st2)))"

text \<open>Taking \<open>nunits\<close> cells from the block at \<open>p\<close>, behind \<open>prevp\<close> in the list.\<close>

definition carve :: "nat \<Rightarrow> uaddr \<Rightarrow> uaddr \<Rightarrow> uheap \<Rightarrow> uaddr \<times> uheap" where
  "carve nunits prevp p st =
     (if size_of st p = nunits then (p + HSIZE, (set_ptr prevp (ptr_of st p) st)\<lparr>freep := prevp\<rparr>)
      else let st1 = set_size p (size_of st p - nunits) st;
               q = p + HSIZE * size_of st1 p
           in (q + HSIZE, (set_size q nunits st1)\<lparr>freep := prevp\<rparr>))"

partial_function (option) malloc_loop :: "(nat \<Rightarrow> int \<Rightarrow> bool) \<Rightarrow> nat \<Rightarrow> uaddr \<Rightarrow> uaddr \<Rightarrow> uheap \<Rightarrow> (uaddr \<times> uheap) option" where
  "malloc_loop grant nunits prevp p st =
     (if nunits \<le> size_of st p then Some (carve nunits prevp p st)
      else if p = freep st then
        (case morecore grant nunits st of
           None \<Rightarrow> None
         | Some (p1, st1) \<Rightarrow> if p1 = 0 then Some (0, st1) else malloc_loop grant nunits p1 (ptr_of st1 p1) st1)
      else malloc_loop grant nunits p (ptr_of st p) st)"

definition units_for :: "nat \<Rightarrow> nat" where
  "units_for nbytes = ((nbytes + HSIZE - 1) div HSIZE + 1) mod 2 ^ 32"

definition malloc :: "uaddr \<Rightarrow> (nat \<Rightarrow> int \<Rightarrow> bool) \<Rightarrow> nat \<Rightarrow> uheap \<Rightarrow> (uaddr \<times> uheap) option" where
  "malloc base grant nbytes st =
     (let nunits = units_for nbytes;
          st1 = (if freep st = 0 then (set_size base 0 (set_ptr base base st))\<lparr>freep := base\<rparr> else st)
      in malloc_loop grant nunits (freep st1) (ptr_of st1 (freep st1)) st1)"

section \<open>The ring of free blocks\<close>

fun links :: "uheap \<Rightarrow> nat list \<Rightarrow> bool" where
  "links st (x # y # r) = (ptr_of st x = y \<and> links st (y # r))"
| "links st _ = True"

lemma links_append: "links st (xs @ x # ys) = (links st (xs @ [x]) \<and> links st (x # ys))"
proof (induction xs)
  case (Cons a xs)
  then show ?case by (cases xs) auto
qed simp

lemma links_cong: "(\<And>x. x \<in> set (butlast l) \<Longrightarrow> ptr_of st' x = ptr_of st x) \<Longrightarrow> links st' l = links st l"
  by (induction l rule: induct_list012) auto

lemma links_next: "links st (p # r) \<Longrightarrow> r \<noteq> [] \<Longrightarrow> ptr_of st p = hd r"
  by (cases r) auto

text \<open>Blocks, as their addresses and sizes; those of the free list lie in order and do not touch.\<close>

type_synonym ublock = "nat \<times> nat"

definition ends :: "ublock \<Rightarrow> nat" where "ends b = fst b + HSIZE * snd b"

definition apart :: "ublock \<Rightarrow> ublock \<Rightarrow> bool" where
  "apart b c = (ends b \<le> fst c \<or> ends c \<le> fst b)"

definition gap :: "ublock \<Rightarrow> ublock \<Rightarrow> bool" where
  "gap b c = (ends b < fst c)"

definition flist :: "uaddr \<Rightarrow> uheap \<Rightarrow> ublock list \<Rightarrow> bool" where
  "flist base st fs = (links st (base # map fst fs @ [base]) \<and> size_of st base = 0 \<and> freep st \<in> set (base # map fst fs) \<and>
     (\<forall>b\<in>set fs. size_of st (fst b) = snd b \<and> 0 < snd b \<and> base + HSIZE \<le> fst b) \<and> sorted_wrt gap fs)"

text \<open>
  The heap: the free list, and the blocks in use, all within the memory between \<open>lo\<close> and the break
  and none overlapping another. The break stays below 64 GiB, so that sizes do not wrap around.
\<close>

definition region :: "ublock \<Rightarrow> nat set" where "region b = {fst b..<ends b}"

definition cover :: "ublock list \<Rightarrow> nat set" where "cover fs = (\<Union>b\<in>set fs. region b)"

definition heap_inv :: "uaddr \<Rightarrow> uaddr \<Rightarrow> uheap \<Rightarrow> ublock list \<Rightarrow> ublock set \<Rightarrow> bool" where
  "heap_inv base lo st fs al = (0 < base \<and> base + HSIZE \<le> lo \<and> lo \<le> brk st \<and> brk st < 2 ^ 36 \<and> flist base st fs \<and> cover fs \<subseteq> {lo..<brk st} \<and>
     (\<forall>b\<in>al. size_of st (fst b) = snd b \<and> 0 < snd b \<and> region b \<subseteq> {lo..<brk st} \<and> region b \<inter> cover fs = {}) \<and>
     (\<forall>b\<in>al. \<forall>c\<in>al. b \<noteq> c \<longrightarrow> region b \<inter> region c = {}))"

lemma region_apart: "region b \<inter> region c = {} \<Longrightarrow> 0 < snd b \<Longrightarrow> 0 < snd c \<Longrightarrow> apart b c"
proof (rule ccontr)
  assume d: "region b \<inter> region c = {}" "0 < snd b" "0 < snd c" "\<not> apart b c"
  then have "max (fst b) (fst c) \<in> region b \<inter> region c" by (auto simp: region_def apart_def ends_def HSIZE_def)
  then show False using d(1) by simp
qed

lemma cover_append [simp]: "cover (xs @ ys) = cover xs \<union> cover ys" "cover [] = {}" "cover (x # xs) = region x \<union> cover xs"
  by (auto simp: cover_def)

section \<open>Finding the place of a block\<close>

text \<open>The nodes below and above the block.\<close>

lemma split_at:
  assumes "sorted_wrt gap fs" "\<And>b. b \<in> set fs \<Longrightarrow> apart b (a, s)" "\<And>b. b \<in> set fs \<Longrightarrow> 0 < snd b" "0 < s"
  shows "\<exists>us vs. fs = us @ vs \<and> (\<forall>b\<in>set us. ends b \<le> a) \<and> (\<forall>b\<in>set vs. a + HSIZE * s \<le> fst b)"
proof -
  have "\<exists>us vs. fs = us @ vs \<and> (\<forall>b\<in>set us. ends b \<le> a) \<and> (\<forall>b\<in>set vs. a + HSIZE * s \<le> fst b)"
    using assms(1-3)
  proof (induction fs)
    case (Cons b fs)
    obtain us vs where uv: "fs = us @ vs" "\<forall>b\<in>set us. ends b \<le> a" "\<forall>b\<in>set vs. a + HSIZE * s \<le> fst b"
      using Cons.IH Cons.prems by (auto simp del: split_paired_All)
    show ?case
    proof (cases "ends b \<le> a")
      case True
      then show ?thesis using uv by (intro exI [of _ "b # us"] exI [of _ vs]) auto
    next
      case False
      then have b: "a + HSIZE * s \<le> fst b" using Cons.prems(2) [of b] by (auto simp: apart_def ends_def)
      have "a + HSIZE * s \<le> fst c" if "c \<in> set fs" for c
        using Cons.prems(1) that b by (auto simp: gap_def ends_def)
      then show ?thesis using b by (intro exI [of _ "[]"] exI [of _ "b # fs"]) auto
    qed
  qed simp
  then show ?thesis .
qed

lemma flist_sorted:
  assumes "flist base st fs"
  shows "sorted_wrt (<) (base # map fst fs)"
proof -
  have "sorted_wrt (<) (map fst fs)"
    using assms unfolding flist_def sorted_wrt_map
    by (auto simp: gap_def ends_def elim!: sorted_wrt_mono_rel [rotated])
  then show ?thesis using assms by (auto simp: flist_def HSIZE_def)
qed

lemma adjacent_less: "sorted_wrt (<) (xs @ x # y # ys) \<Longrightarrow> x < (y :: nat)"
  by (simp add: sorted_wrt_append)

text \<open>The ring around the place of a block at \<open>a\<close>: nodes \<open>L\<close> below, nodes \<open>U\<close> above.\<close>

definition ring_place :: "uheap \<Rightarrow> nat \<Rightarrow> nat \<Rightarrow> nat list \<Rightarrow> nat list \<Rightarrow> bool" where
  "ring_place st base a L U = (links st (L @ U @ [base]) \<and> L \<noteq> [] \<and> hd L = base \<and> sorted_wrt (<) (L @ U) \<and>
     (\<forall>x\<in>set L. x < a) \<and> (\<forall>x\<in>set U. a < x))"

lemma ring_placeD:
  assumes "ring_place st base a L U"
  shows "links st (L @ U @ [base])" "L \<noteq> []" "hd L = base" "sorted_wrt (<) (L @ U)" "\<And>x. x \<in> set L \<Longrightarrow> x < a" "\<And>x. x \<in> set U \<Longrightarrow> a < x"
  using assms by (auto simp: ring_place_def)

lemma base_L: "ring_place st base a L U \<Longrightarrow> base \<in> set L"
  by (cases L) (auto simp: ring_place_def)

lemma next_of: "ring_place st base a L U \<Longrightarrow> L @ U @ [base] = X @ x # y # Y \<Longrightarrow> ptr_of st x = y"
  using links_append [of st X x "y # Y"] by (simp add: ring_place_def)

lemma place_stops:
  assumes rp: "ring_place st base a L U"
  shows "stop_at st a (last L)"
proof -
  note d = ring_placeD [OF rp]
  have "butlast L @ last L # U @ [base] = L @ U @ [base]"
    by (metis append.assoc append_Cons append_Nil append_butlast_last_id d(2))
  then have "links st (last L # U @ [base])" using links_append [of st "butlast L" "last L" "U @ [base]"] d(1) by metis
  then have n: "ptr_of st (last L) = hd (U @ [base])" by (rule links_next) simp
  show ?thesis
  proof (cases U)
    case Nil
    have "base \<le> last L" using d(2,3,4) last_in_set [of "tl L"] by (cases L) (auto simp: sorted_wrt_append intro: less_imp_le)
    then show ?thesis using n Nil d(5) [of "last L"] d(2) by (simp add: stop_at_def)
  next
    case (Cons y U')
    then show ?thesis using n d(5) [of "last L"] d(6) [of y] d(2) by (simp add: stop_at_def)
  qed
qed

lemma low_passes:
  assumes rp: "ring_place st base a L U" and l: "L = X @ x # y # Y"
  shows "\<not> stop_at st a x"
proof -
  note d = ring_placeD [OF rp]
  have "ptr_of st x = y" using next_of [OF rp, of X x y "Y @ U @ [base]"] l by simp
  moreover have "x < y" using d(4) l adjacent_less [of X x y "Y @ U"] by simp
  moreover have "y < a" using d(5) l by simp
  ultimately show ?thesis by (simp add: stop_at_def)
qed

lemma high_passes:
  assumes rp: "ring_place st base a L U" and u: "U = X @ x # Y"
  shows "\<not> stop_at st a x"
proof -
  note d = ring_placeD [OF rp]
  have x: "a < x" using d(6) u by simp
  show ?thesis
  proof (cases Y)
    case Nil
    then have "ptr_of st x = base" using next_of [OF rp, of "L @ X" x base "[]"] u by simp
    then show ?thesis using x d(5) [OF base_L [OF rp]] by (simp add: stop_at_def)
  next
    case (Cons y Y')
    then have "ptr_of st x = y" using next_of [OF rp, of "L @ X" x y "Y' @ [base]"] u by simp
    moreover have "x < y" using d(4) u Cons adjacent_less [of "L @ X" x y Y'] by simp
    ultimately show ?thesis using x by (simp add: stop_at_def)
  qed
qed

lemma scan_low:
  assumes rp: "ring_place st base a L U"
  shows "L = X @ f # Z \<Longrightarrow> free_scan st a f = Some (last L)"
proof (induction Z arbitrary: X f)
  case Nil
  then show ?case using place_stops [OF rp] by (subst free_scan.simps) simp
next
  case (Cons z Z)
  have "ptr_of st f = z" using next_of [OF rp, of X f z "Z @ U @ [base]"] Cons.prems by simp
  then show ?case using Cons.IH [of "X @ [f]" z] Cons.prems low_passes [OF rp Cons.prems] by (subst free_scan.simps) simp
qed

lemma scan_high:
  assumes rp: "ring_place st base a L U"
  shows "U = X @ f # Z \<Longrightarrow> free_scan st a f = Some (last L)"
proof (induction Z arbitrary: X f)
  case Nil
  have "ptr_of st f = base" using next_of [OF rp, of "L @ X" f base "[]"] Nil by simp
  moreover have "L = [] @ base # tl L" using ring_placeD(2,3) [OF rp] by (cases L) auto
  ultimately show ?case using high_passes [OF rp Nil] scan_low [OF rp, of "[]" base "tl L"] by (subst free_scan.simps) simp
next
  case (Cons z Z)
  have "ptr_of st f = z" using next_of [OF rp, of "L @ X" f z "Z @ [base]"] Cons.prems by simp
  then show ?case using Cons.IH [of "X @ [f]" z] Cons.prems high_passes [OF rp Cons.prems] by (subst free_scan.simps) simp
qed

lemma scan_place: "ring_place st base a L U \<Longrightarrow> f \<in> set (L @ U) \<Longrightarrow> free_scan st a f = Some (last L)"
  using scan_low scan_high by (metis Un_iff set_append split_list)

section \<open>Freeing a block\<close>

text \<open>The block joined with the one right above it, and with the one right below.\<close>

definition join_up :: "ublock \<Rightarrow> ublock list \<Rightarrow> ublock \<times> ublock list" where
  "join_up b vs = (case vs of c # ws \<Rightarrow> if ends b = fst c then ((fst b, snd b + snd c), ws) else (b, vs) | [] \<Rightarrow> (b, []))"

definition put_block :: "ublock list \<Rightarrow> ublock \<Rightarrow> ublock list \<Rightarrow> ublock list" where
  "put_block us b vs =
     (let (b1, ws) = join_up b vs in
      if us \<noteq> [] \<and> ends (last us) = fst b then butlast us @ (fst (last us), snd (last us) + snd b1) # ws else us @ b1 # ws)"

lemma hdr_set [simp]:
  "hdr (set_ptr a v st) = (hdr st)(a := (hdr st a)\<lparr>h_ptr := v\<rparr>)" "hdr (set_size a n st) = (hdr st)(a := (hdr st a)\<lparr>h_size := n mod 2 ^ 32\<rparr>)"
  "freep (set_ptr a v st) = freep st" "freep (set_size a n st) = freep st" "brk (set_ptr a v st) = brk st" "brk (set_size a n st) = brk st"
  by (simp_all add: set_ptr_def set_size_def)

text \<open>What \<open>free_insert\<close> writes, when the list around the place is \<open>L\<close> and \<open>vs\<close>.\<close>

lemma free_insert_hdr:
  assumes nx: "ptr_of st p = hd (map fst vs @ [base])" and b: "size_of st (fst b) = snd b" "fst b \<noteq> p" "base < fst b"
    and vs: "\<And>c. c \<in> set vs \<Longrightarrow> size_of st (fst c) = snd c \<and> fst c \<noteq> fst b" "links st (map fst vs @ [base])"
    and small: "\<And>b1 ws. join_up b vs = (b1, ws) \<Longrightarrow> size_of st p + snd b1 < 2 ^ 32"
    and j: "join_up b vs = (b1, ws)"
  shows "hdr (free_insert (fst b) p st) =
    (let h = (hdr st)(fst b := \<lparr>h_ptr = hd (map fst ws @ [base]), h_size = snd b1\<rparr>)
     in if p + HSIZE * size_of st p = fst b then h(p := \<lparr>h_ptr = hd (map fst ws @ [base]), h_size = size_of st p + snd b1\<rparr>)
        else h(p := \<lparr>h_ptr = fst b, h_size = size_of st p\<rparr>))"
    "freep (free_insert (fst b) p st) = p" "brk (free_insert (fst b) p st) = brk st"
proof -
  show "freep (free_insert (fst b) p st) = p" "brk (free_insert (fst b) p st) = brk st" by (simp_all add: free_insert_def Let_def)
  have up: "(fst b + HSIZE * size_of st (fst b) = ptr_of st p) = (vs \<noteq> [] \<and> ends b = fst (hd vs))"
    using nx b(1,3) by (cases vs) (auto simp: ends_def)
  show "hdr (free_insert (fst b) p st) =
    (let h = (hdr st)(fst b := \<lparr>h_ptr = hd (map fst ws @ [base]), h_size = snd b1\<rparr>)
     in if p + HSIZE * size_of st p = fst b then h(p := \<lparr>h_ptr = hd (map fst ws @ [base]), h_size = size_of st p + snd b1\<rparr>)
        else h(p := \<lparr>h_ptr = fst b, h_size = size_of st p\<rparr>))"
  proof (cases "vs \<noteq> [] \<and> ends b = fst (hd vs)")
    case True
    then obtain c us where v: "vs = c # us" "ends b = fst c" by (cases vs) auto
    then have bw: "b1 = (fst b, snd b + snd c)" "ws = us" using j by (auto simp: join_up_def)
    have lk: "ptr_of st (fst c) = hd (map fst us @ [base])" using vs(2) v(1) links_next [of st "fst c" "map fst us @ [base]"] by simp
    show ?thesis using up True v bw lk b vs(1) [of c] small [OF j] nx
      by (auto simp: free_insert_def Let_def fun_eq_iff)
  next
    case False
    then have bw: "b1 = b" "ws = vs" using j by (auto simp: join_up_def split: list.splits)
    show ?thesis using up False bw b small [OF j] nx
      by (auto simp: free_insert_def Let_def fun_eq_iff)
  qed
qed

lemma region_join: "ends b = fst c \<Longrightarrow> region (fst b, snd b + snd c) = region b \<union> region c"
  by (auto simp: region_def ends_def algebra_simps)

lemma ends_join: "ends b = fst c \<Longrightarrow> ends (fst b, snd b + snd c) = ends c"
  by (simp add: ends_def algebra_simps)

lemma join_up_props:
  assumes j: "join_up b vs = (b1, ws)" and g: "sorted_wrt gap vs" and a: "\<And>v. v \<in> set vs \<Longrightarrow> ends b \<le> fst v \<and> 0 < snd v" and p: "0 < snd b"
  shows "fst b1 = fst b" "0 < snd b1" "region b1 \<union> cover ws = region b \<union> cover vs" "sorted_wrt gap (b1 # ws)" "set ws \<subseteq> set vs"
    "snd b \<le> snd b1"
proof -
  have "fst b1 = fst b \<and> 0 < snd b1 \<and> region b1 \<union> cover ws = region b \<union> cover vs \<and> sorted_wrt gap (b1 # ws) \<and> set ws \<subseteq> set vs \<and> snd b \<le> snd b1"
  proof (cases vs)
    case Nil
    then show ?thesis using j p by (auto simp: join_up_def)
  next
    case (Cons c us)
    show ?thesis
    proof (cases "ends b = fst c")
      case True
      then have "b1 = (fst b, snd b + snd c)" "ws = us" using j Cons by (auto simp: join_up_def)
      then show ?thesis using g Cons p region_join [OF True] ends_join [OF True] by (auto simp: gap_def)
    next
      case False
      then have e: "b1 = b" "ws = vs" using j Cons by (auto simp: join_up_def)
      have "gap b v" if "v \<in> set vs" for v
      proof -
        have c: "ends b < fst c" using a [of c] False Cons by simp
        then show ?thesis using that g Cons by (auto simp: gap_def ends_def)
      qed
      then show ?thesis using e p g by auto
    qed
  qed
  then show "fst b1 = fst b" "0 < snd b1" "region b1 \<union> cover ws = region b \<union> cover vs" "sorted_wrt gap (b1 # ws)" "set ws \<subseteq> set vs"
    "snd b \<le> snd b1" by blast+
qed

text \<open>The list after the block was put between its neighbours.\<close>

lemma put_block_props:
  assumes g: "sorted_wrt gap (us @ vs)" and u: "\<And>x. x \<in> set us \<Longrightarrow> ends x \<le> fst b \<and> 0 < snd x"
    and v: "\<And>x. x \<in> set vs \<Longrightarrow> ends b \<le> fst x \<and> 0 < snd x" and p: "0 < snd b"
  shows "cover (put_block us b vs) = cover us \<union> region b \<union> cover vs" "sorted_wrt gap (put_block us b vs)"
proof -
  obtain b1 ws where j: "join_up b vs = (b1, ws)" by fastforce
  note q = join_up_props [OF j _ v p]
  have gv: "sorted_wrt gap vs" "sorted_wrt gap us" using g by (simp_all add: sorted_wrt_append)
  have far: "gap x w" if "x \<in> set us" "w \<in> set ws" for x w
    using g that q(5) [OF gv(1)] by (auto simp: sorted_wrt_append)
  have "cover (put_block us b vs) = cover us \<union> region b \<union> cover vs \<and> sorted_wrt gap (put_block us b vs)"
  proof (cases "us \<noteq> [] \<and> ends (last us) = fst b")
    case True
    define l xs where "l = last us" and "xs = butlast us"
    have us: "us = xs @ [l]" using True by (simp add: l_def xs_def)
    have e: "ends l = fst b1" using True q(1) [OF gv(1)] by (simp add: l_def)
    have r: "put_block us b vs = xs @ (fst l, snd l + snd b1) # ws" using True j by (simp add: put_block_def l_def xs_def)
    have "sorted_wrt gap (xs @ (fst l, snd l + snd b1) # ws)"
      using gv(2) far q(4) [OF gv(1)] ends_join [OF e] unfolding us by (auto simp: sorted_wrt_append gap_def)
    moreover have "cover (xs @ (fst l, snd l + snd b1) # ws) = cover us \<union> region b \<union> cover vs"
      using region_join [OF e] q(3) [OF gv(1)] unfolding us by auto
    ultimately show ?thesis using r by simp
  next
    case False
    have r: "put_block us b vs = us @ b1 # ws" using False j by (auto simp: put_block_def)
    have "gap x b1" if "x \<in> set us" for x
    proof -
      have "ends x < fst b"
      proof (cases "x = last us")
        case True
        then show ?thesis using False u [OF that] that by (cases us) auto
      next
        case ne: False
        have us: "us = butlast us @ [last us]" using that by (cases us) auto
        have "x \<in> set (butlast us)" using that ne by (subst (asm) us) simp
        moreover have "sorted_wrt gap (butlast us @ [last us])" using gv(2) us by simp
        ultimately have "gap x (last us)" by (simp add: sorted_wrt_append)
        moreover have "last us \<in> set us" using that by (cases us) auto
        ultimately show ?thesis using u [of "last us"] by (auto simp: gap_def ends_def)
      qed
      then show ?thesis using q(1) [OF gv(1)] by (simp add: gap_def)
    qed
    then show ?thesis using r far q(3,4) [OF gv(1)] gv(2) by (auto simp: sorted_wrt_append)
  qed
  then show "cover (put_block us b vs) = cover us \<union> region b \<union> cover vs" "sorted_wrt gap (put_block us b vs)" by blast+
qed

lemma links_suffix: "links st (xs @ ys) \<Longrightarrow> links st ys"
  using links_append [of st xs "hd ys" "tl ys"] by (cases ys) simp_all

text \<open>Rewriting the ring behind node \<open>p\<close>.\<close>

lemma links_rewrite:
  assumes old: "links st (X @ p # r)" and new: "links st' (p # r')" and same: "\<And>x. x \<in> set X \<Longrightarrow> ptr_of st' x = ptr_of st x"
  shows "links st' (X @ p # r')"
proof -
  have "links st' (X @ [p]) = links st (X @ [p])" by (rule links_cong) (simp add: same)
  then show ?thesis using old new links_append [of st X p r] links_append [of st' X p r'] by simp
qed

lemma join_up_sub: "join_up b vs = (b1, ws) \<Longrightarrow> \<exists>xs. vs = xs @ ws"
  by (auto simp: join_up_def split: list.splits if_splits)

text \<open>
  A free block \<open>b\<close> put between the nodes of \<open>us\<close> and of \<open>vs\<close>: \<open>p\<close> is the last node below, \<open>b1\<close> the block joined
  with its upper neighbour, \<open>ws\<close> what stays above.
\<close>

definition freed :: "uaddr \<Rightarrow> uheap \<Rightarrow> uheap \<Rightarrow> ublock list \<Rightarrow> ublock \<Rightarrow> ublock list \<Rightarrow> nat \<Rightarrow> ublock \<Rightarrow> ublock list \<Rightarrow> bool" where
  "freed base st st' us b vs p b1 ws = (flist base st (us @ vs) \<and> p = last (base # map fst us) \<and> join_up b vs = (b1, ws) \<and>
     fst b1 = fst b \<and> 0 < snd b1 \<and> set ws \<subseteq> set vs \<and> base + HSIZE \<le> fst b \<and>
     (\<forall>x\<in>set (base # map fst us). x < fst b) \<and> (\<forall>x\<in>set (map fst vs). fst b < x) \<and> freep st' = p \<and>
     (let h = (hdr st)(fst b := \<lparr>h_ptr = hd (map fst ws @ [base]), h_size = snd b1\<rparr>)
      in hdr st' = (if us \<noteq> [] \<and> ends (last us) = fst b then h(p := \<lparr>h_ptr = hd (map fst ws @ [base]), h_size = size_of st p + snd b1\<rparr>)
                    else h(p := \<lparr>h_ptr = fst b, h_size = size_of st p\<rparr>))))"

lemma freedD:
  assumes "freed base st st' us b vs p b1 ws"
  shows "flist base st (us @ vs)" "join_up b vs = (b1, ws)" "fst b1 = fst b" "0 < snd b1" "set ws \<subseteq> set vs" "base + HSIZE \<le> fst b"
    "\<And>x. x \<in> set (base # map fst us) \<Longrightarrow> x < fst b" "\<And>x. x \<in> set (map fst vs) \<Longrightarrow> fst b < x" "freep st' = p"
    "hdr st' (fst b) = \<lparr>h_ptr = hd (map fst ws @ [base]), h_size = snd b1\<rparr>"
    "hdr st' p = (if us \<noteq> [] \<and> ends (last us) = fst b then \<lparr>h_ptr = hd (map fst ws @ [base]), h_size = size_of st p + snd b1\<rparr>
                  else \<lparr>h_ptr = fst b, h_size = size_of st p\<rparr>)"
    "\<And>x. x \<noteq> p \<Longrightarrow> x \<noteq> fst b \<Longrightarrow> hdr st' x = hdr st x"
    "\<And>x. x \<in> set us \<union> set vs \<Longrightarrow> 0 < snd x \<and> base + HSIZE \<le> fst x \<and> size_of st (fst x) = snd x"
    "size_of st p = (if us = [] then 0 else snd (last us))" "p = (if us = [] then base else fst (last us))" "p \<noteq> fst b"
proof -
  note f = assms [unfolded freed_def Let_def]
  have p: "p = last (base # map fst us)" using f by simp
  show q: "p = (if us = [] then base else fst (last us))" using p by (simp add: last_map)
  show "size_of st p = (if us = [] then 0 else snd (last us))" using f q last_in_set [of us] unfolding flist_def by (simp add: last_map)
  have "p \<in> set (base # map fst us)" unfolding p by (rule last_in_set) simp
  then show ne: "p \<noteq> fst b" using f by (metis less_irrefl)
  show "hdr st' (fst b) = \<lparr>h_ptr = hd (map fst ws @ [base]), h_size = snd b1\<rparr>" using f fun_upd_other [OF ne [symmetric]] by auto
qed (use assms in \<open>auto simp: freed_def flist_def Let_def\<close>)

lemma freed_split:
  assumes fr: "freed base st st' us b vs p b1 ws"
  obtains X where "\<And>y. base # map fst us @ y = X @ p # y" "\<And>x. x \<in> set X \<union> set (map fst vs) \<Longrightarrow> x \<noteq> p \<and> x \<noteq> fst b"
proof
  note f = freedD [OF fr]
  let ?L = "base # map fst us"
  have "p = last ?L" using f(15) by (simp add: last_map)
  then have L: "?L = butlast ?L @ [p]" by (metis append_butlast_last_id list.discI)
  show "base # map fst us @ y = butlast ?L @ p # y" for y using L by (metis append.assoc append_Cons append_Nil)
  have "sorted_wrt (<) (butlast ?L @ [p] @ map fst vs)" using flist_sorted [OF f(1)] L by (metis append.assoc append_Cons map_append)
  moreover have "x < fst b" if "x \<in> set (butlast ?L)" for x using f(7) in_set_butlastD [OF that] by blast
  ultimately show "x \<noteq> p \<and> x \<noteq> fst b" if "x \<in> set (butlast ?L) \<union> set (map fst vs)" for x
    using that f(8) [of x] by (fastforce simp: sorted_wrt_append)
qed

lemma freed_links:
  assumes fr: "freed base st st' us b vs p b1 ws"
  shows "links st' (base # map fst (put_block us b vs) @ [base])"
proof -
  note f = freedD [OF fr]
  obtain X where cut: "\<And>y. base # map fst us @ y = X @ p # y" and out: "\<And>x. x \<in> set X \<union> set (map fst vs) \<Longrightarrow> x \<noteq> p \<and> x \<noteq> fst b"
    using freed_split [OF fr] by blast
  let ?r = "map fst ws @ [base]"
  have same: "ptr_of st' x = ptr_of st x" if "x \<in> set X \<union> set (map fst vs)" for x using f(12) [of x] out [OF that] by simp
  have old: "links st (X @ p # map fst vs @ [base])" using f(1) cut [of "map fst vs @ [base]"] by (simp add: flist_def)
  have lr: "links st' ?r"
  proof -
    obtain xs where xs: "vs = xs @ ws" using join_up_sub [OF f(2)] by blast
    have "links st ?r" using old links_suffix [of st "X @ p # map fst xs" ?r] xs by simp
    moreover have "ptr_of st' x = ptr_of st x" if "x \<in> set (butlast ?r)" for x using that same [of x] xs by auto
    ultimately show ?thesis using links_cong by blast
  qed
  have X: "ptr_of st' x = ptr_of st x" if "x \<in> set X" for x using that same [of x] by blast
  show ?thesis
  proof (cases "us \<noteq> [] \<and> ends (last us) = fst b")
    case True
    then have "ptr_of st' p = hd ?r" using f(11) by simp
    then have "links st' (X @ p # ?r)" using links_rewrite [OF old, of st' ?r] X lr by (cases ?r) auto
    moreover have "map fst (put_block us b vs) = map fst us @ map fst ws"
      using True f(2) by (cases us rule: rev_cases) (auto simp: put_block_def)
    ultimately show ?thesis by (simp only: append_assoc cut)
  next
    case False
    then have "ptr_of st' p = fst b" "ptr_of st' (fst b) = hd ?r" using f(10,11) by auto
    then have "links st' (X @ p # fst b # ?r)" using links_rewrite [OF old, of st' "fst b # ?r"] X lr by (cases ?r) auto
    moreover have "map fst (put_block us b vs) @ [base] = map fst us @ fst b # ?r" using False f(2,3) by (auto simp: put_block_def)
    ultimately show ?thesis by (simp only: cut)
  qed
qed

text \<open>Each node of the new list has the size of its block.\<close>

lemma freed_sizes:
  assumes fr: "freed base st st' us b vs p b1 ws" and x: "x \<in> set (put_block us b vs)"
  shows "size_of st' (fst x) = snd x \<and> 0 < snd x \<and> base + HSIZE \<le> fst x"
proof -
  note f = freedD [OF fr]
  have keep: "size_of st' (fst y) = snd y \<and> 0 < snd y \<and> base + HSIZE \<le> fst y" if y: "y \<in> set us \<union> set vs" "fst y \<noteq> p" for y
  proof -
    have "fst y \<in> set (base # map fst us) \<or> fst y \<in> set (map fst vs)" using y(1) by auto
    then have "fst y \<noteq> fst b" using f(7) [of "fst y"] f(8) [of "fst y"] by (metis less_irrefl)
    then show ?thesis using f(12) [OF y(2)] f(13) [OF y(1)] by simp
  qed
  obtain X where out: "\<And>x. x \<in> set X \<union> set (map fst vs) \<Longrightarrow> x \<noteq> p \<and> x \<noteq> fst b" using freed_split [OF fr] by blast
  have above: ?thesis if "x \<in> set ws" using that keep [of x] f(5) out [of "fst x"] by auto
  show ?thesis
  proof (cases "us \<noteq> [] \<and> ends (last us) = fst b")
    case True
    then obtain xs l where us: "us = xs @ [l]" by (metis append_butlast_last_id)
    have pl: "p = fst l" using f(15) us by simp
    have "sorted_wrt gap (xs @ [l])" using f(1) us by (simp add: flist_def sorted_wrt_append)
    then have nx: "fst y \<noteq> p" if "y \<in> set xs" for y using that pl by (auto simp: sorted_wrt_append gap_def ends_def)
    have "x \<in> set xs \<or> x = (fst l, snd l + snd b1) \<or> x \<in> set ws" using x True f(2) us by (auto simp: put_block_def)
    then show ?thesis using keep [of x] nx [of x] above f(11) f(13) [of l] f(14) True pl us by auto
  next
    case False
    then have "x \<in> set us \<or> x = b1 \<or> x \<in> set ws" using x f(2) by (auto simp: put_block_def)
    moreover have "size_of st' p = size_of st p" using f(11) False by auto
    then have ?thesis if "x \<in> set us" using keep [of x] f(13) [of x] that by (cases "fst x = p") auto
    moreover have ?thesis if "x = b1" using f(3,4,6,10) that by simp
    ultimately show ?thesis using above by blast
  qed
qed

lemma freed_flist:
  assumes fr: "freed base st st' us b vs p b1 ws" and u: "\<And>x. x \<in> set us \<Longrightarrow> ends x \<le> fst b" and v: "\<And>x. x \<in> set vs \<Longrightarrow> ends b \<le> fst x" and b: "0 < snd b"
  shows "flist base st' (put_block us b vs)"
proof -
  note f = freedD [OF fr]
  have "p \<in> set (base # map fst (put_block us b vs))" using f(15) f(2) by (auto simp: put_block_def)
  moreover have "sorted_wrt gap (put_block us b vs)" by (rule put_block_props(2)) (use f(1) u v f(13) b in \<open>auto simp: flist_def\<close>)
  moreover have "size_of st' base = 0"
  proof (cases "us = []")
    case True
    then show ?thesis using f(11,14,15) by simp
  next
    case False
    then have "base < p" using f(15) f(13) [of "last us"] by (simp add: HSIZE_def)
    then show ?thesis using f(12) [of base] f(7) [of base] f(1) by (auto simp: flist_def)
  qed
  ultimately show ?thesis using freed_links [OF fr] freed_sizes [OF fr] f(9) by (simp add: flist_def)
qed

text \<open>The sizes added do not wrap around.\<close>

lemma join_small:
  assumes b1: "fst b1 = fst b" "0 < snd b1" "region b1 \<subseteq> {..<2 ^ 36}" and low: "base + HSIZE \<le> fst b" "us \<noteq> [] \<Longrightarrow> ends (last us) \<le> fst b \<and> 0 < fst (last us)"
  shows "(if us = [] then 0 else snd (last us)) + snd b1 < (2 :: nat) ^ 32"
proof -
  have "ends b1 - 1 \<in> region b1" using b1(2) by (auto simp: region_def ends_def HSIZE_def)
  then have "ends b1 - 1 < 2 ^ 36" using b1(3) by auto
  then show ?thesis using b1(1) low by (auto simp: ends_def HSIZE_def split: if_splits)
qed

lemma free_freed:
  assumes fl: "flist base st (us @ vs)" and u: "\<And>x. x \<in> set us \<Longrightarrow> ends x \<le> fst b" and v: "\<And>x. x \<in> set vs \<Longrightarrow> ends b \<le> fst x"
    and b: "size_of st (fst b) = snd b" "0 < snd b" "base + HSIZE \<le> fst b" and top: "cover (us @ b # vs) \<subseteq> {..<2 ^ 36}"
  shows "\<exists>st' p b1 ws. free (fst b + HSIZE) st = Some st' \<and> freed base st st' us b vs p b1 ws \<and> brk st' = brk st"
proof -
  note d = fl [unfolded flist_def]
  define p where "p = last (base # map fst us)"
  have pos: "0 < snd x" "base + HSIZE \<le> fst x" if "x \<in> set us \<union> set vs" for x using d that by auto
  have ord: "sorted_wrt (<) ((base # map fst us) @ map fst vs)" using flist_sorted [OF fl] by simp
  have low: "x < fst b" if "x \<in> set (base # map fst us)" for x using that u pos b(3) by (fastforce simp: ends_def HSIZE_def)
  have high: "fst b < x" if "x \<in> set (map fst vs)" for x using that v b(2) by (fastforce simp: ends_def HSIZE_def)
  have "ring_place st base (fst b) (base # map fst us) (map fst vs)" unfolding ring_place_def using d ord low high by simp
  then have scan: "free_scan st (fst b) (freep st) = Some p" unfolding p_def by (rule scan_place) (use d in simp)
  obtain b1 ws where j: "join_up b vs = (b1, ws)" by fastforce
  have gv: "sorted_wrt gap vs" using d by (simp add: sorted_wrt_append)
  have q: "fst b1 = fst b" "0 < snd b1" "region b1 \<union> cover ws = region b \<union> cover vs" "sorted_wrt gap (b1 # ws)" "set ws \<subseteq> set vs" "snd b \<le> snd b1"
    by (rule join_up_props [OF j gv _ b(2)], use v pos in simp)+
  have szp: "size_of st p = (if us = [] then 0 else snd (last us))" "p = (if us = [] then base else fst (last us))"
    using d by (simp_all add: p_def last_map)
  have small: "size_of st p + snd b1 < 2 ^ 32"
    unfolding szp(1)
  proof (rule join_small [OF q(1,2) _ b(3)])
    show "region b1 \<subseteq> {..<2 ^ 36}" using top q(3) by auto
    show "ends (last us) \<le> fst b \<and> 0 < fst (last us)" if "us \<noteq> []"
      using u [of "last us"] pos(2) [of "last us"] that by (simp add: HSIZE_def)
  qed
  have lk: "links st (p # map fst vs @ [base])"
    using d links_suffix [of st "butlast (base # map fst us)" "p # map fst vs @ [base]"] unfolding p_def
    by (metis append.assoc append_Cons append_Nil append_butlast_last_id list.discI map_append)
  have nx: "ptr_of st p = hd (map fst vs @ [base])" using lk by (rule links_next) simp
  have lv: "links st (map fst vs @ [base])" using links_suffix [of st "[p]"] lk by simp
  have "p \<in> set (base # map fst us)" unfolding p_def by (rule last_in_set) simp
  then have ne: "fst b \<noteq> p" "base < fst b" using low [of p] b(3) by (auto simp: HSIZE_def)
  have h: "hdr (free_insert (fst b) p st) = (let h = (hdr st)(fst b := \<lparr>h_ptr = hd (map fst ws @ [base]), h_size = snd b1\<rparr>)
     in if p + HSIZE * size_of st p = fst b then h(p := \<lparr>h_ptr = hd (map fst ws @ [base]), h_size = size_of st p + snd b1\<rparr>)
        else h(p := \<lparr>h_ptr = fst b, h_size = size_of st p\<rparr>))" "freep (free_insert (fst b) p st) = p" "brk (free_insert (fst b) p st) = brk st"
    by (rule free_insert_hdr [OF nx b(1) ne _ lv _ j]; use d high small j in force)+
  have down: "(p + HSIZE * size_of st p = fst b) = (us \<noteq> [] \<and> ends (last us) = fst b)" using szp ne(2) by (auto simp: ends_def)
  have "freed base st (free_insert (fst b) p st) us b vs p b1 ws"
    unfolding freed_def using fl p_def j q(1,2,5) b(3) low high h [unfolded down] by (simp add: Let_def)
  moreover have "free (fst b + HSIZE) st = Some (free_insert (fst b) p st)" using scan by (simp add: free_def)
  ultimately show ?thesis using h(3) by blast
qed

lemma free_flist:
  assumes fl: "flist base st (us @ vs)" and u: "\<And>x. x \<in> set us \<Longrightarrow> ends x \<le> fst b" and v: "\<And>x. x \<in> set vs \<Longrightarrow> ends b \<le> fst x"
    and b: "size_of st (fst b) = snd b" "0 < snd b" "base + HSIZE \<le> fst b" and top: "cover (us @ b # vs) \<subseteq> {..<2 ^ 36}"
  shows "\<exists>st'. free (fst b + HSIZE) st = Some st' \<and> flist base st' (put_block us b vs) \<and> brk st' = brk st \<and>
    (\<forall>x. x \<notin> set (base # fst b # map fst us) \<longrightarrow> hdr st' x = hdr st x)"
proof -
  obtain st' p b1 ws where r: "free (fst b + HSIZE) st = Some st'" "brk st' = brk st" and fr: "freed base st st' us b vs p b1 ws"
    using free_freed [OF fl u v b top] by blast
  have "hdr st' x = hdr st x" if "x \<notin> set (base # fst b # map fst us)" for x
  proof -
    have "p \<in> set (base # map fst us)" using freedD(15) [OF fr] by auto
    then have "x \<noteq> p" "x \<noteq> fst b" using that by auto
    then show ?thesis by (rule freedD(12) [OF fr])
  qed
  then show ?thesis using r freed_flist [OF fr u v b(2)] by blast
qed

text \<open>Cells of blocks in use are left alone.\<close>

definition keeps :: "ublock set \<Rightarrow> uheap \<Rightarrow> uheap \<Rightarrow> bool" where
  "keeps al st st' = (\<forall>c\<in>al. \<forall>x\<in>region c. hdr st' x = hdr st x)"

lemma region_start: "0 < snd c \<Longrightarrow> fst c \<in> region c"
  by (simp add: region_def ends_def HSIZE_def)

lemma heap_invD:
  assumes "heap_inv base lo st fs al"
  shows "0 < base" "base + HSIZE \<le> lo" "lo \<le> brk st" "brk st < 2 ^ 36" "flist base st fs" "cover fs \<subseteq> {lo..<brk st}"
    "\<And>c. c \<in> al \<Longrightarrow> size_of st (fst c) = snd c" "\<And>c. c \<in> al \<Longrightarrow> 0 < snd c" "\<And>c. c \<in> al \<Longrightarrow> region c \<subseteq> {lo..<brk st}"
    "\<And>c. c \<in> al \<Longrightarrow> region c \<inter> cover fs = {}" "\<And>c e. c \<in> al \<Longrightarrow> e \<in> al \<Longrightarrow> c \<noteq> e \<Longrightarrow> region c \<inter> region e = {}"
    "\<And>c. c \<in> set fs \<Longrightarrow> size_of st (fst c) = snd c \<and> 0 < snd c \<and> base + HSIZE \<le> fst c" "sorted_wrt gap fs"
  using assms unfolding heap_inv_def flist_def by auto

lemma heap_inv_insert:
  assumes "0 < base" "base + HSIZE \<le> lo" "lo \<le> brk st" "brk st < 2 ^ 36" "flist base st fs" "cover fs \<subseteq> {lo..<brk st}"
    and "\<And>c. c \<in> al \<Longrightarrow> size_of st (fst c) = snd c" "\<And>c. c \<in> al \<Longrightarrow> 0 < snd c" "\<And>c. c \<in> al \<Longrightarrow> region c \<subseteq> {lo..<brk st}"
    and "\<And>c. c \<in> al \<Longrightarrow> region c \<inter> cover fs = {}" "\<And>c e. c \<in> al \<Longrightarrow> e \<in> al \<Longrightarrow> c \<noteq> e \<Longrightarrow> region c \<inter> region e = {}"
    and "size_of st (fst q) = snd q" "0 < snd q" "region q \<subseteq> {lo..<brk st}" "region q \<inter> cover fs = {}" "\<And>c. c \<in> al \<Longrightarrow> region c \<inter> region q = {}"
  shows "heap_inv base lo st fs (insert q al)"
proof -
  have "region q \<inter> region c = {}" if "c \<in> al" for c using assms(16) [OF that] by (simp add: Int_commute)
  then show ?thesis unfolding heap_inv_def using assms by (simp add: ball_Un)
qed

text \<open>No cell of a block in use is a node, or \<open>base\<close>.\<close>

lemma in_use:
  assumes inv: "heap_inv base lo st fs al" and c: "c \<in> al" "x \<in> region c"
  shows "x \<notin> set (base # map fst fs)" "e \<in> al \<Longrightarrow> e \<noteq> c \<Longrightarrow> x \<noteq> fst e"
proof -
  note d = heap_invD [OF inv]
  have "x \<noteq> fst e" if "e \<in> set fs" for e
    using d(10) [OF c(1)] c(2) region_start [of e] d(12) [OF that] that by (auto simp: cover_def)
  moreover have "x \<noteq> base" using d(9) [OF c(1)] c(2) d(2) by (auto simp: HSIZE_def)
  ultimately show "x \<notin> set (base # map fst fs)" by auto
  show "x \<noteq> fst e" if "e \<in> al" "e \<noteq> c"
    using d(11) [OF that(1) c(1) that(2)] region_start [OF d(8) [OF that(1)]] c(2) by auto
qed

lemma free_heap:
  assumes inv: "heap_inv base lo st fs (insert b al)" and new: "b \<notin> al"
  obtains st' fs' where "free (fst b + HSIZE) st = Some st'" "heap_inv base lo st' fs' al" "cover fs' = cover fs \<union> region b"
    "keeps al st st'" "brk st' = brk st"
proof -
  note d = heap_invD [OF inv]
  have "apart x b" if "x \<in> set fs" for x
    using d(10) [of b] that d(12) [OF that] d(8) [of b] by (auto intro!: region_apart simp: cover_def)
  then obtain us vs where fs: "fs = us @ vs" and u: "\<And>x. x \<in> set us \<Longrightarrow> ends x \<le> fst b" and v: "\<And>x. x \<in> set vs \<Longrightarrow> ends b \<le> fst x"
    using split_at [OF d(13), of "fst b" "snd b"] d(8) [of b] d(12) by (metis ends_def insertI1 prod.collapse)
  have b3: "base + HSIZE \<le> fst b" using d(2) d(9) [of b] region_start [OF d(8) [of b]] by auto
  have "cover (us @ b # vs) \<subseteq> {lo..<brk st}" using d(6) d(9) [of b] fs by simp
  then have top: "cover (us @ b # vs) \<subseteq> {..<2 ^ 36}" using d(4) by fastforce
  obtain st' where st': "free (fst b + HSIZE) st = Some st'" "flist base st' (put_block us b vs)" "brk st' = brk st"
    "\<And>x. x \<notin> set (base # fst b # map fst us) \<Longrightarrow> hdr st' x = hdr st x"
    using free_flist [OF d(5) [unfolded fs] u v _ _ b3 top] d(7,8) [of b] by auto
  have cov: "cover (put_block us b vs) = cover fs \<union> region b"
    using put_block_props(1) [of us vs b] d(12,13) u v d(8) [of b] unfolding fs by auto
  have kp: "hdr st' x = hdr st x" if "c \<in> al" "x \<in> region c" for c x
  proof -
    have "x \<notin> set (base # map fst fs)" "x \<noteq> fst b" using in_use [OF inv, of c x] that new by blast+
    then show ?thesis using st'(4) [of x] by (simp add: fs)
  qed
  have off: "region c \<inter> (cover fs \<union> region b) = {}" if "c \<in> al" for c
    using d(10) [of c] d(11) [of c b] that new by (auto simp: Int_Un_distrib)
  have sz: "size_of st' (fst c) = snd c" if "c \<in> al" for c
    using kp [OF that region_start] d(7,8) [of c] that by simp
  have "cover fs \<union> region b \<subseteq> {lo..<brk st}" using d(6) d(9) [of b] by simp
  then have "heap_inv base lo st' (put_block us b vs) al"
    unfolding heap_inv_def cov st'(3) using d(1-4) st'(2) sz off d(8,9,11) by simp
  then show thesis using that st'(1,3) cov kp unfolding keeps_def by blast
qed

section \<open>The search of malloc\<close>

lemma malloc_hit:
  "links st (prev # us @ p # r) \<Longrightarrow> (\<And>x. x \<in> set us \<Longrightarrow> size_of st x < n \<and> x \<noteq> freep st) \<Longrightarrow> n \<le> size_of st p \<Longrightarrow>
   malloc_loop g n prev (hd (us @ [p])) st = Some (carve n (last (prev # us)) p st)"
proof (induction us arbitrary: prev)
  case Nil
  then show ?case by (subst malloc_loop.simps) simp
next
  case (Cons u us)
  have "ptr_of st u = hd (us @ [p])" using Cons.prems(1) by (cases us) auto
  moreover have "\<not> n \<le> size_of st u" "u \<noteq> freep st" using Cons.prems(2) [of u] by simp_all
  ultimately show ?case using Cons.IH [of u] Cons.prems by (subst malloc_loop.simps) simp
qed

lemma malloc_miss:
  "links st (prev # us @ [freep st]) \<Longrightarrow> (\<And>x. x \<in> set us \<Longrightarrow> size_of st x < n \<and> x \<noteq> freep st) \<Longrightarrow> size_of st (freep st) < n \<Longrightarrow>
   malloc_loop g n prev (hd (us @ [freep st])) st = (case morecore g n st of None \<Rightarrow> None
     | Some (p1, st1) \<Rightarrow> if p1 = 0 then Some (0, st1) else malloc_loop g n p1 (ptr_of st1 p1) st1)"
proof (induction us arbitrary: prev)
  case Nil
  then show ?case by (subst malloc_loop.simps) (simp add: not_le)
next
  case (Cons u us)
  have "ptr_of st u = hd (us @ [freep st])" using Cons.prems(1) by (cases us) auto
  moreover have "\<not> n \<le> size_of st u" "u \<noteq> freep st" using Cons.prems(2) [of u] by simp_all
  ultimately show ?case using Cons.IH [of u] Cons.prems by (subst malloc_loop.simps) simp
qed

text \<open>The ring, seen from \<open>freep\<close>.\<close>

lemma ring_from:
  assumes fl: "flist base st fs"
  obtains us where "links st (freep st # us @ [freep st])" "set (base # map fst fs) = insert (freep st) (set us)" "freep st \<notin> set us"
proof -
  let ?f = "freep st"
  have d: "distinct (base # map fst fs)" using flist_sorted [OF fl] by (auto simp: strict_sorted_iff)
  have ring: "links st (base # map fst fs @ [base])" and f: "?f \<in> set (base # map fst fs)" using fl by (simp_all add: flist_def)
  obtain A B where AB: "base # map fst fs = A @ ?f # B" using f by (metis split_list)
  show thesis
  proof (cases A)
    case Nil
    then have "?f = base" "B = map fst fs" using AB by auto
    then show thesis using that [of "map fst fs"] ring d by simp
  next
    case (Cons a A')
    then have a: "a = base" "map fst fs = A' @ ?f # B" using AB by auto
    then have l: "links st ((base # A') @ ?f # B @ [base])" using ring by simp
    have "links st (?f # B @ [base])" "links st (base # A' @ [?f])" using l links_append [of st "base # A'" ?f "B @ [base]"] by simp_all
    then have "links st ((?f # B) @ base # A' @ [?f])" using links_append [of st "?f # B" base "A' @ [?f]"] by simp
    then show thesis using that [of "B @ base # A'"] d AB Cons a by auto
  qed
qed

lemma links_last: "links st (x # xs @ p # ys) \<Longrightarrow> ptr_of st (last (x # xs)) = p"
  by (induction xs arbitrary: x) auto

text \<open>The first fit, if there is one.\<close>

lemma malloc_finds:
  assumes fl: "flist base st fs" and n: "0 < n" and fit: "c \<in> set fs" "n \<le> snd c"
  obtains e prev where "e \<in> set fs" "n \<le> snd e" "prev \<in> set (base # map fst fs)" "ptr_of st prev = fst e"
    "malloc_loop g n (freep st) (ptr_of st (freep st)) st = Some (carve n prev (fst e) st)"
proof -
  obtain us where us: "links st (freep st # us @ [freep st])" "set (base # map fst fs) = insert (freep st) (set us)" "freep st \<notin> set us"
    using ring_from [OF fl] by blast
  have ring: "set (us @ [freep st]) = set (base # map fst fs)" using us(2) by auto
  let ?P = "\<lambda>x. n \<le> size_of st x"
  have "?P (fst c)" using fit fl by (simp add: flist_def)
  moreover have "fst c \<in> set (us @ [freep st])" unfolding ring using fit(1) by simp
  ultimately have "\<exists>x\<in>set (us @ [freep st]). ?P x" by blast
  then obtain xs p ys where sp: "us @ [freep st] = xs @ p # ys" "?P p" "\<forall>x\<in>set xs. \<not> ?P x" using split_list_first_prop [of _ ?P] by blast
  have xs: "set xs \<subseteq> set us" using sp(1) by (cases ys rule: rev_cases) auto
  have lk: "links st (freep st # xs @ p # ys)" using us(1) sp(1) by simp
  have hit: "malloc_loop g n (freep st) (hd (xs @ [p])) st = Some (carve n (last (freep st # xs)) p st)"
    by (rule malloc_hit [OF lk _ sp(2)]) (use sp(3) xs us(3) in \<open>auto simp: not_le\<close>)
  have "hd (xs @ [p]) = ptr_of st (freep st)" using lk by (cases xs) auto
  note hit = hit [unfolded this]
  have "p \<in> set (us @ [freep st])" unfolding sp(1) by simp
  moreover have "p \<noteq> base" using sp(2) n fl by (auto simp: flist_def)
  ultimately obtain e where e: "e \<in> set fs" "p = fst e" unfolding ring by auto
  have se: "n \<le> snd e" using sp(2) e fl by (simp add: flist_def)
  have prev: "last (freep st # xs) \<in> set (base # map fst fs)" unfolding us(2) using xs by (cases xs rule: rev_cases) auto
  show thesis by (rule that [OF e(1) se prev]) (use links_last [OF lk] hit e(2) in simp_all)
qed

section \<open>Carving\<close>

text \<open>The node before a block in the ring.\<close>

lemma ring_prev:
  assumes fl: "flist base st (us @ e # vs)" and prev: "prev \<in> set (base # map fst (us @ e # vs))" "ptr_of st prev = fst e"
  obtains A where "base # map fst us = A @ [prev]"
proof -
  let ?N = "base # map fst (us @ e # vs)"
  have d: "distinct ?N" using flist_sorted [OF fl] by (auto simp: strict_sorted_iff)
  have ring: "links st (?N @ [base])" using fl by (simp add: flist_def)
  obtain A B where AB: "?N = A @ prev # B" using prev(1) by (metis split_list)
  then have "links st (prev # B @ [base])" using ring links_append [of st A prev "B @ [base]"] by simp
  then have "hd (B @ [base]) = fst e" using prev(2) links_next [of st prev "B @ [base]"] by simp
  moreover have "fst e \<noteq> base" using d by auto
  ultimately obtain B' where B: "B = fst e # B'" by (cases B) auto
  have eq: "(base # map fst us) @ fst e # map fst vs = (A @ [prev]) @ fst e # B'" using AB B by simp
  have ne: "fst e \<notin> set (base # map fst us)" "fst e \<notin> set (map fst vs)" using d by auto
  have "base # map fst us = A @ [prev]" using append_Cons_eq_iff [OF ne, of "A @ [prev]" B'] eq by blast
  then show thesis by (rule that)
qed

lemma carve_exact:
  assumes fl: "flist base st (us @ e # vs)" and prev: "prev \<in> set (base # map fst (us @ e # vs))" "ptr_of st prev = fst e"
  shows "flist base ((set_ptr prev (ptr_of st (fst e)) st)\<lparr>freep := prev\<rparr>) (us @ vs)"
proof -
  let ?st = "(set_ptr prev (ptr_of st (fst e)) st)\<lparr>freep := prev\<rparr>"
  obtain A where A: "base # map fst us = A @ [prev]" using ring_prev [OF fl prev] by blast
  note f = fl [unfolded flist_def]
  have d: "distinct (base # map fst (us @ e # vs))" using flist_sorted [OF fl] by (auto simp: strict_sorted_iff)
  have cut: "base # map fst us @ y = A @ prev # y" for y using A by (metis append.assoc append_Cons append_Nil)
  have old: "links st (A @ prev # fst e # map fst vs @ [base])" using f cut [of "fst e # map fst vs @ [base]"] by simp
  have nA: "prev \<notin> set A" "prev \<notin> set (map fst vs)" "prev \<noteq> fst e"
  proof -
    have "base # map fst (us @ e # vs) = A @ prev # fst e # map fst vs" by (simp only: map_append list.map cut)
    from d [unfolded this] show "prev \<notin> set A" "prev \<notin> set (map fst vs)" "prev \<noteq> fst e" by simp_all
  qed
  have e: "links st (fst e # map fst vs @ [base])" using old links_append [of st "A @ [prev]" "fst e" "map fst vs @ [base]"] by simp
  then have "ptr_of st (fst e) = hd (map fst vs @ [base])" by (rule links_next) simp
  moreover have "links ?st (map fst vs @ [base]) = links st (map fst vs @ [base])" by (rule links_cong) (use nA in auto)
  moreover have "links st (map fst vs @ [base])" using e links_suffix [of st "[fst e]"] by simp
  ultimately have "links ?st (prev # map fst vs @ [base])" by (cases "map fst vs @ [base]") auto
  then have "links ?st (A @ prev # map fst vs @ [base])" by (rule links_rewrite [OF old]) (use nA in auto)
  then have l: "links ?st (base # map fst (us @ vs) @ [base])" by (simp only: map_append append_assoc cut)
  have sz: "size_of ?st x = size_of st x" for x by simp
  have "prev \<in> set (base # map fst us)" unfolding A by simp
  then show ?thesis unfolding flist_def using l f sz by (auto simp: sorted_wrt_append)
qed

lemma carve_split:
  assumes fl: "flist base st (us @ e # vs)" and n: "0 < n" "n < snd e" "snd e < 2 ^ 32" and prev: "prev \<in> set (base # map fst (us @ e # vs))"
  shows "flist base ((set_size (fst e + HSIZE * (snd e - n)) n (set_size (fst e) (snd e - n) st))\<lparr>freep := prev\<rparr>) (us @ (fst e, snd e - n) # vs)"
    "fst e + HSIZE * (snd e - n) \<notin> set (base # map fst (us @ e # vs))"
proof -
  let ?q = "fst e + HSIZE * (snd e - n)"
  let ?st = "(set_size ?q n (set_size (fst e) (snd e - n) st))\<lparr>freep := prev\<rparr>"
  note f = fl [unfolded flist_def]
  have q: "fst e < ?q" "?q < ends e" using n by (simp_all add: HSIZE_def ends_def)
  have o: "fst u < fst e" if "u \<in> set us" for u using f that by (auto simp: sorted_wrt_append gap_def ends_def)
  have o2: "ends e < fst v" if "v \<in> set vs" for v using f that by (auto simp: sorted_wrt_append gap_def)
  show nq: "?q \<notin> set (base # map fst (us @ e # vs))" using q f o o2 by (fastforce simp: HSIZE_def)
  have p: "ptr_of ?st x = ptr_of st x" for x by simp
  have l: "links ?st (base # map fst (us @ (fst e, snd e - n) # vs) @ [base])"
    using f links_cong [of "base # map fst (us @ e # vs) @ [base]" ?st st] p by simp
  have sz: "size_of ?st x = (if x = ?q then n else if x = fst e then snd e - n else size_of st x)" for x using n q by simp
  have "gap (fst e, snd e - n) v" if "v \<in> set vs" for v using o2 [OF that] q(2) by (simp add: gap_def ends_def [of "(fst e, snd e - n)"])
  then have g: "sorted_wrt gap (us @ (fst e, snd e - n) # vs)" using f by (auto simp: sorted_wrt_append gap_def)
  have ne: "fst x \<noteq> ?q" "fst x \<noteq> fst e" if "x \<in> set us \<union> set vs" for x using that nq o [of x] o2 [of x] q by (auto simp: ends_def)
  show "flist base ?st (us @ (fst e, snd e - n) # vs)"
    unfolding flist_def using l g f sz ne n nq prev by (auto simp: HSIZE_def)
qed

lemma gap_disjoint:
  assumes "sorted_wrt gap (us @ e # vs)"
  shows "region e \<inter> cover us = {}" "region e \<inter> cover vs = {}"
  using assms by (force simp: cover_def region_def sorted_wrt_append gap_def)+

lemma carve_heap:
  assumes inv: "heap_inv base lo st fs al" and e: "e \<in> set fs" and n: "0 < n" "n \<le> snd e"
    and prev: "prev \<in> set (base # map fst fs)" "ptr_of st prev = fst e" and c: "carve n prev (fst e) st = (r, st')"
  shows "\<exists>fs'. HSIZE < r \<and> heap_inv base lo st' fs' (insert (r - HSIZE, n) al) \<and> keeps al st st' \<and>
     region (r - HSIZE, n) \<union> cover fs' = cover fs"
proof -
  note d = heap_invD [OF inv]
  obtain us vs where fs: "fs = us @ e # vs" using e by (metis split_list)
  note g = gap_disjoint [OF d(13) [unfolded fs]]
  let ?q = "(fst e + HSIZE * (snd e - n), n)"
  define fs' where "fs' = us @ (if snd e = n then [] else [(fst e, snd e - n)]) @ vs"
  have re: "region e \<subseteq> {lo..<brk st}" using d(6) fs by simp
  have es: "size_of st (fst e) = snd e" "base + HSIZE \<le> fst e" using d(12) [OF e] by simp_all
  have big: "snd e < 2 ^ 32"
  proof -
    have "ends e - 1 \<in> region e" using n by (auto simp: region_def ends_def HSIZE_def)
    then have "ends e - 1 < brk st" using re by auto
    then show ?thesis using d(4) by (simp add: ends_def HSIZE_def)
  qed
  have main: "r = fst ?q + HSIZE \<and> flist base st' fs' \<and> size_of st' (fst ?q) = n \<and> brk st' = brk st \<and>
      (\<forall>x. x \<notin> insert (fst ?q) (set (base # map fst fs)) \<longrightarrow> hdr st' x = hdr st x)"
  proof (cases "snd e = n")
    case True
    then have s: "st' = (set_ptr prev (ptr_of st (fst e)) st)\<lparr>freep := prev\<rparr>" "r = fst e + HSIZE" using c es(1) by (simp_all add: carve_def)
    show ?thesis using carve_exact [OF d(5) [unfolded fs] prev [unfolded fs]] True es prev(1) unfolding s fs'_def fs by auto
  next
    case False
    then have lt: "n < snd e" using n by simp
    have m: "(snd e - n) mod 2 ^ 32 = snd e - n" using big by simp
    have s: "st' = (set_size (fst ?q) n (set_size (fst e) (snd e - n) st))\<lparr>freep := prev\<rparr>" "r = fst ?q + HSIZE"
      using c es(1) False m by (auto simp: carve_def Let_def)
    show ?thesis using carve_split [OF d(5) [unfolded fs] n(1) lt big prev(1) [unfolded fs]] False big lt unfolding s fs'_def fs by auto
  qed
  have cov: "region ?q \<union> cover fs' = cover fs" "region ?q \<inter> cover fs' = {}"
  proof -
    have "region ?q \<union> (if snd e = n then {} else region (fst e, snd e - n)) = region e" "region ?q \<inter> region (fst e, snd e - n) = {}"
      "region ?q \<subseteq> region e" using n by (auto simp: region_def ends_def HSIZE_def algebra_simps)
    then show "region ?q \<union> cover fs' = cover fs" "region ?q \<inter> cover fs' = {}" using g unfolding fs'_def fs by (auto split: if_splits)
  qed
  have kp: "hdr st' x = hdr st x" if "b \<in> al" "x \<in> region b" for b x
  proof -
    have "fst ?q \<in> cover fs" using cov(1) region_start [of ?q] n(1) by auto
    then have "x \<noteq> fst ?q" using d(10) [OF that(1)] that(2) by auto
    then show ?thesis using main in_use(1) [OF inv that] by auto
  qed
  have sz: "size_of st' (fst b) = snd b" if "b \<in> al" for b
    using kp [OF that region_start] d(7,8) [OF that] by simp
  have off: "region b \<inter> region ?q = {}" "region b \<inter> cover fs' = {}" if "b \<in> al" for b
    using d(10) [OF that] cov(1) by auto
  have inv': "heap_inv base lo st' fs' (insert ?q al)"
    by (rule heap_inv_insert) (use d(1-6) main cov sz off n(1) d(8,9,11) in auto)
  have "HSIZE < r" using main es(2) d(1) by simp
  moreover have "(r - HSIZE, n) = ?q" using main by simp
  ultimately show ?thesis using inv' cov(1) kp unfolding keeps_def by metis
qed

section \<open>Growing the heap\<close>

text \<open>What the kernel must not do: grant memory beyond the addresses of a process.\<close>

definition grants_ok :: "(nat \<Rightarrow> int \<Rightarrow> bool) \<Rightarrow> bool" where
  "grants_ok grant = (\<forall>b n. grant b n \<longrightarrow> int b + n < 2 ^ 36)"

definition core_units :: "nat \<Rightarrow> nat" where "core_units nu = (if nu < 4096 then 4096 else nu)"

lemma flist_cong:
  assumes fl: "flist base st fs" and same: "\<And>x. x \<in> set (base # map fst fs) \<Longrightarrow> hdr st' x = hdr st x" and f: "freep st' = freep st"
  shows "flist base st' fs"
proof -
  have "links st' (base # map fst fs @ [base]) = links st (base # map fst fs @ [base])"
    by (rule links_cong) (use same in \<open>auto simp: butlast_append\<close>)
  then show ?thesis using fl same f unfolding flist_def by simp
qed

text \<open>The memory gained becomes one block above all the others.\<close>

lemma grow_heap:
  assumes inv: "heap_inv base lo st fs al" and u: "0 < u" "brk st + 16 * u < 2 ^ 36"
    and st1: "brk st1 = brk st + 16 * u" "freep st1 = freep st" "size_of st1 (brk st) = u" "\<And>x. x < brk st \<Longrightarrow> hdr st1 x = hdr st x"
  shows "heap_inv base lo st1 fs (insert (brk st, u) al)" "(brk st, u) \<notin> al"
proof -
  note d = heap_invD [OF inv]
  have rb: "region (brk st, u) = {brk st..<brk st + 16 * u}" by (simp add: region_def ends_def HSIZE_def)
  have "x < brk st" if x: "x \<in> set (base # map fst fs)" for x
  proof (cases "x = base")
    case False
    then obtain c where c: "c \<in> set fs" "x = fst c" using x by auto
    then have "x \<in> cover fs" using region_start [of c] d(12) [of c] by (auto simp: cover_def)
    then show ?thesis using d(6) by auto
  qed (use d(2,3) in \<open>simp add: HSIZE_def\<close>)
  then have fl: "flist base st1 fs" using flist_cong [OF d(5) _ st1(2)] st1(4) by blast
  have old: "region c \<inter> region (brk st, u) = {}" if "c \<in> al" for c using d(9) [OF that] unfolding rb by auto
  have sz: "size_of st1 (fst c) = snd c" if "c \<in> al" for c
  proof -
    have "fst c < brk st" using d(9) [OF that] region_start [OF d(8) [OF that]] by auto
    then show ?thesis using st1(4) [of "fst c"] d(7) [OF that] by simp
  qed
  show "(brk st, u) \<notin> al" using old [of "(brk st, u)"] region_start [of "(brk st, u)"] u by auto
  have ib: "region (brk st, u) \<subseteq> {lo..<brk st1}" "region (brk st, u) \<inter> cover fs = {}" using d(3,6) st1(1) unfolding rb by auto
  have wide: "{lo..<brk st} \<subseteq> {lo..<brk st1}" "lo \<le> brk st1" "brk st1 < 2 ^ 36" using st1(1) u d(3) by auto
  show "heap_inv base lo st1 fs (insert (brk st, u) al)"
  proof (rule heap_inv_insert)
    show "cover fs \<subseteq> {lo..<brk st1}" by (rule subset_trans [OF d(6) wide(1)])
    show "region c \<subseteq> {lo..<brk st1}" if "c \<in> al" for c by (rule subset_trans [OF d(9) [OF that] wide(1)])
  qed (use d(1,2) wide fl d(8,10,11) sz old ib u(1) st1(3) in simp_all)
qed

lemma morecore_heap:
  assumes inv: "heap_inv base lo st fs al" and g: "grants_ok grant" and nu: "nu < 2 ^ 27"
  shows "\<exists>r st' fs'. morecore grant nu st = Some (r, st') \<and> heap_inv base lo st' fs' al \<and> keeps al st st' \<and>
     (if grant (brk st) (int (16 * core_units nu))
      then r = freep st' \<and> brk st' = brk st + 16 * core_units nu \<and> cover fs' = cover fs \<union> region (brk st, core_units nu)
      else r = 0 \<and> st' = st)"
proof -
  note d = heap_invD [OF inv]
  let ?u = "core_units nu"
  have u: "0 < ?u" "?u < 2 ^ 27" using nu by (simp_all add: core_units_def)
  then have ci: "c_int (?u * HSIZE) = int (16 * ?u)" by (simp add: c_int_def HSIZE_def)
  show ?thesis
  proof (cases "grant (brk st) (int (16 * ?u))")
    case False
    then have "morecore grant nu st = Some (0, st)"
      using ci by (simp add: morecore_def core_units_def [symmetric] sbrk_def)
    then show ?thesis using False inv by (auto simp: keeps_def)
  next
    case True
    define st1 where "st1 = set_size (brk st) ?u (st\<lparr>brk := brk st + 16 * ?u\<rparr>)"
    have st1: "brk st1 = brk st + 16 * ?u" "freep st1 = freep st" "size_of st1 (brk st) = ?u" and same: "\<And>x. x < brk st \<Longrightarrow> hdr st1 x = hdr st x"
      using u by (simp_all add: st1_def set_size_def)
    have top: "brk st + 16 * ?u < 2 ^ 36" using g True unfolding grants_ok_def by fastforce
    note new = grow_heap [OF inv u(1) top st1 same]
    obtain st' fs' where st': "free (brk st + HSIZE) st1 = Some st'" "heap_inv base lo st' fs' al"
      "cover fs' = cover fs \<union> region (brk st, ?u)" "keeps al st1 st'" "brk st' = brk st1"
      using free_heap [OF new] unfolding fst_conv by metis
    have "morecore grant nu st = Some (freep st', st')"
      using ci True st'(1) by (simp add: morecore_def core_units_def [symmetric] sbrk_def st1_def Let_def nat_mult_distrib)
    moreover have "keeps al st st'"
      unfolding keeps_def
    proof (intro ballI)
      fix c x assume "c \<in> al" "x \<in> region c"
      then show "hdr st' x = hdr st x" using st'(4) d(9) [of c] same [of x] unfolding keeps_def by auto
    qed
    ultimately show ?thesis using True st' st1(1) by auto
  qed
qed

section \<open>malloc and free\<close>

lemma flist_freep: "flist base st fs \<Longrightarrow> 0 < base \<Longrightarrow> freep st \<noteq> 0"
  by (auto simp: flist_def HSIZE_def)

text \<open>A search with a block that fits, and one without.\<close>

lemma search_hit:
  assumes inv: "heap_inv base lo st fs al" and n: "0 < n" and fit: "c \<in> set fs" "n \<le> snd c"
  shows "\<exists>r st' fs'. malloc_loop g n (freep st) (ptr_of st (freep st)) st = Some (r, st') \<and> HSIZE < r \<and>
     heap_inv base lo st' fs' (insert (r - HSIZE, n) al) \<and> keeps al st st' \<and> region (r - HSIZE, n) \<union> cover fs' = cover fs"
proof -
  note d = heap_invD [OF inv]
  obtain e prev where e: "e \<in> set fs" "n \<le> snd e" "prev \<in> set (base # map fst fs)" "ptr_of st prev = fst e"
    "malloc_loop g n (freep st) (ptr_of st (freep st)) st = Some (carve n prev (fst e) st)"
    using malloc_finds [OF d(5) n fit] by metis
  obtain r st' where c: "carve n prev (fst e) st = (r, st')" by fastforce
  show ?thesis using carve_heap [OF inv e(1) n e(2-4) c] e(5) c by auto
qed

lemma search_miss:
  assumes inv: "heap_inv base lo st fs al" and n: "0 < n" and none: "\<And>c. c \<in> set fs \<Longrightarrow> snd c < n"
  shows "malloc_loop g n (freep st) (ptr_of st (freep st)) st = (case morecore g n st of None \<Rightarrow> None
     | Some (p1, st1) \<Rightarrow> if p1 = 0 then Some (0, st1) else malloc_loop g n p1 (ptr_of st1 p1) st1)"
proof -
  note d = heap_invD [OF inv]
  obtain us where us: "links st (freep st # us @ [freep st])" "set (base # map fst fs) = insert (freep st) (set us)" "freep st \<notin> set us"
    using ring_from [OF d(5)] by blast
  have small: "size_of st x < n" if "x \<in> set (base # map fst fs)" for x
    using that none d(5) n by (auto simp: flist_def)
  have "hd (us @ [freep st]) = ptr_of st (freep st)" using us(1) by (cases us) auto
  then show ?thesis using malloc_miss [OF us(1), of n g] us(3) small unfolding us(2) by auto
qed

text \<open>As free blocks do not touch, free memory without a hole lies in one of them.\<close>

lemma gap_cases:
  assumes "sorted_wrt gap fs" "c \<in> set fs" "e \<in> set fs"
  shows "c = e \<or> gap c e \<or> gap e c"
  using assms by (induction fs) auto

lemma cover_block:
  assumes b: "region b \<subseteq> cover fs" "0 < snd b" and s: "sorted_wrt gap fs"
  shows "\<exists>c\<in>set fs. snd b \<le> snd c"
proof -
  obtain c where c: "c \<in> set fs" "fst b \<in> region c" using b region_start [of b] by (auto simp: cover_def)
  have "ends b \<le> ends c"
  proof (rule ccontr)
    assume "\<not> ends b \<le> ends c"
    then have "ends c \<in> region b" using c(2) by (simp add: region_def)
    then obtain e where e: "e \<in> set fs" "ends c \<in> region e" using b(1) by (auto simp: cover_def)
    then show False using gap_cases [OF s c(1) e(1)] by (auto simp: region_def gap_def ends_def)
  qed
  then have "snd b \<le> snd c" using c(2) by (simp add: region_def ends_def HSIZE_def)
  then show ?thesis using c(1) by blast
qed

lemma malloc_loop_heap:
  assumes inv: "heap_inv base lo st fs al" and g: "grants_ok grant" and n: "0 < n" "n < 2 ^ 27"
  shows "\<exists>r st' fs'. malloc_loop grant n (freep st) (ptr_of st (freep st)) st = Some (r, st') \<and>
     (if (\<forall>c\<in>set fs. snd c < n) \<and> \<not> grant (brk st) (int (16 * core_units n)) then r = 0 \<and> st' = st
      else HSIZE < r \<and> heap_inv base lo st' fs' (insert (r - HSIZE, n) al) \<and> (r - HSIZE, n) \<notin> al \<and> keeps al st st')"
proof -
  note d = heap_invD [OF inv]
  have fresh: "q \<notin> al" if "heap_inv base lo st1 fs1 al" "region q \<union> cover fs2 = cover fs1" "0 < snd q" for st1 fs1 fs2 q
    using heap_invD(10) [OF that(1), of q] that(2,3) region_start [of q] by auto
  show ?thesis
  proof (cases "\<exists>c\<in>set fs. n \<le> snd c")
    case True
    then obtain c where c: "c \<in> set fs" "n \<le> snd c" by blast
    then have not: "\<not> ((\<forall>c\<in>set fs. snd c < n) \<and> \<not> grant (brk st) (int (16 * core_units n)))" by (meson not_le)
    obtain r st' fs' where f: "malloc_loop grant n (freep st) (ptr_of st (freep st)) st = Some (r, st')" "HSIZE < r"
      "heap_inv base lo st' fs' (insert (r - HSIZE, n) al)" "keeps al st st'" "region (r - HSIZE, n) \<union> cover fs' = cover fs"
      using search_hit [OF inv n(1) c, of grant] by blast
    then show ?thesis unfolding if_not_P [OF not] using fresh [OF inv f(5)] n(1) by auto
  next
    case False
    then have none: "\<And>c. c \<in> set fs \<Longrightarrow> snd c < n" by (meson not_le)
    note miss = search_miss [OF inv n(1) none, of grant]
    obtain r1 st1 fs1 where m: "morecore grant n st = Some (r1, st1)" "heap_inv base lo st1 fs1 al" "keeps al st st1"
      "if grant (brk st) (int (16 * core_units n)) then r1 = freep st1 \<and> brk st1 = brk st + 16 * core_units n \<and> cover fs1 = cover fs \<union> region (brk st, core_units n)
       else r1 = 0 \<and> st1 = st" using morecore_heap [OF inv g n(2)] by blast
    show ?thesis
    proof (cases "grant (brk st) (int (16 * core_units n))")
      case False
      then show ?thesis using miss m(1,4) none by auto
    next
      case True
      then have r1: "r1 = freep st1" "cover fs1 = cover fs \<union> region (brk st, core_units n)" using m(4) by auto
      note d1 = heap_invD [OF m(2)]
      have "\<exists>c\<in>set fs1. core_units n \<le> snd c" using cover_block [of "(brk st, core_units n)" fs1] r1(2) d1(13) by (simp add: core_units_def)
      then obtain c where c: "c \<in> set fs1" "n \<le> snd c" using le_trans [of n "core_units n"] by (auto simp: core_units_def split: if_splits)
      obtain r st' fs' where f: "malloc_loop grant n (freep st1) (ptr_of st1 (freep st1)) st1 = Some (r, st')" "HSIZE < r"
        "heap_inv base lo st' fs' (insert (r - HSIZE, n) al)" "keeps al st1 st'" "region (r - HSIZE, n) \<union> cover fs' = cover fs1"
        using search_hit [OF m(2) n(1) c, of grant] by blast
      have "malloc_loop grant n (freep st) (ptr_of st (freep st)) st = Some (r, st')"
        using miss m(1) f(1) r1(1) flist_freep [OF d1(5,1)] by simp
      moreover have "keeps al st st'" using m(3) f(4) by (simp add: keeps_def)
      ultimately show ?thesis using True f fresh [OF m(2) f(5)] n(1) by auto
    qed
  qed
qed

text \<open>Before the first call: no list, no block in use.\<close>

definition heap_ok :: "uaddr \<Rightarrow> uaddr \<Rightarrow> uheap \<Rightarrow> ublock list \<Rightarrow> ublock set \<Rightarrow> bool" where
  "heap_ok base lo st fs al = (if freep st = 0 then 0 < base \<and> base + HSIZE \<le> lo \<and> lo \<le> brk st \<and> brk st < 2 ^ 36 \<and> fs = [] \<and> al = {}
     else heap_inv base lo st fs al)"

lemma first_list:
  assumes "heap_ok base lo st fs al" "freep st = 0"
  shows "heap_inv base lo ((set_size base 0 (set_ptr base base st))\<lparr>freep := base\<rparr>) fs al"
  using assms by (auto simp: heap_ok_def heap_inv_def flist_def cover_def)

lemma heap_inv_ok: "heap_inv base lo st fs al \<Longrightarrow> heap_ok base lo st fs al"
  using flist_freep [of base st fs] heap_invD(1,5) [of base lo st fs al] by (simp add: heap_ok_def)

lemma units_for_bounds:
  assumes "nbytes \<le> 2 ^ 31 - 32"
  shows "0 < units_for nbytes" "units_for nbytes < 2 ^ 27" "HSIZE + nbytes \<le> HSIZE * units_for nbytes"
  using assms by (auto simp: units_for_def HSIZE_def)

text \<open>
  \<open>malloc\<close> always returns. It gives the null pointer exactly when no free block has the cells needed
  and the kernel refuses to grow the heap; otherwise the address behind the header of a new block.
\<close>

lemma malloc_heap:
  assumes ok: "heap_ok base lo st fs al" and g: "grants_ok grant" and nb: "nbytes \<le> 2 ^ 31 - 32"
  shows "\<exists>r st'. malloc base grant nbytes st = Some (r, st') \<and>
     (if (\<forall>c\<in>set fs. snd c < units_for nbytes) \<and> \<not> grant (brk st) (int (16 * core_units (units_for nbytes)))
      then r = 0 \<and> heap_ok base lo st' fs al \<and> brk st' = brk st \<and> keeps al st st'
      else HSIZE < r \<and> (\<exists>fs'. heap_inv base lo st' fs' (insert (r - HSIZE, units_for nbytes) al)) \<and>
        (r - HSIZE, units_for nbytes) \<notin> al \<and> keeps al st st' \<and> r + nbytes \<le> ends (r - HSIZE, units_for nbytes))"
proof -
  let ?n = "units_for nbytes"
  define st1 where "st1 = (if freep st = 0 then (set_size base 0 (set_ptr base base st))\<lparr>freep := base\<rparr> else st)"
  have inv: "heap_inv base lo st1 fs al" using ok first_list [OF ok] by (auto simp: st1_def heap_ok_def)
  have b: "brk st1 = brk st" by (simp add: st1_def)
  have k: "keeps al st st1" using ok by (auto simp: st1_def heap_ok_def keeps_def)
  note u = units_for_bounds [OF nb]
  have m: "malloc base grant nbytes st = malloc_loop grant ?n (freep st1) (ptr_of st1 (freep st1)) st1"
    unfolding malloc_def st1_def Let_def by (rule refl)
  obtain r st' fs' where r: "malloc base grant nbytes st = Some (r, st')"
    "if (\<forall>c\<in>set fs. snd c < ?n) \<and> \<not> grant (brk st) (int (16 * core_units ?n)) then r = 0 \<and> st' = st1
     else HSIZE < r \<and> heap_inv base lo st' fs' (insert (r - HSIZE, ?n) al) \<and> (r - HSIZE, ?n) \<notin> al \<and> keeps al st1 st'"
    using malloc_loop_heap [OF inv g u(1,2)] unfolding m b by blast
  show ?thesis
  proof (cases "(\<forall>c\<in>set fs. snd c < ?n) \<and> \<not> grant (brk st) (int (16 * core_units ?n))")
    case True
    then show ?thesis using r b k heap_inv_ok [OF inv] by auto
  next
    case False
    then have f: "HSIZE < r" "heap_inv base lo st' fs' (insert (r - HSIZE, ?n) al)" "(r - HSIZE, ?n) \<notin> al" "keeps al st1 st'"
      using r(2) by auto
    have "keeps al st st'" using k f(4) by (simp add: keeps_def)
    moreover have "r + nbytes \<le> ends (r - HSIZE, ?n)" using u(3) f(1) by (simp add: ends_def)
    ultimately show ?thesis unfolding if_not_P [OF False] using r(1) f(1-3) by blast
  qed
qed

definition fresh_heap :: "nat \<Rightarrow> uheap" where
  "fresh_heap hi = \<lparr>hdr = (\<lambda>_. \<lparr>h_ptr = 0, h_size = 0\<rparr>), freep = 0, brk = hi\<rparr>"

definition grant_upto :: "nat \<Rightarrow> nat \<Rightarrow> int \<Rightarrow> bool" where
  "grant_upto hi b n = (int b + n \<le> int hi)"

lemma grant_upto_ok: "hi < 2 ^ 36 \<Longrightarrow> grants_ok (grant_upto hi)"
  by (simp add: grants_ok_def grant_upto_def)

lemma fresh_heap_ok: "0 < base \<Longrightarrow> base + HSIZE \<le> hi \<Longrightarrow> hi < 2 ^ 36 \<Longrightarrow> heap_ok base hi (fresh_heap hi) [] {}"
  by (simp add: heap_ok_def fresh_heap_def)

section \<open>A program using the allocator\<close>

text \<open>
  A program calls \<open>malloc\<close> and \<open>free\<close>, the latter with what it got from the former and has not freed
  since, and writes into its blocks, behind their headers: a byte written changes what would be
  read as a header at the 15 addresses before it, so every address behind a block's own header.
\<close>

inductive ustep :: "uaddr \<Rightarrow> (nat \<Rightarrow> int \<Rightarrow> bool) \<Rightarrow> uheap \<times> ublock set \<Rightarrow> uheap \<times> ublock set \<Rightarrow> bool" for base grant where
  ustep_malloc: "malloc base grant nbytes st = Some (r, st') \<Longrightarrow> nbytes \<le> 2 ^ 31 - 32 \<Longrightarrow>
     ustep base grant (st, al) (st', if r = 0 then al else insert (r - HSIZE, units_for nbytes) al)"
| ustep_free: "b \<in> al \<Longrightarrow> free (fst b + HSIZE) st = Some st' \<Longrightarrow> ustep base grant (st, al) (st', al - {b})"
| ustep_write: "b \<in> al \<Longrightarrow> fst b < x \<Longrightarrow> x < ends b \<Longrightarrow> ustep base grant (st, al) (st\<lparr>hdr := (hdr st)(x := h)\<rparr>, al)"

inductive_cases ustepE: "ustep base grant (st, al) s'"

lemma write_heap:
  assumes inv: "heap_inv base lo st fs al" and b: "b \<in> al" "fst b < x" "x < ends b"
  shows "heap_inv base lo (st\<lparr>hdr := (hdr st)(x := h)\<rparr>) fs al"
proof -
  note d = heap_invD [OF inv]
  let ?st = "st\<lparr>hdr := (hdr st)(x := h)\<rparr>"
  have x: "x \<in> region b" using b by (simp add: region_def)
  have fl: "flist base ?st fs" by (rule flist_cong [OF d(5)]) (use in_use(1) [OF inv b(1) x] in auto)
  have "size_of ?st (fst c) = snd c" if "c \<in> al" for c
    using in_use(2) [OF inv b(1) x that] b(2) d(7) [OF that] by (cases "c = b") auto
  then show ?thesis unfolding heap_inv_def using d fl by simp
qed

lemma free_ok:
  assumes ok: "heap_ok base lo st fs al" and b: "b \<in> al"
  obtains st' fs' where "free (fst b + HSIZE) st = Some st'" "heap_inv base lo st' fs' (al - {b})"
    "cover fs' = cover fs \<union> region b" "keeps (al - {b}) st st'"
proof -
  have "heap_inv base lo st fs (insert b (al - {b}))" using ok b by (auto simp: heap_ok_def insert_absorb split: if_splits)
  from free_heap [OF this] that show thesis by blast
qed

lemma ustep_ok:
  assumes "heap_ok base lo st fs al" "grants_ok grant" "ustep base grant (st, al) (st', al')"
  shows "\<exists>fs'. heap_ok base lo st' fs' al'"
  using assms(3)
proof (cases rule: ustep.cases)
  case (ustep_malloc nbytes r)
  then show ?thesis using malloc_heap [OF assms(1,2), of nbytes] heap_inv_ok
    by (fastforce simp: HSIZE_def split: if_splits)
next
  case (ustep_free b)
  then show ?thesis using free_ok [OF assms(1), of b] heap_inv_ok by (metis option.inject)
next
  case (ustep_write b x h)
  then have "freep st \<noteq> 0" using assms(1) by (auto simp: heap_ok_def split: if_splits)
  then have "heap_inv base lo st fs al" using assms(1) by (simp add: heap_ok_def)
  from heap_inv_ok [OF write_heap [OF this ustep_write(3-5)]] show ?thesis using ustep_write by auto
qed

interpretation heap: step_invariant "ustep base grant" "\<lambda>s. grants_ok grant \<and> (\<exists>fs. heap_ok base lo (fst s) fs (snd s))" for base grant lo
proof
  fix s t assume s: "grants_ok grant \<and> (\<exists>fs. heap_ok base lo (fst s) fs (snd s))" and u: "ustep base grant s t"
  show "grants_ok grant \<and> (\<exists>fs. heap_ok base lo (fst t) fs (snd t))"
    using s u ustep_ok [of base lo "fst s" _ "snd s" grant "fst t" "snd t"] by auto
qed

lemma ureach_ok:
  assumes "(ustep base grant)\<^sup>*\<^sup>* (fresh_heap lo, {}) (st, al)" "0 < base" "base + HSIZE \<le> lo" "lo < 2 ^ 36" "grants_ok grant"
  shows "\<exists>fs. heap_ok base lo st fs al"
  using heap.reach [OF assms(1), of lo] fresh_heap_ok [OF assms(2-4)] assms(5) by auto

lemma heap_ok_blocks:
  assumes "heap_ok base lo st fs al" "b \<in> al"
  shows "region b \<subseteq> {lo..<brk st}" "c \<in> al \<Longrightarrow> b \<noteq> c \<Longrightarrow> region b \<inter> region c = {}"
  using assms by (auto simp: heap_ok_def heap_inv_def split: if_splits)

text \<open>
  C7: The allocator, under any program that frees only what it was given and writes only into its
  blocks, the kernel granting no memory beyond a process's addresses. The blocks in use lie between
  the first break and the present one and none overlaps another. \<open>free\<close> of each of them returns and
  changes nothing in the others. \<open>malloc\<close> of less than 2 GiB returns and changes nothing in the blocks
  in use; it gives the null pointer exactly when no block of the free list is large enough and the
  kernel refuses to extend the heap, and else memory for the bytes asked for, below the break and
  outside every block in use.
\<close>

theorem allocator_safe:
  assumes run: "(ustep base grant)\<^sup>*\<^sup>* (fresh_heap lo, {}) (st, al)"
    and mem_layout: "0 < base" "base + HSIZE \<le> lo" "lo < 2 ^ 36" and g: "grants_ok grant"
  shows "\<exists>fs. heap_ok base lo st fs al \<and>
     (\<forall>b\<in>al. region b \<subseteq> {lo..<brk st} \<and> (\<forall>c\<in>al. b \<noteq> c \<longrightarrow> region b \<inter> region c = {})) \<and>
     (\<forall>b\<in>al. \<exists>st'. free (fst b + HSIZE) st = Some st' \<and> keeps (al - {b}) st st') \<and>
     (\<forall>nbytes \<le> 2 ^ 31 - 32. \<exists>r st'. malloc base grant nbytes st = Some (r, st') \<and> keeps al st st' \<and>
        (r = 0 \<longleftrightarrow> (\<forall>c\<in>set fs. snd c < units_for nbytes) \<and> \<not> grant (brk st) (int (16 * core_units (units_for nbytes)))) \<and>
        (r \<noteq> 0 \<longrightarrow> {r..<r + nbytes} \<subseteq> {lo..<brk st'} \<and> (\<forall>b\<in>al. {r..<r + nbytes} \<inter> region b = {})))"
proof -
  obtain fs where ok: "heap_ok base lo st fs al" using ureach_ok [OF run mem_layout g] by blast
  have "\<exists>r st'. malloc base grant nbytes st = Some (r, st') \<and> keeps al st st' \<and>
        (r = 0 \<longleftrightarrow> (\<forall>c\<in>set fs. snd c < units_for nbytes) \<and> \<not> grant (brk st) (int (16 * core_units (units_for nbytes)))) \<and>
        (r \<noteq> 0 \<longrightarrow> {r..<r + nbytes} \<subseteq> {lo..<brk st'} \<and> (\<forall>b\<in>al. {r..<r + nbytes} \<inter> region b = {}))"
    if nb: "nbytes \<le> 2 ^ 31 - 32" for nbytes
  proof (cases "(\<forall>c\<in>set fs. snd c < units_for nbytes) \<and> \<not> grant (brk st) (int (16 * core_units (units_for nbytes)))")
    case True
    then show ?thesis using malloc_heap [OF ok g nb] by auto
  next
    case False
    let ?n = "units_for nbytes"
    obtain r st' fs' where m: "malloc base grant nbytes st = Some (r, st')" "HSIZE < r" "heap_inv base lo st' fs' (insert (r - HSIZE, ?n) al)"
      "(r - HSIZE, ?n) \<notin> al" "keeps al st st'" "r + nbytes \<le> ends (r - HSIZE, ?n)"
      using malloc_heap [OF ok g nb] unfolding if_not_P [OF False] by blast
    note new = heap_ok_blocks [OF heap_inv_ok [OF m(3)], of "(r - HSIZE, ?n)"]
    have sub: "{r..<r + nbytes} \<subseteq> region (r - HSIZE, ?n)" using m(6) by (auto simp: region_def)
    have "{r..<r + nbytes} \<subseteq> {lo..<brk st'}" by (rule subset_trans [OF sub new(1)]) simp
    moreover have "{r..<r + nbytes} \<inter> region b = {}" if "b \<in> al" for b
      using sub new(2) [of b] that m(4) by blast
    ultimately show ?thesis using m(1,2,5) False by (metis not_less_zero)
  qed
  moreover have "\<exists>st'. free (fst b + HSIZE) st = Some st' \<and> keeps (al - {b}) st st'" if "b \<in> al" for b
    using free_ok [OF ok that] by blast
  ultimately show ?thesis using ok heap_ok_blocks [OF ok] by (intro exI [of _ fs] conjI allI ballI impI) simp_all
qed

theorem allocator_safe_witness:
  "\<exists>r st' r2 st2. malloc 16 (grant_upto 1000000) 100 (fresh_heap 64) = Some (r, st') \<and> r \<noteq> 0 \<and>
     malloc 16 (grant_upto 1000000) 50 st' = Some (r2, st2) \<and> (r2 \<noteq> 0 \<longrightarrow> {r..<r + 100} \<inter> {r2..<r2 + 50} = {})"
proof -
  let ?g = "grant_upto 1000000" and ?st = "fresh_heap 64"
  have g: "grants_ok ?g" by (rule grant_upto_ok) simp
  have lay: "0 < (16 :: nat)" "16 + HSIZE \<le> 64" "(64 :: nat) < 2 ^ 36" by (simp_all add: HSIZE_def)
  have r0: "(ustep 16 ?g)\<^sup>*\<^sup>* (?st, {}) (?st, {})" by simp
  have b: "(100 :: nat) \<le> 2 ^ 31 - 32" "(50 :: nat) \<le> 2 ^ 31 - 32" by simp_all
  have gr: "?g (brk ?st) (int (16 * core_units (units_for 100)))"
    by (simp add: grant_upto_def fresh_heap_def units_for_def core_units_def HSIZE_def)
  from allocator_safe [OF r0 lay g] b(1) gr obtain r st' where m: "malloc 16 ?g 100 ?st = Some (r, st')" "r \<noteq> 0" by blast
  have "ustep 16 ?g (?st, {}) (st', {(r - HSIZE, units_for 100)})" using ustep_malloc [OF m(1) b(1), of "{}"] m(2) by simp
  with r0 have r1: "(ustep 16 ?g)\<^sup>*\<^sup>* (?st, {}) (st', {(r - HSIZE, units_for 100)})" by (rule rtranclp.rtrancl_into_rtrancl)
  have "\<exists>r2 st2. malloc 16 ?g 50 st' = Some (r2, st2) \<and> (r2 \<noteq> 0 \<longrightarrow> {r2..<r2 + 50} \<inter> region (r - HSIZE, units_for 100) = {})"
    using allocator_safe [OF r1 lay g] by (elim exE conjE, elim allE [where x = 50]) auto
  then obtain r2 st2 where m2: "malloc 16 ?g 50 st' = Some (r2, st2)"
    "r2 \<noteq> 0 \<longrightarrow> {r2..<r2 + 50} \<inter> region (r - HSIZE, units_for 100) = {}" by blast
  have "{r..<r + 100} \<subseteq> region (r - HSIZE, units_for 100)" by (auto simp: region_def ends_def units_for_def HSIZE_def)
  then show ?thesis using m m2 by blast
qed

text \<open>
  The bound on the request is needed. For 2 GiB, \<open>nu * sizeof(Header)\<close> is negative as the \<open>int\<close> that
  \<open>sbrk\<close> takes; the kernel does not grow the process and reports success, and \<open>malloc\<close> gives out memory
  above the break, which the process does not have.
\<close>

lemma malloc_huge:
  "\<exists>st'. malloc 16 grant (2 ^ 31) (fresh_heap 64) = Some (80, st') \<and> brk st' = 64"
proof -
  define st0 where "st0 = (set_size 16 0 (set_ptr 16 16 (fresh_heap 64)))\<lparr>freep := 16\<rparr>"
  have st0: "freep st0 = 16" "ptr_of st0 16 = 16" "size_of st0 16 = 0" "brk st0 = 64"
    by (simp_all add: st0_def fresh_heap_def)
  define st1 where "st1 = free_insert 64 16 (set_size 64 134217729 st0)"
  have st1: "freep st1 = 16" "ptr_of st1 16 = 64" "size_of st1 64 = 134217729" "brk st1 = 64" "size_of st1 16 = 0"
    using st0 by (simp_all add: st1_def free_insert_def Let_def HSIZE_def)
  have "free_scan (set_size 64 134217729 st0) 64 16 = Some 16"
    using st0 by (subst free_scan.simps) (simp add: stop_at_def)
  then have mc: "morecore grant 134217729 st0 = Some (16, st1)"
    using st0 st1(1) by (simp add: morecore_def sbrk_def c_int_def HSIZE_def free_def st1_def [symmetric])
  have found: "malloc_loop grant 134217729 16 64 st1 = Some (carve 134217729 16 64 st1)"
    using st1 by (subst malloc_loop.simps) simp
  have "malloc_loop grant 134217729 16 16 st0 = Some (carve 134217729 16 64 st1)"
    using st0 st1 mc found by (subst malloc_loop.simps) simp
  moreover have "units_for (2 ^ 31) = 134217729" by (simp add: units_for_def HSIZE_def)
  ultimately have "malloc 16 grant (2 ^ 31) (fresh_heap 64) = Some (carve 134217729 16 64 st1)"
    using st0 by (simp add: malloc_def st0_def Let_def fresh_heap_def)
  then show ?thesis using st1 by (simp add: carve_def HSIZE_def)
qed

end
