(* ===== verification/Shell.thy ===== *)
theory Shell
  imports Prelude
begin

text \<open>
  The shell, \<^verbatim>\<open>user/sh.c\<close>: its parser and what it runs. The input line is the list of its bytes
  before the NUL, a pointer into it a position. \<open>panic\<close> of the shell prints its message and exits; it
  is the error of the result type. Memory for the nodes is taken to be there: the constructors do
  not look at what \<open>malloc\<close> returns.
\<close>

section \<open>Commands\<close>

text \<open>
  The strings of a command are of type \<open>'s\<close>: pairs of positions (the first byte and the one behind the
  last, \<open>argv\<close> and \<open>eargv\<close>, \<open>file\<close> and \<open>efile\<close>) while it is parsed, the bytes themselves afterwards.
\<close>

datatype 's cmd =
    Exec "'s list"
  | Redir "'s cmd" 's nat nat
  | PipeC "'s cmd" "'s cmd"
  | ListC "'s cmd" "'s cmd"
  | Back "'s cmd"

type_synonym tok = "nat \<times> nat"

definition MAXARGS :: nat where "MAXARGS = 10"

definition O_RDONLY :: nat where "O_RDONLY = 0"
definition O_OUT :: nat where "O_OUT = 0x601"
definition O_APP :: nat where "O_APP = 0x201"

section \<open>Tokens\<close>

definition whitespace :: "byte list" where "whitespace = [32, 9, 13, 10, 11]"
definition symbols :: "byte list" where "symbols = [60, 124, 62, 38, 59, 40, 41]"

abbreviation (input) LT_C :: byte where "LT_C \<equiv> 60"
abbreviation (input) BAR_C :: byte where "BAR_C \<equiv> 124"
abbreviation (input) GT_C :: byte where "GT_C \<equiv> 62"
abbreviation (input) AMP_C :: byte where "AMP_C \<equiv> 38"
abbreviation (input) SEMI_C :: byte where "SEMI_C \<equiv> 59"
abbreviation (input) LPAR_C :: byte where "LPAR_C \<equiv> 40"
abbreviation (input) RPAR_C :: byte where "RPAR_C \<equiv> 41"
abbreviation (input) PLUS_C :: byte where "PLUS_C \<equiv> 43"
abbreviation (input) WORD_C :: byte where "WORD_C \<equiv> 97"

text \<open>The byte at a position; the NUL at the end.\<close>

definition char_at :: "byte list \<Rightarrow> nat \<Rightarrow> byte" where
  "char_at buf s = (if s < length buf then buf ! s else 0)"

function skip_ws :: "byte list \<Rightarrow> nat \<Rightarrow> nat" where
  "skip_ws buf s = (if s < length buf \<and> buf ! s \<in> set whitespace then skip_ws buf (s + 1) else s)"
  by pat_completeness auto

termination
  by (relation "measure (\<lambda>(buf, s). length buf - s)") auto

function skip_word :: "byte list \<Rightarrow> nat \<Rightarrow> nat" where
  "skip_word buf s =
     (if s < length buf \<and> buf ! s \<notin> set whitespace \<and> buf ! s \<notin> set symbols then skip_word buf (s + 1) else s)"
  by pat_completeness auto

termination
  by (relation "measure (\<lambda>(buf, s). length buf - s)") auto

declare skip_ws.simps [simp del] skip_word.simps [simp del]

text \<open>The token, where it starts and ends, and where the next one is looked for.\<close>

definition gettoken :: "byte list \<Rightarrow> nat \<Rightarrow> byte \<times> nat \<times> nat \<times> nat" where
  "gettoken buf ps =
     (let q = skip_ws buf ps;
          c = char_at buf q;
          (ret, eq) =
            (if c = 0 then (0, q)
             else if c \<in> {BAR_C, LPAR_C, RPAR_C, SEMI_C, AMP_C, LT_C} then (c, q + 1)
             else if c = GT_C then (if char_at buf (q + 1) = GT_C then (PLUS_C, q + 2) else (GT_C, q + 1))
             else (WORD_C, skip_word buf q))
      in (ret, q, eq, skip_ws buf eq))"

definition peek :: "byte list \<Rightarrow> nat \<Rightarrow> byte list \<Rightarrow> bool \<times> nat" where
  "peek buf ps toks = (let s = skip_ws buf ps in (char_at buf s \<noteq> 0 \<and> char_at buf s \<in> set toks, s))"

lemma skip_ws_ge: "s \<le> skip_ws buf s"
proof (induction buf s rule: skip_ws.induct)
  case (1 buf s)
  then show ?case by (subst skip_ws.simps) force
qed

lemma skip_word_ge: "s \<le> skip_word buf s"
proof (induction buf s rule: skip_word.induct)
  case (1 buf s)
  then show ?case by (subst skip_word.simps) force
qed

lemma skip_ws_le: "s \<le> length buf \<Longrightarrow> skip_ws buf s \<le> length buf"
proof (induction buf s rule: skip_ws.induct)
  case (1 buf s)
  then show ?case by (subst skip_ws.simps) auto
qed

lemma skip_word_le: "s \<le> length buf \<Longrightarrow> skip_word buf s \<le> length buf"
proof (induction buf s rule: skip_word.induct)
  case (1 buf s)
  then show ?case by (subst skip_word.simps) auto
qed

lemma skip_word_gt: "s < length buf \<Longrightarrow> buf ! s \<notin> set whitespace \<Longrightarrow> buf ! s \<notin> set symbols \<Longrightarrow> s < skip_word buf s"
  using skip_word_ge [of "s + 1" buf] by (subst skip_word.simps) simp

lemma skip_ws_stop: "skip_ws buf s < length buf \<Longrightarrow> buf ! skip_ws buf s \<notin> set whitespace"
proof (induction buf s rule: skip_ws.induct)
  case (1 buf s)
  then show ?case by (subst skip_ws.simps, subst (asm) skip_ws.simps) (auto split: if_splits)
qed

text \<open>A token that is not the end moves on.\<close>

lemma gettoken_ge: "gettoken buf ps = (r, q, eq, s) \<Longrightarrow> ps \<le> q \<and> q \<le> eq \<and> eq \<le> s"
  using skip_ws_ge [of ps buf] skip_word_ge [of q buf] skip_ws_ge [of eq buf]
  by (auto simp: gettoken_def Let_def split: if_splits)

lemma gettoken_gt:
  assumes g: "gettoken buf ps = (r, q, eq, s)" and r: "r \<noteq> 0"
  shows "ps < s \<and> ps < length buf"
proof -
  have q: "q = skip_ws buf ps" using g by (auto simp: gettoken_def Let_def split: if_splits prod.splits)
  have c: "char_at buf q \<noteq> 0" using g r q by (auto simp: gettoken_def Let_def split: if_splits prod.splits)
  then have lt: "q < length buf" by (simp add: char_at_def split: if_splits)
  have "q < eq"
  proof (cases "buf ! q \<in> set symbols")
    case True
    then show ?thesis using g q lt c by (auto simp: gettoken_def Let_def char_at_def symbols_def split: if_splits)
  next
    case False
    then have "q < skip_word buf q" using skip_word_gt [OF lt] skip_ws_stop [of buf ps] lt q by simp
    then show ?thesis using g q c by (auto simp: gettoken_def Let_def split: if_splits)
  qed
  then show ?thesis using gettoken_ge [OF g] lt by simp
qed

lemma peek_props: "peek buf ps toks = (b, s) \<Longrightarrow> ps \<le> s \<and> (b \<longrightarrow> s < length buf)"
  using skip_ws_ge [of ps buf] by (auto simp: peek_def Let_def char_at_def split: if_splits)

section \<open>The parser\<close>

definition redir_for :: "byte \<Rightarrow> 's \<Rightarrow> 's cmd \<Rightarrow> 's cmd" where
  "redir_for tok f cmd =
     (if tok = LT_C then Redir cmd f O_RDONLY 0
      else if tok = GT_C then Redir cmd f O_OUT 1
      else if tok = PLUS_C then Redir cmd f O_APP 1
      else cmd)"

function parseredirs :: "tok cmd \<Rightarrow> byte list \<Rightarrow> nat \<Rightarrow> (tok cmd \<times> nat) result" where
  "parseredirs cmd buf ps =
     (case peek buf ps [LT_C, GT_C] of (b, s) \<Rightarrow>
        if \<not> b then Ok (cmd, s)
        else case gettoken buf s of (tok, _, _, s1) \<Rightarrow>
          (case gettoken buf s1 of (t, q, eq, s2) \<Rightarrow>
             if t \<noteq> WORD_C then Panic ''missing file for redirection''
             else parseredirs (redir_for tok (q, eq) cmd) buf s2))"
  by pat_completeness auto

termination
proof (relation "measure (\<lambda>(cmd, buf, s). length buf - s)", goal_cases)
  case (2 cmd buf ps b s tok y1 q0 y2 e0 s1 t z1 q z2 eq s2)
  have "ps \<le> s" by (use peek_props [OF 2(1) [symmetric]] in simp)
  moreover have "s \<le> s1" using gettoken_ge [of buf s tok q0 e0 s1] 2(3-5) by simp
  moreover have "s1 < s2 \<and> s1 < length buf" using gettoken_gt [of buf s1 t q eq s2] 2(6-9) by simp
  ultimately show ?case by (auto intro: diff_less_mono2)
qed simp

declare parseredirs.simps [simp del]

text \<open>\<open>cmd->argv[argc] = q\<close>, where the node is below the redirections added so far.\<close>

fun add_arg :: "'s \<Rightarrow> 's cmd \<Rightarrow> 's cmd" where
  "add_arg t (Exec l) = Exec (l @ [t])"
| "add_arg t (Redir c f m fd) = Redir (add_arg t c) f m fd"
| "add_arg t c = c"

lemma parseredirs_ge: "parseredirs cmd buf ps = Ok (c, s) \<Longrightarrow> ps \<le> s"
proof (induction cmd buf ps rule: parseredirs.induct)
  case (1 cmd buf ps)
  obtain b s1 where pk: "peek buf ps [LT_C, GT_C] = (b, s1)" by fastforce
  obtain tok q0 e0 s2 where g1: "gettoken buf s1 = (tok, q0, e0, s2)" by (metis prod_cases4)
  obtain t q eq s3 where g2: "gettoken buf s2 = (t, q, eq, s3)" by (metis prod_cases4)
  have "s1 \<le> s2" "s2 \<le> s3" "ps \<le> s1" using gettoken_ge [OF g1] gettoken_ge [OF g2] peek_props [OF pk] by auto
  moreover have "s3 \<le> s" if "b" "t = WORD_C" "parseredirs (redir_for tok (q, eq) cmd) buf s3 = Ok (c, s)"
    using 1(1) [OF pk [symmetric] _ g1 [symmetric] refl refl g2 [symmetric] refl refl] that by blast
  ultimately show ?case using 1(2) pk g1 g2 by (subst (asm) parseredirs.simps) (force split: if_splits)
qed

function parse_args :: "tok cmd \<Rightarrow> nat \<Rightarrow> byte list \<Rightarrow> nat \<Rightarrow> (tok cmd \<times> nat) result" where
  "parse_args ret argc buf ps =
     (case peek buf ps [BAR_C, RPAR_C, AMP_C, SEMI_C] of (b, s) \<Rightarrow>
        if b then Ok (ret, s)
        else case gettoken buf s of (tok, q, eq, s1) \<Rightarrow>
          if tok = 0 then Ok (ret, s1)
          else if tok \<noteq> WORD_C then Panic ''syntax''
          else if argc + 1 \<ge> MAXARGS then Panic ''too many args''
          else case parseredirs (add_arg (q, eq) ret) buf s1 of
                 Panic m \<Rightarrow> Panic m
               | Ok (ret1, s2) \<Rightarrow> parse_args ret1 (argc + 1) buf s2)"
  by pat_completeness auto

termination
  by (relation "measure (\<lambda>(ret, argc, buf, s). MAXARGS - argc)") auto

declare parse_args.simps [simp del]

lemma parse_args_ge: "parse_args ret argc buf ps = Ok (c, s) \<Longrightarrow> ps \<le> s"
proof (induction ret argc buf ps rule: parse_args.induct)
  case (1 ret argc buf ps)
  obtain b s1 where pk: "peek buf ps [BAR_C, RPAR_C, AMP_C, SEMI_C] = (b, s1)" by fastforce
  obtain tok q eq s2 where g: "gettoken buf s1 = (tok, q, eq, s2)" by (metis prod_cases4)
  have le: "s1 \<le> s2" "ps \<le> s1" using gettoken_ge [OF g] peek_props [OF pk] by auto
  show ?case
  proof (cases "parseredirs (add_arg (q, eq) ret) buf s2")
    case (Ok x)
    obtain c1 s3 where x: "x = (c1, s3)" by fastforce
    have "s2 \<le> s3" using parseredirs_ge Ok x by blast
    moreover have "s3 \<le> s" if "\<not> b" "tok \<noteq> 0" "tok = WORD_C" "\<not> MAXARGS \<le> argc + 1" "parse_args c1 (argc + 1) buf s3 = Ok (c, s)"
      using 1(1) [OF pk [symmetric] _ g [symmetric] refl refl _ _ _ Ok x [symmetric]] that by simp
    ultimately show ?thesis using 1(2) pk g le Ok x by (subst (asm) parse_args.simps) (force split: if_splits)
  next
    case (Panic m)
    then show ?thesis using 1(2) pk g le by (subst (asm) parse_args.simps) (auto split: if_splits)
  qed
qed

lemma peek_moves:
  assumes pk: "peek buf ps toks = (True, s)" and g: "gettoken buf s = (r, q, eq, s1)"
  shows "ps < s1 \<and> ps < length buf"
proof -
  have c: "char_at buf s \<noteq> 0" and s: "s = skip_ws buf ps" using pk by (auto simp: peek_def Let_def)
  then have lt: "s < length buf" by (simp add: char_at_def split: if_splits)
  then have "buf ! s \<notin> set whitespace" using skip_ws_stop [of buf ps] s by simp
  then have "skip_ws buf s = s" by (simp add: skip_ws.simps)
  then have "r \<noteq> 0" using g c by (auto simp: gettoken_def Let_def split: if_splits)
  then show ?thesis using gettoken_gt [OF g] peek_props [OF pk] by auto
qed

function parse_backs :: "tok cmd \<Rightarrow> byte list \<Rightarrow> nat \<Rightarrow> tok cmd \<times> nat" where
  "parse_backs cmd buf ps =
     (case peek buf ps [AMP_C] of (b, s) \<Rightarrow>
        if b then (case gettoken buf s of (_, _, _, s1) \<Rightarrow> parse_backs (Back cmd) buf s1) else (cmd, s))"
  by pat_completeness auto

termination
proof (relation "measure (\<lambda>(cmd, buf, s). length buf - s)", goal_cases)
  case (2 cmd buf ps b s r y1 q y2 eq s1)
  then show ?case using peek_moves [of buf ps "[AMP_C]" s r q eq s1] by (auto intro: diff_less_mono2)
qed simp

declare parse_backs.simps [simp del]

lemma parse_backs_ge: "parse_backs cmd buf ps = (c, s) \<Longrightarrow> ps \<le> s"
proof (induction cmd buf ps rule: parse_backs.induct)
  case (1 cmd buf ps)
  obtain b s1 where pk: "peek buf ps [AMP_C] = (b, s1)" by fastforce
  obtain r q eq s2 where g: "gettoken buf s1 = (r, q, eq, s2)" by (metis prod_cases4)
  have "s1 \<le> s2" "ps \<le> s1" using gettoken_ge [OF g] peek_props [OF pk] by auto
  moreover have "s2 \<le> s" if "b" "parse_backs (Back cmd) buf s2 = (c, s)"
    using 1(1) [OF pk [symmetric] _ g [symmetric] refl refl] that by simp
  ultimately show ?case using 1(2) pk g by (subst (asm) parse_backs.simps) (force split: if_splits)
qed

function parseline :: "byte list \<Rightarrow> nat \<Rightarrow> (tok cmd \<times> nat) result"
  and parsepipe :: "byte list \<Rightarrow> nat \<Rightarrow> (tok cmd \<times> nat) result"
  and parseexec :: "byte list \<Rightarrow> nat \<Rightarrow> (tok cmd \<times> nat) result"
  and parseblock :: "byte list \<Rightarrow> nat \<Rightarrow> (tok cmd \<times> nat) result" where
  "parseline buf ps =
     (case parsepipe buf ps of
        Panic m \<Rightarrow> Panic m
      | Ok (cmd, s) \<Rightarrow>
          (case parse_backs cmd buf s of (cmd1, s1) \<Rightarrow>
             (case peek buf s1 [SEMI_C] of (b, s2) \<Rightarrow>
                if b then (case gettoken buf s2 of (_, _, _, s3) \<Rightarrow>
                  (case parseline buf s3 of Panic m \<Rightarrow> Panic m | Ok (r, s4) \<Rightarrow> Ok (ListC cmd1 r, s4)))
                else Ok (cmd1, s2))))"
| "parsepipe buf ps =
     (case parseexec buf ps of
        Panic m \<Rightarrow> Panic m
      | Ok (cmd, s) \<Rightarrow>
          (case peek buf s [BAR_C] of (b, s1) \<Rightarrow>
             if b then (case gettoken buf s1 of (_, _, _, s2) \<Rightarrow>
               (case parsepipe buf s2 of Panic m \<Rightarrow> Panic m | Ok (r, s3) \<Rightarrow> Ok (PipeC cmd r, s3)))
             else Ok (cmd, s1)))"
| "parseexec buf ps =
     (case peek buf ps [LPAR_C] of (b, s) \<Rightarrow>
        if b then parseblock buf s
        else case parseredirs (Exec []) buf s of
               Panic m \<Rightarrow> Panic m
             | Ok (ret, s1) \<Rightarrow> parse_args ret 0 buf s1)"
| "parseblock buf ps =
     (case peek buf ps [LPAR_C] of (b, s) \<Rightarrow>
        if \<not> b then Panic ''parseblock''
        else case gettoken buf s of (_, _, _, s1) \<Rightarrow>
          (case parseline buf s1 of
             Panic m \<Rightarrow> Panic m
           | Ok (cmd, s2) \<Rightarrow>
               (case peek buf s2 [RPAR_C] of (b2, s3) \<Rightarrow>
                  if \<not> b2 then Panic ''syntax - missing )''
                  else case gettoken buf s3 of (_, _, _, s4) \<Rightarrow> parseredirs cmd buf s4)))"
  by pat_completeness auto

termination
proof -
  have ge: "parseline_parsepipe_parseexec_parseblock_dom (Inl (Inl (buf, ps))) \<Longrightarrow> parseline buf ps = Ok (c, s) \<Longrightarrow> ps \<le> s"
    and ge1: "parseline_parsepipe_parseexec_parseblock_dom (Inl (Inr (buf, ps))) \<Longrightarrow> parsepipe buf ps = Ok (c, s) \<Longrightarrow> ps \<le> s"
    and ge2: "parseline_parsepipe_parseexec_parseblock_dom (Inr (Inl (buf, ps))) \<Longrightarrow> parseexec buf ps = Ok (c, s) \<Longrightarrow> ps \<le> s"
    and ge3: "parseline_parsepipe_parseexec_parseblock_dom (Inr (Inr (buf, ps))) \<Longrightarrow> parseblock buf ps = Ok (c, s) \<Longrightarrow> ps \<le> s"
    for buf ps c s
  proof (induction arbitrary: c s and c s and c s and c s rule: parseline_parsepipe_parseexec_parseblock.pinduct)
    case (1 buf ps)
    obtain c1 s1 where p: "parsepipe buf ps = Ok (c1, s1)" using 1(1,4) by (auto simp: parseline.psimps split: result.splits)
    obtain c2 s2 where b: "parse_backs c1 buf s1 = (c2, s2)" by fastforce
    obtain f s3 where pk: "peek buf s2 [SEMI_C] = (f, s3)" by fastforce
    obtain r q eq s4 where g: "gettoken buf s3 = (r, q, eq, s4)" by (metis prod_cases4)
    have le: "ps \<le> s1" "s1 \<le> s2" "s2 \<le> s3" "s3 \<le> s4"
      using 1(2) [OF p] parse_backs_ge [OF b] peek_props [OF pk] gettoken_ge [OF g] by auto
    have "s4 \<le> s" if "f" "parseline buf s4 = Ok (x, s)" for x
      using 1(3) [OF p refl b [symmetric] pk [symmetric] that(1) g [symmetric] refl refl that(2)] .
    then show ?case using 1(1,4) p b pk g le by (force simp: parseline.psimps split: result.splits if_splits)
  next
    case (2 buf ps)
    obtain c1 s1 where p: "parseexec buf ps = Ok (c1, s1)" using 2(1,4) by (auto simp: parsepipe.psimps split: result.splits)
    obtain f s3 where pk: "peek buf s1 [BAR_C] = (f, s3)" by fastforce
    obtain r q eq s4 where g: "gettoken buf s3 = (r, q, eq, s4)" by (metis prod_cases4)
    have le: "ps \<le> s1" "s1 \<le> s3" "s3 \<le> s4" using 2(2) [OF p] peek_props [OF pk] gettoken_ge [OF g] by auto
    have "s4 \<le> s" if "f" "parsepipe buf s4 = Ok (x, s)" for x
      using 2(3) [OF p refl pk [symmetric] that(1) g [symmetric] refl refl that(2)] .
    then show ?case using 2(1,4) p pk g le by (force simp: parsepipe.psimps split: result.splits if_splits)
  next
    case (3 buf ps)
    obtain f s1 where pk: "peek buf ps [LPAR_C] = (f, s1)" by fastforce
    have le: "ps \<le> s1" using peek_props [OF pk] by auto
    show ?case
    proof (cases f)
      case True
      then have "parseblock buf s1 = Ok (c, s)" using 3(1,3) pk by (simp add: parseexec.psimps)
      then show ?thesis using 3(2) [OF pk [symmetric] True] le by fastforce
    next
      case False
      then obtain c1 s2 where "parseredirs (Exec []) buf s1 = Ok (c1, s2)" "parse_args c1 0 buf s2 = Ok (c, s)"
        using 3(1,3) pk by (auto simp: parseexec.psimps split: result.splits)
      then show ?thesis using parseredirs_ge parse_args_ge le by (meson le_trans)
    qed
  next
    case (4 buf ps)
    obtain f s1 where pk: "peek buf ps [LPAR_C] = (f, s1)" by fastforce
    obtain r q eq s2 where g: "gettoken buf s1 = (r, q, eq, s2)" by (metis prod_cases4)
    have f: "f" using 4(1,3) pk by (auto simp: parseblock.psimps split: if_splits)
    then obtain c1 s3 where p: "parseline buf s2 = Ok (c1, s3)" using 4(1,3) pk g by (auto simp: parseblock.psimps split: result.splits)
    obtain f2 s4 where pk2: "peek buf s3 [RPAR_C] = (f2, s4)" by fastforce
    obtain r2 q2 eq2 s5 where g2: "gettoken buf s4 = (r2, q2, eq2, s5)" by (metis prod_cases4)
    have "parseredirs c1 buf s5 = Ok (c, s)" using 4(1,3) pk g f p pk2 g2 by (auto simp: parseblock.psimps split: if_splits)
    then have "s5 \<le> s" by (rule parseredirs_ge)
    moreover have "s2 \<le> s3" using 4(2) [OF pk [symmetric] _ g [symmetric] refl refl p] f by simp
    ultimately show ?case using peek_props [OF pk] gettoken_ge [OF g] peek_props [OF pk2] gettoken_ge [OF g2] by simp
  qed
  show ?thesis
  proof (relation "measures [\<lambda>x. case x of Inl (Inl (buf, s)) \<Rightarrow> length buf - s | Inl (Inr (buf, s)) \<Rightarrow> length buf - s
        | Inr (Inl (buf, s)) \<Rightarrow> length buf - s | Inr (Inr (buf, s)) \<Rightarrow> length buf - s,
      \<lambda>x. case x of Inl (Inl _) \<Rightarrow> 3 | Inl (Inr _) \<Rightarrow> 2 | Inr (Inl _) \<Rightarrow> 1 | Inr (Inr _) \<Rightarrow> (0 :: nat)]", goal_cases)
    case (3 buf ps x1 c s c1 s1 b s2 r v q w eq s3)
    have "s1 < s3 \<and> s1 < length buf" using 3 peek_moves [of buf s1 "[SEMI_C]" s2 r q eq s3] by simp
    moreover have "ps \<le> s" "s \<le> s1" using 3 ge1 [of buf ps c s] parse_backs_ge [of c buf s c1 s1] by simp_all
    ultimately show ?case by (auto intro: diff_less_mono2)
  next
    case (5 buf ps x1 c s b s2 r v q w eq s3)
    have "s < s3 \<and> s < length buf" using 5 peek_moves [of buf s "[BAR_C]" s2 r q eq s3] by simp
    moreover have "ps \<le> s" using 5 ge2 [of buf ps c s] by simp
    ultimately show ?case by (auto intro: diff_less_mono2)
  next
    case (6 buf ps b s)
    have "ps \<le> s" using peek_props [OF 6(1) [symmetric]] by simp
    then show ?case by (cases "ps < length buf") auto
  next
    case (7 buf ps b s r v q w eq s1)
    have "ps < s1 \<and> ps < length buf" using 7 peek_moves [of buf ps "[LPAR_C]" s r q eq s1] by simp
    then show ?case by (auto intro: diff_less_mono2)
  qed auto
qed

declare parseline.simps [simp del] parsepipe.simps [simp del] parseexec.simps [simp del] parseblock.simps [simp del]

text \<open>Writing the NULs that end the strings into the line.\<close>

fun nulterminate :: "tok cmd \<Rightarrow> byte list \<Rightarrow> byte list" where
  "nulterminate (Exec l) buf = fold (\<lambda>t b. b[snd t := 0]) l buf"
| "nulterminate (Redir c f m fd) buf = (nulterminate c buf)[snd f := 0]"
| "nulterminate (PipeC l r) buf = nulterminate r (nulterminate l buf)"
| "nulterminate (ListC l r) buf = nulterminate r (nulterminate l buf)"
| "nulterminate (Back c) buf = nulterminate c buf"

definition parsecmd :: "byte list \<Rightarrow> (tok cmd \<times> byte list) result" where
  "parsecmd buf =
     (case parseline buf 0 of
        Panic m \<Rightarrow> Panic m
      | Ok (cmd, s) \<Rightarrow>
          (case peek buf s [] of (_, s1) \<Rightarrow>
             if s1 \<noteq> length buf then Panic ''syntax'' else Ok (cmd, nulterminate cmd buf)))"

text \<open>The C string that starts at a position of the line.\<close>

definition cstr :: "byte list \<Rightarrow> tok \<Rightarrow> byte list" where
  "cstr buf t = takeWhile (\<lambda>c. c \<noteq> 0) (drop (fst t) buf)"

end
