(* ===== verification/ShellParse.thy ===== *)
theory ShellParse
  imports Shell
begin

text \<open>
  The shell's parser reads back every command: printed with as many parentheses as its place needs,
  any command tree is what \<open>parsecmd\<close> makes of the line, its strings those that the program sees after
  the NULs have been written.
\<close>

section \<open>The strings of a parsed command\<close>

definition wordc :: "byte \<Rightarrow> bool" where
  "wordc c = (c \<noteq> 0 \<and> c \<notin> set whitespace \<and> c \<notin> set symbols)"

definition tok_ok :: "byte list \<Rightarrow> tok \<Rightarrow> bool" where
  "tok_ok buf t = (fst t \<le> snd t \<and> snd t \<le> length buf \<and> (\<forall>i. fst t \<le> i \<and> i < snd t \<longrightarrow> wordc (buf ! i)) \<and>
     (snd t < length buf \<longrightarrow> \<not> wordc (buf ! snd t)))"

definition sub :: "byte list \<Rightarrow> tok \<Rightarrow> byte list" where
  "sub buf t = take (snd t - fst t) (drop (fst t) buf)"

lemma skip_word_ok:
  assumes "0 \<notin> set buf" "q \<le> length buf"
  shows "tok_ok buf (q, skip_word buf q)"
  using assms
proof (induction buf q rule: skip_word.induct)
  case (1 buf q)
  show ?case
  proof (cases "q < length buf \<and> buf ! q \<notin> set whitespace \<and> buf ! q \<notin> set symbols")
    case True
    then have w: "wordc (buf ! q)" using 1(2) nth_mem by (force simp: wordc_def)
    have ih: "tok_ok buf (q + 1, skip_word buf (q + 1))" using 1(1) [OF True 1(2)] True by simp
    have "wordc (buf ! i)" if "q \<le> i" "i < skip_word buf (q + 1)" for i
      using ih w that by (cases "i = q") (auto simp: tok_ok_def)
    then show ?thesis using ih True by (subst skip_word.simps) (auto simp: tok_ok_def)
  next
    case False
    then show ?thesis using 1(3) by (subst skip_word.simps) (auto simp: tok_ok_def wordc_def)
  qed
qed

lemma gettoken_word:
  assumes z: "0 \<notin> set buf" and g: "gettoken buf ps = (WORD_C, q, eq, s)"
  shows "tok_ok buf (q, eq)"
proof -
  have "q < length buf" "eq = skip_word buf q" using g by (auto simp: gettoken_def Let_def char_at_def split: if_splits)
  then show ?thesis using skip_word_ok [OF z, of q] by simp
qed

text \<open>Every string of a command is a token.\<close>

definition toks_ok :: "byte list \<Rightarrow> tok cmd \<Rightarrow> bool" where
  "toks_ok buf c = (\<forall>t\<in>set_cmd c. tok_ok buf t)"

lemma toks_ok_simps [simp]:
  "toks_ok buf (Exec l) = (\<forall>t\<in>set l. tok_ok buf t)" "toks_ok buf (Redir c f m fd) = (toks_ok buf c \<and> tok_ok buf f)"
  "toks_ok buf (PipeC c1 c2) = (toks_ok buf c1 \<and> toks_ok buf c2)" "toks_ok buf (ListC c1 c2) = (toks_ok buf c1 \<and> toks_ok buf c2)"
  "toks_ok buf (Back c) = toks_ok buf c"
  by (auto simp: toks_ok_def)

lemma toks_redir_for: "toks_ok buf c \<Longrightarrow> tok_ok buf t \<Longrightarrow> toks_ok buf (redir_for tok t c)"
  by (simp add: redir_for_def)

lemma toks_add_arg: "toks_ok buf c \<Longrightarrow> tok_ok buf t \<Longrightarrow> toks_ok buf (add_arg t c)"
  by (induction t c rule: add_arg.induct) auto

lemma toks_parseredirs: "0 \<notin> set buf \<Longrightarrow> toks_ok buf cmd \<Longrightarrow> parseredirs cmd buf ps = Ok (c, s) \<Longrightarrow> toks_ok buf c"
proof (induction cmd buf ps rule: parseredirs.induct)
  case (1 cmd buf ps)
  obtain b s1 where pk: "peek buf ps [LT_C, GT_C] = (b, s1)" by fastforce
  obtain tok q0 e0 s2 where g1: "gettoken buf s1 = (tok, q0, e0, s2)" by (metis prod_cases4)
  obtain t q eq s3 where g2: "gettoken buf s2 = (t, q, eq, s3)" by (metis prod_cases4)
  show ?case
  proof (cases "b \<and> t = WORD_C")
    case True
    then have "parseredirs (redir_for tok (q, eq) cmd) buf s3 = Ok (c, s)"
      using 1(4) pk g1 g2 by (subst (asm) parseredirs.simps) simp
    moreover have "toks_ok buf (redir_for tok (q, eq) cmd)"
      using toks_redir_for [OF 1(3) gettoken_word [OF 1(2)]] g2 True by blast
    ultimately show ?thesis using 1(1) [OF pk [symmetric] _ g1 [symmetric] refl refl g2 [symmetric] refl refl _ 1(2)] True by blast
  next
    case False
    then show ?thesis using 1(3,4) pk g1 g2 by (subst (asm) parseredirs.simps) (auto split: if_splits)
  qed
qed

lemma toks_parse_args: "0 \<notin> set buf \<Longrightarrow> toks_ok buf ret \<Longrightarrow> parse_args ret argc buf ps = Ok (c, s) \<Longrightarrow> toks_ok buf c"
proof (induction ret argc buf ps rule: parse_args.induct)
  case (1 ret argc buf ps)
  obtain b s1 where pk: "peek buf ps [BAR_C, RPAR_C, AMP_C, SEMI_C] = (b, s1)" by fastforce
  obtain tok q eq s2 where g: "gettoken buf s1 = (tok, q, eq, s2)" by (metis prod_cases4)
  show ?case
  proof (cases "b \<or> tok = 0")
    case True
    then show ?thesis using 1(3,4) pk g by (subst (asm) parse_args.simps) (auto split: if_splits)
  next
    case False
    then have t: "tok = WORD_C" "\<not> MAXARGS \<le> argc + 1"
      using 1(4) pk g by (subst (asm) parse_args.simps; auto split: if_splits)+
    then obtain c1 s3 where p: "parseredirs (add_arg (q, eq) ret) buf s2 = Ok (c1, s3)" "parse_args c1 (argc + 1) buf s3 = Ok (c, s)"
      using 1(4) pk g False by (subst (asm) parse_args.simps) (auto split: result.splits)
    have "toks_ok buf c1" using toks_parseredirs [OF 1(2) toks_add_arg p(1)] 1(3) gettoken_word [OF 1(2)] g t by blast
    then show ?thesis using 1(1) [OF pk [symmetric] _ g [symmetric] refl refl _ _ _ p(1) refl 1(2)] False t p(2) by blast
  qed
qed

lemma toks_parse_backs: "toks_ok buf (fst (parse_backs cmd buf ps)) = toks_ok buf cmd"
proof (induction cmd buf ps rule: parse_backs.induct)
  case (1 cmd buf ps)
  obtain b s1 where pk: "peek buf ps [AMP_C] = (b, s1)" by fastforce
  obtain r q eq s2 where g: "gettoken buf s1 = (r, q, eq, s2)" by (metis prod_cases4)
  show ?case using 1 [OF pk [symmetric] _ g [symmetric] refl refl] pk g by (subst parse_backs.simps) simp
qed

lemma toks_parse:
  "0 \<notin> set buf \<Longrightarrow> parseline buf ps = Ok (c, s) \<Longrightarrow> toks_ok buf c"
  "0 \<notin> set buf \<Longrightarrow> parsepipe buf ps = Ok (c, s) \<Longrightarrow> toks_ok buf c"
  "0 \<notin> set buf \<Longrightarrow> parseexec buf ps = Ok (c, s) \<Longrightarrow> toks_ok buf c"
  "0 \<notin> set buf \<Longrightarrow> parseblock buf ps = Ok (c, s) \<Longrightarrow> toks_ok buf c"
proof (induction buf ps and buf ps and buf ps and buf ps arbitrary: c s and c s and c s and c s rule: parseline_parsepipe_parseexec_parseblock.induct)
  case (1 buf ps)
  obtain c1 s1 where p: "parsepipe buf ps = Ok (c1, s1)" using 1(4) by (auto simp: parseline.simps [of buf ps] split: result.splits)
  obtain c2 s2 where b: "parse_backs c1 buf s1 = (c2, s2)" by fastforce
  obtain f s3 where pk: "peek buf s2 [SEMI_C] = (f, s3)" by fastforce
  obtain r q eq s4 where g: "gettoken buf s3 = (r, q, eq, s4)" by (metis prod_cases4)
  have "toks_ok buf c2" using toks_parse_backs [of buf c1 s1] b 1(1) [OF 1(3) p] by simp
  moreover have "toks_ok buf x" if "f" "parseline buf s4 = Ok (x, y)" for x y
    using 1(2) [OF p refl b [symmetric] pk [symmetric] that(1) g [symmetric] refl refl 1(3) that(2)] .
  ultimately show ?case using 1(4) p b pk g by (fastforce simp: parseline.simps [of buf ps] split: result.splits if_splits)
next
  case (2 buf ps)
  obtain c1 s1 where p: "parseexec buf ps = Ok (c1, s1)" using 2(4) by (auto simp: parsepipe.simps [of buf ps] split: result.splits)
  obtain f s3 where pk: "peek buf s1 [BAR_C] = (f, s3)" by fastforce
  obtain r q eq s4 where g: "gettoken buf s3 = (r, q, eq, s4)" by (metis prod_cases4)
  have "toks_ok buf x" if "f" "parsepipe buf s4 = Ok (x, y)" for x y
    using 2(2) [OF p refl pk [symmetric] that(1) g [symmetric] refl refl 2(3) that(2)] .
  then show ?case using 2(4) p pk g 2(1) [OF 2(3) p] by (fastforce simp: parsepipe.simps [of buf ps] split: result.splits if_splits)
next
  case (3 buf ps)
  obtain f s1 where pk: "peek buf ps [LPAR_C] = (f, s1)" by fastforce
  show ?case
  proof (cases f)
    case True
    then show ?thesis using 3 pk by (auto simp: parseexec.simps [of buf ps])
  next
    case False
    then obtain c1 s2 where "parseredirs (Exec []) buf s1 = Ok (c1, s2)" "parse_args c1 0 buf s2 = Ok (c, s)"
      using 3(3) pk by (auto simp: parseexec.simps [of buf ps] split: result.splits)
    then show ?thesis using toks_parse_args [OF 3(2) toks_parseredirs [OF 3(2) _], of "Exec []"] by simp
  qed
next
  case (4 buf ps)
  obtain f s1 where pk: "peek buf ps [LPAR_C] = (f, s1)" by fastforce
  obtain r q eq s2 where g: "gettoken buf s1 = (r, q, eq, s2)" by (metis prod_cases4)
  have f: "f" using 4(3) pk by (auto simp: parseblock.simps [of buf ps] split: if_splits)
  then obtain c1 s3 where p: "parseline buf s2 = Ok (c1, s3)" using 4(3) pk g by (auto simp: parseblock.simps [of buf ps] split: result.splits)
  obtain f2 s4 where pk2: "peek buf s3 [RPAR_C] = (f2, s4)" by fastforce
  obtain r2 q2 eq2 s5 where g2: "gettoken buf s4 = (r2, q2, eq2, s5)" by (metis prod_cases4)
  have "parseredirs c1 buf s5 = Ok (c, s)" using 4(3) pk g f p pk2 g2 by (auto simp: parseblock.simps [of buf ps] split: if_splits)
  moreover have "toks_ok buf c1" using 4(1) [OF pk [symmetric] _ g [symmetric] refl refl 4(2) p] f by simp
  ultimately show ?case using toks_parseredirs 4(2) by blast
qed

text \<open>After \<open>nulterminate\<close> the C strings are the tokens.\<close>

lemma fold_nul: "length (fold (\<lambda>t b. b[snd t := 0]) l buf) = length buf \<and>
  (\<forall>i<length buf. fold (\<lambda>t b. b[snd t := 0]) l buf ! i = (if i \<in> snd ` set l then 0 else buf ! i :: byte))"
  by (induction l arbitrary: buf) (auto simp: nth_list_update)

lemma nulterminate_nth: "length (nulterminate c buf) = length buf \<and>
  (\<forall>i<length buf. nulterminate c buf ! i = (if i \<in> snd ` set_cmd c then 0 else buf ! i))"
proof (induction c buf rule: nulterminate.induct)
  case (1 l buf)
  then show ?case using fold_nul [of l buf] by simp
next
  case (2 c f m fd buf)
  then show ?case by (cases "snd f < length buf") (auto simp: nth_list_update)
qed auto

lemma takeWhile_len: "n \<le> length l \<Longrightarrow> (\<And>i. i < n \<Longrightarrow> P (l ! i)) \<Longrightarrow> (n < length l \<Longrightarrow> \<not> P (l ! n)) \<Longrightarrow> takeWhile P l = take n l"
  by (rule takeWhile_eq_take_P_nth) auto

lemma cstr_nulterminate:
  assumes ok: "toks_ok buf c" and t: "t \<in> set_cmd c"
  shows "cstr (nulterminate c buf) t = sub buf t"
proof -
  let ?b = "nulterminate c buf"
  note n = nulterminate_nth [of c buf]
  have to: "tok_ok buf t" using ok t by (simp add: toks_ok_def)
  have keep: "?b ! i = buf ! i \<and> wordc (buf ! i)" if "fst t \<le> i" "i < snd t" for i
  proof -
    have w: "wordc (buf ! i)" and i: "i < length buf" using to that by (auto simp: tok_ok_def)
    have "i \<noteq> snd u" if "u \<in> set_cmd c" for u using ok that w i by (auto simp: toks_ok_def tok_ok_def)
    then show ?thesis using n i w by auto
  qed
  have "?b ! snd t = 0" if "snd t < length buf" using n that t by auto
  then have "takeWhile (\<lambda>c. c \<noteq> 0) (drop (fst t) ?b) = take (snd t - fst t) (drop (fst t) ?b)"
    using to keep n by (intro takeWhile_len) (auto simp: tok_ok_def wordc_def)
  also have "\<dots> = take (snd t - fst t) (drop (fst t) buf)"
    using to keep n by (intro nth_equalityI) (auto simp: tok_ok_def)
  finally show ?thesis by (simp add: cstr_def sub_def)
qed

lemma parsecmd_strings:
  assumes z: "0 \<notin> set buf" and p: "parsecmd buf = Ok (c, b)"
  shows "map_cmd (cstr b) c = map_cmd (sub buf) c"
proof -
  obtain s where "parseline buf 0 = Ok (c, s)" "b = nulterminate c buf"
    using p by (auto simp: parsecmd_def split: result.splits if_splits prod.splits)
  then show ?thesis using cstr_nulterminate [of buf c] toks_parse(1) [OF z] by (auto intro!: cmd.map_cong)
qed

section \<open>Printing a command\<close>

definition redir_op :: "nat \<Rightarrow> byte list" where
  "redir_op m = (if m = O_RDONLY then [LT_C] else if m = O_OUT then [GT_C] else [GT_C, GT_C])"

definition paren :: "bool \<Rightarrow> byte list \<Rightarrow> byte list" where
  "paren b l = (if b then LPAR_C # l @ [RPAR_C] else l)"

text \<open>The levels of the grammar: 0 for what \<open>parseexec\<close> reads, 1 a pipeline, 2 one with ampersands, 3 a line.\<close>

fun pr :: "nat \<Rightarrow> byte list cmd \<Rightarrow> byte list" where
  "pr lv (Exec ws) = concat (map (\<lambda>w. 32 # w) ws)"
| "pr lv (Redir c f m fd) = pr 0 c @ redir_op m @ 32 # f"
| "pr lv (PipeC l r) = paren (lv < 1) (pr 0 l @ BAR_C # pr 1 r)"
| "pr lv (Back c) = paren (lv < 2) (pr 2 c @ [AMP_C])"
| "pr lv (ListC l r) = paren (lv < 3) (pr 2 l @ SEMI_C # pr 3 r)"

text \<open>Commands the syntax can express: words of ordinary characters, no more than nine, the three redirections.\<close>

definition word_ok :: "byte list \<Rightarrow> bool" where
  "word_ok w = (w \<noteq> [] \<and> (\<forall>c\<in>set w. wordc c))"

fun wf_cmd :: "byte list cmd \<Rightarrow> bool" where
  "wf_cmd (Exec ws) = (length ws < MAXARGS \<and> (\<forall>w\<in>set ws. word_ok w))"
| "wf_cmd (Redir c f m fd) = (wf_cmd c \<and> word_ok f \<and> (m, fd) \<in> {(O_RDONLY, 0), (O_OUT, 1), (O_APP, 1)})"
| "wf_cmd (PipeC l r) = (wf_cmd l \<and> wf_cmd r)"
| "wf_cmd (ListC l r) = (wf_cmd l \<and> wf_cmd r)"
| "wf_cmd (Back c) = wf_cmd c"

section \<open>Reading tokens\<close>

definition lstrip :: "byte list \<Rightarrow> byte list" where
  "lstrip = dropWhile (\<lambda>c. c \<in> set whitespace)"

text \<open>From position \<open>s\<close>, behind blanks, comes \<open>X\<close>.\<close>

definition near :: "byte list \<Rightarrow> nat \<Rightarrow> byte list \<Rightarrow> bool" where
  "near buf s X = (s \<le> length buf \<and> lstrip (drop s buf) = X)"

lemma skip_ws_drop: "s \<le> length buf \<Longrightarrow> drop (skip_ws buf s) buf = lstrip (drop s buf)"
proof (induction buf s rule: skip_ws.induct)
  case (1 buf s)
  show ?case
  proof (cases "s < length buf")
    case True
    then have "drop s buf = buf ! s # drop (s + 1) buf" by (simp add: Cons_nth_drop_Suc)
    then show ?thesis using 1 True by (subst skip_ws.simps) (auto simp: lstrip_def)
  next
    case False
    then show ?thesis by (subst skip_ws.simps) (simp add: lstrip_def)
  qed
qed

lemma lstrip_idem [simp]: "lstrip (lstrip X) = lstrip X"
  by (simp add: lstrip_def dropWhile_idem)

lemma near_skip: "near buf s X \<Longrightarrow> near buf (skip_ws buf s) X \<and> drop (skip_ws buf s) buf = X"
  using skip_ws_drop [of s buf] skip_ws_le [of s buf] by (metis lstrip_idem near_def)

lemma near_strip: "near buf s X \<Longrightarrow> lstrip X = X"
  by (auto simp: near_def)

lemma char_at_drop: "char_at buf s = (case drop s buf of [] \<Rightarrow> 0 | c # _ \<Rightarrow> c)"
  by (cases "s < length buf") (auto simp: char_at_def Cons_nth_drop_Suc [symmetric])

lemma near_peek:
  assumes "near buf s X"
  shows "\<exists>s'. peek buf s toks = (X \<noteq> [] \<and> hd X \<noteq> 0 \<and> hd X \<in> set toks, s') \<and> near buf s' X"
  using near_skip [OF assms] by (cases X) (auto simp: peek_def Let_def char_at_drop)

lemma near_after: "s \<le> length buf \<Longrightarrow> drop s buf = u @ X \<Longrightarrow> near buf (skip_ws buf (s + length u)) (lstrip X) \<and> s + length u \<le> length buf"
proof -
  assume s: "s \<le> length buf" "drop s buf = u @ X"
  then have "drop (s + length u) buf = X" by (metis append_eq_conv_conj drop_drop add.commute)
  moreover have "s + length u \<le> length buf" using s by (metis length_append length_drop le_add_diff_inverse add_le_cancel_left le_add1)
  ultimately show ?thesis using near_skip [of buf "s + length u" "lstrip X"] by (simp add: near_def)
qed

lemma near_sym:
  assumes n: "near buf s (c # X)" and c: "c \<in> {BAR_C, LPAR_C, RPAR_C, SEMI_C, AMP_C, LT_C}"
  shows "\<exists>q eq s'. gettoken buf s = (c, q, eq, s') \<and> near buf s' (lstrip X)"
proof -
  let ?q = "skip_ws buf s"
  have q: "near buf ?q (c # X)" "drop ?q buf = c # X" using near_skip [OF n] by auto
  then have "near buf (skip_ws buf (?q + 1)) (lstrip X)" using near_after [of ?q buf "[c]" X] by (simp add: near_def)
  then show ?thesis using q(2) c by (auto simp: gettoken_def Let_def char_at_drop [of buf ?q])
qed

lemma near_gt:
  assumes n: "near buf s (GT_C # X)" and X: "X = [] \<or> hd X \<noteq> GT_C"
  shows "\<exists>q eq s'. gettoken buf s = (GT_C, q, eq, s') \<and> near buf s' (lstrip X)"
proof -
  let ?q = "skip_ws buf s"
  have q: "near buf ?q (GT_C # X)" "drop ?q buf = GT_C # X" using near_skip [OF n] by auto
  then have "drop (?q + 1) buf = X" by (metis add.commute drop_drop drop0 drop_Suc_Cons plus_1_eq_Suc)
  then have "char_at buf (?q + 1) \<noteq> GT_C" using X by (cases X) (auto simp: char_at_drop)
  moreover have "near buf (skip_ws buf (?q + 1)) (lstrip X)" using near_after [of ?q buf "[GT_C]" X] q by (simp add: near_def)
  ultimately show ?thesis using q(2) by (auto simp: gettoken_def Let_def char_at_drop [of buf ?q])
qed

lemma near_gtgt:
  assumes n: "near buf s (GT_C # GT_C # X)"
  shows "\<exists>q eq s'. gettoken buf s = (PLUS_C, q, eq, s') \<and> near buf s' (lstrip X)"
proof -
  let ?q = "skip_ws buf s"
  have q: "near buf ?q (GT_C # GT_C # X)" "drop ?q buf = GT_C # GT_C # X" using near_skip [OF n] by auto
  then have "drop (?q + 1) buf = GT_C # X" by (metis add.commute drop_drop drop0 drop_Suc_Cons plus_1_eq_Suc)
  then have "char_at buf (?q + 1) = GT_C" by (auto simp: char_at_drop)
  moreover have "near buf (skip_ws buf (?q + 2)) (lstrip X)" using near_after [of ?q buf "[GT_C, GT_C]" X] q by (simp add: near_def)
  ultimately show ?thesis using q(2) by (auto simp: gettoken_def Let_def char_at_drop [of buf ?q])
qed

lemma near_end: "near buf s [] \<Longrightarrow> \<exists>q eq s'. gettoken buf s = (0, q, eq, s') \<and> near buf s' []"
  using near_skip [of buf s "[]"] near_skip [of buf "skip_ws buf s" "[]"] by (auto simp: gettoken_def Let_def char_at_drop [of buf "skip_ws buf s"])

lemma skip_word_drop:
  "drop q buf = w @ X \<Longrightarrow> q \<le> length buf \<Longrightarrow> (\<And>c. c \<in> set w \<Longrightarrow> wordc c) \<Longrightarrow> X = [] \<or> hd X \<in> set whitespace \<union> set symbols \<Longrightarrow> skip_word buf q = q + length w"
proof (induction w arbitrary: q)
  case Nil
  then show ?case by (cases X) (auto simp: skip_word.simps [of buf q] nth_via_drop)
next
  case (Cons c w)
  have lt: "q < length buf" using Cons.prems(1) by (cases "q < length buf") auto
  then have "drop q buf = buf ! q # drop (q + 1) buf" by (simp add: Cons_nth_drop_Suc)
  then have "buf ! q = c" "drop (q + 1) buf = w @ X" using Cons.prems(1) by simp_all
  then show ?case using Cons.IH [of "q + 1"] Cons.prems(3,4) lt by (subst skip_word.simps) (auto simp: wordc_def)
qed

lemma near_word:
  assumes n: "near buf s (w @ X)" and w: "word_ok w" and X: "X = [] \<or> hd X \<in> set whitespace \<union> set symbols"
  shows "\<exists>q eq s'. gettoken buf s = (WORD_C, q, eq, s') \<and> sub buf (q, eq) = w \<and> near buf s' (lstrip X)"
proof -
  let ?q = "skip_ws buf s"
  have q: "near buf ?q (w @ X)" "drop ?q buf = w @ X" using near_skip [OF n] by auto
  then have sw: "skip_word buf ?q = ?q + length w" using skip_word_drop [of ?q buf w X] w X by (auto simp: near_def word_ok_def)
  obtain c w' where c: "w = c # w'" "wordc c" using w by (cases w) (auto simp: word_ok_def)
  then have "gettoken buf s = (WORD_C, ?q, ?q + length w, skip_ws buf (?q + length w))"
    using q(2) sw by (auto simp: gettoken_def Let_def char_at_drop [of buf ?q] wordc_def symbols_def)
  moreover have "near buf (skip_ws buf (?q + length w)) (lstrip X)" using near_after [of ?q buf w X] q by (simp add: near_def)
  moreover have "sub buf (?q, ?q + length w) = w" using q(2) by (simp add: sub_def)
  ultimately show ?thesis by blast
qed

section \<open>Reading commands\<close>

text \<open>What may follow a word without belonging to it.\<close>

definition sep :: "byte list \<Rightarrow> bool" where
  "sep X = (X = [] \<or> hd X \<in> set whitespace \<union> set symbols)"

text \<open>The rest of the line starts with one of the characters, or there is no rest.\<close>

definition fol :: "byte list \<Rightarrow> byte list \<Rightarrow> bool" where
  "fol cs X = (X = [] \<or> hd X \<in> set cs)"

abbreviation (input) CLOSERS :: "byte list" where "CLOSERS \<equiv> [BAR_C, RPAR_C, AMP_C, SEMI_C]"

lemma fol_strip: "fol cs X \<Longrightarrow> set cs \<subseteq> set symbols \<Longrightarrow> lstrip X = X \<and> sep X"
  by (cases X) (auto simp: fol_def lstrip_def sep_def whitespace_def symbols_def)

lemma lstrip_word: "word_ok w \<Longrightarrow> lstrip (w @ X) = w @ X"
  by (cases w) (auto simp: lstrip_def word_ok_def wordc_def)

lemma lstrip_blank: "lstrip (32 # X) = lstrip X"
  by (simp add: lstrip_def whitespace_def)

lemma lstrip_sym: "c \<in> set symbols \<Longrightarrow> lstrip (c # X) = c # X"
  by (auto simp: lstrip_def whitespace_def symbols_def)

lemma redirs_done:
  assumes n: "near buf s X" and X: "X = [] \<or> hd X \<notin> {LT_C, GT_C}"
  shows "\<exists>s'. parseredirs c buf s = Ok (c, s') \<and> near buf s' X"
  using near_peek [OF n, of "[LT_C, GT_C]"] X by (auto simp: parseredirs.simps [of c buf s])

lemma redirs_one:
  assumes n: "near buf s (lstrip (redir_op m @ 32 # f @ X))" and f: "word_ok f" "sep X" and m: "(m, fd) \<in> {(O_RDONLY, 0), (O_OUT, 1), (O_APP, 1)}"
  shows "\<exists>t s'. parseredirs c buf s = parseredirs (Redir c t m fd) buf s' \<and> sub buf t = f \<and> near buf s' (lstrip X)"
proof -
  let ?X = "32 # f @ X"
  have n': "near buf s (redir_op m @ ?X)" using n lstrip_sym [of "hd (redir_op m)" "tl (redir_op m) @ ?X"] by (auto simp: redir_op_def symbols_def)
  then obtain s1 where pk: "peek buf s [LT_C, GT_C] = (True, s1)" and s1: "near buf s1 (redir_op m @ ?X)"
    using near_peek [OF n', of "[LT_C, GT_C]"] by (auto simp: redir_op_def split: if_splits)
  define tok :: byte where "tok = (if m = O_RDONLY then LT_C else if m = O_OUT then GT_C else PLUS_C)"
  have "\<exists>q eq s2. gettoken buf s1 = (tok, q, eq, s2) \<and> near buf s2 (lstrip ?X)"
    using s1 near_sym [of buf s1 LT_C ?X] near_gt [of buf s1 ?X] near_gtgt [of buf s1 ?X]
    by (auto simp: redir_op_def tok_def split: if_splits)
  then obtain q1 e1 s2 where g: "gettoken buf s1 = (tok, q1, e1, s2)" "near buf s2 (f @ X)"
    using lstrip_blank [of "f @ X"] lstrip_word [OF f(1), of X] by auto
  obtain q eq s3 where w: "gettoken buf s2 = (WORD_C, q, eq, s3)" "sub buf (q, eq) = f" "near buf s3 (lstrip X)"
    using near_word [OF g(2) f(1)] f(2) by (auto simp: sep_def)
  have "redir_for tok (q, eq) c = Redir c (q, eq) m fd" using m by (auto simp: redir_for_def tok_def O_RDONLY_def O_OUT_def O_APP_def)
  then have "parseredirs c buf s = parseredirs (Redir c (q, eq) m fd) buf s3"
    using pk g(1) w(1) by (simp add: parseredirs.simps [of c buf s])
  then show ?thesis using w by blast
qed

text \<open>The loop of \<open>parseexec\<close>, entered before the redirections.\<close>

definition args_from :: "tok cmd \<Rightarrow> nat \<Rightarrow> byte list \<Rightarrow> nat \<Rightarrow> (tok cmd \<times> nat) result" where
  "args_from ret argc buf s = bindR (parseredirs ret buf s) (\<lambda>(ret1, s1). parse_args ret1 argc buf s1)"

lemma args_done:
  assumes n: "near buf s X" and X: "fol CLOSERS X"
  shows "\<exists>s'. parse_args ret argc buf s = Ok (ret, s') \<and> near buf s' X"
proof -
  obtain s1 where pk: "peek buf s CLOSERS = (X \<noteq> [] \<and> hd X \<noteq> 0 \<and> hd X \<in> set CLOSERS, s1)" "near buf s1 X" using near_peek [OF n] by blast
  show ?thesis
  proof (cases "X = []")
    case True
    then obtain q eq s2 where "gettoken buf s1 = (0, q, eq, s2)" "near buf s2 []" using near_end pk(2) by blast
    then show ?thesis using pk True by (simp add: parse_args.simps [of ret argc buf s])
  next
    case False
    then have "peek buf s CLOSERS = (True, s1)" using pk(1) X by (auto simp: fol_def)
    then show ?thesis using pk(2) by (simp add: parse_args.simps [of ret argc buf s])
  qed
qed

lemma args_words:
  assumes "near buf s (lstrip (concat (map (\<lambda>w. 32 # w) ws) @ X))" "\<forall>w\<in>set ws. word_ok w" "argc + length ws < MAXARGS" "sep X"
  shows "\<exists>ts s'. args_from (Exec l) argc buf s = args_from (Exec (l @ ts)) (argc + length ws) buf s' \<and> map (sub buf) ts = ws \<and> near buf s' (lstrip X)"
  using assms
proof (induction ws arbitrary: l argc s)
  case Nil
  then show ?case by (auto intro: exI [of _ "[]"])
next
  case (Cons w ws)
  let ?Y = "concat (map (\<lambda>w. 32 # w) ws) @ X"
  have w: "word_ok w" using Cons.prems(2) by simp
  have n: "near buf s (w @ ?Y)" using Cons.prems(1) lstrip_blank [of "w @ ?Y"] lstrip_word [OF w, of ?Y] by simp
  have hd: "hd (w @ ?Y) \<notin> set symbols" "w @ ?Y \<noteq> []" using w by (cases w; simp add: word_ok_def wordc_def)+
  obtain s1 where r: "parseredirs (Exec l) buf s = Ok (Exec l, s1)" "near buf s1 (w @ ?Y)"
    using redirs_done [OF n] hd by (auto simp: symbols_def)
  obtain s2 where pk: "peek buf s1 CLOSERS = (False, s2)" "near buf s2 (w @ ?Y)"
    using near_peek [OF r(2), of CLOSERS] hd by (auto simp: symbols_def)
  have "sep ?Y" using Cons.prems(4) by (cases ws) (auto simp: sep_def whitespace_def)
  then obtain q eq s3 where g: "gettoken buf s2 = (WORD_C, q, eq, s3)" "sub buf (q, eq) = w" "near buf s3 (lstrip ?Y)"
    using near_word [OF pk(2) w] by (auto simp: sep_def)
  have step: "args_from (Exec l) argc buf s = args_from (Exec (l @ [(q, eq)])) (argc + 1) buf s3"
    using r(1) pk(1) g(1) Cons.prems(3)
    by (auto simp: args_from_def parse_args.simps [of "Exec l" argc buf s1] split: result.splits)
  obtain ts s' where ih: "args_from (Exec (l @ [(q, eq)])) (argc + 1) buf s3 = args_from (Exec ((l @ [(q, eq)]) @ ts)) (argc + 1 + length ws) buf s'"
    "map (sub buf) ts = ws" "near buf s' (lstrip X)"
    using Cons.IH [OF g(3), of "argc + 1" "l @ [(q, eq)]"] Cons.prems(2-4) by auto
  show ?case using step ih g(2) by (intro exI [of _ "(q, eq) # ts"] exI [of _ s']) simp
qed

text \<open>
  The four levels. At level 0 the command may be followed by redirections, which \<open>parseexec\<close> goes on to
  read before it ends with what \<open>K\<close> says; at level 2 by ampersands.
\<close>

definition ends_at :: "byte list \<Rightarrow> (tok cmd \<times> nat \<Rightarrow> (tok cmd \<times> nat) result) \<Rightarrow> bool" where
  "ends_at buf K = (\<forall>x t Y. near buf t Y \<and> fol CLOSERS Y \<longrightarrow> (\<exists>t'. K (x, t) = Ok (x, t') \<and> near buf t' Y))"

definition reads0 :: "byte list cmd \<Rightarrow> bool" where
  "reads0 c = (\<forall>buf s X. near buf s (lstrip (pr 0 c @ X)) \<and> fol (LT_C # GT_C # CLOSERS) X \<longrightarrow>
     (\<exists>c' s' K. parseexec buf s = bindR (parseredirs c' buf s') K \<and> map_cmd (sub buf) c' = c \<and> near buf s' (lstrip X) \<and> ends_at buf K))"

definition reads1 :: "byte list cmd \<Rightarrow> bool" where
  "reads1 c = (\<forall>buf s X. near buf s (lstrip (pr 1 c @ X)) \<and> fol [RPAR_C, AMP_C, SEMI_C] X \<longrightarrow>
     (\<exists>c' s'. parsepipe buf s = Ok (c', s') \<and> map_cmd (sub buf) c' = c \<and> near buf s' X))"

definition reads2 :: "byte list cmd \<Rightarrow> bool" where
  "reads2 c = (\<forall>buf s X. near buf s (lstrip (pr 2 c @ X)) \<and> fol [RPAR_C, AMP_C, SEMI_C] X \<longrightarrow>
     (\<exists>c0 s0 c' s'. parsepipe buf s = Ok (c0, s0) \<and> parse_backs c0 buf s0 = parse_backs c' buf s' \<and> map_cmd (sub buf) c' = c \<and> near buf s' X))"

definition reads3 :: "byte list cmd \<Rightarrow> bool" where
  "reads3 c = (\<forall>buf s X. near buf s (lstrip (pr 3 c @ X)) \<and> fol [RPAR_C] X \<longrightarrow>
     (\<exists>c' s'. parseline buf s = Ok (c', s') \<and> map_cmd (sub buf) c' = c \<and> near buf s' X))"

lemma reads0_end:
  assumes r: "reads0 c" and n: "near buf s (lstrip (pr 0 c @ X))" and X: "fol CLOSERS X"
  shows "\<exists>c' s'. parseexec buf s = Ok (c', s') \<and> map_cmd (sub buf) c' = c \<and> near buf s' X"
proof -
  have x: "lstrip X = X" "fol (LT_C # GT_C # CLOSERS) X" using fol_strip [OF X] X by (auto simp: symbols_def fol_def)
  then obtain c' s' K where p: "parseexec buf s = bindR (parseredirs c' buf s') K" "map_cmd (sub buf) c' = c" "near buf s' X" "ends_at buf K"
    using r n unfolding reads0_def by metis
  have "X = [] \<or> hd X \<notin> {LT_C, GT_C}" using X by (auto simp: fol_def)
  then obtain s1 where "parseredirs c' buf s' = Ok (c', s1)" "near buf s1 X" using redirs_done [OF p(3)] by blast
  then show ?thesis using p X unfolding ends_at_def by fastforce
qed

lemma reads1_up:
  assumes r: "reads0 c" and same: "pr 1 c = pr 0 c"
  shows "reads1 c"
  unfolding reads1_def
proof (intro allI impI, elim conjE)
  fix buf s X
  assume n: "near buf s (lstrip (pr 1 c @ X))" and X: "fol [RPAR_C, AMP_C, SEMI_C] X"
  have "fol CLOSERS X" using X by (auto simp: fol_def)
  then obtain c' s' where p: "parseexec buf s = Ok (c', s')" "map_cmd (sub buf) c' = c" "near buf s' X"
    using reads0_end [OF r] n same by metis
  obtain s1 where "peek buf s' [BAR_C] = (False, s1)" "near buf s1 X" using near_peek [OF p(3), of "[BAR_C]"] X by (auto simp: fol_def)
  then show "\<exists>c' s'. parsepipe buf s = Ok (c', s') \<and> map_cmd (sub buf) c' = c \<and> near buf s' X"
    using p by (simp add: parsepipe.simps [of buf s])
qed

lemma reads2_up: "reads1 c \<Longrightarrow> pr 2 c = pr 1 c \<Longrightarrow> reads2 c"
  unfolding reads1_def reads2_def by metis

lemma backs_done: "near buf s X \<Longrightarrow> X = [] \<or> hd X \<noteq> AMP_C \<Longrightarrow> \<exists>s'. parse_backs c buf s = (c, s') \<and> near buf s' X"
  using near_peek [of buf s X "[AMP_C]"] by (auto simp: parse_backs.simps [of c buf s])

lemma reads2_end:
  assumes r: "reads2 c" and n: "near buf s (lstrip (pr 2 c @ X))" and X: "fol [RPAR_C, SEMI_C] X"
  shows "\<exists>c0 s0 c' s'. parsepipe buf s = Ok (c0, s0) \<and> parse_backs c0 buf s0 = (c', s') \<and> map_cmd (sub buf) c' = c \<and> near buf s' X"
proof -
  have "fol [RPAR_C, AMP_C, SEMI_C] X" using X by (auto simp: fol_def)
  then obtain c0 s0 c' s' where p: "parsepipe buf s = Ok (c0, s0)" "parse_backs c0 buf s0 = parse_backs c' buf s'" "map_cmd (sub buf) c' = c" "near buf s' X"
    using r n unfolding reads2_def by metis
  have "X = [] \<or> hd X \<noteq> AMP_C" using X by (auto simp: fol_def)
  from backs_done [OF p(4) this, of c'] p show ?thesis by metis
qed

lemma reads3_up:
  assumes r: "reads2 c" and same: "pr 3 c = pr 2 c"
  shows "reads3 c"
  unfolding reads3_def
proof (intro allI impI, elim conjE)
  fix buf s X
  assume n: "near buf s (lstrip (pr 3 c @ X))" and X: "fol [RPAR_C] X"
  have "fol [RPAR_C, SEMI_C] X" using X by (auto simp: fol_def)
  then obtain c0 s0 c' s' where p: "parsepipe buf s = Ok (c0, s0)" "parse_backs c0 buf s0 = (c', s')" "map_cmd (sub buf) c' = c" "near buf s' X"
    using reads2_end [OF r] n same by metis
  obtain s1 where "peek buf s' [SEMI_C] = (False, s1)" "near buf s1 X" using near_peek [OF p(4), of "[SEMI_C]"] X by (auto simp: fol_def)
  then show "\<exists>c' s'. parseline buf s = Ok (c', s') \<and> map_cmd (sub buf) c' = c \<and> near buf s' X"
    using p by (simp add: parseline.simps [of buf s])
qed

text \<open>A command in parentheses is read as a block.\<close>

lemma reads0_paren:
  assumes r: "reads3 c" and p: "pr 0 c = LPAR_C # pr 3 c @ [RPAR_C]"
  shows "reads0 c"
  unfolding reads0_def
proof (intro allI impI, elim conjE)
  fix buf s X
  assume n: "near buf s (lstrip (pr 0 c @ X))" and X: "fol (LT_C # GT_C # CLOSERS) X"
  let ?Y = "pr 3 c @ RPAR_C # X"
  have n1: "near buf s (LPAR_C # ?Y)" using n p lstrip_sym [of LPAR_C ?Y] by (simp add: symbols_def)
  obtain s1 where pk: "peek buf s [LPAR_C] = (True, s1)" "near buf s1 (LPAR_C # ?Y)" using near_peek [OF n1, of "[LPAR_C]"] by auto
  obtain s2 where pk2: "peek buf s1 [LPAR_C] = (True, s2)" "near buf s2 (LPAR_C # ?Y)" using near_peek [OF pk(2), of "[LPAR_C]"] by auto
  obtain q eq s3 where g: "gettoken buf s2 = (LPAR_C, q, eq, s3)" "near buf s3 (lstrip ?Y)" using near_sym [OF pk2(2)] by blast
  have "fol [RPAR_C] (RPAR_C # X)" by (simp add: fol_def)
  then obtain c' s4 where l: "parseline buf s3 = Ok (c', s4)" "map_cmd (sub buf) c' = c" "near buf s4 (RPAR_C # X)"
    using r g(2) unfolding reads3_def by blast
  obtain s5 where pk3: "peek buf s4 [RPAR_C] = (True, s5)" "near buf s5 (RPAR_C # X)" using near_peek [OF l(3), of "[RPAR_C]"] by auto
  obtain q2 eq2 s6 where g2: "gettoken buf s5 = (RPAR_C, q2, eq2, s6)" "near buf s6 (lstrip X)" using near_sym [OF pk3(2)] by blast
  have "parseexec buf s = bindR (parseredirs c' buf s6) Ok"
    using pk(1) pk2(1) g(1) l(1) pk3(1) g2(1) by (cases "parseredirs c' buf s6") (simp_all add: parseexec.simps [of buf s] parseblock.simps [of buf s1])
  moreover have "ends_at buf Ok" by (auto simp: ends_at_def)
  ultimately show "\<exists>c' s' K. parseexec buf s = bindR (parseredirs c' buf s') K \<and> map_cmd (sub buf) c' = c \<and> near buf s' (lstrip X) \<and> ends_at buf K"
    using l(2) g2(2) by blast
qed

lemma reads0_Exec:
  assumes ws: "length ws < MAXARGS" "\<forall>w\<in>set ws. word_ok w"
  shows "reads0 (Exec ws)"
  unfolding reads0_def
proof (intro allI impI, elim conjE)
  fix buf s X
  assume n: "near buf s (lstrip (pr 0 (Exec ws) @ X))" and X: "fol (LT_C # GT_C # CLOSERS) X"
  have x: "lstrip X = X" "sep X" using fol_strip [OF X] by (simp_all add: symbols_def)
  let ?Y = "lstrip (concat (map (\<lambda>w. 32 # w) ws) @ X)"
  have n1: "near buf s ?Y" using n by simp
  have "?Y = [] \<or> hd ?Y \<noteq> LPAR_C"
  proof (cases ws)
    case Nil
    then show ?thesis using x X by (auto simp: fol_def)
  next
    case (Cons w l)
    then have "?Y = w @ concat (map (\<lambda>w. 32 # w) l) @ X" "word_ok w" using ws(2) lstrip_word [of w] by (simp_all add: lstrip_blank)
    then show ?thesis by (cases w) (auto simp: word_ok_def wordc_def symbols_def)
  qed
  then obtain s1 where pk: "peek buf s [LPAR_C] = (False, s1)" "near buf s1 ?Y" using near_peek [OF n1, of "[LPAR_C]"] by auto
  obtain ts s' where a: "args_from (Exec []) 0 buf s1 = args_from (Exec ([] @ ts)) (0 + length ws) buf s'" "map (sub buf) ts = ws" "near buf s' (lstrip X)"
    using args_words [OF pk(2) ws(2) _ x(2), of 0 "[]"] ws(1) by auto
  have "parseexec buf s = args_from (Exec []) 0 buf s1"
    using pk(1) by (cases "parseredirs (Exec []) buf s1") (auto simp: parseexec.simps [of buf s] args_from_def)
  also have "\<dots> = bindR (parseredirs (Exec ts) buf s') (\<lambda>(ret1, s1). parse_args ret1 (length ws) buf s1)"
    using a(1) by (simp add: args_from_def)
  finally have "parseexec buf s = bindR (parseredirs (Exec ts) buf s') (\<lambda>(ret1, s1). parse_args ret1 (length ws) buf s1)" .
  moreover have "ends_at buf (\<lambda>(ret1, s1). parse_args ret1 (length ws) buf s1)"
    using args_done by (fastforce simp: ends_at_def)
  ultimately show "\<exists>c' s' K. parseexec buf s = bindR (parseredirs c' buf s') K \<and> map_cmd (sub buf) c' = Exec ws \<and> near buf s' (lstrip X) \<and> ends_at buf K"
    using a(2,3) by (intro exI [of _ "Exec ts"] exI conjI) auto
qed

lemma reads0_Redir:
  assumes r: "reads0 c" and f: "word_ok f" and m: "(m, fd) \<in> {(O_RDONLY, 0), (O_OUT, 1), (O_APP, 1)}"
  shows "reads0 (Redir c f m fd)"
  unfolding reads0_def
proof (intro allI impI, elim conjE)
  fix buf s X
  assume n: "near buf s (lstrip (pr 0 (Redir c f m fd) @ X))" and X: "fol (LT_C # GT_C # CLOSERS) X"
  have sx: "sep X" using fol_strip [OF X] by (simp add: symbols_def)
  let ?Y = "redir_op m @ 32 # f @ X"
  have "fol (LT_C # GT_C # CLOSERS) ?Y" by (simp add: fol_def redir_op_def)
  then obtain c' s' K where p: "parseexec buf s = bindR (parseredirs c' buf s') K" "map_cmd (sub buf) c' = c" "near buf s' (lstrip ?Y)" "ends_at buf K"
    using r n unfolding reads0_def by fastforce
  obtain t s1 where "parseredirs c' buf s' = parseredirs (Redir c' t m fd) buf s1" "sub buf t = f" "near buf s1 (lstrip X)"
    using redirs_one [OF p(3) f sx m] by blast
  then show "\<exists>c' s' K. parseexec buf s = bindR (parseredirs c' buf s') K \<and> map_cmd (sub buf) c' = Redir c f m fd \<and> near buf s' (lstrip X) \<and> ends_at buf K"
    using p(1,2,4) by (intro exI [of _ "Redir c' t m fd"] exI [of _ s1] exI [of _ K]) simp
qed

lemma reads1_Pipe:
  assumes l: "reads0 l" and r: "reads1 r"
  shows "reads1 (PipeC l r)"
  unfolding reads1_def
proof (intro allI impI, elim conjE)
  fix buf s X
  assume n: "near buf s (lstrip (pr 1 (PipeC l r) @ X))" and X: "fol [RPAR_C, AMP_C, SEMI_C] X"
  have "near buf s (lstrip (pr 0 l @ BAR_C # pr 1 r @ X))" using n by (simp add: paren_def)
  moreover have "fol CLOSERS (BAR_C # pr 1 r @ X)" by (simp add: fol_def)
  ultimately obtain c1 s1 where p: "parseexec buf s = Ok (c1, s1)" "map_cmd (sub buf) c1 = l" "near buf s1 (BAR_C # pr 1 r @ X)"
    using reads0_end [OF l] by blast
  obtain s2 where pk: "peek buf s1 [BAR_C] = (True, s2)" "near buf s2 (BAR_C # pr 1 r @ X)" using near_peek [OF p(3), of "[BAR_C]"] by auto
  obtain q eq s3 where g: "gettoken buf s2 = (BAR_C, q, eq, s3)" "near buf s3 (lstrip (pr 1 r @ X))" using near_sym [OF pk(2)] by blast
  obtain c2 s4 where "parsepipe buf s3 = Ok (c2, s4)" "map_cmd (sub buf) c2 = r" "near buf s4 X"
    using r g(2) X unfolding reads1_def by blast
  then show "\<exists>c' s'. parsepipe buf s = Ok (c', s') \<and> map_cmd (sub buf) c' = PipeC l r \<and> near buf s' X"
    using p pk g by (intro exI [of _ "PipeC c1 c2"] exI [of _ s4]) (simp add: parsepipe.simps [of buf s])
qed

lemma reads2_Back:
  assumes c: "reads2 c"
  shows "reads2 (Back c)"
  unfolding reads2_def
proof (intro allI impI, elim conjE)
  fix buf s X
  assume n: "near buf s (lstrip (pr 2 (Back c) @ X))" and X: "fol [RPAR_C, AMP_C, SEMI_C] X"
  have x: "lstrip X = X" using fol_strip [OF X] by (simp add: symbols_def)
  have "near buf s (lstrip (pr 2 c @ AMP_C # X))" using n by (simp add: paren_def)
  moreover have "fol [RPAR_C, AMP_C, SEMI_C] (AMP_C # X)" by (simp add: fol_def)
  ultimately obtain c0 s0 c1 s1 where p: "parsepipe buf s = Ok (c0, s0)" "parse_backs c0 buf s0 = parse_backs c1 buf s1" "map_cmd (sub buf) c1 = c" "near buf s1 (AMP_C # X)"
    using c unfolding reads2_def by blast
  obtain s2 where pk: "peek buf s1 [AMP_C] = (True, s2)" "near buf s2 (AMP_C # X)" using near_peek [OF p(4), of "[AMP_C]"] by auto
  obtain q eq s3 where g: "gettoken buf s2 = (AMP_C, q, eq, s3)" "near buf s3 X" using near_sym [OF pk(2)] x by fastforce
  have "parse_backs c1 buf s1 = parse_backs (Back c1) buf s3" using pk g by (simp add: parse_backs.simps [of c1 buf s1])
  then show "\<exists>c0 s0 c' s'. parsepipe buf s = Ok (c0, s0) \<and> parse_backs c0 buf s0 = parse_backs c' buf s' \<and> map_cmd (sub buf) c' = Back c \<and> near buf s' X"
    using p g by (intro exI [of _ c0] exI [of _ s0] exI [of _ "Back c1"] exI [of _ s3]) simp
qed

lemma reads3_List:
  assumes l: "reads2 l" and r: "reads3 r"
  shows "reads3 (ListC l r)"
  unfolding reads3_def
proof (intro allI impI, elim conjE)
  fix buf s X
  assume n: "near buf s (lstrip (pr 3 (ListC l r) @ X))" and X: "fol [RPAR_C] X"
  have "near buf s (lstrip (pr 2 l @ SEMI_C # pr 3 r @ X))" using n by (simp add: paren_def)
  moreover have "fol [RPAR_C, SEMI_C] (SEMI_C # pr 3 r @ X)" by (simp add: fol_def)
  ultimately obtain c0 s0 c1 s1 where p: "parsepipe buf s = Ok (c0, s0)" "parse_backs c0 buf s0 = (c1, s1)" "map_cmd (sub buf) c1 = l" "near buf s1 (SEMI_C # pr 3 r @ X)"
    using reads2_end [OF l] by blast
  obtain s2 where pk: "peek buf s1 [SEMI_C] = (True, s2)" "near buf s2 (SEMI_C # pr 3 r @ X)" using near_peek [OF p(4), of "[SEMI_C]"] by auto
  obtain q eq s3 where g: "gettoken buf s2 = (SEMI_C, q, eq, s3)" "near buf s3 (lstrip (pr 3 r @ X))" using near_sym [OF pk(2)] by blast
  obtain c2 s4 where "parseline buf s3 = Ok (c2, s4)" "map_cmd (sub buf) c2 = r" "near buf s4 X"
    using r g(2) X unfolding reads3_def by blast
  then show "\<exists>c' s'. parseline buf s = Ok (c', s') \<and> map_cmd (sub buf) c' = ListC l r \<and> near buf s' X"
    using p pk g by (intro exI [of _ "ListC c1 c2"] exI [of _ s4]) (simp add: parseline.simps [of buf s])
qed

lemma reads_all: "wf_cmd c \<Longrightarrow> reads0 c \<and> reads1 c \<and> reads2 c \<and> reads3 c"
proof (induction c)
  case (Exec ws)
  then have "reads0 (Exec ws)" using reads0_Exec by simp
  then show ?case using reads1_up reads2_up reads3_up by simp
next
  case (Redir c f m fd)
  then have "reads0 (Redir c f m fd)" using reads0_Redir by simp
  then show ?case using reads1_up reads2_up reads3_up by simp
next
  case (PipeC l r)
  then have "reads1 (PipeC l r)" using reads1_Pipe by simp
  then have "reads1 (PipeC l r) \<and> reads2 (PipeC l r) \<and> reads3 (PipeC l r)" using reads2_up reads3_up by (simp add: paren_def)
  then show ?case using reads0_paren [of "PipeC l r"] by (simp add: paren_def)
next
  case (ListC l r)
  then have "reads3 (ListC l r)" using reads3_List by simp
  then have "reads0 (ListC l r)" "reads3 (ListC l r)" using reads0_paren [of "ListC l r"] by (simp_all add: paren_def)
  then show ?case using reads1_up [of "ListC l r"] reads2_up [of "ListC l r"] by (simp add: paren_def)
next
  case (Back c)
  then have "reads2 (Back c)" using reads2_Back by simp
  then have r: "reads2 (Back c)" "reads3 (Back c)" using reads3_up [of "Back c"] by (simp_all add: paren_def)
  then have "reads0 (Back c)" using reads0_paren [of "Back c"] by (simp add: paren_def)
  then show ?case using r reads1_up [of "Back c"] by (simp add: paren_def)
qed

lemma words_no_nul: "\<forall>w\<in>set ws. word_ok w \<Longrightarrow> 0 \<notin> set (concat (map (\<lambda>w. 32 # w) ws))"
  by (auto simp: word_ok_def wordc_def)

lemma pr_no_nul: "wf_cmd c \<Longrightarrow> 0 \<notin> set (pr lv c)"
proof (induction c arbitrary: lv)
  case (Exec ws)
  then show ?case using words_no_nul by simp
qed (auto simp: paren_def redir_op_def word_ok_def wordc_def)

text \<open>
  C13: The parser reads back every command. Any tree of the shell's commands - words of ordinary
  characters, at most nine to a command, redirections in any number, pipelines, lists and background
  commands nested in any way - printed with parentheses where its place in the grammar needs them, is
  parsed without an error into a tree of the same shape, and its strings, read from the line after
  \<open>nulterminate\<close> has written its NULs into it, are those of the command.
\<close>

theorem sh_parse_print:
  assumes "wf_cmd c"
  shows "\<exists>c' buf'. parsecmd (pr 3 c) = Ok (c', buf') \<and> map_cmd (cstr buf') c' = c"
proof -
  let ?buf = "pr 3 c"
  have "reads3 c" using reads_all [OF assms] by simp
  moreover have "near ?buf 0 (lstrip (pr 3 c @ []))" by (simp add: near_def)
  moreover have "fol [RPAR_C] []" by (simp add: fol_def)
  ultimately obtain c' s' where p: "parseline ?buf 0 = Ok (c', s')" "map_cmd (sub ?buf) c' = c" "near ?buf s' []"
    unfolding reads3_def by blast
  have "skip_ws ?buf s' = length ?buf" using near_skip [OF p(3)] by (auto simp: near_def)
  then have ok: "parsecmd ?buf = Ok (c', nulterminate c' ?buf)" using p(1) by (simp add: parsecmd_def peek_def Let_def)
  then show ?thesis using parsecmd_strings [OF pr_no_nul [OF assms] ok] p(2) by auto
qed

text \<open>\<^verbatim>\<open>(a < i | b c >> o) &; d\<close>\<close>

theorem sh_parse_print_witness:
  "\<exists>c' buf'. parsecmd (pr 3 (ListC (Back (PipeC (Redir (Exec [[97]]) [105] O_RDONLY 0) (Redir (Exec [[98], [99]]) [111] O_APP 1))) (Exec [[100]]))) = Ok (c', buf') \<and>
     map_cmd (cstr buf') c' = ListC (Back (PipeC (Redir (Exec [[97]]) [105] O_RDONLY 0) (Redir (Exec [[98], [99]]) [111] O_APP 1))) (Exec [[100]])"
  by (rule sh_parse_print) (simp add: word_ok_def wordc_def whitespace_def symbols_def MAXARGS_def)

end
