(* ===== verification/ShellRun.thy ===== *)
theory ShellRun
  imports Shell
begin

text \<open>
  What the shell does with a command, \<open>runcmd\<close> of \<^verbatim>\<open>user/sh.c\<close>, and with its input, \<open>getcmd\<close> and \<open>main\<close>. A
  process is named by its place in the tree of forks below the shell: the child number \<open>i\<close> of process
  \<open>pa\<close> is \<open>pa @ [i]\<close>. Which forks, opens and execs succeed is a parameter. The descriptor calls are
  those of \<^verbatim>\<open>kernel/sysfile.c\<close>, seen by one process: a new descriptor is the lowest free one.
\<close>

section \<open>Descriptors\<close>

datatype obj = Inherited nat | OpenFile "byte list" nat | PipeRd "nat list" | PipeWr "nat list"

type_synonym fds = "nat \<Rightarrow> obj option"

definition low_fd :: "fds \<Rightarrow> nat option" where
  "low_fd d = find (\<lambda>i. d i = None) [0..<NOFILE]"

definition fd_close :: "nat \<Rightarrow> fds \<Rightarrow> fds" where
  "fd_close fd d = d(fd := None)"

definition fd_put :: "obj \<Rightarrow> fds \<Rightarrow> (nat \<times> fds) option" where
  "fd_put x d = (case low_fd d of None \<Rightarrow> None | Some i \<Rightarrow> Some (i, d(i := Some x)))"

text \<open>The shell does not look at what \<open>dup\<close> returns.\<close>

definition fd_dup :: "nat \<Rightarrow> fds \<Rightarrow> fds" where
  "fd_dup fd d = (case d fd of None \<Rightarrow> d | Some x \<Rightarrow> (case fd_put x d of None \<Rightarrow> d | Some (_, d1) \<Rightarrow> d1))"

definition fd_pipe :: "nat list \<Rightarrow> fds \<Rightarrow> (nat \<times> nat \<times> fds) option" where
  "fd_pipe pa d =
     (case fd_put (PipeRd pa) d of None \<Rightarrow> None
      | Some (p0, d1) \<Rightarrow> (case fd_put (PipeWr pa) d1 of None \<Rightarrow> None | Some (p1, d2) \<Rightarrow> Some (p0, p1, d2)))"

section \<open>Running a command\<close>

record env =
  can_fork :: "nat list \<Rightarrow> bool"
  can_open :: "byte list \<Rightarrow> nat \<Rightarrow> bool"
  can_exec :: "byte list list \<Rightarrow> bool"

text \<open>What becomes of a process: it waits for its children, it runs a program, or it exits.\<close>

datatype event = Waits fds | Runs "byte list list" fds | Exits nat

text \<open>Process \<open>pa\<close>, which has forked \<open>n\<close> times, calls \<open>runcmd\<close>; the call does not return.\<close>

fun runcmd :: "env \<Rightarrow> nat list \<Rightarrow> nat \<Rightarrow> byte list cmd \<Rightarrow> fds \<Rightarrow> (nat list \<times> event) list" where
  "runcmd e pa n (Exec argv) d =
     (if argv = [] then [(pa, Exits 1)]
      else if can_exec e argv then [(pa, Runs argv d)] else [(pa, Exits 0)])"
| "runcmd e pa n (Redir c f m fd) d =
     (if can_open e f m
      then (case fd_put (OpenFile f m) (fd_close fd d) of
              None \<Rightarrow> [(pa, Exits 1)]
            | Some (_, d1) \<Rightarrow> runcmd e pa n c d1)
      else [(pa, Exits 1)])"
| "runcmd e pa n (ListC l r) d =
     (if can_fork e (pa @ [n])
      then runcmd e (pa @ [n]) 0 l d @ (pa, Waits d) # runcmd e pa (n + 1) r d
      else [(pa, Exits 1)])"
| "runcmd e pa n (PipeC l r) d =
     (case fd_pipe pa d of
        None \<Rightarrow> [(pa, Exits 1)]
      | Some (p0, p1, d1) \<Rightarrow>
          if \<not> can_fork e (pa @ [n]) then [(pa, Exits 1)]
          else let left = runcmd e (pa @ [n]) 0 l (fd_close p1 (fd_close p0 (fd_dup p1 (fd_close 1 d1)))) in
          if \<not> can_fork e (pa @ [n + 1]) then left @ [(pa, Exits 1)]
          else let right = runcmd e (pa @ [n + 1]) 0 r (fd_close p1 (fd_close p0 (fd_dup p0 (fd_close 0 d1))))
          in left @ right @ [(pa, Waits (fd_close p1 (fd_close p0 d1))), (pa, Exits 0)])"
| "runcmd e pa n (Back c) d =
     (if can_fork e (pa @ [n]) then runcmd e (pa @ [n]) 0 c d @ [(pa, Exits 0)] else [(pa, Exits 1)])"

section \<open>The plumbing meant\<close>

text \<open>
  A redirection replaces one descriptor, a pipeline gives its left side the write end as standard
  output and its right side the read end as standard input, and changes nothing else.
\<close>

fun wired :: "env \<Rightarrow> nat list \<Rightarrow> nat \<Rightarrow> byte list cmd \<Rightarrow> fds \<Rightarrow> (nat list \<times> event) list" where
  "wired e pa n (Exec argv) d =
     [(pa, if argv = [] then Exits 1 else if can_exec e argv then Runs argv d else Exits 0)]"
| "wired e pa n (Redir c f m fd) d =
     (if can_open e f m then wired e pa n c (d(fd := Some (OpenFile f m))) else [(pa, Exits 1)])"
| "wired e pa n (ListC l r) d =
     (if can_fork e (pa @ [n]) then wired e (pa @ [n]) 0 l d @ (pa, Waits d) # wired e pa (n + 1) r d else [(pa, Exits 1)])"
| "wired e pa n (PipeC l r) d =
     (if can_fork e (pa @ [n])
      then wired e (pa @ [n]) 0 l (d(1 := Some (PipeWr pa))) @
        (if can_fork e (pa @ [n + 1]) then wired e (pa @ [n + 1]) 0 r (d(0 := Some (PipeRd pa))) @ [(pa, Waits d), (pa, Exits 0)]
         else [(pa, Exits 1)])
      else [(pa, Exits 1)])"
| "wired e pa n (Back c) d =
     (if can_fork e (pa @ [n]) then wired e (pa @ [n]) 0 c d @ [(pa, Exits 0)] else [(pa, Exits 1)])"

text \<open>The three standard descriptors and no others.\<close>

definition std :: "fds \<Rightarrow> bool" where
  "std d = (\<forall>i. (d i \<noteq> None) = (i < 3))"

fun redirs_std :: "byte list cmd \<Rightarrow> bool" where
  "redirs_std (Exec argv) = True"
| "redirs_std (Redir c f m fd) = (redirs_std c \<and> fd < 3)"
| "redirs_std (ListC l r) = (redirs_std l \<and> redirs_std r)"
| "redirs_std (PipeC l r) = (redirs_std l \<and> redirs_std r)"
| "redirs_std (Back c) = redirs_std c"

lemma low_fd_eq:
  assumes "i < NOFILE" "d i = None" "\<And>j. j < i \<Longrightarrow> d j \<noteq> None"
  shows "low_fd d = Some i"
proof -
  have "[0..<NOFILE] = [0..<i] @ [i..<NOFILE]" using assms(1) upt_add_eq_append [of 0 i "NOFILE - i"] by simp
  also have "[i..<NOFILE] = i # [i + 1..<NOFILE]" using assms(1) by (simp add: upt_conv_Cons)
  finally have "[0..<NOFILE] = [0..<i] @ i # [i + 1..<NOFILE]" .
  moreover have "find P (xs @ x # ys) = Some x" if "\<forall>y\<in>set xs. \<not> P y" "P x" for P and xs ys :: "nat list" and x
    using that by (induction xs) auto
  from this [of "[0..<i]" "\<lambda>i. d i = None" i "[i + 1..<NOFILE]"] have "find (\<lambda>i. d i = None) ([0..<i] @ i # [i + 1..<NOFILE]) = Some i"
    using assms(2,3) by simp
  ultimately show ?thesis by (simp add: low_fd_def)
qed

lemma stdD: "std d \<Longrightarrow> 3 \<le> i \<Longrightarrow> d i = None" "std d \<Longrightarrow> i < 3 \<Longrightarrow> d i \<noteq> None"
  by (auto simp: std_def simp flip: not_less)

lemma std_close: "std d \<Longrightarrow> i < 3 \<Longrightarrow> low_fd (fd_close i d) = Some i"
  by (rule low_fd_eq) (auto simp: fd_close_def std_def NOFILE_def)

lemma std_upd: "std d \<Longrightarrow> i < 3 \<Longrightarrow> std (d(i := Some x))"
  by (auto simp: std_def)

lemma std_reopen: "std d \<Longrightarrow> i < 3 \<Longrightarrow> fd_put x (fd_close i d) = Some (i, d(i := Some x))"
  using std_close [of d i] by (auto simp: fd_put_def fd_close_def)

lemma std_pipe: "std d \<Longrightarrow> fd_pipe pa d = Some (3, 4, d(3 := Some (PipeRd pa), 4 := Some (PipeWr pa)))"
proof -
  assume s: "std d"
  have "low_fd d = Some 3" by (rule low_fd_eq) (use stdD [OF s] in \<open>auto simp: NOFILE_def\<close>)
  moreover have "low_fd (d(3 := Some (PipeRd pa))) = Some 4" by (rule low_fd_eq) (use stdD [OF s] in \<open>auto simp: NOFILE_def less_Suc_eq numeral_eq_Suc\<close>)
  ultimately show ?thesis by (simp add: fd_pipe_def fd_put_def)
qed

text \<open>Moving an end of the pipe to a standard descriptor and closing both ends.\<close>

lemma std_move:
  assumes s: "std d" and i: "i < 3" and p: "p = 3 \<or> p = 4"
  shows "fd_close 4 (fd_close 3 (fd_dup p (fd_close i (d(3 := Some x, 4 := Some y))))) = d(i := Some (if p = 3 then x else y))"
proof -
  let ?d = "fd_close i (d(3 := Some x, 4 := Some y))"
  have n: "d 3 = None" "d 4 = None" using stdD(1) [OF s] by simp_all
  have "low_fd ?d = Some i" by (rule low_fd_eq) (use stdD [OF s] i in \<open>auto simp: fd_close_def NOFILE_def\<close>)
  moreover have "?d p = Some (if p = 3 then x else y)" using p i by (auto simp: fd_close_def)
  ultimately have "fd_dup p ?d = ?d(i := Some (if p = 3 then x else y))" by (simp add: fd_dup_def fd_put_def)
  then show ?thesis using n i by (auto simp: fd_close_def fun_eq_iff)
qed

lemma runcmd_wired: "std d \<Longrightarrow> redirs_std c \<Longrightarrow> runcmd e pa n c d = wired e pa n c d"
proof (induction c arbitrary: pa n d)
  case (Redir c f m fd)
  then have "fd < 3" "redirs_std c" by simp_all
  then show ?case
    using Redir.IH [of "d(fd := Some (OpenFile f m))"] Redir.prems(1) std_reopen [of d fd] std_upd [of d fd "OpenFile f m"] by (simp del: fun_upd_apply)
next
  case (PipeC l r)
  have n: "d 3 = None" "d 4 = None" using stdD(1) [OF PipeC.prems(1)] by simp_all
  have "fd_close 4 (fd_close 3 (d(3 := Some x, 4 := Some y))) = d" for x y using n by (auto simp: fd_close_def fun_eq_iff)
  moreover have "runcmd e (pa @ [n]) 0 l (d(1 := Some (PipeWr pa))) = wired e (pa @ [n]) 0 l (d(1 := Some (PipeWr pa)))"
    by (rule PipeC.IH(1) [OF std_upd]) (use PipeC.prems in simp_all)
  moreover have "runcmd e (pa @ [n + 1]) 0 r (d(0 := Some (PipeRd pa))) = wired e (pa @ [n + 1]) 0 r (d(0 := Some (PipeRd pa)))"
    by (rule PipeC.IH(2) [OF std_upd]) (use PipeC.prems in simp_all)
  ultimately show ?case
    using std_pipe [of d pa] std_move [OF PipeC.prems(1), of 1 4] std_move [OF PipeC.prems(1), of 0 3] PipeC.prems
    by (simp add: Let_def del: fun_upd_apply)
qed auto

fun event_fds :: "event \<Rightarrow> fds option" where
  "event_fds (Waits d) = Some d"
| "event_fds (Runs argv d) = Some d"
| "event_fds (Exits st) = None"

lemma wired_std: "std d \<Longrightarrow> redirs_std c \<Longrightarrow> (q, ev) \<in> set (wired e pa n c d) \<Longrightarrow> event_fds ev = Some d' \<Longrightarrow> std d'"
proof (induction c arbitrary: pa n d)
  case (Exec ws)
  then show ?case by (auto split: if_splits)
next
  case (Redir c f m fd)
  then show ?case using std_upd [of d fd] by (auto split: if_splits)
next
  case (PipeC l r)
  then show ?case using std_upd [OF PipeC.prems(1), of 0 "PipeRd pa"] std_upd [OF PipeC.prems(1), of 1 "PipeWr pa"] by (auto split: if_splits)
qed (auto split: if_splits)

section \<open>Reading commands\<close>

text \<open>\<open>gets\<close>: up to \<open>max - 1\<close> bytes, up to and with the end of a line; what is left of the input.\<close>

fun gets_loop :: "nat \<Rightarrow> byte list \<Rightarrow> byte list \<times> byte list" where
  "gets_loop (Suc k) (c # inp) =
     (if c = 10 \<or> c = 13 then ([c], inp) else (case gets_loop k inp of (l, r) \<Rightarrow> (c # l, r)))"
| "gets_loop k inp = ([], inp)"

definition gets :: "nat \<Rightarrow> byte list \<Rightarrow> byte list \<times> byte list" where
  "gets max_n inp = gets_loop (max_n - 1) inp"

text \<open>The line as a C string, or the end of the input.\<close>

definition getcmd :: "nat \<Rightarrow> byte list \<Rightarrow> (byte list \<times> byte list) option" where
  "getcmd nbuf inp =
     (case gets nbuf inp of (l, r) \<Rightarrow>
        let s = takeWhile (\<lambda>c. c \<noteq> 0) l in if s = [] then None else Some (s, r))"

datatype action = Cd "byte list" | Run "(tok cmd \<times> byte list) result"

definition sh_line :: "byte list \<Rightarrow> action list" where
  "sh_line buf =
     (let cmd = dropWhile (\<lambda>c. c = 32 \<or> c = 9) buf in
      if cmd \<noteq> [] \<and> hd cmd = 10 then []
      else if take 3 cmd = [99, 100, 32] then [Cd (drop 3 (butlast cmd))]
      else [Run (parsecmd cmd)])"

lemma gets_shorter: "gets_loop k inp = (l, r) \<Longrightarrow> length l + length r = length inp"
  by (induction k inp arbitrary: l r rule: gets_loop.induct) (auto split: if_splits prod.splits)

function sh_main :: "byte list \<Rightarrow> action list" where
  "sh_main inp = (case getcmd 100 inp of None \<Rightarrow> [] | Some (s, r) \<Rightarrow> sh_line s @ sh_main r)"
  by pat_completeness auto

termination
proof (relation "measure length", goal_cases)
  case (2 inp x s r)
  obtain l r' where g: "gets_loop 99 inp = (l, r')" by fastforce
  then show ?case using 2 gets_shorter [OF g] by (cases l) (auto simp: getcmd_def gets_def Let_def split: if_splits)
qed simp

declare sh_main.simps [simp del]

lemma gets_line:
  "length l \<le> k \<Longrightarrow> l = b @ [10] \<Longrightarrow> 10 \<notin> set b \<Longrightarrow> 13 \<notin> set b \<Longrightarrow> gets_loop k (l @ inp) = (l, inp)"
proof (induction b arbitrary: l k)
  case Nil
  then show ?case by (cases k) auto
next
  case (Cons c b)
  then show ?case using Cons.IH [of "b @ [10]" "k - 1"] by (cases k) auto
qed

text \<open>A line the shell can take: no longer than its buffer, ended by a newline.\<close>

definition line_ok :: "byte list \<Rightarrow> bool" where
  "line_ok l = (length l \<le> 99 \<and> (\<exists>b. l = b @ [10] \<and> set b \<inter> {0, 10, 13} = {}))"

lemma main_line:
  assumes "line_ok l"
  shows "sh_main (l @ inp) = sh_line l @ sh_main inp"
proof -
  obtain b where b: "l = b @ [10]" "set b \<inter> {0, 10, 13} = {}" "length l \<le> 99" using assms by (auto simp: line_ok_def)
  have "gets_loop 99 (l @ inp) = (l, inp)" by (rule gets_line [OF b(3,1)]) (use b(2) in auto)
  moreover have "takeWhile (\<lambda>c. c \<noteq> 0) l = l" using b by (intro takeWhile_eq_all_conv [THEN iffD2]) auto
  ultimately have "getcmd 100 (l @ inp) = Some (l, inp)" using b(1) by (simp add: getcmd_def gets_def)
  then show ?thesis by (simp add: sh_main.simps [of "l @ inp"])
qed

lemma main_end: "sh_main [] = []"
  by (simp add: sh_main.simps [of "[]"] getcmd_def gets_def)

text \<open>
  The shell takes its input line by line: for lines that fit its buffer it does for each, in
  order, what that line alone says - nothing for a blank line, a change of its own directory, or a
  process that parses and runs the command - and it stops at the end of the input.
\<close>

theorem sh_takes_lines:
  assumes "\<forall>l\<in>set ls. line_ok l"
  shows "sh_main (concat ls) = concat (map sh_line ls)"
  using assms by (induction ls) (simp_all add: main_line main_end)

theorem sh_takes_lines_witness:
  "sh_main [32, 10, 99, 100, 32, 120, 10] = [Cd [120]]"
  using sh_takes_lines [of "[[32, 10], [99, 100, 32, 120, 10]]"]
  by (auto simp: line_ok_def sh_line_def)

text \<open>
  C19: The shell wires commands as meant. Started with the three standard descriptors only, and
  whatever forks, opens and execs fail, \<open>runcmd\<close> gives every program the descriptors the command says:
  a redirection replaces one standard descriptor, a pipeline connects standard output of its left
  side with standard input of its right side. No process, waiting parents included, keeps any other
  descriptor, so readers of a pipe see its end when the writers are gone.
\<close>

theorem sh_plumbing:
  assumes "std d" "redirs_std c"
  shows "runcmd e pa n c d = wired e pa n c d \<and>
    (\<forall>q ev d'. (q, ev) \<in> set (runcmd e pa n c d) \<and> event_fds ev = Some d' \<longrightarrow> std d')"
  using runcmd_wired [OF assms] wired_std [OF assms] by metis

theorem sh_plumbing_witness:
  "runcmd \<lparr>can_fork = \<lambda>_. True, can_open = \<lambda>_ _. True, can_exec = \<lambda>_. True\<rparr> [] 0
     (PipeC (Exec [[97]]) (Redir (Exec [[98]]) [111] O_OUT 1)) (\<lambda>i. if i < 3 then Some (Inherited i) else None) =
   [([0], Runs [[97]] ((\<lambda>i. if i < 3 then Some (Inherited i) else None)(1 := Some (PipeWr [])))),
    ([1], Runs [[98]] ((\<lambda>i. if i < 3 then Some (Inherited i) else None)(0 := Some (PipeRd []), 1 := Some (OpenFile [111] O_OUT)))),
    ([], Waits (\<lambda>i. if i < 3 then Some (Inherited i) else None)), ([], Exits 0)]"
proof -
  have "std (\<lambda>i. if i < 3 then Some (Inherited i) else None)" by (simp add: std_def)
  from sh_plumbing [OF this, of "PipeC (Exec [[97]]) (Redir (Exec [[98]]) [111] O_OUT 1)"
      "\<lparr>can_fork = \<lambda>_. True, can_open = \<lambda>_ _. True, can_exec = \<lambda>_. True\<rparr>" "[]" 0]
  show ?thesis by simp
qed

end
