(* ===== verification/Virtio.thy ===== *)
theory Virtio
  imports Prelude "HOL-Library.Multiset"
begin

text \<open>
  The disk driver, \<^verbatim>\<open>kernel/virtio_disk.c\<close>. The queue memory is shared with the device; an address
  written into a descriptor is a value of a type of its own that says what it points to. Buffers of
  the cache are numbers; \<open>bdisk\<close> is their field \<open>disk\<close>, \<open>bufs\<close> their \<open>data\<close>. \<open>virtio_disk_rw\<close> is cut where it sleeps: while no descriptors are free, and
  until the interrupt handler has marked its buffer. The lock is held in between.
\<close>

section \<open>State\<close>

text \<open>The arrays, all of \<open>NUM\<close> entries, are functions of the index.\<close>

definition NUM :: nat where "NUM = 8"

datatype vaddr = Null | AOps nat | AData nat | AStatus nat

record virtq_desc =
  d_addr :: vaddr
  d_len :: nat
  d_flags :: u16
  d_next :: nat

definition F_NEXT :: u16 where "F_NEXT = 1"
definition F_WRITE :: u16 where "F_WRITE = 2"

record vblk_req =
  r_type :: u32
  r_reserved :: u32
  r_sector :: u64

record vdisk =
  desc :: "nat \<Rightarrow> virtq_desc"
  avail_idx :: u16
  avail_ring :: "nat \<Rightarrow> nat"
  uidx :: u16
  used_ring :: "nat \<Rightarrow> nat"
  vfree :: "nat \<Rightarrow> bool"
  used_idx :: u16
  info_b :: "nat \<Rightarrow> nat option"
  info_status :: "nat \<Rightarrow> byte"
  ops :: "nat \<Rightarrow> vblk_req"
  bdisk :: "nat \<Rightarrow> bool"
  bufs :: "nat \<Rightarrow> byte list"

definition no_desc :: virtq_desc where
  "no_desc = \<lparr>d_addr = Null, d_len = 0, d_flags = 0, d_next = 0\<rparr>"

section \<open>Descriptors\<close>

definition alloc_desc :: "vdisk \<Rightarrow> nat option \<times> vdisk" where
  "alloc_desc st =
     (case find (vfree st) [0..<NUM] of
        None \<Rightarrow> (None, st)
      | Some i \<Rightarrow> (Some i, st\<lparr>vfree := (vfree st)(i := False)\<rparr>))"

definition free_desc :: "nat \<Rightarrow> vdisk \<Rightarrow> vdisk result" where
  "free_desc i st =
     (if i \<ge> NUM then Panic ''free_desc 1''
      else if vfree st i then Panic ''free_desc 2''
      else Ok (st\<lparr>desc := (desc st)(i := no_desc), vfree := (vfree st)(i := True)\<rparr>))"

text \<open>Each turn frees a descriptor that was in use, so the loop ends, at the latest with a panic.\<close>

definition in_use :: "vdisk \<Rightarrow> nat" where
  "in_use st = card {i. i < NUM \<and> \<not> vfree st i}"

lemma free_desc_less:
  assumes "free_desc i st = Ok st'"
  shows "in_use st' < in_use st"
proof -
  have i: "i < NUM" "\<not> vfree st i" "vfree st' = (vfree st)(i := True)"
    using assms(1) by (auto simp: free_desc_def split: if_splits)
  then have "{j. j < NUM \<and> \<not> vfree st' j} = {j. j < NUM \<and> \<not> vfree st j} - {i}" by auto
  moreover have "card ({j. j < NUM \<and> \<not> vfree st j} - {i}) < card {j. j < NUM \<and> \<not> vfree st j}"
    by (rule card_Diff1_less) (use i in simp_all)
  ultimately show ?thesis by (simp add: in_use_def)
qed

function free_chain :: "nat \<Rightarrow> vdisk \<Rightarrow> vdisk result" where
  "free_chain i st =
     (let flag = d_flags (desc st i);
          nxt = d_next (desc st i)
      in case free_desc i st of
           Panic m \<Rightarrow> Panic m
         | Ok st1 \<Rightarrow> if flag AND F_NEXT \<noteq> 0 then free_chain nxt st1 else Ok st1)"
  by pat_completeness auto

termination
  by (relation "measure (\<lambda>(i, st). in_use st)") (auto dest: free_desc_less)

declare free_chain.simps [simp del]

definition alloc3_desc :: "vdisk \<Rightarrow> ((nat \<times> nat \<times> nat) option \<times> vdisk) result" where
  "alloc3_desc st =
     (case alloc_desc st of
        (None, st1) \<Rightarrow> Ok (None, st1)
      | (Some i0, st1) \<Rightarrow>
          (case alloc_desc st1 of
             (None, st2) \<Rightarrow> bindR (free_desc i0 st2) (\<lambda>st3. Ok (None, st3))
           | (Some i1, st2) \<Rightarrow>
               (case alloc_desc st2 of
                  (None, st3) \<Rightarrow> bindR (free_desc i0 st3) (\<lambda>st4. bindR (free_desc i1 st4) (\<lambda>st5. Ok (None, st5)))
                | (Some i2, st3) \<Rightarrow> Ok (Some (i0, i1, i2), st3))))"

section \<open>Requests\<close>

text \<open>\<open>b->blockno * (BSIZE / 512)\<close> is computed in 32 bits.\<close>

definition sector_of :: "u32 \<Rightarrow> u64" where
  "sector_of bno = ucast (bno * of_nat (BSIZE div 512))"

definition rw_submit :: "nat \<Rightarrow> u32 \<Rightarrow> bool \<Rightarrow> nat \<Rightarrow> nat \<Rightarrow> nat \<Rightarrow> vdisk \<Rightarrow> vdisk" where
  "rw_submit b bno wr i0 i1 i2 st = st\<lparr>
     ops := (ops st)(i0 := \<lparr>r_type = (if wr then 1 else 0), r_reserved = 0, r_sector = sector_of bno\<rparr>),
     desc := (desc st)(i0 := \<lparr>d_addr = AOps i0, d_len = 16, d_flags = F_NEXT, d_next = i1\<rparr>,
                       i1 := \<lparr>d_addr = AData b, d_len = BSIZE, d_flags = (if wr then 0 else F_WRITE) OR F_NEXT, d_next = i2\<rparr>,
                       i2 := \<lparr>d_addr = AStatus i0, d_len = 1, d_flags = F_WRITE, d_next = 0\<rparr>),
     info_status := (info_status st)(i0 := 0xff),
     bdisk := (bdisk st)(b := True),
     info_b := (info_b st)(i0 := Some b),
     avail_ring := (avail_ring st)(unat (avail_idx st) mod NUM := i0),
     avail_idx := avail_idx st + 1\<rparr>"

text \<open>Up to the wait for the interrupt; \<open>None\<close> when it sleeps for descriptors and will try again.\<close>

definition rw_try :: "nat \<Rightarrow> u32 \<Rightarrow> bool \<Rightarrow> vdisk \<Rightarrow> ((nat \<times> nat \<times> nat) option \<times> vdisk) result" where
  "rw_try b bno wr st =
     bindR (alloc3_desc st) (\<lambda>(r, st1).
       case r of
         None \<Rightarrow> Ok (None, st1)
       | Some (i0, i1, i2) \<Rightarrow> Ok (Some (i0, i1, i2), rw_submit b bno wr i0 i1 i2 st1))"

text \<open>After the wait.\<close>

definition rw_finish :: "nat \<Rightarrow> vdisk \<Rightarrow> vdisk result" where
  "rw_finish i0 st = free_chain i0 (st\<lparr>info_b := (info_b st)(i0 := None)\<rparr>)"

lemma idx_nearer: "a \<noteq> (b :: u16) \<Longrightarrow> unat (b - (a + 1)) < unat (b - a)"
proof -
  assume "a \<noteq> b"
  then have "b - a \<noteq> 0" by simp
  then have "unat (b - a - 1) < unat (b - a)" using unat_minus_one [of "b - a"] unat_gt_0 [of "b - a"] by simp
  then show ?thesis by (simp add: diff_diff_eq)
qed

text \<open>The interrupt handler. A null \<open>info[id].b\<close> would be written through.\<close>

function virtio_disk_intr :: "vdisk \<Rightarrow> vdisk result" where
  "virtio_disk_intr st =
     (if used_idx st = uidx st then Ok st
      else let i = used_ring st (unat (used_idx st) mod NUM) in
           if info_status st i \<noteq> 0 then Panic ''virtio_disk_intr status''
           else case info_b st i of
                  None \<Rightarrow> Panic ''null buffer''
                | Some b \<Rightarrow> virtio_disk_intr (st\<lparr>bdisk := (bdisk st)(b := False), used_idx := used_idx st + 1\<rparr>))"
  by pat_completeness auto

termination
  by (relation "measure (\<lambda>st. unat (uidx st - used_idx st))") (auto intro: idx_nearer)

declare virtio_disk_intr.simps [simp del]

section \<open>Finding the device\<close>

datatype vreg = MAGIC_VALUE | VERSION | DEVICE_ID | VENDOR_ID | DEVICE_FEATURES | DRIVER_FEATURES | QUEUE_SEL | QUEUE_NUM_MAX
  | QUEUE_NUM | QUEUE_READY | STATUS | QUEUE_DESC_LOW | QUEUE_DESC_HIGH | DRIVER_DESC_LOW | DRIVER_DESC_HIGH
  | DEVICE_DESC_LOW | DEVICE_DESC_HIGH

text \<open>The feature bits the driver does not take.\<close>

definition refused :: "nat list" where "refused = [5, 7, 11, 12, 27, 29, 28]"

definition wanted_features :: "u32 \<Rightarrow> u32" where
  "wanted_features f = ucast (fold (\<lambda>k (x :: u64). x AND NOT (push_bit k 1)) refused (ucast f))"

text \<open>
  What the device answers is a parameter: \<open>rd\<close> for its registers, \<open>ack\<close> for the status read back. The
  three pages come from \<open>kalloc\<close>, 0 when it has none. The result is the registers written, in order,
  and the queue as the driver sees it.
\<close>

definition virtio_disk_init :: "(vreg \<Rightarrow> u32) \<Rightarrow> u32 \<Rightarrow> u64 \<Rightarrow> u64 \<Rightarrow> u64 \<Rightarrow> vdisk \<Rightarrow> ((vreg \<times> u32) list \<times> vdisk) result" where
  "virtio_disk_init rd ack pd pa pu st =
     (if rd MAGIC_VALUE \<noteq> 0x74726976 \<or> rd VERSION \<noteq> 2 \<or> rd DEVICE_ID \<noteq> 2 \<or> rd VENDOR_ID \<noteq> 0x554d4551
      then Panic ''could not find virtio disk''
      else if ack AND 8 = 0 then Panic ''virtio disk FEATURES_OK unset''
      else if rd QUEUE_READY \<noteq> 0 then Panic ''virtio disk should not be ready''
      else if rd QUEUE_NUM_MAX = 0 then Panic ''virtio disk has no queue 0''
      else if rd QUEUE_NUM_MAX < of_nat NUM then Panic ''virtio disk max queue too short''
      else if pd = 0 \<or> pa = 0 \<or> pu = 0 then Panic ''virtio disk kalloc''
      else Ok ([(STATUS, 0), (STATUS, 1), (STATUS, 3), (DRIVER_FEATURES, wanted_features (rd DEVICE_FEATURES)), (STATUS, 11),
          (QUEUE_SEL, 0), (QUEUE_NUM, of_nat NUM),
          (QUEUE_DESC_LOW, ucast pd), (QUEUE_DESC_HIGH, ucast (drop_bit 32 pd)),
          (DRIVER_DESC_LOW, ucast pa), (DRIVER_DESC_HIGH, ucast (drop_bit 32 pa)),
          (DEVICE_DESC_LOW, ucast pu), (DEVICE_DESC_HIGH, ucast (drop_bit 32 pu)),
          (QUEUE_READY, 1), (STATUS, ack OR 4)],
        st\<lparr>desc := \<lambda>_. no_desc, avail_idx := 0, avail_ring := \<lambda>_. 0, uidx := 0, used_ring := \<lambda>_. 0,
          vfree := \<lambda>i. i < NUM \<or> vfree st i\<rparr>))"

section \<open>The device, and processes in the driver\<close>

text \<open>
  The device is a parameter: \<open>dev st im h st' im'\<close> says that, with the queue memory and the buffers as in \<open>st\<close>
  and the disk's bytes \<open>im\<close>, it may carry out the chain with the head \<open>h\<close> and leave \<open>st'\<close> and \<open>im'\<close>.
\<close>

type_synonym image = "u64 \<Rightarrow> byte"
type_synonym device = "vdisk \<Rightarrow> image \<Rightarrow> nat \<Rightarrow> vdisk \<Rightarrow> image \<Rightarrow> bool"

definition disk_read :: "image \<Rightarrow> u64 \<Rightarrow> nat \<Rightarrow> byte list" where
  "disk_read im sec n = map (\<lambda>k. im (512 * sec + of_nat k)) [0..<n]"

definition disk_write :: "u64 \<Rightarrow> byte list \<Rightarrow> image \<Rightarrow> image" where
  "disk_write sec bs im = (\<lambda>a. let k = unat (a - 512 * sec) in if k < length bs then bs ! k else im a)"

text \<open>
  A request to a block device, as the VirtIO specification has it (5.2.6): a header of 16 bytes that the
  device reads; data of whole sectors, which the device may write exactly when the request is to read the
  disk; and a status byte that it writes. The header is \<open>ops[i]\<close>, the data that of buffer \<open>b\<close>, the status \<open>info[k].status\<close>.
\<close>

definition request :: "vdisk \<Rightarrow> nat \<Rightarrow> nat \<Rightarrow> nat \<Rightarrow> nat \<Rightarrow> bool" where
  "request st h i b k =
     (let d0 = desc st h; d1 = desc st (d_next d0); d2 = desc st (d_next d1) in
      d_addr d0 = AOps i \<and> d_len d0 = 16 \<and> d_flags d0 = F_NEXT \<and>
      d_addr d1 = AData b \<and> 512 dvd d_len d1 \<and> d_len d1 \<le> length (bufs st b) \<and>
      (r_type (ops st i) = 0 \<and> d_flags d1 = F_WRITE OR F_NEXT \<or> r_type (ops st i) = 1 \<and> d_flags d1 = F_NEXT) \<and>
      d_addr d2 = AStatus k \<and> d_len d2 = 1 \<and> d_flags d2 = F_WRITE)"

text \<open>
  What the specification promises of a device that has carried out such a request: it has written a status byte, and the
  head into the ring of used chains; of memory it has written nothing else but, for a read, the data.
  If the status is 0, the bytes of the data descriptor have been transferred. Of other chains nothing is promised.
\<close>

definition virtio_blk :: "device \<Rightarrow> bool" where
  "virtio_blk dev = (\<forall>st im h st' im' i b k. dev st im h st' im' \<and> request st h i b k \<longrightarrow>
     (\<exists>v bs. st' = st\<lparr>info_status := (info_status st)(k := v), bufs := (bufs st)(b := bs),
          used_ring := (used_ring st)(unat (uidx st) mod NUM := h), uidx := uidx st + 1\<rparr> \<and>
        length bs = length (bufs st b) \<and> (r_type (ops st i) = 1 \<longrightarrow> bs = bufs st b) \<and>
        (v = 0 \<longrightarrow> (let n = d_len (desc st (d_next (desc st h))); sec = r_sector (ops st i) in
           if r_type (ops st i) = 0 then bs = disk_read im sec n @ drop n (bufs st b) \<and> im' = im
           else im' = disk_write sec (take n (bufs st b)) im))))"

text \<open>A call of \<open>virtio_disk_rw\<close> past the allocation of its descriptors; \<open>q_data\<close> is what its buffer held then.\<close>

record vreq =
  q_b :: nat
  q_bno :: u32
  q_wr :: bool
  q_data :: "byte list"
  q0 :: nat
  q1 :: nat
  q2 :: nat

text \<open>A transfer: its direction and sector, the buffer and what it holds, and the status.\<close>

record transfer =
  t_wr :: bool
  t_sector :: u64
  t_b :: nat
  t_data :: "byte list"
  t_status :: byte

definition transfer_of :: "vdisk \<Rightarrow> nat \<Rightarrow> transfer option" where
  "transfer_of st h =
     (let d0 = desc st h; d1 = desc st (d_next d0); d2 = desc st (d_next d1) in
      case (d_addr d0, d_addr d1, d_addr d2) of
        (AOps i, AData b, AStatus k) \<Rightarrow> Some \<lparr>t_wr = (r_type (ops st i) = 1), t_sector = r_sector (ops st i), t_b = b,
           t_data = bufs st b, t_status = info_status st k\<rparr>
      | _ \<Rightarrow> None)"

definition call_of :: "vdisk \<Rightarrow> vreq \<Rightarrow> transfer" where
  "call_of st r = \<lparr>t_wr = q_wr r, t_sector = sector_of (q_bno r), t_b = q_b r, t_data = bufs st (q_b r), t_status = info_status st (q0 r)\<rparr>"

text \<open>
  \<open>act\<close> are the calls past the allocation of their descriptors, \<open>returned\<close> those that are over, with what their
  buffer held in the end; \<open>dtaken\<close> the chains the device works on and \<open>vlog\<close> the transfers it has made, in order.
  A buffer that no call is about may be changed by whoever has it locked in the cache.
\<close>

record vsys =
  dk :: vdisk
  img :: image
  act :: "vreq list"
  returned :: "transfer list"
  seen :: u16
  dtaken :: "nat list"
  vlog :: "transfer list"

inductive vstep :: "device \<Rightarrow> vsys \<Rightarrow> vsys \<Rightarrow> bool" for dev where
  v_fill: "b \<notin> q_b ` set (act s) \<Longrightarrow> length bs = BSIZE \<Longrightarrow> vstep dev s (s\<lparr>dk := (dk s)\<lparr>bufs := (bufs (dk s))(b := bs)\<rparr>\<rparr>)"
| v_submit: "rw_try b bno wr (dk s) = Ok (Some (i0, i1, i2), d') \<Longrightarrow> b \<notin> q_b ` set (act s) \<Longrightarrow>
     vstep dev s (s\<lparr>dk := d', act := act s @ [\<lparr>q_b = b, q_bno = bno, q_wr = wr, q_data = bufs (dk s) b, q0 = i0, q1 = i1, q2 = i2\<rparr>]\<rparr>)"
| v_full: "rw_try b bno wr (dk s) = Ok (None, d') \<Longrightarrow> vstep dev s (s\<lparr>dk := d'\<rparr>)"
| v_fetch: "seen s \<noteq> avail_idx (dk s) \<Longrightarrow>
     vstep dev s (s\<lparr>seen := seen s + 1, dtaken := dtaken s @ [avail_ring (dk s) (unat (seen s) mod NUM)]\<rparr>)"
| v_complete: "dtaken s = xs @ h # ys \<Longrightarrow> dev (dk s) (img s) h d' im' \<Longrightarrow> transfer_of d' h = Some t \<Longrightarrow>
     vstep dev s (s\<lparr>dk := d', img := im', dtaken := xs @ ys, vlog := vlog s @ [t]\<rparr>)"
| v_intr: "virtio_disk_intr (dk s) = Ok d' \<Longrightarrow> vstep dev s (s\<lparr>dk := d'\<rparr>)"
| v_return: "r \<in> set (act s) \<Longrightarrow> \<not> bdisk (dk s) (q_b r) \<Longrightarrow> rw_finish (q0 r) (dk s) = Ok d' \<Longrightarrow>
     vstep dev s (s\<lparr>dk := d', act := remove1 r (act s), returned := returned s @ [call_of (dk s) r]\<rparr>)"

text \<open>The disk after a sequence of transfers of blocks, each read having got what was on the disk then.\<close>

fun served :: "image \<Rightarrow> transfer list \<Rightarrow> image \<Rightarrow> bool" where
  "served im [] im' = (im' = im)"
| "served im (t # ts) im' =
     (if t_wr t then served (disk_write (t_sector t) (t_data t) im) ts im'
      else t_data t = disk_read im (t_sector t) BSIZE \<and> served im ts im')"

section \<open>Rings\<close>

definition ring :: "(nat \<Rightarrow> nat) \<Rightarrow> u16 \<Rightarrow> nat list \<Rightarrow> u16 \<Rightarrow> bool" where
  "ring rg a l b = (b = a + of_nat (length l) \<and> (\<forall>k<length l. rg ((unat a + k) mod NUM) = l ! k))"

lemma unat_idx: "unat (a + of_nat k :: u16) mod NUM = (unat a + k) mod NUM"
proof -
  have "unat (a + of_nat k :: u16) = (unat a + k) mod 2 ^ 16"
    by (simp add: unat_word_ariths unat_of_nat mod_add_right_eq)
  then show ?thesis by (simp add: NUM_def mod_mod_cancel)
qed

lemma ring_push:
  assumes "ring rg a l b" "length l < NUM"
  shows "ring (rg(unat b mod NUM := x)) a (l @ [x]) (b + 1)"
proof -
  have b: "unat b mod NUM = (unat a + length l) mod NUM" using assms(1) unat_idx [of a "length l"] by (simp add: ring_def)
  have "(unat a + k) mod NUM \<noteq> (unat a + length l) mod NUM" if "k < length l" for k
  proof
    assume "(unat a + k) mod NUM = (unat a + length l) mod NUM"
    then have "NUM dvd length l - k" using mod_eq_dvd_iff_nat [of "unat a + k" "unat a + length l" NUM] that by simp
    then show False using that assms(2) dvd_imp_le [of NUM "length l - k"] by simp
  qed
  then show ?thesis using assms(1) unfolding ring_def b by (auto simp: nth_append less_Suc_eq)
qed

lemma ring_pop:
  assumes "ring rg a (x # l) b"
  shows "rg (unat a mod NUM) = x" "ring rg (a + 1) l b"
proof -
  show "rg (unat a mod NUM) = x" using assms by (auto simp: ring_def dest: spec [of _ 0])
  have "(unat (a + 1) + k) mod NUM = (unat a + (k + 1)) mod NUM" for k
  proof -
    have "(unat (a + 1) + k) mod NUM = (unat (a + 1) mod NUM + k) mod NUM" by (rule mod_add_left_eq [symmetric])
    also have "unat (a + 1) mod NUM = (unat a + 1) mod NUM" using unat_idx [of a 1] by simp
    also have "((unat a + 1) mod NUM + k) mod NUM = (unat a + 1 + k) mod NUM" by (rule mod_add_left_eq)
    finally show ?thesis by (simp add: ac_simps)
  qed
  moreover have "rg ((unat a + (k + 1)) mod NUM) = l ! k" if "k < length l" for k
    using assms that unfolding ring_def by (metis Suc_less_eq length_Cons nth_Cons_Suc Suc_eq_plus1)
  moreover have "b = a + 1 + of_nat (length l)" using assms by (simp add: ring_def)
  ultimately show "ring rg (a + 1) l b" by (simp add: ring_def)
qed

lemma ring_empty: "ring rg a l b \<Longrightarrow> length l < 2 ^ 16 \<Longrightarrow> (a = b) = (l = [])"
proof -
  assume r: "ring rg a l b" "length l < 2 ^ 16"
  then have "(a = b) = ((of_nat (length l) :: u16) = 0)" by (auto simp: ring_def)
  also have "\<dots> = (length l = 0)" using r(2) nat_dvd_not_less [of "length l" "2 ^ 16"] by (auto simp: word_of_nat_eq_0_iff)
  finally show ?thesis by simp
qed

section \<open>The invariant\<close>

definition idxs :: "vreq \<Rightarrow> nat list" where "idxs r = [q0 r, q1 r, q2 r]"

definition owned :: "vreq list \<Rightarrow> nat list" where "owned rs = concat (map idxs rs)"

definition chain_ok :: "vdisk \<Rightarrow> vreq \<Rightarrow> bool" where
  "chain_ok st r =
     (desc st (q0 r) = \<lparr>d_addr = AOps (q0 r), d_len = 16, d_flags = F_NEXT, d_next = q1 r\<rparr> \<and>
      desc st (q1 r) = \<lparr>d_addr = AData (q_b r), d_len = BSIZE, d_flags = (if q_wr r then 0 else F_WRITE) OR F_NEXT, d_next = q2 r\<rparr> \<and>
      desc st (q2 r) = \<lparr>d_addr = AStatus (q0 r), d_len = 1, d_flags = F_WRITE, d_next = 0\<rparr> \<and>
      ops st (q0 r) = \<lparr>r_type = (if q_wr r then 1 else 0), r_reserved = 0, r_sector = sector_of (q_bno r)\<rparr> \<and> info_b st (q0 r) = Some (q_b r))"

definition calls :: "vdisk \<Rightarrow> vreq list \<Rightarrow> transfer multiset" where
  "calls st rs = mset (map (call_of st) rs)"

lemma calls_cong: "(\<And>r. r \<in> set rs \<Longrightarrow> call_of st' r = call_of st r) \<Longrightarrow> calls st' rs = calls st rs"
  unfolding calls_def by (metis map_eq_conv)

text \<open>The calls by what has become of them: in the ring, with the device, in the other ring, ready to return.\<close>

definition phases :: "vsys \<Rightarrow> vreq list \<Rightarrow> vreq list \<Rightarrow> vreq list \<Rightarrow> vreq list \<Rightarrow> bool" where
  "phases s qd tk cp fn = (mset (act s) = mset (qd @ tk @ cp @ fn) \<and>
     ring (avail_ring (dk s)) (seen s) (map q0 qd) (avail_idx (dk s)) \<and> dtaken s = map q0 tk \<and>
     ring (used_ring (dk s)) (used_idx (dk s)) (map q0 cp) (uidx (dk s)) \<and>
     (\<forall>r\<in>set fn. info_status (dk s) (q0 r) = 0) \<and>
     (\<forall>r\<in>set (qd @ tk @ cp). bdisk (dk s) (q_b r)) \<and> (\<forall>r\<in>set fn. \<not> bdisk (dk s) (q_b r)) \<and>
     mset (vlog s) = mset (returned s) + calls (dk s) (cp @ fn))"

text \<open>The buffers and the disk.\<close>

definition contents :: "image \<Rightarrow> vsys \<Rightarrow> bool" where
  "contents im s = ((\<forall>b. length (bufs (dk s) b) = BSIZE) \<and> (\<forall>r\<in>set (act s). q_wr r \<longrightarrow> bufs (dk s) (q_b r) = q_data r) \<and>
     (\<forall>t\<in>set (returned s). t_status t = 0) \<and> ((\<forall>t\<in>set (vlog s). t_status t = 0) \<longrightarrow> served im (vlog s) (img s)))"

definition vinv :: "image \<Rightarrow> vsys \<Rightarrow> bool" where
  "vinv im s = (distinct (owned (act s)) \<and> set (owned (act s)) \<subseteq> {..<NUM} \<and> (\<forall>i<NUM. vfree (dk s) i = (i \<notin> set (owned (act s)))) \<and>
     distinct (map q_b (act s)) \<and> (\<forall>r\<in>set (act s). chain_ok (dk s) r) \<and> contents im s \<and> (\<exists>qd tk cp fn. phases s qd tk cp fn))"

lemma owned_append [simp]: "owned (a @ b) = owned a @ owned b" "owned [] = []" "owned [r] = [q0 r, q1 r, q2 r]"
  by (simp_all add: owned_def idxs_def)

lemma owned_length: "length (owned rs) = 3 * length rs"
  by (induction rs) (simp_all add: owned_def idxs_def)

lemma owned_mem: "r \<in> set rs \<Longrightarrow> {q0 r, q1 r, q2 r} \<subseteq> set (owned rs)"
  by (auto simp: owned_def idxs_def)

lemma few:
  assumes "vinv im s"
  shows "length (act s) \<le> 2"
proof -
  have "card (set (owned (act s))) \<le> card {..<NUM}" using assms by (intro card_mono) (auto simp: vinv_def)
  then show ?thesis using assms owned_length [of "act s"] by (simp add: vinv_def distinct_card NUM_def)
qed

section \<open>The driver's operations\<close>

lemma find_upt: "(find P [0..<n] = Some i \<longrightarrow> i < n \<and> P i) \<and> (find P [0..<n] = None \<longrightarrow> (\<forall>i<n. \<not> P i))"
  using find_Some_iff [of P "[0..<n]" i] find_None_iff [of P "[0..<n]"] by auto

lemma alloc_desc_cases:
  obtains "alloc_desc st = (None, st)"
  | i where "alloc_desc st = (Some i, st\<lparr>vfree := (vfree st)(i := False)\<rparr>)" "i < NUM" "vfree st i"
  using find_upt [of "vfree st" NUM] by (cases "find (vfree st) [0..<NUM]") (auto simp: alloc_desc_def)

lemma free_fresh:
  assumes "i < NUM" "\<not> vfree st i"
  shows "free_desc i st = Ok (st\<lparr>desc := (desc st)(i := no_desc), vfree := (vfree st)(i := True)\<rparr>)"
  using assms by (simp add: free_desc_def)

text \<open>Three descriptors or none; only descriptors that were free are touched.\<close>

definition untouched :: "vdisk \<Rightarrow> vdisk \<Rightarrow> bool" where
  "untouched st st' = (\<exists>ds. st' = st\<lparr>desc := ds\<rparr> \<and> (\<forall>i<NUM. \<not> vfree st i \<longrightarrow> ds i = desc st i))"

lemma alloc3_cases:
  obtains st' where "alloc3_desc st = Ok (None, st')" "untouched st st'"
  | i0 i1 i2 where "alloc3_desc st = Ok (Some (i0, i1, i2), st\<lparr>vfree := (vfree st)(i0 := False, i1 := False, i2 := False)\<rparr>)"
      "distinct [i0, i1, i2]" "{i0, i1, i2} \<subseteq> {..<NUM}" "vfree st i0" "vfree st i1" "vfree st i2"
proof (cases rule: alloc_desc_cases [of st])
  case 1
  then have "alloc3_desc st = Ok (None, st)" by (simp add: alloc3_desc_def)
  moreover have "untouched st st" unfolding untouched_def by (rule exI [of _ "desc st"]) simp
  ultimately show thesis by (rule that(1))
next
  case (2 i0)
  let ?s1 = "st\<lparr>vfree := (vfree st)(i0 := False)\<rparr>"
  show thesis
  proof (cases rule: alloc_desc_cases [of ?s1])
    case 1
    then have "alloc3_desc st = Ok (None, st\<lparr>desc := (desc st)(i0 := no_desc)\<rparr>)"
      using 2 free_fresh [of i0 ?s1] by (simp add: alloc3_desc_def fun_upd_idem)
    moreover have "untouched st (st\<lparr>desc := (desc st)(i0 := no_desc)\<rparr>)" using 2(3) unfolding untouched_def by (intro exI conjI) auto
    ultimately show thesis by (rule that(1))
  next
    case i1: (2 i1)
    let ?s2 = "?s1\<lparr>vfree := (vfree ?s1)(i1 := False)\<rparr>"
    have ne: "i1 \<noteq> i0" "vfree st i1" using i1(3) by (auto split: if_splits)
    show thesis
    proof (cases rule: alloc_desc_cases [of ?s2])
      case 1
      then have "alloc3_desc st = Ok (None, st\<lparr>desc := (desc st)(i0 := no_desc, i1 := no_desc)\<rparr>)"
        using 2 i1 ne free_fresh [of i0 ?s2] free_fresh [of i1 "?s2\<lparr>desc := (desc st)(i0 := no_desc), vfree := (vfree ?s2)(i0 := True)\<rparr>"]
        by (simp add: alloc3_desc_def fun_upd_twist fun_upd_idem)
      moreover have "untouched st (st\<lparr>desc := (desc st)(i0 := no_desc, i1 := no_desc)\<rparr>)"
        using 2(3) ne unfolding untouched_def by (intro exI conjI) auto
      ultimately show thesis by (rule that(1))
    next
      case i2: (2 i2)
      then have ne2: "i2 \<noteq> i0" "i2 \<noteq> i1" "vfree st i2" by (auto split: if_splits)
      have "alloc3_desc st = Ok (Some (i0, i1, i2), st\<lparr>vfree := (vfree st)(i0 := False, i1 := False, i2 := False)\<rparr>)"
        using 2 i1 i2 by (simp add: alloc3_desc_def)
      then show thesis by (rule that(2)) (use 2 i1(2) i2(2) ne ne2 in simp_all)
    qed
  qed
qed

lemma chain_cong:
  assumes "\<And>i. i \<in> {q0 r, q1 r, q2 r} \<Longrightarrow> desc st' i = desc st i \<and> ops st' i = ops st i \<and> info_b st' i = info_b st i"
  shows "chain_ok st' r = chain_ok st r"
  using assms by (simp add: chain_ok_def)

text \<open>
  The interrupt handler clears the buffers of the completed calls, and no others; if the device has
  reported an error for one of them, it panics.
\<close>

lemma intr_spec:
  assumes "ring (used_ring st) (used_idx st) (map q0 cp) (uidx st)" "length cp < 2 ^ 16"
    "\<And>r. r \<in> set cp \<Longrightarrow> info_b st (q0 r) = Some (q_b r)"
  shows "virtio_disk_intr st =
    (if \<forall>r\<in>set cp. info_status st (q0 r) = 0 then Ok (st\<lparr>bdisk := \<lambda>b. bdisk st b \<and> b \<notin> q_b ` set cp, used_idx := uidx st\<rparr>)
     else Panic ''virtio_disk_intr status'')"
  using assms
proof (induction cp arbitrary: st)
  case Nil
  then have "used_idx st = uidx st" using ring_empty [of "used_ring st" "used_idx st" "[]" "uidx st"] by simp
  then show ?case by (simp add: virtio_disk_intr.simps [of st])
next
  case (Cons r cp)
  let ?st = "st\<lparr>bdisk := (bdisk st)(q_b r := False), used_idx := used_idx st + 1\<rparr>"
  have pop: "used_ring st (unat (used_idx st) mod NUM) = q0 r" "ring (used_ring st) (used_idx st + 1) (map q0 cp) (uidx st)"
    using ring_pop [of "used_ring st" "used_idx st" "q0 r" "map q0 cp" "uidx st"] Cons.prems(1) by simp_all
  have ne: "used_idx st \<noteq> uidx st" using ring_empty [OF Cons.prems(1)] Cons.prems(2) by simp
  show ?case
  proof (cases "info_status st (q0 r) = 0")
    case True
    have "virtio_disk_intr st = virtio_disk_intr ?st"
      using pop(1) ne Cons.prems(3) [of r] True by (simp add: virtio_disk_intr.simps [of st])
    also have "\<dots> = (if \<forall>r\<in>set cp. info_status ?st (q0 r) = 0 then Ok (?st\<lparr>bdisk := \<lambda>b. bdisk ?st b \<and> b \<notin> q_b ` set cp, used_idx := uidx ?st\<rparr>)
       else Panic ''virtio_disk_intr status'')"
      by (rule Cons.IH) (use pop(2) Cons.prems(2,3) in simp_all)
    also have "(\<lambda>b. bdisk ?st b \<and> b \<notin> q_b ` set cp) = (\<lambda>b. bdisk st b \<and> b \<notin> q_b ` set (r # cp))" by auto
    finally show ?thesis using True by simp
  next
    case False
    then show ?thesis using pop(1) ne by (simp add: virtio_disk_intr.simps [of st])
  qed
qed

lemma flag_next: "(F_NEXT AND F_NEXT) \<noteq> 0" "(((if w then 0 else F_WRITE) OR F_NEXT) AND F_NEXT) \<noteq> 0" "(F_WRITE AND F_NEXT) = 0"
  by (simp_all add: F_NEXT_def F_WRITE_def)

text \<open>The end of a call gives back its three descriptors.\<close>

lemma finish_spec:
  assumes c: "chain_ok st r" and i: "distinct (idxs r)" "set (idxs r) \<subseteq> {..<NUM}" "\<And>j. j \<in> set (idxs r) \<Longrightarrow> \<not> vfree st j"
  shows "rw_finish (q0 r) st = Ok (st\<lparr>info_b := (info_b st)(q0 r := None),
      desc := (desc st)(q0 r := no_desc, q1 r := no_desc, q2 r := no_desc), vfree := (vfree st)(q0 r := True, q1 r := True, q2 r := True)\<rparr>)"
proof -
  have n: "q0 r \<noteq> q1 r" "q0 r \<noteq> q2 r" "q1 r \<noteq> q2 r" and lt: "q0 r < NUM" "q1 r < NUM" "q2 r < NUM"
    and nf: "\<not> vfree st (q0 r)" "\<not> vfree st (q1 r)" "\<not> vfree st (q2 r)" using i by (auto simp: idxs_def)
  note d = c [unfolded chain_ok_def]
  let ?s0 = "st\<lparr>info_b := (info_b st)(q0 r := None)\<rparr>"
  let ?s1 = "?s0\<lparr>desc := (desc st)(q0 r := no_desc), vfree := (vfree st)(q0 r := True)\<rparr>"
  let ?s2 = "?s1\<lparr>desc := (desc ?s1)(q1 r := no_desc), vfree := (vfree ?s1)(q1 r := True)\<rparr>"
  have "free_chain (q0 r) ?s0 = free_chain (q1 r) ?s1"
    using free_fresh [of "q0 r" ?s0] lt nf d flag_next by (subst free_chain.simps) simp
  also have "\<dots> = free_chain (q2 r) ?s2"
    using free_fresh [of "q1 r" ?s1] lt nf n d flag_next by (subst free_chain.simps) simp
  also have "\<dots> = Ok (?s2\<lparr>desc := (desc ?s2)(q2 r := no_desc), vfree := (vfree ?s2)(q2 r := True)\<rparr>)"
    using free_fresh [of "q2 r" ?s2] lt nf n d flag_next by (subst free_chain.simps) simp
  finally show ?thesis by (simp add: rw_finish_def)
qed

section \<open>The invariant holds\<close>

lemma vinvD:
  assumes "vinv im s"
  shows "distinct (owned (act s))" "set (owned (act s)) \<subseteq> {..<NUM}" "\<And>i. i < NUM \<Longrightarrow> vfree (dk s) i = (i \<notin> set (owned (act s)))"
    "distinct (map q_b (act s))" "\<And>r. r \<in> set (act s) \<Longrightarrow> chain_ok (dk s) r" "contents im s"
  using assms by (auto simp: vinv_def)

lemma phases_sets:
  assumes "phases s qd tk cp fn"
  shows "set (act s) = set qd \<union> set tk \<union> set cp \<union> set fn" "length (act s) = length qd + length tk + length cp + length fn"
proof -
  have m: "mset (act s) = mset (qd @ tk @ cp @ fn)" using assms by (simp add: phases_def)
  show "set (act s) = set qd \<union> set tk \<union> set cp \<union> set fn" using mset_eq_setD [OF m] by auto
  show "length (act s) = length qd + length tk + length cp + length fn" using mset_eq_length [OF m] by simp
qed

lemma full_inv:
  assumes inv: "vinv im s" and u: "untouched (dk s) d'"
  shows "vinv im (s\<lparr>dk := d'\<rparr>)"
proof -
  obtain ds where ds: "d' = (dk s)\<lparr>desc := ds\<rparr>" "\<And>i. i < NUM \<Longrightarrow> \<not> vfree (dk s) i \<Longrightarrow> ds i = desc (dk s) i"
    using u by (auto simp: untouched_def)
  note v = vinvD [OF inv]
  have "chain_ok d' r" if "r \<in> set (act s)" for r
  proof -
    have "ds i = desc (dk s) i" if "i \<in> {q0 r, q1 r, q2 r}" for i
      using owned_mem [OF \<open>r \<in> set (act s)\<close>] that v(2,3) ds(2) [of i] by auto
    then show ?thesis using chain_cong [of r d' "dk s"] v(5) [OF that] by (simp add: ds(1))
  qed
  moreover have "calls d' = calls (dk s)" by (rule ext) (rule calls_cong, simp add: call_of_def ds(1))
  ultimately show ?thesis using inv by (simp add: vinv_def phases_def contents_def ds(1))
qed

lemma submit_inv:
  assumes inv: "vinv im s" and d': "d' = rw_submit b bno wr i0 i1 i2 ((dk s)\<lparr>vfree := (vfree (dk s))(i0 := False, i1 := False, i2 := False)\<rparr>)"
    and i: "distinct [i0, i1, i2]" "{i0, i1, i2} \<subseteq> {..<NUM}" "vfree (dk s) i0" "vfree (dk s) i1" "vfree (dk s) i2" and b: "b \<notin> q_b ` set (act s)"
  shows "vinv im (s\<lparr>dk := d', act := act s @ [\<lparr>q_b = b, q_bno = bno, q_wr = wr, q_data = bufs (dk s) b, q0 = i0, q1 = i1, q2 = i2\<rparr>]\<rparr>)"
proof -
  note v = vinvD [OF inv]
  let ?r = "\<lparr>q_b = b, q_bno = bno, q_wr = wr, q_data = bufs (dk s) b, q0 = i0, q1 = i1, q2 = i2\<rparr>"
  let ?s = "s\<lparr>dk := d', act := act s @ [?r]\<rparr>"
  obtain qd tk cp fn where ph: "phases s qd tk cp fn" using inv by (auto simp: vinv_def)
  have new: "i0 \<notin> set (owned (act s))" "i1 \<notin> set (owned (act s))" "i2 \<notin> set (owned (act s))" using v(3) i by auto
  have old: "q0 r \<notin> {i0, i1, i2} \<and> q1 r \<notin> {i0, i1, i2} \<and> q2 r \<notin> {i0, i1, i2} \<and> q_b r \<noteq> b" if "r \<in> set (act s)" for r
    using owned_mem [OF that] new b that by auto
  have "chain_ok d' r = chain_ok (dk s) r" if "r \<in> set (act s)" for r
    by (rule chain_cong) (use old [OF that] in \<open>auto simp: d' rw_submit_def\<close>)
  then have "chain_ok d' r" if "r \<in> set (act s)" for r using v(5) that by blast
  moreover have "chain_ok d' ?r" using i(1) by (auto simp: d' rw_submit_def chain_ok_def)
  ultimately have ch: "\<forall>r\<in>set (act ?s). chain_ok d' r" by simp
  have "ring (avail_ring d') (seen s) (map q0 (qd @ [?r])) (avail_idx d')"
    using ring_push [of "avail_ring (dk s)" "seen s" "map q0 qd" "avail_idx (dk s)" i0] ph few [OF inv] phases_sets(2) [OF ph]
    by (simp add: phases_def d' rw_submit_def NUM_def)
  moreover have "calls d' (cp @ fn) = calls (dk s) (cp @ fn)"
    by (rule calls_cong) (use old phases_sets(1) [OF ph] in \<open>auto simp: call_of_def d' rw_submit_def\<close>)
  moreover have "mset (act ?s) = mset ((qd @ [?r]) @ tk @ cp @ fn)" "used_ring d' = used_ring (dk s)" "used_idx d' = used_idx (dk s)" "uidx d' = uidx (dk s)"
      "bdisk d' = (bdisk (dk s))(b := True)" "\<And>r. r \<in> set (act s) \<Longrightarrow> info_status d' (q0 r) = info_status (dk s) (q0 r)"
    using ph old by (auto simp: phases_def d' rw_submit_def)
  ultimately have "phases ?s (qd @ [?r]) tk cp fn"
    using ph old phases_sets(1) [OF ph] unfolding phases_def by (simp del: map_append)
  moreover have "contents im ?s" using v(6) old by (auto simp: contents_def d' rw_submit_def)
  moreover have "distinct (owned (act ?s))" "set (owned (act ?s)) \<subseteq> {..<NUM}" "distinct (map q_b (act ?s))"
    using v(1,2,4) new i(1,2) b by auto
  moreover have "vfree d' j = (j \<notin> set (owned (act ?s)))" if "j < NUM" for j using v(3) [OF that] by (auto simp: d' rw_submit_def)
  ultimately show ?thesis using ch by (auto simp: vinv_def)
qed

lemma fetch_inv:
  assumes inv: "vinv im s" and ne: "seen s \<noteq> avail_idx (dk s)"
  shows "vinv im (s\<lparr>seen := seen s + 1, dtaken := dtaken s @ [avail_ring (dk s) (unat (seen s) mod NUM)]\<rparr>)"
proof -
  obtain qd tk cp fn where ph: "phases s qd tk cp fn" using inv by (auto simp: vinv_def)
  have rg: "ring (avail_ring (dk s)) (seen s) (map q0 qd) (avail_idx (dk s))" using ph by (simp add: phases_def)
  then have "qd \<noteq> []" using ne ring_empty [OF rg] by (auto simp: ring_def)
  then obtain r qd' where qd: "qd = r # qd'" by (cases qd) auto
  have "phases (s\<lparr>seen := seen s + 1, dtaken := dtaken s @ [avail_ring (dk s) (unat (seen s) mod NUM)]\<rparr>) qd' (tk @ [r]) cp fn"
    using ph ring_pop [of "avail_ring (dk s)" "seen s" "q0 r" "map q0 qd'" "avail_idx (dk s)"] unfolding qd by (auto simp: phases_def)
  then show ?thesis using inv by (auto simp: vinv_def contents_def)
qed

text \<open>A call's chain is a request in the sense of the specification.\<close>

lemma chain_request:
  assumes c: "chain_ok st r" and len: "length (bufs st (q_b r)) = BSIZE"
  shows "request st (q0 r) (q0 r) (q_b r) (q0 r)" "transfer_of st (q0 r) = Some (call_of st r)"
    "d_len (desc st (d_next (desc st (q0 r)))) = BSIZE"
  using c len by (auto simp: chain_ok_def request_def transfer_of_def call_of_def Let_def kconst)

lemma device_step:
  assumes law: "virtio_blk dev" and dev: "dev st im h st' im'" and c: "chain_ok st r" "h = q0 r" and len: "\<And>b. length (bufs st b) = BSIZE"
  obtains v bs where "st' = st\<lparr>info_status := (info_status st)(h := v), bufs := (bufs st)(q_b r := bs),
      used_ring := (used_ring st)(unat (uidx st) mod NUM := h), uidx := uidx st + 1\<rparr>"
    "length bs = BSIZE" "q_wr r \<Longrightarrow> bs = bufs st (q_b r)" "v = 0 \<Longrightarrow> served im [call_of st' r] im'"
proof -
  note result = that
  note q = chain_request [OF c(1) len]
  have o: "r_type (ops st (q0 r)) = (if q_wr r then 1 else 0)" "r_sector (ops st (q0 r)) = sector_of (q_bno r)" using c(1) by (simp_all add: chain_ok_def)
  have "dev st im h st' im' \<and> request st h (q0 r) (q_b r) (q0 r)" using dev q(1) c(2) by simp
  then obtain v bs where d: "st' = st\<lparr>info_status := (info_status st)(q0 r := v), bufs := (bufs st)(q_b r := bs),
      used_ring := (used_ring st)(unat (uidx st) mod NUM := h), uidx := uidx st + 1\<rparr>" "length bs = length (bufs st (q_b r))"
      "r_type (ops st (q0 r)) = 1 \<longrightarrow> bs = bufs st (q_b r)"
      "v = 0 \<longrightarrow> (let n = d_len (desc st (d_next (desc st h))); sec = r_sector (ops st (q0 r)) in
           if r_type (ops st (q0 r)) = 0 then bs = disk_read im sec n @ drop n (bufs st (q_b r)) \<and> im' = im
           else im' = disk_write sec (take n (bufs st (q_b r))) im)"
    using law unfolding virtio_blk_def by blast
  have "served im [call_of st' r] im'" if "v = 0"
    using that d(3,4) o q(3) c(2) len by (simp add: d(1) call_of_def Let_def split: if_splits)
  then show thesis using d(2,3) o(1) len c(2) by (intro result [OF d(1) [folded c(2)]]) simp_all
qed

lemma served_append: "served im (ts @ us) im'' = (\<exists>im'. served im ts im' \<and> served im' us im'')"
  by (induction ts arbitrary: im) auto

lemma complete_inv:
  assumes law: "virtio_blk dev" and inv: "vinv im s" and t: "dtaken s = xs @ h # ys" and dev: "dev (dk s) (img s) h d' im'"
    and tr: "transfer_of d' h = Some t"
  shows "vinv im (s\<lparr>dk := d', img := im', dtaken := xs @ ys, vlog := vlog s @ [t]\<rparr>)"
proof -
  note v = vinvD [OF inv]
  obtain qd tk cp fn where ph: "phases s qd tk cp fn" using inv by (auto simp: vinv_def)
  then have "map q0 tk = xs @ h # ys" using t by (simp add: phases_def)
  then obtain t1 r t2 where tk: "tk = t1 @ r # t2" "xs = map q0 t1" "h = q0 r" "ys = map q0 t2"
    by (auto simp: map_eq_append_conv)
  have r: "r \<in> set (act s)" using phases_sets(1) [OF ph] tk(1) by auto
  have len: "\<And>b. length (bufs (dk s) b) = BSIZE" using v(6) by (simp add: contents_def)
  obtain w bs where d: "d' = (dk s)\<lparr>info_status := (info_status (dk s))(h := w), bufs := (bufs (dk s))(q_b r := bs),
      used_ring := (used_ring (dk s))(unat (uidx (dk s)) mod NUM := h), uidx := uidx (dk s) + 1\<rparr>"
      "length bs = BSIZE" "q_wr r \<Longrightarrow> bs = bufs (dk s) (q_b r)" "w = 0 \<Longrightarrow> served (img s) [call_of d' r] im'"
    using device_step [OF law dev v(5) [OF r] tk(3) len] by blast
  let ?s = "s\<lparr>dk := d', img := im', dtaken := xs @ ys, vlog := vlog s @ [t]\<rparr>"
  have ch: "chain_ok d' q = chain_ok (dk s) q" for q by (rule chain_cong) (simp add: d(1))
  have len': "length (bufs d' b) = BSIZE" for b using len d(2) by (simp add: d(1))
  have t': "t = call_of d' r" using chain_request(2) [of d' r] ch v(5) [OF r] len' tr tk(3) by simp
  have ap: "q_b q \<noteq> q_b r \<and> q0 q \<noteq> q0 r" if "q \<in> set (t1 @ t2) \<union> set qd \<union> set cp \<union> set fn" for q
  proof -
    obtain a1 a2 where a: "act s = a1 @ r # a2" using r by (metis split_list)
    have m: "mset (a1 @ a2) = mset (qd @ t1 @ t2 @ cp @ fn)" using ph a tk(1) by (simp add: phases_def)
    then have q: "q \<in> set (a1 @ a2)" using that mset_eq_setD [OF m] by auto
    have "owned (act s) = owned a1 @ idxs r @ owned a2" by (simp add: a owned_def)
    then have "set (owned (a1 @ a2)) \<inter> set (idxs r) = {}" using v(1) by auto
    then have "q0 q \<noteq> q0 r" using owned_mem [OF q] by (auto simp: idxs_def)
    moreover have "q_b r \<notin> q_b ` set (a1 @ a2)" using v(4) unfolding a by auto
    then have "q_b q \<noteq> q_b r" using q by (metis imageI)
    ultimately show ?thesis by blast
  qed
  have co: "calls d' (cp @ fn) = calls (dk s) (cp @ fn)" by (rule calls_cong) (use ap in \<open>auto simp: call_of_def d(1) tk(3)\<close>)
  then have co': "calls d' ((cp @ [r]) @ fn) = add_mset t (calls (dk s) (cp @ fn))" unfolding t' by (simp add: calls_def)
  have new: "bdisk d' = bdisk (dk s)" "avail_ring d' = avail_ring (dk s)" "avail_idx d' = avail_idx (dk s)"
      "\<And>q. q \<in> set fn \<Longrightarrow> info_status d' (q0 q) = info_status (dk s) (q0 q)"
    using ap by (simp_all add: d(1) tk(3))
  have "ring (used_ring d') (used_idx d') (map q0 (cp @ [r])) (uidx d')"
    using ring_push [of "used_ring (dk s)" "used_idx (dk s)" "map q0 cp" "uidx (dk s)" "q0 r"] ph few [OF inv] phases_sets(2) [OF ph]
    by (simp add: phases_def tk(3) d(1) NUM_def)
  then have "phases ?s qd (t1 @ t2) (cp @ [r]) fn"
    using ph co' new unfolding phases_def tk by (simp del: append_assoc map_append) (simp add: Un_commute insert_commute)
  moreover have "contents im ?s"
  proof -
    have "served im (vlog s @ [t]) im'" if "\<forall>x\<in>set (vlog s @ [t]). t_status x = 0"
    proof -
      have "w = 0" using that t' tk(3) by (simp add: call_of_def d(1))
      then show ?thesis using d(4) v(6) that t' unfolding served_append contents_def by auto
    qed
    moreover have "q_wr q \<longrightarrow> bufs d' (q_b q) = q_data q" if "q \<in> set (act s)" for q
    proof -
      have "q = r \<or> q_b q \<noteq> q_b r" using ap phases_sets(1) [OF ph] that tk(1) by auto
      then show ?thesis using v(6) d(3) that r by (auto simp: contents_def d(1))
    qed
    ultimately show ?thesis using v(6) len' by (simp add: contents_def)
  qed
  ultimately show ?thesis using inv ch by (auto simp: vinv_def d(1))
qed

lemma fill_inv:
  assumes inv: "vinv im s" and b: "b \<notin> q_b ` set (act s)" "length bs = BSIZE"
  shows "vinv im (s\<lparr>dk := (dk s)\<lparr>bufs := (bufs (dk s))(b := bs)\<rparr>\<rparr>)"
proof -
  let ?d = "(dk s)\<lparr>bufs := (bufs (dk s))(b := bs)\<rparr>"
  note v = vinvD [OF inv]
  obtain qd tk cp fn where ph: "phases s qd tk cp fn" using inv by (auto simp: vinv_def)
  have "calls ?d (cp @ fn) = calls (dk s) (cp @ fn)" by (rule calls_cong) (use b(1) phases_sets(1) [OF ph] in \<open>auto simp: call_of_def\<close>)
  then have "phases (s\<lparr>dk := ?d\<rparr>) qd tk cp fn" using ph by (simp add: phases_def)
  moreover have "contents im (s\<lparr>dk := ?d\<rparr>)" using v(6) b by (auto simp: contents_def)
  moreover have "chain_ok ?d r = chain_ok (dk s) r" for r by (rule chain_cong) simp
  ultimately show ?thesis using inv by (auto simp: vinv_def)
qed

lemma intr_inv:
  assumes inv: "vinv im s"
  shows "(\<exists>d'. virtio_disk_intr (dk s) = Ok d' \<and> vinv im (s\<lparr>dk := d'\<rparr>) \<and>
      (seen s = avail_idx (dk s) \<and> dtaken s = [] \<longrightarrow> (\<forall>r\<in>set (act s). \<not> bdisk d' (q_b r)))) \<or>
    virtio_disk_intr (dk s) = Panic ''virtio_disk_intr status'' \<and> (\<exists>t\<in>set (vlog s). t_status t \<noteq> 0)"
proof -
  note v = vinvD [OF inv]
  obtain qd tk cp fn where ph: "phases s qd tk cp fn" using inv by (auto simp: vinv_def)
  note sets = phases_sets [OF ph]
  let ?d = "(dk s)\<lparr>bdisk := \<lambda>b. bdisk (dk s) b \<and> b \<notin> q_b ` set cp, used_idx := uidx (dk s)\<rparr>"
  have run: "virtio_disk_intr (dk s) = (if \<forall>r\<in>set cp. info_status (dk s) (q0 r) = 0 then Ok ?d else Panic ''virtio_disk_intr status'')"
  proof (rule intr_spec)
    show "info_b (dk s) (q0 r) = Some (q_b r)" if "r \<in> set cp" for r
      using v(5) [of r] sets(1) that by (auto simp: chain_ok_def)
  qed (use ph few [OF inv] sets(2) in \<open>simp_all add: phases_def\<close>)
  show ?thesis
  proof (cases "\<forall>r\<in>set cp. info_status (dk s) (q0 r) = 0")
    case False
    then obtain r where r: "r \<in> set cp" "info_status (dk s) (q0 r) \<noteq> 0" by blast
    have "call_of (dk s) r \<in># mset (vlog s)" using ph r(1) by (simp add: phases_def calls_def)
    moreover have "t_status (call_of (dk s) r) \<noteq> 0" using r(2) by (simp add: call_of_def)
    ultimately show ?thesis using run False by auto
  next
    case True
    then have ok: "virtio_disk_intr (dk s) = Ok ?d" using run by simp
    have dist: "q_b r \<notin> q_b ` set cp" if "r \<in> set qd \<union> set tk" for r
    proof -
      have "mset (map q_b (act s)) = mset (map q_b (qd @ tk @ cp @ fn))" using ph by (simp add: phases_def)
      then have "distinct (map q_b (qd @ tk @ cp @ fn))" using v(4) mset_eq_imp_distinct_iff by blast
      then show ?thesis using that by auto
    qed
    have "calls ?d (cp @ fn) = calls (dk s) (cp @ fn)" by (rule calls_cong) (simp add: call_of_def)
    then have "phases (s\<lparr>dk := ?d\<rparr>) qd tk [] (cp @ fn)" using ph dist True by (auto simp: phases_def ring_def)
    moreover have "chain_ok ?d r = chain_ok (dk s) r" for r by (rule chain_cong) simp
    ultimately have "vinv im (s\<lparr>dk := ?d\<rparr>)" using inv by (auto simp: vinv_def contents_def)
    moreover have "\<not> bdisk ?d (q_b r)" if "seen s = avail_idx (dk s)" "dtaken s = []" "r \<in> set (act s)" for r
    proof -
      have rg: "ring (avail_ring (dk s)) (seen s) (map q0 qd) (avail_idx (dk s))" using ph by (simp add: phases_def)
      have "qd = []" using ring_empty [OF rg] that(1) few [OF inv] sets(2) by simp
      moreover have "tk = []" using ph that(2) by (simp add: phases_def)
      ultimately show ?thesis using sets(1) that(3) ph by (auto simp: phases_def)
    qed
    ultimately show ?thesis using ok by blast
  qed
qed

lemma return_inv:
  assumes inv: "vinv im s" and r: "r \<in> set (act s)" "\<not> bdisk (dk s) (q_b r)"
  shows "\<exists>d'. rw_finish (q0 r) (dk s) = Ok d' \<and> vinv im (s\<lparr>dk := d', act := remove1 r (act s), returned := returned s @ [call_of (dk s) r]\<rparr>)"
proof -
  note v = vinvD [OF inv]
  obtain qd tk cp fn where ph: "phases s qd tk cp fn" using inv by (auto simp: vinv_def)
  have "r \<in> set fn" using phases_sets(1) [OF ph] r ph by (auto simp: phases_def)
  then obtain f1 f2 where fn: "fn = f1 @ r # f2" by (metis split_list)
  obtain a1 a2 where a: "act s = a1 @ r # a2" "r \<notin> set a1" using r(1) by (metis split_list_first)
  then have rm: "remove1 r (act s) = a1 @ a2" by (simp add: remove1_append)
  have own: "owned (act s) = owned a1 @ idxs r @ owned a2" by (simp add: a(1) owned_def)
  have i: "distinct (idxs r)" "set (idxs r) \<subseteq> {..<NUM}" using v(1,2) unfolding own by auto
  let ?d = "(dk s)\<lparr>info_b := (info_b (dk s))(q0 r := None),
      desc := (desc (dk s))(q0 r := no_desc, q1 r := no_desc, q2 r := no_desc), vfree := (vfree (dk s))(q0 r := True, q1 r := True, q2 r := True)\<rparr>"
  have ok: "rw_finish (q0 r) (dk s) = Ok ?d"
    by (rule finish_spec [OF v(5) [OF r(1)] i]) (use v(3) i(2) own in auto)
  let ?s = "s\<lparr>dk := ?d, act := a1 @ a2, returned := returned s @ [call_of (dk s) r]\<rparr>"
  have "set (owned (a1 @ a2)) \<inter> set (idxs r) = {}" using v(1) unfolding own by auto
  then have apart: "{q0 x, q1 x, q2 x} \<inter> {q0 r, q1 r, q2 r} = {}" if "x \<in> set (a1 @ a2)" for x
    using owned_mem [OF that] unfolding idxs_def list.set by blast
  have "chain_ok ?d x = chain_ok (dk s) x" if x: "x \<in> set (a1 @ a2)" for x
  proof (rule chain_cong)
    fix i assume "i \<in> {q0 x, q1 x, q2 x}"
    then have "i \<noteq> q0 r" "i \<noteq> q1 r" "i \<noteq> q2 r" using apart [OF x] by blast+
    then show "desc ?d i = desc (dk s) i \<and> ops ?d i = ops (dk s) i \<and> info_b ?d i = info_b (dk s) i" by simp
  qed
  then have "chain_ok ?d x" if "x \<in> set (a1 @ a2)" for x using v(5) [of x] that a(1) by auto
  moreover have "mset (a1 @ a2) = mset (qd @ tk @ cp @ f1 @ f2)" using ph by (simp add: phases_def fn a(1))
  moreover have "calls ?d (cp @ f1 @ f2) = calls (dk s) (cp @ f1 @ f2)" by (rule calls_cong) (simp add: call_of_def)
  moreover have "mset (vlog s) = mset (returned s @ [call_of (dk s) r]) + calls (dk s) (cp @ f1 @ f2)" using ph by (simp add: phases_def fn calls_def)
  moreover have "contents im ?s" using v(6) a(1) ph by (auto simp: contents_def phases_def fn call_of_def)
  ultimately have ch: "\<forall>x\<in>set (a1 @ a2). chain_ok ?d x" and "phases ?s qd tk cp (f1 @ f2)" "contents im ?s" using ph by (simp_all add: phases_def fn)
  moreover have "vfree ?d j = (j \<notin> set (owned (a1 @ a2)))" if "j < NUM" for j
  proof -
    have "vfree ?d j = (j \<in> set (idxs r) \<or> vfree (dk s) j)" by (auto simp: idxs_def)
    then show ?thesis using v(1) v(3) [OF that] unfolding own by auto
  qed
  moreover have "distinct (owned (a1 @ a2))" "set (owned (a1 @ a2)) \<subseteq> {..<NUM}" "distinct (map q_b (a1 @ a2))"
    using v(1,2,4) unfolding own by (auto simp: a(1))
  ultimately have "vinv im ?s" unfolding vinv_def by (simp del: owned_append) blast
  then show ?thesis using ok rm by auto
qed


lemma vstep_inv: "vstep dev s s' \<Longrightarrow> virtio_blk dev \<Longrightarrow> vinv im s \<Longrightarrow> vinv im s'"
proof (induction rule: vstep.induct)
  case (v_submit b bno wr s i0 i1 i2 d')
  show ?case
  proof (cases rule: alloc3_cases [of "dk s"])
    case (2 j0 j1 j2)
    then have "j0 = i0" "j1 = i1" "j2 = i2" and d': "d' = rw_submit b bno wr i0 i1 i2 ((dk s)\<lparr>vfree := (vfree (dk s))(i0 := False, i1 := False, i2 := False)\<rparr>)"
      using v_submit(1) by (auto simp: rw_try_def)
    then show ?thesis using submit_inv [OF v_submit(4) d'] 2 v_submit(2) by blast
  qed (use v_submit(1) in \<open>auto simp: rw_try_def\<close>)
next
  case (v_full b bno wr s d')
  then show ?case using full_inv by (cases rule: alloc3_cases [of "dk s"]) (auto simp: rw_try_def)
next
  case (v_intr s d')
  then show ?case using intr_inv [of im s] by auto
next
  case (v_return r s d')
  then show ?case using return_inv [of im s r] by auto
qed (auto intro: fetch_inv complete_inv fill_inv)

interpretation vq: step_invariant "\<lambda>s s'. virtio_blk dev \<and> vstep dev s s'" "vinv im" for dev im
  by unfold_locales (use vstep_inv in blast)

text \<open>The driver after initialisation, nothing asked yet.\<close>

definition vstart :: "vdisk \<Rightarrow> image \<Rightarrow> vsys" where
  "vstart d im = \<lparr>dk = d, img = im, act = [], returned = [], seen = 0, dtaken = [], vlog = []\<rparr>"

lemma vstart_inv:
  assumes "virtio_disk_init rd ack pd pa pu st = Ok (w, d)" "used_idx st = 0" "\<forall>b. length (bufs st b) = BSIZE"
  shows "vinv im (vstart d im)"
proof -
  have d: "avail_idx d = 0" "uidx d = 0" "used_idx d = 0" "\<And>i. i < NUM \<Longrightarrow> vfree d i" "bufs d = bufs st" using assms by (auto simp: virtio_disk_init_def split: if_splits)
  then have "phases (vstart d im) [] [] [] []" by (simp add: phases_def vstart_def ring_def calls_def)
  moreover have "contents im (vstart d im)" using d(5) assms(3) by (simp add: contents_def vstart_def)
  ultimately show ?thesis using d by (auto simp: vinv_def vstart_def)
qed

lemma reach_vinv:
  assumes "virtio_blk dev" "virtio_disk_init rd ack pd pa pu st = Ok (w, d)" "used_idx st = 0" "\<forall>b. length (bufs st b) = BSIZE"
    "(vstep dev)\<^sup>*\<^sup>* (vstart d im) s"
  shows "vinv im s"
  by (rule vq.reach [of dev]) (use assms(1,5) vstart_inv [OF assms(2-4)] in simp_all)

lemma rw_try_total: "\<exists>x. rw_try b bno wr st = Ok x"
  by (cases rule: alloc3_cases [of st]) (auto simp: rw_try_def)

text \<open>
  C8. The disk driver with any device that keeps to the VirtIO specification. From initialisation on, however
  calls, the device and interrupts are interleaved and in whatever order the device completes requests:
  \<^item> No call panics, nor does the release of a call's descriptors; the interrupt handler panics only for its status check,
    and only if the device has reported an error. When the device has nothing left to do, the handler has marked the buffers of all the calls.
  \<^item> Every chain the device works on is a request in the sense of the specification, for one block and for a
    call that waits for it: with the call's sector, direction and buffer.
  \<^item> The transfers made are those of the calls that have returned, one each, and those of some calls that are still
    to return, one each; no call returns without its transfer or with an error, and it returns with the data transferred. A call that writes transfers what the buffer held when it was made.
  \<^item> As long as the device reports no error, the disk is what the writes made of it in the order of the transfers, and every
    read got the block that was on the disk at its turn.
\<close>

theorem virtio_safe:
  assumes "virtio_blk dev" "virtio_disk_init rd ack pd pa pu st = Ok (w, d)" "used_idx st = 0" "\<forall>b. length (bufs st b) = BSIZE"
    "(vstep dev)\<^sup>*\<^sup>* (vstart d im) s"
  shows "(\<forall>b bno wr. \<exists>x. rw_try b bno wr (dk s) = Ok x) \<and>
    ((\<exists>d'. virtio_disk_intr (dk s) = Ok d' \<and> (seen s = avail_idx (dk s) \<and> dtaken s = [] \<longrightarrow> (\<forall>r\<in>set (act s). \<not> bdisk d' (q_b r)))) \<or>
      virtio_disk_intr (dk s) = Panic ''virtio_disk_intr status'' \<and> (\<exists>t\<in>set (vlog s). t_status t \<noteq> 0)) \<and>
    (\<forall>r\<in>set (act s). \<not> bdisk (dk s) (q_b r) \<longrightarrow> (\<exists>d'. rw_finish (q0 r) (dk s) = Ok d')) \<and>
    (\<forall>h\<in>set (dtaken s). \<exists>r\<in>set (act s). q0 r = h \<and> request (dk s) h h (q_b r) h \<and> transfer_of (dk s) h = Some (call_of (dk s) r) \<and>
      d_len (desc (dk s) (d_next (desc (dk s) h))) = BSIZE) \<and>
    (\<exists>over. over \<subseteq># mset (act s) \<and> mset (vlog s) = mset (returned s) + image_mset (call_of (dk s)) over) \<and>
    (\<forall>t\<in>set (returned s). t_status t = 0) \<and> (\<forall>r\<in>set (act s). q_wr r \<longrightarrow> bufs (dk s) (q_b r) = q_data r) \<and>
    ((\<forall>t\<in>set (vlog s). t_status t = 0) \<longrightarrow> served im (vlog s) (img s))"
proof -
  have inv: "vinv im s" using reach_vinv [OF assms] .
  obtain qd tk cp fn where ph: "phases s qd tk cp fn" using inv by (auto simp: vinv_def)
  have co: "contents im s" by (rule vinvD(6) [OF inv])
  have "\<exists>r\<in>set (act s). q0 r = h \<and> request (dk s) h h (q_b r) h \<and> transfer_of (dk s) h = Some (call_of (dk s) r) \<and>
      d_len (desc (dk s) (d_next (desc (dk s) h))) = BSIZE" if h: "h \<in> set (dtaken s)" for h
  proof -
    obtain r where r: "r \<in> set tk" "h = q0 r" using h ph by (auto simp: phases_def)
    moreover have a: "r \<in> set (act s)" using r(1) phases_sets(1) [OF ph] by blast
    moreover have "length (bufs (dk s) (q_b r)) = BSIZE" using co by (simp add: contents_def)
    ultimately show ?thesis using chain_request [OF vinvD(5) [OF inv a]] by blast
  qed
  moreover have "\<exists>over. over \<subseteq># mset (act s) \<and> mset (vlog s) = mset (returned s) + image_mset (call_of (dk s)) over"
    using ph by (intro exI [of _ "mset (cp @ fn)"]) (simp add: phases_def calls_def)
  ultimately show ?thesis using rw_try_total intr_inv [OF inv] return_inv [OF inv] co unfolding contents_def by blast
qed

text \<open>One device that keeps to the specification, for every disk it is started on; it reports no errors.\<close>

definition blk_device :: device where
  "blk_device st im h st' im' =
     (let i = h; d1 = desc st (d_next (desc st h)); n = d_len d1; sec = r_sector (ops st i) in
      case d_addr d1 of AData b \<Rightarrow>
        st' = st\<lparr>info_status := (info_status st)(h := 0), bufs := (bufs st)(b := (if r_type (ops st i) = 0 then disk_read im sec n @ drop n (bufs st b) else bufs st b)),
          used_ring := (used_ring st)(unat (uidx st) mod NUM := h), uidx := uidx st + 1\<rparr> \<and>
        im' = (if r_type (ops st i) = 0 then im else disk_write sec (take n (bufs st b)) im) \<and> d_addr (desc st h) = AOps h \<and>
        d_addr (desc st (d_next d1)) = AStatus h
      | _ \<Rightarrow> False)"

lemma blk_device_ok: "virtio_blk blk_device"
  unfolding virtio_blk_def
proof (intro allI impI, elim conjE)
  fix st im h st' im' i b k assume d: "blk_device st im h st' im'" "request st h i b k"
  let ?d1 = "desc st (d_next (desc st h))"
  have a: "d_addr ?d1 = AData b" "d_addr (desc st h) = AOps i" "d_addr (desc st (d_next ?d1)) = AStatus k" "d_len ?d1 \<le> length (bufs st b)"
      "r_type (ops st i) = 0 \<or> r_type (ops st i) = 1"
    using d(2) by (auto simp: request_def Let_def)
  then have e: "i = h" "k = h" using d(1) by (auto simp: blk_device_def Let_def)
  let ?bs = "if r_type (ops st i) = 0 then disk_read im (r_sector (ops st i)) (d_len ?d1) @ drop (d_len ?d1) (bufs st b) else bufs st b"
  have "length ?bs = length (bufs st b)" using a(4) by (simp add: disk_read_def)
  then show "\<exists>v bs. st' = st\<lparr>info_status := (info_status st)(k := v), bufs := (bufs st)(b := bs),
        used_ring := (used_ring st)(unat (uidx st) mod NUM := h), uidx := uidx st + 1\<rparr> \<and>
      length bs = length (bufs st b) \<and> (r_type (ops st i) = 1 \<longrightarrow> bs = bufs st b) \<and>
      (v = 0 \<longrightarrow> (let n = d_len ?d1; sec = r_sector (ops st i) in
         if r_type (ops st i) = 0 then bs = disk_read im sec n @ drop n (bufs st b) \<and> im' = im
         else im' = disk_write sec (take n (bufs st b)) im))"
    using d(1) a e by (intro exI [of _ 0] exI [of _ ?bs]) (auto simp: blk_device_def Let_def)
qed


definition qemu_regs :: "vreg \<Rightarrow> u32" where
  "qemu_regs r = (case r of MAGIC_VALUE \<Rightarrow> 0x74726976 | VERSION \<Rightarrow> 2 | DEVICE_ID \<Rightarrow> 2 | VENDOR_ID \<Rightarrow> 0x554d4551 | QUEUE_NUM_MAX \<Rightarrow> 1024 | _ \<Rightarrow> 0)"

definition static_disk :: vdisk where
  "static_disk = \<lparr>desc = \<lambda>_. no_desc, avail_idx = 0, avail_ring = \<lambda>_. 0, uidx = 0, used_ring = \<lambda>_. 0, vfree = \<lambda>_. False, used_idx = 0,
     info_b = \<lambda>_. None, info_status = \<lambda>_. 0, ops = \<lambda>_. \<lparr>r_type = 0, r_reserved = 0, r_sector = 0\<rparr>, bdisk = \<lambda>_. False,
     bufs = \<lambda>_. replicate BSIZE 0\<rparr>"

text \<open>A read of block 7 into buffer 5, carried out by that device on a disk full of nines; the interrupt handler is next.\<close>

theorem virtio_safe_witness:
  "\<exists>w d s d'. virtio_disk_init qemu_regs 11 0x80100000 0x80101000 0x80102000 static_disk = Ok (w, d) \<and>
     (vstep blk_device)\<^sup>*\<^sup>* (vstart d (\<lambda>_. 9)) s \<and>
     vlog s = [\<lparr>t_wr = False, t_sector = 14, t_b = 5, t_data = replicate BSIZE 9, t_status = 0\<rparr>] \<and>
     virtio_disk_intr (dk s) = Ok d' \<and> \<not> bdisk d' 5 \<and> bdisk (dk s) 5"
proof -
  obtain w d where init: "virtio_disk_init qemu_regs 11 0x80100000 0x80101000 0x80102000 static_disk = Ok (w, d)" and fr: "vfree d = (\<lambda>i. i < NUM)"
      and ix: "avail_idx d = 0" "bufs d = bufs static_disk"
    by (simp add: virtio_disk_init_def qemu_regs_def static_disk_def NUM_def)
  have up: "[0..<NUM] = [0, 1, 2, 3, 4, 5, 6, 7]" by (simp add: NUM_def upt_rec)
  have lt: "0 < NUM" "1 < NUM" "Suc 0 < NUM" "2 < NUM" by (simp_all add: NUM_def)
  define d1 where "d1 = rw_submit 5 7 False 0 1 2 (d\<lparr>vfree := (vfree d)(0 := False, 1 := False, 2 := False)\<rparr>)"
  have try1: "rw_try 5 7 False d = Ok (Some (0, 1, 2), d1)"
    using fr by (simp add: rw_try_def alloc3_desc_def alloc_desc_def up lt d1_def)
  let ?r = "\<lparr>q_b = 5, q_bno = 7, q_wr = False, q_data = bufs d 5, q0 = 0, q1 = 1, q2 = 2\<rparr>"
  let ?s1 = "(vstart d (\<lambda>_. 9))\<lparr>dk := d1, act := [?r]\<rparr>"
  have s1: "vstep blk_device (vstart d (\<lambda>_. 9)) ?s1" using v_submit [of 5 7 False "vstart d (\<lambda>_. 9)" 0 1 2 d1 blk_device] try1 by (simp add: vstart_def)
  let ?s2 = "?s1\<lparr>seen := 1, dtaken := [avail_ring d1 0]\<rparr>"
  have av: "avail_idx d1 = 1" "avail_ring d1 0 = 0" "bdisk d1 5" "bufs d1 5 = replicate BSIZE 0" using ix by (simp_all add: d1_def rw_submit_def static_disk_def)
  then have s2: "vstep blk_device ?s1 ?s2" "dtaken ?s2 = [] @ 0 # []" using v_fetch [of ?s1 blk_device] by (simp_all add: vstart_def)
  have sec: "sector_of 7 = 14" by (simp add: sector_of_def BSIZE_def)
  have rd: "disk_read (\<lambda>_. 9) 14 BSIZE = replicate BSIZE 9" by (simp add: disk_read_def map_replicate_const)
  define d2 where "d2 = d1\<lparr>info_status := (info_status d1)(0 := 0), bufs := (bufs d1)(5 := replicate BSIZE 9),
     used_ring := (used_ring d1)(unat (uidx d1) mod NUM := 0), uidx := uidx d1 + 1\<rparr>"
  let ?t = "\<lparr>t_wr = False, t_sector = 14, t_b = 5, t_data = replicate BSIZE 9, t_status = 0\<rparr>"
  have dev: "blk_device (dk ?s2) (img ?s2) 0 d2 (\<lambda>_. 9)" "transfer_of d2 0 = Some ?t" "bdisk d2 5"
    using av(4) sec rd by (simp_all add: blk_device_def transfer_of_def d2_def d1_def rw_submit_def vstart_def)
  let ?s3 = "?s2\<lparr>dk := d2, img := \<lambda>_. 9, dtaken := [], vlog := [?t]\<rparr>"
  have s3: "vstep blk_device ?s2 ?s3" using v_complete [where dev = blk_device, OF s2(2) dev(1,2)] by (simp add: vstart_def)
  have run: "(vstep blk_device)\<^sup>*\<^sup>* (vstart d (\<lambda>_. 9)) ?s3" using s1 s2(1) s3 by (meson rtranclp.rtrancl_refl rtranclp.rtrancl_into_rtrancl)
  have st: "used_idx static_disk = 0" "\<forall>b. length (bufs static_disk b) = BSIZE" by (simp_all add: static_disk_def)
  have idle: "seen ?s3 = avail_idx (dk ?s3)" using av(1) by (simp add: d2_def)
  from virtio_safe [OF blk_device_ok init st run] idle obtain d' where "virtio_disk_intr (dk ?s3) = Ok d'" "\<not> bdisk d' 5" by auto
  then show ?thesis using init run dev(3) by (intro exI [of _ w] exI [of _ d] exI [of _ ?s3] exI [of _ d']) simp
qed

end
