(* ===== verification/Spec2Isabelle.thy ===== *)
theory Spec2Isabelle
  imports Spinlock FsNames FsTrunc Sched Clock Boot Grep Umalloc ShellParse ShellRun Virtio
begin

text \<open>
  A verification development for the operating system of this repository: the xv6 kernel for RISC-V
  with the course's extensions (a multi-level feedback queue scheduler, demand paging with swap, a
  simulated RAID array behind the swap area, disk request scheduling), and the user programs with an
  algorithm of their own. Sources are named below \<^verbatim>\<open>src/XV6 CODE/\<close>.

  \<^bold>\<open>The system.\<close> User programs enter the kernel through traps (\<^verbatim>\<open>kernel/trap.c\<close>), which dispatch system
  calls (\<^verbatim>\<open>syscall.c\<close>, \<^verbatim>\<open>sysproc.c\<close>, \<^verbatim>\<open>sysfile.c\<close>), page faults and interrupts. Below lie two stacks. Files:
  open files (\<^verbatim>\<open>file.c\<close>) over pipes (\<^verbatim>\<open>pipe.c\<close>), the console (\<^verbatim>\<open>console.c\<close>, \<^verbatim>\<open>uart.c\<close>) and inodes (\<^verbatim>\<open>fs.c\<close>), over
  the log (\<^verbatim>\<open>log.c\<close>), the buffer cache (\<^verbatim>\<open>bio.c\<close>), the request scheduler (\<^verbatim>\<open>disksched.c\<close>) and the disk driver
  (\<^verbatim>\<open>virtio_disk.c\<close>). Memory: address spaces (\<^verbatim>\<open>vm.c\<close>) over page tables, the page allocator with its frame table
  and clock (\<^verbatim>\<open>kalloc.c\<close>), and swap (\<^verbatim>\<open>swap.c\<close>) over the array (\<^verbatim>\<open>raid.c\<close>). Processes (\<^verbatim>\<open>proc.c\<close>, \<^verbatim>\<open>exec.c\<close>) use
  both; spin and sleep locks (\<^verbatim>\<open>spinlock.c\<close>, \<^verbatim>\<open>sleeplock.c\<close>) protect all of it.

  \<^bold>\<open>Conventions.\<close> One definition per function of the source, under its name where Isabelle allows it.
  \<open>panic\<close> is the value \<open>Panic\<close> of the result type (theory \<open>Prelude\<close>); error returns are values. Machine
  integers are words where wrap-around can matter. A function that sleeps is cut there: it returns
  that it sleeps, and its continuation is resumed by the scheduler's model. Loops are recursive
  functions with a termination proof, or partial functions into options where the code need not end
  (\<open>strlen\<close>, the loops of \<open>malloc\<close> and \<open>free\<close>), proved to return; no fuel is used. \<open>clock_sweep\<close> counts down
  the \<open>2 * MAX_FRAMES\<close> turns of the code's own loops.

  \<^bold>\<open>Theories, bottom up.\<close>
  \<^item> \<open>Prelude\<close>, \<open>Bytes\<close>: results, counted loops, table searches, rings; integers in byte blocks.
  \<^item> \<open>Raid\<close>: disks, RAID 0, 1 and 5, failure and rebuild. What is written reads back in every mode, one
    failed disk is survived, degraded writes of RAID 1 are kept; those of RAID 5 are lost (finding).
  \<^item> \<open>Disksched\<close>: the request table. Selection is optimal for FCFS and SSTF, draining ends, and every one of the first
    \<open>2 ^ 32 - 1\<close> submissions hands its own request to the driver (so the policies never matter, a finding).
  \<^item> \<open>Virtio\<close>: the driver's queue against any device that keeps to the VirtIO specification, which is the parameter \<open>dev\<close>
    with the law \<open>virtio_blk\<close>: it completes requests in any order, heeds the lengths and directions of their descriptors, and may
    report errors. Calls do not panic, the interrupt handler only on a reported error; chains are well-formed
    requests; each call that returns has had its transfer made once, and the disk is what the writes made of it.
  \<^item> \<open>Kmem\<close>, \<open>PageTable\<close>, \<open>Cstring\<close>: the free list inside physical memory (no page given out twice), Sv39
    tables in memory (what \<open>mappages\<close> maps \<open>walkaddr\<close> finds), string routines.
  \<^item> \<open>Spinlock\<close>: spin locks at the grain of memory accesses for any number of CPUs (mutual exclusion,
    interrupt nesting), and sleep locks.
  \<^item> \<open>Bio\<close>, \<open>Cache\<close>, \<open>Log\<close>: the LRU cache; its contract as weakest preconditions; commit and recovery.
    A crash at any write leaves a disk that recovers to the state before or after the transaction;
    operations of at most \<open>MAXOPBLOCKS\<close> different blocks never overrun the log's space.
  \<^item> \<open>Fs\<close>, \<open>FsNames\<close>: all of \<^verbatim>\<open>fs.c\<close>; path elements, directory names, the inode table's references.
  \<^item> \<open>FsBlocks\<close>, \<open>FsFile\<close>, \<open>FsWrite\<close>, \<open>FsCrash\<close>, \<open>FsTrunc\<close>: \<^verbatim>\<open>fs.c\<close> inside a transaction. The bitmap allocator; the block map of an
    inode with direct and indirect blocks; \<open>writei\<close> and \<open>readi\<close> refine a file to a sequence of bytes, and a call of
    \<open>writei\<close> keeps to the \<open>MAXOPBLOCKS\<close> blocks of log that \<open>begin_op\<close> reserves; with the log below, a write survives
    a crash whole or not at all; \<open>itrunc\<close> gives back exactly the blocks of its file.
  \<^item> \<open>Kstate\<close>, \<open>Swap\<close>, \<open>Clock\<close>, \<open>Vm\<close>: the kernel's shared state; swap slots and the clock (its choice is
    characterised; swapped pages come back); address spaces, faults and user copies.
  \<^item> \<open>Proc\<close>, \<open>Sched\<close>: the process table; the scheduler picks a runnable process of the best level, and at the
    top level nobody starves.
  \<^item> \<open>Printf\<close>, \<open>Console\<close>, \<open>Pipe\<close>, \<open>File\<close>, \<open>Exec\<close>, \<open>Sysfile\<close>, \<open>Syscall\<close>, \<open>Trap\<close>: formatted output against \<open>atoi\<close>, a 32-bit
    sum, and on the console against the user's \<open>printf\<close>; line editing refines an editor on lists; pipes are streams; then the
    calls themselves.
  \<^item> \<open>Frame\<close>, \<open>Kinv\<close>, \<open>Life\<close>, \<open>Calls\<close>, \<open>Boot\<close>: what memory management leaves alone; the kernel's invariant
    (process ids, parents, descriptors, reference counts, scheduling levels and ticks) through every call, trap and
    scheduler round, from the first process on.
  \<^item> \<open>Grep\<close>, \<open>Umalloc\<close>, \<open>Shell\<close>, \<open>ShellParse\<close>, \<open>ShellRun\<close>: the matcher of \<^verbatim>\<open>user/grep.c\<close> against the language
    of a pattern; the allocator of \<^verbatim>\<open>user/umalloc.c\<close>; the shell's parser (it reads back every printed
    command) and the descriptors it sets up.

  \<^bold>\<open>How the parts are composed.\<close> \<open>kernel\<close> (theory \<open>File\<close>) is the whole state: memory, processes, swap and frames
  (\<open>kstate\<close>), files, file system, pipes, console. Calls of one component from another go through
  \<open>on_ks\<close> and \<open>on_fs\<close>. \<open>mstep\<close> (theory \<open>Calls\<close>) is the machine between kernel entries: the scheduler or one user
  process runs, user code changes its memory and registers at will and traps at any point; the
  properties of \<open>Boot\<close> hold in every state it reaches. The contracts between components are locales:
  \<open>block_device\<close> (what is written reads back), interpreted for each RAID mode, \<open>page_pool\<close> for the page
  allocator, \<open>step_invariant\<close> for the machine, the driver's queue and the user heap. One field of \<open>kstate\<close> is not in the code:
  \<open>npids\<close> counts the process ids handed out, for the statement of a bound; no operation reads it.

  \<^bold>\<open>Bounds.\<close> The properties of \<open>writei\<close> are for a disk with one bitmap block (8192 blocks; \<^verbatim>\<open>param.h\<close> has 2000) and the
  three blocks per call that \<open>filewrite\<close> passes. The heap of a user program stays below \<open>2 ^ 36\<close> bytes and a request below 2 GiB (larger ones
  break the code, lemma \<open>malloc_huge\<close>); lines for the shell have at most 99 bytes, as its buffer has. \<open>grep\<close> is
  described for every file: it searches up to the first NUL byte and the first line of more than 1022 bytes. Process ids are unique
  while fewer than \<open>2 ^ 31 - 1\<close> have been handed out, before \<open>nextpid\<close> wraps around; disk requests are served while fewer
  than \<open>2 ^ 32 - 1\<close> have been submitted, before \<open>dq_seq\<close> reaches the value that the selection loop starts from.

  \<^bold>\<open>Not modelled.\<close> Machine-mode start-up, the interrupt controller's registers, context switches and the
  trampoline are assembly and device accesses; what they establish is in the initial states. Kernel
  code of several CPUs is interleaved in the lock theory only, elsewhere the lock's holder runs alone.
  The file system's calls run without another process between their sleeps; in \<open>mstep\<close> interrupts are taken in user mode and in the
  scheduler, not inside a system call. The small user programs
  and the tests only call the kernel; \<^verbatim>\<open>mkfs\<close> runs on the host.
\<close>

end
